(* ===== verification/Prelude.thy ===== *)
theory Prelude
  imports Complex_Main "HOL-Library.AList" "HOL-Library.Char_ord" "HOL-Library.List_Lexorder"
    "HOL-Library.Multiset"
begin

text \<open>
  Shared vocabulary of the development: Python exceptions and the result type of code that
  may raise, insertion-ordered dictionaries as association lists, the string operations of
  the Python standard library the sources use, JSON-like values, and the generic lemmas the
  component theories rest on.  Strings are lists of 8-bit code points (Latin-1); floats are
  reals, so rounding is not modelled.
\<close>

section \<open>Theorem collections\<close>

named_theorems dict_simps \<open>look-ups after dictionary updates\<close>
named_theorems result_simps \<open>case distinctions on results\<close>

section \<open>Exceptions and results\<close>

text \<open>The exceptions the modelled code raises; the string is the message.\<close>

datatype exn =
    ValueError string
  | KeyError string
  | IndexError string
  | TypeError string
  | AttributeError string
  | RuntimeError string
  | TimeoutError string
  | OutOfFuel

type_synonym 'a result = "exn + 'a"

definition bind_result :: "'a result \<Rightarrow> ('a \<Rightarrow> 'b result) \<Rightarrow> 'b result" where
  "bind_result m f = (case m of Inl e \<Rightarrow> Inl e | Inr x \<Rightarrow> f x)"

lemma bind_result_simps [simp]:
  "bind_result (Inl e) f = Inl e"
  "bind_result (Inr x) f = f x"
  by (simp_all add: bind_result_def)

lemma bind_result_cong [fundef_cong]:
  assumes "m = m'" and "\<And>x. m' = Inr x \<Longrightarrow> f x = f' x"
  shows "bind_result m f = bind_result m' f'"
  using assms by (cases m') auto

lemma bind_result_Inr_iff [result_simps]:
  "bind_result m f = Inr y \<longleftrightarrow> (\<exists>x. m = Inr x \<and> f x = Inr y)"
  by (cases m) auto

lemma bind_result_Inl_iff [result_simps]:
  "bind_result m f = Inl e \<longleftrightarrow> m = Inl e \<or> (\<exists>x. m = Inr x \<and> f x = Inl e)"
  by (cases m) auto

text \<open>The result is a value that passes a test.\<close>

definition returns :: "'a result \<Rightarrow> ('a \<Rightarrow> bool) \<Rightarrow> bool" where
  "returns m P = (case m of Inl _ \<Rightarrow> False | Inr x \<Rightarrow> P x)"

lemma returns_iff: "returns m P \<longleftrightarrow> (\<exists>x. m = Inr x \<and> P x)"
  by (cases m) (simp_all add: returns_def)

text \<open>A loop that runs a raising operation on each element and collects the results.\<close>

fun map_result :: "('a \<Rightarrow> 'b result) \<Rightarrow> 'a list \<Rightarrow> 'b list result" where
  "map_result f [] = Inr []"
| "map_result f (x # xs) =
     bind_result (f x) (\<lambda>y. bind_result (map_result f xs) (\<lambda>ys. Inr (y # ys)))"

lemma map_result_cong [fundef_cong]:
  assumes "xs = xs'" and "\<And>x. x \<in> set xs' \<Longrightarrow> f x = f' x"
  shows "map_result f xs = map_result f' xs'"
proof -
  have "(\<forall>x\<in>set xs'. f x = f' x) \<Longrightarrow> map_result f xs' = map_result f' xs'"
    by (induction xs') (simp_all cong: bind_result_cong)
  then show ?thesis using assms by simp
qed

lemma map_result_Inr:
  "map_result f xs = Inr ys \<longleftrightarrow> length ys = length xs \<and> (\<forall>i<length xs. f (xs ! i) = Inr (ys ! i))"
proof (induction xs arbitrary: ys)
  case Nil
  then show ?case by auto
next
  case (Cons x xs)
  show ?case
  proof (cases ys)
    case Nil
    then show ?thesis by (auto simp: result_simps)
  next
    case (Cons y ys')
    have "map_result f (x # xs) = Inr (y # ys') \<longleftrightarrow> f x = Inr y \<and> map_result f xs = Inr ys'"
      by (auto simp: result_simps)
    also have "\<dots> \<longleftrightarrow> f x = Inr y \<and> length ys' = length xs \<and>
        (\<forall>i<length xs. f (xs ! i) = Inr (ys' ! i))"
      by (simp add: Cons.IH)
    also have "\<dots> \<longleftrightarrow> length (y # ys') = length (x # xs) \<and>
        (\<forall>i<length (x # xs). f ((x # xs) ! i) = Inr ((y # ys') ! i))"
      by (auto simp: nth_Cons split: nat.splits)
    finally show ?thesis using Cons by simp
  qed
qed

lemma map_result_total:
  assumes "\<And>x. x \<in> set xs \<Longrightarrow> f x = Inr (g x)"
  shows "map_result f xs = Inr (map g xs)"
  using assms by (induction xs) simp_all

section \<open>Dictionaries\<close>

text \<open>
  A Python \<^verbatim>\<open>dict\<close> keeps its keys in insertion order and an assignment to a
  present key keeps the key's place: an association list with distinct keys, updated by
  \<open>AList.update\<close> and shrunk by \<open>AList.delete\<close>.
\<close>

type_synonym ('k, 'v) dict = "('k \<times> 'v) list"

abbreviation dict_get :: "('k, 'v) dict \<Rightarrow> 'k \<Rightarrow> 'v option" where
  "dict_get \<equiv> map_of"

abbreviation dict_set :: "'k \<Rightarrow> 'v \<Rightarrow> ('k, 'v) dict \<Rightarrow> ('k, 'v) dict" where
  "dict_set \<equiv> AList.update"

abbreviation dict_pop :: "'k \<Rightarrow> ('k, 'v) dict \<Rightarrow> ('k, 'v) dict" where
  "dict_pop \<equiv> AList.delete"

abbreviation dict_keys :: "('k, 'v) dict \<Rightarrow> 'k list" where
  "dict_keys d \<equiv> map fst d"

definition dict_get_or :: "('k, 'v) dict \<Rightarrow> 'k \<Rightarrow> 'v \<Rightarrow> 'v" where
  "dict_get_or d k v = (case dict_get d k of None \<Rightarrow> v | Some x \<Rightarrow> x)"

definition dict_setdefault :: "'k \<Rightarrow> 'v \<Rightarrow> ('k, 'v) dict \<Rightarrow> ('k, 'v) dict" where
  "dict_setdefault k v d = (case dict_get d k of None \<Rightarrow> d @ [(k, v)] | Some _ \<Rightarrow> d)"

definition dict_has :: "('k, 'v) dict \<Rightarrow> 'k \<Rightarrow> bool" where
  "dict_has d k \<longleftrightarrow> k \<in> set (dict_keys d)"

abbreviation dict_wf :: "('k, 'v) dict \<Rightarrow> bool" where
  "dict_wf d \<equiv> distinct (dict_keys d)"

lemma dict_get_set [dict_simps]:
  "dict_get (dict_set k v d) k' = (if k' = k then Some v else dict_get d k')"
  by (simp add: update_conv')

lemma dict_get_pop [dict_simps]:
  "dict_get (dict_pop k d) k' = (if k' = k then None else dict_get d k')"
  by (simp add: delete_conv')

lemma dict_keys_set [dict_simps]: "set (dict_keys (dict_set k v d)) = insert k (set (dict_keys d))"
  by (simp add: dom_update)

lemma dict_keys_pop [dict_simps]: "set (dict_keys (dict_pop k d)) = set (dict_keys d) - {k}"
  by (auto simp: delete_keys)

lemma dict_wf_set [simp]: "dict_wf d \<Longrightarrow> dict_wf (dict_set k v d)"
  by (rule distinct_update)

lemma dict_wf_pop [simp]: "dict_wf d \<Longrightarrow> dict_wf (dict_pop k d)"
  by (rule distinct_delete)

lemma dict_get_None_iff: "dict_get d k = None \<longleftrightarrow> k \<notin> set (dict_keys d)"
  by (simp add: map_of_eq_None_iff)

lemma dict_has_iff: "dict_has d k \<longleftrightarrow> (\<exists>v. dict_get d k = Some v)"
  by (metis dict_has_def dict_get_None_iff not_None_eq)

lemma dict_get_setdefault [dict_simps]:
  "dict_get (dict_setdefault k v d) k' =
     (if k' = k then Some (dict_get_or d k v) else dict_get d k')"
  by (auto simp: dict_setdefault_def dict_get_or_def map_add_def split: option.splits)

lemma dict_wf_setdefault [simp]: "dict_wf d \<Longrightarrow> dict_wf (dict_setdefault k v d)"
  by (auto simp: dict_setdefault_def dict_get_None_iff split: option.splits)

lemma dict_keys_setdefault [dict_simps]:
  "set (dict_keys (dict_setdefault k v d)) = insert k (set (dict_keys d))"
proof (cases "dict_get d k")
  case None
  then show ?thesis by (simp add: dict_setdefault_def)
next
  case (Some x)
  then have "k \<in> set (dict_keys d)" by (metis dict_get_None_iff option.distinct(1))
  then show ?thesis using Some by (auto simp: dict_setdefault_def)
qed

lemma dict_has_set [dict_simps]: "dict_has (dict_set k v d) k' \<longleftrightarrow> k' = k \<or> dict_has d k'"
  unfolding dict_has_def dict_keys_set by simp

lemma dict_has_pop [dict_simps]: "dict_has (dict_pop k d) k' \<longleftrightarrow> k' \<noteq> k \<and> dict_has d k'"
  unfolding dict_has_def dict_keys_pop by auto

section \<open>List idioms of the sources\<close>

text \<open>\<^verbatim>\<open>if x not in xs: xs.append(x)\<close>, once and in a loop.\<close>

definition append_new :: "'a list \<Rightarrow> 'a \<Rightarrow> 'a list" where
  "append_new xs x = (if x \<in> set xs then xs else xs @ [x])"

definition extend_new :: "'a list \<Rightarrow> 'a list \<Rightarrow> 'a list" where
  "extend_new xs ys = foldl append_new xs ys"

lemma set_append_new [simp]: "set (append_new xs x) = insert x (set xs)"
  by (auto simp: append_new_def)

lemma distinct_append_new [simp]: "distinct (append_new xs x) \<longleftrightarrow> distinct xs"
  by (auto simp: append_new_def)

lemma set_extend_new [simp]: "set (extend_new xs ys) = set xs \<union> set ys"
  unfolding extend_new_def by (induction ys arbitrary: xs) auto

lemma distinct_extend_new [simp]: "distinct (extend_new xs ys) \<longleftrightarrow> distinct xs"
  unfolding extend_new_def by (induction ys arbitrary: xs) auto

lemma extend_new_Nil [simp]: "extend_new xs [] = xs"
  by (simp add: extend_new_def)

lemma extend_new_Cons [simp]: "extend_new xs (y # ys) = extend_new (append_new xs y) ys"
  by (simp add: extend_new_def)

lemma extend_new_prefix: "\<exists>zs. extend_new xs ys = xs @ zs"
  unfolding extend_new_def
proof (induction ys arbitrary: xs)
  case (Cons y ys)
  obtain ws where ws: "append_new xs y = xs @ ws"
    by (cases "y \<in> set xs") (auto simp: append_new_def)
  moreover obtain zs where "foldl append_new (xs @ ws) ys = (xs @ ws) @ zs"
    using Cons.IH[of "xs @ ws"] by blast
  ultimately show ?case by simp
qed simp

text \<open>\<^verbatim>\<open>enumerate(xs)\<close>, and the first index whose element satisfies a test.\<close>

fun first_index :: "('a \<Rightarrow> bool) \<Rightarrow> 'a list \<Rightarrow> nat option" where
  "first_index P [] = None"
| "first_index P (x # xs) = (if P x then Some 0 else map_option Suc (first_index P xs))"

lemma first_index_None: "first_index P xs = None \<longleftrightarrow> (\<forall>x\<in>set xs. \<not> P x)"
  by (induction xs) auto

lemma first_index_Some:
  "first_index P xs = Some i \<longleftrightarrow> i < length xs \<and> P (xs ! i) \<and> (\<forall>j<i. \<not> P (xs ! j))"
proof (induction xs arbitrary: i)
  case (Cons x xs)
  show ?case
  proof (cases i)
    case 0
    then show ?thesis by auto
  next
    case (Suc k)
    then show ?thesis by (auto simp: Cons.IH nth_Cons split: nat.splits)
  qed
qed simp

section \<open>Strings\<close>

text \<open>\<^verbatim>\<open>str.isspace\<close> on one code point, which is also the regular expression \<^verbatim>\<open>\s\<close>.\<close>

definition is_space :: "char \<Rightarrow> bool" where
  "is_space c = (let n = (of_char c :: nat) in
     (9 \<le> n \<and> n \<le> 13) \<or> (28 \<le> n \<and> n \<le> 32) \<or> n = 133 \<or> n = 160)"

definition is_digit :: "char \<Rightarrow> bool" where
  "is_digit c = (let n = (of_char c :: nat) in 48 \<le> n \<and> n \<le> 57)"

definition is_alpha :: "char \<Rightarrow> bool" where
  "is_alpha c = (let n = (of_char c :: nat) in (65 \<le> n \<and> n \<le> 90) \<or> (97 \<le> n \<and> n \<le> 122))"

definition lower_char :: "char \<Rightarrow> char" where
  "lower_char c = (let n = (of_char c :: nat) in
     if (65 \<le> n \<and> n \<le> 90) \<or> (192 \<le> n \<and> n \<le> 222 \<and> n \<noteq> 215) then char_of (n + 32) else c)"

definition str_lower :: "string \<Rightarrow> string" where
  "str_lower s = map lower_char s"

definition str_strip :: "string \<Rightarrow> string" where
  "str_strip s = rev (dropWhile is_space (rev (dropWhile is_space s)))"

fun starts_with :: "string \<Rightarrow> string \<Rightarrow> bool" where
  "starts_with [] s = True"
| "starts_with (p # ps) [] = False"
| "starts_with (p # ps) (c # cs) = (p = c \<and> starts_with ps cs)"

lemma starts_with_append: "starts_with p s \<longleftrightarrow> (\<exists>t. s = p @ t)"
  by (induction p s rule: starts_with.induct) auto

text \<open>The decimal rendering of a natural number (\<^verbatim>\<open>str(n)\<close>).\<close>

fun str_nat :: "nat \<Rightarrow> string" where
  "str_nat n = (if n < 10 then [char_of (48 + n)] else str_nat (n div 10) @ [char_of (48 + n mod 10)])"

declare str_nat.simps [simp del]

text \<open>
  \<^verbatim>\<open>int(s)\<close> on a string: surrounding white space, an optional sign, then decimal digits
  with single underscores between digits; \<open>None\<close> stands for the \<^verbatim>\<open>ValueError\<close>.
\<close>

fun digits_value :: "nat \<Rightarrow> bool \<Rightarrow> string \<Rightarrow> nat option" where
  "digits_value acc ok [] = (if ok then Some acc else None)"
| "digits_value acc ok (c # cs) =
     (if is_digit c then digits_value (10 * acc + (of_char c - 48)) True cs
      else if c = CHR ''_'' \<and> ok \<and> cs \<noteq> [] then digits_value acc False cs
      else None)"

definition py_int :: "string \<Rightarrow> int option" where
  "py_int s = (case str_strip s of
       [] \<Rightarrow> None
     | c # cs \<Rightarrow>
         if c = CHR ''-'' then map_option (\<lambda>n. - int n) (digits_value 0 False cs)
         else if c = CHR ''+'' then map_option int (digits_value 0 False cs)
         else map_option int (digits_value 0 False (c # cs)))"

text \<open>
  \<^verbatim>\<open>float(s)\<close> on a string that is a decimal literal, with the same white space, sign and underscore
  rules; \<open>None\<close> stands for the \<^verbatim>\<open>ValueError\<close>.  The spellings of infinity and NaN are not modelled.
\<close>

definition split_first :: "(char \<Rightarrow> bool) \<Rightarrow> string \<Rightarrow> string \<times> string option" where
  "split_first P s = (takeWhile (\<lambda>c. \<not> P c) s,
     case dropWhile (\<lambda>c. \<not> P c) s of [] \<Rightarrow> None | _ # cs \<Rightarrow> Some cs)"

definition unsigned_part :: "string \<Rightarrow> nat option" where
  "unsigned_part s = (if s = [] then Some 0 else digits_value 0 False s)"

definition mantissa_value :: "string \<Rightarrow> real option" where
  "mantissa_value s = (case split_first (\<lambda>c. c = CHR ''.'') s of
       (whole, fpart) \<Rightarrow>
         (let f = (case fpart of None \<Rightarrow> [] | Some f \<Rightarrow> f) in
          if whole = [] \<and> f = [] then None
          else case (unsigned_part whole, unsigned_part f) of
            (Some w, Some n) \<Rightarrow> Some (real w + real n / 10 ^ length (filter is_digit f))
          | _ \<Rightarrow> None))"

definition signed_part :: "string \<Rightarrow> int \<times> string" where
  "signed_part s = (case s of
       [] \<Rightarrow> (1, [])
     | c # cs \<Rightarrow> if c = CHR ''-'' then (- 1, cs) else if c = CHR ''+'' then (1, cs) else (1, s))"

definition py_float :: "string \<Rightarrow> real option" where
  "py_float s = (case signed_part (str_strip s) of (sign, body) \<Rightarrow>
     (case split_first (\<lambda>c. c = CHR ''e'' \<or> c = CHR ''E'') body of
        (m, None) \<Rightarrow> map_option (\<lambda>x. of_int sign * x) (mantissa_value m)
      | (m, Some e) \<Rightarrow>
          (case (mantissa_value m, signed_part e) of
             (Some x, (esign, digits)) \<Rightarrow>
               (case digits_value 0 False digits of
                  None \<Rightarrow> None
                | Some n \<Rightarrow> Some (of_int sign * x * (if esign < 0 then 1 / 10 ^ n else 10 ^ n)))
           | (None, _) \<Rightarrow> None)))"

text \<open>The digits of a number are read back as the number, so renderings are unique.\<close>

lemma digits_value_append:
  "\<forall>c\<in>set xs. is_digit c \<Longrightarrow> xs \<noteq> [] \<Longrightarrow> ys \<noteq> [] \<Longrightarrow> digits_value acc ok xs = Some m \<Longrightarrow>
    digits_value acc ok (xs @ ys) = digits_value m True ys"
proof (induction xs arbitrary: acc ok)
  case (Cons x xs)
  then have x: "is_digit x" by simp
  show ?case
  proof (cases "xs = []")
    case True
    then show ?thesis using Cons.prems x by simp
  next
    case False
    then show ?thesis using Cons.IH[of "10 * acc + (of_char x - 48)" True] Cons.prems x by simp
  qed
qed simp

lemma is_digit_char: "n < 10 \<Longrightarrow> is_digit (char_of (48 + n)) \<and> (of_char (char_of (48 + n)) :: nat) = 48 + n"
  by (simp add: is_digit_def)

lemma str_nat_digits: "str_nat n \<noteq> [] \<and> (\<forall>c\<in>set (str_nat n). is_digit c) \<and> digits_value 0 False (str_nat n) = Some n"
proof (induction n rule: str_nat.induct)
  case (1 n)
  show ?case
  proof (cases "n < 10")
    case True
    then show ?thesis using is_digit_char[OF True] by (simp add: str_nat.simps)
  next
    case False
    have d: "is_digit (char_of (48 + n mod 10))" "(of_char (char_of (48 + n mod 10)) :: nat) = 48 + n mod 10"
      using is_digit_char[of "n mod 10"] by simp_all
    have "digits_value 0 False (str_nat (n div 10) @ [char_of (48 + n mod 10)]) =
        digits_value (n div 10) True [char_of (48 + n mod 10)]"
      using 1 False by (intro digits_value_append) auto
    also have "\<dots> = Some n" using d by simp
    finally show ?thesis using 1 False d by (auto simp: str_nat.simps[of n])
  qed
qed

lemma str_nat_inject [simp]: "str_nat m = str_nat n \<longleftrightarrow> m = n"
  using str_nat_digits by (metis option.inject)

text \<open>\<^verbatim>\<open>sep.join(parts)\<close>.\<close>

fun str_join :: "string \<Rightarrow> string list \<Rightarrow> string" where
  "str_join sep [] = []"
| "str_join sep [x] = x"
| "str_join sep (x # y # ys) = x @ sep @ str_join sep (y # ys)"

text \<open>\<^verbatim>\<open>s.split(c)\<close> for a one-character separator; never empty.\<close>

fun str_split :: "char \<Rightarrow> string \<Rightarrow> string list" where
  "str_split c [] = [[]]"
| "str_split c (x # xs) =
     (case str_split c xs of
        [] \<Rightarrow> [[x]]
      | w # ws \<Rightarrow> if x = c then [] # w # ws else (x # w) # ws)"

lemma str_split_not_Nil [simp]: "str_split c s \<noteq> []"
  by (induction s) (auto split: list.splits)

lemma str_split_single: "c \<notin> set s \<Longrightarrow> str_split c s = [s]"
  by (induction s) auto

section \<open>Values\<close>

text \<open>
  The values of \<^verbatim>\<open>Any\<close>-typed stores and documents: what \<^verbatim>\<open>json\<close> can hold.  Dictionaries are
  association lists in insertion order.
\<close>

datatype val =
    VNone
  | VBool bool
  | VInt int
  | VFloat real
  | VStr string
  | VList "val list"
  | VDict "(string \<times> val) list"

text \<open>Python's truth value of an object.\<close>

fun truthy :: "val \<Rightarrow> bool" where
  "truthy VNone = False"
| "truthy (VBool b) = b"
| "truthy (VInt i) = (i \<noteq> 0)"
| "truthy (VFloat r) = (r \<noteq> 0)"
| "truthy (VStr s) = (s \<noteq> [])"
| "truthy (VList xs) = (xs \<noteq> [])"
| "truthy (VDict kvs) = (kvs \<noteq> [])"

end
