(* ===== verification/Selectors.thy ===== *)
theory Selectors
  imports Prelude
begin

text \<open>
  Path selectors (\<^verbatim>\<open>tm/pipeline/selectors.py\<close>): the tokenizer \<open>parse\<close>, the matcher \<open>match\<close>, and
  the translation of a selector into the path it denotes (\<^verbatim>\<open>_selector_to_path\<close> of
  \<^verbatim>\<open>tm/verify/adapter.py\<close>).  The lemmas say when tokenizing raises, that a token never holds a
  separator, that a match consumes the whole path, and that a selector matches its own path.
\<close>

section \<open>Paths and tokens\<close>

text \<open>A path element is an index or a key.\<close>

datatype pel = PInt int | PStr string

type_synonym path = "pel list"

definition flush_buf :: "string \<Rightarrow> string list" where
  "flush_buf buf = (if buf = [] then [] else [buf])"

text \<open>
  The scanning loop of \<^verbatim>\<open>parse\<close>: \<open>buf\<close> is the token being read, the last argument what is left
  of the expression.  \<^verbatim>\<open>expr.find("]", i)\<close> is the split at the first closing bracket.
\<close>

function parse_scan :: "string \<Rightarrow> string \<Rightarrow> string \<Rightarrow> string list result" where
  "parse_scan expr buf [] = Inr (flush_buf buf)"
| "parse_scan expr buf (ch # cs) =
     (if ch = CHR ''.'' then
        bind_result (parse_scan expr [] cs) (\<lambda>ts. Inr (flush_buf buf @ ts))
      else if ch = CHR ''['' then
        (case dropWhile (\<lambda>c. c \<noteq> CHR '']'') cs of
           [] \<Rightarrow> Inl (ValueError (''Unclosed '' @ [CHR 0x27] @ ''['' @ [CHR 0x27] @ '' in selector: '' @ expr))
         | _ # rest \<Rightarrow>
             bind_result (parse_scan expr [] rest)
               (\<lambda>ts. Inr (flush_buf buf @
                  (CHR ''['' # takeWhile (\<lambda>c. c \<noteq> CHR '']'') cs @ '']'') # ts)))
      else parse_scan expr (buf @ [ch]) cs)"
  by pat_completeness auto
termination
proof (relation "measure (\<lambda>(expr, buf, s). length s)")
  fix expr buf :: string and ch :: char and cs x21 x22
  assume "dropWhile (\<lambda>c. c \<noteq> CHR '']'') cs = x21 # x22"
  then have "length (x21 # x22) \<le> length cs" by (metis length_dropWhile_le)
  then show "((expr, [], x22), expr, buf, ch # cs) \<in> measure (\<lambda>(expr, buf, s). length s)"
    by simp
qed auto

definition parse_selector :: "string \<Rightarrow> string list result" where
  "parse_selector expr = parse_scan expr [] expr"

text \<open>\<^verbatim>\<open>tk.startswith("[") and tk.endswith("]")\<close> and \<^verbatim>\<open>tk[1:-1]\<close>.\<close>

definition bracketed :: "string \<Rightarrow> bool" where
  "bracketed tk \<longleftrightarrow> tk \<noteq> [] \<and> hd tk = CHR ''['' \<and> last tk = CHR '']''"

definition inner :: "string \<Rightarrow> string" where
  "inner tk = butlast (tl tk)"

text \<open>The loop body of \<^verbatim>\<open>match\<close> for one token and one path element.\<close>

definition match_token :: "string \<Rightarrow> pel \<Rightarrow> bool" where
  "match_token tk v =
     (if tk = ''*'' then True
      else if tk = ''[]'' then (case v of PInt _ \<Rightarrow> True | PStr _ \<Rightarrow> False)
      else if bracketed tk then
        (if inner tk = [] then (case v of PInt _ \<Rightarrow> True | PStr _ \<Rightarrow> False)
         else (case py_int (inner tk) of None \<Rightarrow> False | Some idx \<Rightarrow> v = PInt idx))
      else v = PStr tk)"

fun match_tokens :: "string list \<Rightarrow> path \<Rightarrow> bool" where
  "match_tokens [] p = (p = [])"
| "match_tokens (tk # tks) [] = False"
| "match_tokens (tk # tks) (v # p) = (match_token tk v \<and> match_tokens tks p)"

definition match_selector :: "string \<Rightarrow> path \<Rightarrow> bool result" where
  "match_selector expr p = bind_result (parse_selector expr) (\<lambda>toks. Inr (match_tokens toks p))"

section \<open>The path of a selector\<close>

definition token_to_pel :: "string \<Rightarrow> pel" where
  "token_to_pel tk =
     (if tk = ''[]'' then PInt 0
      else if tk = ''*'' then PStr ''*''
      else if bracketed tk then
        (case py_int (inner tk) of Some i \<Rightarrow> PInt i | None \<Rightarrow> PStr (inner tk))
      else PStr tk)"

definition selector_to_path :: "string \<Rightarrow> path result" where
  "selector_to_path expr =
     bind_result (parse_selector expr) (\<lambda>toks. Inr (map token_to_pel toks))"

section \<open>Lemmas\<close>

text \<open>A selector is well formed when every opening bracket is closed.\<close>

definition selector_ok :: "string \<Rightarrow> bool" where
  "selector_ok expr \<longleftrightarrow> (\<exists>toks. parse_selector expr = Inr toks)"

lemma parse_scan_no_open:
  "CHR ''['' \<notin> set s \<Longrightarrow> \<exists>toks. parse_scan expr buf s = Inr toks"
proof (induction s arbitrary: buf)
  case (Cons c s)
  then obtain ts where "parse_scan expr [] s = Inr ts" by force
  moreover have "c \<noteq> CHR ''[''" using Cons.prems by auto
  ultimately show ?case using Cons by simp
qed simp

lemma selector_ok_no_open [intro]: "CHR ''['' \<notin> set expr \<Longrightarrow> selector_ok expr"
  unfolding selector_ok_def parse_selector_def by (rule parse_scan_no_open)

text \<open>Without separators a selector is one token, the key itself.\<close>

lemma parse_scan_plain:
  assumes "CHR ''['' \<notin> set s" and "CHR ''.'' \<notin> set s"
  shows "parse_scan expr buf s = Inr (flush_buf (buf @ s))"
  using assms by (induction s arbitrary: buf) auto

lemma parse_selector_plain:
  assumes "CHR ''['' \<notin> set s" and "CHR ''.'' \<notin> set s" and "s \<noteq> []"
  shows "parse_selector s = Inr [s]"
  using parse_scan_plain[OF assms(1,2), of s "[]"] assms(3)
  by (simp add: parse_selector_def flush_buf_def)

text \<open>Tokens are non-empty, and those that are not bracketed hold no dot and no opening bracket.\<close>

definition token_ok :: "string \<Rightarrow> bool" where
  "token_ok tk \<longleftrightarrow> tk \<noteq> [] \<and> (bracketed tk \<or> (CHR ''.'' \<notin> set tk \<and> CHR ''['' \<notin> set tk))"

lemma bracketed_token [simp]: "bracketed (CHR ''['' # s @ '']'')"
  by (simp add: bracketed_def)

lemma token_ok_flush:
  "CHR ''.'' \<notin> set buf \<Longrightarrow> CHR ''['' \<notin> set buf \<Longrightarrow> \<forall>tk\<in>set (flush_buf buf). token_ok tk"
  by (simp add: flush_buf_def token_ok_def)

lemma parse_scan_tokens:
  "parse_scan expr buf s = Inr toks \<Longrightarrow> CHR ''.'' \<notin> set buf \<Longrightarrow> CHR ''['' \<notin> set buf \<Longrightarrow>
   \<forall>tk\<in>set toks. token_ok tk"
proof (induction expr buf s arbitrary: toks rule: parse_scan.induct)
  case (1 expr buf)
  then show ?case by (simp add: token_ok_flush)
next
  case (2 expr buf ch cs)
  consider (dot) "ch = CHR ''.''" | (open_br) "ch = CHR ''[''" | (other) "ch \<noteq> CHR ''.''" "ch \<noteq> CHR ''[''"
    by blast
  then show ?case
  proof cases
    case dot
    with "2.prems"(1) obtain ts where ts: "parse_scan expr [] cs = Inr ts"
      and toks: "toks = flush_buf buf @ ts" by (auto simp: result_simps)
    from "2.IH"(1)[OF dot ts] have "\<forall>tk\<in>set ts. token_ok tk" by simp
    then show ?thesis using token_ok_flush "2.prems"(2,3) by (auto simp: toks)
  next
    case open_br
    show ?thesis
    proof (cases "dropWhile (\<lambda>c. c \<noteq> CHR '']'') cs")
      case Nil
      with 2 open_br show ?thesis by simp
    next
      case (Cons b rest)
      with "2.prems"(1) open_br obtain ts where ts: "parse_scan expr [] rest = Inr ts"
        and toks: "toks = flush_buf buf @ (CHR ''['' # takeWhile (\<lambda>c. c \<noteq> CHR '']'') cs @ '']'') # ts"
        by (auto simp: result_simps)
      from "2.IH"(2)[OF _ open_br Cons ts] open_br have "\<forall>tk\<in>set ts. token_ok tk" by simp
      moreover have "token_ok (CHR ''['' # takeWhile (\<lambda>c. c \<noteq> CHR '']'') cs @ '']'')"
        by (simp add: token_ok_def)
      ultimately show ?thesis using token_ok_flush "2.prems"(2,3) by (auto simp: toks)
    qed
  next
    case other
    with 2 show ?thesis by simp
  qed
qed

lemma parse_selector_tokens:
  "parse_selector expr = Inr toks \<Longrightarrow> tk \<in> set toks \<Longrightarrow> token_ok tk"
  using parse_scan_tokens[of expr "[]" expr toks] by (simp add: parse_selector_def)

lemma match_tokens_length: "match_tokens toks p \<Longrightarrow> length p = length toks"
  by (induction toks p rule: match_tokens.induct) auto

lemma match_tokens_nth:
  "match_tokens toks p \<longleftrightarrow>
     length p = length toks \<and> (\<forall>i<length toks. match_token (toks ! i) (p ! i))"
proof (induction toks p rule: match_tokens.induct)
  case (3 tk tks v p)
  show ?case by (auto simp: 3 nth_Cons split: nat.splits)
qed auto

text \<open>
  Every token whose bracket content is an integer (or that is not bracketed) matches the path
  element it denotes.
\<close>

definition index_token :: "string \<Rightarrow> bool" where
  "index_token tk \<longleftrightarrow> (bracketed tk \<and> tk \<noteq> ''[]'' \<longrightarrow> py_int (inner tk) \<noteq> None)"

lemma py_int_Nil [simp]: "py_int [] = None"
  by (simp add: py_int_def str_strip_def)

lemma match_token_self: "index_token tk \<Longrightarrow> match_token tk (token_to_pel tk)"
  by (auto simp: match_token_def token_to_pel_def index_token_def)

lemma match_tokens_self:
  "\<forall>tk\<in>set toks. index_token tk \<Longrightarrow> match_tokens toks (map token_to_pel toks)"
  by (induction toks) (simp_all add: match_token_self)

end
