(* ===== verification/Plans.thy ===== *)
theory Plans
  imports Selectors
begin

text \<open>
  Plans and their sequential executor (\<^verbatim>\<open>tm/pipeline/engine.py\<close>): steps, rules, plans, the spans of
  the execution trace, and \<^verbatim>\<open>Pipeline.run\<close>.  A step function maps a context to a context or
  fails with an error text.  Wall-clock times of spans and the metrics recorder are left out.
\<close>

record step_spec =
  sp_name :: string
  sp_reads :: "string list"
  sp_writes :: "string list"
  sp_fn :: "val \<Rightarrow> string + val"
  sp_clears :: "string list"

record rule =
  ru_name :: string
  ru_triggers :: "string list"
  ru_steps :: "string list"

record plan =
  pl_steps :: "(string, step_spec) dict"
  pl_rules :: "rule list"

record trace_span =
  ts_rule :: string
  ts_step :: string
  ts_inputs :: val
  ts_outputs :: val
  ts_reads :: "string list"
  ts_writes :: "string list"
  ts_error :: "string option"

section \<open>The sequential executor\<close>

text \<open>\<^verbatim>\<open>_match_any\<close>: the loops stop at the first match, so a later bad selector is not seen.\<close>

fun match_any_path :: "(string \<Rightarrow> path \<Rightarrow> bool result) \<Rightarrow> string \<Rightarrow> path list \<Rightarrow> bool result" where
  "match_any_path matcher e [] = Inr False"
| "match_any_path matcher e (p # ps) =
     bind_result (matcher e p) (\<lambda>b. if b then Inr True else match_any_path matcher e ps)"

fun match_any :: "(string \<Rightarrow> path \<Rightarrow> bool result) \<Rightarrow> string list \<Rightarrow> path list \<Rightarrow> bool result" where
  "match_any matcher [] ps = Inr False"
| "match_any matcher (e # es) ps =
     bind_result (match_any_path matcher e ps) (\<lambda>b. if b then Inr True else match_any matcher es ps)"

text \<open>
  One rule's steps: each step is looked up, run on the context and traced; an error keeps the
  context and ends the rule.  The spans already emitted survive a raised \<^verbatim>\<open>KeyError\<close>.
\<close>

fun run_rule_steps :: "plan \<Rightarrow> string \<Rightarrow> string list \<Rightarrow> val \<Rightarrow> val result \<times> trace_span list" where
  "run_rule_steps pl rname [] ctx = (Inr ctx, [])"
| "run_rule_steps pl rname (s # ss) ctx =
     (case dict_get (pl_steps pl) s of
        None \<Rightarrow> (Inl (KeyError s), [])
      | Some spec \<Rightarrow>
          (let span = (\<lambda>out err. \<lparr>ts_rule = rname, ts_step = sp_name spec, ts_inputs = ctx,
                 ts_outputs = out, ts_reads = sp_reads spec, ts_writes = sp_writes spec,
                 ts_error = err\<rparr>)
           in case sp_fn spec ctx of
                Inl e \<Rightarrow> (Inr ctx, [span ctx (Some e)])
              | Inr ctx' \<Rightarrow>
                  (let (r, spans) = run_rule_steps pl rname ss ctx'
                   in (r, span ctx' None # spans))))"

fun pipeline_rules ::
  "plan \<Rightarrow> rule list \<Rightarrow> path list \<Rightarrow> (string \<Rightarrow> path \<Rightarrow> bool result) \<Rightarrow> val
   \<Rightarrow> val result \<times> trace_span list" where
  "pipeline_rules pl [] changed matcher ctx = (Inr ctx, [])"
| "pipeline_rules pl (r # rs) changed matcher ctx =
     (case match_any matcher (ru_triggers r) changed of
        Inl e \<Rightarrow> (Inl e, [])
      | Inr False \<Rightarrow> pipeline_rules pl rs changed matcher ctx
      | Inr True \<Rightarrow>
          (case run_rule_steps pl (ru_name r) (ru_steps r) ctx of
             (Inl e, spans) \<Rightarrow> (Inl e, spans)
           | (Inr ctx', spans) \<Rightarrow>
               (let (r', spans') = pipeline_rules pl rs changed matcher ctx'
                in (r', spans @ spans'))))"

definition pipeline_run ::
  "plan \<Rightarrow> val \<Rightarrow> path list \<Rightarrow> (string \<Rightarrow> path \<Rightarrow> bool result) \<Rightarrow> val result \<times> trace_span list" where
  "pipeline_run pl ctx changed matcher = pipeline_rules pl (pl_rules pl) changed matcher ctx"

section \<open>Lemmas\<close>

lemma match_any_path_Inr:
  assumes "\<And>p. p \<in> set ps \<Longrightarrow> matcher e p = Inr (f p)"
  shows "match_any_path matcher e ps = Inr (\<exists>p\<in>set ps. f p)"
  using assms by (induction ps) auto

lemma match_any_Inr:
  assumes "\<And>e p. e \<in> set es \<Longrightarrow> p \<in> set ps \<Longrightarrow> matcher e p = Inr (f e p)"
  shows "match_any matcher es ps = Inr (\<exists>e\<in>set es. \<exists>p\<in>set ps. f e p)"
  using assms by (induction es) (auto simp: match_any_path_Inr[where f = "f e" for e])

text \<open>The spans of a rule follow the rule's steps, and only the last of them can carry an error.\<close>

lemma run_rule_steps_spans:
  assumes "run_rule_steps pl rname ss ctx = (r, spans)"
    and "\<And>s spec. dict_get (pl_steps pl) s = Some spec \<Longrightarrow> sp_name spec = s"
  shows "map ts_step spans = take (length spans) ss \<and> length spans \<le> length ss \<and>
    (\<forall>sp\<in>set (butlast spans). ts_error sp = None) \<and> (\<forall>sp\<in>set spans. ts_rule sp = rname)"
  using assms
proof (induction ss arbitrary: ctx r spans)
  case (Cons s ss)
  show ?case
  proof (cases "dict_get (pl_steps pl) s")
    case (Some spec)
    then have name: "sp_name spec = s" using Cons.prems(2) by blast
    show ?thesis
    proof (cases "sp_fn spec ctx")
      case (Inl e)
      with Some name Cons.prems(1) show ?thesis by (auto simp: Let_def)
    next
      case (Inr ctx')
      obtain r' spans' where rec: "run_rule_steps pl rname ss ctx' = (r', spans')" by force
      with Some Inr Cons.prems(1) have spans: "spans = \<lparr>ts_rule = rname, ts_step = sp_name spec,
          ts_inputs = ctx, ts_outputs = ctx', ts_reads = sp_reads spec,
          ts_writes = sp_writes spec, ts_error = None\<rparr> # spans'"
        by (auto simp: Let_def)
      from Cons.IH[OF rec Cons.prems(2)] name show ?thesis by (auto simp: spans)
    qed
  qed (use Cons.prems in simp)
qed simp

text \<open>
  Data flow along a rule: the first span reads the rule's input, each later span reads what the
  one before it left, and the rule returns what the last span left.
\<close>

fun spans_chain :: "val \<Rightarrow> trace_span list \<Rightarrow> val \<Rightarrow> bool" where
  "spans_chain a [] b = (a = b)"
| "spans_chain a (sp # sps) b = (ts_inputs sp = a \<and> spans_chain (ts_outputs sp) sps b)"

lemma spans_chain_append:
  "spans_chain a (xs @ ys) c \<longleftrightarrow> (\<exists>b. spans_chain a xs b \<and> spans_chain b ys c)"
  by (induction xs arbitrary: a) auto

lemma run_rule_steps_chain:
  "run_rule_steps pl rname ss ctx = (Inr ctx', spans) \<Longrightarrow> spans_chain ctx spans ctx'"
  by (induction ss arbitrary: ctx spans)
    (auto simp: Let_def split: option.splits sum.splits prod.splits)

lemma pipeline_rules_chain:
  "pipeline_rules pl rs changed matcher ctx = (Inr ctx', spans) \<Longrightarrow> spans_chain ctx spans ctx'"
proof (induction rs arbitrary: ctx spans)
  case (Cons r rs)
  show ?case
  proof (cases "match_any matcher (ru_triggers r) changed")
    case (Inr b)
    show ?thesis
    proof (cases b)
      case True
      obtain q spans1 where q: "run_rule_steps pl (ru_name r) (ru_steps r) ctx = (q, spans1)" by force
      with Cons.prems Inr True obtain ctx1 where "q = Inr ctx1" by (cases q) auto
      with q have first: "spans_chain ctx spans1 ctx1" by (simp add: run_rule_steps_chain)
      obtain q' spans2 where q': "pipeline_rules pl rs changed matcher ctx1 = (q', spans2)" by force
      with Cons.prems Inr True q \<open>q = Inr ctx1\<close> have "q' = Inr ctx'" and "spans = spans1 @ spans2"
        by auto
      with Cons.IH q' first show ?thesis by (auto simp: spans_chain_append)
    next
      case False
      with Inr Cons show ?thesis by simp
    qed
  qed (use Cons.prems in simp)
qed simp

section \<open>Properties\<close>

lemma run_rule_steps_errors:
  "sp \<in> set (snd (run_rule_steps pl rname ss ctx)) \<Longrightarrow> ts_error sp \<noteq> None \<Longrightarrow> ts_outputs sp = ts_inputs sp"
proof (induction ss arbitrary: ctx)
  case (Cons s ss)
  show ?case
  proof (cases "dict_get (pl_steps pl) s")
    case (Some spec)
    show ?thesis
    proof (cases "sp_fn spec ctx")
      case (Inr ctx')
      then show ?thesis using Some Cons.IH[of ctx'] Cons.prems
        by (cases "run_rule_steps pl rname ss ctx'") auto
    qed (use Some Cons.prems in simp)
  qed (use Cons.prems in simp)
qed simp

lemma pipeline_rules_errors:
  "sp \<in> set (snd (pipeline_rules pl rs changed matcher ctx)) \<Longrightarrow> ts_error sp \<noteq> None \<Longrightarrow>
   ts_outputs sp = ts_inputs sp"
proof (induction rs arbitrary: ctx)
  case (Cons r rs)
  obtain q spans where q: "run_rule_steps pl (ru_name r) (ru_steps r) ctx = (q, spans)" by force
  show ?case
  proof (cases "match_any matcher (ru_triggers r) changed = Inr True")
    case True
    have "sp \<in> set spans \<or> (\<exists>c. sp \<in> set (snd (pipeline_rules pl rs changed matcher c)))"
    proof (cases q)
      case (Inr b)
      obtain q' spans' where "pipeline_rules pl rs changed matcher b = (q', spans')" by force
      then show ?thesis using Cons.prems(1) True q Inr by (auto intro: exI[of _ b])
    qed (use Cons.prems(1) True q in auto)
    then show ?thesis using run_rule_steps_errors[of sp pl "ru_name r" "ru_steps r" ctx] q Cons by auto
  next
    case False
    with Cons show ?thesis by (auto split: sum.splits bool.splits)
  qed
qed simp

text \<open>
  The trace of a pipeline run that returns explains its result: the first span starts from
  the given context, every later span starts from what the one before it left, the returned
  context is what the last span left, and a span with an error left its context unchanged.
\<close>

theorem pipeline_run_trace:
  assumes "pipeline_run pl ctx changed matcher = (Inr ctx', spans)"
  shows "spans_chain ctx spans ctx' \<and> (\<forall>sp\<in>set spans. ts_error sp \<noteq> None \<longrightarrow> ts_outputs sp = ts_inputs sp)"
  using assms pipeline_rules_chain[of pl "pl_rules pl" changed matcher ctx ctx' spans]
    pipeline_rules_errors[of _ pl "pl_rules pl" changed matcher ctx]
  by (simp add: pipeline_run_def)

text \<open>Two rules on one changed path: a step that sets the context, and a step that fails.\<close>

definition demo_plan :: plan where
  "demo_plan = \<lparr>pl_steps =
     [(''set'', \<lparr>sp_name = ''set'', sp_reads = [], sp_writes = [''x''], sp_fn = (\<lambda>_. Inr (VInt 1)), sp_clears = []\<rparr>),
      (''bad'', \<lparr>sp_name = ''bad'', sp_reads = [''x''], sp_writes = [], sp_fn = (\<lambda>_. Inl ''ValueError: bad''), sp_clears = []\<rparr>)],
     pl_rules = [\<lparr>ru_name = ''r1'', ru_triggers = [''x''], ru_steps = [''set'', ''bad'', ''set'']\<rparr>,
                 \<lparr>ru_name = ''r2'', ru_triggers = [''y'', ''x''], ru_steps = [''set'']\<rparr>]\<rparr>"

theorem pipeline_run_trace_witness:
  "\<exists>spans. pipeline_run demo_plan VNone [[PStr ''x'']] match_selector = (Inr (VInt 1), spans) \<and>
    map ts_step spans = [''set'', ''bad'', ''set''] \<and> spans_chain VNone spans (VInt 1)"
proof -
  obtain spans where run: "pipeline_run demo_plan VNone [[PStr ''x'']] match_selector = (Inr (VInt 1), spans)"
    and steps: "map ts_step spans = [''set'', ''bad'', ''set'']"
    by (simp add: pipeline_run_def demo_plan_def match_selector_def parse_selector_plain match_token_def bracketed_def)
  show ?thesis using pipeline_run_trace[OF run] run steps by (intro exI[of _ spans]) simp
qed

end
