(* ===== verification/Kripke_State.thy ===== *)
theory Kripke_State
  imports Prelude
begin

text \<open>
  States of the offline verification model and their identity (\<^verbatim>\<open>tm/verify/state.py\<close>).  The digest
  (JSON text, then SHA-256) is a parameter \<open>H\<close> of the development: \<open>stable_hash\<close> applies it to the
  payload the source hands to \<^verbatim>\<open>json.dumps\<close>.  The lemmas say what equal payloads mean.
\<close>

record state =
  st_store :: "(string, val) dict"
  st_pending :: "string list"
  st_done :: "string list"
  st_events :: "string list"

datatype hash_mode = Full | Store

text \<open>The check of the mode string.\<close>

definition hash_mode_of :: "string \<Rightarrow> hash_mode result" where
  "hash_mode_of mode =
     (if mode = ''full'' then Inr Full
      else if mode = ''store'' then Inr Store
      else Inl (ValueError (''Unknown hash mode '' @ [CHR 0x27] @ mode @ [CHR 0x27])))"

text \<open>\<^verbatim>\<open>_normalize\<close>: mappings sorted by key, recursively.\<close>

fun normalize_val :: "val \<Rightarrow> val" where
  "normalize_val (VDict kvs) = VDict (sort_key fst (map (\<lambda>(k, v). (k, normalize_val v)) kvs))"
| "normalize_val (VList vs) = VList (map normalize_val vs)"
| "normalize_val VNone = VNone"
| "normalize_val (VBool b) = VBool b"
| "normalize_val (VInt i) = VInt i"
| "normalize_val (VFloat r) = VFloat r"
| "normalize_val (VStr s) = VStr s"

text \<open>The payload: the normalized store and, in full mode, the scheduling fields.\<close>

datatype payload =
  Payload (pay_store: "(string, val) dict") (pay_sched: "(string list \<times> string list \<times> string list) option")

definition hash_payload :: "hash_mode \<Rightarrow> state \<Rightarrow> payload" where
  "hash_payload mode s =
     Payload (sort_key fst (map (\<lambda>(k, v). (k, normalize_val v)) (st_store s)))
       (case mode of Full \<Rightarrow> Some (st_pending s, st_done s, st_events s) | Store \<Rightarrow> None)"

definition stable_hash :: "(payload \<Rightarrow> 'h) \<Rightarrow> hash_mode \<Rightarrow> state \<Rightarrow> 'h" where
  "stable_hash H mode s = H (hash_payload mode s)"

section \<open>Lemmas\<close>

abbreviation has_key :: "state \<Rightarrow> string \<Rightarrow> bool" where
  "has_key s k \<equiv> dict_has (st_store s) k"

lemma set_dict_keys_payload:
  "set (dict_keys (pay_store (hash_payload mode s))) = set (dict_keys (st_store s))"
  by (force simp: hash_payload_def)

lemma fst_normalize [simp]: "fst \<circ> (\<lambda>(k, v). (k, normalize_val v)) = fst"
  by auto

text \<open>Equal payloads hold the same facts, and in full mode the same scheduling fields.\<close>

lemma payload_has_key:
  assumes "hash_payload mode s = hash_payload mode t"
  shows "has_key s k \<longleftrightarrow> has_key t k"
  using set_dict_keys_payload[of mode s] set_dict_keys_payload[of mode t] assms
  by (simp add: dict_has_def)

lemma payload_full:
  assumes "hash_payload Full s = hash_payload Full t"
  shows "st_pending s = st_pending t" "st_done s = st_done t" "st_events s = st_events t"
  using assms by (simp_all add: hash_payload_def)

text \<open>Full payloads determine store payloads: store mode merges at least as many states.\<close>

lemma payload_full_store:
  "hash_payload Full s = hash_payload Full t \<Longrightarrow> hash_payload Store s = hash_payload Store t"
  by (simp add: hash_payload_def)

text \<open>The payload ignores the insertion order of the store.\<close>

lemma sort_key_fst_unique:
  fixes xs ys :: "('k::linorder \<times> 'v) list"
  assumes "dict_wf xs" and "dict_wf ys" and "set xs = set ys"
  shows "sort_key fst xs = sort_key fst ys"
proof -
  have "distinct xs" "distinct ys"
    using assms(1,2) by (simp_all add: distinct_map)
  then have "mset xs = mset ys"
    using assms(3) by (simp add: set_eq_iff_mset_eq_distinct)
  moreover have "inj_on fst (set xs)" using assms(1) by (simp add: distinct_map)
  ultimately show ?thesis by (rule sort_key_eq_sort_key)
qed

lemma payload_order_irrelevant:
  assumes "dict_wf (st_store s)" and "dict_wf (st_store t)"
    and "set (st_store s) = set (st_store t)"
    and "st_pending s = st_pending t" "st_done s = st_done t" "st_events s = st_events t"
  shows "hash_payload mode s = hash_payload mode t"
proof -
  let ?n = "\<lambda>(k, v). (k, normalize_val v)"
  have "sort_key fst (map ?n (st_store s)) = sort_key fst (map ?n (st_store t))"
    using assms(1-3) by (intro sort_key_fst_unique) simp_all
  then show ?thesis using assms(4-6) by (cases mode) (simp_all add: hash_payload_def)
qed

text \<open>
  Two well-formed states have the same payload exactly when their stores agree as maps (up to
  the order of nested mappings) and, in full mode, their scheduling fields agree.
\<close>

definition store_view :: "state \<Rightarrow> string \<Rightarrow> val option" where
  "store_view s k = map_option normalize_val (dict_get (st_store s) k)"

lemma map_of_normalize:
  "dict_get (map (\<lambda>(k, v). (k, normalize_val v)) d) k = map_option normalize_val (dict_get d k)"
  by (induction d) auto

lemma payload_store_iff:
  assumes "dict_wf (st_store s)" and "dict_wf (st_store t)"
  shows "pay_store (hash_payload mode s) = pay_store (hash_payload mode t) \<longleftrightarrow>
    store_view s = store_view t"
proof -
  let ?n = "\<lambda>s. map (\<lambda>(k, v). (k, normalize_val v)) (st_store s)"
  have wf: "dict_wf (?n s)" "dict_wf (?n t)" using assms by simp_all
  have "sort_key fst (?n s) = sort_key fst (?n t) \<longleftrightarrow> set (?n s) = set (?n t)"
    using sort_key_fst_unique[OF wf] by (metis set_sort)
  also have "\<dots> \<longleftrightarrow> map_of (?n s) = map_of (?n t)"
    using map_of_inject_set[OF wf] by simp
  finally show ?thesis
    by (simp add: hash_payload_def store_view_def fun_eq_iff map_of_normalize)
qed

lemma payload_eq_iff:
  assumes "dict_wf (st_store s)" and "dict_wf (st_store t)"
  shows "hash_payload Full s = hash_payload Full t \<longleftrightarrow>
      store_view s = store_view t \<and> st_pending s = st_pending t \<and> st_done s = st_done t \<and>
      st_events s = st_events t"
    and "hash_payload Store s = hash_payload Store t \<longleftrightarrow> store_view s = store_view t"
  using payload_store_iff[OF assms, of Full] payload_store_iff[OF assms, of Store]
  by (auto simp: hash_payload_def)

lemma store_view_None: "store_view s k = None \<longleftrightarrow> \<not> has_key s k"
  by (simp add: store_view_def dict_has_def dict_get_None_iff)

end
