(* ===== verification/Adapter.thy ===== *)
theory Adapter
  imports Plans Kripke_State
begin

text \<open>
  The transition system of a plan (\<^verbatim>\<open>tm/verify/adapter.py\<close>): \<open>tm_adapter\<close> is \<^verbatim>\<open>TraceMindAdapter\<close>, and
  \<open>component\<close> the duck-typed protocol \<^verbatim>\<open>ComponentAdapter\<close> of \<^verbatim>\<open>tm/verify/joint.py\<close> that the
  explorer and the product use.  The locale \<open>component_class\<close> states what the clients of the
  protocol rely on; it is interpreted here for the plan adapter.
\<close>

record tm_adapter =
  ta_plan :: plan
  ta_initial_store :: "(string, val) dict"
  ta_changed_paths :: "path list"
  ta_initial_pending :: "string list"
  ta_initial_done :: "string list"

record component =
  co_initial :: "state result"
  co_successors :: "state \<Rightarrow> (string \<times> state) list result"
  co_deadlocked :: "state \<Rightarrow> bool"
  co_enabled :: "state \<Rightarrow> string list"

section \<open>Operations\<close>

text \<open>\<^verbatim>\<open>_rule_triggered\<close> is the executor's loop with the selector matcher.\<close>

definition rule_triggered :: "string list \<Rightarrow> path list \<Rightarrow> bool result" where
  "rule_triggered triggers changed = match_any match_selector triggers changed"

fun collect_rules :: "rule list \<Rightarrow> path list \<Rightarrow> string list result" where
  "collect_rules [] changed = Inr []"
| "collect_rules (r # rs) changed =
     bind_result (rule_triggered (ru_triggers r) changed) (\<lambda>b.
     bind_result (collect_rules rs changed) (\<lambda>ss. Inr (if b then ru_steps r @ ss else ss)))"

definition collect_steps :: "plan \<Rightarrow> path list \<Rightarrow> string list result" where
  "collect_steps pl changed = collect_rules (pl_rules pl) changed"

definition from_plan ::
  "plan \<Rightarrow> (string, val) dict \<Rightarrow> string list \<Rightarrow> string list \<Rightarrow> string list \<Rightarrow> tm_adapter result" where
  "from_plan pl initial_store changed_paths initial_pending initial_done =
     bind_result (map_result selector_to_path changed_paths) (\<lambda>paths.
       Inr \<lparr>ta_plan = pl, ta_initial_store = initial_store, ta_changed_paths = paths,
            ta_initial_pending = initial_pending, ta_initial_done = initial_done\<rparr>)"

definition initial_state :: "tm_adapter \<Rightarrow> state result" where
  "initial_state a =
     bind_result (collect_steps (ta_plan a) (ta_changed_paths a)) (\<lambda>collected.
       Inr \<lparr>st_store = ta_initial_store a,
            st_pending = extend_new [] (ta_initial_pending a @ collected),
            st_done = ta_initial_done a, st_events = []\<rparr>)"

definition reads_available :: "step_spec \<Rightarrow> (string, val) dict \<Rightarrow> bool" where
  "reads_available spec store \<longleftrightarrow> list_all (dict_has store) (sp_reads spec)"

definition enabled_steps :: "tm_adapter \<Rightarrow> state \<Rightarrow> string list" where
  "enabled_steps a s =
     foldl (\<lambda>enabled name. case dict_get (pl_steps (ta_plan a)) name of
          None \<Rightarrow> enabled
        | Some spec \<Rightarrow> if reads_available spec (st_store s) then append_new enabled name else enabled)
       [] (st_pending s)"

text \<open>\<^verbatim>\<open>_run_step\<close>: writes set facts to true, clears remove them afterwards.\<close>

definition write_facts :: "string list \<Rightarrow> (string, val) dict \<Rightarrow> (string, val) dict" where
  "write_facts ws store = foldl (\<lambda>d w. dict_set w (VBool True) d) store ws"

definition clear_facts :: "string list \<Rightarrow> (string, val) dict \<Rightarrow> (string, val) dict" where
  "clear_facts cs store = foldl (\<lambda>d c. dict_pop c d) store cs"

definition run_step :: "tm_adapter \<Rightarrow> state \<Rightarrow> string \<Rightarrow> step_spec \<Rightarrow> state result" where
  "run_step a s name spec =
     bind_result (map_result selector_to_path (sp_writes spec)) (\<lambda>paths.
     bind_result (collect_steps (ta_plan a) paths) (\<lambda>triggered.
       Inr \<lparr>st_store = clear_facts (sp_clears spec) (write_facts (sp_writes spec) (st_store s)),
            st_pending = extend_new (remove1 name (st_pending s)) triggered,
            st_done = append_new (st_done s) name,
            st_events = st_events s @ [''step:'' @ name]\<rparr>))"

fun successors_of :: "tm_adapter \<Rightarrow> state \<Rightarrow> string list \<Rightarrow> (string \<times> state) list result" where
  "successors_of a s [] = Inr []"
| "successors_of a s (name # names) =
     (case dict_get (pl_steps (ta_plan a)) name of
        None \<Rightarrow> successors_of a s names
      | Some spec \<Rightarrow>
          bind_result (run_step a s name spec) (\<lambda>nxt.
          bind_result (successors_of a s names) (\<lambda>succ. Inr ((name, nxt) # succ))))"

definition successors :: "tm_adapter \<Rightarrow> state \<Rightarrow> (string \<times> state) list result" where
  "successors a s = successors_of a s (enabled_steps a s)"

definition is_deadlocked :: "tm_adapter \<Rightarrow> state \<Rightarrow> bool" where
  "is_deadlocked a s \<longleftrightarrow> length (st_pending s) > 0 \<and> enabled_steps a s = []"

definition tm_component :: "tm_adapter \<Rightarrow> component" where
  "tm_component a = \<lparr>co_initial = initial_state a, co_successors = successors a,
     co_deadlocked = is_deadlocked a, co_enabled = enabled_steps a\<rparr>"

section \<open>The component protocol as an interface\<close>

text \<open>
  What the explorer and the product rely on: for the states an adapter produces, the labels of
  the successors are the enabled steps, a deadlocked state has no successor, and one step leads
  from produced states to produced states.
\<close>

locale component_class =
  fixes comp :: "'a \<Rightarrow> component"
    and valid :: "'a \<Rightarrow> bool"
    and inv :: "'a \<Rightarrow> state \<Rightarrow> bool"
  assumes initial_total: "valid a \<Longrightarrow> \<exists>s. co_initial (comp a) = Inr s \<and> inv a s"
    and successors_total: "valid a \<Longrightarrow> inv a s \<Longrightarrow> \<exists>ss. co_successors (comp a) s = Inr ss"
    and successors_inv: "valid a \<Longrightarrow> inv a s \<Longrightarrow> co_successors (comp a) s = Inr ss \<Longrightarrow>
      (l, t) \<in> set ss \<Longrightarrow> inv a t"
    and successors_labels: "valid a \<Longrightarrow> inv a s \<Longrightarrow> co_successors (comp a) s = Inr ss \<Longrightarrow>
      map fst ss = co_enabled (comp a) s"
    and deadlocked_stuck: "valid a \<Longrightarrow> inv a s \<Longrightarrow> co_deadlocked (comp a) s \<Longrightarrow>
      co_enabled (comp a) s = []"
begin

text \<open>The states a valid adapter produces.\<close>

inductive produced :: "'a \<Rightarrow> state \<Rightarrow> bool" for a where
  produced_init: "co_initial (comp a) = Inr s \<Longrightarrow> produced a s"
| produced_step: "produced a s \<Longrightarrow> co_successors (comp a) s = Inr ss \<Longrightarrow> (l, t) \<in> set ss \<Longrightarrow>
    produced a t"

lemma produced_inv: "produced a s \<Longrightarrow> valid a \<Longrightarrow> inv a s"
proof (induction rule: produced.induct)
  case (produced_init s)
  then show ?case using initial_total by fastforce
next
  case (produced_step s ss l t)
  then show ?case using successors_inv by blast
qed

lemma produced_progress:
  assumes "valid a" and "produced a s"
  shows "co_enabled (comp a) s = [] \<or> (\<exists>l t ss. co_successors (comp a) s = Inr ss \<and> (l, t) \<in> set ss)"
proof -
  from assms have "inv a s" by (simp add: produced_inv)
  with assms obtain ss where ss: "co_successors (comp a) s = Inr ss"
    using successors_total by blast
  have "map fst ss = co_enabled (comp a) s"
    using assms(1) \<open>inv a s\<close> ss by (rule successors_labels)
  then show ?thesis using ss by (cases ss) auto
qed

lemma deadlocked_no_successor:
  assumes "valid a" "inv a s" "co_deadlocked (comp a) s"
  shows "co_successors (comp a) s = Inr []"
proof -
  obtain ss where ss: "co_successors (comp a) s = Inr ss"
    using successors_total assms(1,2) by blast
  then have "map fst ss = []" using successors_labels deadlocked_stuck assms by metis
  with ss show ?thesis by simp
qed

end

section \<open>Enabled steps and their effect\<close>

definition step_enabled :: "tm_adapter \<Rightarrow> state \<Rightarrow> string \<Rightarrow> bool" where
  "step_enabled a s name \<longleftrightarrow> (\<exists>spec. dict_get (pl_steps (ta_plan a)) name = Some spec \<and>
     (\<forall>r\<in>set (sp_reads spec). has_key s r))"

lemma enabled_fold:
  "foldl (\<lambda>enabled name. case dict_get (pl_steps (ta_plan a)) name of
        None \<Rightarrow> enabled
      | Some spec \<Rightarrow> if reads_available spec (st_store s) then append_new enabled name else enabled)
     acc names = extend_new acc (filter (step_enabled a s) names)"
  by (induction names arbitrary: acc)
    (auto simp: step_enabled_def reads_available_def list_all_iff split: option.splits)

lemma enabled_steps_eq: "enabled_steps a s = extend_new [] (filter (step_enabled a s) (st_pending s))"
  unfolding enabled_steps_def by (rule enabled_fold)

lemma set_enabled_steps:
  "set (enabled_steps a s) = {name \<in> set (st_pending s). step_enabled a s name}"
  by (simp add: enabled_steps_eq)

lemma distinct_enabled_steps [simp]: "distinct (enabled_steps a s)"
  by (simp add: enabled_steps_eq)

lemma dict_get_write_facts:
  "dict_get (write_facts ws d) k = (if k \<in> set ws then Some (VBool True) else dict_get d k)"
  unfolding write_facts_def by (induction ws arbitrary: d) (simp_all add: dict_simps)

lemma dict_get_clear_facts:
  "dict_get (clear_facts cs d) k = (if k \<in> set cs then None else dict_get d k)"
  unfolding clear_facts_def by (induction cs arbitrary: d) (simp_all add: dict_simps)

lemma dict_has_clear_facts:
  "dict_has (clear_facts cs d) k \<longleftrightarrow> k \<notin> set cs \<and> dict_has d k"
  by (simp add: dict_has_iff dict_get_clear_facts)

lemma dict_has_write_facts:
  "dict_has (write_facts ws d) k \<longleftrightarrow> k \<in> set ws \<or> dict_has d k"
  by (auto simp: dict_has_iff dict_get_write_facts)

lemma dict_wf_write_facts [simp]: "dict_wf d \<Longrightarrow> dict_wf (write_facts ws d)"
  unfolding write_facts_def by (induction ws arbitrary: d) simp_all

lemma dict_wf_clear_facts [simp]: "dict_wf d \<Longrightarrow> dict_wf (clear_facts cs d)"
  unfolding clear_facts_def by (induction cs arbitrary: d) simp_all

lemma run_step_fields:
  assumes "run_step a s name spec = Inr t"
  shows "st_store t = clear_facts (sp_clears spec) (write_facts (sp_writes spec) (st_store s))"
    and "st_done t = append_new (st_done s) name"
    and "st_events t = st_events s @ [''step:'' @ name]"
    and "\<exists>trig. st_pending t = extend_new (remove1 name (st_pending s)) trig"
  using assms by (auto simp: run_step_def result_simps)

lemma successors_of_Inr:
  assumes "successors_of a s names = Inr ss"
    and "\<forall>name\<in>set names. \<exists>spec. dict_get (pl_steps (ta_plan a)) name = Some spec"
  shows "map fst ss = names \<and> (\<forall>(name, t)\<in>set ss. \<exists>spec.
    dict_get (pl_steps (ta_plan a)) name = Some spec \<and> run_step a s name spec = Inr t)"
  using assms
proof (induction names arbitrary: ss)
  case (Cons name names)
  then obtain spec where spec: "dict_get (pl_steps (ta_plan a)) name = Some spec" by auto
  with Cons.prems obtain nxt ss' where nxt: "run_step a s name spec = Inr nxt"
    and ss': "successors_of a s names = Inr ss'" and ss: "ss = (name, nxt) # ss'"
    by (auto simp: result_simps)
  from Cons.IH[OF ss'] Cons.prems(2) spec nxt show ?case by (auto simp: ss)
qed simp

lemma enabled_steps_known:
  "\<forall>name\<in>set (enabled_steps a s). \<exists>spec. dict_get (pl_steps (ta_plan a)) name = Some spec"
  by (auto simp: set_enabled_steps step_enabled_def)

lemma successors_labels_enabled: "successors a s = Inr ss \<Longrightarrow> map fst ss = enabled_steps a s"
  unfolding successors_def using successors_of_Inr[OF _ enabled_steps_known] by blast

lemma successors_run_step:
  assumes "successors a s = Inr ss" and "(name, t) \<in> set ss"
  shows "\<exists>spec. dict_get (pl_steps (ta_plan a)) name = Some spec \<and> run_step a s name spec = Inr t"
  using successors_of_Inr[OF assms(1)[unfolded successors_def] enabled_steps_known] assms(2) by blast

section \<open>Well-formed plans never raise\<close>

text \<open>Every selector the adapter can meet is well formed.\<close>

definition plan_ok :: "plan \<Rightarrow> bool" where
  "plan_ok pl \<longleftrightarrow> (\<forall>r\<in>set (pl_rules pl). \<forall>t\<in>set (ru_triggers r). selector_ok t) \<and>
     (\<forall>(name, spec)\<in>set (pl_steps pl). \<forall>w\<in>set (sp_writes spec). selector_ok w)"

definition adapter_ok :: "tm_adapter \<Rightarrow> bool" where
  "adapter_ok a \<longleftrightarrow> plan_ok (ta_plan a) \<and> dict_wf (ta_initial_store a)"

definition selector_matches :: "string \<Rightarrow> path \<Rightarrow> bool" where
  "selector_matches t p \<longleftrightarrow> match_selector t p = Inr True"

lemma match_selector_ok: "selector_ok t \<Longrightarrow> match_selector t p = Inr (selector_matches t p)"
  by (auto simp: selector_ok_def match_selector_def selector_matches_def)

lemma rule_triggered_ok:
  assumes "\<forall>t\<in>set ts. selector_ok t"
  shows "rule_triggered ts ps = Inr (\<exists>t\<in>set ts. \<exists>p\<in>set ps. selector_matches t p)"
  unfolding rule_triggered_def
  by (rule match_any_Inr) (use assms match_selector_ok in blast)

definition triggered_steps :: "plan \<Rightarrow> path list \<Rightarrow> string list" where
  "triggered_steps pl ps = concat (map ru_steps
     (filter (\<lambda>r. \<exists>t\<in>set (ru_triggers r). \<exists>p\<in>set ps. selector_matches t p) (pl_rules pl)))"

lemma collect_steps_ok:
  assumes "plan_ok pl"
  shows "collect_steps pl ps = Inr (triggered_steps pl ps)"
proof -
  have "\<forall>r\<in>set rs. \<forall>t\<in>set (ru_triggers r). selector_ok t \<Longrightarrow>
    collect_rules rs ps = Inr (concat (map ru_steps
     (filter (\<lambda>r. \<exists>t\<in>set (ru_triggers r). \<exists>p\<in>set ps. selector_matches t p) rs)))" for rs
    by (induction rs) (auto simp: rule_triggered_ok)
  with assms show ?thesis by (simp add: collect_steps_def triggered_steps_def plan_ok_def)
qed

lemma selector_to_path_ok: "selector_ok w \<Longrightarrow> \<exists>p. selector_to_path w = Inr p"
  by (auto simp: selector_ok_def selector_to_path_def)

lemma map_selector_to_path_ok:
  "\<forall>w\<in>set ws. selector_ok w \<Longrightarrow> \<exists>ps. map_result selector_to_path ws = Inr ps"
  by (induction ws) (auto dest!: selector_to_path_ok)

lemma run_step_total:
  assumes "plan_ok (ta_plan a)" and "dict_get (pl_steps (ta_plan a)) name = Some spec"
  shows "\<exists>t. run_step a s name spec = Inr t"
proof -
  have "(name, spec) \<in> set (pl_steps (ta_plan a))" using assms(2) by (rule map_of_SomeD)
  then have "\<forall>w\<in>set (sp_writes spec). selector_ok w" using assms(1) by (auto simp: plan_ok_def)
  then obtain ps where "map_result selector_to_path (sp_writes spec) = Inr ps"
    using map_selector_to_path_ok by blast
  then show ?thesis using assms(1) by (simp add: run_step_def collect_steps_ok)
qed

lemma successors_of_total:
  "plan_ok (ta_plan a) \<Longrightarrow> \<exists>ss. successors_of a s names = Inr ss"
proof (induction names)
  case (Cons name names)
  then obtain ss where "successors_of a s names = Inr ss" by blast
  with Cons.prems run_step_total[of a name _ s] show ?case by (fastforce split: option.splits)
qed simp

section \<open>The plan adapter implements the protocol\<close>

text \<open>The invariant of the states it produces: a dictionary as store, no duplicates in the queues.\<close>

definition tm_inv :: "tm_adapter \<Rightarrow> state \<Rightarrow> bool" where
  "tm_inv a s \<longleftrightarrow> dict_wf (st_store s) \<and> distinct (st_pending s)"

lemma run_step_inv:
  assumes "tm_inv a s" and "run_step a s name spec = Inr t"
  shows "tm_inv a t"
proof -
  from run_step_fields(4)[OF assms(2)] obtain trig
    where "st_pending t = extend_new (remove1 name (st_pending s)) trig" by blast
  with run_step_fields(1)[OF assms(2)] assms(1) show ?thesis by (simp add: tm_inv_def)
qed

interpretation tm: component_class tm_component adapter_ok tm_inv
proof
  fix a s ss l t
  assume ok: "adapter_ok a"
  then have plan: "plan_ok (ta_plan a)" by (simp add: adapter_ok_def)
  show "\<exists>s. co_initial (tm_component a) = Inr s \<and> tm_inv a s"
    using ok by (simp add: tm_component_def initial_state_def collect_steps_ok[OF plan] tm_inv_def
        adapter_ok_def)
  show "\<exists>ss. co_successors (tm_component a) s = Inr ss"
    using plan by (simp add: tm_component_def successors_def successors_of_total)
  assume inv: "tm_inv a s"
  show "co_deadlocked (tm_component a) s \<Longrightarrow> co_enabled (tm_component a) s = []"
    by (simp add: tm_component_def is_deadlocked_def)
  assume ss: "co_successors (tm_component a) s = Inr ss"
  then show "map fst ss = co_enabled (tm_component a) s"
    by (simp add: tm_component_def successors_labels_enabled)
  assume "(l, t) \<in> set ss"
  with ss show "tm_inv a t"
    using successors_run_step run_step_inv[OF inv] by (fastforce simp: tm_component_def)
qed

section \<open>Properties\<close>

text \<open>
  The effect of executing a step of a plan with well-formed selectors: it never raises; the
  written facts become true unless they are also cleared, cleared facts disappear and all others
  keep their value; the step leaves the queue once, is marked done and logged; and the queue gains
  exactly the steps of the rules that have a trigger matching a written path.
\<close>

theorem run_step_effect:
  assumes "plan_ok (ta_plan a)" and "dict_get (pl_steps (ta_plan a)) name = Some spec"
  shows "\<exists>t paths. run_step a s name spec = Inr t \<and> map_result selector_to_path (sp_writes spec) = Inr paths \<and>
    (\<forall>k. dict_get (st_store t) k = (if k \<in> set (sp_clears spec) then None
       else if k \<in> set (sp_writes spec) then Some (VBool True) else dict_get (st_store s) k)) \<and>
    set (st_pending t) = set (remove1 name (st_pending s)) \<union>
      {n. \<exists>r\<in>set (pl_rules (ta_plan a)). n \<in> set (ru_steps r) \<and>
         (\<exists>trig\<in>set (ru_triggers r). \<exists>p\<in>set paths. match_selector trig p = Inr True)} \<and>
    set (st_done t) = insert name (set (st_done s)) \<and> st_events t = st_events s @ [''step:'' @ name]"
proof -
  have "(name, spec) \<in> set (pl_steps (ta_plan a))" using assms(2) by (rule map_of_SomeD)
  then have "\<forall>w\<in>set (sp_writes spec). selector_ok w" using assms(1) by (auto simp: plan_ok_def)
  then obtain ps where "map_result selector_to_path (sp_writes spec) = Inr ps"
    using map_selector_to_path_ok by blast
  then show ?thesis using assms(1)
    by (auto simp: run_step_def collect_steps_ok dict_get_clear_facts dict_get_write_facts
        triggered_steps_def selector_matches_def)
qed

definition toggle_adapter :: tm_adapter where
  "toggle_adapter = \<lparr>ta_plan = \<lparr>pl_steps =
       [(''on'', \<lparr>sp_name = ''on'', sp_reads = [], sp_writes = [''lit''], sp_fn = Inr, sp_clears = [''dark'']\<rparr>),
        (''off'', \<lparr>sp_name = ''off'', sp_reads = [''lit''], sp_writes = [''dark''], sp_fn = Inr, sp_clears = [''lit'']\<rparr>)],
       pl_rules = [\<lparr>ru_name = ''r'', ru_triggers = [''lit''], ru_steps = [''off'']\<rparr>]\<rparr>,
     ta_initial_store = [(''dark'', VBool True)], ta_changed_paths = [], ta_initial_pending = [''on''], ta_initial_done = []\<rparr>"

definition toggle_state :: state where
  "toggle_state = \<lparr>st_store = [(''dark'', VBool True)], st_pending = [''on''], st_done = [], st_events = []\<rparr>"

theorem run_step_effect_witness:
  "\<exists>spec t. dict_get (pl_steps (ta_plan toggle_adapter)) ''on'' = Some spec \<and>
    run_step toggle_adapter toggle_state ''on'' spec = Inr t \<and>
    dict_get (st_store t) ''lit'' = Some (VBool True) \<and> dict_get (st_store t) ''dark'' = None"
proof -
  have ok: "plan_ok (ta_plan toggle_adapter)"
    by (auto simp: plan_ok_def toggle_adapter_def)
  obtain spec where spec: "dict_get (pl_steps (ta_plan toggle_adapter)) ''on'' = Some spec"
    "sp_writes spec = [''lit'']" "sp_clears spec = [''dark'']"
    by (simp add: toggle_adapter_def)
  from run_step_effect[OF ok spec(1), of toggle_state] spec show ?thesis by force
qed

end
