(* ===== verification/Explorer.thy ===== *)
theory Explorer
  imports Adapter
begin

text \<open>
  Breadth-first exploration (\<^verbatim>\<open>tm/verify/explorer.py\<close>).  \<open>explorer_run\<close> is \<^verbatim>\<open>Explorer.run\<close>: a work
  list loop over a frontier, total by a multiset order on the remaining depths of the queued
  states.  \<open>path_to\<close> is the back-tracking of \<^verbatim>\<open>ExplorationResult.path_to\<close>.  An adapter may keep a memo
  (the product does), so its operations thread a memo \<open>'m\<close>.
\<close>

record 'm ex_adapter =
  ea_initial :: "'m \<Rightarrow> (state \<times> 'm) result"
  ea_successors :: "'m \<Rightarrow> state \<Rightarrow> ((string \<times> state) list \<times> 'm) result"
  ea_deadlocked :: "'m \<Rightarrow> state \<Rightarrow> bool"
  ea_enabled :: "'m \<Rightarrow> state \<Rightarrow> string list"

text \<open>A component without memo, as the explorer sees it.\<close>

definition of_component :: "component \<Rightarrow> unit ex_adapter" where
  "of_component c =
     \<lparr>ea_initial = (\<lambda>_. bind_result (co_initial c) (\<lambda>s. Inr (s, ()))),
      ea_successors = (\<lambda>_ s. bind_result (co_successors c s) (\<lambda>ss. Inr (ss, ()))),
      ea_deadlocked = (\<lambda>_. co_deadlocked c), ea_enabled = (\<lambda>_. co_enabled c)\<rparr>"

record exploration_result =
  ex_states :: "state list"
  ex_edges :: "(nat, nat list) dict"
  ex_predecessors :: "(nat, nat \<times> string) dict"
  ex_deadlocks :: "nat list"
  ex_hash_mode :: hash_mode
  ex_max_depth :: int

section \<open>Counterexample paths\<close>

text \<open>
  The loop of \<^verbatim>\<open>path_to\<close> collects the path backwards; the current state is its head, and the
  path's elements are the set \<^verbatim>\<open>seen\<close>.  Each round adds a state that was not on the path yet.
\<close>

function path_back :: "(nat, nat \<times> string) dict \<Rightarrow> nat list \<Rightarrow> nat list" where
  "path_back preds [] = []"
| "path_back preds (cur # rest) =
     (case dict_get preds cur of
        None \<Rightarrow> cur # rest
      | Some (prev, _) \<Rightarrow>
          if prev \<in> set (cur # rest) then cur # rest else path_back preds (prev # cur # rest))"
  by pat_completeness auto
termination
proof (relation "measure (\<lambda>(preds, path). card (fst ` snd ` set preds - set path))")
  fix preds :: "(nat, nat \<times> string) dict" and cur rest x2 prev l
  assume get: "dict_get preds cur = Some x2" "(prev, l) = x2" and new: "prev \<notin> set (cur # rest)"
  have "(cur, prev, l) \<in> set preds" using get by (metis map_of_SomeD)
  then have "prev \<in> fst ` snd ` set preds" by force
  with new have "card (fst ` snd ` set preds - set (prev # cur # rest))
      < card (fst ` snd ` set preds - set (cur # rest))"
    by (intro psubset_card_mono) auto
  then show "((preds, prev # cur # rest), preds, cur # rest)
    \<in> measure (\<lambda>(preds, path). card (fst ` snd ` set preds - set path))"
    by simp
qed simp

declare path_back.simps(2) [simp del]

definition path_to :: "exploration_result \<Rightarrow> nat \<Rightarrow> nat list" where
  "path_to r target =
     (if target \<ge> length (ex_states r) then [] else path_back (ex_predecessors r) [target])"

section \<open>The work list loop\<close>

record ('m, 'h) frontier =
  fr_states :: "state list"
  fr_edges :: "(nat, nat list) dict"
  fr_preds :: "(nat, nat \<times> string) dict"
  fr_deadlocks :: "nat list"
  fr_seen :: "('h, nat) dict"
  fr_depths :: "(nat, nat) dict"
  fr_queue :: "(nat \<times> state) list"
  fr_memo :: 'm

abbreviation depth_of :: "('m, 'h) frontier \<Rightarrow> nat \<Rightarrow> nat" where
  "depth_of fr sid \<equiv> dict_get_or (fr_depths fr) sid 0"

text \<open>The body of the inner loop: one labelled successor of state \<open>sid\<close>.\<close>

definition visit_succ ::
  "(state \<Rightarrow> 'h) \<Rightarrow> nat \<Rightarrow> nat \<Rightarrow> ('m, 'h) frontier \<Rightarrow> string \<times> state \<Rightarrow> ('m, 'h) frontier" where
  "visit_succ key sid depth fr ls =
     (let (label, nxt) = ls; h = key nxt;
          (nid, fr') =
            (case dict_get (fr_seen fr) h of
               Some nid \<Rightarrow> (nid, fr)
             | None \<Rightarrow>
                 (let nid = length (fr_states fr) in
                  (nid, fr\<lparr>fr_states := fr_states fr @ [nxt],
                           fr_seen := dict_set h nid (fr_seen fr),
                           fr_depths := dict_set nid (depth + 1) (fr_depths fr),
                           fr_queue := fr_queue fr @ [(nid, nxt)]\<rparr>)))
      in fr'\<lparr>fr_edges := dict_set sid (dict_get_or (fr_edges fr') sid [] @ [nid]) (fr_edges fr'),
             fr_preds := dict_setdefault nid (sid, label) (fr_preds fr')\<rparr>)"

text \<open>The body of the outer loop, for the state popped from the queue.\<close>

definition explore_state ::
  "'m ex_adapter \<Rightarrow> (state \<Rightarrow> 'h) \<Rightarrow> int \<Rightarrow> nat \<Rightarrow> state \<Rightarrow> ('m, 'h) frontier \<Rightarrow> ('m, 'h) frontier result" where
  "explore_state A key max_depth sid st fr =
     (let depth = depth_of fr sid in
      bind_result
        (if int depth \<ge> max_depth then Inr ([], fr_memo fr) else ea_successors A (fr_memo fr) st)
        (\<lambda>(succ, memo).
           (let fr1 = fr\<lparr>fr_memo := memo,
                fr_deadlocks := (if succ = [] \<and> ea_deadlocked A memo st
                                 then fr_deadlocks fr @ [sid] else fr_deadlocks fr)\<rparr>
            in Inr (foldl (visit_succ key sid depth) fr1 succ))))"

section \<open>Termination\<close>

text \<open>What a run of the inner loop does to the queue and the depths.\<close>

definition queue_grows :: "nat \<Rightarrow> ('m, 'h) frontier \<Rightarrow> ('m, 'h) frontier \<Rightarrow> bool" where
  "queue_grows depth fr0 fr \<longleftrightarrow>
     (\<exists>new. fr_queue fr = fr_queue fr0 @ new \<and> (\<forall>(i, s)\<in>set new. depth_of fr i = depth + 1)) \<and>
     (\<forall>i. depth_of fr i = depth_of fr0 i \<or> depth_of fr i = depth + 1)"

lemma dict_get_or_set [simp]:
  "dict_get_or (dict_set k v d) k' x = (if k' = k then v else dict_get_or d k' x)"
  by (simp add: dict_get_or_def dict_simps)

lemma visit_succ_seen:
  assumes "dict_get (fr_seen fr) (key nxt) = Some nid"
  shows "visit_succ key sid depth fr (label, nxt) =
    fr\<lparr>fr_edges := dict_set sid (dict_get_or (fr_edges fr) sid [] @ [nid]) (fr_edges fr),
       fr_preds := dict_setdefault nid (sid, label) (fr_preds fr)\<rparr>"
  using assms by (simp add: visit_succ_def)

lemma visit_succ_new:
  assumes "dict_get (fr_seen fr) (key nxt) = None"
  shows "visit_succ key sid depth fr (label, nxt) =
    fr\<lparr>fr_states := fr_states fr @ [nxt],
       fr_seen := dict_set (key nxt) (length (fr_states fr)) (fr_seen fr),
       fr_depths := dict_set (length (fr_states fr)) (depth + 1) (fr_depths fr),
       fr_queue := fr_queue fr @ [(length (fr_states fr), nxt)],
       fr_edges := dict_set sid (dict_get_or (fr_edges fr) sid [] @ [length (fr_states fr)]) (fr_edges fr),
       fr_preds := dict_setdefault (length (fr_states fr)) (sid, label) (fr_preds fr)\<rparr>"
  using assms by (simp add: visit_succ_def Let_def)

lemma visit_succ_grows:
  assumes "queue_grows depth fr0 fr"
  shows "queue_grows depth fr0 (visit_succ key sid depth fr (label, nxt))"
proof (cases "dict_get (fr_seen fr) (key nxt)")
  case None
  let ?n = "length (fr_states fr)"
  from assms obtain new where q: "fr_queue fr = fr_queue fr0 @ new"
    and new: "\<forall>(i, s)\<in>set new. depth_of fr i = depth + 1"
    and d: "\<forall>i. depth_of fr i = depth_of fr0 i \<or> depth_of fr i = depth + 1"
    unfolding queue_grows_def by blast
  let ?fr = "visit_succ key sid depth fr (label, nxt)"
  have q': "fr_queue ?fr = fr_queue fr0 @ (new @ [(?n, nxt)])"
    and d': "depth_of ?fr i = (if i = ?n then depth + 1 else depth_of fr i)" for i
    using None by (simp_all add: visit_succ_new q)
  have "\<forall>(i, s)\<in>set (new @ [(?n, nxt)]). depth_of ?fr i = depth + 1"
    using new unfolding d' by auto
  moreover have "\<forall>i. depth_of ?fr i = depth_of fr0 i \<or> depth_of ?fr i = depth + 1"
    using d unfolding d' by auto
  ultimately show ?thesis unfolding queue_grows_def using q' by blast
next
  case (Some nid)
  with assms show ?thesis by (simp add: visit_succ_seen queue_grows_def)
qed

lemma foldl_visit_grows:
  "queue_grows depth fr0 fr \<Longrightarrow> queue_grows depth fr0 (foldl (visit_succ key sid depth) fr succ)"
  by (induction succ arbitrary: fr) (auto simp: visit_succ_grows)

lemma queue_grows_refl [simp]:
  "queue_grows depth fr0 (fr0\<lparr>fr_memo := m, fr_deadlocks := ds\<rparr>)"
  by (simp add: queue_grows_def)

text \<open>
  The order: the multiset of the depths that remain below the queued states.  Popping a state
  replaces its remaining depth by finitely many smaller ones.
\<close>

definition remaining :: "int \<Rightarrow> ('m, 'h) frontier \<Rightarrow> nat multiset" where
  "remaining max_depth fr = mset (map (\<lambda>(i, s). nat (max_depth - int (depth_of fr i))) (fr_queue fr))"

lemma explore_state_remaining:
  assumes pop: "fr_queue fr = (sid, st) # q"
    and step: "explore_state A key max_depth sid st (fr\<lparr>fr_queue := q\<rparr>) = Inr fr'"
  shows "(remaining max_depth fr', remaining max_depth fr) \<in> mult less_than"
proof -
  let ?d = "depth_of fr sid" and ?r = "\<lambda>fr (i, s). nat (max_depth - int (depth_of fr i))"
  have rem: "remaining max_depth fr = mset (map (?r fr) q) + {#nat (max_depth - int ?d)#}"
    by (simp add: remaining_def pop)
  show ?thesis
  proof (cases "int ?d \<ge> max_depth")
    case True
    with step have "fr_queue fr' = q" and "fr_depths fr' = fr_depths fr"
      by (auto simp: explore_state_def Let_def)
    then have "remaining max_depth fr' = mset (map (?r fr) q) + {#}"
      by (simp add: remaining_def)
    then show ?thesis unfolding rem
      using one_step_implies_mult[of "{#nat (max_depth - int ?d)#}" "{#}" less_than] by simp
  next
    case False
    with step obtain succ memo ds where
      "fr' = foldl (visit_succ key sid ?d) (fr\<lparr>fr_queue := q, fr_memo := memo, fr_deadlocks := ds\<rparr>) succ"
      by (auto simp: explore_state_def Let_def result_simps)
    then have "queue_grows ?d (fr\<lparr>fr_queue := q\<rparr>) fr'"
      by (simp add: foldl_visit_grows)
    then obtain new where q': "fr_queue fr' = q @ new"
      and new: "\<forall>(i, s)\<in>set new. depth_of fr' i = ?d + 1"
      and d: "\<And>i. depth_of fr' i = depth_of fr i \<or> depth_of fr' i = ?d + 1"
      by (auto simp: queue_grows_def)
    let ?same = "\<lambda>(i, s :: state). depth_of fr' i = depth_of fr i"
    let ?I = "mset (map (?r fr) (filter ?same q))"
    let ?J = "mset (map (?r fr) (filter (Not \<circ> ?same) q)) + {#nat (max_depth - int ?d)#}"
    let ?K = "mset (map (?r fr') (filter (Not \<circ> ?same) q)) + mset (map (?r fr') new)"
    have split: "mset (map f q) = mset (map f (filter ?same q)) + mset (map f (filter (Not \<circ> ?same) q))"
      for f :: "nat \<times> state \<Rightarrow> nat"
      by (induction q) auto
    have same: "map (?r fr') (filter ?same q) = map (?r fr) (filter ?same q)"
      by auto
    have "remaining max_depth fr' = ?I + ?K"
      unfolding remaining_def q' by (simp only: map_append mset_append split same ac_simps)
    moreover have "remaining max_depth fr = ?I + ?J"
      unfolding rem by (simp only: split ac_simps)
    moreover have "\<forall>k\<in>set_mset ?K. \<exists>j\<in>set_mset ?J. (k, j) \<in> less_than"
    proof
      fix k assume "k \<in># ?K"
      then have "k = nat (max_depth - int (?d + 1))" using d new by fastforce
      then have "(k, nat (max_depth - int ?d)) \<in> less_than" using False by auto
      then show "\<exists>j\<in>set_mset ?J. (k, j) \<in> less_than" by auto
    qed
    ultimately show ?thesis using one_step_implies_mult[of ?J ?K less_than ?I] by simp
  qed
qed

function explore_loop ::
  "'m ex_adapter \<Rightarrow> (state \<Rightarrow> 'h) \<Rightarrow> int \<Rightarrow> ('m, 'h) frontier \<Rightarrow> ('m, 'h) frontier result" where
  "explore_loop A key max_depth fr =
     (case fr_queue fr of
        [] \<Rightarrow> Inr fr
      | (sid, st) # q \<Rightarrow>
          bind_result (explore_state A key max_depth sid st (fr\<lparr>fr_queue := q\<rparr>))
            (explore_loop A key max_depth))"
  by pat_completeness auto
termination
proof (relation "inv_image (mult less_than) (\<lambda>(A, key, max_depth, fr). remaining max_depth fr)")
  show "wf (inv_image (mult less_than) (\<lambda>(A :: 'm ex_adapter, key :: state \<Rightarrow> 'h, max_depth, fr).
      remaining max_depth fr))"
    by (intro wf_inv_image wf_mult wf_less_than)
qed (auto intro: explore_state_remaining)

declare explore_loop.simps [simp del]

definition explorer_run ::
  "(payload \<Rightarrow> 'h) \<Rightarrow> 'm ex_adapter \<Rightarrow> 'm \<Rightarrow> int \<Rightarrow> hash_mode \<Rightarrow> (exploration_result \<times> 'm) result" where
  "explorer_run H A memo0 max_depth mode =
     bind_result (ea_initial A memo0) (\<lambda>(root, memo).
     bind_result (explore_loop A (stable_hash H mode) max_depth
         \<lparr>fr_states = [root], fr_edges = [], fr_preds = [], fr_deadlocks = [],
          fr_seen = [(stable_hash H mode root, 0)], fr_depths = [(0, 0)],
          fr_queue = [(0, root)], fr_memo = memo\<rparr>) (\<lambda>fr.
       Inr (\<lparr>ex_states = fr_states fr, ex_edges = fr_edges fr, ex_predecessors = fr_preds fr,
             ex_deadlocks = fr_deadlocks fr, ex_hash_mode = mode, ex_max_depth = max_depth\<rparr>,
            fr_memo fr)))"

section \<open>The invariant of the loop\<close>

text \<open>
  The abstract side: \<open>ps\<close> is the successor function, \<open>pd\<close> the deadlock test, \<open>key\<close> the state
  identity, \<open>D\<close> the depth bound.  \<open>expanded\<close> gives the successors that have been recorded for state
  \<open>i\<close> when the states below \<open>p\<close> are finished and \<open>cur\<close> has been recorded for \<open>p\<close> itself.
\<close>

definition bounded_succ ::
  "(state \<Rightarrow> (string \<times> state) list) \<Rightarrow> int \<Rightarrow> nat \<Rightarrow> state \<Rightarrow> (string \<times> state) list" where
  "bounded_succ ps D d s = (if int d \<ge> D then [] else ps s)"

definition expanded ::
  "(state \<Rightarrow> (string \<times> state) list) \<Rightarrow> int \<Rightarrow> (nat \<Rightarrow> nat) \<Rightarrow> state list \<Rightarrow> nat
   \<Rightarrow> (string \<times> state) list \<Rightarrow> nat \<Rightarrow> (string \<times> state) list" where
  "expanded ps D d sts p cur i =
     (if i < p then bounded_succ ps D (d i) (sts ! i) else if i = p then cur else [])"

definition edges_ok ::
  "(state \<Rightarrow> 'h) \<Rightarrow> (nat \<Rightarrow> nat) \<Rightarrow> state list \<Rightarrow> (nat \<Rightarrow> (string \<times> state) list)
   \<Rightarrow> (nat, nat list) dict \<Rightarrow> bool" where
  "edges_ok key d sts ex edges \<longleftrightarrow> dict_wf edges \<and>
     (\<forall>i. case dict_get edges i of
        None \<Rightarrow> ex i = []
      | Some js \<Rightarrow> i < length sts \<and> ex i \<noteq> [] \<and>
          list_all2 (\<lambda>(l, t) j. j < length sts \<and> key (sts ! j) = key t \<and> d j \<le> d i + 1) (ex i) js)"

definition preds_ok ::
  "(state \<Rightarrow> 'h) \<Rightarrow> (nat \<Rightarrow> nat) \<Rightarrow> state list \<Rightarrow> (nat \<Rightarrow> (string \<times> state) list)
   \<Rightarrow> (nat, nat \<times> string) dict \<Rightarrow> bool" where
  "preds_ok key d sts ex preds \<longleftrightarrow>
     (\<forall>j i l. dict_get preds j = Some (i, l) \<longrightarrow> i < length sts \<and> j < length sts \<and>
        (\<exists>t. (l, t) \<in> set (ex i) \<and> key (sts ! j) = key t)) \<and>
     (\<forall>j. 0 < j \<and> j < length sts \<longrightarrow> (\<exists>i l. dict_get preds j = Some (i, l) \<and> i < j \<and>
        d j = d i + 1 \<and> (l, sts ! j) \<in> set (ex i)))"

definition depths_ok :: "(nat \<Rightarrow> nat) \<Rightarrow> nat \<Rightarrow> nat \<Rightarrow> bool" where
  "depths_ok d n p \<longleftrightarrow> d 0 = 0 \<and> (\<forall>i j. i \<le> j \<and> j < n \<longrightarrow> d i \<le> d j) \<and>
     (p < n \<longrightarrow> (\<forall>i<n. d i \<le> d p + 1))"

definition fr_inv ::
  "state \<Rightarrow> (state \<Rightarrow> (string \<times> state) list) \<Rightarrow> (state \<Rightarrow> bool) \<Rightarrow> (state \<Rightarrow> 'h) \<Rightarrow> int
   \<Rightarrow> nat \<Rightarrow> (string \<times> state) list \<Rightarrow> nat \<Rightarrow> ('m, 'h) frontier \<Rightarrow> bool" where
  "fr_inv init ps pd key D p cur q fr \<longleftrightarrow>
     (let sts = fr_states fr; d = depth_of fr; ex = expanded ps D d sts p cur in
      sts \<noteq> [] \<and> sts ! 0 = init \<and> q \<le> length sts \<and>
      fr_queue fr = map (\<lambda>i. (i, sts ! i)) [q..<length sts] \<and>
      (\<forall>h i. dict_get (fr_seen fr) h = Some i \<longleftrightarrow> i < length sts \<and> key (sts ! i) = h) \<and>
      depths_ok d (length sts) p \<and> edges_ok key d sts ex (fr_edges fr) \<and>
      preds_ok key d sts ex (fr_preds fr) \<and>
      fr_deadlocks fr = filter (\<lambda>i. bounded_succ ps D (d i) (sts ! i) = [] \<and> pd (sts ! i)) [0..<q])"

lemma edges_okD:
  assumes "edges_ok key d sts ex edges"
  shows "case dict_get edges i of
      None \<Rightarrow> ex i = []
    | Some js \<Rightarrow> i < length sts \<and> ex i \<noteq> [] \<and>
        list_all2 (\<lambda>(l, t) j. j < length sts \<and> key (sts ! j) = key t \<and> d j \<le> d i + 1) (ex i) js"
  using assms unfolding edges_ok_def by blast

lemma edges_ok_grow:
  assumes ok: "edges_ok key d sts ex edges" and n: "length sts \<le> length sts'"
    and same: "\<And>i. i < length sts \<Longrightarrow> sts' ! i = sts ! i \<and> d' i = d i"
    and ex: "\<And>i. i \<noteq> p \<Longrightarrow> ex' i = ex i" and ex_p: "ex' p = ex p @ [(l, t)]"
    and p: "p < length sts" and j: "j < length sts'" "key (sts' ! j) = key t" "d' j \<le> d' p + 1"
  shows "edges_ok key d' sts' ex' (dict_set p (dict_get_or edges p [] @ [j]) edges)"
proof -
  let ?P = "\<lambda>d sts i (l, t) j. j < length sts \<and> key (sts ! j) = key t \<and> d j \<le> d i + 1"
  have weaken: "list_all2 (?P d' sts' i) (ex i) js" if "i < length sts" "list_all2 (?P d sts i) (ex i) js" for i js
    using that(2) by (rule list_all2_mono) (use that(1) n same in auto)
  have "case dict_get (dict_set p (dict_get_or edges p [] @ [j]) edges) i of
        None \<Rightarrow> ex' i = []
      | Some js \<Rightarrow> i < length sts' \<and> ex' i \<noteq> [] \<and> list_all2 (?P d' sts' i) (ex' i) js" for i
  proof (cases "i = p")
    case True
    have "list_all2 (?P d' sts' p) (ex p) (dict_get_or edges p [])"
      using ok weaken[OF p] unfolding edges_ok_def dict_get_or_def
      by (cases "dict_get edges p") (auto dest: spec[where x = p])
    then show ?thesis using True j p n ex_p by (simp add: dict_simps list_all2_appendI)
  next
    case False
    then show ?thesis using ok weaken[of i] ex n unfolding edges_ok_def
      by (fastforce simp: dict_simps split: option.splits dest: spec[where x = i])
  qed
  moreover have "dict_wf edges" using ok by (simp add: edges_ok_def)
  ultimately show ?thesis by (simp add: edges_ok_def)
qed

lemma preds_ok_grow:
  assumes ok: "preds_ok key d sts ex preds" and n: "length sts \<le> length sts'"
    and same: "\<And>i. i < length sts \<Longrightarrow> sts' ! i = sts ! i \<and> d' i = d i"
    and ex: "\<And>i. i \<noteq> p \<Longrightarrow> ex' i = ex i" and ex_p: "ex' p = ex p @ [(l, t)]"
    and p: "p < length sts" and j: "j < length sts'" "key (sts' ! j) = key t"
    and new: "length sts' = length sts \<or>
      (length sts' = Suc (length sts) \<and> j = length sts \<and> sts' ! j = t \<and> d' j = d' p + 1)"
  shows "preds_ok key d' sts' ex' (dict_setdefault j (p, l) preds)"
proof -
  let ?pr = "dict_setdefault j (p, l) preds"
  have sub: "x \<in> set (ex i) \<Longrightarrow> x \<in> set (ex' i)" for x i
    using ex ex_p by (cases "i = p") auto
  have old: "i < length sts \<and> k < length sts \<and> (\<exists>t. (l', t) \<in> set (ex i) \<and> key (sts ! k) = key t)"
    if "dict_get preds k = Some (i, l')" for k i l'
    using ok that unfolding preds_ok_def by blast
  have 1: "i < length sts' \<and> k < length sts' \<and> (\<exists>t. (l', t) \<in> set (ex' i) \<and> key (sts' ! k) = key t)"
    if get: "dict_get ?pr k = Some (i, l')" for k i l'
  proof (cases "dict_get preds k")
    case None
    with get have "k = j" and "i = p" and "l' = l"
      by (auto simp: dict_simps dict_get_or_def split: if_splits)
    then show ?thesis using p n j ex_p by auto
  next
    case (Some x)
    with get have "dict_get preds k = Some (i, l')"
      by (auto simp: dict_simps dict_get_or_def split: if_splits)
    from old[OF this] show ?thesis using n same sub by fastforce
  qed
  have 2: "\<exists>i l. dict_get ?pr k = Some (i, l) \<and> i < k \<and> d' k = d' i + 1 \<and> (l, sts' ! k) \<in> set (ex' i)"
    if k: "0 < k" "k < length sts'" for k
  proof (cases "k < length sts")
    case True
    with k ok obtain i l' where get: "dict_get preds k = Some (i, l')" and "i < k" "d k = d i + 1"
      "(l', sts ! k) \<in> set (ex i)" unfolding preds_ok_def by blast
    moreover from get have "dict_get ?pr k = Some (i, l')" by (auto simp: dict_simps dict_get_or_def)
    ultimately show ?thesis using True same[of k] same[of i] sub by fastforce
  next
    case False
    with k new have k': "k = length sts" "k = j" "sts' ! j = t" "d' j = d' p + 1" by auto
    have "dict_get preds k = None" using old[of k] False by (cases "dict_get preds k") auto
    then have "dict_get ?pr k = Some (p, l)" using k' by (simp add: dict_simps dict_get_or_def)
    then show ?thesis using k' p ex_p by auto
  qed
  show ?thesis unfolding preds_ok_def using 1 2 by blast
qed

lemma visit_succ_inv:
  assumes inv: "fr_inv init ps pd key D p cur (Suc p) fr"
    and p: "p < length (fr_states fr)"
  shows "fr_inv init ps pd key D p (cur @ [(l, t)]) (Suc p)
      (visit_succ key p (depth_of fr p) fr (l, t)) \<and>
    p < length (fr_states (visit_succ key p (depth_of fr p) fr (l, t))) \<and>
    depth_of (visit_succ key p (depth_of fr p) fr (l, t)) p = depth_of fr p \<and>
    fr_states (visit_succ key p (depth_of fr p) fr (l, t)) ! p = fr_states fr ! p"
proof -
  let ?sts = "fr_states fr" and ?d = "depth_of fr"
  let ?ex = "expanded ps D ?d ?sts p cur"
  note I = inv[unfolded fr_inv_def Let_def]
  from I have seen: "\<And>h i. dict_get (fr_seen fr) h = Some i \<longleftrightarrow> i < length ?sts \<and> key (?sts ! i) = h"
    and e: "edges_ok key ?d ?sts ?ex (fr_edges fr)" and pr: "preds_ok key ?d ?sts ?ex (fr_preds fr)"
    and dep: "depths_ok ?d (length ?sts) p" by blast+
  show ?thesis
  proof (cases "dict_get (fr_seen fr) (key t)")
    case (Some j)
    with seen have j: "j < length ?sts" "key (?sts ! j) = key t" by blast+
    let ?ex' = "expanded ps D ?d ?sts p (cur @ [(l, t)])"
    have ex: "?ex' p = ?ex p @ [(l, t)]" "\<And>i. i \<noteq> p \<Longrightarrow> ?ex' i = ?ex i"
      by (auto simp: expanded_def)
    have "?d j \<le> ?d p + 1" using dep p j by (simp add: depths_ok_def)
    then have "edges_ok key ?d ?sts ?ex' (dict_set p (dict_get_or (fr_edges fr) p [] @ [j]) (fr_edges fr))"
      using edges_ok_grow[OF e _ _ ex(2,1) p, where sts' = ?sts and d' = ?d] j by simp
    moreover have "preds_ok key ?d ?sts ?ex' (dict_setdefault j (p, l) (fr_preds fr))"
      using preds_ok_grow[OF pr _ _ ex(2,1) p, where sts' = ?sts and d' = ?d] j by simp
    ultimately show ?thesis using I p Some
      by (simp add: fr_inv_def Let_def visit_succ_seen)
  next
    case None
    let ?n = "length ?sts" and ?fr = "visit_succ key p (depth_of fr p) fr (l, t)"
    have fr: "fr_states ?fr = ?sts @ [t]" "fr_queue ?fr = fr_queue fr @ [(?n, t)]"
      "fr_seen ?fr = dict_set (key t) ?n (fr_seen fr)" "fr_deadlocks ?fr = fr_deadlocks fr"
      "fr_edges ?fr = dict_set p (dict_get_or (fr_edges fr) p [] @ [?n]) (fr_edges fr)"
      "fr_preds ?fr = dict_setdefault ?n (p, l) (fr_preds fr)"
      using None by (simp_all add: visit_succ_new)
    have d: "depth_of ?fr i = (if i = ?n then ?d p + 1 else ?d i)" for i
      using None by (simp add: visit_succ_new)
    have same: "(?sts @ [t]) ! i = ?sts ! i \<and> depth_of ?fr i = ?d i" if "i < ?n" for i
      using that by (simp add: d nth_append)
    let ?ex' = "expanded ps D (depth_of ?fr) (?sts @ [t]) p (cur @ [(l, t)])"
    have ex: "?ex' p = ?ex p @ [(l, t)]" "\<And>i. i \<noteq> p \<Longrightarrow> ?ex' i = ?ex i"
      using same p by (auto simp: expanded_def)
    have dn: "depth_of ?fr ?n \<le> depth_of ?fr p + 1" "depth_of ?fr ?n = depth_of ?fr p + 1"
      using p by (simp_all add: d)
    have "edges_ok key (depth_of ?fr) (?sts @ [t]) ?ex' (fr_edges ?fr)"
      unfolding fr(5) using dn by (intro edges_ok_grow[OF e _ same ex(2,1) p]) simp_all
    moreover have "preds_ok key (depth_of ?fr) (?sts @ [t]) ?ex' (fr_preds ?fr)"
      unfolding fr(6) using dn by (intro preds_ok_grow[OF pr _ same ex(2,1) p]) simp_all
    moreover have "depths_ok (depth_of ?fr) (Suc ?n) p"
      using dep p unfolding depths_ok_def d by (auto simp: less_Suc_eq)
    moreover have "i < ?n \<Longrightarrow> key (?sts ! i) \<noteq> key t" for i
      using seen None by (metis option.distinct(1))
    then have "dict_get (fr_seen ?fr) h = Some i \<longleftrightarrow> i < Suc ?n \<and> key ((?sts @ [t]) ! i) = h" for h i
      using seen unfolding fr(3) by (auto simp: dict_simps nth_append less_Suc_eq)
    moreover have "fr_queue ?fr = map (\<lambda>i. (i, (?sts @ [t]) ! i)) [Suc p..<Suc ?n]"
      using I p unfolding fr(2) by (simp add: nth_append)
    moreover have "fr_deadlocks ?fr = filter (\<lambda>i. bounded_succ ps D (depth_of ?fr i) ((?sts @ [t]) ! i) = []
        \<and> pd ((?sts @ [t]) ! i)) [0..<Suc p]"
      using I p same unfolding fr(4) by (auto intro!: filter_cong)
    ultimately show ?thesis using I p
      by (simp add: fr_inv_def Let_def fr(1) d nth_append)
  qed
qed

lemma foldl_visit_inv:
  assumes "fr_inv init ps pd key D p cur (Suc p) fr" and "p < length (fr_states fr)"
    and "d = depth_of fr p"
  shows "fr_inv init ps pd key D p (cur @ xs) (Suc p) (foldl (visit_succ key p d) fr xs) \<and>
    p < length (fr_states (foldl (visit_succ key p d) fr xs)) \<and>
    depth_of (foldl (visit_succ key p d) fr xs) p = d \<and>
    fr_states (foldl (visit_succ key p d) fr xs) ! p = fr_states fr ! p"
  using assms
proof (induction xs arbitrary: fr cur)
  case (Cons x xs)
  obtain l t where x: "x = (l, t)" by force
  let ?fr = "visit_succ key p d fr x"
  have "fr_inv init ps pd key D p (cur @ [x]) (Suc p) ?fr" "p < length (fr_states ?fr)"
    "d = depth_of ?fr p" "fr_states ?fr ! p = fr_states fr ! p"
    using visit_succ_inv[OF Cons.prems(1,2), of l t] Cons.prems(3) x by simp_all
  with Cons.IH[of "cur @ [x]" ?fr] show ?case by simp
qed simp

lemma fr_inv_pop:
  assumes "fr_inv init ps pd key D p [] p fr" and "fr_queue fr = (sid, st) # q"
  shows "sid = p" "p < length (fr_states fr)" "st = fr_states fr ! p"
    and "fr_inv init ps pd key D p [] (Suc p) (fr\<lparr>fr_queue := q, fr_memo := m,
      fr_deadlocks := (if bounded_succ ps D (depth_of fr p) st = [] \<and> pd st
                       then fr_deadlocks fr @ [p] else fr_deadlocks fr)\<rparr>)"
proof -
  note I = assms(1)[unfolded fr_inv_def Let_def]
  let ?n = "length (fr_states fr)"
  have q: "map (\<lambda>i. (i, fr_states fr ! i)) [p..<?n] = (sid, st) # q" using I assms(2) by simp
  then have "[p..<?n] \<noteq> []" by auto
  then show p: "p < ?n" by simp
  then have "[p..<?n] = p # [Suc p..<?n]" by (rule upt_conv_Cons)
  with q have "(p, fr_states fr ! p) # map (\<lambda>i. (i, fr_states fr ! i)) [Suc p..<?n] = (sid, st) # q"
    by (simp only: list.map)
  then have q': "sid = p" "st = fr_states fr ! p" "q = map (\<lambda>i. (i, fr_states fr ! i)) [Suc p..<?n]"
    by auto
  then show "sid = p" "st = fr_states fr ! p" by simp_all
  show "fr_inv init ps pd key D p [] (Suc p) (fr\<lparr>fr_queue := q, fr_memo := m,
      fr_deadlocks := (if bounded_succ ps D (depth_of fr p) st = [] \<and> pd st
                       then fr_deadlocks fr @ [p] else fr_deadlocks fr)\<rparr>)"
    using I p q' by (simp add: fr_inv_def Let_def)
qed

lemma fr_inv_finish:
  assumes "fr_inv init ps pd key D p (bounded_succ ps D (depth_of fr p) (fr_states fr ! p)) (Suc p) fr"
  shows "fr_inv init ps pd key D (Suc p) [] (Suc p) fr"
proof -
  note I = assms[unfolded fr_inv_def Let_def]
  have "expanded ps D (depth_of fr) (fr_states fr) p (bounded_succ ps D (depth_of fr p) (fr_states fr ! p))
      = expanded ps D (depth_of fr) (fr_states fr) (Suc p) []"
    by (rule ext) (auto simp: expanded_def less_Suc_eq)
  moreover have "depths_ok (depth_of fr) (length (fr_states fr)) (Suc p)"
  proof -
    have ok: "depths_ok (depth_of fr) (length (fr_states fr)) p" using I by blast
    have "depth_of fr i \<le> depth_of fr (Suc p) + 1"
      if "Suc p < length (fr_states fr)" "i < length (fr_states fr)" for i
    proof -
      have "depth_of fr i \<le> depth_of fr p + 1" "depth_of fr p \<le> depth_of fr (Suc p)"
        using ok that by (auto simp: depths_ok_def)
      then show ?thesis by linarith
    qed
    with ok show ?thesis by (auto simp: depths_ok_def)
  qed
  ultimately show ?thesis using I by (simp add: fr_inv_def Let_def)
qed

section \<open>Correctness for every adapter that answers\<close>

text \<open>
  The contract of an exploration: \<open>d\<close> gives each recorded state its depth, the states have
  pairwise different keys, the edges of a state below the bound are exactly its successors, and
  every state but the root has a predecessor one level above it.
\<close>

definition recorded_succ ::
  "(state \<Rightarrow> (string \<times> state) list) \<Rightarrow> int \<Rightarrow> (nat \<Rightarrow> nat) \<Rightarrow> state list \<Rightarrow> nat \<Rightarrow> (string \<times> state) list" where
  "recorded_succ ps D d sts i = (if i < length sts then bounded_succ ps D (d i) (sts ! i) else [])"

definition explored ::
  "state \<Rightarrow> (state \<Rightarrow> (string \<times> state) list) \<Rightarrow> (state \<Rightarrow> bool) \<Rightarrow> (state \<Rightarrow> 'h) \<Rightarrow> int
   \<Rightarrow> (nat \<Rightarrow> nat) \<Rightarrow> exploration_result \<Rightarrow> bool" where
  "explored init ps pd key D d r \<longleftrightarrow>
     (let sts = ex_states r; ex = recorded_succ ps D d sts in
      sts \<noteq> [] \<and> sts ! 0 = init \<and>
      (\<forall>i j. i < length sts \<and> j < length sts \<and> key (sts ! i) = key (sts ! j) \<longrightarrow> i = j) \<and>
      d 0 = 0 \<and> (\<forall>i j. i \<le> j \<and> j < length sts \<longrightarrow> d i \<le> d j) \<and>
      edges_ok key d sts ex (ex_edges r) \<and> preds_ok key d sts ex (ex_predecessors r) \<and>
      ex_deadlocks r = filter (\<lambda>i. ex i = [] \<and> pd (sts ! i)) [0..<length sts])"

lemma fr_inv_explored:
  assumes "fr_inv init ps pd key D p [] p fr" and "fr_queue fr = []"
    and r: "ex_states r = fr_states fr" "ex_edges r = fr_edges fr" "ex_predecessors r = fr_preds fr"
      "ex_deadlocks r = fr_deadlocks fr"
  shows "explored init ps pd key D (depth_of fr) r"
proof -
  note I = assms(1)[unfolded fr_inv_def Let_def]
  let ?sts = "fr_states fr"
  have p: "p = length ?sts" using I assms(2) by auto
  have ex: "expanded ps D (depth_of fr) ?sts p [] = recorded_succ ps D (depth_of fr) ?sts"
    by (rule ext) (auto simp: expanded_def recorded_succ_def p)
  have inj: "i = j" if "i < length ?sts" "j < length ?sts" "key (?sts ! i) = key (?sts ! j)" for i j
  proof -
    have "dict_get (fr_seen fr) (key (?sts ! i)) = Some i" "dict_get (fr_seen fr) (key (?sts ! i)) = Some j"
      using I that by auto
    then show ?thesis by simp
  qed
  have "depths_ok (depth_of fr) (length ?sts) p" using I by blast
  moreover have "fr_deadlocks fr =
      filter (\<lambda>i. recorded_succ ps D (depth_of fr) ?sts i = [] \<and> pd (?sts ! i)) [0..<length ?sts]"
    using I by (auto simp: p recorded_succ_def intro!: filter_cong)
  ultimately show ?thesis using I inj by (simp add: explored_def Let_def r ex depths_ok_def)
qed

text \<open>
  The interface: adapters whose operations answer on the states they know, agree with a pure
  successor function, and never forget a state.
\<close>

locale explorable_class =
  fixes adp :: "'a \<Rightarrow> 'm ex_adapter"
    and memo0 :: "'a \<Rightarrow> 'm"
    and valid :: "'a \<Rightarrow> bool"
    and init :: "'a \<Rightarrow> state"
    and psucc :: "'a \<Rightarrow> state \<Rightarrow> (string \<times> state) list"
    and pdead :: "'a \<Rightarrow> state \<Rightarrow> bool"
    and known :: "'a \<Rightarrow> 'm \<Rightarrow> state \<Rightarrow> bool"
  assumes initial_known: "valid a \<Longrightarrow> \<exists>m. ea_initial (adp a) (memo0 a) = Inr (init a, m) \<and> known a m (init a)"
    and successors_known: "valid a \<Longrightarrow> known a m s \<Longrightarrow>
      \<exists>m'. ea_successors (adp a) m s = Inr (psucc a s, m') \<and> (\<forall>t. known a m t \<longrightarrow> known a m' t) \<and>
        (\<forall>(l, t)\<in>set (psucc a s). known a m' t)"
    and deadlocked_known: "valid a \<Longrightarrow> known a m s \<Longrightarrow> ea_deadlocked (adp a) m s = pdead a s"
begin

abbreviation fr_known :: "'a \<Rightarrow> ('m, 'h) frontier \<Rightarrow> bool" where
  "fr_known a fr \<equiv> \<forall>s\<in>set (fr_states fr). known a (fr_memo fr) s"

lemma foldl_visit_states:
  "fr_memo (foldl (visit_succ key p d) fr xs) = fr_memo fr \<and>
   set (fr_states (foldl (visit_succ key p d) fr xs)) \<subseteq> set (fr_states fr) \<union> snd ` set xs"
proof (induction xs arbitrary: fr)
  case (Cons x xs)
  obtain l t where x: "x = (l, t)" by force
  have "fr_memo (visit_succ key p d fr x) = fr_memo fr \<and>
      set (fr_states (visit_succ key p d fr x)) \<subseteq> set (fr_states fr) \<union> {t}"
    unfolding x
    by (cases "dict_get (fr_seen fr) (key t)") (auto simp: visit_succ_new visit_succ_seen)
  with Cons.IH[of "visit_succ key p d fr x"] show ?case by (auto simp: x)
qed simp

lemma explore_state_inv:
  assumes "valid a" and inv: "fr_inv (init a) (psucc a) (pdead a) key D p [] p fr"
    and known: "fr_known a fr" and q: "fr_queue fr = (sid, st) # q"
  shows "\<exists>fr'. explore_state (adp a) key D sid st (fr\<lparr>fr_queue := q\<rparr>) = Inr fr' \<and>
    fr_inv (init a) (psucc a) (pdead a) key D (Suc p) [] (Suc p) fr' \<and> fr_known a fr'"
proof -
  note pop = fr_inv_pop[OF inv q]
  let ?d = "depth_of fr p" and ?succ = "bounded_succ (psucc a) D (depth_of fr p) st"
  have st: "known a (fr_memo fr) st" using known pop(2,3) by simp
  obtain m where run: "(if int ?d \<ge> D then Inr ([], fr_memo fr) else ea_successors (adp a) (fr_memo fr) st)
        = Inr (?succ, m)"
    and keep: "\<forall>t. known a (fr_memo fr) t \<longrightarrow> known a m t" and new: "\<forall>(l, t)\<in>set ?succ. known a m t"
    using successors_known[OF assms(1) st] by (cases "int ?d \<ge> D") (auto simp: bounded_succ_def)
  have dead: "ea_deadlocked (adp a) m st = pdead a st"
    using keep st by (intro deadlocked_known[OF assms(1)]) blast
  let ?fr1 = "fr\<lparr>fr_queue := q, fr_memo := m, fr_deadlocks :=
      (if ?succ = [] \<and> pdead a st then fr_deadlocks fr @ [p] else fr_deadlocks fr)\<rparr>"
  let ?fr' = "foldl (visit_succ key p ?d) ?fr1 ?succ"
  have "explore_state (adp a) key D sid st (fr\<lparr>fr_queue := q\<rparr>) = Inr ?fr'"
    using pop(1) by (simp add: explore_state_def Let_def run dead cong: if_cong split del: if_split)
  moreover have "fr_inv (init a) (psucc a) (pdead a) key D (Suc p) [] (Suc p) ?fr'"
  proof (rule fr_inv_finish)
    have inv1: "fr_inv (init a) (psucc a) (pdead a) key D p [] (Suc p) ?fr1" by (rule pop(4))
    have "p < length (fr_states ?fr1)" "?d = depth_of ?fr1 p" using pop(2) by simp_all
    from foldl_visit_inv[OF inv1 this, of ?succ] pop(3)
    show "fr_inv (init a) (psucc a) (pdead a) key D p
        (bounded_succ (psucc a) D (depth_of ?fr' p) (fr_states ?fr' ! p)) (Suc p) ?fr'" by simp
  qed
  moreover have "fr_known a ?fr'"
  proof
    fix s assume "s \<in> set (fr_states ?fr')"
    then have "s \<in> set (fr_states fr) \<union> snd ` set ?succ"
      using foldl_visit_states[of key p ?d ?fr1 ?succ] by auto
    then have "known a m s" using keep new known by auto
    then show "known a (fr_memo ?fr') s" using foldl_visit_states[of key p ?d ?fr1 ?succ] by simp
  qed
  ultimately show ?thesis by blast
qed

lemma explore_loop_inv:
  assumes "valid a" and "fr_inv (init a) (psucc a) (pdead a) key D p [] p fr" and "fr_known a fr"
  shows "\<exists>fr' p'. explore_loop (adp a) key D fr = Inr fr' \<and> fr_queue fr' = [] \<and>
    fr_inv (init a) (psucc a) (pdead a) key D p' [] p' fr' \<and> fr_known a fr'"
  using assms(2,3)
proof (induction "adp a" key D fr arbitrary: p rule: explore_loop.induct)
  case (1 key D fr)
  show ?case
  proof (cases "fr_queue fr")
    case Nil
    with 1 show ?thesis by (subst explore_loop.simps) auto
  next
    case (Cons x q)
    obtain sid st where x: "x = (sid, st)" by force
    with Cons have q: "fr_queue fr = (sid, st) # q" by simp
    from explore_state_inv[OF assms(1) "1.prems" q] obtain fr1 where
      fr1: "explore_state (adp a) key D sid st (fr\<lparr>fr_queue := q\<rparr>) = Inr fr1"
        "fr_inv (init a) (psucc a) (pdead a) key D (Suc p) [] (Suc p) fr1" "fr_known a fr1"
      by blast
    from "1.hyps"[OF q refl fr1] fr1(1) show ?thesis
      by (subst explore_loop.simps) (simp add: q)
  qed
qed

theorem explorer_run_explored:
  assumes "valid a"
  shows "\<exists>r m d. explorer_run H (adp a) (memo0 a) D mode = Inr (r, m) \<and>
    explored (init a) (psucc a) (pdead a) (stable_hash H mode) D d r \<and>
    (\<forall>s\<in>set (ex_states r). known a m s) \<and> ex_hash_mode r = mode \<and> ex_max_depth r = D"
proof -
  let ?key = "stable_hash H mode"
  obtain m where m: "ea_initial (adp a) (memo0 a) = Inr (init a, m)" "known a m (init a)"
    using initial_known[OF assms] by blast
  let ?fr = "\<lparr>fr_states = [init a], fr_edges = [], fr_preds = [], fr_deadlocks = [],
      fr_seen = [(?key (init a), 0)], fr_depths = [(0, 0)], fr_queue = [(0, init a)], fr_memo = m\<rparr>"
  have "fr_inv (init a) (psucc a) (pdead a) ?key D 0 [] 0 ?fr"
    by (auto simp: fr_inv_def Let_def depths_ok_def edges_ok_def preds_ok_def dict_get_or_def
        expanded_def)
  with explore_loop_inv[OF assms this] m obtain fr p where
    fr: "explore_loop (adp a) ?key D ?fr = Inr fr" "fr_queue fr = []"
      "fr_inv (init a) (psucc a) (pdead a) ?key D p [] p fr" "fr_known a fr"
    by auto
  let ?r = "\<lparr>ex_states = fr_states fr, ex_edges = fr_edges fr, ex_predecessors = fr_preds fr,
             ex_deadlocks = fr_deadlocks fr, ex_hash_mode = mode, ex_max_depth = D\<rparr>"
  have "explorer_run H (adp a) (memo0 a) D mode = Inr (?r, fr_memo fr)"
    by (simp add: explorer_run_def m fr)
  moreover have "explored (init a) (psucc a) (pdead a) ?key D (depth_of fr) ?r"
    using fr_inv_explored[OF fr(3,2)] by simp
  ultimately show ?thesis using fr(4) by fastforce
qed

end

text \<open>Every component class is explorable, without a memo.\<close>

definition comp_init :: "component \<Rightarrow> state" where
  "comp_init c = (case co_initial c of Inl _ \<Rightarrow> \<lparr>st_store = [], st_pending = [], st_done = [], st_events = []\<rparr>
     | Inr s \<Rightarrow> s)"

definition comp_succ :: "component \<Rightarrow> state \<Rightarrow> (string \<times> state) list" where
  "comp_succ c s = (case co_successors c s of Inl _ \<Rightarrow> [] | Inr ss \<Rightarrow> ss)"

sublocale component_class \<subseteq> expl: explorable_class "\<lambda>a. of_component (comp a)" "\<lambda>_. ()" valid
  "\<lambda>a. comp_init (comp a)" "\<lambda>a. comp_succ (comp a)" "\<lambda>a. co_deadlocked (comp a)" "\<lambda>a _ s. inv a s"
proof
  fix a m s
  assume v: "valid a"
  show "\<exists>m. ea_initial (of_component (comp a)) () = Inr (comp_init (comp a), m) \<and> inv a (comp_init (comp a))"
    using initial_total[OF v] by (auto simp: of_component_def comp_init_def)
  assume i: "inv a s"
  then show "\<exists>m'. ea_successors (of_component (comp a)) m s = Inr (comp_succ (comp a) s, m') \<and>
      (\<forall>t. inv a t \<longrightarrow> inv a t) \<and> (\<forall>(l, t)\<in>set (comp_succ (comp a) s). inv a t)"
    using successors_total[OF v i] successors_inv[OF v i]
    by (fastforce simp: of_component_def comp_succ_def)
  show "ea_deadlocked (of_component (comp a)) m s = co_deadlocked (comp a) s"
    by (simp add: of_component_def)
qed

section \<open>What an exploration means\<close>

definition step_rel :: "(state \<Rightarrow> (string \<times> state) list) \<Rightarrow> state \<Rightarrow> state \<Rightarrow> bool" where
  "step_rel ps s t \<longleftrightarrow> (\<exists>l. (l, t) \<in> set (ps s))"

definition edge :: "exploration_result \<Rightarrow> nat \<Rightarrow> nat \<Rightarrow> bool" where
  "edge r i j = (case dict_get (ex_edges r) i of None \<Rightarrow> False | Some js \<Rightarrow> j \<in> set js)"

lemma edge_iff: "edge r i j \<longleftrightarrow> (\<exists>js. dict_get (ex_edges r) i = Some js \<and> j \<in> set js)"
  by (simp add: edge_def split: option.splits)

lemma bounded_succ_memD: "x \<in> set (bounded_succ ps D d s) \<Longrightarrow> int d < D \<and> x \<in> set (ps s)"
  by (simp add: bounded_succ_def split: if_splits)

lemma explored_pred:
  assumes "explored init ps pd key D d r" and "0 < j" and "j < length (ex_states r)"
  shows "\<exists>i l. dict_get (ex_predecessors r) j = Some (i, l) \<and> i < j \<and> d j = d i + 1 \<and> int (d i) < D \<and>
    (l, ex_states r ! j) \<in> set (ps (ex_states r ! i))"
proof -
  from assms obtain i l where "dict_get (ex_predecessors r) j = Some (i, l)" "i < j" "d j = d i + 1"
    "(l, ex_states r ! j) \<in> set (recorded_succ ps D d (ex_states r) i)"
    unfolding explored_def preds_ok_def Let_def by blast
  then show ?thesis using assms(3)
    by (auto simp: recorded_succ_def dest!: bounded_succ_memD)
qed

lemma explored_sound:
  assumes "explored init ps pd key D d r" and "i < length (ex_states r)"
  shows "(step_rel ps ^^ d i) init (ex_states r ! i) \<and> (i = 0 \<or> int (d i) \<le> D)"
  using assms(2)
proof (induction i rule: less_induct)
  case (less j)
  show ?case
  proof (cases "j = 0")
    case True
    then show ?thesis using assms(1) by (simp add: explored_def Let_def)
  next
    case False
    then obtain i l where i: "i < j" "d j = d i + 1" "int (d i) < D"
      "(l, ex_states r ! j) \<in> set (ps (ex_states r ! i))"
      using explored_pred[OF assms(1)] less.prems by blast
    then have "(step_rel ps ^^ d i) init (ex_states r ! i)" using less by simp
    moreover have "step_rel ps (ex_states r ! i) (ex_states r ! j)"
      using i(4) by (auto simp: step_rel_def)
    ultimately show ?thesis using i(2,3) by auto
  qed
qed

lemma explored_edge:
  assumes "explored init ps pd key D d r" and "edge r i j"
  shows "\<exists>l t. (l, t) \<in> set (ps (ex_states r ! i)) \<and> key (ex_states r ! j) = key t \<and>
    i < length (ex_states r) \<and> j < length (ex_states r) \<and> d j \<le> d i + 1 \<and> int (d i) < D"
proof -
  let ?sts = "ex_states r"
  from assms(2) obtain js where js: "dict_get (ex_edges r) i = Some js" "j \<in> set js"
    by (auto simp: edge_iff)
  have "edges_ok key d ?sts (recorded_succ ps D d ?sts) (ex_edges r)"
    using assms(1) by (simp add: explored_def Let_def)
  from edges_okD[OF this, of i] js(1) have i: "i < length ?sts" and
    all: "list_all2 (\<lambda>(l, t) j. j < length ?sts \<and> key (?sts ! j) = key t \<and> d j \<le> d i + 1)
      (recorded_succ ps D d ?sts i) js"
    by simp_all
  from js(2) obtain k where k: "k < length js" "js ! k = j" by (auto simp: in_set_conv_nth)
  obtain l t where lt: "recorded_succ ps D d ?sts i ! k = (l, t)" by force
  have k': "k < length (recorded_succ ps D d ?sts i)" using k(1) list_all2_lengthD[OF all] by simp
  then have "(l, t) \<in> set (recorded_succ ps D d ?sts i)" using lt by (metis nth_mem)
  then have "(l, t) \<in> set (ps (?sts ! i))" "int (d i) < D"
    using i by (auto simp: recorded_succ_def dest!: bounded_succ_memD)
  moreover have "j < length ?sts \<and> key (?sts ! j) = key t \<and> d j \<le> d i + 1"
    using list_all2_nthD[OF all k'] by (simp add: lt k(2))
  ultimately show ?thesis using i by blast
qed

lemma explored_succ_edge:
  assumes "explored init ps pd key D d r" and "i < length (ex_states r)" and "int (d i) < D"
    and "(l, t) \<in> set (ps (ex_states r ! i))"
  shows "\<exists>j. edge r i j \<and> j < length (ex_states r) \<and> key (ex_states r ! j) = key t \<and> d j \<le> d i + 1"
proof -
  let ?sts = "ex_states r"
  have rec: "(l, t) \<in> set (recorded_succ ps D d ?sts i)"
    using assms(2-4) by (simp add: recorded_succ_def bounded_succ_def)
  have ok: "edges_ok key d ?sts (recorded_succ ps D d ?sts) (ex_edges r)"
    using assms(1) by (simp add: explored_def Let_def)
  note at_i = edges_okD[OF ok, of i]
  from at_i rec obtain js where js: "dict_get (ex_edges r) i = Some js"
    by (cases "dict_get (ex_edges r) i") auto
  with at_i have all: "list_all2 (\<lambda>(l, t) j. j < length ?sts \<and> key (?sts ! j) = key t \<and> d j \<le> d i + 1)
      (recorded_succ ps D d ?sts i) js" by simp
  from rec obtain k where k: "k < length (recorded_succ ps D d ?sts i)"
    "recorded_succ ps D d ?sts i ! k = (l, t)" unfolding in_set_conv_nth by blast
  have "js ! k < length ?sts \<and> key (?sts ! (js ! k)) = key t \<and> d (js ! k) \<le> d i + 1"
    using list_all2_nthD[OF all k(1)] by (simp add: k(2))
  moreover have "js ! k \<in> set js" using k(1) list_all2_lengthD[OF all] by simp
  then have "edge r i (js ! k)" using js by (auto simp: edge_iff)
  ultimately show ?thesis by blast
qed

text \<open>The states some run reaches, and keys that tell them apart.\<close>

definition reachable_states :: "state \<Rightarrow> (state \<Rightarrow> (string \<times> state) list) \<Rightarrow> state set" where
  "reachable_states init ps = {s. \<exists>k. (step_rel ps ^^ k) init s}"

lemma reachable_init [simp]: "init \<in> reachable_states init ps"
  unfolding reachable_states_def by (intro CollectI exI[of _ 0]) simp

lemma reachable_step: "s \<in> reachable_states init ps \<Longrightarrow> step_rel ps s t \<Longrightarrow> t \<in> reachable_states init ps"
proof -
  assume "s \<in> reachable_states init ps" and st: "step_rel ps s t"
  then obtain k where "(step_rel ps ^^ k) init s" by (auto simp: reachable_states_def)
  with st have "(step_rel ps ^^ Suc k) init t" by auto
  then show ?thesis unfolding reachable_states_def by blast
qed

lemma reachable_induct [consumes 1, case_names init step]:
  assumes "s \<in> reachable_states init ps" and "P init"
    and "\<And>s l t. s \<in> reachable_states init ps \<Longrightarrow> P s \<Longrightarrow> (l, t) \<in> set (ps s) \<Longrightarrow> P t"
  shows "P s"
proof -
  have "(step_rel ps ^^ k) init s \<Longrightarrow> P s" for k
  proof (induction k arbitrary: s)
    case (Suc k)
    then obtain x where x: "(step_rel ps ^^ k) init x" "step_rel ps x s" by auto
    moreover have "x \<in> reachable_states init ps" using x(1) by (auto simp: reachable_states_def)
    moreover obtain l where "(l, s) \<in> set (ps x)" using x(2) unfolding step_rel_def by blast
    ultimately show ?case using assms(3) Suc.IH by blast
  qed (use assms(2) in simp)
  then show ?thesis using assms(1) by (auto simp: reachable_states_def)
qed

lemma explored_reachable:
  "explored init ps pd key D d r \<Longrightarrow> i < length (ex_states r) \<Longrightarrow> ex_states r ! i \<in> reachable_states init ps"
  using explored_sound by (fastforce simp: reachable_states_def)

lemma explored_complete:
  assumes ok: "explored init ps pd key D d r" and inj: "inj_on key (reachable_states init ps)"
    and "(step_rel ps ^^ k) init s" and "int k \<le> D"
  shows "\<exists>i<length (ex_states r). ex_states r ! i = s \<and> d i \<le> k"
  using assms(3,4)
proof (induction k arbitrary: s)
  case 0
  with ok show ?case by (intro exI[of _ 0]) (auto simp: explored_def Let_def)
next
  case (Suc k)
  then obtain s0 where "(step_rel ps ^^ k) init s0" "step_rel ps s0 s" by auto
  then obtain l where s0: "(step_rel ps ^^ k) init s0" "(l, s) \<in> set (ps s0)"
    unfolding step_rel_def by blast
  with Suc obtain i where i: "i < length (ex_states r)" "ex_states r ! i = s0" "d i \<le> k"
    by fastforce
  have "int (d i) < D" using i(3) Suc.prems(2) by simp
  from explored_succ_edge[OF ok i(1) this] s0(2) i(2) obtain j where
    j: "j < length (ex_states r)" "key (ex_states r ! j) = key s" "d j \<le> d i + 1" by blast
  have "s \<in> reachable_states init ps" using Suc.prems(1) unfolding reachable_states_def by blast
  then have "ex_states r ! j = s" using j(2) inj explored_reachable[OF ok j(1)] by (auto dest: inj_onD)
  then show ?case using j i(3) by (intro exI[of _ j]) auto
qed

lemma explored_depth:
  assumes "explored init ps pd key D d r" and "0 \<le> D" and "i < length (ex_states r)"
  shows "int (d i) \<le> D"
  using explored_sound[OF assms(1,3)] assms(1,2) by (auto simp: explored_def Let_def)

text \<open>With such a key the recorded states are the states within the bound.\<close>

lemma explored_states:
  assumes "explored init ps pd key D d r" and "inj_on key (reachable_states init ps)" and "0 \<le> D"
  shows "set (ex_states r) = {s. \<exists>k. int k \<le> D \<and> (step_rel ps ^^ k) init s}"
proof (intro equalityI subsetI)
  fix s assume "s \<in> set (ex_states r)"
  then obtain i where "i < length (ex_states r)" "ex_states r ! i = s" by (auto simp: in_set_conv_nth)
  then show "s \<in> {s. \<exists>k. int k \<le> D \<and> (step_rel ps ^^ k) init s}"
    using explored_sound[OF assms(1)] explored_depth[OF assms(1,3)] by blast
next
  fix s assume "s \<in> {s. \<exists>k. int k \<le> D \<and> (step_rel ps ^^ k) init s}"
  then show "s \<in> set (ex_states r)" using explored_complete[OF assms(1,2)] by fastforce
qed

text \<open>Depth numbers are shortest distances.\<close>

lemma explored_depth_least:
  assumes "explored init ps pd key D d r" and "inj_on key (reachable_states init ps)"
    and "i < length (ex_states r)" and "(step_rel ps ^^ k) init (ex_states r ! i)"
  shows "d i \<le> k"
proof (cases "int k \<le> D")
  case True
  from explored_complete[OF assms(1,2,4) True] obtain j where
    "j < length (ex_states r)" "ex_states r ! j = ex_states r ! i" "d j \<le> k" by blast
  then show ?thesis using assms(1,3) unfolding explored_def Let_def by metis
next
  case False
  then show ?thesis using explored_sound[OF assms(1,3)] assms(1) by (auto simp: explored_def Let_def)
qed

section \<open>Paths to a state\<close>

lemma path_back_chain:
  assumes "successively (\<lambda>i j. \<exists>l. dict_get preds j = Some (i, l)) path" and "path \<noteq> []"
  shows "successively (\<lambda>i j. \<exists>l. dict_get preds j = Some (i, l)) (path_back preds path) \<and>
    path_back preds path \<noteq> [] \<and> last (path_back preds path) = last path"
  using assms
proof (induction preds path rule: path_back.induct)
  case (2 preds cur rest)
  show ?case
  proof (cases "dict_get preds cur")
    case None
    with 2 show ?thesis by (simp add: path_back.simps)
  next
    case (Some x)
    obtain prev l where x: "x = (prev, l)" by force
    show ?thesis
    proof (cases "prev \<in> set (cur # rest)")
      case True
      with 2 Some x show ?thesis by (simp add: path_back.simps)
    next
      case False
      with 2 Some x show ?thesis by (simp add: path_back.simps(2)[of preds cur])
    qed
  qed
qed simp

lemma path_back_descends:
  assumes "dict_get preds 0 = None" and "sorted_wrt (<) (cur # rest)"
    and "\<And>j. 0 < j \<Longrightarrow> j \<le> cur \<Longrightarrow> \<exists>i l. dict_get preds j = Some (i, l) \<and> i < j \<and> d j = d i + (1::nat)"
  shows "\<exists>path. path_back preds (cur # rest) = path @ rest \<and> path \<noteq> [] \<and> hd path = 0 \<and>
    length path + d 0 = d cur + 1"
  using assms(2,3)
proof (induction cur arbitrary: rest rule: less_induct)
  case (less cur)
  show ?case
  proof (cases "cur = 0")
    case True
    with assms(1) show ?thesis by (intro exI[of _ "[0]"]) (simp add: path_back.simps)
  next
    case False
    then obtain i l where i: "dict_get preds cur = Some (i, l)" "i < cur" "d cur = d i + 1"
      using less.prems(2)[of cur] by blast
    have "i \<notin> set (cur # rest)" "sorted_wrt (<) (i # cur # rest)"
      using less.prems(1) i(2) by auto
    moreover from this(2) i(2) obtain path where "path_back preds (i # cur # rest) = path @ cur # rest"
      "path \<noteq> []" "hd path = 0" "length path + d 0 = d i + 1"
      using less.IH[of i "cur # rest"] less.prems(2) by fastforce
    ultimately show ?thesis using i
      by (intro exI[of _ "path @ [cur]"]) (simp add: path_back.simps(2)[of preds cur])
  qed
qed

lemma explored_pred_edge:
  assumes ok: "explored init ps pd key D d r" and get: "dict_get (ex_predecessors r) j = Some (i, l)"
  shows "edge r i j"
proof -
  let ?sts = "ex_states r"
  from ok get obtain t where ij: "i < length ?sts" "j < length ?sts"
    and t: "(l, t) \<in> set (recorded_succ ps D d ?sts i)" "key (?sts ! j) = key t"
    unfolding explored_def preds_ok_def Let_def by blast
  from t(1) ij have "int (d i) < D" "(l, t) \<in> set (ps (?sts ! i))"
    by (auto simp: recorded_succ_def dest!: bounded_succ_memD)
  from explored_succ_edge[OF ok ij(1) this] obtain k where
    k: "edge r i k" "k < length ?sts" "key (?sts ! k) = key t" by blast
  then have "k = j" using ok ij(2) t(2) unfolding explored_def Let_def by metis
  with k(1) show ?thesis by simp
qed

text \<open>Any back-tracked path follows edges and ends in the target.\<close>

lemma path_to_edges:
  assumes ok: "explored init ps pd key D d r" and "target < length (ex_states r)"
  shows "path_to r target \<noteq> []" "last (path_to r target) = target"
    "successively (edge r) (path_to r target)"
proof -
  have eq: "path_to r target = path_back (ex_predecessors r) [target]"
    using assms(2) by (simp add: path_to_def)
  note c = path_back_chain[of "ex_predecessors r" "[target]", simplified]
  from c show "path_to r target \<noteq> []" "last (path_to r target) = target" by (simp_all add: eq)
  from c have "successively (\<lambda>i j. \<exists>l. dict_get (ex_predecessors r) j = Some (i, l)) (path_to r target)"
    by (simp add: eq)
  then show "successively (edge r) (path_to r target)"
    by (rule successively_mono) (use explored_pred_edge[OF ok] in blast)
qed

text \<open>When nothing leads back to the root, the path starts at the root and is as long as the depth.\<close>

lemma path_to_root:
  assumes ok: "explored init ps pd key D d r" and target: "target < length (ex_states r)"
    and root: "dict_get (ex_predecessors r) 0 = None"
  shows "hd (path_to r target) = 0" "length (path_to r target) = d target + 1"
proof -
  have eq: "path_to r target = path_back (ex_predecessors r) [target]"
    using target by (simp add: path_to_def)
  have pred: "\<exists>i l. dict_get (ex_predecessors r) j = Some (i, l) \<and> i < j \<and> d j = d i + 1"
    if "0 < j" "j \<le> target" for j
    using explored_pred[OF ok that(1)] that(2) target by fastforce
  have "d 0 = 0" using ok by (simp add: explored_def Let_def)
  then obtain path where "path_back (ex_predecessors r) [target] = path @ []" "path \<noteq> []" "hd path = 0"
    "length path = d target + 1"
    using path_back_descends[of "ex_predecessors r" target "[]" d, OF root _ pred] by auto
  then show "hd (path_to r target) = 0" "length (path_to r target) = d target + 1"
    by (simp_all add: eq)
qed

text \<open>Whatever the predecessor of the root, every recorded state is reached from it along edges.\<close>

lemma root_chain:
  assumes ok: "explored init ps pd key D d r" and "j < length (ex_states r)"
  shows "\<exists>p. p \<noteq> [] \<and> hd p = 0 \<and> last p = j \<and> successively (edge r) p"
  using assms(2)
proof (induction j rule: less_induct)
  case (less j)
  show ?case
  proof (cases "j = 0")
    case True
    then show ?thesis by (intro exI[of _ "[0]"]) simp
  next
    case False
    then obtain i l where "dict_get (ex_predecessors r) j = Some (i, l)" and ij: "i < j"
      using explored_pred[OF ok] less.prems by blast
    then have "edge r i j" using explored_pred_edge[OF ok] by blast
    moreover obtain p where "p \<noteq> []" "hd p = 0" "last p = i" "successively (edge r) p"
      using less.IH[OF ij] ij less.prems by auto
    ultimately show ?thesis by (intro exI[of _ "p @ [j]"]) (auto simp: successively_append_iff)
  qed
qed

end
