(* ===== verification/Ctl_Check.thy ===== *)
theory Ctl_Check
  imports Explorer
begin

text \<open>
  The CTL evaluator (\<^verbatim>\<open>tm/verify/ctl.py\<close>, from \<open>_eval_predicate\<close> on): the expression type, state-only
  evaluation, and \<open>sat\<close>, the labelling algorithm \<^verbatim>\<open>_sat\<close> with its sweeps over the edge dictionary.
  \<open>holds\<close> is the textbook path semantics over maximal paths (a state without successors stutters);
  the main property is that \<open>sat\<close> computes exactly it.
\<close>

section \<open>Expressions\<close>

datatype ctl_op = Op_EX | Op_EF | Op_EG | Op_AF | Op_AG

datatype until_op = Op_EU | Op_AU

datatype expr =
    Predicate string "string option"
  | NotE expr
  | AndE expr expr
  | OrE expr expr
  | Ctl ctl_op expr
  | Until until_op expr expr

text \<open>\<open>en\<close> is \<^verbatim>\<open>adapter.enabled_steps\<close>.\<close>

definition eval_predicate :: "string \<Rightarrow> string option \<Rightarrow> (state \<Rightarrow> string list) \<Rightarrow> state \<Rightarrow> bool" where
  "eval_predicate name v en s =
     (if str_lower name = ''terminal'' then en s = []
      else case v of
        None \<Rightarrow> False
      | Some x \<Rightarrow>
          if str_lower name = ''has'' then dict_has (st_store s) x
          else if str_lower name = ''pending'' then x \<in> set (st_pending s)
          else if str_lower name = ''done'' then x \<in> set (st_done s)
          else False)"

fun has_ctl_nodes :: "expr \<Rightarrow> bool" where
  "has_ctl_nodes (Predicate _ _) = False"
| "has_ctl_nodes (NotE e) = has_ctl_nodes e"
| "has_ctl_nodes (AndE a b) = (has_ctl_nodes a \<or> has_ctl_nodes b)"
| "has_ctl_nodes (OrE a b) = (has_ctl_nodes a \<or> has_ctl_nodes b)"
| "has_ctl_nodes (Ctl _ _) = True"
| "has_ctl_nodes (Until _ _ _) = True"

text \<open>\<^verbatim>\<open>and\<close> and \<^verbatim>\<open>or\<close> short-circuit, so a CTL node in a skipped operand does not raise.\<close>

fun eval_state_expr :: "expr \<Rightarrow> (state \<Rightarrow> string list) \<Rightarrow> state \<Rightarrow> bool result" where
  "eval_state_expr (Predicate n v) en s = Inr (eval_predicate n v en s)"
| "eval_state_expr (NotE e) en s = bind_result (eval_state_expr e en s) (\<lambda>b. Inr (\<not> b))"
| "eval_state_expr (AndE a b) en s =
     bind_result (eval_state_expr a en s) (\<lambda>x. if x then eval_state_expr b en s else Inr False)"
| "eval_state_expr (OrE a b) en s =
     bind_result (eval_state_expr a en s) (\<lambda>x. if x then Inr True else eval_state_expr b en s)"
| "eval_state_expr (Ctl _ _) en s = Inl (ValueError ''CTL operator not allowed in state-only evaluation'')"
| "eval_state_expr (Until _ _ _) en s = Inl (ValueError ''CTL operator not allowed in state-only evaluation'')"

section \<open>The labelling algorithm\<close>

text \<open>
  One pass of a \<^verbatim>\<open>while changed\<close> loop: every edge entry whose state is not labelled yet is labelled
  if the guard says so, with the labels of this very pass already visible.
\<close>

definition sweep_entry ::
  "(nat set \<Rightarrow> nat \<Rightarrow> nat list \<Rightarrow> bool) \<Rightarrow> nat set \<times> bool \<Rightarrow> nat \<times> nat list \<Rightarrow> nat set \<times> bool" where
  "sweep_entry g = (\<lambda>(sat, changed) (sid, succs).
     if sid \<in> sat then (sat, changed)
     else if g sat sid succs then (insert sid sat, True) else (sat, changed))"

definition sweep :: "(nat set \<Rightarrow> nat \<Rightarrow> nat list \<Rightarrow> bool) \<Rightarrow> (nat, nat list) dict \<Rightarrow> nat set \<Rightarrow> nat set \<times> bool" where
  "sweep g edges sat = foldl (sweep_entry g) (sat, False) edges"

lemma foldl_sweep:
  assumes "foldl (sweep_entry g) (sat, ch) edges = (sat', ch')"
  shows "sat \<subseteq> sat' \<and> sat' \<subseteq> sat \<union> fst ` set edges \<and> (ch \<longrightarrow> ch') \<and> (\<not> ch \<and> ch' \<longrightarrow> sat \<subset> sat') \<and>
    (\<not> ch' \<longrightarrow> sat' = sat \<and> (\<forall>(i, js)\<in>set edges. i \<in> sat \<or> \<not> g sat i js))"
  using assms
proof (induction edges arbitrary: sat ch)
  case (Cons e edges)
  obtain i js where e: "e = (i, js)" by force
  consider (skip) "i \<in> sat \<or> \<not> g sat i js" | (add) "i \<notin> sat" "g sat i js" by blast
  then show ?case
  proof cases
    case skip
    with Cons e have "foldl (sweep_entry g) (sat, ch) edges = (sat', ch')"
      by (auto simp: sweep_entry_def split: if_splits)
    from Cons.IH[OF this] skip show ?thesis by (auto simp: e)
  next
    case add
    with Cons e have "foldl (sweep_entry g) (insert i sat, True) edges = (sat', ch')"
      by (auto simp: sweep_entry_def split: if_splits)
    from Cons.IH[OF this] add show ?thesis by (auto simp: e)
  qed
qed auto

lemmas sweep_facts = foldl_sweep[of _ _ False, folded sweep_def]

function sweep_loop :: "(nat set \<Rightarrow> nat \<Rightarrow> nat list \<Rightarrow> bool) \<Rightarrow> (nat, nat list) dict \<Rightarrow> nat set \<Rightarrow> nat set" where
  "sweep_loop g edges sat =
     (case sweep g edges sat of (sat', changed) \<Rightarrow> if changed then sweep_loop g edges sat' else sat')"
  by pat_completeness auto
termination
proof (relation "measure (\<lambda>(g, edges, sat). card (fst ` set edges - sat))")
  fix g and edges :: "(nat, nat list) dict" and sat sat' changed
  assume "(sat', changed) = sweep g edges sat" changed
  then have "sweep g edges sat = (sat', True)" by simp
  from sweep_facts[OF this] have "sat \<subset> sat'" "sat' \<subseteq> sat \<union> fst ` set edges" by simp_all
  then have "card (fst ` set edges - sat') < card (fst ` set edges - sat)"
    by (intro psubset_card_mono) auto
  then show "((g, edges, sat'), g, edges, sat) \<in> measure (\<lambda>(g, edges, sat). card (fst ` set edges - sat))"
    by simp
qed simp

declare sweep_loop.simps [simp del]

text \<open>The guards of the four loops.\<close>

definition ef_guard :: "nat set \<Rightarrow> nat \<Rightarrow> nat list \<Rightarrow> bool" where
  "ef_guard sat sid succs \<longleftrightarrow> list_ex (\<lambda>nxt. nxt \<in> sat) succs"

definition af_guard :: "nat set \<Rightarrow> nat \<Rightarrow> nat list \<Rightarrow> bool" where
  "af_guard sat sid succs \<longleftrightarrow> succs \<noteq> [] \<and> list_all (\<lambda>nxt. nxt \<in> sat) succs"

definition until_guard :: "until_op \<Rightarrow> nat set \<Rightarrow> nat set \<Rightarrow> nat \<Rightarrow> nat list \<Rightarrow> bool" where
  "until_guard op left_sat sat sid succs \<longleftrightarrow> sid \<in> left_sat \<and>
     (case op of Op_EU \<Rightarrow> ef_guard sat sid succs | Op_AU \<Rightarrow> af_guard sat sid succs)"

definition all_states :: "exploration_result \<Rightarrow> nat set" where
  "all_states r = set [0..<length (ex_states r)]"

definition sat_EX :: "exploration_result \<Rightarrow> nat set \<Rightarrow> nat set" where
  "sat_EX r C = fst ` set (filter (\<lambda>(sid, succs). ef_guard C sid succs) (ex_edges r))"

definition sat_EF :: "exploration_result \<Rightarrow> nat set \<Rightarrow> nat set" where
  "sat_EF r C = sweep_loop ef_guard (ex_edges r) C"

definition sat_AF :: "exploration_result \<Rightarrow> nat set \<Rightarrow> nat set" where
  "sat_AF r C = sweep_loop af_guard (ex_edges r) C \<union>
     set (filter (\<lambda>sid. \<not> dict_has (ex_edges r) sid \<and> sid \<in> C) [0..<length (ex_states r)])"

fun sat :: "(state \<Rightarrow> string list) \<Rightarrow> exploration_result \<Rightarrow> expr \<Rightarrow> nat set" where
  "sat en r (Predicate n v) =
     set (filter (\<lambda>i. eval_predicate n v en (ex_states r ! i)) [0..<length (ex_states r)])"
| "sat en r (NotE e) = all_states r - sat en r e"
| "sat en r (AndE a b) = sat en r a \<inter> sat en r b"
| "sat en r (OrE a b) = sat en r a \<union> sat en r b"
| "sat en r (Ctl Op_EX e) = sat_EX r (sat en r e)"
| "sat en r (Ctl Op_EF e) = sat_EF r (sat en r e)"
| "sat en r (Ctl Op_AF e) = sat_AF r (sat en r e)"
| "sat en r (Ctl Op_EG e) = all_states r - sat_AF r (all_states r - sat en r e)"
| "sat en r (Ctl Op_AG e) = all_states r - sat_EF r (all_states r - sat en r e)"
| "sat en r (Until op a b) = sweep_loop (until_guard op (sat en r a)) (ex_edges r) (sat en r b)"

definition check_ctl :: "(state \<Rightarrow> string list) \<Rightarrow> exploration_result \<Rightarrow> expr \<Rightarrow> nat set" where
  "check_ctl en r e = sat en r e"

section \<open>Sweeping loops compute least fixed points\<close>

locale monotone_guard =
  fixes g :: "'p \<Rightarrow> nat set \<Rightarrow> nat \<Rightarrow> nat list \<Rightarrow> bool"
  assumes guard_mono: "A \<subseteq> B \<Longrightarrow> g x A i js \<Longrightarrow> g x B i js"
begin

definition guard_closed :: "'p \<Rightarrow> (nat, nat list) dict \<Rightarrow> nat set \<Rightarrow> bool" where
  "guard_closed x edges X \<longleftrightarrow> (\<forall>(i, js)\<in>set edges. g x X i js \<longrightarrow> i \<in> X)"

lemma sweep_within:
  assumes "guard_closed x edges0 X" and "set edges \<subseteq> set edges0" and "S \<subseteq> X"
  shows "fst (foldl (sweep_entry (g x)) (S, ch) edges) \<subseteq> X"
  using assms(2,3)
proof (induction edges arbitrary: S ch)
  case (Cons e edges)
  obtain i js where e: "e = (i, js)" by force
  have "g x S i js \<Longrightarrow> i \<in> X"
    using Cons.prems assms(1) guard_mono[of S X x i js] by (auto simp: e guard_closed_def)
  with Cons show ?case by (auto simp: e sweep_entry_def)
qed simp

lemma sweep_loop_least:
  assumes "guard_closed x edges X" and "S \<subseteq> X"
  shows "sweep_loop (g x) edges S \<subseteq> X"
  using assms
proof (induction "g x" edges S rule: sweep_loop.induct)
  case (1 edges S)
  obtain S' ch where sw: "sweep (g x) edges S = (S', ch)" by force
  have "S' \<subseteq> X" using sweep_within[OF "1.prems"(1) subset_refl "1.prems"(2), of False] sw
    by (simp add: sweep_def)
  with 1 sw show ?case by (subst sweep_loop.simps) auto
qed

lemma sweep_loop_closed:
  "S \<subseteq> sweep_loop (g x) edges S \<and> guard_closed x edges (sweep_loop (g x) edges S) \<and>
   sweep_loop (g x) edges S \<subseteq> S \<union> fst ` set edges"
proof (induction "g x" edges S rule: sweep_loop.induct)
  case (1 edges S)
  obtain S' ch where sw: "sweep (g x) edges S = (S', ch)" by force
  note f = sweep_facts[OF sw]
  show ?case
  proof (cases ch)
    case True
    then have "sweep_loop (g x) edges S = sweep_loop (g x) edges S'"
      using sw by (subst sweep_loop.simps) simp
    with 1[OF sw[symmetric] True] f show ?thesis by auto
  next
    case False
    then have "sweep_loop (g x) edges S = S"
      using sw f by (subst sweep_loop.simps) simp
    with False f show ?thesis by (auto simp: guard_closed_def)
  qed
qed

end

lemma ef_guard_mono: "A \<subseteq> B \<Longrightarrow> ef_guard A i js \<Longrightarrow> ef_guard B i js"
  by (auto simp: ef_guard_def list_ex_iff)

lemma af_guard_mono: "A \<subseteq> B \<Longrightarrow> af_guard A i js \<Longrightarrow> af_guard B i js"
  by (auto simp: af_guard_def list_all_iff)

interpretation efg: monotone_guard "\<lambda>_::unit. ef_guard"
  by unfold_locales (rule ef_guard_mono)

interpretation afg: monotone_guard "\<lambda>_::unit. af_guard"
  by unfold_locales (rule af_guard_mono)

interpretation ung: monotone_guard "\<lambda>(op, L). until_guard op L"
  by unfold_locales
    (auto simp: until_guard_def ef_guard_mono af_guard_mono split: prod.splits until_op.splits)

lemma sweep_until: "sweep_loop (until_guard op L) edges S \<supseteq> S"
  "(i, js) \<in> set edges \<Longrightarrow> until_guard op L (sweep_loop (until_guard op L) edges S) i js \<Longrightarrow>
    i \<in> sweep_loop (until_guard op L) edges S"
  "sweep_loop (until_guard op L) edges S \<subseteq> S \<union> fst ` set edges"
  "S \<subseteq> X \<Longrightarrow> (\<And>i js. (i, js) \<in> set edges \<Longrightarrow> until_guard op L X i js \<Longrightarrow> i \<in> X) \<Longrightarrow>
    sweep_loop (until_guard op L) edges S \<subseteq> X"
  using ung.sweep_loop_closed[of S "(op, L)" edges] ung.sweep_loop_least[of "(op, L)" edges X S]
  by (auto simp: ung.guard_closed_def)

text \<open>The plain loops are until-loops whose left operand always holds.\<close>

lemma ef_guard_until: "ef_guard = until_guard Op_EU UNIV"
  by (auto simp: until_guard_def fun_eq_iff)

lemma af_guard_until: "af_guard = until_guard Op_AU UNIV"
  by (auto simp: until_guard_def fun_eq_iff)

section \<open>Path semantics\<close>

definition model_ok :: "exploration_result \<Rightarrow> bool" where
  "model_ok r \<longleftrightarrow> dict_wf (ex_edges r) \<and>
     (\<forall>(i, js)\<in>set (ex_edges r). i < length (ex_states r) \<and> (\<forall>j\<in>set js. j < length (ex_states r)))"

definition is_path :: "exploration_result \<Rightarrow> (nat \<Rightarrow> nat) \<Rightarrow> bool" where
  "is_path r \<pi> \<longleftrightarrow> (\<forall>k. edge r (\<pi> k) (\<pi> (Suc k)) \<or> ((\<forall>j. \<not> edge r (\<pi> k) j) \<and> \<pi> (Suc k) = \<pi> k))"

text \<open>The meaning of \<open>E[P U Q]\<close> and \<open>A[P U Q]\<close> for sets of states.\<close>

definition until_at :: "(nat \<Rightarrow> bool) \<Rightarrow> (nat \<Rightarrow> bool) \<Rightarrow> (nat \<Rightarrow> nat) \<Rightarrow> bool" where
  "until_at P Q \<pi> \<longleftrightarrow> (\<exists>k. Q (\<pi> k) \<and> (\<forall>j<k. P (\<pi> j)))"

definition EU_sem :: "exploration_result \<Rightarrow> (nat \<Rightarrow> bool) \<Rightarrow> (nat \<Rightarrow> bool) \<Rightarrow> nat \<Rightarrow> bool" where
  "EU_sem r P Q i \<longleftrightarrow> (\<exists>\<pi>. is_path r \<pi> \<and> \<pi> 0 = i \<and> until_at P Q \<pi>)"

definition AU_sem :: "exploration_result \<Rightarrow> (nat \<Rightarrow> bool) \<Rightarrow> (nat \<Rightarrow> bool) \<Rightarrow> nat \<Rightarrow> bool" where
  "AU_sem r P Q i \<longleftrightarrow> (\<forall>\<pi>. is_path r \<pi> \<and> \<pi> 0 = i \<longrightarrow> until_at P Q \<pi>)"

fun holds :: "(state \<Rightarrow> string list) \<Rightarrow> exploration_result \<Rightarrow> expr \<Rightarrow> nat \<Rightarrow> bool" where
  "holds en r (Predicate n v) i = eval_predicate n v en (ex_states r ! i)"
| "holds en r (NotE e) i = (\<not> holds en r e i)"
| "holds en r (AndE a b) i = (holds en r a i \<and> holds en r b i)"
| "holds en r (OrE a b) i = (holds en r a i \<or> holds en r b i)"
| "holds en r (Ctl Op_EX e) i = (\<exists>j. edge r i j \<and> holds en r e j)"
| "holds en r (Ctl Op_EF e) i = (\<exists>\<pi>. is_path r \<pi> \<and> \<pi> 0 = i \<and> (\<exists>k. holds en r e (\<pi> k)))"
| "holds en r (Ctl Op_AF e) i = (\<forall>\<pi>. is_path r \<pi> \<and> \<pi> 0 = i \<longrightarrow> (\<exists>k. holds en r e (\<pi> k)))"
| "holds en r (Ctl Op_EG e) i = (\<exists>\<pi>. is_path r \<pi> \<and> \<pi> 0 = i \<and> (\<forall>k. holds en r e (\<pi> k)))"
| "holds en r (Ctl Op_AG e) i = (\<forall>\<pi>. is_path r \<pi> \<and> \<pi> 0 = i \<longrightarrow> (\<forall>k. holds en r e (\<pi> k)))"
| "holds en r (Until Op_EU a b) i = EU_sem r (holds en r a) (holds en r b) i"
| "holds en r (Until Op_AU a b) i = AU_sem r (holds en r a) (holds en r b) i"

lemma edge_entry: "edge r i j \<Longrightarrow> \<exists>js. (i, js) \<in> set (ex_edges r) \<and> j \<in> set js"
  by (auto simp: edge_iff dest: map_of_SomeD)

lemma entry_edge: "model_ok r \<Longrightarrow> (i, js) \<in> set (ex_edges r) \<Longrightarrow> edge r i j \<longleftrightarrow> j \<in> set js"
  by (auto simp: edge_iff model_ok_def)

lemma edge_bound: "model_ok r \<Longrightarrow> edge r i j \<Longrightarrow> i < length (ex_states r) \<and> j < length (ex_states r)"
  by (auto simp: model_ok_def dest!: edge_entry)

lemma path_bound:
  assumes "model_ok r" "is_path r \<pi>" "\<pi> 0 < length (ex_states r)"
  shows "\<pi> k < length (ex_states r)"
proof (induction k)
  case (Suc k)
  then show ?case using assms(2) edge_bound[OF assms(1)] unfolding is_path_def by metis
qed (rule assms(3))

text \<open>Any choice of successors that stays put exactly at dead ends gives a path from any state.\<close>

lemma path_of_choice:
  assumes "\<And>i. edge r i (f i) \<or> ((\<forall>j. \<not> edge r i j) \<and> f i = i)"
  shows "is_path r (\<lambda>k. (f ^^ k) i)"
  unfolding is_path_def using assms by auto

lemma path_exists: "\<exists>\<pi>. is_path r \<pi> \<and> \<pi> 0 = i"
proof -
  let ?f = "\<lambda>i. if \<exists>j. edge r i j then SOME j. edge r i j else i"
  have "edge r i (?f i) \<or> ((\<forall>j. \<not> edge r i j) \<and> ?f i = i)" for i
    by (auto intro: someI)
  from path_of_choice[of r ?f, OF this, of i] show ?thesis
    by (intro exI[of _ "\<lambda>k. (?f ^^ k) i"]) simp
qed

lemma path_cons: "is_path r \<pi> \<Longrightarrow> edge r i (\<pi> 0) \<Longrightarrow> is_path r (case_nat i \<pi>)"
  unfolding is_path_def by (auto split: nat.splits)

lemma path_tail: "is_path r \<pi> \<Longrightarrow> is_path r (\<lambda>k. \<pi> (Suc k))"
  by (simp add: is_path_def)

section \<open>The sweeps compute the path semantics\<close>

lemma until_at_case_nat:
  "until_at P Q (case_nat i \<pi>) \<longleftrightarrow> Q i \<or> (P i \<and> until_at P Q \<pi>)"
proof -
  have split: "(\<exists>k. R k) \<longleftrightarrow> R 0 \<or> (\<exists>k. R (Suc k))" for R :: "nat \<Rightarrow> bool"
    by (metis not0_implies_Suc)
  show ?thesis unfolding until_at_def by (subst split) (auto simp: All_less_Suc2)
qed

lemma path_unfold: "(\<pi> :: nat \<Rightarrow> nat) = case_nat (\<pi> 0) (\<lambda>k. \<pi> (Suc k))"
  by (rule ext) (simp split: nat.splits)

lemma EU_sem_unfold:
  "EU_sem r P Q i \<longleftrightarrow> Q i \<or> (P i \<and> (\<exists>j. edge r i j \<and> EU_sem r P Q j))"
proof
  assume "EU_sem r P Q i"
  then obtain \<pi> k where p: "is_path r \<pi>" "\<pi> 0 = i" and k: "Q (\<pi> k)" "\<forall>j<k. P (\<pi> j)"
    by (auto simp: EU_sem_def until_at_def)
  show "Q i \<or> (P i \<and> (\<exists>j. edge r i j \<and> EU_sem r P Q j))"
  proof (cases "\<exists>j. edge r i j")
    case True
    then have "edge r i (\<pi> 1)" using p unfolding is_path_def by (metis One_nat_def)
    moreover have "until_at P Q \<pi>" using k by (auto simp: until_at_def)
    then have "Q i \<or> (P i \<and> until_at P Q (\<lambda>k. \<pi> (Suc k)))"
      using until_at_case_nat[of P Q "\<pi> 0" "\<lambda>k. \<pi> (Suc k)"] path_unfold[of \<pi>] p(2) by simp
    moreover have "is_path r (\<lambda>k. \<pi> (Suc k))" using p(1) by (rule path_tail)
    ultimately show ?thesis unfolding EU_sem_def by fastforce
  next
    case False
    have "\<pi> k = i" for k
    proof (induction k)
      case (Suc k)
      then show ?case using p(1) False unfolding is_path_def by metis
    qed (rule p(2))
    then show ?thesis using k by simp
  qed
next
  assume "Q i \<or> (P i \<and> (\<exists>j. edge r i j \<and> EU_sem r P Q j))"
  then consider "Q i" | j where "P i" "edge r i j" "EU_sem r P Q j" by blast
  then show "EU_sem r P Q i"
  proof cases
    case 1
    then show ?thesis using path_exists[of r i] unfolding EU_sem_def until_at_def by fastforce
  next
    case 2
    then obtain \<pi> where "is_path r \<pi>" "\<pi> 0 = j" "until_at P Q \<pi>" by (auto simp: EU_sem_def)
    then have "is_path r (case_nat i \<pi>)" "until_at P Q (case_nat i \<pi>)"
      using 2 by (simp_all add: path_cons until_at_case_nat)
    then show ?thesis unfolding EU_sem_def by (intro exI[of _ "case_nat i \<pi>"]) simp
  qed
qed

lemma AU_sem_step:
  assumes "Q i \<or> (P i \<and> (\<exists>j. edge r i j) \<and> (\<forall>j. edge r i j \<longrightarrow> AU_sem r P Q j))"
  shows "AU_sem r P Q i"
  unfolding AU_sem_def
proof (intro allI impI)
  fix \<pi> assume p: "is_path r \<pi> \<and> \<pi> 0 = i"
  show "until_at P Q \<pi>"
  proof (cases "Q i")
    case True
    then show ?thesis using p by (auto simp: until_at_def)
  next
    case False
    with assms have "P i" "\<exists>j. edge r i j" "\<And>j. edge r i j \<Longrightarrow> AU_sem r P Q j" by blast+
    then have "edge r i (\<pi> (Suc 0))" using p unfolding is_path_def by metis
    then have "until_at P Q (\<lambda>k. \<pi> (Suc k))"
      using \<open>\<And>j. edge r i j \<Longrightarrow> AU_sem r P Q j\<close> p path_tail unfolding AU_sem_def by blast
    then show ?thesis
      using until_at_case_nat[of P Q "\<pi> 0" "\<lambda>k. \<pi> (Suc k)"] path_unfold[of \<pi>] p \<open>P i\<close> by simp
  qed
qed

lemma sweep_EU:
  assumes "model_ok r"
  shows "i \<in> sweep_loop (until_guard Op_EU L) (ex_edges r) C \<longleftrightarrow>
    EU_sem r (\<lambda>i. i \<in> L) (\<lambda>i. i \<in> C) i"
proof
  let ?X = "sweep_loop (until_guard Op_EU L) (ex_edges r) C"
  have "?X \<subseteq> {i. EU_sem r (\<lambda>i. i \<in> L) (\<lambda>i. i \<in> C) i}"
  proof (rule sweep_until(4))
    show "C \<subseteq> {i. EU_sem r (\<lambda>i. i \<in> L) (\<lambda>i. i \<in> C) i}" using EU_sem_unfold by blast
    fix i js
    assume e: "(i, js) \<in> set (ex_edges r)"
      and "until_guard Op_EU L {i. EU_sem r (\<lambda>i. i \<in> L) (\<lambda>i. i \<in> C) i} i js"
    then obtain j where "i \<in> L" "j \<in> set js" "EU_sem r (\<lambda>i. i \<in> L) (\<lambda>i. i \<in> C) j"
      by (auto simp: until_guard_def ef_guard_def list_ex_iff)
    then show "i \<in> {i. EU_sem r (\<lambda>i. i \<in> L) (\<lambda>i. i \<in> C) i}"
      using entry_edge[OF assms e] EU_sem_unfold by blast
  qed
  then show "i \<in> ?X \<Longrightarrow> EU_sem r (\<lambda>i. i \<in> L) (\<lambda>i. i \<in> C) i" by blast
  have step: "i \<in> ?X" if "edge r i j" "j \<in> ?X" "i \<in> L" for i j
    using edge_entry[OF that(1)] that(2,3) sweep_until(2)[where op = Op_EU and L = L and S = C]
    by (fastforce simp: until_guard_def ef_guard_def list_ex_iff)
  have "\<pi> 0 \<in> ?X" if "is_path r \<pi>" "\<pi> k \<in> C" "\<forall>j<k. \<pi> j \<in> L" for \<pi> k
    using that
  proof (induction k arbitrary: \<pi>)
    case 0
    then show ?case using sweep_until(1) by blast
  next
    case (Suc k)
    have "\<pi> (Suc 0) \<in> ?X"
      using Suc.IH[of "\<lambda>k. \<pi> (Suc k)"] Suc.prems path_tail by auto
    moreover have "edge r (\<pi> 0) (\<pi> (Suc 0)) \<or> \<pi> (Suc 0) = \<pi> 0"
      using Suc.prems(1) unfolding is_path_def by metis
    ultimately show ?case using step Suc.prems(3) by auto
  qed
  then show "EU_sem r (\<lambda>i. i \<in> L) (\<lambda>i. i \<in> C) i \<Longrightarrow> i \<in> ?X"
    unfolding EU_sem_def until_at_def by blast
qed

text \<open>A path that leaves the labelled set whenever it can never meets the goal in time.\<close>

lemma avoiding_path:
  assumes closed: "\<And>i. i \<in> L \<Longrightarrow> \<exists>j. edge r i j \<Longrightarrow> (\<forall>j. edge r i j \<longrightarrow> j \<in> X) \<Longrightarrow> i \<in> X"
    and "C \<subseteq> X" and "i \<notin> X"
  shows "\<exists>\<pi>. is_path r \<pi> \<and> \<pi> 0 = i \<and> \<not> until_at (\<lambda>i. i \<in> L) (\<lambda>i. i \<in> C) \<pi>"
proof -
  let ?f = "\<lambda>i. if \<exists>j. edge r i j \<and> j \<notin> X then SOME j. edge r i j \<and> j \<notin> X
      else if \<exists>j. edge r i j then SOME j. edge r i j else i"
  have choice: "edge r i (?f i) \<or> ((\<forall>j. \<not> edge r i j) \<and> ?f i = i)" for i
  proof (cases "\<exists>j. edge r i j \<and> j \<notin> X")
    case True
    then show ?thesis using someI_ex[OF True] by simp
  next
    case False
    then show ?thesis by (auto intro: someI)
  qed
  let ?p = "\<lambda>k. (?f ^^ k) i"
  have out: "?f i \<notin> X" if "i \<notin> X" "i \<in> L" for i
  proof (cases "\<exists>j. edge r i j \<and> j \<notin> X")
    case True
    then show ?thesis using someI_ex[OF True] by simp
  next
    case False
    then have "\<not> (\<exists>j. edge r i j)" using closed[OF that(2)] that(1) by blast
    then show ?thesis using False that(1) by auto
  qed
  have "(\<forall>j<k. ?p j \<in> L) \<Longrightarrow> ?p k \<notin> X" for k
  proof (induction k)
    case (Suc k)
    then have "?p k \<notin> X" "?p k \<in> L" by simp_all
    from out[OF this] show ?case by (simp only: funpow.simps comp_apply) simp
  qed (simp add: assms(3))
  then have "\<not> until_at (\<lambda>i. i \<in> L) (\<lambda>i. i \<in> C) ?p" using assms(2) by (auto simp: until_at_def)
  moreover have "is_path r ?p" using choice by (rule path_of_choice)
  ultimately show ?thesis by (intro exI[of _ ?p]) simp
qed

lemma sweep_AU:
  assumes "model_ok r"
  shows "i \<in> sweep_loop (until_guard Op_AU L) (ex_edges r) C \<longleftrightarrow>
    AU_sem r (\<lambda>i. i \<in> L) (\<lambda>i. i \<in> C) i"
proof
  let ?X = "sweep_loop (until_guard Op_AU L) (ex_edges r) C"
  have "?X \<subseteq> {i. AU_sem r (\<lambda>i. i \<in> L) (\<lambda>i. i \<in> C) i}"
  proof (rule sweep_until(4))
    show "C \<subseteq> {i. AU_sem r (\<lambda>i. i \<in> L) (\<lambda>i. i \<in> C) i}"
      by (auto intro: AU_sem_step)
    fix i js
    assume e: "(i, js) \<in> set (ex_edges r)"
      and "until_guard Op_AU L {i. AU_sem r (\<lambda>i. i \<in> L) (\<lambda>i. i \<in> C) i} i js"
    then have "i \<in> L" "js \<noteq> []" "\<forall>j\<in>set js. AU_sem r (\<lambda>i. i \<in> L) (\<lambda>i. i \<in> C) j"
      by (auto simp: until_guard_def af_guard_def list_all_iff)
    then have "i \<in> L \<and> (\<exists>j. edge r i j) \<and> (\<forall>j. edge r i j \<longrightarrow> AU_sem r (\<lambda>i. i \<in> L) (\<lambda>i. i \<in> C) j)"
      using entry_edge[OF assms e] by (metis list.set_sel(1))
    then show "i \<in> {i. AU_sem r (\<lambda>i. i \<in> L) (\<lambda>i. i \<in> C) i}" by (intro CollectI AU_sem_step) blast
  qed
  then show "i \<in> ?X \<Longrightarrow> AU_sem r (\<lambda>i. i \<in> L) (\<lambda>i. i \<in> C) i" by blast
  have closed: "i \<in> ?X" if "i \<in> L" "\<exists>j. edge r i j" "\<forall>j. edge r i j \<longrightarrow> j \<in> ?X" for i
  proof -
    from that(2) obtain js where js: "(i, js) \<in> set (ex_edges r)" "js \<noteq> []" using edge_entry by force
    then have "until_guard Op_AU L ?X i js"
      using that(1,3) entry_edge[OF assms js(1)] by (auto simp: until_guard_def af_guard_def list_all_iff)
    then show ?thesis by (rule sweep_until(2)[OF js(1)])
  qed
  show "AU_sem r (\<lambda>i. i \<in> L) (\<lambda>i. i \<in> C) i \<Longrightarrow> i \<in> ?X"
    using avoiding_path[OF closed sweep_until(1)] unfolding AU_sem_def by blast
qed

lemma sem_cong:
  assumes "model_ok r" "i < length (ex_states r)"
    and "\<And>j. j < length (ex_states r) \<Longrightarrow> P j = P' j" "\<And>j. j < length (ex_states r) \<Longrightarrow> Q j = Q' j"
  shows "EU_sem r P Q i = EU_sem r P' Q' i" "AU_sem r P Q i = AU_sem r P' Q' i"
proof -
  have "until_at P Q \<pi> = until_at P' Q' \<pi>" if "is_path r \<pi>" "\<pi> 0 = i" for \<pi>
    using path_bound[OF assms(1) that(1)] that(2) assms(2-4) by (simp add: until_at_def)
  then show "EU_sem r P Q i = EU_sem r P' Q' i" "AU_sem r P Q i = AU_sem r P' Q' i"
    unfolding EU_sem_def AU_sem_def by blast+
qed

lemma sat_EF_sem:
  "model_ok r \<Longrightarrow> i \<in> sat_EF r C \<longleftrightarrow> EU_sem r (\<lambda>_. True) (\<lambda>i. i \<in> C) i"
  using sweep_EU[of r i UNIV C] by (simp add: sat_EF_def ef_guard_until)

lemma sat_AF_sem:
  "model_ok r \<Longrightarrow> i \<in> sat_AF r C \<longleftrightarrow> AU_sem r (\<lambda>_. True) (\<lambda>i. i \<in> C) i"
proof -
  assume ok: "model_ok r"
  have "sat_AF r C = sweep_loop (until_guard Op_AU UNIV) (ex_edges r) C"
    using sweep_until(1)[of C Op_AU UNIV "ex_edges r"] by (auto simp: sat_AF_def af_guard_until)
  then show ?thesis using sweep_AU[OF ok, of i UNIV C] by simp
qed

lemma until_at_True: "until_at (\<lambda>_. True) Q \<pi> \<longleftrightarrow> (\<exists>k. Q (\<pi> k))"
  by (simp add: until_at_def)

lemma sat_subset: "model_ok r \<Longrightarrow> sat en r e \<subseteq> {..<length (ex_states r)}"
proof (induction e rule: sat.induct)
  case (5 en r e)
  then show ?case by (auto simp: sat_EX_def model_ok_def)
next
  case (6 en r e)
  then show ?case using sweep_until(3)[of Op_EU UNIV "ex_edges r" "sat en r e"]
    by (fastforce simp: sat_EF_def ef_guard_until model_ok_def)
next
  case (7 en r e)
  then show ?case using sweep_until(3)[of Op_AU UNIV "ex_edges r" "sat en r e"]
    by (fastforce simp: sat_AF_def af_guard_until model_ok_def)
next
  case (10 en r op a b)
  then show ?case using sweep_until(3)[of op "sat en r a" "ex_edges r" "sat en r b"]
    by (fastforce simp: model_ok_def)
qed (auto simp: all_states_def)

lemma sat_holds:
  "model_ok r \<Longrightarrow> i < length (ex_states r) \<Longrightarrow> i \<in> sat en r e \<longleftrightarrow> holds en r e i"
proof (induction e arbitrary: i)
  case (Ctl op e)
  have ok: "model_ok r" and i: "i < length (ex_states r)" using Ctl.prems by auto
  let ?n = "length (ex_states r)"
  have bnd: "\<pi> k < ?n" if "is_path r \<pi>" "\<pi> 0 = i" for \<pi> k
    using path_bound[OF ok that(1)] that(2) i by simp
  have IH: "j \<in> sat en r e \<longleftrightarrow> holds en r e j" if "j < ?n" for j using Ctl.IH[OF ok that] .
  have neg: "j \<in> all_states r - sat en r e \<longleftrightarrow> \<not> holds en r e j" if "j < ?n" for j
    using IH[OF that] that by (simp add: all_states_def)
  note cong = sem_cong[OF ok i, where P = "\<lambda>_. True" and P' = "\<lambda>_. True"]
  show ?case
  proof (cases op)
    case Op_EX
    have "i \<in> sat_EX r (sat en r e) \<longleftrightarrow> (\<exists>j. edge r i j \<and> j \<in> sat en r e)"
      using entry_edge[OF ok] edge_entry
      by (fastforce simp: sat_EX_def ef_guard_def list_ex_iff image_iff)
    then show ?thesis using Op_EX IH edge_bound[OF ok] by auto
  next
    case Op_EF
    then show ?thesis
      using sat_EF_sem[OF ok, of i "sat en r e"] cong(1)[of "\<lambda>i. i \<in> sat en r e", OF _ IH]
      by (simp add: EU_sem_def until_at_True)
  next
    case Op_AF
    then show ?thesis
      using sat_AF_sem[OF ok, of i "sat en r e"] cong(2)[of "\<lambda>i. i \<in> sat en r e", OF _ IH]
      by (simp add: AU_sem_def until_at_True)
  next
    case Op_EG
    then show ?thesis
      using sat_AF_sem[OF ok, of i "all_states r - sat en r e"] i
        cong(2)[of "\<lambda>i. i \<in> all_states r - sat en r e", OF _ neg]
      by (auto simp: AU_sem_def until_at_True all_states_def)
  next
    case Op_AG
    then show ?thesis
      using sat_EF_sem[OF ok, of i "all_states r - sat en r e"] i
        cong(1)[of "\<lambda>i. i \<in> all_states r - sat en r e", OF _ neg]
      by (auto simp: EU_sem_def until_at_True all_states_def)
  qed
next
  case (Until op a b)
  have ok: "model_ok r" and i: "i < length (ex_states r)" using Until.prems by auto
  note cong = sem_cong[OF ok i, of "\<lambda>i. i \<in> sat en r a" "holds en r a" "\<lambda>i. i \<in> sat en r b" "holds en r b",
      OF Until.IH(1)[OF ok] Until.IH(2)[OF ok]]
  show ?case
    using sweep_EU[OF ok, of i "sat en r a" "sat en r b"] sweep_AU[OF ok, of i "sat en r a" "sat en r b"] cong
    by (cases op) simp_all
qed (auto simp: all_states_def)

text \<open>Explorations are well-formed models.\<close>

lemma explored_model_ok:
  assumes "explored init ps pd key D d r"
  shows "model_ok r"
proof -
  let ?sts = "ex_states r"
  have ok: "edges_ok key d ?sts (recorded_succ ps D d ?sts) (ex_edges r)"
    using assms by (simp add: explored_def Let_def)
  have wf: "dict_wf (ex_edges r)" using ok by (simp add: edges_ok_def)
  have "i < length ?sts \<and> (\<forall>j\<in>set js. j < length ?sts)" if "(i, js) \<in> set (ex_edges r)" for i js
  proof -
    have "dict_get (ex_edges r) i = Some js" using wf that by simp
    then have "i < length ?sts" "list_all2 (\<lambda>(l, t) j. j < length ?sts \<and> key (?sts ! j) = key t \<and> d j \<le> d i + 1)
        (recorded_succ ps D d ?sts i) js"
      using edges_okD[OF ok, of i] by simp_all
    then show ?thesis by (auto simp: list_all2_conv_all_nth in_set_conv_nth split: prod.splits)
        (metis surj_pair)
  qed
  with wf show ?thesis by (auto simp: model_ok_def)
qed

end
