(* ===== verification/Py_Values.thy ===== *)
theory Py_Values
  imports Prelude
begin

text \<open>
  The conversions between Python values the sources use: \<^verbatim>\<open>str\<close>, \<^verbatim>\<open>int\<close>, \<^verbatim>\<open>float\<close>, iteration, and
  look-ups with a default.  The text of a float, a list or a mapping under \<^verbatim>\<open>str\<close> is the parameter
  \<open>rep\<close>.
\<close>

section \<open>Text\<close>

definition quoted :: "string \<Rightarrow> string" where
  "quoted s = [CHR 0x27] @ s @ [CHR 0x27]"

definition str_int :: "int \<Rightarrow> string" where
  "str_int i = (if i < 0 then CHR ''-'' # str_nat (nat (- i)) else str_nat (nat i))"

definition py_str :: "(val \<Rightarrow> string) \<Rightarrow> val \<Rightarrow> string" where
  "py_str rep v = (case v of
       VStr s \<Rightarrow> s
     | VNone \<Rightarrow> ''None''
     | VBool b \<Rightarrow> if b then ''True'' else ''False''
     | VInt i \<Rightarrow> str_int i
     | _ \<Rightarrow> rep v)"

definition type_name :: "val \<Rightarrow> string" where
  "type_name v = (case v of
       VNone \<Rightarrow> ''NoneType'' | VBool _ \<Rightarrow> ''bool'' | VInt _ \<Rightarrow> ''int'' | VFloat _ \<Rightarrow> ''float''
     | VStr _ \<Rightarrow> ''str'' | VList _ \<Rightarrow> ''list'' | VDict _ \<Rightarrow> ''dict'')"

text \<open>\<^verbatim>\<open>iter(v)\<close>: a string yields its characters, a mapping its keys.\<close>

definition iter_val :: "val \<Rightarrow> val list result" where
  "iter_val v = (case v of
       VList xs \<Rightarrow> Inr xs
     | VStr s \<Rightarrow> Inr (map (\<lambda>c. VStr [c]) s)
     | VDict d \<Rightarrow> Inr (map (\<lambda>(k, _). VStr k) d)
     | _ \<Rightarrow> Inl (TypeError (quoted (type_name v) @ '' object is not iterable'')))"

text \<open>\<^verbatim>\<open>d.get(k) or default\<close>.\<close>

definition get_or :: "(string, val) dict \<Rightarrow> string \<Rightarrow> val \<Rightarrow> val" where
  "get_or d k dflt = (case dict_get d k of
       None \<Rightarrow> dflt
     | Some v \<Rightarrow> if truthy v then v else dflt)"

section \<open>Numbers\<close>

text \<open>\<^verbatim>\<open>float(x)\<close> of a value; \<open>None\<close> when the conversion raises.\<close>

definition to_float :: "val \<Rightarrow> real option" where
  "to_float v = (case v of
       VBool b \<Rightarrow> Some (if b then 1 else 0)
     | VInt i \<Rightarrow> Some (real_of_int i)
     | VFloat r \<Rightarrow> Some r
     | VStr s \<Rightarrow> py_float s
     | _ \<Rightarrow> None)"

text \<open>
  \<^verbatim>\<open>int(x)\<close>: a float is truncated towards zero; \<open>None\<close> when the conversion raises.
\<close>

definition truncate_real :: "real \<Rightarrow> int" where
  "truncate_real r = (if r < 0 then \<lceil>r\<rceil> else \<lfloor>r\<rfloor>)"

definition to_int :: "val \<Rightarrow> int option" where
  "to_int v = (case v of
       VBool b \<Rightarrow> Some (if b then 1 else 0)
     | VInt i \<Rightarrow> Some i
     | VFloat r \<Rightarrow> Some (truncate_real r)
     | VStr s \<Rightarrow> py_int s
     | _ \<Rightarrow> None)"

text \<open>
  The same conversions where the exception is not caught: a string that is no number is a
  \<^verbatim>\<open>ValueError\<close>, a value of another type a \<^verbatim>\<open>TypeError\<close>.
\<close>

definition conversion :: "string \<Rightarrow> (val \<Rightarrow> 'a option) \<Rightarrow> val \<Rightarrow> 'a result" where
  "conversion name f v = (case f v of
       Some x \<Rightarrow> Inr x
     | None \<Rightarrow> (case v of
          VStr s \<Rightarrow> Inl (ValueError (''invalid literal for '' @ name))
        | _ \<Rightarrow> Inl (TypeError (name @ '' argument must be a string or a number, not '' @ quoted (type_name v)))))"

definition int_of :: "val \<Rightarrow> int result" where
  "int_of = conversion ''int()'' to_int"

definition float_of :: "val \<Rightarrow> real result" where
  "float_of = conversion ''float()'' to_float"

lemma int_of_simps [simp]: "int_of (VInt i) = Inr i" "int_of (VBool b) = Inr (if b then 1 else 0)"
  by (simp_all add: int_of_def conversion_def to_int_def)

lemma float_of_simps [simp]: "float_of (VFloat r) = Inr r" "float_of (VInt i) = Inr (real_of_int i)"
  by (simp_all add: float_of_def conversion_def to_float_def)

lemma py_str_simps [simp]: "py_str rep (VStr s) = s" "py_str rep VNone = ''None''"
  by (simp_all add: py_str_def)

section \<open>Mappings\<close>

text \<open>The receiver of a \<^verbatim>\<open>.get\<close> call: anything but a mapping raises.\<close>

definition mapping_of :: "val \<Rightarrow> (string, val) dict result" where
  "mapping_of v = (case v of
       VDict d \<Rightarrow> Inr d
     | _ \<Rightarrow> Inl (AttributeError (quoted (type_name v) @ '' object has no attribute '' @ quoted ''get'')))"

lemma mapping_of_dict [simp]: "mapping_of (VDict d) = Inr d"
  by (simp add: mapping_of_def)

text \<open>\<^verbatim>\<open>isinstance(v, Mapping)\<close>, with the items.\<close>

definition as_dict :: "val \<Rightarrow> (string, val) dict option" where
  "as_dict v = (case v of VDict d \<Rightarrow> Some d | _ \<Rightarrow> None)"

lemma as_dict_simps [simp]: "as_dict (VDict d) = Some d" "as_dict VNone = None"
  by (simp_all add: as_dict_def)

text \<open>\<^verbatim>\<open>d.get(k)\<close> on a document, where an absent key and \<^verbatim>\<open>null\<close> are both \<^verbatim>\<open>None\<close>.\<close>

definition get_val :: "(string, val) dict \<Rightarrow> string \<Rightarrow> val" where
  "get_val d k = dict_get_or d k VNone"

end
