(* ===== verification/Ctl_Syntax.thy ===== *)
theory Ctl_Syntax
  imports Ctl_Check Py_Values
begin

text \<open>
  The formula language (\<^verbatim>\<open>tm/verify/ctl.py\<close>, up to \<open>parse_predicate_expr\<close>, and \<^verbatim>\<open>_unparse\<close> of
  \<^verbatim>\<open>tm/verify/compositional.py\<close>): the tokenizer, the recursive-descent parser over the remaining
  tokens, and the printer.  The nested closures of \<^verbatim>\<open>parse_expr\<close> share a position; here each
  returns the tokens it leaves.  Their recursion carries fuel, and three units per token plus three
  are shown to be enough, so the parser is total.
\<close>

section \<open>Tokens\<close>

definition ident_start :: "char \<Rightarrow> bool" where
  "ident_start c \<longleftrightarrow> is_alpha c \<or> c = CHR ''_''"

definition ident_char :: "char \<Rightarrow> bool" where
  "ident_char c \<longleftrightarrow> is_alpha c \<or> is_digit c \<or> c \<in> set ''_-.[]*''"

text \<open>The literal alternatives of the regular expression, in its order.\<close>

definition token_keywords :: "string list" where
  "token_keywords = [''EX'', ''EF'', ''EG'', ''EU'', ''AF'', ''AG'', ''AU'', ''AND'', ''OR'', ''NOT'',
     ''||'', ''&&'', ''!'', ''('', '')'']"

definition next_token :: "string \<Rightarrow> (string \<times> string) option" where
  "next_token s = (case dropWhile is_space s of
       [] \<Rightarrow> None
     | c # cs \<Rightarrow>
         (case find (\<lambda>k. starts_with k (c # cs)) token_keywords of
            Some k \<Rightarrow> Some (k, drop (length k) (c # cs))
          | None \<Rightarrow>
              if ident_start c then Some (c # takeWhile ident_char cs, dropWhile ident_char cs)
              else Some ([c], cs)))"

lemma keywords_nonempty: "k \<in> set token_keywords \<Longrightarrow> k \<noteq> []"
  by (auto simp: token_keywords_def)

lemma find_keyword:
  assumes "find (\<lambda>k. starts_with k s) token_keywords = Some k"
  shows "s = k @ drop (length k) s" "k \<noteq> []" "k \<in> set token_keywords"
  using assms keywords_nonempty by (auto simp: find_Some_iff starts_with_append)

lemma next_token_split:
  assumes "next_token s = Some (t, s')"
  shows "dropWhile is_space s = t @ s'" "t \<noteq> []"
  using assms find_keyword[of "dropWhile is_space s" t]
  by (auto simp: next_token_def split: list.splits option.splits if_splits)

lemma next_token_shorter: "next_token s = Some (t, s') \<Longrightarrow> length s' < length s"
  using next_token_split[of s t s'] length_dropWhile_le[of is_space s] by (cases t) auto

function tokenize :: "string \<Rightarrow> string list" where
  "tokenize s = (case next_token s of None \<Rightarrow> [] | Some (t, s') \<Rightarrow> t # tokenize s')"
  by pat_completeness auto
termination by (relation "measure length") (auto simp: next_token_shorter)

declare tokenize.simps [simp del]

section \<open>Parsing\<close>

abbreviation out_of_range :: exn where
  "out_of_range \<equiv> IndexError ''list index out of range''"

text \<open>\<^verbatim>\<open>if peek() == t: pop()\<close>, and a mandatory token whose absence raises.\<close>

definition skip_tok :: "string \<Rightarrow> string list \<Rightarrow> string list" where
  "skip_tok t ts = (case ts of [] \<Rightarrow> [] | x # xs \<Rightarrow> if x = t then xs else ts)"

definition need_tok :: "string \<Rightarrow> string \<Rightarrow> string list \<Rightarrow> string list result" where
  "need_tok t msg ts = (case ts of
       [] \<Rightarrow> Inl (ValueError msg)
     | x # xs \<Rightarrow> if x = t then Inr xs else Inl (ValueError msg))"

text \<open>The tokens up to the next closing parenthesis, and those after it.\<close>

definition call_value :: "string list \<Rightarrow> (string list \<times> string list) result" where
  "call_value ts = bind_result (need_tok '')'' (''missing '' @ quoted '')'' @ '' in predicate'') (dropWhile (\<lambda>t. t \<noteq> '')'') ts))
     (\<lambda>rest. Inr (takeWhile (\<lambda>t. t \<noteq> '')'') ts, rest))"

definition value_or_none :: "string \<Rightarrow> string option" where
  "value_or_none s = (if str_strip s = [] then None else Some (str_strip s))"

definition peer_predicate :: "string \<Rightarrow> expr \<Rightarrow> expr result" where
  "peer_predicate agent_id e = (case e of
       Predicate n None \<Rightarrow> Inl (ValueError ''peer() inner predicate requires an argument'')
     | Predicate n (Some v) \<Rightarrow>
         if str_lower n \<in> {''has'', ''pending'', ''done''} then Inr (Predicate n (Some (agent_id @ ''.'' @ v)))
         else Inl (ValueError ''peer() supports has/pending/done inner predicates only'')
     | _ \<Rightarrow> Inl (ValueError ''peer() second argument must be a predicate call''))"

fun parse_predicate :: "nat \<Rightarrow> string list \<Rightarrow> (expr \<times> string list) result" where
  "parse_predicate 0 ts = Inl OutOfFuel"
| "parse_predicate (Suc n) [] = Inl out_of_range"
| "parse_predicate (Suc n) (hd_tok # ts) =
     (if str_lower hd_tok = ''peer'' then
        bind_result (need_tok ''('' (''peer() requires '' @ quoted ''('') ts) (\<lambda>ts1.
          case ts1 of
            [] \<Rightarrow> Inl out_of_range
          | agent_id # ts2 \<Rightarrow>
              bind_result (parse_predicate n (skip_tok '','' ts2)) (\<lambda>(inner, ts3).
                bind_result (peer_predicate agent_id inner) (\<lambda>p. Inr (p, skip_tok '')'' ts3))))
      else
        bind_result
          (case ts of
             [] \<Rightarrow> Inr (None, [])
           | t # ts1 \<Rightarrow>
               if t = ''('' then bind_result (call_value ts1) (\<lambda>(parts, rest). Inr (value_or_none (concat parts), rest))
               else Inr (None, ts))
          (\<lambda>(v, rest).
             if str_lower hd_tok = ''terminal'' then Inr (Predicate ''Terminal'' None, rest)
             else Inr (Predicate hd_tok v, rest)))"

definition ctl_op_of :: "string \<Rightarrow> ctl_op option" where
  "ctl_op_of t = map_of [(''EX'', Op_EX), (''EF'', Op_EF), (''EG'', Op_EG), (''AF'', Op_AF), (''AG'', Op_AG)] t"

definition until_op_of :: "string \<Rightarrow> until_op option" where
  "until_op_of t = map_of [(''EU'', Op_EU), (''AU'', Op_AU)] t"

text \<open>The branches of \<^verbatim>\<open>parse_unary\<close> that call \<^verbatim>\<open>parse_or\<close>, passed as \<open>po\<close>.\<close>

definition until_branch ::
  "(string list \<Rightarrow> (expr \<times> string list) result) \<Rightarrow> string \<Rightarrow> until_op \<Rightarrow> string list \<Rightarrow> (expr \<times> string list) result" where
  "until_branch po tok op ts =
     bind_result (need_tok ''('' (tok @ '' requires '' @ quoted ''('' @ '' (use '' @ tok @ ''(p, q))'') ts) (\<lambda>ts1.
     bind_result (po ts1) (\<lambda>(l, ts2).
     bind_result (need_tok '','' (tok @ '' requires two comma-separated operands: '' @ tok @ ''(p, q)'') ts2) (\<lambda>ts3.
     bind_result (po ts3) (\<lambda>(r, ts4).
     bind_result (need_tok '')'' (''missing '' @ quoted '')'' @ '' in '' @ tok @ ''(...)'') ts4) (\<lambda>ts5.
       Inr (Until op l r, ts5))))))"

definition paren_branch ::
  "(string list \<Rightarrow> (expr \<times> string list) result) \<Rightarrow> string list \<Rightarrow> (expr \<times> string list) result" where
  "paren_branch po ts =
     bind_result (po ts) (\<lambda>(e, ts1).
     bind_result (need_tok '')'' (''missing '' @ quoted '')'') ts1) (\<lambda>ts2. Inr (e, ts2)))"

text \<open>The whole of \<^verbatim>\<open>parse_unary\<close>, with the recursive calls as arguments.\<close>

definition unary_body ::
  "(string list \<Rightarrow> (expr \<times> string list) result) \<Rightarrow> (string list \<Rightarrow> (expr \<times> string list) result) \<Rightarrow>
   (string list \<Rightarrow> (expr \<times> string list) result) \<Rightarrow> string list \<Rightarrow> (expr \<times> string list) result" where
  "unary_body pu po pp ts = (case ts of
       [] \<Rightarrow> Inl (ValueError ''unexpected end of expression'')
     | tok # rest \<Rightarrow>
         if tok = ''!'' \<or> tok = ''NOT'' then bind_result (pu rest) (\<lambda>(e, ts1). Inr (NotE e, ts1))
         else case ctl_op_of tok of
           Some op \<Rightarrow> bind_result (pu rest) (\<lambda>(e, ts1). Inr (Ctl op e, ts1))
         | None \<Rightarrow>
             (case until_op_of tok of
                Some op \<Rightarrow> until_branch po tok op rest
              | None \<Rightarrow> if tok = ''('' then paren_branch po rest else pp ts))"

text \<open>One round of the \<^verbatim>\<open>while True\<close> loops: after one of the operators \<open>ops\<close> another operand \<open>p\<close> is joined by \<open>mk\<close>.\<close>

definition loop_body ::
  "string list \<Rightarrow> (expr \<Rightarrow> expr \<Rightarrow> expr) \<Rightarrow> (string list \<Rightarrow> (expr \<times> string list) result) \<Rightarrow>
   (expr \<Rightarrow> string list \<Rightarrow> (expr \<times> string list) result) \<Rightarrow> expr \<Rightarrow> string list \<Rightarrow> (expr \<times> string list) result" where
  "loop_body ops mk p again e ts = (case ts of
       [] \<Rightarrow> Inr (e, [])
     | tok # rest \<Rightarrow>
         if tok \<in> set ops then bind_result (p rest) (\<lambda>(f, ts1). again (mk e f) ts1) else Inr (e, ts))"

fun parse_unary :: "nat \<Rightarrow> string list \<Rightarrow> (expr \<times> string list) result"
  and parse_and :: "nat \<Rightarrow> string list \<Rightarrow> (expr \<times> string list) result"
  and and_loop :: "nat \<Rightarrow> expr \<Rightarrow> string list \<Rightarrow> (expr \<times> string list) result"
  and parse_or :: "nat \<Rightarrow> string list \<Rightarrow> (expr \<times> string list) result"
  and or_loop :: "nat \<Rightarrow> expr \<Rightarrow> string list \<Rightarrow> (expr \<times> string list) result" where
  "parse_unary 0 ts = Inl OutOfFuel"
| "parse_unary (Suc n) ts = unary_body (parse_unary n) (parse_or n) (parse_predicate (Suc n)) ts"
| "parse_and 0 ts = Inl OutOfFuel"
| "parse_and (Suc n) ts = bind_result (parse_unary n ts) (\<lambda>(e, rest). and_loop n e rest)"
| "and_loop 0 e ts = Inl OutOfFuel"
| "and_loop (Suc n) e ts = loop_body [''&&'', ''AND''] AndE (parse_unary n) (and_loop n) e ts"
| "parse_or 0 ts = Inl OutOfFuel"
| "parse_or (Suc n) ts = bind_result (parse_and n ts) (\<lambda>(e, rest). or_loop n e rest)"
| "or_loop 0 e ts = Inl OutOfFuel"
| "or_loop (Suc n) e ts = loop_body [''||'', ''OR''] OrE (parse_and n) (or_loop n) e ts"

definition parse_fuel :: "string list \<Rightarrow> nat" where
  "parse_fuel ts = 3 * length ts + 3"

definition parse_expr :: "string \<Rightarrow> expr result" where
  "parse_expr s = (let ts = tokenize s in
     bind_result (parse_or (parse_fuel ts) ts) (\<lambda>(e, rest).
       case rest of [] \<Rightarrow> Inr e | t # _ \<Rightarrow> Inl (ValueError (''unexpected token '' @ quoted t))))"

definition parse_predicate_call :: "string \<Rightarrow> string list \<Rightarrow> (expr \<times> string list) result" where
  "parse_predicate_call hd_tok ts = (case ts of
       [] \<Rightarrow> Inr (Predicate hd_tok None, [])
     | t # ts1 \<Rightarrow>
         if t \<noteq> ''('' then Inr (Predicate hd_tok None, ts)
         else bind_result (call_value ts1) (\<lambda>(parts, rest).
           Inr (Predicate hd_tok (if parts = [] then None else Some (str_strip (concat parts))), rest)))"

definition parse_predicate_expr :: "string \<Rightarrow> expr result" where
  "parse_predicate_expr s = (case tokenize s of
       [] \<Rightarrow> Inl (ValueError ''empty predicate'')
     | t # ts \<Rightarrow>
         if str_lower t = ''peer'' then
           bind_result (parse_expr s) (\<lambda>e. case e of
               Predicate _ _ \<Rightarrow> Inr e
             | _ \<Rightarrow> Inl (ValueError ''peer expression must desugar to a predicate''))
         else bind_result (parse_predicate_call t ts) (\<lambda>(p, rest).
           if rest = [] then Inr p else Inl (ValueError ''trailing tokens in predicate'')))"

text \<open>\<^verbatim>\<open>_unparse\<close>.\<close>

fun ctl_op_name :: "ctl_op \<Rightarrow> string" where
  "ctl_op_name Op_EX = ''EX''"
| "ctl_op_name Op_EF = ''EF''"
| "ctl_op_name Op_EG = ''EG''"
| "ctl_op_name Op_AF = ''AF''"
| "ctl_op_name Op_AG = ''AG''"

fun until_op_name :: "until_op \<Rightarrow> string" where
  "until_op_name Op_EU = ''EU''"
| "until_op_name Op_AU = ''AU''"

fun unparse :: "expr \<Rightarrow> string" where
  "unparse (Predicate n None) = n"
| "unparse (Predicate n (Some v)) = n @ ''('' @ v @ '')''"
| "unparse (NotE e) = ''!'' @ unparse e"
| "unparse (AndE a b) = ''('' @ unparse a @ '' && '' @ unparse b @ '')''"
| "unparse (OrE a b) = ''('' @ unparse a @ '' || '' @ unparse b @ '')''"
| "unparse (Ctl op e) = ctl_op_name op @ '' '' @ unparse e"
| "unparse (Until op a b) = until_op_name op @ ''('' @ unparse a @ '', '' @ unparse b @ '')''"

section \<open>Tokenizing loses only white space\<close>

lemma filter_dropWhile_space: "filter (\<lambda>c. \<not> is_space c) (dropWhile is_space s) = filter (\<lambda>c. \<not> is_space c) s"
  by (induction s) auto

lemma ident_char_not_space: "ident_char c \<Longrightarrow> \<not> is_space c"
  by (auto simp: ident_char_def is_alpha_def is_digit_def is_space_def Let_def)

lemma next_token_no_space:
  assumes "next_token s = Some (t, s')"
  shows "\<forall>c\<in>set t. \<not> is_space c"
proof -
  have kw: "\<forall>k\<in>set token_keywords. \<forall>c\<in>set k. \<not> is_space c"
    by (simp add: token_keywords_def is_space_def)
  have "\<not> is_space c" if "dropWhile is_space s = c # cs" for c cs
    using that by (simp add: dropWhile_eq_Cons_conv)
  with kw assms show ?thesis
    by (auto simp: next_token_def ident_char_not_space dest!: set_takeWhileD find_keyword(3)
        split: list.splits option.splits if_splits)
qed

lemma concat_tokenize: "concat (tokenize s) = filter (\<lambda>c. \<not> is_space c) s"
proof (induction s rule: tokenize.induct)
  case (1 s)
  show ?case
  proof (cases "next_token s")
    case None
    then have "dropWhile is_space s = []" by (auto simp: next_token_def split: list.splits option.splits if_splits)
    then show ?thesis using None by (subst tokenize.simps) (auto simp: dropWhile_eq_Nil_conv filter_empty_conv)
  next
    case (Some p)
    obtain t s' where p: "p = (t, s')" by force
    have "filter (\<lambda>c. \<not> is_space c) s = filter (\<lambda>c. \<not> is_space c) (t @ s')"
      using next_token_split(1)[of s t s'] filter_dropWhile_space[of s] Some p by simp
    also have "\<dots> = t @ filter (\<lambda>c. \<not> is_space c) s'"
      using next_token_no_space[of s t s'] Some p by simp
    finally show ?thesis using 1[OF Some p[symmetric]] Some p by (subst tokenize.simps) simp
  qed
qed

section \<open>The fuel is enough\<close>

text \<open>
  A parser run that fails with one of the parser's own errors or leaves fewer than \<open>L\<close> tokens; in
  particular it does not run out of fuel.
\<close>

definition parse_error :: "exn \<Rightarrow> bool" where
  "parse_error x \<longleftrightarrow> (\<exists>msg. x = ValueError msg) \<or> x = out_of_range"

lemma parse_error_simps [simp]: "parse_error (ValueError msg)" "parse_error out_of_range" "\<not> parse_error OutOfFuel"
  by (simp_all add: parse_error_def)

definition consumes :: "nat \<Rightarrow> (expr \<times> string list) result \<Rightarrow> bool" where
  "consumes L m \<longleftrightarrow> (case m of Inl x \<Rightarrow> parse_error x | Inr (e, ts) \<Rightarrow> length ts < L)"

lemma consumes_simps [simp]:
  "consumes L (Inl x) \<longleftrightarrow> parse_error x"
  "consumes L (Inr (e, ts)) \<longleftrightarrow> length ts < L"
  by (simp_all add: consumes_def)

lemma consumes_mono: "consumes L m \<Longrightarrow> L \<le> L' \<Longrightarrow> consumes L' m"
  by (auto simp: consumes_def split: sum.splits)

lemma consumes_bind:
  assumes "consumes L m" and "\<And>e ts. length ts < L \<Longrightarrow> consumes L' (f e ts)"
  shows "consumes L' (bind_result m (\<lambda>(e, ts). f e ts))"
  using assms by (cases m) auto

lemma consumes_need:
  assumes "\<And>ts'. length ts = Suc (length ts') \<Longrightarrow> consumes L (f ts')"
  shows "consumes L (bind_result (need_tok t msg ts) f)"
  using assms by (auto simp: need_tok_def split: list.splits)

lemma skip_tok_length: "length (skip_tok t ts) \<le> length ts"
  by (auto simp: skip_tok_def split: list.splits)

lemma peer_predicate_error: "peer_predicate a e = Inl x \<Longrightarrow> parse_error x"
  by (auto simp: peer_predicate_def split: expr.splits option.splits if_splits)

lemma call_value_cases:
  obtains msg where "call_value ts = Inl (ValueError msg)"
  | parts rest where "call_value ts = Inr (parts, rest)" "length rest < length ts" "ts = parts @ '')'' # rest"
proof (cases "dropWhile (\<lambda>t. t \<noteq> '')'') ts")
  case Nil
  show ?thesis by (rule that(1)) (simp add: call_value_def need_tok_def Nil del: dropWhile_eq_Nil_conv)
next
  case (Cons x xs)
  then have x: "x = '')''" by (auto simp: dropWhile_eq_Cons_conv)
  have ts: "takeWhile (\<lambda>t. t \<noteq> '')'') ts @ x # xs = ts"
    using takeWhile_dropWhile_id[of "\<lambda>t. t \<noteq> '')''" ts] Cons by simp
  show ?thesis
  proof (rule that(2))
    show "call_value ts = Inr (takeWhile (\<lambda>t. t \<noteq> '')'') ts, xs)"
      using Cons x by (simp add: call_value_def need_tok_def)
    show "ts = takeWhile (\<lambda>t. t \<noteq> '')'') ts @ '')'' # xs" using ts x by simp
    show "length xs < length ts" using arg_cong[OF ts, of length] by simp
  qed
qed

lemma parse_predicate_consumes:
  "length ts < n \<Longrightarrow> consumes (length ts) (parse_predicate n ts)"
proof (induction n arbitrary: ts)
  case (Suc n)
  show ?case
  proof (cases ts)
    case (Cons h ts')
    show ?thesis
    proof (cases "str_lower h = ''peer''")
      case True
      have inner: "consumes (length ts) (bind_result (parse_predicate n (skip_tok '','' ts2)) (\<lambda>(inner, ts3).
          bind_result (peer_predicate a inner) (\<lambda>p. Inr (p, skip_tok '')'' ts3))))"
        if "length ts2 + 2 < length ts" for a ts2
      proof (rule consumes_bind[OF Suc.IH])
        show "length (skip_tok '','' ts2) < n" using Suc.prems that skip_tok_length[of "'',''" ts2] by simp
        fix e and ts3 :: "string list"
        assume "length ts3 < length (skip_tok '','' ts2)"
        then have "length (skip_tok '')'' ts3) < length ts"
          using that skip_tok_length[of "'')''" ts3] skip_tok_length[of "'',''" ts2] by simp
        then show "consumes (length ts) (bind_result (peer_predicate a e) (\<lambda>p. Inr (p, skip_tok '')'' ts3)))"
          using peer_predicate_error[of a e] by (cases "peer_predicate a e") auto
      qed
      show ?thesis unfolding Cons parse_predicate.simps if_P[OF True] unfolding Cons[symmetric]
        by (rule consumes_need, simp split: list.split, intro allI impI inner) (simp add: Cons)
    next
      case False
      then show ?thesis
        by (cases ts'; cases rule: call_value_cases[of "tl ts'"]) (auto simp: Cons)
    qed
  qed simp
qed simp

lemma unary_body_consumes:
  assumes "\<And>us. length us < length ts \<Longrightarrow> consumes (length us) (pu us)"
    and "\<And>us. length us < length ts \<Longrightarrow> consumes (length us) (po us)"
    and "consumes (length ts) (pp ts)"
  shows "consumes (length ts) (unary_body pu po pp ts)"
proof (cases ts)
  case (Cons tok rest)
  have u: "consumes (length ts) (bind_result (pu rest) (\<lambda>(e, ts1). Inr (f e, ts1)))" for f
    by (rule consumes_bind[OF assms(1)]) (simp_all add: Cons)
  have "consumes (length ts) (until_branch po tok op rest)" for op
    unfolding until_branch_def
    by (rule consumes_need consumes_bind[OF assms(2)] | simp add: Cons)+
  moreover have "consumes (length ts) (paren_branch po rest)"
    unfolding paren_branch_def
    by (rule consumes_need consumes_bind[OF assms(2)] | simp add: Cons)+
  ultimately show ?thesis
    using u assms(3) by (auto simp: unary_body_def Cons simp del: length_Cons split: option.splits)
qed (simp add: unary_body_def)

lemma loop_body_consumes:
  assumes "\<And>us. length us < length ts \<Longrightarrow> consumes (length us) (p us)"
    and "\<And>e us. length us < length ts \<Longrightarrow> consumes (Suc (length us)) (again e us)"
  shows "consumes (Suc (length ts)) (loop_body ops mk p again e ts)"
proof (cases ts)
  case (Cons tok rest)
  have "consumes (Suc (length ts)) (bind_result (p rest) (\<lambda>(f, ts1). again (mk e f) ts1))"
    by (rule consumes_bind[OF assms(1)]) (auto simp: Cons intro!: consumes_mono[OF assms(2)])
  then show ?thesis by (simp add: loop_body_def Cons)
qed (simp add: loop_body_def)

lemma parser_consumes:
  "(3 * length ts + 1 \<le> n \<longrightarrow> consumes (length ts) (parse_unary n ts)) \<and>
   (3 * length ts + 2 \<le> n \<longrightarrow> consumes (length ts) (parse_and n ts)) \<and>
   (3 * length ts + 1 \<le> n \<longrightarrow> consumes (Suc (length ts)) (and_loop n e ts)) \<and>
   (3 * length ts + 3 \<le> n \<longrightarrow> consumes (length ts) (parse_or n ts)) \<and>
   (3 * length ts + 1 \<le> n \<longrightarrow> consumes (Suc (length ts)) (or_loop n e ts))"
proof (induction n arbitrary: ts e)
  case (Suc n)
  have IH: "3 * length us + 1 \<le> n \<Longrightarrow> consumes (length us) (parse_unary n us)"
    "3 * length us + 2 \<le> n \<Longrightarrow> consumes (length us) (parse_and n us)"
    "3 * length us + 1 \<le> n \<Longrightarrow> consumes (Suc (length us)) (and_loop n f us)"
    "3 * length us + 3 \<le> n \<Longrightarrow> consumes (length us) (parse_or n us)"
    "3 * length us + 1 \<le> n \<Longrightarrow> consumes (Suc (length us)) (or_loop n f us)" for us f
    using Suc.IH by blast+
  have "consumes (length ts) (parse_unary (Suc n) ts)" if "3 * length ts + 1 \<le> Suc n"
    unfolding parse_unary.simps
    by (rule unary_body_consumes; (rule IH parse_predicate_consumes)?) (use that in simp_all)
  moreover have "consumes (length ts) (parse_and (Suc n) ts)" if "3 * length ts + 2 \<le> Suc n"
    unfolding parse_and.simps
    by (rule consumes_bind[OF IH(1)], use that in simp, rule consumes_mono[OF IH(3)]) (use that in simp_all)
  moreover have "consumes (Suc (length ts)) (and_loop (Suc n) e ts)" if "3 * length ts + 1 \<le> Suc n"
    unfolding and_loop.simps
    by (rule loop_body_consumes; rule IH) (use that in simp_all)
  moreover have "consumes (length ts) (parse_or (Suc n) ts)" if "3 * length ts + 3 \<le> Suc n"
    unfolding parse_or.simps
    by (rule consumes_bind[OF IH(2)], use that in simp, rule consumes_mono[OF IH(5)]) (use that in simp_all)
  moreover have "consumes (Suc (length ts)) (or_loop (Suc n) e ts)" if "3 * length ts + 1 \<le> Suc n"
    unfolding or_loop.simps
    by (rule loop_body_consumes; rule IH) (use that in simp_all)
  ultimately show ?case by blast
qed simp

lemma parse_expr_error: "parse_expr s = Inl x \<Longrightarrow> parse_error x"
  using parser_consumes[of "tokenize s" "parse_fuel (tokenize s)"]
  by (auto simp: parse_expr_def Let_def parse_fuel_def consumes_def bind_result_def
      split: sum.splits list.splits)

section \<open>Printing and parsing\<close>

text \<open>
  The predicates that survive printing: a name that is one token and is not the \<^verbatim>\<open>peer\<close> sugar, the
  canonical spelling of \<^verbatim>\<open>Terminal\<close>, and an argument without white space and closing parentheses.
\<close>

definition pred_name_ok :: "string \<Rightarrow> bool" where
  "pred_name_ok n \<longleftrightarrow> n \<noteq> [] \<and> ident_start (hd n) \<and> list_all ident_char n \<and>
     find (\<lambda>k. starts_with k n) token_keywords = None \<and> str_lower n \<noteq> ''peer''"

definition pred_arg_ok :: "string \<Rightarrow> bool" where
  "pred_arg_ok v \<longleftrightarrow> v \<noteq> [] \<and> list_all (\<lambda>c. \<not> is_space c \<and> c \<noteq> CHR '')'') v"

fun printable :: "expr \<Rightarrow> bool" where
  "printable (Predicate n None) = (pred_name_ok n \<and> (str_lower n = ''terminal'' \<longrightarrow> n = ''Terminal''))"
| "printable (Predicate n (Some v)) = (pred_name_ok n \<and> str_lower n \<noteq> ''terminal'' \<and> pred_arg_ok v)"
| "printable (NotE e) = printable e"
| "printable (AndE a b) = (printable a \<and> printable b)"
| "printable (OrE a b) = (printable a \<and> printable b)"
| "printable (Ctl op e) = printable e"
| "printable (Until op a b) = (printable a \<and> printable b)"

text \<open>The tokens of a printed expression.\<close>

fun utoks :: "expr \<Rightarrow> string list" where
  "utoks (Predicate n None) = [n]"
| "utoks (Predicate n (Some v)) = [n, ''(''] @ tokenize v @ ['')'']"
| "utoks (NotE e) = ''!'' # utoks e"
| "utoks (AndE a b) = ''('' # utoks a @ ''&&'' # utoks b @ ['')'']"
| "utoks (OrE a b) = ''('' # utoks a @ ''||'' # utoks b @ ['')'']"
| "utoks (Ctl op e) = ctl_op_name op # utoks e"
| "utoks (Until op a b) = until_op_name op # ''('' # utoks a @ '','' # utoks b @ ['')'']"

definition ends_token :: "string \<Rightarrow> bool" where
  "ends_token rest \<longleftrightarrow> (case rest of [] \<Rightarrow> True | c # _ \<Rightarrow> \<not> ident_char c)"

lemma tokenize_next: "next_token s = Some (t, s') \<Longrightarrow> tokenize s = t # tokenize s'"
  by (subst tokenize.simps) simp

lemma tokenize_keyword:
  "tokenize (CHR ''('' # s) = ''('' # tokenize s" "tokenize (CHR '')'' # s) = '')'' # tokenize s"
  "tokenize (CHR ''!'' # s) = ''!'' # tokenize s" "tokenize (CHR '','' # s) = '','' # tokenize s"
  "tokenize (CHR ''&'' # CHR ''&'' # s) = ''&&'' # tokenize s"
  "tokenize (CHR ''|'' # CHR ''|'' # s) = ''||'' # tokenize s"
  by (rule tokenize_next, simp add: next_token_def token_keywords_def is_space_def ident_start_def is_alpha_def)+

lemma tokenize_op:
  "tokenize (ctl_op_name op @ s) = ctl_op_name op # tokenize s"
  "tokenize (until_op_name uop @ s) = until_op_name uop # tokenize s"
  by (cases op; rule tokenize_next, simp add: next_token_def token_keywords_def is_space_def)
    (cases uop; rule tokenize_next, simp add: next_token_def token_keywords_def is_space_def)

lemma tokenize_space: "tokenize (CHR '' '' # s) = tokenize s"
proof -
  have "next_token (CHR '' '' # s) = next_token s" by (simp add: next_token_def is_space_def)
  then show ?thesis by (subst (1 2) tokenize.simps) simp
qed

lemma starts_with_ident:
  assumes "list_all ident_char n" and "ends_token rest" and "\<not> starts_with k n"
    and "\<forall>c\<in>set (tl k). ident_char c"
  shows "n = [] \<or> \<not> starts_with k (n @ rest)"
  using assms
proof (induction k n rule: starts_with.induct)
  case (3 p ps c cs)
  show ?case
  proof (cases "ps")
    case Nil
    then show ?thesis using 3 by simp
  next
    case (Cons q qs)
    then show ?thesis using 3 by (cases cs; cases rest) (auto simp: ends_token_def)
  qed
qed auto

lemma find_keyword_ident:
  assumes "pred_name_ok n" and "ends_token rest"
  shows "find (\<lambda>k. starts_with k (n @ rest)) token_keywords = None"
proof -
  have sym: "\<not> ident_start (CHR ''|'')" "\<not> ident_start (CHR ''&'')"
    by (simp_all add: ident_start_def is_alpha_def)
  obtain c cs where n: "n = c # cs" "ident_start c" using assms(1) by (cases n) (auto simp: pred_name_ok_def)
  have "\<not> starts_with k (n @ rest)" if k: "k \<in> set token_keywords" for k
  proof (cases "\<forall>c\<in>set (tl k). ident_char c")
    case True
    then show ?thesis
      using starts_with_ident[of n rest k] assms k by (auto simp: pred_name_ok_def find_None_iff)
  next
    case False
    moreover have "list_all (\<lambda>k. list_all ident_char (tl k) \<or> k = ''||'' \<or> k = ''&&'') token_keywords" by code_simp
    ultimately have "k = ''||'' \<or> k = ''&&''" using k by (auto simp: list_all_iff)
    then show ?thesis using n sym by auto
  qed
  then show ?thesis by (simp add: find_None_iff)
qed

lemma tokenize_ident:
  assumes "pred_name_ok n" and "ends_token rest"
  shows "tokenize (n @ rest) = n # tokenize rest"
proof (rule tokenize_next)
  obtain c cs where n: "n = c # cs" using assms(1) by (cases n) (auto simp: pred_name_ok_def)
  have c: "ident_char c" "ident_start c" "\<forall>x\<in>set cs. ident_char x"
    using assms(1) by (simp_all add: pred_name_ok_def n list_all_iff)
  have "takeWhile ident_char (cs @ rest) = cs \<and> dropWhile ident_char (cs @ rest) = rest"
    using c(3) assms(2) by (cases rest) (simp_all add: ends_token_def takeWhile_append2 dropWhile_append2)
  then show "next_token (n @ rest) = Some (n, rest)"
    using c find_keyword_ident[OF assms] ident_char_not_space[OF c(1)] by (simp add: next_token_def n)
qed

lemma starts_with_stop: "c \<notin> set k \<Longrightarrow> starts_with k (v @ c # s) \<longleftrightarrow> starts_with k v"
  by (induction k v rule: starts_with.induct) auto

lemma dropWhile_tail: "\<not> P x \<Longrightarrow> dropWhile P (xs @ x # l) = dropWhile P xs @ x # l"
  by (induction xs) auto

lemma tokenize_arg:
  assumes "list_all (\<lambda>c. \<not> is_space c \<and> c \<noteq> CHR '')'') v"
  shows "tokenize (v @ CHR '')'' # s) = tokenize v @ tokenize (CHR '')'' # s)"
  using assms
proof (induction v rule: tokenize.induct)
  case (1 v)
  show ?case
  proof (cases v)
    case Nil
    then show ?thesis by (subst (2) tokenize.simps) (simp add: next_token_def)
  next
    case (Cons c cs)
    note arg = 1(2)
    have kw: "starts_with k (v @ CHR '')'' # s) \<longleftrightarrow> starts_with k v" if k: "k \<in> set token_keywords" for k
    proof -
      have "list_all (\<lambda>k. CHR '')'' \<notin> set k \<or> k = '')'') token_keywords" by code_simp
      then consider "CHR '')'' \<notin> set k" | "k = '')''" using k unfolding list_all_iff by blast
      then show ?thesis
      proof cases
        case 1
        then show ?thesis by (rule starts_with_stop)
      next
        case 2
        then show ?thesis using arg Cons by simp
      qed
    qed
    have "next_token v \<noteq> None" using arg Cons by (simp add: next_token_def split: option.splits)
    then obtain t v' where nt: "next_token v = Some (t, v')" by auto
    have fnd: "find (\<lambda>k. starts_with k (v @ CHR '')'' # s)) token_keywords = find (\<lambda>k. starts_with k v) token_keywords"
      by (rule find_cong) (simp_all add: kw)
    have "\<not> ident_char CHR '')''" by (simp add: ident_char_def is_alpha_def is_digit_def)
    note stop = takeWhile_tail[of ident_char, OF this] dropWhile_tail[of ident_char, OF this]
    have split: "v = t @ v'" using next_token_split(1)[OF nt] arg Cons by simp
    have "next_token (v @ CHR '')'' # s) = Some (t, v' @ CHR '')'' # s)"
    proof (cases "find (\<lambda>k. starts_with k v) token_keywords")
      case None
      then show ?thesis using nt fnd arg Cons stop by (auto simp: next_token_def split: if_splits)
    next
      case (Some k)
      moreover have "k = t" using nt Some arg Cons by (simp add: next_token_def)
      moreover have "drop (length t) (v @ CHR '')'' # s) = v' @ CHR '')'' # s" by (simp add: split)
      ultimately show ?thesis using fnd arg Cons by (simp add: next_token_def)
    qed
    with split show ?thesis
      using 1 nt by (simp add: tokenize_next[OF nt] tokenize_next)
  qed
qed

lemma tokenize_unparse:
  "printable e \<Longrightarrow> ends_token rest \<Longrightarrow> tokenize (unparse e @ rest) = utoks e @ tokenize rest"
proof (induction e arbitrary: rest rule: unparse.induct)
  case (2 n v)
  have "ends_token (CHR ''('' # s)" for s by (simp add: ends_token_def ident_char_def is_alpha_def is_digit_def)
  then show ?case using 2 by (simp add: tokenize_ident tokenize_keyword tokenize_arg pred_arg_ok_def)
qed (simp_all add: tokenize_ident tokenize_keyword tokenize_op tokenize_space
    ends_token_def ident_char_def is_alpha_def is_digit_def)

lemma utoks_nonempty: "utoks e \<noteq> []"
  by (induction e rule: utoks.induct) simp_all

lemma name_tok_plain:
  assumes "pred_name_ok n"
  shows "n \<noteq> ''!''" "n \<noteq> ''NOT''" "n \<noteq> ''(''" "ctl_op_of n = None" "until_op_of n = None"
proof -
  have no: "k \<in> set token_keywords \<Longrightarrow> n \<noteq> k" for k
    using assms by (auto simp: pred_name_ok_def find_None_iff starts_with_append)
  show "n \<noteq> ''!''" "n \<noteq> ''NOT''" "n \<noteq> ''(''" by (rule no, simp add: token_keywords_def)+
  show "ctl_op_of n = None" "until_op_of n = None"
    using no[of "''EX''"] no[of "''EF''"] no[of "''EG''"] no[of "''AF''"] no[of "''AG''"] no[of "''EU''"] no[of "''AU''"]
    by (simp_all add: ctl_op_of_def until_op_of_def token_keywords_def)
qed

lemma call_value_arg:
  assumes "pred_arg_ok v"
  shows "call_value (tokenize v @ '')'' # rest) = Inr (tokenize v, rest)" "value_or_none (concat (tokenize v)) = Some v"
proof -
  have v: "\<forall>c\<in>set v. \<not> is_space c \<and> c \<noteq> CHR '')''" "v \<noteq> []" using assms by (auto simp: pred_arg_ok_def list_all_iff)
  then have cv: "concat (tokenize v) = v" by (simp add: concat_tokenize)
  have "t \<noteq> '')''" if "t \<in> set (tokenize v)" for t
  proof
    assume "t = '')''"
    with that have "CHR '')'' \<in> set (concat (tokenize v))" by force
    then show False using v cv by auto
  qed
  then show "call_value (tokenize v @ '')'' # rest) = Inr (tokenize v, rest)"
    by (simp add: call_value_def need_tok_def takeWhile_append2 dropWhile_append2)
  have keep: "dropWhile is_space u = u" if "\<forall>c\<in>set u. \<not> is_space c" for u using that by (cases u) auto
  have "dropWhile is_space v = v" "dropWhile is_space (rev v) = rev v" by (rule keep, use v(1) in simp)+
  then have "str_strip v = v" by (simp add: str_strip_def)
  then show "value_or_none (concat (tokenize v)) = Some v" using v(2) cv by (simp add: value_or_none_def)
qed

text \<open>An operand is parsed as one unary expression and the binary loops stop right after it.\<close>

definition stops :: "string list \<Rightarrow> bool" where
  "stops rest \<longleftrightarrow> (case rest of [] \<Rightarrow> True | t # _ \<Rightarrow> t \<notin> set [''('', ''&&'', ''AND'', ''||'', ''OR''])"

lemma loop_body_stops: "stops rest \<Longrightarrow> set ops \<subseteq> set [''&&'', ''AND'', ''||'', ''OR''] \<Longrightarrow>
    loop_body ops mk p again e rest = Inr (e, rest)"
  by (cases rest) (auto simp: stops_def loop_body_def)

lemma parse_or_operand:
  assumes "parse_unary (Suc n) ts = Inr (e, rest)" and "stops rest"
  shows "parse_or (Suc (Suc (Suc n))) ts = Inr (e, rest)"
  using assms by (simp add: loop_body_stops)

lemma parse_or_and:
  assumes "parse_unary (Suc (Suc k)) ts = Inr (a, ''&&'' # us)" and "parse_unary (Suc k) us = Inr (b, rest)"
    and "stops rest"
  shows "parse_or (Suc (Suc (Suc (Suc k)))) ts = Inr (AndE a b, rest)"
proof -
  have "and_loop (Suc (Suc k)) a (''&&'' # us) = Inr (AndE a b, rest)"
    using assms(2,3) by (simp add: loop_body_def[of _ _ _ _ a] loop_body_stops del: parse_unary.simps)
  then show ?thesis using assms(1,3) by (simp add: loop_body_stops del: parse_unary.simps and_loop.simps)
qed

lemma parse_or_or:
  assumes "parse_unary (Suc (Suc k)) ts = Inr (a, ''||'' # us)" and "parse_unary (Suc k) us = Inr (b, rest)"
    and "stops rest"
  shows "parse_or (Suc (Suc (Suc (Suc k)))) ts = Inr (OrE a b, rest)"
proof -
  have "parse_and (Suc (Suc k)) us = Inr (b, rest)"
    using assms(2,3) by (simp add: loop_body_stops del: parse_unary.simps)
  then have "or_loop (Suc (Suc (Suc k))) a (''||'' # us) = Inr (OrE a b, rest)"
    using assms(3) by (simp add: loop_body_def[of _ _ _ _ a] loop_body_stops del: parse_and.simps)
  moreover have "parse_and (Suc (Suc (Suc k))) ts = Inr (a, ''||'' # us)"
    using assms(1) by (simp add: loop_body_def del: parse_unary.simps)
  ultimately show ?thesis by (simp del: parse_and.simps or_loop.simps)
qed

lemma unary_body_branches:
  "unary_body pu po pp (''!'' # ts) = bind_result (pu ts) (\<lambda>(e, ts1). Inr (NotE e, ts1))"
  "unary_body pu po pp (''('' # ts) = paren_branch po ts"
  "unary_body pu po pp (ctl_op_name op # ts) = bind_result (pu ts) (\<lambda>(e, ts1). Inr (Ctl op e, ts1))"
  "unary_body pu po pp (until_op_name uop # ts) = until_branch po (until_op_name uop) uop ts"
  by (simp_all add: unary_body_def ctl_op_of_def until_op_of_def) (cases op; simp; fail | cases uop; simp)+

lemma stops_punct [simp]: "stops ('')'' # ts)" "stops ('','' # ts)"
  by (simp_all add: stops_def)

lemma parse_utoks:
  assumes "printable e" and "3 * length (utoks e) \<le> n" and "\<forall>t ts. rest = t # ts \<longrightarrow> t \<noteq> ''(''"
  shows "parse_unary n (utoks e @ rest) = Inr (e, rest)"
  using assms
proof (induction e arbitrary: n rest rule: utoks.induct)
  case (1 nm)
  then obtain m where "n = Suc m" by (cases n) auto
  then show ?case using 1 name_tok_plain[of nm]
    by (cases rest) (auto simp: unary_body_def pred_name_ok_def)
next
  case (2 nm v)
  then obtain m where "n = Suc m" by (cases n) auto
  then show ?case using 2 name_tok_plain[of nm] call_value_arg[of v]
    by (auto simp: unary_body_def pred_name_ok_def)
next
  case (3 e)
  then obtain m where "n = Suc m" by (cases n) auto
  then show ?case using 3 by (simp add: unary_body_branches)
next
  case (4 a b)
  obtain k where n: "n = Suc (Suc (Suc (Suc (Suc k))))" "3 * (length (utoks a) + length (utoks b)) \<le> k"
    using 4(4) by (intro that[of "n - 5"]) auto
  have "parse_or (Suc (Suc (Suc (Suc k)))) (utoks a @ ''&&'' # utoks b @ '')'' # rest) = Inr (AndE a b, '')'' # rest)"
    by (rule parse_or_and[OF 4(1) 4(2)]) (use 4(3) n in simp_all)
  then show ?case by (simp add: n unary_body_branches paren_branch_def need_tok_def del: parse_or.simps)
next
  case (5 a b)
  obtain k where n: "n = Suc (Suc (Suc (Suc (Suc k))))" "3 * (length (utoks a) + length (utoks b)) \<le> k"
    using 5(4) by (intro that[of "n - 5"]) auto
  have "parse_or (Suc (Suc (Suc (Suc k)))) (utoks a @ ''||'' # utoks b @ '')'' # rest) = Inr (OrE a b, '')'' # rest)"
    by (rule parse_or_or[OF 5(1) 5(2)]) (use 5(3) n in simp_all)
  then show ?case by (simp add: n unary_body_branches paren_branch_def need_tok_def del: parse_or.simps)
next
  case (6 op e)
  then obtain m where "n = Suc m" by (cases n) auto
  then show ?case using 6 by (simp add: unary_body_branches)
next
  case (7 op a b)
  obtain k where n: "n = Suc (Suc (Suc (Suc k)))" "3 * (length (utoks a) + length (utoks b)) \<le> k"
    using 7(4) by (intro that[of "n - 4"]) auto
  have "parse_or (Suc (Suc (Suc k))) (utoks a @ '','' # us) = Inr (a, '','' # us)"
    "parse_or (Suc (Suc (Suc k))) (utoks b @ '')'' # us) = Inr (b, '')'' # us)" for us
    by (rule parse_or_operand[OF 7(1)] parse_or_operand[OF 7(2)]; use 7(3) n in simp)+
  then show ?case by (simp add: n unary_body_branches until_branch_def need_tok_def del: parse_or.simps)
qed

lemma parse_unparse:
  assumes "printable e"
  shows "parse_expr (unparse e) = Inr e"
proof -
  have "tokenize [] = []" by (subst tokenize.simps) (simp add: next_token_def)
  then have toks: "tokenize (unparse e) = utoks e"
    using tokenize_unparse[OF assms, of "[]"] by (simp add: ends_token_def)
  have "parse_unary (Suc (3 * length (utoks e))) (utoks e) = Inr (e, [])"
    using parse_utoks[OF assms, of "Suc (3 * length (utoks e))" "[]"] by simp
  from parse_or_operand[OF this] have "parse_or (parse_fuel (utoks e)) (utoks e) = Inr (e, [])"
    by (simp add: parse_fuel_def stops_def eval_nat_numeral del: parse_or.simps)
  then show ?thesis by (simp add: parse_expr_def toks)
qed

section \<open>Properties\<close>

text \<open>
  C31. Printing a formula and parsing the text gives the formula back, for every expression whose
  predicates have a one-token name that is not the \<^verbatim>\<open>peer\<close> sugar and an argument without white space
  and closing parentheses.
\<close>

theorem unparse_parse_roundtrip:
  assumes "printable e"
  shows "parse_expr (unparse e) = Inr e"
  using assms by (rule parse_unparse)

definition sample_expr :: expr where
  "sample_expr = Until Op_AU (NotE (Predicate ''pending'' (Some ''OR[0].step'')))
     (AndE (Ctl Op_EG (Predicate ''Terminal'' None)) (OrE (Predicate ''has'' (Some ''a.b'')) (Predicate ''done'' (Some ''s''))))"

theorem unparse_parse_roundtrip_witness:
  "printable sample_expr \<and> parse_expr (unparse sample_expr) = Inr sample_expr"
proof -
  have "printable sample_expr" by code_simp
  then show ?thesis using unparse_parse_roundtrip[of sample_expr] by simp
qed

text \<open>
  C39. Parsing is total: every text gives an expression, or a syntax error with a message, or the
  index error of reading past the last token; and the tokens are the text without its white
  space.
\<close>

theorem parse_expr_total:
  "((\<exists>e. parse_expr s = Inr e) \<or> (\<exists>msg. parse_expr s = Inl (ValueError msg)) \<or>
    parse_expr s = Inl (IndexError ''list index out of range'')) \<and>
   concat (tokenize s) = filter (\<lambda>c. \<not> is_space c) s"
  using parse_expr_error[of s] by (cases "parse_expr s") (auto simp: parse_error_def concat_tokenize)

end
