(* ===== verification/Plan_Exploration.thy ===== *)
theory Plan_Exploration
  imports Explorer
begin

text \<open>
  Exploring the transition system of a plan: the plan adapter meets the explorer's contract,
  full hashing identifies only states with the same future, and nothing leads back to the root.
  The properties state that \<^verbatim>\<open>Explorer.run\<close> returns, that it records exactly the states reachable
  within the bound, and that \<^verbatim>\<open>path_to\<close> gives a shortest path from the root; the last section shows
  the path that is wrong when store hashing closes a cycle through the root.
\<close>

abbreviation plan_succ :: "tm_adapter \<Rightarrow> state \<Rightarrow> (string \<times> state) list" where
  "plan_succ a \<equiv> comp_succ (tm_component a)"

abbreviation plan_init :: "tm_adapter \<Rightarrow> state" where
  "plan_init a \<equiv> comp_init (tm_component a)"

text \<open>No two reachable states with different payloads share a digest.\<close>

definition collision_free :: "(payload \<Rightarrow> 'h) \<Rightarrow> hash_mode \<Rightarrow> state set \<Rightarrow> bool" where
  "collision_free H mode S \<longleftrightarrow> inj_on H (hash_payload mode ` S)"

lemma collision_free_inj: "inj H \<Longrightarrow> collision_free H mode S"
  by (auto simp: collision_free_def intro: inj_on_subset)

lemma stable_hash_eq:
  assumes "collision_free H mode S" "s \<in> S" "t \<in> S"
  shows "stable_hash H mode s = stable_hash H mode t \<longleftrightarrow> hash_payload mode s = hash_payload mode t"
  using assms by (auto simp: collision_free_def stable_hash_def inj_on_def)

section \<open>The event log determines the state of a plan\<close>

lemma plan_succ_eq:
  assumes "adapter_ok a"
  shows "successors a s = Inr (plan_succ a s)"
proof -
  obtain ss where "successors a s = Inr ss"
    using assms by (auto simp: adapter_ok_def successors_def dest: successors_of_total)
  then show ?thesis by (simp add: comp_succ_def tm_component_def)
qed

lemma plan_init_eq:
  assumes "adapter_ok a"
  shows "initial_state a = Inr (plan_init a)"
  using assms tm.initial_total[OF assms] by (auto simp: comp_init_def tm_component_def)

lemma plan_init_fields [simp]:
  assumes "adapter_ok a"
  shows "st_store (plan_init a) = ta_initial_store a" "st_events (plan_init a) = []"
  using plan_init_eq[OF assms]
  by (auto simp: initial_state_def result_simps
      dest!: sym[of _ "plan_init a"])

lemma plan_succ_step:
  assumes "adapter_ok a" and "(l, t) \<in> set (plan_succ a s)"
  shows "\<exists>spec. dict_get (pl_steps (ta_plan a)) l = Some spec \<and> run_step a s l spec = Inr t"
    and "st_events t = st_events s @ [''step:'' @ l]"
  using successors_run_step[OF plan_succ_eq[OF assms(1)] assms(2)] run_step_fields(3) by blast+

lemma plan_reachable_inv:
  assumes "adapter_ok a" and "s \<in> reachable_states (plan_init a) (plan_succ a)"
  shows "tm_inv a s"
  using assms(2)
proof (induction rule: reachable_induct)
  case init
  then show ?case using tm.initial_total[OF assms(1)] by (auto simp: comp_init_def)
next
  case (step s l t)
  then show ?case using plan_succ_step(1)[OF assms(1) step.hyps(2)] run_step_inv by blast
qed

lemma plan_events_determine:
  assumes ok: "adapter_ok a"
    and "s \<in> reachable_states (plan_init a) (plan_succ a)" "t \<in> reachable_states (plan_init a) (plan_succ a)"
    and "st_events s = st_events t"
  shows "s = t"
  using assms(2-)
proof (induction arbitrary: t rule: reachable_induct)
  case init
  have "t = plan_init a \<or> st_events t \<noteq> []" using init(1)
    by (induction rule: reachable_induct) (auto simp: plan_succ_step(2)[OF ok])
  then show ?case using init plan_init_fields(2)[OF ok] by auto
next
  case (step s l s')
  have t: "t = plan_init a \<or> (\<exists>x l'. x \<in> reachable_states (plan_init a) (plan_succ a) \<and> (l', t) \<in> set (plan_succ a x))"
    using step.prems(1) by (induction rule: reachable_induct) blast+
  have ev: "st_events t = st_events s @ [''step:'' @ l]" using plan_succ_step(2)[OF ok step.hyps(2)] step.prems(2) by simp
  with t plan_init_fields(2)[OF ok] obtain x l' where x: "x \<in> reachable_states (plan_init a) (plan_succ a)"
    "(l', t) \<in> set (plan_succ a x)" by auto
  have "st_events x = st_events s" "l' = l" using plan_succ_step(2)[OF ok x(2)] ev by simp_all
  then have "s = x" using step.IH[OF x(1)] by simp
  then show ?case using plan_succ_step(1)[OF ok x(2)] plan_succ_step(1)[OF ok step.hyps(2)] \<open>l' = l\<close> by auto
qed

lemma full_hash_inj:
  assumes "collision_free H Full S" and "\<And>s t. s \<in> S \<Longrightarrow> t \<in> S \<Longrightarrow> hash_payload Full s = hash_payload Full t \<Longrightarrow> s = t"
  shows "inj_on (stable_hash H Full) S"
  using assms by (intro inj_onI) (simp add: stable_hash_eq)

lemma plan_full_hash_inj:
  assumes "adapter_ok a" and "collision_free H Full (reachable_states (plan_init a) (plan_succ a))"
  shows "inj_on (stable_hash H Full) (reachable_states (plan_init a) (plan_succ a))"
  by (rule full_hash_inj[OF assms(2)]) (auto intro: plan_events_determine[OF assms(1)] dest: payload_full(3))

lemma root_no_predecessor:
  assumes ok: "adapter_ok a"
    and cf: "collision_free H Full (reachable_states (plan_init a) (plan_succ a))"
    and ex: "explored (plan_init a) (plan_succ a) pd (stable_hash H Full) D d r"
  shows "dict_get (ex_predecessors r) 0 = None"
proof (rule ccontr)
  assume "dict_get (ex_predecessors r) 0 \<noteq> None"
  then obtain i l where "dict_get (ex_predecessors r) 0 = Some (i, l)" by auto
  from explored_edge[OF ex explored_pred_edge[OF ex this]] obtain l t where
    t: "(l, t) \<in> set (plan_succ a (ex_states r ! i))" "i < length (ex_states r)"
      "stable_hash H Full (ex_states r ! 0) = stable_hash H Full t" by blast
  have root: "ex_states r ! 0 = plan_init a" using ex by (simp add: explored_def Let_def)
  have "t \<in> reachable_states (plan_init a) (plan_succ a)"
    using reachable_step[OF explored_reachable[OF ex t(2)]] t(1) by (auto simp: step_rel_def)
  then have "plan_init a = t" using plan_full_hash_inj[OF ok cf] t(3) root by (auto dest: inj_onD)
  then show False using plan_succ_step(2)[OF ok t(1)] plan_init_fields(2)[OF ok] by simp
qed

section \<open>A concrete plan\<close>

text \<open>
  Two facts are set one after the other and then cleared; with store hashing the third step
  leads back to the root.
\<close>

definition noop_fn :: "val \<Rightarrow> string + val" where
  "noop_fn ctx = Inr ctx"

definition cycle_plan :: plan where
  "cycle_plan = \<lparr>pl_steps =
     [(''a'', \<lparr>sp_name = ''a'', sp_reads = [], sp_writes = [''x''], sp_fn = noop_fn, sp_clears = []\<rparr>),
      (''b'', \<lparr>sp_name = ''b'', sp_reads = [''x''], sp_writes = [''y''], sp_fn = noop_fn, sp_clears = []\<rparr>),
      (''c'', \<lparr>sp_name = ''c'', sp_reads = [''y''], sp_writes = [], sp_fn = noop_fn, sp_clears = [''x'', ''y'']\<rparr>)],
     pl_rules = []\<rparr>"

definition cycle_adapter :: tm_adapter where
  "cycle_adapter = \<lparr>ta_plan = cycle_plan, ta_initial_store = [], ta_changed_paths = [],
     ta_initial_pending = [''a'', ''b'', ''c''], ta_initial_done = []\<rparr>"

definition cycle_run :: "hash_mode \<Rightarrow> (exploration_result \<times> unit) result" where
  "cycle_run mode = explorer_run id (of_component (tm_component cycle_adapter)) () 8 mode"

lemma cycle_adapter_ok: "adapter_ok cycle_adapter"
proof -
  have "selector_ok ''x''" "selector_ok ''y''" by (rule selector_ok_no_open, simp)+
  then show ?thesis by (simp add: adapter_ok_def plan_ok_def cycle_adapter_def cycle_plan_def)
qed

section \<open>Properties of the exploration of a plan\<close>

lemma plan_explored:
  assumes "adapter_ok a"
  obtains r d where "explorer_run H (of_component (tm_component a)) () D mode = Inr (r, ())"
    "explored (plan_init a) (plan_succ a) (is_deadlocked a) (stable_hash H mode) D d r"
  using tm.expl.explorer_run_explored[OF assms, of H D mode]
  by (auto simp: tm_component_def)

text \<open>
  C1. For a plan whose selectors are well formed, and a digest without collisions on the
  reachable states, exploring with full hashing returns, and the recorded states are exactly the
  states reachable in at most the given number of steps, each recorded once.
\<close>

theorem explorer_run_exact:
  assumes "adapter_ok a" and "0 \<le> D"
    and "collision_free H Full (reachable_states (plan_init a) (plan_succ a))"
  shows "\<exists>r. explorer_run H (of_component (tm_component a)) () D Full = Inr (r, ()) \<and>
    distinct (ex_states r) \<and>
    set (ex_states r) = {s. \<exists>k. int k \<le> D \<and> (step_rel (plan_succ a) ^^ k) (plan_init a) s}"
proof -
  obtain r d where run: "explorer_run H (of_component (tm_component a)) () D Full = Inr (r, ())"
    and ex: "explored (plan_init a) (plan_succ a) (is_deadlocked a) (stable_hash H Full) D d r"
    using plan_explored[OF assms(1)] by blast
  have "distinct (ex_states r)" using ex unfolding explored_def Let_def distinct_conv_nth by metis
  then show ?thesis using run explored_states[OF ex plan_full_hash_inj[OF assms(1,3)] assms(2)] by blast
qed

theorem explorer_run_exact_witness:
  "adapter_ok cycle_adapter \<and> (\<exists>r. explorer_run id (of_component (tm_component cycle_adapter)) () 8 Full = Inr (r, ()) \<and>
    distinct (ex_states r) \<and>
    set (ex_states r) = {s. \<exists>k. int k \<le> 8 \<and> (step_rel (plan_succ cycle_adapter) ^^ k) (plan_init cycle_adapter) s})"
  using explorer_run_exact[OF cycle_adapter_ok, of 8 id] cycle_adapter_ok
  by (simp add: collision_free_inj)

text \<open>
  The back-tracked path of a recorded state is a shortest path: under full hashing it starts
  at the root, follows edges of the explored graph, ends in the state, and no run of the plan
  reaches the state in fewer steps.
\<close>

theorem path_to_shortest:
  assumes "adapter_ok a" and "collision_free H Full (reachable_states (plan_init a) (plan_succ a))"
    and "explorer_run H (of_component (tm_component a)) () D Full = Inr (r, ())"
    and "target < length (ex_states r)"
  shows "path_to r target \<noteq> [] \<and> hd (path_to r target) = 0 \<and> last (path_to r target) = target \<and>
    successively (edge r) (path_to r target) \<and>
    (\<forall>k. (step_rel (plan_succ a) ^^ k) (plan_init a) (ex_states r ! target) \<longrightarrow> length (path_to r target) \<le> k + 1)"
proof -
  obtain d where ex: "explored (plan_init a) (plan_succ a) (is_deadlocked a) (stable_hash H Full) D d r"
    using plan_explored[OF assms(1), of H D Full] assms(3) by auto
  note root = root_no_predecessor[OF assms(1,2) ex]
  have "length (path_to r target) \<le> k + 1"
    if "(step_rel (plan_succ a) ^^ k) (plan_init a) (ex_states r ! target)" for k
    using explored_depth_least[OF ex plan_full_hash_inj[OF assms(1,2)] assms(4) that]
      path_to_root(2)[OF ex assms(4) root] by simp
  then show ?thesis using path_to_edges[OF ex assms(4)] path_to_root(1)[OF ex assms(4) root] by blast
qed

lemma cycle_run_full: "\<exists>r. cycle_run Full = Inr (r, ()) \<and> length (ex_states r) = 4"
proof -
  have "returns (cycle_run Full) (\<lambda>(r, _). length (ex_states r) = 4)" by code_simp
  then show ?thesis by (auto simp: returns_iff)
qed

theorem path_to_shortest_witness:
  "\<exists>r. cycle_run Full = Inr (r, ()) \<and> path_to r 3 \<noteq> [] \<and> hd (path_to r 3) = 0 \<and> last (path_to r 3) = 3 \<and>
    successively (edge r) (path_to r 3)"
proof -
  obtain r where "cycle_run Full = Inr (r, ())" "length (ex_states r) = 4" using cycle_run_full by blast
  then show ?thesis
    using path_to_shortest[OF cycle_adapter_ok collision_free_inj[OF inj_on_id], of 8 r 3]
    by (auto simp: cycle_run_def)
qed

text \<open>
  For a plan whose selectors are well formed, exploration returns under either hash mode and
  any depth bound; the listed deadlocks are exactly the recorded states that have no outgoing
  edge and satisfy the adapter's deadlock test, and none of them has a successor.
\<close>

theorem explorer_run_deadlocks:
  assumes "adapter_ok a"
  shows "\<exists>r. explorer_run H (of_component (tm_component a)) () D mode = Inr (r, ()) \<and>
    (\<forall>i. i \<in> set (ex_deadlocks r) \<longleftrightarrow>
       i < length (ex_states r) \<and> \<not> (\<exists>j. edge r i j) \<and> is_deadlocked a (ex_states r ! i)) \<and>
    (\<forall>i\<in>set (ex_deadlocks r). successors a (ex_states r ! i) = Inr [])"
proof -
  obtain r d where run: "explorer_run H (of_component (tm_component a)) () D mode = Inr (r, ())"
    and ex: "explored (plan_init a) (plan_succ a) (is_deadlocked a) (stable_hash H mode) D d r"
    using plan_explored[OF assms] by blast
  let ?rec = "recorded_succ (plan_succ a) D d (ex_states r)"
  have ok: "edges_ok (stable_hash H mode) d (ex_states r) ?rec (ex_edges r)"
    and dl: "ex_deadlocks r = filter (\<lambda>i. ?rec i = [] \<and> is_deadlocked a (ex_states r ! i)) [0..<length (ex_states r)]"
    using ex by (simp_all add: explored_def Let_def)
  have none: "?rec i = [] \<longleftrightarrow> \<not> (\<exists>j. edge r i j)" for i
    using edges_okD[OF ok, of i] unfolding edge_iff
    by (cases "dict_get (ex_edges r) i") (auto simp: list_all2_conv_all_nth)
  have dead: "\<forall>i. i \<in> set (ex_deadlocks r) \<longleftrightarrow>
       i < length (ex_states r) \<and> \<not> (\<exists>j. edge r i j) \<and> is_deadlocked a (ex_states r ! i)"
    unfolding dl by (auto simp: none)
  moreover have "successors a (ex_states r ! i) = Inr []" if "i \<in> set (ex_deadlocks r)" for i
    using dead that by (simp add: successors_def is_deadlocked_def)
  ultimately show ?thesis using run by blast
qed

theorem explorer_run_deadlocks_witness:
  "adapter_ok cycle_adapter \<and> (\<exists>r. explorer_run id (of_component (tm_component cycle_adapter)) () 8 Store = Inr (r, ()) \<and>
    (\<forall>i. i \<in> set (ex_deadlocks r) \<longleftrightarrow>
       i < length (ex_states r) \<and> \<not> (\<exists>j. edge r i j) \<and> is_deadlocked cycle_adapter (ex_states r ! i)))"
  using explorer_run_deadlocks[OF cycle_adapter_ok, of id 8 Store] cycle_adapter_ok by blast

text \<open>
  Under store hashing a cycle through the root makes the back-tracked path leave the root:
  for the plan that sets two facts and clears them, the path reported for state 1, which is one
  step from the root, starts in state 2.
\<close>

theorem path_to_misses_root:
  "\<exists>r. cycle_run Store = Inr (r, ()) \<and> edge r 0 1 \<and> path_to r 1 = [2, 0, 1] \<and> hd (path_to r 1) \<noteq> 0"
proof -
  have "returns (cycle_run Store) (\<lambda>(r, _). edge r 0 1 \<and> path_to r 1 = [2, 0, 1])" by code_simp
  then show ?thesis by (auto simp: returns_iff)
qed

end
