(* ===== verification/Verify_Report.thy ===== *)
theory Verify_Report
  imports Ctl_Syntax Plan_Exploration
begin

text \<open>
  Checking a model against the formulas of a specification (\<^verbatim>\<open>tm/verify/invariants.py\<close>,
  \<^verbatim>\<open>tm/verify/report.py\<close> and the two records of \<^verbatim>\<open>tm/verify/spec.py\<close>): state invariants with the first
  violating state, CTL properties with a counterexample path, and the report.  The properties
  relate a report to the runs of the plan: what a passing \<open>AG\<close> formula or invariant says about the
  states reachable within the depth bound.
\<close>

section \<open>Invariants\<close>

record invariant_result =
  ir_expr :: string
  ir_ok :: bool
  ir_violated_at :: "nat option"
  ir_path :: "nat list"
  ir_reason :: string

text \<open>\<^verbatim>\<open>str(exc)\<close>; a \<^verbatim>\<open>KeyError\<close> shows its argument quoted.\<close>

fun exn_str :: "exn \<Rightarrow> string" where
  "exn_str (ValueError m) = m"
| "exn_str (KeyError m) = quoted m"
| "exn_str (IndexError m) = m"
| "exn_str (TypeError m) = m"
| "exn_str (AttributeError m) = m"
| "exn_str (RuntimeError m) = m"
| "exn_str (TimeoutError m) = m"
| "exn_str OutOfFuel = []"

text \<open>The scan for the first state on which the expression is false.\<close>

fun scan_states :: "expr \<Rightarrow> (state \<Rightarrow> string list) \<Rightarrow> nat \<Rightarrow> state list \<Rightarrow> nat option result" where
  "scan_states e en idx [] = Inr None"
| "scan_states e en idx (s # ss) =
     bind_result (eval_state_expr e en s) (\<lambda>b. if \<not> b then Inr (Some idx) else scan_states e en (Suc idx) ss)"

definition check_invariant ::
  "exploration_result \<Rightarrow> (state \<Rightarrow> string list) \<Rightarrow> string \<Rightarrow> invariant_result result" where
  "check_invariant model en raw = (case parse_expr raw of
       Inl exc \<Rightarrow> Inr \<lparr>ir_expr = raw, ir_ok = False, ir_violated_at = None, ir_path = [],
                       ir_reason = ''parse error: '' @ exn_str exc\<rparr>
     | Inr e \<Rightarrow>
         if has_ctl_nodes e then
           Inr \<lparr>ir_expr = raw, ir_ok = False, ir_violated_at = None, ir_path = [],
                ir_reason = ''CTL operators are not allowed in invariants''\<rparr>
         else bind_result (scan_states e en 0 (ex_states model)) (\<lambda>violated_at.
           case violated_at of
             None \<Rightarrow> Inr \<lparr>ir_expr = raw, ir_ok = True, ir_violated_at = None, ir_path = [], ir_reason = []\<rparr>
           | Some i \<Rightarrow> Inr \<lparr>ir_expr = raw, ir_ok = False, ir_violated_at = Some i,
                            ir_path = path_to model i, ir_reason = ''violated''\<rparr>))"

definition check_invariants ::
  "string list \<Rightarrow> exploration_result \<Rightarrow> (state \<Rightarrow> string list) \<Rightarrow> invariant_result list result" where
  "check_invariants invariants model en = map_result (check_invariant model en) invariants"

section \<open>Properties and reports\<close>

record property_spec =
  ps_name :: string
  ps_formula :: string

record verify_spec =
  vs_initial_store :: "(string, val) dict"
  vs_initial_pending :: "string list"
  vs_changed_paths :: "string list"
  vs_invariants :: "string list"
  vs_properties :: "property_spec list"

record property_result =
  pr_name :: string
  pr_formula :: string
  pr_ok :: bool
  pr_counterexample :: "nat list"
  pr_reason :: string

record verify_report =
  vr_invariants :: "invariant_result list"
  vr_properties :: "property_result list"
  vr_explored_states :: nat
  vr_deadlocks :: "nat list"
  vr_hash_mode :: hash_mode
  vr_max_depth :: int

definition nearest_reachable :: "nat set \<Rightarrow> exploration_result \<Rightarrow> nat option" where
  "nearest_reachable targets model =
     (if targets = {} then None
      else List.find (\<lambda>idx. idx \<in> targets) [0..<length (ex_states model)])"

definition counterexample :: "expr \<Rightarrow> exploration_result \<Rightarrow> (state \<Rightarrow> string list) \<Rightarrow> nat list" where
  "counterexample e model en =
     (case nearest_reachable (check_ctl en model (NotE e)) model of
        None \<Rightarrow> []
      | Some target \<Rightarrow> path_to model target)"

definition check_property ::
  "exploration_result \<Rightarrow> (state \<Rightarrow> string list) \<Rightarrow> property_spec \<Rightarrow> property_result" where
  "check_property model en spec = (case parse_expr (ps_formula spec) of
       Inl exc \<Rightarrow> \<lparr>pr_name = ps_name spec, pr_formula = ps_formula spec, pr_ok = False,
                   pr_counterexample = [], pr_reason = ''parse error: '' @ exn_str exc\<rparr>
     | Inr e \<Rightarrow>
         (let ok = 0 \<in> check_ctl en model e in
          \<lparr>pr_name = ps_name spec, pr_formula = ps_formula spec, pr_ok = ok,
           pr_counterexample = (if ok then [] else counterexample e model en),
           pr_reason = (if ok then [] else ''not satisfied from initial state'')\<rparr>))"

definition check_properties ::
  "property_spec list \<Rightarrow> exploration_result \<Rightarrow> (state \<Rightarrow> string list) \<Rightarrow> property_result list" where
  "check_properties props model en = map (check_property model en) props"

definition build_report ::
  "string list \<Rightarrow> property_spec list \<Rightarrow> exploration_result \<Rightarrow> (state \<Rightarrow> string list) \<Rightarrow> verify_report result" where
  "build_report invariants properties model en =
     bind_result (check_invariants invariants model en) (\<lambda>inv_results.
       Inr \<lparr>vr_invariants = inv_results, vr_properties = check_properties properties model en,
            vr_explored_states = length (ex_states model), vr_deadlocks = ex_deadlocks model,
            vr_hash_mode = ex_hash_mode model, vr_max_depth = ex_max_depth model\<rparr>)"

section \<open>State expressions\<close>

text \<open>The truth of a state expression; it is what both evaluators compute.\<close>

fun state_holds :: "(state \<Rightarrow> string list) \<Rightarrow> expr \<Rightarrow> state \<Rightarrow> bool" where
  "state_holds en (Predicate n v) s = eval_predicate n v en s"
| "state_holds en (NotE e) s = (\<not> state_holds en e s)"
| "state_holds en (AndE a b) s = (state_holds en a s \<and> state_holds en b s)"
| "state_holds en (OrE a b) s = (state_holds en a s \<or> state_holds en b s)"
| "state_holds en (Ctl _ _) s = False"
| "state_holds en (Until _ _ _) s = False"

lemma eval_state_expr_holds: "\<not> has_ctl_nodes e \<Longrightarrow> eval_state_expr e en s = Inr (state_holds en e s)"
  by (induction e) auto

lemma holds_state: "\<not> has_ctl_nodes e \<Longrightarrow> holds en r e i \<longleftrightarrow> state_holds en e (ex_states r ! i)"
  by (induction e) auto

lemma scan_states_first:
  assumes "\<not> has_ctl_nodes e"
  shows "scan_states e en k ss = Inr (map_option (\<lambda>i. k + i) (first_index (\<lambda>s. \<not> state_holds en e s) ss))"
  by (induction ss arbitrary: k)
    (auto simp: eval_state_expr_holds[OF assms] option.map_comp comp_def intro!: option.map_cong)

lemma check_invariant_total: "\<exists>x. check_invariant model en raw = Inr x"
  by (cases "parse_expr raw") (auto simp: check_invariant_def scan_states_first split: option.splits)

lemma check_invariants_total: "\<exists>xs. check_invariants invs model en = Inr xs"
  unfolding check_invariants_def
  by (induction invs) (auto simp: result_simps, metis check_invariant_total bind_result_simps(2))

section \<open>Verdicts and runs of the plan\<close>

lemma path_through:
  assumes "successively (edge r) p" and "p \<noteq> []"
  shows "\<exists>\<pi>. is_path r \<pi> \<and> \<pi> 0 = hd p \<and> (\<exists>k. \<pi> k = last p)"
  using assms
proof (induction p)
  case (Cons x p)
  show ?case
  proof (cases "p = []")
    case True
    then show ?thesis using path_exists[of r x] by auto
  next
    case False
    with Cons obtain \<pi> k where p: "is_path r \<pi>" "\<pi> 0 = hd p" "\<pi> k = last p" by (auto simp: successively_Cons)
    have "edge r x (\<pi> 0)" using Cons.prems False p(2) by (cases p) auto
    then have "is_path r (case_nat x \<pi>)" using p(1) by (intro path_cons)
    moreover have "case_nat x \<pi> (Suc k) = last (x # p)" using p(3) False by simp
    ultimately show ?thesis by (intro exI[of _ "case_nat x \<pi>"]) (auto intro: exI[of _ "Suc k"])
  qed
qed simp

text \<open>
  For any explored system, an \<open>AG\<close> formula without nested operators holds at the root iff all recorded
  states satisfy it, and an \<open>EF\<close> formula iff some recorded state does.
\<close>

lemma recorded_on_path:
  assumes "explored init ps pd key D d r" and "i < length (ex_states r)"
  shows "\<exists>\<pi> k. is_path r \<pi> \<and> \<pi> 0 = 0 \<and> \<pi> k = i"
proof -
  obtain p where p: "p \<noteq> []" "hd p = 0" "last p = i" "successively (edge r) p"
    using root_chain[OF assms] by blast
  show ?thesis using path_through[OF p(4,1)] p(2,3) by simp
qed

lemma root_verdicts:
  assumes ex: "explored init ps pd key D d r" and e: "\<not> has_ctl_nodes e"
  shows "0 \<in> check_ctl en r (Ctl Op_AG e) \<longleftrightarrow> (\<forall>s\<in>set (ex_states r). state_holds en e s)"
    and "0 \<in> check_ctl en r (Ctl Op_EF e) \<longleftrightarrow> (\<exists>s\<in>set (ex_states r). state_holds en e s)"
proof -
  have m: "model_ok r" using ex by (rule explored_model_ok)
  have n: "0 < length (ex_states r)" using ex by (simp add: explored_def Let_def)
  note on_path = recorded_on_path[OF ex] path_bound[OF m]
  have "0 \<in> check_ctl en r (Ctl Op_AG e) \<longleftrightarrow>
      (\<forall>\<pi>. is_path r \<pi> \<and> \<pi> 0 = 0 \<longrightarrow> (\<forall>k. state_holds en e (ex_states r ! \<pi> k)))"
    using sat_holds[OF m n, of en "Ctl Op_AG e"] by (simp add: check_ctl_def holds_state[OF e])
  also have "\<dots> \<longleftrightarrow> (\<forall>i<length (ex_states r). state_holds en e (ex_states r ! i))"
    using on_path n by metis
  finally show "0 \<in> check_ctl en r (Ctl Op_AG e) \<longleftrightarrow> (\<forall>s\<in>set (ex_states r). state_holds en e s)"
    by (simp add: all_set_conv_all_nth)
  have "0 \<in> check_ctl en r (Ctl Op_EF e) \<longleftrightarrow>
      (\<exists>\<pi>. is_path r \<pi> \<and> \<pi> 0 = 0 \<and> (\<exists>k. state_holds en e (ex_states r ! \<pi> k)))"
    using sat_holds[OF m n, of en "Ctl Op_EF e"] by (simp add: check_ctl_def holds_state[OF e])
  also have "\<dots> \<longleftrightarrow> (\<exists>i<length (ex_states r). state_holds en e (ex_states r ! i))"
    using on_path n by metis
  finally show "0 \<in> check_ctl en r (Ctl Op_EF e) \<longleftrightarrow> (\<exists>s\<in>set (ex_states r). state_holds en e s)"
    by (metis in_set_conv_nth)
qed

section \<open>Properties\<close>

text \<open>
  C2. The labelling algorithm decides the path semantics: for every plan with well-formed
  selectors, hash mode and depth bound, exploration returns a graph on which \<^verbatim>\<open>check_ctl\<close> puts a
  state in the result for a formula exactly when the formula holds there over the maximal paths of
  the graph.
\<close>

theorem check_ctl_path_semantics:
  assumes "adapter_ok a"
  shows "\<exists>r. explorer_run H (of_component (tm_component a)) () D mode = Inr (r, ()) \<and>
    (\<forall>e i. i < length (ex_states r) \<longrightarrow>
       (i \<in> check_ctl (enabled_steps a) r e \<longleftrightarrow> holds (enabled_steps a) r e i))"
proof -
  obtain r d where "explorer_run H (of_component (tm_component a)) () D mode = Inr (r, ())"
    and "explored (plan_init a) (plan_succ a) (is_deadlocked a) (stable_hash H mode) D d r"
    using plan_explored[OF assms] by blast
  then show ?thesis using sat_holds[OF explored_model_ok] unfolding check_ctl_def by blast
qed

theorem check_ctl_path_semantics_witness:
  "adapter_ok cycle_adapter \<and> (\<exists>r. explorer_run id (of_component (tm_component cycle_adapter)) () 8 Store = Inr (r, ()) \<and>
    (\<forall>e i. i < length (ex_states r) \<longrightarrow>
       (i \<in> check_ctl (enabled_steps cycle_adapter) r e \<longleftrightarrow> holds (enabled_steps cycle_adapter) r e i)))"
  using check_ctl_path_semantics[OF cycle_adapter_ok, of id 8 Store] cycle_adapter_ok by blast

text \<open>
  C32. The verdict on a safety formula is about the runs of the plan: with full hashing and a
  digest without collisions, the root satisfies \<open>AG e\<close> in the explored graph, for an \<open>e\<close> without CTL
  operators, exactly when every state the plan can reach within the depth bound satisfies \<open>e\<close>.
\<close>

theorem ag_verdict_exact:
  assumes "adapter_ok a" and "0 \<le> D" and "collision_free H Full (reachable_states (plan_init a) (plan_succ a))"
    and "\<not> has_ctl_nodes e"
    and "explorer_run H (of_component (tm_component a)) () D Full = Inr (r, ())"
  shows "0 \<in> check_ctl (enabled_steps a) r (Ctl Op_AG e) \<longleftrightarrow>
    (\<forall>k s. int k \<le> D \<and> (step_rel (plan_succ a) ^^ k) (plan_init a) s \<longrightarrow>
       eval_state_expr e (enabled_steps a) s = Inr True)"
proof -
  obtain d where ex: "explored (plan_init a) (plan_succ a) (is_deadlocked a) (stable_hash H Full) D d r"
    using plan_explored[OF assms(1), of H D Full] assms(5) by auto
  show ?thesis
    using root_verdicts(1)[OF ex assms(4)] explored_states[OF ex plan_full_hash_inj[OF assms(1,3)] assms(2)]
    by (auto simp: eval_state_expr_holds[OF assms(4)])
qed

definition mutex_expr :: expr where
  "mutex_expr = OrE (NotE (Predicate ''has'' (Some ''y''))) (Predicate ''has'' (Some ''x''))"

theorem ag_verdict_exact_witness:
  "\<exists>r. cycle_run Full = Inr (r, ()) \<and> 0 \<in> check_ctl (enabled_steps cycle_adapter) r (Ctl Op_AG mutex_expr) \<and>
    (\<forall>k s. int k \<le> 8 \<and> (step_rel (plan_succ cycle_adapter) ^^ k) (plan_init cycle_adapter) s \<longrightarrow>
       eval_state_expr mutex_expr (enabled_steps cycle_adapter) s = Inr True)"
proof -
  have "returns (cycle_run Full) (\<lambda>(r, _). 0 \<in> check_ctl (enabled_steps cycle_adapter) r (Ctl Op_AG mutex_expr))"
    by code_simp
  then obtain r where r: "cycle_run Full = Inr (r, ())"
    "0 \<in> check_ctl (enabled_steps cycle_adapter) r (Ctl Op_AG mutex_expr)" by (auto simp: returns_iff)
  have "\<not> has_ctl_nodes mutex_expr" by (simp add: mutex_expr_def)
  from ag_verdict_exact[OF cycle_adapter_ok _ collision_free_inj[OF inj_on_id] this, of 8 r] r
  show ?thesis by (auto simp: cycle_run_def)
qed

text \<open>
  C33. Checking an invariant of a plan: with full hashing, a well-formed state expression passes
  exactly when it is true in every state reachable within the bound; otherwise the reported state
  violates it, the reported path runs from the root to that state, and no violation is reachable
  in fewer steps.
\<close>

theorem check_invariant_exact:
  assumes "adapter_ok a" and "0 \<le> D" and "collision_free H Full (reachable_states (plan_init a) (plan_succ a))"
    and "parse_expr raw = Inr e" and "\<not> has_ctl_nodes e"
    and "explorer_run H (of_component (tm_component a)) () D Full = Inr (r, ())"
  shows "\<exists>res. check_invariant r (enabled_steps a) raw = Inr res \<and>
    (ir_ok res \<longleftrightarrow> (\<forall>k s. int k \<le> D \<and> (step_rel (plan_succ a) ^^ k) (plan_init a) s \<longrightarrow>
       eval_state_expr e (enabled_steps a) s = Inr True)) \<and>
    (\<not> ir_ok res \<longrightarrow> (\<exists>i. ir_violated_at res = Some i \<and>
       eval_state_expr e (enabled_steps a) (ex_states r ! i) = Inr False \<and>
       hd (ir_path res) = 0 \<and> last (ir_path res) = i \<and> successively (edge r) (ir_path res) \<and>
       (\<forall>k s. int k \<le> D \<and> (step_rel (plan_succ a) ^^ k) (plan_init a) s \<and>
          eval_state_expr e (enabled_steps a) s = Inr False \<longrightarrow> length (ir_path res) \<le> k + 1)))"
proof -
  let ?en = "enabled_steps a"
  obtain d where ex: "explored (plan_init a) (plan_succ a) (is_deadlocked a) (stable_hash H Full) D d r"
    using plan_explored[OF assms(1), of H D Full] assms(6) by auto
  note ev = eval_state_expr_holds[OF assms(5)]
  note inj = plan_full_hash_inj[OF assms(1,3)]
  note all = explored_states[OF ex inj assms(2)]
  note root = root_no_predecessor[OF assms(1,3) ex]
  show ?thesis
  proof (cases "first_index (\<lambda>s. \<not> state_holds ?en e s) (ex_states r)")
    case None
    then have "check_invariant r ?en raw =
        Inr \<lparr>ir_expr = raw, ir_ok = True, ir_violated_at = None, ir_path = [], ir_reason = []\<rparr>"
      using assms(4,5) by (simp add: check_invariant_def scan_states_first)
    moreover have "\<forall>s\<in>set (ex_states r). state_holds ?en e s" using None by (simp add: first_index_None)
    ultimately show ?thesis using all by (auto simp: ev)
  next
    case (Some i)
    then have i: "i < length (ex_states r)" "\<not> state_holds ?en e (ex_states r ! i)"
      "\<And>j. j < i \<Longrightarrow> state_holds ?en e (ex_states r ! j)" by (auto simp: first_index_Some)
    have short: "length (path_to r i) \<le> k + 1"
      if k: "int k \<le> D" "(step_rel (plan_succ a) ^^ k) (plan_init a) s" "\<not> state_holds ?en e s" for k s
    proof -
      from explored_complete[OF ex inj k(2,1)] obtain j where
        j: "j < length (ex_states r)" "ex_states r ! j = s" "d j \<le> k" by blast
      then have "i \<le> j" using i(3) k(3) not_le by blast
      then have "d i \<le> d j" using ex j(1) by (simp add: explored_def Let_def)
      then show ?thesis using path_to_root(2)[OF ex i(1) root] j(3) by simp
    qed
    have "check_invariant r ?en raw = Inr \<lparr>ir_expr = raw, ir_ok = False, ir_violated_at = Some i,
        ir_path = path_to r i, ir_reason = ''violated''\<rparr>"
      using assms(4,5) Some by (simp add: check_invariant_def scan_states_first)
    moreover have "\<not> (\<forall>s\<in>set (ex_states r). state_holds ?en e s)" using i(1,2) by auto
    then have "\<exists>k s. int k \<le> D \<and> (step_rel (plan_succ a) ^^ k) (plan_init a) s \<and> \<not> state_holds ?en e s"
      using all by auto
    ultimately show ?thesis
      using i(2) short path_to_edges[OF ex i(1)] path_to_root(1)[OF ex i(1) root]
      by (simp add: ev) blast
  qed
qed

theorem check_invariant_exact_witness:
  "\<exists>r res. cycle_run Full = Inr (r, ()) \<and> check_invariant r (enabled_steps cycle_adapter) ''!has(y)'' = Inr res \<and>
    \<not> ir_ok res \<and> hd (ir_path res) = 0 \<and> ir_violated_at res = Some (last (ir_path res))"
proof -
  have p: "parse_expr ''!has(y)'' = Inr (NotE (Predicate ''has'' (Some ''y'')))" by code_simp
  have "returns (cycle_run Full) (\<lambda>(r, _). returns (check_invariant r (enabled_steps cycle_adapter) ''!has(y)'') (\<lambda>x. \<not> ir_ok x))"
    by code_simp
  then obtain r res where r: "cycle_run Full = Inr (r, ())"
    "check_invariant r (enabled_steps cycle_adapter) ''!has(y)'' = Inr res" "\<not> ir_ok res" by (auto simp: returns_iff)
  from check_invariant_exact[OF cycle_adapter_ok _ collision_free_inj[OF inj_on_id] p, of 8 r] r
  show ?thesis by (auto simp: cycle_run_def)
qed

text \<open>
  The counterexample of a failed property never leaves the initial state: with full hashing,
  whatever the formula, the reported path is the single state 0, because the negated formula is
  already true there and the nearest state is searched by index.
\<close>

theorem failed_property_path:
  assumes "adapter_ok a" and "collision_free H Full (reachable_states (plan_init a) (plan_succ a))"
    and "explorer_run H (of_component (tm_component a)) () D Full = Inr (r, ())"
    and "parse_expr (ps_formula spec) = Inr e" and "\<not> pr_ok (check_property r en spec)"
  shows "pr_counterexample (check_property r en spec) = [0]"
proof -
  obtain d where ex: "explored (plan_init a) (plan_succ a) (is_deadlocked a) (stable_hash H Full) D d r"
    using plan_explored[OF assms(1), of H D Full] assms(3) by auto
  have n: "0 < length (ex_states r)" using ex by (simp add: explored_def Let_def)
  have "0 \<notin> check_ctl en r e" using assms(4,5) by (simp add: check_property_def Let_def)
  then have neg: "0 \<in> check_ctl en r (NotE e)" using n by (simp add: check_ctl_def all_states_def)
  then have "nearest_reachable (check_ctl en r (NotE e)) r = Some 0"
    using n by (auto simp: nearest_reachable_def upt_conv_Cons)
  moreover have "path_to r 0 = [0]"
    using n root_no_predecessor[OF assms(1,2) ex] by (simp add: path_to_def path_back.simps)
  ultimately show ?thesis using \<open>0 \<notin> check_ctl en r e\<close> assms(4)
    by (simp add: check_property_def counterexample_def)
qed

definition no_y_spec :: property_spec where
  "no_y_spec = \<lparr>ps_name = ''no_y'', ps_formula = ''AG !has(y)''\<rparr>"

theorem failed_property_path_witness:
  "\<exists>r. cycle_run Full = Inr (r, ()) \<and> \<not> pr_ok (check_property r (enabled_steps cycle_adapter) no_y_spec) \<and>
    pr_counterexample (check_property r (enabled_steps cycle_adapter) no_y_spec) = [0]"
proof -
  have p: "parse_expr (ps_formula no_y_spec) = Inr (Ctl Op_AG (NotE (Predicate ''has'' (Some ''y''))))" by code_simp
  have "returns (cycle_run Full) (\<lambda>(r, _). \<not> pr_ok (check_property r (enabled_steps cycle_adapter) no_y_spec))"
    by code_simp
  then obtain r where r: "cycle_run Full = Inr (r, ())"
    "\<not> pr_ok (check_property r (enabled_steps cycle_adapter) no_y_spec)" by (auto simp: returns_iff)
  from failed_property_path[OF cycle_adapter_ok collision_free_inj[OF inj_on_id] _ p, of 8 r] r
  show ?thesis by (auto simp: cycle_run_def)
qed

text \<open>
  The documented equivalence of \<open>EU(true, q)\<close> and \<open>EF q\<close> fails in the formula language: \<^verbatim>\<open>true\<close> is
  an unknown predicate, which is false everywhere, so on the concrete plan the root satisfies
  \<^verbatim>\<open>EF has(y)\<close> but not \<^verbatim>\<open>EU(true, has(y))\<close>.
\<close>

theorem until_true_is_not_ef:
  "\<exists>r ef eu. cycle_run Full = Inr (r, ()) \<and>
    parse_expr ''EF has(y)'' = Inr ef \<and> 0 \<in> check_ctl (enabled_steps cycle_adapter) r ef \<and>
    parse_expr ''EU(true, has(y))'' = Inr eu \<and> 0 \<notin> check_ctl (enabled_steps cycle_adapter) r eu"
proof -
  have "returns (cycle_run Full) (\<lambda>(r, _). returns (parse_expr ''EF has(y)'') (\<lambda>ef.
      returns (parse_expr ''EU(true, has(y))'') (\<lambda>eu.
        0 \<in> check_ctl (enabled_steps cycle_adapter) r ef \<and> 0 \<notin> check_ctl (enabled_steps cycle_adapter) r eu)))"
    by code_simp
  then show ?thesis by (auto simp: returns_iff)
qed

text \<open>
  Two steps set the same fact, one of them also clears a fact that is not there yet.  The stores
  after either step are equal, but only one of the two queues still holds the clearing step.
\<close>

definition lossy_adapter :: tm_adapter where
  "lossy_adapter = \<lparr>ta_plan = \<lparr>pl_steps =
       [(''a'', \<lparr>sp_name = ''a'', sp_reads = [], sp_writes = [''x''], sp_fn = noop_fn, sp_clears = [''k'']\<rparr>),
        (''b'', \<lparr>sp_name = ''b'', sp_reads = [], sp_writes = [''x''], sp_fn = noop_fn, sp_clears = []\<rparr>),
        (''c'', \<lparr>sp_name = ''c'', sp_reads = [''x''], sp_writes = [''k'', ''j''], sp_fn = noop_fn, sp_clears = []\<rparr>)],
       pl_rules = []\<rparr>,
     ta_initial_store = [], ta_changed_paths = [], ta_initial_pending = [''a'', ''b'', ''c''], ta_initial_done = []\<rparr>"

definition lossy_run :: "hash_mode \<Rightarrow> (exploration_result \<times> unit) result" where
  "lossy_run mode = explorer_run id (of_component (tm_component lossy_adapter)) () 8 mode"

text \<open>
  Store hashing is not sound even for formulas over store facts: for a concrete plan the
  formula \<^verbatim>\<open>AG (!has(j) || has(k))\<close> fails with full hashing and passes with store hashing, because
  states with equal stores and different queues are merged.
\<close>

theorem store_hash_unsound_for_facts:
  "\<exists>e full store. parse_expr ''AG (!has(j) || has(k))'' = Inr e \<and>
    lossy_run Full = Inr (full, ()) \<and> 0 \<notin> check_ctl (enabled_steps lossy_adapter) full e \<and>
    lossy_run Store = Inr (store, ()) \<and> 0 \<in> check_ctl (enabled_steps lossy_adapter) store e"
proof -
  have "returns (parse_expr ''AG (!has(j) || has(k))'') (\<lambda>e.
      returns (lossy_run Full) (\<lambda>(full, _). returns (lossy_run Store) (\<lambda>(store, _).
        0 \<notin> check_ctl (enabled_steps lossy_adapter) full e \<and> 0 \<in> check_ctl (enabled_steps lossy_adapter) store e)))"
    by code_simp
  then show ?thesis by (auto simp: returns_iff)
qed

end
