(* ===== verification/Bundles.thy ===== *)
theory Bundles
  imports Verify_Report Py_Values
begin

text \<open>
  Verification models declared in a bundle (\<^verbatim>\<open>tm/verify/bundle_adapter.py\<close>): reading the steps, rules
  and the specification out of \<^verbatim>\<open>meta.verify\<close>.  Documents are values as \<^verbatim>\<open>json\<close> or \<^verbatim>\<open>yaml\<close> give them,
  with string keys.  The text of a float, a list or a mapping under \<^verbatim>\<open>str\<close> is the parameter \<open>rep\<close>; a
  non-mapping \<^verbatim>\<open>initial_store\<close> raises.
\<close>

record agent_bundle =
  ab_bundle_id :: string
  ab_meta :: "(string, val) dict"

section \<open>Plans and specifications\<close>

text \<open>\<^verbatim>\<open>[str(x) for x in (d.get(k) or [])]\<close>.\<close>

definition str_list :: "(val \<Rightarrow> string) \<Rightarrow> (string, val) dict \<Rightarrow> string \<Rightarrow> string list result" where
  "str_list rep d k = bind_result (iter_val (get_or d k (VList []))) (\<lambda>xs. Inr (map (py_str rep) xs))"

definition step_from_meta :: "(val \<Rightarrow> string) \<Rightarrow> string \<times> val \<Rightarrow> (string \<times> step_spec) result" where
  "step_from_meta rep nv = (case nv of (name, raw) \<Rightarrow> (case raw of
       VDict d \<Rightarrow>
         bind_result (str_list rep d ''reads'') (\<lambda>reads.
         bind_result (str_list rep d ''writes'') (\<lambda>writes.
         bind_result (str_list rep d ''clears'') (\<lambda>clears.
           Inr (name, \<lparr>sp_name = name, sp_reads = reads, sp_writes = writes, sp_fn = noop_fn, sp_clears = clears\<rparr>))))
     | _ \<Rightarrow> Inl (ValueError (''meta.verify.steps['' @ quoted name @ ''] must be a mapping''))))"

definition rule_from_meta :: "(val \<Rightarrow> string) \<Rightarrow> val \<Rightarrow> rule result" where
  "rule_from_meta rep raw = (case raw of
       VDict d \<Rightarrow>
         bind_result (str_list rep d ''triggers'') (\<lambda>triggers.
         bind_result (str_list rep d ''steps'') (\<lambda>steps.
           Inr \<lparr>ru_name = py_str rep (get_or d ''name'' (VStr ''rule'')), ru_triggers = triggers, ru_steps = steps\<rparr>))
     | _ \<Rightarrow> Inl (ValueError ''each meta.verify.rules entry must be a mapping''))"

definition plan_from_verify_meta :: "(val \<Rightarrow> string) \<Rightarrow> (string, val) dict \<Rightarrow> plan result" where
  "plan_from_verify_meta rep meta =
     (case get_or meta ''steps'' (VDict []) of
        VDict steps_raw \<Rightarrow>
          bind_result (map_result (step_from_meta rep) steps_raw) (\<lambda>steps.
          bind_result
            (case get_or meta ''rules'' (VList []) of
               VList rules_raw \<Rightarrow> map_result (rule_from_meta rep) rules_raw
             | _ \<Rightarrow> Inl (ValueError ''meta.verify.rules must be a sequence''))
            (\<lambda>rules.
               if steps = [] then Inl (ValueError ''meta.verify.steps must contain at least one step'')
               else Inr \<lparr>pl_steps = steps, pl_rules = rules\<rparr>))
      | _ \<Rightarrow> Inl (ValueError ''meta.verify.steps must be a mapping''))"

text \<open>Entries that are not mappings are skipped but still counted.\<close>

fun properties_from :: "(val \<Rightarrow> string) \<Rightarrow> nat \<Rightarrow> val list \<Rightarrow> property_spec list" where
  "properties_from rep i [] = []"
| "properties_from rep i (entry # rest) =
     (case entry of
        VDict d \<Rightarrow> \<lparr>ps_name = py_str rep (get_or d ''name'' (VStr (''property_'' @ str_nat i))),
                    ps_formula = py_str rep (get_or d ''formula'' (VStr []))\<rparr> # properties_from rep (Suc i) rest
      | _ \<Rightarrow> properties_from rep (Suc i) rest)"

definition store_from :: "val \<Rightarrow> (string, val) dict result" where
  "store_from v = (case v of
       VDict d \<Rightarrow> Inr d
     | _ \<Rightarrow> Inl (TypeError (quoted (type_name v) @ '' object is not a mapping'')))"

definition verify_meta :: "agent_bundle \<Rightarrow> (string, val) dict result" where
  "verify_meta body = (case dict_get (ab_meta body) ''verify'' of
       Some (VDict meta) \<Rightarrow> Inr meta
     | _ \<Rightarrow> Inl (ValueError (''bundle '' @ quoted (ab_bundle_id body) @ '' missing meta.verify mapping'')))"

definition verify_spec_from_bundle :: "(val \<Rightarrow> string) \<Rightarrow> agent_bundle \<Rightarrow> verify_spec result" where
  "verify_spec_from_bundle rep body =
     bind_result (verify_meta body) (\<lambda>meta.
       let properties = (case get_or meta ''properties'' (VList []) of
             VList raw \<Rightarrow> properties_from rep 0 raw | _ \<Rightarrow> []) in
       bind_result (store_from (get_or meta ''initial_store'' (VDict []))) (\<lambda>store.
       bind_result (str_list rep meta ''initial_pending'') (\<lambda>pending.
       bind_result (str_list rep meta ''changed_paths'') (\<lambda>changed.
       bind_result (str_list rep meta ''invariants'') (\<lambda>invs.
         Inr \<lparr>vs_initial_store = store, vs_initial_pending = pending, vs_changed_paths = changed,
              vs_invariants = invs, vs_properties = properties\<rparr>)))))"

definition adapter_from_bundle :: "(val \<Rightarrow> string) \<Rightarrow> agent_bundle \<Rightarrow> tm_adapter result" where
  "adapter_from_bundle rep body =
     bind_result (verify_meta body) (\<lambda>meta.
     bind_result (plan_from_verify_meta rep meta) (\<lambda>pl.
     bind_result (verify_spec_from_bundle rep body) (\<lambda>spec.
       from_plan pl (vs_initial_store spec) (vs_changed_paths spec) (vs_initial_pending spec) [])))"

section \<open>Bundles written in the documented format\<close>

definition strs :: "string list \<Rightarrow> val" where
  "strs xs = VList (map VStr xs)"

definition step_meta :: "string \<times> step_spec \<Rightarrow> string \<times> val" where
  "step_meta ns = (fst ns, VDict [(''reads'', strs (sp_reads (snd ns))), (''writes'', strs (sp_writes (snd ns))),
     (''clears'', strs (sp_clears (snd ns)))])"

definition rule_meta :: "rule \<Rightarrow> val" where
  "rule_meta r = VDict [(''name'', VStr (ru_name r)), (''triggers'', strs (ru_triggers r)), (''steps'', strs (ru_steps r))]"

definition bundle_of_plan ::
  "string \<Rightarrow> plan \<Rightarrow> (string, val) dict \<Rightarrow> string list \<Rightarrow> string list \<Rightarrow> agent_bundle" where
  "bundle_of_plan bid pl store changed pending = \<lparr>ab_bundle_id = bid, ab_meta = [(''verify'', VDict
     [(''initial_store'', VDict store), (''changed_paths'', strs changed), (''initial_pending'', strs pending),
      (''steps'', VDict (map step_meta (pl_steps pl))), (''rules'', VList (map rule_meta (pl_rules pl)))])]\<rparr>"

text \<open>A plan a bundle can declare: it has steps, they are stored under their names and do nothing.\<close>

definition declarable :: "plan \<Rightarrow> bool" where
  "declarable pl \<longleftrightarrow> pl_steps pl \<noteq> [] \<and>
     (\<forall>(name, spec)\<in>set (pl_steps pl). sp_name spec = name \<and> sp_fn spec = noop_fn) \<and>
     (\<forall>r\<in>set (pl_rules pl). ru_name r \<noteq> [])"

lemma str_list_strs: "dict_get d k = Some (strs xs) \<Longrightarrow> str_list rep d k = Inr xs"
  by (simp add: str_list_def get_or_def strs_def iter_val_def py_str_def comp_def)

lemma str_list_absent: "dict_get d k = None \<Longrightarrow> str_list rep d k = Inr []"
  by (simp add: str_list_def get_or_def iter_val_def)

lemma step_from_meta_meta:
  "sp_name spec = name \<Longrightarrow> sp_fn spec = noop_fn \<Longrightarrow> step_from_meta rep (step_meta (name, spec)) = Inr (name, spec)"
  by (simp add: step_from_meta_def step_meta_def str_list_strs)

lemma rule_from_meta_meta: "ru_name r \<noteq> [] \<Longrightarrow> rule_from_meta rep (rule_meta r) = Inr r"
  by (simp add: rule_from_meta_def rule_meta_def str_list_strs get_or_def py_str_def)

lemma map_result_inverse:
  assumes "\<And>x. x \<in> set xs \<Longrightarrow> f (g x) = Inr x"
  shows "map_result f (map g xs) = Inr xs"
  using assms by (induction xs) simp_all

lemma plan_from_bundle:
  assumes "declarable pl"
  shows "\<exists>meta. verify_meta (bundle_of_plan bid pl store changed pending) = Inr meta \<and>
    plan_from_verify_meta rep meta = Inr pl \<and>
    verify_spec_from_bundle rep (bundle_of_plan bid pl store changed pending) =
      Inr \<lparr>vs_initial_store = store, vs_initial_pending = pending, vs_changed_paths = changed,
           vs_invariants = [], vs_properties = []\<rparr>"
proof -
  have steps: "map_result (step_from_meta rep) (map step_meta (pl_steps pl)) = Inr (pl_steps pl)"
    by (rule map_result_inverse) (use assms in \<open>auto simp: declarable_def intro!: step_from_meta_meta\<close>)
  have rules: "map_result (rule_from_meta rep) (map rule_meta (pl_rules pl)) = Inr (pl_rules pl)"
    by (rule map_result_inverse) (use assms in \<open>auto simp: declarable_def intro!: rule_from_meta_meta\<close>)
  have ne: "pl_steps pl \<noteq> []" using assms by (simp add: declarable_def)
  have store: "store_from (get_or [(''initial_store'', VDict store), x, y, z, w] ''initial_store'' (VDict [])) = Inr store"
    for x y z w
    by (simp add: get_or_def store_from_def)
  show ?thesis
    using steps rules ne
    by (simp add: verify_meta_def bundle_of_plan_def plan_from_verify_meta_def verify_spec_from_bundle_def
        store str_list_strs str_list_absent Let_def) (simp add: get_or_def)
qed

text \<open>
  Reading a bundle back: a plan written in the documented \<^verbatim>\<open>meta.verify\<close> format, with its initial
  store, changed paths and pending steps, is read by \<^verbatim>\<open>adapter_from_bundle\<close> as the adapter of exactly
  this plan, store and pending list, whatever the rendering of non-string values.
\<close>

theorem bundle_roundtrip:
  assumes "declarable pl" and "map_result selector_to_path changed = Inr paths"
  shows "adapter_from_bundle rep (bundle_of_plan bid pl store changed pending) =
    Inr \<lparr>ta_plan = pl, ta_initial_store = store, ta_changed_paths = paths,
         ta_initial_pending = pending, ta_initial_done = []\<rparr>"
  using plan_from_bundle[OF assms(1), of bid store changed pending rep] assms(2)
  by (auto simp: adapter_from_bundle_def from_plan_def)

theorem bundle_roundtrip_witness:
  "adapter_from_bundle (\<lambda>_. []) (bundle_of_plan ''demo'' cycle_plan [] [''x''] [''a'', ''b'', ''c'']) =
    Inr \<lparr>ta_plan = cycle_plan, ta_initial_store = [], ta_changed_paths = [[PStr ''x'']],
         ta_initial_pending = [''a'', ''b'', ''c''], ta_initial_done = []\<rparr>"
proof -
  have "declarable cycle_plan" by (simp add: declarable_def cycle_plan_def)
  moreover have "map_result selector_to_path [''x''] = Inr [[PStr ''x'']]"
    by (simp add: selector_to_path_def parse_selector_plain token_to_pel_def bracketed_def)
  ultimately show ?thesis by (rule bundle_roundtrip)
qed

end
