(* ===== verification/Joint.thy ===== *)
theory Joint
  imports Plan_Exploration
begin

text \<open>
  The asynchronous product (\<^verbatim>\<open>JointAdapter\<close> of \<^verbatim>\<open>tm/verify/joint.py\<close>).  A joint state is the list of
  the component states; the explorer sees its projection, one state with every fact, step and
  event under its component's prefix.  The adapter finds the joint state of a projection in a memo
  keyed by the full digest, which the operations thread.  The last section shows that with
  prefix-free ids and a digest without collisions the product meets the explorer's contract.
\<close>

section \<open>Projection\<close>

definition prefixed :: "string \<Rightarrow> string \<Rightarrow> string" where
  "prefixed cid k = cid @ ''.'' @ k"

definition project :: "state list \<Rightarrow> string list \<Rightarrow> state" where
  "project comps ids =
     \<lparr>st_store = foldl (\<lambda>d (cid, comp). foldl (\<lambda>d (k, v). dict_set (prefixed cid k) v d) d (st_store comp)) [] (zip ids comps),
      st_pending = concat (map (\<lambda>(cid, comp). map (prefixed cid) (st_pending comp)) (zip ids comps)),
      st_done = concat (map (\<lambda>(cid, comp). map (prefixed cid) (st_done comp)) (zip ids comps)),
      st_events = concat (map (\<lambda>(cid, comp). map (prefixed cid) (st_events comp)) (zip ids comps))\<rparr>"

section \<open>The adapter\<close>

record joint_adapter =
  ja_components :: "component list"
  ja_ids :: "string list"

record joint_state =
  js_components :: "state list"
  js_ids :: "string list"

type_synonym 'h joint_memo = "('h, state list) dict"

definition mk_joint_state :: "state list \<Rightarrow> string list \<Rightarrow> joint_state result" where
  "mk_joint_state comps ids =
     (if length comps \<noteq> length ids then Inl (ValueError ''components and component_ids must have the same length'')
      else Inr \<lparr>js_components = comps, js_ids = ids\<rparr>)"

definition from_components :: "component list \<Rightarrow> string list option \<Rightarrow> joint_adapter result" where
  "from_components comps component_ids =
     (if comps = [] then Inl (ValueError ''JointAdapter requires at least one component'')
      else case component_ids of
        None \<Rightarrow> Inr \<lparr>ja_components = comps, ja_ids = map (\<lambda>i. ''agent'' @ str_nat i) [0..<length comps]\<rparr>
      | Some ids \<Rightarrow>
          if length ids \<noteq> length comps then
            Inl (ValueError (''component_ids length '' @ str_nat (length ids) @ '' != component count '' @ str_nat (length comps)))
          else if \<not> distinct ids then Inl (ValueError ''component_ids must be unique'')
          else if [] \<in> set ids then Inl (ValueError (''component_id must be non-empty, got '' @ [CHR 0x27, CHR 0x27]))
          else Inr \<lparr>ja_components = comps, ja_ids = ids\<rparr>)"

text \<open>The message of the error is shortened: it leaves out the first digits of the hash and the advice after it.\<close>

definition lookup_joint :: "(payload \<Rightarrow> 'h) \<Rightarrow> 'h joint_memo \<Rightarrow> state \<Rightarrow> state list result" where
  "lookup_joint H memo s = (case dict_get memo (stable_hash H Full s) of
       None \<Rightarrow> Inl (KeyError ''JointAdapter cannot reconstruct joint state'')
     | Some js \<Rightarrow> Inr js)"

definition joint_initial :: "(payload \<Rightarrow> 'h) \<Rightarrow> joint_adapter \<Rightarrow> 'h joint_memo \<Rightarrow> (state \<times> 'h joint_memo) result" where
  "joint_initial H A memo = bind_result (map_result co_initial (ja_components A)) (\<lambda>js.
     let projected = project js (ja_ids A)
     in Inr (projected, dict_set (stable_hash H Full projected) js memo))"

text \<open>The labelled joint states one component move away, in the order of the nested loops.\<close>

definition joint_moves :: "joint_adapter \<Rightarrow> state list \<Rightarrow> (string \<times> state list) list result" where
  "joint_moves A js = bind_result
     (map_result (\<lambda>(i, comp, cid, cs). bind_result (co_successors comp cs)
         (\<lambda>ss. Inr (map (\<lambda>(label, nxt). (cid @ '':'' @ label, js[i := nxt])) ss)))
       (zip [0..<length js] (zip (ja_components A) (zip (ja_ids A) js))))
     (\<lambda>ms. Inr (concat ms))"

definition remember :: "(payload \<Rightarrow> 'h) \<Rightarrow> string list \<Rightarrow> 'h joint_memo \<Rightarrow> string \<times> state list \<Rightarrow> 'h joint_memo" where
  "remember H ids memo m = dict_set (stable_hash H Full (project (snd m) ids)) (snd m) memo"

definition joint_successors ::
  "(payload \<Rightarrow> 'h) \<Rightarrow> joint_adapter \<Rightarrow> 'h joint_memo \<Rightarrow> state \<Rightarrow> ((string \<times> state) list \<times> 'h joint_memo) result" where
  "joint_successors H A memo s =
     bind_result (lookup_joint H memo s) (\<lambda>js.
     bind_result (joint_moves A js) (\<lambda>ms.
       Inr (map (\<lambda>(label, new_joint). (label, project new_joint (ja_ids A))) ms,
            foldl (remember H (ja_ids A)) memo ms)))"

definition joint_steps :: "joint_adapter \<Rightarrow> state list \<Rightarrow> string list" where
  "joint_steps A js = concat (map (\<lambda>(comp, cid, cs). map (prefixed cid) (co_enabled comp cs))
     (zip (ja_components A) (zip (ja_ids A) js)))"

definition joint_enabled :: "(payload \<Rightarrow> 'h) \<Rightarrow> joint_adapter \<Rightarrow> 'h joint_memo \<Rightarrow> state \<Rightarrow> string list" where
  "joint_enabled H A memo s = (case lookup_joint H memo s of Inl _ \<Rightarrow> [] | Inr js \<Rightarrow> joint_steps A js)"

definition joint_deadlocked :: "(payload \<Rightarrow> 'h) \<Rightarrow> joint_adapter \<Rightarrow> 'h joint_memo \<Rightarrow> state \<Rightarrow> bool" where
  "joint_deadlocked H A memo s \<longleftrightarrow> length (st_pending s) > 0 \<and> joint_enabled H A memo s = []"

definition joint_state_of :: "(payload \<Rightarrow> 'h) \<Rightarrow> joint_adapter \<Rightarrow> 'h joint_memo \<Rightarrow> state \<Rightarrow> joint_state result" where
  "joint_state_of H A memo s = bind_result (lookup_joint H memo s) (\<lambda>js. mk_joint_state js (ja_ids A))"

definition joint_ex :: "(payload \<Rightarrow> 'h) \<Rightarrow> joint_adapter \<Rightarrow> 'h joint_memo ex_adapter" where
  "joint_ex H A = \<lparr>ea_initial = joint_initial H A, ea_successors = joint_successors H A,
     ea_deadlocked = joint_deadlocked H A, ea_enabled = joint_enabled H A\<rparr>"

section \<open>Reading a projection\<close>

text \<open>Ids none of which, followed by a dot, starts another one.\<close>

definition ids_ok :: "string list \<Rightarrow> bool" where
  "ids_ok ids \<longleftrightarrow> (\<forall>i<length ids. \<forall>j<length ids. i \<noteq> j \<longrightarrow> \<not> starts_with (prefixed (ids ! i) []) (prefixed (ids ! j) []))"

definition has_prefix :: "string \<Rightarrow> string \<Rightarrow> bool" where
  "has_prefix cid k = starts_with (prefixed cid []) k"

lemma has_prefix_self [simp]: "has_prefix cid (prefixed cid k)"
  by (auto simp: has_prefix_def prefixed_def starts_with_append)

lemma prefixed_inject [simp]: "prefixed cid k = prefixed cid k' \<longleftrightarrow> k = k'"
  by (simp add: prefixed_def)

lemma inj_prefixed: "inj_on (prefixed cid) S"
  by (simp add: inj_on_def)

lemma append_overlap: "xs @ ys = zs @ ts \<Longrightarrow> (\<exists>us. xs = zs @ us) \<or> (\<exists>us. zs = xs @ us)"
  by (auto simp: append_eq_append_conv2)

lemma has_prefix_other:
  assumes "ids_ok ids" "i < length ids" "j < length ids" "i \<noteq> j"
  shows "\<not> has_prefix (ids ! i) (prefixed (ids ! j) k)"
proof
  assume "has_prefix (ids ! i) (prefixed (ids ! j) k)"
  then obtain t where "ids ! j @ ''.'' @ k = (ids ! i @ ''.'') @ t"
    by (auto simp: has_prefix_def starts_with_append prefixed_def)
  then have "(ids ! j @ ''.'') @ k = (ids ! i @ ''.'') @ t" by simp
  from append_overlap[OF this]
  have "(\<exists>us. ids ! j @ ''.'' = (ids ! i @ ''.'') @ us) \<or> (\<exists>us. ids ! i @ ''.'' = (ids ! j @ ''.'') @ us)" .
  then have "starts_with (prefixed (ids ! i) []) (prefixed (ids ! j) []) \<or>
      starts_with (prefixed (ids ! j) []) (prefixed (ids ! i) [])"
    by (auto simp: prefixed_def starts_with_append)
  then show False using assms unfolding ids_ok_def by blast
qed

text \<open>The entries of one component, out of a concatenation of prefixed entries.\<close>

lemma filter_concat_component:
  assumes ids: "ids_ok ids" and len: "length comps = length ids" and i: "i < length ids"
    and key: "\<And>cid x. key (f cid x) = prefixed cid (g x)"
  shows "filter (\<lambda>y. has_prefix (ids ! i) (key y)) (concat (map (\<lambda>(cid, comp). map (f cid) (h comp)) (zip ids comps))) =
    map (f (ids ! i)) (h (comps ! i))"
proof -
  let ?P = "\<lambda>y. has_prefix (ids ! i) (key y)" and ?z = "zip ids comps"
  have at_i: "filter ?P (map (f (ids ! i)) (h (comps ! i))) = map (f (ids ! i)) (h (comps ! i))"
    by (simp add: filter_map comp_def key filter_id_conv)
  have off: "filter ?P (map (f (ids ! j)) (h (comps ! j))) = []" if "j < length ids" "j \<noteq> i" for j
    using has_prefix_other[OF ids i that(1)] that(2) by (auto simp: filter_empty_conv key)
  have "filter ?P (concat (map (\<lambda>(cid, comp). map (f cid) (h comp)) ?z)) =
      concat (map (\<lambda>j. filter ?P (map (f (ids ! j)) (h (comps ! j)))) [0..<length ids])"
    unfolding filter_concat map_map
    by (intro arg_cong[where f = concat] nth_equalityI) (auto simp: len)
  also have "[0..<length ids] = [0..<i] @ i # [Suc i..<length ids]" 
    using i upt_add_eq_append[of 0 i "length ids - i"] by (simp add: upt_conv_Cons)
  also have "concat (map (\<lambda>j. filter ?P (map (f (ids ! j)) (h (comps ! j)))) ([0..<i] @ i # [Suc i..<length ids])) =
      map (f (ids ! i)) (h (comps ! i))"
  proof -
    have none: "concat (map (\<lambda>j. filter ?P (map (f (ids ! j)) (h (comps ! j)))) js) = []"
      if "\<forall>j\<in>set js. j < length ids \<and> j \<noteq> i" for js
      unfolding concat_eq_Nil_conv set_map using off that by blast
    have "concat (map (\<lambda>j. filter ?P (map (f (ids ! j)) (h (comps ! j)))) [0..<i]) = []"
      "concat (map (\<lambda>j. filter ?P (map (f (ids ! j)) (h (comps ! j)))) [Suc i..<length ids]) = []"
      by (rule none[of "[0..<i]"] none[of "[Suc i..<length ids]"], use i in simp)+
    then show ?thesis by (simp only: map_append concat_append list.map concat.simps at_i append_Nil append_Nil2)
  qed
  finally show ?thesis .
qed

lemma dict_get_foldl_set:
  "dict_get (foldl (\<lambda>d (k, v). dict_set (f k) v d) d kvs) x =
   (case map_of (rev (map (\<lambda>(k, v). (f k, v)) kvs)) x of None \<Rightarrow> dict_get d x | Some v \<Rightarrow> Some v)"
  by (induction kvs arbitrary: d) (auto simp: dict_simps map_add_def split: option.splits)

lemma map_of_filter_key: "P x \<Longrightarrow> map_of (filter (\<lambda>kv. P (fst kv)) kvs) x = map_of kvs x"
  by (induction kvs) auto

lemma map_of_map_key: "inj f \<Longrightarrow> map_of (map (\<lambda>(k, v). (f k, v)) kvs) (f x) = map_of kvs x"
  by (induction kvs) (auto dest: injD)

definition project_items :: "state list \<Rightarrow> string list \<Rightarrow> (string \<times> val) list" where
  "project_items comps ids = concat (map (\<lambda>(cid, comp). map (\<lambda>(k, v). (prefixed cid k, v)) (st_store comp)) (zip ids comps))"

lemma dict_get_project_items:
  "dict_get (st_store (project comps ids)) x = map_of (rev (project_items comps ids)) x"
proof -
  have "dict_get (foldl (\<lambda>d (cid, comp). foldl (\<lambda>d (k, v). dict_set (prefixed cid k) v d) d (st_store comp)) d zs) x =
    (case map_of (rev (concat (map (\<lambda>(cid, comp). map (\<lambda>(k, v). (prefixed cid k, v)) (st_store comp)) zs))) x of
       None \<Rightarrow> dict_get d x | Some v \<Rightarrow> Some v)" for zs d
    by (induction zs arbitrary: d)
      (auto simp: dict_get_foldl_set map_add_def split: option.splits prod.splits)
  from this[of "[]" "zip ids comps"] show ?thesis
    by (cases "map_of (rev (project_items comps ids)) x") (simp_all add: project_def project_items_def)
qed

lemma dict_get_project:
  assumes "ids_ok ids" "length comps = length ids" "i < length ids" "dict_wf (st_store (comps ! i))"
  shows "dict_get (st_store (project comps ids)) (prefixed (ids ! i) k) = dict_get (st_store (comps ! i)) k"
proof -
  let ?P = "\<lambda>x. has_prefix (ids ! i) x" and ?f = "\<lambda>cid (k, v). (prefixed cid k, v)"
  have items: "filter (\<lambda>kv. ?P (fst kv)) (project_items comps ids) = map (?f (ids ! i)) (st_store (comps ! i))"
    unfolding project_items_def
    by (rule filter_concat_component[where g = fst, OF assms(1-3)]) (simp split: prod.splits)
  have wf: "dict_wf (map (?f (ids ! i)) (st_store (comps ! i)))"
  proof -
    have "map fst (map (?f (ids ! i)) (st_store (comps ! i))) = map (prefixed (ids ! i)) (dict_keys (st_store (comps ! i)))"
      by (auto simp: case_prod_unfold)
    moreover have "distinct (map (prefixed (ids ! i)) (dict_keys (st_store (comps ! i))))"
      using assms(4) inj_prefixed distinct_map by blast
    ultimately show ?thesis by (simp only:)
  qed
  have "dict_get (st_store (project comps ids)) (prefixed (ids ! i) k) =
      map_of (filter (\<lambda>kv. ?P (fst kv)) (rev (project_items comps ids))) (prefixed (ids ! i) k)"
    by (simp add: dict_get_project_items map_of_filter_key)
  also have "\<dots> = map_of (rev (map (?f (ids ! i)) (st_store (comps ! i)))) (prefixed (ids ! i) k)"
    by (simp only: rev_filter[symmetric] items)
  also have "\<dots> = map_of (map (?f (ids ! i)) (st_store (comps ! i))) (prefixed (ids ! i) k)"
    using wf map_of_inject_set[of "rev (map (?f (ids ! i)) (st_store (comps ! i)))" "map (?f (ids ! i)) (st_store (comps ! i))"]
    by (simp add: rev_map[symmetric])
  also have "\<dots> = dict_get (st_store (comps ! i)) k"
    by (rule map_of_map_key) (simp add: inj_on_def)
  finally show ?thesis .
qed

lemma project_wf [simp]: "dict_wf (st_store (project comps ids))"
proof -
  have in_wf: "dict_wf d \<Longrightarrow> dict_wf (foldl (\<lambda>d (k, v). dict_set (f k) v d) d kvs)" for f d kvs
    by (induction kvs arbitrary: d) auto
  have "dict_wf d \<Longrightarrow> dict_wf (foldl (\<lambda>d (cid, comp). foldl (\<lambda>d (k, v). dict_set (prefixed cid k) v d) d (st_store comp)) d zs)" for d zs
    by (induction zs arbitrary: d) (auto simp: in_wf)
  from this[of "[]" "zip ids comps"] show ?thesis by (simp add: project_def)
qed

lemma project_component:
  assumes "ids_ok ids" "length comps = length ids" "i < length ids"
  shows "filter (has_prefix (ids ! i)) (st_pending (project comps ids)) = map (prefixed (ids ! i)) (st_pending (comps ! i))"
    and "filter (has_prefix (ids ! i)) (st_done (project comps ids)) = map (prefixed (ids ! i)) (st_done (comps ! i))"
    and "filter (has_prefix (ids ! i)) (st_events (project comps ids)) = map (prefixed (ids ! i)) (st_events (comps ! i))"
  using filter_concat_component[OF assms, where key = "\<lambda>x. x" and f = prefixed and g = "\<lambda>x. x" and h = st_pending]
    filter_concat_component[OF assms, where key = "\<lambda>x. x" and f = prefixed and g = "\<lambda>x. x" and h = st_done]
    filter_concat_component[OF assms, where key = "\<lambda>x. x" and f = prefixed and g = "\<lambda>x. x" and h = st_events]
  by (simp_all add: project_def)

text \<open>The full payload of a projection determines the full payloads of the components.\<close>

lemma project_payload:
  assumes ids: "ids_ok ids" and len: "length xs = length ids" "length ys = length ids"
    and wf: "\<forall>s\<in>set xs \<union> set ys. dict_wf (st_store s)"
    and eq: "hash_payload Full (project xs ids) = hash_payload Full (project ys ids)" and i: "i < length ids"
  shows "hash_payload Full (xs ! i) = hash_payload Full (ys ! i)"
proof -
  have wfi: "dict_wf (st_store (xs ! i))" "dict_wf (st_store (ys ! i))" using wf len i by auto
  note E = payload_eq_iff(1)[OF project_wf project_wf, THEN iffD1, OF eq]
  have "store_view (xs ! i) = store_view (ys ! i)"
  proof
    fix k
    have "store_view (project xs ids) (prefixed (ids ! i) k) = store_view (project ys ids) (prefixed (ids ! i) k)"
      using E by simp
    then show "store_view (xs ! i) k = store_view (ys ! i) k"
      by (simp add: store_view_def dict_get_project[OF ids len(1) i wfi(1)] dict_get_project[OF ids len(2) i wfi(2)])
  qed
  moreover have "map (prefixed (ids ! i)) (st_pending (xs ! i)) = map (prefixed (ids ! i)) (st_pending (ys ! i))"
    "map (prefixed (ids ! i)) (st_done (xs ! i)) = map (prefixed (ids ! i)) (st_done (ys ! i))"
    "map (prefixed (ids ! i)) (st_events (xs ! i)) = map (prefixed (ids ! i)) (st_events (ys ! i))"
    using E project_component[OF ids len(1) i] project_component[OF ids len(2) i] by simp_all
  then have "st_pending (xs ! i) = st_pending (ys ! i)" "st_done (xs ! i) = st_done (ys ! i)"
    "st_events (xs ! i) = st_events (ys ! i)"
    by (simp_all add: map_inj_on[OF _ inj_prefixed])
  ultimately show ?thesis by (simp add: payload_eq_iff(1)[OF wfi])
qed

end
