(* ===== verification/Joint_Product.thy ===== *)
theory Joint_Product
  imports Joint
begin

text \<open>
  The product as a transition system on tuples of component states, and the proof that the joint
  adapter, with its memo, explores exactly this system.  A component is lawful when its operations
  answer on every state it can reach and its full payload identifies such a state; adapters of
  plans are lawful because the event log determines their state.
\<close>

section \<open>Lawful components\<close>

definition comp_reach :: "component \<Rightarrow> state set" where
  "comp_reach c = reachable_states (comp_init c) (comp_succ c)"

definition lawful :: "component \<Rightarrow> bool" where
  "lawful c \<longleftrightarrow> (\<exists>s. co_initial c = Inr s) \<and>
     (\<forall>s\<in>comp_reach c. (\<exists>ss. co_successors c s = Inr ss) \<and> map fst (comp_succ c s) = co_enabled c s \<and>
        dict_wf (st_store s)) \<and>
     (\<forall>s\<in>comp_reach c. \<forall>t\<in>comp_reach c. hash_payload Full s = hash_payload Full t \<longrightarrow> s = t)"

lemma lawfulD:
  assumes "lawful c"
  shows "co_initial c = Inr (comp_init c)"
    and "s \<in> comp_reach c \<Longrightarrow> co_successors c s = Inr (comp_succ c s)"
    and "s \<in> comp_reach c \<Longrightarrow> map fst (comp_succ c s) = co_enabled c s"
    and "s \<in> comp_reach c \<Longrightarrow> dict_wf (st_store s)"
    and "s \<in> comp_reach c \<Longrightarrow> t \<in> comp_reach c \<Longrightarrow> hash_payload Full s = hash_payload Full t \<Longrightarrow> s = t"
  using assms by (auto simp: lawful_def comp_init_def comp_succ_def)

lemma comp_reach_init [simp]: "comp_init c \<in> comp_reach c"
  by (simp add: comp_reach_def)

lemma comp_reach_succ: "s \<in> comp_reach c \<Longrightarrow> (l, t) \<in> set (comp_succ c s) \<Longrightarrow> t \<in> comp_reach c"
  unfolding comp_reach_def by (erule reachable_step) (auto simp: step_rel_def)

text \<open>A component class whose invariant includes well-formed stores is lawful when payloads identify its states.\<close>

context component_class
begin

lemma reach_inv:
  assumes "valid a" and "s \<in> comp_reach (comp a)"
  shows "inv a s"
  using assms(2) unfolding comp_reach_def
proof (induction rule: reachable_induct)
  case init
  then show ?case using initial_total[OF assms(1)] by (auto simp: comp_init_def)
next
  case (step s l t)
  obtain ss where "co_successors (comp a) s = Inr ss" using successors_total[OF assms(1) step.IH] by blast
  then show ?case using successors_inv[OF assms(1) step.IH, of ss l t] step.hyps by (simp add: comp_succ_def)
qed

lemma lawful_comp:
  assumes "valid a" and "\<And>s. inv a s \<Longrightarrow> dict_wf (st_store s)"
    and "\<And>s t. s \<in> comp_reach (comp a) \<Longrightarrow> t \<in> comp_reach (comp a) \<Longrightarrow>
      hash_payload Full s = hash_payload Full t \<Longrightarrow> s = t"
  shows "lawful (comp a)"
  unfolding lawful_def
proof (intro conjI ballI impI)
  show "\<exists>s. co_initial (comp a) = Inr s" using initial_total[OF assms(1)] by blast
  fix s assume s: "s \<in> comp_reach (comp a)"
  then have i: "inv a s" using reach_inv assms(1) by blast
  then show "\<exists>ss. co_successors (comp a) s = Inr ss" "dict_wf (st_store s)"
    using successors_total[OF assms(1)] assms(2) by blast+
  show "map fst (comp_succ (comp a) s) = co_enabled (comp a) s"
    using successors_total[OF assms(1) i] successors_labels[OF assms(1) i] by (auto simp: comp_succ_def)
  fix t assume "t \<in> comp_reach (comp a)" "hash_payload Full s = hash_payload Full t"
  then show "s = t" using assms(3) s by blast
qed

end

lemma lawful_plan:
  assumes "adapter_ok a"
  shows "lawful (tm_component a)"
proof (rule tm.lawful_comp[OF assms])
  show "tm_inv a s \<Longrightarrow> dict_wf (st_store s)" for s by (simp add: tm_inv_def)
  show "s = t" if "s \<in> comp_reach (tm_component a)" "t \<in> comp_reach (tm_component a)"
    "hash_payload Full s = hash_payload Full t" for s t
    using plan_events_determine[OF assms] payload_full(3)[OF that(3)] that(1,2) by (simp add: comp_reach_def)
qed

section \<open>The product on tuples\<close>

definition product_init :: "joint_adapter \<Rightarrow> state list" where
  "product_init A = map comp_init (ja_components A)"

definition product_step :: "joint_adapter \<Rightarrow> state list \<Rightarrow> state list \<Rightarrow> bool" where
  "product_step A js js' \<longleftrightarrow> (\<exists>i<length (ja_components A). \<exists>l t.
     (l, t) \<in> set (comp_succ (ja_components A ! i) (js ! i)) \<and> js' = js[i := t])"

definition product_reach :: "joint_adapter \<Rightarrow> state list set" where
  "product_reach A = {js. length js = length (ja_components A) \<and>
     (\<forall>i<length js. js ! i \<in> comp_reach (ja_components A ! i))}"

definition joint_ok :: "(payload \<Rightarrow> 'h) \<Rightarrow> joint_adapter \<Rightarrow> bool" where
  "joint_ok H A \<longleftrightarrow> length (ja_ids A) = length (ja_components A) \<and> ids_ok (ja_ids A) \<and>
     (\<forall>c\<in>set (ja_components A). lawful c) \<and>
     collision_free H Full ((\<lambda>js. project js (ja_ids A)) ` product_reach A)"

lemma product_init_reach: "product_init A \<in> product_reach A"
  by (simp add: product_init_def product_reach_def)

lemma product_step_reach:
  assumes "js \<in> product_reach A" and "product_step A js js'"
  shows "js' \<in> product_reach A"
  using assms comp_reach_succ by (fastforce simp: product_reach_def product_step_def nth_list_update)

lemma product_run_reach: "(product_step A ^^ n) (product_init A) js \<Longrightarrow> js \<in> product_reach A"
  by (induction n arbitrary: js) (auto simp: product_init_reach intro: product_step_reach)

lemma project_inj:
  assumes "joint_ok H A" "xs \<in> product_reach A" "ys \<in> product_reach A"
    and "stable_hash H Full (project xs (ja_ids A)) = stable_hash H Full (project ys (ja_ids A))"
  shows "xs = ys"
proof (rule nth_equalityI)
  show "length xs = length ys" using assms(2,3) by (simp add: product_reach_def)
  fix i assume i: "i < length xs"
  have len: "length xs = length (ja_ids A)" "length ys = length (ja_ids A)"
    using assms(1-3) by (simp_all add: product_reach_def joint_ok_def)
  have law: "lawful (ja_components A ! i)" if "i < length xs" for i
    using that assms(1,2) by (simp add: joint_ok_def product_reach_def)
  have reach: "xs ! i \<in> comp_reach (ja_components A ! i)" "ys ! i \<in> comp_reach (ja_components A ! i)"
    if "i < length xs" for i
    using that assms(2,3) by (simp_all add: product_reach_def)
  have "hash_payload Full (project xs (ja_ids A)) = hash_payload Full (project ys (ja_ids A))"
    using assms stable_hash_eq unfolding joint_ok_def by blast
  moreover have "\<forall>s\<in>set xs \<union> set ys. dict_wf (st_store s)"
    using reach lawfulD(4)[OF law] len by (auto simp: in_set_conv_nth)
  ultimately have "hash_payload Full (xs ! i) = hash_payload Full (ys ! i)"
    using project_payload[OF _ len, of i] assms(1) i len by (simp add: joint_ok_def)
  then show "xs ! i = ys ! i" using lawfulD(5)[OF law[OF i] reach[OF i]] by blast
qed

definition decode :: "joint_adapter \<Rightarrow> state \<Rightarrow> state list" where
  "decode A s = (THE js. js \<in> product_reach A \<and> project js (ja_ids A) = s)"

lemma decode_project:
  assumes "joint_ok H A" "js \<in> product_reach A"
  shows "decode A (project js (ja_ids A)) = js"
  unfolding decode_def
proof (rule the_equality)
  show "js \<in> product_reach A \<and> project js (ja_ids A) = project js (ja_ids A)" using assms(2) by simp
  fix xs assume "xs \<in> product_reach A \<and> project xs (ja_ids A) = project js (ja_ids A)"
  then show "xs = js" using project_inj[OF assms(1) _ assms(2), of xs] by auto
qed

text \<open>The moves of the adapter, when no component raises.\<close>

definition moves :: "joint_adapter \<Rightarrow> state list \<Rightarrow> (string \<times> state list) list" where
  "moves A js = concat (map (\<lambda>(i, cp, cid, cs). map (\<lambda>(l, t). (cid @ '':'' @ l, js[i := t])) (comp_succ cp cs))
     (zip [0..<length js] (zip (ja_components A) (zip (ja_ids A) js))))"

lemma zip_in_set:
  assumes "length (ja_ids A) = length (ja_components A)" "length js = length (ja_components A)"
  shows "(i, cp, cid, cs) \<in> set (zip [0..<length js] (zip (ja_components A) (zip (ja_ids A) js))) \<longleftrightarrow>
    i < length js \<and> cp = ja_components A ! i \<and> cid = ja_ids A ! i \<and> cs = js ! i"
proof
  assume "i < length js \<and> cp = ja_components A ! i \<and> cid = ja_ids A ! i \<and> cs = js ! i"
  then show "(i, cp, cid, cs) \<in> set (zip [0..<length js] (zip (ja_components A) (zip (ja_ids A) js)))"
    unfolding set_zip using assms by (intro CollectI exI[of _ i]) simp
qed (use assms in \<open>auto simp: set_zip\<close>)

lemma joint_moves_eq:
  assumes "joint_ok H A" "js \<in> product_reach A"
  shows "joint_moves A js = Inr (moves A js)"
proof -
  have len: "length (ja_ids A) = length (ja_components A)" "length js = length (ja_components A)"
    using assms by (simp_all add: joint_ok_def product_reach_def)
  let ?z = "zip [0..<length js] (zip (ja_components A) (zip (ja_ids A) js))"
  have "map_result (\<lambda>(i, cp, cid, cs). bind_result (co_successors cp cs)
         (\<lambda>ss. Inr (map (\<lambda>(label, nxt). (cid @ '':'' @ label, js[i := nxt])) ss))) ?z =
      Inr (map (\<lambda>(i, cp, cid, cs). map (\<lambda>(l, t). (cid @ '':'' @ l, js[i := t])) (comp_succ cp cs)) ?z)"
  proof (rule map_result_total)
    fix x assume "x \<in> set ?z"
    then obtain i cp cid cs where x: "x = (i, cp, cid, cs)" "(i, cp, cid, cs) \<in> set ?z" by (metis prod_cases4)
    then have "i < length js" "cp = ja_components A ! i" "cs = js ! i" using zip_in_set[OF len] by blast+
    then have "lawful cp" "cs \<in> comp_reach cp" using assms len by (auto simp: joint_ok_def product_reach_def)
    then have "co_successors cp cs = Inr (comp_succ cp cs)" by (rule lawfulD(2))
    then show "(case x of (i, cp, cid, cs) \<Rightarrow> bind_result (co_successors cp cs)
         (\<lambda>ss. Inr (map (\<lambda>(label, nxt). (cid @ '':'' @ label, js[i := nxt])) ss))) =
      Inr (case x of (i, cp, cid, cs) \<Rightarrow> map (\<lambda>(l, t). (cid @ '':'' @ l, js[i := t])) (comp_succ cp cs))"
      by (simp add: x)
  qed
  then show ?thesis by (simp add: joint_moves_def moves_def)
qed

lemma moves_step:
  assumes "length (ja_ids A) = length (ja_components A)" "length js = length (ja_components A)"
  shows "(\<exists>l. (l, js') \<in> set (moves A js)) \<longleftrightarrow> product_step A js js'"
proof
  assume "\<exists>l. (l, js') \<in> set (moves A js)"
  then show "product_step A js js'"
    by (auto simp: moves_def product_step_def zip_in_set[OF assms] assms(2)[symmetric]) blast
next
  assume "product_step A js js'"
  then obtain i l t where i: "i < length js" "(l, t) \<in> set (comp_succ (ja_components A ! i) (js ! i))" "js' = js[i := t]"
    by (auto simp: product_step_def assms(2))
  let ?x = "(i, ja_components A ! i, ja_ids A ! i, js ! i)"
  have "?x \<in> set (zip [0..<length js] (zip (ja_components A) (zip (ja_ids A) js)))"
    using i(1) by (simp add: zip_in_set[OF assms])
  moreover have "(ja_ids A ! i @ '':'' @ l, js') \<in>
      set (map (\<lambda>(l, t). (ja_ids A ! i @ '':'' @ l, js[i := t])) (comp_succ (ja_components A ! i) (js ! i)))"
    using i(2,3) by force
  ultimately show "\<exists>l. (l, js') \<in> set (moves A js)"
    unfolding moves_def set_concat set_map by (intro exI[of _ "ja_ids A ! i @ '':'' @ l"]) (fastforce intro: bexI[of _ ?x])
qed

section \<open>The joint adapter meets the explorer's contract\<close>

definition joint_init :: "joint_adapter \<Rightarrow> state" where
  "joint_init A = project (product_init A) (ja_ids A)"

definition joint_succ :: "joint_adapter \<Rightarrow> state \<Rightarrow> (string \<times> state) list" where
  "joint_succ A s = map (\<lambda>(l, js). (l, project js (ja_ids A))) (moves A (decode A s))"

definition joint_dead :: "joint_adapter \<Rightarrow> state \<Rightarrow> bool" where
  "joint_dead A s \<longleftrightarrow> length (st_pending s) > 0 \<and> joint_steps A (decode A s) = []"

text \<open>The memo maps digests to the reachable tuples they come from, and knows the state.\<close>

definition memo_ok :: "(payload \<Rightarrow> 'h) \<Rightarrow> joint_adapter \<Rightarrow> 'h joint_memo \<Rightarrow> bool" where
  "memo_ok H A memo \<longleftrightarrow> (\<forall>h js. dict_get memo h = Some js \<longrightarrow>
     js \<in> product_reach A \<and> h = stable_hash H Full (project js (ja_ids A)))"

definition joint_known :: "(payload \<Rightarrow> 'h) \<Rightarrow> joint_adapter \<Rightarrow> 'h joint_memo \<Rightarrow> state \<Rightarrow> bool" where
  "joint_known H A memo s \<longleftrightarrow> memo_ok H A memo \<and>
     (\<exists>js. dict_get memo (stable_hash H Full s) = Some js \<and> s = project js (ja_ids A))"

lemma joint_known_lookup:
  assumes "joint_ok H A" "joint_known H A memo s"
  shows "lookup_joint H memo s = Inr (decode A s)" "decode A s \<in> product_reach A"
    "project (decode A s) (ja_ids A) = s"
proof -
  obtain js where js: "dict_get memo (stable_hash H Full s) = Some js" "s = project js (ja_ids A)"
    and reach: "js \<in> product_reach A" using assms(2) by (auto simp: joint_known_def memo_ok_def)
  have "decode A s = js" using decode_project[OF assms(1) reach] js(2) by simp
  then show "lookup_joint H memo s = Inr (decode A s)" "decode A s \<in> product_reach A"
    "project (decode A s) (ja_ids A) = s" using js reach by (simp_all add: lookup_joint_def)
qed

lemma remember_known:
  assumes "joint_ok H A" "memo_ok H A memo" "snd m \<in> product_reach A"
  shows "memo_ok H A (remember H (ja_ids A) memo m)"
    "joint_known H A (remember H (ja_ids A) memo m) (project (snd m) (ja_ids A))"
    "joint_known H A memo s \<Longrightarrow> joint_known H A (remember H (ja_ids A) memo m) s"
proof -
  show ok: "memo_ok H A (remember H (ja_ids A) memo m)"
    using assms(2,3) by (auto simp: memo_ok_def remember_def dict_simps)
  then show "joint_known H A (remember H (ja_ids A) memo m) (project (snd m) (ja_ids A))"
    by (simp add: joint_known_def remember_def dict_simps)
  assume "joint_known H A memo s"
  then obtain js where js: "dict_get memo (stable_hash H Full s) = Some js" "s = project js (ja_ids A)"
    "js \<in> product_reach A" using assms(2) by (auto simp: joint_known_def memo_ok_def)
  then have "stable_hash H Full s = stable_hash H Full (project (snd m) (ja_ids A)) \<Longrightarrow> js = snd m"
    using project_inj[OF assms(1) _ assms(3)] by blast
  then show "joint_known H A (remember H (ja_ids A) memo m) s"
    using ok js by (auto simp: joint_known_def remember_def dict_simps)
qed

lemma foldl_remember:
  assumes "joint_ok H A" "memo_ok H A memo" "\<forall>m\<in>set ms. snd m \<in> product_reach A"
  shows "memo_ok H A (foldl (remember H (ja_ids A)) memo ms) \<and>
    (\<forall>s. joint_known H A memo s \<longrightarrow> joint_known H A (foldl (remember H (ja_ids A)) memo ms) s) \<and>
    (\<forall>m\<in>set ms. joint_known H A (foldl (remember H (ja_ids A)) memo ms) (project (snd m) (ja_ids A)))"
  using assms(2,3)
proof (induction ms arbitrary: memo)
  case (Cons m ms)
  let ?memo = "remember H (ja_ids A) memo m"
  have m: "snd m \<in> product_reach A" using Cons.prems(2) by simp
  note r = remember_known[OF assms(1) Cons.prems(1) m]
  from Cons.IH[OF r(1)] Cons.prems(2) r(2,3) show ?case by simp
qed simp

lemma moves_reach:
  assumes "joint_ok H A" "js \<in> product_reach A" "m \<in> set (moves A js)"
  shows "snd m \<in> product_reach A"
proof -
  have len: "length (ja_ids A) = length (ja_components A)" "length js = length (ja_components A)"
    using assms(1,2) by (simp_all add: joint_ok_def product_reach_def)
  have "(fst m, snd m) \<in> set (moves A js)" using assms(3) by simp
  then have "product_step A js (snd m)" using moves_step[OF len] by blast
  then show ?thesis using product_step_reach[OF assms(2)] by blast
qed

lemma map_result_initial:
  "\<forall>c\<in>set cs. lawful c \<Longrightarrow> map_result co_initial cs = Inr (map comp_init cs)"
  by (rule map_result_total) (simp add: lawfulD(1))

interpretation joint: explorable_class "\<lambda>(H, A, m0). joint_ex H A" "\<lambda>(H, A, m0). m0"
  "\<lambda>(H, A, m0). joint_ok H A \<and> memo_ok H A m0" "\<lambda>(H, A, m0). joint_init A" "\<lambda>(H, A, m0). joint_succ A"
  "\<lambda>(H, A, m0). joint_dead A" "\<lambda>(H, A, m0). joint_known H A"
proof (unfold_locales; clarify)
  fix H :: "payload \<Rightarrow> 'b" and A m0 memo s
  assume ok: "joint_ok H A" and m0: "memo_ok H A m0"
  let ?m = "remember H (ja_ids A) m0 ([], product_init A)"
  have "joint_initial H A m0 = Inr (joint_init A, ?m)"
    using ok by (simp add: joint_initial_def joint_init_def product_init_def map_result_initial joint_ok_def
        Let_def remember_def)
  moreover have "joint_known H A ?m (joint_init A)"
    using remember_known(2)[OF ok m0, of "([], product_init A)"] product_init_reach by (simp add: joint_init_def)
  ultimately show "\<exists>m. ea_initial (joint_ex H A) m0 = Inr (joint_init A, m) \<and> joint_known H A m (joint_init A)"
    by (simp add: joint_ex_def)
  assume known: "joint_known H A memo s"
  note look = joint_known_lookup[OF ok known]
  let ?ms = "moves A (decode A s)" and ?memo = "foldl (remember H (ja_ids A)) memo (moves A (decode A s))"
  have "memo_ok H A memo" using known by (simp add: joint_known_def)
  note rem = foldl_remember[OF ok this, of ?ms]
  have "joint_successors H A memo s = Inr (joint_succ A s, ?memo)"
    by (simp add: joint_successors_def look joint_moves_eq[OF ok look(2)] joint_succ_def)
  then show "\<exists>m'. ea_successors (joint_ex H A) memo s = Inr (joint_succ A s, m') \<and>
      (\<forall>t. joint_known H A memo t \<longrightarrow> joint_known H A m' t) \<and> (\<forall>(l, t)\<in>set (joint_succ A s). joint_known H A m' t)"
    using rem moves_reach[OF ok look(2)] by (fastforce simp: joint_ex_def joint_succ_def)
  show "ea_deadlocked (joint_ex H A) memo s = joint_dead A s"
    by (simp add: joint_ex_def joint_deadlocked_def joint_dead_def joint_enabled_def look)
qed

text \<open>Runs of the explored system are the projections of runs of the product.\<close>

lemma joint_succ_project:
  assumes "joint_ok H A" "js \<in> product_reach A"
  shows "step_rel (joint_succ A) (project js (ja_ids A)) t \<longleftrightarrow> (\<exists>js'. product_step A js js' \<and> t = project js' (ja_ids A))"
proof -
  have len: "length (ja_ids A) = length (ja_components A)" "length js = length (ja_components A)"
    using assms by (simp_all add: joint_ok_def product_reach_def)
  show ?thesis
    unfolding step_rel_def joint_succ_def decode_project[OF assms] moves_step[OF len, symmetric] by force
qed

lemma joint_runs:
  assumes "joint_ok H A"
  shows "(step_rel (joint_succ A) ^^ k) (joint_init A) s \<longleftrightarrow>
    (\<exists>js. (product_step A ^^ k) (product_init A) js \<and> js \<in> product_reach A \<and> s = project js (ja_ids A))"
proof (induction k arbitrary: s)
  case 0
  then show ?case using product_init_reach by (auto simp: joint_init_def)
next
  case (Suc k)
  show ?case
  proof
    assume "(step_rel (joint_succ A) ^^ Suc k) (joint_init A) s"
    then obtain x where x: "(step_rel (joint_succ A) ^^ k) (joint_init A) x" "step_rel (joint_succ A) x s" by auto
    obtain js where js: "(product_step A ^^ k) (product_init A) js" "js \<in> product_reach A" "x = project js (ja_ids A)"
      using x(1) unfolding Suc by blast
    with x(2) obtain js' where "product_step A js js'" "s = project js' (ja_ids A)"
      using joint_succ_project[OF assms js(2)] by auto
    with js(1,2) have "(product_step A ^^ k) (product_init A) js" "js \<in> product_reach A"
      "product_step A js js'" "s = project js' (ja_ids A)" by blast+
    then show "\<exists>js. (product_step A ^^ Suc k) (product_init A) js \<and> js \<in> product_reach A \<and> s = project js (ja_ids A)"
      using product_step_reach by (intro exI[of _ js']) auto
  next
    assume "\<exists>js. (product_step A ^^ Suc k) (product_init A) js \<and> js \<in> product_reach A \<and> s = project js (ja_ids A)"
    then obtain js' js where js: "(product_step A ^^ k) (product_init A) js" "product_step A js js'"
      "s = project js' (ja_ids A)" by auto
    have "js \<in> product_reach A" using js(1) by (rule product_run_reach)
    then have "step_rel (joint_succ A) (project js (ja_ids A)) s"
      using js(2,3) joint_succ_project[OF assms] by blast
    moreover have "(step_rel (joint_succ A) ^^ k) (joint_init A) (project js (ja_ids A))"
      unfolding Suc using js(1) \<open>js \<in> product_reach A\<close> by blast
    ultimately show "(step_rel (joint_succ A) ^^ Suc k) (joint_init A) s" by auto
  qed
qed

lemma joint_hash_inj:
  assumes "joint_ok H A"
  shows "inj_on (stable_hash H Full) (reachable_states (joint_init A) (joint_succ A))"
proof (rule inj_onI)
  fix s t
  assume "s \<in> reachable_states (joint_init A) (joint_succ A)" "t \<in> reachable_states (joint_init A) (joint_succ A)"
    and eq: "stable_hash H Full s = stable_hash H Full t"
  then obtain xs ys where "xs \<in> product_reach A" "s = project xs (ja_ids A)" "ys \<in> product_reach A" "t = project ys (ja_ids A)"
    unfolding reachable_states_def joint_runs[OF assms] by blast
  then show "s = t" using project_inj[OF assms, of xs ys] eq by simp
qed

text \<open>What an exploration of the product returns.\<close>

lemma joint_explored:
  assumes "joint_ok H A" "memo_ok H A m0"
  obtains r m d where "explorer_run H (joint_ex H A) m0 D mode = Inr (r, m)"
    "explored (joint_init A) (joint_succ A) (joint_dead A) (stable_hash H mode) D d r"
    "\<forall>s\<in>set (ex_states r). joint_known H A m s" "memo_ok H A m"
proof -
  obtain r m d where r: "explorer_run H (joint_ex H A) m0 D mode = Inr (r, m)"
    "explored (joint_init A) (joint_succ A) (joint_dead A) (stable_hash H mode) D d r"
    "\<forall>s\<in>set (ex_states r). joint_known H A m s"
    using joint.explorer_run_explored[of "(H, A, m0)" H D mode] assms by auto
  then have "ex_states r \<noteq> []" by (simp add: explored_def Let_def)
  then have "memo_ok H A m" using r(3) by (cases "ex_states r") (auto simp: joint_known_def)
  with r that show ?thesis by blast
qed

lemma memo_ok_Nil [simp]: "memo_ok H A []"
  by (simp add: memo_ok_def)

end
