(* ===== verification/Joint_Verify.thy ===== *)
theory Joint_Verify
  imports Joint_Product Verify_Report
begin

text \<open>
  Verification of the product (\<^verbatim>\<open>joint_verify\<close> and its helpers in \<^verbatim>\<open>tm/verify/joint.py\<close>, and the
  store-hash measurement of \<^verbatim>\<open>tm/verify/por.py\<close>): exploration, a verdict per formula, the choice of a
  violating path and its rendering per component.  The properties say what a verdict means for the
  interleavings of the components, and which paths are reported.
\<close>

section \<open>Paths out of a set\<close>

text \<open>
  \<^verbatim>\<open>_bfs_path_outside\<close>.  The inner loop returns a path (\<open>Inl\<close>) or the visited states and the queue.
\<close>

fun bfs_inner ::
  "nat set \<Rightarrow> nat list \<Rightarrow> nat list \<Rightarrow> nat list \<Rightarrow> (nat \<times> nat list) list \<Rightarrow> nat list + nat list \<times> (nat \<times> nat list) list" where
  "bfs_inner ok_set path [] visited queue = Inr (visited, queue)"
| "bfs_inner ok_set path (nxt # rest) visited queue =
     (if nxt \<in> set visited then bfs_inner ok_set path rest visited queue
      else if nxt \<notin> ok_set then Inl (path @ [nxt])
      else bfs_inner ok_set path rest (nxt # visited) (queue @ [(nxt, path @ [nxt])]))"

lemma bfs_inner_queue:
  assumes "bfs_inner ok_set path nxts visited queue = Inr (visited', queue')"
  shows "\<exists>new. visited' = rev (map fst new) @ visited \<and> queue' = queue @ new \<and>
    distinct (map fst new) \<and> set (map fst new) \<subseteq> set nxts - set visited"
  using assms
proof (induction nxts arbitrary: visited queue)
  case (Cons n ns)
  show ?case
  proof (cases "n \<in> set visited")
    case True
    with Cons obtain new where "visited' = rev (map fst new) @ visited \<and> queue' = queue @ new \<and>
      distinct (map fst new) \<and> set (map fst new) \<subseteq> set ns - set visited" by fastforce
    then show ?thesis by (intro exI[of _ new]) auto
  next
    case False
    with Cons.prems have "bfs_inner ok_set path ns (n # visited) (queue @ [(n, path @ [n])]) = Inr (visited', queue')"
      by (simp split: if_splits)
    from Cons.IH[OF this] obtain new where "visited' = rev (map fst new) @ n # visited \<and>
      queue' = (queue @ [(n, path @ [n])]) @ new \<and> distinct (map fst new) \<and>
      set (map fst new) \<subseteq> set ns - set (n # visited)" by blast
    then show ?thesis using False by (intro exI[of _ "(n, path @ [n]) # new"]) auto
  qed
qed simp

definition edge_targets :: "(nat, nat list) dict \<Rightarrow> nat set" where
  "edge_targets edges = (\<Union>(i, js)\<in>set edges. set js)"

lemma dict_get_or_targets: "set (dict_get_or edges i []) \<subseteq> edge_targets edges"
  by (cases "dict_get edges i") (force simp: dict_get_or_def edge_targets_def dest: map_of_SomeD)+

function bfs_outside ::
  "(nat, nat list) dict \<Rightarrow> nat set \<Rightarrow> nat list \<Rightarrow> (nat \<times> nat list) list \<Rightarrow> nat list" where
  "bfs_outside edges ok_set visited [] = []"
| "bfs_outside edges ok_set visited ((sid, path) # queue) =
     (case bfs_inner ok_set path (dict_get_or edges sid []) visited queue of
        Inl p \<Rightarrow> p
      | Inr (visited', queue') \<Rightarrow> bfs_outside edges ok_set visited' queue')"
  by pat_completeness auto
termination
proof (relation "measure (\<lambda>(edges, ok_set, visited, queue). card (edge_targets edges - set visited) + length queue)")
  fix edges :: "(nat, nat list) dict" and ok_set visited sid path queue x visited' queue'
  assume "bfs_inner ok_set path (dict_get_or edges sid []) visited queue = Inr x" "(visited', queue') = x"
  then obtain new where new: "visited' = rev (map fst new) @ visited" "queue' = queue @ new" "distinct (map fst new)"
    "set (map fst new) \<subseteq> edge_targets edges - set visited"
    using bfs_inner_queue[of ok_set path "dict_get_or edges sid []" visited queue visited' queue'] dict_get_or_targets
    by fastforce
  have fin: "finite (edge_targets edges)" by (auto simp: edge_targets_def)
  have "card (set (map fst new)) = length new" using distinct_card[OF new(3)] by simp
  moreover have "edge_targets edges - set visited' = (edge_targets edges - set visited) - set (map fst new)"
    using new(1) by auto
  then have "card (edge_targets edges - set visited') = card (edge_targets edges - set visited) - length new"
    using new(4) fin calculation by (simp add: card_Diff_subset)
  moreover have "length new \<le> card (edge_targets edges - set visited)"
    using card_mono[OF _ new(4)] fin calculation(1) by simp
  ultimately show "((edges, ok_set, visited', queue'), edges, ok_set, visited, (sid, path) # queue)
    \<in> measure (\<lambda>(edges, ok_set, visited, queue). card (edge_targets edges - set visited) + length queue)"
    by (simp add: new(2))
qed simp

definition bfs_path_outside :: "(nat, nat list) dict \<Rightarrow> nat set \<Rightarrow> nat list" where
  "bfs_path_outside edges ok_set =
     (if 0 \<notin> ok_set \<and> ok_set \<noteq> {} then [0] else bfs_outside edges ok_set [0] [(0, [0])])"

section \<open>Violating paths and counterexamples\<close>

text \<open>The scan over all states for one that violates the probe and has a path.\<close>

fun probe_states :: "expr \<Rightarrow> (state \<Rightarrow> string list) \<Rightarrow> exploration_result \<Rightarrow> nat \<Rightarrow> state list \<Rightarrow> nat list option result" where
  "probe_states probe en model sid [] = Inr None"
| "probe_states probe en model sid (s # ss) =
     bind_result (eval_state_expr probe en s) (\<lambda>b.
       if \<not> b \<and> path_to model sid \<noteq> [] then Inr (Some (path_to model sid))
       else probe_states probe en model (Suc sid) ss)"

definition probe_of :: "expr \<Rightarrow> expr" where
  "probe_of e = (case e of Ctl Op_AG child \<Rightarrow> child | _ \<Rightarrow> e)"

definition witness_violation_path ::
  "exploration_result \<Rightarrow> (state \<Rightarrow> string list) \<Rightarrow> expr \<Rightarrow> nat set \<Rightarrow> nat list result" where
  "witness_violation_path model en e ok_set =
     (if 0 \<in> ok_set then Inr []
      else if ok_set \<noteq> {} \<and> bfs_path_outside (ex_edges model) ok_set \<noteq> [] then Inr (bfs_path_outside (ex_edges model) ok_set)
      else bind_result
        (if has_ctl_nodes (probe_of e) then Inr None else probe_states (probe_of e) en model 0 (ex_states model))
        (\<lambda>found. case found of
           Some path \<Rightarrow> Inr path
         | None \<Rightarrow>
             (let path = bfs_path_outside (ex_edges model) ok_set in Inr (if path \<noteq> [] then path else [0]))))"

record node_snapshot =
  ns_store :: "(string, val) dict"
  ns_pending :: "string list"
  ns_done :: "string list"

record ce_step =
  cs_state_index :: nat
  cs_transition :: "string option"
  cs_nodes :: "(string, node_snapshot) dict"

definition transition_label :: "exploration_result \<Rightarrow> nat option \<Rightarrow> nat \<Rightarrow> string option" where
  "transition_label model prev sid = (case prev of
       None \<Rightarrow> None
     | Some p \<Rightarrow>
         (case dict_get (ex_predecessors model) sid of
            None \<Rightarrow> None
          | Some (q, label) \<Rightarrow> if q = p then Some label else None))"

definition node_snapshots :: "joint_state \<Rightarrow> (string, node_snapshot) dict" where
  "node_snapshots j = foldl (\<lambda>d (cid, comp). dict_set cid
     \<lparr>ns_store = st_store comp, ns_pending = st_pending comp, ns_done = st_done comp\<rparr> d) []
     (zip (js_ids j) (js_components j))"

text \<open>\<open>prev\<close> is the state before \<open>sid\<close> on the path.\<close>

fun project_steps ::
  "(payload \<Rightarrow> 'h) \<Rightarrow> joint_adapter \<Rightarrow> 'h joint_memo \<Rightarrow> exploration_result \<Rightarrow> nat option \<Rightarrow> nat list \<Rightarrow> ce_step list result" where
  "project_steps H A memo model prev [] = Inr []"
| "project_steps H A memo model prev (sid # rest) =
     (if sid \<ge> length (ex_states model) then project_steps H A memo model (Some sid) rest
      else bind_result (joint_state_of H A memo (ex_states model ! sid)) (\<lambda>j.
        bind_result (project_steps H A memo model (Some sid) rest) (\<lambda>steps.
          Inr (\<lparr>cs_state_index = sid, cs_transition = transition_label model prev sid,
                cs_nodes = node_snapshots j\<rparr> # steps))))"

definition project_counterexample ::
  "(payload \<Rightarrow> 'h) \<Rightarrow> joint_adapter \<Rightarrow> 'h joint_memo \<Rightarrow> exploration_result \<Rightarrow> nat list \<Rightarrow> ce_step list result" where
  "project_counterexample H A memo model path = project_steps H A memo model None path"

section \<open>Verdicts and reports\<close>

record joint_verdict =
  jv_formula :: string
  jv_satisfied :: bool
  jv_violation_path :: "nat list"
  jv_counterexample :: "ce_step list"

record joint_report =
  jr_verified :: bool
  jr_component_count :: nat
  jr_component_ids :: "string list"
  jr_formulas :: "string list"
  jr_verdicts :: "joint_verdict list"
  jr_state_count :: nat
  jr_edge_count :: nat
  jr_deadlock_count :: nat
  jr_mode :: string

definition failed_formulas :: "joint_report \<Rightarrow> string list" where
  "failed_formulas r = map jv_formula (filter (\<lambda>v. \<not> jv_satisfied v) (jr_verdicts r))"

definition edge_count :: "(nat, nat list) dict \<Rightarrow> nat" where
  "edge_count edges = sum_list (map (\<lambda>(_, succs). length succs) edges)"

definition joint_verdict_of ::
  "(payload \<Rightarrow> 'h) \<Rightarrow> joint_adapter \<Rightarrow> 'h joint_memo \<Rightarrow> exploration_result \<Rightarrow> bool \<Rightarrow> string \<Rightarrow> joint_verdict result" where
  "joint_verdict_of H A memo model project_ce formula =
     bind_result (parse_expr formula) (\<lambda>e.
       let en = joint_enabled H A memo; ok_set = check_ctl en model e in
       if 0 \<in> ok_set then Inr \<lparr>jv_formula = formula, jv_satisfied = True, jv_violation_path = [], jv_counterexample = []\<rparr>
       else bind_result (witness_violation_path model en e ok_set) (\<lambda>path.
         bind_result (if project_ce then project_counterexample H A memo model path else Inr []) (\<lambda>ce.
           Inr \<lparr>jv_formula = formula, jv_satisfied = False, jv_violation_path = path, jv_counterexample = ce\<rparr>)))"

text \<open>An unknown hash mode raises when the initial state is hashed.\<close>

definition explore_mode ::
  "(payload \<Rightarrow> 'h) \<Rightarrow> joint_adapter \<Rightarrow> int \<Rightarrow> string \<Rightarrow> (exploration_result \<times> 'h joint_memo) result" where
  "explore_mode H A max_depth hash_mode = (case hash_mode_of hash_mode of
       Inl exc \<Rightarrow> bind_result (joint_initial H A []) (\<lambda>_. Inl exc)
     | Inr mode \<Rightarrow> explorer_run H (joint_ex H A) [] max_depth mode)"

definition joint_verify ::
  "(payload \<Rightarrow> 'h) \<Rightarrow> component list \<Rightarrow> string list \<Rightarrow> string list option \<Rightarrow> int \<Rightarrow> string \<Rightarrow> bool \<Rightarrow> joint_report result" where
  "joint_verify H comps formulas component_ids max_depth hash_mode project_ce =
     bind_result (from_components comps component_ids) (\<lambda>A.
     bind_result (explore_mode H A max_depth hash_mode) (\<lambda>(model, memo).
     bind_result (map_result (joint_verdict_of H A memo model project_ce) formulas) (\<lambda>verdicts.
       Inr \<lparr>jr_verified = list_all jv_satisfied verdicts, jr_component_count = length comps,
            jr_component_ids = ja_ids A, jr_formulas = formulas, jr_verdicts = verdicts,
            jr_state_count = length (ex_states model), jr_edge_count = edge_count (ex_edges model),
            jr_deadlock_count = length (ex_deadlocks model), jr_mode = ''monolithic''\<rparr>)))"

section \<open>The store-hash measurement\<close>

record por_measurement =
  pm_full_state_count :: nat
  pm_store_state_count :: nat
  pm_full_edge_count :: nat
  pm_store_edge_count :: nat
  pm_max_depth :: int

definition states_eliminated :: "por_measurement \<Rightarrow> int" where
  "states_eliminated m = int (pm_full_state_count m) - int (pm_store_state_count m)"

definition state_reduction_ratio :: "por_measurement \<Rightarrow> real" where
  "state_reduction_ratio m = (if pm_full_state_count m = 0 then 0
     else real_of_int (states_eliminated m) / real (pm_full_state_count m))"

text \<open>The second exploration continues with the memo the first one left.\<close>

definition measure_por ::
  "(payload \<Rightarrow> 'h) \<Rightarrow> component list \<Rightarrow> string list option \<Rightarrow> int \<Rightarrow> por_measurement result" where
  "measure_por H comps component_ids max_depth =
     bind_result (from_components comps component_ids) (\<lambda>A.
     bind_result (explorer_run H (joint_ex H A) [] max_depth Full) (\<lambda>(full, memo).
     bind_result (explorer_run H (joint_ex H A) memo max_depth Store) (\<lambda>(store, _).
       Inr \<lparr>pm_full_state_count = length (ex_states full), pm_store_state_count = length (ex_states store),
            pm_full_edge_count = edge_count (ex_edges full), pm_store_edge_count = edge_count (ex_edges store),
            pm_max_depth = max_depth\<rparr>)))"

section \<open>Predicates of the product\<close>

lemma eval_predicate_project:
  assumes "ids_ok ids" "length js = length ids" "i < length ids" "dict_wf (st_store (js ! i))"
    and "str_lower n \<in> {''has'', ''pending'', ''done''}"
  shows "eval_predicate n (Some (prefixed (ids ! i) x)) en (project js ids) = eval_predicate n (Some x) en' (js ! i)"
proof -
  have el: "prefixed (ids ! i) x \<in> set xs \<longleftrightarrow> x \<in> set ys"
    if "filter (has_prefix (ids ! i)) xs = map (prefixed (ids ! i)) ys" for xs ys
  proof -
    have "prefixed (ids ! i) x \<in> set xs \<longleftrightarrow> prefixed (ids ! i) x \<in> set (filter (has_prefix (ids ! i)) xs)" by simp
    also have "\<dots> \<longleftrightarrow> x \<in> set ys" unfolding that by auto
    finally show ?thesis .
  qed
  note pc = project_component[OF assms(1-3)]
  show ?thesis
    using assms(5) el[OF pc(1)] el[OF pc(2)] dict_get_project[OF assms(1-4), of x]
    by (auto simp: eval_predicate_def dict_has_iff)
qed

lemma state_holds_en: "en s = en' s \<Longrightarrow> state_holds en e s = state_holds en' e s"
  by (induction e) (simp_all add: eval_predicate_def)

section \<open>Verification of a lawful product returns\<close>

lemma joint_enabled_known:
  assumes "joint_ok H A" "joint_known H A m s"
  shows "joint_enabled H A m s = joint_steps A (decode A s)"
  by (simp add: joint_enabled_def joint_known_lookup(1)[OF assms])

lemma probe_states_first:
  assumes "\<not> has_ctl_nodes e" and "\<And>i. i < k + length ss \<Longrightarrow> path_to model i \<noteq> []"
  shows "probe_states e en model k ss =
    Inr (map_option (\<lambda>i. path_to model (k + i)) (first_index (\<lambda>s. \<not> state_holds en e s) ss))"
  using assms(2)
proof (induction ss arbitrary: k)
  case (Cons s ss)
  then show ?case
    by (auto simp: eval_state_expr_holds[OF assms(1)] option.map_comp comp_def)
qed simp

lemma project_steps_total:
  assumes "joint_ok H A" "\<forall>s\<in>set (ex_states model). joint_known H A m s"
  shows "\<exists>ce. project_steps H A m model prev path = Inr ce"
proof (induction path arbitrary: prev)
  case (Cons sid path)
  obtain ce where ce: "project_steps H A m model (Some sid) path = Inr ce" using Cons by blast
  have "\<exists>j. joint_state_of H A m (ex_states model ! sid) = Inr j" if "sid < length (ex_states model)"
  proof -
    have known: "joint_known H A m (ex_states model ! sid)" using assms(2) that by simp
    note look = joint_known_lookup[OF assms(1) known]
    have "length (decode A (ex_states model ! sid)) = length (ja_ids A)"
      using look(2) assms(1) by (simp add: product_reach_def joint_ok_def)
    then show ?thesis by (simp add: joint_state_of_def look(1) mk_joint_state_def)
  qed
  with ce show ?case by (cases "sid < length (ex_states model)") auto
qed simp

lemma witness_violation_path_total: 
  assumes "\<And>i. i < length (ex_states model) \<Longrightarrow> path_to model i \<noteq> []"
  shows "\<exists>p. witness_violation_path model en e ok_set = Inr p"
  using probe_states_first[of "probe_of e" 0 "ex_states model" model en] assms
  by (auto simp: witness_violation_path_def Let_def split: option.splits)

lemma joint_verdict_total:
  assumes ok: "joint_ok H A" and ex: "explored init ps pd key D d model"
    and known: "\<forall>s\<in>set (ex_states model). joint_known H A m s" and e: "parse_expr f = Inr e"
  shows "\<exists>v. joint_verdict_of H A m model pc f = Inr v \<and>
    (jv_satisfied v \<longleftrightarrow> 0 \<in> check_ctl (joint_enabled H A m) model e)"
proof -
  obtain p where p: "witness_violation_path model (joint_enabled H A m) e (check_ctl (joint_enabled H A m) model e) = Inr p"
    using witness_violation_path_total path_to_edges(1)[OF ex] by blast
  obtain ce where "project_counterexample H A m model p = Inr ce"
    using project_steps_total[OF ok known] by (auto simp: project_counterexample_def)
  with e p show ?thesis by (simp add: joint_verdict_of_def Let_def)
qed

lemma joint_verify_returns:
  assumes A: "from_components comps ids = Inr A" and ok: "joint_ok H A"
    and fs: "\<forall>f\<in>set fs. \<exists>e. parse_expr f = Inr e"
  obtains rep model m d where "joint_verify H comps fs ids D ''full'' pc = Inr rep"
    "explored (joint_init A) (joint_succ A) (joint_dead A) (stable_hash H Full) D d model"
    "\<forall>s\<in>set (ex_states model). joint_known H A m s" "length (jr_verdicts rep) = length fs"
    "jr_verified rep = list_all jv_satisfied (jr_verdicts rep)"
    "\<forall>i e. i < length fs \<and> parse_expr (fs ! i) = Inr e \<longrightarrow>
       (jv_satisfied (jr_verdicts rep ! i) \<longleftrightarrow> 0 \<in> check_ctl (joint_enabled H A m) model e)"
proof -
  obtain model m d where run: "explorer_run H (joint_ex H A) [] D Full = Inr (model, m)"
    and ex: "explored (joint_init A) (joint_succ A) (joint_dead A) (stable_hash H Full) D d model"
    and known: "\<forall>s\<in>set (ex_states model). joint_known H A m s"
    by (rule joint_explored[OF ok memo_ok_Nil, of D Full])
  have "\<exists>v. joint_verdict_of H A m model pc f = Inr v" if "f \<in> set fs" for f
    using joint_verdict_total[OF ok ex known] fs that by blast
  then obtain g where "\<And>f. f \<in> set fs \<Longrightarrow> joint_verdict_of H A m model pc f = Inr (g f)" by metis
  note g = this map_result_total[OF this]
  show ?thesis
  proof (rule that)
    show "joint_verify H comps fs ids D ''full'' pc = Inr
      \<lparr>jr_verified = list_all jv_satisfied (map g fs), jr_component_count = length comps,
       jr_component_ids = ja_ids A, jr_formulas = fs, jr_verdicts = map g fs,
       jr_state_count = length (ex_states model), jr_edge_count = edge_count (ex_edges model),
       jr_deadlock_count = length (ex_deadlocks model), jr_mode = ''monolithic''\<rparr>"
      by (simp add: joint_verify_def A explore_mode_def hash_mode_of_def run g(2))
    show "\<forall>i e. i < length fs \<and> parse_expr (fs ! i) = Inr e \<longrightarrow> (jv_satisfied (jr_verdicts \<lparr>jr_verified = list_all jv_satisfied (map g fs), jr_component_count = length comps,
       jr_component_ids = ja_ids A, jr_formulas = fs, jr_verdicts = map g fs,
       jr_state_count = length (ex_states model), jr_edge_count = edge_count (ex_edges model),
       jr_deadlock_count = length (ex_deadlocks model), jr_mode = ''monolithic''\<rparr> ! i) \<longleftrightarrow>
       0 \<in> check_ctl (joint_enabled H A m) model e)"
      using joint_verdict_total[OF ok ex known, of _ _ pc] g(1) by (auto, (metis nth_mem sum.inject(2))+)
  qed (use ex known in simp_all)
qed

text \<open>A state expression on the recorded states of the product, as a statement on tuples.\<close>

lemma joint_states_all:
  assumes ok: "joint_ok H A" and D: "0 \<le> D"
    and ex: "explored (joint_init A) (joint_succ A) (joint_dead A) (stable_hash H Full) D d model"
    and known: "\<forall>s\<in>set (ex_states model). joint_known H A m s"
  shows "(\<forall>s\<in>set (ex_states model). state_holds (joint_enabled H A m) e s) \<longleftrightarrow>
    (\<forall>k js. int k \<le> D \<and> (product_step A ^^ k) (product_init A) js \<longrightarrow>
       state_holds (\<lambda>_. joint_steps A js) e (project js (ja_ids A)))"
proof -
  have states: "set (ex_states model) = {s. \<exists>k. int k \<le> D \<and> (step_rel (joint_succ A) ^^ k) (joint_init A) s}"
    by (rule explored_states[OF ex joint_hash_inj[OF ok] D])
  have en: "state_holds (joint_enabled H A m) e (project js (ja_ids A)) =
      state_holds (\<lambda>_. joint_steps A js) e (project js (ja_ids A))"
    if "js \<in> product_reach A" "project js (ja_ids A) \<in> set (ex_states model)" for js
    using joint_enabled_known[OF ok] known that decode_project[OF ok that(1)] by (intro state_holds_en) auto
  show ?thesis
  proof (intro iffI allI impI ballI)
    fix k js
    assume all: "\<forall>s\<in>set (ex_states model). state_holds (joint_enabled H A m) e s"
      and k: "int k \<le> D \<and> (product_step A ^^ k) (product_init A) js"
    then have "js \<in> product_reach A" using product_run_reach by blast
    moreover from this have "project js (ja_ids A) \<in> set (ex_states model)"
      using k unfolding states joint_runs[OF ok] by blast
    ultimately show "state_holds (\<lambda>_. joint_steps A js) e (project js (ja_ids A))" using all en by blast
  next
    fix s
    assume all: "\<forall>k js. int k \<le> D \<and> (product_step A ^^ k) (product_init A) js \<longrightarrow>
       state_holds (\<lambda>_. joint_steps A js) e (project js (ja_ids A))" and s: "s \<in> set (ex_states model)"
    then obtain k js where "int k \<le> D" "(product_step A ^^ k) (product_init A) js" "js \<in> product_reach A"
      "s = project js (ja_ids A)" unfolding states joint_runs[OF ok] by blast
    then show "state_holds (joint_enabled H A m) e s" using all en s by blast
  qed
qed

section \<open>Properties\<close>

text \<open>Two agents that each run the plan that sets and clears two facts.\<close>

definition pair_components :: "component list" where
  "pair_components = [tm_component cycle_adapter, tm_component toggle_adapter]"

definition pair_adapter :: joint_adapter where
  "pair_adapter = \<lparr>ja_components = pair_components, ja_ids = [''agent0'', ''agent1'']\<rparr>"

lemma pair_from_components: "from_components pair_components None = Inr pair_adapter"
proof -
  have "str_nat 0 = ''0''" "str_nat (Suc 0) = ''1''" by code_simp+
  then show ?thesis by (simp add: from_components_def pair_components_def pair_adapter_def)
qed

lemma toggle_adapter_ok: "adapter_ok toggle_adapter"
  by (auto simp: adapter_ok_def plan_ok_def toggle_adapter_def)

lemma pair_ok: "joint_ok id pair_adapter"
proof -
  have "ids_ok [''agent0'', ''agent1'']" by code_simp
  then show ?thesis
    using lawful_plan[OF cycle_adapter_ok] lawful_plan[OF toggle_adapter_ok]
    by (simp add: joint_ok_def pair_adapter_def pair_components_def collision_free_inj)
qed

text \<open>
  C5. The verdicts of a joint verification are about all interleavings: for lawful components
  under prefix-free ids, a digest without collisions and formulas that parse, \<^verbatim>\<open>joint_verify\<close> with
  full hashing returns a report with one verdict per formula; a formula \<open>AG e\<close> is satisfied exactly
  when \<open>e\<close> is true in every combination of component states that at most the given number of
  component moves can reach; and the report is verified exactly when all verdicts are.
\<close>

theorem joint_verify_ag_exact:
  assumes "from_components comps ids = Inr A" and "joint_ok H A" and "0 \<le> D"
    and "\<forall>f\<in>set fs. \<exists>e. parse_expr f = Inr e"
  shows "\<exists>rep. joint_verify H comps fs ids D ''full'' pc = Inr rep \<and> length (jr_verdicts rep) = length fs \<and>
    (jr_verified rep \<longleftrightarrow> (\<forall>v\<in>set (jr_verdicts rep). jv_satisfied v)) \<and>
    (\<forall>i e. i < length fs \<and> parse_expr (fs ! i) = Inr (Ctl Op_AG e) \<and> \<not> has_ctl_nodes e \<longrightarrow>
      (jv_satisfied (jr_verdicts rep ! i) \<longleftrightarrow>
        (\<forall>k js. int k \<le> D \<and> (product_step A ^^ k) (product_init A) js \<longrightarrow>
           eval_state_expr e (\<lambda>_. joint_steps A js) (project js (ja_ids A)) = Inr True)))"
proof -
  obtain rep model m d where rep: "joint_verify H comps fs ids D ''full'' pc = Inr rep"
    and ex: "explored (joint_init A) (joint_succ A) (joint_dead A) (stable_hash H Full) D d model"
    and known: "\<forall>s\<in>set (ex_states model). joint_known H A m s"
    and len: "length (jr_verdicts rep) = length fs" "jr_verified rep = list_all jv_satisfied (jr_verdicts rep)"
    and sats: "\<forall>i e. i < length fs \<and> parse_expr (fs ! i) = Inr e \<longrightarrow>
       (jv_satisfied (jr_verdicts rep ! i) \<longleftrightarrow> 0 \<in> check_ctl (joint_enabled H A m) model e)"
    by (rule joint_verify_returns[OF assms(1,2,4), of D pc])
  have "jv_satisfied (jr_verdicts rep ! i) \<longleftrightarrow>
      (\<forall>k js. int k \<le> D \<and> (product_step A ^^ k) (product_init A) js \<longrightarrow>
         eval_state_expr e (\<lambda>_. joint_steps A js) (project js (ja_ids A)) = Inr True)"
    if "i < length fs" "parse_expr (fs ! i) = Inr (Ctl Op_AG e)" "\<not> has_ctl_nodes e" for i e
    using sats that(1,2) root_verdicts(1)[OF ex that(3)] joint_states_all[OF assms(2,3) ex known]
    by (simp add: eval_state_expr_holds[OF that(3)])
  with rep len show ?thesis by (auto simp: list_all_iff)
qed

theorem joint_verify_ag_exact_witness:
  "\<exists>rep. joint_verify id pair_components [''AG !(has(agent0.y) && has(agent1.off))''] None 4 ''full'' True = Inr rep \<and>
    length (jr_verdicts rep) = 1 \<and> (jr_verified rep \<longleftrightarrow> (\<forall>v\<in>set (jr_verdicts rep). jv_satisfied v))"
proof -
  have "returns (parse_expr ''AG !(has(agent0.y) && has(agent1.off))'') (\<lambda>_. True)" by code_simp
  then have "\<exists>e. parse_expr ''AG !(has(agent0.y) && has(agent1.off))'' = Inr e" by (auto simp: returns_iff)
  then show ?thesis
    using joint_verify_ag_exact[OF pair_from_components pair_ok, of 4 "[''AG !(has(agent0.y) && has(agent1.off))'']" True]
    by fastforce
qed

text \<open>
  A predicate under a component's prefix is that component's own predicate: in the projection
  of a joint state, with prefix-free ids, \<^verbatim>\<open>has\<close>, \<^verbatim>\<open>pending\<close> and \<^verbatim>\<open>done\<close> of \<open>id.x\<close> are true exactly when they
  are true of \<open>x\<close> in the state of the component with that id.
\<close>

theorem project_predicate:
  assumes "ids_ok ids" "length js = length ids" "i < length ids" "dict_wf (st_store (js ! i))"
    and "str_lower n \<in> {''has'', ''pending'', ''done''}"
  shows "eval_predicate n (Some (prefixed (ids ! i) x)) en (project js ids) = eval_predicate n (Some x) en' (js ! i)"
  by (rule eval_predicate_project[OF assms])

theorem project_predicate_witness:
  "eval_predicate ''has'' (Some ''b.lit'') (\<lambda>_. []) (project [plan_init cycle_adapter, toggle_state] [''a'', ''b'']) =
   eval_predicate ''has'' (Some ''lit'') (\<lambda>_. []) toggle_state"
proof -
  have "ids_ok [''a'', ''b'']" "str_lower ''has'' = ''has''" by code_simp+
  then show ?thesis
    using project_predicate[of "[''a'', ''b'']" "[plan_init cycle_adapter, toggle_state]" 1 "''has''" "''lit''" "\<lambda>_. []" "\<lambda>_. []"]
    by (simp add: prefixed_def toggle_state_def)
qed

text \<open>
  When no state of the product satisfies a failed formula \<open>AG p\<close>, with \<open>p\<close> a state expression,
  the reported path follows explored edges and ends in a state that violates \<open>p\<close>.
\<close>

theorem violation_path_reaches:
  assumes "joint_ok H A" and "explorer_run H (joint_ex H A) [] D mode = Inr (model, m)"
    and "\<not> has_ctl_nodes p" and "check_ctl en model (Ctl Op_AG p) = {}"
  shows "\<exists>path. witness_violation_path model en (Ctl Op_AG p) {} = Inr path \<and> path \<noteq> [] \<and>
    last path < length (ex_states model) \<and> successively (edge model) path \<and>
    eval_state_expr p en (ex_states model ! last path) = Inr False"
proof -
  obtain d where ex: "explored (joint_init A) (joint_succ A) (joint_dead A) (stable_hash H mode) D d model"
    by (rule joint_explored[OF assms(1) memo_ok_Nil, of D mode]) (use assms(2) in auto)
  have "\<not> (\<forall>s\<in>set (ex_states model). state_holds en p s)"
    using root_verdicts(1)[OF ex assms(3)] assms(4) by blast
  then have "first_index (\<lambda>s. \<not> state_holds en p s) (ex_states model) \<noteq> None" by (simp add: first_index_None)
  then obtain i where i: "first_index (\<lambda>s. \<not> state_holds en p s) (ex_states model) = Some i" by auto
  then have "i < length (ex_states model)" "\<not> state_holds en p (ex_states model ! i)" by (auto simp: first_index_Some)
  moreover note path_to_edges[OF ex this(1)]
  moreover have "witness_violation_path model en (Ctl Op_AG p) {} = Inr (path_to model i)"
    using probe_states_first[OF assms(3), of 0 "ex_states model" model en] path_to_edges(1)[OF ex] assms(3) i
    by (simp add: witness_violation_path_def probe_of_def)
  ultimately show ?thesis by (simp add: eval_state_expr_holds[OF assms(3)])
qed

text \<open>A plan whose second step sets a fact that then stays: no state satisfies \<open>AG\<close> of its absence.\<close>

definition stay_adapter :: tm_adapter where
  "stay_adapter = \<lparr>ta_plan = \<lparr>pl_steps =
       [(''a'', \<lparr>sp_name = ''a'', sp_reads = [], sp_writes = [''x''], sp_fn = noop_fn, sp_clears = []\<rparr>),
        (''b'', \<lparr>sp_name = ''b'', sp_reads = [''x''], sp_writes = [''y''], sp_fn = noop_fn, sp_clears = []\<rparr>)],
       pl_rules = []\<rparr>,
     ta_initial_store = [], ta_changed_paths = [], ta_initial_pending = [''a'', ''b''], ta_initial_done = []\<rparr>"

definition solo :: "tm_adapter \<Rightarrow> joint_adapter" where
  "solo a = \<lparr>ja_components = [tm_component a], ja_ids = [''agent0'']\<rparr>"

lemma stay_adapter_ok: "adapter_ok stay_adapter"
  by (auto simp: adapter_ok_def plan_ok_def stay_adapter_def)

lemma solo_ok: "adapter_ok a \<Longrightarrow> joint_ok id (solo a)"
  by (simp add: joint_ok_def solo_def ids_ok_def lawful_plan collision_free_inj)

definition no_y :: expr where
  "no_y = NotE (Predicate ''has'' (Some ''agent0.y''))"

theorem violation_path_reaches_witness:
  "\<exists>model m path. explorer_run id (joint_ex id (solo stay_adapter)) [] 8 Full = Inr (model, m) \<and>
    witness_violation_path model (joint_enabled id (solo stay_adapter) m) (Ctl Op_AG no_y) {} = Inr path \<and>
    path \<noteq> [] \<and> eval_state_expr no_y (joint_enabled id (solo stay_adapter) m) (ex_states model ! last path) = Inr False"
proof -
  have "returns (explorer_run id (joint_ex id (solo stay_adapter)) [] 8 Full)
      (\<lambda>(model, m). check_ctl (joint_enabled id (solo stay_adapter) m) model (Ctl Op_AG no_y) = {})"
    by code_simp
  then obtain model m where run: "explorer_run id (joint_ex id (solo stay_adapter)) [] 8 Full = Inr (model, m)"
    "check_ctl (joint_enabled id (solo stay_adapter) m) model (Ctl Op_AG no_y) = {}"
    by (auto simp: returns_iff)
  have "\<not> has_ctl_nodes no_y" by (simp add: no_y_def)
  from violation_path_reaches[OF solo_ok[OF stay_adapter_ok] run(1) this run(2)] run(1) show ?thesis by blast
qed

text \<open>
  When some state satisfies a failed formula, the reported path stays at the root: for the
  plan that sets two facts and clears them, \<^verbatim>\<open>AG !has(agent0.y)\<close> is reported violated with the path
  \<open>[0]\<close>, although \<^verbatim>\<open>agent0.y\<close> is false in state 0 and the violating state is two steps away.
\<close>

theorem violation_path_stays_at_root:
  "\<exists>rep. joint_verify id [tm_component cycle_adapter] [''AG !has(agent0.y)''] None 8 ''full'' True = Inr rep \<and>
    map jv_satisfied (jr_verdicts rep) = [False] \<and> map jv_violation_path (jr_verdicts rep) = [[0]] \<and>
    map (\<lambda>v. map cs_transition (jv_counterexample v)) (jr_verdicts rep) = [[None]] \<and>
    (\<exists>model m. explorer_run id (joint_ex id (solo cycle_adapter)) [] 8 Full = Inr (model, m) \<and>
       dict_get (st_store (ex_states model ! 0)) ''agent0.y'' = None \<and>
       dict_get (st_store (ex_states model ! 2)) ''agent0.y'' = Some (VBool True) \<and> edge model 0 1 \<and> edge model 1 2)"
proof -
  have "returns (joint_verify id [tm_component cycle_adapter] [''AG !has(agent0.y)''] None 8 ''full'' True)
      (\<lambda>rep. map jv_satisfied (jr_verdicts rep) = [False] \<and> map jv_violation_path (jr_verdicts rep) = [[0]] \<and>
        map (\<lambda>v. map cs_transition (jv_counterexample v)) (jr_verdicts rep) = [[None]])"
    by code_simp
  moreover have "returns (explorer_run id (joint_ex id (solo cycle_adapter)) [] 8 Full)
      (\<lambda>(model, m). dict_get (st_store (ex_states model ! 0)) ''agent0.y'' = None \<and>
       dict_get (st_store (ex_states model ! 2)) ''agent0.y'' = Some (VBool True) \<and> edge model 0 1 \<and> edge model 1 2)"
    by code_simp
  ultimately show ?thesis by (fastforce simp: returns_iff)
qed

text \<open>
  Component ids are accepted although they make predicates ambiguous: with the ids \<^verbatim>\<open>a\<close> and
  \<^verbatim>\<open>a.b\<close>, which pass validation, \<^verbatim>\<open>has(a.b.x)\<close> is true in a joint state in which the component \<^verbatim>\<open>a.b\<close>
  does not have \<^verbatim>\<open>x\<close>, because component \<^verbatim>\<open>a\<close> has the fact \<^verbatim>\<open>b.x\<close>.
\<close>

theorem ambiguous_component_ids:
  "(\<exists>A. from_components pair_components (Some [''a'', ''a.b'']) = Inr A) \<and>
   (let other = \<lparr>st_store = [], st_pending = [], st_done = [], st_events = []\<rparr>;
        js = [\<lparr>st_store = [(''b.x'', VBool True)], st_pending = [], st_done = [], st_events = []\<rparr>, other]
    in eval_predicate ''has'' (Some ''a.b.x'') (\<lambda>_. []) (project js [''a'', ''a.b'']) \<and>
       \<not> eval_predicate ''has'' (Some ''x'') (\<lambda>_. []) other)"
proof -
  have "returns (from_components pair_components (Some [''a'', ''a.b''])) (\<lambda>_. True)"
    by (simp add: from_components_def pair_components_def returns_def)
  moreover have "(let other = \<lparr>st_store = [], st_pending = [], st_done = [], st_events = []\<rparr>;
        js = [\<lparr>st_store = [(''b.x'', VBool True)], st_pending = [], st_done = [], st_events = []\<rparr>, other]
    in eval_predicate ''has'' (Some ''a.b.x'') (\<lambda>_. []) (project js [''a'', ''a.b'']) \<and>
       \<not> eval_predicate ''has'' (Some ''x'') (\<lambda>_. []) other)" by code_simp
  ultimately show ?thesis by (auto simp: returns_iff)
qed

text \<open>
  The store-hash measurement of a lawful product returns; the store exploration never records
  more states than the full one, so the reduction ratio lies between 0 and 1.
\<close>

theorem measure_por_bounds:
  assumes "from_components comps ids = Inr A" and "joint_ok H A" and "0 \<le> D"
  shows "\<exists>m. measure_por H comps ids D = Inr m \<and> 1 \<le> pm_store_state_count m \<and>
    pm_store_state_count m \<le> pm_full_state_count m \<and> 0 \<le> states_eliminated m \<and>
    0 \<le> state_reduction_ratio m \<and> state_reduction_ratio m < 1"
proof -
  obtain full memo df where full: "explorer_run H (joint_ex H A) [] D Full = Inr (full, memo)"
    and exf: "explored (joint_init A) (joint_succ A) (joint_dead A) (stable_hash H Full) D df full"
    and memo: "memo_ok H A memo"
    by (rule joint_explored[OF assms(2) memo_ok_Nil, of D Full])
  obtain store memo' ds where store: "explorer_run H (joint_ex H A) memo D Store = Inr (store, memo')"
    and exs: "explored (joint_init A) (joint_succ A) (joint_dead A) (stable_hash H Store) D ds store"
    by (rule joint_explored[OF assms(2) memo, of D Store])
  have "distinct (ex_states store)" using exs unfolding explored_def Let_def distinct_conv_nth by metis
  moreover have "set (ex_states store) \<subseteq> set (ex_states full)"
  proof
    fix s assume "s \<in> set (ex_states store)"
    then obtain i where i: "i < length (ex_states store)" "ex_states store ! i = s" by (auto simp: in_set_conv_nth)
    then show "s \<in> set (ex_states full)"
      using explored_sound[OF exs i(1)] explored_depth[OF exs assms(3) i(1)]
      unfolding explored_states[OF exf joint_hash_inj[OF assms(2)] assms(3)] by blast
  qed
  ultimately have le: "length (ex_states store) \<le> length (ex_states full)"
    by (metis card_length card_mono distinct_card finite_set order_trans)
  have ne: "1 \<le> length (ex_states store)" using exs by (cases "ex_states store") (auto simp: explored_def Let_def)
  show ?thesis
    using le ne by (auto simp: measure_por_def assms(1) full store states_eliminated_def state_reduction_ratio_def)
qed

theorem measure_por_bounds_witness:
  "\<exists>m. measure_por id pair_components None 3 = Inr m \<and> 1 \<le> pm_store_state_count m \<and>
    pm_store_state_count m \<le> pm_full_state_count m"
  using measure_por_bounds[OF pair_from_components pair_ok, of 3] by auto

end
