(* ===== verification/Interface.thy ===== *)
theory Interface
  imports Bundles Joint_Verify
begin

text \<open>
  The interface abstraction of a leaf (\<^verbatim>\<open>InterfaceAdapter\<close> and its construction in
  \<^verbatim>\<open>tm/verify/compositional.py\<close>).  A set of present interface facts is the sorted list of its elements;
  the alphabet is sorted, so filtering it gives this form.
\<close>

section \<open>The interface alphabet\<close>

text \<open>
  \<^verbatim>\<open>_HAS_ATOM.findall\<close>: the tokens of all \<^verbatim>\<open>has(token)\<close> occurrences, scanned from the left.
\<close>

definition atom_char :: "char \<Rightarrow> bool" where
  "atom_char c \<longleftrightarrow> is_alpha c \<or> is_digit c \<or> c = CHR ''_'' \<or> c = CHR ''.''"

definition match_has :: "string \<Rightarrow> (string \<times> string) option" where
  "match_has s =
     (if starts_with ''has('' s then
        (let s1 = dropWhile is_space (drop 4 s); tok = takeWhile atom_char s1;
             s2 = dropWhile is_space (dropWhile atom_char s1)
         in if tok \<noteq> [] \<and> starts_with '')'' s2 then Some (tok, drop 1 s2) else None)
      else None)"

lemma match_has_shorter: "match_has s = Some (tok, rest) \<Longrightarrow> length rest < length s"
proof -
  assume m: "match_has s = Some (tok, rest)"
  let ?s1 = "dropWhile is_space (drop 4 s)"
  let ?s2 = "dropWhile is_space (dropWhile atom_char ?s1)"
  have r: "rest = drop 1 ?s2" "starts_with '')'' ?s2"
    using m by (auto simp: match_has_def Let_def split: if_splits)
  have "length ?s2 \<le> length s"
    using length_dropWhile_le[of is_space "dropWhile atom_char ?s1"] length_dropWhile_le[of atom_char ?s1]
      length_dropWhile_le[of is_space "drop 4 s"] by simp
  then show ?thesis using r by (cases ?s2) auto
qed

function has_atoms :: "string \<Rightarrow> string list" where
  "has_atoms [] = []"
| "has_atoms (c # cs) =
     (case match_has (c # cs) of
        Some (tok, rest) \<Rightarrow> tok # has_atoms rest
      | None \<Rightarrow> has_atoms cs)"
  by pat_completeness auto
termination by (relation "measure length") (auto dest: match_has_shorter)

definition interface_atoms :: "string list \<Rightarrow> string list \<Rightarrow> string list" where
  "interface_atoms kpi_keys guarantees =
     sort (remdups (kpi_keys @ concat (map (\<lambda>f. map (\<lambda>tok. last (str_split (CHR ''.'') tok)) (has_atoms f)) guarantees)))"

section \<open>Abstract states\<close>

type_synonym present = "string list"

definition if_label :: "present \<Rightarrow> present \<Rightarrow> string" where
  "if_label a b =
     (let added = filter (\<lambda>x. x \<notin> set a) b; removed = filter (\<lambda>x. x \<notin> set b) a in
      if added = [] \<and> removed = [] then ''abs:stutter''
      else ''abs:'' @ str_join '','' (map (\<lambda>x. CHR ''+'' # x) added @ map (\<lambda>x. CHR ''-'' # x) removed))"

record abstraction_stats =
  as_interface_atoms :: "string list"
  as_concrete_state_count :: nat
  as_abstract_state_count :: nat

record interface_adapter =
  ia_atoms :: "string list"
  ia_initial_present :: present
  ia_transitions :: "(present, present list) dict"
  ia_deadlock_presents :: "present list"
  ia_stats :: abstraction_stats

definition if_state :: "present \<Rightarrow> state" where
  "if_state p = \<lparr>st_store = map (\<lambda>k. (k, VBool True)) (sort p), st_pending = [], st_done = [], st_events = []\<rparr>"

text \<open>The interface facts that are present: \<^verbatim>\<open>store.get(k)\<close> is truthy.\<close>

definition present_in :: "string list \<Rightarrow> state \<Rightarrow> present" where
  "present_in atoms s = filter (\<lambda>k. case dict_get (st_store s) k of None \<Rightarrow> False | Some v \<Rightarrow> truthy v) atoms"

definition if_successors :: "interface_adapter \<Rightarrow> state \<Rightarrow> (string \<times> state) list" where
  "if_successors a s = (let p = present_in (ia_atoms a) s in
     map (\<lambda>nxt. (if_label p nxt, if_state nxt)) (dict_get_or (ia_transitions a) p []))"

definition if_enabled_steps :: "interface_adapter \<Rightarrow> state \<Rightarrow> string list" where
  "if_enabled_steps a s = (let p = present_in (ia_atoms a) s in
     map (if_label p) (dict_get_or (ia_transitions a) p []))"

definition if_deadlocked :: "interface_adapter \<Rightarrow> state \<Rightarrow> bool" where
  "if_deadlocked a s = (let p = present_in (ia_atoms a) s in
     p \<in> set (ia_deadlock_presents a) \<and> dict_get_or (ia_transitions a) p [] = [])"

definition if_component :: "interface_adapter \<Rightarrow> component" where
  "if_component a = \<lparr>co_initial = Inr (if_state (ia_initial_present a)), co_successors = (\<lambda>s. Inr (if_successors a s)),
     co_deadlocked = if_deadlocked a, co_enabled = if_enabled_steps a\<rparr>"

section \<open>Building the abstraction\<close>

text \<open>The buckets: for every explored edge the target's projection, under the source's.\<close>

definition add_edges :: "present list \<Rightarrow> (present, present list) dict \<Rightarrow> nat \<times> nat list \<Rightarrow> (present, present list) dict" where
  "add_edges proj buckets e = (case e of (sid, outs) \<Rightarrow>
     (let a = proj ! sid; buckets1 = dict_setdefault a [] buckets
      in dict_set a (extend_new (dict_get_or buckets1 a []) (map (\<lambda>nid. proj ! nid) outs)) buckets1))"

definition abstract_model :: "string list \<Rightarrow> exploration_result \<Rightarrow> interface_adapter" where
  "abstract_model atoms r =
     (let proj = map (present_in atoms) (ex_states r);
          buckets = foldl (add_edges proj) [] (ex_edges r)
      in \<lparr>ia_atoms = atoms, ia_initial_present = proj ! 0,
          ia_transitions = map (\<lambda>(a, bucket). (a, sort bucket)) buckets,
          ia_deadlock_presents = remdups (map (\<lambda>d. proj ! d) (ex_deadlocks r)),
          ia_stats = \<lparr>as_interface_atoms = atoms, as_concrete_state_count = length (ex_states r),
                      as_abstract_state_count = length (remdups proj)\<rparr>\<rparr>)"

text \<open>An unknown hash mode raises when the initial state is hashed.\<close>

definition run_mode :: "(payload \<Rightarrow> 'h) \<Rightarrow> component \<Rightarrow> int \<Rightarrow> string \<Rightarrow> exploration_result result" where
  "run_mode H c max_depth hash_mode = (case hash_mode_of hash_mode of
       Inl exc \<Rightarrow> bind_result (co_initial c) (\<lambda>_. Inl exc)
     | Inr mode \<Rightarrow> bind_result (explorer_run H (of_component c) () max_depth mode) (\<lambda>(r, _). Inr r))"

definition interface_adapter_from_contract ::
  "(payload \<Rightarrow> 'h) \<Rightarrow> (val \<Rightarrow> string) \<Rightarrow> agent_bundle \<Rightarrow> string list \<Rightarrow> string list \<Rightarrow> int \<Rightarrow> string \<Rightarrow> interface_adapter result" where
  "interface_adapter_from_contract H rep bundle kpi_keys guarantees max_depth hash_mode =
     bind_result (adapter_from_bundle rep bundle) (\<lambda>concrete.
     bind_result (run_mode H (tm_component concrete) max_depth hash_mode) (\<lambda>r.
       Inr (abstract_model (interface_atoms kpi_keys guarantees) r)))"

end
