(* ===== verification/Compositional.thy ===== *)
theory Compositional
  imports Interface
begin

text \<open>
  Assume-guarantee verification of a star (\<^verbatim>\<open>classify_formula\<close> and \<^verbatim>\<open>assume_guarantee_verify\<close> in
  \<^verbatim>\<open>tm/verify/compositional.py\<close>): the classification of a formula into the compositional fragment and
  its discharge on one component, conjunct by conjunct, on the interface abstractions, or on the
  full product.  The explanatory texts of the code are the constructors of \<open>reason\<close>.
\<close>

section \<open>Classification\<close>

datatype property_class = SAFETY_GLOBAL | SINGLE_COMPONENT | DECOMPOSABLE | OUT_OF_CLASS

fun class_value :: "property_class \<Rightarrow> string" where
  "class_value SAFETY_GLOBAL = ''safety_global''"
| "class_value SINGLE_COMPONENT = ''single_component''"
| "class_value DECOMPOSABLE = ''decomposable''"
| "class_value OUT_OF_CLASS = ''out_of_class''"

datatype reason =
    Terminal_is_global
  | Conjunction_of_locals
  | Safety_one_component
  | Safety_many_components
  | Reachability_one_component
  | Reachability_many_components
  | Fairness
  | Liveness bool
  | Outside_fragment
  | Sibling_assumption string
  | No_single_component
  | Abstract_fail

definition predicate_component :: "string \<Rightarrow> string list \<Rightarrow> string option" where
  "predicate_component v ids = foldl (\<lambda>best cid.
     if v = cid \<or> starts_with (cid @ ''.'') v then
       (case best of None \<Rightarrow> Some cid | Some b \<Rightarrow> if length cid > length b then Some cid else best)
     else best) None ids"

text \<open>A frozen set of ids is the sorted list of its elements.\<close>

fun walk_components :: "string list \<Rightarrow> expr \<Rightarrow> string list" where
  "walk_components ids (Predicate n None) = []"
| "walk_components ids (Predicate n (Some v)) = (case predicate_component v ids of None \<Rightarrow> [] | Some cid \<Rightarrow> [cid])"
| "walk_components ids (NotE e) = walk_components ids e"
| "walk_components ids (AndE a b) = walk_components ids a @ walk_components ids b"
| "walk_components ids (OrE a b) = walk_components ids a @ walk_components ids b"
| "walk_components ids (Ctl op e) = walk_components ids e"
| "walk_components ids (Until op a b) = walk_components ids a @ walk_components ids b"

definition referenced_components :: "expr \<Rightarrow> string list \<Rightarrow> string list" where
  "referenced_components e ids = sort (remdups (walk_components ids e))"

fun contains_terminal :: "expr \<Rightarrow> bool" where
  "contains_terminal (Predicate n v) = (str_lower n = ''terminal'')"
| "contains_terminal (NotE e) = contains_terminal e"
| "contains_terminal (AndE a b) = (contains_terminal a \<or> contains_terminal b)"
| "contains_terminal (OrE a b) = (contains_terminal a \<or> contains_terminal b)"
| "contains_terminal (Ctl op e) = contains_terminal e"
| "contains_terminal (Until op a b) = (contains_terminal a \<or> contains_terminal b)"

fun contains_eventually :: "expr \<Rightarrow> bool" where
  "contains_eventually (Predicate n v) = False"
| "contains_eventually (NotE e) = contains_eventually e"
| "contains_eventually (AndE a b) = (contains_eventually a \<or> contains_eventually b)"
| "contains_eventually (OrE a b) = (contains_eventually a \<or> contains_eventually b)"
| "contains_eventually (Ctl op e) = (op = Op_EF \<or> op = Op_AF \<or> contains_eventually e)"
| "contains_eventually (Until op a b) = True"

fun split_conjuncts :: "expr \<Rightarrow> expr list" where
  "split_conjuncts (AndE a b) = split_conjuncts a @ split_conjuncts b"
| "split_conjuncts e = [e]"

record classification =
  cl_formula :: string
  cl_class :: property_class
  cl_components :: "string list"
  cl_compositional :: bool
  cl_reason :: reason

definition mk_class :: "string \<Rightarrow> property_class \<Rightarrow> string list \<Rightarrow> bool \<Rightarrow> reason \<Rightarrow> classification" where
  "mk_class f c refs comp_ok r = \<lparr>cl_formula = f, cl_class = c, cl_components = refs, cl_compositional = comp_ok, cl_reason = r\<rparr>"

definition classify_expr :: "string \<Rightarrow> expr \<Rightarrow> string list \<Rightarrow> classification" where
  "classify_expr f e ids =
     (let refs = referenced_components e ids; n = (\<lambda>x. length (referenced_components x ids)) in
      if contains_terminal e then mk_class f OUT_OF_CLASS refs False Terminal_is_global
      else case e of
        Ctl op body \<Rightarrow>
          if op = Op_AG \<and> \<not> has_ctl_nodes body then
            (if length (split_conjuncts body) > 1 \<and> list_all (\<lambda>c. n c \<le> 1) (split_conjuncts body) then
               mk_class f DECOMPOSABLE refs True Conjunction_of_locals
             else if n body \<le> 1 then mk_class f SINGLE_COMPONENT refs True Safety_one_component
             else mk_class f SAFETY_GLOBAL refs True Safety_many_components)
          else if op = Op_EF \<and> \<not> has_ctl_nodes body then
            (if n body = 1 then mk_class f SINGLE_COMPONENT refs True Reachability_one_component
             else mk_class f OUT_OF_CLASS refs False Reachability_many_components)
          else if op = Op_AG \<and> contains_eventually body then mk_class f OUT_OF_CLASS refs False Fairness
          else if contains_eventually e then mk_class f OUT_OF_CLASS refs False (Liveness (length refs \<le> 1))
          else mk_class f OUT_OF_CLASS refs False Outside_fragment
      | _ \<Rightarrow>
          if contains_eventually e then mk_class f OUT_OF_CLASS refs False (Liveness (length refs \<le> 1))
          else mk_class f OUT_OF_CLASS refs False Outside_fragment)"

definition classify_formula :: "string \<Rightarrow> string list \<Rightarrow> classification result" where
  "classify_formula f ids = bind_result (parse_expr f) (\<lambda>e. Inr (classify_expr f e ids))"

section \<open>Discharge\<close>

record leaf_spec =
  ls_component_id :: string
  ls_bundle :: agent_bundle
  ls_kpi_keys :: "string list"
  ls_guarantees :: "string list"
  ls_assumptions :: "string list"

record local_verdict =
  lv_component_id :: string
  lv_guarantee :: string
  lv_satisfied :: bool

record fallback =
  fb_formula :: string
  fb_trigger :: string
  fb_reason :: reason
  fb_monolithic_satisfied :: bool

record compositional_verdict =
  cv_formula :: string
  cv_satisfied :: bool
  cv_class :: string
  cv_via :: string

record compositional_report =
  cr_verified :: bool
  cr_center_id :: string
  cr_leaf_ids :: "string list"
  cr_formulas :: "string list"
  cr_verdicts :: "compositional_verdict list"
  cr_local_verdicts :: "local_verdict list"
  cr_abstraction_stats :: "(string, abstraction_stats) dict"
  cr_compositional_state_count :: nat
  cr_monolithic_state_count :: "nat option"
  cr_fallbacks :: "fallback list"
  cr_mode :: string

text \<open>Only a \<^verbatim>\<open>ValueError\<close> of the parser is swallowed.\<close>

fun assumption_refs :: "string list \<Rightarrow> string list \<Rightarrow> string list \<Rightarrow> bool result" where
  "assumption_refs leaf_ids others [] = Inr False"
| "assumption_refs leaf_ids others (a # as) =
     (case parse_expr a of
        Inr e \<Rightarrow> if list_ex (\<lambda>c. c \<in> set others) (referenced_components e leaf_ids) then Inr True
                 else assumption_refs leaf_ids others as
      | Inl (ValueError _) \<Rightarrow> assumption_refs leaf_ids others as
      | Inl exc \<Rightarrow> Inl exc)"

fun assumption_cycle :: "leaf_spec list \<Rightarrow> string list \<Rightarrow> string option result" where
  "assumption_cycle [] leaf_ids = Inr None"
| "assumption_cycle (spec # rest) leaf_ids =
     bind_result (assumption_refs leaf_ids (filter (\<lambda>i. i \<noteq> ls_component_id spec) leaf_ids) (ls_assumptions spec))
       (\<lambda>found. if found then Inr (Some (ls_component_id spec)) else assumption_cycle rest leaf_ids)"

text \<open>One formula on a product: its verdict and the number of states.\<close>

definition verify_one ::
  "(payload \<Rightarrow> 'h) \<Rightarrow> int \<Rightarrow> string \<Rightarrow> component list \<Rightarrow> string list \<Rightarrow> string \<Rightarrow> (bool \<times> nat) result" where
  "verify_one H max_depth hash_mode comps ids f =
     bind_result (joint_verify H comps [f] (Some ids) max_depth hash_mode True) (\<lambda>rep.
       Inr (jv_satisfied (hd (jr_verdicts rep)), jr_state_count rep))"

text \<open>The three closures \<^verbatim>\<open>mono_verify\<close>, \<^verbatim>\<open>exact_local\<close> and \<^verbatim>\<open>center_verify\<close> of a run.\<close>

record verifiers =
  vf_mono :: "string \<Rightarrow> (bool \<times> nat) result"
  vf_local :: "string \<Rightarrow> string \<Rightarrow> bool result"
  vf_center :: "string \<Rightarrow> bool result"

text \<open>The loop over the conjuncts; the last monolithic state count is passed on.\<close>

fun discharge_conjuncts :: "verifiers \<Rightarrow> string list \<Rightarrow> expr list \<Rightarrow> bool \<Rightarrow> nat option \<Rightarrow> (bool \<times> nat option) result" where
  "discharge_conjuncts V ids [] ok mcount = Inr (ok, mcount)"
| "discharge_conjuncts V ids (c # cs) ok mcount =
     (let sub = ''AG '' @ unparse c in
      case referenced_components c ids of
        [cid] \<Rightarrow> bind_result (vf_local V sub cid) (\<lambda>b. discharge_conjuncts V ids cs (b \<and> ok) mcount)
      | _ \<Rightarrow> bind_result (vf_mono V sub) (\<lambda>(b, n). discharge_conjuncts V ids cs (b \<and> ok) (Some n)))"

definition mk_verdict :: "string \<Rightarrow> bool \<Rightarrow> property_class \<Rightarrow> string \<Rightarrow> compositional_verdict" where
  "mk_verdict f b c via = \<lparr>cv_formula = f, cv_satisfied = b, cv_class = class_value c, cv_via = via\<rparr>"

definition mk_fallback :: "string \<Rightarrow> string \<Rightarrow> reason \<Rightarrow> bool \<Rightarrow> fallback" where
  "mk_fallback f trigger r b = \<lparr>fb_formula = f, fb_trigger = trigger, fb_reason = r, fb_monolithic_satisfied = b\<rparr>"

text \<open>The fallback on the full product.\<close>

definition discharge_mono ::
  "verifiers \<Rightarrow> classification \<Rightarrow> string \<Rightarrow> string \<Rightarrow> reason \<Rightarrow> (compositional_verdict \<times> fallback list \<times> nat option) result" where
  "discharge_mono V cl via trigger r =
     bind_result (vf_mono V (cl_formula cl)) (\<lambda>(b, n).
       Inr (mk_verdict (cl_formula cl) b (cl_class cl) via, [mk_fallback (cl_formula cl) trigger r b], Some n))"

definition ag_body :: "expr \<Rightarrow> expr" where
  "ag_body e = (case e of Ctl op body \<Rightarrow> body | _ \<Rightarrow> e)"

text \<open>The body of the loop over the formulas.\<close>

definition discharge_formula ::
  "verifiers \<Rightarrow> string list \<Rightarrow> string option \<Rightarrow> string \<Rightarrow> (compositional_verdict \<times> fallback list \<times> nat option) result" where
  "discharge_formula V ids cyclic_leaf f =
     bind_result (classify_formula f ids) (\<lambda>cl.
       case (cl_compositional cl, cyclic_leaf) of
         (True, Some leaf) \<Rightarrow> discharge_mono V cl ''monolithic_fallback'' ''cyclic_assumption'' (Sibling_assumption leaf)
       | _ \<Rightarrow>
         (case cl_class cl of
            OUT_OF_CLASS \<Rightarrow> discharge_mono V cl ''monolithic_fallback'' ''out_of_class'' (cl_reason cl)
          | SINGLE_COMPONENT \<Rightarrow>
              (case cl_components cl of
                 [cid] \<Rightarrow> bind_result (vf_local V f cid) (\<lambda>b.
                   Inr (mk_verdict f b SINGLE_COMPONENT ''compositional_local'', [], None))
               | _ \<Rightarrow> discharge_mono V cl ''monolithic_fallback'' ''out_of_class'' No_single_component)
          | DECOMPOSABLE \<Rightarrow>
              bind_result (parse_expr f) (\<lambda>e.
              bind_result (discharge_conjuncts V ids (split_conjuncts (ag_body e)) True None) (\<lambda>(b, mcount).
                Inr (mk_verdict f b DECOMPOSABLE ''compositional_decomposed'', [], mcount)))
          | SAFETY_GLOBAL \<Rightarrow>
              bind_result (vf_center V f) (\<lambda>b.
                if b then Inr (mk_verdict f True SAFETY_GLOBAL ''compositional'', [], None)
                else discharge_mono V cl ''monolithic_recheck'' ''spurious_fail_recheck'' Abstract_fail)))"

fun last_some :: "'a option list \<Rightarrow> 'a option" where
  "last_some [] = None"
| "last_some (x # xs) = (case last_some xs of None \<Rightarrow> x | Some y \<Rightarrow> Some y)"

definition local_checks ::
  "(string \<Rightarrow> string \<Rightarrow> bool result) \<Rightarrow> leaf_spec list \<Rightarrow> local_verdict list result" where
  "local_checks loc leaves = bind_result
     (map_result (\<lambda>s. map_result (\<lambda>g. bind_result (loc g (ls_component_id s)) (\<lambda>b.
         Inr \<lparr>lv_component_id = ls_component_id s, lv_guarantee = g, lv_satisfied = b\<rparr>)) (ls_guarantees s)) leaves)
     (\<lambda>vs. Inr (concat vs))"

definition mk_verifiers ::
  "(payload \<Rightarrow> 'h) \<Rightarrow> int \<Rightarrow> string \<Rightarrow> string list \<Rightarrow> (string, component) dict \<Rightarrow> component list \<Rightarrow> verifiers" where
  "mk_verifiers H max_depth hash_mode ids concrete abs_comps =
     \<lparr>vf_mono = (\<lambda>f. bind_result (map_result (\<lambda>c. case dict_get concrete c of None \<Rightarrow> Inl (KeyError c) | Some x \<Rightarrow> Inr x) ids)
        (\<lambda>comps. verify_one H max_depth hash_mode comps ids f)),
      vf_local = (\<lambda>f cid. case dict_get concrete cid of
          None \<Rightarrow> Inl (KeyError cid)
        | Some x \<Rightarrow> bind_result (verify_one H max_depth hash_mode [x] [cid] f) (\<lambda>(b, _). Inr b)),
      vf_center = (\<lambda>f. bind_result (verify_one H max_depth hash_mode abs_comps ids f) (\<lambda>(b, _). Inr b))\<rparr>"

definition assume_guarantee_verify ::
  "(payload \<Rightarrow> 'h) \<Rightarrow> (val \<Rightarrow> string) \<Rightarrow> agent_bundle \<Rightarrow> leaf_spec list \<Rightarrow> string list \<Rightarrow> string \<Rightarrow> int \<Rightarrow> string
   \<Rightarrow> compositional_report result" where
  "assume_guarantee_verify H rep center_bundle leaves formulas center_id max_depth hash_mode =
     bind_result (adapter_from_bundle rep center_bundle) (\<lambda>center.
     let leaf_ids = map ls_component_id leaves; all_ids = center_id # leaf_ids in
     bind_result (map_result (\<lambda>s. bind_result (adapter_from_bundle rep (ls_bundle s)) (\<lambda>a.
         Inr (ls_component_id s, tm_component a))) leaves) (\<lambda>concrete_leaves.
     bind_result (map_result (\<lambda>s. bind_result
         (interface_adapter_from_contract H rep (ls_bundle s) (ls_kpi_keys s) (ls_guarantees s) max_depth hash_mode)
         (\<lambda>a. Inr (ls_component_id s, a))) leaves) (\<lambda>abs_leaves.
     let concrete = foldl (\<lambda>d (k, c). dict_set k c d) [(center_id, tm_component center)] concrete_leaves;
         abs_comps = tm_component center # map (\<lambda>(_, a). if_component a) abs_leaves;
         V = mk_verifiers H max_depth hash_mode all_ids concrete abs_comps in
     bind_result (from_components abs_comps (Some all_ids)) (\<lambda>A.
     bind_result (explore_mode H A max_depth hash_mode) (\<lambda>(comp_model, _).
     bind_result (local_checks (vf_local V) leaves) (\<lambda>local_verdicts.
     bind_result (assumption_cycle leaves leaf_ids) (\<lambda>cyclic_leaf.
     bind_result (map_result (discharge_formula V all_ids cyclic_leaf) formulas) (\<lambda>rs.
       Inr \<lparr>cr_verified = list_all (\<lambda>(v, _, _). cv_satisfied v) rs, cr_center_id = center_id, cr_leaf_ids = leaf_ids,
            cr_formulas = formulas, cr_verdicts = map (\<lambda>(v, _, _). v) rs, cr_local_verdicts = local_verdicts,
            cr_abstraction_stats = foldl (\<lambda>d (k, a). dict_set k (ia_stats a) d) [] abs_leaves,
            cr_compositional_state_count = length (ex_states comp_model),
            cr_monolithic_state_count = last_some (map (\<lambda>(_, _, m). m) rs),
            cr_fallbacks = concat (map (\<lambda>(_, fs, _). fs) rs), cr_mode = ''compositional''\<rparr>))))))))"

end
