(* ===== verification/Network.thy ===== *)
theory Network
  imports Compositional
begin

text \<open>
  Verification of agent networks (\<^verbatim>\<open>tm/verify/network.py\<close>): resolving a star network and its bundles
  into components or leaf contracts, the monolithic and the compositional mode, and reading the
  formulas out of a document.  File access and the JSON rendering of reports are left out.
\<close>

record network_edge =
  ne_source :: string
  ne_target :: string
  ne_kpi_keys :: "string list"

record agent_network =
  an_network_id :: string
  an_center_bundle_ref :: string
  an_leaf_bundle_refs :: "string list"
  an_edges :: "network_edge list"
  an_metadata :: "(string, val) dict"

record network_fallback =
  nf_formula :: string
  nf_trigger :: string
  nf_reason :: reason
  nf_monolithic_satisfied :: bool
  nf_via :: string

record network_report =
  nr_verified :: bool
  nr_network_id :: string
  nr_component_ids :: "string list"
  nr_formulas :: "string list"
  nr_verdicts :: "joint_verdict list"
  nr_state_count :: nat
  nr_edge_count :: nat
  nr_deadlock_count :: nat
  nr_mode :: string
  nr_local_verdicts :: "local_verdict list"
  nr_abstraction_stats :: "(string, abstraction_stats) dict"
  nr_compositional_state_count :: "nat option"
  nr_monolithic_state_count :: "nat option"
  nr_fallbacks :: "network_fallback list"

definition network_failed_formulas :: "network_report \<Rightarrow> string list" where
  "network_failed_formulas r = map jv_formula (filter (\<lambda>v. \<not> jv_satisfied v) (nr_verdicts r))"

text \<open>The formulas of a document that has been loaded; the error names its path.\<close>

definition formula_entry :: "(val \<Rightarrow> string) \<Rightarrow> val \<Rightarrow> string list" where
  "formula_entry rep entry = (case entry of
       VStr s \<Rightarrow> [s]
     | VDict d \<Rightarrow> (case dict_get d ''formula'' of
          Some v \<Rightarrow> if truthy v then [py_str rep v] else []
        | None \<Rightarrow> [])
     | _ \<Rightarrow> [])"

definition load_formulas :: "(val \<Rightarrow> string) \<Rightarrow> string \<Rightarrow> val option \<Rightarrow> string list result" where
  "load_formulas rep path doc = (case doc of
       None \<Rightarrow> Inr []
     | Some (VDict d) \<Rightarrow>
         (case get_or d ''formulas'' (get_or d ''properties'' (VList [])) of
            VList raw \<Rightarrow> Inr (concat (map (formula_entry rep) raw))
          | _ \<Rightarrow> Inl (ValueError (''unsupported formulas document at '' @ path)))
     | Some (VList xs) \<Rightarrow> Inr (map (py_str rep) xs)
     | Some _ \<Rightarrow> Inl (ValueError (''unsupported formulas document at '' @ path)))"

definition find_bundle :: "(string, agent_bundle) dict \<Rightarrow> string \<Rightarrow> agent_bundle result" where
  "find_bundle bundles ref = (case dict_get bundles ref of
       None \<Rightarrow> Inl (KeyError (''missing bundle artifact for ref '' @ quoted ref))
     | Some b \<Rightarrow> Inr b)"

definition resolve_bundle_adapters ::
  "(val \<Rightarrow> string) \<Rightarrow> agent_network \<Rightarrow> (string, agent_bundle) dict \<Rightarrow> (component list \<times> string list) result" where
  "resolve_bundle_adapters rep network bundles =
     (let required = an_center_bundle_ref network # an_leaf_bundle_refs network in
      bind_result (map_result (\<lambda>ref. bind_result (find_bundle bundles ref) (\<lambda>b.
          bind_result (adapter_from_bundle rep b) (\<lambda>a. Inr (tm_component a)))) required)
        (\<lambda>comps. Inr (comps, required)))"

definition edge_kpis :: "agent_network \<Rightarrow> string \<Rightarrow> string list" where
  "edge_kpis network ref = foldl (\<lambda>kpis e.
     if ref = ne_source e \<or> ref = ne_target e then extend_new kpis (ne_kpi_keys e) else kpis) [] (an_edges network)"

text \<open>The contract of a leaf under \<^verbatim>\<open>metadata.contracts\<close>, empty unless both are mappings.\<close>

definition contract_of :: "agent_network \<Rightarrow> string \<Rightarrow> (string, val) dict" where
  "contract_of network ref = (case dict_get (an_metadata network) ''contracts'' of
       Some (VDict contracts) \<Rightarrow> (case dict_get contracts ref of Some (VDict c) \<Rightarrow> c | _ \<Rightarrow> [])
     | _ \<Rightarrow> [])"

definition resolve_leaf_specs ::
  "(val \<Rightarrow> string) \<Rightarrow> agent_network \<Rightarrow> (string, agent_bundle) dict \<Rightarrow> leaf_spec list result" where
  "resolve_leaf_specs rep network bundles = map_result (\<lambda>ref.
     bind_result (find_bundle bundles ref) (\<lambda>b.
     bind_result (str_list rep (contract_of network ref) ''guarantees'') (\<lambda>gs.
     bind_result (str_list rep (contract_of network ref) ''assumptions'') (\<lambda>as.
       Inr \<lparr>ls_component_id = ref, ls_bundle = b, ls_kpi_keys = edge_kpis network ref,
            ls_guarantees = gs, ls_assumptions = as\<rparr>)))) (an_leaf_bundle_refs network)"

definition zip_fallbacks :: "compositional_report \<Rightarrow> network_fallback list result" where
  "zip_fallbacks crep =
     (let via_by_formula = foldl (\<lambda>d v. dict_set (cv_formula v) v d) [] (cr_verdicts crep) in
      map_result (\<lambda>f. case dict_get via_by_formula (fb_formula f) of
          None \<Rightarrow> Inl (KeyError (fb_formula f))
        | Some v \<Rightarrow> Inr \<lparr>nf_formula = fb_formula f, nf_trigger = fb_trigger f, nf_reason = fb_reason f,
                         nf_monolithic_satisfied = fb_monolithic_satisfied f, nf_via = cv_via v\<rparr>)
        (cr_fallbacks crep))"

definition network_verify_compositional ::
  "(payload \<Rightarrow> 'h) \<Rightarrow> (val \<Rightarrow> string) \<Rightarrow> agent_network \<Rightarrow> (string, agent_bundle) dict \<Rightarrow> string list \<Rightarrow> int \<Rightarrow> string
   \<Rightarrow> network_report result" where
  "network_verify_compositional H rep network bundles formulas max_depth hash_mode =
     bind_result (find_bundle bundles (an_center_bundle_ref network)) (\<lambda>center.
     bind_result (resolve_leaf_specs rep network bundles) (\<lambda>leaves.
     bind_result (assume_guarantee_verify H rep center leaves formulas (an_center_bundle_ref network) max_depth hash_mode) (\<lambda>crep.
     bind_result (zip_fallbacks crep) (\<lambda>fbs.
       Inr \<lparr>nr_verified = cr_verified crep, nr_network_id = an_network_id network,
            nr_component_ids = cr_center_id crep # cr_leaf_ids crep, nr_formulas = formulas,
            nr_verdicts = map (\<lambda>v. \<lparr>jv_formula = cv_formula v, jv_satisfied = cv_satisfied v,
                                    jv_violation_path = [], jv_counterexample = []\<rparr>) (cr_verdicts crep),
            nr_state_count = cr_compositional_state_count crep, nr_edge_count = 0, nr_deadlock_count = 0,
            nr_mode = ''compositional'', nr_local_verdicts = cr_local_verdicts crep,
            nr_abstraction_stats = cr_abstraction_stats crep,
            nr_compositional_state_count = Some (cr_compositional_state_count crep),
            nr_monolithic_state_count = cr_monolithic_state_count crep, nr_fallbacks = fbs\<rparr>))))"

definition network_verify ::
  "(payload \<Rightarrow> 'h) \<Rightarrow> (val \<Rightarrow> string) \<Rightarrow> agent_network \<Rightarrow> (string, agent_bundle) dict \<Rightarrow> string list \<Rightarrow> string \<Rightarrow> int \<Rightarrow> string
   \<Rightarrow> bool \<Rightarrow> network_report result" where
  "network_verify H rep network bundles formulas mode max_depth hash_mode project_ce =
     (if formulas = [] then Inl (ValueError ''network_verify requires at least one formula'')
      else if mode \<noteq> ''monolithic'' \<and> mode \<noteq> ''compositional'' then
        Inl (ValueError (''mode must be '' @ quoted ''monolithic'' @ '' or '' @ quoted ''compositional'' @ '', got '' @ quoted mode))
      else if mode = ''compositional'' then
        network_verify_compositional H rep network bundles formulas max_depth hash_mode
      else
        bind_result (resolve_bundle_adapters rep network bundles) (\<lambda>(components, component_ids).
        bind_result (joint_verify H components formulas (Some component_ids) max_depth hash_mode project_ce) (\<lambda>report.
          Inr \<lparr>nr_verified = jr_verified report, nr_network_id = an_network_id network,
               nr_component_ids = jr_component_ids report, nr_formulas = jr_formulas report,
               nr_verdicts = jr_verdicts report, nr_state_count = jr_state_count report,
               nr_edge_count = jr_edge_count report, nr_deadlock_count = jr_deadlock_count report,
               nr_mode = ''monolithic'', nr_local_verdicts = [], nr_abstraction_stats = [],
               nr_compositional_state_count = None, nr_monolithic_state_count = None, nr_fallbacks = []\<rparr>)))"

definition measure_network_por ::
  "(payload \<Rightarrow> 'h) \<Rightarrow> (val \<Rightarrow> string) \<Rightarrow> agent_network \<Rightarrow> (string, agent_bundle) dict \<Rightarrow> int \<Rightarrow> por_measurement result" where
  "measure_network_por H rep network bundles max_depth =
     bind_result (resolve_bundle_adapters rep network bundles) (\<lambda>(components, ids).
       measure_por H components (Some ids) max_depth)"

section \<open>A star network\<close>

text \<open>
  The center sets a fact when it starts; the leaf has one step, which sets the reported fact and a
  fact that no edge carries.
\<close>

definition center_bundle :: agent_bundle where
  "center_bundle = bundle_of_plan ''center'' \<lparr>pl_steps =
     [(''open'', \<lparr>sp_name = ''open'', sp_reads = [], sp_writes = [''go''], sp_fn = noop_fn, sp_clears = []\<rparr>)],
     pl_rules = []\<rparr> [] [] [''open'']"

definition leaf_bundle :: agent_bundle where
  "leaf_bundle = bundle_of_plan ''leaf'' \<lparr>pl_steps =
     [(''work'', \<lparr>sp_name = ''work'', sp_reads = [], sp_writes = [''kpi'', ''hidden''], sp_fn = noop_fn, sp_clears = []\<rparr>)],
     pl_rules = []\<rparr> [] [] [''work'']"

definition star_network :: agent_network where
  "star_network = \<lparr>an_network_id = ''net'', an_center_bundle_ref = ''center'', an_leaf_bundle_refs = [''leaf''],
     an_edges = [\<lparr>ne_source = ''leaf'', ne_target = ''center'', ne_kpi_keys = [''kpi'']\<rparr>], an_metadata = []\<rparr>"

definition star_bundles :: "(string, agent_bundle) dict" where
  "star_bundles = [(''center'', center_bundle), (''leaf'', leaf_bundle)]"

definition star_verdicts :: "string list \<Rightarrow> string \<Rightarrow> bool list result" where
  "star_verdicts fs mode = bind_result (network_verify id (\<lambda>_. []) star_network star_bundles fs mode 8 ''full'' True)
     (\<lambda>r. Inr (map jv_satisfied (nr_verdicts r)))"

section \<open>A false pass\<close>

text \<open>
  The compositional mode can pass a formula that the product violates: on the star network,
  with full hashing, the formulas \<^verbatim>\<open>AG !(has(center.go) && has(leaf.hidden))\<close>, over a leaf fact outside
  the interface, and \<^verbatim>\<open>AG !(has(center.go) && pending(leaf.work))\<close>, over a leaf step, are both satisfied
  in compositional mode and both violated in monolithic mode.
\<close>

lemma compositional_false_pass:
  "star_verdicts [''AG !(has(center.go) && has(leaf.hidden))'', ''AG !(has(center.go) && pending(leaf.work))''] ''compositional''
     = Inr [True, True] \<and>
   star_verdicts [''AG !(has(center.go) && has(leaf.hidden))'', ''AG !(has(center.go) && pending(leaf.work))''] ''monolithic''
     = Inr [False, False]"
  by (rule conjI; code_simp)

end
