(* ===== verification/Compositional_Sound.thy ===== *)
theory Compositional_Sound
  imports Compositional
begin

text \<open>
  What the discharge rules of the compositional mode are worth, with full hashing: a safety formula
  over one component has the same verdict locally and on the product, and a safety formula that
  holds on the interface abstractions holds on the product when its predicates are visible at the
  interfaces.  The second rests on a step-bounded simulation between components that lifts to
  products, and on the abstraction being such a simulation.
\<close>

section \<open>Simulations up to a number of steps\<close>

definition simulates :: "int \<Rightarrow> component \<Rightarrow> component \<Rightarrow> (state \<Rightarrow> state) \<Rightarrow> bool" where
  "simulates D c c' \<alpha> \<longleftrightarrow> \<alpha> (comp_init c) = comp_init c' \<and>
     (\<forall>k s t. int k < D \<and> (step_rel (comp_succ c) ^^ k) (comp_init c) s \<and> step_rel (comp_succ c) s t \<longrightarrow>
        step_rel (comp_succ c') (\<alpha> s) (\<alpha> t))"

lemma simulates_refl: "simulates D c c id"
  by (simp add: simulates_def)

text \<open>In a run of the product every component has made a run of its own, not longer.\<close>

definition local_run :: "joint_adapter \<Rightarrow> nat \<Rightarrow> state list \<Rightarrow> bool" where
  "local_run A k js \<longleftrightarrow> length js = length (ja_components A) \<and>
     (\<forall>i<length js. \<exists>m\<le>k. (step_rel (comp_succ (ja_components A ! i)) ^^ m) (comp_init (ja_components A ! i)) (js ! i))"

lemma local_run_step:
  assumes "local_run A k js" and "product_step A js js'"
  shows "local_run A (Suc k) js'"
proof -
  obtain i l t where i: "i < length (ja_components A)" "(l, t) \<in> set (comp_succ (ja_components A ! i) (js ! i))"
    "js' = js[i := t]" using assms(2) by (auto simp: product_step_def)
  show ?thesis unfolding local_run_def
  proof (intro conjI allI impI)
    show "length js' = length (ja_components A)" using assms(1) i by (simp add: local_run_def)
    fix j assume j: "j < length js'"
    have "j < length js" using j i(3) by simp
    then obtain m where m: "m \<le> k" "(step_rel (comp_succ (ja_components A ! j)) ^^ m) (comp_init (ja_components A ! j)) (js ! j)"
      using assms(1) by (auto simp: local_run_def)
    show "\<exists>m\<le>Suc k. (step_rel (comp_succ (ja_components A ! j)) ^^ m) (comp_init (ja_components A ! j)) (js' ! j)"
    proof (cases "i = j")
      case True
      then have "step_rel (comp_succ (ja_components A ! j)) (js ! j) t" using i(2) by (auto simp: step_rel_def)
      then have "(step_rel (comp_succ (ja_components A ! j)) ^^ Suc m) (comp_init (ja_components A ! j)) t" using m(2) by auto
      then show ?thesis using True j i(3) m(1) by (intro exI[of _ "Suc m"]) simp
    next
      case False
      then show ?thesis using m i(3) by (intro exI[of _ m]) simp
    qed
  qed
qed

lemma product_local_run: "(product_step A ^^ k) (product_init A) js \<Longrightarrow> local_run A k js"
proof (induction k arbitrary: js)
  case 0
  then show ?case by (auto simp: local_run_def product_init_def)
next
  case (Suc k)
  then obtain xs where "(product_step A ^^ k) (product_init A) xs" "product_step A xs js" by auto
  then show ?case using Suc.IH local_run_step by blast
qed

lemma local_run_lift:
  assumes "i < length (ja_components A)"
    and "(step_rel (comp_succ (ja_components A ! i)) ^^ k) (comp_init (ja_components A ! i)) s"
  shows "(product_step A ^^ k) (product_init A) ((product_init A)[i := s])"
  using assms(2)
proof (induction k arbitrary: s)
  case 0
  then have "(product_init A)[i := s] = product_init A" using assms(1) by (simp add: product_init_def list_update_same_conv)
  then show ?case by simp
next
  case (Suc k)
  then obtain x where x1: "(step_rel (comp_succ (ja_components A ! i)) ^^ k) (comp_init (ja_components A ! i)) x"
    "step_rel (comp_succ (ja_components A ! i)) x s" by auto
  then obtain l where x: "(step_rel (comp_succ (ja_components A ! i)) ^^ k) (comp_init (ja_components A ! i)) x"
    "(l, s) \<in> set (comp_succ (ja_components A ! i) x)" unfolding step_rel_def by blast
  have len: "length (product_init A) = length (ja_components A)" by (simp add: product_init_def)
  have "product_step A ((product_init A)[i := x]) ((product_init A)[i := s])"
    unfolding product_step_def using assms(1) x(2) len by (intro exI[of _ i]) force
  then show ?case using Suc.IH[OF x(1)] by auto
qed

definition tuple_map :: "(state \<Rightarrow> state) list \<Rightarrow> state list \<Rightarrow> state list" where
  "tuple_map \<alpha>s js = map2 (\<lambda>\<alpha> s. \<alpha> s) \<alpha>s js"

lemma product_simulation:
  assumes len: "length (ja_components B) = length (ja_components A)" "length \<alpha>s = length (ja_components A)"
    and sim: "\<And>i. i < length \<alpha>s \<Longrightarrow> simulates D (ja_components A ! i) (ja_components B ! i) (\<alpha>s ! i)"
    and "(product_step A ^^ k) (product_init A) js" and "int k \<le> D"
  shows "(product_step B ^^ k) (product_init B) (tuple_map \<alpha>s js)"
  using assms(4,5)
proof (induction k arbitrary: js)
  case 0
  then have "tuple_map \<alpha>s js = product_init B"
    using len sim by (auto simp: tuple_map_def product_init_def simulates_def intro!: nth_equalityI)
  then show ?case by simp
next
  case (Suc k)
  then obtain xs where xs: "(product_step A ^^ k) (product_init A) xs" "product_step A xs js" by auto
  then obtain i l t where i: "i < length (ja_components A)" "(l, t) \<in> set (comp_succ (ja_components A ! i) (xs ! i))"
    "js = xs[i := t]" by (auto simp: product_step_def)
  note lr = product_local_run[OF xs(1), unfolded local_run_def]
  obtain m where m: "m \<le> k" "(step_rel (comp_succ (ja_components A ! i)) ^^ m) (comp_init (ja_components A ! i)) (xs ! i)"
    using lr i(1) by auto
  have "step_rel (comp_succ (ja_components A ! i)) (xs ! i) t" using i(2) by (auto simp: step_rel_def)
  then have "step_rel (comp_succ (ja_components B ! i)) ((\<alpha>s ! i) (xs ! i)) ((\<alpha>s ! i) t)"
  proof -
    have "int m < D" using m(1) Suc.prems(2) by simp
    moreover have "simulates D (ja_components A ! i) (ja_components B ! i) (\<alpha>s ! i)" using sim i(1) len(2) by simp
    ultimately show "step_rel (comp_succ (ja_components A ! i)) (xs ! i) t \<Longrightarrow> ?thesis"
      using m(2) unfolding simulates_def by blast
  qed
  then obtain l' where "(l', (\<alpha>s ! i) t) \<in> set (comp_succ (ja_components B ! i) (tuple_map \<alpha>s xs ! i))"
    using lr i(1) len by (auto simp: step_rel_def tuple_map_def)
  moreover have "tuple_map \<alpha>s js = (tuple_map \<alpha>s xs)[i := (\<alpha>s ! i) t]"
    using lr i(1,3) len by (auto simp: tuple_map_def nth_list_update intro!: nth_equalityI)
  ultimately have "product_step B (tuple_map \<alpha>s xs) (tuple_map \<alpha>s js)"
    using i(1) len(1) unfolding product_step_def by auto
  moreover have "(product_step B ^^ k) (product_init B) (tuple_map \<alpha>s xs)" using Suc xs(1) by simp
  ultimately show ?case by auto
qed

section \<open>Predicates seen by components\<close>

lemma no_terminal_holds: "\<not> contains_terminal e \<Longrightarrow> state_holds en e s = state_holds en' e s"
  by (induction e) (simp_all add: eval_predicate_def)

lemma eval_predicate_other:
  "str_lower n \<notin> {''has'', ''pending'', ''done'', ''terminal''} \<Longrightarrow> \<not> eval_predicate n v en s"
  by (auto simp: eval_predicate_def split: option.splits)

text \<open>The component a value belongs to: an id it equals or extends by a dot.\<close>

definition matches :: "string \<Rightarrow> string \<Rightarrow> bool" where
  "matches v cid \<longleftrightarrow> v = cid \<or> has_prefix cid v"

lemma predicate_component_cases:
  "case predicate_component v ids of None \<Rightarrow> \<forall>c\<in>set ids. \<not> matches v c | Some c \<Rightarrow> c \<in> set ids \<and> matches v c"
proof -
  let ?f = "\<lambda>best cid. if v = cid \<or> starts_with (cid @ ''.'') v then
       (case best of None \<Rightarrow> Some cid | Some b \<Rightarrow> if length cid > length b then Some cid else best) else best"
  have "case foldl ?f b cs of None \<Rightarrow> b = None \<and> (\<forall>c\<in>set cs. \<not> matches v c)
      | Some c \<Rightarrow> b = Some c \<or> c \<in> set cs \<and> matches v c" for b cs
  proof (induction cs arbitrary: b)
    case (Cons c cs)
    have "?f b c = b \<and> \<not> matches v c \<or> matches v c \<and> ?f b c = Some c \<or> matches v c \<and> ?f b c = b \<and> b \<noteq> None"
      by (auto simp: matches_def has_prefix_def prefixed_def split: option.splits)
    then show ?case using Cons[of "?f b c"] by (cases "foldl ?f (?f b c) cs") auto
  qed (auto split: option.splits)
  from this[of None ids] show ?thesis unfolding predicate_component_def by (auto split: option.splits)
qed

lemma walk_components_ids: "set (walk_components ids e) \<subseteq> set ids"
proof (induction ids e rule: walk_components.induct)
  case (2 ids n v)
  then show ?case using predicate_component_cases[where v = v and ids = ids] by (auto split: option.splits)
qed auto

text \<open>A value under no component's prefix names nothing in a projection.\<close>

lemma project_owner:
  assumes "eval_predicate n (Some v) en (project js ids)" and "str_lower n \<in> {''has'', ''pending'', ''done''}"
  shows "\<exists>c\<in>set ids. has_prefix c v"
proof -
  have "v \<in> fst ` set (project_items js ids)" if "dict_has (st_store (project js ids)) v"
    using that map_of_eq_None_iff[of "rev (project_items js ids)" v]
    by (auto simp: dict_has_iff dict_get_project_items)
  then have "v \<in> set (st_pending (project js ids)) \<union> set (st_done (project js ids)) \<union> fst ` set (project_items js ids)"
    using assms by (auto simp: eval_predicate_def)
  then have "\<exists>a\<in>set ids. \<exists>x. v = prefixed a x"
    by (fastforce simp: project_def project_items_def dest!: set_zip_leftD)
  then show ?thesis using has_prefix_self by blast
qed

section \<open>The states a bounded exploration visits\<close>

definition visited :: "int \<Rightarrow> joint_adapter \<Rightarrow> state list set" where
  "visited D A = {js. \<exists>k. int k \<le> D \<and> (product_step A ^^ k) (product_init A) js}"

definition single :: "joint_adapter \<Rightarrow> nat \<Rightarrow> joint_adapter" where
  "single A i = \<lparr>ja_components = [ja_components A ! i], ja_ids = [ja_ids A ! i]\<rparr>"

lemma visited_component:
  assumes "i < length (ja_components A)"
  shows "(\<lambda>js. js ! i) ` visited D A =
    {s. \<exists>k. int k \<le> D \<and> (step_rel (comp_succ (ja_components A ! i)) ^^ k) (comp_init (ja_components A ! i)) s}"
proof (intro set_eqI iffI)
  fix s assume "s \<in> (\<lambda>js. js ! i) ` visited D A"
  then obtain k js where k: "int k \<le> D" "(product_step A ^^ k) (product_init A) js" "s = js ! i" by (auto simp: visited_def)
  then obtain m where "m \<le> k" "(step_rel (comp_succ (ja_components A ! i)) ^^ m) (comp_init (ja_components A ! i)) s"
    using product_local_run[OF k(2)] assms by (auto simp: local_run_def)
  then show "s \<in> {s. \<exists>k. int k \<le> D \<and> (step_rel (comp_succ (ja_components A ! i)) ^^ k) (comp_init (ja_components A ! i)) s}"
    using k(1) by (auto intro!: exI[of _ m])
next
  fix s assume "s \<in> {s. \<exists>k. int k \<le> D \<and> (step_rel (comp_succ (ja_components A ! i)) ^^ k) (comp_init (ja_components A ! i)) s}"
  then obtain k where "int k \<le> D" "(step_rel (comp_succ (ja_components A ! i)) ^^ k) (comp_init (ja_components A ! i)) s" by auto
  then have "(product_init A)[i := s] \<in> visited D A" using local_run_lift[OF assms] by (auto simp: visited_def)
  moreover have "(product_init A)[i := s] ! i = s" using assms by (simp add: product_init_def)
  ultimately show "s \<in> (\<lambda>js. js ! i) ` visited D A" by (metis imageI)
qed

lemma visited_single:
  assumes "i < length (ja_components A)"
  shows "(\<lambda>js. js ! i) ` visited D A = (\<lambda>js. js ! 0) ` visited D (single A i)"
  using visited_component[OF assms, of D] visited_component[of 0 "single A i" D] by (simp add: single_def)

section \<open>Formulas over one component\<close>

lemma local_predicate:
  assumes ids: "ids_ok ids" and js: "length js = length ids" and i: "i < length ids" and wf: "dict_wf (st_store (js ! i))"
    and own: "predicate_component v ids \<in> {None, Some (ids ! i)}" and n: "str_lower n \<noteq> ''terminal''"
  shows "eval_predicate n (Some v) en (project js ids) = eval_predicate n (Some v) en' (project [js ! i] [ids ! i])"
proof (cases "str_lower n \<in> {''has'', ''pending'', ''done''}")
  case names: True
  have ids1: "ids_ok [ids ! i]" by (simp add: ids_ok_def)
  show ?thesis
  proof (cases "has_prefix (ids ! i) v")
    case True
    then obtain x where "v = prefixed (ids ! i) x" by (auto simp: has_prefix_def prefixed_def starts_with_append)
    then show ?thesis
      using eval_predicate_project[OF ids js i wf names, of x en en]
        eval_predicate_project[OF ids1, of "[js ! i]" 0 n x en' en] wf names by simp
  next
    case False
    have "\<not> has_prefix c v" if "c \<in> set ids" for c
    proof
      assume c: "has_prefix c v"
      obtain j where j: "j < length ids" "c = ids ! j" using \<open>c \<in> set ids\<close> by (metis in_set_conv_nth)
      have "j \<noteq> i" using c False j by auto
      obtain x where x: "v = prefixed (ids ! j) x" using c j by (auto simp: has_prefix_def prefixed_def starts_with_append)
      have "predicate_component v ids \<noteq> None"
        using predicate_component_cases[where v = v and ids = ids] \<open>c \<in> set ids\<close> c by (auto simp: matches_def split: option.splits)
      then have "matches v (ids ! i)" using own predicate_component_cases[where v = v and ids = ids] by auto
      then have "v = ids ! i" using False by (simp add: matches_def)
      then have "starts_with (prefixed (ids ! j) []) (prefixed (ids ! i) [])"
        using x by (auto simp: prefixed_def starts_with_append intro!: exI[of _ "x @ ''.''"])
      then show False using ids j(1) i \<open>j \<noteq> i\<close> by (simp add: ids_ok_def)
    qed
    then show ?thesis using project_owner[OF _ names] False by (metis list.set_intros(1) set_ConsD empty_iff list.set(1))
  qed
next
  case False
  then show ?thesis using eval_predicate_other n by auto
qed

lemma local_state_holds:
  assumes "ids_ok ids" and "length js = length ids" and "i < length ids" and "dict_wf (st_store (js ! i))"
    and "set (walk_components ids e) \<subseteq> {ids ! i}" and "\<not> contains_terminal e"
  shows "state_holds en e (project js ids) = state_holds en' e (project [js ! i] [ids ! i])"
  using assms(5,6)
proof (induction e)
  case (Predicate n v)
  show ?case
  proof (cases v)
    case None
    then show ?thesis using Predicate by (simp add: eval_predicate_def)
  next
    case (Some w)
    then have "predicate_component w ids \<in> {None, Some (ids ! i)}"
      using Predicate(1) by (cases "predicate_component w ids") auto
    then show ?thesis using local_predicate[OF assms(1-4), of w n en en'] Predicate(2) Some by simp
  qed
qed simp_all


section \<open>The rules of the discharge\<close>

definition simple :: "expr \<Rightarrow> bool" where
  "simple E \<longleftrightarrow> (case E of Ctl op e \<Rightarrow> (op = Op_AG \<or> op = Op_EF) \<and> \<not> has_ctl_nodes e | _ \<Rightarrow> False)"

lemma conjuncts_ok:
  "\<not> has_ctl_nodes e \<Longrightarrow> printable e \<Longrightarrow> \<not> contains_terminal e \<Longrightarrow>
    \<forall>c\<in>set (split_conjuncts e). \<not> has_ctl_nodes c \<and> printable c \<and> \<not> contains_terminal c"
proof (induction e rule: split_conjuncts.induct)
  case (1 a b)
  have "\<not> has_ctl_nodes a" "printable a" "\<not> contains_terminal a" "\<not> has_ctl_nodes b" "printable b" "\<not> contains_terminal b"
    using 1(3-5) by simp_all
  then show ?case using 1(1,2) unfolding split_conjuncts.simps set_append by blast
qed (simp_all del: has_ctl_nodes.simps contains_terminal.simps printable.simps)

lemma classify_simple:
  assumes "cl_class (classify_expr f E ids) \<in> {SINGLE_COMPONENT, DECOMPOSABLE}"
  shows "simple E" "\<not> contains_terminal E"
    "cl_components (classify_expr f E ids) = referenced_components E ids"
    "cl_class (classify_expr f E ids) = DECOMPOSABLE \<Longrightarrow> \<exists>e. E = Ctl Op_AG e"
proof -
  have "simple E \<and> \<not> contains_terminal E \<and> cl_components (classify_expr f E ids) = referenced_components E ids \<and>
      (cl_class (classify_expr f E ids) = DECOMPOSABLE \<longrightarrow> (\<exists>e. E = Ctl Op_AG e))"
    using assms by (cases E) (auto simp: classify_expr_def mk_class_def Let_def simple_def split: if_splits)
  then show "simple E" "\<not> contains_terminal E"
    "cl_components (classify_expr f E ids) = referenced_components E ids"
    "cl_class (classify_expr f E ids) = DECOMPOSABLE \<Longrightarrow> \<exists>e. E = Ctl Op_AG e" by auto
qed

lemma class_formula: "cl_formula (classify_expr f E xs) = f"
  by (cases E) (simp_all add: classify_expr_def mk_class_def Let_def)

text \<open>
  What the discharge relies on: the monolithic check gives the verdict of a formula, a local check
  gives the same verdict for a one-operator formula over one component, and \<open>AG\<close> distributes
  over conjunction.
\<close>

locale exact_verifiers =
  fixes ok :: "'k \<Rightarrow> bool" and V :: "'k \<Rightarrow> verifiers" and ids :: "'k \<Rightarrow> string list" and verdict :: "'k \<Rightarrow> expr \<Rightarrow> bool"
  assumes mono: "ok k \<Longrightarrow> parse_expr f = Inr E \<Longrightarrow> \<exists>n. vf_mono (V k) f = Inr (verdict k E, n)"
    and loc: "ok k \<Longrightarrow> parse_expr f = Inr E \<Longrightarrow> simple E \<Longrightarrow> \<not> contains_terminal E \<Longrightarrow>
      referenced_components E (ids k) = [cid] \<Longrightarrow> vf_local (V k) f cid = Inr (verdict k E)"
    and conj: "ok k \<Longrightarrow> \<not> has_ctl_nodes a \<Longrightarrow> \<not> has_ctl_nodes b \<Longrightarrow>
      verdict k (Ctl Op_AG (AndE a b)) \<longleftrightarrow> verdict k (Ctl Op_AG a) \<and> verdict k (Ctl Op_AG b)"
begin

lemma verdict_conjuncts:
  assumes k: "ok k"
  shows "\<not> has_ctl_nodes e \<Longrightarrow> verdict k (Ctl Op_AG e) \<longleftrightarrow> (\<forall>c\<in>set (split_conjuncts e). verdict k (Ctl Op_AG c))"
proof (induction e)
  case (AndE a b)
  have n: "\<not> has_ctl_nodes a" "\<not> has_ctl_nodes b" using AndE.prems by simp_all
  show ?case unfolding conj[OF k n] AndE.IH(1)[OF n(1)] AndE.IH(2)[OF n(2)]
    by (simp only: split_conjuncts.simps set_append ball_Un)
qed simp_all

lemma discharge_conjuncts_exact:
  assumes k: "ok k" and "\<forall>c\<in>set cs. \<not> has_ctl_nodes c \<and> printable c \<and> \<not> contains_terminal c"
  shows "\<exists>m'. discharge_conjuncts (V k) (ids k) cs b m = Inr (b \<and> (\<forall>c\<in>set cs. verdict k (Ctl Op_AG c)), m')"
  using assms(2)
proof (induction cs arbitrary: b m)
  case (Cons c cs)
  let ?E = "Ctl Op_AG c"
  have c: "\<not> has_ctl_nodes c" "printable c" "\<not> contains_terminal c" using Cons.prems by auto
  have IH: "\<exists>m'. discharge_conjuncts (V k) (ids k) cs b m = Inr (b \<and> (\<forall>c\<in>set cs. verdict k (Ctl Op_AG c)), m')" for b m
    using Cons by simp
  have p: "parse_expr (''AG '' @ unparse c) = Inr ?E" using parse_unparse[of ?E] c(2) by simp
  have refs: "referenced_components ?E (ids k) = referenced_components c (ids k)" by (simp add: referenced_components_def)
  show ?case
  proof (cases "\<exists>cid. referenced_components c (ids k) = [cid]")
    case True
    then obtain cid where cid: "referenced_components c (ids k) = [cid]" by blast
    have "vf_local (V k) (''AG '' @ unparse c) cid = Inr (verdict k ?E)"
      using loc[OF k p, of cid] c cid refs by (simp add: simple_def)
    then show ?thesis using IH[of "verdict k ?E \<and> b" m] cid by (auto simp: Let_def)
  next
    case False
    obtain n where "vf_mono (V k) (''AG '' @ unparse c) = Inr (verdict k ?E, n)" using mono[OF k p] by blast
    then show ?thesis using IH[of "verdict k ?E \<and> b" "Some n"] False
      by (cases "referenced_components c (ids k)" rule: remdups_adj.cases) (auto simp: Let_def)
  qed
qed simp

text \<open>Every formula outside the class of global safety gets the monolithic verdict.\<close>

lemma mono_exact:
  assumes "ok k" and "parse_expr f = Inr E" and "cl_formula cl = f"
  shows "\<exists>v fbs m. discharge_mono (V k) cl via trigger r = Inr (v, fbs, m) \<and> cv_formula v = f \<and> cv_satisfied v = verdict k E"
  using mono[OF assms(1,2)] assms(3) by (auto simp: discharge_mono_def mk_verdict_def)

lemma discharge_exact:
  assumes k: "ok k" and f: "parse_expr f = Inr E" "printable E" and c: "cl_class (classify_expr f E (ids k)) \<noteq> SAFETY_GLOBAL"
  shows "\<exists>v fbs m. discharge_formula (V k) (ids k) cyclic f = Inr (v, fbs, m) \<and> cv_formula v = f \<and> cv_satisfied v = verdict k E"
proof -
  let ?cl = "classify_expr f E (ids k)"
  have cl: "classify_formula f (ids k) = Inr ?cl" using f(1) by (simp add: classify_formula_def)
  note me = mono_exact[OF k f(1) class_formula]
  show ?thesis
  proof (cases "cl_compositional ?cl \<and> cyclic \<noteq> None \<or> cl_class ?cl = OUT_OF_CLASS")
    case True
    then show ?thesis using me by (auto simp: discharge_formula_def cl split: bool.splits option.splits)
  next
    case False
    then have cls: "cl_class ?cl \<in> {SINGLE_COMPONENT, DECOMPOSABLE}" using c by (cases "cl_class ?cl") auto
    note s = classify_simple[OF cls]
    have step: "discharge_formula (V k) (ids k) cyclic f = (case cl_class ?cl of
        SINGLE_COMPONENT \<Rightarrow> (case cl_components ?cl of
             [cid] \<Rightarrow> bind_result (vf_local (V k) f cid) (\<lambda>b. Inr (mk_verdict f b SINGLE_COMPONENT ''compositional_local'', [], None))
           | _ \<Rightarrow> discharge_mono (V k) ?cl ''monolithic_fallback'' ''out_of_class'' No_single_component)
      | _ \<Rightarrow> bind_result (discharge_conjuncts (V k) (ids k) (split_conjuncts (ag_body E)) True None) (\<lambda>(b, mcount).
                Inr (mk_verdict f b DECOMPOSABLE ''compositional_decomposed'', [], mcount)))"
      using False cls by (auto simp: discharge_formula_def cl f(1) split: bool.splits option.splits)
    show ?thesis
    proof (cases "cl_class ?cl = DECOMPOSABLE")
      case True
      then obtain e where e: "E = Ctl Op_AG e" using s(4) by blast
      then have n: "\<not> has_ctl_nodes e" "printable e" "\<not> contains_terminal e" using s(1,2) f(2) by (simp_all add: simple_def)
      obtain m' where "discharge_conjuncts (V k) (ids k) (split_conjuncts e) True None =
          Inr (\<forall>c\<in>set (split_conjuncts e). verdict k (Ctl Op_AG c), m')"
        using discharge_conjuncts_exact[OF k conjuncts_ok[OF n], of True None] by auto
      then show ?thesis using step True e verdict_conjuncts[OF k n(1)] by (simp add: ag_body_def mk_verdict_def)
    next
      case False
      then have one: "cl_class ?cl = SINGLE_COMPONENT" using cls by simp
      show ?thesis
      proof (cases "\<exists>cid. referenced_components E (ids k) = [cid]")
        case True
        then obtain cid where cid: "referenced_components E (ids k) = [cid]" by blast
        then show ?thesis using step one s(3) loc[OF k f(1) s(1,2) cid] by (simp add: mk_verdict_def)
      next
        case False
        then have "discharge_formula (V k) (ids k) cyclic f = discharge_mono (V k) ?cl ''monolithic_fallback'' ''out_of_class'' No_single_component"
          using step one s(3) by (cases "referenced_components E (ids k)" rule: remdups_adj.cases) auto
        then show ?thesis using me by simp
      qed
    qed
  qed
qed

end

section \<open>The verifiers of a star are exact\<close>

text \<open>The verdict of a formula on the explored product.\<close>

definition product_verdict :: "(payload \<Rightarrow> 'h) \<Rightarrow> int \<Rightarrow> joint_adapter \<Rightarrow> expr \<Rightarrow> bool" where
  "product_verdict H D A E = (case explore_mode H A D ''full'' of
       Inl _ \<Rightarrow> False
     | Inr (model, memo) \<Rightarrow> 0 \<in> check_ctl (joint_enabled H A memo) model E)"

lemma verify_one_exact:
  assumes "from_components comps (Some ids) = Inr A" and ok: "joint_ok H A" and f: "parse_expr f = Inr E"
  shows "\<exists>n. verify_one H D ''full'' comps ids f = Inr (product_verdict H D A E, n)"
proof -
  obtain model m d where run: "explorer_run H (joint_ex H A) [] D Full = Inr (model, m)"
    and ex: "explored (joint_init A) (joint_succ A) (joint_dead A) (stable_hash H Full) D d model"
    and known: "\<forall>s\<in>set (ex_states model). joint_known H A m s"
    by (rule joint_explored[OF ok memo_ok_Nil, of D Full])
  obtain v where "joint_verdict_of H A m model True f = Inr v" "jv_satisfied v \<longleftrightarrow> 0 \<in> check_ctl (joint_enabled H A m) model E"
    using joint_verdict_total[OF ok ex known f, of True] by blast
  then show ?thesis
    by (simp add: verify_one_def joint_verify_def assms(1) explore_mode_def hash_mode_of_def run product_verdict_def)
qed

lemma product_verdict_visited:
  assumes ok: "joint_ok H A" and D: "0 \<le> D" and e: "\<not> has_ctl_nodes e"
  shows "product_verdict H D A (Ctl Op_AG e) \<longleftrightarrow>
      (\<forall>js\<in>visited D A. state_holds (\<lambda>_. joint_steps A js) e (project js (ja_ids A)))"
    and "product_verdict H D A (Ctl Op_EF e) \<longleftrightarrow>
      (\<exists>js\<in>visited D A. state_holds (\<lambda>_. joint_steps A js) e (project js (ja_ids A)))"
proof -
  obtain model m d where run: "explorer_run H (joint_ex H A) [] D Full = Inr (model, m)"
    and ex: "explored (joint_init A) (joint_succ A) (joint_dead A) (stable_hash H Full) D d model"
    and known: "\<forall>s\<in>set (ex_states model). joint_known H A m s"
    by (rule joint_explored[OF ok memo_ok_Nil, of D Full])
  note all = joint_states_all[OF ok D ex known]
  have v: "product_verdict H D A E = (0 \<in> check_ctl (joint_enabled H A m) model E)" for E
    by (simp add: product_verdict_def explore_mode_def hash_mode_of_def run)
  show "product_verdict H D A (Ctl Op_AG e) \<longleftrightarrow>
      (\<forall>js\<in>visited D A. state_holds (\<lambda>_. joint_steps A js) e (project js (ja_ids A)))"
    unfolding v root_verdicts(1)[OF ex e] all by (auto simp: visited_def)
  show "product_verdict H D A (Ctl Op_EF e) \<longleftrightarrow>
      (\<exists>js\<in>visited D A. state_holds (\<lambda>_. joint_steps A js) e (project js (ja_ids A)))"
    unfolding v root_verdicts(2)[OF ex e] using all[of "NotE e"] by (auto simp: visited_def)
qed

lemma visited_reach: "js \<in> visited D A \<Longrightarrow> js \<in> product_reach A"
  using product_run_reach by (auto simp: visited_def)

lemma product_verdict_single:
  assumes ok: "joint_ok H A" "joint_ok H (single A i)" and D: "0 \<le> D" and i: "i < length (ja_components A)"
    and E: "simple E" "\<not> contains_terminal E" "set (walk_components (ja_ids A) E) \<subseteq> {ja_ids A ! i}"
  shows "product_verdict H D (single A i) E = product_verdict H D A E"
proof -
  obtain op e where op: "E = Ctl op e" "op = Op_AG \<or> op = Op_EF" "\<not> has_ctl_nodes e"
    using E(1) by (cases E) (auto simp: simple_def)
  let ?P = "\<lambda>s. state_holds (\<lambda>_. []) e (project [s] [ja_ids A ! i])"
  have len: "length (ja_ids A) = length (ja_components A)" "ids_ok (ja_ids A)" using ok(1) by (simp_all add: joint_ok_def)
  have whole: "state_holds (\<lambda>_. joint_steps A js) e (project js (ja_ids A)) = ?P (js ! i)" if "js \<in> visited D A" for js
  proof -
    have js: "js \<in> product_reach A" using visited_reach[OF that] .
    have "lawful (ja_components A ! i)" "js ! i \<in> comp_reach (ja_components A ! i)"
      using js ok(1) i by (simp_all add: product_reach_def joint_ok_def)
    then have "dict_wf (st_store (js ! i))" by (rule lawfulD(4))
    then show ?thesis
      using local_state_holds[OF len(2), of js i e] js i len E(2,3) op(1) by (simp add: product_reach_def)
  qed
  have part: "state_holds (\<lambda>_. joint_steps (single A i) js) e (project js (ja_ids (single A i))) = ?P (js ! 0)"
    if "js \<in> visited D (single A i)" for js
  proof -
    have "length js = 1" using visited_reach[OF that] by (simp add: product_reach_def single_def)
    then obtain s where "js = [s]" by (cases js) auto
    then have "state_holds (\<lambda>_. joint_steps (single A i) js) e (project js [ja_ids A ! i]) = ?P (js ! 0)"
      using E(2) op(1) no_terminal_holds[of e "\<lambda>_. joint_steps (single A i) js" _ "\<lambda>_. []"] by simp
    then show ?thesis by (simp add: single_def)
  qed
  have img: "(\<lambda>js. js ! i) ` visited D A = (\<lambda>js. js ! 0) ` visited D (single A i)" by (rule visited_single[OF i])
  have "(\<forall>js\<in>visited D A. ?P (js ! i)) \<longleftrightarrow> (\<forall>js\<in>visited D (single A i). ?P (js ! 0))"
    "(\<exists>js\<in>visited D A. ?P (js ! i)) \<longleftrightarrow> (\<exists>js\<in>visited D (single A i). ?P (js ! 0))"
    using arg_cong[OF img, of "\<lambda>S. \<forall>s\<in>S. ?P s"] arg_cong[OF img, of "\<lambda>S. \<exists>s\<in>S. ?P s"] by (simp_all only: ball_simps bex_simps)
  then show ?thesis
    using op(2) product_verdict_visited[OF ok(1) D op(3)] product_verdict_visited[OF ok(2) D op(3)] whole part
    by (auto simp: op(1))
qed

text \<open>The set-up of a run with full hashing: the digest, the depth, the concrete product, the
  dictionary of the concrete components and the abstract ones.\<close>

type_synonym 'h star = "(payload \<Rightarrow> 'h) \<times> int \<times> joint_adapter \<times> (string, component) dict \<times> component list"

definition star_verifiers :: "'h star \<Rightarrow> verifiers" where
  "star_verifiers k = (case k of (H, D, A, concrete, abs_comps) \<Rightarrow> mk_verifiers H D ''full'' (ja_ids A) concrete abs_comps)"

definition star_ids :: "'h star \<Rightarrow> string list" where
  "star_ids k = (case k of (H, D, A, concrete, abs_comps) \<Rightarrow> ja_ids A)"

definition star_verdict :: "'h star \<Rightarrow> expr \<Rightarrow> bool" where
  "star_verdict k = (case k of (H, D, A, concrete, abs_comps) \<Rightarrow> product_verdict H D A)"

definition star_ok :: "'h star \<Rightarrow> bool" where
  "star_ok k = (case k of (H, D, A, concrete, abs_comps) \<Rightarrow>
     0 \<le> D \<and> ja_components A \<noteq> [] \<and> [] \<notin> set (ja_ids A) \<and> joint_ok H A \<and>
     (\<forall>i<length (ja_ids A). dict_get concrete (ja_ids A ! i) = Some (ja_components A ! i) \<and> joint_ok H (single A i)))"

lemma ids_ok_distinct: "ids_ok ids \<Longrightarrow> distinct ids"
proof -
  have "starts_with xs xs" for xs :: string by (simp add: starts_with_append)
  then show "ids_ok ids \<Longrightarrow> distinct ids" unfolding ids_ok_def distinct_conv_nth by metis
qed

lemma star_mono:
  assumes "star_ok (H, D, A, concrete, abs_comps)" and "parse_expr f = Inr E"
  shows "\<exists>n. vf_mono (mk_verifiers H D ''full'' (ja_ids A) concrete abs_comps) f = Inr (product_verdict H D A E, n)"
proof -
  have ok: "joint_ok H A" using assms(1) by (simp add: star_ok_def)
  then have "map_result (\<lambda>c. case dict_get concrete c of None \<Rightarrow> Inl (KeyError c) | Some x \<Rightarrow> Inr x) (ja_ids A) =
      Inr (map (\<lambda>c. the (dict_get concrete c)) (ja_ids A))"
    using assms(1) by (intro map_result_total) (auto simp: star_ok_def in_set_conv_nth)
  moreover have "map (\<lambda>c. the (dict_get concrete c)) (ja_ids A) = ja_components A"
    using assms(1) ok by (intro nth_equalityI) (auto simp: star_ok_def joint_ok_def)
  moreover have "from_components (ja_components A) (Some (ja_ids A)) = Inr A"
    using assms(1) ok ids_ok_distinct by (auto simp: star_ok_def joint_ok_def from_components_def)
  ultimately show ?thesis using verify_one_exact[OF _ ok assms(2), of "ja_components A" "ja_ids A" D]
    by (simp add: mk_verifiers_def)
qed

lemma star_local:
  assumes ok: "star_ok (H, D, A, concrete, abs_comps)" and f: "parse_expr f = Inr E"
    and E: "simple E" "\<not> contains_terminal E" "referenced_components E (ja_ids A) = [cid]"
  shows "vf_local (mk_verifiers H D ''full'' (ja_ids A) concrete abs_comps) f cid = Inr (product_verdict H D A E)"
proof -
  have walk: "set (walk_components (ja_ids A) E) = {cid}"
    using E(3) by (metis referenced_components_def set_sort set_remdups list.simps(15) list.set(1))
  then have "cid \<in> set (ja_ids A)" using walk_components_ids by blast
  then obtain i where i: "i < length (ja_ids A)" "cid = ja_ids A ! i" by (metis in_set_conv_nth)
  have A: "joint_ok H A" "joint_ok H (single A i)" "0 \<le> D" "dict_get concrete cid = Some (ja_components A ! i)"
    using ok i by (simp_all add: star_ok_def)
  have cid: "cid \<noteq> []" using ok \<open>cid \<in> set (ja_ids A)\<close> by (auto simp: star_ok_def)
  have "i < length (ja_components A)" using A(1) i(1) by (simp add: joint_ok_def)
  note single = product_verdict_single[OF A(1-3) this E(1,2)]
  have "from_components [ja_components A ! i] (Some [cid]) = Inr (single A i)"
    using cid i(2) by (simp add: from_components_def single_def)
  from verify_one_exact[OF this A(2) f, of D]
  obtain n where "verify_one H D ''full'' [ja_components A ! i] [cid] f = Inr (product_verdict H D A E, n)"
    using single walk i(2) by auto
  then show ?thesis using A(4) by (simp add: mk_verifiers_def)
qed

interpretation star: exact_verifiers star_ok star_verifiers star_ids star_verdict
proof
  fix k :: "'h star" and f E
  assume "star_ok k" "parse_expr f = Inr E"
  then show "\<exists>n. vf_mono (star_verifiers k) f = Inr (star_verdict k E, n)"
    using star_mono by (cases k) (auto simp: star_verifiers_def star_verdict_def)
next
  fix k :: "'h star" and f E cid
  assume "star_ok k" "parse_expr f = Inr E" "simple E" "\<not> contains_terminal E" "referenced_components E (star_ids k) = [cid]"
  then show "vf_local (star_verifiers k) f cid = Inr (star_verdict k E)"
    using star_local by (cases k) (auto simp: star_verifiers_def star_verdict_def star_ids_def)
next
  fix k :: "'h star" and a b
  assume "star_ok k" "\<not> has_ctl_nodes a" "\<not> has_ctl_nodes b"
  then show "star_verdict k (Ctl Op_AG (AndE a b)) = (star_verdict k (Ctl Op_AG a) \<and> star_verdict k (Ctl Op_AG b))"
    by (cases k) (auto simp: star_verdict_def star_ok_def product_verdict_visited)
qed

section \<open>Properties\<close>

text \<open>
  C7. Outside global safety the compositional mode agrees with the monolithic one: in a run with
  full hashing, for lawful concrete components under prefix-free ids and a digest without
  collisions, a formula that parses to a printable expression and is not classified as global
  safety gets a verdict, and it is the verdict of the monolithic check of the same formula.  This covers
  the local check of a safety or reachability formula over one component, the check of a safety
  conjunction conjunct by conjunct, and all fallbacks.
\<close>

theorem discharge_matches_monolithic:
  assumes "star_ok (H, D, A, concrete, abs_comps)" and "parse_expr f = Inr E" and "printable E"
    and "cl_class (classify_expr f E (ja_ids A)) \<noteq> SAFETY_GLOBAL"
  shows "\<exists>v fbs m n. discharge_formula (mk_verifiers H D ''full'' (ja_ids A) concrete abs_comps) (ja_ids A) cyclic f = Inr (v, fbs, m) \<and>
    cv_formula v = f \<and> verify_one H D ''full'' (ja_components A) (ja_ids A) f = Inr (cv_satisfied v, n)"
proof -
  have A: "joint_ok H A" "from_components (ja_components A) (Some (ja_ids A)) = Inr A"
    using assms(1) ids_ok_distinct by (auto simp: star_ok_def joint_ok_def from_components_def)
  show ?thesis
    using star.discharge_exact[OF assms(1-3), of cyclic] assms(4) verify_one_exact[OF A(2,1) assms(2), of D]
    by (auto simp: star_verifiers_def star_ids_def star_verdict_def)
qed

definition pair_dict :: "(string, component) dict" where
  "pair_dict = [(''agent0'', tm_component cycle_adapter), (''agent1'', tm_component toggle_adapter)]"

lemma pair_star_ok: "star_ok (id, 4, pair_adapter, pair_dict, [])"
proof -
  have "joint_ok id (single pair_adapter i)" if "i < 2" for i
    using that pair_ok by (auto simp: joint_ok_def single_def ids_ok_def pair_adapter_def pair_components_def
      collision_free_inj less_2_cases_iff)
  then show ?thesis using pair_ok
    by (auto simp: star_ok_def pair_adapter_def pair_components_def pair_dict_def less_Suc_eq numeral_2_eq_2)
qed

theorem discharge_matches_monolithic_witness:
  "\<exists>v fbs m n. discharge_formula (mk_verifiers id 4 ''full'' (ja_ids pair_adapter) pair_dict []) (ja_ids pair_adapter) None
      ''AG (!has(agent0.y) && !pending(agent1.off))'' = Inr (v, fbs, m) \<and> cv_formula v = ''AG (!has(agent0.y) && !pending(agent1.off))'' \<and>
    verify_one id 4 ''full'' (ja_components pair_adapter) (ja_ids pair_adapter) ''AG (!has(agent0.y) && !pending(agent1.off))'' = Inr (cv_satisfied v, n)"
proof -
  let ?E = "Ctl Op_AG (AndE (NotE (Predicate ''has'' (Some ''agent0.y''))) (NotE (Predicate ''pending'' (Some ''agent1.off''))))"
  have "parse_expr ''AG (!has(agent0.y) && !pending(agent1.off))'' = Inr ?E" by code_simp
  moreover have "printable ?E" by code_simp
  moreover have owners: "predicate_component ''agent0.y'' [''agent0'', ''agent1''] = Some ''agent0''"
    "predicate_component ''agent1.off'' [''agent0'', ''agent1''] = Some ''agent1''" by code_simp+
  have "cl_class (classify_expr f ?E [''agent0'', ''agent1'']) \<noteq> SAFETY_GLOBAL" for f
    by (simp add: classify_expr_def mk_class_def Let_def referenced_components_def owners)
  then have "cl_class (classify_expr f ?E (ja_ids pair_adapter)) \<noteq> SAFETY_GLOBAL" for f by (simp add: pair_adapter_def)
  ultimately show ?thesis using discharge_matches_monolithic[OF pair_star_ok] by blast
qed

end
