(* ===== verification/Task_Envelope.thy ===== *)
theory Task_Envelope
  imports Py_Values
begin

text \<open>
  Task envelopes (\<^verbatim>\<open>tm/runtime/task.py\<close>): the record of a task, its form in the queue and back.  Fresh
  task ids (\<^verbatim>\<open>uuid\<close>) and clock readings are arguments.
\<close>

type_synonym task = "(string, val) dict"

record task_envelope =
  te_task_id :: string
  te_flow_id :: string
  te_input :: task
  te_headers :: task
  te_attempt :: int
  te_scheduled_at :: real
  te_trace :: task

definition idempotency_key :: "task_envelope \<Rightarrow> string option" where
  "idempotency_key e = (case get_val (te_headers e) ''idempotency_key'' of
       VStr s \<Rightarrow> if s = [] then None else Some s
     | _ \<Rightarrow> None)"

definition composite_key :: "task_envelope \<Rightarrow> string" where
  "composite_key e = (case idempotency_key e of Some k \<Rightarrow> k | None \<Rightarrow> te_task_id e)"

definition envelope_to_dict :: "task_envelope \<Rightarrow> task" where
  "envelope_to_dict e =
     [(''task_id'', VStr (te_task_id e)), (''flow_id'', VStr (te_flow_id e)), (''input'', VDict (te_input e)),
      (''headers'', VDict (te_headers e)), (''attempt'', VInt (te_attempt e)),
      (''scheduled_at'', VFloat (te_scheduled_at e)), (''trace'', VDict (te_trace e))]"

definition with_retry :: "task_envelope \<Rightarrow> int \<Rightarrow> real \<Rightarrow> task_envelope" where
  "with_retry e n t = \<lparr>te_task_id = te_task_id e, te_flow_id = te_flow_id e, te_input = te_input e,
     te_headers = te_headers e, te_attempt = n, te_scheduled_at = t, te_trace = te_trace e\<rparr>"

text \<open>\<^verbatim>\<open>TaskEnvelope.new\<close>: an empty or missing task id is replaced by a fresh one.\<close>

definition envelope_new :: "string \<Rightarrow> real \<Rightarrow> string \<Rightarrow> task \<Rightarrow> task option \<Rightarrow> task option \<Rightarrow> string option \<Rightarrow> real option \<Rightarrow> task_envelope" where
  "envelope_new fresh now flow_id inp headers trace task_id scheduled_at =
     \<lparr>te_task_id = (case task_id of Some s \<Rightarrow> if s = [] then fresh else s | None \<Rightarrow> fresh),
      te_flow_id = flow_id, te_input = inp,
      te_headers = dict_pop ''task_id'' (case headers of Some h \<Rightarrow> h | None \<Rightarrow> []),
      te_attempt = 0,
      te_scheduled_at = (case scheduled_at of Some t \<Rightarrow> t | None \<Rightarrow> now),
      te_trace = (case trace of Some t \<Rightarrow> t | None \<Rightarrow> [])\<rparr>"

definition freeze_mapping :: "val \<Rightarrow> task result" where
  "freeze_mapping v = (case v of
       VNone \<Rightarrow> Inr []
     | VDict d \<Rightarrow> Inr d
     | _ \<Rightarrow> Inl (TypeError ''expected mapping for task field''))"

definition envelope_from_dict :: "(val \<Rightarrow> string) \<Rightarrow> real \<Rightarrow> task \<Rightarrow> task_envelope result" where
  "envelope_from_dict rep now payload =
     (let task_id = py_str rep (get_val payload ''task_id''); flow_id = py_str rep (get_val payload ''flow_id'') in
      if task_id = [] then Inl (ValueError ''task payload missing task_id'')
      else if flow_id = [] then Inl (ValueError ''task payload missing flow_id'')
      else
        bind_result (int_of (dict_get_or payload ''attempt'' (VInt 0))) (\<lambda>attempt.
        bind_result (case get_val payload ''scheduled_at'' of VNone \<Rightarrow> Inr now | v \<Rightarrow> float_of v) (\<lambda>scheduled_at.
        bind_result (freeze_mapping (get_or payload ''input'' (VDict []))) (\<lambda>inp.
        bind_result (freeze_mapping (get_or payload ''headers'' (VDict []))) (\<lambda>headers.
        bind_result (freeze_mapping (get_or payload ''trace'' (VDict []))) (\<lambda>trace.
          Inr \<lparr>te_task_id = task_id, te_flow_id = flow_id, te_input = inp, te_headers = headers,
               te_attempt = attempt, te_scheduled_at = scheduled_at, te_trace = trace\<rparr>))))))"

section \<open>Round trip\<close>

definition envelope_ok :: "task_envelope \<Rightarrow> bool" where
  "envelope_ok e \<longleftrightarrow> te_task_id e \<noteq> [] \<and> te_flow_id e \<noteq> []"

lemma freeze_get_dict [simp]:
  "dict_get d k = Some (VDict m) \<Longrightarrow> freeze_mapping (get_or d k (VDict [])) = Inr m"
  by (cases m) (simp_all add: freeze_mapping_def get_or_def)

lemma envelope_dict_roundtrip:
  "envelope_ok e \<Longrightarrow> envelope_from_dict rep now (envelope_to_dict e) = Inr e"
  by (simp add: envelope_from_dict_def envelope_to_dict_def envelope_ok_def get_val_def dict_get_or_def)

lemma envelope_new_ok: "fresh \<noteq> [] \<Longrightarrow> flow \<noteq> [] \<Longrightarrow> envelope_ok (envelope_new fresh now flow inp headers trace tid sched)"
  by (auto simp: envelope_new_def envelope_ok_def split: option.splits)

lemma with_retry_simps [simp]:
  "te_task_id (with_retry e n t) = te_task_id e" "te_flow_id (with_retry e n t) = te_flow_id e"
  "te_attempt (with_retry e n t) = n" "te_scheduled_at (with_retry e n t) = t"
  "idempotency_key (with_retry e n t) = idempotency_key e" "composite_key (with_retry e n t) = composite_key e"
  "envelope_ok (with_retry e n t) = envelope_ok e"
  by (simp_all add: with_retry_def idempotency_key_def composite_key_def envelope_ok_def split: option.split)

end
