(* ===== verification/Work_Queue.thy ===== *)
theory Work_Queue
  imports Task_Envelope "HOL-Library.Product_Lexorder"
begin

text \<open>
  The in-memory work queue (\<^verbatim>\<open>tm/runtime/queue/memory.py\<close>, interface in \<^verbatim>\<open>tm/runtime/queue/base.py\<close>).
  Clock readings are arguments.  The ready heap of the code is a sorted list here: \<^verbatim>\<open>heapq\<close> is used
  only to push a pair of availability time and offset and to pop the least one.
\<close>

record leased_task =
  lt_offset :: nat
  lt_task :: task
  lt_deadline :: real
  lt_token :: string

record queue_entry =
  qe_task :: task
  qe_available_at :: real
  qe_lease_deadline :: real
  qe_token :: "string option"
  qe_acked :: bool

record mem_queue =
  mq_next_offset :: nat
  mq_entries :: "(nat, queue_entry) dict"
  mq_ready :: "(real \<times> nat) list"
  mq_lease_seq :: nat

definition empty_queue :: mem_queue where
  "empty_queue = \<lparr>mq_next_offset = 0, mq_entries = [], mq_ready = [], mq_lease_seq = 0\<rparr>"

abbreviation heappush :: "real \<times> nat \<Rightarrow> (real \<times> nat) list \<Rightarrow> (real \<times> nat) list" where
  "heappush \<equiv> insort"

definition extract_available_at :: "task \<Rightarrow> real \<Rightarrow> real \<Rightarrow> real" where
  "extract_available_at t now_wall now_monotonic =
     (let scheduled = (case to_float (dict_get_or t ''scheduled_at'' (VFloat 0)) of None \<Rightarrow> 0 | Some x \<Rightarrow> x)
      in if scheduled \<le> 0 then now_monotonic else now_monotonic + max 0 (scheduled - now_wall))"

definition q_put :: "mem_queue \<Rightarrow> task \<Rightarrow> real \<Rightarrow> real \<Rightarrow> nat \<times> mem_queue" where
  "q_put q t now_wall now_monotonic =
     (let offset = mq_next_offset q; available_at = extract_available_at t now_wall now_monotonic in
      (offset, q\<lparr>mq_next_offset := offset + 1,
         mq_entries := dict_set offset
           \<lparr>qe_task = t, qe_available_at = available_at, qe_lease_deadline = 0, qe_token = None, qe_acked = False\<rparr> (mq_entries q),
         mq_ready := heappush (available_at, offset) (mq_ready q)\<rparr>))"

definition unlease :: "queue_entry \<Rightarrow> queue_entry" where
  "unlease e = e\<lparr>qe_token := None, qe_lease_deadline := 0\<rparr>"

definition lease_expired :: "real \<Rightarrow> queue_entry \<Rightarrow> bool" where
  "lease_expired now e \<longleftrightarrow> \<not> qe_acked e \<and> qe_token e \<noteq> None \<and> qe_lease_deadline e \<le> now"

definition release_one :: "real \<Rightarrow> mem_queue \<Rightarrow> nat \<times> queue_entry \<Rightarrow> mem_queue" where
  "release_one now q oe = (case oe of (offset, e) \<Rightarrow>
     if lease_expired now e
     then q\<lparr>mq_entries := dict_set offset (unlease e) (mq_entries q),
            mq_ready := heappush (qe_available_at e, offset) (mq_ready q)\<rparr>
     else q)"

definition release_expired :: "mem_queue \<Rightarrow> real \<Rightarrow> mem_queue" where
  "release_expired q now = foldl (release_one now) q (mq_entries q)"

definition lease_token :: "nat \<Rightarrow> string" where
  "lease_token n = ''lease-'' @ str_nat n"

definition take_lease :: "string \<Rightarrow> real \<Rightarrow> queue_entry \<Rightarrow> queue_entry" where
  "take_lease token deadline e = e\<lparr>qe_token := Some token, qe_lease_deadline := deadline\<rparr>"

text \<open>The loop over the heap: entries that are gone are skipped, a future entry ends it.\<close>

fun lease_loop :: "real \<Rightarrow> real \<Rightarrow> nat \<Rightarrow> (real \<times> nat) list \<Rightarrow> (nat, queue_entry) dict \<Rightarrow> nat
    \<Rightarrow> leased_task list \<times> (real \<times> nat) list \<times> (nat, queue_entry) dict \<times> nat" where
  "lease_loop now delta n [] es seq = ([], [], es, seq)"
| "lease_loop now delta n ((available_at, offset) # ready) es seq =
     (if n = 0 \<or> available_at > now then ([], (available_at, offset) # ready, es, seq)
      else case dict_get es offset of
        None \<Rightarrow> lease_loop now delta n ready es seq
      | Some e \<Rightarrow>
          if qe_acked e then lease_loop now delta n ready es seq
          else
            let token = lease_token (seq + 1);
                (ls, rest) = lease_loop now delta (n - 1) ready (dict_set offset (take_lease token (now + delta) e) es) (seq + 1)
            in (\<lparr>lt_offset = offset, lt_task = qe_task e, lt_deadline = now + delta, lt_token = token\<rparr> # ls, rest))"

definition q_lease :: "mem_queue \<Rightarrow> int \<Rightarrow> int \<Rightarrow> real \<Rightarrow> leased_task list \<times> mem_queue" where
  "q_lease q n lease_ms now =
     (if n \<le> 0 then ([], q)
      else
        let q1 = release_expired q now;
            (ls, ready, es, seq) = lease_loop now (real_of_int (max lease_ms 0) / 1000) (nat n)
              (mq_ready q1) (mq_entries q1) (mq_lease_seq q1)
        in (ls, q1\<lparr>mq_ready := ready, mq_entries := es, mq_lease_seq := seq\<rparr>))"

text \<open>The entry under a live lease token, the guard of \<^verbatim>\<open>ack\<close> and \<^verbatim>\<open>nack\<close>.\<close>

definition held_entry :: "mem_queue \<Rightarrow> nat \<Rightarrow> string \<Rightarrow> queue_entry option" where
  "held_entry q offset token = (case dict_get (mq_entries q) offset of
       None \<Rightarrow> None
     | Some e \<Rightarrow> if qe_acked e \<or> qe_token e \<noteq> Some token then None else Some e)"

definition q_ack :: "mem_queue \<Rightarrow> nat \<Rightarrow> string \<Rightarrow> mem_queue" where
  "q_ack q offset token = (case held_entry q offset token of
       None \<Rightarrow> q
     | Some _ \<Rightarrow> q\<lparr>mq_entries := dict_pop offset (mq_entries q)\<rparr>)"

definition q_nack :: "mem_queue \<Rightarrow> nat \<Rightarrow> string \<Rightarrow> bool \<Rightarrow> real \<Rightarrow> mem_queue" where
  "q_nack q offset token requeue now = (case held_entry q offset token of
       None \<Rightarrow> q
     | Some e \<Rightarrow>
         if requeue then
           (let available_at = (if qe_available_at e < now then now else qe_available_at e) in
            q\<lparr>mq_entries := dict_set offset ((unlease e)\<lparr>qe_available_at := available_at\<rparr>) (mq_entries q),
              mq_ready := heappush (available_at, offset) (mq_ready q)\<rparr>)
         else q\<lparr>mq_entries := dict_pop offset (mq_entries q)\<rparr>)"

definition q_reschedule :: "mem_queue \<Rightarrow> nat \<Rightarrow> real \<Rightarrow> mem_queue" where
  "q_reschedule q offset available_at = (case dict_get (mq_entries q) offset of
       None \<Rightarrow> q
     | Some e \<Rightarrow>
         if qe_acked e then q
         else
           let q1 = q\<lparr>mq_entries := dict_set offset (e\<lparr>qe_available_at := available_at\<rparr>) (mq_entries q)\<rparr> in
           if qe_token e = None then q1\<lparr>mq_ready := heappush (available_at, offset) (mq_ready q1)\<rparr> else q1)"

definition q_pending_count :: "mem_queue \<Rightarrow> nat" where
  "q_pending_count q = length (mq_entries q)"

definition q_oldest_available_at :: "mem_queue \<Rightarrow> real option" where
  "q_oldest_available_at q =
     (case map (\<lambda>(_, e). qe_available_at e) (filter (\<lambda>(_, e). qe_token e = None) (mq_entries q)) of
        [] \<Rightarrow> None
      | c # cs \<Rightarrow> Some (foldl min c cs))"

section \<open>Calls\<close>

datatype queue_call =
    Put task real real
  | Lease int int real
  | Ack nat string
  | Nack nat string bool real
  | Reschedule nat real

definition q_exec :: "mem_queue \<Rightarrow> queue_call \<Rightarrow> leased_task list \<times> mem_queue" where
  "q_exec q c = (case c of
       Put t wall mon \<Rightarrow> ([], snd (q_put q t wall mon))
     | Lease n ms now \<Rightarrow> q_lease q n ms now
     | Ack offset token \<Rightarrow> ([], q_ack q offset token)
     | Nack offset token requeue now \<Rightarrow> ([], q_nack q offset token requeue now)
     | Reschedule offset t \<Rightarrow> ([], q_reschedule q offset t))"

fun q_run :: "mem_queue \<Rightarrow> queue_call list \<Rightarrow> leased_task list \<times> mem_queue" where
  "q_run q [] = ([], q)"
| "q_run q (c # cs) = (let (ls, q1) = q_exec q c; (ls', q2) = q_run q1 cs in (ls @ ls', q2))"

section \<open>The invariant\<close>

text \<open>
  No entry is marked as acknowledged (such entries are removed), offsets are below the next one,
  tokens are those handed out, and an entry that is not leased waits in the heap under its
  availability time.
\<close>

definition entry_ok :: "mem_queue \<Rightarrow> nat \<Rightarrow> queue_entry \<Rightarrow> bool" where
  "entry_ok q offset e \<longleftrightarrow> offset < mq_next_offset q \<and> \<not> qe_acked e \<and>
     (case qe_token e of
        None \<Rightarrow> (qe_available_at e, offset) \<in> set (mq_ready q)
      | Some token \<Rightarrow> \<exists>n. 0 < n \<and> n \<le> mq_lease_seq q \<and> token = lease_token n)"

definition queue_inv :: "mem_queue \<Rightarrow> bool" where
  "queue_inv q \<longleftrightarrow> dict_wf (mq_entries q) \<and> sorted (mq_ready q) \<and>
     (\<forall>offset e. dict_get (mq_entries q) offset = Some e \<longrightarrow> entry_ok q offset e)"

lemma lease_token_inject [simp]: "lease_token m = lease_token n \<longleftrightarrow> m = n"
  by (simp add: lease_token_def)

lemma queue_invI:
  "dict_wf (mq_entries q) \<Longrightarrow> sorted (mq_ready q) \<Longrightarrow>
   (\<And>offset e. dict_get (mq_entries q) offset = Some e \<Longrightarrow> entry_ok q offset e) \<Longrightarrow> queue_inv q"
  by (simp add: queue_inv_def)

lemma queue_invD:
  "queue_inv q \<Longrightarrow> dict_get (mq_entries q) offset = Some e \<Longrightarrow> entry_ok q offset e"
  by (simp add: queue_inv_def)

lemma entry_ok_mono:
  "entry_ok q offset e \<Longrightarrow> mq_next_offset q \<le> mq_next_offset q' \<Longrightarrow> set (mq_ready q) \<subseteq> set (mq_ready q') \<Longrightarrow>
   mq_lease_seq q \<le> mq_lease_seq q' \<Longrightarrow> entry_ok q' offset e"
  by (fastforce simp: entry_ok_def split: option.splits)

lemma inv_empty: "queue_inv empty_queue"
  by (simp add: queue_inv_def empty_queue_def)

text \<open>An update of one entry, with a heap that only grows.\<close>

lemma inv_update:
  assumes "queue_inv q" and "mq_next_offset q \<le> mq_next_offset q'" "set (mq_ready q) \<subseteq> set (mq_ready q')"
    "mq_lease_seq q \<le> mq_lease_seq q'" "sorted (mq_ready q')"
    and "mq_entries q' = dict_set offset e (mq_entries q)" "entry_ok q' offset e"
  shows "queue_inv q'"
proof (rule queue_invI)
  show "dict_wf (mq_entries q')" using assms(1,6) by (simp add: queue_inv_def)
  fix off e' assume "dict_get (mq_entries q') off = Some e'"
  then show "entry_ok q' off e'"
    using assms(6,7) queue_invD[OF assms(1), of off e'] entry_ok_mono[OF _ assms(2-4)]
    by (auto simp: dict_simps split: if_splits)
qed (fact assms(5))

lemma inv_pop:
  assumes "queue_inv q"
  shows "queue_inv (q\<lparr>mq_entries := dict_pop offset (mq_entries q)\<rparr>)"
proof (rule queue_invI)
  fix off e' assume "dict_get (mq_entries (q\<lparr>mq_entries := dict_pop offset (mq_entries q)\<rparr>)) off = Some e'"
  then show "entry_ok (q\<lparr>mq_entries := dict_pop offset (mq_entries q)\<rparr>) off e'"
    using queue_invD[OF assms, of off e'] by (auto simp: dict_simps entry_ok_def split: if_splits option.splits)
qed (use assms in \<open>auto simp: queue_inv_def\<close>)

lemma inv_put: "queue_inv q \<Longrightarrow> queue_inv (snd (q_put q t wall mon))"
  by (rule inv_update[of q _ "mq_next_offset q"])
    (auto simp: q_put_def Let_def entry_ok_def set_insort_key queue_inv_def sorted_insort)

lemma held_entryD: "held_entry q offset token = Some e \<Longrightarrow>
    dict_get (mq_entries q) offset = Some e \<and> qe_token e = Some token"
  by (auto simp: held_entry_def split: option.splits if_splits)

lemma inv_ack: "queue_inv q \<Longrightarrow> queue_inv (q_ack q offset token)"
  using inv_pop by (auto simp: q_ack_def split: option.splits)

lemma inv_nack: "queue_inv q \<Longrightarrow> queue_inv (q_nack q offset token requeue now)"
proof (cases "held_entry q offset token")
  case (Some e)
  assume q: "queue_inv q"
  have e: "entry_ok q offset e" using queue_invD[OF q] held_entryD[OF Some] by blast
  define av where "av = (if qe_available_at e < now then now else qe_available_at e)"
  have "queue_inv (q\<lparr>mq_entries := dict_set offset ((unlease e)\<lparr>qe_available_at := av\<rparr>) (mq_entries q),
      mq_ready := heappush (av, offset) (mq_ready q)\<rparr>)"
    by (rule inv_update[OF q, of _ offset "(unlease e)\<lparr>qe_available_at := av\<rparr>"])
      (use q e in \<open>auto simp: entry_ok_def unlease_def set_insort_key queue_inv_def sorted_insort\<close>)
  then show ?thesis using Some inv_pop[OF q] by (simp add: q_nack_def av_def Let_def)
qed (simp add: q_nack_def)

lemma inv_reschedule: "queue_inv q \<Longrightarrow> queue_inv (q_reschedule q offset t)"
proof (cases "dict_get (mq_entries q) offset")
  case (Some e)
  assume q: "queue_inv q"
  have e: "entry_ok q offset e" using queue_invD[OF q Some] .
  let ?e = "e\<lparr>qe_available_at := t\<rparr>"
  have "queue_inv (q\<lparr>mq_entries := dict_set offset ?e (mq_entries q), mq_ready := heappush (t, offset) (mq_ready q)\<rparr>)"
    if "qe_token e = None"
    by (rule inv_update[OF q, of _ offset ?e])
      (use q e that in \<open>auto simp: entry_ok_def set_insort_key queue_inv_def sorted_insort\<close>)
  moreover have "queue_inv (q\<lparr>mq_entries := dict_set offset ?e (mq_entries q)\<rparr>)" if "qe_token e \<noteq> None"
    by (rule inv_update[OF q, of _ offset ?e]) (use q e that in \<open>auto simp: entry_ok_def queue_inv_def\<close>)
  ultimately show ?thesis using Some q by (auto simp: q_reschedule_def Let_def)
qed (simp add: q_reschedule_def)

section \<open>Leasing\<close>

lemma release_expired_fold:
  assumes "queue_inv q" and "distinct (map fst oes)" and "\<forall>(off, e)\<in>set oes. dict_get (mq_entries q) off = Some e"
  shows "queue_inv (foldl (release_one now) q oes) \<and> mq_next_offset (foldl (release_one now) q oes) = mq_next_offset q \<and>
    mq_lease_seq (foldl (release_one now) q oes) = mq_lease_seq q \<and> set (mq_ready q) \<subseteq> set (mq_ready (foldl (release_one now) q oes)) \<and>
    (\<forall>off. dict_get (mq_entries (foldl (release_one now) q oes)) off = (case dict_get oes off of
       None \<Rightarrow> dict_get (mq_entries q) off
     | Some e \<Rightarrow> Some (if lease_expired now e then unlease e else e)))"
  using assms
proof (induction oes arbitrary: q)
  case (Cons oe oes)
  obtain off e where oe: "oe = (off, e)" by (cases oe)
  let ?q = "release_one now q oe"
  have e: "dict_get (mq_entries q) off = Some e" "entry_ok q off e" using Cons.prems queue_invD oe by auto
  have "queue_inv ?q"
  proof (cases "lease_expired now e")
    case True
    have "queue_inv (q\<lparr>mq_entries := dict_set off (unlease e) (mq_entries q), mq_ready := heappush (qe_available_at e, off) (mq_ready q)\<rparr>)"
      by (rule inv_update[OF Cons.prems(1), of _ off "unlease e"])
        (use Cons.prems(1) e in \<open>auto simp: entry_ok_def unlease_def set_insort_key queue_inv_def sorted_insort\<close>)
    then show ?thesis using True by (simp add: release_one_def oe)
  qed (use Cons.prems in \<open>simp add: release_one_def oe\<close>)
  moreover have "\<forall>(off', e')\<in>set oes. dict_get (mq_entries ?q) off' = Some e'"
    using Cons.prems oe by (force simp: release_one_def dict_simps)
  ultimately have IH: "queue_inv (foldl (release_one now) ?q oes) \<and> mq_next_offset (foldl (release_one now) ?q oes) = mq_next_offset ?q \<and>
    mq_lease_seq (foldl (release_one now) ?q oes) = mq_lease_seq ?q \<and> set (mq_ready ?q) \<subseteq> set (mq_ready (foldl (release_one now) ?q oes)) \<and>
    (\<forall>off. dict_get (mq_entries (foldl (release_one now) ?q oes)) off = (case dict_get oes off of
       None \<Rightarrow> dict_get (mq_entries ?q) off
     | Some e \<Rightarrow> Some (if lease_expired now e then unlease e else e)))"
    using Cons.IH Cons.prems(2) by simp
  have q: "mq_next_offset ?q = mq_next_offset q" "mq_lease_seq ?q = mq_lease_seq q" "set (mq_ready q) \<subseteq> set (mq_ready ?q)"
    by (auto simp: release_one_def oe set_insort_key)
  have "dict_get oes off = None" using Cons.prems(2) oe by (simp add: dict_get_None_iff)
  moreover have "dict_get (mq_entries ?q) o' =
      (if o' = off then Some (if lease_expired now e then unlease e else e) else dict_get (mq_entries q) o')" for o'
    using e by (simp add: oe release_one_def dict_simps)
  ultimately have "\<forall>o'. dict_get (mq_entries (foldl (release_one now) ?q oes)) o' = (case dict_get (oe # oes) o' of
       None \<Rightarrow> dict_get (mq_entries q) o' | Some e \<Rightarrow> Some (if lease_expired now e then unlease e else e))"
    using IH unfolding oe by (auto split: option.splits)
  moreover have "set (mq_ready q) \<subseteq> set (mq_ready (foldl (release_one now) ?q oes))" using IH q(3) by blast
  ultimately show ?case using IH q(1,2) by (simp only: foldl.simps simp_thms)
qed simp

lemma release_expired_spec:
  assumes "queue_inv q"
  shows "queue_inv (release_expired q now)" "mq_next_offset (release_expired q now) = mq_next_offset q"
    "mq_lease_seq (release_expired q now) = mq_lease_seq q" "set (mq_ready q) \<subseteq> set (mq_ready (release_expired q now))"
    "dict_get (mq_entries (release_expired q now)) off =
       map_option (\<lambda>e. if lease_expired now e then unlease e else e) (dict_get (mq_entries q) off)"
proof -
  have "\<forall>(off, e)\<in>set (mq_entries q). dict_get (mq_entries q) off = Some e" "distinct (map fst (mq_entries q))"
    using assms by (auto simp: queue_inv_def)
  note f = release_expired_fold[OF assms this(2,1), of now]
  show "queue_inv (release_expired q now)" "mq_next_offset (release_expired q now) = mq_next_offset q"
    "mq_lease_seq (release_expired q now) = mq_lease_seq q" "set (mq_ready q) \<subseteq> set (mq_ready (release_expired q now))"
    "dict_get (mq_entries (release_expired q now)) off =
       map_option (\<lambda>e. if lease_expired now e then unlease e else e) (dict_get (mq_entries q) off)"
    using f by (auto simp: release_expired_def split: option.splits)
qed

text \<open>What the lease loop leaves: the rest of the heap, the same offsets, and new tokens on what it handed out.\<close>

abbreviation with_state :: "mem_queue \<Rightarrow> (real \<times> nat) list \<Rightarrow> (nat, queue_entry) dict \<Rightarrow> nat \<Rightarrow> mem_queue" where
  "with_state q ready es seq \<equiv> q\<lparr>mq_ready := ready, mq_entries := es, mq_lease_seq := seq\<rparr>"

lemma inv_drop_ready:
  assumes "queue_inv (with_state q ((t, off) # ready) es seq)"
    and "case dict_get es off of None \<Rightarrow> True | Some e \<Rightarrow> qe_acked e \<or> qe_token e \<noteq> None"
  shows "queue_inv (with_state q ready es seq)"
proof (rule queue_invI)
  show "dict_wf (mq_entries (with_state q ready es seq))" "sorted (mq_ready (with_state q ready es seq))"
    using assms(1) by (auto simp: queue_inv_def)
  fix o' e assume g: "dict_get (mq_entries (with_state q ready es seq)) o' = Some e"
  then have "entry_ok (with_state q ((t, off) # ready) es seq) o' e" using queue_invD[OF assms(1)] by simp
  then show "entry_ok (with_state q ready es seq) o' e"
    using assms(2) g by (auto simp: entry_ok_def split: option.splits)
qed

lemma inv_lease_entry:
  assumes "queue_inv (with_state q ((t, off) # ready) es seq)" and "dict_get es off = Some e"
  shows "queue_inv (with_state q ready (dict_set off (take_lease (lease_token (seq + 1)) d e) es) (seq + 1))"
proof -
  have "queue_inv (with_state q ((t, off) # ready) (dict_set off (take_lease (lease_token (seq + 1)) d e) es) (seq + 1))"
    by (rule inv_update[OF assms(1), of _ off "take_lease (lease_token (seq + 1)) d e"])
      (use assms queue_invD[OF assms(1), of off e] in \<open>auto simp: entry_ok_def take_lease_def queue_inv_def\<close>)
  then show ?thesis by (rule inv_drop_ready) (simp add: dict_simps take_lease_def)
qed

lemma lease_loop_inv:
  "queue_inv (with_state q ready es seq) \<Longrightarrow> lease_loop now delta n ready es seq = (ls, ready', es', seq') \<Longrightarrow>
   queue_inv (with_state q ready' es' seq')"
proof (induction now delta n ready es seq arbitrary: ls ready' es' seq' rule: lease_loop.induct)
  case (2 now delta n t off ready es seq)
  show ?case
  proof (cases "n = 0 \<or> t > now")
    case True
    then show ?thesis using 2(4,5) by auto
  next
    case go: False
    show ?thesis
    proof (cases "dict_get es off")
      case None
      then show ?thesis using 2(1)[OF go None] inv_drop_ready[OF 2(4)] 2(5) go by simp
    next
      case (Some e)
      have "\<not> qe_acked e" using queue_invD[OF 2(4), of off e] Some by (simp add: entry_ok_def)
      then show ?thesis
        using 2(3)[OF go Some _ refl] inv_lease_entry[OF 2(4) Some] 2(5) go Some by (auto simp: Let_def split: prod.splits)
    qed
  qed
qed auto

lemma inv_lease: "queue_inv q \<Longrightarrow> queue_inv (snd (q_lease q n ms now))"
proof -
  assume q: "queue_inv q"
  let ?q = "release_expired q now"
  have "with_state ?q (mq_ready ?q) (mq_entries ?q) (mq_lease_seq ?q) = ?q" by simp
  then have "queue_inv (with_state ?q (mq_ready ?q) (mq_entries ?q) (mq_lease_seq ?q))" using release_expired_spec(1)[OF q] by simp
  from lease_loop_inv[OF this] show ?thesis using q by (auto simp: q_lease_def Let_def split: prod.splits)
qed

lemma inv_exec: "queue_inv q \<Longrightarrow> queue_inv (snd (q_exec q c))"
  using inv_put inv_lease inv_ack inv_nack inv_reschedule by (cases c) (auto simp: q_exec_def)

lemma inv_run: "queue_inv q \<Longrightarrow> queue_inv (snd (q_run q cs))"
proof (induction cs arbitrary: q)
  case (Cons c cs)
  then show ?case using inv_exec[of q c] by (simp add: Let_def case_prod_unfold)
qed simp

section \<open>The contract of a work queue\<close>

text \<open>
  What clients see of a queue: the task of each offset that is not yet acknowledged, and its lease
  token if it is leased.
\<close>

type_synonym queue_view = "nat \<Rightarrow> (task \<times> string option) option"

locale work_queue =
  fixes put :: "'q \<Rightarrow> task \<Rightarrow> real \<Rightarrow> real \<Rightarrow> nat \<times> 'q"
    and lease :: "'q \<Rightarrow> int \<Rightarrow> int \<Rightarrow> real \<Rightarrow> leased_task list \<times> 'q"
    and ack :: "'q \<Rightarrow> nat \<Rightarrow> string \<Rightarrow> 'q" and nack :: "'q \<Rightarrow> nat \<Rightarrow> string \<Rightarrow> bool \<Rightarrow> real \<Rightarrow> 'q"
    and view :: "'q \<Rightarrow> queue_view" and invar :: "'q \<Rightarrow> bool"
  assumes put_invar: "invar q \<Longrightarrow> invar (snd (put q t wall mon))"
    and put_view: "invar q \<Longrightarrow> put q t wall mon = (off, q') \<Longrightarrow> view q off = None \<and> view q' = (view q)(off \<mapsto> (t, None))"
    and lease_invar: "invar q \<Longrightarrow> invar (snd (lease q n ms now))"
    and lease_view: "invar q \<Longrightarrow> lease q n ms now = (ls, q') \<Longrightarrow> map_option fst (view q' off) = map_option fst (view q off)"
    and lease_tasks: "invar q \<Longrightarrow> lease q n ms now = (ls, q') \<Longrightarrow> l \<in> set ls \<Longrightarrow>
      \<exists>token. view q' (lt_offset l) = Some (lt_task l, Some token)"
    and ack_invar: "invar q \<Longrightarrow> invar (ack q off token)"
    and ack_view: "invar q \<Longrightarrow> view (ack q off token) =
      (if \<exists>t. view q off = Some (t, Some token) then (view q)(off := None) else view q)"
    and nack_invar: "invar q \<Longrightarrow> invar (nack q off token requeue now)"
    and nack_view: "invar q \<Longrightarrow> view (nack q off token requeue now) =
      (case view q off of
         Some (t, Some token') \<Rightarrow> if token' = token then (view q)(off := if requeue then Some (t, None) else None) else view q
       | _ \<Rightarrow> view q)"
begin

text \<open>A task stays until it is acknowledged or rejected for good under its current lease.\<close>

lemma ack_keeps:
  "invar q \<Longrightarrow> view q off = Some (t, tok) \<Longrightarrow> off' \<noteq> off \<or> tok \<noteq> Some token \<Longrightarrow> view (ack q off' token) off = Some (t, tok)"
  by (auto simp: ack_view)

lemma put_keeps: "invar q \<Longrightarrow> view q off = Some x \<Longrightarrow> view (snd (put q t wall mon)) off = Some x"
  using put_view[of q t wall mon "fst (put q t wall mon)"] by (auto simp: prod_eq_iff)

lemma nack_requeues:
  "invar q \<Longrightarrow> view q off = Some (t, Some token) \<Longrightarrow> view (nack q off token True now) off = Some (t, None)"
  by (simp add: nack_view)

lemma ack_gone: "invar q \<Longrightarrow> view q off = Some (t, Some token) \<Longrightarrow> view (ack q off token) = (view q)(off := None)"
  by (auto simp: ack_view)

text \<open>Acknowledging a task and putting its successor, as a retry does.\<close>

lemma replace_view:
  assumes "invar q" and "view q off = Some (t, Some token)" and "put (ack q off token) t' wall mon = (off', q')"
  shows "invar q' \<and> view q' = ((view q)(off := None))(off' \<mapsto> (t', None)) \<and> (off' = off \<or> view q off' = None)"
  using put_view[OF ack_invar[OF assms(1)] assms(3)] put_invar[OF ack_invar[OF assms(1)], of off token t' wall mon] assms(3)
  by (auto simp: ack_gone[OF assms(1,2)] split: if_splits)

end

definition q_view :: "mem_queue \<Rightarrow> queue_view" where
  "q_view q off = map_option (\<lambda>e. (qe_task e, qe_token e)) (dict_get (mq_entries q) off)"

lemma lease_loop_view:
  assumes "\<And>off e. dict_get es off = Some e \<Longrightarrow> \<not> qe_acked e"
    and "lease_loop now delta n ready es seq = (ls, ready', es', seq')"
  shows "map_option qe_task (dict_get es' off) = map_option qe_task (dict_get es off) \<and>
    (\<forall>e'. dict_get es' off = Some e' \<longrightarrow> \<not> qe_acked e') \<and>
    (\<forall>e. dict_get es off = Some e \<and> qe_token e \<noteq> None \<longrightarrow> (\<exists>e'. dict_get es' off = Some e' \<and> qe_token e' \<noteq> None)) \<and>
    (\<forall>l\<in>set ls. \<exists>e. dict_get es' (lt_offset l) = Some e \<and> qe_task e = lt_task l \<and> qe_token e \<noteq> None)"
  using assms
proof (induction now delta n ready es seq arbitrary: ls ready' es' seq' off rule: lease_loop.induct)
  case (2 now delta n t o1 ready es seq)
  show ?case
  proof (cases "n = 0 \<or> t > now")
    case True
    then show ?thesis using 2(4,5) by auto
  next
    case go: False
    show ?thesis
    proof (cases "dict_get es o1")
      case None
      then show ?thesis using 2(1)[OF go None 2(4)] 2(5) go by simp
    next
      case (Some e)
      let ?es = "dict_set o1 (take_lease (lease_token (seq + 1)) (now + delta) e) es"
      have na: "\<not> qe_acked e" using 2(4) Some by blast
      have ok: "\<not> qe_acked e'" if "dict_get ?es o' = Some e'" for o' e'
        using that 2(4) na by (auto simp: dict_simps take_lease_def split: if_splits)
      obtain ls1 where ls1: "lease_loop now delta (n - 1) ready ?es (seq + 1) = (ls1, ready', es', seq')"
        and ls: "ls = \<lparr>lt_offset = o1, lt_task = qe_task e, lt_deadline = now + delta, lt_token = lease_token (seq + 1)\<rparr> # ls1"
        using 2(5) go Some na by (auto simp: Let_def split: prod.splits)
      have IH: "map_option qe_task (dict_get es' x) = map_option qe_task (dict_get ?es x) \<and>
        (\<forall>e'. dict_get es' x = Some e' \<longrightarrow> \<not> qe_acked e') \<and>
        (\<forall>e. dict_get ?es x = Some e \<and> qe_token e \<noteq> None \<longrightarrow> (\<exists>e'. dict_get es' x = Some e' \<and> qe_token e' \<noteq> None)) \<and>
        (\<forall>l\<in>set ls1. \<exists>e. dict_get es' (lt_offset l) = Some e \<and> qe_task e = lt_task l \<and> qe_token e \<noteq> None)" for x
        by (rule 2(3)[OF go Some na refl _ ls1]) (fact ok)
      have "\<exists>e'. dict_get es' o1 = Some e' \<and> qe_task e' = qe_task e \<and> qe_token e' \<noteq> None"
        using IH[of o1] by (auto simp: dict_simps take_lease_def)
      then show ?thesis using IH[of off] Some ls by (auto simp: dict_simps take_lease_def)
    qed
  qed
qed auto

lemma q_lease_unfold:
  assumes "q_lease q n ms now = (ls, q')" and "0 < n"
  shows "\<exists>ready es seq. lease_loop now (real_of_int (max ms 0) / 1000) (nat n) (mq_ready (release_expired q now))
      (mq_entries (release_expired q now)) (mq_lease_seq (release_expired q now)) = (ls, ready, es, seq) \<and>
    q' = with_state (release_expired q now) ready es seq"
  using assms by (auto simp: q_lease_def Let_def split: prod.splits)

lemma q_lease_tasks:
  assumes "queue_inv q" and "q_lease q n ms now = (ls, q')"
  shows "map_option fst (q_view q' off) = map_option fst (q_view q off)"
    and "l \<in> set ls \<Longrightarrow> \<exists>token. q_view q' (lt_offset l) = Some (lt_task l, Some token)"
proof -
  let ?q = "release_expired q now"
  have na: "\<not> qe_acked e" if "dict_get (mq_entries ?q) o' = Some e" for o' e
    using queue_invD[OF release_expired_spec(1)[OF assms(1)] that] by (simp add: entry_ok_def)
  have same: "map_option qe_task (dict_get (mq_entries ?q) off) = map_option qe_task (dict_get (mq_entries q) off)"
    by (auto simp: release_expired_spec(5)[OF assms(1)] unlease_def option.map_comp comp_def intro!: option.map_cong0)
  have "map_option qe_task (dict_get (mq_entries q') off) = map_option qe_task (dict_get (mq_entries q) off) \<and>
      (\<forall>l\<in>set ls. \<exists>e. dict_get (mq_entries q') (lt_offset l) = Some e \<and> qe_task e = lt_task l \<and> qe_token e \<noteq> None)"
  proof (cases "0 < n")
    case True
    then obtain ready es seq where loop: "lease_loop now (real_of_int (max ms 0) / 1000) (nat n) (mq_ready ?q) (mq_entries ?q) (mq_lease_seq ?q)
        = (ls, ready, es, seq)" "q' = with_state ?q ready es seq" using q_lease_unfold[OF assms(2)] by blast
    show ?thesis using lease_loop_view[OF _ loop(1), of off] na loop(2) same by simp
  qed (use assms(2) in \<open>simp add: q_lease_def\<close>)
  then show "map_option fst (q_view q' off) = map_option fst (q_view q off)"
    "l \<in> set ls \<Longrightarrow> \<exists>token. q_view q' (lt_offset l) = Some (lt_task l, Some token)"
    by (auto simp: q_view_def option.map_comp comp_def)
qed

interpretation mem: work_queue q_put q_lease q_ack q_nack q_view queue_inv
proof
  fix q q' :: mem_queue and t :: task and wall mon now :: real and off :: nat and n ms :: int
    and ls :: "leased_task list" and l :: leased_task and token :: string and requeue :: bool
  assume q: "queue_inv q"
  show "queue_inv (snd (q_put q t wall mon))" "queue_inv (snd (q_lease q n ms now))" "queue_inv (q_ack q off token)"
    "queue_inv (q_nack q off token requeue now)" using q inv_put inv_lease inv_ack inv_nack by auto
  show "q_put q t wall mon = (off, q') \<Longrightarrow> q_view q off = None \<and> q_view q' = (q_view q)(off \<mapsto> (t, None))"
  proof -
    assume p: "q_put q t wall mon = (off, q')"
    then have "off = mq_next_offset q" by (simp add: q_put_def Let_def)
    then have "dict_get (mq_entries q) off = None" using queue_invD[OF q, of off] by (cases "dict_get (mq_entries q) off") (auto simp: entry_ok_def)
    then show ?thesis using p by (auto simp: q_put_def Let_def q_view_def dict_simps fun_eq_iff)
  qed
  show "q_lease q n ms now = (ls, q') \<Longrightarrow> map_option fst (q_view q' off) = map_option fst (q_view q off)"
    "q_lease q n ms now = (ls, q') \<Longrightarrow> l \<in> set ls \<Longrightarrow> \<exists>token. q_view q' (lt_offset l) = Some (lt_task l, Some token)"
    using q_lease_tasks[OF q] by blast+
  have na: "dict_get (mq_entries q) off = Some e \<Longrightarrow> \<not> qe_acked e" for e using queue_invD[OF q, of off e] by (simp add: entry_ok_def)
  show "q_view (q_ack q off token) = (if \<exists>t. q_view q off = Some (t, Some token) then (q_view q)(off := None) else q_view q)"
    using na by (auto simp: q_ack_def held_entry_def q_view_def dict_simps fun_eq_iff split: option.splits)
  show "q_view (q_nack q off token requeue now) = (case q_view q off of
      Some (t, Some token') \<Rightarrow> if token' = token then (q_view q)(off := if requeue then Some (t, None) else None) else q_view q
    | _ \<Rightarrow> q_view q)"
    using na by (auto simp: q_nack_def held_entry_def q_view_def dict_simps unlease_def Let_def fun_eq_iff split: option.splits)
qed

section \<open>Delivery\<close>

lemma lease_loop_delivers:
  assumes "sorted ready" and "length ready \<le> n" and "(t, off) \<in> set ready" "t \<le> now"
    and "\<And>o' e. dict_get es o' = Some e \<Longrightarrow> \<not> qe_acked e" and "dict_get es off = Some e"
  shows "off \<in> lt_offset ` set (fst (lease_loop now delta n ready es seq))"
  using assms
proof (induction now delta n ready es seq arbitrary: e rule: lease_loop.induct)
  case (2 now delta n t1 o1 ready es seq)
  have "t1 \<le> t" using 2(4,6) by (auto simp: less_eq_prod_def)
  then have go: "\<not> (n = 0 \<or> t1 > now)" using 2(5,7) by auto
  show ?case
  proof (cases "dict_get es o1")
    case None
    then have "(t, off) \<in> set ready" using 2(6,9) by auto
    then show ?thesis using 2(1)[OF go None] 2(4,5,7-9) go None by simp
  next
    case (Some e1)
    let ?es = "dict_set o1 (take_lease (lease_token (seq + 1)) (now + delta) e1) es"
    have na: "\<not> qe_acked e1" using 2(8) Some by blast
    obtain ls rest where ls: "lease_loop now delta (n - 1) ready ?es (seq + 1) = (ls, rest)" by (metis surj_pair)
    have out: "set (fst (lease_loop now delta n ((t1, o1) # ready) es seq)) =
        insert \<lparr>lt_offset = o1, lt_task = qe_task e1, lt_deadline = now + delta, lt_token = lease_token (seq + 1)\<rparr> (set ls)"
      using go Some na ls by (simp add: Let_def)
    show ?thesis
    proof (cases "o1 = off")
      case False
      have "off \<in> lt_offset ` set (fst (lease_loop now delta (n - 1) ready ?es (seq + 1)))"
      proof (rule 2(3)[OF go Some na refl])
        show "\<not> qe_acked e'" if "dict_get ?es o' = Some e'" for o' e'
          using that 2(8) na by (auto simp: dict_simps take_lease_def split: if_splits)
      qed (use 2(4-7,9) go False in \<open>auto simp: dict_simps\<close>)
      then show ?thesis using ls out by auto
    qed (use out in auto)
  qed
qed simp

lemma length_release_expired: "length (mq_ready (foldl (release_one now) q oes)) \<le> length (mq_ready q) + length oes"
proof (induction oes arbitrary: q)
  case (Cons oe oes)
  have "length (mq_ready (release_one now q oe)) \<le> Suc (length (mq_ready q))"
    by (cases oe) (simp add: release_one_def)
  then show ?case using Cons[of "release_one now q oe"] by simp
qed simp

lemma released_waiting:
  assumes "queue_inv q" and "dict_get (mq_entries q) off = Some e" and "qe_token e = None \<or> qe_lease_deadline e \<le> now"
  shows "\<exists>e'. dict_get (mq_entries (release_expired q now)) off = Some e' \<and> qe_token e' = None \<and> qe_available_at e' = qe_available_at e"
proof -
  have "\<not> qe_acked e" using queue_invD[OF assms(1,2)] by (simp add: entry_ok_def)
  then show ?thesis using assms(2,3) by (auto simp: release_expired_spec(5)[OF assms(1)] lease_expired_def unlease_def)
qed

section \<open>Exclusive leases\<close>

text \<open>Every offset is at most once in the heap, and not while it is leased.\<close>

definition exclusive :: "mem_queue \<Rightarrow> bool" where
  "exclusive q \<longleftrightarrow> distinct (map snd (mq_ready q)) \<and>
     (\<forall>off\<in>snd ` set (mq_ready q). off < mq_next_offset q \<and>
        (\<forall>e. dict_get (mq_entries q) off = Some e \<longrightarrow> qe_token e = None))"

lemma distinct_snd_insort: "distinct (map snd (insort (x :: real \<times> nat) xs)) \<longleftrightarrow> snd x \<notin> snd ` set xs \<and> distinct (map snd xs)"
proof -
  have "mset (map snd (insort x xs)) = mset (map snd (x # xs))" by simp
  then show ?thesis using mset_eq_imp_distinct_iff[of "map snd (insort x xs)" "map snd (x # xs)"] by simp
qed

lemma exclusive_push:
  assumes "exclusive q" and "off < mq_next_offset q'" and "mq_ready q' = heappush (t, off) (mq_ready q)"
    and "mq_next_offset q \<le> mq_next_offset q'" and "off \<notin> snd ` set (mq_ready q)" and "mq_entries q' = dict_set off e (mq_entries q)"
    and "qe_token e = None"
  shows "exclusive q'"
  using assms by (fastforce simp: exclusive_def distinct_snd_insort set_insort_key dict_simps)

lemma not_ready_when_leased:
  "exclusive q \<Longrightarrow> dict_get (mq_entries q) off = Some e \<Longrightarrow> qe_token e \<noteq> None \<Longrightarrow> off \<notin> snd ` set (mq_ready q)"
  by (auto simp: exclusive_def)

lemma exclusive_put: "queue_inv q \<Longrightarrow> exclusive q \<Longrightarrow> exclusive (snd (q_put q t wall mon))"
  by (rule exclusive_push[of q "mq_next_offset q"]) (auto simp: q_put_def Let_def exclusive_def)

lemma exclusive_pop: "exclusive q \<Longrightarrow> exclusive (q\<lparr>mq_entries := dict_pop off (mq_entries q)\<rparr>)"
  by (auto simp: exclusive_def dict_simps)

lemma exclusive_nack:
  assumes "queue_inv q" and "exclusive q"
  shows "exclusive (q_nack q off token requeue now)"
proof (cases "held_entry q off token")
  case (Some e)
  note e = held_entryD[OF Some]
  define av where "av = (if qe_available_at e < now then now else qe_available_at e)"
  have "exclusive (q\<lparr>mq_entries := dict_set off ((unlease e)\<lparr>qe_available_at := av\<rparr>) (mq_entries q), mq_ready := heappush (av, off) (mq_ready q)\<rparr>)"
    by (rule exclusive_push[OF assms(2), of off _ av])
      (use queue_invD[OF assms(1), of off e] not_ready_when_leased[OF assms(2), of off e] e in \<open>auto simp: entry_ok_def unlease_def\<close>)
  then show ?thesis using Some exclusive_pop[OF assms(2)] by (simp add: q_nack_def av_def Let_def)
qed (use assms in \<open>simp add: q_nack_def\<close>)

lemma exclusive_release:
  assumes "queue_inv q" and "exclusive q" and "distinct (map fst oes)" and "\<forall>(off, e)\<in>set oes. dict_get (mq_entries q) off = Some e"
  shows "exclusive (foldl (release_one now) q oes)"
  using assms
proof (induction oes arbitrary: q)
  case (Cons oe oes)
  obtain off e where oe: "oe = (off, e)" by (cases oe)
  have e: "dict_get (mq_entries q) off = Some e" "entry_ok q off e" using Cons.prems queue_invD oe by auto
  have "exclusive (release_one now q oe)"
  proof (cases "lease_expired now e")
    case True
    have "exclusive (q\<lparr>mq_entries := dict_set off (unlease e) (mq_entries q), mq_ready := heappush (qe_available_at e, off) (mq_ready q)\<rparr>)"
      by (rule exclusive_push[OF Cons.prems(2), of off _ "qe_available_at e"])
        (use e True not_ready_when_leased[OF Cons.prems(2) e(1)] in \<open>auto simp: entry_ok_def unlease_def lease_expired_def\<close>)
    then show ?thesis using True by (simp add: release_one_def oe)
  qed (use Cons.prems in \<open>simp add: release_one_def oe\<close>)
  moreover have "queue_inv (release_one now q oe)"
    using release_expired_fold[of q "[oe]" now] Cons.prems e oe by simp
  moreover have "\<forall>(off', e')\<in>set oes. dict_get (mq_entries (release_one now q oe)) off' = Some e'"
    using Cons.prems oe by (force simp: release_one_def dict_simps)
  ultimately show ?case using Cons.IH Cons.prems(3) by simp
qed simp

lemma exclusive_release_expired: "queue_inv q \<Longrightarrow> exclusive q \<Longrightarrow> exclusive (release_expired q now)"
  unfolding release_expired_def by (rule exclusive_release) (auto simp: queue_inv_def)

lemma lease_loop_exclusive:
  assumes "exclusive (with_state q ready es seq)" and "lease_loop now delta n ready es seq = (ls, ready', es', seq')"
  shows "exclusive (with_state q ready' es' seq') \<and> distinct (map lt_offset ls) \<and> lt_offset ` set ls \<subseteq> snd ` set ready"
  using assms
proof (induction now delta n ready es seq arbitrary: ls ready' es' seq' rule: lease_loop.induct)
  case (2 now delta n t off ready es seq)
  have ex: "exclusive (with_state q ready es seq)" and off: "off \<notin> snd ` set ready"
    using 2(4) by (auto simp: exclusive_def)
  show ?case
  proof (cases "n = 0 \<or> t > now")
    case True
    then show ?thesis using 2(4,5) by auto
  next
    case go: False
    show ?thesis
    proof (cases "dict_get es off")
      case None
      then show ?thesis using 2(1)[OF go None ex] 2(5) go by auto
    next
      case (Some e)
      show ?thesis
      proof (cases "qe_acked e")
        case True
        then show ?thesis using 2(2)[OF go Some True ex] 2(5) go Some by auto
      next
        case False
        let ?es = "dict_set off (take_lease (lease_token (seq + 1)) (now + delta) e) es"
        have ex': "exclusive (with_state q ready ?es (seq + 1))" using ex off by (auto simp: exclusive_def dict_simps)
        obtain ls1 where ls1: "lease_loop now delta (n - 1) ready ?es (seq + 1) = (ls1, ready', es', seq')"
          and ls: "ls = \<lparr>lt_offset = off, lt_task = qe_task e, lt_deadline = now + delta, lt_token = lease_token (seq + 1)\<rparr> # ls1"
          using 2(5) go Some False by (auto simp: Let_def split: prod.splits)
        from 2(3)[OF go Some False refl ex' ls1] show ?thesis using off ls by auto
      qed
    qed
  qed
qed auto

lemma exclusive_lease:
  assumes "queue_inv q" and "exclusive q" and "q_lease q n ms now = (ls, q')"
  shows "exclusive q'" "distinct (map lt_offset ls)"
    "l \<in> set ls \<Longrightarrow> \<exists>e. dict_get (mq_entries q) (lt_offset l) = Some e \<and> (qe_token e = None \<or> qe_lease_deadline e \<le> now)"
proof -
  let ?q = "release_expired q now"
  have ex: "exclusive (with_state ?q (mq_ready ?q) (mq_entries ?q) (mq_lease_seq ?q))"
    using exclusive_release_expired[OF assms(1,2)] by simp
  have all: "exclusive q' \<and> distinct (map lt_offset ls) \<and> lt_offset ` set ls \<subseteq> snd ` set (mq_ready ?q)"
  proof (cases "0 < n")
    case True
    then obtain ready es seq where "lease_loop now (real_of_int (max ms 0) / 1000) (nat n) (mq_ready ?q) (mq_entries ?q) (mq_lease_seq ?q)
        = (ls, ready, es, seq)" "q' = with_state ?q ready es seq" using q_lease_unfold[OF assms(3)] by blast
    then show ?thesis using lease_loop_exclusive[OF ex] by simp
  qed (use assms in \<open>auto simp: q_lease_def\<close>)
  then show "exclusive q'" "distinct (map lt_offset ls)" by auto
  assume l: "l \<in> set ls"
  then obtain tok where "q_view q' (lt_offset l) = Some (lt_task l, Some tok)" using q_lease_tasks(2)[OF assms(1,3)] by blast
  then obtain e where e: "dict_get (mq_entries q) (lt_offset l) = Some e"
    using q_lease_tasks(1)[OF assms(1,3), of "lt_offset l"]
    by (cases "dict_get (mq_entries q) (lt_offset l)") (auto simp: q_view_def)
  have "lt_offset l \<in> snd ` set (mq_ready ?q)" using all l by auto
  then have "qe_token (if lease_expired now e then unlease e else e) = None"
    using ex e release_expired_spec(5)[OF assms(1), of now "lt_offset l"] by (auto simp: exclusive_def)
  then show "\<exists>e. dict_get (mq_entries q) (lt_offset l) = Some e \<and> (qe_token e = None \<or> qe_lease_deadline e \<le> now)"
    using e by (auto simp: lease_expired_def split: if_splits)
qed

definition no_reschedule :: "queue_call \<Rightarrow> bool" where
  "no_reschedule c = (case c of Reschedule _ _ \<Rightarrow> False | _ \<Rightarrow> True)"

lemma exclusive_run:
  "queue_inv q \<Longrightarrow> exclusive q \<Longrightarrow> \<forall>c\<in>set cs. no_reschedule c \<Longrightarrow> exclusive (snd (q_run q cs))"
proof (induction cs arbitrary: q)
  case (Cons c cs)
  have "exclusive (snd (q_exec q c))"
    using Cons.prems exclusive_put exclusive_pop exclusive_nack exclusive_lease(1)
    by (cases c) (auto simp: q_exec_def no_reschedule_def q_ack_def prod_eq_iff split: option.splits)
  then show ?case using Cons inv_exec[of q c] by (simp add: Let_def case_prod_unfold)
qed simp

lemma exclusive_empty: "exclusive empty_queue"
  by (simp add: exclusive_def empty_queue_def)

section \<open>Properties\<close>

text \<open>
  C24. The queue loses nothing it still has to deliver: after any sequence of calls, every entry
  that is not acknowledged is under a lease token that was handed out, or it waits in the heap
  under its availability time; and if it is not leased, or its lease has run out, and its time has
  come, a lease call that asks for enough tasks returns it.
\<close>

theorem waiting_tasks_delivered:
  assumes "q = snd (q_run empty_queue cs)" and "dict_get (mq_entries q) off = Some e"
    and "qe_token e = None \<or> qe_lease_deadline e \<le> now" and "qe_available_at e \<le> now"
    and "int (length (mq_ready q) + length (mq_entries q)) \<le> n"
  shows "entry_ok q off e \<and> off \<in> lt_offset ` set (fst (q_lease q n ms now))"
proof -
  have q: "queue_inv q" using inv_run[OF inv_empty] assms(1) by simp
  let ?q = "release_expired q now"
  have qi: "queue_inv ?q" by (rule release_expired_spec(1)[OF q])
  obtain e' where e': "dict_get (mq_entries ?q) off = Some e'" "qe_token e' = None" "qe_available_at e' = qe_available_at e"
    using released_waiting[OF q assms(2,3)] by blast
  have ready: "(qe_available_at e, off) \<in> set (mq_ready ?q)"
    using queue_invD[OF qi e'(1)] e'(2,3) by (simp add: entry_ok_def)
  have len: "length (mq_ready ?q) \<le> nat n" using length_release_expired[of now q "mq_entries q"] assms(5) by (simp add: release_expired_def)
  have na: "\<not> qe_acked x" if "dict_get (mq_entries ?q) o' = Some x" for o' x using queue_invD[OF qi that] by (simp add: entry_ok_def)
  have "off \<in> lt_offset ` set (fst (lease_loop now delta (nat n) (mq_ready ?q) (mq_entries ?q) (mq_lease_seq ?q)))" for delta
    by (rule lease_loop_delivers[OF _ len ready assms(4) na e'(1)]) (use qi in \<open>simp add: queue_inv_def\<close>)
  moreover have "0 < n" using len ready by (cases "mq_ready ?q") auto
  ultimately show ?thesis using queue_invD[OF q assms(2)] by (simp add: q_lease_def Let_def case_prod_unfold)
qed

theorem waiting_tasks_delivered_witness:
  "0 \<in> lt_offset ` set (fst (q_lease (snd (q_run empty_queue [Put [] 0 1])) 2 1000 5))"
  by (rule waiting_tasks_delivered[of _ "[Put [] 0 1]" 0
        "\<lparr>qe_task = [], qe_available_at = 1, qe_lease_deadline = 0, qe_token = None, qe_acked = False\<rparr>" 5 2 1000, THEN conjunct2])
    (simp_all add: q_exec_def q_put_def empty_queue_def extract_available_at_def to_float_def dict_get_or_def)

text \<open>
  C25. Leases are exclusive as long as nothing is rescheduled: after any sequence of put, lease,
  acknowledge and reject calls, a lease call hands out each offset at most once, and only offsets
  that are not leased or whose lease has run out.
\<close>

theorem leases_exclusive:
  assumes "\<forall>c\<in>set cs. no_reschedule c" and "q = snd (q_run empty_queue cs)"
  shows "distinct (map lt_offset (fst (q_lease q n ms now))) \<and>
    (\<forall>l\<in>set (fst (q_lease q n ms now)). \<exists>e. dict_get (mq_entries q) (lt_offset l) = Some e \<and>
       (qe_token e = None \<or> qe_lease_deadline e \<le> now))"
proof -
  have "queue_inv q" "exclusive q"
    using inv_run[OF inv_empty] exclusive_run[OF inv_empty exclusive_empty assms(1)] assms(2) by simp_all
  from exclusive_lease[OF this prod.collapse[symmetric]] show ?thesis by blast
qed

theorem leases_exclusive_witness:
  "distinct (map lt_offset (fst (q_lease (snd (q_run empty_queue [Put [] 0 1, Put [] 0 2, Lease 1 1000 3])) 5 1000 3)))"
  using leases_exclusive[of "[Put [] 0 1, Put [] 0 2, Lease 1 1000 3]"] by (simp add: no_reschedule_def)

text \<open>
  Rescheduling breaks exclusive leases: a task that is put, rescheduled and then leased is
  handed out twice by one lease call, under two tokens.
\<close>

theorem reschedule_leases_twice:
  "map (\<lambda>l. (lt_offset l, lt_token l)) (fst (q_lease (snd (q_run empty_queue [Put [] 0 1, Reschedule 0 2])) 5 1000 3)) =
     [(0, ''lease-1''), (0, ''lease-2'')]"
  by code_simp

lemma gone_exec:
  assumes "queue_inv q" and "dict_get (mq_entries q) off = None" and "off < mq_next_offset q"
  shows "dict_get (mq_entries (snd (q_exec q c))) off = None \<and> off < mq_next_offset (snd (q_exec q c)) \<and>
    off \<notin> lt_offset ` set (fst (q_exec q c))"
proof (cases c)
  case (Lease n ms now)
  have "map_option fst (q_view (snd (q_lease q n ms now)) off) = None"
    using q_lease_tasks(1)[OF assms(1) prod.collapse[symmetric]] assms(2) by (simp add: q_view_def)
  then have g: "dict_get (mq_entries (snd (q_lease q n ms now))) off = None" by (simp add: q_view_def)
  moreover have "mq_next_offset (snd (q_lease q n ms now)) = mq_next_offset q"
    using release_expired_spec(2)[OF assms(1)] by (simp add: q_lease_def Let_def case_prod_unfold)
  moreover have "off \<notin> lt_offset ` set (fst (q_lease q n ms now))"
    using q_lease_tasks(2)[OF assms(1) prod.collapse[symmetric]] g by (force simp: q_view_def)
  ultimately show ?thesis using Lease assms(3) by (simp add: q_exec_def)
qed (use assms in \<open>auto simp: q_exec_def q_put_def q_ack_def q_nack_def q_reschedule_def held_entry_def Let_def dict_simps split: option.splits\<close>)

lemma gone_run:
  "queue_inv q \<Longrightarrow> dict_get (mq_entries q) off = None \<Longrightarrow> off < mq_next_offset q \<Longrightarrow> off \<notin> lt_offset ` set (fst (q_run q cs))"
proof (induction cs arbitrary: q)
  case (Cons c cs)
  then show ?case using gone_exec[of q off c] inv_exec[of q c] by (auto simp: Let_def case_prod_unfold)
qed simp

text \<open>
  An acknowledgement is final: once the current lease of a task is acknowledged, no later
  sequence of calls, whatever it puts, rejects or reschedules, leases that offset again.
\<close>

theorem acked_never_leased_again:
  assumes "q = snd (q_run empty_queue cs)" and "q_view q off = Some (t, Some token)"
  shows "off \<notin> lt_offset ` set (fst (q_run (q_ack q off token) cs'))"
proof (rule gone_run)
  have q: "queue_inv q" using inv_run[OF inv_empty] assms(1) by simp
  then show "queue_inv (q_ack q off token)" by (rule inv_ack)
  have "q_view (q_ack q off token) off = None" using mem.ack_view[OF q, of off token] assms(2) by simp
  then show "dict_get (mq_entries (q_ack q off token)) off = None" by (simp add: q_view_def)
  obtain e where "dict_get (mq_entries q) off = Some e" using assms(2) by (auto simp: q_view_def)
  then show "off < mq_next_offset (q_ack q off token)"
    using queue_invD[OF q] by (auto simp: entry_ok_def q_ack_def split: option.splits)
qed

theorem acked_never_leased_again_witness:
  "0 \<notin> lt_offset ` set (fst (q_run (q_ack (snd (q_run empty_queue [Put [] 0 1, Lease 1 1000 2])) 0 ''lease-1'') [Put [] 0 3, Lease 9 1000 99]))"
proof (rule acked_never_leased_again[OF refl])
  show "q_view (snd (q_run empty_queue [Put [] 0 1, Lease 1 1000 2])) 0 = Some ([], Some ''lease-1'')" by code_simp
qed

end
