(* ===== verification/Idempotency.thy ===== *)
theory Idempotency
  imports Py_Values
begin

text \<open>
  The cache of task results (\<^verbatim>\<open>tm/runtime/idempotency.py\<close>): an ordered dictionary bounded in size, with
  least recently used entries evicted first, a time to live per entry and a snapshot file.  Clock
  readings are arguments, one per reading in the code.  The snapshot file is the document in it
  (\<open>None\<close> when there is none or it cannot be read); file locking is left out.
\<close>

section \<open>Results\<close>

record idem_result =
  ir_status :: string
  ir_output :: "(string, val) dict"
  ir_error :: "(string, val) dict option"

definition result_to_payload :: "idem_result \<Rightarrow> (string, val) dict" where
  "result_to_payload r =
     [(''status'', VStr (ir_status r)), (''output'', VDict (ir_output r)),
      (''error'', case ir_error r of Some d \<Rightarrow> VDict d | None \<Rightarrow> VNone)]"

definition result_from_payload :: "(val \<Rightarrow> string) \<Rightarrow> (string, val) dict \<Rightarrow> idem_result result" where
  "result_from_payload rep payload =
     (let status = py_str rep (get_or payload ''status'' (VStr [])) in
      if status = [] then Inl (ValueError ''idempotency payload missing status'')
      else case get_or payload ''output'' (VDict []) of
        VDict output \<Rightarrow>
          (case get_val payload ''error'' of
             VNone \<Rightarrow> Inr \<lparr>ir_status = status, ir_output = output, ir_error = None\<rparr>
           | VDict d \<Rightarrow> Inr \<lparr>ir_status = status, ir_output = output, ir_error = Some d\<rparr>
           | _ \<Rightarrow> Inl (TypeError ''idempotency error must be mapping''))
      | _ \<Rightarrow> Inl (TypeError ''idempotency output must be mapping''))"

section \<open>The store\<close>

record idem_entry =
  ie_result :: idem_result
  ie_expires_at :: real
  ie_created_at :: real

record idem_store =
  is_capacity :: int
  is_snapshot_interval :: real
  is_last_snapshot :: real
  is_entries :: "(string, idem_entry) dict"
  is_file :: "val option"

fun enforce_capacity :: "int \<Rightarrow> ('k, 'v) dict \<Rightarrow> ('k, 'v) dict" where
  "enforce_capacity cap [] = []"
| "enforce_capacity cap (kv # es) = (if int (length (kv # es)) > cap then enforce_capacity cap es else kv # es)"

definition move_to_end :: "'k \<Rightarrow> 'v \<Rightarrow> ('k, 'v) dict \<Rightarrow> ('k, 'v) dict" where
  "move_to_end k v es = dict_pop k es @ [(k, v)]"

definition number_of :: "val \<Rightarrow> real option" where
  "number_of v = (case v of
       VBool b \<Rightarrow> Some (if b then 1 else 0) | VInt i \<Rightarrow> Some (real_of_int i) | VFloat r \<Rightarrow> Some r | _ \<Rightarrow> None)"

text \<open>One round of the loop of \<^verbatim>\<open>_load\<close>; an item that is not of the expected form is skipped.\<close>

definition load_item :: "(val \<Rightarrow> string) \<Rightarrow> real \<Rightarrow> (string, idem_entry) dict \<Rightarrow> val \<Rightarrow> (string, idem_entry) dict" where
  "load_item rep now es item = (case item of
       VDict d \<Rightarrow>
         (case (get_val d ''key'', number_of (get_val d ''expires_at''), get_val d ''result'') of
            (VStr key, Some expires_at, VDict payload) \<Rightarrow>
              if expires_at \<le> now then es
              else (case result_from_payload rep payload of
                 Inl _ \<Rightarrow> es
               | Inr r \<Rightarrow> dict_set key \<lparr>ie_result = r, ie_expires_at = expires_at, ie_created_at = now\<rparr> es)
          | _ \<Rightarrow> es)
     | _ \<Rightarrow> es)"

definition load_entries :: "(val \<Rightarrow> string) \<Rightarrow> int \<Rightarrow> real \<Rightarrow> val option \<Rightarrow> (string, idem_entry) dict" where
  "load_entries rep cap now doc = (case doc of
       Some (VDict d) \<Rightarrow>
         (case get_val d ''entries'' of
            VList items \<Rightarrow> enforce_capacity cap (foldl (load_item rep now) [] items)
          | _ \<Rightarrow> [])
     | _ \<Rightarrow> [])"

definition mk_idem_store :: "(val \<Rightarrow> string) \<Rightarrow> int \<Rightarrow> real \<Rightarrow> real \<Rightarrow> val option \<Rightarrow> idem_store result" where
  "mk_idem_store rep cap snapshot_interval now doc =
     (if cap \<le> 0 then Inl (ValueError ''capacity must be positive'')
      else Inr \<lparr>is_capacity = cap, is_snapshot_interval = max snapshot_interval 1, is_last_snapshot = 0,
                is_entries = load_entries rep cap now doc, is_file = doc\<rparr>)"

definition snapshot_item :: "string \<times> idem_entry \<Rightarrow> val" where
  "snapshot_item ke = (case ke of (key, e) \<Rightarrow>
     VDict [(''key'', VStr key), (''expires_at'', VFloat (ie_expires_at e)), (''result'', VDict (result_to_payload (ie_result e)))])"

definition maybe_snapshot :: "bool \<Rightarrow> real \<Rightarrow> idem_store \<Rightarrow> idem_store" where
  "maybe_snapshot force now st =
     (if \<not> force \<and> now - is_last_snapshot st < is_snapshot_interval st then st
      else st\<lparr>is_file := Some (VDict [(''entries'',
                  VList (map snapshot_item (filter (\<lambda>(_, e). ie_expires_at e > now) (is_entries st))))]),
              is_last_snapshot := now\<rparr>)"

definition idem_get :: "idem_store \<Rightarrow> string \<Rightarrow> real \<Rightarrow> idem_result option \<times> idem_store" where
  "idem_get st key now = (case dict_get (is_entries st) key of
       None \<Rightarrow> (None, st)
     | Some e \<Rightarrow>
         if ie_expires_at e \<le> now then (None, st\<lparr>is_entries := dict_pop key (is_entries st)\<rparr>)
         else (Some (ie_result e), st\<lparr>is_entries := move_to_end key e (is_entries st)\<rparr>))"

definition idem_remember :: "idem_store \<Rightarrow> string \<Rightarrow> idem_result \<Rightarrow> real \<Rightarrow> real \<Rightarrow> real \<Rightarrow> real \<Rightarrow> idem_store" where
  "idem_remember st key r ttl t1 t2 t3 =
     (if ttl \<le> 0 then st
      else
        let e = \<lparr>ie_result = r, ie_expires_at = t1 + ttl, ie_created_at = t2\<rparr> in
        maybe_snapshot False t3
          (st\<lparr>is_entries := enforce_capacity (is_capacity st) (move_to_end key e (dict_set key e (is_entries st)))\<rparr>))"

definition idem_prune :: "idem_store \<Rightarrow> real \<Rightarrow> real \<Rightarrow> idem_store" where
  "idem_prune st now t2 =
     (let expired = map fst (filter (\<lambda>(_, e). ie_expires_at e \<le> now) (is_entries st)) in
      maybe_snapshot True t2 (st\<lparr>is_entries := foldl (\<lambda>es k. dict_pop k es) (is_entries st) expired\<rparr>))"

section \<open>The execution guard\<close>

text \<open>The history maps a key to its result and the time it runs out.\<close>

record exec_guard =
  eg_ttl_seconds :: real
  eg_history :: "(string, (string, val) dict \<times> real) dict"

definition guard_lookup :: "exec_guard \<Rightarrow> string \<Rightarrow> real \<Rightarrow> (string, val) dict option \<times> exec_guard" where
  "guard_lookup g key now = (case dict_get (eg_history g) key of
       None \<Rightarrow> (None, g)
     | Some (r, expires_at) \<Rightarrow>
         if expires_at \<le> now then (None, g\<lparr>eg_history := dict_pop key (eg_history g)\<rparr>) else (Some r, g))"

definition guard_record :: "exec_guard \<Rightarrow> string \<Rightarrow> (string, val) dict \<Rightarrow> real \<Rightarrow> exec_guard" where
  "guard_record g key r now = g\<lparr>eg_history := dict_set key (r, now + eg_ttl_seconds g) (eg_history g)\<rparr>"

section \<open>Calls\<close>

datatype idem_call =
    Get string real
  | Remember string idem_result real real real real
  | Prune real real

definition idem_exec :: "idem_store \<Rightarrow> idem_call \<Rightarrow> idem_store" where
  "idem_exec st c = (case c of
       Get k now \<Rightarrow> snd (idem_get st k now)
     | Remember k r ttl t1 t2 t3 \<Rightarrow> idem_remember st k r ttl t1 t2 t3
     | Prune now t2 \<Rightarrow> idem_prune st now t2)"

definition idem_run :: "idem_store \<Rightarrow> idem_call list \<Rightarrow> idem_store" where
  "idem_run st cs = foldl idem_exec st cs"

text \<open>The keys a call may move to the end of the order.\<close>

definition touched :: "idem_call \<Rightarrow> string set" where
  "touched c = (case c of Get k _ \<Rightarrow> {k} | Remember k _ _ _ _ _ \<Rightarrow> {k} | Prune _ _ \<Rightarrow> {})"

text \<open>The result last remembered under a key, with the time it runs out.\<close>

definition note_call :: "string \<Rightarrow> (idem_result \<times> real) option \<Rightarrow> idem_call \<Rightarrow> (idem_result \<times> real) option" where
  "note_call k acc c = (case c of Remember k' r ttl t1 _ _ \<Rightarrow> if k' = k \<and> 0 < ttl then Some (r, t1 + ttl) else acc | _ \<Rightarrow> acc)"

definition last_remembered :: "string \<Rightarrow> idem_call list \<Rightarrow> (idem_result \<times> real) option" where
  "last_remembered k cs = foldl (note_call k) None cs"

section \<open>Order and eviction\<close>

lemma enforce_capacity_drop: "0 \<le> cap \<Longrightarrow> enforce_capacity cap es = drop (length es - nat cap) es"
proof (induction es)
  case (Cons kv es)
  then show ?case by (auto simp: Suc_diff_le nat_less_iff)
qed simp

lemma length_enforce: "0 \<le> cap \<Longrightarrow> int (length (enforce_capacity cap es)) \<le> cap"
  by (simp add: enforce_capacity_drop)

lemma dict_wf_enforce: "0 \<le> cap \<Longrightarrow> dict_wf es \<Longrightarrow> dict_wf (enforce_capacity cap es)"
  by (simp add: enforce_capacity_drop drop_map[symmetric])

lemma dict_get_enforce:
  assumes "0 \<le> cap" and "dict_wf es" and "dict_get (enforce_capacity cap es) k = Some e"
  shows "dict_get es k = Some e"
  using assms by (metis dict_wf_enforce enforce_capacity_drop in_set_dropD map_of_SomeD map_of_is_SomeI)

lemma dict_pop_set [simp]: "dict_pop k (dict_set k v es) = dict_pop k es"
  by (induction es) auto

lemma move_to_end_set [simp]: "move_to_end k v (dict_set k w es) = move_to_end k v es"
  by (simp add: move_to_end_def)

lemma dict_wf_move_to_end [simp]: "dict_wf es \<Longrightarrow> dict_wf (move_to_end k v es)"
  using dict_keys_pop[of k es] dict_wf_pop[of es k] by (simp add: move_to_end_def)

lemma dict_get_move_to_end [dict_simps]:
  "dict_get (move_to_end k v es) k' = (if k' = k then Some v else dict_get es k')"
  by (auto simp: move_to_end_def map_add_def dict_simps split: option.splits)

lemma length_move_to_end: "dict_get es k = Some e \<Longrightarrow> length (move_to_end k v es) \<le> length es"
proof -
  assume "dict_get es k = Some e"
  then have "(k, e) \<in> set es" by (rule map_of_SomeD)
  then have "length (dict_pop k es) < length es"
    by (auto simp: AList.delete_eq intro!: length_filter_less)
  then show ?thesis by (simp add: move_to_end_def)
qed

text \<open>
  \<open>kept k e S es\<close>: the entry of \<open>k\<close> is \<open>e\<close>, and only keys of \<open>S\<close> come after it in the order of eviction.
\<close>

definition kept :: "'k \<Rightarrow> 'v \<Rightarrow> 'k set \<Rightarrow> ('k, 'v) dict \<Rightarrow> bool" where
  "kept k e S es \<longleftrightarrow> dict_wf es \<and> (\<exists>xs ys. es = xs @ (k, e) # ys \<and> fst ` set ys \<subseteq> S)"

lemma kept_wf: "kept k e S es \<Longrightarrow> dict_wf es"
  by (simp add: kept_def)

lemma keptI: "dict_wf es \<Longrightarrow> es = xs @ (k, e) # ys \<Longrightarrow> fst ` set ys \<subseteq> S \<Longrightarrow> kept k e S es"
  unfolding kept_def by blast

lemma kept_mono:
  assumes "kept k e S es" and "S \<subseteq> T"
  shows "kept k e T es"
proof -
  obtain xs ys where "es = xs @ (k, e) # ys" "fst ` set ys \<subseteq> S" "dict_wf es" using assms(1) by (auto simp: kept_def)
  then show ?thesis using assms(2) by (intro keptI) auto
qed

lemma kept_get: "kept k e S es \<Longrightarrow> dict_get es k = Some e"
  by (auto simp: kept_def intro!: map_of_is_SomeI)

lemma kept_last: "dict_wf es \<Longrightarrow> kept k e S (move_to_end k e es)"
  by (rule keptI[OF dict_wf_move_to_end, where ys = "[]"]) (simp_all add: move_to_end_def)

lemma kept_pop:
  assumes "kept k e S es" and "k' \<noteq> k"
  shows "kept k e S (dict_pop k' es)"
proof -
  obtain xs ys where es: "es = xs @ (k, e) # ys" "fst ` set ys \<subseteq> S" using assms(1) by (auto simp: kept_def)
  have "dict_pop k' es = dict_pop k' xs @ (k, e) # dict_pop k' ys" using es assms(2) by (simp add: AList.delete_eq)
  moreover have "fst ` set (dict_pop k' ys) \<subseteq> S" using es(2) by (auto simp: AList.delete_eq)
  moreover have "dict_wf (dict_pop k' es)" using assms(1) by (simp add: kept_def)
  ultimately show ?thesis unfolding kept_def by blast
qed

lemma kept_move:
  assumes "kept k e S es" and "k' \<noteq> k"
  shows "kept k e (insert k' S) (move_to_end k' e' es)"
proof -
  have "kept k e S (dict_pop k' es)" by (rule kept_pop[OF assms])
  then obtain xs ys where "dict_pop k' es = xs @ (k, e) # ys" "fst ` set ys \<subseteq> S" by (auto simp: kept_def)
  then have "move_to_end k' e' es = xs @ (k, e) # (ys @ [(k', e')])" "fst ` set (ys @ [(k', e')]) \<subseteq> insert k' S"
    by (auto simp: move_to_end_def)
  moreover have "dict_wf (move_to_end k' e' es)" using assms(1) by (simp add: kept_def)
  ultimately show ?thesis unfolding kept_def by blast
qed

lemma kept_enforce:
  assumes "kept k e S es" and "finite S" and "int (card (S - {k})) < cap"
  shows "kept k e S (enforce_capacity cap es)"
proof -
  obtain xs ys where es: "es = xs @ (k, e) # ys" "fst ` set ys \<subseteq> S" "dict_wf es" using assms(1) by (auto simp: kept_def)
  have "fst ` set ys \<subseteq> S - {k}" using es by auto
  moreover have "card (fst ` set ys) = length ys" using es by (simp add: distinct_card flip: set_map)
  ultimately have "length ys \<le> card (S - {k})" using assms(2) by (metis card_mono finite_Diff)
  then have "length es - nat cap \<le> length xs" using es(1) assms(3) by simp
  then have "enforce_capacity cap es = drop (length es - nat cap) xs @ (k, e) # ys"
    using es(1) assms(3) by (simp add: enforce_capacity_drop)
  then show ?thesis by (intro keptI[OF dict_wf_enforce[OF _ es(3)] _ es(2)]) (use assms(3) in simp_all)
qed

lemma maybe_snapshot_simps [simp]:
  "is_entries (maybe_snapshot force now st) = is_entries st" "is_capacity (maybe_snapshot force now st) = is_capacity st"
  by (simp_all add: maybe_snapshot_def)

lemma idem_exec_capacity [simp]: "is_capacity (idem_exec st c) = is_capacity st"
  by (cases c) (simp_all add: idem_exec_def idem_get_def idem_remember_def idem_prune_def Let_def split: option.split)

lemma idem_run_capacity [simp]: "is_capacity (idem_run st cs) = is_capacity st"
  unfolding idem_run_def by (induction cs arbitrary: st) simp_all

section \<open>Runs\<close>

lemma idem_prune_entries:
  "is_entries (idem_prune st now t2) = filter (\<lambda>(k, _). k \<notin> fst ` {(k, e) \<in> set (is_entries st). ie_expires_at e \<le> now}) (is_entries st)"
proof -
  have "foldl (\<lambda>es k. dict_pop k es) es ks = filter (\<lambda>(k, _). k \<notin> set ks) es" for ks and es :: "(string, idem_entry) dict"
    by (induction ks arbitrary: es) (auto simp: AList.delete_eq intro!: filter_cong)
  then show ?thesis by (auto simp: idem_prune_def Let_def intro!: filter_cong)
qed

text \<open>Distinct keys, and never more entries than the capacity allows.\<close>

definition idem_inv :: "idem_store \<Rightarrow> bool" where
  "idem_inv st \<longleftrightarrow> 0 < is_capacity st \<and> dict_wf (is_entries st) \<and> int (length (is_entries st)) \<le> is_capacity st"

lemma dict_wf_filter: "dict_wf es \<Longrightarrow> dict_wf (filter P es)"
  by (rule distinct_map_filter)

lemma idem_inv_exec: "idem_inv st \<Longrightarrow> idem_inv (idem_exec st c)"
proof (cases c)
  case (Get k now)
  assume st: "idem_inv st"
  show ?thesis
  proof (cases "dict_get (is_entries st) k")
    case (Some e)
    have "length (dict_pop k (is_entries st)) \<le> length (is_entries st)" by (rule length_delete_le)
    then show ?thesis using Get Some st length_move_to_end[OF Some, of e]
      by (auto simp: idem_exec_def idem_get_def idem_inv_def)
  qed (use Get st in \<open>simp add: idem_exec_def idem_get_def\<close>)
next
  case (Remember k r ttl t1 t2 t3)
  assume "idem_inv st"
  then show ?thesis using Remember by (auto simp: idem_exec_def idem_remember_def idem_inv_def Let_def length_enforce dict_wf_enforce)
next
  case (Prune now t2)
  assume st: "idem_inv st"
  obtain P where "is_entries (idem_exec st c) = filter P (is_entries st)" using Prune by (simp add: idem_exec_def idem_prune_entries)
  moreover have "int (length (filter P (is_entries st))) \<le> is_capacity st"
    by (rule order_trans[of _ "int (length (is_entries st))"]) (use st in \<open>simp_all add: idem_inv_def\<close>)
  ultimately show ?thesis using st dict_wf_filter[of "is_entries st" P] by (simp add: idem_inv_def)
qed

lemma idem_inv_run: "idem_inv st \<Longrightarrow> idem_inv (idem_run st cs)"
  unfolding idem_run_def by (induction cs arbitrary: st) (simp_all add: idem_inv_exec)

lemma dict_wf_load_item: "dict_wf es \<Longrightarrow> dict_wf (load_item rep now es item)"
  by (auto simp: load_item_def split: val.split option.split sum.split prod.split)

lemma idem_inv_mk: "mk_idem_store rep cap iv now doc = Inr st \<Longrightarrow> idem_inv st \<and> is_capacity st = cap"
proof -
  have "dict_wf (foldl (load_item rep now) es items)" if "dict_wf es" for es items
    using that by (induction items arbitrary: es) (simp_all add: dict_wf_load_item)
  then have "dict_wf (load_entries rep cap now doc) \<and> int (length (load_entries rep cap now doc)) \<le> cap" if "0 < cap"
    using that by (auto simp: load_entries_def length_enforce dict_wf_enforce split: option.split val.split)
  then show "mk_idem_store rep cap iv now doc = Inr st \<Longrightarrow> idem_inv st \<and> is_capacity st = cap"
    by (auto simp: mk_idem_store_def idem_inv_def split: if_splits)
qed

text \<open>Entries hold the results last remembered under their keys.\<close>

definition idem_faithful :: "idem_store \<Rightarrow> (string \<Rightarrow> (idem_result \<times> real) option) \<Rightarrow> bool" where
  "idem_faithful st h \<longleftrightarrow> (\<forall>k e. dict_get (is_entries st) k = Some e \<longrightarrow> h k = Some (ie_result e, ie_expires_at e))"

lemma dict_get_filter_keys: "dict_wf es \<Longrightarrow> dict_get (filter P es) k = Some e \<Longrightarrow> dict_get es k = Some e"
  using dict_wf_filter[of es P] by (auto simp: map_of_eq_Some_iff)

lemma idem_faithful_exec:
  assumes "idem_inv st" and "idem_faithful st h"
  shows "idem_faithful (idem_exec st c) (\<lambda>k. note_call k (h k) c)"
proof (cases c)
  case (Get k now)
  then show ?thesis using assms(2)
    by (auto simp: idem_exec_def idem_get_def idem_faithful_def note_call_def dict_simps split: option.splits if_splits)
next
  case (Remember k r ttl t1 t2 t3)
  show ?thesis
  proof (cases "0 < ttl")
    case True
    let ?e = "\<lparr>ie_result = r, ie_expires_at = t1 + ttl, ie_created_at = t2\<rparr>"
    have "is_entries (idem_exec st c) = enforce_capacity (is_capacity st) (move_to_end k ?e (is_entries st))"
      using Remember True by (simp add: idem_exec_def idem_remember_def Let_def)
    moreover have "dict_get (move_to_end k ?e (is_entries st)) k' = Some e"
      if "dict_get (enforce_capacity (is_capacity st) (move_to_end k ?e (is_entries st))) k' = Some e" for k' e
      by (rule dict_get_enforce[OF _ _ that]) (use assms(1) in \<open>simp_all add: idem_inv_def\<close>)
    ultimately have old: "dict_get (is_entries (idem_exec st c)) k' = Some e \<Longrightarrow>
        (if k' = k then Some ?e else dict_get (is_entries st) k') = Some e" for k' e
      by (simp add: dict_get_move_to_end)
    have "note_call k' (h k') c = Some (ie_result e, ie_expires_at e)" if "dict_get (is_entries (idem_exec st c)) k' = Some e" for k' e
      using old[OF that] assms(2) Remember True by (cases "k' = k") (auto simp: idem_faithful_def note_call_def)
    then show ?thesis by (simp add: idem_faithful_def)
  qed (use Remember assms(2) in \<open>auto simp: idem_exec_def idem_remember_def idem_faithful_def note_call_def\<close>)
next
  case (Prune now t2)
  then show ?thesis using assms dict_get_filter_keys[of "is_entries st"]
    by (auto simp: idem_exec_def idem_prune_entries idem_faithful_def note_call_def idem_inv_def)
qed

lemma idem_faithful_run:
  "idem_inv st \<Longrightarrow> idem_faithful st h \<Longrightarrow> idem_faithful (idem_run st cs) (\<lambda>k. foldl (note_call k) (h k) cs)"
proof (induction cs arbitrary: st h)
  case (Cons c cs)
  show ?case using Cons.IH[OF idem_inv_exec[OF Cons.prems(1)] idem_faithful_exec[OF Cons.prems]] by (simp add: idem_run_def)
qed (simp add: idem_run_def)

text \<open>Calls that leave an entry of \<open>k\<close> that runs out at time \<open>t\<close> alone.\<close>

definition spares :: "string \<Rightarrow> real \<Rightarrow> idem_call \<Rightarrow> bool" where
  "spares k t c = (case c of
       Get k' now \<Rightarrow> k' = k \<longrightarrow> now < t
     | Remember k' _ ttl _ _ _ \<Rightarrow> k' = k \<longrightarrow> ttl \<le> 0
     | Prune now _ \<Rightarrow> now < t)"

lemma kept_filter:
  assumes "kept k e S es" and "P (k, e)"
  shows "kept k e S (filter P es)"
proof -
  obtain xs ys where es: "es = xs @ (k, e) # ys" "fst ` set ys \<subseteq> S" "dict_wf es" using assms(1) by (auto simp: kept_def)
  then have "filter P es = filter P xs @ (k, e) # filter P ys" using assms(2) by simp
  then show ?thesis by (rule keptI[OF dict_wf_filter[OF es(3)]]) (use es(2) in auto)
qed

lemma kept_exec:
  assumes "kept k e S (is_entries st)" and "spares k (ie_expires_at e) c" and "finite S"
    and "int (card (S \<union> touched c - {k})) < is_capacity st"
  shows "kept k e (S \<union> touched c) (is_entries (idem_exec st c))"
proof (cases c)
  case (Get k' now)
  show ?thesis
  proof (cases "k' = k")
    case True
    then show ?thesis using Get assms(1,2) kept_get[OF assms(1)] kept_wf[OF assms(1)]
      by (auto simp: idem_exec_def idem_get_def spares_def intro: kept_last)
  next
    case False
    show ?thesis
      using Get kept_mono[OF assms(1) subset_insertI] kept_mono[OF kept_pop[OF assms(1) False] subset_insertI]
        kept_move[OF assms(1) False]
      by (simp add: idem_exec_def idem_get_def touched_def split: option.split)
  qed
next
  case (Remember k' r ttl t1 t2 t3)
  show ?thesis
  proof (cases "0 < ttl")
    case True
    then have "k' \<noteq> k" using Remember assms(2) by (simp add: spares_def)
    then show ?thesis using Remember True kept_enforce[OF kept_move[OF assms(1)]] assms(3,4)
      by (simp add: idem_exec_def idem_remember_def touched_def Let_def)
  qed (use Remember kept_mono[OF assms(1)] in \<open>auto simp: idem_exec_def idem_remember_def\<close>)
next
  case (Prune now t2)
  have "k \<notin> fst ` {(k, e) \<in> set (is_entries st). ie_expires_at e \<le> now}"
    using Prune assms(2) map_of_is_SomeI[OF kept_wf[OF assms(1)]] kept_get[OF assms(1)] by (fastforce simp: spares_def)
  then show ?thesis using Prune kept_filter[OF assms(1)] by (simp add: idem_exec_def idem_prune_entries touched_def)
qed

lemma kept_run:
  assumes "kept k e S (is_entries st)" and "\<forall>c\<in>set cs. spares k (ie_expires_at e) c" and "finite S"
    and "int (card (S \<union> (\<Union>c\<in>set cs. touched c) - {k})) < is_capacity st"
  shows "kept k e (S \<union> (\<Union>c\<in>set cs. touched c)) (is_entries (idem_run st cs))"
  using assms
proof (induction cs arbitrary: st S)
  case (Cons c cs)
  have fin: "finite (touched c)" for c by (cases c) (simp_all add: touched_def)
  have "card (S \<union> touched c - {k}) \<le> card (S \<union> (\<Union>c\<in>set (c # cs). touched c) - {k})"
    using Cons.prems(3) fin by (intro card_mono) auto
  then have "kept k e (S \<union> touched c) (is_entries (idem_exec st c))"
    using Cons.prems by (intro kept_exec) auto
  from Cons.IH[OF this] Cons.prems(2-4) fin show ?case by (simp add: idem_run_def Un_assoc)
qed (simp add: idem_run_def)

lemma kept_remember:
  assumes "idem_inv st" and "0 < ttl"
  shows "kept k \<lparr>ie_result = r, ie_expires_at = t1 + ttl, ie_created_at = t2\<rparr> {} (is_entries (idem_remember st k r ttl t1 t2 t3))"
  using assms kept_enforce[OF kept_last[of "is_entries st" k _ "{}"], of "is_capacity st"]
  by (simp add: idem_remember_def idem_inv_def Let_def)

lemma idem_get_remember:
  "idem_inv st \<Longrightarrow> 0 < ttl \<Longrightarrow> now < t1 + ttl \<Longrightarrow> fst (idem_get (idem_remember st k r ttl t1 t2 t3) k now) = Some r"
  using kept_get[OF kept_remember[of st ttl k r t1 t2 t3]] by (simp add: idem_get_def)

section \<open>Properties\<close>

text \<open>
  C29. The cache is bounded and never returns a wrong or stale result: a store opened without a
  snapshot holds, after any sequence of calls, at most \<open>cap\<close> entries, and a look-up that finds a result
  finds the one last remembered under that key, before its time to live has run out.
\<close>

theorem idempotency_sound:
  assumes "mk_idem_store rep cap iv now0 None = Inr st0" and "st = idem_run st0 cs"
  shows "int (length (is_entries st)) \<le> cap \<and>
    (\<forall>r. fst (idem_get st k now) = Some r \<longrightarrow> (\<exists>t. last_remembered k cs = Some (r, t) \<and> now < t))"
proof -
  have st0: "idem_inv st0" "is_capacity st0 = cap" using idem_inv_mk[OF assms(1)] by auto
  have "idem_faithful st0 (\<lambda>_. None)" using assms(1) by (auto simp: mk_idem_store_def load_entries_def idem_faithful_def split: if_splits)
  from idem_faithful_run[OF st0(1) this] have "idem_faithful st (\<lambda>k. last_remembered k cs)"
    by (simp add: assms(2) last_remembered_def)
  then show ?thesis using idem_inv_run[OF st0(1), of cs] st0(2) assms(2)
    by (auto simp: idem_inv_def idem_get_def idem_faithful_def split: option.splits if_splits)
qed

definition done_result :: idem_result where
  "done_result = \<lparr>ir_status = ''ok'', ir_output = [(''n'', VInt 7)], ir_error = None\<rparr>"

definition fresh_store :: "int \<Rightarrow> idem_store" where
  "fresh_store cap = \<lparr>is_capacity = cap, is_snapshot_interval = 30, is_last_snapshot = 0, is_entries = [], is_file = None\<rparr>"

lemma mk_fresh_store: "0 < cap \<Longrightarrow> mk_idem_store rep cap 30 now None = Inr (fresh_store cap)"
  by (simp add: mk_idem_store_def load_entries_def fresh_store_def)

theorem idempotency_sound_witness:
  "\<exists>t. last_remembered ''a'' [Remember ''a'' done_result 60 1 1 1] = Some (done_result, t) \<and> 5 < t"
proof -
  have "fst (idem_get (idem_run (fresh_store 2) [Remember ''a'' done_result 60 1 1 1]) ''a'' 5) = Some done_result" by code_simp
  then show ?thesis
    using idempotency_sound[OF mk_fresh_store[of 2 _ 0] refl, of "[Remember ''a'' done_result 60 1 1 1]" "''a''" 5] by simp
qed

text \<open>
  C28. The cache keeps what it should: after a result is remembered under a key, a look-up before its
  time to live has run out returns it, whatever happened before, as long as nothing else was
  remembered under that key and fewer than \<open>cap\<close> other keys were looked up or remembered in between.
\<close>

theorem idempotency_retained:
  assumes "mk_idem_store rep cap iv now0 doc = Inr st0" and "0 < ttl"
    and "st = idem_run st0 (cs @ Remember k r ttl t1 t2 t3 # cs')"
    and "\<forall>c\<in>set cs'. spares k (t1 + ttl) c" and "int (card ((\<Union>c\<in>set cs'. touched c) - {k})) < cap" and "now < t1 + ttl"
  shows "fst (idem_get st k now) = Some r"
proof -
  define st1 where "st1 = idem_run st0 cs"
  have st1: "idem_inv st1" "is_capacity st1 = cap" using idem_inv_mk[OF assms(1)] idem_inv_run by (simp_all add: st1_def)
  let ?e = "\<lparr>ie_result = r, ie_expires_at = t1 + ttl, ie_created_at = t2\<rparr>" and ?c = "Remember k r ttl t1 t2 t3"
  have "kept k ?e {} (is_entries (idem_exec st1 ?c))"
    using kept_remember[OF st1(1) assms(2)] by (simp add: idem_exec_def)
  from kept_run[OF this, of cs'] assms(4,5) st1(2)
  have "kept k ?e (\<Union>c\<in>set cs'. touched c) (is_entries (idem_run (idem_exec st1 ?c) cs'))" by simp
  moreover have "st = idem_run (idem_exec st1 ?c) cs'" by (simp add: assms(3) st1_def idem_run_def)
  ultimately show ?thesis using kept_get assms(6) by (fastforce simp: idem_get_def)
qed

theorem idempotency_retained_witness:
  "fst (idem_get (idem_run (fresh_store 2)
     ([Get ''b'' 0] @ Remember ''a'' done_result 60 1 1 1 # [Remember ''b'' done_result 60 2 2 2, Get ''b'' 3])) ''a'' 5) = Some done_result"
  by (rule idempotency_retained[OF mk_fresh_store[of 2 _ 0] _ refl]) (simp_all add: spares_def touched_def)

section \<open>Snapshots\<close>

lemma result_roundtrip: "ir_status r \<noteq> [] \<Longrightarrow> result_from_payload rep (result_to_payload r) = Inr r"
  by (cases r; cases "ir_error r"; cases "ir_output r")
    (auto simp: result_from_payload_def result_to_payload_def get_or_def get_val_def dict_get_or_def Let_def)

lemma load_snapshot_item:
  "ir_status (ie_result e) \<noteq> [] \<Longrightarrow> load_item rep now es (snapshot_item (k, e)) =
     (if ie_expires_at e \<le> now then es else dict_set k (e\<lparr>ie_created_at := now\<rparr>) es)"
  by (cases e) (simp add: load_item_def snapshot_item_def get_val_def dict_get_or_def number_of_def result_roundtrip)

lemma dict_set_new: "dict_get es k = None \<Longrightarrow> dict_set k v es = es @ [(k, v)]"
  by (induction es) (auto split: if_splits)

lemma load_snapshot_items:
  assumes "dict_wf (ds @ es)" and "\<forall>(k, e)\<in>set es. ir_status (ie_result e) \<noteq> []"
  shows "foldl (load_item rep now) ds (map snapshot_item es) =
    ds @ map (\<lambda>(k, e). (k, e\<lparr>ie_created_at := now\<rparr>)) (filter (\<lambda>(_, e). ie_expires_at e > now) es)"
  using assms
proof (induction es arbitrary: ds)
  case (Cons ke es)
  obtain k e where ke: "ke = (k, e)" by (cases ke)
  have "dict_get ds k = None" using Cons.prems(1) ke by (auto simp: dict_get_None_iff)
  then show ?case using Cons.IH[of ds] Cons.IH[of "ds @ [(k, e\<lparr>ie_created_at := now\<rparr>)]"] Cons.prems ke
    by (auto simp: load_snapshot_item dict_set_new)
qed simp

lemma dict_get_map_filter:
  assumes "dict_wf es"
  shows "dict_get (map (\<lambda>(k, e). (k, f e)) (filter (\<lambda>(_, e). P e) es)) k =
    (case dict_get es k of Some e \<Rightarrow> if P e then Some (f e) else None | None \<Rightarrow> None)"
  using assms
proof (induction es)
  case (Cons ke es)
  obtain k' e where ke: "ke = (k', e)" by (cases ke)
  have "k \<notin> set (dict_keys es) \<Longrightarrow> dict_get es k = None" by (simp add: dict_get_None_iff)
  then show ?case using Cons ke by (auto split: option.splits)
qed simp

text \<open>
  The snapshot written by a prune restores the cache: a store opened on it, at a time no earlier
  than the prune, answers every look-up as the pruned store does, for results with a status.
\<close>

theorem snapshot_restores:
  assumes "mk_idem_store rep cap iv now0 doc = Inr st0" and "st = idem_run st0 cs"
    and "\<forall>(k, e)\<in>set (is_entries st). ir_status (ie_result e) \<noteq> []"
    and "mk_idem_store rep cap iv' now' (is_file (idem_prune st t1 t2)) = Inr st'" and "t2 \<le> now'" and "now' \<le> now"
  shows "fst (idem_get st' k now) = fst (idem_get (idem_prune st t1 t2) k now)"
proof -
  let ?p = "idem_prune st t1 t2" and ?live = "filter (\<lambda>(_, e). ie_expires_at e > t2) (is_entries (idem_prune st t1 t2))"
  have inv: "idem_inv ?p" "is_capacity ?p = cap"
    using idem_inv_exec[OF idem_inv_run, of st0 cs "Prune t1 t2"] idem_inv_mk[OF assms(1)] assms(2)
    by (auto simp: idem_exec_def idem_prune_def Let_def)
  have doc: "is_file ?p = Some (VDict [(''entries'', VList (map snapshot_item ?live))])"
    by (simp add: idem_prune_def maybe_snapshot_def Let_def)
  have "set ?live \<subseteq> set (is_entries st)" by (auto simp: idem_prune_entries)
  then have status: "\<forall>(k, e)\<in>set ?live. ir_status (ie_result e) \<noteq> []" using assms(3) by blast
  have wf: "dict_wf ([] @ ?live)" using inv(1) by (simp add: idem_inv_def dict_wf_filter)
  let ?loaded = "map (\<lambda>(k, e). (k, e\<lparr>ie_created_at := now'\<rparr>)) (filter (\<lambda>(_, e). ie_expires_at e > now') ?live)"
  have "int (length ?loaded) \<le> cap"
    using inv le_trans[OF length_filter_le length_filter_le, of _ _ "is_entries ?p"] unfolding idem_inv_def length_map
    by (meson nat_int_comparison(3) order_trans)
  then have "is_entries st' = ?loaded"
    using assms(4) load_snapshot_items[OF wf status, of rep now'] inv
    by (auto simp: mk_idem_store_def doc load_entries_def get_val_def dict_get_or_def enforce_capacity_drop split: if_splits)
  moreover have "?loaded = map (\<lambda>(k, e). (k, e\<lparr>ie_created_at := now'\<rparr>)) (filter (\<lambda>(_, e). ie_expires_at e > now') (is_entries ?p))"
    using assms(5) by (auto intro!: arg_cong[where f = "map _"] filter_cong)
  ultimately have "dict_get (is_entries st') k = (case dict_get (is_entries ?p) k of
      Some e \<Rightarrow> if ie_expires_at e > now' then Some (e\<lparr>ie_created_at := now'\<rparr>) else None | None \<Rightarrow> None)"
    using dict_get_map_filter[of "is_entries ?p" "\<lambda>e. e\<lparr>ie_created_at := now'\<rparr>" "\<lambda>e. ie_expires_at e > now'"] inv(1)
    by (simp add: idem_inv_def)
  then show ?thesis using assms(6) by (auto simp: idem_get_def split: option.splits)
qed

definition one_entry :: idem_store where
  "one_entry = idem_run (fresh_store 2) [Remember ''a'' done_result 60 1 1 1]"

theorem snapshot_restores_witness:
  "\<exists>st'. mk_idem_store (\<lambda>_. []) 2 30 4 (is_file (idem_prune one_entry 3 3)) = Inr st' \<and>
      fst (idem_get st' ''a'' 9) = fst (idem_get (idem_prune one_entry 3 3) ''a'' 9) \<and>
      fst (idem_get (idem_prune one_entry 3 3) ''a'' 9) = Some done_result"
proof (intro conjI exI)
  show "fst (idem_get (idem_prune one_entry 3 3) ''a'' 9) = Some done_result" by code_simp
  define st' where "st' = projr (mk_idem_store (\<lambda>_. []) 2 30 4 (is_file (idem_prune one_entry 3 3)))"
  show st': "mk_idem_store (\<lambda>_. []) 2 30 4 (is_file (idem_prune one_entry 3 3)) = Inr st'"
    by (simp add: st'_def mk_idem_store_def)
  show "fst (idem_get st' ''a'' 9) = fst (idem_get (idem_prune one_entry 3 3) ''a'' 9)"
  proof (rule snapshot_restores[OF mk_fresh_store[of 2 _ 0] _ _ st'])
    show "one_entry = idem_run (fresh_store 2) [Remember ''a'' done_result 60 1 1 1]" by (rule one_entry_def)
    show "\<forall>(k, e)\<in>set (is_entries one_entry). ir_status (ie_result e) \<noteq> []" by code_simp
  qed simp_all
qed

end
