(* ===== verification/Retry_Policy.thy ===== *)
theory Retry_Policy
  imports Py_Values
begin

text \<open>
  Retry decisions (\<^verbatim>\<open>tm/runtime/retry.py\<close>).  The draw of the random generator is an argument \<open>rnd\<close> in
  \<open>[0, 1]\<close>, so that \<^verbatim>\<open>random.uniform(0, j)\<close> is \<open>j * rnd\<close>.  The configuration is the document read from the
  file, \<open>None\<close> when the file is missing or cannot be parsed.
\<close>

record retry_settings =
  rs_max_attempts :: int
  rs_base_ms :: real
  rs_factor :: real
  rs_jitter_ms :: real
  rs_dlq_after :: "int option"

definition default_retry :: retry_settings where
  "default_retry = \<lparr>rs_max_attempts = 3, rs_base_ms = 200, rs_factor = 2, rs_jitter_ms = 50, rs_dlq_after = None\<rparr>"

definition next_delay :: "retry_settings \<Rightarrow> int \<Rightarrow> real \<Rightarrow> real" where
  "next_delay s attempt rnd =
     (if attempt \<le> 0 then rs_base_ms s / 1000
      else
        let delay_ms = rs_base_ms s * rs_factor s ^ nat (attempt - 1);
            delay_ms = (if rs_jitter_ms s > 0 then delay_ms + rs_jitter_ms s * rnd else delay_ms)
        in max (delay_ms / 1000) 0)"

record retry_decision =
  rd_action :: string
  rd_delay :: real
  rd_reason :: "string option"

record retry_policy =
  rp_default :: retry_settings
  rp_per_flow :: "(string, retry_settings) dict"

definition settings_for :: "retry_policy \<Rightarrow> string \<Rightarrow> retry_settings" where
  "settings_for p flow_id = dict_get_or (rp_per_flow p) flow_id (rp_default p)"

definition to_dlq :: "string \<Rightarrow> retry_decision" where
  "to_dlq reason = \<lparr>rd_action = ''dlq'', rd_delay = 0, rd_reason = Some reason\<rparr>"

text \<open>The part of \<^verbatim>\<open>decide\<close> that looks at the error.\<close>

definition fatal_error :: "(string, val) dict option \<Rightarrow> string option" where
  "fatal_error err = (case err of
       None \<Rightarrow> None
     | Some d \<Rightarrow>
         if get_val d ''retryable'' = VBool False then Some ''non_retryable''
         else (case get_val d ''error_code'' of
            VStr code \<Rightarrow> if code \<in> {''POLICY_FORBIDDEN'', ''VALIDATION_FAILED''} then Some code else None
          | _ \<Rightarrow> None))"

definition decide :: "retry_policy \<Rightarrow> string \<Rightarrow> int \<Rightarrow> (string, val) dict option \<Rightarrow> real \<Rightarrow> retry_decision" where
  "decide p flow_id attempt err rnd = (case fatal_error err of
       Some reason \<Rightarrow> to_dlq reason
     | None \<Rightarrow>
         let s = settings_for p flow_id in
         if attempt \<ge> max 1 (rs_max_attempts s) then to_dlq ''max_attempts''
         else case rs_dlq_after s of
           Some n \<Rightarrow>
             if n \<ge> 0 \<and> attempt \<ge> n then to_dlq ''dlq_after''
             else \<lparr>rd_action = ''retry'', rd_delay = next_delay s attempt rnd, rd_reason = None\<rparr>
         | None \<Rightarrow> \<lparr>rd_action = ''retry'', rd_delay = next_delay s attempt rnd, rd_reason = None\<rparr>)"

section \<open>Configuration\<close>

definition retry_lookup :: "val \<Rightarrow> string \<Rightarrow> (string, val) dict" where
  "retry_lookup data key = (case data of
       VDict d \<Rightarrow> (case get_val d key of VDict v \<Rightarrow> v | _ \<Rightarrow> [])
     | _ \<Rightarrow> [])"

definition parse_retry_settings :: "val \<Rightarrow> retry_settings option \<Rightarrow> retry_settings result" where
  "parse_retry_settings raw fallback =
     (let fb = (case fallback of Some s \<Rightarrow> s | None \<Rightarrow> default_retry) in
      case raw of
        VDict d \<Rightarrow>
          bind_result (int_of (dict_get_or d ''max_attempts'' (VInt (rs_max_attempts fb)))) (\<lambda>max_attempts.
          bind_result (float_of (dict_get_or d ''base_ms'' (VFloat (rs_base_ms fb)))) (\<lambda>base_ms.
          bind_result (float_of (dict_get_or d ''factor'' (VFloat (rs_factor fb)))) (\<lambda>factor.
          bind_result (float_of (dict_get_or d ''jitter_ms'' (VFloat (rs_jitter_ms fb)))) (\<lambda>jitter_ms.
          bind_result
            (case dict_get_or d ''dlq_after'' (case rs_dlq_after fb of Some n \<Rightarrow> VInt n | None \<Rightarrow> VNone) of
               VNone \<Rightarrow> Inr None
             | v \<Rightarrow> bind_result (int_of v) (\<lambda>n. Inr (Some n))) (\<lambda>dlq_after.
            Inr \<lparr>rs_max_attempts = max 1 max_attempts, rs_base_ms = max 0 base_ms, rs_factor = max 1 factor,
                 rs_jitter_ms = max 0 jitter_ms, rs_dlq_after = dlq_after\<rparr>)))))
      | _ \<Rightarrow> Inr fb)"

fun parse_flows :: "retry_settings \<Rightarrow> (string, val) dict \<Rightarrow> (string, retry_settings) dict \<Rightarrow> (string, retry_settings) dict result" where
  "parse_flows dflt [] acc = Inr acc"
| "parse_flows dflt ((flow_id, spec) # rest) acc =
     bind_result (parse_retry_settings spec (Some dflt)) (\<lambda>s. parse_flows dflt rest (dict_set flow_id s acc))"

definition load_retry_policy :: "val option \<Rightarrow> retry_policy result" where
  "load_retry_policy doc = (case doc of
       None \<Rightarrow> Inr \<lparr>rp_default = default_retry, rp_per_flow = []\<rparr>
     | Some data \<Rightarrow>
         let retry_data = retry_lookup data ''retries'' in
         bind_result (parse_retry_settings (get_val retry_data ''default'') None) (\<lambda>dflt.
         bind_result (case get_val retry_data ''flow'' of VDict flows \<Rightarrow> parse_flows dflt flows [] | _ \<Rightarrow> Inr []) (\<lambda>per_flow.
           Inr \<lparr>rp_default = dflt, rp_per_flow = per_flow\<rparr>)))"

section \<open>Well-formed settings\<close>

definition settings_ok :: "retry_settings \<Rightarrow> bool" where
  "settings_ok s \<longleftrightarrow> 1 \<le> rs_max_attempts s \<and> 0 \<le> rs_base_ms s \<and> 1 \<le> rs_factor s \<and> 0 \<le> rs_jitter_ms s"

lemma default_retry_ok: "settings_ok default_retry"
  by (simp add: settings_ok_def default_retry_def)

lemma parse_retry_settings_ok:
  assumes "parse_retry_settings raw fb = Inr s" and "\<And>f. fb = Some f \<Longrightarrow> settings_ok f"
  shows "settings_ok s"
  using assms default_retry_ok
  by (auto simp: parse_retry_settings_def Let_def settings_ok_def result_simps split: val.splits option.splits)

lemma values_update: "snd ` set (dict_set k v d) \<subseteq> insert v (snd ` set d)"
  by (induction d) auto

lemma parse_flows_ok:
  "parse_flows dflt flows acc = Inr res \<Longrightarrow> settings_ok dflt \<Longrightarrow> \<forall>s\<in>snd ` set acc. settings_ok s \<Longrightarrow> \<forall>s\<in>snd ` set res. settings_ok s"
proof (induction dflt flows acc rule: parse_flows.induct)
  case (2 dflt flow_id spec rest acc)
  obtain s where s: "parse_retry_settings spec (Some dflt) = Inr s" "parse_flows dflt rest (dict_set flow_id s acc) = Inr res"
    using 2(2) by (auto simp: result_simps)
  have "\<forall>s'\<in>snd ` set (dict_set flow_id s acc). settings_ok s'"
    using values_update[of flow_id s acc] 2(4) parse_retry_settings_ok[OF s(1)] 2(3) by blast
  then show ?case using 2(1)[OF s] 2(3) by simp
qed simp

lemma loaded_settings_ok: "load_retry_policy doc = Inr p \<Longrightarrow> settings_ok (settings_for p flow)"
proof (cases doc)
  case (Some data)
  assume p: "load_retry_policy doc = Inr p"
  let ?d = "retry_lookup data ''retries''"
  obtain dflt flows where d: "parse_retry_settings (get_val ?d ''default'') None = Inr dflt"
    "(case get_val ?d ''flow'' of VDict flows \<Rightarrow> parse_flows dflt flows [] | _ \<Rightarrow> Inr []) = Inr flows"
    "p = \<lparr>rp_default = dflt, rp_per_flow = flows\<rparr>"
    using p Some by (auto simp: load_retry_policy_def Let_def result_simps)
  have dflt: "settings_ok dflt" using parse_retry_settings_ok[OF d(1)] by simp
  have "\<forall>s\<in>snd ` set flows. settings_ok s"
    using d(2) parse_flows_ok[OF _ dflt, of _ "[]" flows] by (auto split: val.splits)
  then have "settings_ok s" if "dict_get flows flow = Some s" for s using map_of_SomeD[OF that] by force
  then show ?thesis using d(3) dflt by (simp add: settings_for_def dict_get_or_def split: option.split)
qed (auto simp: load_retry_policy_def settings_for_def dict_get_or_def default_retry_ok)

lemma next_delay_bounds:
  assumes "settings_ok s" and "0 \<le> rnd" "rnd \<le> 1" and "1 \<le> attempt"
  shows "rs_base_ms s * rs_factor s ^ nat (attempt - 1) \<le> 1000 * next_delay s attempt rnd"
    and "1000 * next_delay s attempt rnd \<le> rs_base_ms s * rs_factor s ^ nat (attempt - 1) + rs_jitter_ms s"
proof -
  let ?b = "rs_base_ms s * rs_factor s ^ nat (attempt - 1)"
  have b: "0 \<le> ?b" using assms(1) by (auto simp: settings_ok_def)
  have j: "0 \<le> rs_jitter_ms s * rnd" "rs_jitter_ms s * rnd \<le> rs_jitter_ms s"
    using assms(1-3) by (auto simp: settings_ok_def mult_left_le)
  have "1000 * next_delay s attempt rnd = ?b + (if 0 < rs_jitter_ms s then rs_jitter_ms s * rnd else 0)"
    using b j assms(4) by (auto simp: next_delay_def Let_def)
  then show "?b \<le> 1000 * next_delay s attempt rnd" "1000 * next_delay s attempt rnd \<le> ?b + rs_jitter_ms s"
    using j assms(1) by (auto simp: settings_ok_def)
qed

lemma decide_retry_iff:
  "rd_action (decide p flow attempt err rnd) = ''retry'' \<longleftrightarrow>
     fatal_error err = None \<and> attempt < max 1 (rs_max_attempts (settings_for p flow)) \<and>
     (\<forall>n. rs_dlq_after (settings_for p flow) = Some n \<longrightarrow> n < 0 \<or> attempt < n)"
  by (auto simp: decide_def to_dlq_def Let_def split: option.splits)

lemma decide_retry_delay:
  "rd_action (decide p flow attempt err rnd) = ''retry'' \<Longrightarrow> rd_delay (decide p flow attempt err rnd) = next_delay (settings_for p flow) attempt rnd"
  by (auto simp: decide_def to_dlq_def Let_def split: option.splits if_splits)

text \<open>
  What a loaded policy decides: a failure is retried exactly when its error is not fatal, the
  attempt is below the maximum and below the dead-letter mark if one is set; the delay then grows
  by the factor with each attempt and lies within the jitter above the exact value, and the delay
  before a later attempt is never below the jitter-free delay before an earlier one.
\<close>

theorem retry_decision_exact:
  assumes "load_retry_policy doc = Inr p" and "s = settings_for p flow" and "0 \<le> rnd" "rnd \<le> 1" and "1 \<le> attempt"
  shows "(rd_action (decide p flow attempt err rnd) = ''retry'' \<longleftrightarrow>
      fatal_error err = None \<and> attempt < rs_max_attempts s \<and> (\<forall>n. rs_dlq_after s = Some n \<longrightarrow> n < 0 \<or> attempt < n)) \<and>
    (rd_action (decide p flow attempt err rnd) = ''retry'' \<longrightarrow>
      rs_base_ms s * rs_factor s ^ nat (attempt - 1) \<le> 1000 * rd_delay (decide p flow attempt err rnd) \<and>
      1000 * rd_delay (decide p flow attempt err rnd) \<le> rs_base_ms s * rs_factor s ^ nat (attempt - 1) + rs_jitter_ms s \<and>
      (\<forall>k. 1 \<le> k \<and> k \<le> attempt \<longrightarrow> rs_base_ms s * rs_factor s ^ nat (k - 1) \<le> 1000 * rd_delay (decide p flow attempt err rnd)))"
proof -
  have ok: "settings_ok s" using loaded_settings_ok[OF assms(1)] assms(2) by simp
  have mono: "rs_base_ms s * rs_factor s ^ nat (k - 1) \<le> rs_base_ms s * rs_factor s ^ nat (attempt - 1)" if "k \<le> attempt" for k
    using ok that by (intro mult_left_mono power_increasing) (auto simp: settings_ok_def)
  have max: "max 1 (rs_max_attempts s) = rs_max_attempts s" using ok by (simp add: settings_ok_def)
  show ?thesis
    using next_delay_bounds[OF ok assms(3-5)] mono order_trans
    by (auto simp: decide_retry_iff max assms(2)[symmetric] decide_retry_delay)
qed

theorem retry_decision_exact_witness:
  "rd_action (decide \<lparr>rp_default = default_retry, rp_per_flow = []\<rparr> ''f'' 2 None (1/2)) = ''retry''"
  using retry_decision_exact[of None _ default_retry "''f''" "1/2" 2 None]
  by (simp add: load_retry_policy_def settings_for_def dict_get_or_def default_retry_def fatal_error_def)

end
