(* ===== verification/Dead_Letters.thy ===== *)
theory Dead_Letters
  imports Py_Values
begin

text \<open>
  The dead-letter store (\<^verbatim>\<open>tm/runtime/dlq.py\<close>): one document per entry in the directory of pending
  entries, moved to an archive when it is consumed.  A directory is a dictionary from file names to
  the documents in the files; entry ids are taken to be plain file names.  Clock readings and the
  process id are arguments.
\<close>

record dead_letter_record =
  dr_entry_id :: string
  dr_flow_id :: string
  dr_task :: "(string, val) dict"
  dr_error :: "(string, val) dict"
  dr_attempt :: int
  dr_timestamp :: real
  dr_state :: string

record dead_letters =
  dl_pending :: "(string, val) dict"
  dl_requeued :: "(string, val) dict"
  dl_purged :: "(string, val) dict"

definition no_dead_letters :: dead_letters where
  "no_dead_letters = \<lparr>dl_pending = [], dl_requeued = [], dl_purged = []\<rparr>"

text \<open>The format specification \<^verbatim>\<open>0<w>d\<close>.\<close>

definition zero_pad :: "nat \<Rightarrow> int \<Rightarrow> string" where
  "zero_pad w i =
     (let digits = str_nat (nat \<bar>i\<bar>) in
      if i < 0 then CHR ''-'' # replicate (w - 1 - length digits) CHR ''0'' @ digits
      else replicate (w - length digits) CHR ''0'' @ digits)"

definition dlq_entry_id :: "real \<Rightarrow> int \<Rightarrow> string" where
  "dlq_entry_id ts pid = ''dlq-'' @ zero_pad 13 (truncate_real (ts * 1000)) @ ''-'' @ zero_pad 5 pid"

definition json_name :: "string \<Rightarrow> string" where
  "json_name entry_id = entry_id @ ''.json''"

definition record_doc :: "dead_letter_record \<Rightarrow> (string, val) dict" where
  "record_doc r =
     [(''entry_id'', VStr (dr_entry_id r)), (''flow_id'', VStr (dr_flow_id r)), (''task'', VDict (dr_task r)),
      (''error'', VDict (dr_error r)), (''attempt'', VInt (dr_attempt r)), (''timestamp'', VFloat (dr_timestamp r)),
      (''state'', VStr (dr_state r))]"

definition dlq_append ::
  "dead_letters \<Rightarrow> string \<Rightarrow> (string, val) dict \<Rightarrow> (string, val) dict \<Rightarrow> int \<Rightarrow> real \<Rightarrow> int \<Rightarrow> dead_letter_record \<times> dead_letters" where
  "dlq_append d flow_id t err attempt ts pid =
     (let entry_id = dlq_entry_id ts pid;
          r = \<lparr>dr_entry_id = entry_id, dr_flow_id = flow_id, dr_task = t, dr_error = err, dr_attempt = attempt,
               dr_timestamp = ts, dr_state = ''pending''\<rparr>
      in (r, d\<lparr>dl_pending := dict_set (json_name entry_id) (VDict (record_doc r)) (dl_pending d)\<rparr>))"

definition int_val :: "val \<Rightarrow> int option" where
  "int_val v = (case v of VInt i \<Rightarrow> Some i | VBool b \<Rightarrow> Some (if b then 1 else 0) | _ \<Rightarrow> None)"

definition float_val :: "val \<Rightarrow> real option" where
  "float_val v = (case v of VFloat r \<Rightarrow> Some r | _ \<Rightarrow> map_option real_of_int (int_val v))"

definition load_path :: "(val \<Rightarrow> string) \<Rightarrow> val option \<Rightarrow> dead_letter_record option" where
  "load_path rep doc = (case doc of
       Some (VDict d) \<Rightarrow>
         (case (get_val d ''entry_id'', get_val d ''flow_id'', get_val d ''task'', get_val d ''error'',
                int_val (get_val d ''attempt''), float_val (get_val d ''timestamp'')) of
            (VStr entry_id, VStr flow_id, VDict t, VDict err, Some attempt, Some timestamp) \<Rightarrow>
              Some \<lparr>dr_entry_id = entry_id, dr_flow_id = flow_id, dr_task = t, dr_error = err, dr_attempt = attempt,
                    dr_timestamp = timestamp, dr_state = py_str rep (dict_get_or d ''state'' (VStr ''pending''))\<rparr>
          | _ \<Rightarrow> None)
     | _ \<Rightarrow> None)"

definition ends_with :: "string \<Rightarrow> string \<Rightarrow> bool" where
  "ends_with suffix s = starts_with (rev suffix) (rev s)"

definition dlq_list :: "(val \<Rightarrow> string) \<Rightarrow> dead_letters \<Rightarrow> dead_letter_record list" where
  "dlq_list rep d = List.map_filter (\<lambda>name. load_path rep (dict_get (dl_pending d) name))
     (sort (filter (ends_with ''.json'') (dict_keys (dl_pending d))))"

definition dlq_load :: "(val \<Rightarrow> string) \<Rightarrow> dead_letters \<Rightarrow> string \<Rightarrow> dead_letter_record option" where
  "dlq_load rep d entry_id = load_path rep (dict_get (dl_pending d) (json_name entry_id))"

definition dlq_consume :: "(val \<Rightarrow> string) \<Rightarrow> dead_letters \<Rightarrow> string \<Rightarrow> string \<Rightarrow> real \<Rightarrow> dead_letter_record option \<times> dead_letters" where
  "dlq_consume rep d entry_id st now = (case dlq_load rep d entry_id of
       None \<Rightarrow> (None, d)
     | Some r \<Rightarrow>
         let r' = r\<lparr>dr_state := st\<rparr>;
             doc = VDict (record_doc r' @ [(''consumed_at'', VFloat now)]);
             name = json_name entry_id;
             d1 = (if st = ''requeued'' then d\<lparr>dl_requeued := dict_set name doc (dl_requeued d)\<rparr>
                   else d\<lparr>dl_purged := dict_set name doc (dl_purged d)\<rparr>)
         in (Some r', d1\<lparr>dl_pending := dict_pop name (dl_pending d1)\<rparr>))"

section \<open>Reading back\<close>

lemma load_record_doc: "load_path rep (Some (VDict (record_doc r @ extra))) = Some r"
  by (cases r) (simp add: load_path_def record_doc_def get_val_def dict_get_or_def int_val_def float_val_def)

lemma json_name_inject [simp]: "json_name a = json_name b \<longleftrightarrow> a = b"
  by (simp add: json_name_def)

lemma dlq_load_append:
  "dlq_append d flow t err n ts pid = (r, d') \<Longrightarrow>
     dlq_load rep d' i = (if i = dr_entry_id r then Some r else dlq_load rep d i) \<and> dl_requeued d' = dl_requeued d \<and> dl_purged d' = dl_purged d"
  using load_record_doc[of rep r "[]"] by (auto simp: dlq_append_def dlq_load_def Let_def dict_simps)

lemma dlq_load_consume:
  "dlq_load rep (snd (dlq_consume rep d i st now)) j = (if j = i then None else dlq_load rep d j)"
proof (cases "dlq_load rep d i")
  case None
  then show ?thesis by (simp add: dlq_consume_def)
next
  case (Some r)
  have "load_path rep None = None" by (simp add: load_path_def)
  then show ?thesis using Some by (simp add: dlq_consume_def dlq_load_def Let_def dict_simps)
qed

text \<open>
  The dead-letter store keeps what it is given: an appended entry is loaded back unchanged until
  it is consumed, consuming it returns it with the new state, files it in the archive of that state
  and removes it from the pending entries, and no other entry is affected.
\<close>

theorem dead_letter_roundtrip:
  assumes "dlq_append d flow t err n ts pid = (r, d1)" and "st = ''requeued'' \<or> st = ''purged''"
    and "dlq_consume rep d1 (dr_entry_id r) st now = (out, d2)"
  shows "dr_task r = t \<and> dr_error r = err \<and> dr_flow_id r = flow \<and> dr_attempt r = n \<and>
    dlq_load rep d1 (dr_entry_id r) = Some r \<and> out = Some (r\<lparr>dr_state := st\<rparr>) \<and> dlq_load rep d2 (dr_entry_id r) = None \<and>
    load_path rep (dict_get (if st = ''requeued'' then dl_requeued d2 else dl_purged d2) (json_name (dr_entry_id r))) = Some (r\<lparr>dr_state := st\<rparr>) \<and>
    (\<forall>i. i \<noteq> dr_entry_id r \<longrightarrow> dlq_load rep d1 i = dlq_load rep d i \<and> dlq_load rep d2 i = dlq_load rep d i)"
proof -
  have r: "dr_task r = t" "dr_error r = err" "dr_flow_id r = flow" "dr_attempt r = n"
    using assms(1) by (auto simp: dlq_append_def Let_def)
  have d1: "dlq_load rep d1 i = (if i = dr_entry_id r then Some r else dlq_load rep d i)" for i
    using dlq_load_append[OF assms(1)] by blast
  have d2: "dlq_load rep d2 i = (if i = dr_entry_id r then None else dlq_load rep d i)" for i
    using dlq_load_consume[of rep d1 "dr_entry_id r" st now i] assms(3) d1 by simp
  have "out = Some (r\<lparr>dr_state := st\<rparr>) \<and>
      load_path rep (dict_get (if st = ''requeued'' then dl_requeued d2 else dl_purged d2) (json_name (dr_entry_id r))) = Some (r\<lparr>dr_state := st\<rparr>)"
    using assms(2,3) d1[of "dr_entry_id r"] load_record_doc[of rep "r\<lparr>dr_state := st\<rparr>"]
    by (auto simp: dlq_consume_def Let_def dict_simps)
  then show ?thesis using r d1 d2 by simp
qed

definition one_letter :: "dead_letter_record \<times> dead_letters" where
  "one_letter = dlq_append no_dead_letters ''f'' [] [(''reason'', VStr ''max_attempts'')] 3 17 42"

theorem dead_letter_roundtrip_witness:
  "dlq_load (\<lambda>_. []) (snd one_letter) (dr_entry_id (fst one_letter)) = Some (fst one_letter) \<and> dr_attempt (fst one_letter) = 3"
  using dead_letter_roundtrip[of no_dead_letters "''f''" "[]" "[(''reason'', VStr ''max_attempts'')]" 3 17 42
      "fst one_letter" "snd one_letter" "''purged''" "\<lambda>_. []" 18, OF _ _ prod.collapse[symmetric]]
  by (simp add: one_letter_def)

text \<open>
  Two failures of one process within the same millisecond share an entry id: the second entry
  takes the place of the first, which can no longer be loaded.
\<close>

theorem dead_letter_overwritten:
  assumes "truncate_real (ts * 1000) = truncate_real (ts' * 1000)"
    and "dlq_append d flow t err n ts pid = (r, d1)" and "dlq_append d1 flow' t' err' n' ts' pid = (r', d2)"
  shows "dlq_load rep d2 i = (if i = dr_entry_id r then Some r' else dlq_load rep d i)"
proof -
  have same: "dr_entry_id r = dr_entry_id r'" using assms by (auto simp: dlq_append_def dlq_entry_id_def Let_def)
  then show ?thesis using dlq_load_append[OF assms(2), of rep i] dlq_load_append[OF assms(3), of rep i] by auto
qed

theorem dead_letter_overwritten_witness:
  "dlq_load (\<lambda>_. []) (snd (dlq_append (snd one_letter) ''g'' [] [] 1 17 42)) (dr_entry_id (fst one_letter)) =
     Some (fst (dlq_append (snd one_letter) ''g'' [] [] 1 17 42))"
  using dead_letter_overwritten[of 17 17 no_dead_letters "''f''" "[]" "[(''reason'', VStr ''max_attempts'')]" 3 42
      "fst one_letter" "snd one_letter" "''g''" "[]" "[]" 1, OF refl _ prod.collapse[symmetric]]
  by (simp add: one_letter_def)

end
