(* ===== verification/Task_Manager.thy ===== *)
theory Task_Manager
  imports Work_Queue Idempotency Retry_Policy Dead_Letters
begin

text \<open>
  The task queue manager (\<^verbatim>\<open>tm/runtime/queue/manager.py\<close>) over the work queue, the cache of results, the
  retry policy and the dead-letter store, and what a worker does with a lease
  (\<^verbatim>\<open>_process_lease\<close> in \<^verbatim>\<open>tm/runtime/workers.py\<close>).  Counters, gauges and log records are left out, locks are
  not needed since each call runs alone.  The calls of producers and workers interleave: \<open>manager_step\<close> lets
  every worker call under every lease it was ever handed, \<open>mgr_step\<close> only under leases that are current.  What the environment gives a call, clock readings, the random
  draw and the process id, is the record \<open>readings\<close>; the runtime's answer to a task is an argument.
\<close>

record readings =
  ck_idem :: real
  ck_t1 :: real
  ck_t2 :: real
  ck_t3 :: real
  ck_now :: real
  ck_wall :: real
  ck_mon :: real
  ck_ts :: real
  ck_pid :: int
  ck_rnd :: real

record managed_lease =
  ml_offset :: nat
  ml_token :: string
  ml_deadline :: real
  ml_envelope :: task_envelope

record enqueue_outcome =
  eo_queued :: bool
  eo_envelope :: "task_envelope option"
  eo_cached :: "idem_result option"

record task_manager =
  tm_queue :: mem_queue
  tm_idem :: idem_store
  tm_dlq :: "dead_letters option"
  tm_policy :: "retry_policy option"
  tm_default_ttl :: real
  tm_pending_keys :: "(string, string) dict"
  tm_task_offsets :: "(string, nat) dict"
  tm_inflight :: int

definition mk_task_manager :: "mem_queue \<Rightarrow> idem_store \<Rightarrow> dead_letters option \<Rightarrow> retry_policy option \<Rightarrow> real \<Rightarrow> task_manager" where
  "mk_task_manager q st dlq policy ttl = \<lparr>tm_queue = q, tm_idem = st, tm_dlq = dlq, tm_policy = policy,
     tm_default_ttl = max ttl 60, tm_pending_keys = [], tm_task_offsets = [], tm_inflight = 0\<rparr>"

definition store_envelope :: "task_manager \<Rightarrow> task_envelope \<Rightarrow> readings \<Rightarrow> task_manager" where
  "store_envelope m e ck =
     (let (offset, q) = q_put (tm_queue m) (envelope_to_dict e) (ck_wall ck) (ck_mon ck) in
      m\<lparr>tm_queue := q, tm_task_offsets := dict_set (te_task_id e) offset (tm_task_offsets m),
        tm_pending_keys := (case idempotency_key e of
            Some _ \<Rightarrow> dict_setdefault (composite_key e) (te_task_id e) (tm_pending_keys m)
          | None \<Rightarrow> tm_pending_keys m)\<rparr>)"

definition clear_pending :: "task_manager \<Rightarrow> task_envelope \<Rightarrow> task_manager" where
  "clear_pending m e = (case idempotency_key e of
       None \<Rightarrow> m
     | Some _ \<Rightarrow>
         if dict_get (tm_pending_keys m) (composite_key e) = Some (te_task_id e)
         then m\<lparr>tm_pending_keys := dict_pop (composite_key e) (tm_pending_keys m)\<rparr>
         else m)"

definition enqueue ::
  "task_manager \<Rightarrow> string \<Rightarrow> string \<Rightarrow> task \<Rightarrow> task option \<Rightarrow> task option \<Rightarrow> readings \<Rightarrow> enqueue_outcome \<times> task_manager" where
  "enqueue m fresh flow_id inp headers trace ck =
     (let e = envelope_new fresh (ck_now ck) flow_id inp headers trace None None in
      case idempotency_key e of
        None \<Rightarrow> (\<lparr>eo_queued = True, eo_envelope = Some e, eo_cached = None\<rparr>, store_envelope m e ck)
      | Some _ \<Rightarrow>
          (case idem_get (tm_idem m) (composite_key e) (ck_idem ck) of
             (Some r, st) \<Rightarrow> (\<lparr>eo_queued = False, eo_envelope = None, eo_cached = Some r\<rparr>, m\<lparr>tm_idem := st\<rparr>)
           | (None, st) \<Rightarrow>
               let m1 = m\<lparr>tm_idem := st\<rparr> in
               (case dict_get (tm_pending_keys m1) (composite_key e) of
                  Some _ \<Rightarrow> (\<lparr>eo_queued = False, eo_envelope = None, eo_cached = None\<rparr>, m1)
                | None \<Rightarrow> (\<lparr>eo_queued = True, eo_envelope = Some e, eo_cached = None\<rparr>,
                    store_envelope (m1\<lparr>tm_pending_keys := dict_set (composite_key e) (te_task_id e) (tm_pending_keys m1)\<rparr>) e ck))))"

definition manage :: "(val \<Rightarrow> string) \<Rightarrow> real \<Rightarrow> leased_task \<Rightarrow> managed_lease result" where
  "manage rep now l = bind_result (envelope_from_dict rep now (lt_task l)) (\<lambda>e.
     Inr \<lparr>ml_offset = lt_offset l, ml_token = lt_token l, ml_deadline = lt_deadline l, ml_envelope = e\<rparr>)"

text \<open>A malformed task makes the call raise after the queue has handed out its leases.\<close>

definition mgr_lease :: "(val \<Rightarrow> string) \<Rightarrow> task_manager \<Rightarrow> int \<Rightarrow> int \<Rightarrow> readings \<Rightarrow> managed_lease list result \<times> task_manager" where
  "mgr_lease rep m n lease_ms ck =
     (let (ls, q) = q_lease (tm_queue m) n lease_ms (ck_mon ck); m1 = m\<lparr>tm_queue := q\<rparr> in
      case map_result (manage rep (ck_now ck)) ls of
        Inl e \<Rightarrow> (Inl e, m1)
      | Inr managed \<Rightarrow>
          (Inr managed, if managed = [] then m1 else m1\<lparr>tm_inflight := tm_inflight m1 + int (length managed)\<rparr>))"

text \<open>What \<^verbatim>\<open>ack\<close> and \<^verbatim>\<open>nack\<close> do beside the call of the queue.\<close>

definition lease_done :: "task_manager \<Rightarrow> managed_lease \<Rightarrow> task_manager" where
  "lease_done m l = m\<lparr>tm_inflight := (if tm_inflight m > 0 then tm_inflight m - 1 else tm_inflight m),
     tm_task_offsets := dict_pop (te_task_id (ml_envelope l)) (tm_task_offsets m)\<rparr>"

definition mgr_ack :: "task_manager \<Rightarrow> managed_lease \<Rightarrow> bool \<Rightarrow> task_manager" where
  "mgr_ack m l clear =
     (let m1 = lease_done (m\<lparr>tm_queue := q_ack (tm_queue m) (ml_offset l) (ml_token l)\<rparr>) l in
      if clear then clear_pending m1 (ml_envelope l) else m1)"

definition mgr_nack :: "task_manager \<Rightarrow> managed_lease \<Rightarrow> bool \<Rightarrow> readings \<Rightarrow> task_manager" where
  "mgr_nack m l requeue ck =
     (let m1 = lease_done (m\<lparr>tm_queue := q_nack (tm_queue m) (ml_offset l) (ml_token l) requeue (ck_mon ck)\<rparr>) l in
      if \<not> requeue then clear_pending m1 (ml_envelope l) else m1)"

definition record_result :: "task_manager \<Rightarrow> task_envelope \<Rightarrow> idem_result \<Rightarrow> real option \<Rightarrow> readings \<Rightarrow> task_manager" where
  "record_result m e r ttl ck =
     (let ttl_value = (case ttl of Some t \<Rightarrow> t | None \<Rightarrow> tm_default_ttl m) in
      clear_pending (m\<lparr>tm_idem := idem_remember (tm_idem m) (composite_key e) r ttl_value (ck_t1 ck) (ck_t2 ck) (ck_t3 ck)\<rparr>) e)"

definition record_retry :: "task_manager \<Rightarrow> managed_lease \<Rightarrow> real \<Rightarrow> readings \<Rightarrow> task_envelope \<times> task_manager" where
  "record_retry m l delay ck =
     (let m1 = mgr_ack m l False;
          e = ml_envelope l;
          e' = with_retry e (te_attempt e + 1) (ck_now ck + max delay 0);
          m2 = store_envelope m1 e' ck
      in (e', case idempotency_key e of
            Some _ \<Rightarrow> m2\<lparr>tm_pending_keys := dict_set (composite_key e') (te_task_id e') (tm_pending_keys m2)\<rparr>
          | None \<Rightarrow> m2))"

definition record_dead_letter :: "task_manager \<Rightarrow> managed_lease \<Rightarrow> (string, val) dict \<Rightarrow> string \<Rightarrow> readings \<Rightarrow> task_manager" where
  "record_dead_letter m l err reason ck =
     (let m1 = mgr_ack m l True; e = ml_envelope l in
      case tm_dlq m1 of
        None \<Rightarrow> m1
      | Some d \<Rightarrow> m1\<lparr>tm_dlq := Some (snd (dlq_append d (te_flow_id e) (envelope_to_dict e)
                     (dict_set ''reason'' (VStr reason) err) (te_attempt e + 1) (ck_ts ck) (ck_pid ck)))\<rparr>)"

definition get_cached_result :: "task_manager \<Rightarrow> task_envelope \<Rightarrow> readings \<Rightarrow> idem_result option \<times> task_manager" where
  "get_cached_result m e ck =
     (let (r, st) = idem_get (tm_idem m) (composite_key e) (ck_idem ck) in (r, m\<lparr>tm_idem := st\<rparr>))"

definition handle_failure :: "task_manager \<Rightarrow> managed_lease \<Rightarrow> (string, val) dict \<Rightarrow> readings \<Rightarrow> retry_decision option \<times> task_manager" where
  "handle_failure m l err ck = (case tm_policy m of
       None \<Rightarrow> (None, record_dead_letter m l err ''no_policy'' ck)
     | Some p \<Rightarrow>
         let d = decide p (te_flow_id (ml_envelope l)) (te_attempt (ml_envelope l) + 1) (Some err) (ck_rnd ck) in
         if rd_action d = ''retry'' then (Some d, snd (record_retry m l (rd_delay d) ck))
         else (Some d, record_dead_letter m l err
                (case rd_reason d of Some r \<Rightarrow> if r = [] then ''max_attempts'' else r | None \<Rightarrow> ''max_attempts'') ck))"

section \<open>Workers\<close>

definition serialize_result :: "(val \<Rightarrow> string) \<Rightarrow> (string, val) dict \<Rightarrow> idem_result" where
  "serialize_result rep result =
     (let status = py_str rep (dict_get_or result ''status'' (VStr ''ok'')) in
      \<lparr>ir_status = status, ir_output = result,
       ir_error = (if status \<noteq> ''ok''
          then Some [(''error_code'', get_val result ''error_code''), (''error_message'', get_val result ''error_message'')]
          else None)\<rparr>)"

text \<open>The error of a task whose run raised (with the text of the exception) or gave a status other than \<^verbatim>\<open>ok\<close>.\<close>

definition task_error :: "string + val \<Rightarrow> (string, val) dict option" where
  "task_error outcome = (case outcome of
       Inl msg \<Rightarrow> Some [(''error_code'', VStr ''RUNTIME_EXCEPTION''), (''error_message'', VStr msg), (''retryable'', VBool True)]
     | Inr (VDict d) \<Rightarrow>
         if get_val d ''status'' = VStr ''ok'' then None
         else Some [(''error_code'', get_val d ''error_code''), (''error_message'', get_val d ''error_message''),
                    (''retryable'', dict_get_or d ''retryable'' (VBool True))]
     | Inr _ \<Rightarrow> Some [(''error_code'', VNone), (''error_message'', VStr ''task error''), (''retryable'', VBool True)])"

definition result_dict :: "string + val \<Rightarrow> (string, val) dict" where
  "result_dict outcome = (case outcome of Inr (VDict d) \<Rightarrow> d | _ \<Rightarrow> [])"

definition process_lease :: "(val \<Rightarrow> string) \<Rightarrow> task_manager \<Rightarrow> managed_lease \<Rightarrow> string + val \<Rightarrow> readings \<Rightarrow> task_manager" where
  "process_lease rep m l outcome ck =
     (case get_cached_result m (ml_envelope l) ck of
        (Some _, m1) \<Rightarrow> mgr_ack m1 l True
      | (None, m1) \<Rightarrow>
          (case task_error outcome of
             Some err \<Rightarrow> snd (handle_failure m1 l err ck)
           | None \<Rightarrow> record_result (mgr_ack m1 l True) (ml_envelope l) (serialize_result rep (result_dict outcome)) None ck))"

section \<open>The tasks of a queue\<close>

lemma envelope_to_dict_inject [simp]: "envelope_to_dict e = envelope_to_dict e' \<longleftrightarrow> e = e'"
  by (auto simp: envelope_to_dict_def)

lemma composite_key_idem: "idempotency_key e = Some k \<Longrightarrow> composite_key e = k"
  by (simp add: composite_key_def)

text \<open>
  A task that belongs in the queue: named, with an attempt below the limit of its flow, and with its
  idempotency key, if it has one, marked as pending for it.
\<close>

definition task_ok :: "(string \<Rightarrow> int) \<Rightarrow> (string \<Rightarrow> string option) \<Rightarrow> task_envelope \<Rightarrow> bool" where
  "task_ok cap ks e \<longleftrightarrow> envelope_ok e \<and> 0 \<le> te_attempt e \<and> te_attempt e < cap (te_flow_id e) \<and>
     (\<forall>k. idempotency_key e = Some k \<longrightarrow> ks k = Some (te_task_id e))"

definition holds_key :: "queue_view \<Rightarrow> nat \<Rightarrow> string \<Rightarrow> bool" where
  "holds_key v off k \<longleftrightarrow> (\<exists>e tok. v off = Some (envelope_to_dict e, tok) \<and> idempotency_key e = Some k)"

definition tasks_ok :: "(string \<Rightarrow> int) \<Rightarrow> (string \<Rightarrow> string option) \<Rightarrow> queue_view \<Rightarrow> bool" where
  "tasks_ok cap ks v \<longleftrightarrow>
     (\<forall>off t tok. v off = Some (t, tok) \<longrightarrow> (\<exists>e. t = envelope_to_dict e \<and> task_ok cap ks e)) \<and>
     (\<forall>off off' k. holds_key v off k \<and> holds_key v off' k \<longrightarrow> off = off')"

lemma tasks_okD:
  assumes "tasks_ok cap ks v" and "v off = Some (t, tok)"
  obtains e where "t = envelope_to_dict e" "task_ok cap ks e"
  using assms unfolding tasks_ok_def by blast

lemma tasks_ok_same:
  assumes "tasks_ok cap ks v" and same: "\<And>off. map_option fst (v' off) = map_option fst (v off)"
  shows "tasks_ok cap ks v'"
proof -
  have sub: "\<exists>tok'. v off = Some (t, tok')" if "v' off = Some (t, tok)" for off t tok
    using same[of off] that by (cases "v off") auto
  then have "holds_key v off k" if "holds_key v' off k" for off k using that unfolding holds_key_def by blast
  then show ?thesis using assms(1) sub unfolding tasks_ok_def by blast
qed

lemma holds_key_pending: "tasks_ok cap ks v \<Longrightarrow> holds_key v off k \<Longrightarrow> ks k \<noteq> None"
  by (auto simp: holds_key_def task_ok_def elim!: tasks_okD)

lemma holds_key_remove: "holds_key (v(off := None)) off' k \<longleftrightarrow> off' \<noteq> off \<and> holds_key v off' k"
  by (auto simp: holds_key_def)

lemma task_ok_keys:
  assumes "task_ok cap ks e" and "\<And>k. idempotency_key e = Some k \<Longrightarrow> ks' k = ks k"
  shows "task_ok cap ks' e"
  using assms by (simp add: task_ok_def)

text \<open>Removing the task of a key frees the key.\<close>

lemma tasks_ok_remove:
  assumes "tasks_ok cap ks v" and "v off = Some (envelope_to_dict e, tok)"
    and "\<And>k. idempotency_key e \<noteq> Some k \<Longrightarrow> ks' k = ks k"
  shows "tasks_ok cap ks' (v(off := None))"
  unfolding tasks_ok_def holds_key_remove
proof (intro conjI allI impI)
  fix off' t tok'
  assume a: "(v(off := None)) off' = Some (t, tok')"
  then have off': "off' \<noteq> off" "v off' = Some (t, tok')" by (auto split: if_splits)
  obtain e' where e': "t = envelope_to_dict e'" "task_ok cap ks e'" by (rule tasks_okD[OF assms(1) off'(2)])
  have "idempotency_key e \<noteq> Some k" if "idempotency_key e' = Some k" for k
    using assms(1,2) off' e'(1) that unfolding tasks_ok_def holds_key_def by blast
  then have "task_ok cap ks' e'" by (intro task_ok_keys[OF e'(2)] assms(3))
  then show "\<exists>e. t = envelope_to_dict e \<and> task_ok cap ks' e" using e'(1) by blast
qed (use assms(1) in \<open>unfold tasks_ok_def, blast\<close>)

text \<open>Adding a task whose key no other task has.\<close>

lemma tasks_ok_add:
  assumes "tasks_ok cap ks v" and "task_ok cap ks' e"
    and "\<And>k off'. idempotency_key e = Some k \<Longrightarrow> \<not> holds_key v off' k" and "\<And>k. idempotency_key e \<noteq> Some k \<Longrightarrow> ks' k = ks k"
  shows "tasks_ok cap ks' (v(off \<mapsto> (envelope_to_dict e, tok)))"
proof -
  have old: "\<exists>e'. t = envelope_to_dict e' \<and> task_ok cap ks' e'" if "v off' = Some (t, tok')" for off' t tok'
  proof (rule tasks_okD[OF assms(1) that])
    fix e' assume e': "t = envelope_to_dict e'" "task_ok cap ks e'"
    have "idempotency_key e \<noteq> Some k" if k: "idempotency_key e' = Some k" for k
      using assms(3)[of k off'] \<open>v off' = Some (t, tok')\<close> e'(1) k unfolding holds_key_def by blast
    then have "task_ok cap ks' e'" by (intro task_ok_keys[OF e'(2)] assms(4))
    then show ?thesis using e'(1) by blast
  qed
  have keys: "holds_key (v(off \<mapsto> (envelope_to_dict e, tok))) off' k \<Longrightarrow> off' = off \<and> idempotency_key e = Some k \<or> holds_key v off' k" for off' k
    by (auto simp: holds_key_def split: if_splits)
  have "off1 = off2" if "holds_key (v(off \<mapsto> (envelope_to_dict e, tok))) off1 k" "holds_key (v(off \<mapsto> (envelope_to_dict e, tok))) off2 k" for off1 off2 k
    using keys[OF that(1)] keys[OF that(2)] assms(1,3) unfolding tasks_ok_def by blast
  then show ?thesis using old assms(2) unfolding tasks_ok_def by (auto split: if_splits)
qed

section \<open>The invariant of the manager\<close>

definition mgr_ok :: "(string \<Rightarrow> int) \<Rightarrow> task_manager \<Rightarrow> bool" where
  "mgr_ok cap m \<longleftrightarrow> queue_inv (tm_queue m) \<and> tasks_ok cap (dict_get (tm_pending_keys m)) (q_view (tm_queue m))"

text \<open>The lease is still the current one of its task.\<close>

definition live_lease :: "task_manager \<Rightarrow> managed_lease \<Rightarrow> bool" where
  "live_lease m l \<longleftrightarrow> q_view (tm_queue m) (ml_offset l) = Some (envelope_to_dict (ml_envelope l), Some (ml_token l))"

lemma clear_pending_simps [simp]:
  "tm_queue (clear_pending m e) = tm_queue m" "tm_idem (clear_pending m e) = tm_idem m" "tm_dlq (clear_pending m e) = tm_dlq m"
  "tm_policy (clear_pending m e) = tm_policy m" "tm_default_ttl (clear_pending m e) = tm_default_ttl m"
  by (simp_all add: clear_pending_def split: option.split)

lemma clear_pending_keys:
  "idempotency_key e \<noteq> Some k \<Longrightarrow> dict_get (tm_pending_keys (clear_pending m e)) k = dict_get (tm_pending_keys m) k"
  by (auto simp: clear_pending_def dict_simps composite_key_idem split: option.split)

lemma lease_done_simps [simp]:
  "tm_queue (lease_done m l) = tm_queue m" "tm_idem (lease_done m l) = tm_idem m" "tm_dlq (lease_done m l) = tm_dlq m"
  "tm_policy (lease_done m l) = tm_policy m" "tm_pending_keys (lease_done m l) = tm_pending_keys m"
  "tm_default_ttl (lease_done m l) = tm_default_ttl m"
  by (simp_all add: lease_done_def)

lemma mgr_ack_simps [simp]:
  "tm_queue (mgr_ack m l clear) = q_ack (tm_queue m) (ml_offset l) (ml_token l)" "tm_idem (mgr_ack m l clear) = tm_idem m"
  "tm_dlq (mgr_ack m l clear) = tm_dlq m" "tm_policy (mgr_ack m l clear) = tm_policy m"
  "tm_default_ttl (mgr_ack m l clear) = tm_default_ttl m"
  by (simp_all add: mgr_ack_def Let_def)

lemma mgr_ack_keys:
  "idempotency_key (ml_envelope l) \<noteq> Some k \<Longrightarrow> dict_get (tm_pending_keys (mgr_ack m l clear)) k = dict_get (tm_pending_keys m) k"
  by (simp add: mgr_ack_def Let_def clear_pending_keys)

lemma mgr_ack_view:
  "mgr_ok cap m \<Longrightarrow> live_lease m l \<Longrightarrow> q_view (tm_queue (mgr_ack m l clear)) = (q_view (tm_queue m))(ml_offset l := None)"
  by (simp add: mgr_ok_def live_lease_def mem.ack_gone)

lemma mgr_ok_ack:
  assumes "mgr_ok cap m" and "live_lease m l"
  shows "mgr_ok cap (mgr_ack m l clear)"
  unfolding mgr_ok_def mgr_ack_view[OF assms]
proof
  show "queue_inv (tm_queue (mgr_ack m l clear))" using assms(1) mem.ack_invar by (simp add: mgr_ok_def)
  show "tasks_ok cap (dict_get (tm_pending_keys (mgr_ack m l clear))) ((q_view (tm_queue m))(ml_offset l := None))"
    using assms mgr_ack_keys by (intro tasks_ok_remove[of cap "dict_get (tm_pending_keys m)"]) (auto simp: mgr_ok_def live_lease_def)
qed

lemma mgr_ok_same:
  assumes "mgr_ok cap m" and "queue_inv (tm_queue m')" and "tm_pending_keys m' = tm_pending_keys m"
    and "\<And>off. map_option fst (q_view (tm_queue m') off) = map_option fst (q_view (tm_queue m) off)"
  shows "mgr_ok cap m'"
  using assms tasks_ok_same[of cap "dict_get (tm_pending_keys m)" "q_view (tm_queue m)" "q_view (tm_queue m')"]
  by (simp add: mgr_ok_def)

lemma mgr_ok_nack:
  assumes "mgr_ok cap m" and "live_lease m l"
  shows "mgr_ok cap (mgr_nack m l requeue ck)"
proof (cases requeue)
  case True
  have view: "q_view (q_nack (tm_queue m) (ml_offset l) (ml_token l) True (ck_mon ck)) =
      (q_view (tm_queue m))(ml_offset l \<mapsto> (envelope_to_dict (ml_envelope l), None))"
    using assms by (simp add: mgr_ok_def live_lease_def mem.nack_view)
  show ?thesis using True assms mem.nack_invar
    by (intro mgr_ok_same[OF assms(1)]) (auto simp: mgr_nack_def mgr_ok_def live_lease_def view Let_def)
next
  case False
  have view: "q_view (q_nack (tm_queue m) (ml_offset l) (ml_token l) False (ck_mon ck)) = (q_view (tm_queue m))(ml_offset l := None)"
    using assms by (simp add: mgr_ok_def live_lease_def mem.nack_view)
  have "tasks_ok cap (dict_get (tm_pending_keys (mgr_nack m l False ck))) ((q_view (tm_queue m))(ml_offset l := None))"
    using assms by (intro tasks_ok_remove[of cap "dict_get (tm_pending_keys m)"])
      (auto simp: mgr_ok_def live_lease_def mgr_nack_def Let_def clear_pending_keys)
  then show ?thesis using False assms mem.nack_invar view by (simp add: mgr_ok_def mgr_nack_def Let_def)
qed

text \<open>Putting an envelope into the queue.\<close>

lemma store_envelope_view:
  assumes "queue_inv (tm_queue m)"
  shows "\<exists>off. q_view (tm_queue (store_envelope m e ck)) = (q_view (tm_queue m))(off \<mapsto> (envelope_to_dict e, None)) \<and>
    q_view (tm_queue m) off = None \<and> queue_inv (tm_queue (store_envelope m e ck))"
proof -
  obtain off q where q: "q_put (tm_queue m) (envelope_to_dict e) (ck_wall ck) (ck_mon ck) = (off, q)" by (metis surj_pair)
  then have "tm_queue (store_envelope m e ck) = q" by (simp add: store_envelope_def Let_def)
  then show ?thesis using mem.put_view[OF assms q] mem.put_invar[OF assms, of "envelope_to_dict e" "ck_wall ck" "ck_mon ck"] q by auto
qed

lemma store_envelope_simps [simp]:
  "tm_policy (store_envelope m e ck) = tm_policy m" "tm_dlq (store_envelope m e ck) = tm_dlq m" "tm_idem (store_envelope m e ck) = tm_idem m"
  by (simp_all add: store_envelope_def case_prod_unfold Let_def)

lemma store_envelope_keys:
  "idempotency_key e \<noteq> Some k \<or> dict_get (tm_pending_keys m) k = Some (te_task_id e) \<Longrightarrow>
     dict_get (tm_pending_keys (store_envelope m e ck)) k = dict_get (tm_pending_keys m) k"
  by (auto simp: store_envelope_def case_prod_unfold Let_def dict_simps composite_key_idem dict_get_or_def split: option.split)

lemma mgr_ok_store:
  assumes "queue_inv (tm_queue m)" and "tasks_ok cap ks (q_view (tm_queue m))" and "task_ok cap (dict_get (tm_pending_keys m)) e"
    and "\<And>k off'. idempotency_key e = Some k \<Longrightarrow> \<not> holds_key (q_view (tm_queue m)) off' k"
    and "\<And>k. idempotency_key e \<noteq> Some k \<Longrightarrow> dict_get (tm_pending_keys m) k = ks k"
  shows "mgr_ok cap (store_envelope m e ck)"
proof -
  obtain off where v: "q_view (tm_queue (store_envelope m e ck)) = (q_view (tm_queue m))(off \<mapsto> (envelope_to_dict e, None))"
    "queue_inv (tm_queue (store_envelope m e ck))" using store_envelope_view[OF assms(1)] by blast
  have keys: "dict_get (tm_pending_keys (store_envelope m e ck)) = dict_get (tm_pending_keys m)"
    using assms(3) by (intro ext store_envelope_keys) (auto simp: task_ok_def)
  then show ?thesis using v assms tasks_ok_add[OF assms(2), of "dict_get (tm_pending_keys m)" e off None]
    by (simp add: mgr_ok_def task_ok_def)
qed

lemma live_task_ok:
  assumes "mgr_ok cap m" and "live_lease m l"
  shows "task_ok cap (dict_get (tm_pending_keys m)) (ml_envelope l)"
proof (rule tasks_okD)
  show "tasks_ok cap (dict_get (tm_pending_keys m)) (q_view (tm_queue m))" using assms(1) by (simp add: mgr_ok_def)
  show "q_view (tm_queue m) (ml_offset l) = Some (envelope_to_dict (ml_envelope l), Some (ml_token l))"
    using assms(2) by (simp add: live_lease_def)
qed simp

lemma dict_set_same: "dict_get d k = Some v \<Longrightarrow> dict_get (dict_set k v d) = dict_get d"
  by (auto simp: dict_simps)

lemma mgr_ok_retry:
  assumes "mgr_ok cap m" and "live_lease m l" and "te_attempt (ml_envelope l) + 1 < cap (te_flow_id (ml_envelope l))"
  shows "mgr_ok cap (snd (record_retry m l delay ck))"
proof -
  define e e' where e: "e = ml_envelope l" and e': "e' = with_retry e (te_attempt e + 1) (ck_now ck + max delay 0)"
  have ok: "task_ok cap (dict_get (tm_pending_keys m)) e" using live_task_ok[OF assms(1,2)] by (simp add: e)
  have keys: "tm_pending_keys (mgr_ack m l False) = tm_pending_keys m" by (simp add: mgr_ack_def Let_def)
  have ok': "task_ok cap (dict_get (tm_pending_keys (mgr_ack m l False))) e'"
    using ok assms(3) by (simp add: task_ok_def e' e keys)
  have key': "idempotency_key e' = idempotency_key e" by (simp add: e')
  have free: "\<not> holds_key (q_view (tm_queue (mgr_ack m l False))) off' k" if "idempotency_key e' = Some k" for k off'
  proof -
    have "holds_key (q_view (tm_queue m)) (ml_offset l) k" using assms(2) that by (auto simp: holds_key_def live_lease_def e e')
    then show ?thesis using assms(1) unfolding mgr_ack_view[OF assms(1,2)] holds_key_remove mgr_ok_def tasks_ok_def by blast
  qed
  have "mgr_ok cap (store_envelope (mgr_ack m l False) e' ck)"
    using mgr_ok_ack[OF assms(1,2), of False] ok' free by (intro mgr_ok_store[of _ cap "dict_get (tm_pending_keys m)"]) (auto simp: mgr_ok_def keys)
  moreover have "dict_get (tm_pending_keys (store_envelope (mgr_ack m l False) e' ck)) k = Some (te_task_id e')"
    if "idempotency_key e' = Some k" for k
    using ok' that store_envelope_keys[of e' k "mgr_ack m l False" ck] by (simp add: task_ok_def)
  ultimately show ?thesis
    by (cases "idempotency_key e")
      (simp_all add: record_retry_def Let_def e[symmetric] e'[symmetric] mgr_ok_def dict_set_same composite_key_idem key')
qed

lemma record_dead_letter_simps [simp]:
  "tm_queue (record_dead_letter m l err reason ck) = q_ack (tm_queue m) (ml_offset l) (ml_token l)"
  "tm_policy (record_dead_letter m l err reason ck) = tm_policy m"
  "tm_pending_keys (record_dead_letter m l err reason ck) = tm_pending_keys (mgr_ack m l True)"
  by (simp_all add: record_dead_letter_def Let_def split: option.split)

lemma mgr_ok_dead_letter: "mgr_ok cap m \<Longrightarrow> live_lease m l \<Longrightarrow> mgr_ok cap (record_dead_letter m l err reason ck)"
  using mgr_ok_ack[of cap m l True] by (simp add: mgr_ok_def)

text \<open>The attempts a flow's tasks get: one when there is no retry policy.\<close>

definition attempt_limit :: "retry_policy option \<Rightarrow> string \<Rightarrow> int" where
  "attempt_limit policy flow = (case policy of None \<Rightarrow> 1 | Some p \<Rightarrow> max 1 (rs_max_attempts (settings_for p flow)))"

lemma mgr_ok_failure:
  assumes "mgr_ok (attempt_limit (tm_policy m)) m" and "live_lease m l"
  shows "mgr_ok (attempt_limit (tm_policy m)) (snd (handle_failure m l err ck))"
proof (cases "tm_policy m")
  case None
  then show ?thesis using mgr_ok_dead_letter[OF assms] by (simp add: handle_failure_def)
next
  case (Some p)
  let ?d = "decide p (te_flow_id (ml_envelope l)) (te_attempt (ml_envelope l) + 1) (Some err) (ck_rnd ck)"
  show ?thesis
  proof (cases "rd_action ?d = ''retry''")
    case True
    then have "te_attempt (ml_envelope l) + 1 < attempt_limit (tm_policy m) (te_flow_id (ml_envelope l))"
      using Some decide_retry_iff by (simp add: attempt_limit_def)
    then show ?thesis using True Some mgr_ok_retry[OF assms] by (simp add: handle_failure_def Let_def)
  next
    case False
    then show ?thesis using Some mgr_ok_dead_letter[OF assms] by (simp add: handle_failure_def Let_def)
  qed
qed

lemma mgr_ok_idem [simp]: "mgr_ok cap (m\<lparr>tm_idem := st\<rparr>) = mgr_ok cap m" "live_lease (m\<lparr>tm_idem := st\<rparr>) l = live_lease m l"
  by (simp_all add: mgr_ok_def live_lease_def)

lemma envelope_new_attempt [simp]: "te_attempt (envelope_new fresh now flow inp headers trace tid sched) = 0"
  by (simp add: envelope_new_def)

lemma mgr_ok_enqueue:
  assumes "mgr_ok cap m" and "fresh \<noteq> []" "flow \<noteq> []" and "0 < cap flow"
  shows "mgr_ok cap (snd (enqueue m fresh flow inp headers trace ck))"
proof -
  define e where "e = envelope_new fresh (ck_now ck) flow inp headers trace None None"
  have e: "envelope_ok e" "te_attempt e = 0" "te_flow_id e = flow" using assms(2,3) by (simp_all add: e_def envelope_new_ok) (simp add: envelope_new_def)
  show ?thesis
  proof (cases "idempotency_key e")
    case None
    then have "task_ok cap (dict_get (tm_pending_keys m)) e" using e assms(4) by (simp add: task_ok_def)
    then have "mgr_ok cap (store_envelope m e ck)" using assms(1) None by (intro mgr_ok_store) (auto simp: mgr_ok_def)
    then show ?thesis using None by (simp add: enqueue_def e_def[symmetric] Let_def)
  next
    case (Some k)
    obtain r st where g: "idem_get (tm_idem m) k (ck_idem ck) = (r, st)" by (metis surj_pair)
    define m1 where "m1 = m\<lparr>tm_idem := st, tm_pending_keys := dict_set k (te_task_id e) (tm_pending_keys m)\<rparr>"
    have "mgr_ok cap (store_envelope m1 e ck)" if none: "dict_get (tm_pending_keys m) k = None"
    proof (rule mgr_ok_store)
      show "queue_inv (tm_queue m1)" "tasks_ok cap (dict_get (tm_pending_keys m)) (q_view (tm_queue m1))"
        using assms(1) by (simp_all add: m1_def mgr_ok_def)
      show "task_ok cap (dict_get (tm_pending_keys m1)) e" using e Some assms(4) by (simp add: task_ok_def m1_def dict_simps)
      show "\<not> holds_key (q_view (tm_queue m1)) off' k'" if "idempotency_key e = Some k'" for k' off'
        using that Some none assms(1) holds_key_pending[of cap "dict_get (tm_pending_keys m)" "q_view (tm_queue m)" off' k]
        by (auto simp: m1_def mgr_ok_def)
      show "dict_get (tm_pending_keys m1) k' = dict_get (tm_pending_keys m) k'" if "idempotency_key e \<noteq> Some k'" for k'
        using that Some by (simp add: m1_def dict_simps)
    qed
    then show ?thesis using Some g assms(1)
      by (auto simp: enqueue_def e_def[symmetric] Let_def composite_key_idem m1_def split: option.split)
  qed
qed

lemma mgr_lease_simps [simp]:
  "tm_queue (snd (mgr_lease rep m n ms ck)) = snd (q_lease (tm_queue m) n ms (ck_mon ck))"
  "tm_pending_keys (snd (mgr_lease rep m n ms ck)) = tm_pending_keys m" "tm_policy (snd (mgr_lease rep m n ms ck)) = tm_policy m"
  "tm_idem (snd (mgr_lease rep m n ms ck)) = tm_idem m" "tm_default_ttl (snd (mgr_lease rep m n ms ck)) = tm_default_ttl m"
  by (simp_all add: mgr_lease_def case_prod_unfold Let_def split: sum.split)

lemma mgr_ok_lease: "mgr_ok cap m \<Longrightarrow> mgr_ok cap (snd (mgr_lease rep m n ms ck))"
  by (rule mgr_ok_same) (auto simp: mgr_ok_def mem.lease_invar mem.lease_view[OF _ prod.collapse[symmetric]])

text \<open>What holds of every queued task and every lease, whoever reports and however late.\<close>

definition sane :: "(string \<Rightarrow> int) \<Rightarrow> task_envelope \<Rightarrow> bool" where
  "sane cap e \<longleftrightarrow> envelope_ok e \<and> 0 \<le> te_attempt e \<and> te_attempt e < cap (te_flow_id e)"

definition queue_sane :: "(string \<Rightarrow> int) \<Rightarrow> task_manager \<Rightarrow> bool" where
  "queue_sane cap m \<longleftrightarrow> queue_inv (tm_queue m) \<and>
     (\<forall>off t tok. q_view (tm_queue m) off = Some (t, tok) \<longrightarrow> (\<exists>e. t = envelope_to_dict e \<and> sane cap e))"

lemma queue_saneD:
  assumes "queue_sane cap m" and "q_view (tm_queue m) off = Some (t, tok)"
  obtains e where "t = envelope_to_dict e" "sane cap e"
  using assms unfolding queue_sane_def by blast

lemma mgr_ok_sane: "mgr_ok cap m \<Longrightarrow> queue_sane cap m"
  unfolding mgr_ok_def queue_sane_def tasks_ok_def task_ok_def sane_def by blast

lemma queue_sane_sub:
  assumes "queue_sane cap m" and "queue_inv (tm_queue m')"
    and "\<And>off t tok. q_view (tm_queue m') off = Some (t, tok) \<Longrightarrow> \<exists>off tok. q_view (tm_queue m) off = Some (t, tok)"
  shows "queue_sane cap m'"
  using assms unfolding queue_sane_def by blast

lemma queue_sane_lease: "queue_sane cap m \<Longrightarrow> queue_sane cap (snd (mgr_lease rep m n ms ck))"
proof (rule queue_sane_sub)
  assume m: "queue_sane cap m"
  then show "queue_inv (tm_queue (snd (mgr_lease rep m n ms ck)))" by (simp add: queue_sane_def mem.lease_invar)
  fix off t tok assume "q_view (tm_queue (snd (mgr_lease rep m n ms ck))) off = Some (t, tok)"
  then have "map_option fst (q_view (tm_queue m) off) = Some t"
    using m mem.lease_view[OF _ prod.collapse[symmetric], of "tm_queue m" n ms "ck_mon ck" off] by (simp add: queue_sane_def)
  then show "\<exists>off tok. q_view (tm_queue m) off = Some (t, tok)" by auto
qed

lemma mgr_lease_returns:
  assumes "queue_sane cap m"
  shows "\<exists>ls. fst (mgr_lease rep m n ms ck) = Inr ls \<and> (\<forall>l\<in>set ls. sane cap (ml_envelope l))"
proof -
  obtain ls q where q: "q_lease (tm_queue m) n ms (ck_mon ck) = (ls, q)" by (metis surj_pair)
  have inv: "queue_inv (tm_queue m)" using assms by (simp add: queue_sane_def)
  have after: "queue_sane cap (snd (mgr_lease rep m n ms ck))" by (rule queue_sane_lease[OF assms])
  have "\<exists>x. manage rep (ck_now ck) l = Inr x \<and> sane cap (ml_envelope x)" if l: "l \<in> set ls" for l
  proof -
    obtain tok where "q_view (tm_queue (snd (mgr_lease rep m n ms ck))) (lt_offset l) = Some (lt_task l, Some tok)"
      using mem.lease_tasks[OF inv q l] q by auto
    then obtain e where "lt_task l = envelope_to_dict e" "sane cap e" by (rule queue_saneD[OF after])
    then show ?thesis by (simp add: manage_def envelope_dict_roundtrip sane_def)
  qed
  then obtain g where g: "\<And>l. l \<in> set ls \<Longrightarrow> manage rep (ck_now ck) l = Inr (g l) \<and> sane cap (ml_envelope (g l))" by metis
  then have "map_result (manage rep (ck_now ck)) ls = Inr (map g ls)" by (intro map_result_total) blast
  then show ?thesis using g by (auto simp: mgr_lease_def q Let_def)
qed

lemma queue_sane_store:
  assumes "queue_sane cap m" and "sane cap e"
  shows "queue_sane cap (store_envelope m e ck)"
proof -
  obtain off where "q_view (tm_queue (store_envelope m e ck)) = (q_view (tm_queue m))(off \<mapsto> (envelope_to_dict e, None))"
    "queue_inv (tm_queue (store_envelope m e ck))" using store_envelope_view[of m e ck] assms(1) by (auto simp: queue_sane_def)
  then show ?thesis using assms unfolding queue_sane_def by (auto split: if_splits)
qed

lemma queue_sane_ack: "queue_sane cap m \<Longrightarrow> queue_sane cap (mgr_ack m l clear)"
  by (rule queue_sane_sub) (auto simp: queue_sane_def mem.ack_invar mem.ack_view split: if_splits)

lemma queue_sane_nack:
  assumes "queue_sane cap m"
  shows "queue_sane cap (mgr_nack m l requeue ck)"
proof (rule queue_sane_sub[OF assms])
  have inv: "queue_inv (tm_queue m)" using assms by (simp add: queue_sane_def)
  have q: "tm_queue (mgr_nack m l requeue ck) = q_nack (tm_queue m) (ml_offset l) (ml_token l) requeue (ck_mon ck)"
    by (simp add: mgr_nack_def Let_def)
  show "queue_inv (tm_queue (mgr_nack m l requeue ck))" unfolding q by (rule mem.nack_invar[OF inv])
  fix off t tok assume "q_view (tm_queue (mgr_nack m l requeue ck)) off = Some (t, tok)"
  then show "\<exists>off tok. q_view (tm_queue m) off = Some (t, tok)"
    unfolding q mem.nack_view[OF inv] by (auto split: if_splits option.splits, blast+)
qed

lemma queue_sane_queue: "tm_queue m' = tm_queue m \<Longrightarrow> queue_sane cap m' = queue_sane cap m"
  by (simp add: queue_sane_def)

lemma queue_sane_failure:
  assumes "queue_sane (attempt_limit (tm_policy m)) m" and "sane (attempt_limit (tm_policy m)) (ml_envelope l)"
  shows "queue_sane (attempt_limit (tm_policy m)) (snd (handle_failure m l err ck))"
proof -
  let ?c = "attempt_limit (tm_policy m)" and ?e = "ml_envelope l"
  have dead: "queue_sane ?c (record_dead_letter m l err reason ck)" for reason
    using queue_sane_ack[OF assms(1), of l True] by (simp add: queue_sane_def)
  have retried: "queue_sane ?c (snd (record_retry m l delay ck))" if "te_attempt ?e + 1 < ?c (te_flow_id ?e)" for delay
  proof -
    have "sane ?c (with_retry ?e (te_attempt ?e + 1) (ck_now ck + max delay 0))" using assms(2) that by (simp add: sane_def)
    from queue_sane_store[OF queue_sane_ack[OF assms(1), of l False] this] show ?thesis
      by (simp add: record_retry_def Let_def queue_sane_def split: option.split)
  qed
  show ?thesis
  proof (cases "tm_policy m")
    case (Some p)
    then show ?thesis using dead retried decide_retry_iff by (auto simp: handle_failure_def Let_def attempt_limit_def)
  qed (use dead in \<open>simp add: handle_failure_def\<close>)
qed

lemma queue_sane_enqueue:
  assumes "queue_sane cap m" and "fresh \<noteq> []" "flow \<noteq> []" and "0 < cap flow"
  shows "queue_sane cap (snd (enqueue m fresh flow inp headers trace ck))"
proof -
  define e where "e = envelope_new fresh (ck_now ck) flow inp headers trace None None"
  have "te_flow_id e = flow" by (simp add: e_def envelope_new_def)
  then have "sane cap e" using assms(2-4) by (simp add: sane_def e_def envelope_new_ok)
  then have put: "queue_sane cap (store_envelope m' e ck)" if "tm_queue m' = tm_queue m" for m'
    using queue_sane_store[of cap m' e ck] queue_sane_queue[OF that] assms(1) by blast
  have same: "queue_sane cap m'" if "tm_queue m' = tm_queue m" for m' using queue_sane_queue[OF that] assms(1) by blast
  show ?thesis unfolding enqueue_def e_def[symmetric] Let_def
    by (simp add: put same split: option.split prod.split)
qed

lemma get_cached_snd: "\<exists>st. snd (get_cached_result m e ck) = m\<lparr>tm_idem := st\<rparr>"
  by (auto simp: get_cached_result_def case_prod_unfold Let_def)

lemma mgr_ok_process:
  assumes "mgr_ok (attempt_limit (tm_policy m)) m" and "live_lease m l"
  shows "mgr_ok (attempt_limit (tm_policy m)) (process_lease rep m l outcome ck)"
proof -
  obtain r st where g: "get_cached_result m (ml_envelope l) ck = (r, m\<lparr>tm_idem := st\<rparr>)"
    using get_cached_snd[of m "ml_envelope l" ck] by (metis prod.collapse)
  let ?m = "m\<lparr>tm_idem := st\<rparr>" and ?c = "attempt_limit (tm_policy m)"
  have m: "mgr_ok (attempt_limit (tm_policy ?m)) ?m" "live_lease ?m l" using assms by simp_all
  have acked: "mgr_ok ?c (mgr_ack ?m l True)" using mgr_ok_ack[OF m] by simp
  have "mgr_ok ?c (record_result (mgr_ack ?m l True) (ml_envelope l) x None ck)" for x
  proof -
    let ?r = "record_result (mgr_ack ?m l True) (ml_envelope l) x None ck"
    have queue: "tm_queue ?r = tm_queue (mgr_ack ?m l True)" by (simp add: record_result_def Let_def)
    have keys: "dict_get (tm_pending_keys ?r) k = dict_get (tm_pending_keys ?m) k" if "idempotency_key (ml_envelope l) \<noteq> Some k" for k
      using that mgr_ack_keys[OF that, of ?m True] by (simp add: record_result_def Let_def clear_pending_keys)
    have "tasks_ok ?c (dict_get (tm_pending_keys ?r)) (q_view (tm_queue (mgr_ack ?m l True)))"
      unfolding mgr_ack_view[OF m]
      by (rule tasks_ok_remove[of ?c "dict_get (tm_pending_keys ?m)"])
        (use m(1) keys live_lease_def[THEN iffD1, OF m(2)] in \<open>simp_all add: mgr_ok_def\<close>)
    then show ?thesis using acked by (simp add: mgr_ok_def queue)
  qed
  then show ?thesis using g mgr_ok_failure[OF m] acked by (simp add: process_lease_def split: option.split)
qed

section \<open>Calls and reachable states\<close>

text \<open>The calls of producers and workers.\<close>

datatype mgr_call =
    Enqueue_call string string task "task option" "task option" readings
  | Lease_call int int readings
  | Ack_call managed_lease bool
  | Nack_call managed_lease bool readings
  | Cached_call managed_lease readings
  | Result_call managed_lease idem_result "real option" readings
  | Failure_call managed_lease "(string, val) dict" readings

definition mgr_exec :: "(val \<Rightarrow> string) \<Rightarrow> task_manager \<Rightarrow> mgr_call \<Rightarrow> task_manager" where
  "mgr_exec rep m c = (case c of
       Enqueue_call fresh flow inp headers trace ck \<Rightarrow> snd (enqueue m fresh flow inp headers trace ck)
     | Lease_call n ms ck \<Rightarrow> snd (mgr_lease rep m n ms ck)
     | Ack_call l clear \<Rightarrow> mgr_ack m l clear
     | Nack_call l requeue ck \<Rightarrow> mgr_nack m l requeue ck
     | Cached_call l ck \<Rightarrow> snd (get_cached_result m (ml_envelope l) ck)
     | Result_call l r ttl ck \<Rightarrow> record_result m (ml_envelope l) r ttl ck
     | Failure_call l err ck \<Rightarrow> snd (handle_failure m l err ck))"

definition mgr_run :: "(val \<Rightarrow> string) \<Rightarrow> task_manager \<Rightarrow> mgr_call list \<Rightarrow> task_manager" where
  "mgr_run rep = foldl (mgr_exec rep)"

definition call_lease :: "mgr_call \<Rightarrow> managed_lease option" where
  "call_lease c = (case c of
       Enqueue_call _ _ _ _ _ _ \<Rightarrow> None | Lease_call _ _ _ \<Rightarrow> None | Ack_call l _ \<Rightarrow> Some l | Nack_call l _ _ \<Rightarrow> Some l
     | Cached_call l _ \<Rightarrow> Some l | Result_call l _ _ _ \<Rightarrow> Some l | Failure_call l _ _ \<Rightarrow> Some l)"

text \<open>Task ids and flow ids are not empty.\<close>

definition named_call :: "mgr_call \<Rightarrow> bool" where
  "named_call c = (case c of Enqueue_call fresh flow _ _ _ _ \<Rightarrow> fresh \<noteq> [] \<and> flow \<noteq> [] | _ \<Rightarrow> True)"

definition handed_out :: "(val \<Rightarrow> string) \<Rightarrow> task_manager \<Rightarrow> mgr_call \<Rightarrow> managed_lease set" where
  "handed_out rep m c = (case c of
       Lease_call n ms ck \<Rightarrow> (case fst (mgr_lease rep m n ms ck) of Inr ls \<Rightarrow> set ls | Inl _ \<Rightarrow> {})
     | _ \<Rightarrow> {})"

text \<open>
  All interleavings of calls: a worker may use any lease it was ever handed, also one that has run out
  or that it used before.
\<close>

inductive manager_step :: "(val \<Rightarrow> string) \<Rightarrow> task_manager \<times> managed_lease set \<Rightarrow> task_manager \<times> managed_lease set \<Rightarrow> bool" for rep where
  any_call: "named_call c \<Longrightarrow> set_option (call_lease c) \<subseteq> L \<Longrightarrow> manager_step rep (m, L) (mgr_exec rep m c, L \<union> handed_out rep m c)"

text \<open>
  Timely workers finish or reject only leases that are still current, and report a result when the
  task has left the queue.
\<close>

definition queued_id :: "task_manager \<Rightarrow> string \<Rightarrow> bool" where
  "queued_id m tid \<longleftrightarrow> (\<exists>off e tok. q_view (tm_queue m) off = Some (envelope_to_dict e, tok) \<and> te_task_id e = tid)"

definition timely :: "task_manager \<Rightarrow> mgr_call \<Rightarrow> bool" where
  "timely m c = (case c of
       Ack_call l _ \<Rightarrow> live_lease m l | Nack_call l _ _ \<Rightarrow> live_lease m l | Failure_call l _ _ \<Rightarrow> live_lease m l
     | Result_call l _ _ _ \<Rightarrow> \<not> queued_id m (te_task_id (ml_envelope l)) | _ \<Rightarrow> True)"

inductive mgr_step :: "(val \<Rightarrow> string) \<Rightarrow> task_manager \<Rightarrow> task_manager \<Rightarrow> bool" for rep where
  call_step: "named_call c \<Longrightarrow> timely m c \<Longrightarrow> mgr_step rep m (mgr_exec rep m c)"
| process_step: "live_lease m l \<Longrightarrow> mgr_step rep m (process_lease rep m l outcome ck)"

lemma enqueue_step: "fresh \<noteq> [] \<Longrightarrow> flow \<noteq> [] \<Longrightarrow> mgr_step rep m (snd (enqueue m fresh flow inp headers trace ck))"
  using call_step[of "Enqueue_call fresh flow inp headers trace ck" m rep] by (simp add: named_call_def timely_def mgr_exec_def)

lemma lease_step: "mgr_step rep m (snd (mgr_lease rep m n ms ck))"
  using call_step[of "Lease_call n ms ck" m rep] by (simp add: named_call_def timely_def mgr_exec_def)

text \<open>What no call changes, and the invariant of the cache.\<close>

definition mgr_env :: "retry_policy option \<Rightarrow> real \<Rightarrow> task_manager \<Rightarrow> bool" where
  "mgr_env policy ttl m \<longleftrightarrow> tm_policy m = policy \<and> tm_default_ttl m = ttl \<and> idem_inv (tm_idem m)"

lemma idem_inv_get: "idem_inv st \<Longrightarrow> idem_inv (snd (idem_get st k now))"
  using idem_inv_exec[of st "Get k now"] by (simp add: idem_exec_def)

lemma idem_inv_remember: "idem_inv st \<Longrightarrow> idem_inv (idem_remember st k r ttl t1 t2 t3)"
  using idem_inv_exec[of st "Remember k r ttl t1 t2 t3"] by (simp add: idem_exec_def)

lemma mgr_env_store [simp]: "mgr_env policy ttl (store_envelope m e ck) = mgr_env policy ttl m"
  by (simp add: mgr_env_def store_envelope_def case_prod_unfold Let_def)

lemma mgr_env_ack [simp]: "mgr_env policy ttl (mgr_ack m l clear) = mgr_env policy ttl m"
  by (simp add: mgr_env_def)

lemma mgr_env_keys [simp]: "mgr_env policy ttl (m\<lparr>tm_pending_keys := ks\<rparr>) = mgr_env policy ttl m"
  "mgr_env policy ttl (m\<lparr>tm_dlq := d\<rparr>) = mgr_env policy ttl m"
  by (simp_all add: mgr_env_def)

lemma mgr_env_failure: "mgr_env policy ttl m \<Longrightarrow> mgr_env policy ttl (snd (handle_failure m l err ck))"
  by (simp add: handle_failure_def record_retry_def record_dead_letter_def Let_def split: option.split)

lemma mgr_env_pending [simp]: "mgr_env policy ttl (clear_pending m e) = mgr_env policy ttl m"
  by (simp add: mgr_env_def)

lemma mgr_env_exec:
  assumes m: "mgr_env policy ttl m"
  shows "mgr_env policy ttl (mgr_exec rep m c)"
proof (cases c)
  case (Enqueue_call fresh flow inp headers trace ck)
  define e where "e = envelope_new fresh (ck_now ck) flow inp headers trace None None"
  have "mgr_env policy ttl (m\<lparr>tm_idem := snd (idem_get (tm_idem m) (composite_key e) (ck_idem ck))\<rparr>)"
    using m idem_inv_get by (simp add: mgr_env_def)
  then show ?thesis using m
    by (auto simp: Enqueue_call mgr_exec_def enqueue_def e_def[symmetric] Let_def split: option.split prod.split)
next
  case (Cached_call l ck)
  then show ?thesis using m idem_inv_get by (simp add: mgr_exec_def get_cached_result_def case_prod_unfold Let_def mgr_env_def)
next
  case (Result_call l r t ck)
  then show ?thesis using m idem_inv_remember by (simp add: mgr_exec_def record_result_def Let_def mgr_env_def)
next
  case (Failure_call l err ck)
  then show ?thesis using m mgr_env_failure by (simp add: mgr_exec_def)
qed (use m in \<open>simp_all add: mgr_exec_def mgr_env_def mgr_nack_def Let_def\<close>)

lemma mgr_env_step: "mgr_step rep m m' \<Longrightarrow> mgr_env policy ttl m \<Longrightarrow> mgr_env policy ttl m'"
proof (induction rule: mgr_step.induct)
  case (process_step m l outcome ck)
  have "mgr_env policy ttl (snd (get_cached_result m (ml_envelope l) ck))"
    using mgr_env_exec[OF process_step.prems, of rep "Cached_call l ck"] by (simp add: mgr_exec_def)
  then show ?case using mgr_env_failure idem_inv_remember
    by (auto simp: process_lease_def record_result_def Let_def mgr_env_def split: option.split prod.split)
qed (rule mgr_env_exec)

text \<open>Reporting the result of a task that has left the queue frees no key of a queued task.\<close>

lemma mgr_ok_result:
  assumes "mgr_ok cap m" and "\<not> queued_id m (te_task_id e)"
  shows "mgr_ok cap (record_result m e r ttl ck)"
proof -
  let ?m = "record_result m e r ttl ck"
  have q: "tm_queue ?m = tm_queue m" by (simp add: record_result_def Let_def)
  have keep: "dict_get (tm_pending_keys ?m) k = Some tid" if "dict_get (tm_pending_keys m) k = Some tid" "tid \<noteq> te_task_id e" for k tid
    using that by (auto simp: record_result_def Let_def clear_pending_def dict_simps split: option.split)
  have "\<exists>e'. t = envelope_to_dict e' \<and> task_ok cap (dict_get (tm_pending_keys ?m)) e'" if v: "q_view (tm_queue m) off = Some (t, tok)" for off t tok
  proof -
    obtain e' where e': "t = envelope_to_dict e'" "task_ok cap (dict_get (tm_pending_keys m)) e'"
      using assms(1) v unfolding mgr_ok_def tasks_ok_def by blast
    then have "te_task_id e' \<noteq> te_task_id e" using assms(2) v unfolding queued_id_def by blast
    then show ?thesis using e' keep by (auto simp: task_ok_def)
  qed
  then show ?thesis using assms(1) unfolding mgr_ok_def tasks_ok_def q by blast
qed

lemma attempt_limit_pos: "0 < attempt_limit policy flow"
  by (simp add: attempt_limit_def less_max_iff_disj split: option.split)

lemma mgr_ok_exec:
  assumes "named_call c" and "timely m c" and ok: "mgr_ok (attempt_limit (tm_policy m)) m"
  shows "mgr_ok (attempt_limit (tm_policy m)) (mgr_exec rep m c)"
proof (cases c)
  case (Enqueue_call fresh flow inp headers trace ck)
  then show ?thesis using assms(1) mgr_ok_enqueue[OF ok] attempt_limit_pos by (simp add: mgr_exec_def named_call_def)
next
  case (Cached_call l ck)
  then show ?thesis using ok get_cached_snd[of m "ml_envelope l" ck] by (auto simp: mgr_exec_def)
next
  case (Result_call l r t ck)
  then show ?thesis using assms(2) mgr_ok_result[OF ok] by (simp add: mgr_exec_def timely_def)
qed (use assms(2) mgr_ok_lease[OF ok] mgr_ok_ack[OF ok] mgr_ok_nack[OF ok] mgr_ok_failure[OF ok] in \<open>simp_all add: mgr_exec_def timely_def\<close>)

lemma mgr_ok_step:
  assumes "mgr_step rep m m'" and "mgr_ok (attempt_limit (tm_policy m)) m"
  shows "mgr_ok (attempt_limit (tm_policy m)) m'"
  using assms by (induction rule: mgr_step.induct) (auto intro: mgr_ok_exec mgr_ok_process)

lemma start_ok: "mgr_ok cap (mk_task_manager empty_queue st dlq policy ttl)"
  using inv_empty by (auto simp: mk_task_manager_def mgr_ok_def tasks_ok_def holds_key_def q_view_def empty_queue_def)

lemma start_env: "idem_inv st \<Longrightarrow> mgr_env policy (max ttl 60) (mk_task_manager empty_queue st dlq policy ttl)"
  by (simp add: mk_task_manager_def mgr_env_def)

lemma mgr_reachable:
  assumes "(mgr_step rep)\<^sup>*\<^sup>* (mk_task_manager empty_queue st dlq policy ttl) m" and "idem_inv st"
  shows "mgr_ok (attempt_limit policy) m \<and> mgr_env policy (max ttl 60) m"
  using assms
proof (induction rule: rtranclp_induct)
  case base
  then show ?case using start_ok start_env by blast
next
  case (step m m')
  then show ?case using mgr_ok_step[of rep m m'] mgr_env_step[of rep m m'] by (auto simp: mgr_env_def)
qed

lemma queue_sane_exec:
  assumes "named_call c" and m: "queue_sane (attempt_limit (tm_policy m)) m"
    and l: "\<And>l. call_lease c = Some l \<Longrightarrow> sane (attempt_limit (tm_policy m)) (ml_envelope l)"
  shows "queue_sane (attempt_limit (tm_policy m)) (mgr_exec rep m c)"
proof (cases c)
  case (Enqueue_call fresh flow inp headers trace ck)
  then show ?thesis using assms(1) queue_sane_enqueue[OF m] attempt_limit_pos by (simp add: mgr_exec_def named_call_def)
next
  case (Cached_call l ck)
  then have "tm_queue (mgr_exec rep m c) = tm_queue m" using get_cached_snd[of m "ml_envelope l" ck] by (auto simp: mgr_exec_def)
  then show ?thesis using queue_sane_queue m by blast
next
  case (Result_call l r t ck)
  then show ?thesis using m by (simp add: mgr_exec_def record_result_def Let_def queue_sane_def)
next
  case (Failure_call lease err ck)
  then show ?thesis using queue_sane_failure[OF m] l by (simp add: mgr_exec_def call_lease_def)
qed (use queue_sane_lease[OF m] queue_sane_ack[OF m] queue_sane_nack[OF m] in \<open>simp_all add: mgr_exec_def\<close>)

lemma manager_reachable:
  assumes "(manager_step rep)\<^sup>*\<^sup>* (mk_task_manager empty_queue st dlq policy ttl, {}) (m, L)" and "idem_inv st"
  shows "queue_sane (attempt_limit policy) m \<and> (\<forall>l\<in>L. sane (attempt_limit policy) (ml_envelope l)) \<and> mgr_env policy (max ttl 60) m"
  using assms
proof (induction "(m, L)" arbitrary: m L rule: rtranclp_induct)
  case base
  then show ?case using mgr_ok_sane[OF start_ok] start_env by blast
next
  case (step y)
  obtain m0 L0 where y: "y = (m0, L0)" by fastforce
  have IH: "queue_sane (attempt_limit policy) m0" "\<forall>l\<in>L0. sane (attempt_limit policy) (ml_envelope l)" "mgr_env policy (max ttl 60) m0"
    using step.hyps(3)[OF y step.prems] by blast+
  then have pol: "tm_policy m0 = policy" by (simp add: mgr_env_def)
  obtain c where c: "named_call c" "set_option (call_lease c) \<subseteq> L0" "m = mgr_exec rep m0 c" "L = L0 \<union> handed_out rep m0 c"
    using step.hyps(2) unfolding y by (auto elim: manager_step.cases)
  have "sane (attempt_limit policy) (ml_envelope l)" if l: "l \<in> handed_out rep m0 c" for l
  proof (cases c)
    case (Lease_call n ms ck)
    then show ?thesis using l mgr_lease_returns[OF IH(1), of rep n ms ck] by (auto simp: handed_out_def)
  qed (use l in \<open>simp_all add: handed_out_def\<close>)
  moreover have "queue_sane (attempt_limit policy) m" using queue_sane_exec[OF c(1), of m0 rep] IH c(2) by (auto simp: pol c(3))
  ultimately show ?case using IH mgr_env_exec[OF IH(3), of rep c] c(3,4) by auto
qed

text \<open>The calls of the cache that a call makes.\<close>

definition cache_calls :: "real \<Rightarrow> mgr_call \<Rightarrow> idem_call list" where
  "cache_calls default_ttl c = (case c of
       Enqueue_call fresh flow inp headers trace ck \<Rightarrow>
         (let e = envelope_new fresh (ck_now ck) flow inp headers trace None None in
          if idempotency_key e = None then [] else [Get (composite_key e) (ck_idem ck)])
     | Cached_call l ck \<Rightarrow> [Get (composite_key (ml_envelope l)) (ck_idem ck)]
     | Result_call l r ttl ck \<Rightarrow> [Remember (composite_key (ml_envelope l)) r (case ttl of Some t \<Rightarrow> t | None \<Rightarrow> default_ttl) (ck_t1 ck) (ck_t2 ck) (ck_t3 ck)]
     | _ \<Rightarrow> [])"

lemma exec_cache: "tm_idem (mgr_exec rep m c) = idem_run (tm_idem m) (cache_calls (tm_default_ttl m) c)"
proof (cases c)
  case (Enqueue_call fresh flow inp headers trace ck)
  then show ?thesis
    by (auto simp: mgr_exec_def enqueue_def cache_calls_def idem_run_def idem_exec_def Let_def split: option.split prod.split)
next
  case (Failure_call l err ck)
  then show ?thesis
    by (simp add: mgr_exec_def handle_failure_def record_retry_def record_dead_letter_def cache_calls_def idem_run_def Let_def split: option.split)
qed (simp_all add: mgr_exec_def mgr_nack_def get_cached_result_def record_result_def cache_calls_def idem_run_def idem_exec_def Let_def case_prod_unfold)

lemma run_cache:
  assumes "mgr_env policy ttl m"
  shows "tm_idem (mgr_run rep m cs) = idem_run (tm_idem m) (concat (map (cache_calls ttl) cs))"
  using assms
proof (induction cs arbitrary: m)
  case (Cons c cs)
  have "tm_default_ttl m = ttl" using Cons.prems by (simp add: mgr_env_def)
  then show ?case using Cons.IH[OF mgr_env_exec[OF Cons.prems, of rep c]] by (simp add: mgr_run_def exec_cache idem_run_def)
qed (simp add: mgr_run_def idem_run_def)

lemma manager_capacity:
  assumes "(manager_step rep)\<^sup>*\<^sup>* (mk_task_manager empty_queue st dlq policy ttl, {}) (m, L)"
  shows "is_capacity (tm_idem m) = is_capacity st"
  using assms
proof (induction "(m, L)" arbitrary: m L rule: rtranclp_induct)
  case base
  then show ?case by (simp add: mk_task_manager_def)
next
  case (step y)
  obtain m0 L0 c where "y = (m0, L0)" "m = mgr_exec rep m0 c" using step.hyps(2) by (cases y) (auto elim: manager_step.cases)
  then show ?case using step.hyps(3)[of m0 L0] by (simp add: exec_cache)
qed

section \<open>Properties\<close>


definition tick :: "real \<Rightarrow> readings" where
  "tick t = \<lparr>ck_idem = t, ck_t1 = t, ck_t2 = t, ck_t3 = t, ck_now = t, ck_wall = t, ck_mon = t, ck_ts = t, ck_pid = 7, ck_rnd = 0\<rparr>"

definition new_manager :: task_manager where
  "new_manager = mk_task_manager empty_queue (fresh_store 8) (Some no_dead_letters)
     (Some \<lparr>rp_default = default_retry, rp_per_flow = []\<rparr>) 3600"

definition keyed :: "task option" where
  "keyed = Some [(''idempotency_key'', VStr ''order-1'')]"

definition after_enqueue :: task_manager where
  "after_enqueue = snd (enqueue new_manager ''t1'' ''flow'' [] keyed None (tick 1))"

lemma after_enqueue_reachable: "(mgr_step rep)\<^sup>*\<^sup>* new_manager after_enqueue"
  unfolding after_enqueue_def by (intro r_into_rtranclp enqueue_step) simp_all



text \<open>
  C27. A failed task is never lost: handling the failure of a current lease either puts the task back
  as its next attempt, delayed as the policy says, and touches nothing else in the queue and no dead
  letter, or takes it out of the queue and, when there is a dead-letter store, files it there with its
  attempt count.
\<close>

theorem failure_conserves_task:
  assumes "mk_idem_store rep c iv now0 doc = Inr st"
    and "(mgr_step rep)\<^sup>*\<^sup>* (mk_task_manager empty_queue st dlq policy ttl) m" and "live_lease m l"
    and "handle_failure m l err ck = (d, m')" and "e = ml_envelope l"
  shows "if \<exists>dec. d = Some dec \<and> rd_action dec = ''retry''
    then (\<exists>off. q_view (tm_queue m') = ((q_view (tm_queue m))(ml_offset l := None))
             (off \<mapsto> (envelope_to_dict (with_retry e (te_attempt e + 1) (ck_now ck + max (rd_delay (the d)) 0)), None)) \<and>
           (off = ml_offset l \<or> q_view (tm_queue m) off = None)) \<and> tm_dlq m' = tm_dlq m
    else q_view (tm_queue m') = (q_view (tm_queue m))(ml_offset l := None) \<and>
      (\<forall>D. tm_dlq m = Some D \<longrightarrow> (\<exists>D' r. tm_dlq m' = Some D' \<and> dlq_load rep D' (dr_entry_id r) = Some r \<and>
          dr_task r = envelope_to_dict e \<and> dr_attempt r = te_attempt e + 1))"
proof -
  have ok: "mgr_ok (attempt_limit policy) m" using mgr_reachable[OF assms(2)] idem_inv_mk[OF assms(1)] by blast
  have retried: "\<exists>off. q_view (tm_queue (snd (record_retry m l delay ck))) = ((q_view (tm_queue m))(ml_offset l := None))
      (off \<mapsto> (envelope_to_dict (with_retry e (te_attempt e + 1) (ck_now ck + max delay 0)), None)) \<and>
      (off = ml_offset l \<or> q_view (tm_queue m) off = None)" for delay
  proof -
    let ?e = "with_retry e (te_attempt e + 1) (ck_now ck + max delay 0)"
    obtain off where off: "q_view (tm_queue (store_envelope (mgr_ack m l False) ?e ck)) =
        (q_view (tm_queue (mgr_ack m l False)))(off \<mapsto> (envelope_to_dict ?e, None))" "q_view (tm_queue (mgr_ack m l False)) off = None"
      using store_envelope_view[of "mgr_ack m l False" ?e ck] mgr_ok_ack[OF ok assms(3), of False] by (auto simp: mgr_ok_def)
    have "tm_queue (snd (record_retry m l delay ck)) = tm_queue (store_envelope (mgr_ack m l False) ?e ck)"
      by (simp add: record_retry_def Let_def assms(5) split: option.split)
    then show ?thesis using off unfolding mgr_ack_view[OF ok assms(3)] by (intro exI[of _ off]) (auto split: if_splits)
  qed
  have kept: "tm_dlq (snd (record_retry m l delay ck)) = tm_dlq m" for delay
    by (simp add: record_retry_def Let_def split: option.split)
  have dead: "q_view (tm_queue (record_dead_letter m l err reason ck)) = (q_view (tm_queue m))(ml_offset l := None)" for reason
    using mgr_ack_view[OF ok assms(3)] by simp
  have filed: "\<exists>D' r. tm_dlq (record_dead_letter m l err reason ck) = Some D' \<and> dlq_load rep D' (dr_entry_id r) = Some r \<and>
      dr_task r = envelope_to_dict e \<and> dr_attempt r = te_attempt e + 1" if "tm_dlq m = Some D" for reason D
  proof -
    obtain r D' where a: "dlq_append D (te_flow_id e) (envelope_to_dict e) (dict_set ''reason'' (VStr reason) err) (te_attempt e + 1) (ck_ts ck) (ck_pid ck) = (r, D')"
      by (metis surj_pair)
    then have "dr_task r = envelope_to_dict e" "dr_attempt r = te_attempt e + 1" by (auto simp: dlq_append_def Let_def)
    then show ?thesis using dlq_load_append[OF a, of rep "dr_entry_id r"] a that by (auto simp: record_dead_letter_def Let_def assms(5))
  qed
  show ?thesis
    using assms(4) retried kept dead filed by (auto simp: handle_failure_def Let_def split: option.splits if_splits)
qed

definition first_task :: task_envelope where
  "first_task = envelope_new ''t1'' 1 ''flow'' [] keyed None None None"

definition first_lease :: managed_lease where
  "first_lease = \<lparr>ml_offset = 0, ml_token = ''lease-1'', ml_deadline = 3, ml_envelope = first_task\<rparr>"

definition while_leased :: task_manager where
  "while_leased = snd (mgr_lease (\<lambda>_. []) after_enqueue 1 1000 (tick 2))"

lemma while_leased_reachable: "(mgr_step (\<lambda>_. []))\<^sup>*\<^sup>* new_manager while_leased"
  unfolding while_leased_def by (rule rtranclp.rtrancl_into_rtrancl[OF after_enqueue_reachable lease_step])

lemma while_leased_any: "(manager_step (\<lambda>_. []))\<^sup>*\<^sup>* (new_manager, {}) (while_leased, {first_lease})"
proof -
  let ?a = "Enqueue_call ''t1'' ''flow'' [] keyed None (tick 1)" and ?b = "Lease_call 1 1000 (tick 2)"
  have "manager_step (\<lambda>_. []) (new_manager, {}) (mgr_exec (\<lambda>_. []) new_manager ?a, {} \<union> handed_out (\<lambda>_. []) new_manager ?a)"
    by (rule any_call) (simp_all add: named_call_def call_lease_def)
  then have one: "manager_step (\<lambda>_. []) (new_manager, {}) (after_enqueue, {})" by (simp add: mgr_exec_def handed_out_def after_enqueue_def)
  have "manager_step (\<lambda>_. []) (after_enqueue, {}) (mgr_exec (\<lambda>_. []) after_enqueue ?b, {} \<union> handed_out (\<lambda>_. []) after_enqueue ?b)"
    by (rule any_call) (simp_all add: named_call_def call_lease_def)
  moreover have "fst (mgr_lease (\<lambda>_. []) after_enqueue 1 1000 (tick 2)) = Inr [first_lease]" by code_simp
  ultimately have "manager_step (\<lambda>_. []) (after_enqueue, {}) (while_leased, {first_lease})"
    by (simp add: mgr_exec_def handed_out_def while_leased_def)
  with one show ?thesis by (meson converse_rtranclp_into_rtranclp r_into_rtranclp)
qed

lemma first_lease_live: "live_lease while_leased first_lease"
  unfolding live_lease_def by code_simp

theorem failure_conserves_task_witness:
  "\<exists>off. q_view (tm_queue (snd (handle_failure while_leased first_lease [] (tick 3)))) off =
     Some (envelope_to_dict (with_retry first_task 1 (16/5)), None)"
proof -
  obtain d m' where f: "handle_failure while_leased first_lease [] (tick 3) = (d, m')" by (metis surj_pair)
  have "fst (handle_failure while_leased first_lease [] (tick 3)) = Some \<lparr>rd_action = ''retry'', rd_delay = 1/5, rd_reason = None\<rparr>"
    by code_simp
  then have "d = Some \<lparr>rd_action = ''retry'', rd_delay = 1/5, rd_reason = None\<rparr>" using f by simp
  moreover have "te_attempt first_task = 0" "ml_envelope first_lease = first_task" "ck_now (tick 3) = 3"
    by (simp_all add: first_task_def first_lease_def tick_def)
  ultimately show ?thesis
    using failure_conserves_task[OF mk_fresh_store[of 8 _ 0] while_leased_reachable[unfolded new_manager_def] first_lease_live f refl] f
    by auto
qed

text \<open>
  C34. A finished key is not run again while its result is kept: after a worker has recorded the result
  of a task with an idempotency key, in any state of any interleaving, and after any further calls, an
  enqueue of the same key before the time to live has run out queues nothing and returns the recorded
  result, provided that the calls in between use fewer other keys than the cache has places and
  neither record another result under this key nor look it up at a later time.
\<close>

theorem completed_key_cached:
  fixes l :: managed_lease
  assumes "mk_idem_store rep cap iv now0 doc = Inr st"
    and "(manager_step rep)\<^sup>*\<^sup>* (mk_task_manager empty_queue st dlq policy ttl, {}) (m, L)"
    and "idempotency_key (ml_envelope l) = Some k" and "m' = mgr_run rep (record_result m (ml_envelope l) r None ck) cs"
    and "used = concat (map (cache_calls (max ttl 60)) cs)" and "int (card ((\<Union>c\<in>set used. touched c) - {k})) < cap"
    and "\<forall>c\<in>set used. spares k (ck_t1 ck + max ttl 60) c"
    and "idempotency_key (envelope_new fresh (ck_now ck') flow inp headers trace None None) = Some k"
    and "ck_idem ck' < ck_t1 ck + max ttl 60" and "enqueue m' fresh flow inp headers trace ck' = (res, m'')"
  shows "res = \<lparr>eo_queued = False, eo_envelope = None, eo_cached = Some r\<rparr> \<and>
    tm_queue m'' = tm_queue m' \<and> tm_pending_keys m'' = tm_pending_keys m'"
proof -
  have env: "mgr_env policy (max ttl 60) m" and "idem_inv (tm_idem m)"
    using manager_reachable[OF assms(2)] idem_inv_mk[OF assms(1)] by (auto simp: mgr_env_def)
  have "is_capacity (tm_idem m) = cap" using manager_capacity[OF assms(2)] idem_inv_mk[OF assms(1)] by simp
  let ?e = "\<lparr>ie_result = r, ie_expires_at = ck_t1 ck + max ttl 60, ie_created_at = ck_t2 ck\<rparr>" and ?m = "record_result m (ml_envelope l) r None ck"
  have idem: "tm_idem ?m = idem_remember (tm_idem m) k r (max ttl 60) (ck_t1 ck) (ck_t2 ck) (ck_t3 ck)"
    using env assms(3) by (simp add: record_result_def Let_def composite_key_idem mgr_env_def)
  have envm: "mgr_env policy (max ttl 60) ?m" using mgr_env_exec[OF env, of rep "Result_call l r None ck"] by (simp add: mgr_exec_def)
  have "kept k ?e {} (is_entries (tm_idem ?m))" unfolding idem by (rule kept_remember[OF \<open>idem_inv (tm_idem m)\<close>]) simp
  moreover have "is_capacity (tm_idem ?m) = cap"
    using idem_exec_capacity[of "tm_idem m" "Remember k r (max ttl 60) (ck_t1 ck) (ck_t2 ck) (ck_t3 ck)"] \<open>is_capacity (tm_idem m) = cap\<close>
    by (simp add: idem_exec_def idem)
  ultimately have "dict_get (is_entries (tm_idem m')) k = Some ?e"
    using kept_get[OF kept_run[of k ?e "{}" "tm_idem ?m" used]] assms(5-7) run_cache[OF envm, of rep cs] assms(4) by simp
  then obtain st2 where "idem_get (tm_idem m') k (ck_idem ck') = (Some r, st2)" using assms(9) by (simp add: idem_get_def)
  then show ?thesis using assms(8,10) by (auto simp: enqueue_def Let_def composite_key_idem)
qed

definition other_key :: "task option" where
  "other_key = Some [(''idempotency_key'', VStr ''order-2'')]"

theorem completed_key_cached_witness:
  "eo_cached (fst (enqueue (mgr_run (\<lambda>_. []) (record_result while_leased first_task done_result None (tick 3))
        [Ack_call first_lease True, Enqueue_call ''t2'' ''flow'' [] other_key None (tick 4)]) ''t3'' ''flow'' [] keyed None (tick 5))) = Some done_result"
proof -
  let ?cs = "[Ack_call first_lease True, Enqueue_call ''t2'' ''flow'' [] other_key None (tick 4)]"
  have used: "concat (map (cache_calls (max 3600 60)) ?cs) = [Get ''order-2'' 4]" by code_simp
  have key: "idempotency_key (ml_envelope first_lease) = Some ''order-1''"
    "idempotency_key (envelope_new ''t3'' (ck_now (tick 5)) ''flow'' [] keyed None None None) = Some ''order-1''" by code_simp+
  have env: "ml_envelope first_lease = first_task" by (simp add: first_lease_def)
  show ?thesis
    using completed_key_cached[OF mk_fresh_store[of 8 _ 0] while_leased_any[unfolded new_manager_def] key(1) refl used[symmetric] _ _ key(2) _ prod.collapse[symmetric], of "tick 3" done_result]
    by (simp add: env tick_def touched_def spares_def)
qed

definition late_ack :: task_manager where
  "late_ack = mgr_ack (snd (mgr_lease (\<lambda>_. []) while_leased 1 1000 (tick 9))) first_lease True"

text \<open>
  A late acknowledgement breaks the uniqueness of keys: when a lease has run out, the task is
  leased again and the first worker then acknowledges with its old token, the queue rightly ignores
  the acknowledgement but the manager frees the idempotency key, so that a second task with the same
  key is queued next to the first.
\<close>

theorem stale_ack_allows_duplicate:
  "eo_queued (fst (enqueue late_ack ''t2'' ''flow'' [] keyed None (tick 10))) \<and>
   holds_key (q_view (tm_queue (snd (enqueue late_ack ''t2'' ''flow'' [] keyed None (tick 10))))) 0 ''order-1'' \<and>
   holds_key (q_view (tm_queue (snd (enqueue late_ack ''t2'' ''flow'' [] keyed None (tick 10))))) 1 ''order-1''"
proof (intro conjI)
  show "eo_queued (fst (enqueue late_ack ''t2'' ''flow'' [] keyed None (tick 10)))" by code_simp
  let ?v = "q_view (tm_queue (snd (enqueue late_ack ''t2'' ''flow'' [] keyed None (tick 10))))"
  have "?v 0 = Some (envelope_to_dict first_task, Some ''lease-2'')" "idempotency_key first_task = Some ''order-1''"
    "?v 1 = Some (envelope_to_dict (envelope_new ''t2'' 10 ''flow'' [] keyed None None None), None)"
    "idempotency_key (envelope_new ''t2'' 10 ''flow'' [] keyed None None None) = Some ''order-1''" by code_simp+
  then show "holds_key ?v 0 ''order-1''" "holds_key ?v 1 ''order-1''" unfolding holds_key_def by blast+
qed

end
