(* ===== verification/Rolling_Window.thy ===== *)
theory Rolling_Window
  imports Prelude
begin

text \<open>
  Totals over a sliding time window (\<^verbatim>\<open>RollingWindow\<close> in \<^verbatim>\<open>tm/governance/utils.py\<close>).  The window keeps its
  entries oldest first together with a running total and drops stale entries from the front.  The
  interface its clients rely on is the locale \<open>usage_window\<close>: as long as the clock does not run
  backwards, the total is the sum of the observations less than one window width old.
\<close>

section \<open>The window\<close>

record rolling_window =
  rw_window :: real
  rw_entries :: "(real \<times> real) list"
  rw_total :: real

definition mk_window :: "real \<Rightarrow> rolling_window" where
  "mk_window window_sec = \<lparr>rw_window = max window_sec 0, rw_entries = [], rw_total = 0\<rparr>"

fun prune_entries :: "real \<Rightarrow> (real \<times> real) list \<Rightarrow> real \<Rightarrow> (real \<times> real) list \<times> real" where
  "prune_entries cutoff [] tot = ([], tot)"
| "prune_entries cutoff ((t, v) # es) tot =
     (if t \<le> cutoff then prune_entries cutoff es (tot - v) else ((t, v) # es, tot))"

definition window_prune :: "rolling_window \<Rightarrow> real \<Rightarrow> rolling_window" where
  "window_prune w current_ts =
     (case prune_entries (current_ts - rw_window w) (rw_entries w) (rw_total w) of
        (es, tot) \<Rightarrow> w\<lparr>rw_entries := es, rw_total := tot\<rparr>)"

definition window_observe :: "rolling_window \<Rightarrow> real \<Rightarrow> real \<Rightarrow> rolling_window" where
  "window_observe w v timestamp =
     (if rw_window w \<le> 0 then w
      else let w1 = window_prune w timestamp
           in w1\<lparr>rw_entries := rw_entries w1 @ [(timestamp, v)], rw_total := rw_total w1 + v\<rparr>)"

definition window_total :: "rolling_window \<Rightarrow> real \<Rightarrow> real \<times> rolling_window" where
  "window_total w timestamp =
     (if rw_window w \<le> 0 then (0, w)
      else let w1 = window_prune w timestamp in (rw_total w1, w1))"

definition window_reset :: "rolling_window \<Rightarrow> rolling_window" where
  "window_reset w = w\<lparr>rw_entries := [], rw_total := 0\<rparr>"

definition window_extend :: "rolling_window \<Rightarrow> (real \<times> real) list \<Rightarrow> rolling_window" where
  "window_extend w entries = (let es = rw_entries w @ entries in
     w\<lparr>rw_entries := es, rw_total := sum_list (map snd es)\<rparr>)"

section \<open>The interface\<close>

text \<open>What has been observed less than \<open>width\<close> before \<open>now\<close>.\<close>

definition recent :: "real \<Rightarrow> (real \<times> real) list \<Rightarrow> real \<Rightarrow> real" where
  "recent width h now = sum_list (map snd (filter (\<lambda>(t, v). now - width < t) h))"

lemma recent_Nil [simp]: "recent width [] now = 0"
  by (simp add: recent_def)

lemma recent_nonneg: "\<forall>(t, v)\<in>set h. 0 \<le> v \<Longrightarrow> 0 \<le> recent width h now"
  unfolding recent_def by (rule sum_list_nonneg) auto

text \<open>With unit observations the total counts the recent ones.\<close>

lemma recent_unit:
  "\<forall>(t, v)\<in>set h. v = 1 \<Longrightarrow> recent width h now = real (length (filter (\<lambda>(t, v). now - width < t) h))"
  by (induction h) (auto simp: recent_def)

locale usage_window =
  fixes mk :: "real \<Rightarrow> 'w" and width :: "'w \<Rightarrow> real" and observe :: "'w \<Rightarrow> real \<Rightarrow> real \<Rightarrow> 'w"
    and total_at :: "'w \<Rightarrow> real \<Rightarrow> real \<times> 'w" and reset :: "'w \<Rightarrow> 'w"
    and tracks :: "'w \<Rightarrow> (real \<times> real) list \<Rightarrow> real \<Rightarrow> bool"
  assumes width_mk: "width (mk d) = max d 0"
    and width_observe: "width (observe w v t) = width w"
    and width_total: "width (snd (total_at w t)) = width w"
    and width_reset: "width (reset w) = width w"
    and tracks_mk: "tracks (mk d) [] t"
    and tracks_reset: "tracks w h t \<Longrightarrow> tracks (reset w) [] t"
    and tracks_later: "tracks w h t \<Longrightarrow> t \<le> t' \<Longrightarrow> tracks w h t'"
    and total_recent: "tracks w h t \<Longrightarrow> fst (total_at w t) = recent (width w) h t"
    and tracks_total: "tracks w h t \<Longrightarrow> tracks (snd (total_at w t)) h t"
    and tracks_observe: "tracks w h t \<Longrightarrow> tracks (observe w v t) (h @ [(t, v)]) t"
begin

lemma observe_all:
  assumes "tracks w h t0" and "sorted (t0 # map fst es)"
  shows "tracks (foldl (\<lambda>w (t, v). observe w v t) w es) (h @ es) (last (t0 # map fst es))"
  using assms
proof (induction es arbitrary: w h t0)
  case (Cons e es)
  obtain t v where e: "e = (t, v)" by (cases e)
  have "tracks (observe w v t) (h @ [(t, v)]) t"
    using Cons.prems e tracks_later tracks_observe by auto
  then show ?case using Cons.IH[of "observe w v t" "h @ [(t, v)]" t] Cons.prems e by simp
qed simp

lemma width_observe_all: "width (foldl (\<lambda>w (t, v). observe w v t) w es) = width w"
  by (induction es arbitrary: w) (auto simp: width_observe)

lemma total_after:
  assumes "sorted (map fst es @ [now])"
  shows "fst (total_at (foldl (\<lambda>w (t, v). observe w v t) (mk d) es) now) = recent (max d 0) es now"
proof -
  define t0 where "t0 = (case es of [] \<Rightarrow> now | e # _ \<Rightarrow> fst e)"
  have "sorted (t0 # map fst es)" "last (t0 # map fst es) \<le> now"
    using assms last_in_set[of "map fst es"] by (fastforce simp: t0_def sorted_append split: list.splits)+
  then have "tracks (foldl (\<lambda>w (t, v). observe w v t) (mk d) es) ([] @ es) now"
    using observe_all[OF tracks_mk, of t0 es] tracks_later by blast
  then show ?thesis using total_recent width_observe_all width_mk by fastforce
qed

end

section \<open>The window keeps the interface\<close>

definition window_tracks :: "rolling_window \<Rightarrow> (real \<times> real) list \<Rightarrow> real \<Rightarrow> bool" where
  "window_tracks w h t \<longleftrightarrow> sorted (map fst h) \<and> (\<forall>(s, v)\<in>set h. s \<le> t) \<and> 0 \<le> rw_window w \<and>
     (rw_window w \<le> 0 \<longrightarrow> rw_entries w = []) \<and>
     (\<exists>c \<le> t - rw_window w. rw_entries w = filter (\<lambda>(s, v). c < s) h) \<and> rw_total w = sum_list (map snd (rw_entries w))"

lemma prune_entries_filter:
  assumes "sorted (map fst es)" and "tot = sum_list (map snd es)"
  shows "prune_entries c es tot = (filter (\<lambda>(s, v). c < s) es, sum_list (map snd (filter (\<lambda>(s, v). c < s) es)))"
  using assms
proof (induction c es tot rule: prune_entries.induct)
  case (2 c t v es tot)
  show ?case
  proof (cases "t \<le> c")
    case True
    then show ?thesis using 2 by auto
  next
    case False
    then have "\<forall>(s, u)\<in>set es. c < s" using 2(2) by force
    then have "filter (\<lambda>(s, v). c < s) es = es" by (auto simp: filter_id_conv)
    then show ?thesis using False 2(3) by simp
  qed
qed simp

lemma prune_tracks:
  assumes "window_tracks w h t"
  shows "window_prune w t = w\<lparr>rw_entries := filter (\<lambda>(s, v). t - rw_window w < s) h,
    rw_total := recent (rw_window w) h t\<rparr>" and "window_tracks (window_prune w t) h t"
proof -
  obtain c where c: "c \<le> t - rw_window w" "rw_entries w = filter (\<lambda>(s, v). c < s) h"
    using assms by (auto simp: window_tracks_def)
  have h: "sorted (map fst h)" "\<forall>(s, v)\<in>set h. s \<le> t" "0 \<le> rw_window w" "rw_total w = sum_list (map snd (rw_entries w))"
    using assms by (auto simp: window_tracks_def)
  have s: "sorted (map fst (rw_entries w))" using h(1) sorted_filter[of fst h] by (simp add: c(2))
  have f: "filter (\<lambda>(s, v). t - rw_window w < s) (rw_entries w) = filter (\<lambda>(s, v). t - rw_window w < s) h"
    using c by (auto intro!: filter_cong)
  show eq: "window_prune w t = w\<lparr>rw_entries := filter (\<lambda>(s, v). t - rw_window w < s) h,
    rw_total := recent (rw_window w) h t\<rparr>"
    using prune_entries_filter[OF s h(4)] by (simp add: window_prune_def f recent_def)
  show "window_tracks (window_prune w t) h t"
    unfolding eq window_tracks_def using h(1-3)
    by (force simp: recent_def filter_empty_conv intro!: exI[of _ "t - rw_window w"])
qed

lemma zero_window_recent: "window_tracks w h t \<Longrightarrow> rw_window w \<le> 0 \<Longrightarrow> recent (rw_window w) h t = 0"
proof -
  assume a: "window_tracks w h t" "rw_window w \<le> 0"
  then have "filter (\<lambda>(s, v). t - rw_window w < s) h = []" by (force simp: window_tracks_def filter_empty_conv)
  then show ?thesis by (simp add: recent_def)
qed

lemma tracks_mono:
  assumes "window_tracks w h t" and "t \<le> t'"
  shows "window_tracks w h t'"
proof -
  obtain c where "c \<le> t - rw_window w" "rw_entries w = filter (\<lambda>(s, v). c < s) h"
    using assms(1) by (auto simp: window_tracks_def)
  then have "\<exists>c \<le> t' - rw_window w. rw_entries w = filter (\<lambda>(s, v). c < s) h"
    using assms(2) by (intro exI[of _ c]) simp
  moreover have "\<forall>(s, v)\<in>set h. s \<le> t'" using assms by (auto simp: window_tracks_def)
  ultimately show ?thesis using assms(1) unfolding window_tracks_def by blast
qed

interpretation rw: usage_window mk_window rw_window window_observe window_total window_reset window_tracks
proof
  fix w :: rolling_window and h :: "(real \<times> real) list" and d t t' v :: real
  show "rw_window (mk_window d) = max d 0" "window_tracks (mk_window d) [] t"
    by (auto simp: mk_window_def window_tracks_def)
  show "rw_window (window_observe w v t) = rw_window w" "rw_window (snd (window_total w t)) = rw_window w"
    "rw_window (window_reset w) = rw_window w"
    by (simp_all add: window_observe_def window_total_def window_reset_def window_prune_def Let_def split: prod.splits)
  show "window_tracks w h t \<Longrightarrow> t \<le> t' \<Longrightarrow> window_tracks w h t'"
    by (rule tracks_mono)
  assume a: "window_tracks w h t"
  show "fst (window_total w t) = recent (rw_window w) h t" "window_tracks (snd (window_total w t)) h t"
    using prune_tracks[OF a] zero_window_recent[OF a] a by (auto simp: window_total_def Let_def)
  show "window_tracks (window_observe w v t) (h @ [(t, v)]) t"
  proof (cases "rw_window w \<le> 0")
    case True
    have "filter (\<lambda>(s, v). t < s) (h @ [(t, v)]) = []"
      using a by (force simp: window_tracks_def filter_empty_conv)
    then show ?thesis using a True
      by (auto simp: window_observe_def window_tracks_def sorted_append intro!: exI[of _ t])
  next
    case False
    then show ?thesis using prune_tracks[OF a] a
      by (auto simp: window_observe_def window_tracks_def sorted_append recent_def intro!: exI[of _ "t - rw_window w"])
  qed
  show "window_tracks (window_reset w) [] t"
    using a by (auto simp: window_tracks_def window_reset_def intro!: exI[of _ "t - rw_window w"])
qed

end
