(* ===== verification/Breaker.thy ===== *)
theory Breaker
  imports Rolling_Window
begin

text \<open>
  The circuit breaker (\<^verbatim>\<open>tm/governance/breaker.py\<close> and its settings in \<^verbatim>\<open>tm/governance/config.py\<close>): a state
  machine over closed, open and half-open whose trip condition reads two rolling windows.  The
  abstract machine \<open>spec_breaker\<close> keeps the times of failures and timeouts instead of windows; the
  code refines it on every sequence of calls whose clock does not run backwards.
\<close>

section \<open>The breaker\<close>

record breaker_settings =
  bs_enabled :: bool
  bs_window_sec :: real
  bs_failure_threshold :: int
  bs_timeout_threshold :: int
  bs_cooldown_sec :: real
  bs_half_open_max_calls :: int

definition breaker_active :: "breaker_settings \<Rightarrow> bool" where
  "breaker_active s \<longleftrightarrow> bs_enabled s \<and> (bs_failure_threshold s > 0 \<or> bs_timeout_threshold s > 0)"

datatype breaker_state = CLOSED | OPEN | HALF_OPEN

record breaker_decision =
  bd_allowed :: bool
  bd_state :: breaker_state
  bd_reason :: "string option"

record breaker =
  br_settings :: breaker_settings
  br_failures :: rolling_window
  br_timeouts :: rolling_window
  br_state :: breaker_state
  br_opened_at :: "real option"
  br_half_open_inflight :: int

definition mk_breaker :: "breaker_settings \<Rightarrow> breaker" where
  "mk_breaker s = \<lparr>br_settings = s, br_failures = mk_window (bs_window_sec s), br_timeouts = mk_window (bs_window_sec s),
     br_state = CLOSED, br_opened_at = None, br_half_open_inflight = 0\<rparr>"

text \<open>The windows are pruned as the thresholds are read, the second one only when the first does not trip.\<close>

definition should_trip :: "breaker \<Rightarrow> real \<Rightarrow> bool \<times> breaker" where
  "should_trip b now =
     (let fail_threshold = max 0 (bs_failure_threshold (br_settings b));
          timeout_threshold = max 0 (bs_timeout_threshold (br_settings b));
          (trip1, b1) =
            (if fail_threshold \<noteq> 0 then
               (let (n, w) = window_total (br_failures b) now
                in (n \<ge> real_of_int fail_threshold, b\<lparr>br_failures := w\<rparr>))
             else (False, b))
      in if trip1 then (True, b1)
         else if timeout_threshold \<noteq> 0 then
           (let (n, w) = window_total (br_timeouts b1) now
            in (n \<ge> real_of_int timeout_threshold, b1\<lparr>br_timeouts := w\<rparr>))
         else (False, b1))"

definition trip :: "breaker \<Rightarrow> real \<Rightarrow> breaker" where
  "trip b now = b\<lparr>br_state := OPEN, br_opened_at := Some now, br_half_open_inflight := 0\<rparr>"

definition transition_to_half_open :: "breaker \<Rightarrow> breaker" where
  "transition_to_half_open b = b\<lparr>br_state := HALF_OPEN, br_half_open_inflight := 0\<rparr>"

definition breaker_reset :: "breaker \<Rightarrow> breaker" where
  "breaker_reset b = b\<lparr>br_state := CLOSED, br_opened_at := None, br_half_open_inflight := 0,
     br_failures := window_reset (br_failures b), br_timeouts := window_reset (br_timeouts b)\<rparr>"

definition admit :: "breaker_state \<Rightarrow> breaker_decision" where
  "admit st = \<lparr>bd_allowed = True, bd_state = st, bd_reason = None\<rparr>"

definition refuse :: "breaker_state \<Rightarrow> breaker_decision" where
  "refuse st = \<lparr>bd_allowed = False, bd_state = st, bd_reason = Some ''CIRCUIT_OPEN''\<rparr>"

definition half_open_limit :: "breaker_settings \<Rightarrow> int" where
  "half_open_limit s = max 1 (bs_half_open_max_calls s)"

definition try_half_open :: "breaker \<Rightarrow> breaker_decision \<times> breaker" where
  "try_half_open b =
     (if br_half_open_inflight b \<ge> half_open_limit (br_settings b) then (refuse (br_state b), b)
      else (admit (br_state b), b\<lparr>br_half_open_inflight := br_half_open_inflight b + 1\<rparr>))"

definition can_execute :: "breaker \<Rightarrow> real \<Rightarrow> breaker_decision \<times> breaker" where
  "can_execute b now =
     (if \<not> bs_enabled (br_settings b) then (admit CLOSED, b)
      else case br_state b of
        OPEN \<Rightarrow>
          (case br_opened_at b of
             None \<Rightarrow> (refuse OPEN, b\<lparr>br_opened_at := Some now\<rparr>)
           | Some t \<Rightarrow>
               if now - t \<ge> bs_cooldown_sec (br_settings b) then try_half_open (transition_to_half_open b)
               else (refuse OPEN, b))
      | HALF_OPEN \<Rightarrow> try_half_open b
      | CLOSED \<Rightarrow>
          (let (tripped, b1) = should_trip b now in
           if tripped then (refuse OPEN, trip b1 now) else (admit CLOSED, b1)))"

definition record_success :: "breaker \<Rightarrow> real \<Rightarrow> breaker" where
  "record_success b now =
     (if \<not> bs_enabled (br_settings b) then b
      else case br_state b of
        HALF_OPEN \<Rightarrow> breaker_reset b
      | CLOSED \<Rightarrow> b\<lparr>br_failures := snd (window_total (br_failures b) now), br_timeouts := snd (window_total (br_timeouts b) now)\<rparr>
      | OPEN \<Rightarrow> breaker_reset b)"

definition note_failure :: "breaker \<Rightarrow> real \<Rightarrow> bool \<Rightarrow> breaker" where
  "note_failure b now timeout =
     (if timeout then b\<lparr>br_timeouts := window_observe (br_timeouts b) 1 now\<rparr>
      else b\<lparr>br_failures := window_observe (br_failures b) 1 now\<rparr>)"

definition record_failure :: "breaker \<Rightarrow> real \<Rightarrow> bool \<Rightarrow> breaker" where
  "record_failure b now timeout =
     (if \<not> bs_enabled (br_settings b) then b
      else
        let b1 = note_failure b now timeout
        in case br_state b1 of
          HALF_OPEN \<Rightarrow> trip b1 now
        | CLOSED \<Rightarrow> (let (tripped, b2) = should_trip b1 now in if tripped then trip b2 now else b2)
        | OPEN \<Rightarrow> b1)"

definition release_half_open_slot :: "breaker \<Rightarrow> breaker" where
  "release_half_open_slot b =
     (if br_half_open_inflight b > 0 then b\<lparr>br_half_open_inflight := br_half_open_inflight b - 1\<rparr> else b)"

section \<open>Calls\<close>

datatype breaker_call = Can_Execute | Record_Success | Record_Failure bool | Release_Slot

definition breaker_exec :: "breaker \<Rightarrow> real \<times> breaker_call \<Rightarrow> breaker_decision option \<times> breaker" where
  "breaker_exec b c = (case c of
       (now, Can_Execute) \<Rightarrow> (let (d, b') = can_execute b now in (Some d, b'))
     | (now, Record_Success) \<Rightarrow> (None, record_success b now)
     | (now, Record_Failure timeout) \<Rightarrow> (None, record_failure b now timeout)
     | (now, Release_Slot) \<Rightarrow> (None, release_half_open_slot b))"

fun breaker_run :: "breaker \<Rightarrow> (real \<times> breaker_call) list \<Rightarrow> breaker_decision option list \<times> breaker" where
  "breaker_run b [] = ([], b)"
| "breaker_run b (c # cs) = (let (d, b') = breaker_exec b c; (ds, b'') = breaker_run b' cs in (d # ds, b''))"

section \<open>The invariant\<close>

definition breaker_inv :: "breaker \<Rightarrow> bool" where
  "breaker_inv b \<longleftrightarrow> 0 \<le> br_half_open_inflight b \<and> br_half_open_inflight b \<le> half_open_limit (br_settings b) \<and>
     (br_state b \<noteq> HALF_OPEN \<longrightarrow> br_half_open_inflight b = 0) \<and>
     (br_state b = CLOSED \<longleftrightarrow> br_opened_at b = None) \<and> (\<not> bs_enabled (br_settings b) \<longrightarrow> br_state b = CLOSED)"

lemma should_trip_fields:
  assumes "should_trip b now = (r, b')"
  shows "br_settings b' = br_settings b" "br_state b' = br_state b" "br_opened_at b' = br_opened_at b"
    "br_half_open_inflight b' = br_half_open_inflight b"
  using assms by (auto simp: should_trip_def Let_def split: if_splits prod.splits)

lemma half_open_limit_pos: "1 \<le> half_open_limit s"
  by (simp add: half_open_limit_def)

lemma breaker_inv_mk: "breaker_inv (mk_breaker s)"
  using half_open_limit_pos[of s] by (simp add: breaker_inv_def mk_breaker_def)

lemma breaker_inv_exec:
  assumes "breaker_inv b"
  shows "breaker_inv (snd (breaker_exec b c))"
proof -
  obtain now k where c: "c = (now, k)" by (cases c)
  note defs = breaker_exec_def c can_execute_def record_success_def record_failure_def release_half_open_slot_def
    try_half_open_def transition_to_half_open_def trip_def breaker_reset_def breaker_inv_def Let_def
  show ?thesis
  proof (cases k)
    case Can_Execute
    obtain r b1 where t: "should_trip b now = (r, b1)" by fastforce
    show ?thesis using Can_Execute assms half_open_limit_pos[of "br_settings b"]
      by (auto simp: defs t should_trip_fields[OF t] split: breaker_state.splits option.splits)
  next
    case Record_Success
    then show ?thesis using assms half_open_limit_pos[of "br_settings b"]
      by (auto simp: defs split: breaker_state.splits)
  next
    case (Record_Failure timeout)
    define b1 where "b1 = note_failure b now timeout"
    have i: "breaker_inv b1" "br_settings b1 = br_settings b" using assms by (auto simp: b1_def note_failure_def breaker_inv_def)
    obtain r b2 where t: "should_trip b1 now = (r, b2)" by fastforce
    have "record_failure b now timeout = (if \<not> bs_enabled (br_settings b) then b else case br_state b1 of
        HALF_OPEN \<Rightarrow> trip b1 now | CLOSED \<Rightarrow> (if r then trip b2 now else b2) | OPEN \<Rightarrow> b1)"
      by (auto simp: record_failure_def b1_def[symmetric] t Let_def split: breaker_state.split)
    then show ?thesis using Record_Failure assms i half_open_limit_pos[of "br_settings b1"]
      by (auto simp: breaker_exec_def c trip_def breaker_inv_def should_trip_fields[OF t] split: breaker_state.splits)
  next
    case Release_Slot
    then show ?thesis using assms by (auto simp: defs)
  qed
qed

lemma breaker_inv_run: "breaker_inv b \<Longrightarrow> breaker_inv (snd (breaker_run b cs))"
proof (induction cs arbitrary: b)
  case (Cons c cs)
  then show ?case using breaker_inv_exec[of b c] by (simp add: Let_def case_prod_unfold)
qed simp

section \<open>The abstract machine\<close>

text \<open>The times of the failures and timeouts since the last reset, oldest first.\<close>

record spec_breaker =
  sb_failures :: "real list"
  sb_timeouts :: "real list"
  sb_state :: breaker_state
  sb_opened_at :: "real option"
  sb_inflight :: int

definition spec_init :: spec_breaker where
  "spec_init = \<lparr>sb_failures = [], sb_timeouts = [], sb_state = CLOSED, sb_opened_at = None, sb_inflight = 0\<rparr>"

definition recent_count :: "breaker_settings \<Rightarrow> real list \<Rightarrow> real \<Rightarrow> int" where
  "recent_count s ts now = int (length (filter (\<lambda>t. now - max (bs_window_sec s) 0 < t) ts))"

definition over_threshold :: "int \<Rightarrow> int \<Rightarrow> bool" where
  "over_threshold threshold n \<longleftrightarrow> 0 < threshold \<and> threshold \<le> n"

definition spec_trips :: "breaker_settings \<Rightarrow> spec_breaker \<Rightarrow> real \<Rightarrow> bool" where
  "spec_trips s b now \<longleftrightarrow> over_threshold (bs_failure_threshold s) (recent_count s (sb_failures b) now) \<or>
     over_threshold (bs_timeout_threshold s) (recent_count s (sb_timeouts b) now)"

definition spec_open :: "spec_breaker \<Rightarrow> real \<Rightarrow> spec_breaker" where
  "spec_open b now = b\<lparr>sb_state := OPEN, sb_opened_at := Some now, sb_inflight := 0\<rparr>"

definition spec_probe :: "breaker_settings \<Rightarrow> spec_breaker \<Rightarrow> breaker_decision \<times> spec_breaker" where
  "spec_probe s b = (if sb_inflight b < half_open_limit s
     then (admit HALF_OPEN, b\<lparr>sb_state := HALF_OPEN, sb_inflight := sb_inflight b + 1\<rparr>)
     else (refuse HALF_OPEN, b\<lparr>sb_state := HALF_OPEN\<rparr>))"

definition cooled_down :: "breaker_settings \<Rightarrow> spec_breaker \<Rightarrow> real \<Rightarrow> bool" where
  "cooled_down s b now \<longleftrightarrow> (\<exists>t. sb_opened_at b = Some t \<and> t + bs_cooldown_sec s \<le> now)"

definition spec_exec :: "breaker_settings \<Rightarrow> spec_breaker \<Rightarrow> real \<times> breaker_call \<Rightarrow> breaker_decision option \<times> spec_breaker" where
  "spec_exec s b c = (case c of
       (now, Can_Execute) \<Rightarrow>
         (if sb_state b = CLOSED then
            (if spec_trips s b now then (Some (refuse OPEN), spec_open b now) else (Some (admit CLOSED), b))
          else if sb_state b = OPEN \<and> \<not> cooled_down s b now then (Some (refuse OPEN), b)
          else (let (d, b') = spec_probe s b in (Some d, b')))
     | (now, Record_Success) \<Rightarrow> (None, if sb_state b = CLOSED then b else spec_init)
     | (now, Record_Failure timeout) \<Rightarrow>
         (let b1 = (if timeout then b\<lparr>sb_timeouts := sb_timeouts b @ [now]\<rparr> else b\<lparr>sb_failures := sb_failures b @ [now]\<rparr>)
          in (None, if sb_state b = HALF_OPEN \<or> sb_state b = CLOSED \<and> spec_trips s b1 now then spec_open b1 now else b1))
     | (now, Release_Slot) \<Rightarrow> (None, b\<lparr>sb_inflight := max 0 (sb_inflight b - 1)\<rparr>))"

fun spec_run :: "breaker_settings \<Rightarrow> spec_breaker \<Rightarrow> (real \<times> breaker_call) list \<Rightarrow> breaker_decision option list \<times> spec_breaker" where
  "spec_run s b [] = ([], b)"
| "spec_run s b (c # cs) = (let (d, b') = spec_exec s b c; (ds, b'') = spec_run s b' cs in (d # ds, b''))"

section \<open>Refinement\<close>

definition unit_obs :: "real list \<Rightarrow> (real \<times> real) list" where
  "unit_obs ts = map (\<lambda>t. (t, 1)) ts"

lemma recent_unit_obs: "recent (max (bs_window_sec s) 0) (unit_obs ts) now = real_of_int (recent_count s ts now)"
  by (induction ts) (simp_all add: recent_def unit_obs_def recent_count_def)

text \<open>The concrete breaker at a moment no later than \<open>now\<close>.\<close>

definition breaker_rel :: "breaker_settings \<Rightarrow> real \<Rightarrow> breaker \<Rightarrow> spec_breaker \<Rightarrow> bool" where
  "breaker_rel s now b a \<longleftrightarrow> br_settings b = s \<and> bs_enabled s \<and> breaker_inv b \<and>
     rw_window (br_failures b) = max (bs_window_sec s) 0 \<and> rw_window (br_timeouts b) = max (bs_window_sec s) 0 \<and>
     window_tracks (br_failures b) (unit_obs (sb_failures a)) now \<and> window_tracks (br_timeouts b) (unit_obs (sb_timeouts a)) now \<and>
     sb_state a = br_state b \<and> sb_opened_at a = br_opened_at b \<and> sb_inflight a = br_half_open_inflight b"

lemma breaker_rel_mk: "bs_enabled s \<Longrightarrow> breaker_rel s now (mk_breaker s) spec_init"
  using breaker_inv_mk[of s] rw.tracks_mk[of "bs_window_sec s"] rw.width_mk[of "bs_window_sec s"]
  by (simp add: breaker_rel_def mk_breaker_def spec_init_def unit_obs_def)

lemma breaker_rel_later: "breaker_rel s t b a \<Longrightarrow> t \<le> t' \<Longrightarrow> breaker_rel s t' b a"
  using rw.tracks_later by (auto simp: breaker_rel_def)

lemma should_trip_rel:
  assumes "breaker_rel s now b a" and "should_trip b now = (r, b')"
  shows "r = spec_trips s a now" and "breaker_rel s now b' a"
proof -
  have tr: "window_tracks (br_failures b) (unit_obs (sb_failures a)) now"
    "window_tracks (br_timeouts b) (unit_obs (sb_timeouts a)) now"
    and w: "rw_window (br_failures b) = max (bs_window_sec s) 0" "rw_window (br_timeouts b) = max (bs_window_sec s) 0"
    and st: "br_settings b = s" using assms(1) by (simp_all add: breaker_rel_def)
  obtain nf wf where f: "window_total (br_failures b) now = (nf, wf)" by fastforce
  obtain nt wt where t: "window_total (br_timeouts b) now = (nt, wt)" by fastforce
  have n: "nf = recent_count s (sb_failures a) now" "nt = recent_count s (sb_timeouts a) now"
    using rw.total_recent[OF tr(1)] rw.total_recent[OF tr(2)] f t w recent_unit_obs by simp_all
  have k: "window_tracks wf (unit_obs (sb_failures a)) now" "rw_window wf = max (bs_window_sec s) 0"
    "window_tracks wt (unit_obs (sb_timeouts a)) now" "rw_window wt = max (bs_window_sec s) 0"
    using rw.tracks_total[OF tr(1)] rw.tracks_total[OF tr(2)] rw.width_total[of "br_failures b" now]
      rw.width_total[of "br_timeouts b" now] f t w by simp_all
  show "r = spec_trips s a now" using assms(2) f t n st
    by (auto simp: should_trip_def spec_trips_def over_threshold_def Let_def max_def split: if_splits)
  have "breaker_inv b'" using should_trip_fields[OF assms(2)] assms(1) by (auto simp: breaker_rel_def breaker_inv_def)
  moreover have "(br_failures b' = br_failures b \<or> br_failures b' = wf) \<and> (br_timeouts b' = br_timeouts b \<or> br_timeouts b' = wt)"
    using assms(2) f t by (auto simp: should_trip_def Let_def split: if_splits)
  ultimately show "breaker_rel s now b' a"
    using should_trip_fields[OF assms(2)] assms(1) k by (auto simp: breaker_rel_def)
qed

lemma exec_rel:
  assumes rel: "breaker_rel s now b a"
  shows "fst (breaker_exec b (now, k)) = fst (spec_exec s a (now, k)) \<and>
    breaker_rel s now (snd (breaker_exec b (now, k))) (snd (spec_exec s a (now, k)))"
proof -
  have inv: "breaker_inv (snd (breaker_exec b (now, k)))" using rel breaker_inv_exec by (simp add: breaker_rel_def)
  have st: "br_settings b = s" "bs_enabled s" "sb_state a = br_state b" "sb_opened_at a = br_opened_at b"
    "sb_inflight a = br_half_open_inflight b" "breaker_inv b" using rel by (simp_all add: breaker_rel_def)
  show ?thesis
  proof (cases k)
    case Can_Execute
    obtain r b1 where t: "should_trip b now = (r, b1)" by fastforce
    note tr = should_trip_rel[OF rel t] should_trip_fields[OF t]
    show ?thesis using Can_Execute rel inv st tr
      by (auto simp: breaker_exec_def spec_exec_def can_execute_def t Let_def try_half_open_def spec_probe_def trip_def
        spec_open_def transition_to_half_open_def cooled_down_def breaker_rel_def breaker_inv_def algebra_simps
        split: breaker_state.splits option.splits if_splits)
  next
    case Record_Success
    have "window_tracks (snd (window_total w now)) h now \<and> rw_window (snd (window_total w now)) = rw_window w \<and>
        window_tracks (window_reset w) [] now \<and> rw_window (window_reset w) = rw_window w" if "window_tracks w h now" for w h
      using that rw.tracks_total rw.tracks_reset rw.width_total rw.width_reset by blast
    then show ?thesis using Record_Success rel inv st
      by (auto simp: breaker_exec_def spec_exec_def record_success_def breaker_reset_def breaker_rel_def spec_init_def
        unit_obs_def split: breaker_state.splits)
  next
    case (Record_Failure timeout)
    define b1 where "b1 = note_failure b now timeout"
    define a1 where "a1 = (if timeout then a\<lparr>sb_timeouts := sb_timeouts a @ [now]\<rparr> else a\<lparr>sb_failures := sb_failures a @ [now]\<rparr>)"
    have "breaker_rel s now b1 a1"
      using rel rw.tracks_observe[where v = 1] by (auto simp: b1_def a1_def note_failure_def breaker_rel_def breaker_inv_def unit_obs_def rw.width_observe)
    moreover obtain r b2 where t: "should_trip b1 now = (r, b2)" by fastforce
    ultimately have tr: "r = spec_trips s a1 now" "breaker_rel s now b2 a1" "breaker_rel s now b1 a1"
      using should_trip_rel by auto
    have "record_failure b now timeout = (case br_state b1 of
        HALF_OPEN \<Rightarrow> trip b1 now | CLOSED \<Rightarrow> (if r then trip b2 now else b2) | OPEN \<Rightarrow> b1)"
      using st by (auto simp: record_failure_def b1_def[symmetric] t Let_def split: breaker_state.split)
    moreover have "snd (spec_exec s a (now, Record_Failure timeout)) =
        (if sb_state a1 = HALF_OPEN \<or> sb_state a1 = CLOSED \<and> r then spec_open a1 now else a1)"
      by (simp add: spec_exec_def a1_def[symmetric] tr(1) Let_def) (simp add: a1_def)
    ultimately show ?thesis using Record_Failure inv tr
      by (auto simp: breaker_exec_def spec_exec_def trip_def spec_open_def breaker_rel_def Let_def split: breaker_state.splits)
  next
    case Release_Slot
    then show ?thesis using rel inv st
      by (auto simp: breaker_exec_def spec_exec_def release_half_open_slot_def breaker_rel_def breaker_inv_def)
  qed
qed

lemma run_rel:
  assumes "breaker_rel s t0 b a" and "sorted (t0 # map fst cs)"
  shows "fst (breaker_run b cs) = fst (spec_run s a cs)"
  using assms
proof (induction cs arbitrary: b a t0)
  case (Cons c cs)
  obtain now k where c: "c = (now, k)" by (cases c)
  have "breaker_rel s now b a" using Cons.prems c breaker_rel_later by auto
  from exec_rel[OF this, of k] Cons.IH[of now "snd (breaker_exec b c)" "snd (spec_exec s a c)"] Cons.prems c
  show ?case by (simp add: Let_def case_prod_unfold)
qed simp

section \<open>Properties\<close>

text \<open>
  C4. The circuit breaker implements its abstract machine: for an enabled breaker and any sequence
  of calls whose times do not decrease, \<^verbatim>\<open>can_execute\<close> answers exactly as the machine that counts the
  failures and timeouts of the last window, opens when a positive threshold is reached, refuses
  until the cool-down is over, then admits a limited number of probes, closes on a success and
  opens again on a failed probe.
\<close>

theorem breaker_refines_spec:
  assumes "bs_enabled s" and "sorted (map fst cs)"
  shows "fst (breaker_run (mk_breaker s) cs) = fst (spec_run s spec_init cs)"
proof (cases cs)
  case (Cons c cs')
  then show ?thesis using run_rel[OF breaker_rel_mk[OF assms(1), of "fst c"], of cs] assms(2) by auto
qed simp

definition demo_settings :: breaker_settings where
  "demo_settings = \<lparr>bs_enabled = True, bs_window_sec = 30, bs_failure_threshold = 2, bs_timeout_threshold = 5,
     bs_cooldown_sec = 10, bs_half_open_max_calls = 1\<rparr>"

definition demo_calls :: "(real \<times> breaker_call) list" where
  "demo_calls = [(0, Can_Execute), (1, Record_Failure False), (2, Record_Failure False), (3, Can_Execute),
     (12, Can_Execute), (12, Can_Execute), (13, Record_Success), (14, Can_Execute)]"

theorem breaker_refines_spec_witness:
  "fst (breaker_run (mk_breaker demo_settings) demo_calls) = fst (spec_run demo_settings spec_init demo_calls) \<and>
   map (map_option bd_allowed) (fst (spec_run demo_settings spec_init demo_calls)) =
     [Some True, None, None, Some False, Some True, Some False, None, Some True]"
proof -
  have "fst (breaker_run (mk_breaker demo_settings) demo_calls) = fst (spec_run demo_settings spec_init demo_calls)"
    by (rule breaker_refines_spec) (simp_all add: demo_settings_def demo_calls_def)
  moreover have "map (map_option bd_allowed) (fst (spec_run demo_settings spec_init demo_calls)) =
     [Some True, None, None, Some False, Some True, Some False, None, Some True]"
    by (simp add: demo_settings_def demo_calls_def spec_exec_def spec_init_def spec_trips_def over_threshold_def
      recent_count_def spec_open_def admit_def refuse_def spec_probe_def half_open_limit_def cooled_down_def Let_def)
  ultimately show ?thesis by simp
qed

text \<open>
  After any sequence of calls from a new breaker, with any clock, the number of half-open calls
  in flight is between zero and the limit, it is zero unless the breaker is half-open, the opening
  time is set exactly when the breaker is not closed, and a disabled breaker is closed.
\<close>

theorem breaker_invariant:
  "breaker_inv (snd (breaker_run (mk_breaker s) cs))"
  by (intro breaker_inv_run breaker_inv_mk)

lemma open_stays_open:
  assumes "bs_enabled (br_settings b)" "br_state b = OPEN" "br_opened_at b = Some t0"
    and "fst c < t0 + bs_cooldown_sec (br_settings b)" "snd c \<noteq> Record_Success"
  shows "fst (breaker_exec b c) \<in> {None, Some (refuse OPEN)}" "br_settings (snd (breaker_exec b c)) = br_settings b"
    "br_state (snd (breaker_exec b c)) = OPEN" "br_opened_at (snd (breaker_exec b c)) = Some t0"
proof -
  obtain now k where c: "c = (now, k)" by (cases c)
  show "fst (breaker_exec b c) \<in> {None, Some (refuse OPEN)}" "br_settings (snd (breaker_exec b c)) = br_settings b"
    "br_state (snd (breaker_exec b c)) = OPEN" "br_opened_at (snd (breaker_exec b c)) = Some t0"
    using assms c by (cases k; simp add: breaker_exec_def can_execute_def record_failure_def note_failure_def
      release_half_open_slot_def Let_def)+
qed

text \<open>
  An open breaker keeps refusing: from an enabled breaker opened at \<open>t\<close>, whatever calls follow,
  as long as none of them records a success and all come before the end of the cool-down, every
  \<^verbatim>\<open>can_execute\<close> is refused with \<^verbatim>\<open>CIRCUIT_OPEN\<close> and the breaker is still open since \<open>t\<close>.
\<close>

theorem open_refuses_until_cooldown:
  assumes "bs_enabled (br_settings b)" "br_state b = OPEN" "br_opened_at b = Some t"
    and "\<forall>(now, k)\<in>set cs. now < t + bs_cooldown_sec (br_settings b) \<and> k \<noteq> Record_Success"
  shows "set (fst (breaker_run b cs)) \<subseteq> {None, Some (refuse OPEN)} \<and>
    br_state (snd (breaker_run b cs)) = OPEN \<and> br_opened_at (snd (breaker_run b cs)) = Some t"
  using assms
proof (induction cs arbitrary: b)
  case (Cons c cs)
  have "fst c < t + bs_cooldown_sec (br_settings b)" "snd c \<noteq> Record_Success" using Cons.prems(4) by auto
  note step = open_stays_open[OF Cons.prems(1-3) this]
  have "set (fst (breaker_run (snd (breaker_exec b c)) cs)) \<subseteq> {None, Some (refuse OPEN)} \<and>
      br_state (snd (breaker_run (snd (breaker_exec b c)) cs)) = OPEN \<and>
      br_opened_at (snd (breaker_run (snd (breaker_exec b c)) cs)) = Some t"
    using Cons.IH[of "snd (breaker_exec b c)"] Cons.prems step by simp
  with step(1) show ?case by (auto simp: Let_def case_prod_unfold)
qed simp

theorem open_refuses_until_cooldown_witness:
  "set (fst (breaker_run (trip (mk_breaker demo_settings) 2) [(3, Can_Execute), (5, Record_Failure True), (11, Can_Execute)]))
     \<subseteq> {None, Some (refuse OPEN)} \<and>
   br_state (snd (breaker_run (trip (mk_breaker demo_settings) 2) [(3, Can_Execute), (5, Record_Failure True), (11, Can_Execute)])) = OPEN \<and>
   br_opened_at (snd (breaker_run (trip (mk_breaker demo_settings) 2) [(3, Can_Execute), (5, Record_Failure True), (11, Can_Execute)])) = Some 2"
  by (rule open_refuses_until_cooldown) (auto simp: trip_def mk_breaker_def demo_settings_def)

end
