(* ===== verification/Rate_Limits.thy ===== *)
theory Rate_Limits
  imports Rolling_Window
begin

text \<open>
  Rate, concurrency and budget trackers (\<^verbatim>\<open>tm/governance/ratelimit.py\<close>, \<^verbatim>\<open>tm/governance/budget.py\<close> and the
  settings in \<^verbatim>\<open>tm/governance/config.py\<close>).  A reservation is first pending, then active; the laws of one
  tracker under this life cycle are the locale \<open>reservations\<close>, which the governance manager uses.
  Floats are reals, so the tests for NaN in the budget tracker are vacuous and left out.
\<close>

section \<open>Settings\<close>

record limit_settings =
  lm_enabled :: bool
  lm_qps :: "real option"
  lm_concurrency :: "int option"
  lm_tokens_per_min :: "real option"
  lm_cost_per_hour :: "real option"

definition limits_off :: limit_settings where
  "limits_off = \<lparr>lm_enabled = False, lm_qps = None, lm_concurrency = None, lm_tokens_per_min = None, lm_cost_per_hour = None\<rparr>"

definition limit_active :: "limit_settings \<Rightarrow> bool" where
  "limit_active s \<longleftrightarrow> lm_enabled s \<and>
     (lm_qps s \<noteq> None \<or> lm_concurrency s \<noteq> None \<or> lm_tokens_per_min s \<noteq> None \<or> lm_cost_per_hour s \<noteq> None)"

section \<open>Rate tracker\<close>

record rate_decision =
  rd_allowed :: bool
  rd_reason :: "string option"

record rate_tracker =
  rt_settings :: limit_settings
  rt_qps :: rolling_window
  rt_pending :: int
  rt_active :: int

definition mk_rate :: "limit_settings \<Rightarrow> rate_tracker" where
  "mk_rate s = \<lparr>rt_settings = s, rt_qps = mk_window 1, rt_pending = 0, rt_active = 0\<rparr>"

text \<open>The two tests of \<^verbatim>\<open>check_and_reserve\<close>; reading the rate prunes its window.\<close>

definition qps_blocked :: "rate_tracker \<Rightarrow> real \<Rightarrow> bool \<times> rate_tracker" where
  "qps_blocked r now = (case lm_qps (rt_settings r) of
       None \<Rightarrow> (False, r)
     | Some q \<Rightarrow>
         (let (current, w) = window_total (rt_qps r) now
          in (current + real_of_int (rt_pending r) \<ge> q, r\<lparr>rt_qps := w\<rparr>)))"

definition concurrency_blocked :: "rate_tracker \<Rightarrow> bool" where
  "concurrency_blocked r = (case lm_concurrency (rt_settings r) of
       None \<Rightarrow> False
     | Some c \<Rightarrow> rt_active r + rt_pending r \<ge> c)"

definition check_and_reserve :: "rate_tracker \<Rightarrow> real \<Rightarrow> rate_decision \<times> rate_tracker" where
  "check_and_reserve r now =
     (if \<not> lm_enabled (rt_settings r) then (\<lparr>rd_allowed = True, rd_reason = None\<rparr>, r)
      else
        let (blocked, r1) = qps_blocked r now in
        if blocked \<or> concurrency_blocked r1 then (\<lparr>rd_allowed = False, rd_reason = Some ''RATE_LIMITED''\<rparr>, r1)
        else (\<lparr>rd_allowed = True, rd_reason = None\<rparr>, r1\<lparr>rt_pending := rt_pending r1 + 1\<rparr>))"

definition rate_activate :: "rate_tracker \<Rightarrow> real \<Rightarrow> rate_tracker" where
  "rate_activate r now =
     (if \<not> lm_enabled (rt_settings r) then r
      else
        let r1 = (if rt_pending r > 0 then r\<lparr>rt_pending := rt_pending r - 1\<rparr> else r);
            r2 = (if lm_concurrency (rt_settings r) \<noteq> None then r1\<lparr>rt_active := rt_active r1 + 1\<rparr> else r1)
        in if lm_qps (rt_settings r) \<noteq> None then r2\<lparr>rt_qps := window_observe (rt_qps r2) 1 now\<rparr> else r2)"

definition rate_release :: "rate_tracker \<Rightarrow> rate_tracker" where
  "rate_release r =
     (if \<not> lm_enabled (rt_settings r) then r
      else if lm_concurrency (rt_settings r) \<noteq> None \<and> rt_active r > 0 then r\<lparr>rt_active := rt_active r - 1\<rparr> else r)"

definition rate_cancel_pending :: "rate_tracker \<Rightarrow> rate_tracker" where
  "rate_cancel_pending r =
     (if \<not> lm_enabled (rt_settings r) then r
      else if rt_pending r > 0 then r\<lparr>rt_pending := rt_pending r - 1\<rparr> else r)"

section \<open>Budget tracker\<close>

record budget_decision =
  bu_allowed :: bool
  bu_reason :: "string option"
  bu_kind :: "string option"

record budget_tracker =
  bt_settings :: limit_settings
  bt_tokens :: rolling_window
  bt_cost :: rolling_window

definition mk_budget :: "limit_settings \<Rightarrow> budget_tracker" where
  "mk_budget s = \<lparr>bt_settings = s, bt_tokens = mk_window 60, bt_cost = mk_window 3600\<rparr>"

definition within_budget :: "real option \<Rightarrow> rolling_window \<Rightarrow> real \<Rightarrow> bool \<times> rolling_window" where
  "within_budget limit w now = (case limit of
       None \<Rightarrow> (True, w)
     | Some l \<Rightarrow> (let (current, w1) = window_total w now in (\<not> current \<ge> l, w1)))"

definition budget_exceeded :: "string \<Rightarrow> budget_decision" where
  "budget_exceeded kind = \<lparr>bu_allowed = False, bu_reason = Some ''BUDGET_EXCEEDED'', bu_kind = Some kind\<rparr>"

definition can_accept :: "budget_tracker \<Rightarrow> real \<Rightarrow> budget_decision \<times> budget_tracker" where
  "can_accept b now =
     (if \<not> lm_enabled (bt_settings b) then (\<lparr>bu_allowed = True, bu_reason = None, bu_kind = None\<rparr>, b)
      else
        let (ok1, w1) = within_budget (lm_tokens_per_min (bt_settings b)) (bt_tokens b) now in
        if \<not> ok1 then (budget_exceeded ''tokens'', b\<lparr>bt_tokens := w1\<rparr>)
        else
          let (ok2, w2) = within_budget (lm_cost_per_hour (bt_settings b)) (bt_cost b) now in
          if \<not> ok2 then (budget_exceeded ''cost'', b\<lparr>bt_tokens := w1, bt_cost := w2\<rparr>)
          else (\<lparr>bu_allowed = True, bu_reason = None, bu_kind = None\<rparr>, b\<lparr>bt_tokens := w1, bt_cost := w2\<rparr>))"

definition record_amount :: "real option \<Rightarrow> real option \<Rightarrow> rolling_window \<Rightarrow> real \<Rightarrow> rolling_window" where
  "record_amount amount limit w now = (case (amount, limit) of
       (Some x, Some _) \<Rightarrow> (if max 0 x > 0 then window_observe w (max 0 x) now else w)
     | _ \<Rightarrow> w)"

definition budget_record :: "budget_tracker \<Rightarrow> real option \<Rightarrow> real option \<Rightarrow> real \<Rightarrow> budget_tracker" where
  "budget_record b tokens cost now =
     (if \<not> lm_enabled (bt_settings b) then b
      else b\<lparr>bt_tokens := record_amount tokens (lm_tokens_per_min (bt_settings b)) (bt_tokens b) now,
             bt_cost := record_amount cost (lm_cost_per_hour (bt_settings b)) (bt_cost b) now\<rparr>)"

definition budget_usage :: "real option \<Rightarrow> rolling_window \<Rightarrow> real \<Rightarrow> real option \<times> rolling_window" where
  "budget_usage limit w now = (case limit of
       None \<Rightarrow> (None, w)
     | Some _ \<Rightarrow> (let (current, w1) = window_total w now in (Some current, w1)))"

definition budget_snapshot :: "budget_tracker \<Rightarrow> real \<Rightarrow> (real option \<times> real option) \<times> budget_tracker" where
  "budget_snapshot b now =
     (let (tokens, w1) = budget_usage (lm_tokens_per_min (bt_settings b)) (bt_tokens b) now;
          (cost, w2) = budget_usage (lm_cost_per_hour (bt_settings b)) (bt_cost b) now
      in ((tokens, cost), b\<lparr>bt_tokens := w1, bt_cost := w2\<rparr>))"

section \<open>The life cycle of reservations\<close>

text \<open>
  What a tracker promises about a scope: \<open>pending\<close> and \<open>active\<close> count the reservations that were made
  and those that run, and a reservation is granted only below the capacity, when there is one.
\<close>

locale reservations =
  fixes reserve :: "'t \<Rightarrow> real \<Rightarrow> bool \<times> 't" and activate :: "'t \<Rightarrow> real \<Rightarrow> 't"
    and release :: "'t \<Rightarrow> 't" and cancel :: "'t \<Rightarrow> 't"
    and holds :: "'t \<Rightarrow> int \<Rightarrow> int \<Rightarrow> bool" and capacity :: "'t \<Rightarrow> int option"
  assumes reserve_holds: "holds t p a \<Longrightarrow> reserve t now = (True, t') \<Longrightarrow> holds t' (p + 1) a"
    and refuse_holds: "holds t p a \<Longrightarrow> reserve t now = (False, t') \<Longrightarrow> holds t' p a"
    and reserve_capacity: "holds t p a \<Longrightarrow> reserve t now = (True, t') \<Longrightarrow> capacity t = Some c \<Longrightarrow> p + a < c"
    and activate_holds: "holds t (p + 1) a \<Longrightarrow> 0 \<le> p \<Longrightarrow> holds (activate t now) p (a + 1)"
    and release_holds: "holds t p (a + 1) \<Longrightarrow> 0 \<le> a \<Longrightarrow> holds (release t) p a"
    and cancel_holds: "holds t (p + 1) a \<Longrightarrow> 0 \<le> p \<Longrightarrow> holds (cancel t) p a"
    and capacity_kept: "capacity (snd (reserve t now)) = capacity t" "capacity (activate t now) = capacity t"
      "capacity (release t) = capacity t" "capacity (cancel t) = capacity t"
begin

text \<open>A reservation that is cancelled at once leaves no trace in the counts.\<close>

lemma reserve_cancel: "holds t p a \<Longrightarrow> 0 \<le> p \<Longrightarrow> reserve t now = (True, t') \<Longrightarrow> holds (cancel t') p a"
  using reserve_holds cancel_holds by blast

lemma reserve_within:
  "holds t p a \<Longrightarrow> reserve t now = (True, t') \<Longrightarrow> capacity t = Some c \<Longrightarrow> p + 1 + a \<le> max 0 c"
  using reserve_capacity by fastforce

end

definition rate_reserve :: "rate_tracker \<Rightarrow> real \<Rightarrow> bool \<times> rate_tracker" where
  "rate_reserve r now = (rd_allowed (fst (check_and_reserve r now)), snd (check_and_reserve r now))"

text \<open>A disabled tracker counts nothing; without a concurrency limit the active ones are not counted.\<close>

definition rate_holds :: "rate_tracker \<Rightarrow> int \<Rightarrow> int \<Rightarrow> bool" where
  "rate_holds r p a \<longleftrightarrow> 0 \<le> rt_pending r \<and> 0 \<le> rt_active r \<and>
     (lm_enabled (rt_settings r) \<longrightarrow> rt_pending r = p \<and> (lm_concurrency (rt_settings r) \<noteq> None \<longrightarrow> rt_active r = a))"

definition rate_capacity :: "rate_tracker \<Rightarrow> int option" where
  "rate_capacity r = (if lm_enabled (rt_settings r) then lm_concurrency (rt_settings r) else None)"

lemma qps_blocked_fields:
  "rt_settings (snd (qps_blocked r now)) = rt_settings r" "rt_pending (snd (qps_blocked r now)) = rt_pending r"
  "rt_active (snd (qps_blocked r now)) = rt_active r"
  by (simp_all add: qps_blocked_def Let_def split: option.splits prod.splits)

lemma rate_settings_kept [simp]:
  "rt_settings (snd (check_and_reserve r now)) = rt_settings r" "rt_settings (rate_activate r now) = rt_settings r"
  "rt_settings (rate_release r) = rt_settings r" "rt_settings (rate_cancel_pending r) = rt_settings r"
  by (simp_all add: check_and_reserve_def rate_activate_def rate_release_def rate_cancel_pending_def Let_def
      qps_blocked_fields case_prod_unfold)

interpretation rate: reservations rate_reserve rate_activate rate_release rate_cancel_pending rate_holds rate_capacity
proof
  fix t t' :: rate_tracker and p a c :: int and now :: real
  show "rate_holds t p a \<Longrightarrow> rate_reserve t now = (True, t') \<Longrightarrow> rate_holds t' (p + 1) a"
    "rate_holds t p a \<Longrightarrow> rate_reserve t now = (False, t') \<Longrightarrow> rate_holds t' p a"
    "rate_holds t p a \<Longrightarrow> rate_reserve t now = (True, t') \<Longrightarrow> rate_capacity t = Some c \<Longrightarrow> p + a < c"
    by (auto simp: rate_reserve_def check_and_reserve_def rate_holds_def rate_capacity_def concurrency_blocked_def
        qps_blocked_fields Let_def case_prod_unfold split: if_splits option.splits)
  show "rate_holds t (p + 1) a \<Longrightarrow> 0 \<le> p \<Longrightarrow> rate_holds (rate_activate t now) p (a + 1)"
    "rate_holds t p (a + 1) \<Longrightarrow> 0 \<le> a \<Longrightarrow> rate_holds (rate_release t) p a"
    "rate_holds t (p + 1) a \<Longrightarrow> 0 \<le> p \<Longrightarrow> rate_holds (rate_cancel_pending t) p a"
    by (auto simp: rate_activate_def rate_release_def rate_cancel_pending_def rate_holds_def Let_def)
  show "rate_capacity (snd (rate_reserve t now)) = rate_capacity t" "rate_capacity (rate_activate t now) = rate_capacity t"
    "rate_capacity (rate_release t) = rate_capacity t" "rate_capacity (rate_cancel_pending t) = rate_capacity t"
    by (simp_all add: rate_reserve_def rate_capacity_def)
qed

section \<open>What a budget admits\<close>

text \<open>Recorded usage: a time with the reported tokens and cost; an absent or negative amount counts as zero.\<close>

type_synonym usage = "real \<times> real option \<times> real option"

definition amount :: "real option \<Rightarrow> real" where
  "amount x = (case x of None \<Rightarrow> 0 | Some v \<Rightarrow> max 0 v)"

definition record_all :: "budget_tracker \<Rightarrow> usage list \<Rightarrow> budget_tracker" where
  "record_all b us = foldl (\<lambda>b (t, tokens, cost). budget_record b tokens cost t) b us"

definition spent :: "(usage \<Rightarrow> real option) \<Rightarrow> usage list \<Rightarrow> (real \<times> real) list" where
  "spent f us = map (\<lambda>u. (fst u, amount (f u))) us"

lemma recent_append: "recent width (h @ h') now = recent width h now + recent width h' now"
  by (simp add: recent_def)

lemma recent_drop_zero:
  "recent width (filter (\<lambda>(t, v). v \<noteq> 0) h) now = recent width h now"
  by (induction h) (auto simp: recent_def)

lemma sorted_filter_fst: "sorted (map fst h) \<Longrightarrow> sorted (map fst (filter P h))"
  by (rule sorted_filter)

lemma record_amount_fold:
  assumes "limit = Some l"
  shows "foldl (\<lambda>w u. record_amount (f u) limit w (fst u)) w us =
    foldl (\<lambda>w (t, v). window_observe w v t) w (filter (\<lambda>(t, v). v \<noteq> 0) (spent f us))"
  by (induction us arbitrary: w)
    (auto simp: assms record_amount_def spent_def amount_def split: option.splits prod.splits)

lemma record_all_fields:
  assumes "lm_enabled (bt_settings b)"
  shows "record_all b us = b\<lparr>
    bt_tokens := foldl (\<lambda>w u. record_amount (fst (snd u)) (lm_tokens_per_min (bt_settings b)) w (fst u)) (bt_tokens b) us,
    bt_cost := foldl (\<lambda>w u. record_amount (snd (snd u)) (lm_cost_per_hour (bt_settings b)) w (fst u)) (bt_cost b) us\<rparr>"
  using assms
proof (induction us arbitrary: b)
  case (Cons u us)
  then show ?case by (cases u) (simp add: record_all_def budget_record_def)
qed (simp add: record_all_def)

lemma window_spent:
  assumes "sorted (map fst us @ [now])" and "limit = Some l" and "0 \<le> width"
  shows "fst (window_total (foldl (\<lambda>w u. record_amount (f u) limit w (fst u)) (mk_window width) us) now) =
    recent width (spent f us) now"
proof -
  let ?es = "filter (\<lambda>(t, v). v \<noteq> 0) (spent f us)"
  have "sorted (map fst (spent f us))" "\<forall>e\<in>set (spent f us). fst e \<le> now"
    using assms(1) by (auto simp: spent_def sorted_append comp_def)
  then have "sorted (map fst ?es @ [now])"
    using sorted_filter_fst[of "spent f us"] by (auto simp: sorted_append)
  from rw.total_after[OF this, of width] show ?thesis
    using assms(3) by (simp add: record_amount_fold[OF assms(2)] recent_drop_zero max_absorb1)
qed

definition over_budget :: "real option \<Rightarrow> real \<Rightarrow> bool" where
  "over_budget limit n = (case limit of None \<Rightarrow> False | Some l \<Rightarrow> l \<le> n)"

text \<open>
  A budget admits exactly what was spent allows: after any usage reports at times that do not
  decrease, an enabled tracker refuses at \<open>now\<close> because of tokens exactly when a token limit is set
  and at least that many tokens were reported in the last 60 seconds, otherwise because of cost
  exactly when a cost limit is set and reached by the reports of the last hour, and otherwise
  accepts.  Absent and negative amounts do not count.
\<close>

theorem budget_admission_exact:
  assumes "lm_enabled s" and "sorted (map fst us @ [now])"
  shows "fst (can_accept (record_all (mk_budget s) us) now) =
    (if over_budget (lm_tokens_per_min s) (recent 60 (spent (\<lambda>u. fst (snd u)) us) now) then budget_exceeded ''tokens''
     else if over_budget (lm_cost_per_hour s) (recent 3600 (spent (\<lambda>u. snd (snd u)) us) now) then budget_exceeded ''cost''
     else \<lparr>bu_allowed = True, bu_reason = None, bu_kind = None\<rparr>)"
proof -
  have t: "fst (window_total (bt_tokens (record_all (mk_budget s) us)) now) = recent 60 (spent (\<lambda>u. fst (snd u)) us) now"
    if "lm_tokens_per_min s = Some l" for l
    using window_spent[OF assms(2) that, of 60 "\<lambda>u. fst (snd u)"] assms(1) by (simp add: record_all_fields mk_budget_def)
  have c: "fst (window_total (bt_cost (record_all (mk_budget s) us)) now) = recent 3600 (spent (\<lambda>u. snd (snd u)) us) now"
    if "lm_cost_per_hour s = Some l" for l
    using window_spent[OF assms(2) that, of 3600 "\<lambda>u. snd (snd u)"] assms(1) by (simp add: record_all_fields mk_budget_def)
  have "bt_settings (record_all (mk_budget s) us) = s" using assms(1) by (simp add: record_all_fields mk_budget_def)
  then show ?thesis using t c assms(1)
    by (auto simp: can_accept_def within_budget_def over_budget_def case_prod_unfold Let_def split: option.splits)
qed

definition token_limit :: limit_settings where
  "token_limit = limits_off\<lparr>lm_enabled := True, lm_tokens_per_min := Some 100\<rparr>"

theorem budget_admission_exact_witness:
  "fst (can_accept (record_all (mk_budget token_limit) [(0, Some 80, None), (10, Some (- 5), Some 2), (50, Some 30, None)]) 55) =
     budget_exceeded ''tokens'' \<and>
   fst (can_accept (record_all (mk_budget token_limit) [(0, Some 80, None), (10, Some (- 5), Some 2), (50, Some 30, None)]) 61) =
     \<lparr>bu_allowed = True, bu_reason = None, bu_kind = None\<rparr>"
proof -
  have "lm_enabled token_limit" by (simp add: token_limit_def)
  from budget_admission_exact[OF this, of "[(0, Some 80, None), (10, Some (- 5), Some 2), (50, Some 30, None)]"]
  show ?thesis by (simp add: token_limit_def limits_off_def over_budget_def recent_def spent_def amount_def)
qed

end
