(* ===== verification/Governance.thy ===== *)
theory Governance
  imports Breaker Rate_Limits
begin

text \<open>
  The governance manager (\<^verbatim>\<open>tm/governance/manager.py\<close> and the configuration classes of
  \<^verbatim>\<open>tm/governance/config.py\<close>): the admission of a request against the circuit breakers and limits of its
  scopes, and the life cycle of an admitted request.  The code's reservations point to the tracker
  objects in the manager's dictionaries, which never drop an entry; here a reservation is the key
  of the tracker.  The clock reading of a call is an argument.  Metrics and guard rules are left out.
\<close>

section \<open>Configuration\<close>

record limits_config =
  lc_enabled :: bool
  lc_global :: limit_settings
  lc_per_flow :: "(string, limit_settings) dict"
  lc_per_policy_arm :: "(string \<times> string, limit_settings) dict"

definition any_limits :: "limits_config \<Rightarrow> bool" where
  "any_limits c \<longleftrightarrow> lc_enabled c \<and> (limit_active (lc_global c) \<or>
     list_ex (\<lambda>(_, s). limit_active s) (lc_per_flow c) \<or> list_ex (\<lambda>(_, s). limit_active s) (lc_per_policy_arm c))"

record breaker_config =
  bc_enabled :: bool
  bc_global :: breaker_settings
  bc_per_flow :: "(string, breaker_settings) dict"
  bc_per_policy :: "(string, breaker_settings) dict"

definition any_breakers :: "breaker_config \<Rightarrow> bool" where
  "any_breakers c \<longleftrightarrow> bc_enabled c \<and> (breaker_active (bc_global c) \<or>
     list_ex (\<lambda>(_, s). breaker_active s) (bc_per_flow c) \<or> list_ex (\<lambda>(_, s). breaker_active s) (bc_per_policy c))"

record governance_config =
  gc_enabled :: bool
  gc_limits :: limits_config
  gc_breaker :: breaker_config

definition limits_enabled :: "governance_config \<Rightarrow> bool" where
  "limits_enabled c \<longleftrightarrow> gc_enabled c \<and> any_limits (gc_limits c)"

definition breaker_enabled :: "governance_config \<Rightarrow> bool" where
  "breaker_enabled c \<longleftrightarrow> gc_enabled c \<and> any_breakers (gc_breaker c)"

section \<open>Requests, decisions and the manager\<close>

type_synonym limit_key = "string \<times> string option \<times> string option"
type_synonym breaker_key = "string \<times> string option"

record request_descriptor =
  rq_flow :: string
  rq_binding :: "string option"
  rq_policy_arm :: "string option"

record governance_decision =
  gd_allowed :: bool
  gd_error_code :: "string option"
  gd_scope :: "string option"
  gd_meta :: "(string, string) dict"
  gd_limit_reservations :: "limit_key list"
  gd_breaker_reservations :: "breaker_key list"

record limit_state =
  li_rate :: rate_tracker
  li_budget :: budget_tracker

record governance_manager =
  gm_config :: governance_config
  gm_limits_enabled :: bool
  gm_breaker_enabled :: bool
  gm_limit_states :: "(limit_key, limit_state) dict"
  gm_breaker_states :: "(breaker_key, breaker) dict"

definition mk_manager :: "governance_config \<Rightarrow> governance_manager" where
  "mk_manager c = \<lparr>gm_config = c, gm_limits_enabled = limits_enabled c, gm_breaker_enabled = breaker_enabled c,
     gm_limit_states = [], gm_breaker_states = []\<rparr>"

text \<open>A string or \<^verbatim>\<open>None\<close> as a condition.\<close>

definition given :: "string option \<Rightarrow> bool" where
  "given x = (case x of None \<Rightarrow> False | Some s \<Rightarrow> s \<noteq> [])"

definition scope_entry :: "'k \<Rightarrow> 's option \<Rightarrow> ('k \<times> 's) list" where
  "scope_entry k cfg = (case cfg of None \<Rightarrow> [] | Some s \<Rightarrow> [(k, s)])"

definition limit_scopes :: "governance_config \<Rightarrow> request_descriptor \<Rightarrow> (limit_key \<times> limit_settings) list" where
  "limit_scopes c rq = (let l = gc_limits c in
     if \<not> lc_enabled l then []
     else
       (if given (rq_binding rq) \<and> given (rq_policy_arm rq)
        then scope_entry (''policy'', rq_binding rq, rq_policy_arm rq)
          (dict_get (lc_per_policy_arm l) (the (rq_binding rq), the (rq_policy_arm rq)))
        else []) @
       (if rq_flow rq \<noteq> [] then scope_entry (''flow'', Some (rq_flow rq), None) (dict_get (lc_per_flow l) (rq_flow rq)) else []) @
       (if limit_active (lc_global l) then [((''global'', None, None), lc_global l)] else []))"

definition breaker_scopes :: "governance_config \<Rightarrow> request_descriptor \<Rightarrow> (breaker_key \<times> breaker_settings) list" where
  "breaker_scopes c rq = (let b = gc_breaker c in
     if \<not> bc_enabled b then []
     else
       (if given (rq_binding rq)
        then scope_entry (''policy'', rq_binding rq) (dict_get (bc_per_policy b) (the (rq_binding rq))) else []) @
       (if rq_flow rq \<noteq> [] then scope_entry (''flow'', Some (rq_flow rq)) (dict_get (bc_per_flow b) (rq_flow rq)) else []) @
       (if breaker_active (bc_global b) then [((''global'', None), bc_global b)] else []))"

definition format_limit_scope :: "limit_key \<Rightarrow> string" where
  "format_limit_scope k = (case k of (level, name, arm) \<Rightarrow>
     if level = ''global'' then ''global''
     else if level = ''flow'' \<and> given name then ''flow:'' @ the name
     else if level = ''policy'' \<and> given name \<and> given arm then ''policy:'' @ the name @ '':'' @ the arm
     else level)"

definition format_breaker_scope :: "breaker_key \<Rightarrow> string" where
  "format_breaker_scope k = (case k of (level, name) \<Rightarrow>
     if level = ''global'' \<or> \<not> given name then ''global'' else level @ '':'' @ the name)"

text \<open>\<^verbatim>\<open>x in s\<close> for strings.\<close>

fun str_contains :: "string \<Rightarrow> string \<Rightarrow> bool" where
  "str_contains x [] = (x = [])"
| "str_contains x (c # cs) = (starts_with x (c # cs) \<or> str_contains x cs)"

definition looks_like_timeout :: "string option \<Rightarrow> bool" where
  "looks_like_timeout e = (case e of
       None \<Rightarrow> False
     | Some code \<Rightarrow> code \<noteq> [] \<and> (str_contains ''timeout'' (str_lower code) \<or> str_lower code = ''asyncio.timeouterror''))"

definition dict_adjust :: "'k \<Rightarrow> ('v \<Rightarrow> 'v) \<Rightarrow> ('k, 'v) dict \<Rightarrow> ('k, 'v) dict" where
  "dict_adjust k f d = (case dict_get d k of None \<Rightarrow> d | Some v \<Rightarrow> dict_set k (f v) d)"

definition ensure_limit_state :: "limit_key \<Rightarrow> limit_settings \<Rightarrow> (limit_key, limit_state) dict \<Rightarrow> (limit_key, limit_state) dict" where
  "ensure_limit_state k s d = dict_setdefault k \<lparr>li_rate = mk_rate s, li_budget = mk_budget s\<rparr> d"

definition ensure_breaker_state :: "breaker_key \<Rightarrow> breaker_settings \<Rightarrow> (breaker_key, breaker) dict \<Rightarrow> (breaker_key, breaker) dict" where
  "ensure_breaker_state k s d = dict_setdefault k (mk_breaker s) d"

definition rollback_limits :: "limit_key list \<Rightarrow> (limit_key, limit_state) dict \<Rightarrow> (limit_key, limit_state) dict" where
  "rollback_limits ks d = foldl (\<lambda>d k. dict_adjust k (\<lambda>l. l\<lparr>li_rate := rate_cancel_pending (li_rate l)\<rparr>) d) d ks"

definition release_breakers :: "breaker_key list \<Rightarrow> (breaker_key, breaker) dict \<Rightarrow> (breaker_key, breaker) dict" where
  "release_breakers ks d = foldl (\<lambda>d k. dict_adjust k release_half_open_slot d) d ks"

definition deny :: "string \<Rightarrow> string \<Rightarrow> (string, string) dict \<Rightarrow> governance_decision" where
  "deny code scope meta = \<lparr>gd_allowed = False, gd_error_code = Some code, gd_scope = Some scope, gd_meta = meta,
     gd_limit_reservations = [], gd_breaker_reservations = []\<rparr>"

definition grant :: "limit_key list \<Rightarrow> breaker_key list \<Rightarrow> governance_decision" where
  "grant ls bs = \<lparr>gd_allowed = True, gd_error_code = None, gd_scope = None, gd_meta = [],
     gd_limit_reservations = ls, gd_breaker_reservations = bs\<rparr>"

section \<open>Admission\<close>

text \<open>The loop over the breaker scopes: the handles held on success, or the denial.\<close>

fun check_breakers :: "real \<Rightarrow> (breaker_key \<times> breaker_settings) list \<Rightarrow> breaker_key list \<Rightarrow> (breaker_key, breaker) dict
    \<Rightarrow> (governance_decision + breaker_key list) \<times> (breaker_key, breaker) dict" where
  "check_breakers now [] handles d = (Inr handles, d)"
| "check_breakers now ((k, s) # scopes) handles d =
     (let d1 = ensure_breaker_state k s d;
          (decision, b) = can_execute (the (dict_get d1 k)) now;
          d2 = dict_set k b d1
      in if \<not> bd_allowed decision
         then (Inl (deny (case bd_reason decision of Some r \<Rightarrow> if r \<noteq> [] then r else ''CIRCUIT_OPEN'' | None \<Rightarrow> ''CIRCUIT_OPEN'')
                      (format_breaker_scope k) []),
               release_breakers handles d2)
         else check_breakers now scopes (handles @ [k]) d2)"

text \<open>The loop over the limit scopes.\<close>

fun check_limits :: "real \<Rightarrow> (limit_key \<times> limit_settings) list \<Rightarrow> limit_key list \<Rightarrow> (limit_key, limit_state) dict
    \<Rightarrow> (governance_decision + limit_key list) \<times> (limit_key, limit_state) dict" where
  "check_limits now [] held d = (Inr held, d)"
| "check_limits now ((k, s) # scopes) held d =
     (let d1 = ensure_limit_state k s d;
          l = the (dict_get d1 k);
          (rate_decision, r1) = check_and_reserve (li_rate l) now
      in if \<not> rd_allowed rate_decision
         then (Inl (deny (case rd_reason rate_decision of Some r \<Rightarrow> if r \<noteq> [] then r else ''RATE_LIMITED'' | None \<Rightarrow> ''RATE_LIMITED'')
                      (format_limit_scope k) []),
               rollback_limits held (dict_set k (l\<lparr>li_rate := r1\<rparr>) d1))
         else
           let (budget_decision, b1) = can_accept (li_budget l) now
           in if \<not> bu_allowed budget_decision
              then (Inl (deny (case bu_reason budget_decision of Some r \<Rightarrow> if r \<noteq> [] then r else ''BUDGET_EXCEEDED'' | None \<Rightarrow> ''BUDGET_EXCEEDED'')
                           (format_limit_scope k)
                           (if given (bu_kind budget_decision) then [(''budget_kind'', the (bu_kind budget_decision))] else [])),
                    rollback_limits held (dict_set k \<lparr>li_rate = rate_cancel_pending r1, li_budget = b1\<rparr> d1))
              else check_limits now scopes (held @ [k]) (dict_set k \<lparr>li_rate = r1, li_budget = b1\<rparr> d1))"

definition gov_check :: "governance_manager \<Rightarrow> real \<Rightarrow> request_descriptor \<Rightarrow> governance_decision \<times> governance_manager" where
  "gov_check gm now rq =
     (if \<not> (gm_limits_enabled gm \<or> gm_breaker_enabled gm) then (grant [] [], gm)
      else
        let (br, bd) = (if gm_breaker_enabled gm then check_breakers now (breaker_scopes (gm_config gm) rq) [] (gm_breaker_states gm)
                        else (Inr [], gm_breaker_states gm))
        in case br of
          Inl denial \<Rightarrow> (denial, gm\<lparr>gm_breaker_states := bd\<rparr>)
        | Inr handles \<Rightarrow>
            (let (lr, ld) = (if gm_limits_enabled gm then check_limits now (limit_scopes (gm_config gm) rq) [] (gm_limit_states gm)
                             else (Inr [], gm_limit_states gm))
             in case lr of
               Inl denial \<Rightarrow> (denial, gm\<lparr>gm_breaker_states := release_breakers handles bd, gm_limit_states := ld\<rparr>)
             | Inr held \<Rightarrow> (grant held handles, gm\<lparr>gm_breaker_states := bd, gm_limit_states := ld\<rparr>)))"

section \<open>After admission\<close>

definition gov_activate :: "governance_manager \<Rightarrow> real \<Rightarrow> governance_decision \<Rightarrow> governance_manager" where
  "gov_activate gm now d =
     (if \<not> gd_allowed d then gm
      else gm\<lparr>gm_limit_states := foldl (\<lambda>m k. dict_adjust k (\<lambda>l. l\<lparr>li_rate := rate_activate (li_rate l) now\<rparr>) m)
                (gm_limit_states gm) (gd_limit_reservations d)\<rparr>)"

definition finish_limit :: "real \<Rightarrow> real option \<Rightarrow> real option \<Rightarrow> limit_state \<Rightarrow> limit_state" where
  "finish_limit now tokens cost l =
     l\<lparr>li_rate := rate_release (li_rate l),
       li_budget := snd (budget_snapshot (budget_record (li_budget l) tokens cost now) now)\<rparr>"

definition finish_breaker :: "real \<Rightarrow> bool \<Rightarrow> bool \<Rightarrow> breaker \<Rightarrow> breaker" where
  "finish_breaker now success timeout b =
     (let b1 = release_half_open_slot b in if success then record_success b1 now else record_failure b1 now timeout)"

definition gov_finalize ::
  "governance_manager \<Rightarrow> real \<Rightarrow> governance_decision \<Rightarrow> string \<Rightarrow> string option \<Rightarrow> real option \<Rightarrow> real option \<Rightarrow> governance_manager" where
  "gov_finalize gm now d status error_code tokens cost =
     (if \<not> gd_allowed d then gm
      else
        let success = (status = ''ok''); timeout = looks_like_timeout error_code in
        gm\<lparr>gm_limit_states := foldl (\<lambda>m k. dict_adjust k (finish_limit now tokens cost) m) (gm_limit_states gm) (gd_limit_reservations d),
           gm_breaker_states := foldl (\<lambda>m k. dict_adjust k (finish_breaker now success timeout) m) (gm_breaker_states gm)
             (gd_breaker_reservations d)\<rparr>)"

definition gov_cancel :: "governance_manager \<Rightarrow> governance_decision \<Rightarrow> governance_manager" where
  "gov_cancel gm d =
     (if \<not> gd_allowed d then gm
      else gm\<lparr>gm_limit_states := rollback_limits (gd_limit_reservations d) (gm_limit_states gm),
              gm_breaker_states := release_breakers (gd_breaker_reservations d) (gm_breaker_states gm)\<rparr>)"

section \<open>Counting reservations\<close>

lemma dict_get_adjust [dict_simps]:
  "dict_get (dict_adjust k f d) k' = (if k' = k then map_option f (dict_get d k) else dict_get d k')"
  by (auto simp: dict_adjust_def dict_simps split: option.splits)

lemma dict_get_foldl_adjust:
  "distinct ks \<Longrightarrow> dict_get (foldl (\<lambda>d k. dict_adjust k f d) d ks) k =
     (if k \<in> set ks then map_option f (dict_get d k) else dict_get d k)"
  by (induction ks arbitrary: d) (auto simp: dict_simps)

text \<open>The trackers of a manager hold \<open>p\<close> pending and \<open>a\<close> active reservations per scope, within the limits.\<close>

definition tracked :: "limit_state option \<Rightarrow> int \<Rightarrow> int \<Rightarrow> bool" where
  "tracked l p a = (case l of
       None \<Rightarrow> p = 0 \<and> a = 0
     | Some l \<Rightarrow> rate_holds (li_rate l) p a \<and> (\<forall>c. rate_capacity (li_rate l) = Some c \<longrightarrow> p + a \<le> max 0 c))"

definition accounted :: "(limit_key, limit_state) dict \<Rightarrow> (limit_key \<Rightarrow> int) \<Rightarrow> (limit_key \<Rightarrow> int) \<Rightarrow> bool" where
  "accounted d p a \<longleftrightarrow> (\<forall>k. 0 \<le> p k \<and> 0 \<le> a k \<and> tracked (dict_get d k) (p k) (a k))"

definition held_count :: "limit_key list \<Rightarrow> limit_key \<Rightarrow> int" where
  "held_count ks k = (if k \<in> set ks then 1 else 0)"

lemma accountedI: "(\<And>k. 0 \<le> p k \<and> 0 \<le> a k \<and> tracked (dict_get d k) (p k) (a k)) \<Longrightarrow> accounted d p a"
  unfolding accounted_def by blast

lemma accountedD: "accounted d p a \<Longrightarrow> 0 \<le> p k \<and> 0 \<le> a k \<and> tracked (dict_get d k) (p k) (a k)"
  unfolding accounted_def by blast

lemma rate_holds_mk: "rate_holds (mk_rate s) 0 0"
  by (simp add: rate_holds_def mk_rate_def)

lemma tracked_ensure: "tracked (dict_get d k) p a \<Longrightarrow> tracked (dict_get (ensure_limit_state k' s d) k) p a"
  using rate_holds_mk by (auto simp: ensure_limit_state_def dict_simps dict_get_or_def tracked_def split: option.splits)

text \<open>A loop over distinct scopes that hold something changes each of them once.\<close>

lemma accounted_foldl:
  assumes acc: "accounted d p a" and "distinct ks" and "\<And>k. k \<in> set ks \<Longrightarrow> 0 < p k + a k"
    and step: "\<And>l k. k \<in> set ks \<Longrightarrow> tracked (Some l) (p k) (a k) \<Longrightarrow> tracked (Some (f l)) (p' k) (a' k)"
    and "\<And>k. k \<notin> set ks \<Longrightarrow> p' k = p k \<and> a' k = a k" and "\<And>k. 0 \<le> p' k \<and> 0 \<le> a' k"
  shows "accounted (foldl (\<lambda>d k. dict_adjust k f d) d ks) p' a'"
proof (rule accountedI)
  fix k
  have t: "tracked (dict_get d k) (p k) (a k)" using accountedD[OF acc] by blast
  have "tracked (dict_get (foldl (\<lambda>d k. dict_adjust k f d) d ks) k) (p' k) (a' k)"
  proof (cases "k \<in> set ks")
    case True
    then obtain l where "dict_get d k = Some l" using t assms(3)[OF True] by (cases "dict_get d k") (auto simp: tracked_def)
    then show ?thesis using True step[OF True] t by (simp add: dict_get_foldl_adjust[OF assms(2)])
  next
    case False
    then show ?thesis using assms(5)[OF False] t by (simp add: dict_get_foldl_adjust[OF assms(2)])
  qed
  then show "0 \<le> p' k \<and> 0 \<le> a' k \<and> tracked (dict_get (foldl (\<lambda>d k. dict_adjust k f d) d ks) k) (p' k) (a' k)"
    using assms(6) by blast
qed

lemma capacity_kept_rate:
  "rate_capacity (rate_cancel_pending r) = rate_capacity r" "rate_capacity (rate_activate r now) = rate_capacity r"
  "rate_capacity (rate_release r) = rate_capacity r"
  using rate.capacity_kept by auto

lemma tracked_cancel:
  "tracked (Some l) (p + 1) a \<Longrightarrow> 0 \<le> p \<Longrightarrow> tracked (Some (l\<lparr>li_rate := rate_cancel_pending (li_rate l)\<rparr>)) p a"
  using rate.cancel_holds[of "li_rate l" p a] by (force simp: tracked_def capacity_kept_rate)

lemma tracked_activate:
  "tracked (Some l) (p + 1) a \<Longrightarrow> 0 \<le> p \<Longrightarrow> tracked (Some (l\<lparr>li_rate := rate_activate (li_rate l) now\<rparr>)) p (a + 1)"
  using rate.activate_holds[of "li_rate l" p a now] by (auto simp: tracked_def capacity_kept_rate)

lemma tracked_finish:
  "tracked (Some l) p (a + 1) \<Longrightarrow> 0 \<le> a \<Longrightarrow> tracked (Some (finish_limit now tokens cost l)) p a"
  using rate.release_holds[of "li_rate l" p a] by (force simp: tracked_def finish_limit_def capacity_kept_rate)

lemma accounted_rollback:
  assumes "accounted d (\<lambda>k. p k + held_count ks k) a" and "distinct ks" and "\<And>k. 0 \<le> p k"
  shows "accounted (rollback_limits ks d) p a"
  unfolding rollback_limits_def
proof (rule accounted_foldl[OF assms(1,2)])
  show "0 \<le> p k \<and> 0 \<le> a k" for k using assms(3) accountedD[OF assms(1)] by blast
  show "0 < p k + held_count ks k + a k" if "k \<in> set ks" for k
    using that assms(3)[of k] accountedD[OF assms(1), of k] by (simp add: held_count_def)
  show "tracked (Some (l\<lparr>li_rate := rate_cancel_pending (li_rate l)\<rparr>)) (p k) (a k)"
    if "k \<in> set ks" "tracked (Some l) (p k + held_count ks k) (a k)" for l k
    using that tracked_cancel[of l "p k" "a k"] assms(3) by (simp add: held_count_def)
qed (simp add: held_count_def)

lemma tracked_reserve:
  assumes "tracked (Some l) p a" and "check_and_reserve (li_rate l) now = (dec, r)" and "0 \<le> p" "0 \<le> a"
  shows "rd_allowed dec \<Longrightarrow> tracked (Some (l'\<lparr>li_rate := r\<rparr>)) (p + 1) a"
    and "\<not> rd_allowed dec \<Longrightarrow> tracked (Some (l'\<lparr>li_rate := r\<rparr>)) p a"
proof -
  have res: "rate_reserve (li_rate l) now = (rd_allowed dec, r)" using assms(2) by (simp add: rate_reserve_def)
  have cap: "rate_capacity r = rate_capacity (li_rate l)" using rate.capacity_kept(1)[of "li_rate l" now] res by simp
  show "rd_allowed dec \<Longrightarrow> tracked (Some (l'\<lparr>li_rate := r\<rparr>)) (p + 1) a"
    using assms(1) res rate.reserve_holds[of "li_rate l" p a now r] rate.reserve_within[of "li_rate l" p a now r] cap
    by (auto simp: tracked_def)
  show "\<not> rd_allowed dec \<Longrightarrow> tracked (Some (l'\<lparr>li_rate := r\<rparr>)) p a"
    using assms(1) res rate.refuse_holds[of "li_rate l" p a now r] cap by (auto simp: tracked_def)
qed

lemma accounted_ensure: "accounted d p a \<Longrightarrow> accounted (ensure_limit_state k s d) p a"
proof (rule accountedI)
  fix k' assume "accounted d p a"
  from accountedD[OF this, of k']
  show "0 \<le> p k' \<and> 0 \<le> a k' \<and> tracked (dict_get (ensure_limit_state k s d) k') (p k') (a k')"
    using tracked_ensure by blast
qed

lemma accounted_set:
  assumes "accounted d p a" and "tracked (Some l) (p' k) (a k)" and "0 \<le> p' k" and "\<And>k'. k' \<noteq> k \<Longrightarrow> p' k' = p k'"
  shows "accounted (dict_set k l d) p' a"
proof (rule accountedI)
  fix k'
  show "0 \<le> p' k' \<and> 0 \<le> a k' \<and> tracked (dict_get (dict_set k l d) k') (p' k') (a k')"
    using accountedD[OF assms(1), of k'] assms(2-4) by (cases "k' = k") (auto simp: dict_simps)
qed

definition limits_outcome ::
  "(limit_key \<Rightarrow> int) \<Rightarrow> (limit_key \<Rightarrow> int) \<Rightarrow> limit_key list \<Rightarrow> (governance_decision + limit_key list) \<times> (limit_key, limit_state) dict \<Rightarrow> bool" where
  "limits_outcome p a ks res = (case res of
      (Inl denial, d) \<Rightarrow> accounted d p a \<and> \<not> gd_allowed denial
    | (Inr held, d) \<Rightarrow> held = ks \<and> accounted d (\<lambda>k. p k + held_count ks k) a)"

lemma check_limits_accounted:
  assumes "accounted d (\<lambda>k. p k + held_count held k) a" and "distinct (held @ map fst scopes)" and "\<And>k. 0 \<le> p k"
  shows "limits_outcome p a (held @ map fst scopes) (check_limits now scopes held d)"
  using assms(1,2)
proof (induction scopes arbitrary: held d)
  case (Cons sc scopes)
  obtain k s where sc: "sc = (k, s)" by (cases sc)
  define d1 where "d1 = ensure_limit_state k s d"
  have acc: "accounted d1 (\<lambda>k. p k + held_count held k) a" using accounted_ensure[OF Cons.prems(1)] by (simp add: d1_def)
  have k: "k \<notin> set held" "held_count held k = 0" "distinct held" using Cons.prems(2) sc by (auto simp: held_count_def)
  obtain l where l: "dict_get d1 k = Some l" by (auto simp: d1_def ensure_limit_state_def dict_simps)
  have t: "tracked (Some l) (p k) (a k)" "0 \<le> a k" using accountedD[OF acc, of k] l k by auto
  obtain dec r where r: "check_and_reserve (li_rate l) now = (dec, r)" by fastforce
  obtain bd b where b: "can_accept (li_budget l) now = (bd, b)" by fastforce
  note tr = tracked_reserve[OF t(1) r assms(3) t(2)]
  show ?case
  proof (cases "rd_allowed dec")
    case False
    have "accounted (dict_set k (l\<lparr>li_rate := r\<rparr>) d1) (\<lambda>k. p k + held_count held k) a"
      by (rule accounted_set[OF acc]) (use tr(2)[OF False, of l] k assms(3)[of k] in auto)
    then show ?thesis using accounted_rollback[OF _ k(3) assms(3)] False r l
      by (simp add: sc d1_def[symmetric] deny_def Let_def limits_outcome_def)
  next
    case True
    have up: "tracked (Some \<lparr>li_rate = r, li_budget = b\<rparr>) (p k + 1) (a k)" using tr(1)[OF True, of "\<lparr>li_rate = undefined, li_budget = b\<rparr>"] by simp
    show ?thesis
    proof (cases "bu_allowed bd")
      case False
      have "tracked (Some \<lparr>li_rate = rate_cancel_pending r, li_budget = b\<rparr>) (p k) (a k)"
        using tracked_cancel[OF up assms(3)] by simp
      then have "accounted (dict_set k \<lparr>li_rate = rate_cancel_pending r, li_budget = b\<rparr> d1) (\<lambda>k. p k + held_count held k) a"
        using k assms(3)[of k] by (intro accounted_set[OF acc]) auto
      then show ?thesis using accounted_rollback[OF _ k(3) assms(3)] False True r b l
        by (simp add: sc d1_def[symmetric] deny_def Let_def limits_outcome_def)
    next
      case bu: True
      have "accounted (dict_set k \<lparr>li_rate = r, li_budget = b\<rparr> d1) (\<lambda>k'. p k' + held_count (held @ [k]) k') a"
        by (rule accounted_set[OF acc]) (use up k assms(3)[of k] in \<open>auto simp: held_count_def\<close>)
      from Cons.IH[OF this] show ?thesis using Cons.prems(2) True bu r b l by (simp add: sc d1_def[symmetric] Let_def)
    qed
  qed
qed (simp add: limits_outcome_def)

lemma limit_scopes_distinct: "distinct (map fst (limit_scopes c rq))"
  by (auto simp: limit_scopes_def scope_entry_def Let_def split: option.splits)

lemma gov_check_accounted:
  assumes "accounted (gm_limit_states gm) p a" and "\<And>k. 0 \<le> p k" and "gov_check gm now rq = (d, gm')"
  shows "if gd_allowed d then distinct (gd_limit_reservations d) \<and>
        accounted (gm_limit_states gm') (\<lambda>k. p k + held_count (gd_limit_reservations d) k) a
      else accounted (gm_limit_states gm') p a"
proof -
  have acc0: "accounted (gm_limit_states gm) (\<lambda>k. p k + held_count [] k) a" using assms(1) by (simp add: held_count_def)
  have ch: "limits_outcome p a (map fst (limit_scopes (gm_config gm) rq))
      (check_limits now (limit_scopes (gm_config gm) rq) [] (gm_limit_states gm))"
    using check_limits_accounted[OF acc0 _ assms(2), of "limit_scopes (gm_config gm) rq" now] limit_scopes_distinct
    by simp
  have den: "\<not> gd_allowed x" if "check_breakers now sc hs bd = (Inl x, bd')" for x sc hs bd bd'
    using that by (induction sc arbitrary: hs bd) (auto simp: deny_def Let_def split: prod.splits if_splits)
  show ?thesis
    using assms(3,1) acc0 ch den limit_scopes_distinct[of "gm_config gm" rq]
    by (auto simp: gov_check_def grant_def held_count_def Let_def limits_outcome_def split: if_splits prod.splits sum.splits)
qed

section \<open>The life cycle of requests\<close>

text \<open>
  The use the flow runtime makes of the manager (\<^verbatim>\<open>tm/flow/runtime.py\<close>): a request that is admitted is
  either cancelled before it runs or activated and later finalized, each at most once, in any
  interleaving with other requests.
\<close>

datatype phase = Admitted | Running

type_synonym live = "(phase \<times> governance_decision) list"

inductive gov_step :: "governance_manager \<times> live \<Rightarrow> governance_manager \<times> live \<Rightarrow> bool" where
  admit_request: "gov_check gm now rq = (d, gm') \<Longrightarrow> gd_allowed d \<Longrightarrow> gov_step (gm, live) (gm', (Admitted, d) # live)"
| deny_request: "gov_check gm now rq = (d, gm') \<Longrightarrow> \<not> gd_allowed d \<Longrightarrow> gov_step (gm, live) (gm', live)"
| activate_request: "gov_step (gm, xs @ (Admitted, d) # ys) (gov_activate gm now d, xs @ (Running, d) # ys)"
| cancel_request: "gov_step (gm, xs @ (Admitted, d) # ys) (gov_cancel gm d, xs @ ys)"
| finalize_request: "gov_step (gm, xs @ (Running, d) # ys) (gov_finalize gm now d status error_code tokens cost, xs @ ys)"

inductive_cases gov_step_cases: "gov_step (gm, live) (gm', live')"

definition holders :: "phase \<Rightarrow> live \<Rightarrow> limit_key \<Rightarrow> int" where
  "holders ph live k = int (length (filter (\<lambda>(p, d). p = ph \<and> k \<in> set (gd_limit_reservations d)) live))"

definition live_ok :: "live \<Rightarrow> bool" where
  "live_ok live \<longleftrightarrow> (\<forall>(p, d)\<in>set live. gd_allowed d \<and> distinct (gd_limit_reservations d))"

definition gov_inv :: "governance_manager \<times> live \<Rightarrow> bool" where
  "gov_inv g \<longleftrightarrow> live_ok (snd g) \<and> accounted (gm_limit_states (fst g)) (holders Admitted (snd g)) (holders Running (snd g))"

lemma holders_split:
  "holders ph (xs @ (q, d) # ys) = (\<lambda>k. holders ph (xs @ ys) k + (if ph = q then held_count (gd_limit_reservations d) k else 0))"
  by (auto simp: holders_def held_count_def fun_eq_iff)

lemma holders_nonneg: "0 \<le> holders ph live k"
  by (simp add: holders_def)

lemma gov_inv_step:
  assumes "gov_step g g'" and "gov_inv g"
  shows "gov_inv g'"
  using assms
proof (induction rule: gov_step.induct)
  case (admit_request gm now rq d gm' live)
  have "holders Admitted ((Admitted, d) # live) = (\<lambda>k. holders Admitted live k + held_count (gd_limit_reservations d) k)"
    "holders Running ((Admitted, d) # live) = holders Running live"
    using holders_split[of _ "[]" Admitted d live] by simp_all
  then show ?case
    using gov_check_accounted[OF _ holders_nonneg admit_request(1)] admit_request(2,3) by (auto simp: gov_inv_def live_ok_def)
next
  case (deny_request gm now rq d gm' live)
  then show ?case using gov_check_accounted[OF _ holders_nonneg deny_request(1)] by (auto simp: gov_inv_def)
next
  case (activate_request gm xs d ys now)
  let ?p = "holders Admitted (xs @ ys)" and ?a = "holders Running (xs @ ys)" and ?ks = "gd_limit_reservations d"
  have d: "gd_allowed d" "distinct ?ks" and acc: "accounted (gm_limit_states gm) (\<lambda>k. ?p k + held_count ?ks k) ?a"
    using activate_request by (auto simp: gov_inv_def live_ok_def holders_split)
  have "accounted (foldl (\<lambda>m k. dict_adjust k (\<lambda>l. l\<lparr>li_rate := rate_activate (li_rate l) now\<rparr>) m) (gm_limit_states gm) ?ks)
      ?p (\<lambda>k. ?a k + held_count ?ks k)"
    by (rule accounted_foldl[OF acc d(2)])
      (use holders_nonneg tracked_activate in \<open>auto simp: held_count_def add_nonneg_nonneg add_pos_nonneg\<close>)
  then show ?case using activate_request d by (auto simp: gov_inv_def live_ok_def holders_split gov_activate_def)
next
  case (cancel_request gm xs d ys)
  let ?p = "holders Admitted (xs @ ys)" and ?a = "holders Running (xs @ ys)" and ?ks = "gd_limit_reservations d"
  have d: "gd_allowed d" "distinct ?ks" and acc: "accounted (gm_limit_states gm) (\<lambda>k. ?p k + held_count ?ks k) ?a"
    using cancel_request by (auto simp: gov_inv_def live_ok_def holders_split)
  then show ?case using cancel_request accounted_rollback[OF acc d(2) holders_nonneg]
    by (auto simp: gov_inv_def live_ok_def gov_cancel_def)
next
  case (finalize_request gm xs d ys now status error_code tokens cost)
  let ?p = "holders Admitted (xs @ ys)" and ?a = "holders Running (xs @ ys)" and ?ks = "gd_limit_reservations d"
  have d: "gd_allowed d" "distinct ?ks" and acc: "accounted (gm_limit_states gm) ?p (\<lambda>k. ?a k + held_count ?ks k)"
    using finalize_request by (auto simp: gov_inv_def live_ok_def holders_split)
  have "accounted (foldl (\<lambda>m k. dict_adjust k (finish_limit now tokens cost) m) (gm_limit_states gm) ?ks) ?p ?a"
    by (rule accounted_foldl[OF acc d(2)])
      (use holders_nonneg tracked_finish in \<open>auto simp: held_count_def add_nonneg_pos add_nonneg_nonneg\<close>)
  then show ?case using finalize_request d by (auto simp: gov_inv_def live_ok_def gov_finalize_def Let_def)
qed

lemma gov_inv_init: "gov_inv (mk_manager c, [])"
  by (auto simp: gov_inv_def live_ok_def mk_manager_def holders_def tracked_def intro!: accountedI)

lemma gov_inv_reachable: "gov_step\<^sup>*\<^sup>* (mk_manager c, []) g \<Longrightarrow> gov_inv g"
  by (induction rule: rtranclp_induct) (auto intro: gov_inv_init gov_inv_step)

section \<open>Trackers keep their settings, breakers their invariant\<close>

definition configured :: "governance_config \<Rightarrow> (limit_key, limit_state) dict \<Rightarrow> bool" where
  "configured c d \<longleftrightarrow> (\<forall>k l. dict_get d k = Some l \<longrightarrow> (\<exists>rq. (k, rt_settings (li_rate l)) \<in> set (limit_scopes c rq)))"

lemma scope_settings_unique:
  "(k, s) \<in> set (limit_scopes c rq) \<Longrightarrow> (k, s') \<in> set (limit_scopes c rq') \<Longrightarrow> s = s'"
  by (auto simp: limit_scopes_def scope_entry_def given_def Let_def split: if_splits option.splits) (metis option.inject)+

lemma configuredI: "(\<And>k l. dict_get d k = Some l \<Longrightarrow> \<exists>rq. (k, rt_settings (li_rate l)) \<in> set (limit_scopes c rq)) \<Longrightarrow> configured c d"
  unfolding configured_def by blast

lemma configuredD: "configured c d \<Longrightarrow> dict_get d k = Some l \<Longrightarrow> \<exists>rq. (k, rt_settings (li_rate l)) \<in> set (limit_scopes c rq)"
  unfolding configured_def by blast

lemma configured_set:
  assumes "configured c d" and "(k, rt_settings (li_rate l)) \<in> set (limit_scopes c rq)"
  shows "configured c (dict_set k l d)"
proof (rule configuredI)
  fix k' l' assume "dict_get (dict_set k l d) k' = Some l'"
  then show "\<exists>rq. (k', rt_settings (li_rate l')) \<in> set (limit_scopes c rq)"
    using assms configuredD[OF assms(1), of k' l'] by (cases "k' = k") (auto simp: dict_simps)
qed

lemma configured_adjust:
  assumes "configured c d" and "\<And>l. rt_settings (li_rate (f l)) = rt_settings (li_rate l)"
  shows "configured c (foldl (\<lambda>d k. dict_adjust k f d) d ks)"
  using assms(1)
proof (induction ks arbitrary: d)
  case (Cons k ks)
  have "configured c (dict_adjust k f d)"
  proof (rule configuredI)
    fix k' l assume "dict_get (dict_adjust k f d) k' = Some l"
    then show "\<exists>rq. (k', rt_settings (li_rate l)) \<in> set (limit_scopes c rq)"
      using configuredD[OF Cons.prems, of k'] assms(2) by (cases "k' = k") (auto simp: dict_simps)
  qed
  then show ?case using Cons.IH by simp
qed simp

lemma configured_ensure:
  assumes "configured c d" and "(k, s) \<in> set (limit_scopes c rq)"
  shows "configured c (ensure_limit_state k s d)"
proof (rule configuredI)
  fix k' l assume "dict_get (ensure_limit_state k s d) k' = Some l"
  then show "\<exists>rq. (k', rt_settings (li_rate l)) \<in> set (limit_scopes c rq)"
    using assms(2) configuredD[OF assms(1), of k' l]
    by (cases "dict_get d k"; cases "k' = k") (auto simp: ensure_limit_state_def dict_simps dict_get_or_def mk_rate_def)
qed

lemma configured_rollback: "configured c d \<Longrightarrow> configured c (rollback_limits ks d)"
  unfolding rollback_limits_def by (rule configured_adjust) simp_all

lemma check_limits_configured:
  "configured c d \<Longrightarrow> set scopes \<subseteq> set (limit_scopes c rq) \<Longrightarrow> configured c (snd (check_limits now scopes held d))"
proof (induction scopes arbitrary: held d)
  case (Cons sc scopes)
  obtain k s where sc: "sc = (k, s)" by (cases sc)
  define d1 where "d1 = ensure_limit_state k s d"
  have c1: "configured c d1" unfolding d1_def by (rule configured_ensure) (use Cons.prems sc in auto)
  obtain l where l: "dict_get d1 k = Some l" by (auto simp: d1_def ensure_limit_state_def dict_simps)
  obtain dec r where r: "check_and_reserve (li_rate l) now = (dec, r)" by fastforce
  obtain bd b where b: "can_accept (li_budget l) now = (bd, b)" by fastforce
  have "rt_settings r = rt_settings (li_rate l)" using rate_settings_kept(1)[of "li_rate l" now] r by simp
  then have set: "configured c (dict_set k l' d1)" if "rt_settings (li_rate l') = rt_settings r" for l'
    using configuredD[OF c1 l] configured_set[OF c1] that by metis
  show ?case using Cons l r b set configured_rollback
    by (auto simp: sc d1_def[symmetric] Let_def)
qed simp

definition breakers_ok :: "(breaker_key, breaker) dict \<Rightarrow> bool" where
  "breakers_ok d \<longleftrightarrow> (\<forall>k b. dict_get d k = Some b \<longrightarrow> breaker_inv b)"

lemma breakers_okI: "(\<And>k b. dict_get d k = Some b \<Longrightarrow> breaker_inv b) \<Longrightarrow> breakers_ok d"
  unfolding breakers_ok_def by blast

lemma breakers_okD: "breakers_ok d \<Longrightarrow> dict_get d k = Some b \<Longrightarrow> breaker_inv b"
  unfolding breakers_ok_def by blast

lemma breaker_inv_ops:
  assumes "breaker_inv b"
  shows "breaker_inv (snd (can_execute b now))" "breaker_inv (record_success b now)" "breaker_inv (record_failure b now timeout)"
    "breaker_inv (release_half_open_slot b)"
  using breaker_inv_exec[OF assms, of "(now, Can_Execute)"] breaker_inv_exec[OF assms, of "(now, Record_Success)"]
    breaker_inv_exec[OF assms, of "(now, Record_Failure timeout)"] breaker_inv_exec[OF assms, of "(now, Release_Slot)"]
  by (simp_all add: breaker_exec_def Let_def case_prod_unfold)

lemma breakers_ok_adjust:
  assumes "breakers_ok d" and "\<And>b. breaker_inv b \<Longrightarrow> breaker_inv (f b)"
  shows "breakers_ok (foldl (\<lambda>d k. dict_adjust k f d) d ks)"
  using assms(1)
proof (induction ks arbitrary: d)
  case (Cons k ks)
  have "breakers_ok (dict_adjust k f d)"
  proof (rule breakers_okI)
    fix k' b assume "dict_get (dict_adjust k f d) k' = Some b"
    then show "breaker_inv b"
      using breakers_okD[OF Cons.prems, of k'] assms(2) by (cases "k' = k") (auto simp: dict_simps)
  qed
  then show ?case using Cons.IH by simp
qed simp

lemma breakers_ok_release: "breakers_ok d \<Longrightarrow> breakers_ok (release_breakers ks d)"
  unfolding release_breakers_def by (rule breakers_ok_adjust) (auto intro: breaker_inv_ops)

lemma breakers_ok_ensure: "breakers_ok d \<Longrightarrow> breakers_ok (ensure_breaker_state k s d)"
  by (rule breakers_okI)
    (auto simp: ensure_breaker_state_def dict_simps dict_get_or_def breaker_inv_mk split: if_splits option.splits dest: breakers_okD)

lemma breakers_ok_set: "breakers_ok d \<Longrightarrow> breaker_inv b \<Longrightarrow> breakers_ok (dict_set k b d)"
  by (rule breakers_okI) (auto simp: dict_simps split: if_splits dest: breakers_okD)

lemma check_breakers_ok: "breakers_ok d \<Longrightarrow> breakers_ok (snd (check_breakers now scopes handles d))"
proof (induction scopes arbitrary: handles d)
  case (Cons sc scopes)
  obtain k s where sc: "sc = (k, s)" by (cases sc)
  define d1 where "d1 = ensure_breaker_state k s d"
  have c1: "breakers_ok d1" using breakers_ok_ensure Cons.prems by (simp add: d1_def)
  obtain b where b: "dict_get d1 k = Some b" by (auto simp: d1_def ensure_breaker_state_def dict_simps)
  obtain dec b' where e: "can_execute b now = (dec, b')" by fastforce
  have "breaker_inv b'" using breaker_inv_ops(1)[OF breakers_okD[OF c1 b], of now] e by simp
  then have "breakers_ok (dict_set k b' d1)" using breakers_ok_set c1 by blast
  then show ?case using Cons.IH breakers_ok_release b e by (auto simp: sc d1_def[symmetric] Let_def)
qed simp

definition manager_ok :: "governance_config \<Rightarrow> governance_manager \<Rightarrow> bool" where
  "manager_ok c gm \<longleftrightarrow> gm_config gm = c \<and> configured c (gm_limit_states gm) \<and> breakers_ok (gm_breaker_states gm)"

lemma manager_ok_check: "manager_ok c gm \<Longrightarrow> manager_ok c (snd (gov_check gm now rq))"
  using check_breakers_ok[of "gm_breaker_states gm" now "breaker_scopes c rq" "[]"]
    check_limits_configured[of c "gm_limit_states gm" "limit_scopes c rq" rq now "[]"]
  by (auto simp: manager_ok_def gov_check_def Let_def case_prod_unfold breakers_ok_release split: sum.splits)

lemma manager_ok_step:
  assumes "gov_step g g'" and "manager_ok c (fst g)"
  shows "manager_ok c (fst g')"
  using assms
proof (induction rule: gov_step.induct)
  case (admit_request gm now rq d gm' live)
  then show ?case using manager_ok_check[of c gm now rq] by simp
next
  case (deny_request gm now rq d gm' live)
  then show ?case using manager_ok_check[of c gm now rq] by simp
next
  case (activate_request gm xs d ys now)
  then show ?case by (simp add: manager_ok_def gov_activate_def configured_adjust)
next
  case (cancel_request gm xs d ys)
  then show ?case by (simp add: manager_ok_def gov_cancel_def configured_rollback breakers_ok_release)
next
  case (finalize_request gm xs d ys now status error_code tokens cost)
  then show ?case
    by (simp add: manager_ok_def gov_finalize_def Let_def configured_adjust finish_limit_def breakers_ok_adjust
      finish_breaker_def breaker_inv_ops)
qed

lemma manager_ok_init: "manager_ok c (mk_manager c)"
  by (simp add: manager_ok_def mk_manager_def configured_def breakers_ok_def)

lemma manager_ok_reachable: "gov_step\<^sup>*\<^sup>* (mk_manager c, []) g \<Longrightarrow> manager_ok c (fst g)"
  by (induction rule: rtranclp_induct) (auto intro: manager_ok_init manager_ok_step)

section \<open>Rolling back a denied request\<close>

definition inflight :: "(breaker_key, breaker) dict \<Rightarrow> breaker_key \<Rightarrow> int" where
  "inflight d k = (case dict_get d k of None \<Rightarrow> 0 | Some b \<Rightarrow> br_half_open_inflight b)"

lemma can_execute_inflight:
  assumes "breaker_inv b" and "can_execute b now = (dec, b')"
  shows "bd_allowed dec \<Longrightarrow> br_half_open_inflight (release_half_open_slot b') = br_half_open_inflight b"
    and "\<not> bd_allowed dec \<Longrightarrow> br_half_open_inflight b' = br_half_open_inflight b"
proof -
  obtain r b1 where t: "should_trip b now = (r, b1)" by fastforce
  note defs = can_execute_def t Let_def try_half_open_def transition_to_half_open_def trip_def admit_def refuse_def
    release_half_open_slot_def breaker_inv_def
  show "bd_allowed dec \<Longrightarrow> br_half_open_inflight (release_half_open_slot b') = br_half_open_inflight b"
    "\<not> bd_allowed dec \<Longrightarrow> br_half_open_inflight b' = br_half_open_inflight b"
    using assms half_open_limit_pos[of "br_settings b"] should_trip_fields(4)[OF t]
    by (auto simp: defs split: breaker_state.splits option.splits if_splits)
qed

lemma inflight_release:
  "distinct ks \<Longrightarrow> inflight (release_breakers ks d) k =
     (case dict_get d k of None \<Rightarrow> 0 | Some b \<Rightarrow> br_half_open_inflight (if k \<in> set ks then release_half_open_slot b else b))"
  by (simp add: inflight_def release_breakers_def dict_get_foldl_adjust split: option.splits)

lemma check_breakers_inflight:
  assumes "breakers_ok d" and "distinct (handles @ map fst scopes)" and "inflight (release_breakers handles d) = base"
  shows "case check_breakers now scopes handles d of
      (Inl denial, d') \<Rightarrow> inflight d' = base
    | (Inr handles', d') \<Rightarrow> distinct handles' \<and> inflight (release_breakers handles' d') = base"
  using assms
proof (induction scopes arbitrary: handles d)
  case (Cons sc scopes)
  obtain k s where sc: "sc = (k, s)" by (cases sc)
  define d1 where "d1 = ensure_breaker_state k s d"
  have ok: "breakers_ok d1" using breakers_ok_ensure Cons.prems by (simp add: d1_def)
  obtain b where b: "dict_get d1 k = Some b" by (auto simp: d1_def ensure_breaker_state_def dict_simps)
  obtain dec b' where e: "can_execute b now = (dec, b')" by fastforce
  have inv: "breaker_inv b" using breakers_okD[OF ok b] .
  have k: "k \<notin> set handles" "distinct handles" "distinct (handles @ [k])" using Cons.prems(2) sc by auto
  have bk: "br_half_open_inflight b = base k"
    using Cons.prems(3) b k inflight_release[OF k(2), of d k]
    by (auto simp: d1_def ensure_breaker_state_def dict_simps dict_get_or_def mk_breaker_def split: option.splits)
  have rest: "inflight (release_breakers handles d) k' = inflight (release_breakers hs (dict_set k c d1)) k'"
    if "k' \<noteq> k" "distinct hs" "set hs - {k} = set handles" for k' hs c
    using that k by (auto simp: inflight_release d1_def ensure_breaker_state_def dict_simps split: option.splits)
  have ok': "breakers_ok (dict_set k b' d1)" using breaker_inv_ops(1)[OF inv, of now] e breakers_ok_set[OF ok] by simp
  show ?case
  proof (cases "bd_allowed dec")
    case True
    have "inflight (release_breakers (handles @ [k]) (dict_set k b' d1)) = base"
    proof
      fix k'
      show "inflight (release_breakers (handles @ [k]) (dict_set k b' d1)) k' = base k'"
        using rest[of k' "handles @ [k]" b'] can_execute_inflight(1)[OF inv e True] bk Cons.prems(3) k
        by (cases "k' = k") (auto simp: inflight_release dict_simps)
    qed
    from Cons.IH[OF ok' _ this] show ?thesis using True Cons.prems(2) b e by (auto simp: sc d1_def[symmetric] Let_def)
  next
    case False
    have "inflight (release_breakers handles (dict_set k b' d1)) = base"
    proof
      fix k'
      show "inflight (release_breakers handles (dict_set k b' d1)) k' = base k'"
        using rest[of k' handles b'] can_execute_inflight(2)[OF inv e False] bk Cons.prems(3) k
        by (cases "k' = k") (auto simp: inflight_release dict_simps)
    qed
    then show ?thesis using False b e by (simp add: sc d1_def[symmetric] Let_def)
  qed
qed (auto split: sum.splits)

lemma breaker_scopes_distinct: "distinct (map fst (breaker_scopes c rq))"
  by (auto simp: breaker_scopes_def scope_entry_def Let_def split: option.splits)

lemma denied_inflight:
  assumes "manager_ok c gm" and "gov_check gm now rq = (d, gm')" and "\<not> gd_allowed d"
  shows "inflight (gm_breaker_states gm') = inflight (gm_breaker_states gm)"
proof -
  have "case check_breakers now (breaker_scopes c rq) [] (gm_breaker_states gm) of
      (Inl denial, d') \<Rightarrow> inflight d' = inflight (gm_breaker_states gm)
    | (Inr handles', d') \<Rightarrow> distinct handles' \<and> inflight (release_breakers handles' d') = inflight (gm_breaker_states gm)"
    using check_breakers_inflight[of "gm_breaker_states gm" "[]" "breaker_scopes c rq" "inflight (gm_breaker_states gm)" now]
      assms(1) breaker_scopes_distinct[of c rq] by (simp add: manager_ok_def release_breakers_def)
  then show ?thesis using assms(2,3) assms(1)
    by (auto simp: gov_check_def grant_def manager_ok_def release_breakers_def Let_def split: if_splits prod.splits sum.splits)
qed

section \<open>Properties\<close>

text \<open>Concurrency limits in a reachable state.\<close>

lemma concurrency_bound:
  assumes "gov_step\<^sup>*\<^sup>* (mk_manager c, []) (gm, live)" and "(k, s) \<in> set (limit_scopes c rq)"
    and "lm_enabled s" and "lm_concurrency s = Some n"
  shows "holders Admitted live k + holders Running live k \<le> max 0 n"
proof -
  have t: "tracked (dict_get (gm_limit_states gm) k) (holders Admitted live k) (holders Running live k)"
    using gov_inv_reachable[OF assms(1)] accountedD by (fastforce simp: gov_inv_def)
  show ?thesis
  proof (cases "dict_get (gm_limit_states gm) k")
    case None
    then show ?thesis using t by (simp add: tracked_def)
  next
    case (Some l)
    have "configured c (gm_limit_states gm)" using manager_ok_reachable[OF assms(1)] by (simp add: manager_ok_def)
    then obtain rq' where "(k, rt_settings (li_rate l)) \<in> set (limit_scopes c rq')" using configuredD Some by blast
    then have "rt_settings (li_rate l) = s" using scope_settings_unique assms(2) by blast
    then show ?thesis using t Some assms(3,4) by (simp add: tracked_def rate_capacity_def)
  qed
qed

text \<open>
  C8. Concurrency limits hold for the whole life of requests: in every state the manager can reach
  from a configuration by admitting, denying, activating, cancelling and finalizing requests in any
  order, a scope whose settings are enabled with concurrency \<open>n\<close> has at most \<open>max 0 n\<close> requests that
  are admitted or running.
\<close>

theorem concurrency_respected:
  assumes "gov_step\<^sup>*\<^sup>* (mk_manager c, []) (gm, live)" and "(k, s) \<in> set (limit_scopes c rq)"
    and "lm_enabled s" and "lm_concurrency s = Some n"
  shows "holders Admitted live k + holders Running live k \<le> max 0 n"
  by (rule concurrency_bound[OF assms])

definition breaker_off :: breaker_config where
  "breaker_off = \<lparr>bc_enabled = False, bc_global = demo_settings, bc_per_flow = [], bc_per_policy = []\<rparr>"

definition one_at_a_time :: governance_config where
  "one_at_a_time = \<lparr>gc_enabled = True,
     gc_limits = \<lparr>lc_enabled = True, lc_global = limits_off,
       lc_per_flow = [(''f'', limits_off\<lparr>lm_enabled := True, lm_concurrency := Some 1\<rparr>)], lc_per_policy_arm = []\<rparr>,
     gc_breaker = breaker_off\<rparr>"

definition flow_request :: request_descriptor where
  "flow_request = \<lparr>rq_flow = ''f'', rq_binding = None, rq_policy_arm = None\<rparr>"

lemmas governance_eval = gov_check_def grant_def deny_def check_breakers.simps check_limits.simps limit_scopes_def breaker_scopes_def
  scope_entry_def given_def ensure_limit_state_def ensure_breaker_state_def dict_setdefault_def mk_rate_def mk_budget_def
  check_and_reserve_def qps_blocked_def concurrency_blocked_def can_accept_def within_budget_def mk_manager_def limits_enabled_def
  breaker_enabled_def any_limits_def any_breakers_def limit_active_def breaker_active_def Let_def

theorem concurrency_respected_witness:
  "holders Admitted [(Admitted, fst (gov_check (mk_manager one_at_a_time) 0 flow_request))] (''flow'', Some ''f'', None) +
     holders Running [(Admitted, fst (gov_check (mk_manager one_at_a_time) 0 flow_request))] (''flow'', Some ''f'', None) \<le> max 0 1 \<and>
   holders Admitted [(Admitted, fst (gov_check (mk_manager one_at_a_time) 0 flow_request))] (''flow'', Some ''f'', None) = 1"
proof -
  let ?d = "fst (gov_check (mk_manager one_at_a_time) 0 flow_request)"
  have d: "?d = grant [(''flow'', Some ''f'', None)] []"
    by (simp add: governance_eval one_at_a_time_def breaker_off_def flow_request_def limits_off_def)
  have "gov_step (mk_manager one_at_a_time, []) (snd (gov_check (mk_manager one_at_a_time) 0 flow_request), [(Admitted, ?d)])"
    by (rule gov_step.admit_request[of _ 0 flow_request, OF prod.collapse[symmetric]]) (simp add: d grant_def)
  then have "gov_step\<^sup>*\<^sup>* (mk_manager one_at_a_time, []) (snd (gov_check (mk_manager one_at_a_time) 0 flow_request), [(Admitted, ?d)])"
    by blast
  moreover have "((''flow'', Some ''f'', None), limits_off\<lparr>lm_enabled := True, lm_concurrency := Some 1\<rparr>)
      \<in> set (limit_scopes one_at_a_time flow_request)"
    by (simp add: limit_scopes_def one_at_a_time_def flow_request_def scope_entry_def given_def)
  ultimately show ?thesis
    using concurrency_respected[of one_at_a_time _ _ "(''flow'', Some ''f'', None)" _ flow_request 1]
    by (simp add: d holders_def grant_def)
qed

text \<open>
  C38. A denied request leaves no reservation behind: in every reachable state, a check that is not
  allowed leaves the half-open calls in flight of every breaker as they were, and the pending and
  active counts of every enabled limit scope equal to the number of requests that still hold it.
\<close>

theorem denied_check_rolls_back:
  assumes "gov_step\<^sup>*\<^sup>* (mk_manager c, []) (gm, live)" and "gov_check gm now rq = (d, gm')" and "\<not> gd_allowed d"
  shows "(\<forall>k. inflight (gm_breaker_states gm') k = inflight (gm_breaker_states gm) k) \<and>
    (\<forall>k l. dict_get (gm_limit_states gm') k = Some l \<and> lm_enabled (rt_settings (li_rate l)) \<longrightarrow>
       rt_pending (li_rate l) = holders Admitted live k \<and>
       (lm_concurrency (rt_settings (li_rate l)) \<noteq> None \<longrightarrow> rt_active (li_rate l) = holders Running live k))"
proof -
  have "inflight (gm_breaker_states gm') = inflight (gm_breaker_states gm)"
    using denied_inflight[OF _ assms(2,3)] manager_ok_reachable[OF assms(1)] by simp
  moreover have "accounted (gm_limit_states gm') (holders Admitted live) (holders Running live)"
    using gov_check_accounted[OF _ holders_nonneg assms(2)] gov_inv_reachable[OF assms(1)] assms(3) by (fastforce simp: gov_inv_def)
  then have "tracked (dict_get (gm_limit_states gm') k) (holders Admitted live k) (holders Running live k)" for k
    using accountedD by blast
  then have "rt_pending (li_rate l) = holders Admitted live k \<and>
      (lm_concurrency (rt_settings (li_rate l)) \<noteq> None \<longrightarrow> rt_active (li_rate l) = holders Running live k)"
    if "dict_get (gm_limit_states gm') k = Some l" "lm_enabled (rt_settings (li_rate l))" for k l
    using that by (metis (mono_tags, lifting) option.simps(5) rate_holds_def tracked_def)
  ultimately show ?thesis by simp
qed

theorem denied_check_rolls_back_witness:
  "\<not> gd_allowed (fst (gov_check (snd (gov_check (mk_manager one_at_a_time) 0 flow_request)) 1 flow_request)) \<and>
   map_option (\<lambda>l. rt_pending (li_rate l)) (dict_get (gm_limit_states
     (snd (gov_check (snd (gov_check (mk_manager one_at_a_time) 0 flow_request)) 1 flow_request))) (''flow'', Some ''f'', None)) = Some 1"
proof -
  let ?k = "(''flow'', Some ''f'', None) :: limit_key"
  let ?d = "fst (gov_check (mk_manager one_at_a_time) 0 flow_request)" and ?gm = "snd (gov_check (mk_manager one_at_a_time) 0 flow_request)"
  have d: "?d = grant [?k] []"
    by (simp add: governance_eval one_at_a_time_def breaker_off_def flow_request_def limits_off_def)
  have "gov_step (mk_manager one_at_a_time, []) (?gm, [(Admitted, ?d)])"
    by (rule gov_step.admit_request[of _ 0 flow_request, OF prod.collapse[symmetric]]) (simp add: d grant_def)
  then have reach: "gov_step\<^sup>*\<^sup>* (mk_manager one_at_a_time, []) (?gm, [(Admitted, ?d)])" by blast
  have no: "\<not> gd_allowed (fst (gov_check ?gm 1 flow_request))" and
    some: "\<exists>l. dict_get (gm_limit_states (snd (gov_check ?gm 1 flow_request))) ?k = Some l \<and> lm_enabled (rt_settings (li_rate l))"
    by (simp_all add: governance_eval one_at_a_time_def breaker_off_def flow_request_def limits_off_def rollback_limits_def)
  from denied_check_rolls_back[OF reach prod.collapse[symmetric] no] some show ?thesis
    using no by (auto simp: d grant_def holders_def)
qed

definition probing :: governance_config where
  "probing = \<lparr>gc_enabled = True,
     gc_limits = \<lparr>lc_enabled = False, lc_global = limits_off, lc_per_flow = [], lc_per_policy_arm = []\<rparr>,
     gc_breaker = \<lparr>bc_enabled = True,
       bc_global = \<lparr>bs_enabled = True, bs_window_sec = 30, bs_failure_threshold = 1, bs_timeout_threshold = 0,
         bs_cooldown_sec = 10, bs_half_open_max_calls = 1\<rparr>,
       bc_per_flow = [], bc_per_policy = []\<rparr>\<rparr>"

text \<open>Two requests are admitted while the breaker is closed; the second fails and opens it; after the
  cool-down a third is admitted as the only probe.\<close>

definition while_probing :: "governance_decision \<times> governance_decision \<times> governance_manager" where
  "while_probing =
     (let (d1, g1) = gov_check (mk_manager probing) 0 flow_request;
          (d2, g2) = gov_check g1 0 flow_request;
          g3 = gov_finalize (gov_activate g2 0 d2) 1 d2 ''error'' None None None;
          (d3, g4) = gov_check g3 11 flow_request
      in (d1, d3, g4))"

text \<open>
  Cancelling a request that was admitted while the breaker was closed frees the slot of a
  half-open probe: with one half-open call allowed and a probe in flight, a further request is
  denied, but after the cancellation of the earlier request it is admitted, so two probes are in
  flight.
\<close>

theorem cancel_frees_probe_slot:
  "case while_probing of (d1, d3, g) \<Rightarrow> gd_allowed d1 \<and> gd_allowed d3 \<and>
     \<not> gd_allowed (fst (gov_check g 12 flow_request)) \<and> gd_allowed (fst (gov_check (gov_cancel g d1) 12 flow_request))"
  by code_simp

end
