(* ===== verification/Audit_Trail.thy ===== *)
theory Audit_Trail
  imports Py_Values
begin

text \<open>
  The audit trail (\<^verbatim>\<open>tm/governance/audit.py\<close>): entries with masked fields, appended to a log.  The log is
  the list of the documents in the file; the asynchronous writer appends the same entries.
\<close>

record audit_config =
  ac_enabled :: bool
  ac_path :: string
  ac_mask_fields :: "string list"

record audit_trail =
  at_enabled :: bool
  at_mask_fields :: "string list"
  at_log :: "val list"

definition mk_audit_trail :: "audit_config \<Rightarrow> val list \<Rightarrow> audit_trail" where
  "mk_audit_trail cfg entries = \<lparr>at_enabled = ac_enabled cfg, at_mask_fields = ac_mask_fields cfg, at_log = entries\<rparr>"

fun mask_value :: "val \<Rightarrow> val" where
  "mask_value VNone = VNone"
| "mask_value (VDict d) = VDict (map (\<lambda>(k, v). (k, mask_value v)) d)"
| "mask_value (VList vs) = VList (map mask_value vs)"
| "mask_value (VStr s) = VStr ''***''"
| "mask_value (VInt i) = VInt 0"
| "mask_value (VBool b) = VInt 0"
| "mask_value (VFloat r) = VFloat 0"

fun mask_payload :: "string list \<Rightarrow> val \<Rightarrow> val" where
  "mask_payload masks (VDict d) =
     VDict (map (\<lambda>(k, v). (k, if k \<in> set masks then mask_value v else mask_payload masks v)) d)"
| "mask_payload masks (VList vs) = VList (map (mask_payload masks) vs)"
| "mask_payload masks v = v"

definition prepare_entry :: "audit_trail \<Rightarrow> string \<Rightarrow> (string, val) dict \<Rightarrow> real \<Rightarrow> val" where
  "prepare_entry a event payload ts =
     VDict [(''ts'', VFloat ts), (''type'', VStr event), (''payload'', mask_payload (at_mask_fields a) (VDict payload))]"

definition audit_record :: "audit_trail \<Rightarrow> string \<Rightarrow> (string, val) dict \<Rightarrow> real \<Rightarrow> audit_trail" where
  "audit_record a event payload ts =
     (if \<not> at_enabled a then a else a\<lparr>at_log := at_log a @ [prepare_entry a event payload ts]\<rparr>)"

section \<open>Masking hides values\<close>

text \<open>
  \<open>alike\<close>: the same structure, keys and kinds of values; \<open>agree\<close>: equal values except under the given
  fields, where they are alike.
\<close>

inductive alike :: "val \<Rightarrow> val \<Rightarrow> bool" where
  alike_none: "alike VNone VNone"
| alike_str: "alike (VStr s) (VStr t)"
| alike_float: "alike (VFloat r) (VFloat q)"
| alike_int: "alike (VInt i) (VInt j)"
| alike_bool: "alike (VBool b) (VBool c)"
| alike_list: "list_all2 alike vs ws \<Longrightarrow> alike (VList vs) (VList ws)"
| alike_dict: "list_all2 (\<lambda>x y. fst x = fst y \<and> alike (snd x) (snd y)) d e \<Longrightarrow> alike (VDict d) (VDict e)"

inductive agree :: "string list \<Rightarrow> val \<Rightarrow> val \<Rightarrow> bool" for masks where
  agree_refl: "agree masks v v"
| agree_list: "list_all2 (agree masks) vs ws \<Longrightarrow> agree masks (VList vs) (VList ws)"
| agree_dict: "list_all2 (\<lambda>x y. fst x = fst y \<and> (if fst x \<in> set masks then alike (snd x) (snd y) else agree masks (snd x) (snd y))) d e
    \<Longrightarrow> agree masks (VDict d) (VDict e)"

lemma map_eq_list_all2:
  assumes "list_all2 P xs ys" and "\<And>x y. P x y \<Longrightarrow> f x = f y"
  shows "map f xs = map f ys"
  using assms by (induction rule: list_all2_induct) auto

lemma mask_value_alike: "alike v w \<Longrightarrow> mask_value v = mask_value w"
proof (induction rule: alike.induct)
  case (alike_list vs ws)
  then show ?case by (auto intro: map_eq_list_all2)
next
  case (alike_dict d e)
  then show ?case by (auto simp: case_prod_unfold intro: map_eq_list_all2)
qed simp_all

text \<open>
  The audit log does not depend on what is masked: two payloads that agree outside the masked
  fields, and have the same structure and kinds of values within them, leave the same entry.
\<close>

theorem audit_hides_masked_values:
  assumes "agree (at_mask_fields a) (VDict p) (VDict q)"
  shows "audit_record a event p ts = audit_record a event q ts"
proof -
  have "mask_payload masks v = mask_payload masks w" if "agree masks v w" for masks v w
    using that
  proof (induction rule: agree.induct)
    case (agree_list vs ws)
    then show ?case by (auto intro: map_eq_list_all2)
  next
    case (agree_dict d e)
    then show ?case by (auto simp: case_prod_unfold mask_value_alike intro!: map_eq_list_all2 split: if_splits)
  qed simp
  from this[OF assms] show ?thesis by (simp add: audit_record_def prepare_entry_def)
qed

theorem audit_hides_masked_values_witness:
  "audit_record \<lparr>at_enabled = True, at_mask_fields = [''input''], at_log = []\<rparr> ''run'' [(''flow'', VStr ''f''), (''input'', VList [VStr ''secret''])] 1 =
   audit_record \<lparr>at_enabled = True, at_mask_fields = [''input''], at_log = []\<rparr> ''run'' [(''flow'', VStr ''f''), (''input'', VList [VStr ''other''])] 1"
  by (rule audit_hides_masked_values) (auto intro!: agree_dict agree_refl alike_list alike_str)

end
