(* ===== verification/Approvals.thy ===== *)
theory Approvals
  imports Audit_Trail
begin

text \<open>
  The approval queue of humans in the loop (\<^verbatim>\<open>tm/governance/hitl.py\<close>) with its journal.  The journal file
  is the list of its lines, \<open>None\<close> for a line that is not a document; lines that are documents but no
  mappings are not modelled.  The manager remembers how many lines it has read.  Fresh ids and the clock
  reading of a call are arguments.
\<close>

record hitl_config =
  hc_enabled :: bool
  hc_default_ttl_ms :: int
  hc_persistence_path :: "string option"
  hc_queue_size :: int

datatype approval_decision = APPROVE | DENY | TIMEOUT

fun decision_value :: "approval_decision \<Rightarrow> string" where
  "decision_value APPROVE = ''approve''"
| "decision_value DENY = ''deny''"
| "decision_value TIMEOUT = ''timeout''"

record approval_record =
  ap_id :: string
  ap_flow :: string
  ap_step :: string
  ap_reason :: string
  ap_requested_by :: string
  ap_ttl_ms :: int
  ap_default :: approval_decision
  ap_actors :: "string list"
  ap_created_at :: real
  ap_payload :: "(string, val) dict"
  ap_status :: string
  ap_decided_at :: "real option"
  ap_decided_by :: "string option"
  ap_note :: "string option"

text \<open>\<^verbatim>\<open>expired(now=...)\<close>; \<open>clock\<close> is the reading used when \<^verbatim>\<open>now\<close> is absent or zero.\<close>

definition expired :: "approval_record \<Rightarrow> real option \<Rightarrow> real \<Rightarrow> bool" where
  "expired r now clock \<longleftrightarrow> ap_status r = ''pending'' \<and> ap_ttl_ms r > 0 \<and>
     (case now of Some t \<Rightarrow> if t = 0 then clock else t | None \<Rightarrow> clock) \<ge> ap_created_at r + real_of_int (ap_ttl_ms r) / 1000"

definition pending_payload :: "approval_record \<Rightarrow> (string, val) dict" where
  "pending_payload r =
     [(''status'', VStr ''pending''), (''error_code'', VStr ''APPROVAL_REQUIRED''), (''approval_id'', VStr (ap_id r)),
      (''reason'', VStr (ap_reason r)), (''ttl_ms'', VInt (ap_ttl_ms r)), (''default'', VStr (decision_value (ap_default r))),
      (''actors'', VList (map VStr (ap_actors r)))]"

type_synonym journal = "(string, val) dict option list"

record hitl_manager =
  hm_default_ttl_ms :: int
  hm_enabled :: bool
  hm_queue_limit :: int
  hm_pending :: "(string, approval_record) dict"
  hm_persistent :: bool
  hm_offset :: nat
  hm_journal :: journal
  hm_audit :: "audit_trail option"

definition decision_of_default :: "string \<Rightarrow> approval_decision" where
  "decision_of_default s = (if str_lower s = ''approve'' then APPROVE else DENY)"

definition normalize_decision :: "string \<Rightarrow> approval_decision result" where
  "normalize_decision s =
     (let lowered = str_strip (str_lower s) in
      if lowered \<in> {''approve'', ''approved'', ''ok'', ''yes''} then Inr APPROVE
      else if lowered \<in> {''deny'', ''denied'', ''reject'', ''rejected'', ''no''} then Inr DENY
      else Inl (ValueError (''Unsupported decision '' @ quoted s)))"

section \<open>The journal\<close>

definition to_dict :: "val \<Rightarrow> (string, val) dict result" where
  "to_dict v = (case v of
       VDict d \<Rightarrow> Inr d
     | VList [] \<Rightarrow> Inr []
     | VStr [] \<Rightarrow> Inr []
     | _ \<Rightarrow> Inl (TypeError ''cannot convert to a mapping''))"

definition record_from_entry :: "(val \<Rightarrow> string) \<Rightarrow> int \<Rightarrow> real \<Rightarrow> string \<Rightarrow> (string, val) dict \<Rightarrow> approval_record result" where
  "record_from_entry rep default_ttl now aid entry =
     (let text = (\<lambda>k dflt. py_str rep (dict_get_or entry k (VStr dflt))) in
      bind_result (int_of (dict_get_or entry ''ttl_ms'' (VInt default_ttl))) (\<lambda>ttl.
      bind_result (iter_val (dict_get_or entry ''actors'' (VList []))) (\<lambda>actors.
      bind_result (float_of (dict_get_or entry ''created_at'' (VFloat now))) (\<lambda>created_at.
      bind_result (to_dict (dict_get_or entry ''payload'' (VDict []))) (\<lambda>payload.
        Inr \<lparr>ap_id = aid, ap_flow = text ''flow'' ''unknown'', ap_step = text ''step'' ''unknown'',
             ap_reason = text ''reason'' ''approval required'', ap_requested_by = text ''requested_by'' ''unknown'',
             ap_ttl_ms = ttl, ap_default = decision_of_default (text ''default'' ''approve''),
             ap_actors = map (py_str rep) (filter truthy actors), ap_created_at = created_at, ap_payload = payload,
             ap_status = ''pending'', ap_decided_at = None, ap_decided_by = None, ap_note = None\<rparr>)))))"

text \<open>A decision entry also fills in the record, which is then dropped from the pending ones.\<close>

definition apply_store_entry ::
  "(val \<Rightarrow> string) \<Rightarrow> int \<Rightarrow> real \<Rightarrow> bool \<Rightarrow> (string, approval_record) dict \<Rightarrow> (string, val) dict \<Rightarrow> (string, approval_record) dict result" where
  "apply_store_entry rep default_ttl now initial pending entry =
     (if get_val entry ''type'' = VStr ''pending'' then
        (case get_val entry ''approval_id'' of
           VStr aid \<Rightarrow> bind_result (record_from_entry rep default_ttl now aid entry) (\<lambda>r.
             Inr (if initial \<or> dict_get pending aid = None then dict_set aid r pending else pending))
         | _ \<Rightarrow> Inr pending)
      else if get_val entry ''type'' = VStr ''decision'' then
        (case get_val entry ''approval_id'' of
           VStr aid \<Rightarrow>
             (case dict_get pending aid of
                None \<Rightarrow> Inr pending
              | Some _ \<Rightarrow> bind_result (float_of (dict_get_or entry ''ts'' (VFloat now))) (\<lambda>_. Inr (dict_pop aid pending)))
         | _ \<Rightarrow> Inr pending)
      else Inr pending)"

fun apply_lines :: "(val \<Rightarrow> string) \<Rightarrow> int \<Rightarrow> real \<Rightarrow> bool \<Rightarrow> (string, approval_record) dict \<Rightarrow> journal \<Rightarrow> exn option \<times> (string, approval_record) dict" where
  "apply_lines rep ttl now initial pending [] = (None, pending)"
| "apply_lines rep ttl now initial pending (None # rest) = apply_lines rep ttl now initial pending rest"
| "apply_lines rep ttl now initial pending (Some entry # rest) =
     (case apply_store_entry rep ttl now initial pending entry of
        Inl e \<Rightarrow> (Some e, pending)
      | Inr pending1 \<Rightarrow> apply_lines rep ttl now initial pending1 rest)"

definition mk_hitl :: "(val \<Rightarrow> string) \<Rightarrow> hitl_config \<Rightarrow> audit_trail option \<Rightarrow> journal \<Rightarrow> real \<Rightarrow> hitl_manager result" where
  "mk_hitl rep cfg audit lines now =
     (let persistent = (case hc_persistence_path cfg of Some p \<Rightarrow> p \<noteq> [] | None \<Rightarrow> False) in
      case (if persistent then apply_lines rep (hc_default_ttl_ms cfg) now True [] lines else (None, [])) of
        (Some e, _) \<Rightarrow> Inl e
      | (None, pending) \<Rightarrow>
          Inr \<lparr>hm_default_ttl_ms = hc_default_ttl_ms cfg, hm_enabled = hc_enabled cfg, hm_queue_limit = max 0 (hc_queue_size cfg),
               hm_pending = pending, hm_persistent = persistent, hm_offset = (if persistent then length lines else 0),
               hm_journal = lines, hm_audit = audit\<rparr>)"

text \<open>Reading the new lines; an entry that raises ends it, after the effect of the lines before.\<close>

definition sync_store :: "(val \<Rightarrow> string) \<Rightarrow> real \<Rightarrow> hitl_manager \<Rightarrow> exn option \<times> hitl_manager" where
  "sync_store rep now m =
     (if \<not> hm_persistent m then (None, m)
      else case apply_lines rep (hm_default_ttl_ms m) now False (hm_pending m) (drop (hm_offset m) (hm_journal m)) of
        (Some e, pending) \<Rightarrow> (Some e, m\<lparr>hm_pending := pending\<rparr>)
      | (None, pending) \<Rightarrow> (None, m\<lparr>hm_pending := pending, hm_offset := length (hm_journal m)\<rparr>))"

definition append_store :: "hitl_manager \<Rightarrow> (string, val) dict \<Rightarrow> hitl_manager" where
  "append_store m entry =
     (if \<not> hm_persistent m then m
      else m\<lparr>hm_journal := hm_journal m @ [Some entry], hm_offset := Suc (length (hm_journal m))\<rparr>)"

section \<open>The queue\<close>

definition hitl_log :: "hitl_manager \<Rightarrow> string \<Rightarrow> approval_record \<Rightarrow> (string, val) dict \<Rightarrow> real \<Rightarrow> hitl_manager" where
  "hitl_log m event r extra ts = (case hm_audit m of
       None \<Rightarrow> m
     | Some a \<Rightarrow>
         if \<not> at_enabled a then m
         else
           let base = [(''approval_id'', VStr (ap_id r)), (''flow'', VStr (ap_flow r)), (''step'', VStr (ap_step r)),
                       (''reason'', VStr (ap_reason r)), (''status'', VStr (ap_status r)),
                       (''default'', VStr (decision_value (ap_default r))), (''actors'', VList (map VStr (ap_actors r)))];
               who_part = (case ap_decided_by r of Some s \<Rightarrow> if s = [] then [] else [(''decided_by'', VStr s)] | None \<Rightarrow> []);
               note = (case ap_note r of Some s \<Rightarrow> if s = [] then [] else [(''note'', VStr s)] | None \<Rightarrow> [])
           in m\<lparr>hm_audit := Some (audit_record a event (foldl (\<lambda>d (k, v). dict_set k v d) (base @ who_part @ note) extra) ts)\<rparr>)"

definition pending_entry :: "approval_record \<Rightarrow> (string, val) dict" where
  "pending_entry r =
     [(''type'', VStr ''pending''), (''approval_id'', VStr (ap_id r)), (''flow'', VStr (ap_flow r)), (''step'', VStr (ap_step r)),
      (''reason'', VStr (ap_reason r)), (''requested_by'', VStr (ap_requested_by r)), (''ttl_ms'', VInt (ap_ttl_ms r)),
      (''default'', VStr (decision_value (ap_default r))), (''actors'', VList (map VStr (ap_actors r))),
      (''created_at'', VFloat (ap_created_at r)), (''payload'', VDict (ap_payload r))]"

record submission =
  sb_flow :: string
  sb_step :: string
  sb_reason :: string
  sb_requested_by :: string
  sb_ttl_ms :: "int option"
  sb_default :: string
  sb_actors :: "string list"
  sb_payload :: "(string, val) dict"

definition submit :: "(val \<Rightarrow> string) \<Rightarrow> hitl_manager \<Rightarrow> string \<Rightarrow> submission \<Rightarrow> real \<Rightarrow> approval_record result \<times> hitl_manager" where
  "submit rep m fresh s now =
     (if \<not> hm_enabled m then (Inl (RuntimeError ''HITL approvals are disabled''), m)
      else case sync_store rep now m of
        (Some e, m1) \<Rightarrow> (Inl e, m1)
      | (None, m1) \<Rightarrow>
          if hm_queue_limit m1 \<noteq> 0 \<and> int (length (hm_pending m1)) \<ge> hm_queue_limit m1
          then (Inl (RuntimeError ''approval queue is full''), m1)
          else
            let r = \<lparr>ap_id = fresh, ap_flow = sb_flow s, ap_step = sb_step s, ap_reason = sb_reason s, ap_requested_by = sb_requested_by s,
                     ap_ttl_ms = (case sb_ttl_ms s of Some t \<Rightarrow> t | None \<Rightarrow> hm_default_ttl_ms m1),
                     ap_default = decision_of_default (sb_default s), ap_actors = filter (\<lambda>a. a \<noteq> []) (sb_actors s),
                     ap_created_at = now, ap_payload = sb_payload s, ap_status = ''pending'', ap_decided_at = None,
                     ap_decided_by = None, ap_note = None\<rparr>;
                m2 = m1\<lparr>hm_pending := dict_set fresh r (hm_pending m1)\<rparr>;
                m3 = hitl_log m2 ''hitl_pending'' r [(''status'', VStr ''pending'')] now
            in (Inr r, append_store m3 (pending_entry r)))"

definition decided :: "approval_record \<Rightarrow> string \<Rightarrow> real \<Rightarrow> string \<Rightarrow> string option \<Rightarrow> approval_record" where
  "decided r st now who note = r\<lparr>ap_status := st, ap_decided_at := Some now, ap_decided_by := Some who, ap_note := note\<rparr>"

definition decision_entry :: "approval_record \<Rightarrow> real \<Rightarrow> (string, val) dict" where
  "decision_entry r now =
     [(''type'', VStr ''decision''), (''approval_id'', VStr (ap_id r)), (''decision'', VStr (ap_status r)),
      (''actor'', case ap_decided_by r of Some s \<Rightarrow> VStr s | None \<Rightarrow> VNone),
      (''note'', case ap_note r of Some s \<Rightarrow> VStr s | None \<Rightarrow> VNone), (''ts'', VFloat now)]"

text \<open>A record in the dictionary is changed in place, also when the call then raises.\<close>

definition hitl_decide ::
  "(val \<Rightarrow> string) \<Rightarrow> hitl_manager \<Rightarrow> string \<Rightarrow> string \<Rightarrow> string \<Rightarrow> string option \<Rightarrow> real \<Rightarrow> approval_record result \<times> hitl_manager" where
  "hitl_decide rep m aid decision actor note now = (case sync_store rep now m of
       (Some e, m1) \<Rightarrow> (Inl e, m1)
     | (None, m1) \<Rightarrow>
         (case dict_get (hm_pending m1) aid of
            None \<Rightarrow> (Inl (KeyError (''Unknown approval_id '' @ quoted aid)), m1)
          | Some r \<Rightarrow>
              if ap_status r \<noteq> ''pending'' then (Inr r, m1)
              else (case normalize_decision decision of
                 Inl e \<Rightarrow> (Inl e, m1)
               | Inr dec \<Rightarrow>
                   if expired r (Some now) now then
                     (let r1 = decided r ''timeout'' now (if actor = [] then ''system'' else actor) note;
                          m2 = m1\<lparr>hm_pending := dict_set aid r1 (hm_pending m1)\<rparr>
                      in (Inl (TimeoutError ''approval has expired''),
                          hitl_log m2 ''hitl_timeout'' r1 [(''decision'', VStr (decision_value (ap_default r1)))] now))
                   else
                     (let r1 = decided r (decision_value dec) now (if actor = [] then ''unknown'' else actor) note;
                          m2 = hitl_log m1 ''hitl_decision'' r1 [(''decision'', VStr (ap_status r1)),
                                 (''actor'', VStr (case ap_decided_by r1 of Some s \<Rightarrow> s | None \<Rightarrow> []))] now;
                          m3 = m2\<lparr>hm_pending := dict_pop aid (hm_pending m2)\<rparr>
                      in (Inr r1, append_store m3 (decision_entry r1 now))))))"

definition timed_out :: "approval_record \<Rightarrow> real \<Rightarrow> approval_record" where
  "timed_out r now = r\<lparr>ap_status := ''timeout'', ap_decided_at := Some now, ap_decided_by := Some ''system''\<rparr>"

definition mark_expired :: "hitl_manager \<Rightarrow> string \<Rightarrow> approval_record \<Rightarrow> real \<Rightarrow> hitl_manager" where
  "mark_expired m aid r now =
     (let r1 = timed_out r now in
      hitl_log (m\<lparr>hm_pending := dict_set aid r1 (hm_pending m)\<rparr>) ''hitl_timeout'' r1
        [(''decision'', VStr (decision_value (ap_default r1)))] now)"

definition hitl_get :: "(val \<Rightarrow> string) \<Rightarrow> hitl_manager \<Rightarrow> string \<Rightarrow> real \<Rightarrow> approval_record option result \<times> hitl_manager" where
  "hitl_get rep m aid now = (case sync_store rep now m of
       (Some e, m1) \<Rightarrow> (Inl e, m1)
     | (None, m1) \<Rightarrow>
         (case dict_get (hm_pending m1) aid of
            None \<Rightarrow> (Inr None, m1)
          | Some r \<Rightarrow> if expired r None now then (Inr None, mark_expired m1 aid r now) else (Inr (Some r), m1)))"

fun mark_all :: "real \<Rightarrow> (string \<times> approval_record) list \<Rightarrow> hitl_manager \<Rightarrow> hitl_manager" where
  "mark_all now [] m = m"
| "mark_all now ((aid, r) # rest) m = mark_all now rest (if expired r (Some now) now then mark_expired m aid r now else m)"

definition hitl_pending :: "(val \<Rightarrow> string) \<Rightarrow> hitl_manager \<Rightarrow> real \<Rightarrow> approval_record list result \<times> hitl_manager" where
  "hitl_pending rep m now = (case sync_store rep now m of
       (Some e, m1) \<Rightarrow> (Inl e, m1)
     | (None, m1) \<Rightarrow>
         let gone = map fst (filter (\<lambda>(_, r). expired r (Some now) now) (hm_pending m1));
             m2 = mark_all now (hm_pending m1) m1;
             m3 = m2\<lparr>hm_pending := foldl (\<lambda>d k. dict_pop k d) (hm_pending m2) gone\<rparr>
         in (Inr (map snd (hm_pending m3)), m3))"

section \<open>Calls\<close>

datatype hitl_call =
    Submit string submission real
  | Decide string string string "string option" real
  | Get_Approval string real
  | List_Pending real

definition call_time :: "hitl_call \<Rightarrow> real" where
  "call_time c = (case c of Submit _ _ t \<Rightarrow> t | Decide _ _ _ _ t \<Rightarrow> t | Get_Approval _ t \<Rightarrow> t | List_Pending t \<Rightarrow> t)"

definition hitl_exec :: "(val \<Rightarrow> string) \<Rightarrow> hitl_manager \<Rightarrow> hitl_call \<Rightarrow> hitl_manager" where
  "hitl_exec rep m c = (case c of
       Submit fresh s now \<Rightarrow> snd (submit rep m fresh s now)
     | Decide aid dec actor note now \<Rightarrow> snd (hitl_decide rep m aid dec actor note now)
     | Get_Approval aid now \<Rightarrow> snd (hitl_get rep m aid now)
     | List_Pending now \<Rightarrow> snd (hitl_pending rep m now))"

definition hitl_run :: "(val \<Rightarrow> string) \<Rightarrow> hitl_manager \<Rightarrow> hitl_call list \<Rightarrow> hitl_manager" where
  "hitl_run rep m cs = foldl (hitl_exec rep) m cs"

text \<open>Approvals that wait for a decision at a time.\<close>

definition still_open :: "real \<Rightarrow> approval_record \<Rightarrow> bool" where
  "still_open now r \<longleftrightarrow> ap_status r = ''pending'' \<and> \<not> expired r None now"

definition open_approval :: "hitl_manager \<Rightarrow> real \<Rightarrow> string \<Rightarrow> approval_record option" where
  "open_approval m now aid = (case dict_get (hm_pending m) aid of
       Some r \<Rightarrow> if still_open now r then Some r else None
     | None \<Rightarrow> None)"

section \<open>Journal and state\<close>

lemma hitl_log_simps [simp]:
  "hm_pending (hitl_log m event r extra ts) = hm_pending m" "hm_journal (hitl_log m event r extra ts) = hm_journal m"
  "hm_offset (hitl_log m event r extra ts) = hm_offset m" "hm_persistent (hitl_log m event r extra ts) = hm_persistent m"
  "hm_default_ttl_ms (hitl_log m event r extra ts) = hm_default_ttl_ms m" "hm_queue_limit (hitl_log m event r extra ts) = hm_queue_limit m"
  "hm_enabled (hitl_log m event r extra ts) = hm_enabled m"
  by (simp_all add: hitl_log_def Let_def split: option.split)

lemma apply_lines_snoc:
  "apply_lines rep ttl now i p lines = (None, q) \<Longrightarrow>
     apply_lines rep ttl now i p (lines @ [Some entry]) =
       (case apply_store_entry rep ttl now i q entry of Inl e \<Rightarrow> (Some e, q) | Inr q' \<Rightarrow> (None, q'))"
  by (induction rep ttl now i p lines rule: apply_lines.induct) (auto split: sum.splits)

lemma decision_value_default [simp]: "decision_of_default (decision_value (decision_of_default s)) = decision_of_default s"
  by (simp add: decision_of_default_def str_lower_def lower_char_def)

text \<open>A pending entry is read back as its record.\<close>

definition fresh_record :: "approval_record \<Rightarrow> bool" where
  "fresh_record r \<longleftrightarrow> ap_status r = ''pending'' \<and> ap_decided_at r = None \<and> ap_decided_by r = None \<and> ap_note r = None \<and>
     [] \<notin> set (ap_actors r) \<and> ap_default r \<noteq> TIMEOUT"

lemma apply_pending_entry:
  assumes "fresh_record r"
  shows "apply_store_entry rep ttl now True p (pending_entry r) = Inr (dict_set (ap_id r) r p)"
proof -
  have "filter truthy (map VStr (ap_actors r)) = map VStr (ap_actors r)" using assms by (auto simp: fresh_record_def filter_id_conv)
  moreover have "decision_of_default (decision_value (ap_default r)) = ap_default r"
    using assms decision_value_default by (cases "ap_default r") (auto simp: fresh_record_def decision_of_default_def str_lower_def lower_char_def)
  ultimately have "record_from_entry rep ttl now (ap_id r) (pending_entry r) = Inr r"
    using assms by (cases r) (simp add: record_from_entry_def pending_entry_def dict_get_or_def iter_val_def to_dict_def fresh_record_def comp_def)
  then show ?thesis by (simp add: apply_store_entry_def get_val_def dict_get_or_def pending_entry_def)
qed

lemma apply_decision_entry:
  "dict_get p (ap_id r) \<noteq> None \<Longrightarrow> apply_store_entry rep ttl now i p (decision_entry r t) = Inr (dict_pop (ap_id r) p)"
  by (auto simp: apply_store_entry_def decision_entry_def get_val_def dict_get_or_def split: option.split)

lemma expired_mono: "expired r None t \<Longrightarrow> t \<le> t' \<Longrightarrow> expired r None t'"
  by (auto simp: expired_def)

lemma expired_Some [simp]: "expired r (Some now) now = expired r None now"
  by (simp add: expired_def)

text \<open>
  \<open>mirrors t Q P\<close>: the approvals \<open>Q\<close> of a manager and those \<open>P\<close> its journal stands for are the same, up
  to approvals that have expired by time \<open>t\<close>: the journal does not record expiry.
\<close>

definition mirrors :: "real \<Rightarrow> (string \<Rightarrow> approval_record option) \<Rightarrow> (string \<Rightarrow> approval_record option) \<Rightarrow> bool" where
  "mirrors t Q P \<longleftrightarrow>
     (\<forall>a r. Q a = Some r \<and> ap_status r = ''pending'' \<longrightarrow> P a = Some r) \<and>
     (\<forall>a r. P a = Some r \<longrightarrow> ap_status r = ''pending'' \<and> (Q a = Some r \<or> expired r None t))"

lemma mirrorsI:
  assumes "\<And>a r. Q a = Some r \<Longrightarrow> ap_status r = ''pending'' \<Longrightarrow> P a = Some r"
    and "\<And>a r. P a = Some r \<Longrightarrow> ap_status r = ''pending''"
    and "\<And>a r. P a = Some r \<Longrightarrow> Q a \<noteq> Some r \<Longrightarrow> expired r None t"
  shows "mirrors t Q P"
  using assms unfolding mirrors_def by blast

lemma mirrorsD:
  assumes "mirrors t Q P"
  shows "Q a = Some r \<Longrightarrow> ap_status r = ''pending'' \<Longrightarrow> P a = Some r" and "P a = Some r \<Longrightarrow> ap_status r = ''pending''"
    and "P a = Some r \<Longrightarrow> Q a \<noteq> Some r \<Longrightarrow> expired r None t"
  using assms unfolding mirrors_def by blast+

lemma mirrors_later: "mirrors t Q P \<Longrightarrow> t \<le> t' \<Longrightarrow> mirrors t' Q P"
  using mirrorsD expired_mono by (intro mirrorsI) blast+

lemma mirrors_add:
  assumes "mirrors t Q P" and "ap_status r = ''pending''"
  shows "mirrors t (Q(a \<mapsto> r)) (P(a \<mapsto> r))"
proof (rule mirrorsI)
  fix a' r'
  note d = mirrorsD[OF assms(1), of a' r']
  show "(Q(a \<mapsto> r)) a' = Some r' \<Longrightarrow> ap_status r' = ''pending'' \<Longrightarrow> (P(a \<mapsto> r)) a' = Some r'"
    by (cases "a' = a") (use d(1) in simp_all)
  show "(P(a \<mapsto> r)) a' = Some r' \<Longrightarrow> ap_status r' = ''pending''" by (cases "a' = a") (use d(2) assms(2) in simp_all)
  show "(P(a \<mapsto> r)) a' = Some r' \<Longrightarrow> (Q(a \<mapsto> r)) a' \<noteq> Some r' \<Longrightarrow> expired r' None t"
    by (cases "a' = a") (use d(3) in simp_all)
qed

lemma mirrors_remove:
  assumes "mirrors t Q P"
  shows "mirrors t (Q(a := None)) (P(a := None))"
proof (rule mirrorsI)
  fix a' r'
  note d = mirrorsD[OF assms(1), of a' r']
  show "(Q(a := None)) a' = Some r' \<Longrightarrow> ap_status r' = ''pending'' \<Longrightarrow> (P(a := None)) a' = Some r'"
    by (cases "a' = a") (use d(1) in simp_all)
  show "(P(a := None)) a' = Some r' \<Longrightarrow> ap_status r' = ''pending''" by (cases "a' = a") (use d(2) in simp_all)
  show "(P(a := None)) a' = Some r' \<Longrightarrow> (Q(a := None)) a' \<noteq> Some r' \<Longrightarrow> expired r' None t"
    by (cases "a' = a") (use d(3) in simp_all)
qed

lemma mirrors_drop:
  assumes "mirrors t Q P" and same: "\<And>a. a \<notin> A \<Longrightarrow> Q' a = Q a"
    and out: "\<And>a r. a \<in> A \<Longrightarrow> Q a = Some r \<Longrightarrow> ap_status r = ''pending'' \<Longrightarrow> expired r None t"
    and new: "\<And>a r. a \<in> A \<Longrightarrow> Q' a = Some r \<Longrightarrow> ap_status r \<noteq> ''pending''"
  shows "mirrors t Q' P"
proof (rule mirrorsI)
  fix a r
  show "Q' a = Some r \<Longrightarrow> ap_status r = ''pending'' \<Longrightarrow> P a = Some r"
    using same new mirrorsD(1)[OF assms(1)] by (cases "a \<in> A") auto
  assume P: "P a = Some r"
  then show st: "ap_status r = ''pending''" by (rule mirrorsD(2)[OF assms(1)])
  show "Q' a \<noteq> Some r \<Longrightarrow> expired r None t"
    using P st same out mirrorsD(3)[OF assms(1) P] by (cases "a \<in> A"; cases "Q a = Some r") auto
qed

lemma mirrors_open:
  assumes "mirrors t Q P"
  shows "(case Q a of Some r \<Rightarrow> if still_open t r then Some r else None | None \<Rightarrow> None) =
    (case P a of Some r \<Rightarrow> if still_open t r then Some r else None | None \<Rightarrow> None)"
proof (cases "P a")
  case None
  then have "ap_status r \<noteq> ''pending''" if "Q a = Some r" for r using mirrorsD(1)[OF assms that] by auto
  then show ?thesis using None by (auto simp: still_open_def split: option.split)
next
  case (Some r)
  show ?thesis
  proof (cases "Q a = Some r")
    case False
    then have "\<not> still_open t r" using mirrorsD(3)[OF assms Some] by (simp add: still_open_def)
    moreover have "\<not> still_open t r'" if "Q a = Some r'" for r'
      using mirrorsD(1)[OF assms that] that False Some by (auto simp: still_open_def)
    ultimately show ?thesis using Some by (auto split: option.split)
  qed (use Some in simp)
qed

definition journal_ok :: "(val \<Rightarrow> string) \<Rightarrow> real \<Rightarrow> hitl_manager \<Rightarrow> bool" where
  "journal_ok rep t m \<longleftrightarrow> hm_persistent m \<and> hm_offset m = length (hm_journal m) \<and> dict_wf (hm_pending m) \<and>
     (\<forall>aid r. dict_get (hm_pending m) aid = Some r \<longrightarrow> ap_id r = aid) \<and>
     (\<exists>P. (\<forall>now. apply_lines rep (hm_default_ttl_ms m) now True [] (hm_journal m) = (None, P)) \<and> mirrors t (dict_get (hm_pending m)) (dict_get P))"

lemma sync_idle: "journal_ok rep t m \<Longrightarrow> sync_store rep now m = (None, m)"
  by (cases m) (simp add: journal_ok_def sync_store_def)

lemma journal_okI:
  assumes "journal_ok rep t m" and "hm_persistent m' = hm_persistent m" "hm_offset m' = hm_offset m" "hm_journal m' = hm_journal m"
    "hm_default_ttl_ms m' = hm_default_ttl_ms m" and "dict_wf (hm_pending m')"
    and "\<And>aid r. dict_get (hm_pending m') aid = Some r \<Longrightarrow> ap_id r = aid"
    and "\<And>P. mirrors t (dict_get (hm_pending m)) (dict_get P) \<Longrightarrow> mirrors t (dict_get (hm_pending m')) (dict_get P)"
  shows "journal_ok rep t m'"
  using assms unfolding journal_ok_def by auto

lemma journal_ok_append:
  assumes "journal_ok rep t m" and "hm_persistent m' = hm_persistent m" "hm_journal m' = hm_journal m"
    "hm_default_ttl_ms m' = hm_default_ttl_ms m" and "dict_wf (hm_pending m')"
    and "\<And>aid r. dict_get (hm_pending m') aid = Some r \<Longrightarrow> ap_id r = aid"
    and "\<And>P. mirrors t (dict_get (hm_pending m)) (dict_get P) \<Longrightarrow>
      \<exists>P'. (\<forall>now. apply_store_entry rep (hm_default_ttl_ms m) now True P entry = Inr P') \<and> mirrors t (dict_get (hm_pending m')) (dict_get P')"
  shows "journal_ok rep t (append_store m' entry)"
proof -
  obtain P where P: "\<And>now. apply_lines rep (hm_default_ttl_ms m) now True [] (hm_journal m) = (None, P)"
    "mirrors t (dict_get (hm_pending m)) (dict_get P)" using assms(1) by (auto simp: journal_ok_def)
  then obtain P' where "\<And>now. apply_store_entry rep (hm_default_ttl_ms m) now True P entry = Inr P'"
    "mirrors t (dict_get (hm_pending m')) (dict_get P')" using assms(7) by blast
  then show ?thesis using assms apply_lines_snoc[OF P(1)] by (auto simp: journal_ok_def append_store_def)
qed

section \<open>Preservation\<close>

lemma journal_ok_later: "journal_ok rep t m \<Longrightarrow> t \<le> t' \<Longrightarrow> journal_ok rep t' m"
  unfolding journal_ok_def using mirrors_later by blast

lemma ap_id_simps [simp]: "ap_id (decided r st now who note) = ap_id r" "ap_id (timed_out r now) = ap_id r"
  "ap_status (decided r st now who note) = st" "ap_status (timed_out r now) = ''timeout''"
  by (simp_all add: decided_def timed_out_def)

text \<open>Replacing an expired approval by one that is no longer pending.\<close>

lemma journal_ok_expire:
  assumes "journal_ok rep t m" and "dict_get (hm_pending m) aid = Some r" "expired r None t"
    and "ap_status r' \<noteq> ''pending''" "ap_id r' = ap_id r"
  shows "journal_ok rep t (m\<lparr>hm_pending := dict_set aid r' (hm_pending m)\<rparr>)"
proof (rule journal_okI[OF assms(1)])
  show "dict_wf (hm_pending (m\<lparr>hm_pending := dict_set aid r' (hm_pending m)\<rparr>))" using assms(1) by (simp add: journal_ok_def)
  show "ap_id x = b" if "dict_get (hm_pending (m\<lparr>hm_pending := dict_set aid r' (hm_pending m)\<rparr>)) b = Some x" for b x
    using that assms(1,2,5) by (auto simp: journal_ok_def dict_simps split: if_splits)
  show "mirrors t (dict_get (hm_pending (m\<lparr>hm_pending := dict_set aid r' (hm_pending m)\<rparr>))) (dict_get P)"
    if "mirrors t (dict_get (hm_pending m)) (dict_get P)" for P
    by (rule mirrors_drop[OF that, of "{aid}"]) (use assms(2-4) in \<open>auto simp: dict_simps\<close>)
qed simp_all

lemma journal_ok_log [simp]: "journal_ok rep t (hitl_log m event r extra ts) = journal_ok rep t m"
  by (simp add: journal_ok_def)

lemma journal_ok_mark:
  "journal_ok rep t m \<Longrightarrow> dict_get (hm_pending m) aid = Some r \<Longrightarrow> expired r None t \<Longrightarrow> journal_ok rep t (mark_expired m aid r now)"
  using journal_ok_expire[of rep t m aid r "timed_out r now"] by (simp add: mark_expired_def Let_def)

lemma journal_ok_submit:
  assumes "journal_ok rep now m"
  shows "journal_ok rep now (snd (submit rep m fresh s now))"
proof -
  let ?r = "\<lparr>ap_id = fresh, ap_flow = sb_flow s, ap_step = sb_step s, ap_reason = sb_reason s, ap_requested_by = sb_requested_by s,
     ap_ttl_ms = (case sb_ttl_ms s of Some t \<Rightarrow> t | None \<Rightarrow> hm_default_ttl_ms m),
     ap_default = decision_of_default (sb_default s), ap_actors = filter (\<lambda>a. a \<noteq> []) (sb_actors s),
     ap_created_at = now, ap_payload = sb_payload s, ap_status = ''pending'', ap_decided_at = None,
     ap_decided_by = None, ap_note = None\<rparr>"
  let ?m = "hitl_log (m\<lparr>hm_pending := dict_set fresh ?r (hm_pending m)\<rparr>) ''hitl_pending'' ?r [(''status'', VStr ''pending'')] now"
  have fresh: "fresh_record ?r" by (auto simp: fresh_record_def decision_of_default_def)
  have "journal_ok rep now (append_store ?m (pending_entry ?r))"
  proof (rule journal_ok_append[OF assms])
    show "dict_wf (hm_pending ?m)" using assms by (simp add: journal_ok_def)
    show "ap_id x = aid" if "dict_get (hm_pending ?m) aid = Some x" for aid x
      using that assms by (auto simp: journal_ok_def dict_simps split: if_splits)
    show "\<exists>P'. (\<forall>now. apply_store_entry rep (hm_default_ttl_ms m) now True P (pending_entry ?r) = Inr P') \<and>
        mirrors now (dict_get (hm_pending ?m)) (dict_get P')" if "mirrors now (dict_get (hm_pending m)) (dict_get P)" for P
      using mirrors_add[OF that, of ?r fresh] apply_pending_entry[OF fresh, of rep "hm_default_ttl_ms m" _ P]
      by (intro exI[of _ "dict_set fresh ?r P"]) (simp add: update_conv')
  qed simp_all
  then show ?thesis using assms by (simp add: submit_def sync_idle[OF assms] Let_def)
qed

lemma journal_ok_decide:
  assumes "journal_ok rep now m"
  shows "journal_ok rep now (snd (hitl_decide rep m aid dec actor note now))"
proof (cases "dict_get (hm_pending m) aid")
  case (Some r)
  have id: "ap_id r = aid" using assms Some by (simp add: journal_ok_def)
  have "journal_ok rep now (append_store (m'\<lparr>hm_pending := dict_pop aid (hm_pending m)\<rparr>) (decision_entry r1 t))"
    if pend: "ap_status r = ''pending''" and r1: "ap_id r1 = aid"
      and m': "hm_persistent m' = hm_persistent m" "hm_journal m' = hm_journal m" "hm_default_ttl_ms m' = hm_default_ttl_ms m" for r1 t m'
  proof (rule journal_ok_append[OF assms])
    show "dict_wf (hm_pending (m'\<lparr>hm_pending := dict_pop aid (hm_pending m)\<rparr>))" using assms by (simp add: journal_ok_def)
    show "ap_id x = b" if "dict_get (hm_pending (m'\<lparr>hm_pending := dict_pop aid (hm_pending m)\<rparr>)) b = Some x" for b x
      using that assms by (auto simp: journal_ok_def dict_simps split: if_splits)
    show "\<exists>P'. (\<forall>now. apply_store_entry rep (hm_default_ttl_ms m) now True P (decision_entry r1 t) = Inr P') \<and>
        mirrors now (dict_get (hm_pending (m'\<lparr>hm_pending := dict_pop aid (hm_pending m)\<rparr>))) (dict_get P')"
      if mi: "mirrors now (dict_get (hm_pending m)) (dict_get P)" for P
      using mirrors_remove[OF mi, of aid] mirrorsD(1)[OF mi Some pend] r1 apply_decision_entry[of P r1 rep "hm_default_ttl_ms m" _ True t]
      by (intro exI[of _ "dict_pop aid P"]) (simp add: delete_conv')
  qed (use m' in simp_all)
  then have ok: "journal_ok rep now (append_store ((hitl_log m e (decided r st now w n) x now)\<lparr>hm_pending := dict_pop aid (hm_pending m)\<rparr>)
      (decision_entry (decided r st now w n) now))" if "ap_status r = ''pending''" for e st w n x
    using that id by simp
  have "journal_ok rep now (m\<lparr>hm_pending := dict_set aid (decided r ''timeout'' now w n) (hm_pending m)\<rparr>)" if "expired r None now" for w n
    using journal_ok_expire[OF assms Some that] by simp
  then show ?thesis using assms Some ok by (simp add: hitl_decide_def sync_idle[OF assms] Let_def split: sum.split)
qed (use assms in \<open>simp add: hitl_decide_def sync_idle[OF assms]\<close>)

lemma mark_all_pending:
  assumes "\<And>r. (a, r) \<in> set xs \<Longrightarrow> \<not> expired r None now"
  shows "dict_get (hm_pending (mark_all now xs m)) a = dict_get (hm_pending m) a"
  using assms by (induction now xs m rule: mark_all.induct) (auto simp: mark_expired_def Let_def dict_simps)

lemma mark_all_simps [simp]:
  "hm_journal (mark_all now xs m) = hm_journal m" "hm_offset (mark_all now xs m) = hm_offset m"
  "hm_persistent (mark_all now xs m) = hm_persistent m" "hm_default_ttl_ms (mark_all now xs m) = hm_default_ttl_ms m"
  "dict_wf (hm_pending m) \<Longrightarrow> dict_wf (hm_pending (mark_all now xs m))"
  by (induction now xs m rule: mark_all.induct) (simp_all add: mark_expired_def Let_def)

lemma dict_get_pop_all: "dict_get (foldl (\<lambda>d k. dict_pop k d) d ks) a = (if a \<in> set ks then None else dict_get d a)"
  by (induction ks arbitrary: d) (auto simp: dict_simps)

lemma dict_wf_pop_all: "dict_wf d \<Longrightarrow> dict_wf (foldl (\<lambda>d k. dict_pop k d) d ks)"
  by (induction ks arbitrary: d) simp_all

lemma journal_ok_list:
  assumes "journal_ok rep now m"
  shows "journal_ok rep now (snd (hitl_pending rep m now))"
proof -
  let ?Q = "hm_pending m"
  define gone where "gone = map fst (filter (\<lambda>(_, r). expired r (Some now) now) ?Q)"
  define Q' where "Q' = foldl (\<lambda>d k. dict_pop k d) (hm_pending (mark_all now ?Q m)) gone"
  have wf: "dict_wf ?Q" using assms by (simp add: journal_ok_def)
  have gone: "a \<in> set gone \<longleftrightarrow> (\<exists>r. dict_get ?Q a = Some r \<and> expired r None now)" for a
    using wf by (force simp: gone_def map_of_eq_Some_iff)
  have new: "dict_get Q' a = (if a \<in> set gone then None else dict_get ?Q a)" for a
  proof (cases "a \<in> set gone")
    case False
    then have "dict_get (hm_pending (mark_all now ?Q m)) a = dict_get ?Q a"
      unfolding gone using wf by (intro mark_all_pending) (auto simp: map_of_eq_Some_iff)
    then show ?thesis using False by (simp add: Q'_def dict_get_pop_all)
  qed (simp add: Q'_def dict_get_pop_all)
  have "journal_ok rep now ((mark_all now ?Q m)\<lparr>hm_pending := Q'\<rparr>)"
  proof (rule journal_okI[OF assms])
    show "dict_wf (hm_pending ((mark_all now ?Q m)\<lparr>hm_pending := Q'\<rparr>))" using wf by (simp add: Q'_def dict_wf_pop_all)
    show "ap_id x = b" if "dict_get (hm_pending ((mark_all now ?Q m)\<lparr>hm_pending := Q'\<rparr>)) b = Some x" for b x
      using that assms by (auto simp: new journal_ok_def split: if_splits)
    show "mirrors now (dict_get (hm_pending ((mark_all now ?Q m)\<lparr>hm_pending := Q'\<rparr>))) (dict_get P)"
      if "mirrors now (dict_get ?Q) (dict_get P)" for P
      by (rule mirrors_drop[OF that, of "set gone"]) (use gone in \<open>auto simp: new\<close>)
  qed simp_all
  then show ?thesis by (simp add: hitl_pending_def sync_idle[OF assms] Let_def gone_def Q'_def)
qed

lemma journal_ok_exec:
  assumes "journal_ok rep t m" and "t \<le> call_time c"
  shows "journal_ok rep (call_time c) (hitl_exec rep m c)"
proof -
  have m: "journal_ok rep (call_time c) m" using assms by (rule journal_ok_later)
  show ?thesis
  proof (cases c)
    case (Get_Approval aid now)
    then show ?thesis using m journal_ok_mark[of rep now m aid]
      by (simp add: hitl_exec_def hitl_get_def sync_idle[OF m] call_time_def split: option.split)
  qed (use m journal_ok_submit journal_ok_decide journal_ok_list in \<open>simp_all add: hitl_exec_def call_time_def\<close>)
qed

lemma journal_ok_run:
  "journal_ok rep t m \<Longrightarrow> sorted (t # map call_time cs) \<Longrightarrow> t' = last (t # map call_time cs) \<Longrightarrow> journal_ok rep t' (hitl_run rep m cs)"
proof (induction cs arbitrary: t m)
  case (Cons c cs)
  have "journal_ok rep (call_time c) (hitl_exec rep m c)" using Cons.prems by (intro journal_ok_exec) auto
  from Cons.IH[OF this] Cons.prems(2,3) show ?case by (simp add: hitl_run_def)
qed (simp add: hitl_run_def)

lemma hitl_exec_ttl:
  assumes "journal_ok rep t m" and "t \<le> call_time c"
  shows "hm_default_ttl_ms (hitl_exec rep m c) = hm_default_ttl_ms m"
  using sync_idle[OF assms(1)]
  by (cases c) (auto simp: hitl_exec_def submit_def hitl_decide_def hitl_get_def hitl_pending_def mark_expired_def append_store_def
      Let_def split: option.split sum.split)

lemma hitl_run_ttl: "journal_ok rep t m \<Longrightarrow> sorted (t # map call_time cs) \<Longrightarrow> hm_default_ttl_ms (hitl_run rep m cs) = hm_default_ttl_ms m"
proof (induction cs arbitrary: t m)
  case (Cons c cs)
  have "journal_ok rep (call_time c) (hitl_exec rep m c)" using Cons.prems by (intro journal_ok_exec) auto
  then show ?case using Cons.IH[of "call_time c" "hitl_exec rep m c"] Cons.prems hitl_exec_ttl[of rep t m c] by (simp add: hitl_run_def)
qed (simp add: hitl_run_def)

lemma journal_ok_start:
  "mk_hitl rep cfg audit [] t0 = Inr m \<Longrightarrow> hc_persistence_path cfg = Some (c # cs) \<Longrightarrow> journal_ok rep t m \<and> hm_default_ttl_ms m = hc_default_ttl_ms cfg"
  by (auto simp: mk_hitl_def Let_def journal_ok_def mirrors_def)

section \<open>Properties\<close>

text \<open>
  C30. The journal recovers the approval queue: after any sequence of calls in the order of their
  times on a persistent queue that started empty, a new manager opened on the journal has exactly the
  same open approvals, with all their fields, as the old one.
\<close>

theorem journal_recovers_approvals:
  assumes "mk_hitl rep cfg audit [] t0 = Inr m0" and "hc_persistence_path cfg = Some (ch # path)"
    and "sorted (t0 # map call_time cs)" and "m = hitl_run rep m0 cs" and "last (t0 # map call_time cs) \<le> now"
  shows "\<exists>m'. mk_hitl rep cfg audit' (hm_journal m) now = Inr m' \<and> open_approval m' now aid = open_approval m now aid"
proof -
  have ok0: "journal_ok rep t0 m0" "hm_default_ttl_ms m0 = hc_default_ttl_ms cfg" using journal_ok_start[OF assms(1,2)] by auto
  have ok: "journal_ok rep now m"
    using journal_ok_later[OF journal_ok_run[OF ok0(1) assms(3) refl] assms(5)] assms(4) by simp
  have ttl: "hm_default_ttl_ms m = hc_default_ttl_ms cfg" using hitl_run_ttl[OF ok0(1) assms(3)] ok0(2) assms(4) by simp
  obtain P where P: "apply_lines rep (hc_default_ttl_ms cfg) now True [] (hm_journal m) = (None, P)"
    "mirrors now (dict_get (hm_pending m)) (dict_get P)" using ok ttl by (auto simp: journal_ok_def)
  have "(case dict_get P aid of Some r \<Rightarrow> if still_open now r then Some r else None | None \<Rightarrow> None) = open_approval m now aid"
    unfolding open_approval_def by (rule mirrors_open[OF P(2), symmetric])
  then show ?thesis using P(1) assms(2) by (simp add: mk_hitl_def Let_def open_approval_def)
qed

definition review :: submission where
  "review = \<lparr>sb_flow = ''f'', sb_step = ''s'', sb_reason = ''why'', sb_requested_by = ''me'', sb_ttl_ms = Some 5000,
     sb_default = ''deny'', sb_actors = [''ops'', []], sb_payload = []\<rparr>"

definition one_slot :: hitl_config where
  "one_slot = \<lparr>hc_enabled = True, hc_default_ttl_ms = 600000, hc_persistence_path = Some ''approvals.jsonl'', hc_queue_size = 1\<rparr>"

definition empty_hitl :: hitl_manager where
  "empty_hitl = \<lparr>hm_default_ttl_ms = 600000, hm_enabled = True, hm_queue_limit = 1, hm_pending = [], hm_persistent = True,
     hm_offset = 0, hm_journal = [], hm_audit = None\<rparr>"

lemma mk_one_slot: "mk_hitl rep one_slot None [] now = Inr empty_hitl"
  by (simp add: mk_hitl_def one_slot_def empty_hitl_def)

theorem journal_recovers_approvals_witness:
  "\<exists>m'. mk_hitl (\<lambda>_. []) one_slot None (hm_journal (hitl_run (\<lambda>_. []) empty_hitl [Submit ''a1'' review 1])) 2 = Inr m' \<and>
     open_approval m' 2 ''a1'' = open_approval (hitl_run (\<lambda>_. []) empty_hitl [Submit ''a1'' review 1]) 2 ''a1''"
  by (rule journal_recovers_approvals[OF mk_one_slot[of _ 0] _ _ refl]) (simp_all add: one_slot_def call_time_def)

lemma append_store_pending [simp]: "hm_pending (append_store m e) = hm_pending m"
  by (simp add: append_store_def)

text \<open>The id a call submits.\<close>

definition submits :: "hitl_call \<Rightarrow> string option" where
  "submits c = (case c of Submit fresh _ _ \<Rightarrow> Some fresh | _ \<Rightarrow> None)"

lemma absent_exec:
  assumes "journal_ok rep t m" and "dict_get (hm_pending m) aid = None" and "submits c \<noteq> Some aid"
  shows "dict_get (hm_pending (hitl_exec rep m c)) aid = None"
proof (cases c)
  case (List_Pending now)
  have "dict_get (hm_pending (mark_all now (hm_pending m) m)) aid = dict_get (hm_pending m) aid"
    using assms(2) by (intro mark_all_pending) (force simp: dict_get_None_iff)
  then show ?thesis using List_Pending assms(2)
    by (simp add: hitl_exec_def hitl_pending_def sync_idle[OF assms(1)] Let_def dict_get_pop_all)
qed (use assms in \<open>auto simp: hitl_exec_def submit_def hitl_decide_def hitl_get_def mark_expired_def sync_idle[OF assms(1)]
      submits_def Let_def dict_simps split: option.split sum.split\<close>)

lemma absent_run:
  "journal_ok rep t m \<Longrightarrow> sorted (t # map call_time cs) \<Longrightarrow> dict_get (hm_pending m) aid = None \<Longrightarrow>
     \<forall>c\<in>set cs. submits c \<noteq> Some aid \<Longrightarrow> dict_get (hm_pending (hitl_run rep m cs)) aid = None"
proof (induction cs arbitrary: t m)
  case (Cons c cs)
  have "journal_ok rep (call_time c) (hitl_exec rep m c)" using Cons.prems by (intro journal_ok_exec) auto
  then show ?case using Cons.IH[of "call_time c" "hitl_exec rep m c"] Cons.prems absent_exec[of rep t m aid c] by (simp add: hitl_run_def)
qed (simp add: hitl_run_def)

lemma decide_open:
  assumes "journal_ok rep now m" and "open_approval m now aid \<noteq> None" and "hitl_decide rep m aid dec actor note now = (Inr r, m')"
  shows "ap_status r \<in> {''approve'', ''deny''} \<and> dict_get (hm_pending m') aid = None"
proof -
  have "normalize_decision dec = Inr d \<Longrightarrow> decision_value d \<in> {''approve'', ''deny''}" for d
    by (auto simp: normalize_decision_def Let_def split: if_splits)
  then show ?thesis
    using assms(2,3) by (auto simp: hitl_decide_def sync_idle[OF assms(1)] open_approval_def still_open_def Let_def dict_simps
        split: option.splits sum.splits if_splits)
qed

text \<open>
  An approval is decided once: when a decision on an open approval succeeds, the record carries
  that decision, and whatever calls follow in the order of their times, every later attempt to decide
  the same approval raises a key error, unless it is submitted again under the same id.
\<close>

theorem decided_once:
  assumes "mk_hitl rep cfg audit [] t0 = Inr m0" and "hc_persistence_path cfg = Some (ch # path)"
    and "sorted (t0 # map call_time cs)" and "m = hitl_run rep m0 cs" and "last (t0 # map call_time cs) \<le> now"
    and "open_approval m now aid \<noteq> None" and "hitl_decide rep m aid dec actor note now = (Inr r, m1)"
    and "sorted (now # map call_time cs')" and "\<forall>c\<in>set cs'. submits c \<noteq> Some aid" and "m2 = hitl_run rep m1 cs'"
    and "last (now # map call_time cs') \<le> now'"
  shows "ap_status r \<in> {''approve'', ''deny''} \<and>
    fst (hitl_decide rep m2 aid dec' actor' note' now') = Inl (KeyError (''Unknown approval_id '' @ quoted aid))"
proof -
  have "journal_ok rep t0 m0" using journal_ok_start[OF assms(1,2)] by blast
  then have ok: "journal_ok rep now m" using journal_ok_later[OF journal_ok_run[OF _ assms(3) refl] assms(5)] assms(4) by simp
  then have ok1: "journal_ok rep now m1" using journal_ok_decide[OF ok, of aid dec actor "note"] assms(7) by simp
  have ok2: "journal_ok rep now' m2"
    using journal_ok_later[OF journal_ok_run[OF ok1 assms(8) refl] assms(11)] assms(10) by simp
  have closed: "ap_status r \<in> {''approve'', ''deny''}" "dict_get (hm_pending m1) aid = None"
    using decide_open[OF ok assms(6,7)] by auto
  have "dict_get (hm_pending m2) aid = None" using absent_run[OF ok1 assms(8) closed(2) assms(9)] assms(10) by simp
  then show ?thesis using closed(1) by (simp add: hitl_decide_def sync_idle[OF ok2])
qed

theorem decided_once_witness:
  "fst (hitl_decide (\<lambda>_. []) (hitl_run (\<lambda>_. []) (snd (hitl_decide (\<lambda>_. []) (hitl_run (\<lambda>_. []) empty_hitl [Submit ''a1'' review 1])
      ''a1'' ''Yes'' ''ann'' None 2)) [List_Pending 3]) ''a1'' ''no'' ''bob'' None 4) = Inl (KeyError (''Unknown approval_id '' @ quoted ''a1''))"
proof -
  let ?m = "hitl_run (\<lambda>_. []) empty_hitl [Submit ''a1'' review 1]"
  have "open_approval ?m 2 ''a1'' \<noteq> None" "isl (fst (hitl_decide (\<lambda>_. []) ?m ''a1'' ''Yes'' ''ann'' None 2)) = False"
    by code_simp+
  then obtain r where o: "open_approval ?m 2 ''a1'' \<noteq> None"
    "hitl_decide (\<lambda>_. []) ?m ''a1'' ''Yes'' ''ann'' None 2 = (Inr r, snd (hitl_decide (\<lambda>_. []) ?m ''a1'' ''Yes'' ''ann'' None 2))"
    by (metis prod.collapse isl_def old.sum.exhaust)
  show ?thesis
    using decided_once[OF mk_one_slot[of _ 0] _ _ refl _ o, of "CHR ''a''" "''pprovals.jsonl''" "[List_Pending 3]" _ 4]
    by (simp add: one_slot_def call_time_def submits_def)
qed

text \<open>
  A look-up of an expired approval leaks its slot: with room for one approval, after the only one
  has expired and was looked up, listing the pending approvals returns the timed out record, and the
  queue refuses every further approval although none is open.
\<close>

theorem expired_lookup_leaks_slot:
  "let m = hitl_run (\<lambda>_. []) empty_hitl [Submit ''a1'' review 1, Get_Approval ''a1'' 7, List_Pending 8] in
   open_approval m 9 ''a1'' = None \<and>
   map ap_status (projr (fst (hitl_pending (\<lambda>_. []) m 9))) = [''timeout''] \<and>
   fst (submit (\<lambda>_. []) m ''a2'' review 10) = Inl (RuntimeError ''approval queue is full'')"
  by code_simp

end
