(* ===== verification/Governance_Config.thy ===== *)
theory Governance_Config
  imports Governance Approvals
begin

text \<open>
  Reading the governance configuration (\<^verbatim>\<open>tm/governance/config.py\<close>).  The file is the document \<^verbatim>\<open>tomllib\<close>
  gives, \<open>None\<close> when the file is missing or cannot be parsed; keys are strings.
\<close>

section \<open>Values with defaults\<close>

definition get_bool :: "(string, val) dict \<Rightarrow> string \<Rightarrow> bool \<Rightarrow> bool" where
  "get_bool section key dflt = (case get_val section key of
       VBool b \<Rightarrow> b
     | VInt i \<Rightarrow> i \<noteq> 0
     | VFloat r \<Rightarrow> r \<noteq> 0
     | VStr s \<Rightarrow>
         (let lowered = str_lower (str_strip s) in
          if lowered \<in> {''1'', ''true'', ''yes'', ''on''} then True
          else if lowered \<in> {''0'', ''false'', ''no'', ''off''} then False
          else dflt)
     | _ \<Rightarrow> dflt)"

definition get_int :: "(string, val) dict \<Rightarrow> string \<Rightarrow> int option \<Rightarrow> int option" where
  "get_int section key dflt = (case to_int (get_val section key) of Some i \<Rightarrow> Some i | None \<Rightarrow> dflt)"

definition get_float :: "(string, val) dict \<Rightarrow> string \<Rightarrow> real option \<Rightarrow> real option" where
  "get_float section key dflt = (case to_float (get_val section key) of Some r \<Rightarrow> Some r | None \<Rightarrow> dflt)"

text \<open>\<^verbatim>\<open>x or y\<close> on an optional number.\<close>

definition or_else :: "'a::zero option \<Rightarrow> 'a \<Rightarrow> 'a" where
  "or_else x y = (case x of Some a \<Rightarrow> if a = 0 then y else a | None \<Rightarrow> y)"

fun coalesce_sections :: "(string, val) dict \<Rightarrow> string list \<Rightarrow> (string, val) dict" where
  "coalesce_sections data [] = []"
| "coalesce_sections data (k # ks) = (case get_val data k of VDict d \<Rightarrow> d | _ \<Rightarrow> coalesce_sections data ks)"

section \<open>Limits and breakers\<close>

definition parse_limit_settings :: "val \<Rightarrow> limit_settings" where
  "parse_limit_settings raw = (case raw of
       VDict d \<Rightarrow> \<lparr>lm_enabled = get_bool d ''enabled'' True, lm_qps = get_float d ''qps'' None,
         lm_concurrency = get_int d ''concurrency'' None, lm_tokens_per_min = get_float d ''tokens_per_min'' None,
         lm_cost_per_hour = get_float d ''cost_per_hour'' None\<rparr>
     | _ \<Rightarrow> limits_off)"

text \<open>The loops over sub-sections: parsed settings are kept under their key when they are active.\<close>

definition keep_active :: "('s \<Rightarrow> bool) \<Rightarrow> (val \<Rightarrow> 's) \<Rightarrow> ('k, 's) dict \<Rightarrow> 'k \<times> val \<Rightarrow> ('k, 's) dict" where
  "keep_active active parse acc kv = (case kv of (k, cfg) \<Rightarrow>
     let s = parse cfg in if active s then dict_set k s acc else acc)"

definition parse_section :: "('s \<Rightarrow> bool) \<Rightarrow> (val \<Rightarrow> 's) \<Rightarrow> bool \<Rightarrow> val \<Rightarrow> (string, 's) dict" where
  "parse_section active parse enabled section = (case section of
       VDict d \<Rightarrow> if enabled then foldl (keep_active active parse) [] d else []
     | _ \<Rightarrow> [])"

definition policy_arms :: "string \<times> val \<Rightarrow> ((string \<times> string) \<times> val) list" where
  "policy_arms pv = (case pv of (policy, cfg) \<Rightarrow> (case cfg of
       VDict d \<Rightarrow>
         (let arms = (case get_val d ''arm'' of VDict a \<Rightarrow> a | _ \<Rightarrow> d) in
          map (\<lambda>(arm, v). ((policy, arm), v)) arms)
     | _ \<Rightarrow> []))"

definition parse_limits :: "(string, val) dict \<Rightarrow> bool \<Rightarrow> limits_config" where
  "parse_limits section enabled =
     (let global_cfg = (if enabled then parse_limit_settings (get_val section ''global'') else limits_off) in
      \<lparr>lc_enabled = enabled, lc_global = (if limit_active global_cfg then global_cfg else limits_off),
       lc_per_flow = parse_section limit_active parse_limit_settings enabled (get_val section ''flow''),
       lc_per_policy_arm = (case get_val section ''policy'' of
           VDict d \<Rightarrow> if enabled then foldl (keep_active limit_active parse_limit_settings) [] (concat (map policy_arms d)) else []
         | _ \<Rightarrow> [])\<rparr>)"

definition breaker_defaults_off :: breaker_settings where
  "breaker_defaults_off = \<lparr>bs_enabled = False, bs_window_sec = 30, bs_failure_threshold = 5, bs_timeout_threshold = 5,
     bs_cooldown_sec = 30, bs_half_open_max_calls = 1\<rparr>"

definition parse_breaker_settings :: "val \<Rightarrow> breaker_settings" where
  "parse_breaker_settings raw = (case raw of
       VDict d \<Rightarrow> \<lparr>bs_enabled = get_bool d ''enabled'' True,
         bs_window_sec = or_else (get_float d ''window_sec'' (Some 30)) 30,
         bs_failure_threshold = or_else (get_int d ''failure_threshold'' (Some 5)) 0,
         bs_timeout_threshold = or_else (get_int d ''timeout_threshold'' (Some 5)) 0,
         bs_cooldown_sec = or_else (get_float d ''cooldown_sec'' (Some 30)) 0,
         bs_half_open_max_calls = or_else (get_int d ''half_open_max_calls'' (Some 1)) 1\<rparr>
     | _ \<Rightarrow> breaker_defaults_off)"

definition parse_breakers :: "(string, val) dict \<Rightarrow> bool \<Rightarrow> breaker_config" where
  "parse_breakers section enabled =
     (let global_cfg = (if enabled then parse_breaker_settings (get_val section ''global'') else breaker_defaults_off) in
      \<lparr>bc_enabled = enabled, bc_global = (if breaker_active global_cfg then global_cfg else breaker_defaults_off),
       bc_per_flow = parse_section breaker_active parse_breaker_settings enabled (get_val section ''flow''),
       bc_per_policy = parse_section breaker_active parse_breaker_settings enabled (get_val section ''policy'')\<rparr>)"

section \<open>Guard rules\<close>

type_synonym guard_rule = "(string, val) dict"

record guard_config =
  gu_enabled :: bool
  gu_global_rules :: "guard_rule list"
  gu_flow_rules :: "(string, guard_rule list) dict"
  gu_policy_rules :: "(string, guard_rule list) dict"

definition no_guard :: "bool \<Rightarrow> guard_config" where
  "no_guard enabled = \<lparr>gu_enabled = enabled, gu_global_rules = [], gu_flow_rules = [], gu_policy_rules = []\<rparr>"

definition has_rules :: "guard_config \<Rightarrow> bool" where
  "has_rules g \<longleftrightarrow> gu_global_rules g \<noteq> [] \<or> gu_flow_rules g \<noteq> [] \<or> gu_policy_rules g \<noteq> []"

definition as_rule :: "guard_rule \<Rightarrow> guard_rule option" where
  "as_rule d = (case get_val d ''type'' of
       VStr s \<Rightarrow> if str_strip s \<noteq> [] then Some (dict_set ''type'' (VStr (str_strip s)) d) else None
     | _ \<Rightarrow> None)"

definition as_rule_tuple :: "guard_rule list \<Rightarrow> guard_rule list" where
  "as_rule_tuple items = List.map_filter as_rule items"

definition rules_from_obj :: "val \<Rightarrow> guard_rule list" where
  "rules_from_obj raw = (case raw of
       VDict d \<Rightarrow> if dict_has d ''type'' then as_rule_tuple [d] else []
     | VList vs \<Rightarrow> as_rule_tuple (List.map_filter as_dict vs)
     | _ \<Rightarrow> [])"

text \<open>\<^verbatim>\<open>d.setdefault(k, []).extend(xs)\<close>.\<close>

definition extend_at :: "string \<Rightarrow> 'a list \<Rightarrow> (string, 'a list) dict \<Rightarrow> (string, 'a list) dict" where
  "extend_at k xs d = dict_set k (dict_get_or d k [] @ xs) d"

definition consume_rules :: "guard_config \<Rightarrow> string \<Rightarrow> string option \<Rightarrow> val \<Rightarrow> guard_config" where
  "consume_rules g scope target rules_obj =
     (let rules = rules_from_obj rules_obj in
      if rules = [] then g
      else if scope = ''global'' then g\<lparr>gu_global_rules := gu_global_rules g @ rules\<rparr>
      else case target of
        None \<Rightarrow> g
      | Some t \<Rightarrow>
          if t = [] then g
          else if scope = ''flow'' then g\<lparr>gu_flow_rules := extend_at t rules (gu_flow_rules g)\<rparr>
          else if scope = ''policy'' then g\<lparr>gu_policy_rules := extend_at t rules (gu_policy_rules g)\<rparr>
          else g)"

definition consume_block :: "(val \<Rightarrow> string) \<Rightarrow> guard_config \<Rightarrow> val \<Rightarrow> guard_config" where
  "consume_block rep g block = (case block of
       VDict d \<Rightarrow>
         (let scope = str_lower (str_strip (py_str rep (get_or d ''scope'' (VStr ''global''))));
              target = (case get_val d ''target'' of VStr s \<Rightarrow> Some s | _ \<Rightarrow> None)
          in consume_rules g scope target (dict_get_or d ''rules'' (VDict d)))
     | _ \<Rightarrow> g)"

definition consume_named :: "string \<Rightarrow> guard_config \<Rightarrow> val \<Rightarrow> guard_config" where
  "consume_named scope g section = (case section of
       VDict d \<Rightarrow> foldl (\<lambda>g (name, cfg). consume_rules g scope (Some name) cfg) g d
     | _ \<Rightarrow> g)"

definition parse_guard :: "(val \<Rightarrow> string) \<Rightarrow> (string, val) dict \<Rightarrow> bool \<Rightarrow> guard_config" where
  "parse_guard rep section enabled =
     (if \<not> enabled then no_guard False
      else
        let g1 = (case get_val section ''rules'' of VList blocks \<Rightarrow> foldl (consume_block rep) (no_guard True) blocks | _ \<Rightarrow> no_guard True);
            g2 = (case get_val section ''global'' of
                VDict d \<Rightarrow> consume_rules g1 ''global'' None (dict_get_or d ''rules'' (VDict d)) | _ \<Rightarrow> g1);
            g3 = consume_named ''flow'' g2 (get_val section ''flow'');
            g4 = consume_named ''policy'' g3 (get_val section ''policy'')
        in \<lparr>gu_enabled = True, gu_global_rules = as_rule_tuple (gu_global_rules g4),
            gu_flow_rules = map (\<lambda>(k, v). (k, as_rule_tuple v)) (gu_flow_rules g4),
            gu_policy_rules = map (\<lambda>(k, v). (k, as_rule_tuple v)) (gu_policy_rules g4)\<rparr>)"

section \<open>Approvals and audit\<close>

definition parse_hitl :: "(string, val) dict \<Rightarrow> bool \<Rightarrow> hitl_config" where
  "parse_hitl section enabled =
     (if \<not> enabled then \<lparr>hc_enabled = False, hc_default_ttl_ms = 600000, hc_persistence_path = None, hc_queue_size = 0\<rparr>
      else \<lparr>hc_enabled = True, hc_default_ttl_ms = or_else (get_int section ''default_ttl_ms'' (Some 600000)) 600000,
            hc_persistence_path = (case get_val section ''persistence'' of VStr s \<Rightarrow> Some s | _ \<Rightarrow> None),
            hc_queue_size = or_else (get_int section ''queue_size'' (Some 0)) 0\<rparr>)"

definition default_masks :: "string list" where
  "default_masks = [''input'', ''output'']"

definition default_audit_path :: string where
  "default_audit_path = ''data/audit.jsonl''"

definition str_val :: "val \<Rightarrow> string option" where
  "str_val v = (case v of VStr s \<Rightarrow> Some s | _ \<Rightarrow> None)"

definition parse_audit :: "(string, val) dict \<Rightarrow> bool \<Rightarrow> audit_config" where
  "parse_audit section enabled =
     (if \<not> enabled then \<lparr>ac_enabled = False, ac_path = default_audit_path, ac_mask_fields = default_masks\<rparr>
      else \<lparr>ac_enabled = True,
            ac_path = (case get_val section ''path'' of VStr s \<Rightarrow> if s \<noteq> [] then s else default_audit_path | _ \<Rightarrow> default_audit_path),
            ac_mask_fields = (case get_val section ''mask_fields'' of
                VList vs \<Rightarrow> if vs \<noteq> [] then List.map_filter str_val vs else default_masks
              | _ \<Rightarrow> default_masks)\<rparr>)"

section \<open>The whole configuration\<close>

record full_config = governance_config +
  gc_guard :: guard_config
  gc_hitl :: hitl_config
  gc_audit :: audit_config

definition guard_enabled :: "full_config \<Rightarrow> bool" where
  "guard_enabled c \<longleftrightarrow> gc_enabled c \<and> gu_enabled (gc_guard c) \<and> has_rules (gc_guard c)"

definition hitl_enabled :: "full_config \<Rightarrow> bool" where
  "hitl_enabled c \<longleftrightarrow> gc_enabled c \<and> hc_enabled (gc_hitl c)"

definition audit_enabled :: "full_config \<Rightarrow> bool" where
  "audit_enabled c \<longleftrightarrow> gc_enabled c \<and> ac_enabled (gc_audit c)"

definition parse_config :: "(val \<Rightarrow> string) \<Rightarrow> bool \<Rightarrow> (string, val) dict \<Rightarrow> full_config" where
  "parse_config rep enabled g =
     (let on = (\<lambda>section. get_bool section ''enabled'' True \<and> enabled);
          limits = coalesce_sections g [''limits''];
          breaker = coalesce_sections g [''breaker'', ''circuit'', ''circuit_breaker''];
          guard = coalesce_sections g [''guard''];
          hitl = coalesce_sections g [''hitl'', ''approval''];
          audit = coalesce_sections g [''audit'']
      in \<lparr>gc_enabled = enabled, gc_limits = parse_limits limits (on limits), gc_breaker = parse_breakers breaker (on breaker),
          gc_guard = parse_guard rep guard (on guard), gc_hitl = parse_hitl hitl (on hitl), gc_audit = parse_audit audit (on audit)\<rparr>)"

definition governance_section :: "(string, val) dict \<Rightarrow> (string, val) dict" where
  "governance_section data = (case get_val data ''governance'' of VDict g \<Rightarrow> g | _ \<Rightarrow> data)"

definition default_config :: full_config where
  "default_config = \<lparr>gc_enabled = False,
     gc_limits = \<lparr>lc_enabled = False, lc_global = limits_off\<lparr>lm_enabled := True\<rparr>, lc_per_flow = [], lc_per_policy_arm = []\<rparr>,
     gc_breaker = \<lparr>bc_enabled = False, bc_global = breaker_defaults_off\<lparr>bs_enabled := True\<rparr>, bc_per_flow = [], bc_per_policy = []\<rparr>,
     gc_guard = no_guard False,
     gc_hitl = \<lparr>hc_enabled = False, hc_default_ttl_ms = 600000, hc_persistence_path = None, hc_queue_size = 0\<rparr>,
     gc_audit = \<lparr>ac_enabled = False, ac_path = default_audit_path, ac_mask_fields = default_masks\<rparr>\<rparr>"

definition load_governance_config :: "(val \<Rightarrow> string) \<Rightarrow> (string, val) dict option \<Rightarrow> full_config" where
  "load_governance_config rep doc = (case doc of
       None \<Rightarrow> default_config
     | Some data \<Rightarrow> (let g = governance_section data in parse_config rep (get_bool g ''enabled'' True) g))"

section \<open>Loaded configurations\<close>

text \<open>
  Governance is a switch: when the section says it is not enabled, the loaded configuration turns
  off limits, breakers, guards, approvals and the audit trail, whatever the sub-sections say, and the
  manager made from it admits every request without reserving anything or changing.
\<close>

theorem disabled_governance_admits:
  assumes "\<not> get_bool (governance_section data) ''enabled'' True" and "c = load_governance_config rep (Some data)"
  shows "\<not> guard_enabled c \<and> \<not> hitl_enabled c \<and> \<not> audit_enabled c \<and>
    \<not> gu_enabled (gc_guard c) \<and> \<not> hc_enabled (gc_hitl c) \<and> \<not> ac_enabled (gc_audit c) \<and>
    gov_check (mk_manager (governance_config.truncate c)) now rq = (grant [] [], mk_manager (governance_config.truncate c))"
proof -
  define g where "g = governance_section data"
  have c: "c = parse_config rep False g" using assms by (simp add: load_governance_config_def Let_def g_def)
  have "\<not> limits_enabled (governance_config.truncate c)" "\<not> breaker_enabled (governance_config.truncate c)"
    by (simp_all add: c parse_config_def Let_def limits_enabled_def breaker_enabled_def governance_config.truncate_def)
  then show ?thesis
    by (simp add: c parse_config_def Let_def guard_enabled_def hitl_enabled_def audit_enabled_def parse_guard_def no_guard_def
        parse_hitl_def parse_audit_def mk_manager_def gov_check_def)
qed

theorem disabled_governance_admits_witness:
  "gd_allowed (fst (gov_check (mk_manager (governance_config.truncate (load_governance_config (\<lambda>_. [])
      (Some [(''governance'', VDict [(''enabled'', VStr ''off''), (''limits'', VDict [(''global'', VDict [(''concurrency'', VInt 0)])])])])))) 1
      \<lparr>rq_flow = ''f'', rq_binding = None, rq_policy_arm = None\<rparr>))"
proof -
  let ?data = "[(''governance'', VDict [(''enabled'', VStr ''off''), (''limits'', VDict [(''global'', VDict [(''concurrency'', VInt 0)])])])]"
  have "\<not> get_bool (governance_section ?data) ''enabled'' True" by code_simp
  from disabled_governance_admits[OF this refl, of "\<lambda>_. []" 1] show ?thesis by (simp add: grant_def)
qed

end
