(* ===== verification/Guards.thy ===== *)
theory Guards
  imports Governance_Config
begin

text \<open>
  The guard engine (\<^verbatim>\<open>tm/guard/filters.py\<close>) and the guard checks of the governance manager
  (\<^verbatim>\<open>tm/governance/manager.py\<close>).  Regular expressions are the parameter \<open>rx\<close>: compiling a pattern, with or
  without case, raises or gives the search predicate.  Handlers that applications register are
  functions in the two registries.
\<close>

section \<open>Rules, violations and decisions\<close>

record compiled_rule =
  cr_name :: string
  cr_path :: "string option"
  cr_options :: "(string, val) dict"

record guard_violation =
  gv_rule :: string
  gv_path :: "string option"
  gv_reason :: string
  gv_details :: "(string, val) dict"

record guard_decision =
  gdc_allowed :: bool
  gdc_violations :: "guard_violation list"

type_synonym regex_engine = "string \<Rightarrow> bool \<Rightarrow> (string \<Rightarrow> bool) result"

type_synonym guard_handler = "compiled_rule \<Rightarrow> val list \<Rightarrow> (string, val) dict \<Rightarrow> guard_violation list result"

definition violation_dict :: "guard_violation \<Rightarrow> (string, val) dict" where
  "violation_dict v =
     (let base = [(''rule'', VStr (gv_rule v)), (''reason'', VStr (gv_reason v))] @
            (case gv_path v of Some p \<Rightarrow> if p \<noteq> [] then [(''path'', VStr p)] else [] | None \<Rightarrow> [])
      in foldl (\<lambda>d (k, x). dict_set k x d) base (gv_details v))"

definition first_violation :: "guard_decision \<Rightarrow> guard_violation option" where
  "first_violation d = (case gdc_violations d of [] \<Rightarrow> None | v # _ \<Rightarrow> Some v)"

definition compile_rule :: "val \<Rightarrow> compiled_rule list" where
  "compile_rule entry = (case entry of
       VDict d \<Rightarrow> (case get_val d ''type'' of
          VStr s \<Rightarrow>
            if str_strip s = [] then []
            else [\<lparr>cr_name = str_strip s,
                   cr_path = (case get_val d ''path'' of VStr p \<Rightarrow> if p \<noteq> [] then Some p else None | _ \<Rightarrow> None),
                   cr_options = filter (\<lambda>(k, _). k \<notin> {''type'', ''path''}) d\<rparr>]
        | _ \<Rightarrow> [])
     | _ \<Rightarrow> [])"

definition compile_rules :: "val list \<Rightarrow> compiled_rule list" where
  "compile_rules entries = concat (map compile_rule entries)"

section \<open>Paths\<close>

text \<open>\<^verbatim>\<open>s.strip(chars)\<close> for the two quote characters.\<close>

definition strip_quotes :: "string \<Rightarrow> string" where
  "strip_quotes s = (let quote = (\<lambda>c. c = CHR 0x27 \<or> c = CHR 0x22) in rev (dropWhile quote (rev (dropWhile quote s))))"

definition flush_token :: "string \<Rightarrow> string list" where
  "flush_token buffer = (if buffer = [] then [] else [buffer])"

definition bracket_token :: "string \<Rightarrow> string" where
  "bracket_token inner = (let content = str_strip inner in if content = ''*'' \<or> content = [] then ''*'' else strip_quotes content)"

function tokenize_loop :: "string \<Rightarrow> string \<Rightarrow> string list" where
  "tokenize_loop buffer [] = flush_token buffer"
| "tokenize_loop buffer (c # cs) =
     (if c = CHR ''.'' then flush_token buffer @ tokenize_loop [] cs
      else if c = CHR ''['' then
        flush_token buffer @
        (if CHR '']'' \<in> set cs
         then bracket_token (takeWhile (\<lambda>x. x \<noteq> CHR '']'') cs) # tokenize_loop [] (tl (dropWhile (\<lambda>x. x \<noteq> CHR '']'') cs))
         else [])
      else tokenize_loop (buffer @ [c]) cs)"
  by pat_completeness auto
termination
proof (relation "measure (\<lambda>(_, cs). length cs)")
  fix cs :: string
  have "length (tl (dropWhile (\<lambda>x. x \<noteq> CHR '']'') cs)) \<le> length cs"
    using length_dropWhile_le[of "\<lambda>x. x \<noteq> CHR '']''" cs] by simp
  then show "(([], tl (dropWhile (\<lambda>x. x \<noteq> CHR '']'') cs)), buffer, c # cs) \<in> measure (\<lambda>(_, cs). length cs)" for buffer c by simp
qed auto

definition clean_path :: "string \<Rightarrow> string" where
  "clean_path path = (case str_strip path of
       c # cs \<Rightarrow>
         if c = CHR ''$'' then (case cs of d # ds \<Rightarrow> if d = CHR ''.'' then ds else cs | [] \<Rightarrow> []) else c # cs
     | [] \<Rightarrow> [])"

definition tokenize_path :: "string \<Rightarrow> string list" where
  "tokenize_path path = map (\<lambda>t. if t = [] then ''*'' else t) (tokenize_loop [] (clean_path path))"

definition children :: "string \<Rightarrow> val \<Rightarrow> val list" where
  "children token v = (case v of
       VDict d \<Rightarrow> if token = ''*'' then map snd d else (case dict_get d token of None \<Rightarrow> [] | Some x \<Rightarrow> [x])
     | VList vs \<Rightarrow>
         if token = ''*'' then vs
         else (case py_int token of
            None \<Rightarrow> []
          | Some i \<Rightarrow> if 0 \<le> i \<and> i < int (length vs) then [vs ! nat i] else [])
     | _ \<Rightarrow> [])"

fun walk :: "val \<Rightarrow> val list \<Rightarrow> string list \<Rightarrow> val list" where
  "walk data current [] = current"
| "walk data current (token # tokens) =
     (if token = ''root'' then walk data [data] tokens
      else let next_values = filter (\<lambda>v. v \<noteq> VNone) (concat (map (children token) current)) in
           if next_values = [] then [] else walk data next_values tokens)"

definition extract_values :: "val \<Rightarrow> string option \<Rightarrow> val list" where
  "extract_values data path = (case path of
       None \<Rightarrow> [data]
     | Some p \<Rightarrow> if p = [] \<or> tokenize_path p = [] then [data] else walk data [data] (tokenize_path p))"

section \<open>The built-in rules\<close>

definition violation :: "compiled_rule \<Rightarrow> string \<Rightarrow> (string, val) dict \<Rightarrow> guard_violation" where
  "violation r reason details = \<lparr>gv_rule = cr_name r, gv_path = cr_path r, gv_reason = reason, gv_details = details\<rparr>"

definition rule_length_max :: "(val \<Rightarrow> string) \<Rightarrow> guard_handler" where
  "rule_length_max rep r values ctx = Inr (case get_val (cr_options r) ''value'' of
       VNone \<Rightarrow> []
     | raw \<Rightarrow> (case to_int raw of
          None \<Rightarrow> []
        | Some limit \<Rightarrow> concat (map (\<lambda>(idx, v).
            if v \<noteq> VNone \<and> limit < int (length (py_str rep v))
            then [violation r ''length_exceeded'' [(''limit'', VInt limit), (''actual'', VInt (int (length (py_str rep v)))), (''index'', VInt (int idx))]]
            else []) (enumerate 0 values))))"

definition blank :: "val \<Rightarrow> bool" where
  "blank v \<longleftrightarrow> v = VNone \<or> v = VStr [] \<or> v = VList [] \<or> v = VDict []"

definition rule_required :: guard_handler where
  "rule_required r values ctx = Inr (if list_ex (\<lambda>v. \<not> blank v) values then [] else [violation r ''missing_required_value'' []])"

definition rule_regex_deny :: "regex_engine \<Rightarrow> guard_handler" where
  "rule_regex_deny rx r values ctx = (case get_val (cr_options r) ''pattern'' of
       VStr pattern \<Rightarrow>
         if pattern = [] then Inr []
         else bind_result (rx pattern (truthy (dict_get_or (cr_options r) ''ignore_case'' (VBool True)))) (\<lambda>search.
           Inr (concat (map (\<lambda>(idx, v). case v of
               VStr s \<Rightarrow> if search s then [violation r ''regex_block'' [(''pattern'', VStr pattern), (''index'', VInt (int idx))]] else []
             | _ \<Rightarrow> []) (enumerate 0 values))))
     | _ \<Rightarrow> Inr [])"

definition contains :: "string \<Rightarrow> string \<Rightarrow> bool" where
  "contains hay needle = list_ex (\<lambda>n. starts_with needle (drop n hay)) [0..<Suc (length hay)]"

definition keywords_of :: "val \<Rightarrow> string list" where
  "keywords_of raw = (case raw of VList items \<Rightarrow> concat (map (\<lambda>i. case i of VStr s \<Rightarrow> [str_lower s] | _ \<Rightarrow> []) items) | _ \<Rightarrow> [])"

definition rule_deny_keywords :: guard_handler where
  "rule_deny_keywords r values ctx =
     (let keywords = keywords_of (get_val (cr_options r) ''values'') in
      Inr (concat (map (\<lambda>(idx, v). case v of
          VStr s \<Rightarrow> (case find (contains (str_lower s)) keywords of
             None \<Rightarrow> []
           | Some needle \<Rightarrow> [violation r ''keyword_block'' [(''keyword'', VStr needle), (''index'', VInt (int idx))]])
        | _ \<Rightarrow> []) (enumerate 0 values))))"

section \<open>The engine\<close>

record guard_engine =
  ge_registry :: "(string, guard_handler) dict"
  ge_custom :: "(string, guard_handler) dict"

definition builtins :: "(val \<Rightarrow> string) \<Rightarrow> regex_engine \<Rightarrow> (string, guard_handler) dict" where
  "builtins rep rx = [(''length_max'', rule_length_max rep), (''required'', rule_required), (''regex_deny'', rule_regex_deny rx),
     (''deny_keywords'', rule_deny_keywords)]"

definition resolve_handler :: "(val \<Rightarrow> string) \<Rightarrow> regex_engine \<Rightarrow> guard_engine \<Rightarrow> string \<Rightarrow> guard_handler option" where
  "resolve_handler rep rx ge name = (case dict_get (ge_registry ge) name of
       Some h \<Rightarrow> Some h
     | None \<Rightarrow> (case dict_get (ge_custom ge) name of Some h \<Rightarrow> Some h | None \<Rightarrow> dict_get (builtins rep rx) name))"

definition register_guard :: "val \<Rightarrow> guard_handler \<Rightarrow> guard_engine \<Rightarrow> guard_engine result" where
  "register_guard name h ge = (case name of
       VStr s \<Rightarrow>
         if str_strip s = [] then Inl (ValueError ''Guard name must be a non-empty string'')
         else Inr (ge\<lparr>ge_custom := dict_set (str_strip s) h (ge_custom ge)\<rparr>)
     | _ \<Rightarrow> Inl (ValueError ''Guard name must be a non-empty string''))"

definition run_rule :: "(val \<Rightarrow> string) \<Rightarrow> regex_engine \<Rightarrow> guard_engine \<Rightarrow> val \<Rightarrow> (string, val) dict \<Rightarrow> compiled_rule \<Rightarrow> guard_violation list result" where
  "run_rule rep rx ge data ctx r = (case resolve_handler rep rx ge (cr_name r) of
       None \<Rightarrow> Inr []
     | Some h \<Rightarrow> h r (extract_values data (cr_path r)) ctx)"

definition guard_evaluate :: "(val \<Rightarrow> string) \<Rightarrow> regex_engine \<Rightarrow> guard_engine \<Rightarrow> val \<Rightarrow> compiled_rule list \<Rightarrow> (string, val) dict \<Rightarrow> guard_decision result" where
  "guard_evaluate rep rx ge data rules ctx =
     bind_result (map_result (run_rule rep rx ge data ctx) rules) (\<lambda>vss.
       Inr \<lparr>gdc_allowed = (concat vss = []), gdc_violations = concat vss\<rparr>)"

section \<open>Guards in the governance manager\<close>

record guard_state =
  gst_config :: full_config
  gst_engine :: guard_engine
  gst_audit :: audit_trail

definition allow_all :: guard_decision where
  "allow_all = \<lparr>gdc_allowed = True, gdc_violations = []\<rparr>"

definition block_meta :: "guard_decision \<Rightarrow> (string, val) dict" where
  "block_meta d = (case first_violation d of Some v \<Rightarrow> violation_dict v | None \<Rightarrow> [(''reason'', VStr ''guard_blocked'')])"

definition rules_for :: "guard_config \<Rightarrow> request_descriptor \<Rightarrow> compiled_rule list" where
  "rules_for g rq =
     (let compile = (\<lambda>rules. compile_rules (map VDict rules)) in
      compile (gu_global_rules g) @ compile (dict_get_or (gu_flow_rules g) (rq_flow rq) []) @
      (case rq_binding rq of Some b \<Rightarrow> if b \<noteq> [] then compile (dict_get_or (gu_policy_rules g) b []) else [] | None \<Rightarrow> []))"

definition request_context :: "request_descriptor \<Rightarrow> (string, val) dict" where
  "request_context rq = [(''flow'', VStr (rq_flow rq)), (''binding'', case rq_binding rq of Some b \<Rightarrow> VStr b | None \<Rightarrow> VNone)]"

definition request_meta :: "request_descriptor \<Rightarrow> (string, val) dict \<Rightarrow> (string, val) dict" where
  "request_meta rq meta =
     (let m1 = dict_setdefault ''flow'' (VStr (rq_flow rq)) meta in
      case rq_binding rq of Some b \<Rightarrow> if b \<noteq> [] then dict_setdefault ''binding'' (VStr b) m1 else m1 | None \<Rightarrow> m1)"

definition audit_block :: "guard_state \<Rightarrow> guard_decision \<Rightarrow> ((string, val) dict \<Rightarrow> (string, val) dict) \<Rightarrow> real \<Rightarrow> guard_state" where
  "audit_block g d amend ts =
     (if gdc_allowed d then g else g\<lparr>gst_audit := audit_record (gst_audit g) ''guard_block'' (amend (block_meta d)) ts\<rparr>)"

definition evaluate_guard :: "(val \<Rightarrow> string) \<Rightarrow> regex_engine \<Rightarrow> guard_state \<Rightarrow> (string, val) dict \<Rightarrow> request_descriptor \<Rightarrow> real
    \<Rightarrow> (guard_decision \<times> guard_state) result" where
  "evaluate_guard rep rx g payload rq ts =
     (if \<not> guard_enabled (gst_config g) then Inr (allow_all, g)
      else
        let rules = rules_for (gc_guard (gst_config g)) rq in
        if rules = [] then Inr (allow_all, g)
        else bind_result (guard_evaluate rep rx (gst_engine g) (VDict payload) rules (request_context rq)) (\<lambda>d.
          Inr (d, audit_block g d (request_meta rq) ts)))"

definition evaluate_custom_guard :: "(val \<Rightarrow> string) \<Rightarrow> regex_engine \<Rightarrow> guard_state \<Rightarrow> val list \<Rightarrow> (string, val) dict \<Rightarrow> (string, val) dict \<Rightarrow> real
    \<Rightarrow> (guard_decision \<times> guard_state) result" where
  "evaluate_custom_guard rep rx g rules payload ctx ts =
     bind_result (guard_evaluate rep rx (gst_engine g) (VDict payload) (compile_rules rules) ctx) (\<lambda>d.
       Inr (d, audit_block g d (\<lambda>m. m) ts))"

section \<open>What a path reaches\<close>

inductive located :: "string list \<Rightarrow> val \<Rightarrow> val \<Rightarrow> bool" where
  here: "located [] v v"
| key: "k \<noteq> ''*'' \<Longrightarrow> dict_get d k = Some x \<Longrightarrow> x \<noteq> VNone \<Longrightarrow> located ks x v \<Longrightarrow> located (k # ks) (VDict d) v"
| any_key: "(k, x) \<in> set d \<Longrightarrow> x \<noteq> VNone \<Longrightarrow> located ks x v \<Longrightarrow> located (''*'' # ks) (VDict d) v"
| index: "k \<noteq> ''*'' \<Longrightarrow> py_int k = Some (int i) \<Longrightarrow> i < length xs \<Longrightarrow> xs ! i \<noteq> VNone \<Longrightarrow> located ks (xs ! i) v \<Longrightarrow> located (k # ks) (VList xs) v"
| any_item: "x \<in> set xs \<Longrightarrow> x \<noteq> VNone \<Longrightarrow> located ks x v \<Longrightarrow> located (''*'' # ks) (VList xs) v"

inductive_simps located_Nil: "located [] w v"
inductive_simps located_Cons: "located (k # ks) w v"

lemma located_children: "located (k # ks) w v \<longleftrightarrow> (\<exists>x\<in>set (children k w). x \<noteq> VNone \<and> located ks x v)"
proof (cases w)
  case (VDict d)
  show ?thesis
  proof (cases "k = ''*''")
    case True
    then show ?thesis using VDict by (force simp: located_Cons children_def)
  next
    case False
    then show ?thesis using VDict by (cases "dict_get d k") (auto simp: located_Cons children_def)
  qed
next
  case (VList xs)
  show ?thesis
  proof (cases "k = ''*''")
    case False
    have "(\<exists>i. py_int k = Some (int i) \<and> i < length xs \<and> xs ! i \<noteq> VNone \<and> located ks (xs ! i) v) \<longleftrightarrow>
        (\<exists>j. py_int k = Some j \<and> 0 \<le> j \<and> j < int (length xs) \<and> xs ! nat j \<noteq> VNone \<and> located ks (xs ! nat j) v)"
      by (metis nat_int nonneg_int_cases of_nat_0_le_iff of_nat_less_iff)
    then show ?thesis using False VList by (cases "py_int k") (auto simp: located_Cons children_def)
  qed (use VList in \<open>auto simp: located_Cons children_def\<close>)
qed (auto simp: located_Cons children_def)

lemma walk_located:
  "''root'' \<notin> set ks \<Longrightarrow> v \<in> set (walk data current ks) \<longleftrightarrow> (\<exists>w\<in>set current. located ks w v)"
proof (induction ks arbitrary: current)
  case Nil
  then show ?case by (simp add: located_Nil)
next
  case (Cons k ks)
  let ?next = "filter (\<lambda>v. v \<noteq> VNone) (concat (map (children k) current))"
  have "v \<in> set (walk data current (k # ks)) \<longleftrightarrow> (\<exists>x\<in>set ?next. located ks x v)"
    using Cons.IH[of ?next] Cons.prems by (cases "?next = []") auto
  also have "\<dots> \<longleftrightarrow> (\<exists>w\<in>set current. located (k # ks) w v)" unfolding located_children by auto
  finally show ?case .
qed

definition at_path :: "string option \<Rightarrow> val \<Rightarrow> val \<Rightarrow> bool" where
  "at_path path data v = (case path of None \<Rightarrow> v = data | Some p \<Rightarrow> located (tokenize_path p) data v)"

definition resets :: "compiled_rule \<Rightarrow> bool" where
  "resets r \<longleftrightarrow> (case cr_path r of None \<Rightarrow> False | Some p \<Rightarrow> ''root'' \<in> set (tokenize_path p))"

lemma tokenize_empty: "tokenize_path [] = []"
  by (simp add: tokenize_path_def clean_path_def str_strip_def flush_token_def)

lemma extract_at_path: "\<not> resets r \<Longrightarrow> set (extract_values data (cr_path r)) = {v. at_path (cr_path r) data v}"
proof (cases "cr_path r")
  case (Some p)
  assume "\<not> resets r"
  then have "''root'' \<notin> set (tokenize_path p)" using Some by (simp add: resets_def)
  then show ?thesis using Some walk_located[of "tokenize_path p" _ data "[data]"] tokenize_empty
    by (cases "tokenize_path p = []") (auto simp: extract_values_def at_path_def located_Nil)
qed (simp add: extract_values_def at_path_def)

section \<open>What the rules demand\<close>

lemma contains_iff: "contains hay needle \<longleftrightarrow> (\<exists>a b. hay = a @ needle @ b)"
proof
  assume "contains hay needle"
  then obtain n where "starts_with needle (drop n hay)" unfolding contains_def list_ex_iff by blast
  then obtain b where "drop n hay = needle @ b" by (auto simp: starts_with_append)
  then have "hay = take n hay @ needle @ b" by (metis append_take_drop_id)
  then show "\<exists>a b. hay = a @ needle @ b" by blast
next
  assume "\<exists>a b. hay = a @ needle @ b"
  then obtain a b where h: "hay = a @ needle @ b" by blast
  then have "starts_with needle (drop (length a) hay)" by (simp add: starts_with_append)
  moreover have "length a \<in> set [0..<Suc (length hay)]" using h by simp
  ultimately show "contains hay needle" unfolding contains_def list_ex_iff by blast
qed

definition option_of :: "compiled_rule \<Rightarrow> string \<Rightarrow> val" where
  "option_of r k = get_val (cr_options r) k"

definition ignores_case :: "compiled_rule \<Rightarrow> bool" where
  "ignores_case r = truthy (dict_get_or (cr_options r) ''ignore_case'' (VBool True))"

definition rule_holds :: "(val \<Rightarrow> string) \<Rightarrow> regex_engine \<Rightarrow> compiled_rule \<Rightarrow> val set \<Rightarrow> bool" where
  "rule_holds rep rx r vs \<longleftrightarrow>
     (cr_name r = ''required'' \<longrightarrow> (\<exists>v\<in>vs. \<not> blank v)) \<and>
     (cr_name r = ''length_max'' \<longrightarrow> (\<forall>limit. to_int (option_of r ''value'') = Some limit \<longrightarrow> (\<forall>v\<in>vs. v = VNone \<or> int (length (py_str rep v)) \<le> limit))) \<and>
     (cr_name r = ''deny_keywords'' \<longrightarrow> (\<forall>items w s. option_of r ''values'' = VList items \<longrightarrow> VStr w \<in> set items \<longrightarrow> VStr s \<in> vs \<longrightarrow>
        \<not> (\<exists>a b. str_lower s = a @ str_lower w @ b))) \<and>
     (cr_name r = ''regex_deny'' \<longrightarrow> (\<forall>p search s. option_of r ''pattern'' = VStr p \<longrightarrow> p \<noteq> [] \<longrightarrow> rx p (ignores_case r) = Inr search \<longrightarrow>
        VStr s \<in> vs \<longrightarrow> \<not> search s))"

definition compiles :: "regex_engine \<Rightarrow> compiled_rule \<Rightarrow> bool" where
  "compiles rx r \<longleftrightarrow> (cr_name r = ''regex_deny'' \<longrightarrow> (\<forall>p. option_of r ''pattern'' = VStr p \<longrightarrow> p \<noteq> [] \<longrightarrow> (\<exists>search. rx p (ignores_case r) = Inr search)))"

lemma enumerated_ok:
  assumes "\<And>idx idx' v. f idx v = [] \<longleftrightarrow> f idx' v = []"
  shows "concat (map (\<lambda>(idx, v). f idx v) (enumerate n vs)) = [] \<longleftrightarrow> (\<forall>v\<in>set vs. \<forall>idx. f idx v = [])"
proof (induction vs arbitrary: n)
  case (Cons v vs)
  have "f n v = [] \<longleftrightarrow> (\<forall>idx. f idx v = [])" using assms by blast
  then show ?case using Cons[of "Suc n"] by simp
qed simp

lemma in_keywords: "w \<in> set (keywords_of raw) \<longleftrightarrow> (\<exists>items k. raw = VList items \<and> VStr k \<in> set items \<and> w = str_lower k)"
  by (cases raw) (force simp: keywords_of_def split: val.splits)+

lemma length_max_ok:
  "\<exists>out. rule_length_max rep r vs ctx = Inr out \<and>
     (out = [] \<longleftrightarrow> (\<forall>limit. to_int (option_of r ''value'') = Some limit \<longrightarrow> (\<forall>v\<in>set vs. v = VNone \<or> int (length (py_str rep v)) \<le> limit)))"
proof (cases "to_int (option_of r ''value'')")
  case None
  then show ?thesis by (auto simp: rule_length_max_def option_of_def split: val.splits)
next
  case (Some limit)
  then have "option_of r ''value'' \<noteq> VNone" by (auto simp: to_int_def)
  let ?f = "\<lambda>idx v. if v \<noteq> VNone \<and> limit < int (length (py_str rep v))
      then [violation r ''length_exceeded'' [(''limit'', VInt limit), (''actual'', VInt (int (length (py_str rep v)))), (''index'', VInt (int idx))]] else []"
  have out: "rule_length_max rep r vs ctx = Inr (concat (map (\<lambda>(idx, v). ?f idx v) (enumerate 0 vs)))"
    using Some \<open>option_of r ''value'' \<noteq> VNone\<close> by (auto simp: rule_length_max_def option_of_def split: val.splits)
  have one: "?f idx v = [] \<longleftrightarrow> v = VNone \<or> int (length (py_str rep v)) \<le> limit" for idx v by auto
  have "concat (map (\<lambda>(idx, v). ?f idx v) (enumerate 0 vs)) = [] \<longleftrightarrow> (\<forall>v\<in>set vs. \<forall>idx. ?f idx v = [])"
    by (rule enumerated_ok) (simp only: one)
  then show ?thesis using out Some unfolding one by auto
qed

lemma deny_keywords_ok:
  "\<exists>out. rule_deny_keywords r vs ctx = Inr out \<and>
     (out = [] \<longleftrightarrow> (\<forall>items w s. option_of r ''values'' = VList items \<longrightarrow> VStr w \<in> set items \<longrightarrow> VStr s \<in> set vs \<longrightarrow> \<not> (\<exists>a b. str_lower s = a @ str_lower w @ b)))"
proof -
  let ?kw = "keywords_of (option_of r ''values'')"
  let ?f = "\<lambda>idx v. case v of VStr s \<Rightarrow> (case find (contains (str_lower s)) ?kw of
             None \<Rightarrow> [] | Some needle \<Rightarrow> [violation r ''keyword_block'' [(''keyword'', VStr needle), (''index'', VInt (int idx))]]) | _ \<Rightarrow> []"
  have out: "rule_deny_keywords r vs ctx = Inr (concat (map (\<lambda>(idx, v). ?f idx v) (enumerate 0 vs)))"
    unfolding rule_deny_keywords_def option_of_def Let_def by (rule refl)
  have one: "?f idx v = [] \<longleftrightarrow> (\<forall>s. v = VStr s \<longrightarrow> (\<forall>k\<in>set ?kw. \<not> contains (str_lower s) k))" for idx v
    by (auto simp: find_None_iff find_Some_iff split: val.splits option.splits)
  have "concat (map (\<lambda>(idx, v). ?f idx v) (enumerate 0 vs)) = [] \<longleftrightarrow> (\<forall>v\<in>set vs. \<forall>idx. ?f idx v = [])"
    by (rule enumerated_ok) (simp only: one)
  also have "\<dots> \<longleftrightarrow> (\<forall>s. VStr s \<in> set vs \<longrightarrow> (\<forall>k\<in>set ?kw. \<not> contains (str_lower s) k))" unfolding one by blast
  also have "\<dots> \<longleftrightarrow> (\<forall>items w s. option_of r ''values'' = VList items \<longrightarrow> VStr w \<in> set items \<longrightarrow> VStr s \<in> set vs \<longrightarrow> \<not> (\<exists>a b. str_lower s = a @ str_lower w @ b))"
    unfolding contains_iff in_keywords Ball_def by blast
  finally show ?thesis using out by blast
qed

lemma regex_deny_ok:
  assumes "\<forall>p. option_of r ''pattern'' = VStr p \<longrightarrow> p \<noteq> [] \<longrightarrow> (\<exists>search. rx p (ignores_case r) = Inr search)"
  shows "\<exists>out. rule_regex_deny rx r vs ctx = Inr out \<and>
     (out = [] \<longleftrightarrow> (\<forall>p search s. option_of r ''pattern'' = VStr p \<longrightarrow> p \<noteq> [] \<longrightarrow> rx p (ignores_case r) = Inr search \<longrightarrow> VStr s \<in> set vs \<longrightarrow> \<not> search s))"
proof (cases "\<exists>p. option_of r ''pattern'' = VStr p \<and> p \<noteq> []")
  case True
  then obtain p where p: "option_of r ''pattern'' = VStr p" "p \<noteq> []" by blast
  obtain search where s: "rx p (ignores_case r) = Inr search" using assms p by blast
  let ?f = "\<lambda>idx v. case v of VStr s \<Rightarrow> if search s then [violation r ''regex_block'' [(''pattern'', VStr p), (''index'', VInt (int idx))]] else [] | _ \<Rightarrow> []"
  have out: "rule_regex_deny rx r vs ctx = Inr (concat (map (\<lambda>(idx, v). ?f idx v) (enumerate 0 vs)))"
    using p s by (simp add: rule_regex_deny_def option_of_def ignores_case_def)
  have one: "?f idx v = [] \<longleftrightarrow> (\<forall>s. v = VStr s \<longrightarrow> \<not> search s)" for idx v by (auto split: val.splits)
  have "concat (map (\<lambda>(idx, v). ?f idx v) (enumerate 0 vs)) = [] \<longleftrightarrow> (\<forall>v\<in>set vs. \<forall>idx. ?f idx v = [])"
    by (rule enumerated_ok) (simp only: one)
  then show ?thesis using out p s unfolding one by auto
next
  case False
  then have "rule_regex_deny rx r vs ctx = Inr []" by (auto simp: rule_regex_deny_def option_of_def split: val.splits)
  then show ?thesis using False by auto
qed

lemma run_rule_ok:
  assumes "compiles rx r" and "\<not> resets r" and "ge_registry ge = []" "ge_custom ge = []"
  shows "\<exists>out. run_rule rep rx ge data ctx r = Inr out \<and> (out = [] \<longleftrightarrow> rule_holds rep rx r {v. at_path (cr_path r) data v})"
proof -
  let ?vs = "extract_values data (cr_path r)"
  have vs: "{v. at_path (cr_path r) data v} = set ?vs" using extract_at_path[OF assms(2)] by simp
  have h: "resolve_handler rep rx ge (cr_name r) = dict_get (builtins rep rx) (cr_name r)" using assms(3,4) by (simp add: resolve_handler_def)
  consider "cr_name r = ''required''" | "cr_name r = ''length_max''" | "cr_name r = ''deny_keywords''" | "cr_name r = ''regex_deny''"
    | "cr_name r \<notin> {''required'', ''length_max'', ''deny_keywords'', ''regex_deny''}" by blast
  then show ?thesis
  proof cases
    case 1
    then show ?thesis unfolding run_rule_def h vs by (auto simp: builtins_def rule_holds_def rule_required_def list_ex_iff)
  next
    case 2
    then show ?thesis unfolding run_rule_def h vs using length_max_ok[of rep r ?vs ctx] by (simp add: builtins_def rule_holds_def)
  next
    case 3
    then show ?thesis unfolding run_rule_def h vs using deny_keywords_ok[of r ?vs ctx] by (simp add: builtins_def rule_holds_def)
  next
    case 4
    then show ?thesis unfolding run_rule_def h vs using regex_deny_ok[of r rx ?vs ctx] assms(1) by (simp add: builtins_def rule_holds_def compiles_def)
  next
    case 5
    then show ?thesis unfolding run_rule_def h vs by (auto simp: builtins_def rule_holds_def)
  qed
qed

lemma map_result_nil:
  assumes "\<And>x. x \<in> set xs \<Longrightarrow> \<exists>out. f x = Inr out \<and> (out = [] \<longleftrightarrow> P x)"
  shows "\<exists>outs. map_result f xs = Inr outs \<and> (concat outs = [] \<longleftrightarrow> (\<forall>x\<in>set xs. P x))"
  using assms
proof (induction xs)
  case (Cons x xs)
  obtain out where "f x = Inr out" "out = [] \<longleftrightarrow> P x" using Cons.prems[of x] by auto
  moreover obtain outs where "map_result f xs = Inr outs" "concat outs = [] \<longleftrightarrow> (\<forall>x\<in>set xs. P x)" using Cons by auto
  ultimately show ?case by auto
qed simp

section \<open>Properties\<close>

text \<open>
  C20. The guard engine decides exactly what its rules say: with the built-in handlers, patterns that
  compile and paths without the reset token, evaluation returns, and it allows a payload if and only if
  every rule holds of the values its path reaches: a required value is there and not blank, no text is
  longer than the limit, no string contains a denied keyword (in any case) or matches a denied pattern.
\<close>

theorem guard_decision_exact:
  assumes "ge_registry ge = []" "ge_custom ge = []" and "\<forall>r\<in>set rules. compiles rx r \<and> \<not> resets r"
  shows "\<exists>d. guard_evaluate rep rx ge data rules ctx = Inr d \<and>
    (gdc_allowed d \<longleftrightarrow> (\<forall>r\<in>set rules. rule_holds rep rx r {v. at_path (cr_path r) data v}))"
proof -
  have "\<exists>outs. map_result (run_rule rep rx ge data ctx) rules = Inr outs \<and>
      (concat outs = [] \<longleftrightarrow> (\<forall>r\<in>set rules. rule_holds rep rx r {v. at_path (cr_path r) data v}))"
    by (rule map_result_nil) (use run_rule_ok assms in blast)
  then show ?thesis by (auto simp: guard_evaluate_def)
qed

definition demo_guard :: "compiled_rule list" where
  "demo_guard = compile_rules [VDict [(''type'', VStr ''deny_keywords''), (''path'', VStr ''$.items[*].name''), (''values'', VList [VStr ''drop''])]]"

definition demo_payload :: val where
  "demo_payload = VDict [(''items'', VList [VDict [(''name'', VStr ''a'')], VDict [(''name'', VStr ''DROP it'')]])]"

theorem guard_decision_exact_witness:
  "\<not> (\<forall>r\<in>set demo_guard. rule_holds (\<lambda>_. []) (\<lambda>_ _. Inl (ValueError [])) r {v. at_path (cr_path r) demo_payload v})"
proof -
  let ?ge = "\<lparr>ge_registry = [], ge_custom = []\<rparr>"
  have rules: "demo_guard = [\<lparr>cr_name = ''deny_keywords'', cr_path = Some ''$.items[*].name'', cr_options = [(''values'', VList [VStr ''drop''])]\<rparr>]" by code_simp
  have tokens: "tokenize_path ''$.items[*].name'' = [''items'', ''*'', ''name'']" by code_simp
  have ok: "\<forall>r\<in>set demo_guard. compiles (\<lambda>_ _. Inl (ValueError [])) r \<and> \<not> resets r"
    unfolding rules by (simp add: compiles_def resets_def tokens)
  have "map_sum id gdc_allowed (guard_evaluate (\<lambda>_. []) (\<lambda>_ _. Inl (ValueError [])) ?ge demo_payload demo_guard []) = Inr False" by code_simp
  then show ?thesis using guard_decision_exact[of ?ge, OF _ _ ok, of "\<lambda>_. []" demo_payload "[]"] by auto
qed

definition plain_token :: "string \<Rightarrow> bool" where
  "plain_token t \<longleftrightarrow> t \<noteq> [] \<and> list_all (\<lambda>c. c \<notin> {CHR ''.'', CHR ''['', CHR ''$''} \<and> \<not> is_space c) t"

lemma loop_plain: "list_all (\<lambda>c. c \<notin> {CHR ''.'', CHR ''['', CHR ''$''} \<and> \<not> is_space c) t \<Longrightarrow>
    tokenize_loop buffer (t @ cs) = tokenize_loop (buffer @ t) cs"
  by (induction t arbitrary: buffer) simp_all

lemma loop_join:
  "ts \<noteq> [] \<Longrightarrow> \<forall>t\<in>set ts. plain_token t \<Longrightarrow> tokenize_loop [] (str_join ''.'' ts) = ts"
proof (induction ts rule: induct_list012)
  case (2 x)
  then show ?case using loop_plain[of x "[]" "[]"] by (simp add: plain_token_def flush_token_def)
next
  case (3 x y ys)
  then show ?case using loop_plain[of x "[]" "''.'' @ str_join ''.'' (y # ys)"] by (simp add: plain_token_def flush_token_def)
qed simp

lemma strip_plain:
  assumes "s \<noteq> []" "\<not> is_space (hd s)" "\<not> is_space (last s)"
  shows "str_strip s = s"
proof -
  have "dropWhile is_space s = s" using assms by (cases s) simp_all
  moreover have "dropWhile is_space (rev s) = rev s" using assms by (cases s rule: rev_cases) simp_all
  ultimately show ?thesis by (simp add: str_strip_def)
qed

lemma plainD: "plain_token t \<Longrightarrow> c \<in> set t \<Longrightarrow> c \<noteq> CHR ''$'' \<and> \<not> is_space c"
  by (simp add: plain_token_def list_all_iff)

lemma join_ends:
  "ts \<noteq> [] \<Longrightarrow> \<forall>t\<in>set ts. t \<noteq> [] \<Longrightarrow> str_join sep ts \<noteq> [] \<and> hd (str_join sep ts) = hd (hd ts) \<and> last (str_join sep ts) = last (last ts)"
  by (induction ts rule: induct_list012) auto

text \<open>
  Guard paths round-trip: written with dots (and the optional root prefix), a list of plain tokens
  is read back as itself.
\<close>

theorem guard_path_roundtrip:
  assumes "ts \<noteq> []" and "\<forall>t\<in>set ts. plain_token t"
  shows "tokenize_path (str_join ''.'' ts) = ts \<and> tokenize_path (''$.'' @ str_join ''.'' ts) = ts"
proof -
  let ?s = "str_join ''.'' ts"
  have ne: "\<forall>t\<in>set ts. t \<noteq> []" using assms(2) by (simp add: plain_token_def)
  note e = join_ends[OF assms(1) ne, of "''.''"]
  have "hd (hd ts) \<in> set (hd ts)" "last (last ts) \<in> set (last ts)" using assms(1) ne by simp_all
  moreover have "plain_token (hd ts)" "plain_token (last ts)" using assms hd_in_set last_in_set by blast+
  ultimately have "hd (hd ts) \<noteq> CHR ''$'' \<and> \<not> is_space (hd (hd ts))" "\<not> is_space (last (last ts))" using plainD by blast+
  then have c: "hd ?s \<noteq> CHR ''$''" "\<not> is_space (hd ?s)" "\<not> is_space (last ?s)" using e by simp_all
  obtain x xs where s: "?s = x # xs" using e by (meson neq_Nil_conv)
  have "x \<noteq> CHR ''$''" using c(1) s by simp
  moreover have "str_strip ?s = ?s" by (rule strip_plain) (use c e in auto)
  ultimately have "clean_path ?s = ?s" unfolding clean_path_def by (simp add: s)
  moreover have "str_strip (''$.'' @ ?s) = ''$.'' @ ?s" by (rule strip_plain) (use c e in \<open>simp_all add: is_space_def\<close>)
  then have "clean_path (''$.'' @ ?s) = ?s" by (simp add: clean_path_def)
  moreover have "map (\<lambda>t. if t = [] then ''*'' else t) ts = ts" using ne by (intro map_idI) auto
  ultimately show ?thesis using loop_join[OF assms] by (simp add: tokenize_path_def)
qed

theorem guard_path_roundtrip_witness:
  "tokenize_path (''$.'' @ str_join ''.'' [''config'', ''name'']) = [''config'', ''name'']"
  by (rule guard_path_roundtrip[THEN conjunct2]) (simp_all add: plain_token_def is_space_def)

text \<open>
  The token \<^verbatim>\<open>root\<close> starts over at the whole payload wherever it stands, so a key of that name cannot be
  reached: a rule that requires \<^verbatim>\<open>config.root\<close> accepts a payload whose \<^verbatim>\<open>config\<close> has no such key.
\<close>

lemma root_key_unreachable:
  "extract_values (VDict [(''config'', VDict [(''x'', VInt 1)])]) (Some ''config.root'') = [VDict [(''config'', VDict [(''x'', VInt 1)])]]"
  "map_sum id gdc_allowed (guard_evaluate (\<lambda>_. []) (\<lambda>_ _. Inr (\<lambda>_. False)) \<lparr>ge_registry = [], ge_custom = []\<rparr>
     (VDict [(''config'', VDict [(''x'', VInt 1)])]) [\<lparr>cr_name = ''required'', cr_path = Some ''config.root'', cr_options = []\<rparr>] []) = Inr True"
  by code_simp+

text \<open>A blocked request leaves one entry in an enabled audit trail, naming the first violation; an allowed one leaves none.\<close>

lemma guard_block_audited:
  assumes "evaluate_guard rep rx g payload rq ts = Inr (d, g')"
  shows "gdc_allowed d \<Longrightarrow> g' = g" "\<not> gdc_allowed d \<Longrightarrow> at_enabled (gst_audit g) \<Longrightarrow>
    at_log (gst_audit g') = at_log (gst_audit g) @ [prepare_entry (gst_audit g) ''guard_block'' (request_meta rq (block_meta d)) ts]"
  using assms by (auto simp: evaluate_guard_def Let_def audit_block_def allow_all_def audit_record_def result_simps split: if_splits)

end
