(* ===== verification/Pipeline_Analysis.thy ===== *)
theory Pipeline_Analysis
  imports Plans
begin

text \<open>
  The static analysis of plans (\<^verbatim>\<open>tm/pipeline/analysis.py\<close>): the dependency graph of the steps, its
  topological order or its cycles, write conflicts, coverage and the two drawings.  Sets of strings
  are lists here.  The recursion of the search for cycles runs on fuel, one more than the nodes and
  edges of the graph, which always suffices.
\<close>

section \<open>Graphs\<close>

type_synonym graph = "(string, string list) dict"

definition bump :: "(string, int) dict \<Rightarrow> string \<Rightarrow> (string, int) dict" where
  "bump d v = dict_set v (dict_get_or d v 0 + 1) d"

definition in_degrees :: "graph \<Rightarrow> (string, int) dict" where
  "in_degrees g = foldl bump (map (\<lambda>(k, _). (k, 0)) g) (concat (map snd g))"

fun relax :: "(string, int) dict \<Rightarrow> string list \<Rightarrow> string list \<Rightarrow> ((string, int) dict \<times> string list) result" where
  "relax d q [] = Inr (d, q)"
| "relax d q (v # vs) = (case dict_get d v of
       None \<Rightarrow> Inl (KeyError v)
     | Some n \<Rightarrow> relax (dict_set v (n - 1) d) (if n - 1 = 0 then q @ [v] else q) vs)"

definition weight :: "(string, int) dict \<Rightarrow> nat" where
  "weight d = sum_list (map (\<lambda>(_, n). nat n) d)"

lemma weight_set: "dict_get d v = Some n \<Longrightarrow> weight (dict_set v (n - 1) d) + (if 0 < n then 1 else 0) = weight d"
  by (induction d) (auto simp: weight_def split: if_splits)

lemma relax_weight: "relax d q vs = Inr (d', q') \<Longrightarrow> weight d' + length q' \<le> weight d + length q"
proof (induction d q vs rule: relax.induct)
  case (2 d q v vs)
  then obtain n where n: "dict_get d v = Some n" by (auto split: option.splits)
  then show ?case using 2 weight_set[OF n] by (auto split: if_splits)
qed simp

function topo_loop :: "graph \<Rightarrow> (string, int) dict \<Rightarrow> string list \<Rightarrow> string list \<Rightarrow> string list result" where
  "topo_loop g d q order = (case q of
       [] \<Rightarrow> Inr order
     | cur # q1 \<Rightarrow> bind_result (relax d q1 (dict_get_or g cur [])) (\<lambda>(d2, q2). topo_loop g d2 q2 (order @ [cur])))"
  by pat_completeness auto
termination by (relation "measure (\<lambda>(g, d, q, order). weight d + length q)") (auto dest!: relax_weight)

declare topo_loop.simps [simp del]

text \<open>The search for cycles keeps the nodes seen, the current path and the cycles found.\<close>

type_synonym search = "string list \<times> string list \<times> string list list"

function dfs :: "nat \<Rightarrow> graph \<Rightarrow> string \<Rightarrow> search \<Rightarrow> search option"
  and dfs_edges :: "nat \<Rightarrow> graph \<Rightarrow> string list \<Rightarrow> search \<Rightarrow> search option" where
  "dfs 0 g u st = None"
| "dfs (Suc n) g u (seen, stack, cycles) =
     map_option (\<lambda>(seen1, stack1, cycles1). (seen1, butlast stack1, cycles1))
       (dfs_edges n g (dict_get_or g u []) (seen @ [u], stack @ [u], cycles))"
| "dfs_edges n g [] st = Some st"
| "dfs_edges n g (v # vs) (seen, stack, cycles) =
     (if v \<notin> set seen then Option.bind (dfs n g v (seen, stack, cycles)) (dfs_edges n g vs)
      else if v \<in> set stack then dfs_edges n g vs (seen, stack, cycles @ [dropWhile (\<lambda>x. x \<noteq> v) stack @ [v]])
      else dfs_edges n g vs (seen, stack, cycles))"
  by pat_completeness auto
termination
  by (relation "measures [\<lambda>x. case x of Inl (n, _) \<Rightarrow> 2 * n | Inr (n, _) \<Rightarrow> 2 * n + 1, \<lambda>x. case x of Inl _ \<Rightarrow> 0 | Inr (n, g, vs, st) \<Rightarrow> length vs]") auto

definition visit_root :: "nat \<Rightarrow> graph \<Rightarrow> search option \<Rightarrow> string \<Rightarrow> search option" where
  "visit_root fuel g st n = Option.bind st (\<lambda>(seen, stack, cycles).
     if n \<notin> set seen then dfs fuel g n (seen, stack, cycles) else Some (seen, stack, cycles))"

definition search_fuel :: "graph \<Rightarrow> nat" where
  "search_fuel g = Suc (length g + length (concat (map snd g)))"

definition find_cycles :: "graph \<Rightarrow> string list list option" where
  "find_cycles g = map_option (\<lambda>(_, _, cycles). cycles) (foldl (visit_root (search_fuel g) g) (Some ([], [], [])) (map fst g))"

definition topological_order :: "graph \<Rightarrow> (string list \<times> string list list) result" where
  "topological_order g =
     (let d = in_degrees g in
      bind_result (topo_loop g d (map fst (filter (\<lambda>(_, n). n = 0) d)) []) (\<lambda>order.
        if length order \<noteq> length g
        then (case find_cycles g of None \<Rightarrow> Inl OutOfFuel | Some cycles \<Rightarrow> Inr ([], cycles))
        else Inr (order, [])))"

section \<open>The analysis of a plan\<close>

definition first_segment :: "string \<Rightarrow> string" where
  "first_segment e =
     (let s = takeWhile (\<lambda>c. c \<noteq> CHR ''.'') e in
      if CHR ''['' \<in> set s \<and> CHR '']'' \<in> set s then takeWhile (\<lambda>c. c \<noteq> CHR ''['') s @ ''[]'' else s)"

definition writes_overlap :: "string \<Rightarrow> string \<Rightarrow> bool" where
  "writes_overlap a b \<longleftrightarrow> first_segment a = first_segment b"

definition write_affects_read :: "string \<Rightarrow> string \<Rightarrow> bool" where
  "write_affects_read w r \<longleftrightarrow> first_segment w = first_segment r"

definition any_pair :: "('a \<Rightarrow> 'b \<Rightarrow> bool) \<Rightarrow> 'a list \<Rightarrow> 'b list \<Rightarrow> bool" where
  "any_pair P xs ys = list_ex (\<lambda>x. list_ex (P x) ys) xs"

record conflict =
  cf_kind :: string
  cf_where :: string
  cf_a :: string
  cf_b :: string
  cf_detail :: string

record coverage =
  cv_unused_steps :: "string list"
  cv_unreachable_steps :: "string list"
  cv_empty_rules :: "string list"
  cv_empty_triggers :: "string list"
  cv_focus_uncovered :: "string list"

record graphs =
  gr_step_deps :: graph
  gr_topo :: "string list"
  gr_cycles :: "string list list"

record analysis_report =
  an_graphs :: graphs
  an_conflicts :: "conflict list"
  an_coverage :: coverage
  an_dot_rules_steps :: string
  an_dot_step_deps :: string

fun fold_result :: "('s \<Rightarrow> 'a \<Rightarrow> 's result) \<Rightarrow> 's \<Rightarrow> 'a list \<Rightarrow> 's result" where
  "fold_result f s [] = Inr s"
| "fold_result f s (x # xs) = bind_result (f s x) (\<lambda>s1. fold_result f s1 xs)"

definition add_dep :: "graph \<Rightarrow> step_spec \<times> step_spec \<Rightarrow> graph result" where
  "add_dep dep ab = (case ab of (a, b) \<Rightarrow>
     if sp_name a = sp_name b \<or> \<not> any_pair write_affects_read (sp_writes a) (sp_reads b) then Inr dep
     else (case dict_get dep (sp_name a) of
        None \<Rightarrow> Inl (KeyError (sp_name a))
      | Some vs \<Rightarrow> Inr (dict_set (sp_name a) (vs @ [sp_name b]) dep)))"

definition step_dependencies :: "(string, step_spec) dict \<Rightarrow> graph result" where
  "step_dependencies steps = fold_result add_dep (map (\<lambda>(k, _). (k, [])) steps) (List.product (map snd steps) (map snd steps))"

definition get_step :: "(string, step_spec) dict \<Rightarrow> string \<Rightarrow> step_spec result" where
  "get_step steps s = (case dict_get steps s of None \<Rightarrow> Inl (KeyError s) | Some spec \<Rightarrow> Inr spec)"

abbreviation overlapping :: "step_spec \<Rightarrow> step_spec \<Rightarrow> bool" where
  "overlapping a b \<equiv> any_pair writes_overlap (sp_writes a) (sp_writes b)"

definition apostrophe :: string where
  "apostrophe = [CHR 0x27]"

definition in_order_conflict :: "string \<Rightarrow> step_spec \<Rightarrow> step_spec \<Rightarrow> conflict" where
  "in_order_conflict rname a b = \<lparr>cf_kind = ''write-write'', cf_where = rname, cf_a = sp_name a, cf_b = sp_name b,
     cf_detail = ''Potential overlapping writes in rule order: '' @ apostrophe @ sp_name a @ apostrophe @ '' -> '' @ apostrophe @ sp_name b @ apostrophe\<rparr>"

fun rule_conflicts :: "(string, step_spec) dict \<Rightarrow> string \<Rightarrow> string list \<Rightarrow> conflict list result" where
  "rule_conflicts steps rname [] = Inr []"
| "rule_conflicts steps rname (s # ss) =
     bind_result (get_step steps s) (\<lambda>a.
     bind_result (map_result (\<lambda>s2. bind_result (get_step steps s2) (\<lambda>b.
         Inr (if overlapping a b then [in_order_conflict rname a b] else []))) ss) (\<lambda>cs.
     bind_result (rule_conflicts steps rname ss) (\<lambda>rest. Inr (concat cs @ rest))))"

definition trigger_heads :: "rule list \<Rightarrow> (string, string list) dict" where
  "trigger_heads rules = foldl (\<lambda>d r. dict_set (ru_name r) (map first_segment (ru_triggers r)) d) [] rules"

definition shares_head :: "(string, string list) dict \<Rightarrow> rule \<Rightarrow> rule \<Rightarrow> bool" where
  "shares_head heads r1 r2 = any_pair (=) (dict_get_or heads (ru_name r1) []) (dict_get_or heads (ru_name r2) [])"

definition cross_conflict :: "rule \<Rightarrow> rule \<Rightarrow> step_spec \<Rightarrow> step_spec \<Rightarrow> conflict" where
  "cross_conflict r1 r2 a b = \<lparr>cf_kind = ''write-write'', cf_where = ''cross-rule'', cf_a = ru_name r1 @ '':'' @ sp_name a,
     cf_b = ru_name r2 @ '':'' @ sp_name b, cf_detail = ''Rules may co-fire (shared trigger head) and write overlapping prefixes.''\<rparr>"

definition pair_conflicts :: "(string, step_spec) dict \<Rightarrow> (string, string list) dict \<Rightarrow> rule \<Rightarrow> rule \<Rightarrow> conflict list result" where
  "pair_conflicts steps heads r1 r2 =
     (if \<not> shares_head heads r1 r2 then Inr []
      else bind_result (map_result (\<lambda>(s1, s2). bind_result (get_step steps s1) (\<lambda>a. bind_result (get_step steps s2) (\<lambda>b.
             Inr (if overlapping a b then [cross_conflict r1 r2 a b] else []))))
             (List.product (ru_steps r1) (ru_steps r2))) (\<lambda>cs. Inr (concat cs)))"

fun cross_conflicts :: "(string, step_spec) dict \<Rightarrow> (string, string list) dict \<Rightarrow> rule list \<Rightarrow> conflict list result" where
  "cross_conflicts steps heads [] = Inr []"
| "cross_conflicts steps heads (r # rs) =
     bind_result (map_result (pair_conflicts steps heads r) rs) (\<lambda>cs.
     bind_result (cross_conflicts steps heads rs) (\<lambda>rest. Inr (concat cs @ rest)))"

definition suspicious :: "string \<Rightarrow> string \<Rightarrow> conflict" where
  "suspicious detail rname = \<lparr>cf_kind = ''suspicious-rule'', cf_where = rname, cf_a = [], cf_b = [], cf_detail = detail\<rparr>"

definition plan_coverage :: "plan \<Rightarrow> string list \<Rightarrow> coverage" where
  "plan_coverage pl focus =
     (let referenced = concat (map ru_steps (pl_rules pl));
          unused = sort (filter (\<lambda>s. s \<notin> set referenced) (dict_keys (pl_steps pl)));
          heads = concat (map (\<lambda>r. map first_segment (ru_triggers r)) (pl_rules pl))
      in \<lparr>cv_unused_steps = unused, cv_unreachable_steps = unused,
          cv_empty_rules = map ru_name (filter (\<lambda>r. ru_steps r = []) (pl_rules pl)),
          cv_empty_triggers = map ru_name (filter (\<lambda>r. ru_triggers r = []) (pl_rules pl)),
          cv_focus_uncovered = filter (\<lambda>f. first_segment f \<notin> set heads) focus\<rparr>)"

section \<open>Drawings\<close>

definition dq :: "string \<Rightarrow> string" where
  "dq s = [CHR 0x22] @ s @ [CHR 0x22]"

definition newline :: string where
  "newline = [CHR 0x0A]"

fun dot_steps :: "string \<Rightarrow> string list \<Rightarrow> string list" where
  "dot_steps prev [] = []"
| "dot_steps prev (s # ss) = [dq (''S:'' @ s) @ '' [shape=ellipse]'', dq prev @ '' -> '' @ dq (''S:'' @ s)] @ dot_steps (''S:'' @ s) ss"

definition export_dot_rules_steps :: "plan \<Rightarrow> string" where
  "export_dot_rules_steps pl = str_join newline
     ([''digraph G { rankdir=LR; node [shape=box,style=rounded];''] @
      concat (map (\<lambda>r. (dq (''R:'' @ ru_name r) @ '' [shape=box,style=rounded,color=blue]'') # dot_steps (''R:'' @ ru_name r) (ru_steps r)) (pl_rules pl)) @
      [''}''])"

definition export_dot_step_deps :: "graph \<Rightarrow> string list list \<Rightarrow> string" where
  "export_dot_step_deps g cycles = str_join newline
     ([''digraph G { rankdir=LR; node [shape=ellipse];''] @
      concat (map (\<lambda>(u, vs). (dq u @ '' [color='' @ (if u \<in> set (concat cycles) then ''red'' else ''black'') @ '']'') #
        map (\<lambda>v. dq u @ '' -> '' @ dq v) vs) g) @
      [''}''])"

definition analyze_plan :: "plan \<Rightarrow> string list \<Rightarrow> analysis_report result" where
  "analyze_plan pl focus =
     bind_result (step_dependencies (pl_steps pl)) (\<lambda>dep.
     bind_result (topological_order dep) (\<lambda>(topo, cycles).
     bind_result (map_result (\<lambda>r. rule_conflicts (pl_steps pl) (ru_name r) (ru_steps r)) (pl_rules pl)) (\<lambda>inside.
     bind_result (cross_conflicts (pl_steps pl) (trigger_heads (pl_rules pl)) (pl_rules pl)) (\<lambda>cross.
       let cov = plan_coverage pl focus in
       Inr \<lparr>an_graphs = \<lparr>gr_step_deps = dep, gr_topo = topo, gr_cycles = cycles\<rparr>,
            an_conflicts = concat inside @ cross @ map (suspicious ''Rule has no steps.'') (cv_empty_rules cov) @
              map (suspicious ''Rule has no triggers.'') (cv_empty_triggers cov),
            an_coverage = cov, an_dot_rules_steps = export_dot_rules_steps pl,
            an_dot_step_deps = export_dot_step_deps dep cycles\<rparr>))))"

section \<open>Correctness of the ordering\<close>

abbreviation succs_of :: "graph \<Rightarrow> string \<Rightarrow> string list" where
  "succs_of g u \<equiv> dict_get_or g u []"

definition nodes :: "graph \<Rightarrow> string set" where
  "nodes g = set (dict_keys g)"

definition edges :: "graph \<Rightarrow> (string \<times> string) set" where
  "edges g = {(u, v). v \<in> set (succs_of g u)}"

definition graph_ok :: "graph \<Rightarrow> bool" where
  "graph_ok g \<longleftrightarrow> dict_wf g \<and> (\<forall>(u, vs)\<in>set g. set vs \<subseteq> nodes g)"

lemma graph_okD: "graph_ok g \<Longrightarrow> (u, vs) \<in> set g \<Longrightarrow> v \<in> set vs \<Longrightarrow> v \<in> nodes g"
  unfolding graph_ok_def by blast

lemma edges_nodes: "graph_ok g \<Longrightarrow> (u, v) \<in> edges g \<Longrightarrow> u \<in> nodes g \<and> v \<in> nodes g"
proof -
  assume ok: "graph_ok g" and e: "(u, v) \<in> edges g"
  then obtain vs where vs: "(u, vs) \<in> set g" "v \<in> set vs"
    by (cases "dict_get g u") (auto simp: edges_def dict_get_or_def dest: map_of_SomeD)
  then show ?thesis using graph_okD[OF ok vs] by (force simp: nodes_def)
qed

lemma finite_nodes [simp]: "finite (nodes g)"
  by (simp add: nodes_def)

lemma card_nodes: "graph_ok g \<Longrightarrow> card (nodes g) = length g"
  using distinct_card[of "dict_keys g"] by (simp add: graph_ok_def nodes_def)

text \<open>The edges into a node that do not start in a set, with multiplicity.\<close>

definition indeg :: "graph \<Rightarrow> string set \<Rightarrow> string \<Rightarrow> nat" where
  "indeg g S v = (\<Sum>u\<in>nodes g - S. count_list (succs_of g u) v)"

lemma indeg_0: "graph_ok g \<Longrightarrow> indeg g S v = 0 \<longleftrightarrow> (\<forall>u. (u, v) \<in> edges g \<longrightarrow> u \<in> S)"
  using edges_nodes[of g _ v] by (auto simp: indeg_def edges_def count_list_0_iff)

lemma indeg_insert:
  "cur \<in> nodes g \<Longrightarrow> cur \<notin> S \<Longrightarrow> indeg g S v = indeg g (insert cur S) v + count_list (succs_of g cur) v"
proof -
  assume "cur \<in> nodes g" "cur \<notin> S"
  then have "nodes g - S = insert cur (nodes g - insert cur S)" by auto
  moreover have "(\<Sum>u\<in>insert cur (nodes g - insert cur S). count_list (succs_of g u) v) =
      count_list (succs_of g cur) v + (\<Sum>u\<in>nodes g - insert cur S. count_list (succs_of g u) v)" by (rule sum.insert) simp_all
  ultimately show ?thesis unfolding indeg_def by presburger
qed

lemma bump_fold:
  "dict_get d v = Some n \<Longrightarrow> dict_get (foldl bump d vs) v = Some (n + int (count_list vs v))"
  by (induction vs arbitrary: d n) (auto simp: bump_def dict_simps dict_get_or_def)

lemma bump_keys: "set vs \<subseteq> set (dict_keys d) \<Longrightarrow> dict_keys (foldl bump d vs) = dict_keys d"
proof (induction vs arbitrary: d)
  case (Cons v vs)
  have "dict_keys (bump d v) = dict_keys d" using Cons.prems by (simp add: bump_def update_keys)
  then show ?case using Cons.IH[of "bump d v"] Cons.prems by simp
qed simp

lemma count_concat: "count_list (concat xss) v = sum_list (map (\<lambda>xs. count_list xs v) xss)"
  by (induction xss) simp_all

lemma get_const: "dict_get (map (\<lambda>(k, _). (k, c)) d) k = map_option (\<lambda>_. c) (dict_get d k)"
  by (induction d) auto

lemma in_degrees_get:
  assumes "graph_ok g"
  shows "dict_keys (in_degrees g) = dict_keys g" and "v \<in> nodes g \<Longrightarrow> dict_get (in_degrees g) v = Some (int (indeg g {} v))"
proof -
  let ?d = "map (\<lambda>(k, _). (k, 0 :: int)) g"
  have keys: "dict_keys ?d = dict_keys g" by auto
  have "set (concat (map snd g)) \<subseteq> set (dict_keys ?d)" using graph_okD[OF assms] unfolding keys by (fastforce simp: nodes_def)
  then show "dict_keys (in_degrees g) = dict_keys g" unfolding in_degrees_def using bump_keys[of "concat (map snd g)" ?d] keys by simp
  assume v: "v \<in> nodes g"
  have "dict_get ?d v = map_option (\<lambda>_. 0) (dict_get g v)" by (rule get_const)
  moreover obtain vs where "dict_get g v = Some vs" using v by (cases "dict_get g v") (simp_all add: nodes_def dict_get_None_iff)
  ultimately have "dict_get ?d v = Some 0" by simp
  moreover have "count_list (concat (map snd g)) v = indeg g {} v"
  proof -
    have "count_list (concat (map snd g)) v = sum_list (map (\<lambda>(u, vs). count_list vs v) g)"
      by (simp add: count_concat comp_def case_prod_unfold)
    also have "\<dots> = sum_list (map (\<lambda>u. count_list (succs_of g u) v) (dict_keys g))"
      using assms by (auto simp: graph_ok_def dict_get_or_def comp_def intro!: arg_cong[where f = sum_list])
    also have "\<dots> = indeg g {} v" using assms sum_list_distinct_conv_sum_set[of "dict_keys g" "\<lambda>u. count_list (succs_of g u) v"]
      by (simp add: graph_ok_def indeg_def nodes_def)
    finally show ?thesis .
  qed
  ultimately show "dict_get (in_degrees g) v = Some (int (indeg g {} v))" using bump_fold[of ?d v 0] by (simp add: in_degrees_def)
qed

lemma relax_spec:
  assumes "\<forall>v\<in>set vs. \<exists>n. dict_get d v = Some n \<and> int (count_list vs v) \<le> n"
  shows "\<exists>d' new. relax d q vs = Inr (d', q @ new) \<and> distinct new \<and> dict_keys d' = dict_keys d \<and>
    (\<forall>v. dict_get d' v = map_option (\<lambda>n. n - int (count_list vs v)) (dict_get d v)) \<and> set new = {v \<in> set vs. dict_get d' v = Some 0}"
  using assms
proof (induction vs arbitrary: d q)
  case Nil
  then show ?case by (auto intro: option.map_ident[symmetric])
next
  case (Cons v vs)
  obtain n where n: "dict_get d v = Some n" "int (count_list vs v) \<le> n - 1" using Cons.prems by auto
  let ?d = "dict_set v (n - 1) d" and ?q = "if n - 1 = 0 then q @ [v] else q"
  have "v \<in> set (dict_keys d)" using n(1) by (metis dict_get_None_iff option.distinct(1))
  then have keys: "dict_keys ?d = dict_keys d" by (simp add: update_keys)
  have "\<forall>w\<in>set vs. \<exists>m. dict_get ?d w = Some m \<and> int (count_list vs w) \<le> m"
    using Cons.prems n by (auto simp: dict_simps split: if_splits)
  from Cons.IH[OF this, of ?q] obtain d' new where IH: "relax ?d ?q vs = Inr (d', ?q @ new)" "distinct new" "dict_keys d' = dict_keys ?d"
    "\<And>w. dict_get d' w = map_option (\<lambda>m. m - int (count_list vs w)) (dict_get ?d w)" "set new = {w \<in> set vs. dict_get d' w = Some 0}" by blast
  define new' where "new' = (if n - 1 = 0 then v # new else new)"
  have get: "dict_get d' w = map_option (\<lambda>m. m - int (count_list (v # vs) w)) (dict_get d w)" for w
    using IH(4)[of w] n(1) by (auto simp: dict_simps)
  have v0: "v \<notin> set vs \<and> dict_get d' v = Some 0" if "n = 1"
    using n that get[of v] by (auto simp: count_list_0_iff)
  have v1: "v \<in> set vs" if "dict_get d' v = Some 0" "n \<noteq> 1"
    using that get[of v] n(1) by (cases "v \<in> set vs") (auto simp: count_list_0_iff[THEN iffD2])
  have "set new' = {w \<in> set (v # vs). dict_get d' w = Some 0}" "distinct new'"
    using IH(2,5) v0 v1 by (auto simp: new'_def)
  moreover have "relax d q (v # vs) = Inr (d', q @ new')" using n(1) IH(1) by (auto simp: new'_def)
  ultimately show ?case using get IH(3) keys by (intro exI[of _ d'] exI[of _ new']) auto
qed

text \<open>
  The invariant of Kahn's loop: the nodes emitted or queued are the ones all whose predecessors are
  emitted, the counters are the in-degrees left, and edges between emitted nodes point forward.
\<close>

definition kahn_ok :: "graph \<Rightarrow> (string, int) dict \<Rightarrow> string list \<Rightarrow> string list \<Rightarrow> bool" where
  "kahn_ok g d q order \<longleftrightarrow> distinct (order @ q) \<and> set (order @ q) = {v \<in> nodes g. indeg g (set order) v = 0} \<and>
     (\<forall>v\<in>nodes g. dict_get d v = Some (int (indeg g (set order) v))) \<and>
     (\<forall>pre v post. order = pre @ v # post \<longrightarrow> (\<forall>u. (u, v) \<in> edges g \<longrightarrow> u \<in> set pre))"

lemma kahn_step:
  assumes ok: "graph_ok g" and inv: "kahn_ok g d (cur # q) order"
  shows "\<exists>d2 q2. relax d q (succs_of g cur) = Inr (d2, q2) \<and> kahn_ok g d2 q2 (order @ [cur])"
proof -
  let ?vs = "succs_of g cur" and ?S = "set order" and ?T = "insert cur (set order)"
  have D: "distinct (order @ cur # q)" and S: "set (order @ cur # q) = {v \<in> nodes g. indeg g ?S v = 0}"
    and G: "\<And>v. v \<in> nodes g \<Longrightarrow> dict_get d v = Some (int (indeg g ?S v))"
    and F: "\<And>pre v post u. order = pre @ v # post \<Longrightarrow> (u, v) \<in> edges g \<Longrightarrow> u \<in> set pre"
    using inv unfolding kahn_ok_def by auto
  have cur: "cur \<in> nodes g" "cur \<notin> ?S" "indeg g ?S cur = 0" using S D by auto
  note ins = indeg_insert[OF cur(1,2)]
  have vs: "set ?vs \<subseteq> nodes g" using edges_nodes[OF ok, of cur] by (auto simp: edges_def)
  have "\<forall>v\<in>set ?vs. \<exists>n. dict_get d v = Some n \<and> int (count_list ?vs v) \<le> n" using G vs ins by auto
  from relax_spec[OF this, of q] obtain d2 new where r: "relax d q ?vs = Inr (d2, q @ new)" "distinct new"
    "\<And>v. dict_get d2 v = map_option (\<lambda>n. n - int (count_list ?vs v)) (dict_get d v)" "set new = {v \<in> set ?vs. dict_get d2 v = Some 0}" by blast
  have G2: "dict_get d2 v = Some (int (indeg g ?T v))" if "v \<in> nodes g" for v using r(3)[of v] G[OF that] ins[of v] by simp
  have new: "set new = {v \<in> set ?vs. indeg g ?T v = 0}" using r(4) G2 vs by auto
  have pos: "v \<in> set ?vs \<longleftrightarrow> 0 < count_list ?vs v" for v using count_list_0_iff[of ?vs v] by auto
  have "set (order @ cur # q) \<inter> set new = {}" unfolding S new using ins pos by force
  then have "distinct ((order @ [cur]) @ q @ new)" using D r(2) by auto
  moreover have "set ((order @ [cur]) @ q @ new) = {v \<in> nodes g. indeg g ?T v = 0}"
  proof -
    have "set ((order @ [cur]) @ q @ new) = set (order @ cur # q) \<union> set new" by auto
    also have "\<dots> = {v \<in> nodes g. indeg g ?T v = 0}" unfolding S new using vs ins pos by fastforce
    finally show ?thesis .
  qed
  moreover have "u \<in> set pre" if "order @ [cur] = pre @ v # post" "(u, v) \<in> edges g" for pre v post u
  proof (cases post rule: rev_cases)
    case Nil
    then show ?thesis using that cur(3) indeg_0[OF ok, of ?S cur] by auto
  next
    case (snoc post' x)
    then show ?thesis using that F[of pre v post' u] by auto
  qed
  ultimately have "kahn_ok g d2 (q @ new) (order @ [cur])" unfolding kahn_ok_def using G2 by auto
  then show ?thesis using r(1) by blast
qed

lemma topo_loop_spec:
  assumes "graph_ok g" "kahn_ok g d q order"
  shows "\<exists>d' order'. topo_loop g d q order = Inr order' \<and> kahn_ok g d' [] order'"
  using assms
proof (induction g d q order rule: topo_loop.induct)
  case (1 g d q order)
  show ?case
  proof (cases q)
    case Nil
    then show ?thesis using 1(3) by (subst topo_loop.simps) auto
  next
    case (Cons cur q1)
    then obtain d2 q2 where r: "relax d q1 (succs_of g cur) = Inr (d2, q2)" "kahn_ok g d2 q2 (order @ [cur])"
      using kahn_step 1(2,3) by blast
    then show ?thesis using 1(1)[OF Cons r(1) refl 1(2) r(2)] Cons by (subst topo_loop.simps) simp
  qed
qed

lemma kahn_start: "graph_ok g \<Longrightarrow> kahn_ok g (in_degrees g) (map fst (filter (\<lambda>(_, n). n = 0) (in_degrees g))) []"
proof -
  assume ok: "graph_ok g"
  let ?d = "in_degrees g"
  have wf: "dict_wf ?d" using in_degrees_get(1)[OF ok] ok by (simp add: graph_ok_def)
  have "v \<in> set (map fst (filter (\<lambda>(_, n). n = 0) ?d)) \<longleftrightarrow> dict_get ?d v = Some 0" for v
    using wf by (auto simp: image_iff)
  moreover have "dict_get ?d v = Some 0 \<longleftrightarrow> v \<in> nodes g \<and> indeg g {} v = 0" for v
  proof (cases "v \<in> nodes g")
    case False
    then have "dict_get ?d v = None" using in_degrees_get(1)[OF ok] by (simp add: dict_get_None_iff nodes_def)
    then show ?thesis using False by simp
  qed (simp add: in_degrees_get(2)[OF ok])
  ultimately have "set (map fst (filter (\<lambda>(_, n). n = 0) ?d)) = {v \<in> nodes g. indeg g {} v = 0}" by blast
  moreover have "distinct (map fst (filter (\<lambda>(_, n). n = 0) ?d))" using wf by (rule distinct_map_filter)
  ultimately show ?thesis unfolding kahn_ok_def using in_degrees_get(2)[OF ok] by simp
qed

lemma takeWhile_before: "u \<in> set pre \<Longrightarrow> length (takeWhile (\<lambda>y. y \<noteq> u) (pre @ r)) < length pre"
  by (induction pre) auto

lemma kahn_end:
  assumes ok: "graph_ok g" and inv: "kahn_ok g d [] order"
  shows "length order = length g \<longleftrightarrow> acyclic (edges g)"
    and "acyclic (edges g) \<Longrightarrow> set order = nodes g \<and> distinct order"
proof -
  have D: "distinct order" and S: "set order = {v \<in> nodes g. indeg g (set order) v = 0}"
    and F: "\<And>pre v post u. order = pre @ v # post \<Longrightarrow> (u, v) \<in> edges g \<Longrightarrow> u \<in> set pre"
    using inv unfolding kahn_ok_def by auto
  have sub: "edges g \<subseteq> nodes g \<times> nodes g" using edges_nodes[OF ok] by auto
  have all: "set order = nodes g" if "acyclic (edges g)"
  proof (rule ccontr)
    assume "set order \<noteq> nodes g"
    then obtain x where "x \<in> nodes g - set order" using S by blast
    moreover have "wf (edges g)" using that finite_acyclic_wf finite_subset[OF sub] by simp
    ultimately obtain z where z: "z \<in> nodes g - set order" "\<And>y. (y, z) \<in> edges g \<Longrightarrow> y \<notin> nodes g - set order"
      by (metis wfE_min)
    then have "indeg g (set order) z = 0" using indeg_0[OF ok] sub by blast
    then show False using z(1) S by blast
  qed
  then show "acyclic (edges g) \<Longrightarrow> set order = nodes g \<and> distinct order" using D by simp
  have "acyclic (edges g)" if "set order = nodes g"
  proof -
    have "(u, v) \<in> measure (\<lambda>x. length (takeWhile (\<lambda>y. y \<noteq> x) order))" if e: "(u, v) \<in> edges g" for u v
    proof -
      obtain pre post where o: "order = pre @ v # post" "v \<notin> set pre"
        using sub e \<open>set order = nodes g\<close> split_list_first[of v order] by blast
      moreover have u: "u \<in> set pre" using F[OF o(1) e] .
      ultimately have "takeWhile (\<lambda>y. y \<noteq> v) order = pre" by (subst o(1), subst takeWhile_append2) auto
      moreover have "length (takeWhile (\<lambda>y. y \<noteq> u) order) < length pre"
        using takeWhile_before[OF u] o(1) by simp
      ultimately show ?thesis by simp
    qed
    then have "edges g \<subseteq> measure (\<lambda>x. length (takeWhile (\<lambda>y. y \<noteq> x) order))" by auto
    then show ?thesis using wf_acyclic wf_subset wf_measure by blast
  qed
  moreover have "length order = length g \<longleftrightarrow> set order = nodes g"
    using distinct_card[OF D] card_nodes[OF ok] card_subset_eq[of "nodes g" "set order"] S by force
  ultimately show "length order = length g \<longleftrightarrow> acyclic (edges g)" using all by blast
qed

text \<open>
  The search for cycles.  A closed walk starts where it ends.  A set of nodes is settled when no edge
  leaves it and no cycle lies in it; as long as no cycle has been found, the nodes left behind by the
  search (seen, and not on the current path) are settled.
\<close>

definition closed_walk :: "graph \<Rightarrow> string list \<Rightarrow> bool" where
  "closed_walk g c \<longleftrightarrow> 2 \<le> length c \<and> hd c = last c \<and> successively (\<lambda>u v. (u, v) \<in> edges g) c"

definition settled :: "graph \<Rightarrow> string set \<Rightarrow> bool" where
  "settled g D \<longleftrightarrow> edges g `` D \<subseteq> D \<and> acyclic (edges g \<inter> D \<times> D)"

definition search_ok :: "graph \<Rightarrow> search \<Rightarrow> bool" where
  "search_ok g st = (case st of (seen, stack, cycles) \<Rightarrow> set stack \<subseteq> set seen \<and> set seen \<subseteq> nodes g \<and>
     successively (\<lambda>u v. (u, v) \<in> edges g) stack \<and> (\<forall>c\<in>set cycles. closed_walk g c) \<and>
     (cycles = [] \<longrightarrow> settled g (set seen - set stack)))"

lemma search_okI:
  assumes "set stack \<subseteq> set seen" "set seen \<subseteq> nodes g" "successively (\<lambda>u v. (u, v) \<in> edges g) stack"
    "\<And>c. c \<in> set cycles \<Longrightarrow> closed_walk g c" "cycles = [] \<Longrightarrow> settled g (set seen - set stack)"
  shows "search_ok g (seen, stack, cycles)"
  using assms by (simp add: search_ok_def)

lemma search_okD:
  assumes "search_ok g (seen, stack, cycles)"
  shows "set stack \<subseteq> set seen" "set seen \<subseteq> nodes g" "successively (\<lambda>u v. (u, v) \<in> edges g) stack"
    "c \<in> set cycles \<Longrightarrow> closed_walk g c" "cycles = [] \<Longrightarrow> settled g (set seen - set stack)"
  using assms by (simp_all add: search_ok_def)

lemma settled_insert:
  assumes D: "settled g D" and u: "u \<notin> D" "edges g `` {u} \<subseteq> D"
  shows "settled g (insert u D)"
proof -
  let ?E = "edges g \<inter> D \<times> D" and ?F = "edges g \<inter> insert u D \<times> insert u D"
  have leave: "edges g `` D \<subseteq> D" and acy: "acyclic ?E" using D by (auto simp: settled_def)
  have walk: "y \<in> D \<and> (x \<in> D \<longrightarrow> (x, y) \<in> ?E\<^sup>+)" if "(x, y) \<in> ?F\<^sup>+" for x y using that
  proof (induction rule: trancl_induct)
    case (base y)
    then show ?case using leave u by blast
  next
    case (step y z)
    then have "(y, z) \<in> ?E" using leave u by blast
    then show ?case using step.IH by (meson IntD2 mem_Sigma_iff trancl_into_trancl)
  qed
  then have "acyclic ?F" using acy unfolding acyclic_def by blast
  then show ?thesis using leave u unfolding settled_def by blast
qed

lemma cycle_closes:
  assumes path: "successively (\<lambda>u v. (u, v) \<in> edges g) stack" and v: "v \<in> set stack" "(last stack, v) \<in> edges g"
  shows "closed_walk g (dropWhile (\<lambda>x. x \<noteq> v) stack @ [v])"
proof -
  let ?d = "dropWhile (\<lambda>x. x \<noteq> v) stack"
  have ne: "?d \<noteq> []" using v(1) by (simp add: dropWhile_eq_Nil_conv)
  have split: "stack = takeWhile (\<lambda>x. x \<noteq> v) stack @ ?d" by simp
  have "hd ?d = v" using hd_dropWhile[OF ne] by simp
  moreover have "last ?d = last stack" using ne split by (metis last_appendR)
  moreover have "successively (\<lambda>u v. (u, v) \<in> edges g) ?d" using path split by (metis successively_append_iff)
  ultimately have "successively (\<lambda>u v. (u, v) \<in> edges g) (?d @ [v])" "hd (?d @ [v]) = v"
    using ne v(2) by (simp_all only: successively_append_iff) simp_all
  moreover have "2 \<le> length (?d @ [v])" using ne by (cases ?d) simp_all
  ultimately show ?thesis by (simp add: closed_walk_def)
qed

text \<open>What a call of the search adds: it keeps the path, sees more nodes and never forgets a cycle.\<close>

definition explored :: "graph \<Rightarrow> search \<Rightarrow> string list \<Rightarrow> search option \<Rightarrow> bool" where
  "explored g st vs r = (case st of (seen, stack, cycles) \<Rightarrow>
     (\<exists>seen' cycles'. r = Some (seen', stack, cycles') \<and> search_ok g (seen', stack, cycles') \<and>
       set seen \<union> set vs \<subseteq> set seen' \<and> (cycles' = [] \<longrightarrow> cycles = [] \<and> set vs \<inter> set stack = {})))"

lemma exploredE:
  assumes "explored g (seen, stack, cycles) vs r"
  obtains seen' cycles' where "r = Some (seen', stack, cycles')" "search_ok g (seen', stack, cycles')" "set seen \<subseteq> set seen'"
    "set vs \<subseteq> set seen'" "cycles' = [] \<Longrightarrow> cycles = []" "cycles' = [] \<Longrightarrow> set vs \<inter> set stack = {}"
  using assms unfolding explored_def by auto

lemma dfs_edges_seen:
  assumes ok: "search_ok g (seen, stack, cycles)" and v: "v \<in> set seen" "(last stack, v) \<in> edges g"
    and IH: "\<And>cycles2. cycles2 = (if v \<in> set stack then cycles @ [dropWhile (\<lambda>x. x \<noteq> v) stack @ [v]] else cycles) \<Longrightarrow>
      search_ok g (seen, stack, cycles2) \<Longrightarrow> explored g (seen, stack, cycles2) vs (dfs_edges n g vs (seen, stack, cycles2))"
  shows "explored g (seen, stack, cycles) (v # vs) (dfs_edges n g (v # vs) (seen, stack, cycles))"
proof -
  let ?c = "if v \<in> set stack then cycles @ [dropWhile (\<lambda>x. x \<noteq> v) stack @ [v]] else cycles"
  have "search_ok g (seen, stack, ?c)"
    using search_okD[OF ok] cycle_closes[OF search_okD(3)[OF ok] _ v(2)] by (intro search_okI) (auto split: if_splits)
  from IH[OF refl this] show ?thesis using v(1) by (auto simp: explored_def split: if_splits)
qed

lemma dfs_edges_new:
  assumes v: "v \<notin> set seen" "set stack \<subseteq> set seen" and first: "explored g (seen, stack, cycles) [v] (dfs n g v (seen, stack, cycles))"
    and IH: "\<And>seen2 cycles2. dfs n g v (seen, stack, cycles) = Some (seen2, stack, cycles2) \<Longrightarrow> set seen \<subseteq> set seen2 \<Longrightarrow> search_ok g (seen2, stack, cycles2) \<Longrightarrow>
      explored g (seen2, stack, cycles2) vs (dfs_edges n g vs (seen2, stack, cycles2))"
  shows "explored g (seen, stack, cycles) (v # vs) (dfs_edges n g (v # vs) (seen, stack, cycles))"
proof -
  obtain seen2 cycles2 where r: "dfs n g v (seen, stack, cycles) = Some (seen2, stack, cycles2)" "search_ok g (seen2, stack, cycles2)"
    "set seen \<subseteq> set seen2" "set [v] \<subseteq> set seen2" "cycles2 = [] \<Longrightarrow> cycles = []" using first by (rule exploredE) blast
  obtain seen3 cycles3 where t: "dfs_edges n g vs (seen2, stack, cycles2) = Some (seen3, stack, cycles3)" "search_ok g (seen3, stack, cycles3)"
    "set seen2 \<subseteq> set seen3" "set vs \<subseteq> set seen3" "cycles3 = [] \<Longrightarrow> cycles2 = []" "cycles3 = [] \<Longrightarrow> set vs \<inter> set stack = {}"
    using IH[OF r(1,3,2)] by (rule exploredE) blast
  have "dfs_edges n g (v # vs) (seen, stack, cycles) = Some (seen3, stack, cycles3)" using v(1) r(1) t(1) by simp
  moreover have "set seen \<union> set (v # vs) \<subseteq> set seen3" using r(3,4) t(3,4) by auto
  moreover have "cycles3 = [] \<longrightarrow> cycles = [] \<and> set (v # vs) \<inter> set stack = {}" using r(5) t(5,6) v by auto
  ultimately show ?thesis using t(2) unfolding explored_def by blast
qed

lemma dfs_visits:
  assumes ok: "search_ok g (seen, stack, cycles)" and u: "u \<in> nodes g - set seen" "stack = [] \<or> (last stack, u) \<in> edges g"
    and IH: "search_ok g (seen @ [u], stack @ [u], cycles) \<Longrightarrow>
      explored g (seen @ [u], stack @ [u], cycles) (succs_of g u) (dfs_edges n g (succs_of g u) (seen @ [u], stack @ [u], cycles))"
  shows "explored g (seen, stack, cycles) [u] (dfs (Suc n) g u (seen, stack, cycles))"
proof -
  note D = search_okD[OF ok]
  have new: "u \<notin> set stack" using D(1) u by auto
  have "search_ok g (seen @ [u], stack @ [u], cycles)"
    using D u by (intro search_okI) (auto simp: successively_append_iff insert_Diff_if)
  from IH[OF this] obtain seen2 cycles2 where r:
    "dfs_edges n g (succs_of g u) (seen @ [u], stack @ [u], cycles) = Some (seen2, stack @ [u], cycles2)"
    "search_ok g (seen2, stack @ [u], cycles2)" "set (seen @ [u]) \<subseteq> set seen2" "set (succs_of g u) \<subseteq> set seen2"
    "cycles2 = [] \<Longrightarrow> cycles = []" "cycles2 = [] \<Longrightarrow> set (succs_of g u) \<inter> set (stack @ [u]) = {}" by (rule exploredE) blast
  note R = search_okD[OF r(2)]
  have "settled g (set seen2 - set stack)" if c: "cycles2 = []"
  proof -
    have "settled g (insert u (set seen2 - set (stack @ [u])))" using R(5)[OF c] r(4) r(6)[OF c] by (intro settled_insert) (auto simp: edges_def)
    moreover have "insert u (set seen2 - set (stack @ [u])) = set seen2 - set stack" using r(3) new by auto
    ultimately show ?thesis by simp
  qed
  then have "search_ok g (seen2, stack, cycles2)" using R by (intro search_okI) (auto simp: successively_append_iff)
  then show ?thesis using r(1,3,5) new by (auto simp: explored_def)
qed

lemma dfs_explores:
  "graph_ok g \<Longrightarrow> search_ok g st \<Longrightarrow> u \<in> nodes g - set (fst st) \<Longrightarrow> fst (snd st) = [] \<or> (last (fst (snd st)), u) \<in> edges g \<Longrightarrow>
     card (nodes g - set (fst st)) \<le> n \<Longrightarrow> explored g st [u] (dfs n g u st)"
  "graph_ok g \<Longrightarrow> search_ok g st \<Longrightarrow> fst (snd st) \<noteq> [] \<Longrightarrow> \<forall>v\<in>set vs. (last (fst (snd st)), v) \<in> edges g \<Longrightarrow>
     card (nodes g - set (fst st)) \<le> n \<Longrightarrow> explored g st vs (dfs_edges n g vs st)"
proof (induction n g u st and n g vs st rule: dfs_dfs_edges.induct)
  case (1 g u st)
  then show ?case by (metis card_0_eq empty_iff finite_Diff finite_nodes le_zero_eq)
next
  case (2 n g u seen stack cycles)
  have "nodes g - set (seen @ [u]) = (nodes g - set seen) - {u}" by auto
  then have "card (nodes g - set (seen @ [u])) \<le> n" using 2(4,6) by simp
  then show ?case using 2 by (intro dfs_visits) (auto simp: edges_def)
next
  case (3 n g st)
  then show ?case by (cases st) (auto simp: explored_def)
next
  case (4 n g v vs seen stack cycles)
  have bound: "card (nodes g - set seen2) \<le> n" if "set seen \<subseteq> set seen2" for seen2
    by (rule order_trans[OF card_mono, of "nodes g - set seen"]) (use that 4(9) in auto)
  show ?case
  proof (cases "v \<in> set seen")
    case True
    show ?thesis
    proof (rule dfs_edges_seen[OF 4(6) True])
      show "(last stack, v) \<in> edges g" using 4(8) by simp
      fix cycles2 assume "cycles2 = (if v \<in> set stack then cycles @ [dropWhile (\<lambda>x. x \<noteq> v) stack @ [v]] else cycles)"
        "search_ok g (seen, stack, cycles2)"
      then show "explored g (seen, stack, cycles2) vs (dfs_edges n g vs (seen, stack, cycles2))"
        using 4(3,4) 4(5) 4(7-) True by (cases "v \<in> set stack") simp_all
    qed
  next
    case False
    have v: "v \<in> nodes g" using edges_nodes[OF 4(5), of "last stack" v] 4(8) by simp
    have "explored g (seen, stack, cycles) [v] (dfs n g v (seen, stack, cycles))"
      using 4(1)[OF False 4(5,6)] 4(8,9) False v by simp
    then show ?thesis using False search_okD(1)[OF 4(6)]
    proof (intro dfs_edges_new)
      fix seen2 cycles2 assume r: "dfs n g v (seen, stack, cycles) = Some (seen2, stack, cycles2)" and "set seen \<subseteq> set seen2" "search_ok g (seen2, stack, cycles2)"
      then show "explored g (seen2, stack, cycles2) vs (dfs_edges n g vs (seen2, stack, cycles2))"
        using 4(2)[OF False r 4(5)] 4(7,8) bound by simp
    qed simp_all
  qed
qed

lemma visit_roots:
  assumes ok: "graph_ok g" and fuel: "card (nodes g) \<le> fuel"
  shows "search_ok g (seen, [], cycles) \<Longrightarrow> set ns \<subseteq> nodes g \<Longrightarrow>
    explored g (seen, [], cycles) ns (foldl (visit_root fuel g) (Some (seen, [], cycles)) ns)"
proof (induction ns arbitrary: seen cycles)
  case Nil
  then show ?case by (simp add: explored_def)
next
  case (Cons n ns)
  have "card (nodes g - set seen) \<le> fuel" by (rule order_trans[OF card_mono fuel]) auto
  then have "explored g (seen, [], cycles) [n] (visit_root fuel g (Some (seen, [], cycles)) n)"
    using dfs_explores(1)[OF ok Cons.prems(1), of n fuel] Cons.prems by (auto simp: visit_root_def explored_def)
  then obtain seen2 cycles2 where r: "visit_root fuel g (Some (seen, [], cycles)) n = Some (seen2, [], cycles2)"
    "search_ok g (seen2, [], cycles2)" "set seen \<subseteq> set seen2" "set [n] \<subseteq> set seen2" "cycles2 = [] \<Longrightarrow> cycles = []" by (rule exploredE) blast
  have "explored g (seen2, [], cycles2) ns (foldl (visit_root fuel g) (Some (seen2, [], cycles2)) ns)" using Cons.IH[OF r(2)] Cons.prems(2) by simp
  then obtain seen3 cycles3 where t: "foldl (visit_root fuel g) (Some (seen2, [], cycles2)) ns = Some (seen3, [], cycles3)"
    "search_ok g (seen3, [], cycles3)" "set seen2 \<subseteq> set seen3" "set ns \<subseteq> set seen3" "cycles3 = [] \<Longrightarrow> cycles2 = []" by (rule exploredE) blast
  then show ?case using r unfolding explored_def by auto
qed

lemma find_cycles_spec:
  assumes ok: "graph_ok g"
  shows "\<exists>cycles. find_cycles g = Some cycles \<and> (\<forall>c\<in>set cycles. closed_walk g c) \<and> (cycles = [] \<longrightarrow> acyclic (edges g))"
proof -
  have fuel: "card (nodes g) \<le> search_fuel g" by (simp add: card_nodes[OF ok] search_fuel_def)
  have "search_ok g ([], [], [])" by (simp add: search_ok_def settled_def acyclic_def)
  from visit_roots[OF ok fuel this, of "map fst g"] obtain seen cycles where
    r: "foldl (visit_root (search_fuel g) g) (Some ([], [], [])) (map fst g) = Some (seen, [], cycles)"
       "search_ok g (seen, [], cycles)" "nodes g \<subseteq> set seen" unfolding nodes_def by (auto elim: exploredE)
  have "edges g \<inter> set seen \<times> set seen = edges g" using r(3) edges_nodes[OF ok] by auto
  then have "acyclic (edges g)" if "cycles = []" using search_okD(5)[OF r(2) that] by (simp add: settled_def)
  then show ?thesis using r(1) search_okD(4)[OF r(2)] by (simp add: find_cycles_def)
qed

lemma closed_walk_cyclic: "closed_walk g c \<Longrightarrow> \<not> acyclic (edges g)"
proof -
  assume c: "closed_walk g c"
  have "(hd c, last c) \<in> (edges g)\<^sup>+" if "2 \<le> length c" "successively (\<lambda>u v. (u, v) \<in> edges g) c" for c
    using that
  proof (induction c rule: induct_list012)
    case (3 x y zs)
    then show ?case by (cases zs) (auto intro: trancl_into_trancl2)
  qed simp_all
  then show ?thesis using c unfolding closed_walk_def acyclic_def by metis
qed

definition forward :: "graph \<Rightarrow> string list \<Rightarrow> bool" where
  "forward g order \<longleftrightarrow> (\<forall>pre v post. order = pre @ v # post \<longrightarrow> (\<forall>u. (u, v) \<in> edges g \<longrightarrow> u \<in> set pre))"

lemma topological_order_spec:
  assumes ok: "graph_ok g"
  shows "\<exists>order cycles. topological_order g = Inr (order, cycles) \<and>
    (if acyclic (edges g) then distinct order \<and> set order = nodes g \<and> forward g order \<and> cycles = []
     else order = [] \<and> cycles \<noteq> [] \<and> (\<forall>c\<in>set cycles. closed_walk g c))"
proof -
  obtain d order where loop: "topo_loop g (in_degrees g) (map fst (filter (\<lambda>(_, n). n = 0) (in_degrees g))) [] = Inr order"
    and inv: "kahn_ok g d [] order" using topo_loop_spec[OF ok kahn_start[OF ok]] by blast
  obtain cycles where cyc: "find_cycles g = Some cycles" "\<forall>c\<in>set cycles. closed_walk g c" "cycles = [] \<longrightarrow> acyclic (edges g)"
    using find_cycles_spec[OF ok] by blast
  note e = kahn_end[OF ok inv]
  show ?thesis
  proof (cases "acyclic (edges g)")
    case True
    moreover have "forward g order" using inv unfolding kahn_ok_def forward_def by blast
    ultimately show ?thesis using loop e by (simp add: topological_order_def Let_def)
  next
    case False
    then show ?thesis using loop e cyc by (simp add: topological_order_def Let_def)
  qed
qed

section \<open>The dependencies of a plan\<close>

definition depends :: "step_spec \<Rightarrow> step_spec \<Rightarrow> bool" where
  "depends a b \<longleftrightarrow> sp_name a \<noteq> sp_name b \<and> any_pair write_affects_read (sp_writes a) (sp_reads b)"

definition dependency :: "(string, step_spec) dict \<Rightarrow> (string \<times> string) set" where
  "dependency steps = {(a, b). \<exists>sa sb. dict_get steps a = Some sa \<and> dict_get steps b = Some sb \<and> depends sa sb}"

definition plan_named :: "plan \<Rightarrow> bool" where
  "plan_named pl \<longleftrightarrow> dict_wf (pl_steps pl) \<and> list_all (\<lambda>(k, spec). sp_name spec = k) (pl_steps pl)"

definition plan_closed :: "plan \<Rightarrow> bool" where
  "plan_closed pl \<longleftrightarrow> list_all (\<lambda>r. list_all (\<lambda>s. s \<in> set (dict_keys (pl_steps pl))) (ru_steps r)) (pl_rules pl)"

lemma plan_named_get: "plan_named pl \<Longrightarrow> dict_get (pl_steps pl) k = Some spec \<longleftrightarrow> spec \<in> set (map snd (pl_steps pl)) \<and> sp_name spec = k"
proof -
  assume "plan_named pl"
  then have "dict_wf (pl_steps pl)" and "\<And>k' s. (k', s) \<in> set (pl_steps pl) \<Longrightarrow> sp_name s = k'"
    by (auto simp: plan_named_def list_all_iff)
  then show ?thesis by force
qed

lemma add_deps:
  assumes "sp_name ` fst ` set ps \<subseteq> set (dict_keys dep)"
  shows "\<exists>dep'. fold_result add_dep dep ps = Inr dep' \<and> dict_keys dep' = dict_keys dep \<and>
    (\<forall>k. dict_get dep' k = map_option (\<lambda>vs. vs @ map (\<lambda>(_, b). sp_name b) (filter (\<lambda>(a, b). sp_name a = k \<and> depends a b) ps)) (dict_get dep k))"
  using assms
proof (induction ps arbitrary: dep)
  case Nil
  then show ?case by (auto simp: option.map_ident)
next
  case (Cons p ps)
  obtain a b where p: "p = (a, b)" by (cases p)
  obtain vs where vs: "dict_get dep (sp_name a) = Some vs" using Cons.prems p by (cases "dict_get dep (sp_name a)") (auto simp: dict_get_None_iff)
  define dep1 where "dep1 = (if depends a b then dict_set (sp_name a) (vs @ [sp_name b]) dep else dep)"
  have step: "add_dep dep p = Inr dep1" using vs by (auto simp: add_dep_def p dep1_def depends_def)
  have keys: "dict_keys dep1 = dict_keys dep" using Cons.prems p by (auto simp: dep1_def update_keys)
  then obtain dep' where d: "fold_result add_dep dep1 ps = Inr dep'" "dict_keys dep' = dict_keys dep1"
    "\<And>k. dict_get dep' k = map_option (\<lambda>vs. vs @ map (\<lambda>(_, b). sp_name b) (filter (\<lambda>(a, b). sp_name a = k \<and> depends a b) ps)) (dict_get dep1 k)"
    using Cons.IH[of dep1] Cons.prems by auto
  moreover have "dict_get dep' k = map_option (\<lambda>vs. vs @ map (\<lambda>(_, b). sp_name b) (filter (\<lambda>(a, b). sp_name a = k \<and> depends a b) (p # ps))) (dict_get dep k)" for k
    using d(3)[of k] vs by (auto simp: dep1_def p dict_simps option.map_comp comp_def)
  ultimately show ?case using step keys by (intro exI[of _ dep']) simp
qed

lemma step_dependencies_spec:
  assumes named: "plan_named pl"
  shows "\<exists>dep. step_dependencies (pl_steps pl) = Inr dep \<and> dict_keys dep = dict_keys (pl_steps pl) \<and> graph_ok dep \<and> edges dep = dependency (pl_steps pl)"
proof -
  let ?steps = "pl_steps pl" and ?ps = "List.product (map snd (pl_steps pl)) (map snd (pl_steps pl))"
  let ?d = "map (\<lambda>(k, _). (k, [] :: string list)) ?steps"
  have keys0: "dict_keys ?d = dict_keys ?steps" by auto
  have get0: "dict_get ?d k = map_option (\<lambda>_. []) (dict_get ?steps k)" for k by (rule get_const)
  have name: "sp_name b \<in> set (dict_keys ?steps)" if "b \<in> set (map snd ?steps)" for b
    using plan_named_get[OF named, of "sp_name b" b] that by (metis dict_get_None_iff option.distinct(1))
  have "sp_name ` fst ` set ?ps \<subseteq> set (dict_keys ?d)" unfolding keys0 using name by auto
  from add_deps[OF this] obtain dep where dep: "fold_result add_dep ?d ?ps = Inr dep" "dict_keys dep = dict_keys ?d"
    "\<And>k. dict_get dep k = map_option (\<lambda>vs. vs @ map (\<lambda>(_, b). sp_name b) (filter (\<lambda>(a, b). sp_name a = k \<and> depends a b) ?ps)) (dict_get ?d k)" by blast
  have succs: "set (succs_of dep k) = {sp_name b | a b. a \<in> set (map snd ?steps) \<and> b \<in> set (map snd ?steps) \<and> sp_name a = k \<and> depends a b}" for k
  proof (cases "dict_get ?steps k")
    case None
    then have "\<not> (\<exists>a\<in>set (map snd ?steps). sp_name a = k)" using plan_named_get[OF named, of k] by auto
    then show ?thesis using None dep(3)[of k] get0[of k] by (auto simp: dict_get_or_def)
  next
    case (Some sa)
    then show ?thesis using dep(3)[of k] get0[of k] by (auto simp: dict_get_or_def image_iff)
  qed
  have "edges dep = dependency ?steps" unfolding edges_def dependency_def succs plan_named_get[OF named] by blast
  moreover have "graph_ok dep"
  proof -
    have wf: "dict_wf dep" unfolding dep(2) keys0 using named by (simp add: plan_named_def)
    have "v \<in> nodes dep" if "(u, vs) \<in> set dep" "v \<in> set vs" for u vs v
    proof -
      have "v \<in> set (succs_of dep u)" using that wf by (simp add: dict_get_or_def)
      then show ?thesis unfolding succs nodes_def dep(2) keys0 using name by blast
    qed
    then show ?thesis using wf unfolding graph_ok_def by blast
  qed
  moreover have "dict_keys dep = dict_keys ?steps" using dep(2) keys0 by (rule trans)
  ultimately show ?thesis using dep(1) unfolding step_dependencies_def by blast
qed

lemma map_result_returns: "(\<And>x. x \<in> set xs \<Longrightarrow> \<exists>y. f x = Inr y) \<Longrightarrow> \<exists>ys. map_result f xs = Inr ys"
proof (induction xs)
  case (Cons x xs)
  then obtain y ys where "f x = Inr y" "map_result f xs = Inr ys" by (metis list.set_intros)
  then show ?case by simp
qed simp

lemma get_step_returns: "s \<in> set (dict_keys steps) \<Longrightarrow> \<exists>spec. get_step steps s = Inr spec"
  by (cases "dict_get steps s") (auto simp: get_step_def dict_get_None_iff)

lemma rule_conflicts_returns: "set ss \<subseteq> set (dict_keys steps) \<Longrightarrow> \<exists>cs. rule_conflicts steps rname ss = Inr cs"
proof (induction ss)
  case (Cons s ss)
  obtain a where a: "get_step steps s = Inr a" using get_step_returns Cons.prems by (metis list.set_intros(1) subsetD)
  obtain rest where "rule_conflicts steps rname ss = Inr rest" using Cons by auto
  moreover have "\<exists>cs. map_result (\<lambda>s2. bind_result (get_step steps s2) (\<lambda>b. Inr (if overlapping a b then [in_order_conflict rname a b] else []))) ss = Inr cs"
  proof (rule map_result_returns)
    fix s2 assume "s2 \<in> set ss"
    then obtain b where "get_step steps s2 = Inr b" using get_step_returns Cons.prems by (metis list.set_intros(2) subsetD)
    then show "\<exists>y. bind_result (get_step steps s2) (\<lambda>b. Inr (if overlapping a b then [in_order_conflict rname a b] else [])) = Inr y" by simp
  qed
  ultimately show ?case using a by auto
qed simp

lemma pair_conflicts_returns:
  assumes "set (ru_steps r1) \<subseteq> set (dict_keys steps)" "set (ru_steps r2) \<subseteq> set (dict_keys steps)"
  shows "\<exists>cs. pair_conflicts steps heads r1 r2 = Inr cs"
proof -
  let ?f = "\<lambda>(s1, s2). bind_result (get_step steps s1) (\<lambda>a. bind_result (get_step steps s2) (\<lambda>b.
             Inr (if overlapping a b then [cross_conflict r1 r2 a b] else [])))"
  have "\<exists>cs. map_result ?f (List.product (ru_steps r1) (ru_steps r2)) = Inr cs"
  proof (rule map_result_returns)
    fix p assume "p \<in> set (List.product (ru_steps r1) (ru_steps r2))"
    then have "p \<in> set (ru_steps r1) \<times> set (ru_steps r2)" by simp
    then obtain s1 s2 where p: "p = (s1, s2)" "s1 \<in> set (dict_keys steps)" "s2 \<in> set (dict_keys steps)" using assms by blast
    obtain a b where "get_step steps s1 = Inr a" "get_step steps s2 = Inr b" using get_step_returns p(2,3) by blast
    then show "\<exists>y. ?f p = Inr y" by (simp add: p(1))
  qed
  then show ?thesis by (auto simp: pair_conflicts_def)
qed

lemma cross_conflicts_returns:
  "(\<And>r. r \<in> set rules \<Longrightarrow> set (ru_steps r) \<subseteq> set (dict_keys steps)) \<Longrightarrow> \<exists>cs. cross_conflicts steps heads rules = Inr cs"
proof (induction rules)
  case (Cons r rs)
  have "\<exists>cs. map_result (pair_conflicts steps heads r) rs = Inr cs"
    using Cons.prems by (intro map_result_returns pair_conflicts_returns) simp_all
  moreover have "\<exists>cs. cross_conflicts steps heads rs = Inr cs" using Cons.prems by (intro Cons.IH) simp
  ultimately show ?case by auto
qed simp

text \<open>
  C9. The static analysis of a plan whose steps are stored under their own names and whose rules name
  known steps always returns a report.  Its dependency graph has exactly the pairs of steps of which
  the first may write what the second reads.  When these dependencies have no cycle the order of the
  report lists every step once and each step after all the steps it depends on, and no cycle is
  reported; when they have one, the order is empty and at least one cycle is reported, and every
  reported cycle is a closed walk along dependencies.
\<close>

theorem analyze_plan_order:
  assumes "plan_named pl" and "plan_closed pl"
  shows "\<exists>rep. analyze_plan pl focus = Inr rep \<and>
    (let gr = an_graphs rep; deps = dependency (pl_steps pl) in
     edges (gr_step_deps gr) = deps \<and>
     (if acyclic deps
      then distinct (gr_topo gr) \<and> set (gr_topo gr) = set (dict_keys (pl_steps pl)) \<and> gr_cycles gr = [] \<and>
        (\<forall>pre b post. gr_topo gr = pre @ b # post \<longrightarrow> (\<forall>a. (a, b) \<in> deps \<longrightarrow> a \<in> set pre))
      else gr_topo gr = [] \<and> gr_cycles gr \<noteq> [] \<and>
        (\<forall>c\<in>set (gr_cycles gr). 2 \<le> length c \<and> hd c = last c \<and> successively (\<lambda>a b. (a, b) \<in> deps) c)))"
proof -
  obtain dep where dep: "step_dependencies (pl_steps pl) = Inr dep" "dict_keys dep = dict_keys (pl_steps pl)" "graph_ok dep"
    "edges dep = dependency (pl_steps pl)" using step_dependencies_spec[OF assms(1)] by blast
  from topological_order_spec[OF dep(3)] obtain order cycles where t: "topological_order dep = Inr (order, cycles)"
    "if acyclic (edges dep) then distinct order \<and> set order = nodes dep \<and> forward dep order \<and> cycles = []
     else order = [] \<and> cycles \<noteq> [] \<and> (\<forall>c\<in>set cycles. closed_walk dep c)" by blast
  have closed: "set (ru_steps r) \<subseteq> set (dict_keys (pl_steps pl))" if "r \<in> set (pl_rules pl)" for r
    using assms(2) that by (auto simp: plan_closed_def list_all_iff)
  have "\<exists>cs. map_result (\<lambda>r. rule_conflicts (pl_steps pl) (ru_name r) (ru_steps r)) (pl_rules pl) = Inr cs"
    using closed by (intro map_result_returns rule_conflicts_returns)
  then obtain inside where inside: "map_result (\<lambda>r. rule_conflicts (pl_steps pl) (ru_name r) (ru_steps r)) (pl_rules pl) = Inr inside" by blast
  obtain cross where cross: "cross_conflicts (pl_steps pl) (trigger_heads (pl_rules pl)) (pl_rules pl) = Inr cross"
    using cross_conflicts_returns[OF closed] by blast
  have rep: "\<exists>rep. analyze_plan pl focus = Inr rep \<and> an_graphs rep = \<lparr>gr_step_deps = dep, gr_topo = order, gr_cycles = cycles\<rparr>"
    using dep(1) t(1) inside cross by (simp add: analyze_plan_def Let_def)
  show ?thesis
  proof (cases "acyclic (edges dep)")
    case True
    then show ?thesis using rep t(2) dep(2,4) by (auto simp: nodes_def forward_def Let_def)
  next
    case False
    then show ?thesis using rep t(2) dep(4) by (auto simp: closed_walk_def Let_def)
  qed
qed

theorem analyze_plan_order_witness:
  "plan_named demo_plan \<and> plan_closed demo_plan \<and>
   (\<exists>rep. analyze_plan demo_plan [''x''] = Inr rep \<and> edges (gr_step_deps (an_graphs rep)) = dependency (pl_steps demo_plan) \<and>
     gr_topo (an_graphs rep) = [''set'', ''bad''])"
proof -
  have ok: "plan_named demo_plan" "plan_closed demo_plan" by code_simp+
  from analyze_plan_order[OF this, of "[''x'']"] obtain rep where rep: "analyze_plan demo_plan [''x''] = Inr rep"
    "edges (gr_step_deps (an_graphs rep)) = dependency (pl_steps demo_plan)" by (auto simp: Let_def)
  have "map_sum id (\<lambda>r. gr_topo (an_graphs r)) (analyze_plan demo_plan [''x'']) = Inr [''set'', ''bad'']" by code_simp
  then show ?thesis using ok rep by auto
qed

text \<open>
  The comment on the dependency test calls it conservative and safe.  It compares the text of the
  first segments, so the write of a whole list is not seen to affect a read of its elements.
\<close>

lemma container_write_missed:
  "\<not> write_affects_read ''services'' ''services[].name''" "write_affects_read ''services[]'' ''services[].name''"
  by code_simp+

end
