(* ===== verification/File_Queue.thy ===== *)
theory File_Queue
  imports Work_Queue
begin

text \<open>
  The file-backed work queue (\<^verbatim>\<open>tm/runtime/queue/file.py\<close>).  The directory is part of the state: the
  lines of each segment log, the index files and the two counter files.  A line is blank, no JSON,
  or a record with its offset and its \<^verbatim>\<open>task\<close> value, each with its length in bytes; the length of the
  JSON text of a new record is the parameter \<open>sz\<close>.  Sets of offsets are lists.  A segment object is
  shared by the segment list, the table by number and the current-segment pointer, so the objects
  live in the table and the other two hold numbers.  Locks between processes, \<^verbatim>\<open>fsync\<close> and log messages
  are left out, and one call reads the clock once.
\<close>

section \<open>The directory\<close>

datatype log_line =
    Blank nat
  | Garbage nat
  | Record nat val nat

fun line_size :: "log_line \<Rightarrow> nat" where
  "line_size (Blank n) = n"
| "line_size (Garbage n) = n"
| "line_size (Record _ _ n) = n"

datatype index_file =
    NoIndex
  | Unreadable
  | Index task

record queue_dir =
  qd_logs :: "(nat, log_line list) dict"
  qd_indexes :: "(nat, index_file) dict"
  qd_meta :: "nat option"
  qd_offset :: "nat option"

definition empty_dir :: queue_dir where
  "empty_dir = \<lparr>qd_logs = [], qd_indexes = [], qd_meta = None, qd_offset = None\<rparr>"

text \<open>
  The counter files: an empty file counts as zero.  Initialisation opens the file for appending,
  where a write lands after the digits that are there.
\<close>

definition counter :: "nat option \<Rightarrow> nat" where
  "counter c = (case c of None \<Rightarrow> 0 | Some n \<Rightarrow> n)"

definition append_number :: "nat option \<Rightarrow> nat \<Rightarrow> nat option" where
  "append_number c v = (case c of None \<Rightarrow> Some v | Some n \<Rightarrow> Some (n * 10 ^ length (str_nat v) + v))"

definition raise_counter :: "nat option \<Rightarrow> nat \<Rightarrow> nat option" where
  "raise_counter c v = (if counter c < v then append_number c v else c)"

section \<open>Segments, entries and the queue\<close>

record file_segment =
  fs_seq :: nat
  fs_start_offset :: nat
  fs_end_offset :: int
  fs_size_bytes :: nat
  fs_record_count :: nat
  fs_pending :: nat
  fs_acked :: "nat list"

definition add_record :: "nat \<Rightarrow> nat \<Rightarrow> file_segment \<Rightarrow> file_segment" where
  "add_record offset len s =
     s\<lparr>fs_start_offset := (if fs_record_count s = 0 then offset else fs_start_offset s), fs_end_offset := int offset,
       fs_record_count := fs_record_count s + 1, fs_pending := fs_pending s + 1, fs_size_bytes := fs_size_bytes s + len\<rparr>"

definition segment_ack :: "nat \<Rightarrow> file_segment \<Rightarrow> file_segment" where
  "segment_ack offset s = (if offset \<in> set (fs_acked s) then s
     else s\<lparr>fs_acked := offset # fs_acked s, fs_pending := fs_pending s - 1\<rparr>)"

record file_entry =
  fe_task :: task
  fe_segment_seq :: nat
  fe_available_at :: real
  fe_lease_deadline :: real
  fe_token :: "string option"
  fe_acked :: bool

record file_queue =
  fq_v2 :: bool
  fq_segment_max_bytes :: nat
  fq_dir :: queue_dir
  fq_segments :: "nat list"
  fq_by_seq :: "(nat, file_segment) dict"
  fq_entries :: "(nat, file_entry) dict"
  fq_ready :: "(real \<times> nat) list"
  fq_ready_set :: "nat list"
  fq_lease_seq :: nat
  fq_next_offset :: nat
  fq_current :: "nat option"

section \<open>Segment files\<close>

definition current_segment :: "file_queue \<Rightarrow> file_segment option" where
  "current_segment q = (case fq_current q of None \<Rightarrow> None | Some seq \<Rightarrow> dict_get (fq_by_seq q) seq)"

definition allocate_segment_seq :: "file_queue \<Rightarrow> nat \<times> file_queue" where
  "allocate_segment_seq q =
     (let seq = counter (qd_meta (fq_dir q)) + 1 in (seq, q\<lparr>fq_dir := (fq_dir q)\<lparr>qd_meta := Some seq\<rparr>\<rparr>))"

definition allocate_offset :: "file_queue \<Rightarrow> nat \<times> file_queue" where
  "allocate_offset q =
     (let offset = counter (qd_offset (fq_dir q)) in
      (offset, q\<lparr>fq_dir := (fq_dir q)\<lparr>qd_offset := Some (offset + 1)\<rparr>, fq_next_offset := offset + 1\<rparr>))"

definition log_size :: "log_line list \<Rightarrow> nat" where
  "log_size ls = sum_list (map line_size ls)"

definition open_segment_file :: "file_queue \<Rightarrow> file_segment \<Rightarrow> file_queue" where
  "open_segment_file q s =
     (let logs = dict_setdefault (fs_seq s) [] (qd_logs (fq_dir q)) in
      q\<lparr>fq_dir := (fq_dir q)\<lparr>qd_logs := logs\<rparr>,
        fq_by_seq := dict_set (fs_seq s) (s\<lparr>fs_size_bytes := log_size (dict_get_or logs (fs_seq s) [])\<rparr>) (fq_by_seq q),
        fq_current := Some (fs_seq s)\<rparr>)"

definition new_segment :: "nat \<Rightarrow> nat \<Rightarrow> file_segment" where
  "new_segment seq next = \<lparr>fs_seq = seq, fs_start_offset = next, fs_end_offset = int next - 1, fs_size_bytes = 0,
     fs_record_count = 0, fs_pending = 0, fs_acked = []\<rparr>"

definition rotate_segment :: "file_queue \<Rightarrow> file_queue" where
  "rotate_segment q =
     (let (seq, q1) = allocate_segment_seq q; s = new_segment seq (fq_next_offset q1) in
      open_segment_file (q1\<lparr>fq_segments := fq_segments q1 @ [seq], fq_by_seq := dict_set seq s (fq_by_seq q1)\<rparr>) s)"

definition ensure_active_segment :: "file_queue \<Rightarrow> file_queue" where
  "ensure_active_segment q = (if fq_current q = None then rotate_segment q else q)"

definition maybe_rotate :: "file_queue \<Rightarrow> file_queue" where
  "maybe_rotate q = (case current_segment q of
       None \<Rightarrow> q
     | Some s \<Rightarrow> if fq_segment_max_bytes q \<le> fs_size_bytes s then rotate_segment q else q)"

definition segment_index :: "file_segment \<Rightarrow> task" where
  "segment_index s = [(''acked'', VList (map (\<lambda>n. VInt (int n)) (sort (fs_acked s)))), (''start_offset'', VInt (int (fs_start_offset s))),
     (''end_offset'', VInt (fs_end_offset s)), (''record_count'', VInt (int (fs_record_count s)))]"

definition persist_segment_state :: "file_segment \<Rightarrow> queue_dir \<Rightarrow> queue_dir" where
  "persist_segment_state s d = d\<lparr>qd_indexes := dict_set (fs_seq s) (Index (segment_index s)) (qd_indexes d)\<rparr>"

definition remove_segment_files :: "nat \<Rightarrow> queue_dir \<Rightarrow> queue_dir" where
  "remove_segment_files seq d = d\<lparr>qd_logs := dict_pop seq (qd_logs d), qd_indexes := dict_pop seq (qd_indexes d)\<rparr>"

text \<open>The loop of \<^verbatim>\<open>_maybe_compact_head\<close> over the segment list; its second argument is the list left.\<close>

fun compact_loop :: "file_queue \<Rightarrow> nat list \<Rightarrow> file_queue" where
  "compact_loop q [] = q\<lparr>fq_segments := []\<rparr>"
| "compact_loop q (seq # seqs) = (case dict_get (fq_by_seq q) seq of
       None \<Rightarrow> q\<lparr>fq_segments := seq # seqs\<rparr>
     | Some s \<Rightarrow>
         if 0 < fs_pending s \<or> fq_current q = Some seq then q\<lparr>fq_segments := seq # seqs\<rparr>
         else compact_loop (q\<lparr>fq_dir := remove_segment_files seq (fq_dir q), fq_by_seq := dict_pop seq (fq_by_seq q)\<rparr>) seqs)"

definition maybe_compact_head :: "file_queue \<Rightarrow> file_queue" where
  "maybe_compact_head q = compact_loop q (fq_segments q)"

section \<open>The ready heap\<close>

definition push_ready :: "file_queue \<Rightarrow> nat \<Rightarrow> real \<Rightarrow> file_queue" where
  "push_ready q offset available_at =
     (if offset \<in> set (fq_ready_set q) then q
      else q\<lparr>fq_ready := heappush (available_at, offset) (fq_ready q), fq_ready_set := offset # fq_ready_set q\<rparr>)"

fun pop_ready :: "real \<Rightarrow> (nat, file_entry) dict \<Rightarrow> (real \<times> nat) list \<Rightarrow> nat list
    \<Rightarrow> (nat \<times> real) option \<times> (real \<times> nat) list \<times> nat list" where
  "pop_ready now es [] rs = (None, [], rs)"
| "pop_ready now es ((available_at, offset) # ready) rs =
     (let rs1 = removeAll offset rs in
      if available_at > now then (None, heappush (available_at, offset) ready, offset # rs1)
      else case dict_get es offset of
        None \<Rightarrow> pop_ready now es ready rs1
      | Some e \<Rightarrow> if fe_token e \<noteq> None then pop_ready now es ready rs1 else (Some (offset, available_at), ready, rs1))"

definition free_entry :: "file_entry \<Rightarrow> file_entry" where
  "free_entry e = e\<lparr>fe_token := None, fe_lease_deadline := 0\<rparr>"

definition file_release_one :: "real \<Rightarrow> file_queue \<Rightarrow> nat \<times> file_entry \<Rightarrow> file_queue" where
  "file_release_one now q oe = (case oe of (offset, e) \<Rightarrow>
     if fe_token e = None \<or> fe_acked e \<or> \<not> fe_lease_deadline e \<le> now then q
     else push_ready (q\<lparr>fq_entries := dict_set offset (free_entry e) (fq_entries q)\<rparr>) offset (fe_available_at e))"

definition file_release_expired :: "file_queue \<Rightarrow> real \<Rightarrow> file_queue" where
  "file_release_expired q now = foldl (file_release_one now) q (fq_entries q)"

section \<open>The operations\<close>

definition append_line :: "nat \<Rightarrow> log_line \<Rightarrow> queue_dir \<Rightarrow> queue_dir" where
  "append_line seq l d = d\<lparr>qd_logs := dict_set seq (dict_get_or (qd_logs d) seq [] @ [l]) (qd_logs d)\<rparr>"

definition store_entry :: "file_queue \<Rightarrow> file_segment \<Rightarrow> nat \<Rightarrow> task \<Rightarrow> nat \<Rightarrow> real \<Rightarrow> file_queue" where
  "store_entry q s offset t len available_at =
     push_ready (q\<lparr>fq_dir := append_line (fs_seq s) (Record offset (VDict t) len) (fq_dir q),
       fq_by_seq := dict_set (fs_seq s) (add_record offset len s) (fq_by_seq q),
       fq_entries := dict_set offset \<lparr>fe_task = t, fe_segment_seq = fs_seq s, fe_available_at = available_at,
         fe_lease_deadline = 0, fe_token = None, fe_acked = False\<rparr> (fq_entries q)\<rparr>) offset available_at"

definition file_put :: "(nat \<Rightarrow> task \<Rightarrow> real \<Rightarrow> nat) \<Rightarrow> file_queue \<Rightarrow> task \<Rightarrow> real \<Rightarrow> real \<Rightarrow> (nat \<times> file_queue) result" where
  "file_put sz q t now_wall now_monotonic =
     (let q1 = ensure_active_segment q in
      case current_segment q1 of
        None \<Rightarrow> Inl (RuntimeError ''active segment missing after ensure'')
      | Some s \<Rightarrow>
          let (offset, q2) = allocate_offset q1;
              len = sz offset t now_wall;
              q3 = (if fq_segment_max_bytes q2 < fs_size_bytes s + len \<and> 0 < fs_record_count s then rotate_segment q2 else q2)
          in case current_segment q3 of
               None \<Rightarrow> Inl (RuntimeError ''active segment missing after rotate'')
             | Some s3 \<Rightarrow>
                 Inr (offset, maybe_rotate (store_entry q3 s3 offset t len (extract_available_at t now_wall now_monotonic))))"

lemma pop_ready_shrinks: "pop_ready now es ready rs = (Some x, ready', rs') \<Longrightarrow> length ready' < length ready"
proof (induction ready arbitrary: rs)
  case (Cons tn ready)
  then show ?case by (cases tn) (fastforce simp: Let_def split: if_splits option.splits)
qed simp

text \<open>The loop of \<^verbatim>\<open>lease\<close>, over the heap, the ready set, the entries and the token counter.\<close>

function file_lease_loop :: "real \<Rightarrow> real \<Rightarrow> nat \<Rightarrow> (real \<times> nat) list \<Rightarrow> nat list \<Rightarrow> (nat, file_entry) dict \<Rightarrow> nat
    \<Rightarrow> leased_task list \<times> (real \<times> nat) list \<times> nat list \<times> (nat, file_entry) dict \<times> nat" where
  "file_lease_loop now delta n ready rs es seq =
     (if n = 0 then ([], ready, rs, es, seq)
      else case pop_ready now es ready rs of
        (None, ready1, rs1) \<Rightarrow> ([], ready1, rs1, es, seq)
      | (Some (offset, available_at), ready1, rs1) \<Rightarrow>
          case dict_get es offset of
            None \<Rightarrow> file_lease_loop now delta n ready1 rs1 es seq
          | Some e \<Rightarrow>
              let token = lease_token (seq + 1);
                  (ls, rest) = file_lease_loop now delta (n - 1) ready1 rs1
                    (dict_set offset (e\<lparr>fe_token := Some token, fe_lease_deadline := now + delta\<rparr>) es) (seq + 1)
              in (\<lparr>lt_offset = offset, lt_task = fe_task e, lt_deadline = now + delta, lt_token = token\<rparr> # ls, rest))"
  by pat_completeness auto
termination by (relation "measure (\<lambda>(now, delta, n, ready, rs, es, seq). length ready)") (auto dest: pop_ready_shrinks[OF sym])

declare file_lease_loop.simps [simp del]

definition file_lease :: "file_queue \<Rightarrow> int \<Rightarrow> int \<Rightarrow> real \<Rightarrow> leased_task list \<times> file_queue" where
  "file_lease q n lease_ms now =
     (if n \<le> 0 then ([], q)
      else
        let q1 = file_release_expired q now;
            (ls, ready, rs, es, seq) = file_lease_loop now (real_of_int (max lease_ms 0) / 1000) (nat n)
              (fq_ready q1) (fq_ready_set q1) (fq_entries q1) (fq_lease_seq q1)
        in (ls, q1\<lparr>fq_ready := ready, fq_ready_set := rs, fq_entries := es, fq_lease_seq := seq\<rparr>))"

text \<open>The part \<^verbatim>\<open>ack\<close> and a final \<^verbatim>\<open>nack\<close> share once the segment is found.\<close>

definition finish_entry :: "file_queue \<Rightarrow> nat \<Rightarrow> file_segment \<Rightarrow> file_queue" where
  "finish_entry q offset s =
     (let s1 = segment_ack offset s in
      maybe_compact_head (q\<lparr>fq_by_seq := dict_set (fs_seq s) s1 (fq_by_seq q), fq_entries := dict_pop offset (fq_entries q),
        fq_dir := persist_segment_state s1 (fq_dir q)\<rparr>))"

definition file_ack :: "file_queue \<Rightarrow> nat \<Rightarrow> string \<Rightarrow> file_queue" where
  "file_ack q offset token = (case dict_get (fq_entries q) offset of
       None \<Rightarrow> q
     | Some e \<Rightarrow>
         if fe_token e \<noteq> Some token then q
         else case dict_get (fq_by_seq q) (fe_segment_seq e) of
           None \<Rightarrow> q
         | Some s \<Rightarrow> finish_entry q offset s)"

definition file_nack :: "file_queue \<Rightarrow> nat \<Rightarrow> string \<Rightarrow> bool \<Rightarrow> real \<Rightarrow> file_queue" where
  "file_nack q offset token requeue now = (case dict_get (fq_entries q) offset of
       None \<Rightarrow> q
     | Some e \<Rightarrow>
         if fe_token e \<noteq> Some token then q
         else if requeue then
           (let available_at = (if fe_available_at e < now then now else fe_available_at e) in
            push_ready (q\<lparr>fq_entries := dict_set offset ((free_entry e)\<lparr>fe_acked := False, fe_available_at := available_at\<rparr>) (fq_entries q)\<rparr>)
              offset available_at)
         else
           (let q1 = q\<lparr>fq_entries := dict_set offset ((free_entry e)\<lparr>fe_acked := True\<rparr>) (fq_entries q)\<rparr> in
            case dict_get (fq_by_seq q) (fe_segment_seq e) of
              None \<Rightarrow> q1
            | Some s \<Rightarrow> finish_entry q1 offset s))"

definition file_reschedule :: "file_queue \<Rightarrow> nat \<Rightarrow> real \<Rightarrow> file_queue" where
  "file_reschedule q offset available_at = (case dict_get (fq_entries q) offset of
       None \<Rightarrow> q
     | Some e \<Rightarrow>
         let q1 = q\<lparr>fq_entries := dict_set offset (e\<lparr>fe_available_at := available_at\<rparr>) (fq_entries q)\<rparr> in
         if fe_token e = None then push_ready q1 offset available_at else q1)"

definition file_pending_count :: "file_queue \<Rightarrow> nat" where
  "file_pending_count q = length (fq_entries q)"

definition waiting_times :: "file_queue \<Rightarrow> real list" where
  "waiting_times q = map (\<lambda>(_, e). fe_available_at e) (filter (\<lambda>(_, e). fe_token e = None) (fq_entries q))"

definition file_oldest_available_at :: "file_queue \<Rightarrow> real option" where
  "file_oldest_available_at q = (case waiting_times q of [] \<Rightarrow> None | c # cs \<Rightarrow> Some (foldl min c cs))"

record queue_snapshot =
  sn_backlog :: nat
  sn_pending :: nat
  sn_inflight :: nat
  sn_oldest :: "real option"

definition file_describe :: "file_queue \<Rightarrow> queue_snapshot" where
  "file_describe q =
     (let backlog = length (fq_entries q); inflight = length (filter (\<lambda>(_, e). fe_token e \<noteq> None) (fq_entries q)) in
      \<lparr>sn_backlog = backlog, sn_pending = backlog - inflight, sn_inflight = inflight,
       sn_oldest = foldl (\<lambda>oldest t. case oldest of None \<Rightarrow> Some t | Some o1 \<Rightarrow> Some (if t < o1 then t else o1)) None (waiting_times q)\<rparr>)"

section \<open>Opening a directory\<close>

text \<open>The acknowledged offsets of an index file, and whether it has to be written again.\<close>

fun load_acks :: "val list \<Rightarrow> nat list \<times> bool" where
  "load_acks [] = ([], False)"
| "load_acks (v # vs) = (let (acks, bad) = load_acks vs in case to_int v of
       None \<Rightarrow> (acks, True)
     | Some i \<Rightarrow> if i < 0 then (acks, True) else (nat i # acks, bad))"

definition load_index_metadata :: "bool \<Rightarrow> index_file \<Rightarrow> nat list \<times> bool" where
  "load_index_metadata v2 f = (case f of
       NoIndex \<Rightarrow> ([], v2)
     | Unreadable \<Rightarrow> ([], v2)
     | Index raw \<Rightarrow> (case dict_get_or raw ''acked'' (VList []) of VList vs \<Rightarrow> load_acks vs | _ \<Rightarrow> ([], True)))"

record log_scan =
  ls_queue :: file_queue
  ls_observed :: "nat list"
  ls_start :: nat
  ls_end :: int
  ls_count :: nat
  ls_pending :: nat
  ls_size :: nat

definition task_of :: "val \<Rightarrow> task" where
  "task_of v = (case v of VDict t \<Rightarrow> t | _ \<Rightarrow> [])"

definition load_entry :: "real \<Rightarrow> real \<Rightarrow> nat \<Rightarrow> nat \<Rightarrow> task \<Rightarrow> file_queue \<Rightarrow> file_queue" where
  "load_entry wall mon seq offset t q =
     (let available_at = extract_available_at t wall mon in
      push_ready (q\<lparr>fq_entries := dict_set offset \<lparr>fe_task = t, fe_segment_seq = seq, fe_available_at = available_at,
        fe_lease_deadline = 0, fe_token = None, fe_acked = False\<rparr> (fq_entries q)\<rparr>) offset available_at)"

definition scan_line :: "real \<Rightarrow> real \<Rightarrow> nat \<Rightarrow> nat list \<Rightarrow> log_scan \<Rightarrow> log_line \<Rightarrow> log_scan" where
  "scan_line wall mon seq acked sc l =
     (let sc1 = sc\<lparr>ls_size := ls_size sc + line_size l\<rparr> in
      case l of
        Record offset raw n \<Rightarrow>
          (let sc2 = sc1\<lparr>ls_observed := offset # ls_observed sc1, ls_start := (if ls_count sc1 = 0 then offset else ls_start sc1),
                 ls_end := int offset, ls_count := ls_count sc1 + 1\<rparr> in
           if offset \<in> set acked then sc2
           else sc2\<lparr>ls_pending := ls_pending sc2 + 1, ls_queue := load_entry wall mon seq offset (task_of raw) (ls_queue sc2)\<rparr>)
      | _ \<Rightarrow> sc1)"

definition build_segment_from_files :: "real \<Rightarrow> real \<Rightarrow> file_queue \<Rightarrow> nat \<Rightarrow> file_segment \<times> file_queue" where
  "build_segment_from_files wall mon q seq =
     (let (acked, needs_rewrite) = load_index_metadata (fq_v2 q) (dict_get_or (qd_indexes (fq_dir q)) seq NoIndex);
          sc = foldl (scan_line wall mon seq acked) \<lparr>ls_queue = q, ls_observed = [], ls_start = fq_next_offset q,
                 ls_end = int (fq_next_offset q) - 1, ls_count = 0, ls_pending = 0, ls_size = 0\<rparr> (dict_get_or (qd_logs (fq_dir q)) seq []);
          missing = filter (\<lambda>n. n \<notin> set (ls_observed sc)) acked;
          s = \<lparr>fs_seq = seq, fs_start_offset = (if ls_count sc = 0 then fq_next_offset q else ls_start sc), fs_end_offset = ls_end sc,
               fs_size_bytes = ls_size sc, fs_record_count = ls_count sc, fs_pending = ls_pending sc,
               fs_acked = remdups (filter (\<lambda>n. n \<in> set (ls_observed sc)) acked)\<rparr>;
          q1 = ls_queue sc
      in (s, if fq_v2 q \<and> (needs_rewrite \<or> missing \<noteq> []) then q1\<lparr>fq_dir := persist_segment_state s (fq_dir q1)\<rparr> else q1))"

text \<open>The names \<^verbatim>\<open>segment-NNNNNN.log\<close> in order: the pattern has exactly six digits.\<close>

definition segment_listing :: "queue_dir \<Rightarrow> nat list" where
  "segment_listing d = sort (filter (\<lambda>seq. seq < 1000000) (dict_keys (qd_logs d)))"

definition load_segment :: "real \<Rightarrow> real \<Rightarrow> file_queue \<times> nat \<times> int \<Rightarrow> nat \<Rightarrow> file_queue \<times> nat \<times> int" where
  "load_segment wall mon st seq = (case st of (q, max_seq, max_offset) \<Rightarrow>
     let (s, q1) = build_segment_from_files wall mon q seq in
     (q1\<lparr>fq_segments := fq_segments q1 @ [seq], fq_by_seq := dict_set seq s (fq_by_seq q1)\<rparr>, max max_seq seq, max max_offset (fs_end_offset s)))"

definition load_existing_segments :: "real \<Rightarrow> real \<Rightarrow> file_queue \<Rightarrow> file_queue \<times> nat \<times> int" where
  "load_existing_segments wall mon q =
     (let (q1, max_seq, max_offset) = foldl (load_segment wall mon) (q, 0, -1) (segment_listing (fq_dir q));
          q2 = (if 0 \<le> max_offset then q1\<lparr>fq_next_offset := nat max_offset + 1\<rparr> else q1);
          q3 = (if fq_segments q2 = [] then q2 else case dict_get (fq_by_seq q2) (last (fq_segments q2)) of
                  None \<Rightarrow> q2 | Some s \<Rightarrow> open_segment_file q2 s)
      in (q3, max_seq, max_offset))"

definition initialize_meta :: "nat \<Rightarrow> file_queue \<Rightarrow> file_queue" where
  "initialize_meta max_seq q = q\<lparr>fq_dir := (fq_dir q)\<lparr>qd_meta := raise_counter (qd_meta (fq_dir q)) max_seq\<rparr>\<rparr>"

definition initialize_offset :: "nat \<Rightarrow> file_queue \<Rightarrow> file_queue" where
  "initialize_offset v q = q\<lparr>fq_dir := (fq_dir q)\<lparr>qd_offset := raise_counter (qd_offset (fq_dir q)) v\<rparr>,
     fq_next_offset := max v (counter (qd_offset (fq_dir q)))\<rparr>"

definition closed_queue :: "bool \<Rightarrow> nat \<Rightarrow> queue_dir \<Rightarrow> file_queue" where
  "closed_queue v2 max_bytes d = \<lparr>fq_v2 = v2, fq_segment_max_bytes = max max_bytes 1024, fq_dir = d, fq_segments = [], fq_by_seq = [],
     fq_entries = [], fq_ready = [], fq_ready_set = [], fq_lease_seq = 0, fq_next_offset = 0, fq_current = None\<rparr>"

definition file_open :: "bool \<Rightarrow> nat \<Rightarrow> queue_dir \<Rightarrow> real \<Rightarrow> real \<Rightarrow> file_queue" where
  "file_open v2 max_bytes d wall mon =
     (let (q1, max_seq, max_offset) = load_existing_segments wall mon (closed_queue v2 max_bytes d);
          q2 = initialize_offset (if 0 \<le> max_offset then nat max_offset + 1 else 0) (initialize_meta max_seq q1)
      in ensure_active_segment q2)"

end
