(* ===== verification/File_Leases.thy ===== *)
theory File_Leases
  imports File_Queue
begin

text \<open>
  The leases of the file-backed queue: its heap, the lease loop and expired leases.
\<close>

section \<open>The heap\<close>

text \<open>
  The heap holds exactly the offsets of the entries that are not leased, each once, and the ready
  set is the set of its offsets.
\<close>

definition heap_ok :: "(nat, file_entry) dict \<Rightarrow> (real \<times> nat) list \<Rightarrow> nat list \<Rightarrow> bool" where
  "heap_ok es ready rs \<longleftrightarrow> dict_wf es \<and> sorted ready \<and> distinct (map snd ready) \<and> set rs = snd ` set ready \<and>
     (\<forall>off. off \<in> snd ` set ready \<longleftrightarrow> (\<exists>e. dict_get es off = Some e \<and> fe_token e = None)) \<and>
     (\<forall>off e. dict_get es off = Some e \<longrightarrow> \<not> fe_acked e)"

lemma heap_okI:
  assumes "dict_wf es" "sorted ready" "distinct (map snd ready)" "set rs = snd ` set ready"
    "\<And>off. off \<in> snd ` set ready \<longleftrightarrow> (\<exists>e. dict_get es off = Some e \<and> fe_token e = None)"
    "\<And>off e. dict_get es off = Some e \<Longrightarrow> \<not> fe_acked e"
  shows "heap_ok es ready rs"
  using assms unfolding heap_ok_def by blast

lemma heap_okD:
  assumes "heap_ok es ready rs"
  shows "dict_wf es" "sorted ready" "distinct (map snd ready)" "set rs = snd ` set ready"
    "off \<in> snd ` set ready \<longleftrightarrow> (\<exists>e. dict_get es off = Some e \<and> fe_token e = None)"
    "dict_get es off = Some e \<Longrightarrow> \<not> fe_acked e"
  using assms unfolding heap_ok_def by blast+

abbreviation queue_heap_ok :: "file_queue \<Rightarrow> bool" where
  "queue_heap_ok q \<equiv> heap_ok (fq_entries q) (fq_ready q) (fq_ready_set q)"

text \<open>What the heap does not touch.\<close>

lemma push_ready_simps [simp]:
  "fq_entries (push_ready q off t) = fq_entries q" "fq_dir (push_ready q off t) = fq_dir q" "fq_segments (push_ready q off t) = fq_segments q"
  "fq_by_seq (push_ready q off t) = fq_by_seq q" "fq_current (push_ready q off t) = fq_current q"
  "fq_segment_max_bytes (push_ready q off t) = fq_segment_max_bytes q" "fq_v2 (push_ready q off t) = fq_v2 q"
  "fq_next_offset (push_ready q off t) = fq_next_offset q" "fq_lease_seq (push_ready q off t) = fq_lease_seq q"
  by (simp_all add: push_ready_def)

lemma heap_push:
  assumes ok: "queue_heap_ok q" and e: "fe_token e = None" "\<not> fe_acked e"
    and q': "fq_entries q' = dict_set off e (fq_entries q)" "fq_ready q' = fq_ready q" "fq_ready_set q' = fq_ready_set q"
  shows "queue_heap_ok (push_ready q' off t)"
proof -
  note D = heap_okD[OF ok]
  have tok: "(\<exists>x. dict_get (fq_entries q') o1 = Some x \<and> fe_token x = None) \<longleftrightarrow> o1 = off \<or> o1 \<in> snd ` set (fq_ready q)" for o1
    using D(5)[of o1] e(1) by (auto simp: q' dict_simps)
  have na: "\<not> fe_acked x" if "dict_get (fq_entries q') o1 = Some x" for o1 x
    using that D(6)[of o1 x] e(2) by (auto simp: q' dict_simps split: if_splits)
  have wf: "dict_wf (fq_entries q')" using D(1) by (simp add: q')
  show ?thesis
  proof (cases "off \<in> set (fq_ready_set q)")
    case True
    then have "heap_ok (fq_entries q') (fq_ready q) (fq_ready_set q)" using D(2-4) tok na wf by (intro heap_okI) auto
    then show ?thesis using True by (simp add: push_ready_def q')
  next
    case False
    then have "heap_ok (fq_entries q') (heappush (t, off) (fq_ready q)) (off # fq_ready_set q)"
      using D(2-4) tok na wf by (intro heap_okI) (auto simp: distinct_snd_insort set_insort_key sorted_insort)
    then show ?thesis using False by (simp add: push_ready_def q')
  qed
qed

lemma heap_same_token:
  assumes ok: "heap_ok es ready rs" and e: "dict_get es off = Some e" "fe_token e' = fe_token e" "\<not> fe_acked e'"
  shows "heap_ok (dict_set off e' es) ready rs"
proof (rule heap_okI)
  note D = heap_okD[OF ok]
  fix o1
  show "o1 \<in> snd ` set ready \<longleftrightarrow> (\<exists>x. dict_get (dict_set off e' es) o1 = Some x \<and> fe_token x = None)"
    using D(5)[of o1] e by (auto simp: dict_simps)
  fix x assume "dict_get (dict_set off e' es) o1 = Some x"
  then show "\<not> fe_acked x" using D(6)[of o1 x] e(3) by (auto simp: dict_simps split: if_splits)
qed (use heap_okD[OF ok] in auto)

lemma heap_drop_leased:
  assumes ok: "heap_ok es ready rs" and e: "dict_get es off = Some e" "fe_token e \<noteq> None"
  shows "heap_ok (dict_pop off es) ready rs"
proof (rule heap_okI)
  note D = heap_okD[OF ok]
  fix o1
  show "o1 \<in> snd ` set ready \<longleftrightarrow> (\<exists>x. dict_get (dict_pop off es) o1 = Some x \<and> fe_token x = None)"
    using D(5)[of o1] e by (auto simp: dict_simps)
  fix x assume "dict_get (dict_pop off es) o1 = Some x"
  then show "\<not> fe_acked x" using D(6)[of o1 x] by (auto simp: dict_simps split: if_splits)
qed (use heap_okD[OF ok] in auto)

section \<open>Leasing\<close>

lemma pop_ready_cases:
  assumes ok: "heap_ok es ready rs"
  obtains (none) rs1 where "pop_ready now es ready rs = (None, ready, rs1)" "heap_ok es ready rs1" "\<And>t off. (t, off) \<in> set ready \<Longrightarrow> now < t"
  | (some) t off e ready1 where "pop_ready now es ready rs = (Some (off, t), ready1, removeAll off rs)" "ready = (t, off) # ready1" "t \<le> now"
      "dict_get es off = Some e" "fe_token e = None"
proof (cases ready)
  case Nil
  then show ?thesis using that(1)[of rs] ok by simp
next
  case (Cons p ready1)
  obtain t off where p: "p = (t, off)" by (cases p)
  note D = heap_okD[OF ok]
  obtain e where e: "dict_get es off = Some e" "fe_token e = None" using D(5)[of off] Cons p by auto
  show ?thesis
  proof (cases "now < t")
    case True
    have first: "heappush (t, off) ready1 = (t, off) # ready1" using D(2) Cons p by (intro insort_is_Cons) auto
    have "heap_ok es ready (off # removeAll off rs)" using D Cons p by (intro heap_okI) auto
    moreover have "now < t'" if "(t', o1) \<in> set ready" for t' o1
      using D(2) Cons p that True by (auto simp: less_eq_prod_def)
    ultimately show ?thesis using that(1)[of "off # removeAll off rs"] True first Cons p by (simp add: Let_def)
  next
    case False
    then show ?thesis using that(2)[of off t ready1 e] e Cons p by (simp add: Let_def)
  qed
qed

definition leased_entry :: "string \<Rightarrow> real \<Rightarrow> file_entry \<Rightarrow> file_entry" where
  "leased_entry token deadline e = e\<lparr>fe_token := Some token, fe_lease_deadline := deadline\<rparr>"

lemma leased_entry_simps [simp]:
  "fe_token (leased_entry tok d e) = Some tok" "fe_task (leased_entry tok d e) = fe_task e" "fe_acked (leased_entry tok d e) = fe_acked e"
  "fe_segment_seq (leased_entry tok d e) = fe_segment_seq e" "fe_lease_deadline (leased_entry tok d e) = d"
  by (simp_all add: leased_entry_def)

lemma heap_lease:
  assumes ok: "heap_ok es ((t, off) # ready) rs" and e: "dict_get es off = Some e"
  shows "heap_ok (dict_set off (leased_entry tok d e) es) ready (removeAll off rs)"
proof (rule heap_okI)
  note D = heap_okD[OF ok]
  have off: "off \<notin> snd ` set ready" using D(3) by auto
  fix o1
  show "o1 \<in> snd ` set ready \<longleftrightarrow> (\<exists>x. dict_get (dict_set off (leased_entry tok d e) es) o1 = Some x \<and> fe_token x = None)"
    using D(5)[of o1] off by (auto simp: dict_simps)
  fix x assume "dict_get (dict_set off (leased_entry tok d e) es) o1 = Some x"
  then show "\<not> fe_acked x" using D(6)[of o1 x] D(6)[OF e] by (auto simp: dict_simps split: if_splits)
qed (use heap_okD[OF ok] in auto)

text \<open>The segment and the task of each entry, which leases never change.\<close>

definition content :: "(nat, file_entry) dict \<Rightarrow> nat \<Rightarrow> (nat \<times> task) option" where
  "content es off = map_option (\<lambda>e. (fe_segment_seq e, fe_task e)) (dict_get es off)"

lemma content_set: "content (dict_set off e es) = (content es)(off \<mapsto> (fe_segment_seq e, fe_task e))"
  by (auto simp: content_def dict_simps fun_eq_iff)

lemma content_pop: "content (dict_pop off es) = (content es)(off := None)"
  by (auto simp: content_def dict_simps fun_eq_iff)

lemma content_keep:
  "dict_get es off = Some e \<Longrightarrow> fe_segment_seq e' = fe_segment_seq e \<Longrightarrow> fe_task e' = fe_task e \<Longrightarrow> content (dict_set off e' es) = content es"
  by (auto simp: content_def dict_simps fun_eq_iff)

definition lease_of :: "real \<Rightarrow> (nat, file_entry) dict \<Rightarrow> (real \<times> nat) list \<Rightarrow> (nat, file_entry) dict \<Rightarrow> leased_task \<Rightarrow> bool" where
  "lease_of now es ready es' l \<longleftrightarrow> (\<exists>t. (t, lt_offset l) \<in> set ready \<and> t \<le> now) \<and>
     (\<exists>e'. dict_get es' (lt_offset l) = Some e' \<and> fe_task e' = lt_task l \<and> fe_token e' = Some (lt_token l) \<and> fe_lease_deadline e' = lt_deadline l)"

lemma lease_loop_spec:
  assumes "heap_ok es ready rs" and "file_lease_loop now delta n ready rs es seq = (ls, ready', rs', es', seq')"
  shows "heap_ok es' ready' rs' \<and> content es' = content es \<and> distinct (map lt_offset ls) \<and> (\<forall>l\<in>set ls. lease_of now es ready es' l) \<and>
    (\<forall>off. off \<notin> lt_offset ` set ls \<longrightarrow> dict_get es' off = dict_get es off) \<and>
    (length ready \<le> n \<longrightarrow> (\<forall>(t, off)\<in>set ready. t \<le> now \<longrightarrow> off \<in> lt_offset ` set ls))"
  using assms
proof (induction now delta n ready rs es seq arbitrary: ls ready' rs' es' seq' rule: file_lease_loop.induct)
  case (1 now delta n ready rs es seq)
  show ?case
  proof (cases "n = 0")
    case True
    then show ?thesis using 1(3,4) by (auto simp: file_lease_loop.simps[of _ _ 0])
  next
    case n: False
    from 1(3) show ?thesis
    proof (cases rule: pop_ready_cases[where now = now])
      case (none rs1)
      then show ?thesis using 1(4) n by (subst (asm) file_lease_loop.simps) fastforce
    next
      case (some t off e ready1)
      let ?tok = "lease_token (seq + 1)"
      let ?es = "dict_set off (leased_entry ?tok (now + delta) e) es"
      obtain ls1 where rec: "file_lease_loop now delta (n - 1) ready1 (removeAll off rs) ?es (seq + 1) = (ls1, ready', rs', es', seq')"
        and ls: "ls = \<lparr>lt_offset = off, lt_task = fe_task e, lt_deadline = now + delta, lt_token = ?tok\<rparr> # ls1"
        using 1(4) n some(1,4) by (subst (asm) file_lease_loop.simps) (auto simp: leased_entry_def Let_def split: prod.splits)
      have hp: "heap_ok ?es ready1 (removeAll off rs)" using heap_lease[of es t off ready1 rs e] 1(3) some by simp
      note IH = 1(2)[OF n some(1)[symmetric] refl refl refl some(4) refl, folded leased_entry_def, OF hp rec]
      have off: "off \<notin> snd ` set ready1" using heap_okD(3)[OF 1(3)] some(2) by auto
      have out: "lt_offset ` set ls1 \<subseteq> snd ` set ready1" using IH unfolding lease_of_def by force
      have mine: "dict_get es' off = Some (leased_entry ?tok (now + delta) e)"
      proof -
        have "off \<notin> lt_offset ` set ls1" using off out by blast
        then show ?thesis using IH by (simp add: dict_simps)
      qed
      have "content es' = content es" using IH content_keep[OF some(4), of "leased_entry ?tok (now + delta) e"] by simp
      moreover have "distinct (map lt_offset ls)" using IH off out ls by auto
      moreover have "\<forall>l\<in>set ls. lease_of now es ready es' l" using IH mine ls some(2,3) by (auto simp: lease_of_def)
      moreover have "\<forall>o1. o1 \<notin> lt_offset ` set ls \<longrightarrow> dict_get es' o1 = dict_get es o1" using IH ls by (auto simp: dict_simps)
      moreover have "length ready \<le> n \<longrightarrow> (\<forall>(t, o1)\<in>set ready. t \<le> now \<longrightarrow> o1 \<in> lt_offset ` set ls)" using IH ls some(2) by fastforce
      ultimately show ?thesis using IH by blast
    qed
  qed
qed

text \<open>The parts of the queue that only \<^verbatim>\<open>put\<close>, \<^verbatim>\<open>ack\<close> and a final \<^verbatim>\<open>nack\<close> change.\<close>

definition same_store :: "file_queue \<Rightarrow> file_queue \<Rightarrow> bool" where
  "same_store q q' \<longleftrightarrow> fq_dir q' = fq_dir q \<and> fq_segments q' = fq_segments q \<and> fq_by_seq q' = fq_by_seq q \<and> fq_current q' = fq_current q \<and>
     content (fq_entries q') = content (fq_entries q)"

lemma same_store_trans: "same_store q q1 \<Longrightarrow> same_store q1 q2 \<Longrightarrow> same_store q q2"
  by (simp add: same_store_def)

definition file_expired :: "real \<Rightarrow> file_entry \<Rightarrow> bool" where
  "file_expired now e \<longleftrightarrow> \<not> (fe_token e = None \<or> fe_acked e \<or> \<not> fe_lease_deadline e \<le> now)"

lemma free_entry_simps [simp]:
  "fe_token (free_entry e) = None" "fe_task (free_entry e) = fe_task e" "fe_segment_seq (free_entry e) = fe_segment_seq e"
  "fe_acked (free_entry e) = fe_acked e" "fe_available_at (free_entry e) = fe_available_at e"
  by (simp_all add: free_entry_def)

lemma release_one_spec:
  assumes "queue_heap_ok q" and "dict_get (fq_entries q) off = Some e"
  shows "queue_heap_ok (file_release_one now q (off, e))" "same_store q (file_release_one now q (off, e))"
    "dict_get (fq_entries (file_release_one now q (off, e))) o1 =
       (if o1 = off then Some (if file_expired now e then free_entry e else e) else dict_get (fq_entries q) o1)"
proof -
  have "queue_heap_ok (push_ready (q\<lparr>fq_entries := dict_set off (free_entry e) (fq_entries q)\<rparr>) off (fe_available_at e))"
    by (rule heap_push[OF assms(1), of "free_entry e"]) (use heap_okD(6)[OF assms] in simp_all)
  then show "queue_heap_ok (file_release_one now q (off, e))" using assms(1) by (simp add: file_release_one_def)
  show "same_store q (file_release_one now q (off, e))"
    using content_keep[OF assms(2), of "free_entry e"] by (simp add: file_release_one_def same_store_def)
  show "dict_get (fq_entries (file_release_one now q (off, e))) o1 =
      (if o1 = off then Some (if file_expired now e then free_entry e else e) else dict_get (fq_entries q) o1)"
    using assms(2) by (simp add: file_release_one_def file_expired_def dict_simps)
qed

lemma release_fold:
  assumes "queue_heap_ok q" and "distinct (map fst oes)" and "\<And>off e. (off, e) \<in> set oes \<Longrightarrow> dict_get (fq_entries q) off = Some e"
  shows "queue_heap_ok (foldl (file_release_one now) q oes) \<and> same_store q (foldl (file_release_one now) q oes) \<and>
    (\<forall>off. dict_get (fq_entries (foldl (file_release_one now) q oes)) off = (case dict_get oes off of
       None \<Rightarrow> dict_get (fq_entries q) off | Some e \<Rightarrow> Some (if file_expired now e then free_entry e else e)))"
  using assms
proof (induction oes arbitrary: q)
  case Nil
  then show ?case by (simp add: same_store_def)
next
  case (Cons oe oes)
  obtain off e where oe: "oe = (off, e)" by (cases oe)
  let ?q = "file_release_one now q oe"
  have "dict_get (fq_entries q) off = Some e" using Cons.prems(3) oe by simp
  note one = release_one_spec[OF Cons.prems(1) this, of now, folded oe]
  have "off \<notin> fst ` set oes" using Cons.prems(2) oe by simp
  then have none: "dict_get oes off = None" by (simp add: dict_get_None_iff)
  have "dict_get (fq_entries ?q) o' = Some e'" if "(o', e') \<in> set oes" for o' e'
    using one(3)[of o'] Cons.prems(3)[of o' e'] that \<open>off \<notin> fst ` set oes\<close> by force
  note IH = Cons.IH[OF one(1) _ this]
  show ?case using IH Cons.prems(2) one(2,3) none same_store_trans[OF one(2)] unfolding oe by (auto split: option.splits)
qed

lemma release_expired_ok:
  assumes "queue_heap_ok q"
  shows "queue_heap_ok (file_release_expired q now)" "same_store q (file_release_expired q now)"
    "dict_get (fq_entries (file_release_expired q now)) off =
       map_option (\<lambda>e. if file_expired now e then free_entry e else e) (dict_get (fq_entries q) off)"
proof -
  have "dict_wf (fq_entries q)" using heap_okD(1)[OF assms] .
  then have "(o1, e) \<in> set (fq_entries q) \<Longrightarrow> dict_get (fq_entries q) o1 = Some e" for o1 e by simp
  note f = release_fold[OF assms \<open>dict_wf (fq_entries q)\<close> this, of now]
  show "queue_heap_ok (file_release_expired q now)" "same_store q (file_release_expired q now)"
    "dict_get (fq_entries (file_release_expired q now)) off =
       map_option (\<lambda>e. if file_expired now e then free_entry e else e) (dict_get (fq_entries q) off)"
    using f by (auto simp: file_release_expired_def split: option.splits)
qed

lemma file_lease_spec:
  assumes ok: "queue_heap_ok q" and r: "file_lease q n ms now = (ls, q')"
  shows "queue_heap_ok q' \<and> same_store q q'" and "distinct (map lt_offset ls)"
    and "l \<in> set ls \<Longrightarrow> \<exists>e e'. dict_get (fq_entries q) (lt_offset l) = Some e \<and> (fe_token e = None \<or> fe_lease_deadline e \<le> now) \<and>
      dict_get (fq_entries q') (lt_offset l) = Some e' \<and> fe_task e' = lt_task l \<and> fe_token e' = Some (lt_token l)"
proof -
  let ?q = "file_release_expired q now"
  note R = release_expired_ok[OF ok, of now]
  have "(queue_heap_ok q' \<and> same_store q q') \<and> distinct (map lt_offset ls) \<and>
    (\<forall>l\<in>set ls. \<exists>e e'. dict_get (fq_entries q) (lt_offset l) = Some e \<and> (fe_token e = None \<or> fe_lease_deadline e \<le> now) \<and>
      dict_get (fq_entries q') (lt_offset l) = Some e' \<and> fe_task e' = lt_task l \<and> fe_token e' = Some (lt_token l))"
  proof (cases "n \<le> 0")
    case True
    then show ?thesis using ok r by (auto simp: file_lease_def same_store_def)
  next
    case False
    obtain ready rs es seq where loop: "file_lease_loop now (real_of_int (max ms 0) / 1000) (nat n) (fq_ready ?q) (fq_ready_set ?q)
        (fq_entries ?q) (fq_lease_seq ?q) = (ls, ready, rs, es, seq)"
      and q': "q' = ?q\<lparr>fq_ready := ready, fq_ready_set := rs, fq_entries := es, fq_lease_seq := seq\<rparr>"
      using r False by (auto simp: file_lease_def Let_def split: prod.splits)
    note L = lease_loop_spec[OF R(1) loop]
    have "\<exists>e e'. dict_get (fq_entries q) (lt_offset l) = Some e \<and> (fe_token e = None \<or> fe_lease_deadline e \<le> now) \<and>
      dict_get es (lt_offset l) = Some e' \<and> fe_task e' = lt_task l \<and> fe_token e' = Some (lt_token l)" if l: "l \<in> set ls" for l
    proof -
      have lo: "lease_of now (fq_entries ?q) (fq_ready ?q) es l" using L l by blast
      then have "lt_offset l \<in> snd ` set (fq_ready ?q)" unfolding lease_of_def by force
      then obtain e1 where e1: "dict_get (fq_entries ?q) (lt_offset l) = Some e1" "fe_token e1 = None" using heap_okD(5)[OF R(1)] by blast
      then obtain e where e: "dict_get (fq_entries q) (lt_offset l) = Some e" "e1 = (if file_expired now e then free_entry e else e)"
        using R(3)[of "lt_offset l"] by (cases "dict_get (fq_entries q) (lt_offset l)") auto
      then have "fe_token e = None \<or> fe_lease_deadline e \<le> now" using e1(2) by (auto simp: file_expired_def split: if_splits)
      then show ?thesis using e(1) lo unfolding lease_of_def by blast
    qed
    moreover have "same_store q q'" using R(2) L by (simp add: same_store_def q')
    ultimately show ?thesis using L q' by simp
  qed
  then show "queue_heap_ok q' \<and> same_store q q'" "distinct (map lt_offset ls)"
    "l \<in> set ls \<Longrightarrow> \<exists>e e'. dict_get (fq_entries q) (lt_offset l) = Some e \<and> (fe_token e = None \<or> fe_lease_deadline e \<le> now) \<and>
      dict_get (fq_entries q') (lt_offset l) = Some e' \<and> fe_task e' = lt_task l \<and> fe_token e' = Some (lt_token l)" by auto
qed

end
