(* ===== verification/File_Store.thy ===== *)
theory File_Store
  imports File_Leases
begin

text \<open>
  The file-backed queue and its directory: the invariant that ties them, that every operation keeps
  it, and that the queue meets the contract of a work queue.
\<close>

section \<open>What a directory says\<close>

definition records :: "log_line list \<Rightarrow> (nat \<times> task) list" where
  "records ls = concat (map (\<lambda>l. case l of Record off v n \<Rightarrow> [(off, task_of v)] | _ \<Rightarrow> []) ls)"

lemma records_simps [simp]:
  "records [] = []" "records (Record off v n # ls) = (off, task_of v) # records ls" "records (Blank n # ls) = records ls"
  "records (Garbage n # ls) = records ls" "records (ls @ ls') = records ls @ records ls'"
  by (simp_all add: records_def)

definition acks_of :: "index_file \<Rightarrow> nat set" where
  "acks_of f = set (fst (load_index_metadata False f))"

lemma load_index_acks: "set (fst (load_index_metadata v2 f)) = acks_of f"
  by (simp add: acks_of_def load_index_metadata_def split: index_file.splits)

lemma load_acks_ints: "load_acks (map (\<lambda>n. VInt (int n)) ns) = (ns, False)"
  by (induction ns) (simp_all add: to_int_def)

lemma acks_of_simps [simp]: "acks_of NoIndex = {}" "acks_of Unreadable = {}" "acks_of (Index (segment_index s)) = set (fs_acked s)"
  by (simp_all add: acks_of_def load_index_metadata_def segment_index_def dict_get_or_def load_acks_ints)

abbreviation dir_log :: "queue_dir \<Rightarrow> nat \<Rightarrow> (nat \<times> task) list" where
  "dir_log d seq \<equiv> records (dict_get_or (qd_logs d) seq [])"

abbreviation dir_acks :: "queue_dir \<Rightarrow> nat \<Rightarrow> nat set" where
  "dir_acks d seq \<equiv> acks_of (dict_get_or (qd_indexes d) seq NoIndex)"

definition live_at :: "queue_dir \<Rightarrow> nat \<Rightarrow> nat \<Rightarrow> task \<Rightarrow> bool" where
  "live_at d seq off t \<longleftrightarrow> (off, t) \<in> set (dir_log d seq) \<and> off \<notin> dir_acks d seq"

definition waiting :: "queue_dir \<Rightarrow> nat \<Rightarrow> nat" where
  "waiting d seq = length (filter (\<lambda>(off, _). off \<notin> dir_acks d seq) (dir_log d seq))"

text \<open>
  A well-formed directory: segment numbers and offsets are below the counters, no offset is written
  twice, only offsets of its own segment are acknowledged in an index, and numbers not yet used have
  no index.
\<close>

definition dir_ok :: "queue_dir \<Rightarrow> bool" where
  "dir_ok d \<longleftrightarrow> dict_wf (qd_logs d) \<and> (\<forall>seq\<in>set (dict_keys (qd_logs d)). seq \<le> counter (qd_meta d) \<and> dir_acks d seq \<subseteq> fst ` set (dir_log d seq)) \<and>
     (\<forall>seq>counter (qd_meta d). dir_acks d seq = {}) \<and>
     (\<forall>seq. distinct (map fst (dir_log d seq)) \<and> (\<forall>off\<in>fst ` set (dir_log d seq). off < counter (qd_offset d))) \<and>
     (\<forall>seq seq'. seq \<noteq> seq' \<longrightarrow> fst ` set (dir_log d seq) \<inter> fst ` set (dir_log d seq') = {})"

lemma dir_okI:
  assumes "dict_wf (qd_logs d)" "\<And>seq. seq \<in> set (dict_keys (qd_logs d)) \<Longrightarrow> seq \<le> counter (qd_meta d)"
    "\<And>seq. seq \<in> set (dict_keys (qd_logs d)) \<Longrightarrow> dir_acks d seq \<subseteq> fst ` set (dir_log d seq)"
    "\<And>seq. counter (qd_meta d) < seq \<Longrightarrow> dir_acks d seq = {}" "\<And>seq. distinct (map fst (dir_log d seq))"
    "\<And>seq off. off \<in> fst ` set (dir_log d seq) \<Longrightarrow> off < counter (qd_offset d)"
    "\<And>seq seq'. seq \<noteq> seq' \<Longrightarrow> fst ` set (dir_log d seq) \<inter> fst ` set (dir_log d seq') = {}"
  shows "dir_ok d"
  using assms unfolding dir_ok_def by blast

lemma dir_okD:
  assumes "dir_ok d"
  shows "dict_wf (qd_logs d)" "seq \<in> set (dict_keys (qd_logs d)) \<Longrightarrow> seq \<le> counter (qd_meta d)"
    "seq \<in> set (dict_keys (qd_logs d)) \<Longrightarrow> dir_acks d seq \<subseteq> fst ` set (dir_log d seq)"
    "counter (qd_meta d) < seq \<Longrightarrow> dir_acks d seq = {}" "distinct (map fst (dir_log d seq))"
    "off \<in> fst ` set (dir_log d seq) \<Longrightarrow> off < counter (qd_offset d)"
    "seq \<noteq> seq' \<Longrightarrow> fst ` set (dir_log d seq) \<inter> fst ` set (dir_log d seq') = {}"
  using assms unfolding dir_ok_def by meson+

text \<open>Segments \<open>segs\<close> are loaded: their objects and the entries say what the directory says.\<close>

definition segment_ok :: "queue_dir \<Rightarrow> nat \<Rightarrow> file_segment \<Rightarrow> bool" where
  "segment_ok d seq s \<longleftrightarrow> fs_seq s = seq \<and> set (fs_acked s) = dir_acks d seq \<and> fs_pending s = waiting d seq"

definition loaded :: "queue_dir \<Rightarrow> nat list \<Rightarrow> (nat, file_segment) dict \<Rightarrow> (nat \<Rightarrow> (nat \<times> task) option) \<Rightarrow> bool" where
  "loaded d segs tab con \<longleftrightarrow> distinct segs \<and> set (dict_keys tab) = set segs \<and> (\<forall>seq s. dict_get tab seq = Some s \<longrightarrow> segment_ok d seq s) \<and>
     (\<forall>off seq t. con off = Some (seq, t) \<longleftrightarrow> seq \<in> set segs \<and> live_at d seq off t)"

lemma loadedI:
  assumes "distinct segs" "set (dict_keys tab) = set segs" "\<And>seq s. dict_get tab seq = Some s \<Longrightarrow> segment_ok d seq s"
    "\<And>off seq t. con off = Some (seq, t) \<longleftrightarrow> seq \<in> set segs \<and> live_at d seq off t"
  shows "loaded d segs tab con"
  using assms unfolding loaded_def by blast

lemma loadedD:
  assumes "loaded d segs tab con"
  shows "distinct segs" "set (dict_keys tab) = set segs" "dict_get tab seq = Some s \<Longrightarrow> segment_ok d seq s"
    "con off = Some (seq, t) \<longleftrightarrow> seq \<in> set segs \<and> live_at d seq off t"
  using assms unfolding loaded_def by blast+

definition synced :: "file_queue \<Rightarrow> bool" where
  "synced q \<longleftrightarrow> dir_ok (fq_dir q) \<and> loaded (fq_dir q) (fq_segments q) (fq_by_seq q) (content (fq_entries q)) \<and>
     set (fq_segments q) = set (dict_keys (qd_logs (fq_dir q)))"

definition store_ok :: "file_queue \<Rightarrow> bool" where
  "store_ok q \<longleftrightarrow> synced q \<and> (\<exists>c\<in>set (fq_segments q). fq_current q = Some c)"

lemma syncedD:
  assumes "synced q"
  shows "dir_ok (fq_dir q)" "loaded (fq_dir q) (fq_segments q) (fq_by_seq q) (content (fq_entries q))"
    "set (fq_segments q) = set (dict_keys (qd_logs (fq_dir q)))"
  using assms unfolding synced_def by blast+

definition file_inv :: "file_queue \<Rightarrow> bool" where
  "file_inv q \<longleftrightarrow> queue_heap_ok q \<and> store_ok q"

lemma store_same: "same_store q q' \<Longrightarrow> store_ok q \<Longrightarrow> store_ok q'"
  unfolding same_store_def store_ok_def synced_def by metis

section \<open>Rotation\<close>

lemma rotate_simps [simp]:
  "fq_entries (rotate_segment q) = fq_entries q" "fq_ready (rotate_segment q) = fq_ready q" "fq_ready_set (rotate_segment q) = fq_ready_set q"
  by (simp_all add: rotate_segment_def allocate_segment_seq_def open_segment_file_def Let_def)

text \<open>A directory with the same records and acknowledgements says the same.\<close>

lemma says_same:
  assumes "\<And>seq. dir_log d' seq = dir_log d seq" "\<And>seq. dir_acks d' seq = dir_acks d seq"
  shows "live_at d' seq off t = live_at d seq off t" "waiting d' seq = waiting d seq" "segment_ok d' seq s = segment_ok d seq s"
  using assms by (simp_all add: live_at_def waiting_def segment_ok_def)

lemma get_or_setdefault: "dict_get_or (dict_setdefault k v d) k' v = dict_get_or d k' v"
  by (simp add: dict_get_or_def dict_simps split: option.splits)

lemma dir_ok_add_log:
  assumes "dir_ok d" "qd_logs d' = dict_setdefault seq [] (qd_logs d)" "qd_indexes d' = qd_indexes d" "qd_offset d' = qd_offset d"
    "counter (qd_meta d) \<le> counter (qd_meta d')" "seq \<le> counter (qd_meta d')" "dir_acks d seq = {}"
  shows "dir_ok d'"
proof (rule dir_okI)
  note D = dir_okD[OF assms(1)]
  have log: "dir_log d' s = dir_log d s" for s by (simp add: assms(2) get_or_setdefault)
  have keys: "set (dict_keys (qd_logs d')) = insert seq (set (dict_keys (qd_logs d)))" unfolding assms(2) dict_keys_setdefault ..
  show "dict_wf (qd_logs d')" using D(1) assms(2) by simp
  show "s \<le> counter (qd_meta d')" if "s \<in> set (dict_keys (qd_logs d'))" for s using that D(2)[of s] assms(5,6) unfolding keys by (auto simp del: set_map)
  show "dir_acks d' s \<subseteq> fst ` set (dir_log d' s)" if "s \<in> set (dict_keys (qd_logs d'))" for s
    using that D(3)[of s] assms(3,7) unfolding keys log by (auto simp del: set_map)
  show "dir_acks d' s = {}" if "counter (qd_meta d') < s" for s using that D(4)[of s] assms(3,5) by simp
  show "distinct (map fst (dir_log d' s))" for s unfolding log by (rule D(5))
  show "off < counter (qd_offset d')" if "off \<in> fst ` set (dir_log d' s)" for s off using that D(6)[of off s] assms(4) unfolding log by simp
  show "fst ` set (dir_log d' s) \<inter> fst ` set (dir_log d' s') = {}" if "s \<noteq> s'" for s s' unfolding log using D(7)[OF that] .
qed

lemma rotate_store:
  assumes "synced q"
  shows "store_ok (rotate_segment q)" "qd_offset (fq_dir (rotate_segment q)) = qd_offset (fq_dir q)"
    "counter (qd_meta (fq_dir (rotate_segment q))) = counter (qd_meta (fq_dir q)) + 1"
proof -
  let ?d = "fq_dir q" and ?seq = "counter (qd_meta (fq_dir q)) + 1" and ?q = "rotate_segment q"
  let ?d' = "fq_dir ?q"
  note S = syncedD[OF assms]
  note L = loadedD[OF S(2)]
  have d': "?d' = ?d\<lparr>qd_meta := Some ?seq, qd_logs := dict_setdefault ?seq [] (qd_logs ?d)\<rparr>"
    and segs: "fq_segments ?q = fq_segments q @ [?seq]" and cur: "fq_current ?q = Some ?seq"
    by (simp_all add: rotate_segment_def allocate_segment_seq_def open_segment_file_def new_segment_def Let_def)
  then show "qd_offset ?d' = qd_offset ?d" "counter (qd_meta ?d') = counter (qd_meta ?d) + 1" by (simp_all add: counter_def)
  have new: "?seq \<notin> set (dict_keys (qd_logs ?d))" using dir_okD(2)[OF S(1), of ?seq] by linarith
  have acks: "dir_acks ?d ?seq = {}" using dir_okD(4)[OF S(1), of ?seq] by simp
  have ok: "dir_ok ?d'" by (rule dir_ok_add_log[OF S(1), of _ ?seq]) (use acks d' in \<open>simp_all add: counter_def\<close>)
  have same: "live_at ?d' s off t = live_at ?d s off t" "waiting ?d' s = waiting ?d s" "segment_ok ?d' s x = segment_ok ?d s x" for s off t x
    by (rule says_same; simp add: d' get_or_setdefault)+
  have empty: "dir_log ?d ?seq = []" using new by (simp add: dict_get_or_def dict_get_None_iff[THEN iffD2])
  have "loaded ?d' (fq_segments ?q) (fq_by_seq ?q) (content (fq_entries ?q))"
  proof (rule loadedI)
    show "distinct (fq_segments ?q)" using L(1) new S(3) segs by auto
    have tab: "\<exists>s. segment_ok ?d ?seq s \<and> fq_by_seq ?q = dict_set ?seq s (dict_set ?seq (new_segment ?seq (fq_next_offset q)) (fq_by_seq q))"
      using acks empty by (intro exI[of _ "(new_segment ?seq (fq_next_offset q))\<lparr>fs_size_bytes := log_size (dict_get_or (dict_setdefault ?seq [] (qd_logs ?d)) ?seq [])\<rparr>"])
        (simp add: rotate_segment_def allocate_segment_seq_def open_segment_file_def new_segment_def Let_def segment_ok_def waiting_def)
    then show "set (dict_keys (fq_by_seq ?q)) = set (fq_segments ?q)" using L(2) by (auto simp del: set_map simp: segs dict_keys_set)
    show "segment_ok ?d' s x" if "dict_get (fq_by_seq ?q) s = Some x" for s x
      using that tab L(3)[of s x] unfolding same by (auto simp: dict_simps split: if_splits)
    show "content (fq_entries ?q) off = Some (s, t) \<longleftrightarrow> s \<in> set (fq_segments ?q) \<and> live_at ?d' s off t" for off s t
      using L(4)[of off s t] empty unfolding same by (auto simp: segs live_at_def)
  qed
  moreover have "set (fq_segments ?q) = set (dict_keys (qd_logs ?d'))" unfolding d' segs using S(3) dict_keys_setdefault[of ?seq "[]" "qd_logs ?d"] by simp
  moreover have "?seq \<in> set (fq_segments ?q)" by (simp add: segs)
  ultimately show "store_ok ?q" unfolding store_ok_def synced_def using ok cur by blast
qed

lemma maybe_rotate_inv:
  assumes "file_inv q"
  shows "file_inv (maybe_rotate q)" "fq_entries (maybe_rotate q) = fq_entries q" "qd_offset (fq_dir (maybe_rotate q)) = qd_offset (fq_dir q)"
    "counter (qd_meta (fq_dir q)) \<le> counter (qd_meta (fq_dir (maybe_rotate q)))"
  using assms rotate_store[of q] by (auto simp: maybe_rotate_def file_inv_def store_ok_def split: option.splits)

section \<open>Putting a task\<close>

lemma allocate_store:
  assumes "store_ok q" and "allocate_offset q = (off, q')"
  shows "store_ok q'" "off < counter (qd_offset (fq_dir q'))" "\<And>seq. off \<notin> fst ` set (dir_log (fq_dir q') seq)" "counter (qd_offset (fq_dir q')) = off + 1"
    "off = counter (qd_offset (fq_dir q))"
proof -
  let ?d = "fq_dir q" and ?d' = "fq_dir q'"
  have S: "synced q" "\<exists>c\<in>set (fq_segments q). fq_current q = Some c" using assms(1) by (simp_all only: store_ok_def)
  note D = dir_okD[OF syncedD(1)[OF S(1)]]
  have d': "?d' = ?d\<lparr>qd_offset := Some (off + 1)\<rparr>" and off: "off = counter (qd_offset ?d)" and
    rest: "fq_segments q' = fq_segments q" "fq_by_seq q' = fq_by_seq q" "fq_entries q' = fq_entries q" "fq_current q' = fq_current q"
    using assms(2) by (auto simp: allocate_offset_def Let_def)
  have "dir_ok ?d'"
  proof (rule dir_okI)
    show "o1 < counter (qd_offset ?d')" if "o1 \<in> fst ` set (dir_log ?d' s)" for s o1
      using that D(6)[of o1 s] off by (simp add: d' counter_def)
  qed (use D in \<open>simp_all add: d' del: set_map\<close>)
  moreover have "live_at ?d' s o1 t = live_at ?d s o1 t" "segment_ok ?d' s x = segment_ok ?d s x" for s o1 t x
    by (rule says_same; simp add: d')+
  ultimately have "synced q'" using S(1) unfolding synced_def loaded_def rest by (simp add: d')
  then show "store_ok q'" using S(2) unfolding store_ok_def rest by blast
  show "off < counter (qd_offset ?d')" "counter (qd_offset ?d') = off + 1" by (simp_all add: d' counter_def)
  show "off \<notin> fst ` set (dir_log ?d' seq)" for seq using D(6)[of off seq] off by (auto simp: d')
qed (use assms(2) in \<open>auto simp: allocate_offset_def Let_def\<close>)

lemma append_line_says:
  "qd_indexes (append_line seq l d) = qd_indexes d" "qd_meta (append_line seq l d) = qd_meta d" "qd_offset (append_line seq l d) = qd_offset d"
  "dir_log (append_line seq (Record off v n) d) s = dir_log d s @ (if s = seq then [(off, task_of v)] else [])"
  by (simp_all add: append_line_def dict_get_or_def dict_simps)

lemma dir_ok_append:
  assumes "dir_ok d" "seq \<in> set (dict_keys (qd_logs d))" "off < counter (qd_offset d)" "\<And>s. off \<notin> fst ` set (dir_log d s)"
  shows "dir_ok (append_line seq (Record off v n) d)" "set (dict_keys (qd_logs (append_line seq (Record off v n) d))) = set (dict_keys (qd_logs d))"
proof -
  let ?d = "append_line seq (Record off v n) d"
  note D = dir_okD[OF assms(1)]
  show keys: "set (dict_keys (qd_logs ?d)) = set (dict_keys (qd_logs d))" using assms(2) unfolding append_line_def by (auto simp: dict_keys_set simp del: set_map)
  show "dir_ok ?d"
  proof (rule dir_okI)
    show "dict_wf (qd_logs ?d)" using D(1) by (simp add: append_line_def)
    show "dir_acks ?d s \<subseteq> fst ` set (dir_log ?d s)" if "s \<in> set (dict_keys (qd_logs ?d))" for s
      using D(3)[of s] that unfolding keys by (auto simp: append_line_says simp del: set_map)
    show "distinct (map fst (dir_log ?d s))" for s using D(5)[of s] assms(4)[of s] by (cases "s = seq") (simp_all add: append_line_says)
    show "fst ` set (dir_log ?d s) \<inter> fst ` set (dir_log ?d s') = {}" if "s \<noteq> s'" for s s'
      using D(7)[OF that] assms(4)[of s] assms(4)[of s'] that by (auto simp: append_line_says) force+
    show "o1 < counter (qd_offset ?d)" if "o1 \<in> fst ` set (dir_log ?d s)" for s o1
      using D(6)[of o1 s] that assms(3) by (auto simp: append_line_says split: if_splits)
    show "s \<le> counter (qd_meta ?d)" if "s \<in> set (dict_keys (qd_logs ?d))" for s using that D(2)[of s] unfolding keys by (simp add: append_line_says)
    show "dir_acks ?d s = {}" if "counter (qd_meta ?d) < s" for s using that D(4)[of s] by (simp add: append_line_says)
  qed
qed

lemma store_entry_simps [simp]:
  "fq_entries (store_entry q s off t n av) = dict_set off \<lparr>fe_task = t, fe_segment_seq = fs_seq s, fe_available_at = av,
     fe_lease_deadline = 0, fe_token = None, fe_acked = False\<rparr> (fq_entries q)"
  "fq_dir (store_entry q s off t n av) = append_line (fs_seq s) (Record off (VDict t) n) (fq_dir q)"
  "fq_segments (store_entry q s off t n av) = fq_segments q" "fq_current (store_entry q s off t n av) = fq_current q"
  "fq_by_seq (store_entry q s off t n av) = dict_set (fs_seq s) (add_record off n s) (fq_by_seq q)"
  by (simp_all add: store_entry_def)

lemma current_segmentD:
  assumes "store_ok q"
  shows "\<exists>s. current_segment q = Some s \<and> fs_seq s \<in> set (fq_segments q) \<and> dict_get (fq_by_seq q) (fs_seq s) = Some s"
proof -
  obtain c where c: "c \<in> set (fq_segments q)" "fq_current q = Some c" and S: "synced q" using assms unfolding store_ok_def by blast
  note L = loadedD[OF syncedD(2)[OF S]]
  have "c \<in> set (dict_keys (fq_by_seq q))" using c(1) L(2) by blast
  then obtain s where s: "dict_get (fq_by_seq q) c = Some s" by (cases "dict_get (fq_by_seq q) c") (simp_all add: dict_get_None_iff)
  have "fs_seq s = c" using L(3)[OF s] by (simp add: segment_ok_def)
  then show ?thesis using c s by (simp add: current_segment_def)
qed

lemma store_entry_store:
  assumes "store_ok q" and "fs_seq s \<in> set (fq_segments q)" "dict_get (fq_by_seq q) (fs_seq s) = Some s"
    and "off < counter (qd_offset (fq_dir q))" "\<And>seq. off \<notin> fst ` set (dir_log (fq_dir q) seq)"
  shows "store_ok (store_entry q s off t n av)"
proof -
  let ?d = "fq_dir q" and ?q = "store_entry q s off t n av"
  let ?d' = "append_line (fs_seq s) (Record off (VDict t) n) (fq_dir q)"
  have S: "synced q" "\<exists>c\<in>set (fq_segments q). fq_current q = Some c" using assms(1) by (simp_all only: store_ok_def)
  note Y = syncedD[OF S(1)]
  note L = loadedD[OF Y(2)]
  have key: "fs_seq s \<in> set (dict_keys (qd_logs ?d))" using assms(2) Y(3) by blast
  note ok = dir_ok_append[OF Y(1) key assms(4,5), of "VDict t" n]
  have noack: "off \<notin> dir_acks ?d (fs_seq s)" using dir_okD(3)[OF Y(1) key] assms(5)[of "fs_seq s"] by blast
  have live: "live_at ?d' x o1 t' \<longleftrightarrow> live_at ?d x o1 t' \<or> x = fs_seq s \<and> o1 = off \<and> t' = t" for x o1 t'
    using noack by (auto simp: live_at_def append_line_says task_of_def)
  have wait: "waiting ?d' x = waiting ?d x + (if x = fs_seq s then 1 else 0)" for x using noack by (simp add: waiting_def append_line_says)
  have fresh: "\<not> live_at ?d x off t'" for x t' using assms(5)[of x] by (force simp: live_at_def)
  have "loaded ?d' (fq_segments q) (fq_by_seq ?q) (content (fq_entries ?q))"
  proof (rule loadedI)
    show "distinct (fq_segments q)" by (rule L(1))
    show "set (dict_keys (fq_by_seq ?q)) = set (fq_segments q)" using L(2) assms(2) by (auto simp: dict_keys_set simp del: set_map)
    show "segment_ok ?d' x s'" if g: "dict_get (fq_by_seq ?q) x = Some s'" for x s'
    proof (cases "x = fs_seq s")
      case True
      then have "s' = add_record off n s" using g by (simp add: dict_simps)
      then show ?thesis using L(3)[OF assms(3)] True by (simp add: segment_ok_def wait append_line_says add_record_def)
    next
      case False
      then show ?thesis using L(3)[of x s'] g by (simp add: dict_simps segment_ok_def wait append_line_says)
    qed
    show "content (fq_entries ?q) o1 = Some (x, t') \<longleftrightarrow> x \<in> set (fq_segments q) \<and> live_at ?d' x o1 t'" for o1 x t'
      using L(4)[of o1 x t'] assms(2) fresh by (auto simp: content_set live)
  qed
  then have "synced ?q" unfolding synced_def using ok Y(3) by (simp del: set_map)
  then show ?thesis unfolding store_ok_def using S(2) by simp
qed

lemma file_put_spec:
  assumes inv: "file_inv q"
  shows "\<exists>off q' e. file_put sz q t wall mon = Inr (off, q') \<and> file_inv q' \<and> dict_get (fq_entries q) off = None \<and>
    fq_entries q' = dict_set off e (fq_entries q) \<and> fe_task e = t \<and> fe_token e = None \<and>
    off = counter (qd_offset (fq_dir q)) \<and> counter (qd_offset (fq_dir q')) = off + 1 \<and> counter (qd_meta (fq_dir q)) \<le> counter (qd_meta (fq_dir q'))"
proof -
  have h: "queue_heap_ok q" and st: "store_ok q" using inv by (simp_all add: file_inv_def)
  obtain s where s: "current_segment q = Some s" using current_segmentD[OF st] by blast
  have act: "ensure_active_segment q = q" using st by (auto simp: ensure_active_segment_def store_ok_def)
  obtain off q2 where al: "allocate_offset q = (off, q2)" by (cases "allocate_offset q")
  note A = allocate_store[OF st al]
  define q3 where "q3 = (if fq_segment_max_bytes q2 < fs_size_bytes s + sz off t wall \<and> 0 < fs_record_count s then rotate_segment q2 else q2)"
  have syn: "synced q2" using A(1) by (simp add: store_ok_def)
  have st3: "store_ok q3" using rotate_store(1)[OF syn] A(1) by (simp add: q3_def)
  have off3: "qd_offset (fq_dir q3) = qd_offset (fq_dir q2)" using rotate_store(2)[OF syn] by (simp add: q3_def)
  have mem: "fq_entries q3 = fq_entries q" "fq_ready q3 = fq_ready q" "fq_ready_set q3 = fq_ready_set q"
    using al by (auto simp: q3_def allocate_offset_def Let_def)
  have log3: "off \<notin> fst ` set (dir_log (fq_dir q3) x)" for x
    using A(3)[of x] by (simp add: q3_def rotate_segment_def allocate_segment_seq_def open_segment_file_def Let_def get_or_setdefault)
  obtain s3 where s3: "current_segment q3 = Some s3" "fs_seq s3 \<in> set (fq_segments q3)" "dict_get (fq_by_seq q3) (fs_seq s3) = Some s3"
    using current_segmentD[OF st3] by blast
  let ?av = "extract_available_at t wall mon"
  let ?q4 = "store_entry q3 s3 off t (sz off t wall) ?av"
  have st4: "store_ok ?q4" by (rule store_entry_store[OF st3 s3(2,3)]) (use A(2) off3 log3 in simp_all)
  have h3: "queue_heap_ok q3" using h by (simp add: mem)
  have "queue_heap_ok ?q4" unfolding store_entry_def
    by (rule heap_push[OF h3, of "\<lparr>fe_task = t, fe_segment_seq = fs_seq s3, fe_available_at = ?av, fe_lease_deadline = 0, fe_token = None, fe_acked = False\<rparr>"]) simp_all
  then have inv4: "file_inv ?q4" using st4 by (simp add: file_inv_def)
  have put: "file_put sz q t wall mon = Inr (off, maybe_rotate ?q4)" using s act al s3(1) by (simp add: file_put_def Let_def q3_def)
  have "dict_get (fq_entries q) off = None"
  proof (rule ccontr)
    assume "dict_get (fq_entries q) off \<noteq> None"
    then obtain seq t' where "content (fq_entries q3) off = Some (seq, t')" by (auto simp: content_def mem)
    then have "live_at (fq_dir q3) seq off t'" using st3 loadedD(4) syncedD(2) unfolding store_ok_def by blast
    then show False using log3[of seq] by (force simp: live_at_def)
  qed
  moreover have "counter (qd_offset (fq_dir (maybe_rotate ?q4))) = off + 1"
    using maybe_rotate_inv(3)[OF inv4] off3 A(4) by (simp add: append_line_says)
  moreover have "counter (qd_meta (fq_dir q)) \<le> counter (qd_meta (fq_dir (maybe_rotate ?q4)))"
  proof -
    have "qd_meta (fq_dir q2) = qd_meta (fq_dir q)" using al by (auto simp: allocate_offset_def Let_def)
    then have "counter (qd_meta (fq_dir q)) \<le> counter (qd_meta (fq_dir q3))" using rotate_store(3)[OF syn] by (simp add: q3_def)
    then show ?thesis using maybe_rotate_inv(4)[OF inv4] by (simp add: append_line_says)
  qed
  ultimately show ?thesis using put maybe_rotate_inv(1,2)[OF inv4] A(5) mem(1) by auto
qed

section \<open>Finishing a task\<close>

lemma waiting_0: "waiting d seq = 0 \<longleftrightarrow> (\<forall>off t. \<not> live_at d seq off t)"
  by (auto simp: waiting_def live_at_def filter_empty_conv)

lemma one_less_waiting:
  assumes "distinct (map fst xs)" "(off, t) \<in> set xs" "off \<notin> A"
  shows "length (filter (\<lambda>(o1, _). o1 \<notin> insert off A) xs) = length (filter (\<lambda>(o1, _). o1 \<notin> A) xs) - 1"
  using assms
proof (induction xs)
  case (Cons x xs)
  obtain o1 t1 where x: "x = (o1, t1)" by (cases x)
  show ?case
  proof (cases "o1 = off")
    case True
    then have "off \<notin> fst ` set xs" using Cons.prems(1) x by simp
    then have "filter (\<lambda>(o1, _). o1 \<notin> insert off A) xs = filter (\<lambda>(o1, _). o1 \<notin> A) xs" by (intro filter_cong) force+
    then show ?thesis using True Cons.prems(3) x by simp
  next
    case False
    have "(off, t) \<in> set xs" using Cons.prems(2) False x by auto
    then have "0 < length (filter (\<lambda>(o1, _). o1 \<notin> A) xs)" using Cons.prems(3) by (auto simp: filter_empty_conv)
    then show ?thesis using Cons False x \<open>(off, t) \<in> set xs\<close> by simp
  qed
qed simp

lemma persist_says:
  "qd_logs (persist_segment_state s d) = qd_logs d" "qd_meta (persist_segment_state s d) = qd_meta d" "qd_offset (persist_segment_state s d) = qd_offset d"
  "dir_acks (persist_segment_state s d) seq = (if seq = fs_seq s then set (fs_acked s) else dir_acks d seq)"
  by (simp_all add: persist_segment_state_def dict_get_or_def dict_simps)

lemma dir_ok_persist:
  assumes "dir_ok d" "fs_seq s \<in> set (dict_keys (qd_logs d))" "set (fs_acked s) \<subseteq> fst ` set (dir_log d (fs_seq s))"
  shows "dir_ok (persist_segment_state s d)"
proof (rule dir_okI)
  let ?d = "persist_segment_state s d"
  note D = dir_okD[OF assms(1)]
  show "dir_acks ?d x \<subseteq> fst ` set (dir_log ?d x)" if "x \<in> set (dict_keys (qd_logs ?d))" for x
    using D(3)[of x] that assms(3) by (cases "x = fs_seq s") (simp_all add: persist_says del: set_map)
  show "dir_acks ?d x = {}" if "counter (qd_meta ?d) < x" for x using that D(4)[of x] D(2)[OF assms(2)] by (auto simp: persist_says)
qed (use dir_okD[OF assms(1)] in \<open>simp_all add: persist_says del: set_map\<close>)

lemma finish_synced:
  assumes q: "store_ok q" and con: "content (fq_entries q) off = Some (seq, t)" and s: "dict_get (fq_by_seq q) seq = Some s"
    and q': "fq_dir q' = persist_segment_state (segment_ack off s) (fq_dir q)" "fq_by_seq q' = dict_set seq (segment_ack off s) (fq_by_seq q)"
      "content (fq_entries q') = (content (fq_entries q))(off := None)" "fq_segments q' = fq_segments q" "fq_current q' = fq_current q"
  shows "store_ok q'"
proof -
  let ?d = "fq_dir q" and ?s = "segment_ack off s"
  have S: "synced q" "\<exists>c\<in>set (fq_segments q). fq_current q = Some c" using q by (simp_all only: store_ok_def)
  note Y = syncedD[OF S(1)]
  note L = loadedD[OF Y(2)]
  have sok: "fs_seq s = seq" "set (fs_acked s) = dir_acks ?d seq" "fs_pending s = waiting ?d seq" using L(3)[OF s] by (simp_all add: segment_ok_def)
  have live: "seq \<in> set (fq_segments q)" "live_at ?d seq off t" using L(4) con by auto
  then have off: "(off, t) \<in> set (dir_log ?d seq)" "off \<notin> dir_acks ?d seq" by (simp_all add: live_at_def)
  have s': "fs_seq ?s = seq" "set (fs_acked ?s) = insert off (dir_acks ?d seq)" "fs_pending ?s = waiting ?d seq - 1"
    using sok off(2) by (simp_all add: segment_ack_def)
  have key: "seq \<in> set (dict_keys (qd_logs ?d))" using live(1) Y(3) by blast
  have "set (fs_acked ?s) \<subseteq> fst ` set (dir_log ?d seq)" using s'(2) off(1) dir_okD(3)[OF Y(1) key] by force
  then have ok: "dir_ok (fq_dir q')" unfolding q' using dir_ok_persist[OF Y(1), of ?s] key s'(1) by blast
  have lv: "live_at (fq_dir q') x o1 t' \<longleftrightarrow> live_at ?d x o1 t' \<and> \<not> (x = seq \<and> o1 = off)" for x o1 t'
    using s' by (auto simp: live_at_def q' persist_says)
  have "waiting (fq_dir q') seq = waiting ?d seq - 1"
    using one_less_waiting[OF dir_okD(5)[OF Y(1)] off] s' by (simp add: waiting_def q' persist_says)
  then have wt: "waiting (fq_dir q') x = (if x = seq then waiting ?d seq - 1 else waiting ?d x)" for x
    using s'(1) by (cases "x = seq") (simp_all add: waiting_def q' persist_says)
  have "loaded (fq_dir q') (fq_segments q') (fq_by_seq q') (content (fq_entries q'))"
  proof (rule loadedI)
    show "distinct (fq_segments q')" using L(1) by (simp add: q')
    show "set (dict_keys (fq_by_seq q')) = set (fq_segments q')" using L(2) live(1) by (auto simp: q' dict_keys_set simp del: set_map)
    show "segment_ok (fq_dir q') x s2" if "dict_get (fq_by_seq q') x = Some s2" for x s2
      using that L(3)[of x s2] s' wt[of x] by (cases "x = seq") (auto simp: q' dict_simps segment_ok_def persist_says)
    show "content (fq_entries q') o1 = Some (x, t') \<longleftrightarrow> x \<in> set (fq_segments q') \<and> live_at (fq_dir q') x o1 t'" for o1 x t'
      using L(4)[of o1 x t'] con unfolding lv by (auto simp: q')
  qed
  then have "synced q'" unfolding synced_def using ok Y(3) by (simp add: q' persist_says del: set_map)
  then show ?thesis unfolding store_ok_def using S(2) by (simp add: q')
qed

section \<open>Compaction\<close>

lemma remove_says:
  "qd_meta (remove_segment_files seq d) = qd_meta d" "qd_offset (remove_segment_files seq d) = qd_offset d"
  "dir_log (remove_segment_files seq d) x = (if x = seq then [] else dir_log d x)"
  "dir_acks (remove_segment_files seq d) x = (if x = seq then {} else dir_acks d x)"
  "set (dict_keys (qd_logs (remove_segment_files seq d))) = set (dict_keys (qd_logs d)) - {seq}"
  by (simp_all add: remove_segment_files_def dict_get_or_def dict_simps del: set_map)

lemma dir_ok_remove:
  assumes "dir_ok d"
  shows "dir_ok (remove_segment_files seq d)"
proof (rule dir_okI)
  let ?d = "remove_segment_files seq d"
  note D = dir_okD[OF assms]
  show "dict_wf (qd_logs ?d)" using D(1) by (simp add: remove_segment_files_def)
  show "x \<le> counter (qd_meta ?d)" "dir_acks ?d x \<subseteq> fst ` set (dir_log ?d x)" if "x \<in> set (dict_keys (qd_logs ?d))" for x
    using D(2,3)[of x] that unfolding remove_says by auto
  show "dir_acks ?d x = {}" if "counter (qd_meta ?d) < x" for x using D(4)[of x] that by (simp add: remove_says)
  show "distinct (map fst (dir_log ?d x))" for x using D(5)[of x] by (simp add: remove_says)
  show "off < counter (qd_offset ?d)" if "off \<in> fst ` set (dir_log ?d x)" for off x using D(6)[of off x] that by (simp add: remove_says split: if_splits)
  show "fst ` set (dir_log ?d x) \<inter> fst ` set (dir_log ?d x') = {}" if "x \<noteq> x'" for x x' using D(7)[OF that] by (simp add: remove_says)
qed

lemma compact_store:
  assumes "store_ok (q\<lparr>fq_segments := segs\<rparr>)"
  shows "store_ok (compact_loop q segs) \<and> fq_entries (compact_loop q segs) = fq_entries q \<and> fq_ready (compact_loop q segs) = fq_ready q \<and>
    fq_ready_set (compact_loop q segs) = fq_ready_set q \<and> qd_offset (fq_dir (compact_loop q segs)) = qd_offset (fq_dir q) \<and>
    qd_meta (fq_dir (compact_loop q segs)) = qd_meta (fq_dir q)"
  using assms
proof (induction q segs rule: compact_loop.induct)
  case (2 q seq seqs)
  show ?case
  proof (cases "dict_get (fq_by_seq q) seq")
    case (Some s)
    show ?thesis
    proof (cases "0 < fs_pending s \<or> fq_current q = Some seq")
      case False
      let ?d = "fq_dir q" and ?q = "q\<lparr>fq_dir := remove_segment_files seq (fq_dir q), fq_by_seq := dict_pop seq (fq_by_seq q)\<rparr>"
      have S: "synced (q\<lparr>fq_segments := seq # seqs\<rparr>)" "\<exists>c\<in>set (seq # seqs). fq_current q = Some c"
        using 2(2) by (simp_all add: store_ok_def)
      have Y: "dir_ok ?d" "loaded ?d (seq # seqs) (fq_by_seq q) (content (fq_entries q))" "set (seq # seqs) = set (dict_keys (qd_logs ?d))"
        using syncedD[OF S(1)] by simp_all
      note L = loadedD[OF Y(2)]
      have "waiting ?d seq = 0" using L(3)[OF Some] False by (simp add: segment_ok_def)
      then have none: "\<not> live_at ?d seq off t" for off t using waiting_0 by blast
      have lv: "live_at (fq_dir ?q) x off t \<longleftrightarrow> live_at ?d x off t \<and> x \<noteq> seq" for x off t by (auto simp: live_at_def remove_says)
      have "loaded (fq_dir ?q) seqs (fq_by_seq ?q) (content (fq_entries ?q))"
      proof (rule loadedI)
        show "distinct seqs" using L(1) by simp
        show "set (dict_keys (fq_by_seq ?q)) = set seqs" using L(1,2) by (auto simp: dict_keys_pop simp del: set_map)
        show "segment_ok (fq_dir ?q) x s2" if "dict_get (fq_by_seq ?q) x = Some s2" for x s2
          using that L(3)[of x s2] by (auto simp: dict_simps segment_ok_def remove_says waiting_def split: if_splits)
        show "content (fq_entries ?q) off = Some (x, t) \<longleftrightarrow> x \<in> set seqs \<and> live_at (fq_dir ?q) x off t" for off x t
          using L(4)[of off x t] L(1) none lv by auto
      qed
      moreover have "set seqs = set (dict_keys (qd_logs (fq_dir ?q)))" using Y(3) L(1) by (auto simp: remove_says simp del: set_map)
      ultimately have "synced (?q\<lparr>fq_segments := seqs\<rparr>)" unfolding synced_def using dir_ok_remove[OF Y(1)] by simp
      then have "store_ok (?q\<lparr>fq_segments := seqs\<rparr>)" unfolding store_ok_def using S(2) False by auto
      then show ?thesis using 2(1)[OF Some False] Some False by (simp add: remove_says)
    qed (use 2(2) Some in simp)
  qed (use 2(2) in simp)
qed simp

lemma finish_entry_spec:
  assumes inv: "heap_ok (dict_pop off (fq_entries q)) (fq_ready q) (fq_ready_set q)" "store_ok q" and e: "dict_get (fq_entries q) off = Some e"
    and s: "dict_get (fq_by_seq q) (fe_segment_seq e) = Some s"
  shows "file_inv (finish_entry q off s)" "fq_entries (finish_entry q off s) = dict_pop off (fq_entries q)"
    "qd_offset (fq_dir (finish_entry q off s)) = qd_offset (fq_dir q)" "qd_meta (fq_dir (finish_entry q off s)) = qd_meta (fq_dir q)"
proof -
  let ?q = "q\<lparr>fq_by_seq := dict_set (fs_seq s) (segment_ack off s) (fq_by_seq q), fq_entries := dict_pop off (fq_entries q),
        fq_dir := persist_segment_state (segment_ack off s) (fq_dir q)\<rparr>"
  have con: "content (fq_entries q) off = Some (fe_segment_seq e, fe_task e)" using e by (simp add: content_def)
  have "synced q" using inv(2) by (simp add: store_ok_def)
  then have seq: "fs_seq s = fe_segment_seq e" using loadedD(3)[OF syncedD(2) s] by (simp add: segment_ok_def)
  have "store_ok ?q" by (rule finish_synced[OF inv(2) con s]) (simp_all add: content_pop seq)
  then have C: "store_ok (compact_loop ?q (fq_segments ?q)) \<and> fq_entries (compact_loop ?q (fq_segments ?q)) = fq_entries ?q \<and>
    fq_ready (compact_loop ?q (fq_segments ?q)) = fq_ready ?q \<and> fq_ready_set (compact_loop ?q (fq_segments ?q)) = fq_ready_set ?q \<and>
    qd_offset (fq_dir (compact_loop ?q (fq_segments ?q))) = qd_offset (fq_dir ?q) \<and> qd_meta (fq_dir (compact_loop ?q (fq_segments ?q))) = qd_meta (fq_dir ?q)"
    by (intro compact_store) simp
  have f: "finish_entry q off s = compact_loop ?q (fq_segments ?q)" by (simp add: finish_entry_def maybe_compact_head_def Let_def)
  show "file_inv (finish_entry q off s)" "fq_entries (finish_entry q off s) = dict_pop off (fq_entries q)"
    "qd_offset (fq_dir (finish_entry q off s)) = qd_offset (fq_dir q)" "qd_meta (fq_dir (finish_entry q off s)) = qd_meta (fq_dir q)"
    unfolding f using C inv(1) by (simp_all add: file_inv_def persist_says)
qed

section \<open>The contract of a work queue\<close>

definition file_view :: "file_queue \<Rightarrow> queue_view" where
  "file_view q off = map_option (\<lambda>e. (fe_task e, fe_token e)) (dict_get (fq_entries q) off)"

lemma entry_segment:
  assumes "store_ok q" and "dict_get (fq_entries q) off = Some e"
  shows "\<exists>s. dict_get (fq_by_seq q) (fe_segment_seq e) = Some s"
proof -
  have L: "loaded (fq_dir q) (fq_segments q) (fq_by_seq q) (content (fq_entries q))" using assms(1) syncedD(2) by (simp add: store_ok_def)
  have "fe_segment_seq e \<in> set (fq_segments q)" using loadedD(4)[OF L, of off "fe_segment_seq e" "fe_task e"] assms(2) by (simp add: content_def)
  then have "fe_segment_seq e \<in> set (dict_keys (fq_by_seq q))" using loadedD(2)[OF L] by blast
  then show ?thesis by (cases "dict_get (fq_by_seq q) (fe_segment_seq e)") (simp_all add: dict_get_None_iff)
qed

lemma file_ack_spec:
  assumes "file_inv q"
  shows "file_inv (file_ack q off token)" "file_view (file_ack q off token) =
    (if \<exists>t. file_view q off = Some (t, Some token) then (file_view q)(off := None) else file_view q)"
    "qd_offset (fq_dir (file_ack q off token)) = qd_offset (fq_dir q) \<and> qd_meta (fq_dir (file_ack q off token)) = qd_meta (fq_dir q)"
proof -
  have h: "queue_heap_ok q" and st: "store_ok q" using assms by (simp_all add: file_inv_def)
  have "file_inv (file_ack q off token) \<and> file_view (file_ack q off token) =
    (if \<exists>t. file_view q off = Some (t, Some token) then (file_view q)(off := None) else file_view q) \<and>
    qd_offset (fq_dir (file_ack q off token)) = qd_offset (fq_dir q) \<and> qd_meta (fq_dir (file_ack q off token)) = qd_meta (fq_dir q)"
  proof (cases "\<exists>e. dict_get (fq_entries q) off = Some e \<and> fe_token e = Some token")
    case True
    then obtain e where e: "dict_get (fq_entries q) off = Some e" "fe_token e = Some token" by blast
    obtain s where s: "dict_get (fq_by_seq q) (fe_segment_seq e) = Some s" using entry_segment[OF st e(1)] by blast
    have "file_ack q off token = finish_entry q off s" using e s by (simp add: file_ack_def)
    then show ?thesis using finish_entry_spec[OF heap_drop_leased[OF h e(1)] st e(1) s] e
      by (auto simp: file_view_def dict_simps fun_eq_iff)
  next
    case False
    then have "file_ack q off token = q" by (auto simp: file_ack_def split: option.splits)
    moreover have "\<not> (\<exists>t. file_view q off = Some (t, Some token))" using False by (auto simp: file_view_def)
    ultimately show ?thesis using assms by simp
  qed
  then show "file_inv (file_ack q off token)" "file_view (file_ack q off token) =
    (if \<exists>t. file_view q off = Some (t, Some token) then (file_view q)(off := None) else file_view q)"
    "qd_offset (fq_dir (file_ack q off token)) = qd_offset (fq_dir q) \<and> qd_meta (fq_dir (file_ack q off token)) = qd_meta (fq_dir q)" by auto
qed

lemma file_inv_entry:
  assumes "file_inv q" "dict_get (fq_entries q) off = Some e" "fe_token e' = None" "\<not> fe_acked e'" "fe_task e' = fe_task e" "fe_segment_seq e' = fe_segment_seq e"
  shows "file_inv (push_ready (q\<lparr>fq_entries := dict_set off e' (fq_entries q)\<rparr>) off t)"
proof -
  let ?q = "push_ready (q\<lparr>fq_entries := dict_set off e' (fq_entries q)\<rparr>) off t"
  have h: "queue_heap_ok q" and st: "store_ok q" using assms(1) by (simp_all add: file_inv_def)
  have "queue_heap_ok ?q" by (rule heap_push[OF h assms(3,4)]) simp_all
  moreover have "same_store q ?q" using content_keep[OF assms(2,6,5)] by (simp add: same_store_def)
  ultimately show ?thesis using store_same[OF _ st] by (simp add: file_inv_def)
qed

lemma file_nack_spec:
  assumes "file_inv q"
  shows "file_inv (file_nack q off token requeue now)" "file_view (file_nack q off token requeue now) =
    (case file_view q off of
       Some (t, Some token') \<Rightarrow> if token' = token then (file_view q)(off := if requeue then Some (t, None) else None) else file_view q
     | _ \<Rightarrow> file_view q)"
    "qd_offset (fq_dir (file_nack q off token requeue now)) = qd_offset (fq_dir q) \<and> qd_meta (fq_dir (file_nack q off token requeue now)) = qd_meta (fq_dir q)"
proof -
  have h: "queue_heap_ok q" and st: "store_ok q" using assms by (simp_all add: file_inv_def)
  have "file_inv (file_nack q off token requeue now) \<and> file_view (file_nack q off token requeue now) =
    (case file_view q off of
       Some (t, Some token') \<Rightarrow> if token' = token then (file_view q)(off := if requeue then Some (t, None) else None) else file_view q
     | _ \<Rightarrow> file_view q) \<and>
    qd_offset (fq_dir (file_nack q off token requeue now)) = qd_offset (fq_dir q) \<and> qd_meta (fq_dir (file_nack q off token requeue now)) = qd_meta (fq_dir q)"
  proof (cases "\<exists>e. dict_get (fq_entries q) off = Some e \<and> fe_token e = Some token")
    case True
    then obtain e where e: "dict_get (fq_entries q) off = Some e" "fe_token e = Some token" by blast
    show ?thesis
    proof (cases requeue)
      case True
      define av where "av = (if fe_available_at e < now then now else fe_available_at e)"
      let ?e = "(free_entry e)\<lparr>fe_acked := False, fe_available_at := av\<rparr>"
      have n: "file_nack q off token requeue now = push_ready (q\<lparr>fq_entries := dict_set off ?e (fq_entries q)\<rparr>) off av"
        using e True by (simp add: file_nack_def av_def Let_def)
      show ?thesis unfolding n using file_inv_entry[OF assms e(1), of ?e] e True by (auto simp: file_view_def dict_simps fun_eq_iff)
    next
      case False
      let ?e = "(free_entry e)\<lparr>fe_acked := True\<rparr>" and ?q = "q\<lparr>fq_entries := dict_set off ((free_entry e)\<lparr>fe_acked := True\<rparr>) (fq_entries q)\<rparr>"
      obtain s where s: "dict_get (fq_by_seq q) (fe_segment_seq e) = Some s" using entry_segment[OF st e(1)] by blast
      have n: "file_nack q off token requeue now = finish_entry ?q off s" using e s False by (simp add: file_nack_def Let_def)
      have "same_store q ?q" using content_keep[OF e(1), of ?e] by (simp add: same_store_def)
      moreover have "dict_pop off (fq_entries ?q) = dict_pop off (fq_entries q)" by (simp add: delete_update_same)
      ultimately have "file_inv (finish_entry ?q off s)" "fq_entries (finish_entry ?q off s) = dict_pop off (fq_entries q)"
          "qd_offset (fq_dir (finish_entry ?q off s)) = qd_offset (fq_dir q)" "qd_meta (fq_dir (finish_entry ?q off s)) = qd_meta (fq_dir q)"
        using finish_entry_spec[of off ?q ?e s] heap_drop_leased[OF h e(1)] e store_same[OF _ st] s by (simp_all add: dict_simps)
      then show ?thesis unfolding n using e False by (auto simp: file_view_def dict_simps fun_eq_iff)
    qed
  next
    case False
    then have "file_nack q off token requeue now = q" by (auto simp: file_nack_def split: option.splits)
    moreover have "file_view q off \<noteq> Some (t, Some token)" for t using False by (auto simp: file_view_def)
    ultimately show ?thesis using assms by (auto split: option.splits)
  qed
  then show "file_inv (file_nack q off token requeue now)" "file_view (file_nack q off token requeue now) =
    (case file_view q off of
       Some (t, Some token') \<Rightarrow> if token' = token then (file_view q)(off := if requeue then Some (t, None) else None) else file_view q
     | _ \<Rightarrow> file_view q)"
    "qd_offset (fq_dir (file_nack q off token requeue now)) = qd_offset (fq_dir q) \<and> qd_meta (fq_dir (file_nack q off token requeue now)) = qd_meta (fq_dir q)" by auto
qed

lemma file_reschedule_spec:
  assumes "file_inv q"
  shows "file_inv (file_reschedule q off t)" "file_view (file_reschedule q off t) = file_view q"
    "qd_offset (fq_dir (file_reschedule q off t)) = qd_offset (fq_dir q) \<and> qd_meta (fq_dir (file_reschedule q off t)) = qd_meta (fq_dir q)"
proof -
  have h: "queue_heap_ok q" and st: "store_ok q" using assms by (simp_all add: file_inv_def)
  have "file_inv (file_reschedule q off t) \<and> file_view (file_reschedule q off t) = file_view q \<and> fq_dir (file_reschedule q off t) = fq_dir q"
  proof (cases "dict_get (fq_entries q) off")
    case (Some e)
    let ?e = "e\<lparr>fe_available_at := t\<rparr>"
    have na: "\<not> fe_acked ?e" using heap_okD(6)[OF h Some] by simp
    have "file_inv (q\<lparr>fq_entries := dict_set off ?e (fq_entries q)\<rparr>)"
    proof -
      have "same_store q (q\<lparr>fq_entries := dict_set off ?e (fq_entries q)\<rparr>)" using content_keep[OF Some, of ?e] by (simp add: same_store_def)
      then show ?thesis using store_same[OF _ st] heap_same_token[OF h Some _ na] by (simp add: file_inv_def)
    qed
    then show ?thesis using Some file_inv_entry[OF assms Some, of ?e t] na
      by (auto simp: file_reschedule_def Let_def file_view_def dict_simps fun_eq_iff)
  qed (use assms in \<open>simp add: file_reschedule_def\<close>)
  then show "file_inv (file_reschedule q off t)" "file_view (file_reschedule q off t) = file_view q"
    "qd_offset (fq_dir (file_reschedule q off t)) = qd_offset (fq_dir q) \<and> qd_meta (fq_dir (file_reschedule q off t)) = qd_meta (fq_dir q)" by simp_all
qed

lemma file_lease_inv:
  assumes "file_inv q" and "file_lease q n ms now = (ls, q')"
  shows "file_inv q'" "map_option fst (file_view q' off) = map_option fst (file_view q off)" "fq_dir q' = fq_dir q"
proof -
  have h: "queue_heap_ok q" and st: "store_ok q" using assms(1) by (simp_all add: file_inv_def)
  have l: "queue_heap_ok q' \<and> same_store q q'" by (rule file_lease_spec(1)[OF h assms(2)])
  then show "file_inv q'" using store_same[OF _ st] by (simp add: file_inv_def)
  have "map_option snd (content (fq_entries q') off) = map_option snd (content (fq_entries q) off)" using l by (simp add: same_store_def)
  then show "map_option fst (file_view q' off) = map_option fst (file_view q off)" by (simp add: file_view_def content_def option.map_comp comp_def)
  show "fq_dir q' = fq_dir q" using l by (simp add: same_store_def)
qed

text \<open>\<^verbatim>\<open>put\<close> raises nothing on a queue in its invariant; a raising call would leave the queue as it is.\<close>

definition file_put_total :: "(nat \<Rightarrow> task \<Rightarrow> real \<Rightarrow> nat) \<Rightarrow> file_queue \<Rightarrow> task \<Rightarrow> real \<Rightarrow> real \<Rightarrow> nat \<times> file_queue" where
  "file_put_total sz q t wall mon = (case file_put sz q t wall mon of Inl _ \<Rightarrow> (fq_next_offset q, q) | Inr r \<Rightarrow> r)"

interpretation fileq: work_queue "file_put_total sz" file_lease file_ack file_nack file_view file_inv
proof
  fix q q' :: file_queue and t :: task and wall mon now :: real and off :: nat and n ms :: int
    and ls :: "leased_task list" and l :: leased_task and token :: string and requeue :: bool
  assume q: "file_inv q"
  obtain off1 q1 e where p: "file_put sz q t wall mon = Inr (off1, q1)" "file_inv q1" "dict_get (fq_entries q) off1 = None"
    "fq_entries q1 = dict_set off1 e (fq_entries q)" "fe_task e = t" "fe_token e = None" using file_put_spec[OF q, of sz t wall mon] by blast
  show "file_inv (snd (file_put_total sz q t wall mon))" using p by (simp add: file_put_total_def)
  show "file_put_total sz q t wall mon = (off, q') \<Longrightarrow> file_view q off = None \<and> file_view q' = (file_view q)(off \<mapsto> (t, None))"
    using p by (auto simp: file_put_total_def file_view_def dict_simps fun_eq_iff)
  show "file_inv (snd (file_lease q n ms now))" using file_lease_inv(1)[OF q prod.collapse[symmetric]] .
  show "file_lease q n ms now = (ls, q') \<Longrightarrow> map_option fst (file_view q' off) = map_option fst (file_view q off)" using file_lease_inv(2)[OF q] .
  show "file_lease q n ms now = (ls, q') \<Longrightarrow> l \<in> set ls \<Longrightarrow> \<exists>token. file_view q' (lt_offset l) = Some (lt_task l, Some token)"
    using file_lease_spec(3)[of q n ms now ls q' l] q by (auto simp: file_inv_def file_view_def)
qed (use file_ack_spec(1,2) file_nack_spec(1,2) in auto)

end
