(* ===== verification/File_Recovery.thy ===== *)
theory File_Recovery
  imports File_Store
begin

text \<open>
  Opening a directory: the queue that is loaded from the segment logs and their indexes, what it
  holds after a restart, and the properties of runs with restarts.
\<close>

section \<open>Loading one segment\<close>

abbreviation load_entries :: "real \<Rightarrow> real \<Rightarrow> nat \<Rightarrow> (nat \<times> task) list \<Rightarrow> file_queue \<Rightarrow> file_queue" where
  "load_entries wall mon seq xs q \<equiv> foldl (\<lambda>q (off, t). load_entry wall mon seq off t q) q xs"

lemma load_entry_simps [simp]:
  "fq_dir (load_entry wall mon seq off t q) = fq_dir q" "fq_segments (load_entry wall mon seq off t q) = fq_segments q"
  "fq_by_seq (load_entry wall mon seq off t q) = fq_by_seq q" "fq_current (load_entry wall mon seq off t q) = fq_current q"
  "fq_v2 (load_entry wall mon seq off t q) = fq_v2 q" "fq_next_offset (load_entry wall mon seq off t q) = fq_next_offset q"
  by (simp_all add: load_entry_def Let_def)

lemma scan_one:
  "ls_observed (scan_line wall mon seq acked sc l) = (case l of Record off v n \<Rightarrow> off # ls_observed sc | _ \<Rightarrow> ls_observed sc)"
  "ls_pending (scan_line wall mon seq acked sc l) = (case l of Record off v n \<Rightarrow> ls_pending sc + (if off \<in> set acked then 0 else 1) | _ \<Rightarrow> ls_pending sc)"
  "ls_queue (scan_line wall mon seq acked sc l) = (case l of
     Record off v n \<Rightarrow> if off \<in> set acked then ls_queue sc else load_entry wall mon seq off (task_of v) (ls_queue sc) | _ \<Rightarrow> ls_queue sc)"
  "ls_end (scan_line wall mon seq acked sc l) = (case l of Record off v n \<Rightarrow> int off | _ \<Rightarrow> ls_end sc)"
  by (cases l; simp add: scan_line_def Let_def)+

lemma scan_lines:
  defines "live acked \<equiv> filter (\<lambda>(off, _). off \<notin> set acked)"
  shows "set (ls_observed (foldl (scan_line wall mon seq acked) sc ls)) = set (ls_observed sc) \<union> fst ` set (records ls)"
    "ls_pending (foldl (scan_line wall mon seq acked) sc ls) = ls_pending sc + length (live acked (records ls))"
    "ls_queue (foldl (scan_line wall mon seq acked) sc ls) = load_entries wall mon seq (live acked (records ls)) (ls_queue sc)"
    "ls_end (foldl (scan_line wall mon seq acked) sc ls) = (if records ls = [] then ls_end sc else int (fst (last (records ls))))"
proof (induction ls arbitrary: sc)
  case (Cons l ls)
  {
    case 1
    show ?case by (cases l) (simp_all add: Cons(1) scan_one)
  next
    case 2
    show ?case by (cases l) (simp_all add: Cons(2) scan_one live_def)
  next
    case 3
    show ?case by (cases l) (simp_all add: Cons(3) scan_one live_def)
  next
    case 4
    show ?case by (cases l) (simp_all add: Cons(4) scan_one)
  }
qed (simp_all add: live_def)

definition unleased :: "file_queue \<Rightarrow> bool" where
  "unleased q \<longleftrightarrow> (\<forall>off e. dict_get (fq_entries q) off = Some e \<longrightarrow> fe_token e = None)"

lemma load_entries_spec:
  assumes "queue_heap_ok q" "unleased q" "distinct (map fst xs)"
  shows "queue_heap_ok (load_entries wall mon seq xs q) \<and> unleased (load_entries wall mon seq xs q) \<and>
    fq_dir (load_entries wall mon seq xs q) = fq_dir q \<and> fq_segments (load_entries wall mon seq xs q) = fq_segments q \<and>
    fq_by_seq (load_entries wall mon seq xs q) = fq_by_seq q \<and> fq_current (load_entries wall mon seq xs q) = fq_current q \<and>
    fq_v2 (load_entries wall mon seq xs q) = fq_v2 q \<and> fq_next_offset (load_entries wall mon seq xs q) = fq_next_offset q \<and>
    (\<forall>off. content (fq_entries (load_entries wall mon seq xs q)) off =
       (case dict_get xs off of None \<Rightarrow> content (fq_entries q) off | Some t \<Rightarrow> Some (seq, t)))"
  using assms
proof (induction xs arbitrary: q)
  case (Cons x xs)
  obtain off t where x: "x = (off, t)" by (cases x)
  let ?q = "load_entry wall mon seq off t q"
  have h: "queue_heap_ok ?q" unfolding load_entry_def Let_def
    by (rule heap_push[OF Cons.prems(1), of "\<lparr>fe_task = t, fe_segment_seq = seq, fe_available_at = extract_available_at t wall mon,
          fe_lease_deadline = 0, fe_token = None, fe_acked = False\<rparr>"]) simp_all
  have u: "unleased ?q" using Cons.prems(2) by (auto simp: unleased_def load_entry_def Let_def dict_simps split: if_splits)
  have c: "content (fq_entries ?q) = (content (fq_entries q))(off \<mapsto> (seq, t))" by (simp add: load_entry_def Let_def content_set)
  have "dict_get xs off = None" using Cons.prems(3) x by (simp add: dict_get_None_iff)
  then show ?case using Cons.IH[OF h u] Cons.prems(3) c x by (auto split: option.splits)
qed simp

text \<open>A directory that differs at most in how its indexes are written.\<close>

definition same_dir :: "queue_dir \<Rightarrow> queue_dir \<Rightarrow> bool" where
  "same_dir d d' \<longleftrightarrow> qd_logs d' = qd_logs d \<and> qd_meta d' = qd_meta d \<and> qd_offset d' = qd_offset d \<and> (\<forall>seq. dir_acks d' seq = dir_acks d seq)"

lemma same_dirD:
  assumes "same_dir d d'"
  shows "live_at d' = live_at d" "waiting d' = waiting d" "segment_ok d' = segment_ok d" "dir_ok d' = dir_ok d"
  using assms by (auto simp: same_dir_def live_at_def waiting_def segment_ok_def dir_ok_def fun_eq_iff)

lemma build_segment_spec:
  assumes ok: "dir_ok d" "same_dir d (fq_dir q)" "seq \<in> set (dict_keys (qd_logs d))" and h: "queue_heap_ok q" "unleased q" "fq_next_offset q = 0"
    and b: "build_segment_from_files wall mon q seq = (s, q')"
  shows "segment_ok d seq s" "same_dir d (fq_dir q')" "queue_heap_ok q'" "unleased q'" "fq_next_offset q' = 0" "fq_segments q' = fq_segments q"
    "fq_by_seq q' = fq_by_seq q" "fq_current q' = fq_current q" "fs_end_offset s < int (counter (qd_offset d))"
    "content (fq_entries q') off = Some (x, t) \<longleftrightarrow> x = seq \<and> live_at d seq off t \<or> (\<forall>t'. \<not> live_at d seq off t') \<and> content (fq_entries q) off = Some (x, t)"
proof -
  define acked where "acked = fst (load_index_metadata (fq_v2 q) (dict_get_or (qd_indexes (fq_dir q)) seq NoIndex))"
  define bad where "bad = snd (load_index_metadata (fq_v2 q) (dict_get_or (qd_indexes (fq_dir q)) seq NoIndex))"
  let ?ls = "dict_get_or (qd_logs (fq_dir q)) seq []"
  define sc where "sc = foldl (scan_line wall mon seq acked) \<lparr>ls_queue = q, ls_observed = [], ls_start = fq_next_offset q,
                 ls_end = int (fq_next_offset q) - 1, ls_count = 0, ls_pending = 0, ls_size = 0\<rparr> ?ls"
  let ?xs = "filter (\<lambda>(off, _). off \<notin> set acked) (records ?ls)"
  have meta: "load_index_metadata (fq_v2 q) (dict_get_or (qd_indexes (fq_dir q)) seq NoIndex) = (acked, bad)" by (simp add: acked_def bad_def)
  note D = dir_okD[OF ok(1)]
  have logs: "qd_logs (fq_dir q) = qd_logs d" and acks: "set acked = dir_acks d seq" using ok(2) load_index_acks by (simp_all add: same_dir_def acked_def)
  have S: "set (ls_observed sc) = fst ` set (records ?ls)" "ls_pending sc = length ?xs" "ls_queue sc = load_entries wall mon seq ?xs q"
    "ls_end sc = (if records ?ls = [] then -1 else int (fst (last (records ?ls))))"
    unfolding sc_def scan_lines using h(3) by simp_all
  have dist: "distinct (map fst ?xs)" using D(5)[of seq] unfolding logs by (rule distinct_map_filter)
  note E = load_entries_spec[OF h(1,2) dist, of wall mon seq]
  have s: "fs_seq s = seq" "fs_pending s = length ?xs" "fs_acked s = remdups (filter (\<lambda>n. n \<in> set (ls_observed sc)) acked)" "fs_end_offset s = ls_end sc"
    and q': "q' = ls_queue sc \<or> q' = (ls_queue sc)\<lparr>fq_dir := persist_segment_state s (fq_dir (ls_queue sc))\<rparr>"
    using b S(2) unfolding build_segment_from_files_def meta Let_def prod.case sc_def[symmetric] by (auto split: if_splits)
  have "set (fs_acked s) = dir_acks d seq" using D(3)[OF ok(3)] s(3) S(1) acks unfolding logs by auto
  moreover have "length ?xs = waiting d seq" by (simp add: waiting_def logs acks)
  ultimately show seg: "segment_ok d seq s" using s by (simp add: segment_ok_def)
  have "same_dir d (persist_segment_state s (fq_dir q))" using ok(2) seg by (auto simp: same_dir_def persist_says segment_ok_def)
  then show "same_dir d (fq_dir q')" using q' S(3) E ok(2) by auto
  show "queue_heap_ok q'" "unleased q'" "fq_next_offset q' = 0" "fq_segments q' = fq_segments q" "fq_by_seq q' = fq_by_seq q" "fq_current q' = fq_current q"
    using q' S(3) E h(3) by (auto simp: unleased_def)
  show "fs_end_offset s < int (counter (qd_offset d))"
  proof (cases "records ?ls = []")
    case False
    then have "fst (last (records ?ls)) \<in> fst ` set (dir_log d seq)" unfolding logs by simp
    then show ?thesis using D(6)[of "fst (last (records ?ls))" seq] False s(4) S(4) by simp
  qed (use s(4) S(4) in simp)
  have "dict_get ?xs off = Some t \<longleftrightarrow> live_at d seq off t" for t
    using dist by (auto simp: live_at_def logs acks)
  moreover have "content (fq_entries q') off = (case dict_get ?xs off of None \<Rightarrow> content (fq_entries q) off | Some t \<Rightarrow> Some (seq, t))"
    using q' S(3) E by auto
  ultimately show "content (fq_entries q') off = Some (x, t) \<longleftrightarrow> x = seq \<and> live_at d seq off t \<or> (\<forall>t'. \<not> live_at d seq off t') \<and> content (fq_entries q) off = Some (x, t)"
    by (cases "dict_get ?xs off") auto
qed

section \<open>Loading a directory\<close>

text \<open>The state of the loading loop after the segments \<open>ps\<close>.\<close>

definition partly_loaded :: "queue_dir \<Rightarrow> nat list \<Rightarrow> file_queue \<times> nat \<times> int \<Rightarrow> bool" where
  "partly_loaded d ps st = (case st of (q, max_seq, max_offset) \<Rightarrow>
     same_dir d (fq_dir q) \<and> queue_heap_ok q \<and> unleased q \<and> fq_next_offset q = 0 \<and> fq_segments q = ps \<and> fq_current q = None \<and>
     loaded d ps (fq_by_seq q) (content (fq_entries q)) \<and> max_seq \<le> counter (qd_meta d) \<and> max_offset < int (counter (qd_offset d)))"

lemma live_key: "live_at d seq off t \<Longrightarrow> seq \<in> set (dict_keys (qd_logs d))"
  by (cases "dict_get (qd_logs d) seq") (force simp: live_at_def dict_get_or_def dest: map_of_SomeD)+

lemma live_unique: "dir_ok d \<Longrightarrow> live_at d seq off t \<Longrightarrow> live_at d seq' off t' \<Longrightarrow> seq' = seq"
  using dir_okD(7)[of d seq seq'] by (force simp: live_at_def)

lemma load_segment_step:
  assumes ok: "dir_ok d" and st: "partly_loaded d ps st" and seq: "seq \<in> set (dict_keys (qd_logs d))" "seq \<notin> set ps"
  shows "partly_loaded d (ps @ [seq]) (load_segment wall mon st seq)"
proof -
  obtain q ms mo where q: "st = (q, ms, mo)" by (cases st)
  obtain s q' where b: "build_segment_from_files wall mon q seq = (s, q')" by (cases "build_segment_from_files wall mon q seq")
  have P: "same_dir d (fq_dir q)" "queue_heap_ok q" "unleased q" "fq_next_offset q = 0" "fq_segments q = ps" "fq_current q = None"
    "loaded d ps (fq_by_seq q) (content (fq_entries q))" "ms \<le> counter (qd_meta d)" "mo < int (counter (qd_offset d))"
    using st q by (simp_all add: partly_loaded_def)
  note B = build_segment_spec[OF ok P(1) seq(1) P(2-4) b]
  note L = loadedD[OF P(7)]
  have "loaded d (ps @ [seq]) (dict_set seq s (fq_by_seq q)) (content (fq_entries q'))"
  proof (rule loadedI)
    show "distinct (ps @ [seq])" using L(1) seq(2) by simp
    show "set (dict_keys (dict_set seq s (fq_by_seq q))) = set (ps @ [seq])" using L(2) by (auto simp: dict_keys_set simp del: set_map)
    show "segment_ok d x s'" if "dict_get (dict_set seq s (fq_by_seq q)) x = Some s'" for x s'
      using that L(3)[of x s'] B(1) by (auto simp: dict_simps split: if_splits)
    show "content (fq_entries q') off = Some (x, t) \<longleftrightarrow> x \<in> set (ps @ [seq]) \<and> live_at d x off t" for off x t
      unfolding B(10) L(4) using live_unique[OF ok, of seq off _ x] seq(2) by auto
  qed
  moreover have "load_segment wall mon st seq = (q'\<lparr>fq_segments := ps @ [seq], fq_by_seq := dict_set seq s (fq_by_seq q)\<rparr>, max ms seq, max mo (fs_end_offset s))"
    using b P(5) B(6,7) by (simp add: load_segment_def q)
  ultimately show ?thesis using B P(6,8,9) dir_okD(2)[OF ok seq(1)] by (simp add: partly_loaded_def unleased_def)
qed

lemma load_segments:
  "dir_ok d \<Longrightarrow> partly_loaded d ps st \<Longrightarrow> distinct (ps @ seqs) \<Longrightarrow> set seqs \<subseteq> set (dict_keys (qd_logs d)) \<Longrightarrow>
   partly_loaded d (ps @ seqs) (foldl (load_segment wall mon) st seqs)"
proof (induction seqs arbitrary: ps st)
  case (Cons seq seqs)
  then show ?case using Cons.IH[OF Cons.prems(1) load_segment_step[of d ps st seq]] by simp
qed simp

lemma open_last:
  assumes s: "dict_get (fq_by_seq q) seq = Some s" "segment_ok d seq s" "same_dir d (fq_dir q)" "seq \<in> set (dict_keys (qd_logs d))"
    and L: "loaded d segs (fq_by_seq q) con"
  shows "fq_dir (open_segment_file q s) = fq_dir q" "loaded d segs (fq_by_seq (open_segment_file q s)) con" "fq_current (open_segment_file q s) = Some seq"
    "fq_entries (open_segment_file q s) = fq_entries q" "fq_ready (open_segment_file q s) = fq_ready q" "fq_ready_set (open_segment_file q s) = fq_ready_set q"
    "fq_segments (open_segment_file q s) = fq_segments q"
proof -
  have seq: "fs_seq s = seq" using s(2) by (simp add: segment_ok_def)
  have "seq \<in> set (dict_keys (qd_logs (fq_dir q)))" using s(3,4) by (simp add: same_dir_def)
  then obtain ls where ls: "dict_get (qd_logs (fq_dir q)) seq = Some ls" by (cases "dict_get (qd_logs (fq_dir q)) seq") (simp_all add: dict_get_None_iff)
  then show "fq_dir (open_segment_file q s) = fq_dir q" by (simp add: open_segment_file_def Let_def dict_setdefault_def seq)
  show "fq_current (open_segment_file q s) = Some seq" "fq_entries (open_segment_file q s) = fq_entries q" "fq_ready (open_segment_file q s) = fq_ready q"
    "fq_ready_set (open_segment_file q s) = fq_ready_set q" "fq_segments (open_segment_file q s) = fq_segments q"
    by (simp_all add: open_segment_file_def Let_def seq)
  have in_tab: "seq \<in> set (dict_keys (fq_by_seq q))" using s(1) by (metis dict_get_None_iff option.distinct(1))
  obtain n where tab: "fq_by_seq (open_segment_file q s) = dict_set seq (s\<lparr>fs_size_bytes := n\<rparr>) (fq_by_seq q)"
    by (simp add: open_segment_file_def Let_def seq)
  have "segment_ok d seq (s\<lparr>fs_size_bytes := n\<rparr>)" using s(2) by (simp add: segment_ok_def)
  then have seg: "segment_ok d x s'" if "dict_get (dict_set seq (s\<lparr>fs_size_bytes := n\<rparr>) (fq_by_seq q)) x = Some s'" for x s'
    using that loadedD(3)[OF L, of x s'] unfolding dict_get_set by (cases "x = seq") simp_all
  have "set (dict_keys (dict_set seq (s\<lparr>fs_size_bytes := n\<rparr>) (fq_by_seq q))) = set segs"
    unfolding dict_keys_set loadedD(2)[OF L, symmetric] using in_tab by (rule insert_absorb)
  from loadedI[OF loadedD(1)[OF L] this seg loadedD(4)[OF L]] show "loaded d segs (fq_by_seq (open_segment_file q s)) con" unfolding tab .
qed

lemma raise_counter_same: "v \<le> counter c \<Longrightarrow> raise_counter c v = c"
  by (simp add: raise_counter_def)

lemma file_open_spec:
  assumes ok: "dir_ok d" and few: "counter (qd_meta d) < 1000000"
  shows "file_inv (file_open v2 mb d wall mon)"
    "file_view (file_open v2 mb d wall mon) off = Some (t, tok) \<longleftrightarrow> tok = None \<and> (\<exists>seq. live_at d seq off t)"
    "counter (qd_offset (fq_dir (file_open v2 mb d wall mon))) = counter (qd_offset d)"
    "counter (qd_meta d) \<le> counter (qd_meta (fq_dir (file_open v2 mb d wall mon)))"
proof -
  let ?l = "segment_listing d"
  have "seq < 1000000" if "seq \<in> set (dict_keys (qd_logs d))" for seq using dir_okD(2)[OF ok that] few by (rule order_le_less_trans)
  then have "filter (\<lambda>seq. seq < 1000000) (dict_keys (qd_logs d)) = dict_keys (qd_logs d)" by (intro filter_True) blast
  then have listing: "set ?l = set (dict_keys (qd_logs d))" "distinct ?l" using dir_okD(1)[OF ok] by (simp_all add: segment_listing_def)
  obtain q1 ms mo where load: "foldl (load_segment wall mon) (closed_queue v2 mb d, 0, -1) ?l = (q1, ms, mo)" by (metis prod_cases3)
  have "partly_loaded d [] (closed_queue v2 mb d, 0, -1)"
    by (simp add: partly_loaded_def closed_queue_def same_dir_def heap_ok_def unleased_def loaded_def content_def)
  from load_segments[OF ok this, of ?l wall mon] have P: "partly_loaded d ?l (q1, ms, mo)" using listing load by simp
  then have S: "same_dir d (fq_dir q1)" "queue_heap_ok q1" "unleased q1" "fq_segments q1 = ?l" "fq_current q1 = None"
    "loaded d ?l (fq_by_seq q1) (content (fq_entries q1))" "ms \<le> counter (qd_meta d)" "mo < int (counter (qd_offset d))"
    by (simp_all add: partly_loaded_def)
  define q2 where "q2 = (if 0 \<le> mo then q1\<lparr>fq_next_offset := nat mo + 1\<rparr> else q1)"
  define q3 where "q3 = (if fq_segments q2 = [] then q2 else case dict_get (fq_by_seq q2) (last (fq_segments q2)) of None \<Rightarrow> q2 | Some s \<Rightarrow> open_segment_file q2 s)"
  define q4 where "q4 = initialize_offset (if 0 \<le> mo then nat mo + 1 else 0) (initialize_meta ms q3)"
  have "fq_dir (closed_queue v2 mb d) = d" by (simp add: closed_queue_def)
  then have "load_existing_segments wall mon (closed_queue v2 mb d) = (q3, ms, mo)"
    unfolding load_existing_segments_def by (simp only: load prod.case Let_def q2_def[symmetric] q3_def[symmetric])
  then have opened: "file_open v2 mb d wall mon = ensure_active_segment q4" by (simp add: file_open_def q4_def)
  have q2: "fq_dir q2 = fq_dir q1" "fq_segments q2 = ?l" "fq_by_seq q2 = fq_by_seq q1" "fq_entries q2 = fq_entries q1" "fq_ready q2 = fq_ready q1"
    "fq_ready_set q2 = fq_ready_set q1" "fq_current q2 = None" using S(4,5) by (simp_all add: q2_def)
  have "fq_dir q3 = fq_dir q1 \<and> loaded d ?l (fq_by_seq q3) (content (fq_entries q1)) \<and> fq_segments q3 = ?l \<and> fq_entries q3 = fq_entries q1 \<and>
    fq_ready q3 = fq_ready q1 \<and> fq_ready_set q3 = fq_ready_set q1 \<and> fq_current q3 = (if ?l = [] then None else Some (last ?l))"
  proof (cases "?l = []")
    case False
    then have "last ?l \<in> set (dict_keys (fq_by_seq q2))" using loadedD(2)[OF S(6)] q2(3) by (metis last_in_set)
    then obtain s where s: "dict_get (fq_by_seq q2) (last ?l) = Some s" by (cases "dict_get (fq_by_seq q2) (last ?l)") (simp_all add: dict_get_None_iff)
    have "segment_ok d (last ?l) s" using loadedD(3)[OF S(6)] s q2(3) by simp
    from open_last[OF s this, of ?l "content (fq_entries q1)"] show ?thesis
      using False s S(1,6) q2 listing(1) last_in_set[OF False] by (simp add: q3_def del: set_map)
  qed (use q2 S(6) in \<open>simp add: q3_def\<close>)
  then have q3: "fq_dir q3 = fq_dir q1" "loaded d ?l (fq_by_seq q3) (content (fq_entries q1))" "fq_segments q3 = ?l" "fq_entries q3 = fq_entries q1"
    "fq_ready q3 = fq_ready q1" "fq_ready_set q3 = fq_ready_set q1" "fq_current q3 = (if ?l = [] then None else Some (last ?l))" by auto
  have "qd_meta (fq_dir q1) = qd_meta d" "qd_offset (fq_dir q1) = qd_offset d" using S(1) by (simp_all add: same_dir_def)
  then have q4: "fq_dir q4 = fq_dir q1" "fq_segments q4 = ?l" "fq_by_seq q4 = fq_by_seq q3" "fq_entries q4 = fq_entries q1" "fq_ready q4 = fq_ready q1"
    "fq_ready_set q4 = fq_ready_set q1" "fq_current q4 = (if ?l = [] then None else Some (last ?l))"
    using S(7,8) q3 by (auto simp: q4_def initialize_offset_def initialize_meta_def raise_counter_same nat_le_iff)
  have "loaded (fq_dir q4) ?l (fq_by_seq q4) (content (fq_entries q4))" using q3(2) same_dirD[OF S(1)] q4 by (simp add: loaded_def)
  moreover have "set ?l = set (dict_keys (qd_logs (fq_dir q4)))" using listing(1) S(1) q4(1) by (simp add: same_dir_def)
  moreover have "dir_ok (fq_dir q4)" using same_dirD(4)[OF S(1)] ok q4(1) by simp
  ultimately have syn: "synced q4" unfolding synced_def q4(2) by blast
  have st: "store_ok (ensure_active_segment q4)"
    using rotate_store(1)[OF syn] syn q4 by (auto simp: ensure_active_segment_def store_ok_def)
  have same: "fq_entries (ensure_active_segment q4) = fq_entries q1" "fq_ready (ensure_active_segment q4) = fq_ready q1"
    "fq_ready_set (ensure_active_segment q4) = fq_ready_set q1" using q4 by (simp_all add: ensure_active_segment_def)
  show "file_inv (file_open v2 mb d wall mon)" unfolding opened file_inv_def using st S(2) same by simp
  have "qd_offset (fq_dir (ensure_active_segment q4)) = qd_offset (fq_dir q4)" using rotate_store(2)[OF syn] by (simp add: ensure_active_segment_def)
  then show "counter (qd_offset (fq_dir (file_open v2 mb d wall mon))) = counter (qd_offset d)"
    unfolding opened using q4(1) S(1) by (simp add: same_dir_def)
  show "counter (qd_meta d) \<le> counter (qd_meta (fq_dir (file_open v2 mb d wall mon)))"
    unfolding opened using q4(1) S(1) rotate_store(3)[OF syn] by (simp add: ensure_active_segment_def same_dir_def)
  have key: "seq \<in> set ?l" if "live_at d seq off t" for seq
    using live_key[OF that] listing(1) by blast
  have "file_view (file_open v2 mb d wall mon) off = Some (t, tok) \<longleftrightarrow> (\<exists>e. dict_get (fq_entries q1) off = Some e \<and> fe_task e = t \<and> fe_token e = tok)"
    unfolding opened by (auto simp: file_view_def same)
  also have "\<dots> \<longleftrightarrow> tok = None \<and> (\<exists>seq. content (fq_entries q1) off = Some (seq, t))" using S(3) by (auto simp: unleased_def content_def)
  also have "\<dots> \<longleftrightarrow> tok = None \<and> (\<exists>seq. live_at d seq off t)" unfolding loadedD(4)[OF S(6)] using key by blast
  finally show "file_view (file_open v2 mb d wall mon) off = Some (t, tok) \<longleftrightarrow> tok = None \<and> (\<exists>seq. live_at d seq off t)" .
qed

section \<open>Runs with restarts\<close>

datatype session_call =
    Call queue_call
  | Restart bool nat real real

definition file_exec :: "(nat \<Rightarrow> task \<Rightarrow> real \<Rightarrow> nat) \<Rightarrow> file_queue \<Rightarrow> queue_call \<Rightarrow> leased_task list \<times> file_queue" where
  "file_exec sz q c = (case c of
       Put t wall mon \<Rightarrow> ([], snd (file_put_total sz q t wall mon))
     | Lease n ms now \<Rightarrow> file_lease q n ms now
     | Ack offset token \<Rightarrow> ([], file_ack q offset token)
     | Nack offset token requeue now \<Rightarrow> ([], file_nack q offset token requeue now)
     | Reschedule offset t \<Rightarrow> ([], file_reschedule q offset t))"

text \<open>A restart forgets the queue in memory and opens its directory again.\<close>

definition session_step :: "(nat \<Rightarrow> task \<Rightarrow> real \<Rightarrow> nat) \<Rightarrow> file_queue \<Rightarrow> session_call \<Rightarrow> file_queue" where
  "session_step sz q c = (case c of Call qc \<Rightarrow> snd (file_exec sz q qc) | Restart v2 mb wall mon \<Rightarrow> file_open v2 mb (fq_dir q) wall mon)"

abbreviation session_run :: "(nat \<Rightarrow> task \<Rightarrow> real \<Rightarrow> nat) \<Rightarrow> file_queue \<Rightarrow> session_call list \<Rightarrow> file_queue" where
  "session_run sz \<equiv> foldl (session_step sz)"

text \<open>Every restart finds fewer than a million segment numbers used.\<close>

fun restarts_ok :: "(nat \<Rightarrow> task \<Rightarrow> real \<Rightarrow> nat) \<Rightarrow> file_queue \<Rightarrow> session_call list \<Rightarrow> bool" where
  "restarts_ok sz q [] = True"
| "restarts_ok sz q (c # cs) = ((case c of Call _ \<Rightarrow> True | Restart _ _ _ _ \<Rightarrow> counter (qd_meta (fq_dir q)) < 1000000) \<and>
     restarts_ok sz (session_step sz q c) cs)"

lemma store_dir: "file_inv q \<Longrightarrow> dir_ok (fq_dir q)"
  using syncedD(1) by (simp add: file_inv_def store_ok_def)

lemma exec_inv: "file_inv q \<Longrightarrow> file_inv (snd (file_exec sz q c))"
  using fileq.put_invar[of q sz] fileq.lease_invar[of q] file_ack_spec(1)[of q] file_nack_spec(1)[of q] file_reschedule_spec(1)[of q]
  by (cases c) (auto simp: file_exec_def)

lemma step_inv:
  assumes "file_inv q" and "restarts_ok sz q [c]"
  shows "file_inv (session_step sz q c)"
  using assms exec_inv file_open_spec(1)[OF store_dir[OF assms(1)]] by (cases c) (simp_all add: session_step_def)

lemma session_inv: "file_inv q \<Longrightarrow> restarts_ok sz q cs \<Longrightarrow> file_inv (session_run sz q cs)"
proof (induction cs arbitrary: q)
  case (Cons c cs)
  then show ?case using step_inv[of q sz c] by simp
qed simp

lemma dir_ok_empty: "dir_ok empty_dir"
  by (simp add: dir_ok_def empty_dir_def counter_def dict_get_or_def)

lemma opened_inv: "file_inv (file_open v2 mb empty_dir wall mon)"
  by (rule file_open_spec(1)[OF dir_ok_empty]) (simp add: empty_dir_def counter_def)

text \<open>The tasks still to be done, and the offset the next task gets.\<close>

definition undone :: "file_queue \<Rightarrow> nat \<Rightarrow> task option" where
  "undone q off = map_option fst (file_view q off)"

definition next_offset :: "file_queue \<Rightarrow> nat" where
  "next_offset q = counter (qd_offset (fq_dir q))"

text \<open>What a call does to them, by the lease tokens in force.\<close>

definition undone_after :: "file_queue \<Rightarrow> session_call \<Rightarrow> nat \<Rightarrow> task option" where
  "undone_after q c = (case c of
       Call (Put t _ _) \<Rightarrow> (undone q)(next_offset q \<mapsto> t)
     | Call (Ack off token) \<Rightarrow> if \<exists>t. file_view q off = Some (t, Some token) then (undone q)(off := None) else undone q
     | Call (Nack off token requeue _) \<Rightarrow>
         if \<not> requeue \<and> (\<exists>t. file_view q off = Some (t, Some token)) then (undone q)(off := None) else undone q
     | _ \<Rightarrow> undone q)"

definition offset_after :: "file_queue \<Rightarrow> session_call \<Rightarrow> nat" where
  "offset_after q c = (case c of Call (Put _ _ _) \<Rightarrow> next_offset q + 1 | _ \<Rightarrow> next_offset q)"

lemma reopened_view:
  assumes "file_inv q" and "counter (qd_meta (fq_dir q)) < 1000000"
  shows "file_view (file_open v2 mb (fq_dir q) wall mon) off = map_option (\<lambda>(t, _). (t, None)) (file_view q off)"
proof -
  have L: "loaded (fq_dir q) (fq_segments q) (fq_by_seq q) (content (fq_entries q))" and keys: "set (fq_segments q) = set (dict_keys (qd_logs (fq_dir q)))"
    using assms(1) syncedD by (simp_all only: file_inv_def store_ok_def)
  have key: "seq \<in> set (fq_segments q)" if "live_at (fq_dir q) seq off t" for seq t
    using live_key[OF that] keys by blast
  have "(\<exists>seq. live_at (fq_dir q) seq off t) \<longleftrightarrow> (\<exists>seq. content (fq_entries q) off = Some (seq, t))" for t
    unfolding loadedD(4)[OF L] using key by blast
  then have "file_view (file_open v2 mb (fq_dir q) wall mon) off = Some (t, tok) \<longleftrightarrow> map_option (\<lambda>(t, _). (t, None)) (file_view q off) = Some (t, tok)" for t tok
    unfolding file_open_spec(2)[OF store_dir[OF assms(1)] assms(2)] by (auto simp: content_def file_view_def)
  then show ?thesis by (metis option.exhaust prod.exhaust)
qed

lemma exec_undone:
  assumes q: "file_inv q"
  shows "undone (snd (file_exec sz q c)) = undone_after q (Call c)" "next_offset (snd (file_exec sz q c)) = offset_after q (Call c)"
proof -
  have "undone (snd (file_exec sz q c)) = undone_after q (Call c) \<and> next_offset (snd (file_exec sz q c)) = offset_after q (Call c)"
  proof (cases c)
    case (Put t wall mon)
    then show ?thesis using file_put_spec[OF q, of sz t wall mon]
      by (auto simp: file_exec_def file_put_total_def undone_after_def offset_after_def undone_def next_offset_def file_view_def dict_simps fun_eq_iff)
  next
    case (Lease n ms now)
    note l = file_lease_inv(2,3)[OF q prod.collapse[symmetric], of n ms now]
    show ?thesis using l Lease by (simp add: file_exec_def undone_after_def offset_after_def undone_def next_offset_def fun_eq_iff)
  next
    case (Ack off token)
    then show ?thesis using file_ack_spec(2,3)[OF q, of off token]
      by (auto simp: file_exec_def undone_after_def offset_after_def undone_def next_offset_def fun_eq_iff)
  next
    case (Nack off token requeue now)
    then show ?thesis using file_nack_spec(2,3)[OF q, of off token requeue now]
      by (auto simp: file_exec_def undone_after_def offset_after_def undone_def next_offset_def fun_eq_iff split: option.splits)
  next
    case (Reschedule off t)
    then show ?thesis using file_reschedule_spec(2,3)[OF q, of off t]
      by (simp add: file_exec_def undone_after_def offset_after_def undone_def next_offset_def fun_eq_iff)
  qed
  then show "undone (snd (file_exec sz q c)) = undone_after q (Call c)" "next_offset (snd (file_exec sz q c)) = offset_after q (Call c)" by auto
qed

text \<open>The definitions a run of the queue evaluates.\<close>

lemmas run_simps = session_step_def file_exec_def file_put_total_def file_put_def ensure_active_segment_def current_segment_def allocate_offset_def
  allocate_segment_seq_def rotate_segment_def open_segment_file_def new_segment_def maybe_rotate_def store_entry_def append_line_def add_record_def
  push_ready_def extract_available_at_def to_float_def file_open_def load_existing_segments_def segment_listing_def closed_queue_def
  initialize_offset_def initialize_meta_def raise_counter_def append_number_def counter_def empty_dir_def dict_get_or_def dict_setdefault_def log_size_def
  file_lease_def file_release_expired_def file_release_one_def free_entry_def file_lease_loop.simps file_reschedule_def Let_def

section \<open>Properties\<close>

text \<open>
  C6. The file queue is durable.  After any sequence of calls and restarts (each restart opening the
  directory the last session left, with fewer than a million segment numbers used), the next call or
  restart changes the tasks still to be done exactly so: a put adds its task under a new offset, an
  acknowledgement or final rejection under the lease token in force removes its task, and everything
  else, a restart included, keeps them all; only a put moves the next offset.  And a put never raises.
\<close>

theorem file_queue_durable:
  assumes "restarts_ok sz (file_open v2 mb empty_dir wall0 mon0) (cs @ [c])" and "q = session_run sz (file_open v2 mb empty_dir wall0 mon0) cs"
  shows "undone (session_step sz q c) = undone_after q c \<and> next_offset (session_step sz q c) = offset_after q c \<and>
    undone q (next_offset q) = None \<and> (\<exists>q'. file_put sz q t wall mon = Inr (next_offset q, q'))"
proof -
  have split: "restarts_ok sz q0 (cs @ [c]) \<longleftrightarrow> restarts_ok sz q0 cs \<and> restarts_ok sz (session_run sz q0 cs) [c]" for q0
    by (induction cs arbitrary: q0) simp_all
  have q: "file_inv q" and c: "restarts_ok sz q [c]" using session_inv[OF opened_inv] assms split by auto
  have "undone (session_step sz q c) = undone_after q c \<and> next_offset (session_step sz q c) = offset_after q c"
  proof (cases c)
    case (Call qc)
    then show ?thesis using exec_undone[OF q] by (simp add: session_step_def)
  next
    case (Restart v2' mb' w m)
    have few: "counter (qd_meta (fq_dir q)) < 1000000" using c Restart by simp
    show ?thesis using Restart reopened_view[OF q few, of v2' mb' w m] file_open_spec(3)[OF store_dir[OF q] few, of v2' mb' w m]
      by (auto simp: session_step_def undone_after_def offset_after_def undone_def next_offset_def fun_eq_iff option.map_comp comp_def case_prod_unfold)
  qed
  moreover have "undone q (next_offset q) = None \<and> (\<exists>q'. file_put sz q t wall mon = Inr (next_offset q, q'))"
    using file_put_spec[OF q, of sz t wall mon] by (auto simp: undone_def next_offset_def file_view_def)
  ultimately show ?thesis by blast
qed

theorem file_queue_durable_witness:
  "undone (session_step (\<lambda>_ _ _. 100) (session_run (\<lambda>_ _ _. 100) (file_open False 1024 empty_dir 0 0)
      [Call (Put [] 0 1), Call (Put [(''a'', VInt 1)] 0 2), Call (Lease 1 1000 3)]) (Restart True 1024 9 9)) 0 = Some []"
proof -
  let ?sz = "\<lambda>_ _ _. 100 :: nat" and ?cs = "[Call (Put [] 0 1), Call (Put [(''a'', VInt 1)] 0 2), Call (Lease 1 1000 3)]"
  let ?q0 = "file_open False 1024 empty_dir 0 0"
  have "restarts_ok ?sz ?q0 (?cs @ [Restart True 1024 9 9])" by (simp add: run_simps)
  then have "undone (session_step ?sz (session_run ?sz ?q0 ?cs) (Restart True 1024 9 9)) = undone (session_run ?sz ?q0 ?cs)"
    using file_queue_durable[OF _ refl, of ?sz False 1024 0 0 ?cs "Restart True 1024 9 9"] by (simp add: undone_after_def)
  moreover have "undone (session_run ?sz ?q0 ?cs) 0 = Some []" by (simp add: run_simps undone_def file_view_def)
  ultimately show ?thesis by simp
qed

text \<open>
  C26. Leases of the file queue are exclusive after any sequence of calls and restarts, rescheduling
  included: a lease call hands out each offset at most once, and only offsets that are not leased or
  whose lease has run out.
\<close>

theorem file_leases_exclusive:
  assumes "restarts_ok sz (file_open v2 mb empty_dir wall0 mon0) cs" and "q = session_run sz (file_open v2 mb empty_dir wall0 mon0) cs"
  shows "distinct (map lt_offset (fst (file_lease q n ms now))) \<and>
    (\<forall>l\<in>set (fst (file_lease q n ms now)). \<exists>e. dict_get (fq_entries q) (lt_offset l) = Some e \<and> (fe_token e = None \<or> fe_lease_deadline e \<le> now))"
proof -
  have "queue_heap_ok q" using session_inv[OF opened_inv assms(1)] assms(2) by (simp add: file_inv_def)
  from file_lease_spec(2,3)[OF this prod.collapse[symmetric]] show ?thesis by blast
qed

theorem file_leases_exclusive_witness:
  "distinct (map lt_offset (fst (file_lease (session_run (\<lambda>_ _ _. 100) (file_open False 1024 empty_dir 0 0)
      [Call (Put [] 0 1), Call (Reschedule 0 2), Call (Lease 1 1000 3)]) 5 1000 3)))"
proof -
  have "restarts_ok (\<lambda>_ _ _. 100) (file_open False 1024 empty_dir 0 0) [Call (Put [] 0 1), Call (Reschedule 0 2), Call (Lease 1 1000 3)]" by (simp add: run_simps)
  from file_leases_exclusive[OF this refl] show ?thesis by blast
qed

text \<open>
  Rescheduling a waiting task does not move it: the heap keeps the time of the first push, so a task
  put off until time 100 is still handed out at time 2, and one brought forward to time 2 is not.
\<close>

lemma reschedule_ignored:
  "map lt_offset (fst (file_lease (session_run (\<lambda>_ _ _. 100) (file_open False 1024 empty_dir 0 0) [Call (Put [] 0 1), Call (Reschedule 0 100)]) 5 1000 2)) = [0]"
  "fst (file_lease (session_run (\<lambda>_ _ _. 100) (file_open False 1024 empty_dir 0 0)
     [Call (Put [(''scheduled_at'', VInt 50)] 0 1), Call (Reschedule 0 2)]) 5 1000 3) = []"
  by (simp_all add: run_simps)

text \<open>Segment numbers of seven digits are written but not listed on opening, so their tasks are gone.\<close>

lemma seventh_digit_lost:
  assumes "d = \<lparr>qd_logs = [(1000000, [Record 0 (VDict t) n])], qd_indexes = [], qd_meta = Some 1000000, qd_offset = Some 1\<rparr>"
  shows "dir_ok d" "live_at d 1000000 0 t" "fq_entries (file_open v2 mb d wall mon) = []"
proof -
  show "dir_ok d" "live_at d 1000000 0 t" by (auto simp: assms dir_ok_def live_at_def counter_def dict_get_or_def task_of_def)
  have "segment_listing d = []" by (simp add: assms segment_listing_def)
  then show "fq_entries (file_open v2 mb d wall mon) = []"
    by (simp add: file_open_def load_existing_segments_def closed_queue_def Let_def initialize_offset_def initialize_meta_def ensure_active_segment_def)
qed

text \<open>A counter file that lags behind its log is not raised but written on: 3 and 5 make 35.\<close>

lemma stale_counter_concatenated: "raise_counter (Some 3) 5 = Some 35"
  by code_simp

end
