(* ===== verification/File_Locks.thy ===== *)
theory File_Locks
  imports File_Queue "HOL-Library.Sublist"
begin

text \<open>
  The two locks of the file-backed queue (\<^verbatim>\<open>tm/runtime/queue/file.py\<close>): \<^verbatim>\<open>put\<close> takes the I/O lock and
  inside it the queue lock; \<^verbatim>\<open>ack\<close> and a final \<^verbatim>\<open>nack\<close> of a leased task take the queue lock and, in
  \<^verbatim>\<open>_maybe_compact_head\<close>, inside it the I/O lock; the other calls take only the queue lock.  Threads run
  these sequences of lock actions in any interleaving.  Only these two locks between the threads of a
  process are modelled; the locks on files, taken and released around single reads and writes, are
  part of the work in between.
\<close>

datatype lock = IoLock | QueueLock

datatype lock_action = Acquire lock | Release lock | Work

definition put_actions :: "lock_action list" where
  "put_actions = [Acquire IoLock, Work, Acquire QueueLock, Work, Release QueueLock, Work, Release IoLock]"

definition finish_actions :: "lock_action list" where
  "finish_actions = [Acquire QueueLock, Work, Acquire IoLock, Work, Release IoLock, Release QueueLock]"

definition short_actions :: "lock_action list" where
  "short_actions = [Acquire QueueLock, Work, Release QueueLock]"

record lock_state =
  lk_owner :: "lock \<Rightarrow> nat option"
  lk_threads :: "lock_action list list"

definition lock_start :: "lock_action list list \<Rightarrow> lock_state" where
  "lock_start ps = \<lparr>lk_owner = (\<lambda>_. None), lk_threads = ps\<rparr>"

inductive lock_step :: "lock_state \<Rightarrow> lock_state \<Rightarrow> bool" where
  acquire: "i < length (lk_threads s) \<Longrightarrow> lk_threads s ! i = Acquire l # as \<Longrightarrow> lk_owner s l = None \<Longrightarrow>
    lock_step s \<lparr>lk_owner = (lk_owner s)(l \<mapsto> i), lk_threads = (lk_threads s)[i := as]\<rparr>"
| release: "i < length (lk_threads s) \<Longrightarrow> lk_threads s ! i = Release l # as \<Longrightarrow>
    lock_step s \<lparr>lk_owner = (lk_owner s)(l := None), lk_threads = (lk_threads s)[i := as]\<rparr>"
| work: "i < length (lk_threads s) \<Longrightarrow> lk_threads s ! i = Work # as \<Longrightarrow> lock_step s (s\<lparr>lk_threads := (lk_threads s)[i := as]\<rparr>)"

inductive_cases lock_stepE: "lock_step s s'"

definition stuck :: "lock_state \<Rightarrow> bool" where
  "stuck s \<longleftrightarrow> (\<exists>as\<in>set (lk_threads s). as \<noteq> []) \<and> \<not> (\<exists>s'. lock_step s s')"

section \<open>No deadlock without acknowledgements\<close>

text \<open>A thread holds a lock when it still has to release it and not to acquire it.\<close>

definition holds :: "lock \<Rightarrow> lock_action list \<Rightarrow> bool" where
  "holds l as \<longleftrightarrow> Release l \<in> set as \<and> Acquire l \<notin> set as"

definition ordered :: "lock_action list \<Rightarrow> bool" where
  "ordered as \<longleftrightarrow> as \<in> set (suffixes put_actions) \<union> set (suffixes short_actions)"

definition locks_ok :: "lock_state \<Rightarrow> bool" where
  "locks_ok s \<longleftrightarrow> (\<forall>as\<in>set (lk_threads s). ordered as) \<and>
     (\<forall>l i. lk_owner s l = Some i \<longleftrightarrow> i < length (lk_threads s) \<and> holds l (lk_threads s ! i))"

lemma ordered_cases:
  assumes "ordered as"
  shows "as \<in> {[], [Release IoLock], [Work, Release IoLock], [Release QueueLock, Work, Release IoLock], [Work, Release QueueLock, Work, Release IoLock],
    [Acquire QueueLock, Work, Release QueueLock, Work, Release IoLock], [Work, Acquire QueueLock, Work, Release QueueLock, Work, Release IoLock],
    put_actions, [Release QueueLock], [Work, Release QueueLock], short_actions}"
  using assms by (auto simp: ordered_def put_actions_def short_actions_def)

lemma ordered_tl: "ordered (a # as) \<Longrightarrow> ordered as"
  by (auto simp: ordered_def put_actions_def short_actions_def)

lemma ordered_acquire: "ordered (Acquire l # as) \<Longrightarrow> holds l as \<and> \<not> holds l (Acquire l # as) \<and> (\<forall>k. k \<noteq> l \<longrightarrow> holds k as = holds k (Acquire l # as))"
  by (cases l) (auto dest!: ordered_cases simp: holds_def put_actions_def short_actions_def)

lemma ordered_release: "ordered (Release l # as) \<Longrightarrow> \<not> holds l as \<and> holds l (Release l # as) \<and> (\<forall>k. k \<noteq> l \<longrightarrow> holds k as = holds k (Release l # as))"
  by (cases l) (auto dest!: ordered_cases simp: holds_def put_actions_def short_actions_def)

lemma holds_work: "holds l (Work # as) = holds l as"
  by (simp add: holds_def)

lemma locks_ok_start:
  assumes "set ps \<subseteq> {put_actions, short_actions}"
  shows "locks_ok (lock_start ps)"
proof -
  have "ps ! i \<in> {put_actions, short_actions}" if "i < length ps" for i using assms that by (meson nth_mem subsetD)
  then have "\<not> holds l (ps ! i)" if "i < length ps" for i l
    using that by (cases l) (fastforce simp: holds_def put_actions_def short_actions_def)+
  moreover have "ordered as" if "as \<in> set ps" for as using assms that by (auto simp: ordered_def)
  ultimately show ?thesis by (auto simp: locks_ok_def lock_start_def)
qed

lemma locks_ok_step:
  assumes "lock_step s s'" and "locks_ok s"
  shows "locks_ok s'"
proof -
  have ord: "ordered (lk_threads s ! i)" if "i < length (lk_threads s)" for i using assms(2) that by (simp add: locks_ok_def)
  have own: "lk_owner s l = Some i \<longleftrightarrow> i < length (lk_threads s) \<and> holds l (lk_threads s ! i)" for l i using assms(2) by (simp add: locks_ok_def)
  have upd: "\<forall>x\<in>set ((lk_threads s)[i := as]). ordered x" if "i < length (lk_threads s)" "lk_threads s ! i = a # as" for i a as
    using assms(2) ordered_tl[of a as] ord[OF that(1)] that(2) set_update_subset_insert[of "lk_threads s" i as] by (auto simp: locks_ok_def)
  show ?thesis using assms(1)
  proof cases
    case (acquire i l as)
    note o = ordered_acquire[of l as] ord[OF acquire(2)]
    have "lk_owner s' k = Some j \<longleftrightarrow> j < length (lk_threads s') \<and> holds k (lk_threads s' ! j)" for k j
      using own[of k j] own[of l j] o acquire by (cases "j = i"; cases "k = l") (auto simp: nth_list_update)
    then show ?thesis using upd[OF acquire(2,3)] acquire(1) by (simp add: locks_ok_def)
  next
    case (release i l as)
    note o = ordered_release[of l as] ord[OF release(2)]
    have "lk_owner s' k = Some j \<longleftrightarrow> j < length (lk_threads s') \<and> holds k (lk_threads s' ! j)" for k j
      using own[of k j] own[of l i] o release by (cases "j = i"; cases "k = l") (auto simp: nth_list_update)
    then show ?thesis using upd[OF release(2,3)] release(1) by (simp add: locks_ok_def)
  next
    case (work i as)
    have "lk_owner s' k = Some j \<longleftrightarrow> j < length (lk_threads s') \<and> holds k (lk_threads s' ! j)" for k j
      using own[of k j] work by (cases "j = i") (auto simp: nth_list_update holds_work)
    then show ?thesis using upd[OF work(2,3)] work(1) by (simp add: locks_ok_def)
  qed
qed

text \<open>A thread that is not waiting for a lock can go on.\<close>

lemma can_step:
  assumes "i < length (lk_threads s)" "lk_threads s ! i = a # as" "\<And>l. a = Acquire l \<Longrightarrow> lk_owner s l = None"
  shows "\<exists>s'. lock_step s s'"
  using assms lock_step.intros[of i s] by (cases a) blast+

lemma locks_ok_moves:
  assumes ok: "locks_ok s" and todo: "\<exists>as\<in>set (lk_threads s). as \<noteq> []"
  shows "\<exists>s'. lock_step s s'"
proof (cases "lk_owner s QueueLock")
  case (Some i)
  then have i: "i < length (lk_threads s)" "holds QueueLock (lk_threads s ! i)" "ordered (lk_threads s ! i)" using ok by (auto simp: locks_ok_def)
  then obtain a as where "lk_threads s ! i = a # as" "\<And>l. a \<noteq> Acquire l"
    by (auto dest!: ordered_cases simp: holds_def put_actions_def short_actions_def)
  then show ?thesis using can_step[OF i(1)] by blast
next
  case None
  show ?thesis
  proof (cases "lk_owner s IoLock")
    case (Some i)
    then have i: "i < length (lk_threads s)" "holds IoLock (lk_threads s ! i)" "ordered (lk_threads s ! i)" using ok by (auto simp: locks_ok_def)
    then obtain a as where "lk_threads s ! i = a # as" "a \<noteq> Acquire IoLock"
      by (auto dest!: ordered_cases simp: holds_def put_actions_def short_actions_def)
    then show ?thesis using can_step[OF i(1), of a as] None by (metis lock.exhaust)
  next
    case none: None
    obtain i where i: "i < length (lk_threads s)" "lk_threads s ! i \<noteq> []" using todo by (metis in_set_conv_nth)
    then obtain a as where "lk_threads s ! i = a # as" by (meson neq_Nil_conv)
    then show ?thesis using can_step[OF i(1), of a as] None none by (metis lock.exhaust)
  qed
qed

text \<open>
  C40. Calls of the file queue can deadlock, and acknowledgements are what it takes.  A \<^verbatim>\<open>put\<close> and an
  acknowledgement of a leased task running side by side can reach a state in which neither can go on;
  while any number of threads that call anything but \<^verbatim>\<open>ack\<close> and the final \<^verbatim>\<open>nack\<close> never do.
\<close>

theorem file_queue_deadlock:
  "(\<exists>s. lock_step\<^sup>*\<^sup>* (lock_start [put_actions, finish_actions]) s \<and> stuck s) \<and>
   (\<forall>ps s. set ps \<subseteq> {put_actions, short_actions} \<longrightarrow> lock_step\<^sup>*\<^sup>* (lock_start ps) s \<longrightarrow> \<not> stuck s)"
proof
  let ?s = "\<lambda>own p f. \<lparr>lk_owner = own, lk_threads = [p, f]\<rparr>"
  let ?none = "\<lambda>_. None" and ?p = "[Work, Acquire QueueLock, Work, Release QueueLock, Work, Release IoLock]"
    and ?f = "[Work, Acquire IoLock, Work, Release IoLock, Release QueueLock]"
  let ?last = "?s (?none(IoLock \<mapsto> 0, QueueLock \<mapsto> 1)) (tl ?p) (tl ?f)"
  have r1: "lock_step (lock_start [put_actions, finish_actions]) (?s (?none(IoLock \<mapsto> 0)) ?p finish_actions)"
    using acquire[of 0 "lock_start [put_actions, finish_actions]" IoLock ?p] by (simp add: lock_start_def put_actions_def)
  have r2: "lock_step (?s (?none(IoLock \<mapsto> 0)) ?p finish_actions) (?s (?none(IoLock \<mapsto> 0, QueueLock \<mapsto> 1)) ?p ?f)"
    using acquire[of 1 "?s (?none(IoLock \<mapsto> 0)) ?p finish_actions" QueueLock ?f] by (simp add: finish_actions_def)
  have r3: "lock_step (?s (?none(IoLock \<mapsto> 0, QueueLock \<mapsto> 1)) ?p ?f) (?s (?none(IoLock \<mapsto> 0, QueueLock \<mapsto> 1)) (tl ?p) ?f)"
    using work[of 0 "?s (?none(IoLock \<mapsto> 0, QueueLock \<mapsto> 1)) ?p ?f" "tl ?p"] by simp
  have r4: "lock_step (?s (?none(IoLock \<mapsto> 0, QueueLock \<mapsto> 1)) (tl ?p) ?f) ?last" using work[of 1 "?s (?none(IoLock \<mapsto> 0, QueueLock \<mapsto> 1)) (tl ?p) ?f" "tl ?f"] by simp
  have reach: "lock_step\<^sup>*\<^sup>* (lock_start [put_actions, finish_actions]) ?last"
    using r1 r2 r3 r4 by (meson converse_rtranclp_into_rtranclp rtranclp.rtrancl_refl)
  have "\<not> lock_step ?last s'" for s' by (auto elim!: lock_stepE simp: less_Suc_eq nth_Cons split: nat.splits)
  then have "stuck ?last" by (auto simp: stuck_def)
  then show "\<exists>s. lock_step\<^sup>*\<^sup>* (lock_start [put_actions, finish_actions]) s \<and> stuck s" using reach by blast
  have "locks_ok s" if "lock_step\<^sup>*\<^sup>* (lock_start ps) s" "set ps \<subseteq> {put_actions, short_actions}" for ps s
    using that by (induction rule: rtranclp_induct) (auto intro: locks_ok_start locks_ok_step)
  then show "\<forall>ps s. set ps \<subseteq> {put_actions, short_actions} \<longrightarrow> lock_step\<^sup>*\<^sup>* (lock_start ps) s \<longrightarrow> \<not> stuck s"
    using locks_ok_moves unfolding stuck_def by blast
qed

theorem file_queue_deadlock_witness:
  "set [put_actions, short_actions] \<subseteq> {put_actions, short_actions} \<and> \<not> stuck (lock_start [put_actions, short_actions])"
proof -
  have "lock_step\<^sup>*\<^sup>* (lock_start [put_actions, short_actions]) (lock_start [put_actions, short_actions])" by simp
  then have "\<not> stuck (lock_start [put_actions, short_actions])" using file_queue_deadlock by (metis insert_is_Un list.simps(15) list.set(1) set_eq_subset)
  then show ?thesis by simp
qed

end
