(* ===== verification/Policy_Conditions.thy ===== *)
theory Policy_Conditions
  imports Py_Values
begin

text \<open>
  The evaluator of policy invariants and guards (\<^verbatim>\<open>tm/policy/engine.py\<close>): the tokenizer of conditions,
  the parser that evaluates a condition while it reads it, and the checks of states, guards and
  traces.  The parser's position is the list of tokens still to read.  Its recursion carries fuel;
  one unit more than there are tokens is shown to be enough.  A grammar of conditions with a plain
  semantics is the reference the parser is compared with.
\<close>

section \<open>Violations and the evaluator\<close>

record policy_violation =
  pv_rule_id :: string
  pv_kind :: string
  pv_detail :: string
  pv_evidence :: "(string, val) dict option"

definition pv_to_dict :: "policy_violation \<Rightarrow> (string, val) dict" where
  "pv_to_dict v =
     [(''rule_id'', VStr (pv_rule_id v)), (''kind'', VStr (pv_kind v)), (''detail'', VStr (pv_detail v))] @
     (case pv_evidence v of None \<Rightarrow> [] | Some e \<Rightarrow> [(''evidence'', VDict e)])"

record policy_result =
  pr_violations :: "policy_violation list"

definition policy_succeeded :: "policy_result \<Rightarrow> bool" where
  "policy_succeeded r \<longleftrightarrow> pr_violations r = []"

definition policy_to_list :: "policy_result \<Rightarrow> val list" where
  "policy_to_list r = map (\<lambda>v. VDict (pv_to_dict v)) (pr_violations r)"

record policy_evaluator =
  pe_spec :: "(string, val) dict"
  pe_state_schema :: val
  pe_invariants :: "val list"
  pe_guards :: "val list"

definition make_evaluator :: "(string, val) dict \<Rightarrow> policy_evaluator result" where
  "make_evaluator spec =
     bind_result (iter_val (get_or spec ''invariants'' (VList []))) (\<lambda>invs.
     bind_result (iter_val (get_or spec ''guards'' (VList []))) (\<lambda>gds.
       Inr \<lparr>pe_spec = spec, pe_state_schema = get_or spec ''state_schema'' (VDict []),
            pe_invariants = invs, pe_guards = gds\<rparr>))"

section \<open>Tokens\<close>

text \<open>The class \<^verbatim>\<open>[A-Za-z0-9_.]\<close>.\<close>

definition word_char :: "char \<Rightarrow> bool" where
  "word_char c \<longleftrightarrow> is_alpha c \<or> is_digit c \<or> c = CHR ''_'' \<or> c = CHR ''.''"

function tokenize_condition :: "string \<Rightarrow> string list result" where
  "tokenize_condition [] = Inr []"
| "tokenize_condition (c # cs) =
     (if is_space c then tokenize_condition cs
      else if starts_with ''&&'' (c # cs) then
        bind_result (tokenize_condition (drop 1 cs)) (\<lambda>ts. Inr (''AND'' # ts))
      else if starts_with ''||'' (c # cs) then
        bind_result (tokenize_condition (drop 1 cs)) (\<lambda>ts. Inr (''OR'' # ts))
      else if c = CHR ''!'' then bind_result (tokenize_condition cs) (\<lambda>ts. Inr (''NOT'' # ts))
      else if c = CHR ''('' \<or> c = CHR '')'' then bind_result (tokenize_condition cs) (\<lambda>ts. Inr ([c] # ts))
      else if word_char c then
        bind_result (tokenize_condition (dropWhile word_char cs)) (\<lambda>ts. Inr ((c # takeWhile word_char cs) # ts))
      else Inl (ValueError (''invalid character in condition: '' @ quoted [c])))"
  by pat_completeness auto
termination
  by (relation "measure length") (auto simp: le_imp_less_Suc length_dropWhile_le)

declare tokenize_condition.simps(2) [simp del]

section \<open>Parsing and evaluating\<close>

text \<open>The value of an operand: a literal, or what the state has under the name.\<close>

definition has_suffix :: "string \<Rightarrow> string \<Rightarrow> bool" where
  "has_suffix suffix s \<longleftrightarrow> starts_with (rev suffix) (rev s)"

definition unvalidated :: string where
  "unvalidated = ''.unvalidated''"

definition operand_value :: "val \<Rightarrow> string \<Rightarrow> bool result" where
  "operand_value st token =
     (if str_lower token = ''true'' then Inr True
      else if str_lower token = ''false'' then Inr False
      else bind_result (mapping_of st) (\<lambda>d.
        let v = get_val d token in
        Inr (truthy (if v = VNone \<and> has_suffix unvalidated token
          then VBool (\<not> truthy (get_val d (take (length token - length unvalidated) token @ ''.validated'')))
          else v))))"

text \<open>
  The parser calls are arguments of the loops.  \<^verbatim>\<open>value or self._parse_term()\<close> does not call the
  parser when \<^verbatim>\<open>value\<close> is true, and likewise for \<^verbatim>\<open>and\<close>: the operand is then left among the tokens.
\<close>

type_synonym parser = "string list \<Rightarrow> (bool \<times> string list) result"

primrec conj_loop :: "parser \<Rightarrow> nat \<Rightarrow> bool \<Rightarrow> parser" where
  "conj_loop pf 0 v ts = Inl OutOfFuel"
| "conj_loop pf (Suc n) v ts = (case ts of
       [] \<Rightarrow> Inr (v, ts)
     | t # r \<Rightarrow>
         if t = ''AND'' then
           (if v then bind_result (pf r) (\<lambda>(v', r'). conj_loop pf n v' r')
            else conj_loop pf n False r)
         else Inr (v, ts))"

definition parse_term :: "parser \<Rightarrow> nat \<Rightarrow> parser" where
  "parse_term pf n ts = bind_result (pf ts) (\<lambda>(v, r). conj_loop pf n v r)"

primrec disj_loop :: "parser \<Rightarrow> nat \<Rightarrow> bool \<Rightarrow> parser" where
  "disj_loop pt 0 v ts = Inl OutOfFuel"
| "disj_loop pt (Suc n) v ts = (case ts of
       [] \<Rightarrow> Inr (v, ts)
     | t # r \<Rightarrow>
         if t = ''OR'' then
           (if v then disj_loop pt n True r
            else bind_result (pt r) (\<lambda>(v', r'). disj_loop pt n v' r'))
         else Inr (v, ts))"

definition parse_expression :: "parser \<Rightarrow> nat \<Rightarrow> parser" where
  "parse_expression pf n ts = bind_result (parse_term pf n ts) (\<lambda>(v, r). disj_loop (parse_term pf n) n v r)"

primrec parse_factor :: "val \<Rightarrow> nat \<Rightarrow> parser" where
  "parse_factor st 0 ts = Inl OutOfFuel"
| "parse_factor st (Suc n) ts = (case ts of
       [] \<Rightarrow> Inl (ValueError ''unexpected end of condition'')
     | t # r \<Rightarrow>
         if t = ''NOT'' then bind_result (parse_factor st n r) (\<lambda>(v, r'). Inr (\<not> v, r'))
         else if t = ''('' then
           bind_result (parse_expression (parse_factor st n) n r) (\<lambda>(v, r').
             if r' \<noteq> [] \<and> hd r' = '')'' then Inr (v, tl r')
             else Inl (ValueError ''missing closing parenthesis''))
         else bind_result (operand_value st t) (\<lambda>v. Inr (v, r)))"

definition run_condition :: "string \<Rightarrow> val \<Rightarrow> bool result" where
  "run_condition normalized st =
     bind_result (tokenize_condition normalized) (\<lambda>tokens.
     bind_result (let n = Suc (length tokens) in parse_expression (parse_factor st n) n tokens) (\<lambda>(v, r).
       if r \<noteq> [] then Inl (ValueError ''unexpected tokens'') else Inr v))"

definition matches_condition :: "string \<Rightarrow> val \<Rightarrow> bool result" where
  "matches_condition condition st =
     (let normalized = str_strip condition in
      if normalized = [] then Inr False
      else case run_condition normalized st of
          Inl (ValueError _) \<Rightarrow> Inr False
        | r \<Rightarrow> r)"

section \<open>Checks\<close>

definition invariant_condition :: "(val \<Rightarrow> string) \<Rightarrow> (string, val) dict \<Rightarrow> string" where
  "invariant_condition rep i = str_strip (py_str rep (get_or i ''condition'' (VStr [])))"

definition invariant_rule_id :: "(val \<Rightarrow> string) \<Rightarrow> (string, val) dict \<Rightarrow> string" where
  "invariant_rule_id rep i =
     py_str rep (get_or i ''id'' (get_or i ''rule_id'' (get_or i ''name'' (VStr ''unknown''))))"

definition check_never :: "(val \<Rightarrow> string) \<Rightarrow> val \<Rightarrow> val \<Rightarrow> policy_violation list result" where
  "check_never rep st invariant =
     bind_result (mapping_of invariant) (\<lambda>i.
       if get_val i ''type'' \<noteq> VStr ''never'' then Inr []
       else let condition = invariant_condition rep i in
         if condition = [] then Inr []
         else bind_result (matches_condition condition st) (\<lambda>m.
           if m then bind_result (mapping_of st) (\<lambda>d.
             Inr [\<lparr>pv_rule_id = invariant_rule_id rep i, pv_kind = ''invariant'',
                   pv_detail = py_str rep (get_or i ''description'' (VStr (''never '' @ condition))),
                   pv_evidence = Some [(''state_key'', VStr condition), (''value'', get_val d condition)]\<rparr>])
           else Inr []))"

definition check_state :: "(val \<Rightarrow> string) \<Rightarrow> policy_evaluator \<Rightarrow> val \<Rightarrow> policy_result result" where
  "check_state rep ev st =
     bind_result (map_result (check_never rep st) (pe_invariants ev)) (\<lambda>vss.
       Inr \<lparr>pr_violations = concat vss\<rparr>)"

definition guard_applies :: "(val \<Rightarrow> string) \<Rightarrow> val \<Rightarrow> val \<Rightarrow> bool" where
  "guard_applies rep required_for capability_id = (case required_for of
       VStr s \<Rightarrow> VStr s = capability_id
     | VList entries \<Rightarrow> list_ex (\<lambda>e. VStr (py_str rep e) = capability_id) entries
     | _ \<Rightarrow> False)"

definition guard_rule_id :: "(val \<Rightarrow> string) \<Rightarrow> (string, val) dict \<Rightarrow> string" where
  "guard_rule_id rep g = py_str rep (get_or g ''name'' (get_or g ''id'' (VStr ''guard'')))"

definition check_guard ::
  "(val \<Rightarrow> string) \<Rightarrow> val \<Rightarrow> (string, val) dict \<Rightarrow> val \<Rightarrow> policy_violation list result" where
  "check_guard rep capability_id decisions guard =
     bind_result (mapping_of guard) (\<lambda>g.
       if \<not> guard_applies rep (get_val g ''required_for'') capability_id then Inr []
       else let rule_id = guard_rule_id rep g in
         if truthy (get_val decisions rule_id) then Inr []
         else Inr [\<lparr>pv_rule_id = rule_id, pv_kind = ''guard'',
                    pv_detail = ''guard '' @ quoted rule_id @ '' unsatisfied for '' @ py_str rep capability_id,
                    pv_evidence = Some [(''guard'', guard), (''capability_id'', capability_id)]\<rparr>])"

definition policy_evaluate_guard ::
  "(val \<Rightarrow> string) \<Rightarrow> policy_evaluator \<Rightarrow> val \<Rightarrow> (string, val) dict option \<Rightarrow> policy_result result" where
  "policy_evaluate_guard rep ev capability_id decisions =
     bind_result (map_result (check_guard rep capability_id (case decisions of None \<Rightarrow> [] | Some d \<Rightarrow> d)) (pe_guards ev))
       (\<lambda>vss. Inr \<lparr>pr_violations = concat vss\<rparr>)"

definition trace_capability ::
  "(val \<Rightarrow> string) \<Rightarrow> (string, val) dict \<Rightarrow> (string, val) dict option \<Rightarrow> val" where
  "trace_capability rep trace event =
     (let c = get_val trace ''capability_id'' in
      case event of
        Some e \<Rightarrow>
          if e \<noteq> [] \<and> \<not> truthy c
          then VStr (py_str rep (get_or e ''capability_id'' (get_or e ''capability'' (VStr []))))
          else c
      | None \<Rightarrow> c)"

definition check_trace ::
  "(val \<Rightarrow> string) \<Rightarrow> policy_evaluator \<Rightarrow> (string, val) dict \<Rightarrow> (string, val) dict option \<Rightarrow>
    (string, val) dict option \<Rightarrow> policy_result result" where
  "check_trace rep ev trace decisions event =
     bind_result (check_state rep ev (get_or trace ''state_snapshot'' (get_or trace ''state'' (VDict [])))) (\<lambda>states.
       let capability_id = trace_capability rep trace event in
       if truthy capability_id then
         bind_result (policy_evaluate_guard rep ev capability_id decisions) (\<lambda>guards.
           Inr \<lparr>pr_violations = pr_violations states @ pr_violations guards\<rparr>)
       else Inr states)"

section \<open>The fuel suffices\<close>

text \<open>A parser that never runs out of fuel on fewer than \<open>n\<close> tokens, and leaves fewer than it got.\<close>

definition fuelled :: "parser \<Rightarrow> nat \<Rightarrow> bool" where
  "fuelled p n \<longleftrightarrow> (\<forall>ts. length ts < n \<longrightarrow>
     (case p ts of Inl e \<Rightarrow> e \<noteq> OutOfFuel | Inr (v, r) \<Rightarrow> length r < length ts))"

lemma fuelledI:
  assumes "\<And>ts. length ts < n \<Longrightarrow> p ts \<noteq> Inl OutOfFuel"
    and "\<And>ts v r. length ts < n \<Longrightarrow> p ts = Inr (v, r) \<Longrightarrow> length r < length ts"
  shows "fuelled p n"
  using assms by (fastforce simp: fuelled_def split: sum.splits)

lemma fuelledD:
  assumes "fuelled p n" "length ts < n"
  shows "p ts \<noteq> Inl OutOfFuel" "p ts = Inr (v, r) \<Longrightarrow> length r < length ts"
  using assms by (force simp: fuelled_def split: sum.splits)+

lemma conj_loop_fuelled:
  assumes "fuelled pf n" "length ts < n" "length ts < m"
  shows "conj_loop pf m v ts \<noteq> Inl OutOfFuel \<and> (conj_loop pf m v ts = Inr (w, r) \<longrightarrow> length r \<le> length ts)"
  using assms(2,3)
proof (induction m arbitrary: v ts)
  case (Suc m)
  show ?case
  proof (cases "ts \<noteq> [] \<and> hd ts = ''AND''")
    case True
    then obtain r0 where ts: "ts = ''AND'' # r0" by (cases ts) auto
    have r0: "length r0 < n" "length r0 < m" using Suc.prems ts by auto
    show ?thesis
    proof (cases v)
      case True
      show ?thesis
      proof (cases "pf r0")
        case (Inl e)
        then show ?thesis using fuelledD[OF assms(1) r0(1)] True ts by auto
      next
        case (Inr x)
        obtain v' r' where x: "x = (v', r')" by (cases x)
        have "length r' < length r0" using fuelledD(2)[OF assms(1) r0(1)] Inr x by simp
        then show ?thesis using Suc.IH[of r' v'] r0 Inr x True ts by auto
      qed
    next
      case False
      then show ?thesis using Suc.IH[of r0 False] r0 ts by auto
    qed
  next
    case False
    then show ?thesis by (cases ts) auto
  qed
qed simp

lemma disj_loop_fuelled:
  assumes "fuelled pt n" "length ts < n" "length ts < m"
  shows "disj_loop pt m v ts \<noteq> Inl OutOfFuel \<and> (disj_loop pt m v ts = Inr (w, r) \<longrightarrow> length r \<le> length ts)"
  using assms(2,3)
proof (induction m arbitrary: v ts)
  case (Suc m)
  show ?case
  proof (cases "ts \<noteq> [] \<and> hd ts = ''OR''")
    case True
    then obtain r0 where ts: "ts = ''OR'' # r0" by (cases ts) auto
    have r0: "length r0 < n" "length r0 < m" using Suc.prems ts by auto
    show ?thesis
    proof (cases v)
      case True
      then show ?thesis using Suc.IH[of r0 True] r0 ts by auto
    next
      case False
      show ?thesis
      proof (cases "pt r0")
        case (Inl e)
        then show ?thesis using fuelledD[OF assms(1) r0(1)] False ts by auto
      next
        case (Inr x)
        obtain v' r' where x: "x = (v', r')" by (cases x)
        have "length r' < length r0" using fuelledD(2)[OF assms(1) r0(1)] Inr x by simp
        then show ?thesis using Suc.IH[of r' v'] r0 Inr x False ts by auto
      qed
    qed
  next
    case False
    then show ?thesis by (cases ts) auto
  qed
qed simp

lemma parse_term_fuelled:
  assumes "fuelled pf n"
  shows "fuelled (parse_term pf n) n"
proof (rule fuelledI)
  fix ts :: "string list" assume ts: "length ts < n"
  note pf = fuelledD[OF assms ts]
  show "parse_term pf n ts \<noteq> Inl OutOfFuel"
  proof
    assume "parse_term pf n ts = Inl OutOfFuel"
    then obtain v r where "pf ts = Inr (v, r)" "conj_loop pf n v r = Inl OutOfFuel"
      using pf(1) by (auto simp: parse_term_def result_simps)
    then show False using conj_loop_fuelled[OF assms, of r n v] pf(2) ts by fastforce
  qed
  fix w r' assume "parse_term pf n ts = Inr (w, r')"
  then obtain v r where "pf ts = Inr (v, r)" "conj_loop pf n v r = Inr (w, r')"
    by (auto simp: parse_term_def result_simps)
  then show "length r' < length ts" using conj_loop_fuelled[OF assms, of r n v w r'] pf(2) ts by fastforce
qed

lemma parse_expression_fuelled:
  assumes "fuelled pf n"
  shows "fuelled (parse_expression pf n) n"
proof (rule fuelledI)
  fix ts :: "string list" assume ts: "length ts < n"
  note pt = parse_term_fuelled[OF assms]
  note D = fuelledD[OF pt ts]
  show "parse_expression pf n ts \<noteq> Inl OutOfFuel"
  proof
    assume "parse_expression pf n ts = Inl OutOfFuel"
    then obtain v r where "parse_term pf n ts = Inr (v, r)" "disj_loop (parse_term pf n) n v r = Inl OutOfFuel"
      using D(1) by (auto simp: parse_expression_def result_simps)
    then show False using disj_loop_fuelled[OF pt, of r n v] D(2) ts by fastforce
  qed
  fix w r' assume "parse_expression pf n ts = Inr (w, r')"
  then obtain v r where "parse_term pf n ts = Inr (v, r)" "disj_loop (parse_term pf n) n v r = Inr (w, r')"
    by (auto simp: parse_expression_def result_simps)
  then show "length r' < length ts" using disj_loop_fuelled[OF pt, of r n v w r'] D(2) ts by fastforce
qed

lemma operand_value_fuel: "operand_value st t \<noteq> Inl OutOfFuel"
  by (cases st) (auto simp: operand_value_def mapping_of_def Let_def)

lemma parse_factor_fuelled: "fuelled (parse_factor st n) n"
proof (induction n)
  case (Suc n)
  note pe = parse_expression_fuelled[OF Suc]
  show ?case
  proof (rule fuelledI)
    fix ts :: "string list" assume ts: "length ts < Suc n"
    show "parse_factor st (Suc n) ts \<noteq> Inl OutOfFuel"
      using ts fuelledD(1)[OF Suc, of "tl ts"] fuelledD(1)[OF pe, of "tl ts"] operand_value_fuel
      by (auto simp: result_simps split: list.splits if_splits)
    fix v r assume "parse_factor st (Suc n) ts = Inr (v, r)"
    then show "length r < length ts"
      using ts fuelledD(2)[OF Suc, of "tl ts"] fuelledD(2)[OF pe, of "tl ts"]
      by (fastforce simp: result_simps split: list.splits if_splits)
  qed
qed (simp add: fuelled_def)

lemma tokenize_condition_fuel: "tokenize_condition s \<noteq> Inl OutOfFuel"
  by (induction s rule: tokenize_condition.induct) (auto simp: tokenize_condition.simps(2) result_simps)

lemma run_condition_fuel: "run_condition s st \<noteq> Inl OutOfFuel"
  using tokenize_condition_fuel fuelledD(1)[OF parse_expression_fuelled[OF parse_factor_fuelled]]
  by (auto simp: run_condition_def Let_def result_simps split: if_splits)

section \<open>Conditions as trees\<close>

text \<open>
  The grammar the parser is written for, with the words that are not operators as operands, the
  tokens of a condition, and its truth in a state.
\<close>

datatype cfactor = CAtom string | CNot cfactor | CParen cexpr
and cterm = CSingle cfactor | CAnd cfactor cterm
and cexpr = COne cterm | COr cterm cexpr

primrec toks_f :: "cfactor \<Rightarrow> string list" and toks_t :: "cterm \<Rightarrow> string list" and toks_e :: "cexpr \<Rightarrow> string list" where
  "toks_f (CAtom a) = [a]"
| "toks_f (CNot f) = ''NOT'' # toks_f f"
| "toks_f (CParen e) = ''('' # toks_e e @ ['')'']"
| "toks_t (CSingle f) = toks_f f"
| "toks_t (CAnd f t) = toks_f f @ ''AND'' # toks_t t"
| "toks_e (COne t) = toks_t t"
| "toks_e (COr t e) = toks_t t @ ''OR'' # toks_e e"

definition operand :: "string \<Rightarrow> bool" where
  "operand a \<longleftrightarrow> a \<noteq> [] \<and> list_all word_char a \<and> a \<notin> {''AND'', ''OR'', ''NOT''}"

primrec wf_f :: "cfactor \<Rightarrow> bool" and wf_t :: "cterm \<Rightarrow> bool" and wf_e :: "cexpr \<Rightarrow> bool" where
  "wf_f (CAtom a) = operand a"
| "wf_f (CNot f) = wf_f f"
| "wf_f (CParen e) = wf_e e"
| "wf_t (CSingle f) = wf_f f"
| "wf_t (CAnd f t) = (wf_f f \<and> wf_t t)"
| "wf_e (COne t) = wf_t t"
| "wf_e (COr t e) = (wf_t t \<and> wf_e e)"

definition atom_true :: "(string, val) dict \<Rightarrow> string \<Rightarrow> bool" where
  "atom_true d a = returns (operand_value (VDict d) a) (\<lambda>b. b)"

lemma operand_value_atom: "operand_value (VDict d) a = Inr (atom_true d a)"
  by (auto simp: operand_value_def atom_true_def returns_def Let_def)

primrec holds_f :: "(string, val) dict \<Rightarrow> cfactor \<Rightarrow> bool"
and holds_t :: "(string, val) dict \<Rightarrow> cterm \<Rightarrow> bool"
and holds_e :: "(string, val) dict \<Rightarrow> cexpr \<Rightarrow> bool" where
  "holds_f d (CAtom a) = atom_true d a"
| "holds_f d (CNot f) = (\<not> holds_f d f)"
| "holds_f d (CParen e) = holds_e d e"
| "holds_t d (CSingle f) = holds_f d f"
| "holds_t d (CAnd f t) = (holds_f d f \<and> holds_t d t)"
| "holds_e d (COne t) = holds_t d t"
| "holds_e d (COr t e) = (holds_t d t \<or> holds_e d e)"

text \<open>
  What the parser makes of a condition: a truth value when it reads all of it, and nothing when it
  leaves an operand behind, which is as soon as an operand before the last one decides the result.
\<close>

primrec read_f :: "(string, val) dict \<Rightarrow> cfactor \<Rightarrow> bool option"
and read_t :: "(string, val) dict \<Rightarrow> cterm \<Rightarrow> bool option"
and read_e :: "(string, val) dict \<Rightarrow> cexpr \<Rightarrow> bool option" where
  "read_f d (CAtom a) = Some (atom_true d a)"
| "read_f d (CNot f) = map_option Not (read_f d f)"
| "read_f d (CParen e) = read_e d e"
| "read_t d (CSingle f) = read_f d f"
| "read_t d (CAnd f t) = (if read_f d f = Some True then read_t d t else None)"
| "read_e d (COne t) = read_t d t"
| "read_e d (COr t e) = (if read_t d t = Some False then read_e d e else None)"

lemma read_holds:
  "read_f d f = Some b \<Longrightarrow> holds_f d f = b"
  "read_t d t = Some b \<Longrightarrow> holds_t d t = b"
  "read_e d e = Some b \<Longrightarrow> holds_e d e = b"
  by (induction f and t and e arbitrary: b and b and b) (auto split: if_splits)

text \<open>A conjunction of operands and negated operands.\<close>

fun literal :: "cfactor \<Rightarrow> bool" where
  "literal (CAtom a) = True"
| "literal (CNot f) = literal f"
| "literal (CParen e) = False"

fun conjunctive :: "cexpr \<Rightarrow> bool" where
  "conjunctive (COne (CSingle f)) = literal f"
| "conjunctive (COne (CAnd f t)) = (literal f \<and> conjunctive (COne t))"
| "conjunctive (COr t e) = False"

lemma literal_read: "literal f \<Longrightarrow> read_f d f = Some (holds_f d f)"
  by (induction f rule: literal.induct) auto

lemma conjunctive_read: "conjunctive e \<Longrightarrow> read_e d e = Some True \<longleftrightarrow> holds_e d e"
  by (induction e rule: conjunctive.induct) (auto simp: literal_read split: if_splits)

section \<open>What the parser computes\<close>

definition operator_token :: "string \<Rightarrow> bool" where
  "operator_token t \<longleftrightarrow> t \<in> {''OR'', ''AND'', '')''}"

text \<open>The result of a parser on tokens that continue with \<open>rest\<close>.\<close>

definition leads :: "bool option \<Rightarrow> string list \<Rightarrow> (bool \<times> string list) result \<Rightarrow> bool" where
  "leads res rest r = (case res of
       Some b \<Rightarrow> r = Inr (b, rest)
     | None \<Rightarrow> (case r of
          Inl e \<Rightarrow> (case e of ValueError _ \<Rightarrow> True | _ \<Rightarrow> False)
        | Inr (_, left) \<Rightarrow> left \<noteq> [] \<and> \<not> operator_token (hd left)))"

lemma leads_Some [simp]: "leads (Some b) rest r \<longleftrightarrow> r = Inr (b, rest)"
  by (simp add: leads_def)

lemma leads_None_simps [simp]:
  "leads None rest (Inl (ValueError m))"
  "leads None rest (Inr (v, left)) \<longleftrightarrow> left \<noteq> [] \<and> \<not> operator_token (hd left)"
  by (simp_all add: leads_def)

lemma leads_NoneE:
  assumes "leads None rest r"
  obtains (failed) m where "r = Inl (ValueError m)"
    | (left) v t ts where "r = Inr (v, t # ts)" "\<not> operator_token t"
proof (cases r)
  case (Inl e)
  then show ?thesis using assms failed by (cases e) (auto simp: leads_def)
next
  case (Inr x)
  obtain v l where x: "x = (v, l)" by (cases x)
  show ?thesis using assms left Inr x by (cases l) auto
qed

lemma operand_tokens:
  "wf_f f \<Longrightarrow> toks_f f \<noteq> [] \<and> \<not> operator_token (hd (toks_f f))"
  "wf_t t \<Longrightarrow> toks_t t \<noteq> [] \<and> \<not> operator_token (hd (toks_t t))"
  "wf_e e \<Longrightarrow> toks_e e \<noteq> [] \<and> \<not> operator_token (hd (toks_e e))"
proof (induction f and t and e)
  case (CAtom a)
  have "\<not> word_char (CHR '')'')" by (simp add: word_char_def is_alpha_def is_digit_def)
  then show ?case using CAtom by (auto simp: operand_def operator_token_def)
qed (auto simp: operator_token_def)

lemma operand_not_special: "operand a \<Longrightarrow> a \<noteq> ''NOT'' \<and> a \<noteq> ''(''"
  by (auto simp: operand_def word_char_def is_alpha_def is_digit_def)

lemma conj_loop_leaves: "0 < m \<Longrightarrow> ts = [] \<or> hd ts \<noteq> ''AND'' \<Longrightarrow> conj_loop pf m v ts = Inr (v, ts)"
  by (cases m; cases ts) auto

lemma disj_loop_leaves: "0 < m \<Longrightarrow> ts = [] \<or> hd ts \<noteq> ''OR'' \<Longrightarrow> disj_loop pt m v ts = Inr (v, ts)"
  by (cases m; cases ts) auto

lemma leads_and:
  assumes "leads None rest r" "0 < m"
  shows "leads None rest' (bind_result r (\<lambda>(v, ts). conj_loop pf m v ts))"
  using assms(1) by (rule leads_NoneE) (use assms(2) in \<open>auto simp: conj_loop_leaves operator_token_def\<close>)

lemma leads_or:
  assumes "leads None rest r" "0 < m"
  shows "leads None rest' (bind_result r (\<lambda>(v, ts). disj_loop pt m v ts))"
  using assms(1) by (rule leads_NoneE) (use assms(2) in \<open>auto simp: disj_loop_leaves operator_token_def\<close>)

lemma parse_reads:
  "wf_f f \<Longrightarrow> length (toks_f f @ rest) < n \<Longrightarrow>
     leads (read_f d f) rest (parse_factor (VDict d) n (toks_f f @ rest))"
  "wf_t t \<Longrightarrow> length (toks_t t @ rest) < n \<Longrightarrow> length (toks_t t @ rest) < m \<Longrightarrow>
     rest = [] \<or> hd rest \<noteq> ''AND'' \<Longrightarrow>
     leads (read_t d t) rest (parse_term (parse_factor (VDict d) n) m (toks_t t @ rest))"
  "wf_e e \<Longrightarrow> length (toks_e e @ rest) < n \<Longrightarrow> length (toks_e e @ rest) < m \<Longrightarrow>
     rest = [] \<or> hd rest \<notin> {''AND'', ''OR''} \<Longrightarrow>
     leads (read_e d e) rest
       (bind_result (parse_term (parse_factor (VDict d) n) n (toks_e e @ rest))
          (\<lambda>(v, r). disj_loop (parse_term (parse_factor (VDict d) n) n) m v r))"
proof (induction f and t and e arbitrary: rest n and rest n m and rest n m)
  case (CAtom a)
  then show ?case using operand_not_special[of a] by (cases n) (auto simp: operand_value_atom)
next
  case (CNot f)
  then obtain k where n: "n = Suc k" by (cases n) auto
  have "leads (read_f d f) rest (parse_factor (VDict d) k (toks_f f @ rest))" using CNot n by simp
  then show ?case by (cases "read_f d f") (auto simp: n elim: leads_NoneE)
next
  case (CParen e)
  then obtain k where n: "n = Suc k" by (cases n) auto
  have "leads (read_e d e) ('')'' # rest) (parse_expression (parse_factor (VDict d) k) k (toks_e e @ '')'' # rest))"
    unfolding parse_expression_def using CParen n by simp
  then show ?case by (cases "read_e d e") (auto simp: n operator_token_def elim: leads_NoneE)
next
  case (CSingle f)
  have "leads (read_f d f) rest (parse_factor (VDict d) n (toks_f f @ rest))" using CSingle by simp
  moreover have "0 < m" using CSingle by simp
  ultimately show ?case using CSingle.prems(4) leads_and[of rest]
    by (cases "read_f d f") (auto simp: parse_term_def conj_loop_leaves)
next
  case (CAnd f t)
  let ?pf = "parse_factor (VDict d) n"
  obtain k where m: "m = Suc k" using CAnd.prems by (cases m) auto
  have f: "leads (read_f d f) (''AND'' # toks_t t @ rest) (?pf (toks_t (CAnd f t) @ rest))"
    using CAnd.IH(1)[of "''AND'' # toks_t t @ rest" n] CAnd.prems by simp
  have t: "leads (read_t d t) rest (parse_term ?pf k (toks_t t @ rest))"
    using CAnd.IH(2)[of rest n k] CAnd.prems m by simp
  have ft: "toks_t t \<noteq> []" "\<not> operator_token (hd (toks_t t))" using operand_tokens(2) CAnd.prems by auto
  have k: "0 < k" using CAnd.prems m ft(1) by simp
  consider (none) "read_f d f = None" | (true) "read_f d f = Some True" | (false) "read_f d f = Some False" by fastforce
  then show ?case
  proof cases
    case none
    then show ?thesis using f leads_and[of _ "?pf (toks_t (CAnd f t) @ rest)" m] CAnd.prems by (simp add: parse_term_def)
  next
    case true
    then show ?thesis using f t by (simp add: parse_term_def m)
  next
    case false
    have "conj_loop ?pf k False (toks_t t @ rest) = Inr (False, toks_t t @ rest)"
      using ft k by (intro conj_loop_leaves) (auto simp: operator_token_def)
    then show ?thesis using false f ft by (simp add: parse_term_def m)
  qed
next
  case (COne t)
  have t: "leads (read_t d t) rest (parse_term (parse_factor (VDict d) n) n (toks_t t @ rest))" using COne by auto
  moreover have "0 < m" using COne by simp
  ultimately show ?case using COne.prems(4) leads_or[of rest]
    by (cases "read_t d t") (auto simp: disj_loop_leaves)
next
  case (COr t e)
  let ?pt = "parse_term (parse_factor (VDict d) n) n"
  obtain k where m: "m = Suc k" using COr.prems by (cases m) auto
  have t: "leads (read_t d t) (''OR'' # toks_e e @ rest) (?pt (toks_e (COr t e) @ rest))"
    using COr.IH(1)[of "''OR'' # toks_e e @ rest" n n] COr.prems by simp
  have e: "leads (read_e d e) rest (bind_result (?pt (toks_e e @ rest)) (\<lambda>(v, r). disj_loop ?pt k v r))"
    using COr.IH(2)[of rest n k] COr.prems m by simp
  have ft: "toks_e e \<noteq> []" "\<not> operator_token (hd (toks_e e))" using operand_tokens(3) COr.prems by auto
  have k: "0 < k" using COr.prems m ft(1) by simp
  consider (none) "read_t d t = None" | (true) "read_t d t = Some True" | (false) "read_t d t = Some False" by fastforce
  then show ?case
  proof cases
    case none
    then show ?thesis using t leads_or[of _ "?pt (toks_e (COr t e) @ rest)" m] COr.prems by simp
  next
    case false
    then show ?thesis using t e by (simp add: m)
  next
    case true
    have "disj_loop ?pt k True (toks_e e @ rest) = Inr (True, toks_e e @ rest)"
      using ft k by (intro disj_loop_leaves) (auto simp: operator_token_def)
    then show ?thesis using true t ft by (simp add: m)
  qed
qed

text \<open>A text reads as a condition when its tokens are those of the condition, in any spacing.\<close>

definition reads_as :: "string \<Rightarrow> cexpr \<Rightarrow> bool" where
  "reads_as text e \<longleftrightarrow> tokenize_condition (str_strip text) = Inr (toks_e e) \<and> wf_e e"

lemma matches_condition_read:
  assumes "reads_as text e"
  shows "matches_condition text (VDict d) = Inr (read_e d e = Some True)"
proof -
  let ?s = "str_strip text" and ?n = "Suc (length (toks_e e))"
  have tok: "tokenize_condition ?s = Inr (toks_e e)" and wf: "wf_e e" using assms by (auto simp: reads_as_def)
  have ne: "?s \<noteq> []" using tok operand_tokens(3)[OF wf] by (metis sum.inject(2) tokenize_condition.simps(1))
  have "leads (read_e d e) [] (parse_expression (parse_factor (VDict d) ?n) ?n (toks_e e))"
    using parse_reads(3)[OF wf, of "[]" ?n ?n] by (simp add: parse_expression_def)
  then show ?thesis using tok ne
    by (cases "read_e d e") (auto simp: matches_condition_def run_condition_def Let_def elim!: leads_NoneE)
qed

section \<open>Printing\<close>

definition tok_text :: "string \<Rightarrow> string" where
  "tok_text t = (if t = ''AND'' then ''&&'' else if t = ''OR'' then ''||'' else if t = ''NOT'' then ''!'' else t)"

definition print_condition :: "cexpr \<Rightarrow> string" where
  "print_condition e = str_join '' '' (map tok_text (toks_e e))"

definition token :: "string \<Rightarrow> bool" where
  "token t \<longleftrightarrow> t \<in> {''AND'', ''OR'', ''NOT'', ''('', '')''} \<or> operand t"

lemma tokens_of_condition:
  "wf_f f \<Longrightarrow> list_all token (toks_f f)"
  "wf_t t \<Longrightarrow> list_all token (toks_t t)"
  "wf_e e \<Longrightarrow> list_all token (toks_e e)"
  by (induction f and t and e) (auto simp: token_def)

lemma word_char_plain: "word_char c \<Longrightarrow> \<not> is_space c \<and> c \<noteq> CHR ''&'' \<and> c \<noteq> CHR ''|'' \<and> c \<noteq> CHR ''!'' \<and> c \<noteq> CHR ''('' \<and> c \<noteq> CHR '')''"
  by (auto simp: word_char_def is_space_def is_alpha_def is_digit_def Let_def)

lemma tokenize_word:
  assumes "operand a" "rest = [] \<or> is_space (hd rest)"
  shows "tokenize_condition (a @ rest) = bind_result (tokenize_condition rest) (\<lambda>ts. Inr (a # ts))"
proof -
  obtain c cs where a: "a = c # cs" using assms(1) by (cases a) (auto simp: operand_def)
  have c: "word_char c" and cs: "list_all word_char cs" using assms(1) a by (auto simp: operand_def)
  have "rest = [] \<or> \<not> word_char (hd rest)" using assms(2) word_char_plain by blast
  then have "takeWhile word_char (cs @ rest) = cs" "dropWhile word_char (cs @ rest) = rest"
    using cs by (induction cs) (cases rest; auto)+
  then show ?thesis using word_char_plain[OF c] c a by (auto simp: tokenize_condition.simps(2))
qed

lemma tokenize_token:
  assumes "token t" "rest = [] \<or> is_space (hd rest)"
  shows "tokenize_condition (tok_text t @ rest) = bind_result (tokenize_condition rest) (\<lambda>ts. Inr (t # ts))"
proof (cases "operand t")
  case True
  then have "tok_text t = t" by (auto simp: tok_text_def operand_def)
  then show ?thesis using tokenize_word[OF True assms(2)] by simp
next
  case False
  then show ?thesis using assms(1)
    by (auto simp: token_def tok_text_def tokenize_condition.simps(2) is_space_def)
qed

lemma tokenize_text: "list_all token ts \<Longrightarrow> tokenize_condition (str_join '' '' (map tok_text ts)) = Inr ts"
proof (induction "'' ''" "map tok_text ts" arbitrary: ts rule: str_join.induct)
  case (2 x)
  then obtain t where "ts = [t]" by auto
  then show ?case using tokenize_token[of t "[]"] 2 by simp
next
  case (3 x y ys)
  then obtain t us where ts: "ts = t # us" "map tok_text us = y # ys" by (cases ts) auto
  have us: "tokenize_condition (str_join '' '' (map tok_text us)) = Inr us"
    using 3(1)[of us] 3(3) ts by simp
  have "tokenize_condition (tok_text t @ CHR '' '' # str_join '' '' (map tok_text us)) = Inr ts"
    using tokenize_token[of t "CHR '' '' # str_join '' '' (map tok_text us)"] us 3(3) ts
    by (simp add: is_space_def tokenize_condition.simps(2))
  then show ?case using ts by simp
qed simp

lemma tok_text_plain: "token t \<Longrightarrow> tok_text t \<noteq> [] \<and> (\<forall>c\<in>set (tok_text t). \<not> is_space c)"
proof (cases "operand t")
  case True
  then have "tok_text t = t" "t \<noteq> []" "\<forall>c\<in>set t. word_char c" by (auto simp: tok_text_def operand_def list_all_iff)
  then show ?thesis using word_char_plain by auto
next
  case False
  then show "token t \<Longrightarrow> ?thesis" by (auto simp: token_def tok_text_def is_space_def)
qed

lemma text_ends:
  assumes "list_all token ts" "ts \<noteq> []"
  shows "str_join '' '' (map tok_text ts) \<noteq> [] \<and> \<not> is_space (last (str_join '' '' (map tok_text ts)))
    \<and> \<not> is_space (hd (str_join '' '' (map tok_text ts)))"
  using assms
proof (induction "'' ''" "map tok_text ts" arbitrary: ts rule: str_join.induct)
  case (2 x)
  then obtain t where "ts = [t]" by auto
  then show ?case using tok_text_plain[of t] 2 by simp
next
  case (3 x y ys)
  then obtain t us where ts: "ts = t # us" "map tok_text us = y # ys" by (cases ts) auto
  have "us \<noteq> []" using ts by auto
  then have us: "str_join '' '' (y # ys) \<noteq> [] \<and> \<not> is_space (last (str_join '' '' (y # ys)))"
    using 3(1)[of us] 3(3) ts by simp
  have "tok_text t \<noteq> []" "\<not> is_space (hd (tok_text t))" using tok_text_plain[of t] 3(3) ts by auto
  then show ?case using us ts by simp
qed simp

lemma str_strip_plain:
  assumes "s \<noteq> []" "\<not> is_space (hd s)" "\<not> is_space (last s)"
  shows "str_strip s = s"
proof -
  have "dropWhile is_space xs = xs" if "xs \<noteq> []" "\<not> is_space (hd xs)" for xs using that by (cases xs) auto
  then show ?thesis using assms by (simp add: str_strip_def hd_rev)
qed

lemma print_reads:
  assumes "wf_e e"
  shows "reads_as (print_condition e) e"
proof -
  note t = tokens_of_condition(3)[OF assms] and ne = conjunct1[OF operand_tokens(3)[OF assms]]
  have "str_strip (print_condition e) = print_condition e"
    unfolding print_condition_def using text_ends[OF t ne] by (intro str_strip_plain) auto
  then show ?thesis using tokenize_text[OF t] assms by (simp add: reads_as_def print_condition_def)
qed

section \<open>Verdicts\<close>

text \<open>
  C22. The condition evaluator is sound: a condition of the grammar is never reported as true in a state
  where it is false, and the exact result is that of \<open>read_e\<close>, so a conjunction of (negated) operands
  is decided correctly.  Every condition has a text that reads as it.
\<close>

theorem condition_verdict:
  assumes "reads_as text e"
  shows "matches_condition text (VDict d) = Inr (read_e d e = Some True) \<and>
    (matches_condition text (VDict d) = Inr True \<longrightarrow> holds_e d e) \<and>
    (conjunctive e \<longrightarrow> matches_condition text (VDict d) = Inr (holds_e d e)) \<and>
    reads_as (print_condition e) e"
proof -
  note m = matches_condition_read[OF assms, of d]
  have "reads_as (print_condition e) e" using assms print_reads by (simp add: reads_as_def)
  then show ?thesis using m read_holds(3) conjunctive_read by auto
qed

text \<open>The condition \<^verbatim>\<open>external.write.performed && !result.validated\<close> of the reference workflow.\<close>

definition reference_condition :: cexpr where
  "reference_condition = COne (CAnd (CAtom ''external.write.performed'') (CSingle (CNot (CAtom ''result.validated''))))"

lemmas condition_run_simps = operand_def word_char_def is_alpha_def is_digit_def is_space_def Let_def
  atom_true_def operand_value_def returns_def get_val_def dict_get_or_def str_lower_def lower_char_def
  has_suffix_def unvalidated_def

lemma reference_condition_wf: "wf_e reference_condition" "conjunctive reference_condition"
  by (simp_all add: reference_condition_def condition_run_simps)

theorem condition_verdict_witness:
  "matches_condition (print_condition reference_condition) (VDict [(''external.write.performed'', VBool True)]) = Inr True"
proof -
  note wf = reference_condition_wf
  have "holds_e [(''external.write.performed'', VBool True)] reference_condition"
    by (simp add: reference_condition_def condition_run_simps)
  then show ?thesis
    using condition_verdict[OF print_reads[OF wf(1)], of "[(''external.write.performed'', VBool True)]"] wf(2) by auto
qed

text \<open>
  A disjunction whose first operand is true, and a conjunction under a negation whose first operand is
  false, are true and not matched; a disjunction that ends after the operator is matched.
\<close>

lemma disjunction_missed:
  "matches_condition ''a || b'' (VDict [(''a'', VBool True)]) = Inr False"
  "matches_condition ''!(a && b)'' (VDict []) = Inr False"
  "matches_condition ''a ||'' (VDict [(''a'', VBool True)]) = Inr True"
  by code_simp+

section \<open>Traces\<close>

definition watched :: "(val \<Rightarrow> string) \<Rightarrow> (string, val) dict \<Rightarrow> bool" where
  "watched rep i \<longleftrightarrow> get_val i ''type'' = VStr ''never'' \<and> invariant_condition rep i \<noteq> []"

lemma check_never_read:
  assumes "watched rep i \<Longrightarrow> reads_as (invariant_condition rep i) e"
  shows "\<exists>vs. check_never rep (VDict d) (VDict i) = Inr vs \<and> (vs = [] \<longleftrightarrow> \<not> (watched rep i \<and> read_e d e = Some True))"
proof (cases "watched rep i")
  case True
  then show ?thesis using matches_condition_read[OF assms[OF True], of d]
    by (simp add: check_never_def watched_def Let_def)
next
  case False
  then show ?thesis by (auto simp: check_never_def watched_def Let_def)
qed

lemma map_result_concat_Nil:
  assumes "\<And>x. x \<in> set xs \<Longrightarrow> \<exists>vs. f x = Inr vs \<and> (vs = [] \<longleftrightarrow> \<not> P x)"
  shows "\<exists>vss. map_result f xs = Inr vss \<and> (concat vss = [] \<longleftrightarrow> (\<forall>x\<in>set xs. \<not> P x))"
  using assms
proof (induction xs)
  case (Cons x xs)
  obtain vs where "f x = Inr vs" "vs = [] \<longleftrightarrow> \<not> P x" using Cons.prems by auto
  moreover obtain vss where "map_result f xs = Inr vss" "concat vss = [] \<longleftrightarrow> (\<forall>x\<in>set xs. \<not> P x)"
    using Cons by auto
  ultimately show ?case by auto
qed simp

lemma check_state_read:
  assumes "pe_invariants ev = map VDict invs"
    and "\<And>i. i \<in> set invs \<Longrightarrow> watched rep i \<Longrightarrow> reads_as (invariant_condition rep i) (E i)"
  shows "\<exists>r. check_state rep ev (VDict d) = Inr r \<and>
    (policy_succeeded r \<longleftrightarrow> (\<forall>i\<in>set invs. watched rep i \<longrightarrow> read_e d (E i) \<noteq> Some True))"
proof -
  let ?P = "\<lambda>inv. \<exists>i. inv = VDict i \<and> watched rep i \<and> read_e d (E i) = Some True"
  have "\<exists>vs. check_never rep (VDict d) x = Inr vs \<and> (vs = [] \<longleftrightarrow> \<not> ?P x)" if "x \<in> set (map VDict invs)" for x
    using that check_never_read[of rep _ "E _" d] assms(2) by fastforce
  from map_result_concat_Nil[where P = ?P, OF this]
  obtain vss where "map_result (check_never rep (VDict d)) (map VDict invs) = Inr vss"
    "concat vss = [] \<longleftrightarrow> (\<forall>x\<in>set (map VDict invs). \<not> ?P x)" by blast
  then show ?thesis by (auto simp: check_state_def assms(1) policy_succeeded_def)
qed

lemma policy_evaluate_guard_exact:
  assumes "pe_guards ev = map VDict gds"
  shows "\<exists>r. policy_evaluate_guard rep ev cap decisions = Inr r \<and>
    (policy_succeeded r \<longleftrightarrow> (\<forall>g\<in>set gds. guard_applies rep (get_val g ''required_for'') cap \<longrightarrow>
       truthy (get_val (case decisions of None \<Rightarrow> [] | Some d \<Rightarrow> d) (guard_rule_id rep g))))"
proof -
  let ?d = "case decisions of None \<Rightarrow> [] | Some d \<Rightarrow> d"
  let ?P = "\<lambda>x. \<exists>g. x = VDict g \<and> guard_applies rep (get_val g ''required_for'') cap \<and> \<not> truthy (get_val ?d (guard_rule_id rep g))"
  have "\<exists>vs. check_guard rep cap ?d x = Inr vs \<and> (vs = [] \<longleftrightarrow> \<not> ?P x)" if "x \<in> set (map VDict gds)" for x
    using that by (auto simp: check_guard_def Let_def)
  from map_result_concat_Nil[where P = ?P, OF this]
  obtain vss where "map_result (check_guard rep cap ?d) (map VDict gds) = Inr vss"
    "concat vss = [] \<longleftrightarrow> (\<forall>x\<in>set (map VDict gds). \<not> ?P x)" by blast
  then show ?thesis by (auto simp: policy_evaluate_guard_def assms policy_succeeded_def)
qed

text \<open>
  C35. For a policy whose \<^verbatim>\<open>never\<close> conditions are conjunctions of (negated) operands, the check of a trace
  returns, and it succeeds exactly when no such condition holds in the state of the trace and every
  guard required for the capability of the trace was decided positively.
\<close>

theorem trace_check_exact:
  assumes "pe_invariants ev = map VDict invs" and "pe_guards ev = map VDict gds"
    and "\<And>i. i \<in> set invs \<Longrightarrow> watched rep i \<Longrightarrow> reads_as (invariant_condition rep i) (E i) \<and> conjunctive (E i)"
    and "get_or trace ''state_snapshot'' (get_or trace ''state'' (VDict [])) = VDict d"
    and "truthy (trace_capability rep trace event)"
  shows "\<exists>r. check_trace rep ev trace decisions event = Inr r \<and>
    (policy_succeeded r \<longleftrightarrow>
       (\<forall>i\<in>set invs. watched rep i \<longrightarrow> \<not> holds_e d (E i)) \<and>
       (\<forall>g\<in>set gds. guard_applies rep (get_val g ''required_for'') (trace_capability rep trace event) \<longrightarrow>
          truthy (get_val (case decisions of None \<Rightarrow> [] | Some d \<Rightarrow> d) (guard_rule_id rep g))))"
proof -
  obtain r1 where r1: "check_state rep ev (VDict d) = Inr r1"
    "policy_succeeded r1 \<longleftrightarrow> (\<forall>i\<in>set invs. watched rep i \<longrightarrow> read_e d (E i) \<noteq> Some True)"
    using check_state_read[OF assms(1), of rep E d] assms(3) by blast
  obtain r2 where r2: "policy_evaluate_guard rep ev (trace_capability rep trace event) decisions = Inr r2"
    "policy_succeeded r2 \<longleftrightarrow> (\<forall>g\<in>set gds. guard_applies rep (get_val g ''required_for'') (trace_capability rep trace event) \<longrightarrow>
       truthy (get_val (case decisions of None \<Rightarrow> [] | Some d \<Rightarrow> d) (guard_rule_id rep g)))"
    using policy_evaluate_guard_exact[OF assms(2), of rep "trace_capability rep trace event" decisions] by blast
  have "policy_succeeded r1 \<longleftrightarrow> (\<forall>i\<in>set invs. watched rep i \<longrightarrow> \<not> holds_e d (E i))"
    using r1(2) conjunctive_read assms(3) by blast
  then show ?thesis using r1(1) r2 assms(4,5) by (simp add: check_trace_def Let_def policy_succeeded_def)
qed

definition reference_invariant :: "(string, val) dict" where
  "reference_invariant = [(''type'', VStr ''never''), (''condition'', VStr (print_condition reference_condition))]"

definition reference_evaluator :: policy_evaluator where
  "reference_evaluator = \<lparr>pe_spec = [], pe_state_schema = VDict [], pe_invariants = map VDict [reference_invariant],
     pe_guards = map VDict [[(''name'', VStr ''approved''), (''required_for'', VStr ''write'')]]\<rparr>"

theorem trace_check_exact_witness:
  "\<exists>r. check_trace (\<lambda>_. []) reference_evaluator
      [(''state'', VDict [(''result.validated'', VBool True)]), (''capability_id'', VStr ''write'')]
      (Some [(''approved'', VBool True)]) None = Inr r \<and> policy_succeeded r"
proof -
  let ?i = reference_invariant and ?rep = "\<lambda>_ :: val. [] :: string"
  let ?trace = "[(''state'', VDict [(''result.validated'', VBool True)]), (''capability_id'', VStr ''write'')]"
  have "reads_as (invariant_condition ?rep ?i) reference_condition" by code_simp
  then have E: "reads_as (invariant_condition ?rep ?i) reference_condition \<and> conjunctive reference_condition"
    using reference_condition_wf by simp
  have nh: "\<not> holds_e [(''result.validated'', VBool True)] reference_condition" by code_simp
  have st: "get_or ?trace ''state_snapshot'' (get_or ?trace ''state'' (VDict [])) = VDict [(''result.validated'', VBool True)]"
    and cap: "truthy (trace_capability ?rep ?trace None)"
    by (simp_all add: get_or_def trace_capability_def get_val_def dict_get_or_def)
  have g: "truthy (get_val [(''approved'', VBool True)] (guard_rule_id ?rep [(''name'', VStr ''approved''), (''required_for'', VStr ''write'')]))"
    by (simp add: guard_rule_id_def get_or_def get_val_def dict_get_or_def)
  obtain r where "check_trace ?rep reference_evaluator ?trace (Some [(''approved'', VBool True)]) None = Inr r"
    "policy_succeeded r"
    using trace_check_exact[of reference_evaluator "[reference_invariant]" "[[(''name'', VStr ''approved''), (''required_for'', VStr ''write'')]]"
        ?rep "\<lambda>_. reference_condition" ?trace "[(''result.validated'', VBool True)]" None "Some [(''approved'', VBool True)]"]
      E nh st cap g by (auto simp: reference_evaluator_def)
  then show ?thesis by blast
qed

end
