(* ===== verification/Policy_Rules.thy ===== *)
theory Policy_Rules
  imports Py_Values "HOL-Library.Product_Lexorder"
begin

text \<open>
  The deterministic policy engine (\<^verbatim>\<open>tm/policy/deterministic.py\<close>): comparison of values, conditions given
  as documents, the order of the rules and the evaluation of a policy on an observation and a state.
  A comparison of two values of the same type may still raise, as Python's does on mappings.
\<close>

section \<open>Equality and order of values\<close>

definition num_of :: "val \<Rightarrow> real option" where
  "num_of v = (case v of
       VBool b \<Rightarrow> Some (if b then 1 else 0)
     | VInt i \<Rightarrow> Some (real_of_int i)
     | VFloat r \<Rightarrow> Some r
     | _ \<Rightarrow> None)"

text \<open>\<^verbatim>\<open>==\<close>: numbers by value across their types, mappings whatever the order of their keys.\<close>

fun py_eq :: "val \<Rightarrow> val \<Rightarrow> bool" where
  "py_eq (VList xs) (VList ys) = list_all2 py_eq xs ys"
| "py_eq (VDict d) (VDict e) =
     (length d = length e \<and>
      list_all (\<lambda>(k, v). case map_of e k of None \<Rightarrow> False | Some w \<Rightarrow> py_eq v w) d)"
| "py_eq (VStr s) (VStr t) = (s = t)"
| "py_eq VNone VNone = True"
| "py_eq a b = (case (num_of a, num_of b) of (Some x, Some y) \<Rightarrow> x = y | _ \<Rightarrow> False)"

text \<open>The sign of a comparison; lists compare at the first place where they differ.\<close>

definition sign_of :: "'a :: linorder \<Rightarrow> 'a \<Rightarrow> int" where
  "sign_of x y = (if x < y then -1 else if x = y then 0 else 1)"

definition unordered :: "string \<Rightarrow> val \<Rightarrow> val \<Rightarrow> exn" where
  "unordered op a b = TypeError (quoted op @ '' not supported between instances of '' @
     quoted (type_name a) @ '' and '' @ quoted (type_name b))"

fun py_cmp :: "string \<Rightarrow> val \<Rightarrow> val \<Rightarrow> int result"
and list_cmp :: "string \<Rightarrow> val list \<Rightarrow> val list \<Rightarrow> int result" where
  "py_cmp op (VList xs) (VList ys) = list_cmp op xs ys"
| "py_cmp op (VStr s) (VStr t) = Inr (sign_of s t)"
| "py_cmp op a b = (case (num_of a, num_of b) of (Some x, Some y) \<Rightarrow> Inr (sign_of x y) | _ \<Rightarrow> Inl (unordered op a b))"
| "list_cmp op [] [] = Inr 0"
| "list_cmp op [] (y # ys) = Inr (-1)"
| "list_cmp op (x # xs) [] = Inr 1"
| "list_cmp op (x # xs) (y # ys) = (if py_eq x y then list_cmp op xs ys else py_cmp op x y)"

definition is_number :: "val \<Rightarrow> bool" where
  "is_number v = (case v of VInt _ \<Rightarrow> True | VFloat _ \<Rightarrow> True | _ \<Rightarrow> False)"

definition types_compatible :: "val \<Rightarrow> val \<Rightarrow> bool" where
  "types_compatible l r \<longleftrightarrow> l \<noteq> VNone \<and> r \<noteq> VNone \<and>
     (is_number l \<and> is_number r \<or> type_name l = type_name r)"

definition compare_op :: "string \<Rightarrow> val \<Rightarrow> val \<Rightarrow> bool result" where
  "compare_op op l r =
     (if \<not> types_compatible l r then Inr False
      else if op = ''=='' then Inr (py_eq l r)
      else if op = ''!='' then Inr (\<not> py_eq l r)
      else if op = ''>'' then bind_result (py_cmp op l r) (\<lambda>s. Inr (s > 0))
      else if op = ''>='' then bind_result (py_cmp op l r) (\<lambda>s. Inr (s \<ge> 0))
      else if op = ''<'' then bind_result (py_cmp op l r) (\<lambda>s. Inr (s < 0))
      else if op = ''<='' then bind_result (py_cmp op l r) (\<lambda>s. Inr (s \<le> 0))
      else Inr False)"

section \<open>Conditions\<close>

fun follow_path :: "val \<Rightarrow> string list \<Rightarrow> val" where
  "follow_path v [] = v"
| "follow_path v (p # ps) = (case v of
       VDict d \<Rightarrow> (case dict_get d p of None \<Rightarrow> VNone | Some w \<Rightarrow> follow_path w ps)
     | _ \<Rightarrow> VNone)"

definition get_path :: "(string, val) dict \<Rightarrow> string \<Rightarrow> val" where
  "get_path env path = follow_path (VDict env) (str_split (CHR ''.'') path)"

definition resolve_value :: "val \<Rightarrow> (string, val) dict \<Rightarrow> val" where
  "resolve_value v env = (case v of
       VDict [(k, VStr p)] \<Rightarrow> if k = ''var'' then get_path env p else v
     | _ \<Rightarrow> v)"

text \<open>\<^verbatim>\<open>all\<close> and \<^verbatim>\<open>any\<close> over a test that may raise: they stop at the first element that decides.\<close>

fun all_result :: "('a \<Rightarrow> bool result) \<Rightarrow> 'a list \<Rightarrow> bool result" where
  "all_result f [] = Inr True"
| "all_result f (x # xs) = bind_result (f x) (\<lambda>b. if b then all_result f xs else Inr False)"

fun any_result :: "('a \<Rightarrow> bool result) \<Rightarrow> 'a list \<Rightarrow> bool result" where
  "any_result f [] = Inr False"
| "any_result f (x # xs) = bind_result (f x) (\<lambda>b. if b then Inr True else any_result f xs)"

lemma all_result_cong [fundef_cong]:
  "xs = ys \<Longrightarrow> (\<And>x. x \<in> set ys \<Longrightarrow> f x = g x) \<Longrightarrow> all_result f xs = all_result g ys"
  by (induction xs arbitrary: ys) (auto simp: bind_result_def split: sum.splits)

lemma any_result_cong [fundef_cong]:
  "xs = ys \<Longrightarrow> (\<And>x. x \<in> set ys \<Longrightarrow> f x = g x) \<Longrightarrow> any_result f xs = any_result g ys"
  by (induction xs arbitrary: ys) (auto simp: bind_result_def split: sum.splits)

definition compare_ops :: "string list" where
  "compare_ops = [''=='', ''!='', ''>'', ''>='', ''<'', ''<='']"

fun evaluate_condition :: "(string, val) dict \<Rightarrow> val \<Rightarrow> bool result" where
  "evaluate_condition env (VDict [(op, v)]) =
     (if op = ''all'' then
        (case v of VList items \<Rightarrow> all_result (evaluate_condition env) items | _ \<Rightarrow> Inr False)
      else if op = ''any'' then
        (case v of VList items \<Rightarrow> any_result (evaluate_condition env) items | _ \<Rightarrow> Inr False)
      else if op = ''not'' then bind_result (evaluate_condition env v) (\<lambda>b. Inr (\<not> b))
      else if op \<in> set compare_ops then
        (case v of
           VList [l, r] \<Rightarrow> compare_op op (resolve_value l env) (resolve_value r env)
         | _ \<Rightarrow> Inr False)
      else Inr False)"
| "evaluate_condition env _ = Inr False"

section \<open>Rules\<close>

record policy_rule =
  ru_id :: string
  ru_priority :: int
  ru_when :: "(string, val) dict"
  ru_actions :: "(string, val) dict list"

definition dicts_in :: "val list \<Rightarrow> (string, val) dict list" where
  "dicts_in vs = concat (map (\<lambda>v. case v of VDict d \<Rightarrow> [d] | _ \<Rightarrow> []) vs)"

definition normalize_actions :: "val \<Rightarrow> (string, val) dict list" where
  "normalize_actions thn = dicts_in (case thn of
       VDict d \<Rightarrow> (case get_val d ''actions'' of
          VList xs \<Rightarrow> xs
        | VStr s \<Rightarrow> map (\<lambda>c. VStr [c]) s
        | _ \<Rightarrow> [thn])
     | VList xs \<Rightarrow> xs
     | _ \<Rightarrow> [])"

definition normalize_rule :: "(val \<Rightarrow> string) \<Rightarrow> val \<Rightarrow> policy_rule list" where
  "normalize_rule rep raw = (case raw of
       VDict d \<Rightarrow>
         (let rule_id = py_str rep (dict_get_or d ''id'' (VStr [])) in
          if rule_id = [] then []
          else case get_val d ''when'' of
            VDict w \<Rightarrow>
              [\<lparr>ru_id = rule_id,
                ru_priority = (case to_int (dict_get_or d ''priority'' (VInt 0)) of None \<Rightarrow> 0 | Some i \<Rightarrow> i),
                ru_when = w, ru_actions = normalize_actions (get_val d ''then'')\<rparr>]
          | _ \<Rightarrow> [])
     | _ \<Rightarrow> [])"

definition rule_key :: "policy_rule \<Rightarrow> int \<times> string" where
  "rule_key r = (- ru_priority r, ru_id r)"

definition normalize_rules :: "(val \<Rightarrow> string) \<Rightarrow> val \<Rightarrow> policy_rule list" where
  "normalize_rules rep rules = (case rules of
       VList raws \<Rightarrow> sort_key rule_key (concat (map (normalize_rule rep) raws))
     | _ \<Rightarrow> [])"

record policy_engine =
  en_rules :: "policy_rule list"

definition make_engine :: "(val \<Rightarrow> string) \<Rightarrow> (string, val) dict \<Rightarrow> policy_engine" where
  "make_engine rep policy = \<lparr>en_rules = normalize_rules rep (get_val policy ''rules'')\<rparr>"

section \<open>Evaluation\<close>

definition normalize_action :: "(val \<Rightarrow> string) \<Rightarrow> (string, val) dict \<Rightarrow> (string, val) dict" where
  "normalize_action rep a =
     (let action_type = py_str rep (dict_get_or a ''type'' (VStr [])) in
      if action_type = ''set'' then
        [(''type'', VStr ''set''), (''actuator'', get_val a ''actuator''), (''value'', get_val a ''value'')]
      else if action_type = ''emit_event'' then
        [(''type'', VStr ''emit_event''), (''event'', get_val a ''event''), (''payload'', get_val a ''payload'')]
      else [(''type'', VStr action_type)])"

record action_entry =
  ae_rule_id :: string
  ae_action :: "(string, val) dict"
  ae_applied :: bool

record action_log =
  al_actions :: "action_entry list"
  al_patch :: "(string, val) dict"

definition apply_action :: "(val \<Rightarrow> string) \<Rightarrow> string \<Rightarrow> action_log \<Rightarrow> (string, val) dict \<Rightarrow> action_log" where
  "apply_action rep rule_id al raw =
     (let action = normalize_action rep raw;
          (applied, patch) =
            (if get_val action ''type'' = VStr ''set'' then
               (case get_val action ''actuator'' of
                  VStr a \<Rightarrow>
                    if dict_has (al_patch al) a then (False, al_patch al)
                    else (True, dict_set a (get_val action ''value'') (al_patch al))
                | _ \<Rightarrow> (False, al_patch al))
             else (True, al_patch al))
      in \<lparr>al_actions = al_actions al @ [\<lparr>ae_rule_id = rule_id, ae_action = action, ae_applied = applied\<rparr>],
          al_patch = patch\<rparr>)"

fun run_rules :: "(val \<Rightarrow> string) \<Rightarrow> (string, val) dict \<Rightarrow> action_log \<Rightarrow> policy_rule list \<Rightarrow> action_log result" where
  "run_rules rep env al [] = Inr al"
| "run_rules rep env al (r # rs) =
     bind_result (evaluate_condition env (VDict (ru_when r))) (\<lambda>b.
       run_rules rep env (if b then foldl (apply_action rep (ru_id r)) al (ru_actions r) else al) rs)"

definition engine_env :: "(string, val) dict \<Rightarrow> (string, val) dict \<Rightarrow> (string, val) dict" where
  "engine_env obs state = [(''obs'', VDict obs), (''state'', VDict state)]"

definition engine_evaluate ::
  "(val \<Rightarrow> string) \<Rightarrow> policy_engine \<Rightarrow> (string, val) dict \<Rightarrow> (string, val) dict \<Rightarrow> action_log result" where
  "engine_evaluate rep en obs state =
     run_rules rep (engine_env obs state) \<lparr>al_actions = [], al_patch = []\<rparr> (en_rules en)"

definition entry_doc :: "action_entry \<Rightarrow> val" where
  "entry_doc e = VDict [(''rule_id'', VStr (ae_rule_id e)), (''action'', VDict (ae_action e)), (''applied'', VBool (ae_applied e))]"

definition log_doc :: "action_log \<Rightarrow> val" where
  "log_doc al = VDict [(''actions'', VList (map entry_doc (al_actions al))), (''final_patch'', VDict (al_patch al))]"

section \<open>Which rule sets an actuator\<close>

definition action_sets :: "(val \<Rightarrow> string) \<Rightarrow> (string, val) dict \<Rightarrow> (string \<times> val) list" where
  "action_sets rep raw =
     (let action = normalize_action rep raw in
      case get_val action ''actuator'' of
        VStr a \<Rightarrow> if get_val action ''type'' = VStr ''set'' then [(a, get_val action ''value'')] else []
      | _ \<Rightarrow> [])"

definition rule_sets :: "(val \<Rightarrow> string) \<Rightarrow> policy_rule \<Rightarrow> (string \<times> val) list" where
  "rule_sets rep r = concat (map (action_sets rep) (ru_actions r))"

definition rule_fires :: "(string, val) dict \<Rightarrow> policy_rule \<Rightarrow> bool" where
  "rule_fires env r \<longleftrightarrow> evaluate_condition env (VDict (ru_when r)) = Inr True"

lemma apply_action_patch:
  "map_of (al_patch (apply_action rep rid al raw)) = map_of (action_sets rep raw) ++ map_of (al_patch al)"
proof -
  consider (sets) a where "get_val (normalize_action rep raw) ''actuator'' = VStr a" "get_val (normalize_action rep raw) ''type'' = VStr ''set''"
    | (other) "action_sets rep raw = []"
    by (cases "get_val (normalize_action rep raw) ''actuator''"; cases "get_val (normalize_action rep raw) ''type'' = VStr ''set''")
      (auto simp: action_sets_def Let_def)
  then show ?thesis
  proof cases
    case sets
    then show ?thesis
      by (auto simp: apply_action_def action_sets_def Let_def dict_has_iff dict_get_set map_add_def fun_eq_iff
          split: option.splits)
  next
    case other
    then have "al_patch (apply_action rep rid al raw) = al_patch al"
      by (auto simp: apply_action_def action_sets_def Let_def split: val.splits if_splits)
    then show ?thesis using other by simp
  qed
qed

lemma apply_actions_patch:
  "map_of (al_patch (foldl (apply_action rep rid) al raws)) = map_of (concat (map (action_sets rep) raws)) ++ map_of (al_patch al)"
  by (induction raws arbitrary: al) (simp_all add: apply_action_patch map_add_assoc)

lemma run_rules_patch:
  "run_rules rep env al rs = Inr al' \<Longrightarrow>
    map_of (al_patch al') = map_of (concat (map (rule_sets rep) (filter (rule_fires env) rs))) ++ map_of (al_patch al)"
proof (induction rs arbitrary: al)
  case (Cons r rs)
  obtain b where b: "evaluate_condition env (VDict (ru_when r)) = Inr b"
    and rest: "run_rules rep env (if b then foldl (apply_action rep (ru_id r)) al (ru_actions r) else al) rs = Inr al'"
    using Cons.prems by (auto simp: result_simps)
  show ?case using Cons.IH[OF rest] b
    by (cases b) (simp_all add: rule_fires_def rule_sets_def apply_actions_patch map_add_assoc)
qed simp

lemma run_rules_wf: "run_rules rep env al rs = Inr al' \<Longrightarrow> dict_wf (al_patch al) \<Longrightarrow> dict_wf (al_patch al')"
proof (induction rs arbitrary: al)
  case (Cons r rs)
  have step: "dict_wf (al_patch l) \<Longrightarrow> dict_wf (al_patch (apply_action rep rid l raw))" for rid l raw
    by (auto simp: apply_action_def Let_def split: val.splits)
  have "dict_wf (al_patch l) \<Longrightarrow> dict_wf (al_patch (foldl (apply_action rep rid) l raws))" for rid l raws
    by (induction raws arbitrary: l) (use step in auto)
  then show ?case using Cons by (auto simp: result_simps split: if_splits)
qed simp

text \<open>The first rule of a sorted list that has a binding has the least key among those that do.\<close>

lemma map_of_concat_sorted:
  assumes "sorted (map k rs)" "map_of (concat (map f rs)) a = Some v"
  shows "\<exists>r\<in>set rs. map_of (f r) a = Some v \<and> (\<forall>r'\<in>set rs. map_of (f r') a \<noteq> None \<longrightarrow> k r \<le> k r')"
  using assms
proof (induction rs)
  case (Cons r rs)
  show ?case
  proof (cases "map_of (f r) a")
    case None
    then show ?thesis using Cons by (auto simp: map_add_def)
  next
    case (Some w)
    then have "w = v" using Cons.prems(2) by (simp add: map_add_def)
    then show ?thesis using Some Cons.prems(1) by auto
  qed
qed simp

lemma map_of_concat_None: "map_of (concat (map f rs)) a = None \<longleftrightarrow> (\<forall>r\<in>set rs. map_of (f r) a = None)"
  by (induction rs) (auto simp: map_add_def split: option.splits)

lemma engine_rules_sorted: "sorted (map rule_key (en_rules (make_engine rep policy)))"
  by (auto simp: make_engine_def normalize_rules_def split: val.splits)

text \<open>
  C23. When a policy is evaluated, an actuator is left alone exactly when no rule that fires sets it;
  otherwise it gets the first value that a firing rule of highest priority, and among these of
  smallest id, gives it.  No actuator is set twice.
\<close>

theorem policy_winner:
  assumes "engine_evaluate rep (make_engine rep policy) obs state = Inr al"
  shows "(case dict_get (al_patch al) a of
      None \<Rightarrow> \<not> (\<exists>r\<in>set (en_rules (make_engine rep policy)). rule_fires (engine_env obs state) r \<and> map_of (rule_sets rep r) a \<noteq> None)
    | Some v \<Rightarrow> \<exists>r\<in>set (en_rules (make_engine rep policy)).
        rule_fires (engine_env obs state) r \<and> map_of (rule_sets rep r) a = Some v \<and>
        \<not> (\<exists>r'\<in>set (en_rules (make_engine rep policy)). rule_fires (engine_env obs state) r' \<and>
            map_of (rule_sets rep r') a \<noteq> None \<and>
            (ru_priority r' > ru_priority r \<or> ru_priority r' = ru_priority r \<and> ru_id r' < ru_id r)))
    \<and> dict_wf (al_patch al)"
proof -
  let ?env = "engine_env obs state"
  let ?rs = "filter (rule_fires ?env) (en_rules (make_engine rep policy))"
  have run: "run_rules rep ?env \<lparr>al_actions = [], al_patch = []\<rparr> (en_rules (make_engine rep policy)) = Inr al"
    using assms by (simp add: engine_evaluate_def)
  have m: "map_of (al_patch al) = map_of (concat (map (rule_sets rep) ?rs))" using run_rules_patch[OF run] by simp
  have wf: "dict_wf (al_patch al)" using run_rules_wf[OF run] by simp
  have srt: "sorted (map rule_key ?rs)" using sorted_filter[OF engine_rules_sorted] .
  show ?thesis
  proof (cases "dict_get (al_patch al) a")
    case None
    then show ?thesis using m wf map_of_concat_None[of "rule_sets rep" ?rs a] by auto
  next
    case (Some v)
    obtain r where r: "r \<in> set ?rs" "map_of (rule_sets rep r) a = Some v"
      "\<And>r'. r' \<in> set ?rs \<Longrightarrow> map_of (rule_sets rep r') a \<noteq> None \<Longrightarrow> rule_key r \<le> rule_key r'"
      using map_of_concat_sorted[OF srt, of "rule_sets rep" a v] Some m by metis
    have "\<not> (ru_priority r' > ru_priority r \<or> ru_priority r' = ru_priority r \<and> ru_id r' < ru_id r)"
      if "r' \<in> set ?rs" "map_of (rule_sets rep r') a \<noteq> None" for r'
      using r(3)[OF that] by (auto simp: rule_key_def less_eq_prod_def)
    then show ?thesis using r(1,2) Some wf by auto
  qed
qed

text \<open>
  C36. The order of the rules in the policy document does not matter: two policies with the same rules
  in another order, no two with the same priority and id, have the same engine and so the same
  decisions.
\<close>

theorem rule_order_irrelevant:
  assumes "get_val policy ''rules'' = VList raws" "get_val policy' ''rules'' = VList raws'"
    and "mset raws = mset raws'"
    and "distinct (map rule_key (concat (map (normalize_rule rep) raws)))"
  shows "engine_evaluate rep (make_engine rep policy) obs state = engine_evaluate rep (make_engine rep policy') obs state"
proof -
  let ?n = "\<lambda>xs. concat (map (normalize_rule rep) xs)"
  have "mset (?n raws) = mset (?n raws')"
    using arg_cong[OF assms(3), of "\<lambda>m. \<Sum>x\<in>#m. mset (normalize_rule rep x)"]
    by (simp add: mset_concat comp_def flip: sum_mset_sum_list mset_map)
  moreover have "inj_on rule_key (set (?n raws))" using assms(4) by (simp add: distinct_map)
  ultimately have "sort_key rule_key (?n raws) = sort_key rule_key (?n raws')"
    by (intro sort_key_inj_key_eq) simp_all
  then show ?thesis using assms(1,2) by (simp add: make_engine_def normalize_rules_def)
qed

section \<open>Errors\<close>

text \<open>Comparing values that have no order is the only way in which an evaluation fails.\<close>

definition order_error :: "exn \<Rightarrow> bool" where
  "order_error e \<longleftrightarrow> (\<exists>op a b. e = unordered op a b)"

lemma py_cmp_error:
  "py_cmp op a b = Inl e \<Longrightarrow> order_error e"
  "list_cmp op xs ys = Inl e \<Longrightarrow> order_error e"
  by (induction op a b and op xs ys rule: py_cmp_list_cmp.induct)
    (auto simp: order_error_def split: option.splits if_splits)

lemma compare_op_error: "compare_op op l r = Inl e \<Longrightarrow> order_error e"
  by (auto simp: compare_op_def result_simps dest: py_cmp_error split: if_splits)

lemma all_result_error: "all_result f xs = Inl e \<Longrightarrow> \<exists>x\<in>set xs. f x = Inl e"
  by (induction xs) (auto simp: result_simps split: if_splits)

lemma any_result_error: "any_result f xs = Inl e \<Longrightarrow> \<exists>x\<in>set xs. f x = Inl e"
  by (induction xs) (auto simp: result_simps split: if_splits)

lemma evaluate_condition_error: "evaluate_condition env c = Inl e \<Longrightarrow> order_error e"
proof (induction env c rule: evaluate_condition.induct)
  case (1 env op v)
  consider "op = ''all''" | "op = ''any''" | "op = ''not''" | "op \<in> set compare_ops" "op \<notin> {''all'', ''any'', ''not''}"
    using 1(4) by (auto split: if_splits)
  then show ?case
  proof cases
    case 1
    then show ?thesis using "1.IH"(1)[OF 1] "1.prems" all_result_error[of "evaluate_condition env"] by (fastforce split: val.splits)
  next
    case 2
    then show ?thesis using "1.IH"(2)[OF _ 2] "1.prems" any_result_error[of "evaluate_condition env"] by (fastforce split: val.splits)
  next
    case 3
    then show ?thesis using "1.IH"(3) "1.prems" by (auto simp: result_simps)
  next
    case 4
    then show ?thesis using "1.prems" by (auto split: val.splits list.splits dest: compare_op_error)
  qed
qed simp_all

lemma engine_evaluate_error: "engine_evaluate rep en obs state = Inl e \<Longrightarrow> order_error e"
proof -
  have "run_rules rep env al rs = Inl e \<Longrightarrow> order_error e" for env al rs
    by (induction rs arbitrary: al) (auto simp: result_simps dest: evaluate_condition_error)
  then show "engine_evaluate rep en obs state = Inl e \<Longrightarrow> order_error e" by (simp add: engine_evaluate_def)
qed

text \<open>Two mappings pass the test of their types and have no order.\<close>

lemma mapping_order_raises:
  "evaluate_condition [] (VDict [(''>'', VList [VDict [], VDict []])]) = Inl (unordered ''>'' (VDict []) (VDict []))"
  by code_simp

section \<open>An example\<close>

definition fan_rule :: "string \<Rightarrow> int \<Rightarrow> int \<Rightarrow> val" where
  "fan_rule rid priority speed = VDict [(''id'', VStr rid), (''priority'', VInt priority),
     (''when'', VDict [(''>='', VList [VDict [(''var'', VStr ''obs.temp'')], VInt 30])]),
     (''then'', VDict [(''type'', VStr ''set''), (''actuator'', VStr ''fan''), (''value'', VInt speed)])]"

definition fan_policy :: "(string, val) dict" where
  "fan_policy = [(''rules'', VList [fan_rule ''low'' 1 2, fan_rule ''high'' 5 9])]"

lemma fan_runs:
  "engine_evaluate (\<lambda>_. []) (make_engine (\<lambda>_. []) fan_policy) [(''temp'', VInt 31)] [] =
     Inr \<lparr>al_actions = [
        \<lparr>ae_rule_id = ''high'', ae_action = [(''type'', VStr ''set''), (''actuator'', VStr ''fan''), (''value'', VInt 9)], ae_applied = True\<rparr>,
        \<lparr>ae_rule_id = ''low'', ae_action = [(''type'', VStr ''set''), (''actuator'', VStr ''fan''), (''value'', VInt 2)], ae_applied = False\<rparr>],
      al_patch = [(''fan'', VInt 9)]\<rparr>"
  by code_simp

theorem policy_winner_witness:
  "\<exists>r\<in>set (en_rules (make_engine (\<lambda>_. []) fan_policy)).
     rule_fires (engine_env [(''temp'', VInt 31)] []) r \<and> map_of (rule_sets (\<lambda>_. []) r) ''fan'' = Some (VInt 9)"
  using policy_winner[OF fan_runs, of "''fan''"] by auto

theorem rule_order_irrelevant_witness:
  "engine_evaluate (\<lambda>_. []) (make_engine (\<lambda>_. []) fan_policy) [(''temp'', VInt 31)] [] =
   engine_evaluate (\<lambda>_. []) (make_engine (\<lambda>_. []) [(''rules'', VList [fan_rule ''high'' 5 9, fan_rule ''low'' 1 2])]) [(''temp'', VInt 31)] []"
proof -
  let ?raws = "[fan_rule ''low'' 1 2, fan_rule ''high'' 5 9]"
  have "get_val fan_policy ''rules'' = VList ?raws" "get_val [(''rules'', VList (rev ?raws))] ''rules'' = VList (rev ?raws)"
    by (simp_all add: fan_policy_def get_val_def dict_get_or_def)
  moreover have "distinct (map rule_key (concat (map (normalize_rule (\<lambda>_. [])) ?raws)))"
    by (simp add: fan_rule_def normalize_rule_def rule_key_def get_val_def dict_get_or_def to_int_def)
  ultimately show ?thesis
    using rule_order_irrelevant[of fan_policy ?raws "[(''rules'', VList (rev ?raws))]" "rev ?raws" "\<lambda>_. []" "[(''temp'', VInt 31)]" "[]"]
    by simp
qed

end
