(* ===== verification/Policy_Replay.thy ===== *)
theory Policy_Replay
  imports Policy_Rules "HOL-Library.Sublist"
begin

text \<open>
  Testing and replaying policies (\<^verbatim>\<open>tm/policy/test_runner.py\<close>, \<^verbatim>\<open>tm/policy/replay.py\<close>): the canonical JSON
  text of a value, the matching of an action log against an expected fragment, test suites with their
  exit code, replayed rows and the comparison of two replays.  Files are given by the documents in
  them; \<open>H\<close> is the SHA-256 digest of a text.
\<close>

section \<open>Canonical JSON\<close>

definition hex_char :: "nat \<Rightarrow> char" where
  "hex_char n = (if n < 10 then char_of (48 + n) else char_of (87 + n))"

definition json_char :: "char \<Rightarrow> string" where
  "json_char c =
     (let n = (of_char c :: nat) in
      if n = 34 then [CHR 0x5C, CHR 0x22]
      else if n = 92 then [CHR 0x5C, CHR 0x5C]
      else if n = 10 then [CHR 0x5C, CHR ''n'']
      else if n = 13 then [CHR 0x5C, CHR ''r'']
      else if n = 9 then [CHR 0x5C, CHR ''t'']
      else if n = 12 then [CHR 0x5C, CHR ''f'']
      else if n = 8 then [CHR 0x5C, CHR ''b'']
      else if n < 32 then [CHR 0x5C, CHR ''u'', CHR ''0'', CHR ''0'', hex_char (n div 16), hex_char (n mod 16)]
      else [c])"

definition json_string :: "string \<Rightarrow> string" where
  "json_string s = [CHR 0x22] @ concat (map json_char s) @ [CHR 0x22]"

fun canonical_json :: "(val \<Rightarrow> string) \<Rightarrow> val \<Rightarrow> string" where
  "canonical_json rep VNone = ''null''"
| "canonical_json rep (VBool b) = (if b then ''true'' else ''false'')"
| "canonical_json rep (VInt i) = str_int i"
| "canonical_json rep (VFloat r) = rep (VFloat r)"
| "canonical_json rep (VStr s) = json_string s"
| "canonical_json rep (VList xs) = ''['' @ str_join '','' (map (canonical_json rep) xs) @ '']''"
| "canonical_json rep (VDict d) =
     ''{'' @ str_join '','' (map (\<lambda>(k, t). json_string k @ '':'' @ t)
       (sort_key fst (map (\<lambda>(k, v). (k, canonical_json rep v)) d))) @ ''}''"

text \<open>The order in which a mapping was built does not show in its text.\<close>

lemma canonical_json_perm:
  assumes "mset d = mset e" "dict_wf d"
  shows "canonical_json rep (VDict d) = canonical_json rep (VDict e)"
proof -
  let ?f = "\<lambda>(k, v). (k, canonical_json rep v)"
  have "mset (map ?f d) = mset (map ?f e)" using assms(1) by simp
  moreover have "inj_on fst (set (map ?f d))"
    using assms(2) by (auto simp: distinct_map inj_on_def) fastforce
  ultimately have "sort_key fst (map ?f d) = sort_key fst (map ?f e)"
    by (intro sort_key_inj_key_eq) simp_all
  then show ?thesis by simp
qed

section \<open>Test suites\<close>

fun match_contains :: "val \<Rightarrow> val \<Rightarrow> bool"
and match_items :: "val list \<Rightarrow> val list \<Rightarrow> bool" where
  "match_contains (VDict e) actual = (case actual of
       VDict a \<Rightarrow> list_all (\<lambda>(k, x). case map_of a k of None \<Rightarrow> False | Some y \<Rightarrow> match_contains x y) e
     | _ \<Rightarrow> False)"
| "match_contains (VList es) actual = (case actual of VList xs \<Rightarrow> match_items es xs | _ \<Rightarrow> False)"
| "match_contains e actual = py_eq e actual"
| "match_items [] xs = True"
| "match_items (e # es) [] = False"
| "match_items (e # es) (x # xs) = (if match_contains e x then match_items es xs else match_items (e # es) xs)"

definition dict_or_empty :: "val \<Rightarrow> (string, val) dict" where
  "dict_or_empty v = (case v of VDict d \<Rightarrow> d | _ \<Rightarrow> [])"

definition first_dict :: "(string, val) dict \<Rightarrow> string \<Rightarrow> string \<Rightarrow> (string, val) dict option" where
  "first_dict d k1 k2 = (case get_val d k1 of VDict x \<Rightarrow> Some x | _ \<Rightarrow> as_dict (get_val d k2))"

definition normalize_inputs :: "(string, val) dict \<Rightarrow> (string, val) dict \<times> (string, val) dict" where
  "normalize_inputs tc = (case first_dict tc ''inputs'' ''input'' of
       None \<Rightarrow> ([], [])
     | Some i \<Rightarrow> (dict_or_empty (get_val i ''obs''), dict_or_empty (get_val i ''state'')))"

definition normalize_expected :: "(string, val) dict \<Rightarrow> (string, val) dict option" where
  "normalize_expected tc = first_dict tc ''expected'' ''expect''"

record test_entry =
  te_test_id :: string
  te_stability :: string
  te_intent_refs :: "string list"
  te_status :: string
  te_reason :: string
  te_diff :: "val option"

definition diff_of :: "val \<Rightarrow> action_log \<Rightarrow> val" where
  "diff_of expected al = VDict [(''expected'', expected), (''actual'', log_doc al)]"

text \<open>The verdict on a log: nothing when it is as expected, otherwise the reason and the difference.\<close>

definition judge_log :: "(val \<Rightarrow> string) \<Rightarrow> (string, val) dict option \<Rightarrow> action_log \<Rightarrow> (string \<times> val) option" where
  "judge_log rep expected al = (case expected of
       None \<Rightarrow> Some (''missing expected/expect block'', VDict [(''actual'', log_doc al)])
     | Some e \<Rightarrow>
         (let mode = py_str rep (dict_get_or e ''mode'' (VStr ''exact''));
              wanted = get_val e ''action_log'' in
          if mode = ''exact'' then
            (if canonical_json rep (log_doc al) \<noteq> canonical_json rep wanted
             then Some (''exact mismatch'', diff_of wanted al) else None)
          else if mode = ''contains'' then
            (if \<not> match_contains wanted (log_doc al)
             then Some (''contains mismatch'', diff_of wanted al) else None)
          else Some (''unsupported expect mode '' @ quoted mode, diff_of wanted al)))"

record suite_state =
  su_results :: "test_entry list"
  su_passed :: nat
  su_failed :: nat
  su_warnings :: nat
  su_blocking :: bool

definition make_entry :: "(val \<Rightarrow> string) \<Rightarrow> (string, val) dict \<Rightarrow> action_log \<Rightarrow> test_entry" where
  "make_entry rep tc al =
     (let stability = py_str rep (dict_get_or tc ''stability'' (VStr []));
          verdict = judge_log rep (normalize_expected tc) al in
      \<lparr>te_test_id = py_str rep (dict_get_or tc ''id'' (VStr [])), te_stability = stability,
       te_intent_refs = (case get_val tc ''intent_refs'' of VList xs \<Rightarrow> map (py_str rep) xs | _ \<Rightarrow> []),
       te_status = (if verdict = None then ''pass'' else if stability = ''evolving'' then ''warn'' else ''fail''),
       te_reason = (case verdict of None \<Rightarrow> ''ok'' | Some (r, _) \<Rightarrow> r),
       te_diff = map_option snd verdict\<rparr>)"

definition tally :: "test_entry \<Rightarrow> suite_state \<Rightarrow> suite_state" where
  "tally e s =
     s\<lparr>su_results := su_results s @ [e],
       su_passed := (if te_status e = ''pass'' then Suc (su_passed s) else su_passed s),
       su_failed := (if te_status e = ''fail'' then Suc (su_failed s) else su_failed s),
       su_warnings := (if te_status e = ''warn'' then Suc (su_warnings s) else su_warnings s),
       su_blocking := (su_blocking s \<or> te_status e = ''fail'' \<and> te_stability e \<in> {''hard'', ''compat''})\<rparr>"

definition run_test :: "(val \<Rightarrow> string) \<Rightarrow> policy_engine \<Rightarrow> (string, val) dict \<Rightarrow> suite_state \<Rightarrow> suite_state result" where
  "run_test rep en tc s =
     bind_result (engine_evaluate rep en (fst (normalize_inputs tc)) (snd (normalize_inputs tc)))
       (\<lambda>al. Inr (tally (make_entry rep tc al) s))"

fun run_tests :: "(val \<Rightarrow> string) \<Rightarrow> policy_engine \<Rightarrow> (string, val) dict list \<Rightarrow> suite_state \<Rightarrow> suite_state result" where
  "run_tests rep en [] s = Inr s"
| "run_tests rep en (tc # tcs) s = bind_result (run_test rep en tc s) (run_tests rep en tcs)"

record suite_outcome =
  so_exit_code :: int
  so_total :: nat
  so_state :: suite_state

definition run_test_suite ::
  "(val \<Rightarrow> string) \<Rightarrow> (string, val) dict \<Rightarrow> (string, val) dict \<Rightarrow> suite_outcome result" where
  "run_test_suite rep suite policy = (case get_val suite ''spec'' of
       VDict spec \<Rightarrow> (case get_val spec ''tests'' of
          VList tests \<Rightarrow>
            bind_result (run_tests rep (make_engine rep policy) (dicts_in tests)
                \<lparr>su_results = [], su_passed = 0, su_failed = 0, su_warnings = 0, su_blocking = False\<rparr>)
              (\<lambda>s. Inr \<lparr>so_exit_code = (if su_blocking s then 1 else 0), so_total = length (su_results s), so_state = s\<rparr>)
        | _ \<Rightarrow> Inl (ValueError ''suite.spec.tests must be an array''))
     | _ \<Rightarrow> Inl (ValueError ''suite.spec must be an object''))"

section \<open>Replay\<close>



section \<open>Comparing replays\<close>



fun index_rows :: "nat \<Rightarrow> (string, val) dict list \<Rightarrow> (int, (string, val) dict) dict \<Rightarrow> (int, (string, val) dict) dict result" where
  "index_rows i [] d = Inr d"
| "index_rows i (row # rows) d =
     bind_result (int_of (dict_get_or row ''index'' (VInt (int i)))) (\<lambda>k. index_rows (Suc i) rows (dict_set k row d))"














section \<open>Matching\<close>

lemma match_items_emb: "match_items es xs \<longleftrightarrow> list_emb match_contains es xs"
  by (induction es xs rule: match_contains_match_items.induct(2)[where P = "\<lambda>_ _. True"]) simp_all

text \<open>
  An expected fragment matches a log exactly when it embeds in it: the entries of an expected
  mapping are found under their keys, and the items of an expected list match a subsequence of the
  actual list, so taking the first match for each item never misses one.
\<close>

theorem contains_is_embedding:
  "match_contains (VList es) (VList xs) = list_emb match_contains es xs \<and>
   match_contains (VDict e) (VDict a) = (\<forall>(k, x)\<in>set e. \<exists>y. dict_get a k = Some y \<and> match_contains x y)"
  by (auto simp: match_items_emb list_all_iff split: option.splits)

theorem contains_is_embedding_witness:
  "match_contains (VList [VInt 1, VInt 3]) (VList [VInt 1, VInt 2, VInt 3])"
  using contains_is_embedding[of "[VInt 1, VInt 3]" "[VInt 1, VInt 2, VInt 3]" "[]" "[]"]
  by (simp add: list_emb_Cons num_of_def)

section \<open>Suites\<close>

definition entry_judges :: "(val \<Rightarrow> string) \<Rightarrow> policy_engine \<Rightarrow> (string, val) dict \<Rightarrow> test_entry \<Rightarrow> bool" where
  "entry_judges rep en tc e \<longleftrightarrow>
     (\<exists>al. engine_evaluate rep en (fst (normalize_inputs tc)) (snd (normalize_inputs tc)) = Inr al \<and>
        te_stability e = py_str rep (dict_get_or tc ''stability'' (VStr [])) \<and>
        te_status e = (if judge_log rep (normalize_expected tc) al = None then ''pass''
          else if te_stability e = ''evolving'' then ''warn'' else ''fail''))"

definition count_status :: "string \<Rightarrow> test_entry list \<Rightarrow> nat" where
  "count_status st es = length (filter (\<lambda>e. te_status e = st) es)"

definition blocks :: "test_entry \<Rightarrow> bool" where
  "blocks e \<longleftrightarrow> te_status e = ''fail'' \<and> te_stability e \<in> {''hard'', ''compat''}"

definition suite_ok :: "(val \<Rightarrow> string) \<Rightarrow> policy_engine \<Rightarrow> (string, val) dict list \<Rightarrow> suite_state \<Rightarrow> bool" where
  "suite_ok rep en tcs s \<longleftrightarrow> list_all2 (entry_judges rep en) tcs (su_results s) \<and>
     su_passed s = count_status ''pass'' (su_results s) \<and> su_failed s = count_status ''fail'' (su_results s) \<and>
     su_warnings s = count_status ''warn'' (su_results s) \<and> su_blocking s = list_ex blocks (su_results s)"

lemma run_test_ok:
  assumes "run_test rep en tc s = Inr s'" "suite_ok rep en tcs s"
  shows "suite_ok rep en (tcs @ [tc]) s'"
proof -
  obtain al where al: "engine_evaluate rep en (fst (normalize_inputs tc)) (snd (normalize_inputs tc)) = Inr al"
    and s': "s' = tally (make_entry rep tc al) s"
    using assms(1) by (auto simp: run_test_def result_simps)
  have "entry_judges rep en tc (make_entry rep tc al)" using al by (simp add: entry_judges_def make_entry_def Let_def)
  then show ?thesis using assms(2)
    by (simp add: suite_ok_def s' tally_def list_all2_appendI count_status_def blocks_def)
qed

lemma run_tests_ok:
  "run_tests rep en tcs s = Inr s' \<Longrightarrow> suite_ok rep en done_tests s \<Longrightarrow> suite_ok rep en (done_tests @ tcs) s'"
proof (induction tcs arbitrary: s done_tests)
  case (Cons tc tcs)
  then obtain s1 where s1: "run_test rep en tc s = Inr s1" "run_tests rep en tcs s1 = Inr s'"
    by (auto simp: result_simps)
  have "suite_ok rep en (done_tests @ [tc]) s1" using run_test_ok[OF s1(1) Cons.prems(2)] .
  then show ?case using Cons.IH[OF s1(2), of "done_tests @ [tc]"] by simp
qed simp

lemma status_counts:
  assumes "list_all2 (entry_judges rep en) tcs es"
  shows "count_status ''pass'' es + count_status ''fail'' es + count_status ''warn'' es = length es"
  using assms by (induction rule: list_all2_induct) (auto simp: count_status_def entry_judges_def split: if_splits)

text \<open>
  A suite run that returns has one entry per test document, in order, with the verdict on the log of
  the engine; the counters count the entries of each status and add up to the total, and the exit code
  is 1 exactly when a test of stability \<^verbatim>\<open>hard\<close> or \<^verbatim>\<open>compat\<close> fails.
\<close>

theorem suite_verdict:
  assumes "run_test_suite rep suite policy = Inr out"
    and "get_val suite ''spec'' = VDict spec" and "get_val spec ''tests'' = VList tests"
  shows "list_all2 (entry_judges rep (make_engine rep policy)) (dicts_in tests) (su_results (so_state out)) \<and>
    so_exit_code out = (if list_ex blocks (su_results (so_state out)) then 1 else 0) \<and>
    su_passed (so_state out) = count_status ''pass'' (su_results (so_state out)) \<and>
    su_failed (so_state out) = count_status ''fail'' (su_results (so_state out)) \<and>
    su_warnings (so_state out) = count_status ''warn'' (su_results (so_state out)) \<and>
    so_total out = su_passed (so_state out) + su_failed (so_state out) + su_warnings (so_state out)"
proof -
  let ?s0 = "\<lparr>su_results = [], su_passed = 0, su_failed = 0, su_warnings = 0, su_blocking = False\<rparr>"
  obtain s where s: "run_tests rep (make_engine rep policy) (dicts_in tests) ?s0 = Inr s"
    and out: "out = \<lparr>so_exit_code = (if su_blocking s then 1 else 0), so_total = length (su_results s), so_state = s\<rparr>"
    using assms by (auto simp: run_test_suite_def result_simps)
  have "suite_ok rep (make_engine rep policy) [] ?s0" by (simp add: suite_ok_def count_status_def)
  then have ok: "suite_ok rep (make_engine rep policy) (dicts_in tests) s" using run_tests_ok[OF s] by fastforce
  then show ?thesis using status_counts[of rep "make_engine rep policy" "dicts_in tests" "su_results s"]
    by (simp add: suite_ok_def out)
qed

definition fan_suite :: "(string, val) dict" where
  "fan_suite = [(''spec'', VDict [(''tests'', VList [VDict [(''id'', VStr ''t''), (''stability'', VStr ''hard''),
     (''inputs'', VDict [(''obs'', VDict [(''temp'', VInt 31)])]),
     (''expect'', VDict [(''mode'', VStr ''contains''), (''action_log'', VDict [(''final_patch'', VDict [(''fan'', VInt 2)])])])]])])]"

lemma fan_suite_returns: "\<exists>out. run_test_suite (\<lambda>_. []) fan_suite fan_policy = Inr out \<and> so_exit_code out = 1"
proof -
  have "returns (run_test_suite (\<lambda>_. []) fan_suite fan_policy) (\<lambda>out. so_exit_code out = 1)" by code_simp
  then show ?thesis by (simp add: returns_iff)
qed

theorem suite_verdict_witness:
  "\<exists>out. run_test_suite (\<lambda>_. []) fan_suite fan_policy = Inr out \<and> list_ex blocks (su_results (so_state out))"
proof -
  obtain out where out: "run_test_suite (\<lambda>_. []) fan_suite fan_policy = Inr out" "so_exit_code out = 1"
    using fan_suite_returns by blast
  obtain spec tests where "get_val fan_suite ''spec'' = VDict spec" "get_val spec ''tests'' = VList tests"
    by (simp add: fan_suite_def get_val_def dict_get_or_def)
  from suite_verdict[OF out(1) this] show ?thesis using out by (auto split: if_splits)
qed

text \<open>A failing test whose stability is none of the three known ones leaves the exit code at 0.\<close>

lemma unknown_stability_passes:
  "returns (run_test_suite (\<lambda>_. []) [(''spec'', VDict [(''tests'', VList [VDict [(''id'', VStr ''t'')]])])] fan_policy)
     (\<lambda>out. so_exit_code out = 0 \<and> su_failed (so_state out) = 1)"
  by code_simp

section \<open>Differences\<close>














lemma index_rows_wf: "index_rows i rows d = Inr d' \<Longrightarrow> dict_wf d \<Longrightarrow> dict_wf d'"
  by (induction i rows d rule: index_rows.induct) (auto simp: result_simps)







end
