(* ===== verification/Flow_Execution.thy ===== *)
theory Flow_Execution
  imports Guards
begin

text \<open>
  Flow specifications (\<^verbatim>\<open>tm/flow/spec.py\<close>, \<^verbatim>\<open>operations.py\<close>, \<^verbatim>\<open>policies.py\<close>), the hub for deferred runs
  (\<^verbatim>\<open>correlate.py\<close>) and the execution of one flow (\<^verbatim>\<open>_execute_immediately\<close>, \<^verbatim>\<open>_run_deferred\<close> of
  \<^verbatim>\<open>runtime.py\<close>).  The hooks of a step are functions in its record: they get the step's context, may
  change it, and may raise.  The governance object in the context is left out.  \<open>B\<close> and \<open>R\<close> are the BLAKE2
  digests of a step name and of a revision payload.  The loop over the steps runs on fuel; one unit
  more than there are steps is shown to be enough.
\<close>

section \<open>Specifications\<close>

datatype operation = OP_TASK | OP_SWITCH | OP_PARALLEL | OP_FINISH

fun operation_name :: "operation \<Rightarrow> string" where
  "operation_name OP_TASK = ''TASK''"
| "operation_name OP_SWITCH = ''SWITCH''"
| "operation_name OP_PARALLEL = ''PARALLEL''"
| "operation_name OP_FINISH = ''FINISH''"

datatype response_mode = IMMEDIATE | DEFERRED

text \<open>What a hook can raise: the two exceptions the runtime treats specially, and any other class.\<close>

datatype flow_exn =
    PendingApproval approval_record
  | GuardBlockedError guard_violation
  | Raised string string

fun exn_class :: "flow_exn \<Rightarrow> string" where
  "exn_class (PendingApproval r) = ''PendingApproval''"
| "exn_class (GuardBlockedError v) = ''GuardBlockedError''"
| "exn_class (Raised c m) = c"

fun exn_text :: "flow_exn \<Rightarrow> string" where
  "exn_text (PendingApproval r) = ap_reason r"
| "exn_text (GuardBlockedError v) = gv_reason v"
| "exn_text (Raised c m) = m"

type_synonym step_ctx = "(string, val) dict"

record step_def =
  sd_name :: string
  sd_operation :: operation
  sd_next_steps :: "string list"
  sd_config :: "(string, val) dict"
  sd_before :: "(step_ctx \<Rightarrow> flow_exn option \<times> step_ctx) option"
  sd_run :: "(step_ctx \<Rightarrow> val \<Rightarrow> (flow_exn + val) \<times> step_ctx) option"
  sd_after :: "(step_ctx \<Rightarrow> val \<Rightarrow> flow_exn option \<times> step_ctx) option"
  sd_on_error :: "(step_ctx \<Rightarrow> flow_exn \<Rightarrow> flow_exn option \<times> step_ctx) option"

record flow_spec =
  fl_name :: string
  fl_flow_id :: string
  fl_steps :: "(string, step_def) dict"
  fl_entrypoint :: "string option"
  fl_step_ids :: "(string, string) dict"
  fl_rev_cache :: "string option"
  fl_rev_salt :: int

definition compute_step_id :: "(string \<Rightarrow> string) \<Rightarrow> string \<Rightarrow> string \<Rightarrow> string" where
  "compute_step_id B flow_id name = ''step-'' @ B (flow_id @ '':'' @ name)"

definition make_flow_spec ::
  "(string \<Rightarrow> string) \<Rightarrow> string \<Rightarrow> string option \<Rightarrow> (string, step_def) dict \<Rightarrow> string option \<Rightarrow> flow_spec" where
  "make_flow_spec B name flow_id steps entry =
     (let fid = (case flow_id of None \<Rightarrow> name | Some i \<Rightarrow> i) in
      \<lparr>fl_name = name, fl_flow_id = fid, fl_steps = steps, fl_entrypoint = entry,
       fl_step_ids = map (\<lambda>(n, _). (n, compute_step_id B fid n)) steps, fl_rev_cache = None, fl_rev_salt = 0\<rparr>)"

definition add_step :: "(string \<Rightarrow> string) \<Rightarrow> step_def \<Rightarrow> flow_spec \<Rightarrow> flow_spec" where
  "add_step B sd f =
     f\<lparr>fl_steps := dict_set (sd_name sd) sd (fl_steps f),
       fl_entrypoint := (case fl_entrypoint f of None \<Rightarrow> Some (sd_name sd) | Some e \<Rightarrow> Some e),
       fl_step_ids := dict_set (sd_name sd) (compute_step_id B (fl_flow_id f) (sd_name sd)) (fl_step_ids f),
       fl_rev_cache := None\<rparr>"

definition adjacency :: "flow_spec \<Rightarrow> (string, string list) dict" where
  "adjacency f = map (\<lambda>(n, sd). (n, sd_next_steps sd)) (fl_steps f)"

definition spec_step_id :: "(string \<Rightarrow> string) \<Rightarrow> flow_spec \<Rightarrow> string \<Rightarrow> string result \<times> flow_spec" where
  "spec_step_id B f name = (case dict_get (fl_step_ids f) name of
       Some i \<Rightarrow> (Inr i, f)
     | None \<Rightarrow>
         if \<not> dict_has (fl_steps f) name then (Inl (KeyError name), f)
         else let i = compute_step_id B (fl_flow_id f) name in
           (Inr i, f\<lparr>fl_step_ids := dict_set name i (fl_step_ids f)\<rparr>))"

fun canonicalize_config :: "val \<Rightarrow> val" where
  "canonicalize_config (VDict d) = VDict (sort_key fst (map (\<lambda>(k, v). (k, canonicalize_config v)) d))"
| "canonicalize_config (VList xs) = VList (map canonicalize_config xs)"
| "canonicalize_config v = v"

definition optional_str :: "string option \<Rightarrow> val" where
  "optional_str s = (case s of None \<Rightarrow> VNone | Some x \<Rightarrow> VStr x)"

definition revision_step :: "(string \<Rightarrow> string) \<Rightarrow> flow_spec \<Rightarrow> step_def \<Rightarrow> val" where
  "revision_step B f sd = VDict
     [(''name'', VStr (sd_name sd)),
      (''step_id'', (case spec_step_id B f (sd_name sd) of (Inr i, _) \<Rightarrow> VStr i | (Inl _, _) \<Rightarrow> VNone)),
      (''operation'', VStr (operation_name (sd_operation sd))),
      (''next'', VList (map VStr (sd_next_steps sd))),
      (''config'', canonicalize_config (VDict (sd_config sd)))]"

definition revision_payload :: "(string \<Rightarrow> string) \<Rightarrow> flow_spec \<Rightarrow> val" where
  "revision_payload B f = VDict
     [(''flow'', VStr (fl_name f)), (''flow_id'', VStr (fl_flow_id f)), (''entry'', optional_str (fl_entrypoint f)),
      (''salt'', VInt (fl_rev_salt f)),
      (''steps'', VList (map (revision_step B f) (sort_key sd_name (map snd (fl_steps f)))))]"

definition flow_revision :: "(string \<Rightarrow> string) \<Rightarrow> (val \<Rightarrow> string) \<Rightarrow> flow_spec \<Rightarrow> string \<times> flow_spec" where
  "flow_revision B R f = (case fl_rev_cache f of
       Some r \<Rightarrow> (r, f)
     | None \<Rightarrow> let r = ''rev-'' @ R (revision_payload B f) in (r, f\<lparr>fl_rev_cache := Some r\<rparr>))"

definition bump_revision :: "flow_spec \<Rightarrow> flow_spec" where
  "bump_revision f = f\<lparr>fl_rev_salt := fl_rev_salt f + 1, fl_rev_cache := None\<rparr>"

section \<open>Requests\<close>

record exec_request =
  fr_run_id :: string
  fr_flow_name :: string
  fr_flow_id :: string
  fr_flow_rev :: string
  fr_spec :: flow_spec
  fr_inputs :: "(string, val) dict"
  fr_response_mode :: response_mode
  fr_ctx :: "(string, val) dict"
  fr_model_name :: "string option"
  fr_future :: nat
  fr_enqueue_ts :: real
  fr_decision :: "governance_decision option"
  fr_descriptor :: "request_descriptor option"

section \<open>Steps\<close>

definition next_step :: "step_def \<Rightarrow> string option" where
  "next_step sd = (case sd_next_steps sd of
       [] \<Rightarrow> None
     | first # rest \<Rightarrow>
         if sd_operation sd = OP_SWITCH then
           (case get_val (sd_config sd) ''key'' of
              VStr k \<Rightarrow> if k \<in> set (first # rest) then Some k
                else (case get_val (sd_config sd) ''default'' of
                   VStr d \<Rightarrow> if d \<in> set (first # rest) then Some d else Some first
                 | _ \<Rightarrow> Some first)
            | _ \<Rightarrow> (case get_val (sd_config sd) ''default'' of
                   VStr d \<Rightarrow> if d \<in> set (first # rest) then Some d else Some first
                 | _ \<Rightarrow> Some first))
         else Some first)"

definition flow_run_step :: "step_def \<Rightarrow> step_ctx \<Rightarrow> val \<Rightarrow> (flow_exn + val) \<times> step_ctx" where
  "flow_run_step sd ctx state =
     (if sd_operation sd = OP_TASK then
        (case sd_run sd of
           None \<Rightarrow> (Inr state, ctx)
         | Some f \<Rightarrow> (case f ctx state of
              (Inl e, c) \<Rightarrow> (Inl e, c)
            | (Inr r, c) \<Rightarrow> (Inr (if r = VNone then state else r), c)))
      else (Inr state, ctx))"

definition invoke_hook :: "(step_ctx \<Rightarrow> flow_exn option \<times> step_ctx) option \<Rightarrow> step_ctx \<Rightarrow> flow_exn option \<times> step_ctx" where
  "invoke_hook h ctx = (case h of None \<Rightarrow> (None, ctx) | Some f \<Rightarrow> f ctx)"

definition step_context :: "exec_request \<Rightarrow> string \<Rightarrow> step_def \<Rightarrow> val list \<Rightarrow> step_ctx" where
  "step_context rq current sd executed =
     [(''flow'', VStr (fl_name (fr_spec rq))), (''flow_id'', VStr (fr_flow_id rq)), (''flow_rev'', VStr (fr_flow_rev rq)),
      (''step'', VStr current), (''index'', VInt (int (length executed))), (''executed'', VList executed),
      (''run_id'', VStr (fr_run_id rq)), (''config'', VDict (sd_config sd))]"

definition identify_step :: "(string \<Rightarrow> string) \<Rightarrow> exec_request \<Rightarrow> string \<Rightarrow> nat \<Rightarrow> step_ctx" where
  "identify_step B rq current seq =
     [(''seq'', VInt (int seq)),
      (''step_id'', (case spec_step_id B (fr_spec rq) current of (Inr i, _) \<Rightarrow> VStr i | (Inl _, _) \<Rightarrow> VNone)),
      (''event_id'', VStr (fr_run_id rq @ '':'' @ str_nat seq))]"

text \<open>The body of the \<^verbatim>\<open>try\<close> block: the hooks in order, the run function and the choice of the next step.\<close>

definition attempt_step :: "step_def \<Rightarrow> step_ctx \<Rightarrow> val \<Rightarrow> (flow_exn + val \<times> string option) \<times> step_ctx" where
  "attempt_step sd ctx state = (case invoke_hook (sd_before sd) ctx of
       (Some e, c) \<Rightarrow> (Inl e, c)
     | (None, c) \<Rightarrow> (case flow_run_step sd c state of
          (Inl e, c) \<Rightarrow> (Inl e, c)
        | (Inr st, c) \<Rightarrow> (case invoke_hook (map_option (\<lambda>f c. f c st) (sd_after sd)) c of
             (Some e, c) \<Rightarrow> (Inl e, c)
           | (None, c) \<Rightarrow> (Inr (st, next_step sd), c))))"

record flow_span =
  ts_step :: string
  ts_step_id :: val
  ts_seq :: val
  ts_start :: real
  ts_end :: real
  ts_status :: string
  ts_error_code :: "string option"
  ts_error_message :: "string option"

definition make_span :: "string \<Rightarrow> val \<Rightarrow> val \<Rightarrow> real \<Rightarrow> real \<Rightarrow> flow_exn option \<Rightarrow> flow_span" where
  "make_span current step_id seq t0 t1 err =
     \<lparr>ts_step = current, ts_step_id = step_id, ts_seq = seq, ts_start = t0, ts_end = t1,
      ts_status = (if err = None then ''ok'' else ''error''),
      ts_error_code = map_option exn_class err, ts_error_message = map_option exn_text err\<rparr>"

record executed_step =
  ex_name :: string
  ex_step_id :: val
  ex_seq :: val

definition executed_doc :: "executed_step \<Rightarrow> val" where
  "executed_doc e = VDict [(''name'', VStr (ex_name e)), (''step_id'', ex_step_id e), (''seq'', ex_seq e)]"

text \<open>
  One round of the loop.  An exception of the error hook, or a context from which a hook has removed
  the step's id, escapes before the step is recorded.
\<close>

datatype step_result =
    Escaped flow_exn
  | Failed flow_exn flow_span
  | Passed val executed_step flow_span "string option"

definition perform_step ::
  "(string \<Rightarrow> string) \<Rightarrow> (nat \<Rightarrow> real) \<Rightarrow> exec_request \<Rightarrow> string \<Rightarrow> step_def \<Rightarrow> val \<Rightarrow> executed_step list \<Rightarrow> step_result" where
  "perform_step B clock rq current sd state executed =
     (let seq = length executed;
          ctx = step_context rq current sd (map executed_doc executed) @ identify_step B rq current seq;
          (r, ctx1) = attempt_step sd ctx state;
          (escaped, ctx2) = (case r of
              Inl e \<Rightarrow> invoke_hook (map_option (\<lambda>f c. f c e) (sd_on_error sd)) ctx1
            | Inr _ \<Rightarrow> (None, ctx1))
      in case escaped of
          Some e \<Rightarrow> Escaped e
        | None \<Rightarrow> (case (dict_get ctx2 ''step_id'', dict_get ctx2 ''seq'') of
             (None, _) \<Rightarrow> Escaped (Raised ''KeyError'' (quoted ''step_id''))
           | (_, None) \<Rightarrow> Escaped (Raised ''KeyError'' (quoted ''seq''))
           | (Some sid, Some sq) \<Rightarrow>
               (let span = make_span current sid sq (clock (2 * seq)) (clock (2 * seq + 1)) in
                case r of
                  Inl e \<Rightarrow> Failed e (span (Some e))
                | Inr (st, nxt) \<Rightarrow> Passed st \<lparr>ex_name = current, ex_step_id = sid, ex_seq = sq\<rparr> (span None) nxt)))"

text \<open>
  The loop.  The answer is \<open>None\<close> when the fuel runs out, otherwise the result or the exception,
  with the spans given to the trace sink.
\<close>

type_synonym flow_answer = "((flow_exn + executed_step list \<times> val) \<times> flow_span list) option"

fun run_steps ::
  "(string \<Rightarrow> string) \<Rightarrow> (nat \<Rightarrow> real) \<Rightarrow> exec_request \<Rightarrow> nat \<Rightarrow> string \<Rightarrow> val \<Rightarrow> executed_step list \<Rightarrow> flow_span list \<Rightarrow> flow_answer" where
  "run_steps B clock rq 0 current state executed spans = None"
| "run_steps B clock rq (Suc n) current state executed spans =
     (if current = [] then Some (Inr (executed, state), spans)
      else case dict_get (fl_steps (fr_spec rq)) current of
        None \<Rightarrow> Some (Inl (Raised ''KeyError'' (quoted current)), spans)
      | Some sd \<Rightarrow> (case perform_step B clock rq current sd state executed of
           Escaped e \<Rightarrow> Some (Inl e, spans)
         | Failed e sp \<Rightarrow> Some (Inl e, spans @ [sp])
         | Passed st ex sp nxt \<Rightarrow> (case nxt of
              None \<Rightarrow> Some (Inr (executed @ [ex], st), spans @ [sp])
            | Some nx \<Rightarrow>
                if nx = [] \<or> nx \<in> set (map ex_name (executed @ [ex])) then Some (Inr (executed @ [ex], st), spans @ [sp])
                else run_steps B clock rq n nx st (executed @ [ex]) (spans @ [sp]))))"

definition entry_of :: "flow_spec \<Rightarrow> string" where
  "entry_of f = (case fl_entrypoint f of
       Some e \<Rightarrow> if e \<noteq> [] then e else (case fl_steps f of [] \<Rightarrow> [] | (n, _) # _ \<Rightarrow> n)
     | None \<Rightarrow> (case fl_steps f of [] \<Rightarrow> [] | (n, _) # _ \<Rightarrow> n))"

definition execute_immediately :: "(string \<Rightarrow> string) \<Rightarrow> (nat \<Rightarrow> real) \<Rightarrow> exec_request \<Rightarrow> flow_answer" where
  "execute_immediately B clock rq =
     run_steps B clock rq (Suc (length (fl_steps (fr_spec rq)))) (entry_of (fr_spec rq)) (VDict (fr_inputs rq)) [] []"

section \<open>The path of a flow\<close>

text \<open>The steps a run visits, from the specification alone.\<close>

fun path_from :: "flow_spec \<Rightarrow> nat \<Rightarrow> string \<Rightarrow> string list \<Rightarrow> string list" where
  "path_from f 0 cur vis = []"
| "path_from f (Suc n) cur vis =
     (if cur = [] then []
      else case dict_get (fl_steps f) cur of
        None \<Rightarrow> []
      | Some sd \<Rightarrow> cur # (case next_step sd of
           None \<Rightarrow> []
         | Some nx \<Rightarrow> if nx = [] \<or> nx \<in> set (vis @ [cur]) then [] else path_from f n nx (vis @ [cur])))"

definition flow_path :: "flow_spec \<Rightarrow> string list" where
  "flow_path f = path_from f (Suc (length (fl_steps f))) (entry_of f) []"

definition span_ok :: "flow_span \<Rightarrow> bool" where
  "span_ok s \<longleftrightarrow> ts_status s = ''ok''"

text \<open>What a run leaves behind, given the path it was to take.\<close>

definition follows :: "string list \<Rightarrow> string list \<Rightarrow> (flow_exn + executed_step list \<times> val) \<Rightarrow> flow_span list \<Rightarrow> bool" where
  "follows vis path r sp = (case r of
       Inr (ex, st) \<Rightarrow> map ex_name ex = vis @ path \<and> map ts_step sp = path \<and> list_all span_ok sp
     | Inl e \<Rightarrow> (\<exists>rest. path = map ts_step sp @ rest) \<and>
         (list_all span_ok sp \<or>
          (\<exists>oks s. sp = oks @ [s] \<and> list_all span_ok oks \<and> s = make_span (ts_step s) (ts_step_id s) (ts_seq s) (ts_start s) (ts_end s) (Some e))))"

lemma follows_Cons:
  assumes "follows (vis @ [cur]) path r sp" "span_ok s" "ts_step s = cur"
  shows "follows vis (cur # path) r (s # sp)"
proof (cases r)
  case (Inl e)
  have rest: "\<exists>rest. cur # path = map ts_step (s # sp) @ rest" using assms Inl by (auto simp: follows_def)
  consider "list_all span_ok sp"
    | oks t where "sp = oks @ [t]" "list_all span_ok oks" "t = make_span (ts_step t) (ts_step_id t) (ts_seq t) (ts_start t) (ts_end t) (Some e)"
    using assms(1) Inl by (auto simp: follows_def)
  then show ?thesis
  proof cases
    case 1
    then show ?thesis using rest assms(2) Inl by (auto simp: follows_def)
  next
    case 2
    then have "s # sp = (s # oks) @ [t]" "list_all span_ok (s # oks)" using assms(2) by auto
    then show ?thesis using rest 2(3) Inl unfolding follows_def by (simp only: sum.case) blast
  qed
next
  case (Inr x)
  then show ?thesis using assms by (auto simp: follows_def split: prod.splits)
qed

lemma make_span_fields [simp]:
  "ts_step (make_span c i q t0 t1 e) = c" "span_ok (make_span c i q t0 t1 None)"
  by (simp_all add: make_span_def span_ok_def)

lemma attempt_step_next: "attempt_step sd ctx state = (Inr (st, nx), c) \<Longrightarrow> nx = next_step sd"
  by (auto simp: attempt_step_def split: prod.splits option.splits sum.splits)

lemma perform_step_Passed:
  "perform_step B clock rq cur sd state executed = Passed st ex sp nxt \<Longrightarrow>
    ex_name ex = cur \<and> nxt = next_step sd \<and> span_ok sp \<and> ts_step sp = cur"
  by (auto simp: perform_step_def Let_def split: prod.splits option.splits sum.splits dest: attempt_step_next)

lemma perform_step_Failed:
  "perform_step B clock rq cur sd state executed = Failed e sp \<Longrightarrow> \<exists>i q t0 t1. sp = make_span cur i q t0 t1 (Some e)"
  by (auto simp: perform_step_def Let_def split: prod.splits option.splits sum.splits)

lemma follows_stop: "follows vis path (Inl e) []"
  by (simp add: follows_def)

lemma follows_error: "follows vis (cur # path) (Inl e) [make_span cur i q t0 t1 (Some e)]"
  unfolding follows_def by (auto simp: make_span_def)

lemma distinct_keys_le: "distinct vis \<Longrightarrow> set vis \<subseteq> set (dict_keys d) \<Longrightarrow> length vis \<le> length d"
  by (metis card_mono distinct_card finite_set length_map List.card_set card_length order_trans)

lemma run_steps_follows:
  assumes "map ex_name executed = vis" "distinct (vis @ [cur])" "set vis \<subseteq> set (dict_keys (fl_steps (fr_spec rq)))"
    and "length (fl_steps (fr_spec rq)) < n + length vis"
  shows "\<exists>r sp. run_steps B clock rq n cur state executed spans = Some (r, spans @ sp) \<and>
    follows vis (path_from (fr_spec rq) n cur vis) r sp"
  using assms
proof (induction n arbitrary: cur vis state executed spans)
  case 0
  then show ?case using distinct_keys_le[of vis "fl_steps (fr_spec rq)"] by simp
next
  case (Suc n)
  let ?f = "fr_spec rq" and ?p = "perform_step B clock rq cur"
  consider (stop) "cur = [] \<or> dict_get (fl_steps ?f) cur = None"
    | (step) sd where "cur \<noteq> []" "dict_get (fl_steps ?f) cur = Some sd" by fastforce
  then show ?case
  proof cases
    case stop
    then show ?thesis using Suc.prems(1) by (auto simp: follows_def)
  next
    case step
    show ?thesis
    proof (cases "?p sd state executed")
      case (Escaped e)
      then show ?thesis using step by (simp add: follows_stop)
    next
      case (Failed e sp)
      then show ?thesis using step follows_error perform_step_Failed[OF Failed] by auto
    next
      case (Passed st ex sp nxt)
      note facts = perform_step_Passed[OF Passed]
      show ?thesis
      proof (cases "nxt = None \<or> the nxt = [] \<or> the nxt \<in> set (vis @ [cur])")
        case True
        then have "run_steps B clock rq (Suc n) cur state executed spans = Some (Inr (executed @ [ex], st), spans @ [sp])"
          "path_from ?f (Suc n) cur vis = [cur]"
          using step Passed Suc.prems(1) facts by (auto split: option.splits)
        then show ?thesis using Suc.prems(1) facts by (auto simp: follows_def)
      next
        case False
        then obtain m where m: "nxt = Some m" "m \<noteq> []" "m \<notin> set (vis @ [cur])" by auto
        have run: "run_steps B clock rq (Suc n) cur state executed spans = run_steps B clock rq n m st (executed @ [ex]) (spans @ [sp])"
          and path: "path_from ?f (Suc n) cur vis = cur # path_from ?f n m (vis @ [cur])"
          using step Passed m Suc.prems(1) facts by (auto split: option.splits)
        have "set (vis @ [cur]) \<subseteq> set (dict_keys (fl_steps ?f))"
          using Suc.prems(3) step by (auto dest: map_of_SomeD intro: rev_image_eqI)
        then have "\<exists>r' sp'. run_steps B clock rq n m st (executed @ [ex]) (spans @ [sp]) = Some (r', (spans @ [sp]) @ sp') \<and>
            follows (vis @ [cur]) (path_from ?f n m (vis @ [cur])) r' sp'"
          using m Suc.prems facts by (intro Suc.IH) auto
        then show ?thesis using run path facts follows_Cons[of vis cur "path_from ?f n m (vis @ [cur])" _ _ sp] by fastforce
      qed
    qed
  qed
qed

lemma path_from_chain:
  "distinct (vis @ [cur]) \<Longrightarrow> distinct (path_from f n cur vis) \<and> set (path_from f n cur vis) \<inter> set vis = {} \<and>
    set (path_from f n cur vis) \<subseteq> set (dict_keys (fl_steps f)) \<and>
    (path_from f n cur vis \<noteq> [] \<longrightarrow> hd (path_from f n cur vis) = cur)"
proof (induction n arbitrary: cur vis)
  case (Suc n)
  show ?case
  proof (cases "cur = [] \<or> dict_get (fl_steps f) cur = None")
    case False
    then obtain sd where sd: "cur \<noteq> []" "dict_get (fl_steps f) cur = Some sd" by auto
    then have key: "cur \<in> set (dict_keys (fl_steps f))" by (auto dest: map_of_SomeD intro: rev_image_eqI)
    show ?thesis
    proof (cases "\<exists>m. next_step sd = Some m \<and> m \<noteq> [] \<and> m \<notin> set (vis @ [cur])")
      case True
      then obtain m where m: "next_step sd = Some m" "m \<noteq> []" "m \<notin> set (vis @ [cur])" by blast
      then have path: "path_from f (Suc n) cur vis = cur # path_from f n m (vis @ [cur])" using sd by simp
      show ?thesis unfolding path using Suc.IH[of "vis @ [cur]" m] Suc.prems m key by auto
    next
      case none: False
      then have "path_from f (Suc n) cur vis = [cur]" using sd by (auto split: option.splits)
      then show ?thesis using Suc.prems key by auto
    qed
  qed auto
qed simp

lemma path_from_steps:
  "i + 1 < length (path_from f n cur vis) \<Longrightarrow>
    \<exists>sd. dict_get (fl_steps f) (path_from f n cur vis ! i) = Some sd \<and> next_step sd = Some (path_from f n cur vis ! (i + 1))"
proof (induction n arbitrary: cur vis i)
  case (Suc n)
  obtain sd m where m: "cur \<noteq> []" "dict_get (fl_steps f) cur = Some sd" "next_step sd = Some m" "m \<noteq> []" "m \<notin> set (vis @ [cur])"
    using Suc.prems by (auto split: if_splits option.splits)
  have path: "path_from f (Suc n) cur vis = cur # path_from f n m (vis @ [cur])" using m by simp
  show ?case
  proof (cases i)
    case 0
    then have "path_from f n m (vis @ [cur]) ! 0 = m"
      using Suc.prems path by (cases n) (auto split: if_splits option.splits)
    then show ?thesis using 0 path m by auto
  next
    case (Suc j)
    then show ?thesis using Suc.IH[of j m "vis @ [cur]"] Suc.prems path by auto
  qed
qed simp

lemma execute_follows: "\<exists>r sp. execute_immediately B clock rq = Some (r, sp) \<and> follows [] (flow_path (fr_spec rq)) r sp"
  using run_steps_follows[of "[]" "[]" "entry_of (fr_spec rq)" rq "Suc (length (fl_steps (fr_spec rq)))" B clock _ "[]"]
  by (simp add: execute_immediately_def flow_path_def)

text \<open>
  C21. Running a flow always ends, and it visits the steps of a path that the specification fixes, whatever
  the inputs and the hooks do: the path has no step twice, each step but the first is the successor of
  the one before, a run that returns has executed all of it, with one span each, and a run that fails has
  spans for a beginning of it, of which only the last can be an error, the one that was raised.
\<close>

theorem flow_run_path:
  "\<exists>r sp. execute_immediately B clock rq = Some (r, sp) \<and> follows [] (flow_path (fr_spec rq)) r sp \<and>
     distinct (flow_path (fr_spec rq)) \<and>
     (\<forall>i. i + 1 < length (flow_path (fr_spec rq)) \<longrightarrow>
        (\<exists>sd. dict_get (fl_steps (fr_spec rq)) (flow_path (fr_spec rq) ! i) = Some sd \<and>
           next_step sd = Some (flow_path (fr_spec rq) ! (i + 1))))"
proof -
  have "distinct (flow_path (fr_spec rq))" using path_from_chain[of "[]"] by (simp add: flow_path_def del: path_from.simps)
  then show ?thesis using execute_follows[of B clock rq] path_from_steps unfolding flow_path_def by blast
qed

section \<open>An example\<close>

definition plain_step :: "string \<Rightarrow> operation \<Rightarrow> string list \<Rightarrow> (string, val) dict \<Rightarrow> step_def" where
  "plain_step name op nexts config = \<lparr>sd_name = name, sd_operation = op, sd_next_steps = nexts, sd_config = config,
     sd_before = None, sd_run = Some (\<lambda>c st. (Inr (case st of VDict d \<Rightarrow> get_val d ''branch'' | _ \<Rightarrow> VNone), c)), sd_after = None, sd_on_error = None\<rparr>"

definition crud_flow :: flow_spec where
  "crud_flow = add_step (\<lambda>s. s) (plain_step ''finish'' OP_FINISH [] [])
     (add_step (\<lambda>s. s) (plain_step ''read'' OP_TASK [''finish''] [])
     (add_step (\<lambda>s. s) (plain_step ''create'' OP_TASK [''finish''] [])
     (add_step (\<lambda>s. s) (plain_step ''dispatch'' OP_SWITCH [''create'', ''read''] [(''key'', VStr ''read'')])
       (make_flow_spec (\<lambda>s. s) ''sample'' None [] None))))"

definition crud_request :: "(string, val) dict \<Rightarrow> exec_request" where
  "crud_request inputs = \<lparr>fr_run_id = ''r'', fr_flow_name = ''sample'', fr_flow_id = ''sample'', fr_flow_rev = ''rev'', fr_spec = crud_flow,
     fr_inputs = inputs, fr_response_mode = IMMEDIATE, fr_ctx = [], fr_model_name = None, fr_future = 0, fr_enqueue_ts = 0,
     fr_decision = None, fr_descriptor = None\<rparr>"

lemma crud_path: "flow_path crud_flow = [''dispatch'', ''read'', ''finish'']"
  by code_simp

theorem flow_run_path_witness:
  "\<exists>sd. dict_get (fl_steps crud_flow) ''dispatch'' = Some sd \<and> next_step sd = Some ''read''"
  using flow_run_path[of "\<lambda>s. s" "\<lambda>_. 0" "crud_request []"] by (auto simp: crud_path crud_request_def dest: spec[of _ 0])

text \<open>The branch of a switch step does not depend on the inputs or the state, only on its configuration.\<close>

lemma switch_ignores_state:
  assumes "execute_immediately B clock (rq\<lparr>fr_inputs := i1\<rparr>) = Some (Inr (ex1, st1), sp1)"
    and "execute_immediately B clock (rq\<lparr>fr_inputs := i2\<rparr>) = Some (Inr (ex2, st2), sp2)"
  shows "map ex_name ex1 = map ex_name ex2"
proof -
  have "map ex_name ex = flow_path (fr_spec rq)"
    if "execute_immediately B clock (rq\<lparr>fr_inputs := i\<rparr>) = Some (Inr (ex, st), sp)" for i ex st sp
    using execute_follows[of B clock "rq\<lparr>fr_inputs := i\<rparr>"] that by (auto simp: follows_def)
  then show ?thesis using assms by metis
qed

end
