(* ===== verification/Flow_Runtime.thy ===== *)
theory Flow_Runtime
  imports Flow_Execution Idempotency
begin

text \<open>
  The flow runtime (\<^verbatim>\<open>tm/flow/runtime.py\<close> with \<^verbatim>\<open>policies.py\<close> and \<^verbatim>\<open>correlate.py\<close>): admission of requests through
  guard and governance, the bounded queue, workers, single flight and caching of results by
  idempotency key, deferred runs.  The event loop runs one coroutine until it awaits, so a call of
  \<^verbatim>\<open>execute\<close> up to its first wait, the start of a run and its end are atomic.  Futures are numbers; the
  loop state has the resolved ones, the callers that wait and the requests between the waits.  Clock
  readings and fresh ids are arguments.  Metrics, log records and the shutdown of the workers are left
  out, and callers are not cancelled while they wait.
\<close>

section \<open>Policies and the hub for deferred runs\<close>

record flow_policies =
  po_response_mode :: response_mode
  po_max_concurrency :: "int option"
  po_allow_deferred :: bool
  po_short_wait_s :: real

record correlation_hub =
  ch_pending :: "(string, string \<times> (string, val) dict) dict"
  ch_signals :: "(string, (string, val) dict) dict"

definition hub_reserve :: "string \<Rightarrow> string \<Rightarrow> (string, val) dict \<Rightarrow> correlation_hub \<Rightarrow> correlation_hub" where
  "hub_reserve token flow payload h = h\<lparr>ch_pending := dict_set token (flow, payload) (ch_pending h)\<rparr>"

definition hub_signal :: "string \<Rightarrow> (string, val) dict \<Rightarrow> correlation_hub \<Rightarrow> correlation_hub" where
  "hub_signal req_id payload h = h\<lparr>ch_signals := dict_set req_id payload (ch_signals h)\<rparr>"

definition hub_poll :: "string \<Rightarrow> correlation_hub \<Rightarrow> (string, val) dict option" where
  "hub_poll req_id h = dict_get (ch_signals h) req_id"

definition hub_consume_signal :: "string \<Rightarrow> correlation_hub \<Rightarrow> (string, val) dict option \<times> correlation_hub" where
  "hub_consume_signal req_id h = (dict_get (ch_signals h) req_id, h\<lparr>ch_signals := dict_pop req_id (ch_signals h)\<rparr>)"

definition hub_resolve :: "string \<Rightarrow> correlation_hub \<Rightarrow> (string \<times> (string, val) dict) option" where
  "hub_resolve token h = dict_get (ch_pending h) token"

definition hub_consume :: "string \<Rightarrow> correlation_hub \<Rightarrow> (string \<times> (string, val) dict) option \<times> correlation_hub" where
  "hub_consume token h = (dict_get (ch_pending h) token, h\<lparr>ch_pending := dict_pop token (ch_pending h)\<rparr>)"

section \<open>Results, statistics and the runtime\<close>

record flow_result =
  re_status :: string
  re_run_id :: string
  re_queued_ms :: real
  re_exec_ms :: real
  re_output :: "(string, val) dict"
  re_error_code :: "string option"
  re_error_message :: "string option"
  re_flow :: string
  re_flow_id :: string
  re_flow_rev :: string
  re_flow_name :: string

definition clone_result :: "flow_result \<Rightarrow> flow_result" where
  "clone_result r =
     \<lparr>re_status = re_status r, re_run_id = re_run_id r, re_queued_ms = re_queued_ms r, re_exec_ms = re_exec_ms r,
      re_output = re_output r, re_error_code = re_error_code r, re_error_message = re_error_message r,
      re_flow = re_flow r, re_flow_id = re_flow_id r, re_flow_rev = re_flow_rev r, re_flow_name = re_flow_name r\<rparr>"

record flow_stats =
  sa_depth_peak :: nat
  sa_depth_current :: nat
  sa_active_peak :: int
  sa_rejected :: nat
  sa_rejected_reason :: "(string, nat) dict"
  sa_queued_ms :: "real list"
  sa_exec_ms :: "real list"
  sa_success :: nat
  sa_error :: nat

record flow_runtime =
  rt_flows :: "(string, flow_spec) dict"
  rt_policies :: flow_policies
  rt_hub :: correlation_hub
  rt_governance :: governance_manager
  rt_guard :: guard_state
  rt_max_concurrency :: nat
  rt_queue_capacity :: nat
  rt_queue_wait :: real
  rt_idem_ttl :: real
  rt_idem_size :: nat
  rt_queue :: "exec_request list"
  rt_started :: bool
  rt_active :: int
  rt_stats :: flow_stats
  rt_inflight :: "(string, nat) dict"
  rt_cache :: "(string, real \<times> flow_result) dict"

definition make_runtime ::
  "(string, flow_spec) dict \<Rightarrow> flow_policies \<Rightarrow> governance_manager \<Rightarrow> guard_state \<Rightarrow> int \<Rightarrow> int \<Rightarrow> real \<Rightarrow> real \<Rightarrow> int \<Rightarrow> flow_runtime" where
  "make_runtime flows policies gov guard max_concurrency capacity wait_ms ttl cache_size =
     \<lparr>rt_flows = flows, rt_policies = policies, rt_hub = \<lparr>ch_pending = [], ch_signals = []\<rparr>, rt_governance = gov,
      rt_guard = guard, rt_max_concurrency = nat (max 1 max_concurrency), rt_queue_capacity = nat (max 0 capacity),
      rt_queue_wait = max 0 (wait_ms / 1000), rt_idem_ttl = max 0 ttl, rt_idem_size = nat (max 0 cache_size),
      rt_queue = [], rt_started = False, rt_active = 0,
      rt_stats = \<lparr>sa_depth_peak = 0, sa_depth_current = 0, sa_active_peak = 0, sa_rejected = 0,
        sa_rejected_reason = [(''QUEUE_FULL'', 0), (''QUEUE_TIMEOUT'', 0)], sa_queued_ms = [], sa_exec_ms = [],
        sa_success = 0, sa_error = 0\<rparr>,
      rt_inflight = [], rt_cache = []\<rparr>"

definition register_flow :: "flow_spec \<Rightarrow> flow_runtime \<Rightarrow> flow_runtime" where
  "register_flow f rt = rt\<lparr>rt_flows := dict_set (fl_name f) f (rt_flows rt)\<rparr>"

definition choose_flow :: "flow_runtime \<Rightarrow> string \<Rightarrow> flow_spec result" where
  "choose_flow rt name = (case dict_get (rt_flows rt) name of
       Some f \<Rightarrow> Inr f
     | None \<Rightarrow> Inl (KeyError (''Unknown flow: '' @ name)))"

definition record_queue_depth :: "flow_runtime \<Rightarrow> flow_runtime" where
  "record_queue_depth rt =
     (let depth = length (rt_queue rt) in
      rt\<lparr>rt_stats := (rt_stats rt)\<lparr>sa_depth_current := depth, sa_depth_peak := max (sa_depth_peak (rt_stats rt)) depth\<rparr>\<rparr>)"

definition record_rejected :: "string \<Rightarrow> flow_runtime \<Rightarrow> flow_runtime" where
  "record_rejected reason rt =
     rt\<lparr>rt_stats := (rt_stats rt)\<lparr>sa_rejected := Suc (sa_rejected (rt_stats rt)),
       sa_rejected_reason := dict_set reason (Suc (dict_get_or (sa_rejected_reason (rt_stats rt)) reason 0))
         (sa_rejected_reason (rt_stats rt))\<rparr>\<rparr>"

text \<open>\<^verbatim>\<open>percentile\<close> of \<^verbatim>\<open>get_stats\<close>, with Python's rounding of halves to the even neighbour.\<close>

definition round_even :: "real \<Rightarrow> int" where
  "round_even x = (let f = \<lfloor>x\<rfloor>; d = x - of_int f in
     if d < 1/2 then f else if d > 1/2 then f + 1 else if even f then f else f + 1)"

definition percentile :: "real list \<Rightarrow> real \<Rightarrow> real" where
  "percentile data pct = (if data = [] then 0
     else sort data ! nat (round_even (pct / 100 * (real (length data) - 1))))"

definition get_stats :: "flow_runtime \<Rightarrow> (string, val) dict" where
  "get_stats rt =
     (let st = rt_stats rt; queued = sa_queued_ms st; execs = sa_exec_ms st in
      [(''queue_depth_peak'', VInt (int (sa_depth_peak st))), (''queue_depth_current'', VInt (int (sa_depth_current st))),
       (''active_peak'', VInt (sa_active_peak st)), (''rejected'', VInt (int (sa_rejected st))),
       (''rejected_reason'', VDict (map (\<lambda>(k, n). (k, VInt (int n))) (sa_rejected_reason st))),
       (''success'', VInt (int (sa_success st))), (''error'', VInt (int (sa_error st))),
       (''queued_ms_p50'', VFloat (percentile queued 50)), (''queued_ms_p95'', VFloat (percentile queued 95)),
       (''queued_ms_p99'', VFloat (percentile queued 99)), (''exec_ms_p50'', VFloat (percentile execs 50)),
       (''exec_ms_p95'', VFloat (percentile execs 95)), (''exec_ms_p99'', VFloat (percentile execs 99))])"

text \<open>The rank is in range for every percentage, so a percentile is one of the data.\<close>

lemma round_even_bounds:
  assumes "0 \<le> x" "x \<le> real n"
  shows "0 \<le> round_even x" "round_even x \<le> int n"
proof -
  have "0 \<le> \<lfloor>x\<rfloor>" "\<lfloor>x\<rfloor> \<le> int n" using assms by linarith+
  moreover have "\<lfloor>x\<rfloor> + 1 \<le> int n" if "x - of_int \<lfloor>x\<rfloor> > 0" using assms that by linarith
  ultimately show "0 \<le> round_even x" "round_even x \<le> int n" by (auto simp: round_even_def Let_def)
qed

lemma percentile_member:
  assumes "data \<noteq> []" "0 \<le> pct" "pct \<le> 100"
  shows "percentile data pct \<in> set data"
proof -
  let ?x = "pct / 100 * (real (length data) - 1)"
  have len: "1 \<le> length data" using assms(1) by (simp add: Suc_leI)
  then have "0 \<le> ?x" using assms(2) by simp
  moreover have "?x \<le> 1 * (real (length data) - 1)" by (rule mult_right_mono) (use assms(3) len in simp_all)
  ultimately have "0 \<le> ?x" "?x \<le> real (length data - 1)" using len by (simp_all add: of_nat_diff)
  then have "nat (round_even ?x) < length data" using round_even_bounds[of ?x "length data - 1"] assms(1)
    by (metis (no_types) Suc_pred' length_greater_0_conv less_Suc_eq_le nat_le_iff)
  then have "sort data ! nat (round_even ?x) \<in> set (sort data)" by (intro nth_mem) simp
  then show ?thesis using assms(1) by (simp add: percentile_def)
qed

section \<open>The cache of results\<close>

definition flow_cached_result :: "string \<Rightarrow> real \<Rightarrow> flow_runtime \<Rightarrow> flow_result option \<times> flow_runtime" where
  "flow_cached_result key now rt =
     (if rt_idem_ttl rt \<le> 0 \<or> rt_idem_size rt = 0 then (None, rt)
      else case dict_get (rt_cache rt) key of
        None \<Rightarrow> (None, rt)
      | Some (expires, r) \<Rightarrow>
          if expires < now then (None, rt\<lparr>rt_cache := dict_pop key (rt_cache rt)\<rparr>)
          else (Some (clone_result r), rt\<lparr>rt_cache := move_to_end key (expires, r) (rt_cache rt)\<rparr>))"

definition flow_cache_result :: "string \<Rightarrow> flow_result \<Rightarrow> real \<Rightarrow> flow_runtime \<Rightarrow> flow_runtime" where
  "flow_cache_result key r now rt =
     (if rt_idem_ttl rt \<le> 0 \<or> rt_idem_size rt = 0 \<or> re_status r \<noteq> ''ok'' then rt
      else let e = (now + rt_idem_ttl rt, clone_result r) in
        rt\<lparr>rt_cache := enforce_capacity (int (rt_idem_size rt)) (move_to_end key e (dict_set key e (rt_cache rt)))\<rparr>)"

section \<open>Reading requests and outputs\<close>

definition extract_str :: "(string, val) dict \<Rightarrow> string \<Rightarrow> string option" where
  "extract_str d k = (case get_val d k of VStr s \<Rightarrow> Some s | _ \<Rightarrow> None)"

definition extract_float :: "(string, val) dict \<Rightarrow> string \<Rightarrow> real option" where
  "extract_float d k = number_of (get_val d k)"

definition extract_selected_flow :: "exec_request \<Rightarrow> string" where
  "extract_selected_flow rq = (case extract_str (fr_ctx rq) ''selected_flow'' of Some s \<Rightarrow> s | None \<Rightarrow> fr_flow_name rq)"

definition extract_operation :: "(string, val) dict \<Rightarrow> string option" where
  "extract_operation ctx = (case get_or ctx ''operation'' (get_val ctx ''op'') of VStr s \<Rightarrow> Some s | _ \<Rightarrow> None)"

definition build_request_descriptor :: "exec_request \<Rightarrow> request_descriptor" where
  "build_request_descriptor rq =
     (let binding = extract_str (fr_ctx rq) ''binding'' in
      \<lparr>rq_flow = fr_flow_name rq, rq_binding = binding,
       rq_policy_arm = (if given binding then Some (extract_selected_flow rq) else None)\<rparr>)"

text \<open>\<^verbatim>\<open>_coerce_float\<close> is the conversion \<open>to_float\<close>; \<^verbatim>\<open>x if x is not None else y\<close> on its results.\<close>

definition first_given :: "'a option \<Rightarrow> 'a option \<Rightarrow> 'a option" where
  "first_given x y = (case x of None \<Rightarrow> y | Some _ \<Rightarrow> x)"

definition usage_total :: "(string, val) dict \<Rightarrow> real option" where
  "usage_total u = (case to_float (get_val u ''total_tokens'') of
       Some t \<Rightarrow> Some t
     | None \<Rightarrow>
         (let prompt = to_float (get_val u ''prompt_tokens''); completion = to_float (get_val u ''completion_tokens'') in
          if prompt \<noteq> None \<or> completion \<noteq> None
          then Some (case_option 0 (\<lambda>x. x) prompt + case_option 0 (\<lambda>x. x) completion) else None))"

definition usage_from_mapping :: "(string, val) dict \<Rightarrow> real option \<times> real option" where
  "usage_from_mapping m =
     (let tokens = to_float (get_or m ''total_tokens'' (get_val m ''tokens''));
          cost = to_float (get_or m ''cost_usd'' (get_val m ''usd_cost'')) in
      case get_val m ''usage'' of
        VDict u \<Rightarrow> (first_given tokens (usage_total u), first_given cost (to_float (get_or u ''cost_usd'' (get_val u ''usd''))))
      | _ \<Rightarrow> (tokens, cost))"

definition extract_usage :: "(string, val) dict \<Rightarrow> real option \<times> real option" where
  "extract_usage d =
     (let (tokens, cost) = usage_from_mapping d in
      if tokens = None \<or> cost = None then
        (case get_val d ''state'' of
           VDict s \<Rightarrow> (first_given tokens (fst (usage_from_mapping s)), first_given cost (snd (usage_from_mapping s)))
         | _ \<Rightarrow> (tokens, cost))
      else (tokens, cost))"

record run_record =
  rr_flow :: string
  rr_flow_id :: string
  rr_flow_rev :: string
  rr_run_id :: string
  rr_selected_flow :: string
  rr_binding :: "string option"
  rr_status :: string
  rr_outcome :: "string option"
  rr_queued_ms :: real
  rr_exec_ms :: real
  rr_duration_ms :: real
  rr_start_ts :: real
  rr_end_ts :: real
  rr_cost_usd :: "real option"
  rr_user_rating :: "real option"
  rr_reward :: "real option"
  rr_meta :: "(string, val) dict"

definition optional_meta :: "string \<Rightarrow> string option \<Rightarrow> (string, val) dict" where
  "optional_meta k v = (case v of None \<Rightarrow> [] | Some s \<Rightarrow> [(k, VStr s)])"

definition build_run_record :: "exec_request \<Rightarrow> flow_result \<Rightarrow> real \<Rightarrow> real \<Rightarrow> run_record" where
  "build_run_record rq r t0 t1 =
     (let out = re_output r;
          st = (case get_val out ''state'' of VDict d \<Rightarrow> d | _ \<Rightarrow> []) in
      \<lparr>rr_flow = fr_flow_name rq, rr_flow_id = fr_flow_id rq, rr_flow_rev = fr_flow_rev rq, rr_run_id = fr_run_id rq,
       rr_selected_flow = extract_selected_flow rq, rr_binding = extract_str (fr_ctx rq) ''binding'', rr_status = re_status r,
       rr_outcome = first_given (extract_str out ''status'')
         (if given (extract_str st ''outcome'') then extract_str st ''outcome'' else extract_str st ''status''),
       rr_queued_ms = re_queued_ms r, rr_exec_ms = re_exec_ms r, rr_duration_ms = max 0 ((t1 - t0) * 1000),
       rr_start_ts = t0, rr_end_ts = t1,
       rr_cost_usd = first_given (extract_float out ''cost_usd'') (extract_float st ''cost_usd''),
       rr_user_rating = first_given (extract_float out ''user_rating'') (extract_float st ''user_rating''), rr_reward = None,
       rr_meta = optional_meta ''model'' (extract_str (fr_ctx rq) ''model'') @
         optional_meta ''operation'' (extract_operation (fr_ctx rq)) @ optional_meta ''error_code'' (re_error_code r) @
         optional_meta ''error_message'' (re_error_message r) @
         [(''policy_arm'', VStr (extract_selected_flow rq)), (''inputs_size'', VInt (int (length (fr_inputs rq))))]\<rparr>)"

section \<open>Admission\<close>

definition prepare_request ::
  "(string \<Rightarrow> string) \<Rightarrow> (val \<Rightarrow> string) \<Rightarrow> flow_runtime \<Rightarrow> string \<Rightarrow> (string, val) dict \<Rightarrow> response_mode option \<Rightarrow>
    (string, val) dict \<Rightarrow> string \<Rightarrow> nat \<Rightarrow> real \<Rightarrow> exec_request result" where
  "prepare_request B R rt name inputs mode ctx uuid future now =
     bind_result (choose_flow rt name) (\<lambda>spec. Inr
       \<lparr>fr_run_id = (case get_val ctx ''run_id'' of VStr s \<Rightarrow> s | _ \<Rightarrow> uuid), fr_flow_name = name,
        fr_flow_id = (if fl_flow_id spec \<noteq> [] then fl_flow_id spec else fl_name spec),
        fr_flow_rev = fst (flow_revision B R spec), fr_spec = spec, fr_inputs = inputs,
        fr_response_mode = (case mode of Some m \<Rightarrow> m | None \<Rightarrow> po_response_mode (rt_policies rt)), fr_ctx = ctx,
        fr_model_name = (case get_or inputs ''model'' (get_val ctx ''model'') of VStr s \<Rightarrow> Some s | _ \<Rightarrow> None),
        fr_future = future, fr_enqueue_ts = now, fr_decision = None, fr_descriptor = None\<rparr>)"

text \<open>The key under which \<^verbatim>\<open>execute\<close> registers a request, and the one the worker finds in its context.\<close>

definition idem_key :: "exec_request \<Rightarrow> string option" where
  "idem_key rq = (case get_val (fr_ctx rq) ''idempotency_key'' of VStr k \<Rightarrow> if k \<noteq> [] then Some k else None | _ \<Rightarrow> None)"

definition worker_key :: "exec_request \<Rightarrow> string option" where
  "worker_key rq = extract_str (fr_ctx rq) ''idempotency_key''"

definition pop_inflight :: "string option \<Rightarrow> flow_runtime \<Rightarrow> flow_runtime" where
  "pop_inflight key rt = (case key of None \<Rightarrow> rt | Some k \<Rightarrow> rt\<lparr>rt_inflight := dict_pop k (rt_inflight rt)\<rparr>)"

definition refusal :: "exec_request \<Rightarrow> string \<Rightarrow> (string, val) dict \<Rightarrow> string option \<Rightarrow> string \<Rightarrow> flow_result" where
  "refusal rq status output code message =
     \<lparr>re_status = status, re_run_id = fr_run_id rq, re_queued_ms = 0, re_exec_ms = 0, re_output = output,
      re_error_code = code, re_error_message = Some message, re_flow = fl_name (fr_spec rq),
      re_flow_id = fl_flow_id (fr_spec rq), re_flow_rev = fr_flow_rev rq, re_flow_name = fl_name (fr_spec rq)\<rparr>"

definition guard_meta :: "guard_decision \<Rightarrow> request_descriptor \<Rightarrow> (string, val) dict" where
  "guard_meta gd rq = dict_setdefault ''scope'' (VStr (rq_flow rq))
     (case first_violation gd of Some v \<Rightarrow> violation_dict v | None \<Rightarrow> [(''reason'', VStr ''blocked'')])"

definition denial_meta :: "governance_decision \<Rightarrow> (string, val) dict" where
  "denial_meta d =
     (let m = map (\<lambda>(k, v). (k, VStr v)) (gd_meta d) in
      if given (gd_scope d) then dict_setdefault ''scope'' (VStr (the (gd_scope d))) m else m)"

datatype admission =
    Returned flow_result
  | Joined nat
  | RaisedExn exn
  | Proceed exec_request

text \<open>\<^verbatim>\<open>execute\<close> from the look-up of the key to the call of \<^verbatim>\<open>_enqueue\<close>.\<close>

definition register_key :: "exec_request \<Rightarrow> real \<Rightarrow> flow_runtime \<Rightarrow> (flow_result + nat) option \<times> flow_runtime" where
  "register_key rq now rt = (case idem_key rq of
       None \<Rightarrow> (None, rt)
     | Some k \<Rightarrow> (case flow_cached_result k now rt of
          (Some r, rt1) \<Rightarrow> (Some (Inl (clone_result r)), rt1)
        | (None, rt1) \<Rightarrow> (case dict_get (rt_inflight rt1) k of
             Some f \<Rightarrow> (Some (Inr f), rt1)
           | None \<Rightarrow> (None, rt1\<lparr>rt_inflight := dict_set k (fr_future rq) (rt_inflight rt1)\<rparr>))))"

definition govern ::
  "(val \<Rightarrow> string) \<Rightarrow> regex_engine \<Rightarrow> exec_request \<Rightarrow> real \<Rightarrow> real \<Rightarrow> flow_runtime \<Rightarrow> admission \<times> flow_runtime" where
  "govern rep rx rq audit_ts now rt =
     (let rd = build_request_descriptor rq in
      case evaluate_guard rep rx (rt_guard rt) (fr_inputs rq) rd audit_ts of
        Inl e \<Rightarrow> (RaisedExn e, rt)
      | Inr (gd, guard) \<Rightarrow>
          (let rt1 = rt\<lparr>rt_guard := guard\<rparr> in
           if \<not> gdc_allowed gd then
             (Returned (refusal rq ''error'' [(''meta'', VDict (guard_meta gd rd))] (Some ''GUARD_BLOCKED'') ''request blocked by guard''),
              pop_inflight (idem_key rq) (record_rejected ''GUARD_BLOCKED'' rt1))
           else case gov_check (rt_governance rt1) now rd of (d, gm) \<Rightarrow>
             (let rt2 = rt1\<lparr>rt_governance := gm\<rparr> in
              if \<not> gd_allowed d then
                (Returned (refusal rq ''rejected'' [(''meta'', VDict (denial_meta d))] (gd_error_code d) ''request rejected by governance''),
                 pop_inflight (idem_key rq) (record_rejected
                   (if given (gd_error_code d) then the (gd_error_code d) else ''GOVERNANCE_REJECTED'') rt2))
              else (Proceed (rq\<lparr>fr_decision := Some d, fr_descriptor := Some rd\<rparr>), rt2))))"

definition admit_request ::
  "(val \<Rightarrow> string) \<Rightarrow> regex_engine \<Rightarrow> exec_request \<Rightarrow> real \<Rightarrow> real \<Rightarrow> real \<Rightarrow> flow_runtime \<Rightarrow> admission \<times> flow_runtime" where
  "admit_request rep rx rq cache_now audit_ts now rt = (case register_key rq cache_now rt of
       (Some (Inl r), rt1) \<Rightarrow> (Returned r, rt1)
     | (Some (Inr f), rt1) \<Rightarrow> (Joined f, rt1)
     | (None, rt1) \<Rightarrow> govern rep rx rq audit_ts now rt1)"

section \<open>The queue\<close>

definition has_room :: "flow_runtime \<Rightarrow> bool" where
  "has_room rt \<longleftrightarrow> rt_queue_capacity rt = 0 \<or> length (rt_queue rt) < rt_queue_capacity rt"

definition put_request :: "exec_request \<Rightarrow> real \<Rightarrow> flow_runtime \<Rightarrow> flow_runtime" where
  "put_request rq now rt = record_queue_depth (rt\<lparr>rt_queue := rt_queue rt @ [rq\<lparr>fr_enqueue_ts := now\<rparr>]\<rparr>)"

definition cancel_decision :: "exec_request \<Rightarrow> flow_runtime \<Rightarrow> flow_runtime" where
  "cancel_decision rq rt = (case fr_decision rq of
       None \<Rightarrow> rt
     | Some d \<Rightarrow> rt\<lparr>rt_governance := gov_cancel (rt_governance rt) d\<rparr>)"

definition reject_request :: "string \<Rightarrow> exec_request \<Rightarrow> flow_runtime \<Rightarrow> flow_result \<times> flow_runtime" where
  "reject_request code rq rt =
     (refusal rq ''rejected'' [] (Some code) ''request rejected'',
      pop_inflight (idem_key rq) (cancel_decision rq (record_rejected code rt)))"

section \<open>Runs\<close>

text \<open>
  A run is in the hands of the step functions, or it is deferred and waits for a signal; a deferred run
  that the policies forbid fails.
\<close>

datatype run_phase =
    Executing
  | Refused_deferred
  | Deferred string "(string, val) dict option"

definition request_signal :: "exec_request \<Rightarrow> string option" where
  "request_signal rq = extract_str (fr_inputs rq) ''req_id''"

definition poll_signal :: "exec_request \<Rightarrow> correlation_hub \<Rightarrow> (string, val) dict option \<times> correlation_hub" where
  "poll_signal rq h = (case request_signal rq of None \<Rightarrow> (None, h) | Some i \<Rightarrow> hub_consume_signal i h)"

definition begin_run :: "exec_request \<Rightarrow> string \<Rightarrow> flow_runtime \<Rightarrow> run_phase \<times> flow_runtime" where
  "begin_run rq token rt =
     (if fr_response_mode rq = IMMEDIATE then (Executing, rt)
      else if \<not> po_allow_deferred (rt_policies rt) then (Refused_deferred, rt)
      else case poll_signal rq (hub_reserve token (fl_name (fr_spec rq)) (fr_inputs rq) (rt_hub rt)) of
        (ready, h) \<Rightarrow> (Deferred token ready, rt\<lparr>rt_hub := h\<rparr>))"

definition start_request :: "exec_request \<Rightarrow> string \<Rightarrow> real \<Rightarrow> real \<Rightarrow> flow_runtime \<Rightarrow> run_phase \<times> flow_runtime" where
  "start_request rq token now gov_now rt =
     (let st = rt_stats rt;
          rt1 = rt\<lparr>rt_active := rt_active rt + 1,
            rt_stats := st\<lparr>sa_queued_ms := sa_queued_ms st @ [(now - fr_enqueue_ts rq) * 1000],
              sa_active_peak := max (sa_active_peak st) (rt_active rt + 1)\<rparr>,
            rt_governance := (case fr_decision rq of None \<Rightarrow> rt_governance rt | Some d \<Rightarrow> gov_activate (rt_governance rt) gov_now d)\<rparr>
      in begin_run rq token rt1)"

definition immediate_output :: "executed_step list \<times> val \<Rightarrow> (string, val) dict" where
  "immediate_output r = (case r of (ex, st) \<Rightarrow>
     [(''mode'', VStr ''immediate''), (''steps'', VList (map executed_doc ex)), (''state'', st)])"

text \<open>What \<^verbatim>\<open>_run_flow\<close> returns or raises in each phase, and the hub afterwards.  By \<open>execute_follows\<close> an
  execution always has an answer.\<close>

definition end_run ::
  "(string \<Rightarrow> string) \<Rightarrow> (nat \<Rightarrow> real) \<Rightarrow> exec_request \<Rightarrow> run_phase \<Rightarrow> correlation_hub \<Rightarrow> (flow_exn + (string, val) dict) \<times> correlation_hub" where
  "end_run B clock rq ph h = (case ph of
       Executing \<Rightarrow> (case execute_immediately B clock rq of
          Some (Inl e, _) \<Rightarrow> (Inl e, h)
        | Some (Inr r, _) \<Rightarrow> (Inr (immediate_output r), h)
        | None \<Rightarrow> (Inl (Raised ''OutOfFuel'' []), h))
     | Refused_deferred \<Rightarrow> (Inl (Raised ''RuntimeError'' ''Deferred execution is disabled by policy''), h)
     | Deferred token ready \<Rightarrow> (case ready of
          Some d \<Rightarrow> (Inr [(''mode'', VStr ''deferred''), (''status'', VStr ''ready''), (''token'', VStr token), (''result'', VDict d)],
            snd (hub_consume token h))
        | None \<Rightarrow> (Inr [(''mode'', VStr ''deferred''), (''status'', VStr ''pending''), (''token'', VStr token)], h)))"

record run_verdict =
  rv_status :: string
  rv_code :: "string option"
  rv_message :: "string option"
  rv_output :: "(string, val) dict"

definition judge_run :: "flow_exn + (string, val) dict \<Rightarrow> run_verdict" where
  "judge_run r = (case r of
       Inr out \<Rightarrow> \<lparr>rv_status = ''ok'', rv_code = None, rv_message = None, rv_output = out\<rparr>
     | Inl (PendingApproval a) \<Rightarrow> \<lparr>rv_status = ''pending'', rv_code = Some ''APPROVAL_REQUIRED'', rv_message = Some (ap_reason a),
         rv_output = pending_payload a\<rparr>
     | Inl (GuardBlockedError v) \<Rightarrow> \<lparr>rv_status = ''error'', rv_code = Some ''GUARD_BLOCKED'', rv_message = Some (gv_reason v),
         rv_output = [(''status'', VStr ''error''), (''violation'', VDict (violation_dict v))]\<rparr>
     | Inl (Raised c m) \<Rightarrow> \<lparr>rv_status = ''error'', rv_code = Some c, rv_message = Some m, rv_output = []\<rparr>)"

definition audit_run :: "exec_request \<Rightarrow> flow_exn + (string, val) dict \<Rightarrow> real \<Rightarrow> guard_state \<Rightarrow> guard_state" where
  "audit_run rq r ts g = (case r of
       Inl (PendingApproval a) \<Rightarrow> g\<lparr>gst_audit := audit_record (gst_audit g) ''hitl_pending''
         [(''flow'', VStr (fr_flow_name rq)), (''approval_id'', VStr (ap_id a)), (''reason'', VStr (ap_reason a))] ts\<rparr>
     | Inl (GuardBlockedError v) \<Rightarrow> g\<lparr>gst_audit := audit_record (gst_audit g) ''guard_block''
         [(''flow'', VStr (fr_flow_name rq)), (''rule'', VStr (gv_rule v)), (''reason'', VStr (gv_reason v))] ts\<rparr>
     | _ \<Rightarrow> g)"

definition count_run :: "flow_exn + (string, val) dict \<Rightarrow> real \<Rightarrow> flow_stats \<Rightarrow> flow_stats" where
  "count_run r exec_ms st =
     (let st1 = st\<lparr>sa_exec_ms := sa_exec_ms st @ [exec_ms]\<rparr> in
      case r of
        Inr _ \<Rightarrow> st1\<lparr>sa_success := Suc (sa_success st)\<rparr>
      | Inl (Raised _ _) \<Rightarrow> st1\<lparr>sa_error := Suc (sa_error st)\<rparr>
      | _ \<Rightarrow> st1)"

definition run_result :: "exec_request \<Rightarrow> run_verdict \<Rightarrow> real \<Rightarrow> real \<Rightarrow> flow_result" where
  "run_result rq v queued_ms exec_ms =
     \<lparr>re_status = rv_status v, re_run_id = fr_run_id rq, re_queued_ms = queued_ms, re_exec_ms = exec_ms,
      re_output = rv_output v, re_error_code = rv_code v, re_error_message = rv_message v, re_flow = fr_flow_name rq,
      re_flow_id = fr_flow_id rq, re_flow_rev = fr_flow_rev rq, re_flow_name = fr_flow_name rq\<rparr>"

definition finalize_decision :: "exec_request \<Rightarrow> run_verdict \<Rightarrow> real \<Rightarrow> flow_runtime \<Rightarrow> flow_runtime" where
  "finalize_decision rq v now rt = (case (fr_decision rq, fr_descriptor rq) of
       (Some d, Some _) \<Rightarrow>
         rt\<lparr>rt_governance := gov_finalize (rt_governance rt) now d (rv_status v) (rv_code v)
           (fst (extract_usage (rv_output v))) (snd (extract_usage (rv_output v)))\<rparr>
     | _ \<Rightarrow> rt)"

text \<open>The worker from the end of \<^verbatim>\<open>_run_flow\<close> on: the result for the future, and the record for the listeners.\<close>

record finish_times =
  ft_queued_ms :: real
  ft_exec_ms :: real
  ft_audit :: real
  ft_gov :: real
  ft_cache :: real
  ft_run_start :: real
  ft_run_end :: real

definition finish_request ::
  "exec_request \<Rightarrow> flow_exn + (string, val) dict \<Rightarrow> finish_times \<Rightarrow> flow_runtime \<Rightarrow> (flow_result \<times> run_record) \<times> flow_runtime" where
  "finish_request rq r t rt =
     (let v = judge_run r;
          result = run_result rq v (ft_queued_ms t) (ft_exec_ms t);
          rt1 = rt\<lparr>rt_active := rt_active rt - 1, rt_guard := audit_run rq r (ft_audit t) (rt_guard rt),
                   rt_stats := count_run r (ft_exec_ms t) (rt_stats rt)\<rparr>;
          rt2 = finalize_decision rq v (ft_gov t) rt1;
          rt3 = (case worker_key rq of
              None \<Rightarrow> rt2
            | Some k \<Rightarrow> flow_cache_result k result (ft_cache t) (pop_inflight (Some k) rt2))
      in ((result, build_run_record rq result (ft_run_start t) (ft_run_end t)), record_queue_depth rt3))"

section \<open>The event loop\<close>

record flow_loop =
  lp_runtime :: flow_runtime
  lp_putting :: "exec_request list"
  lp_running :: "(exec_request \<times> run_phase) list"
  lp_futures :: "(nat, flow_result) dict"
  lp_next :: nat
  lp_waiting :: "nat list"
  lp_records :: "run_record list"

definition start_loop :: "flow_runtime \<Rightarrow> flow_loop" where
  "start_loop rt = \<lparr>lp_runtime = rt, lp_putting = [], lp_running = [], lp_futures = [], lp_next = 0, lp_waiting = [], lp_records = []\<rparr>"

text \<open>\<^verbatim>\<open>_ensure_workers\<close> and \<^verbatim>\<open>_enqueue\<close> up to the wait, if there is one.\<close>

definition enqueue_request :: "exec_request \<Rightarrow> real \<Rightarrow> flow_loop \<Rightarrow> flow_loop" where
  "enqueue_request rq now lp =
     (let rt = (lp_runtime lp)\<lparr>rt_started := True\<rparr> in
      if rt_queue_capacity rt \<noteq> 0 \<and> rt_queue_wait rt > 0 then
        lp\<lparr>lp_runtime := rt, lp_putting := lp_putting lp @ [rq]\<rparr>
      else if has_room rt then
        lp\<lparr>lp_runtime := put_request rq now rt, lp_waiting := fr_future rq # lp_waiting lp\<rparr>
      else lp\<lparr>lp_runtime := snd (reject_request ''QUEUE_FULL'' rq rt)\<rparr>)"

text \<open>A call of \<^verbatim>\<open>execute\<close> up to its first wait.\<close>

record call_times =
  ct_now :: real
  ct_cache :: real
  ct_audit :: real
  ct_gov :: real
  ct_put :: real

definition execute_call ::
  "(val \<Rightarrow> string) \<Rightarrow> regex_engine \<Rightarrow> (string \<Rightarrow> string) \<Rightarrow> (val \<Rightarrow> string) \<Rightarrow> string \<Rightarrow> (string, val) dict \<Rightarrow> response_mode option \<Rightarrow>
    (string, val) dict \<Rightarrow> string \<Rightarrow> call_times \<Rightarrow> flow_loop \<Rightarrow> flow_loop" where
  "execute_call rep rx B R name inputs mode ctx uuid t lp =
     (case prepare_request B R (lp_runtime lp) name inputs mode ctx uuid (lp_next lp) (ct_now t) of
        Inl e \<Rightarrow> lp
      | Inr rq \<Rightarrow> (case admit_request rep rx rq (ct_cache t) (ct_audit t) (ct_gov t) (lp_runtime lp) of (a, rt) \<Rightarrow>
          (let lp1 = lp\<lparr>lp_runtime := rt, lp_next := Suc (lp_next lp)\<rparr> in
           case a of
             Returned r \<Rightarrow> lp1
           | RaisedExn e \<Rightarrow> lp1
           | Joined f \<Rightarrow> lp1\<lparr>lp_waiting := f # lp_waiting lp1\<rparr>
           | Proceed rq' \<Rightarrow> enqueue_request rq' (ct_put t) lp1)))"

text \<open>A put that waited ends in the queue (the time stamp was read before the wait) or times out.\<close>

definition put_done :: "exec_request \<Rightarrow> exec_request list \<Rightarrow> real \<Rightarrow> flow_loop \<Rightarrow> flow_loop" where
  "put_done rq rest now lp = lp\<lparr>lp_putting := rest, lp_runtime := put_request rq now (lp_runtime lp),
     lp_waiting := fr_future rq # lp_waiting lp\<rparr>"

definition put_timeout :: "exec_request \<Rightarrow> exec_request list \<Rightarrow> flow_loop \<Rightarrow> flow_loop" where
  "put_timeout rq rest lp = lp\<lparr>lp_putting := rest, lp_runtime := snd (reject_request ''QUEUE_TIMEOUT'' rq (lp_runtime lp))\<rparr>"

definition worker_take :: "exec_request \<Rightarrow> exec_request list \<Rightarrow> string \<Rightarrow> real \<Rightarrow> real \<Rightarrow> flow_loop \<Rightarrow> flow_loop" where
  "worker_take rq rest token now gov_now lp =
     (case start_request rq token now gov_now ((lp_runtime lp)\<lparr>rt_queue := rest\<rparr>) of (ph, rt) \<Rightarrow>
        lp\<lparr>lp_runtime := rt, lp_running := lp_running lp @ [(rq, ph)]\<rparr>)"

definition worker_finish ::
  "(string \<Rightarrow> string) \<Rightarrow> (nat \<Rightarrow> real) \<Rightarrow> exec_request \<Rightarrow> run_phase \<Rightarrow> (exec_request \<times> run_phase) list \<Rightarrow> finish_times \<Rightarrow> flow_loop \<Rightarrow> flow_loop" where
  "worker_finish B clock rq ph rest t lp =
     (case end_run B clock rq ph (rt_hub (lp_runtime lp)) of (r, h) \<Rightarrow>
      case finish_request rq r t ((lp_runtime lp)\<lparr>rt_hub := h\<rparr>) of ((result, rec), rt) \<Rightarrow>
        lp\<lparr>lp_runtime := rt, lp_running := rest,
           lp_futures := (if dict_has (lp_futures lp) (fr_future rq) then lp_futures lp
             else dict_set (fr_future rq) result (lp_futures lp)),
           lp_records := lp_records lp @ [rec]\<rparr>)"

text \<open>The steps of the workers, and all steps: callers, waits that end, signals and registrations.\<close>

inductive worker_step :: "(string \<Rightarrow> string) \<Rightarrow> flow_loop \<Rightarrow> flow_loop \<Rightarrow> bool" for B where
  take_step: "rt_started (lp_runtime lp) \<Longrightarrow> length (lp_running lp) < rt_max_concurrency (lp_runtime lp) \<Longrightarrow>
    rt_queue (lp_runtime lp) = rq # rest \<Longrightarrow> worker_step B lp (worker_take rq rest token now gov_now lp)"
| poll_step: "0 < po_short_wait_s (rt_policies (lp_runtime lp)) \<Longrightarrow> lp_running lp = xs @ (rq, Deferred token None) # ys \<Longrightarrow> poll_signal rq (rt_hub (lp_runtime lp)) = (ready, h) \<Longrightarrow>
    worker_step B lp (lp\<lparr>lp_runtime := (lp_runtime lp)\<lparr>rt_hub := h\<rparr>, lp_running := xs @ (rq, Deferred token ready) # ys\<rparr>)"
| finish_step: "lp_running lp = xs @ (rq, ph) # ys \<Longrightarrow> worker_step B lp (worker_finish B clock rq ph (xs @ ys) t lp)"

inductive flow_step ::
  "(val \<Rightarrow> string) \<Rightarrow> regex_engine \<Rightarrow> (string \<Rightarrow> string) \<Rightarrow> (val \<Rightarrow> string) \<Rightarrow> flow_loop \<Rightarrow> flow_loop \<Rightarrow> bool" for rep rx B R where
  call_step: "flow_step rep rx B R lp (execute_call rep rx B R name inputs mode ctx uuid t lp)"
| put_step: "lp_putting lp = xs @ rq # ys \<Longrightarrow> has_room (lp_runtime lp) \<Longrightarrow> flow_step rep rx B R lp (put_done rq (xs @ ys) now lp)"
| timeout_step: "lp_putting lp = xs @ rq # ys \<Longrightarrow> flow_step rep rx B R lp (put_timeout rq (xs @ ys) lp)"
| work_step: "worker_step B lp lp' \<Longrightarrow> flow_step rep rx B R lp lp'"
| resume_step: "lp_waiting lp = xs @ f # ys \<Longrightarrow> dict_has (lp_futures lp) f \<Longrightarrow> flow_step rep rx B R lp (lp\<lparr>lp_waiting := xs @ ys\<rparr>)"
| signal_step: "flow_step rep rx B R lp (lp\<lparr>lp_runtime := (lp_runtime lp)\<lparr>rt_hub := hub_signal i payload (rt_hub (lp_runtime lp))\<rparr>\<rparr>)"
| register_step: "flow_step rep rx B R lp (lp\<lparr>lp_runtime := register_flow f (lp_runtime lp)\<rparr>)"

inductive_cases worker_stepE: "worker_step B lp lp'"
inductive_cases flow_stepE: "flow_step rep rx B R lp lp'"

section \<open>What the operations leave alone\<close>

named_theorems rt_frame \<open>fields of the runtime that an operation keeps\<close>

lemma record_queue_depth_frame [rt_frame]:
  "rt_queue (record_queue_depth rt) = rt_queue rt" "rt_inflight (record_queue_depth rt) = rt_inflight rt"
  "rt_governance (record_queue_depth rt) = rt_governance rt" "rt_active (record_queue_depth rt) = rt_active rt"
  "rt_started (record_queue_depth rt) = rt_started rt" "rt_max_concurrency (record_queue_depth rt) = rt_max_concurrency rt"
  "rt_queue_capacity (record_queue_depth rt) = rt_queue_capacity rt" "rt_queue_wait (record_queue_depth rt) = rt_queue_wait rt"
  "sa_active_peak (rt_stats (record_queue_depth rt)) = sa_active_peak (rt_stats rt)" "rt_guard (record_queue_depth rt) = rt_guard rt"
  by (simp_all add: record_queue_depth_def Let_def)

lemma record_rejected_frame [rt_frame]:
  "rt_queue (record_rejected c rt) = rt_queue rt" "rt_inflight (record_rejected c rt) = rt_inflight rt"
  "rt_governance (record_rejected c rt) = rt_governance rt" "rt_active (record_rejected c rt) = rt_active rt"
  "rt_started (record_rejected c rt) = rt_started rt" "rt_max_concurrency (record_rejected c rt) = rt_max_concurrency rt"
  "rt_queue_capacity (record_rejected c rt) = rt_queue_capacity rt" "rt_queue_wait (record_rejected c rt) = rt_queue_wait rt"
  "sa_active_peak (rt_stats (record_rejected c rt)) = sa_active_peak (rt_stats rt)" "rt_guard (record_rejected c rt) = rt_guard rt"
  by (simp_all add: record_rejected_def)

lemma pop_inflight_frame [rt_frame]:
  "rt_queue (pop_inflight k rt) = rt_queue rt" "rt_governance (pop_inflight k rt) = rt_governance rt"
  "rt_active (pop_inflight k rt) = rt_active rt" "rt_started (pop_inflight k rt) = rt_started rt"
  "rt_max_concurrency (pop_inflight k rt) = rt_max_concurrency rt" "rt_queue_capacity (pop_inflight k rt) = rt_queue_capacity rt"
  "rt_queue_wait (pop_inflight k rt) = rt_queue_wait rt" "rt_stats (pop_inflight k rt) = rt_stats rt" "rt_guard (pop_inflight k rt) = rt_guard rt"
  "dict_get (rt_inflight (pop_inflight k rt)) k' = (if k = Some k' then None else dict_get (rt_inflight rt) k')"
  by (auto simp: pop_inflight_def dict_get_pop split: option.splits)

lemma cancel_decision_frame [rt_frame]:
  "rt_queue (cancel_decision rq rt) = rt_queue rt" "rt_inflight (cancel_decision rq rt) = rt_inflight rt"
  "rt_active (cancel_decision rq rt) = rt_active rt" "rt_started (cancel_decision rq rt) = rt_started rt"
  "rt_max_concurrency (cancel_decision rq rt) = rt_max_concurrency rt" "rt_queue_capacity (cancel_decision rq rt) = rt_queue_capacity rt"
  "rt_queue_wait (cancel_decision rq rt) = rt_queue_wait rt" "rt_stats (cancel_decision rq rt) = rt_stats rt" "rt_guard (cancel_decision rq rt) = rt_guard rt"
  by (simp_all add: cancel_decision_def split: option.splits)

lemma flow_cached_frame [rt_frame]:
  "rt_queue (snd (flow_cached_result k now rt)) = rt_queue rt" "rt_inflight (snd (flow_cached_result k now rt)) = rt_inflight rt"
  "rt_governance (snd (flow_cached_result k now rt)) = rt_governance rt" "rt_active (snd (flow_cached_result k now rt)) = rt_active rt"
  "rt_started (snd (flow_cached_result k now rt)) = rt_started rt" "rt_max_concurrency (snd (flow_cached_result k now rt)) = rt_max_concurrency rt"
  "rt_queue_capacity (snd (flow_cached_result k now rt)) = rt_queue_capacity rt" "rt_queue_wait (snd (flow_cached_result k now rt)) = rt_queue_wait rt"
  "rt_stats (snd (flow_cached_result k now rt)) = rt_stats rt" "rt_guard (snd (flow_cached_result k now rt)) = rt_guard rt"
  by (auto simp: flow_cached_result_def split: option.splits)

lemma maybe_cache_frame [rt_frame]:
  "rt_queue (flow_cache_result k r now rt) = rt_queue rt" "rt_inflight (flow_cache_result k r now rt) = rt_inflight rt"
  "rt_governance (flow_cache_result k r now rt) = rt_governance rt" "rt_active (flow_cache_result k r now rt) = rt_active rt"
  "rt_started (flow_cache_result k r now rt) = rt_started rt" "rt_max_concurrency (flow_cache_result k r now rt) = rt_max_concurrency rt"
  "rt_queue_capacity (flow_cache_result k r now rt) = rt_queue_capacity rt" "rt_queue_wait (flow_cache_result k r now rt) = rt_queue_wait rt"
  "rt_stats (flow_cache_result k r now rt) = rt_stats rt" "rt_guard (flow_cache_result k r now rt) = rt_guard rt"
  by (auto simp: flow_cache_result_def Let_def)

lemma finalize_frame [rt_frame]:
  "rt_queue (finalize_decision rq v now rt) = rt_queue rt" "rt_inflight (finalize_decision rq v now rt) = rt_inflight rt"
  "rt_active (finalize_decision rq v now rt) = rt_active rt" "rt_started (finalize_decision rq v now rt) = rt_started rt"
  "rt_max_concurrency (finalize_decision rq v now rt) = rt_max_concurrency rt" "rt_queue_capacity (finalize_decision rq v now rt) = rt_queue_capacity rt"
  "rt_queue_wait (finalize_decision rq v now rt) = rt_queue_wait rt" "rt_stats (finalize_decision rq v now rt) = rt_stats rt"
  "rt_guard (finalize_decision rq v now rt) = rt_guard rt"
  by (simp_all add: finalize_decision_def split: option.splits)

lemma count_run_peak [rt_frame]: "sa_active_peak (count_run r ms st) = sa_active_peak st"
  by (simp add: count_run_def Let_def split: sum.splits flow_exn.splits)

lemma begin_run_frame [rt_frame]:
  "rt_queue (snd (begin_run rq tok rt)) = rt_queue rt" "rt_inflight (snd (begin_run rq tok rt)) = rt_inflight rt"
  "rt_governance (snd (begin_run rq tok rt)) = rt_governance rt" "rt_active (snd (begin_run rq tok rt)) = rt_active rt"
  "rt_started (snd (begin_run rq tok rt)) = rt_started rt" "rt_max_concurrency (snd (begin_run rq tok rt)) = rt_max_concurrency rt"
  "rt_queue_capacity (snd (begin_run rq tok rt)) = rt_queue_capacity rt" "rt_queue_wait (snd (begin_run rq tok rt)) = rt_queue_wait rt"
  "rt_stats (snd (begin_run rq tok rt)) = rt_stats rt" "rt_guard (snd (begin_run rq tok rt)) = rt_guard rt"
  by (auto simp: begin_run_def split: prod.splits)

text \<open>The finished runtime, field by field.\<close>

lemma finish_request_frame [rt_frame]:
  fixes rq r t rt
  defines "rt' \<equiv> snd (finish_request rq r t rt)"
  shows "rt_queue rt' = rt_queue rt" "rt_active rt' = rt_active rt - 1" "rt_started rt' = rt_started rt"
    "rt_max_concurrency rt' = rt_max_concurrency rt" "rt_queue_capacity rt' = rt_queue_capacity rt" "rt_queue_wait rt' = rt_queue_wait rt"
    "sa_active_peak (rt_stats rt') = sa_active_peak (rt_stats rt)"
    "dict_get (rt_inflight rt') k = (if worker_key rq = Some k then None else dict_get (rt_inflight rt) k)"
    "rt_governance rt' = rt_governance (finalize_decision rq (judge_run r) (ft_gov t) rt)"
  by (auto simp: rt'_def finish_request_def Let_def rt_frame finalize_decision_def split: option.splits)

lemma request_key_update [simp]:
  "idem_key (rq\<lparr>fr_enqueue_ts := t\<rparr>) = idem_key rq" "idem_key (rq\<lparr>fr_decision := d, fr_descriptor := rd\<rparr>) = idem_key rq"
  by (simp_all add: idem_key_def)

lemma worker_key_iff: "worker_key rq = Some k \<Longrightarrow> idem_key rq = (if k = [] then None else Some k)"
  by (simp add: worker_key_def idem_key_def extract_str_def split: val.splits)

lemma idem_worker_key: "idem_key rq = Some k \<Longrightarrow> worker_key rq = Some k \<and> k \<noteq> []"
  by (simp add: worker_key_def idem_key_def extract_str_def split: val.splits if_splits)

section \<open>Admission, case by case\<close>

text \<open>The fields that admission never touches.\<close>

definition same_shape :: "flow_runtime \<Rightarrow> flow_runtime \<Rightarrow> bool" where
  "same_shape rt rt' \<longleftrightarrow> rt_queue rt' = rt_queue rt \<and> rt_active rt' = rt_active rt \<and> rt_started rt' = rt_started rt \<and>
     rt_max_concurrency rt' = rt_max_concurrency rt \<and> rt_queue_capacity rt' = rt_queue_capacity rt \<and>
     rt_queue_wait rt' = rt_queue_wait rt \<and> sa_active_peak (rt_stats rt') = sa_active_peak (rt_stats rt)"

lemma register_key_cases:
  assumes "register_key rq now rt = (res, rt')"
  shows "same_shape rt rt' \<and> rt_governance rt' = rt_governance rt \<and> rt_guard rt' = rt_guard rt \<and>
    (case res of
       Some (Inl r) \<Rightarrow> rt_inflight rt' = rt_inflight rt
     | Some (Inr f) \<Rightarrow> rt_inflight rt' = rt_inflight rt \<and> (\<exists>k. idem_key rq = Some k \<and> dict_get (rt_inflight rt) k = Some f)
     | None \<Rightarrow> (\<forall>k. idem_key rq = Some k \<longrightarrow> dict_get (rt_inflight rt) k = None) \<and>
         (\<forall>k. dict_get (rt_inflight rt') k = (if idem_key rq = Some k then Some (fr_future rq) else dict_get (rt_inflight rt) k)))"
proof (cases "idem_key rq")
  case None
  then show ?thesis using assms by (auto simp: register_key_def same_shape_def)
next
  case (Some k)
  obtain c rt1 where c: "flow_cached_result k now rt = (c, rt1)" by (cases "flow_cached_result k now rt")
  have frame: "same_shape rt rt1" "rt_inflight rt1 = rt_inflight rt" "rt_governance rt1 = rt_governance rt" "rt_guard rt1 = rt_guard rt"
    using flow_cached_frame[of k now rt] c by (simp_all add: same_shape_def)
  show ?thesis using assms Some c frame
    by (cases c; cases "dict_get (rt_inflight rt1) k") (auto simp: register_key_def same_shape_def dict_get_set)
qed

lemma govern_cases:
  assumes "govern rep rx rq ts now rt = (res, rt')"
  shows "same_shape rt rt' \<and>
    (case res of
       Returned r \<Rightarrow> (\<forall>k. dict_get (rt_inflight rt') k = (if idem_key rq = Some k then None else dict_get (rt_inflight rt) k)) \<and>
         (rt_governance rt' = rt_governance rt \<or>
          (\<exists>d. gov_check (rt_governance rt) now (build_request_descriptor rq) = (d, rt_governance rt') \<and> \<not> gd_allowed d))
     | Joined f \<Rightarrow> False
     | RaisedExn e \<Rightarrow> rt' = rt \<and> evaluate_guard rep rx (rt_guard rt) (fr_inputs rq) (build_request_descriptor rq) ts = Inl e
     | Proceed rq' \<Rightarrow> rt_inflight rt' = rt_inflight rt \<and>
         (\<exists>d. gov_check (rt_governance rt) now (build_request_descriptor rq) = (d, rt_governance rt') \<and> gd_allowed d \<and>
            rq' = rq\<lparr>fr_decision := Some d, fr_descriptor := Some (build_request_descriptor rq)\<rparr>))"
  using assms
  by (auto simp: govern_def Let_def same_shape_def rt_frame split: sum.splits prod.splits if_splits)

lemma admit_cases:
  assumes "admit_request rep rx rq c ts now rt = (res, rt')"
  shows "same_shape rt rt' \<and>
    (case res of
       Returned r \<Rightarrow> (\<forall>k. dict_get (rt_inflight rt') k = dict_get (rt_inflight rt) k) \<and>
         (rt_governance rt' = rt_governance rt \<or>
          (\<exists>d. gov_check (rt_governance rt) now (build_request_descriptor rq) = (d, rt_governance rt') \<and> \<not> gd_allowed d))
     | Joined f \<Rightarrow> rt_inflight rt' = rt_inflight rt \<and> rt_governance rt' = rt_governance rt \<and>
         (\<exists>k. idem_key rq = Some k \<and> dict_get (rt_inflight rt) k = Some f)
     | RaisedExn e \<Rightarrow> rt_governance rt' = rt_governance rt \<and>
         (\<forall>k. dict_get (rt_inflight rt') k = (if idem_key rq = Some k then Some (fr_future rq) else dict_get (rt_inflight rt) k)) \<and>
         (\<forall>k. idem_key rq = Some k \<longrightarrow> dict_get (rt_inflight rt) k = None) \<and>
         evaluate_guard rep rx (rt_guard rt) (fr_inputs rq) (build_request_descriptor rq) ts = Inl e
     | Proceed rq' \<Rightarrow> (\<forall>k. idem_key rq = Some k \<longrightarrow> dict_get (rt_inflight rt) k = None) \<and>
         (\<forall>k. dict_get (rt_inflight rt') k = (if idem_key rq = Some k then Some (fr_future rq) else dict_get (rt_inflight rt) k)) \<and>
         (\<exists>d. gov_check (rt_governance rt) now (build_request_descriptor rq) = (d, rt_governance rt') \<and> gd_allowed d \<and>
            rq' = rq\<lparr>fr_decision := Some d, fr_descriptor := Some (build_request_descriptor rq)\<rparr>))"
proof -
  obtain k rt1 where k: "register_key rq c rt = (k, rt1)" by (cases "register_key rq c rt")
  note reg = register_key_cases[OF k]
  show ?thesis
  proof (cases k)
    case None
    then have g: "govern rep rx rq ts now rt1 = (res, rt')" using assms k by (simp add: admit_request_def)
    have s1: "same_shape rt rt1" "rt_governance rt1 = rt_governance rt" "rt_guard rt1 = rt_guard rt"
      and i1: "\<And>k. idem_key rq = Some k \<Longrightarrow> dict_get (rt_inflight rt) k = None"
        "\<And>k. dict_get (rt_inflight rt1) k = (if idem_key rq = Some k then Some (fr_future rq) else dict_get (rt_inflight rt) k)"
      using reg None by auto
    show ?thesis using govern_cases[OF g] s1 i1 by (cases res) (auto simp: same_shape_def)
  next
    case (Some x)
    then show ?thesis using reg assms k by (cases x) (auto simp: admit_request_def)
  qed
qed

section \<open>The invariant of the loop\<close>

definition live :: "flow_loop \<Rightarrow> exec_request list" where
  "live lp = lp_putting lp @ rt_queue (lp_runtime lp) @ map fst (lp_running lp)"

definition owns :: "flow_loop \<Rightarrow> exec_request \<Rightarrow> bool" where
  "owns lp rq \<longleftrightarrow> fr_future rq < lp_next lp \<and> \<not> dict_has (lp_futures lp) (fr_future rq) \<and>
     (\<forall>k. idem_key rq = Some k \<longrightarrow> dict_get (rt_inflight (lp_runtime lp)) k = Some (fr_future rq))"

definition loop_inv :: "flow_loop \<Rightarrow> bool" where
  "loop_inv lp \<longleftrightarrow> distinct (map fr_future (live lp)) \<and> (\<forall>rq\<in>set (live lp). owns lp rq) \<and>
     rt_active (lp_runtime lp) = int (length (lp_running lp)) \<and>
     length (lp_running lp) \<le> rt_max_concurrency (lp_runtime lp) \<and>
     (rt_queue_capacity (lp_runtime lp) \<noteq> 0 \<longrightarrow> length (rt_queue (lp_runtime lp)) \<le> rt_queue_capacity (lp_runtime lp)) \<and>
     sa_active_peak (rt_stats (lp_runtime lp)) \<le> int (rt_max_concurrency (lp_runtime lp)) \<and>
     (\<forall>f. dict_has (lp_futures lp) f \<longrightarrow> f < lp_next lp)"

text \<open>Two live requests never have the same key.\<close>

lemma loop_inv_keys:
  assumes "loop_inv lp" "rq \<in> set (live lp)" "rq' \<in> set (live lp)" "idem_key rq = Some k" "idem_key rq' = Some k"
  shows "rq = rq'"
proof -
  have own: "owns lp rq" "owns lp rq'" using assms(1-3) unfolding loop_inv_def by blast+
  have "fr_future rq = fr_future rq'" using own assms(4,5) unfolding owns_def by (metis option.inject)
  then show ?thesis using assms(1-3) by (auto simp: loop_inv_def distinct_map dest: inj_onD)
qed

lemma owns_mono:
  assumes "owns lp rq" "lp_next lp \<le> lp_next lp'" "lp_futures lp' = lp_futures lp"
    and "\<And>k. idem_key rq = Some k \<Longrightarrow> dict_get (rt_inflight (lp_runtime lp')) k = dict_get (rt_inflight (lp_runtime lp)) k"
  shows "owns lp' rq"
  using assms by (auto simp: owns_def)

text \<open>The bounds apart from ownership.\<close>

definition loop_bounds :: "flow_loop \<Rightarrow> bool" where
  "loop_bounds lp \<longleftrightarrow> rt_active (lp_runtime lp) = int (length (lp_running lp)) \<and>
     length (lp_running lp) \<le> rt_max_concurrency (lp_runtime lp) \<and>
     (rt_queue_capacity (lp_runtime lp) \<noteq> 0 \<longrightarrow> length (rt_queue (lp_runtime lp)) \<le> rt_queue_capacity (lp_runtime lp)) \<and>
     sa_active_peak (rt_stats (lp_runtime lp)) \<le> int (rt_max_concurrency (lp_runtime lp)) \<and>
     (\<forall>f. dict_has (lp_futures lp) f \<longrightarrow> f < lp_next lp)"

lemma loop_inv_split:
  "loop_inv lp \<longleftrightarrow> distinct (map fr_future (live lp)) \<and> (\<forall>rq\<in>set (live lp). owns lp rq) \<and> loop_bounds lp"
  by (auto simp: loop_inv_def loop_bounds_def)

lemma new_future_fresh:
  assumes "loop_inv lp" "rq \<in> set (live lp)"
  shows "fr_future rq \<noteq> lp_next lp"
  using assms by (auto simp: loop_inv_def owns_def)

text \<open>A key that no entry holds is not the key of a live request.\<close>

lemma free_key:
  assumes "loop_inv lp" "rq \<in> set (live lp)" "dict_get (rt_inflight (lp_runtime lp)) k = None"
  shows "idem_key rq \<noteq> Some k"
  using assms unfolding loop_inv_def owns_def by force

lemma owns_call:
  assumes inv: "loop_inv lp" and x: "x \<in> set (live lp)"
    and "lp_futures lp' = lp_futures lp" "lp_next lp \<le> lp_next lp'"
    and keys: "\<And>k. idem_key rq = Some k \<Longrightarrow> dict_get (rt_inflight (lp_runtime lp)) k = None"
    and other: "\<And>k. idem_key rq \<noteq> Some k \<Longrightarrow> dict_get (rt_inflight (lp_runtime lp')) k = dict_get (rt_inflight (lp_runtime lp)) k"
  shows "owns lp' x"
proof (rule owns_mono)
  show "owns lp x" using inv x by (auto simp: loop_inv_def)
  show "dict_get (rt_inflight (lp_runtime lp')) k = dict_get (rt_inflight (lp_runtime lp)) k" if "idem_key x = Some k" for k
    using other[of k] free_key[OF inv x] keys that by blast
qed (use assms in auto)

lemma enqueue_request_cases:
  "enqueue_request rq now lp =
     (if rt_queue_capacity (lp_runtime lp) \<noteq> 0 \<and> rt_queue_wait (lp_runtime lp) > 0 then
        lp\<lparr>lp_runtime := (lp_runtime lp)\<lparr>rt_started := True\<rparr>, lp_putting := lp_putting lp @ [rq]\<rparr>
      else if has_room (lp_runtime lp) then
        lp\<lparr>lp_runtime := put_request rq now ((lp_runtime lp)\<lparr>rt_started := True\<rparr>), lp_waiting := fr_future rq # lp_waiting lp\<rparr>
      else lp\<lparr>lp_runtime := snd (reject_request ''QUEUE_FULL'' rq ((lp_runtime lp)\<lparr>rt_started := True\<rparr>))\<rparr>)"
  by (simp add: enqueue_request_def has_room_def)

lemma put_request_frame [rt_frame]:
  "rt_queue (put_request rq now rt) = rt_queue rt @ [rq\<lparr>fr_enqueue_ts := now\<rparr>]" "rt_inflight (put_request rq now rt) = rt_inflight rt"
  "rt_governance (put_request rq now rt) = rt_governance rt" "rt_active (put_request rq now rt) = rt_active rt"
  "rt_started (put_request rq now rt) = rt_started rt" "rt_max_concurrency (put_request rq now rt) = rt_max_concurrency rt"
  "rt_queue_capacity (put_request rq now rt) = rt_queue_capacity rt" "rt_queue_wait (put_request rq now rt) = rt_queue_wait rt"
  "sa_active_peak (rt_stats (put_request rq now rt)) = sa_active_peak (rt_stats rt)"
  by (simp_all add: put_request_def rt_frame)

lemma reject_request_frame [rt_frame]:
  "rt_queue (snd (reject_request c rq rt)) = rt_queue rt" "rt_active (snd (reject_request c rq rt)) = rt_active rt"
  "rt_started (snd (reject_request c rq rt)) = rt_started rt" "rt_max_concurrency (snd (reject_request c rq rt)) = rt_max_concurrency rt"
  "rt_queue_capacity (snd (reject_request c rq rt)) = rt_queue_capacity rt" "rt_queue_wait (snd (reject_request c rq rt)) = rt_queue_wait rt"
  "sa_active_peak (rt_stats (snd (reject_request c rq rt))) = sa_active_peak (rt_stats rt)"
  "dict_get (rt_inflight (snd (reject_request c rq rt))) k = (if idem_key rq = Some k then None else dict_get (rt_inflight rt) k)"
  "rt_governance (snd (reject_request c rq rt)) = rt_governance (cancel_decision rq rt)"
  by (simp_all add: reject_request_def rt_frame cancel_decision_def split: option.splits)

lemma mset_live_add:
  assumes "mset (live lp') = add_mset rq (mset (live lp))" "distinct (map fr_future (live lp))"
    and "\<And>x. x \<in> set (live lp) \<Longrightarrow> fr_future x \<noteq> fr_future rq"
  shows "distinct (map fr_future (live lp'))" "set (live lp') = insert rq (set (live lp))"
proof -
  have "mset (map fr_future (live lp')) = mset (map fr_future (rq # live lp))" using assms(1) by simp
  moreover have "fr_future rq \<notin> set (map fr_future (live lp))" using assms(3) by (metis imageE list.set_map)
  then have "distinct (map fr_future (rq # live lp))" using assms(2) by simp
  ultimately show "distinct (map fr_future (live lp'))" using mset_eq_imp_distinct_iff by blast
  show "set (live lp') = insert rq (set (live lp))" using assms(1) by (metis set_mset_add_mset_insert set_mset_mset)
qed

lemma owns_same:
  "lp_next lp' = lp_next lp \<Longrightarrow> lp_futures lp' = lp_futures lp \<Longrightarrow> rt_inflight (lp_runtime lp') = rt_inflight (lp_runtime lp) \<Longrightarrow>
    owns lp' rq = owns lp rq"
  by (simp add: owns_def)

lemma owns_retimed [simp]: "owns lp (rq\<lparr>fr_enqueue_ts := t\<rparr>) = owns lp rq"
  by (simp add: owns_def)

lemma enqueue_inv:
  assumes bounds: "loop_bounds lp" and dist: "distinct (map fr_future (live lp))" and own: "\<And>x. x \<in> set (live lp) \<Longrightarrow> owns lp x"
    and new: "owns lp rq" "\<And>x. x \<in> set (live lp) \<Longrightarrow> fr_future x \<noteq> fr_future rq" "\<And>x k. x \<in> set (live lp) \<Longrightarrow> idem_key rq = Some k \<Longrightarrow> idem_key x \<noteq> Some k"
  shows "loop_inv (enqueue_request rq now lp)"
proof -
  let ?lp = "enqueue_request rq now lp" and ?rt = "lp_runtime lp"
  consider (wait) "rt_queue_capacity ?rt \<noteq> 0 \<and> rt_queue_wait ?rt > 0"
    | (room) "\<not> (rt_queue_capacity ?rt \<noteq> 0 \<and> rt_queue_wait ?rt > 0)" "has_room ?rt"
    | (full) "\<not> (rt_queue_capacity ?rt \<noteq> 0 \<and> rt_queue_wait ?rt > 0)" "\<not> has_room ?rt" by blast
  then show ?thesis
  proof cases
    case wait
    then have "mset (live ?lp) = add_mset rq (mset (live lp))" by (simp add: enqueue_request_cases live_def)
    note add = mset_live_add[OF this dist new(2)]
    have "owns ?lp x = owns lp x" for x using wait by (intro owns_same) (simp_all add: enqueue_request_cases)
    then show ?thesis using wait add own new(1) bounds by (simp add: loop_inv_split enqueue_request_cases loop_bounds_def)
  next
    case room
    then have "mset (live ?lp) = add_mset (rq\<lparr>fr_enqueue_ts := now\<rparr>) (mset (live lp))" by (auto simp: enqueue_request_cases live_def rt_frame)
    note add = mset_live_add[OF this dist]
    have "owns ?lp x = owns lp x" for x using room by (intro owns_same) (simp_all add: enqueue_request_cases rt_frame)
    moreover have "loop_bounds ?lp" using room bounds by (auto simp: enqueue_request_cases loop_bounds_def rt_frame has_room_def)
    ultimately show ?thesis using room add own new(1,2) by (simp add: loop_inv_split)
  next
    case full
    then have lv: "live ?lp = live lp" by (simp add: enqueue_request_cases live_def rt_frame)
    have "owns ?lp x" if "x \<in> set (live lp)" for x
      using own[OF that] new(3)[OF that] full by (auto simp: owns_def enqueue_request_cases rt_frame)
    then show ?thesis using full dist bounds lv by (auto simp: loop_inv_split enqueue_request_cases loop_bounds_def rt_frame)
  qed
qed

lemma call_inv:
  assumes "loop_inv lp"
  shows "loop_inv (execute_call rep rx B R name inputs mode ctx uuid t lp)"
proof (cases "prepare_request B R (lp_runtime lp) name inputs mode ctx uuid (lp_next lp) (ct_now t)")
  case (Inl e)
  then show ?thesis using assms by (simp add: execute_call_def)
next
  case (Inr rq)
  then have fut: "fr_future rq = lp_next lp" by (auto simp: prepare_request_def result_simps)
  obtain a rt where ad: "admit_request rep rx rq (ct_cache t) (ct_audit t) (ct_gov t) (lp_runtime lp) = (a, rt)"
    by (cases "admit_request rep rx rq (ct_cache t) (ct_audit t) (ct_gov t) (lp_runtime lp)")
  let ?lp1 = "lp\<lparr>lp_runtime := rt, lp_next := Suc (lp_next lp)\<rparr>"
  note ac = admit_cases[OF ad]
  have lv: "live ?lp1 = live lp" and b1: "loop_bounds ?lp1"
    using ac assms by (auto simp: live_def same_shape_def loop_inv_split loop_bounds_def less_Suc_eq)
  have d1: "distinct (map fr_future (live ?lp1))" using assms lv by (simp add: loop_inv_split)
  have own0: "owns lp x" if "x \<in> set (live lp)" for x using assms that by (simp add: loop_inv_split)
  show ?thesis
  proof (cases a)
    case (Proceed rq')
    obtain d where rq': "rq' = rq\<lparr>fr_decision := Some d, fr_descriptor := Some (build_request_descriptor rq)\<rparr>"
      and keys: "\<And>k. idem_key rq = Some k \<Longrightarrow> dict_get (rt_inflight (lp_runtime lp)) k = None"
        "\<And>k. dict_get (rt_inflight rt) k = (if idem_key rq = Some k then Some (fr_future rq) else dict_get (rt_inflight (lp_runtime lp)) k)"
      using ac Proceed by auto
    have own: "owns ?lp1 x" if "x \<in> set (live lp)" for x using owns_call[OF assms that, of ?lp1 rq] keys by simp
    have "owns ?lp1 rq'" using keys fut assms by (auto simp: rq' owns_def loop_inv_def)
    moreover have "fr_future x \<noteq> fr_future rq'" if "x \<in> set (live lp)" for x using new_future_fresh[OF assms that] fut rq' by simp
    moreover have "idem_key x \<noteq> Some k" if "x \<in> set (live lp)" "idem_key rq' = Some k" for x k
      using free_key[OF assms that(1)] keys(1) that(2) rq' by simp
    ultimately have "loop_inv (enqueue_request rq' (ct_put t) ?lp1)" using enqueue_inv[OF b1 d1] own lv by simp
    then show ?thesis using Inr ad Proceed by (simp add: execute_call_def Let_def)
  next
    case (Returned r)
    have same: "dict_get (rt_inflight rt) k = dict_get (rt_inflight (lp_runtime lp)) k" for k using ac Returned by simp
    have "owns ?lp1 x" if "x \<in> set (live lp)" for x using own0[OF that] by (rule owns_mono) (simp_all add: same)
    then show ?thesis using Inr ad Returned b1 d1 lv by (simp add: execute_call_def loop_inv_split)
  next
    case (Joined f)
    have same: "rt_inflight rt = rt_inflight (lp_runtime lp)" using ac Joined by simp
    have "owns ?lp1 x" if "x \<in> set (live lp)" for x using own0[OF that] by (rule owns_mono) (simp_all add: same)
    then show ?thesis using Inr ad Joined b1 d1 lv by (simp add: execute_call_def loop_inv_split live_def loop_bounds_def owns_def)
  next
    case (RaisedExn e)
    have keys: "\<And>k. idem_key rq = Some k \<Longrightarrow> dict_get (rt_inflight (lp_runtime lp)) k = None"
        "\<And>k. dict_get (rt_inflight rt) k = (if idem_key rq = Some k then Some (fr_future rq) else dict_get (rt_inflight (lp_runtime lp)) k)"
      using ac RaisedExn by auto
    have "owns ?lp1 x" if "x \<in> set (live lp)" for x using owns_call[OF assms that, of ?lp1 rq] keys by simp
    then show ?thesis using Inr ad RaisedExn b1 d1 lv by (simp add: execute_call_def loop_inv_split)
  qed
qed

lemma mset_live_same:
  assumes "mset (live lp') = mset (live lp)" "distinct (map fr_future (live lp))"
  shows "distinct (map fr_future (live lp'))" "set (live lp') = set (live lp)"
proof -
  have "mset (map fr_future (live lp')) = mset (map fr_future (live lp))" using assms(1) by simp
  then show "distinct (map fr_future (live lp'))" using assms(2) mset_eq_imp_distinct_iff by blast
  show "set (live lp') = set (live lp)" using assms(1) by (metis set_mset_mset)
qed

text \<open>A request that leaves the loop takes its future with it; the others keep theirs.\<close>

lemma mset_live_remove:
  assumes "mset (live lp) = add_mset rq (mset (live lp'))" "distinct (map fr_future (live lp))"
  shows "distinct (map fr_future (live lp'))" "set (live lp') \<subseteq> set (live lp)" "rq \<in> set (live lp)"
    "\<And>x. x \<in> set (live lp') \<Longrightarrow> fr_future x \<noteq> fr_future rq"
proof -
  have "mset (map fr_future (live lp)) = mset (map fr_future (rq # live lp'))" using assms(1) by simp
  then have d: "distinct (map fr_future (rq # live lp'))" using assms(2) mset_eq_imp_distinct_iff by blast
  then show "distinct (map fr_future (live lp'))" by simp
  have "set (live lp) = insert rq (set (live lp'))" using assms(1) by (metis set_mset_add_mset_insert set_mset_mset)
  then show "set (live lp') \<subseteq> set (live lp)" "rq \<in> set (live lp)" by auto
  show "fr_future x \<noteq> fr_future rq" if "x \<in> set (live lp')" for x using d that by (metis distinct.simps(2) image_eqI list.set_map list.simps(9))
qed

lemma start_request_frame [rt_frame]:
  fixes rq tok now gov_now rt
  defines "rt' \<equiv> snd (start_request rq tok now gov_now rt)"
  shows "rt_queue rt' = rt_queue rt" "rt_inflight rt' = rt_inflight rt" "rt_active rt' = rt_active rt + 1"
    "rt_started rt' = rt_started rt" "rt_max_concurrency rt' = rt_max_concurrency rt" "rt_queue_capacity rt' = rt_queue_capacity rt"
    "rt_queue_wait rt' = rt_queue_wait rt" "sa_active_peak (rt_stats rt') = max (sa_active_peak (rt_stats rt)) (rt_active rt + 1)"
    "rt_governance rt' = (case fr_decision rq of None \<Rightarrow> rt_governance rt | Some d \<Rightarrow> gov_activate (rt_governance rt) gov_now d)"
  by (simp_all add: rt'_def start_request_def Let_def rt_frame)

lemma worker_take_unfold:
  "worker_take rq rest token now gov_now lp =
     lp\<lparr>lp_runtime := snd (start_request rq token now gov_now ((lp_runtime lp)\<lparr>rt_queue := rest\<rparr>)),
        lp_running := lp_running lp @ [(rq, fst (start_request rq token now gov_now ((lp_runtime lp)\<lparr>rt_queue := rest\<rparr>)))]\<rparr>"
  by (simp add: worker_take_def split_beta)

definition finished :: "(string \<Rightarrow> string) \<Rightarrow> (nat \<Rightarrow> real) \<Rightarrow> exec_request \<Rightarrow> run_phase \<Rightarrow> finish_times \<Rightarrow> flow_loop \<Rightarrow> (flow_result \<times> run_record) \<times> flow_runtime" where
  "finished B clock rq ph t lp =
     finish_request rq (fst (end_run B clock rq ph (rt_hub (lp_runtime lp)))) t
       ((lp_runtime lp)\<lparr>rt_hub := snd (end_run B clock rq ph (rt_hub (lp_runtime lp)))\<rparr>)"

lemma worker_finish_unfold:
  "worker_finish B clock rq ph rest t lp =
     lp\<lparr>lp_runtime := snd (finished B clock rq ph t lp), lp_running := rest,
        lp_futures := (if dict_has (lp_futures lp) (fr_future rq) then lp_futures lp
          else dict_set (fr_future rq) (fst (fst (finished B clock rq ph t lp))) (lp_futures lp)),
        lp_records := lp_records lp @ [snd (fst (finished B clock rq ph t lp))]\<rparr>"
  by (simp add: worker_finish_def finished_def split_beta)

lemma finished_frame [rt_frame]:
  fixes B clock rq ph t lp
  defines "rt' \<equiv> snd (finished B clock rq ph t lp)"
  shows "rt_queue rt' = rt_queue (lp_runtime lp)" "rt_active rt' = rt_active (lp_runtime lp) - 1" "rt_started rt' = rt_started (lp_runtime lp)"
    "rt_max_concurrency rt' = rt_max_concurrency (lp_runtime lp)" "rt_queue_capacity rt' = rt_queue_capacity (lp_runtime lp)"
    "rt_queue_wait rt' = rt_queue_wait (lp_runtime lp)" "sa_active_peak (rt_stats rt') = sa_active_peak (rt_stats (lp_runtime lp))"
    "dict_get (rt_inflight rt') k = (if worker_key rq = Some k then None else dict_get (rt_inflight (lp_runtime lp)) k)"
  by (simp_all add: rt'_def finished_def finish_request_frame)

lemma take_inv:
  assumes "loop_inv lp" "length (lp_running lp) < rt_max_concurrency (lp_runtime lp)" "rt_queue (lp_runtime lp) = rq # rest"
  shows "loop_inv (worker_take rq rest token now gov_now lp)"
proof -
  let ?lp = "worker_take rq rest token now gov_now lp"
  have "mset (live ?lp) = mset (live lp)" using assms(3) by (simp add: worker_take_unfold live_def rt_frame)
  note same = mset_live_same[OF this]
  have "owns ?lp x = owns lp x" for x by (rule owns_same) (simp_all add: worker_take_unfold rt_frame)
  moreover have "loop_bounds ?lp" using assms by (auto simp: loop_inv_split loop_bounds_def worker_take_unfold rt_frame)
  ultimately show ?thesis using assms(1) same by (simp add: loop_inv_split)
qed

lemma finish_inv:
  assumes inv: "loop_inv lp" and run: "lp_running lp = xs @ (rq, ph) # ys"
  shows "loop_inv (worker_finish B clock rq ph (xs @ ys) t lp)"
proof -
  let ?lp = "worker_finish B clock rq ph (xs @ ys) t lp"
  have "mset (live lp) = add_mset rq (mset (live ?lp))" using run by (simp add: worker_finish_unfold live_def rt_frame)
  note rem = mset_live_remove[OF this]
  have dist: "distinct (map fr_future (live lp))" and own: "\<And>x. x \<in> set (live lp) \<Longrightarrow> owns lp x" and b: "loop_bounds lp"
    using inv by (auto simp: loop_inv_split)
  have fut: "fr_future rq < lp_next lp" using own[OF rem(3)[OF dist]] by (simp add: owns_def)
  have "owns ?lp x" if x: "x \<in> set (live ?lp)" for x
  proof -
    have lx: "x \<in> set (live lp)" and ne: "fr_future x \<noteq> fr_future rq" using rem[OF dist] x by auto
    have "worker_key rq \<noteq> Some k" if "idem_key x = Some k" for k
    proof
      assume "worker_key rq = Some k"
      then have "idem_key rq = Some k" using worker_key_iff idem_worker_key that by metis
      then show False using loop_inv_keys[OF inv lx rem(3)[OF dist] that] ne by blast
    qed
    then show ?thesis using own[OF lx] ne by (auto simp: owns_def worker_finish_unfold rt_frame dict_has_set)
  qed
  moreover have "loop_bounds ?lp" using b run fut
    by (auto simp: loop_bounds_def worker_finish_unfold rt_frame dict_has_set split: if_splits)
  ultimately show ?thesis using rem(1)[OF dist] by (simp add: loop_inv_split)
qed

lemma put_inv:
  assumes inv: "loop_inv lp" and put: "lp_putting lp = xs @ rq # ys"
  shows "has_room (lp_runtime lp) \<Longrightarrow> loop_inv (put_done rq (xs @ ys) now lp)" "loop_inv (put_timeout rq (xs @ ys) lp)"
proof -
  have dist: "distinct (map fr_future (live lp))" and own: "\<And>x. x \<in> set (live lp) \<Longrightarrow> owns lp x" and b: "loop_bounds lp"
    using inv by (auto simp: loop_inv_split)
  show "loop_inv (put_timeout rq (xs @ ys) lp)"
  proof -
    let ?lp = "put_timeout rq (xs @ ys) lp"
    have "mset (live lp) = add_mset rq (mset (live ?lp))" using put by (simp add: put_timeout_def live_def rt_frame)
    note rem = mset_live_remove[OF this dist]
    have "owns ?lp x" if x: "x \<in> set (live ?lp)" for x
    proof -
      have "idem_key rq \<noteq> Some k" if "idem_key x = Some k" for k
        using loop_inv_keys[OF inv _ rem(3) that] rem(2,4) x by blast
      then show ?thesis using own rem(2) x by (auto simp: owns_def put_timeout_def rt_frame)
    qed
    moreover have "loop_bounds ?lp" using b by (auto simp: loop_bounds_def put_timeout_def rt_frame)
    ultimately show ?thesis using rem(1) by (simp add: loop_inv_split)
  qed
  assume room: "has_room (lp_runtime lp)"
  let ?lp = "put_done rq (xs @ ys) now lp"
  have m: "mset (map fr_future (live ?lp)) = mset (map fr_future (live lp))" using put by (simp add: put_done_def live_def rt_frame)
  have "set (live ?lp) \<subseteq> insert (rq\<lparr>fr_enqueue_ts := now\<rparr>) (set (live lp))" "rq \<in> set (live lp)"
    using put by (auto simp: put_done_def live_def rt_frame)
  moreover have "owns ?lp x = owns lp x" for x by (rule owns_same) (simp_all add: put_done_def rt_frame)
  moreover have "loop_bounds ?lp" using b room by (auto simp: loop_bounds_def put_done_def rt_frame has_room_def)
  ultimately show "loop_inv ?lp" using own dist mset_eq_imp_distinct_iff[OF m] unfolding loop_inv_split by fastforce
qed

lemma worker_step_inv: "worker_step B lp lp' \<Longrightarrow> loop_inv lp \<Longrightarrow> loop_inv lp'"
proof (induction rule: worker_step.induct)
  case (poll_step lp xs rq token ys ready h)
  then show ?case by (auto simp: loop_inv_def live_def owns_def)
qed (auto intro: take_inv finish_inv)

lemma flow_step_inv: "flow_step rep rx B R lp lp' \<Longrightarrow> loop_inv lp \<Longrightarrow> loop_inv lp'"
proof (induction rule: flow_step.induct)
  case (resume_step lp xs f ys)
  then show ?case by (auto simp: loop_inv_def live_def owns_def)
next
  case (signal_step lp i payload)
  then show ?case by (auto simp: loop_inv_def live_def owns_def)
next
  case (register_step lp f)
  then show ?case by (auto simp: loop_inv_def live_def owns_def register_flow_def)
qed (auto intro: call_inv put_inv worker_step_inv)

lemma loop_inv_start: "loop_inv (start_loop (make_runtime flows po gov gu mc cap w ttl cs))"
  by (simp add: loop_inv_def start_loop_def make_runtime_def live_def dict_has_def)

lemma loop_inv_reachable:
  "(flow_step rep rx B R)\<^sup>*\<^sup>* (start_loop (make_runtime flows po gov gu mc cap w ttl cs)) lp \<Longrightarrow> loop_inv lp"
  by (induction rule: rtranclp_induct) (auto intro: loop_inv_start flow_step_inv)

end
