(* ===== verification/Flow_Guarantees.thy ===== *)
theory Flow_Guarantees
  imports Flow_Runtime
begin

text \<open>
  What the flow runtime guarantees in every state its event loop can reach: bounds and single flight,
  the limits of the governance manager, whose life cycle of requests the runtime refines, and answers
  for callers that wait.
\<close>

section \<open>The runtime follows the life cycle of requests\<close>

text \<open>Steps of the governance manager, up to the order of the requests.\<close>

definition gov_reach :: "governance_config \<Rightarrow> governance_manager \<Rightarrow> (phase \<times> governance_decision) multiset \<Rightarrow> bool" where
  "gov_reach c gm M \<longleftrightarrow> (\<exists>lv. gov_step\<^sup>*\<^sup>* (mk_manager c, []) (gm, lv) \<and> mset lv = M)"

lemma gov_reach_start: "gov_reach c (mk_manager c) {#}"
  unfolding gov_reach_def by (rule exI[of _ "[]"]) simp

lemma gov_reach_step:
  assumes "gov_reach c gm M" and "\<And>lv. mset lv = M \<Longrightarrow> \<exists>lv'. gov_step (gm, lv) (gm', lv') \<and> mset lv' = M'"
  shows "gov_reach c gm' M'"
proof -
  obtain lv where lv: "gov_step\<^sup>*\<^sup>* (mk_manager c, []) (gm, lv)" "mset lv = M" using assms(1) by (auto simp: gov_reach_def)
  obtain lv' where "gov_step (gm, lv) (gm', lv')" "mset lv' = M'" using assms(2)[OF lv(2)] by blast
  then show ?thesis using lv(1) unfolding gov_reach_def by (blast intro: rtranclp.rtrancl_into_rtrancl)
qed

lemma gov_reach_admit:
  assumes "gov_reach c gm M" "gov_check gm now rq = (d, gm')"
  shows "gov_reach c gm' (if gd_allowed d then add_mset (Admitted, d) M else M)"
  by (rule gov_reach_step[OF assms(1)]) (use assms(2) in \<open>auto intro: gov_step.intros\<close>)

lemma split_member:
  assumes "mset lv = add_mset x M"
  obtains xs ys where "lv = xs @ x # ys" "mset (xs @ ys) = M"
proof -
  have "x \<in> set lv" using assms by (metis set_mset_mset union_single_eq_member)
  then obtain xs ys where "lv = xs @ x # ys" by (meson split_list)
  then show thesis using assms that by simp
qed

lemma gov_reach_move:
  assumes "gov_reach c gm (add_mset x M)" and "\<And>xs ys. gov_step (gm, xs @ x # ys) (gm', xs @ zs @ ys)"
  shows "gov_reach c gm' (mset zs + M)"
proof (rule gov_reach_step[OF assms(1)])
  fix lv assume "mset lv = add_mset x M"
  then obtain xs ys where "lv = xs @ x # ys" "mset (xs @ ys) = M" by (rule split_member)
  then show "\<exists>lv'. gov_step (gm, lv) (gm', lv') \<and> mset lv' = mset zs + M"
    using assms(2)[of xs ys] by (intro exI[of _ "xs @ zs @ ys"]) auto
qed

lemma gov_reach_activate:
  "gov_reach c gm (add_mset (Admitted, d) M) \<Longrightarrow> gov_reach c (gov_activate gm now d) (add_mset (Running, d) M)"
  using gov_reach_move[of c gm "(Admitted, d)" M "gov_activate gm now d" "[(Running, d)]"] gov_step.activate_request by simp

lemma gov_reach_cancel: "gov_reach c gm (add_mset (Admitted, d) M) \<Longrightarrow> gov_reach c (gov_cancel gm d) M"
  using gov_reach_move[of c gm "(Admitted, d)" M "gov_cancel gm d" "[]"] gov_step.cancel_request by simp

lemma gov_reach_finalize:
  "gov_reach c gm (add_mset (Running, d) M) \<Longrightarrow> gov_reach c (gov_finalize gm now d st ec tk co) M"
  using gov_reach_move[of c gm "(Running, d)" M "gov_finalize gm now d st ec tk co" "[]"] gov_step.finalize_request by simp

text \<open>The requests of the loop as the manager sees them.\<close>

definition decision_of :: "exec_request \<Rightarrow> governance_decision" where
  "decision_of rq = the (fr_decision rq)"

definition gov_view :: "flow_loop \<Rightarrow> (phase \<times> governance_decision) multiset" where
  "gov_view lp = mset (map (\<lambda>rq. (Admitted, decision_of rq)) (lp_putting lp @ rt_queue (lp_runtime lp))) +
     mset (map (\<lambda>(rq, _). (Running, decision_of rq)) (lp_running lp))"

definition ruled :: "exec_request \<Rightarrow> bool" where
  "ruled rq \<longleftrightarrow> fr_decision rq \<noteq> None \<and> fr_descriptor rq \<noteq> None"

definition gov_sim :: "governance_config \<Rightarrow> flow_loop \<Rightarrow> bool" where
  "gov_sim c lp \<longleftrightarrow> (\<forall>rq\<in>set (live lp). ruled rq) \<and> gov_reach c (rt_governance (lp_runtime lp)) (gov_view lp)"

lemma gov_simD: "gov_sim c lp \<Longrightarrow> rq \<in> set (live lp) \<Longrightarrow> fr_decision rq = Some (decision_of rq) \<and> (\<exists>rd. fr_descriptor rq = Some rd)"
  by (auto simp: gov_sim_def ruled_def decision_of_def)

lemma gov_sim_same:
  assumes "gov_sim c lp" "rt_governance (lp_runtime lp') = rt_governance (lp_runtime lp)"
    "lp_putting lp' = lp_putting lp" "rt_queue (lp_runtime lp') = rt_queue (lp_runtime lp)" "map fst (lp_running lp') = map fst (lp_running lp)"
  shows "gov_sim c lp'"
proof -
  have m: "map (\<lambda>(rq, _). (Running, decision_of rq)) xs = map (\<lambda>rq. (Running, decision_of rq)) (map fst xs)"
    for xs :: "(exec_request \<times> run_phase) list" by auto
  have "gov_view lp' = gov_view lp" unfolding gov_view_def m using assms(3-5) by simp
  moreover have "live lp' = live lp" using assms(3-5) by (simp add: live_def)
  ultimately show ?thesis using assms(1,2) by (simp add: gov_sim_def)
qed

lemma enqueue_sim:
  assumes "gov_reach c (rt_governance (lp_runtime lp)) (add_mset (Admitted, decision_of rq) (gov_view lp))"
    and "\<forall>x\<in>set (live lp). ruled x" "ruled rq"
  shows "gov_sim c (enqueue_request rq now lp)"
proof -
  have d: "fr_decision rq = Some (decision_of rq)" "decision_of (rq\<lparr>fr_enqueue_ts := now\<rparr>) = decision_of rq" "ruled (rq\<lparr>fr_enqueue_ts := now\<rparr>)"
    using assms(3) by (auto simp: ruled_def decision_of_def)
  show ?thesis using assms gov_reach_cancel[OF assms(1)] d
    by (auto simp: enqueue_request_cases gov_sim_def gov_view_def live_def rt_frame cancel_decision_def)
qed

lemma call_sim:
  assumes "gov_sim c lp"
  shows "gov_sim c (execute_call rep rx B R name inputs mode ctx uuid t lp)"
proof (cases "prepare_request B R (lp_runtime lp) name inputs mode ctx uuid (lp_next lp) (ct_now t)")
  case (Inl e)
  then show ?thesis using assms by (simp add: execute_call_def)
next
  case (Inr rq)
  obtain a rt where ad: "admit_request rep rx rq (ct_cache t) (ct_audit t) (ct_gov t) (lp_runtime lp) = (a, rt)"
    by (cases "admit_request rep rx rq (ct_cache t) (ct_audit t) (ct_gov t) (lp_runtime lp)")
  let ?lp1 = "lp\<lparr>lp_runtime := rt, lp_next := Suc (lp_next lp)\<rparr>"
  note ac = admit_cases[OF ad]
  have shape: "same_shape (lp_runtime lp) rt" using ac by simp
  then have lv: "live ?lp1 = live lp" "gov_view ?lp1 = gov_view lp" by (simp_all add: live_def gov_view_def same_shape_def)
  have reach: "gov_reach c (rt_governance (lp_runtime lp)) (gov_view lp)" and dec: "\<forall>x\<in>set (live lp). ruled x"
    using assms by (simp_all add: gov_sim_def)
  have keep: "gov_sim c ?lp1" if "gov_reach c (rt_governance rt) (gov_view lp)" using that lv dec by (simp add: gov_sim_def)
  show ?thesis
  proof (cases a)
    case (Proceed rq')
    then obtain d where d: "gov_check (rt_governance (lp_runtime lp)) (ct_gov t) (build_request_descriptor rq) = (d, rt_governance rt)"
      "gd_allowed d" "rq' = rq\<lparr>fr_decision := Some d, fr_descriptor := Some (build_request_descriptor rq)\<rparr>" using ac by auto
    have "ruled rq'" "decision_of rq' = d" using d(3) by (simp_all add: ruled_def decision_of_def)
    then have "gov_sim c (enqueue_request rq' (ct_put t) ?lp1)"
      using gov_reach_admit[OF reach d(1)] d(2) dec lv by (intro enqueue_sim) simp_all
    then show ?thesis using Inr ad Proceed by (simp add: execute_call_def Let_def)
  next
    case (Returned r)
    then consider "rt_governance rt = rt_governance (lp_runtime lp)"
      | d where "gov_check (rt_governance (lp_runtime lp)) (ct_gov t) (build_request_descriptor rq) = (d, rt_governance rt)" "\<not> gd_allowed d"
      using ac by auto
    then have "gov_reach c (rt_governance rt) (gov_view lp)"
    proof cases
      case 2
      then show ?thesis using gov_reach_admit[OF reach 2(1)] by simp
    qed (use reach in simp)
    then show ?thesis using keep Inr ad Returned by (simp add: execute_call_def)
  next
    case (Joined f)
    then have "gov_sim c ?lp1" using ac keep reach by simp
    then show ?thesis using Inr ad Joined by (simp add: execute_call_def gov_sim_def live_def gov_view_def)
  next
    case (RaisedExn e)
    then have "gov_sim c ?lp1" using ac keep reach by simp
    then show ?thesis using Inr ad RaisedExn by (simp add: execute_call_def)
  qed
qed

lemma put_sim:
  assumes "gov_sim c lp" "lp_putting lp = xs @ rq # ys"
  shows "gov_sim c (put_done rq (xs @ ys) now lp)" "gov_sim c (put_timeout rq (xs @ ys) lp)"
proof -
  have rq: "rq \<in> set (live lp)" using assms(2) by (simp add: live_def)
  have d: "fr_decision rq = Some (decision_of rq)" "decision_of (rq\<lparr>fr_enqueue_ts := now\<rparr>) = decision_of rq" "ruled (rq\<lparr>fr_enqueue_ts := now\<rparr>)"
    using gov_simD[OF assms(1) rq] by (auto simp: decision_of_def ruled_def)
  have reach: "gov_reach c (rt_governance (lp_runtime lp)) (gov_view lp)" and dec: "\<forall>x\<in>set (live lp). ruled x"
    using assms(1) by (simp_all add: gov_sim_def)
  have "gov_view (put_done rq (xs @ ys) now lp) = gov_view lp"
    using d(2) assms(2) by (simp add: put_done_def gov_view_def rt_frame)
  then show "gov_sim c (put_done rq (xs @ ys) now lp)" using reach dec d(3) assms(2)
    by (simp add: gov_sim_def) (auto simp: put_done_def live_def rt_frame)
  have "gov_view lp = add_mset (Admitted, decision_of rq) (gov_view (put_timeout rq (xs @ ys) lp))"
    using assms(2) by (simp add: put_timeout_def gov_view_def rt_frame)
  then have "gov_reach c (gov_cancel (rt_governance (lp_runtime lp)) (decision_of rq)) (gov_view (put_timeout rq (xs @ ys) lp))"
    using reach gov_reach_cancel by metis
  then show "gov_sim c (put_timeout rq (xs @ ys) lp)" using dec assms(2) d(1)
    by (simp add: gov_sim_def) (auto simp: put_timeout_def live_def rt_frame cancel_decision_def)
qed

lemma take_sim:
  assumes "gov_sim c lp" "rt_queue (lp_runtime lp) = rq # rest"
  shows "gov_sim c (worker_take rq rest token now gov_now lp)"
proof -
  have rq: "rq \<in> set (live lp)" using assms(2) by (simp add: live_def)
  note d = gov_simD[OF assms(1) rq]
  have view: "gov_view lp = add_mset (Admitted, decision_of rq)
      (mset (map (\<lambda>rq. (Admitted, decision_of rq)) (lp_putting lp @ rest)) + mset (map (\<lambda>(rq, _). (Running, decision_of rq)) (lp_running lp)))"
    using assms(2) by (simp add: gov_view_def)
  have "gov_view (worker_take rq rest token now gov_now lp) = add_mset (Running, decision_of rq)
      (mset (map (\<lambda>rq. (Admitted, decision_of rq)) (lp_putting lp @ rest)) + mset (map (\<lambda>(rq, _). (Running, decision_of rq)) (lp_running lp)))"
    by (simp add: worker_take_unfold gov_view_def rt_frame)
  then have reach: "gov_reach c (gov_activate (rt_governance (lp_runtime lp)) gov_now (decision_of rq))
      (gov_view (worker_take rq rest token now gov_now lp))"
    using assms(1) gov_reach_activate unfolding gov_sim_def view by simp
  moreover have "rt_governance (lp_runtime (worker_take rq rest token now gov_now lp)) =
      gov_activate (rt_governance (lp_runtime lp)) gov_now (decision_of rq)"
    using d by (simp add: worker_take_unfold rt_frame)
  moreover have "set (live (worker_take rq rest token now gov_now lp)) = set (live lp)"
    using assms(2) by (auto simp: worker_take_unfold live_def rt_frame)
  ultimately show ?thesis using assms(1) by (simp add: gov_sim_def)
qed

lemma finish_sim:
  assumes "gov_sim c lp" "lp_running lp = xs @ (rq, ph) # ys"
  shows "gov_sim c (worker_finish B clock rq ph (xs @ ys) t lp)"
proof -
  have rq: "rq \<in> set (live lp)" using assms(2) by (simp add: live_def)
  obtain rd where d: "fr_decision rq = Some (decision_of rq)" "fr_descriptor rq = Some rd" using gov_simD[OF assms(1) rq] by blast
  have view: "gov_view lp = add_mset (Running, decision_of rq) (gov_view (worker_finish B clock rq ph (xs @ ys) t lp))"
    using assms(2) by (simp add: worker_finish_unfold gov_view_def rt_frame)
  then have reach: "gov_reach c (rt_governance (lp_runtime lp)) (add_mset (Running, decision_of rq) (gov_view (worker_finish B clock rq ph (xs @ ys) t lp)))"
    using assms(1) by (simp add: gov_sim_def)
  obtain st ec tk co where "rt_governance (snd (finished B clock rq ph t lp)) =
      gov_finalize (rt_governance (lp_runtime lp)) (ft_gov t) (decision_of rq) st ec tk co"
    using d by (simp add: finished_def finish_request_frame finalize_decision_def)
  then have "gov_reach c (rt_governance (lp_runtime (worker_finish B clock rq ph (xs @ ys) t lp))) (gov_view (worker_finish B clock rq ph (xs @ ys) t lp))"
    using gov_reach_finalize[OF reach] by (simp add: worker_finish_unfold)
  moreover have "set (live (worker_finish B clock rq ph (xs @ ys) t lp)) \<subseteq> set (live lp)"
    using assms(2) by (auto simp: worker_finish_unfold live_def rt_frame)
  ultimately show ?thesis using assms(1) by (auto simp: gov_sim_def)
qed

lemma worker_step_sim: "worker_step B lp lp' \<Longrightarrow> gov_sim c lp \<Longrightarrow> gov_sim c lp'"
proof (induction rule: worker_step.induct)
  case (poll_step lp xs rq token ys ready h)
  show ?case by (rule gov_sim_same[OF poll_step.prems]) (simp_all add: poll_step.hyps)
qed (auto intro: take_sim finish_sim)

lemma flow_step_sim: "flow_step rep rx B R lp lp' \<Longrightarrow> gov_sim c lp \<Longrightarrow> gov_sim c lp'"
proof (induction rule: flow_step.induct)
  case (resume_step lp xs f ys)
  show ?case by (rule gov_sim_same[OF resume_step.prems]) simp_all
next
  case (signal_step lp i payload)
  show ?case by (rule gov_sim_same[OF signal_step.prems]) simp_all
next
  case (register_step lp f)
  show ?case by (rule gov_sim_same[OF register_step.prems]) (simp_all add: register_flow_def)
qed (auto intro: call_sim put_sim worker_step_sim)

lemma gov_sim_reachable:
  assumes "(flow_step rep rx B R)\<^sup>*\<^sup>* (start_loop (make_runtime flows po (mk_manager c) gu mc cap w ttl cs)) lp"
  shows "gov_sim c lp"
  using assms
proof (induction rule: rtranclp_induct)
  case base
  show ?case using gov_reach_start by (simp add: gov_sim_def start_loop_def make_runtime_def live_def gov_view_def)
qed (auto intro: flow_step_sim)

section \<open>Settings stay as they are\<close>

definition settings :: "flow_runtime \<Rightarrow> nat \<times> nat \<times> real \<times> full_config \<times> guard_engine" where
  "settings rt = (rt_max_concurrency rt, rt_queue_capacity rt, rt_queue_wait rt, gst_config (rt_guard rt), gst_engine (rt_guard rt))"

lemma evaluate_guard_keeps:
  "evaluate_guard rep rx g payload rd ts = Inr (d, g') \<Longrightarrow> gst_config g' = gst_config g \<and> gst_engine g' = gst_engine g"
  by (auto simp: evaluate_guard_def Let_def audit_block_def allow_all_def result_simps split: if_splits)

lemma govern_settings: "settings (snd (govern rep rx rq ts now rt)) = settings rt"
  by (auto simp: govern_def Let_def settings_def rt_frame split: sum.splits prod.splits if_splits dest: evaluate_guard_keeps)

lemma register_key_settings: "settings (snd (register_key rq now rt)) = settings rt"
proof (cases "idem_key rq")
  case (Some k)
  obtain c rt1 where c: "flow_cached_result k now rt = (c, rt1)" by (cases "flow_cached_result k now rt")
  have "settings rt1 = settings rt" using flow_cached_frame[of k now rt] c by (simp add: settings_def)
  then show ?thesis using Some c by (auto simp: register_key_def settings_def split: option.splits)
qed (simp add: register_key_def)

lemma admit_settings: "settings (snd (admit_request rep rx rq c ts now rt)) = settings rt"
  using govern_settings register_key_settings[of rq c rt] unfolding admit_request_def
  by (auto split: prod.splits option.splits sum.splits)

lemma enqueue_settings: "settings (lp_runtime (enqueue_request rq now lp)) = settings (lp_runtime lp)"
  by (simp add: enqueue_request_cases settings_def rt_frame put_request_def reject_request_def)

lemma call_settings: "settings (lp_runtime (execute_call rep rx B R name inputs mode ctx uuid t lp)) = settings (lp_runtime lp)"
proof (cases "prepare_request B R (lp_runtime lp) name inputs mode ctx uuid (lp_next lp) (ct_now t)")
  case (Inr rq)
  obtain a rt where ad: "admit_request rep rx rq (ct_cache t) (ct_audit t) (ct_gov t) (lp_runtime lp) = (a, rt)"
    by (cases "admit_request rep rx rq (ct_cache t) (ct_audit t) (ct_gov t) (lp_runtime lp)")
  then have "settings rt = settings (lp_runtime lp)" using admit_settings by (metis snd_conv)
  then show ?thesis using Inr ad by (cases a) (simp_all add: execute_call_def enqueue_settings)
qed (simp add: execute_call_def)

lemma audit_run_keeps: "gst_config (audit_run rq r ts g) = gst_config g" "gst_engine (audit_run rq r ts g) = gst_engine g"
  by (simp_all add: audit_run_def split: sum.splits flow_exn.splits)

lemma finish_request_guard: "rt_guard (snd (finish_request rq r t rt)) = audit_run rq r (ft_audit t) (rt_guard rt)"
  by (simp add: finish_request_def Let_def rt_frame split: option.splits)

lemma start_request_guard: "rt_guard (snd (start_request rq tok now gov_now rt)) = rt_guard rt"
  by (simp add: start_request_def Let_def rt_frame)

lemma worker_step_settings: "worker_step B lp lp' \<Longrightarrow> settings (lp_runtime lp') = settings (lp_runtime lp)"
  by (induction rule: worker_step.induct)
    (simp_all add: settings_def worker_take_unfold worker_finish_unfold start_request_guard rt_frame,
     simp add: finished_def finish_request_guard audit_run_keeps)

lemma flow_step_settings: "flow_step rep rx B R lp lp' \<Longrightarrow> settings (lp_runtime lp') = settings (lp_runtime lp)"
  by (induction rule: flow_step.induct)
    (simp_all add: call_settings worker_step_settings,
     simp_all add: settings_def put_done_def put_timeout_def put_request_def reject_request_def register_flow_def rt_frame)

lemma settings_reachable:
  assumes "(flow_step rep rx B R)\<^sup>*\<^sup>* lp0 lp"
  shows "settings (lp_runtime lp) = settings (lp_runtime lp0)"
  using assms by (induction rule: rtranclp_induct) (auto dest: flow_step_settings)

lemma start_settings:
  "settings (lp_runtime (start_loop (make_runtime flows po gov gu mc cap w ttl cs))) =
     (nat (max 1 mc), nat (max 0 cap), max 0 (w / 1000), gst_config gu, gst_engine gu)"
  by (simp add: settings_def start_loop_def make_runtime_def)

section \<open>Bounds and limits\<close>

text \<open>
  C12. Bounded concurrency and single flight.  In every state of the event loop that calls of \<^verbatim>\<open>execute\<close>,
  waits that end or time out, workers, signals and registrations can reach from a new runtime, in any
  order: at most \<open>max 1 max_concurrency\<close> requests run and the counter of active runs and its peak agree
  with that; a queue with a capacity never holds more requests; and no two requests that wait or run
  have the same idempotency key, so a key is executed by one request at a time.
\<close>

theorem runtime_bounds:
  assumes "(flow_step rep rx B R)\<^sup>*\<^sup>* (start_loop (make_runtime flows po gov gu mc cap w ttl cs)) lp"
  shows "int (length (lp_running lp)) \<le> max 1 mc \<and> rt_active (lp_runtime lp) = int (length (lp_running lp)) \<and>
    sa_active_peak (rt_stats (lp_runtime lp)) \<le> max 1 mc \<and>
    (0 < cap \<longrightarrow> int (length (rt_queue (lp_runtime lp))) \<le> cap) \<and> distinct (map fr_future (live lp)) \<and>
    (\<forall>rq rq' k. rq \<in> set (live lp) \<and> rq' \<in> set (live lp) \<and> idem_key rq = Some k \<and> idem_key rq' = Some k \<longrightarrow> rq = rq')"
proof -
  have inv: "loop_inv lp" using assms by (rule loop_inv_reachable)
  have "int (rt_max_concurrency (lp_runtime lp)) = max 1 mc" "rt_queue_capacity (lp_runtime lp) = nat (max 0 cap)"
    using settings_reachable[OF assms] unfolding start_settings by (simp_all add: settings_def)
  moreover have "loop_bounds lp" "distinct (map fr_future (live lp))" using inv by (simp_all add: loop_inv_split)
  ultimately show ?thesis using loop_inv_keys[OF inv] unfolding loop_bounds_def by auto
qed

definition limit_holders :: "flow_loop \<Rightarrow> limit_key \<Rightarrow> exec_request list" where
  "limit_holders lp k = filter (\<lambda>rq. k \<in> set (gd_limit_reservations (decision_of rq))) (live lp)"

lemma holders_count:
  "holders ph lv k = int (size (filter_mset (\<lambda>(p, d). p = ph \<and> k \<in> set (gd_limit_reservations d)) (mset lv)))"
  by (simp add: holders_def flip: mset_filter)

lemma limit_holders_count:
  assumes "mset lv = gov_view lp"
  shows "int (length (limit_holders lp k)) = holders Admitted lv k + holders Running lv k"
  unfolding holders_count assms
  by (simp add: gov_view_def limit_holders_def live_def filter_map o_def split_def flip: mset_filter mset_map mset_append)

text \<open>
  C10. The runtime keeps the limits of the governance configuration: in every reachable state of the
  event loop, whatever the callers, waits, time-outs and workers did and in whichever order, at most
  \<open>max 0 n\<close> requests that wait for the queue, are queued or run hold a reservation of a scope whose
  settings are enabled with concurrency \<open>n\<close>.
\<close>

theorem runtime_respects_limits:
  assumes "(flow_step rep rx B R)\<^sup>*\<^sup>* (start_loop (make_runtime flows po (mk_manager c) gu mc cap w ttl cs)) lp"
    and "(k, s) \<in> set (limit_scopes c rd)" and "lm_enabled s" and "lm_concurrency s = Some n"
  shows "int (length (limit_holders lp k)) \<le> max 0 n"
proof -
  obtain lv where "gov_step\<^sup>*\<^sup>* (mk_manager c, []) (rt_governance (lp_runtime lp), lv)" "mset lv = gov_view lp"
    using gov_sim_reachable[OF assms(1)] by (auto simp: gov_sim_def gov_reach_def)
  then show ?thesis using concurrency_bound[OF _ assms(2-4)] limit_holders_count by metis
qed

section \<open>Callers are answered\<close>

text \<open>
  When no caller waits for room in the queue, every future that someone awaits or that an entry of the
  in-flight table promises belongs to a live request or is resolved.
\<close>

definition answerable :: "flow_loop \<Rightarrow> bool" where
  "answerable lp \<longleftrightarrow> lp_putting lp = [] \<and> (rt_queue (lp_runtime lp) \<noteq> [] \<longrightarrow> rt_started (lp_runtime lp)) \<and>
     (\<forall>f\<in>set (lp_waiting lp). dict_has (lp_futures lp) f \<or> f \<in> fr_future ` set (live lp)) \<and>
     (\<forall>k f. dict_get (rt_inflight (lp_runtime lp)) k = Some f \<longrightarrow> (\<exists>rq\<in>set (live lp). fr_future rq = f \<and> idem_key rq = Some k))"

definition guard_returns :: "(val \<Rightarrow> string) \<Rightarrow> regex_engine \<Rightarrow> guard_state \<Rightarrow> bool" where
  "guard_returns rep rx g \<longleftrightarrow> (\<forall>payload rd ts. \<exists>r. evaluate_guard rep rx g payload rd ts = Inr r)"

lemma guard_returns_settings:
  assumes "guard_returns rep rx g" "gst_config g' = gst_config g" "gst_engine g' = gst_engine g"
  shows "guard_returns rep rx g'"
  unfolding guard_returns_def
proof (intro allI)
  fix payload rd ts
  obtain r where "evaluate_guard rep rx g payload rd ts = Inr r" using assms(1) unfolding guard_returns_def by blast
  then show "\<exists>r. evaluate_guard rep rx g' payload rd ts = Inr r"
    using assms(2,3) by (auto simp: evaluate_guard_def Let_def result_simps split: if_splits sum.splits)
qed

lemma enqueue_answerable:
  assumes "\<not> (rt_queue_capacity (lp_runtime lp) \<noteq> 0 \<and> rt_queue_wait (lp_runtime lp) > 0)" "lp_putting lp = []"
    and wait: "\<And>f. f \<in> set (lp_waiting lp) \<Longrightarrow> dict_has (lp_futures lp) f \<or> f \<in> fr_future ` set (live lp)"
    and keys: "\<And>k f. dict_get (rt_inflight (lp_runtime lp)) k = Some f \<Longrightarrow>
      idem_key rq = Some k \<and> f = fr_future rq \<or> (\<exists>x\<in>set (live lp). fr_future x = f \<and> idem_key x = Some k)"
    and start: "rt_queue (lp_runtime lp) \<noteq> [] \<longrightarrow> rt_started (lp_runtime lp)"
  shows "answerable (enqueue_request rq now lp)"
proof (cases "has_room (lp_runtime lp)")
  case True
  then have e: "enqueue_request rq now lp = lp\<lparr>lp_runtime := put_request rq now ((lp_runtime lp)\<lparr>rt_started := True\<rparr>), lp_waiting := fr_future rq # lp_waiting lp\<rparr>"
    using assms(1) unfolding enqueue_request_cases by (simp only: if_False if_True)
  have lv: "set (live (enqueue_request rq now lp)) = insert (rq\<lparr>fr_enqueue_ts := now\<rparr>) (set (live lp))" by (auto simp: e live_def rt_frame)
  have "\<exists>x\<in>set (live (enqueue_request rq now lp)). fr_future x = f \<and> idem_key x = Some k" if "dict_get (rt_inflight (lp_runtime lp)) k = Some f" for k f
    using keys[OF that] unfolding lv by (elim disjE) auto
  moreover have "dict_has (lp_futures lp) f \<or> f \<in> fr_future ` set (live (enqueue_request rq now lp))" if "f \<in> set (fr_future rq # lp_waiting lp)" for f
    using wait that unfolding lv by auto
  ultimately show ?thesis using assms(2) by (simp add: answerable_def e rt_frame)
next
  case False
  then have e: "enqueue_request rq now lp = lp\<lparr>lp_runtime := snd (reject_request ''QUEUE_FULL'' rq ((lp_runtime lp)\<lparr>rt_started := True\<rparr>))\<rparr>"
    using assms(1) unfolding enqueue_request_cases by (simp only: if_False if_True)
  have lv: "live (enqueue_request rq now lp) = live lp" by (simp add: e live_def rt_frame)
  have "\<exists>x\<in>set (live lp). fr_future x = f \<and> idem_key x = Some k"
    if "dict_get (rt_inflight (lp_runtime (enqueue_request rq now lp))) k = Some f" for k f
    using keys[of k f] that by (auto simp: e rt_frame split: if_splits)
  then show ?thesis using assms(2) wait unfolding answerable_def lv by (simp add: e rt_frame)
qed

lemma call_answerable:
  assumes ans: "answerable lp" and "guard_returns rep rx (rt_guard (lp_runtime lp))"
    and nowait: "\<not> (rt_queue_capacity (lp_runtime lp) \<noteq> 0 \<and> rt_queue_wait (lp_runtime lp) > 0)"
  shows "answerable (execute_call rep rx B R name inputs mode ctx uuid t lp)"
proof (cases "prepare_request B R (lp_runtime lp) name inputs mode ctx uuid (lp_next lp) (ct_now t)")
  case (Inl e)
  then show ?thesis using ans by (simp add: execute_call_def)
next
  case (Inr rq)
  obtain a rt where ad: "admit_request rep rx rq (ct_cache t) (ct_audit t) (ct_gov t) (lp_runtime lp) = (a, rt)"
    by (cases "admit_request rep rx rq (ct_cache t) (ct_audit t) (ct_gov t) (lp_runtime lp)")
  let ?lp1 = "lp\<lparr>lp_runtime := rt, lp_next := Suc (lp_next lp)\<rparr>"
  note ac = admit_cases[OF ad]
  have shape: "same_shape (lp_runtime lp) rt" using ac by simp
  then have lv: "live ?lp1 = live lp" by (simp add: live_def same_shape_def)
  have st: "rt_queue rt \<noteq> [] \<longrightarrow> rt_started rt" "lp_putting lp = []" using shape ans by (simp_all add: same_shape_def answerable_def)
  have wait: "dict_has (lp_futures lp) f \<or> f \<in> fr_future ` set (live lp)" if "f \<in> set (lp_waiting lp)" for f
    using ans that by (simp add: answerable_def)
  have old: "\<exists>x\<in>set (live lp). fr_future x = f \<and> idem_key x = Some k" if "dict_get (rt_inflight (lp_runtime lp)) k = Some f" for k f
    using ans that by (simp add: answerable_def)
  show ?thesis
  proof (cases a)
    case (Proceed rq')
    then obtain d where rq': "rq' = rq\<lparr>fr_decision := Some d, fr_descriptor := Some (build_request_descriptor rq)\<rparr>"
      and keys: "\<And>k. dict_get (rt_inflight rt) k = (if idem_key rq = Some k then Some (fr_future rq) else dict_get (rt_inflight (lp_runtime lp)) k)"
      using ac by auto
    have "answerable (enqueue_request rq' (ct_put t) ?lp1)"
    proof (rule enqueue_answerable)
      show "\<not> (rt_queue_capacity (lp_runtime ?lp1) \<noteq> 0 \<and> rt_queue_wait (lp_runtime ?lp1) > 0)" using nowait shape by (simp add: same_shape_def)
      show "idem_key rq' = Some k \<and> f = fr_future rq' \<or> (\<exists>x\<in>set (live ?lp1). fr_future x = f \<and> idem_key x = Some k)"
        if "dict_get (rt_inflight (lp_runtime ?lp1)) k = Some f" for k f
        using old[of k f] that unfolding lv by (simp add: keys rq' split: if_splits)
    qed (use st wait lv in simp_all)
    then show ?thesis using Inr ad Proceed by (simp add: execute_call_def Let_def)
  next
    case (Returned r)
    then have keys: "\<And>k. dict_get (rt_inflight rt) k = dict_get (rt_inflight (lp_runtime lp)) k" using ac by simp
    have "answerable ?lp1" unfolding answerable_def lv using st wait old by (simp add: keys)
    then show ?thesis using Inr ad Returned by (simp add: execute_call_def)
  next
    case (Joined f)
    then obtain k where k: "rt_inflight rt = rt_inflight (lp_runtime lp)" "dict_get (rt_inflight (lp_runtime lp)) k = Some f" using ac by auto
    have "live (?lp1\<lparr>lp_waiting := f # lp_waiting lp\<rparr>) = live lp" using lv by (simp add: live_def)
    moreover have "f \<in> fr_future ` set (live lp)" using old[OF k(2)] by auto
    ultimately have "answerable (?lp1\<lparr>lp_waiting := f # lp_waiting lp\<rparr>)" unfolding answerable_def using st wait old k(1) by simp
    then show ?thesis using Inr ad Joined by (simp add: execute_call_def)
  next
    case (RaisedExn e)
    then have "evaluate_guard rep rx (rt_guard (lp_runtime lp)) (fr_inputs rq) (build_request_descriptor rq) (ct_audit t) = Inl e" using ac by simp
    moreover obtain r where "evaluate_guard rep rx (rt_guard (lp_runtime lp)) (fr_inputs rq) (build_request_descriptor rq) (ct_audit t) = Inr r"
      using assms(2) unfolding guard_returns_def by blast
    ultimately show ?thesis by simp
  qed
qed

lemma finish_answerable:
  assumes ans: "answerable lp" and inv: "loop_inv lp" and run: "lp_running lp = xs @ (rq, ph) # ys"
  shows "answerable (worker_finish B clock rq ph (xs @ ys) t lp)"
proof -
  let ?lp = "worker_finish B clock rq ph (xs @ ys) t lp"
  have lv: "set (live lp) = insert rq (set (live ?lp))" using run by (auto simp: worker_finish_unfold live_def rt_frame)
  have res: "dict_has (lp_futures ?lp) f = (f = fr_future rq \<or> dict_has (lp_futures lp) f)" for f
    by (auto simp: worker_finish_unfold dict_has_set)
  have "dict_has (lp_futures ?lp) f \<or> f \<in> fr_future ` set (live ?lp)" if "f \<in> set (lp_waiting ?lp)" for f
  proof -
    have "dict_has (lp_futures lp) f \<or> f \<in> fr_future ` set (live lp)" using ans that by (simp add: answerable_def worker_finish_unfold)
    then show ?thesis unfolding res lv by auto
  qed
  moreover have "\<exists>x\<in>set (live ?lp). fr_future x = f \<and> idem_key x = Some k"
    if k: "dict_get (rt_inflight (lp_runtime ?lp)) k = Some f" for k f
  proof -
    have "worker_key rq \<noteq> Some k" and old: "dict_get (rt_inflight (lp_runtime lp)) k = Some f"
      using k by (auto simp: worker_finish_unfold rt_frame split: if_splits)
    then have "idem_key rq \<noteq> Some k" using idem_worker_key by blast
    moreover obtain x where "x \<in> set (live lp)" "fr_future x = f" "idem_key x = Some k" using ans old unfolding answerable_def by blast
    ultimately show ?thesis unfolding lv by auto
  qed
  ultimately show ?thesis using ans unfolding answerable_def by (simp add: worker_finish_unfold rt_frame)
qed

lemma take_answerable:
  assumes ans: "answerable lp" and q: "rt_queue (lp_runtime lp) = rq # rest"
  shows "answerable (worker_take rq rest token now gov_now lp)"
proof -
  have "set (live (worker_take rq rest token now gov_now lp)) = set (live lp)" using q by (auto simp: worker_take_unfold live_def rt_frame)
  then show ?thesis using ans q unfolding answerable_def by (simp add: worker_take_unfold rt_frame)
qed

lemma answerable_same:
  assumes "answerable lp" "lp_putting lp' = lp_putting lp" "rt_queue (lp_runtime lp') = rt_queue (lp_runtime lp)"
    "map fst (lp_running lp') = map fst (lp_running lp)" "rt_started (lp_runtime lp') = rt_started (lp_runtime lp)"
    "lp_futures lp' = lp_futures lp" "set (lp_waiting lp') \<subseteq> set (lp_waiting lp)" "rt_inflight (lp_runtime lp') = rt_inflight (lp_runtime lp)"
  shows "answerable lp'"
proof -
  have "live lp' = live lp" using assms(2-4) by (simp add: live_def)
  then show ?thesis using assms unfolding answerable_def by auto
qed

lemma worker_step_answerable: "worker_step B lp lp' \<Longrightarrow> answerable lp \<Longrightarrow> loop_inv lp \<Longrightarrow> answerable lp'"
proof (induction rule: worker_step.induct)
  case (poll_step lp xs rq token ys ready h)
  show ?case by (rule answerable_same[OF poll_step.prems(1)]) (simp_all add: poll_step.hyps)
qed (auto intro: take_answerable finish_answerable)

lemma flow_step_answerable:
  assumes "flow_step rep rx B R lp lp'" "answerable lp" "loop_inv lp" "guard_returns rep rx (rt_guard (lp_runtime lp))"
    and "\<not> (rt_queue_capacity (lp_runtime lp) \<noteq> 0 \<and> rt_queue_wait (lp_runtime lp) > 0)"
  shows "answerable lp'"
  using assms
proof (induction rule: flow_step.induct)
  case (put_step lp xs rq ys now)
  then show ?case by (simp add: answerable_def)
next
  case (timeout_step lp xs rq ys)
  then show ?case by (simp add: answerable_def)
next
  case (resume_step lp xs f ys)
  show ?case by (rule answerable_same[OF resume_step.prems(1)]) (simp_all add: resume_step.hyps, blast)
next
  case (signal_step lp i payload)
  show ?case by (rule answerable_same[OF signal_step.prems(1)]) simp_all
next
  case (register_step lp f)
  show ?case by (rule answerable_same[OF register_step.prems(1)]) (simp_all add: register_flow_def)
qed (auto intro: call_answerable worker_step_answerable)

lemma answerable_reachable:
  assumes "(flow_step rep rx B R)\<^sup>*\<^sup>* (start_loop (make_runtime flows po gov gu mc cap w ttl cs)) lp"
    and "w \<le> 0 \<or> cap \<le> 0" "guard_returns rep rx gu"
  shows "answerable lp"
  using assms(1)
proof (induction rule: rtranclp_induct)
  case base
  show ?case by (simp add: answerable_def start_loop_def make_runtime_def)
next
  case (step lp lp')
  have "settings (lp_runtime lp) = (nat (max 1 mc), nat (max 0 cap), max 0 (w / 1000), gst_config gu, gst_engine gu)"
    using settings_reachable[OF step.hyps(1)] by (simp only: start_settings)
  then have "guard_returns rep rx (rt_guard (lp_runtime lp))" "\<not> (rt_queue_capacity (lp_runtime lp) \<noteq> 0 \<and> rt_queue_wait (lp_runtime lp) > 0)"
    using guard_returns_settings[OF assms(3)] assms(2) by (auto simp: settings_def)
  then show ?case using flow_step_answerable step loop_inv_reachable[OF step.hyps(1)] by blast
qed

text \<open>What the workers still have to do.\<close>

definition work_left :: "flow_loop \<Rightarrow> nat" where
  "work_left lp = 2 * length (rt_queue (lp_runtime lp)) + length (lp_running lp)"

definition unanswered :: "flow_loop \<Rightarrow> bool" where
  "unanswered lp \<longleftrightarrow> (\<exists>f\<in>set (lp_waiting lp). \<not> dict_has (lp_futures lp) f)"

lemma worker_step_work: "worker_step B lp lp' \<Longrightarrow> work_left lp' \<le> work_left lp"
  by (induction rule: worker_step.induct) (simp_all add: work_left_def worker_take_unfold worker_finish_unfold rt_frame)

lemma worker_step_waiting:
  "worker_step B lp lp' \<Longrightarrow> lp_waiting lp' = lp_waiting lp \<and> (\<forall>f. dict_has (lp_futures lp) f \<longrightarrow> dict_has (lp_futures lp') f)"
  by (induction rule: worker_step.induct) (simp_all add: worker_take_unfold worker_finish_unfold dict_has_set)

lemma work_progress:
  assumes "answerable lp" "unanswered lp" "0 < rt_max_concurrency (lp_runtime lp)"
  shows "\<exists>lp'. worker_step B lp lp' \<and> work_left lp' < work_left lp"
proof (cases "lp_running lp")
  case Nil
  have "live lp \<noteq> []" using assms(1,2) by (auto simp: answerable_def unanswered_def)
  then obtain rq rest where q: "rt_queue (lp_runtime lp) = rq # rest" using Nil assms(1)
    by (cases "rt_queue (lp_runtime lp)") (auto simp: live_def answerable_def)
  then have "worker_step B lp (worker_take rq rest [] 0 0 lp)" using Nil assms(1,3) by (intro worker_step.take_step) (auto simp: answerable_def)
  moreover have "work_left (worker_take rq rest [] 0 0 lp) < work_left lp" using q by (simp add: work_left_def worker_take_unfold rt_frame)
  ultimately show ?thesis by blast
next
  case (Cons r ys)
  obtain rq ph where "r = (rq, ph)" by (cases r)
  then have "worker_step B lp (worker_finish B clock rq ph ([] @ ys) t lp)" for clock t using Cons by (intro worker_step.finish_step) simp
  moreover have "work_left (worker_finish B clock rq ph ([] @ ys) t lp) < work_left lp" for clock t
    using Cons by (simp add: work_left_def worker_finish_unfold rt_frame)
  ultimately show ?thesis by blast
qed

lemma workers_answer:
  assumes "answerable lp" "loop_inv lp" "0 < rt_max_concurrency (lp_runtime lp)"
  shows "\<exists>lp'. (worker_step B)\<^sup>*\<^sup>* lp lp' \<and> lp_waiting lp' = lp_waiting lp \<and> \<not> unanswered lp'"
  using assms
proof (induction "work_left lp" arbitrary: lp rule: less_induct)
  case less
  show ?case
  proof (cases "unanswered lp")
    case True
    obtain lp1 where s: "worker_step B lp lp1" "work_left lp1 < work_left lp" using work_progress[OF less.prems(1) True less.prems(3)] by blast
    have "0 < rt_max_concurrency (lp_runtime lp1)" using worker_step_settings[OF s(1)] less.prems(3) by (simp add: settings_def)
    from less.hyps[OF s(2) worker_step_answerable[OF s(1) less.prems(1,2)] worker_step_inv[OF s(1) less.prems(2)] this]
    obtain lp' where "(worker_step B)\<^sup>*\<^sup>* lp1 lp'" "lp_waiting lp' = lp_waiting lp1" "\<not> unanswered lp'" by blast
    then show ?thesis using s(1) worker_step_waiting[OF s(1)] by (metis converse_rtranclp_into_rtranclp)
  qed (use less in blast)
qed

text \<open>
  C11. Every caller is answered.  When callers do not wait for room in the queue (no capacity, or no
  waiting time) and the guard returns on every payload, then in every reachable state the workers
  can, by themselves, resolve every future that a caller awaits, its own or a joined one.  No order of their steps blocks
  them: a worker step never adds work and, after any number of steps, while a caller is unanswered,
  some step of a worker lowers the work that is left, twice the length of the queue plus the number of
  runs.  (The functions of the steps are total, so a run always returns.)
\<close>

theorem every_caller_answered:
  assumes "(flow_step rep rx B R)\<^sup>*\<^sup>* (start_loop (make_runtime flows po gov gu mc cap w ttl cs)) lp"
    and "w \<le> 0 \<or> cap \<le> 0" and "guard_returns rep rx gu"
  shows "(\<exists>lp'. (worker_step B)\<^sup>*\<^sup>* lp lp' \<and> lp_waiting lp' = lp_waiting lp \<and> (\<forall>f\<in>set (lp_waiting lp). dict_has (lp_futures lp') f)) \<and>
    (\<forall>lp'. (worker_step B)\<^sup>*\<^sup>* lp lp' \<longrightarrow> work_left lp' \<le> work_left lp \<and>
      (unanswered lp' \<longrightarrow> (\<exists>lp''. worker_step B lp' lp'' \<and> work_left lp'' < work_left lp')))"
proof -
  have workers: "rt_max_concurrency (lp_runtime x) > 0" if "(flow_step rep rx B R)\<^sup>*\<^sup>* (start_loop (make_runtime flows po gov gu mc cap w ttl cs)) x" for x
    using settings_reachable[OF that] unfolding start_settings by (simp add: settings_def)
  have "work_left lp' \<le> work_left lp" and reach: "(flow_step rep rx B R)\<^sup>*\<^sup>* lp lp'" if "(worker_step B)\<^sup>*\<^sup>* lp lp'" for lp'
    using that by (induction rule: rtranclp_induct) (auto dest: worker_step_work intro: flow_step.work_step rtranclp.rtrancl_into_rtrancl)
  moreover have "\<exists>lp''. worker_step B lp' lp'' \<and> work_left lp'' < work_left lp'" if "(worker_step B)\<^sup>*\<^sup>* lp lp'" "unanswered lp'" for lp'
  proof -
    have r: "(flow_step rep rx B R)\<^sup>*\<^sup>* (start_loop (make_runtime flows po gov gu mc cap w ttl cs)) lp'"
      using assms(1) reach[OF that(1)] by (rule rtranclp_trans)
    show ?thesis using work_progress[OF answerable_reachable[OF r assms(2,3)] that(2) workers[OF r]] .
  qed
  moreover have "\<exists>lp'. (worker_step B)\<^sup>*\<^sup>* lp lp' \<and> lp_waiting lp' = lp_waiting lp \<and> \<not> unanswered lp'"
    using workers_answer[OF answerable_reachable[OF assms] loop_inv_reachable[OF assms(1)] workers[OF assms(1)]] .
  ultimately show ?thesis unfolding unanswered_def by metis
qed

section \<open>An example\<close>

definition silent_guard :: guard_state where
  "silent_guard = \<lparr>gst_config = default_config, gst_engine = \<lparr>ge_registry = [], ge_custom = []\<rparr>,
     gst_audit = \<lparr>at_enabled = False, at_mask_fields = [], at_log = []\<rparr>\<rparr>"

definition plain_policies :: flow_policies where
  "plain_policies = \<lparr>po_response_mode = IMMEDIATE, po_max_concurrency = None, po_allow_deferred = True, po_short_wait_s = 0\<rparr>"

definition demo_loop :: "real \<Rightarrow> flow_loop" where
  "demo_loop w = start_loop (make_runtime [(''f'', crud_flow)] plain_policies (mk_manager one_at_a_time) silent_guard 1 1 w 0 0)"

definition demo_call :: "string \<Rightarrow> flow_loop \<Rightarrow> flow_loop" where
  "demo_call key = execute_call (\<lambda>_. []) (\<lambda>_ _. Inr (\<lambda>_. False)) (\<lambda>s. s) (\<lambda>_. []) ''f'' [] None [(''idempotency_key'', VStr key)] ''u''
     \<lparr>ct_now = 0, ct_cache = 0, ct_audit = 0, ct_gov = 0, ct_put = 0\<rparr>"

lemma demo_step: "flow_step (\<lambda>_. []) (\<lambda>_ _. Inr (\<lambda>_. False)) (\<lambda>s. s) (\<lambda>_. []) lp (demo_call key lp)"
  unfolding demo_call_def by (rule flow_step.call_step)

lemma demo_reach:
  "(flow_step (\<lambda>_. []) (\<lambda>_ _. Inr (\<lambda>_. False)) (\<lambda>s. s) (\<lambda>_. []))\<^sup>*\<^sup>* (demo_loop w) (demo_call b (demo_call a (demo_loop w)))"
  using demo_step[of "demo_loop w" a] demo_step[of "demo_call a (demo_loop w)" b] by (meson converse_rtranclp_into_rtranclp rtranclp.rtrancl_refl)

lemma demo_joined:
  "map idem_key (rt_queue (lp_runtime (demo_call ''k'' (demo_call ''k'' (demo_loop 0))))) = [Some ''k'']"
  "lp_waiting (demo_call ''k'' (demo_call ''k'' (demo_loop 0))) = [0, 0]"
  by code_simp+

theorem runtime_bounds_witness:
  "length (lp_waiting (demo_call ''k'' (demo_call ''k'' (demo_loop 0)))) = 2 \<and>
   int (length (rt_queue (lp_runtime (demo_call ''k'' (demo_call ''k'' (demo_loop 0)))))) \<le> 1"
  using runtime_bounds[OF demo_reach[unfolded demo_loop_def], of "''k''" "''k''" 0] demo_joined by (simp add: demo_loop_def)

lemma demo_denied:
  "map idem_key (limit_holders (demo_call ''j'' (demo_call ''k'' (demo_loop 0))) (''flow'', Some ''f'', None)) = [Some ''k'']"
  by code_simp

theorem runtime_respects_limits_witness:
  "int (length (limit_holders (demo_call ''j'' (demo_call ''k'' (demo_loop 0))) (''flow'', Some ''f'', None))) \<le> max 0 1 \<and>
   map idem_key (limit_holders (demo_call ''j'' (demo_call ''k'' (demo_loop 0))) (''flow'', Some ''f'', None)) = [Some ''k'']"
proof -
  have "((''flow'', Some ''f'', None), limits_off\<lparr>lm_enabled := True, lm_concurrency := Some 1\<rparr>)
      \<in> set (limit_scopes one_at_a_time flow_request)"
    by (simp add: limit_scopes_def one_at_a_time_def flow_request_def scope_entry_def given_def)
  from runtime_respects_limits[OF demo_reach[unfolded demo_loop_def] this, of 1 "''j''" "''k''" 0] demo_denied
  show ?thesis by (simp add: demo_loop_def)
qed

lemma silent_guard_returns: "guard_returns rep rx silent_guard"
  by (simp add: guard_returns_def evaluate_guard_def silent_guard_def default_config_def guard_enabled_def)

theorem every_caller_answered_witness:
  "\<exists>lp'. (worker_step (\<lambda>s. s))\<^sup>*\<^sup>* (demo_call ''k'' (demo_call ''k'' (demo_loop 0))) lp' \<and> lp_waiting lp' = [0, 0] \<and> dict_has (lp_futures lp') 0"
  using every_caller_answered[OF demo_reach[unfolded demo_loop_def] _ silent_guard_returns, of 0 "''k''" "''k''"] demo_joined(2)
  by (simp add: demo_loop_def)

section \<open>Futures that nobody resolves\<close>

text \<open>A future that is not resolved and belongs to no request stays so.\<close>

definition stranded :: "nat \<Rightarrow> flow_loop \<Rightarrow> bool" where
  "stranded f lp \<longleftrightarrow> f < lp_next lp \<and> \<not> dict_has (lp_futures lp) f \<and> f \<notin> fr_future ` set (live lp)"

lemma enqueue_live: "fr_future ` set (live (enqueue_request rq now lp)) \<subseteq> insert (fr_future rq) (fr_future ` set (live lp))"
  "lp_next (enqueue_request rq now lp) = lp_next lp" "lp_futures (enqueue_request rq now lp) = lp_futures lp"
  by (auto simp: enqueue_request_cases live_def rt_frame)

lemma call_stranded:
  assumes "stranded f lp"
  shows "stranded f (execute_call rep rx B R name inputs mode ctx uuid t lp)"
proof (cases "prepare_request B R (lp_runtime lp) name inputs mode ctx uuid (lp_next lp) (ct_now t)")
  case (Inl e)
  then show ?thesis using assms by (simp add: execute_call_def)
next
  case (Inr rq)
  then have fut: "fr_future rq = lp_next lp" by (auto simp: prepare_request_def result_simps)
  obtain a rt where ad: "admit_request rep rx rq (ct_cache t) (ct_audit t) (ct_gov t) (lp_runtime lp) = (a, rt)"
    by (cases "admit_request rep rx rq (ct_cache t) (ct_audit t) (ct_gov t) (lp_runtime lp)")
  let ?lp1 = "lp\<lparr>lp_runtime := rt, lp_next := Suc (lp_next lp)\<rparr>"
  note ac = admit_cases[OF ad]
  have lv: "live ?lp1 = live lp" "live (?lp1\<lparr>lp_waiting := ws\<rparr>) = live lp" for ws using ac by (simp_all add: live_def same_shape_def)
  show ?thesis
  proof (cases a)
    case (Proceed rq')
    have "fr_future rq' = lp_next lp" using ac Proceed fut by auto
    then have "stranded f (enqueue_request rq' (ct_put t) ?lp1)"
      using assms enqueue_live[of rq' "ct_put t" ?lp1] lv(1) unfolding stranded_def by auto
    then show ?thesis using Inr ad Proceed by (simp add: execute_call_def Let_def)
  qed (use Inr ad assms lv in \<open>simp_all add: execute_call_def stranded_def\<close>)
qed

lemma worker_step_stranded: "worker_step B lp lp' \<Longrightarrow> stranded f lp \<Longrightarrow> stranded f lp'"
proof (induction rule: worker_step.induct)
  case (take_step lp rq rest token now gov_now)
  have "set (live (worker_take rq rest token now gov_now lp)) = set (live lp)" using take_step.hyps by (auto simp: worker_take_unfold live_def rt_frame)
  then show ?case using take_step.prems unfolding stranded_def by (simp add: worker_take_unfold)
next
  case (poll_step lp xs rq token ys ready h)
  then show ?case by (simp add: stranded_def live_def)
next
  case (finish_step lp xs rq ph ys clock t)
  have "set (live (worker_finish B clock rq ph (xs @ ys) t lp)) \<subseteq> set (live lp)" "rq \<in> set (live lp)"
    using finish_step.hyps by (auto simp: worker_finish_unfold live_def rt_frame)
  then show ?case using finish_step.prems unfolding stranded_def by (auto simp: worker_finish_unfold dict_has_set)
qed

lemma flow_step_stranded: "flow_step rep rx B R lp lp' \<Longrightarrow> stranded f lp \<Longrightarrow> stranded f lp'"
proof (induction rule: flow_step.induct)
  case (put_step lp xs rq ys now)
  then show ?case by (auto simp: stranded_def put_done_def live_def rt_frame)
next
  case (timeout_step lp xs rq ys)
  then show ?case by (auto simp: stranded_def put_timeout_def live_def rt_frame)
qed (auto simp: stranded_def[of _ "_\<lparr>lp_waiting := _\<rparr>"] stranded_def[of _ "_\<lparr>lp_runtime := _\<rparr>"] intro: call_stranded worker_step_stranded,
     simp_all add: stranded_def live_def register_flow_def)

lemma stranded_forever: "(flow_step rep rx B R)\<^sup>*\<^sup>* lp lp' \<Longrightarrow> stranded f lp \<Longrightarrow> stranded f lp'"
  by (induction rule: rtranclp_induct) (auto dest: flow_step_stranded)

text \<open>
  A caller that joined a request which then gives up waiting for the queue is never answered: the
  request's key leaves the in-flight table and its future is dropped.
\<close>

lemma timeout_strands_joiner:
  "lp_waiting (put_timeout (hd (lp_putting (demo_call ''k'' (demo_call ''k'' (demo_loop 1000))))) []
     (demo_call ''k'' (demo_call ''k'' (demo_loop 1000)))) = [0]"
  "stranded 0 (put_timeout (hd (lp_putting (demo_call ''k'' (demo_call ''k'' (demo_loop 1000))))) []
     (demo_call ''k'' (demo_call ''k'' (demo_loop 1000))))"
  by code_simp+

text \<open>
  A guard that raises leaves the key of its request in the in-flight table with a future that nobody
  resolves; later calls with the key join it.
\<close>

lemma guard_error_strands_key:
  assumes inv: "loop_inv lp" and rq: "prepare_request B R (lp_runtime lp) name inputs mode ctx uuid (lp_next lp) (ct_now t) = Inr rq"
    and ad: "admit_request rep rx rq (ct_cache t) (ct_audit t) (ct_gov t) (lp_runtime lp) = (RaisedExn e, rt)" and k: "idem_key rq = Some k"
  shows "dict_get (rt_inflight (lp_runtime (execute_call rep rx B R name inputs mode ctx uuid t lp))) k = Some (lp_next lp)"
    "stranded (lp_next lp) (execute_call rep rx B R name inputs mode ctx uuid t lp)"
proof -
  have fut: "fr_future rq = lp_next lp" using rq by (auto simp: prepare_request_def result_simps)
  have call: "execute_call rep rx B R name inputs mode ctx uuid t lp = lp\<lparr>lp_runtime := rt, lp_next := Suc (lp_next lp)\<rparr>"
    using rq ad by (simp add: execute_call_def)
  have "dict_get (rt_inflight rt) k = Some (fr_future rq)" "same_shape (lp_runtime lp) rt" using admit_cases[OF ad] k by simp_all
  moreover have "\<not> dict_has (lp_futures lp) (lp_next lp)" using inv by (auto simp: loop_inv_def)
  moreover have "lp_next lp \<notin> fr_future ` set (live lp)" using new_future_fresh[OF inv] by force
  ultimately show "dict_get (rt_inflight (lp_runtime (execute_call rep rx B R name inputs mode ctx uuid t lp))) k = Some (lp_next lp)"
    "stranded (lp_next lp) (execute_call rep rx B R name inputs mode ctx uuid t lp)"
    using fut unfolding call by (simp_all add: stranded_def live_def same_shape_def)
qed

end
