(* ===== verification/Intent_Completeness.thy ===== *)
theory Intent_Completeness
  imports Guards
begin

text \<open>
  Completeness of intents (\<^verbatim>\<open>tm/intent/completeness.py\<close>, \<^verbatim>\<open>uncertainty.py\<close>): domain profiles, the six
  dimensions of a requirement with the evidence for them, and the judgement in the exploring and the
  sealing mode.  Files are read elsewhere: the documents of intent, plan and network, the categories of
  the patterns and the profiles by name are arguments.  Keywords of the lexicon with characters outside
  the 8-bit code points of the modelled strings, which occur in no modelled text, are left out.
\<close>

section \<open>Dimensions, verdicts and modes\<close>

datatype dimension = WHO | WHY | WHAT | WHEN | WHERE | HOW

definition dim_value :: "dimension \<Rightarrow> string" where
  "dim_value d = (case d of WHO \<Rightarrow> ''who'' | WHY \<Rightarrow> ''why'' | WHAT \<Rightarrow> ''what'' | WHEN \<Rightarrow> ''when'' | WHERE \<Rightarrow> ''where'' | HOW \<Rightarrow> ''how'')"

definition all_dimensions :: "dimension list" where
  "all_dimensions = [WHO, WHY, WHAT, WHEN, WHERE, HOW]"

datatype dim_status = SATISFIED | PARTIAL | MISSING | NOT_APPLICABLE

definition status_value :: "dim_status \<Rightarrow> string" where
  "status_value s = (case s of SATISFIED \<Rightarrow> ''satisfied'' | PARTIAL \<Rightarrow> ''partial'' | MISSING \<Rightarrow> ''missing'' | NOT_APPLICABLE \<Rightarrow> ''not_applicable'')"

datatype severity = SEV_ERROR | SEV_WARN | SEV_OFF

definition severity_value :: "severity \<Rightarrow> string" where
  "severity_value s = (case s of SEV_ERROR \<Rightarrow> ''error'' | SEV_WARN \<Rightarrow> ''warn'' | SEV_OFF \<Rightarrow> ''off'')"

datatype judge_mode = DESIGN | SEAL

definition mode_value :: "judge_mode \<Rightarrow> string" where
  "mode_value m = (case m of DESIGN \<Rightarrow> ''design'' | SEAL \<Rightarrow> ''seal'')"

definition heuristic_lexicon :: "dimension \<Rightarrow> string list" where
  "heuristic_lexicon d = (case d of
       WHO \<Rightarrow> [''user'', ''actor'', ''agent'', ''operator'', ''service'', ''role'', ''client'']
     | WHY \<Rightarrow> [''because'', ''in order to'', ''objective'', ''purpose'', ''motivation'', ''rationale'']
     | WHAT \<Rightarrow> [''input'', ''output'', ''produce'', ''generate'', ''compute'', ''transform'', ''result'']
     | WHEN \<Rightarrow> [''when'', ''trigger'', ''every'', ''periodic'', ''schedule'', ''interval'', ''liveness'', ''deadline'', ''timeout'',
         ''after '', ''before '', ''on event'', ''eventually'', ''real-time'']
     | WHERE \<Rightarrow> [''scope'', ''namespace'', ''cluster'', ''region'', ''topology'', ''network'', ''boundary'', ''node'', ''tenant'',
         ''partition'', ''environment'']
     | HOW \<Rightarrow> [''via'', ''using'', ''by means'', ''approach'', ''mechanism'', ''pattern'', ''strategy''])"

definition default_severity :: "dimension \<Rightarrow> severity" where
  "default_severity d = (case d of WHEN \<Rightarrow> SEV_WARN | WHERE \<Rightarrow> SEV_WARN | _ \<Rightarrow> SEV_ERROR)"

section \<open>Profiles\<close>

record profile =
  pf_profile_id :: string
  pf_domain :: "string option"
  pf_severities :: "(dimension, severity) dict"
  pf_required_slots :: "string list"
  pf_vocabulary_hints :: "(dimension, string) dict"
  pf_heuristic_keywords :: "(dimension, string list) dict"
  pf_slots_dimension :: dimension

definition pf_severity :: "profile \<Rightarrow> dimension \<Rightarrow> severity" where
  "pf_severity p d = dict_get_or (pf_severities p) d (default_severity d)"

definition pf_keywords :: "profile \<Rightarrow> dimension \<Rightarrow> string list" where
  "pf_keywords p d = extend_new [] (heuristic_lexicon d @ dict_get_or (pf_heuristic_keywords p) d [])"

definition coerce_dimension :: "(val \<Rightarrow> string) \<Rightarrow> val \<Rightarrow> dimension result" where
  "coerce_dimension rep raw = (case find (\<lambda>d. dim_value d = str_lower (str_strip (py_str rep raw))) all_dimensions of
       Some d \<Rightarrow> Inr d
     | None \<Rightarrow> Inl (ValueError (''unknown 5W1H dimension '' @ quoted (py_str rep raw))))"

definition coerce_severity :: "(val \<Rightarrow> string) \<Rightarrow> val \<Rightarrow> severity result" where
  "coerce_severity rep raw = (case raw of
       VBool b \<Rightarrow> if b then Inl (ValueError ''severity 'on'/True is not valid; use error/warn/off'') else Inr SEV_OFF
     | _ \<Rightarrow> (case find (\<lambda>s. severity_value s = str_lower (str_strip (py_str rep raw))) [SEV_ERROR, SEV_WARN, SEV_OFF] of
          Some s \<Rightarrow> Inr s
        | None \<Rightarrow> Inl (ValueError (''unknown severity '' @ quoted (py_str rep raw)))))"

text \<open>\<^verbatim>\<open>raw.get(key) or default\<close>, which has to be a mapping or a list.\<close>

definition mapping_field :: "string \<Rightarrow> (string, val) dict \<Rightarrow> string \<Rightarrow> (string, val) dict result" where
  "mapping_field label raw key = (case get_or raw key (VDict []) of
       VDict d \<Rightarrow> Inr d
     | _ \<Rightarrow> Inl (ValueError (label @ '': '' @ key @ '' must be a mapping'')))"

definition list_field :: "string \<Rightarrow> (string, val) dict \<Rightarrow> string \<Rightarrow> val list result" where
  "list_field label raw key = (case get_or raw key (VList []) of
       VList xs \<Rightarrow> Inr xs
     | _ \<Rightarrow> Inl (ValueError (label @ '': '' @ key @ '' must be a list'')))"

fun fold_items :: "('a \<Rightarrow> 'b \<Rightarrow> 'b result) \<Rightarrow> 'a list \<Rightarrow> 'b \<Rightarrow> 'b result" where
  "fold_items f [] acc = Inr acc"
| "fold_items f (x # xs) acc = bind_result (f x acc) (fold_items f xs)"

definition override_severity :: "(val \<Rightarrow> string) \<Rightarrow> string \<times> val \<Rightarrow> (dimension, severity) dict \<Rightarrow> (dimension, severity) dict result" where
  "override_severity rep kv sevs =
     bind_result (coerce_severity rep (snd kv)) (\<lambda>s.
     bind_result (coerce_dimension rep (VStr (fst kv))) (\<lambda>d. Inr (dict_set d s sevs)))"

definition add_hint :: "(val \<Rightarrow> string) \<Rightarrow> string \<times> val \<Rightarrow> (dimension, string) dict \<Rightarrow> (dimension, string) dict result" where
  "add_hint rep kv hints = bind_result (coerce_dimension rep (VStr (fst kv))) (\<lambda>d. Inr (dict_set d (py_str rep (snd kv)) hints))"

definition add_keywords :: "(val \<Rightarrow> string) \<Rightarrow> string \<Rightarrow> string \<times> val \<Rightarrow> (dimension, string list) dict \<Rightarrow> (dimension, string list) dict result" where
  "add_keywords rep label kv kws = (case snd kv of
       VList xs \<Rightarrow> bind_result (coerce_dimension rep (VStr (fst kv))) (\<lambda>d.
         Inr (dict_set d (extend_new (dict_get_or kws d [])
           (filter (\<lambda>s. s \<noteq> []) (map (\<lambda>k. str_lower (str_strip (py_str rep k))) xs))) kws))
     | _ \<Rightarrow> Inl (ValueError (label @ '': heuristic_keywords.'' @ fst kv @ '' must be a list'')))"

definition base_profile :: profile where
  "base_profile = \<lparr>pf_profile_id = [], pf_domain = None, pf_severities = map (\<lambda>d. (d, default_severity d)) all_dimensions,
     pf_required_slots = [], pf_vocabulary_hints = [], pf_heuristic_keywords = [], pf_slots_dimension = WHAT\<rparr>"

text \<open>The part of \<^verbatim>\<open>_resolve_profile\<close> after the parent is known.\<close>

definition layer_profile :: "(val \<Rightarrow> string) \<Rightarrow> string \<Rightarrow> string \<Rightarrow> profile \<Rightarrow> (string, val) dict \<Rightarrow> profile result" where
  "layer_profile rep profile_id label parent raw =
     bind_result (mapping_field label raw ''severity_overrides'') (\<lambda>overrides.
     bind_result (fold_items (override_severity rep) overrides (pf_severities parent)) (\<lambda>sevs.
     bind_result (list_field label raw ''required_slots'') (\<lambda>slots.
     bind_result (mapping_field label raw ''vocabulary_hints'') (\<lambda>hints_raw.
     bind_result (fold_items (add_hint rep) hints_raw (pf_vocabulary_hints parent)) (\<lambda>hints.
     bind_result (mapping_field label raw ''heuristic_keywords'') (\<lambda>kw_raw.
     bind_result (fold_items (add_keywords rep label) kw_raw (pf_heuristic_keywords parent)) (\<lambda>kws.
     bind_result (case get_val raw ''required_slots_dimension'' of VNone \<Rightarrow> Inr (pf_slots_dimension parent) | v \<Rightarrow> coerce_dimension rep v) (\<lambda>rsd.
       Inr \<lparr>pf_profile_id = profile_id,
         pf_domain = (case get_val raw ''domain'' of
             VNone \<Rightarrow> None
           | VStr s \<Rightarrow> if s = [] \<or> s = ''null'' then None else Some s
           | v \<Rightarrow> Some (py_str rep v)),
         pf_severities = sevs, pf_required_slots = extend_new (pf_required_slots parent) (map (py_str rep) slots),
         pf_vocabulary_hints = hints, pf_heuristic_keywords = kws, pf_slots_dimension = rsd\<rparr>))))))))"

text \<open>
  \<^verbatim>\<open>load_profile\<close> and \<^verbatim>\<open>_resolve_profile\<close> over the profiles by name.  The chain of \<^verbatim>\<open>extends\<close> is followed on
  fuel; \<open>None\<close> when it runs out.
\<close>

definition profile_name :: "(val \<Rightarrow> string) \<Rightarrow> string \<Rightarrow> (string, val) dict \<Rightarrow> string" where
  "profile_name rep stem raw = py_str rep (get_or raw ''profile_id'' (VStr stem))"

fun load_profile :: "(val \<Rightarrow> string) \<Rightarrow> (string, val) dict \<Rightarrow> string list \<Rightarrow> nat \<Rightarrow> string \<Rightarrow> profile result option" where
  "load_profile rep docs seen 0 name = None"
| "load_profile rep docs seen (Suc n) name = (case dict_get docs name of
       None \<Rightarrow> Some (Inl (ValueError (''5W1H profile not found: '' @ quoted name)))
     | Some doc \<Rightarrow> (case doc of
          VDict raw \<Rightarrow>
            (let pid = profile_name rep name raw; ext = get_val raw ''extends'' in
             if truthy ext then
               (let ext_name = py_str rep ext in
                if ext_name = pid \<or> ext_name \<in> set seen
                then Some (Inl (ValueError (''profile extends cycle detected involving '' @ quoted ext_name)))
                else map_option (\<lambda>r. bind_result r (\<lambda>parent. layer_profile rep pid name parent raw))
                  (load_profile rep docs (pid # seen) n ext_name))
             else Some (layer_profile rep pid name base_profile raw))
        | _ \<Rightarrow> Some (Inl (ValueError (name @ '': profile must be a YAML mapping'')))))"

section \<open>Dispositions\<close>

datatype disposition_kind = RESOLVED | WAIVED | DYNAMIC

definition kind_value :: "disposition_kind \<Rightarrow> string" where
  "kind_value k = (case k of RESOLVED \<Rightarrow> ''resolved'' | WAIVED \<Rightarrow> ''waived'' | DYNAMIC \<Rightarrow> ''dynamic'')"

record disposition =
  dp_kind :: disposition_kind
  dp_rationale :: "string option"
  dp_signer :: "string option"
  dp_registry_ref :: "string option"
  dp_resolver_ref :: "string option"
  dp_schema :: "(string, val) dict option"

definition opt_entry :: "string \<Rightarrow> string option \<Rightarrow> (string, val) dict" where
  "opt_entry k v = (case v of None \<Rightarrow> [] | Some s \<Rightarrow> [(k, VStr s)])"

definition disposition_doc :: "disposition \<Rightarrow> val" where
  "disposition_doc d = VDict ([(''kind'', VStr (kind_value (dp_kind d)))] @ opt_entry ''rationale'' (dp_rationale d) @
     opt_entry ''signer'' (dp_signer d) @ opt_entry ''uncertainty_registry_ref'' (dp_registry_ref d) @
     opt_entry ''resolver_ref'' (dp_resolver_ref d) @ (case dp_schema d of None \<Rightarrow> [] | Some sc \<Rightarrow> [(''schema'', VDict sc)]))"

text \<open>The registry of resolvers by name; \<^verbatim>\<open>constant\<close> is there from the start.\<close>

type_synonym resolver = "(string, val) dict \<Rightarrow> val result"

definition constant_resolver :: resolver where
  "constant_resolver schema = (case dict_get schema ''value'' of
       Some v \<Rightarrow> Inr v
     | None \<Rightarrow> Inl (ValueError ''constant resolver requires schema.value''))"

definition initial_resolvers :: "(string, resolver) dict" where
  "initial_resolvers = [(''constant'', constant_resolver)]"

definition register_resolver :: "string \<Rightarrow> resolver \<Rightarrow> (string, resolver) dict \<Rightarrow> (string, resolver) dict result" where
  "register_resolver name f reg =
     (if str_strip name = [] then Inl (ValueError ''resolver name must be non-empty'')
      else Inr (dict_set (str_strip name) f reg))"

definition is_registered_resolver :: "(string, resolver) dict \<Rightarrow> string option \<Rightarrow> bool" where
  "is_registered_resolver reg ref = (case ref of None \<Rightarrow> False | Some r \<Rightarrow> r \<noteq> [] \<and> dict_has reg r)"

definition opt_str :: "(val \<Rightarrow> string) \<Rightarrow> val \<Rightarrow> string option" where
  "opt_str rep v = (if v = VNone \<or> str_strip (py_str rep v) = [] then None else Some (str_strip (py_str rep v)))"

definition parse_disposition :: "(val \<Rightarrow> string) \<Rightarrow> val \<Rightarrow> disposition result" where
  "parse_disposition rep raw = (case raw of
       VDict d \<Rightarrow>
         (case find (\<lambda>k. kind_value k = str_lower (str_strip (py_str rep (get_val d ''kind'')))) [RESOLVED, WAIVED, DYNAMIC] of
            None \<Rightarrow> Inl (ValueError (''unknown disposition kind '' @ quoted (py_str rep (get_val d ''kind''))))
          | Some k \<Rightarrow>
              bind_result (case get_val d ''schema'' of VNone \<Rightarrow> Inr None | VDict sc \<Rightarrow> Inr (Some sc)
                | _ \<Rightarrow> Inl (ValueError ''disposition.schema must be a mapping'')) (\<lambda>sc.
              Inr \<lparr>dp_kind = k, dp_rationale = opt_str rep (get_val d ''rationale''), dp_signer = opt_str rep (get_val d ''signer''),
                dp_registry_ref = opt_str rep (get_val d ''uncertainty_registry_ref''),
                dp_resolver_ref = opt_str rep (get_val d ''resolver_ref''), dp_schema = sc\<rparr>))
     | _ \<Rightarrow> Inl (ValueError ''disposition must be a mapping''))"

definition validate_disposition :: "(string, resolver) dict \<Rightarrow> disposition \<Rightarrow> string list" where
  "validate_disposition reg d = (case dp_kind d of
       WAIVED \<Rightarrow> (if given (dp_rationale d) then [] else [''waived disposition requires a rationale'']) @
         (if given (dp_signer d) then [] else [''waived disposition requires a signer''])
     | DYNAMIC \<Rightarrow>
         if \<not> given (dp_resolver_ref d) then [''dynamic disposition requires resolver_ref'']
         else if is_registered_resolver reg (dp_resolver_ref d) then []
         else [''resolver_ref '' @ quoted (the (dp_resolver_ref d)) @ '' is not a registered deterministic resolver (registered: ['' @
           str_join '', '' (map quoted (sort (dict_keys reg))) @ ''])'']
     | RESOLVED \<Rightarrow> [])"

definition parse_dispositions :: "(val \<Rightarrow> string) \<Rightarrow> val \<Rightarrow> (dimension, disposition) dict result" where
  "parse_dispositions rep payload = (case payload of
       VDict d \<Rightarrow> fold_items (\<lambda>(k, raw) out.
         case find (\<lambda>x. dim_value x = str_lower (str_strip k)) all_dimensions of
           None \<Rightarrow> Inl (ValueError (''unknown 5W1H dimension '' @ quoted k @ '' in dispositions''))
         | Some x \<Rightarrow> bind_result (parse_disposition rep raw) (\<lambda>dp. Inr (dict_set x dp out))) d []
     | _ \<Rightarrow> Inl (ValueError ''dispositions must be a mapping of dimension -> disposition''))"

section \<open>Evidence\<close>

text \<open>\<^verbatim>\<open>len(v)\<close>, and \<^verbatim>\<open>v.values()\<close>.\<close>

definition py_len :: "val \<Rightarrow> nat result" where
  "py_len v = (case v of
       VStr s \<Rightarrow> Inr (length s)
     | VList xs \<Rightarrow> Inr (length xs)
     | VDict d \<Rightarrow> Inr (length d)
     | _ \<Rightarrow> Inl (TypeError (''object of type '' @ quoted (type_name v) @ '' has no len()'')))"

definition slot_keys :: "(string, val) dict \<Rightarrow> string list result" where
  "slot_keys body = (case get_or body ''slot_fills'' (VDict []) of
       VDict fills \<Rightarrow> Inr (concat (map (\<lambda>(_, m). case m of VDict d \<Rightarrow> dict_keys d | _ \<Rightarrow> []) fills))
     | v \<Rightarrow> Inl (AttributeError (quoted (type_name v) @ '' object has no attribute '' @ quoted ''values'')))"

definition nonempty :: "val \<Rightarrow> bool" where
  "nonempty v = (case v of VNone \<Rightarrow> False | VStr s \<Rightarrow> str_strip s \<noteq> [] | VList xs \<Rightarrow> xs \<noteq> [] | VDict d \<Rightarrow> d \<noteq> [] | _ \<Rightarrow> True)"

type_synonym finding = "dim_status \<times> string list \<times> string option"

definition counted :: "string \<Rightarrow> val \<Rightarrow> string result" where
  "counted name v = bind_result (py_len v) (\<lambda>n. Inr (name @ ''['' @ str_nat n @ '']''))"

definition eval_who :: "(string, val) dict \<Rightarrow> finding result" where
  "eval_who body =
     (let actors = get_or body ''actors'' (VList []) in
      if nonempty actors then bind_result (counted ''actors'' actors) (\<lambda>e. Inr (SATISFIED, [e], None))
      else Inr (MISSING, [], Some ''no actors declared (Who)''))"

definition eval_why :: "(string, val) dict \<Rightarrow> finding" where
  "eval_why body =
     (let context_ok = nonempty (get_val body ''context''); goal_ok = nonempty (get_val body ''goal'') in
      if context_ok \<and> goal_ok then (SATISFIED, [''context'', ''goal''], None)
      else if context_ok \<or> goal_ok
      then (PARTIAL, [if context_ok then ''context'' else ''goal''], Some ''Why needs both context and goal'')
      else (MISSING, [], Some ''no context/goal (Why)''))"

definition eval_what :: "(string, val) dict \<Rightarrow> finding result" where
  "eval_what body =
     (let inputs = get_or body ''inputs'' (VList []); outputs = get_or body ''outputs'' (VList []) in
      if \<not> nonempty (get_val body ''goal'') then Inr (MISSING, [], Some ''no goal (What)'')
      else
        bind_result (if nonempty inputs then bind_result (counted ''inputs'' inputs) (\<lambda>e. Inr [e]) else Inr []) (\<lambda>ie.
        bind_result (if nonempty outputs then bind_result (counted ''outputs'' outputs) (\<lambda>e. Inr [e]) else Inr []) (\<lambda>oe.
          if nonempty inputs \<or> nonempty outputs then Inr (SATISFIED, [''goal''] @ ie @ oe, None)
          else Inr (PARTIAL, [''goal''], Some ''What needs at least one of inputs/outputs''))))"

definition trigger_rule :: "val \<Rightarrow> (string, val) dict option" where
  "trigger_rule rule = (case rule of VDict r \<Rightarrow> if nonempty (get_val r ''triggers'') then Some r else None | _ \<Rightarrow> None)"

definition eval_when :: "(val \<Rightarrow> string) \<Rightarrow> (string, val) dict \<Rightarrow> (string, val) dict option \<Rightarrow> (string, string) dict \<Rightarrow> finding result" where
  "eval_when rep body plan categories =
     bind_result (case plan of None \<Rightarrow> Inr [] | Some p \<Rightarrow> iter_val (get_or p ''rules'' (VList []))) (\<lambda>rules.
     case List.map_filter trigger_rule rules of
       r # _ \<Rightarrow> Inr (SATISFIED, [''plan:rule.'' @ py_str rep (dict_get_or r ''name'' (VStr ''?'')) @ ''.triggers''], None)
     | [] \<Rightarrow>
       bind_result (iter_val (get_or body ''property_pattern_refs'' (VList []))) (\<lambda>refs.
       case filter (\<lambda>r. dict_get categories (py_str rep r) = Some ''liveness'') refs of
         r # _ \<Rightarrow> Inr (SATISFIED, [''pattern:'' @ py_str rep r @ '':liveness''], None)
       | [] \<Rightarrow>
         bind_result (slot_keys body) (\<lambda>keys.
         case filter (starts_with ''when_'') keys of
           k # _ \<Rightarrow> Inr (SATISFIED, [''slot_fills.'' @ k], None)
         | [] \<Rightarrow> Inr (MISSING, [], Some ''no linked Plan with triggers, no liveness PropertyPattern, and no when_* slot (When)''))))"

definition eval_where :: "(val \<Rightarrow> string) \<Rightarrow> (string, val) dict \<Rightarrow> (string, val) dict option \<Rightarrow> finding result" where
  "eval_where rep body network =
     (let nid = (case network of None \<Rightarrow> VNone | Some n \<Rightarrow> get_val n ''network_id'') in
      if nonempty nid then Inr (SATISFIED, [''network:'' @ py_str rep nid], None)
      else bind_result (slot_keys body) (\<lambda>keys.
        case filter (\<lambda>k. k = ''domain'' \<or> starts_with ''where_'' k) keys of
          k # _ \<Rightarrow> Inr (SATISFIED, [''slot_fills.'' @ k], None)
        | [] \<Rightarrow> Inr (MISSING, [], Some ''no AgentNetwork and no domain/where_* slot (Where)'')))"

definition eval_how :: "(string, val) dict \<Rightarrow> finding result" where
  "eval_how body =
     (let refs = get_or body ''property_pattern_refs'' (VList []) in
      if nonempty refs then bind_result (counted ''property_pattern_refs'' refs) (\<lambda>e. Inr (SATISFIED, [e], None))
      else Inr (MISSING, [], Some ''no property_pattern_refs (How)''))"

definition prose_text :: "(val \<Rightarrow> string) \<Rightarrow> (string, val) dict \<Rightarrow> string" where
  "prose_text rep body = str_lower (str_join [CHR 0x0A]
     (concat (map (\<lambda>k. case get_val body k of VStr s \<Rightarrow> [s] | _ \<Rightarrow> []) [''title'', ''context'', ''goal'']) @
      concat (map (\<lambda>k. case get_val body k of VList xs \<Rightarrow> map (py_str rep) xs | _ \<Rightarrow> []) [''assumptions'', ''constraints'', ''non_goals''])))"

definition scan_prose :: "(val \<Rightarrow> string) \<Rightarrow> (string, val) dict \<Rightarrow> dimension \<Rightarrow> profile \<Rightarrow> string option" where
  "scan_prose rep body d p = find (contains (prose_text rep body)) (pf_keywords p d)"

definition missing_required_slots :: "(string, val) dict \<Rightarrow> profile \<Rightarrow> string list result" where
  "missing_required_slots body p =
     (if pf_required_slots p = [] then Inr []
      else bind_result (slot_keys body) (\<lambda>present. Inr (filter (\<lambda>s. s \<notin> set present) (pf_required_slots p))))"

section \<open>The judgement\<close>

record dimension_verdict =
  dv_status :: dim_status
  dv_severity :: severity
  dv_evidence :: "string list"
  dv_missing_reason :: "string option"
  dv_suggestion :: "string option"

definition opt_doc :: "string option \<Rightarrow> val" where
  "opt_doc v = (case v of None \<Rightarrow> VNone | Some s \<Rightarrow> VStr s)"

definition verdict_doc :: "dimension_verdict \<Rightarrow> (string, val) dict" where
  "verdict_doc v = [(''status'', VStr (status_value (dv_status v))), (''severity'', VStr (severity_value (dv_severity v))),
     (''evidence'', VList (map VStr (dv_evidence v))), (''missing_reason'', opt_doc (dv_missing_reason v)), (''suggestion'', opt_doc (dv_suggestion v))]"

definition raw_status ::
  "(val \<Rightarrow> string) \<Rightarrow> (string, val) dict \<Rightarrow> (string, val) dict option \<Rightarrow> (string, val) dict option \<Rightarrow> (string, string) dict \<Rightarrow> (dimension, finding) dict result" where
  "raw_status rep body plan network categories =
     bind_result (eval_who body) (\<lambda>who. bind_result (eval_what body) (\<lambda>what.
     bind_result (eval_when rep body plan categories) (\<lambda>whn. bind_result (eval_where rep body network) (\<lambda>whr.
     bind_result (eval_how body) (\<lambda>how.
       Inr [(WHO, who), (WHY, eval_why body), (WHAT, what), (WHEN, whn), (WHERE, whr), (HOW, how)])))))"

definition judge_dimension ::
  "(val \<Rightarrow> string) \<Rightarrow> judge_mode \<Rightarrow> profile \<Rightarrow> (string, val) dict \<Rightarrow> dimension \<Rightarrow> finding \<Rightarrow> dimension_verdict" where
  "judge_dimension rep m p body d found = (case found of (status, evidence, reason) \<Rightarrow>
     if pf_severity p d = SEV_OFF then
       \<lparr>dv_status = NOT_APPLICABLE, dv_severity = SEV_OFF, dv_evidence = [], dv_missing_reason = None, dv_suggestion = None\<rparr>
     else
       (let kw = (if m = DESIGN \<and> status = MISSING then scan_prose rep body d p else None);
            status1 = (if kw = None then status else PARTIAL);
            evidence1 = (case kw of None \<Rightarrow> evidence | Some k \<Rightarrow> [''heuristic:'' @ k]);
            suggestion = (case kw of
                Some k \<Rightarrow> Some (''prose hint '' @ quoted k @ '' found; formalize into a structured '' @ dim_value d @ '' field before seal'')
              | None \<Rightarrow> if status1 = SATISFIED then None
                  else if given (dict_get (pf_vocabulary_hints p) d) then dict_get (pf_vocabulary_hints p) d else reason)
        in \<lparr>dv_status = status1, dv_severity = pf_severity p d, dv_evidence = evidence1,
            dv_missing_reason = (if status1 = SATISFIED then None else reason), dv_suggestion = suggestion\<rparr>))"

definition degrade_slots :: "string list \<Rightarrow> dimension_verdict \<Rightarrow> dimension_verdict" where
  "degrade_slots slots v =
     (let note = ''missing required slot(s): '' @ str_join '', '' slots in
      v\<lparr>dv_status := (if dv_status v = SATISFIED then PARTIAL else dv_status v),
        dv_missing_reason := Some (if given (dv_missing_reason v) then the (dv_missing_reason v) @ ''; '' @ note else note),
        dv_suggestion := (if given (dv_suggestion v) then dv_suggestion v
          else Some (''fill required slot(s) under slot_fills: '' @ str_join '', '' slots))\<rparr>)"

definition enforce_slots :: "profile \<Rightarrow> string list \<Rightarrow> (dimension, dimension_verdict) dict \<Rightarrow> (dimension, dimension_verdict) dict" where
  "enforce_slots p slots verdicts =
     (let target = pf_slots_dimension p in
      if slots = [] then verdicts
      else case dict_get verdicts target of
        None \<Rightarrow> verdicts
      | Some v \<Rightarrow> if dv_severity v = SEV_OFF then verdicts else dict_set target (degrade_slots slots v) verdicts)"

definition status_ok :: "dimension_verdict \<Rightarrow> bool" where
  "status_ok v \<longleftrightarrow> dv_status v = SATISFIED \<or> dv_status v = NOT_APPLICABLE"

definition close_dimension :: "(string, resolver) dict \<Rightarrow> disposition option \<Rightarrow> dimension_verdict \<Rightarrow> bool \<times> string option" where
  "close_dimension reg disp v = (if status_ok v then (True, None)
     else case disp of
       None \<Rightarrow> (False, None)
     | Some d \<Rightarrow>
         if validate_disposition reg d \<noteq> [] then (False, Some (str_join ''; '' (validate_disposition reg d)))
         else if dp_kind d = RESOLVED then (False, Some ''marked resolved but dimension is not structurally satisfied'')
         else (True, None))"

record dim_tally =
  ta_counts :: "(dim_status, nat) dict"
  ta_errors :: nat
  ta_warnings :: nat
  ta_closed :: nat
  ta_extra :: "(dimension, (string, val) dict) dict"

definition start_tally :: dim_tally where
  "start_tally = \<lparr>ta_counts = [(SATISFIED, 0), (PARTIAL, 0), (MISSING, 0), (NOT_APPLICABLE, 0)], ta_errors = 0, ta_warnings = 0,
     ta_closed = 0, ta_extra = []\<rparr>"

definition count_dim_status :: "dim_status \<Rightarrow> dim_tally \<Rightarrow> dim_tally" where
  "count_dim_status s t = t\<lparr>ta_counts := dict_set s (Suc (dict_get_or (ta_counts t) s 0)) (ta_counts t)\<rparr>"

definition tally_design :: "dimension_verdict \<Rightarrow> dim_tally \<Rightarrow> dim_tally" where
  "tally_design v t =
     (if status_ok v then t
      else if dv_severity v = SEV_ERROR then
        (if dv_status v = MISSING then t\<lparr>ta_errors := Suc (ta_errors t)\<rparr> else t\<lparr>ta_warnings := Suc (ta_warnings t)\<rparr>)
      else if dv_severity v = SEV_WARN then t\<lparr>ta_warnings := Suc (ta_warnings t)\<rparr> else t)"

definition tally_seal :: "(string, resolver) dict \<Rightarrow> (dimension, disposition) dict \<Rightarrow> dimension \<Rightarrow> dimension_verdict \<Rightarrow> dim_tally \<Rightarrow> dim_tally" where
  "tally_seal reg disps d v t = (case close_dimension reg (dict_get disps d) v of (shut, reason) \<Rightarrow>
     (let t1 = t\<lparr>ta_closed := (if shut \<and> \<not> status_ok v then Suc (ta_closed t) else ta_closed t),
            ta_extra := dict_set d [(''disposition'', case dict_get disps d of None \<Rightarrow> VNone | Some x \<Rightarrow> disposition_doc x),
              (''closed'', VBool shut), (''closure_reason'', opt_doc reason)] (ta_extra t)\<rparr> in
      if status_ok v then t1
      else if dv_severity v = SEV_ERROR \<and> \<not> shut then t1\<lparr>ta_errors := Suc (ta_errors t1)\<rparr>
      else if dv_severity v = SEV_WARN then t1\<lparr>ta_warnings := Suc (ta_warnings t1)\<rparr> else t1))"

definition tally_dimension ::
  "judge_mode \<Rightarrow> (string, resolver) dict \<Rightarrow> (dimension, disposition) dict \<Rightarrow> dimension \<times> dimension_verdict \<Rightarrow> dim_tally \<Rightarrow> dim_tally" where
  "tally_dimension m reg disps dv t = (case dv of (d, v) \<Rightarrow>
     (let t1 = count_dim_status (dv_status v) t in if m = SEAL then tally_seal reg disps d v t1 else tally_design v t1))"

text \<open>The report goes through canonical JSON, which orders its keys.\<close>

fun sort_keys :: "val \<Rightarrow> val" where
  "sort_keys (VDict d) = VDict (sort_key fst (map (\<lambda>(k, v). (k, sort_keys v)) d))"
| "sort_keys (VList xs) = VList (map sort_keys xs)"
| "sort_keys v = v"

record completeness_outcome =
  co_exit_code :: nat
  co_report :: val

definition completeness_report ::
  "(val \<Rightarrow> string) \<Rightarrow> judge_mode \<Rightarrow> profile \<Rightarrow> (string, val) dict \<Rightarrow> (dimension, disposition) dict \<Rightarrow> (dimension, dimension_verdict) dict \<Rightarrow> string list \<Rightarrow> dim_tally \<Rightarrow> val" where
  "completeness_report rep m p body disps verdicts slots t =
     (let num = (\<lambda>s. VInt (int (dict_get_or (ta_counts t) s 0)));
          summary = [(''total'', VInt (int (length all_dimensions))), (''satisfied'', num SATISFIED), (''partial'', num PARTIAL),
            (''missing'', num MISSING), (''not_applicable'', num NOT_APPLICABLE), (''errors'', VInt (int (ta_errors t))),
            (''warnings'', VInt (int (ta_warnings t)))] in
      VDict ([(''profile'', VStr (pf_profile_id p)), (''mode'', VStr (mode_value m)),
        (''intent_id'', VStr (py_str rep (dict_get_or body ''intent_id'' (VStr [])))),
        (''dimensions'', VDict (map (\<lambda>(d, v). (dim_value d, VDict (verdict_doc v @ (if m = SEAL then dict_get_or (ta_extra t) d [] else [])))) verdicts)),
        (''missing_dimensions'', VList (map VStr (sort (map (\<lambda>(d, _). dim_value d) (filter (\<lambda>(_, v). dv_status v = MISSING) verdicts))))),
        (''missing_required_slots'', VList (map VStr slots)),
        (''summary'', VDict (summary @ (if m = SEAL then [(''closed_by_disposition'', VInt (int (ta_closed t)))] else [])))] @
        (if m = SEAL then
           [(''sealed'', VBool (ta_errors t = 0)),
            (''closure'', VDict (concat (map (\<lambda>d. case dict_get disps d of None \<Rightarrow> [] | Some x \<Rightarrow> [(dim_value d, VStr (kind_value (dp_kind x)))]) all_dimensions)))]
         else [])))"

definition compute_5w1h_completeness ::
  "(val \<Rightarrow> string) \<Rightarrow> (string, resolver) dict \<Rightarrow> judge_mode \<Rightarrow> profile \<Rightarrow> (string, val) dict \<Rightarrow> (string, val) dict option \<Rightarrow>
    (string, val) dict option \<Rightarrow> (string, string) dict \<Rightarrow> (dimension, disposition) dict \<Rightarrow> completeness_outcome result" where
  "compute_5w1h_completeness rep reg m p body plan network categories disps =
     bind_result (raw_status rep body plan network categories) (\<lambda>raw.
     bind_result (missing_required_slots body p) (\<lambda>slots.
       let verdicts = enforce_slots p slots (map (\<lambda>(d, f). (d, judge_dimension rep m p body d f)) raw);
           t = fold (tally_dimension m reg disps) verdicts start_tally
       in Inr \<lparr>co_exit_code = (if ta_errors t = 0 then 0 else 1),
            co_report = sort_keys (completeness_report rep m p body disps verdicts slots t)\<rparr>))"

section \<open>What the judgement means\<close>

text \<open>The evidence a dimension asks for, and what is left of it in the exploring mode.\<close>

definition has_slot :: "(string, val) dict \<Rightarrow> (string \<Rightarrow> bool) \<Rightarrow> bool" where
  "has_slot body P \<longleftrightarrow> returns (slot_keys body) (\<lambda>ks. \<exists>k\<in>set ks. P k)"

definition evidenced ::
  "(val \<Rightarrow> string) \<Rightarrow> (string, val) dict \<Rightarrow> (string, val) dict option \<Rightarrow> (string, val) dict option \<Rightarrow> (string, string) dict \<Rightarrow> dimension \<Rightarrow> bool" where
  "evidenced rep body plan network categories d = (case d of
       WHO \<Rightarrow> nonempty (get_or body ''actors'' (VList []))
     | WHY \<Rightarrow> nonempty (get_val body ''context'') \<and> nonempty (get_val body ''goal'')
     | WHAT \<Rightarrow> nonempty (get_val body ''goal'') \<and>
         (nonempty (get_or body ''inputs'' (VList [])) \<or> nonempty (get_or body ''outputs'' (VList [])))
     | WHEN \<Rightarrow> (\<exists>p. plan = Some p \<and> returns (iter_val (get_or p ''rules'' (VList []))) (\<lambda>rs. \<exists>r\<in>set rs. trigger_rule r \<noteq> None)) \<or>
         returns (iter_val (get_or body ''property_pattern_refs'' (VList [])))
           (\<lambda>rs. \<exists>r\<in>set rs. dict_get categories (py_str rep r) = Some ''liveness'') \<or>
         has_slot body (starts_with ''when_'')
     | WHERE \<Rightarrow> (\<exists>n. network = Some n \<and> nonempty (get_val n ''network_id'')) \<or> has_slot body (\<lambda>k. k = ''domain'' \<or> starts_with ''where_'' k)
     | HOW \<Rightarrow> nonempty (get_or body ''property_pattern_refs'' (VList [])))"

definition dim_touched ::
  "(val \<Rightarrow> string) \<Rightarrow> (string, val) dict \<Rightarrow> (string, val) dict option \<Rightarrow> (string, val) dict option \<Rightarrow> (string, string) dict \<Rightarrow> dimension \<Rightarrow> bool" where
  "dim_touched rep body plan network categories d = (case d of
       WHY \<Rightarrow> nonempty (get_val body ''context'') \<or> nonempty (get_val body ''goal'')
     | WHAT \<Rightarrow> nonempty (get_val body ''goal'')
     | _ \<Rightarrow> evidenced rep body plan network categories d)"

definition slots_filled :: "profile \<Rightarrow> (string, val) dict \<Rightarrow> bool" where
  "slots_filled p body \<longleftrightarrow> (\<forall>s\<in>set (pf_required_slots p). has_slot body (\<lambda>k. k = s))"

definition accountable :: "(string, resolver) dict \<Rightarrow> disposition \<Rightarrow> bool" where
  "accountable reg x = (case dp_kind x of
       RESOLVED \<Rightarrow> False
     | WAIVED \<Rightarrow> given (dp_rationale x) \<and> given (dp_signer x)
     | DYNAMIC \<Rightarrow> is_registered_resolver reg (dp_resolver_ref x))"

lemma map_filter_Nil: "List.map_filter f xs = [] \<longleftrightarrow> (\<forall>x\<in>set xs. f x = None)"
  by (induction xs) (auto simp: List.map_filter_simps split: option.splits)

lemma eval_when_status:
  assumes "eval_when rep body plan categories = Inr (s, e, r)"
  shows "s = (if evidenced rep body plan network categories WHEN then SATISFIED else MISSING)"
proof -
  obtain rules where rules: "(case plan of None \<Rightarrow> Inr [] | Some p \<Rightarrow> iter_val (get_or p ''rules'' (VList []))) = Inr rules"
    using assms by (auto simp: eval_when_def result_simps)
  let ?plan = "\<exists>p. plan = Some p \<and> returns (iter_val (get_or p ''rules'' (VList []))) (\<lambda>rs. \<exists>r\<in>set rs. trigger_rule r \<noteq> None)"
  have plan: "?plan \<longleftrightarrow> List.map_filter trigger_rule rules \<noteq> []"
    using rules by (cases plan) (auto simp: returns_def map_filter_Nil)
  show ?thesis
  proof (cases "List.map_filter trigger_rule rules")
    case (Cons x xs)
    then show ?thesis using assms rules plan by (simp add: eval_when_def evidenced_def)
  next
    case Nil
    obtain refs where refs: "iter_val (get_or body ''property_pattern_refs'' (VList [])) = Inr refs"
      using assms rules Nil by (auto simp: eval_when_def result_simps)
    let ?refs = "filter (\<lambda>r. dict_get categories (py_str rep r) = Some ''liveness'') refs"
    have live: "returns (iter_val (get_or body ''property_pattern_refs'' (VList []))) (\<lambda>rs. \<exists>r\<in>set rs. dict_get categories (py_str rep r) = Some ''liveness'')
        \<longleftrightarrow> ?refs \<noteq> []" using refs by (simp add: returns_def filter_empty_conv)
    show ?thesis
    proof (cases ?refs)
      case (Cons x xs)
      then show ?thesis using assms rules Nil refs live by (simp add: eval_when_def evidenced_def)
    next
      case refs_Nil: Nil
      obtain ks where ks: "slot_keys body = Inr ks" using assms rules Nil refs refs_Nil by (auto simp: eval_when_def result_simps)
      have "has_slot body (starts_with ''when_'') \<longleftrightarrow> filter (starts_with ''when_'') ks \<noteq> []"
        using ks by (simp add: has_slot_def returns_def filter_empty_conv)
      then show ?thesis using assms rules Nil refs refs_Nil ks live plan
        by (cases "filter (starts_with ''when_'') ks") (simp_all add: eval_when_def evidenced_def)
    qed
  qed
qed

lemma eval_where_status:
  assumes "eval_where rep body network = Inr (s, e, r)"
  shows "s = (if evidenced rep body plan network categories WHERE then SATISFIED else MISSING)"
proof (cases "\<exists>n. network = Some n \<and> nonempty (get_val n ''network_id'')")
  case True
  then show ?thesis using assms by (auto simp: eval_where_def evidenced_def)
next
  case False
  then have nid: "\<not> nonempty (case network of None \<Rightarrow> VNone | Some n \<Rightarrow> get_val n ''network_id'')"
    by (cases network) (auto simp: nonempty_def)
  then obtain ks where ks: "slot_keys body = Inr ks" using assms by (auto simp: eval_where_def Let_def result_simps)
  have "has_slot body (\<lambda>k. k = ''domain'' \<or> starts_with ''where_'' k) \<longleftrightarrow> filter (\<lambda>k. k = ''domain'' \<or> starts_with ''where_'' k) ks \<noteq> []"
    using ks by (simp add: has_slot_def returns_def filter_empty_conv)
  then show ?thesis using assms nid False ks
    by (cases "filter (\<lambda>k. k = ''domain'' \<or> starts_with ''where_'' k) ks") (auto simp: eval_where_def evidenced_def)
qed

lemma raw_status_statuses:
  assumes "raw_status rep body plan network categories = Inr raw"
  shows "map fst raw = all_dimensions"
    "\<And>d s e r. (d, s, e, r) \<in> set raw \<Longrightarrow> s \<noteq> NOT_APPLICABLE \<and> (s = SATISFIED \<longleftrightarrow> evidenced rep body plan network categories d) \<and>
      (s = MISSING \<longleftrightarrow> \<not> dim_touched rep body plan network categories d)"
proof -
  obtain who what whn whr how where ev: "eval_who body = Inr who" "eval_what body = Inr what" "eval_when rep body plan categories = Inr whn"
    "eval_where rep body network = Inr whr" "eval_how body = Inr how"
    and raw: "raw = [(WHO, who), (WHY, eval_why body), (WHAT, what), (WHEN, whn), (WHERE, whr), (HOW, how)]"
    using assms by (auto simp: raw_status_def result_simps)
  show "map fst raw = all_dimensions" by (simp add: raw all_dimensions_def)
  let ?P = "\<lambda>d f. fst f \<noteq> NOT_APPLICABLE \<and> (fst f = SATISFIED \<longleftrightarrow> evidenced rep body plan network categories d) \<and>
      (fst f = MISSING \<longleftrightarrow> \<not> dim_touched rep body plan network categories d)"
  have "?P WHO who" using ev(1) by (auto simp: eval_who_def evidenced_def dim_touched_def Let_def result_simps split: if_splits)
  moreover have "?P WHY (eval_why body)" by (auto simp: eval_why_def evidenced_def dim_touched_def Let_def)
  moreover have "?P WHAT what" using ev(2) by (auto simp: eval_what_def evidenced_def dim_touched_def Let_def result_simps split: if_splits)
  moreover have "?P WHEN whn" using eval_when_status[of rep body plan categories "fst whn" "fst (snd whn)" "snd (snd whn)" network] ev(3)
    by (simp add: dim_touched_def)
  moreover have "?P WHERE whr" using eval_where_status[of rep body network "fst whr" "fst (snd whr)" "snd (snd whr)" plan categories] ev(4)
    by (simp add: dim_touched_def)
  moreover have "?P HOW how" using ev(5) by (auto simp: eval_how_def evidenced_def dim_touched_def Let_def result_simps split: if_splits)
  ultimately have all: "\<forall>x\<in>set raw. case x of (d, f) \<Rightarrow> ?P d f" unfolding raw by (simp only: list.set ball_simps prod.case simp_thms)
  show "s \<noteq> NOT_APPLICABLE \<and> (s = SATISFIED \<longleftrightarrow> evidenced rep body plan network categories d) \<and>
      (s = MISSING \<longleftrightarrow> \<not> dim_touched rep body plan network categories d)" if mem: "(d, s, e, r) \<in> set raw" for d s e r
    using bspec[OF all mem] by simp
qed

text \<open>What blocks: the counters of the loop count exactly these dimensions.\<close>

definition dim_blocks :: "judge_mode \<Rightarrow> (string, resolver) dict \<Rightarrow> (dimension, disposition) dict \<Rightarrow> dimension \<times> dimension_verdict \<Rightarrow> bool" where
  "dim_blocks m reg disps dv \<longleftrightarrow> dv_severity (snd dv) = SEV_ERROR \<and>
     (if m = SEAL then \<not> fst (close_dimension reg (dict_get disps (fst dv)) (snd dv)) else dv_status (snd dv) = MISSING)"

lemma tally_one: "ta_errors (tally_dimension m reg disps dv t) = ta_errors t + (if dim_blocks m reg disps dv then 1 else 0)"
  by (cases dv) (auto simp: tally_dimension_def tally_seal_def tally_design_def count_dim_status_def dim_blocks_def close_dimension_def status_ok_def Let_def
      split: prod.splits)

lemma tally_errors: "ta_errors (fold (tally_dimension m reg disps) vs t) = ta_errors t + length (filter (dim_blocks m reg disps) vs)"
  by (induction vs arbitrary: t) (simp_all add: tally_one)

definition verdict_of :: "(val \<Rightarrow> string) \<Rightarrow> judge_mode \<Rightarrow> profile \<Rightarrow> (string, val) dict \<Rightarrow> string list \<Rightarrow> dimension \<Rightarrow> finding \<Rightarrow> dimension_verdict" where
  "verdict_of rep m p body slots d f =
     (let v = judge_dimension rep m p body d f in
      if slots \<noteq> [] \<and> d = pf_slots_dimension p \<and> dv_severity v \<noteq> SEV_OFF then degrade_slots slots v else v)"

lemma dict_set_map:
  "distinct (map fst al) \<Longrightarrow> dict_get al k = Some v \<Longrightarrow> dict_set k w al = map (\<lambda>(k', v'). (k', if k' = k then w else v')) al"
proof (induction al)
  case (Cons a al)
  show ?case
  proof (cases "fst a = k")
    case True
    have "map (\<lambda>(k', v'). (k', if k' = k then w else v')) al = al" using Cons.prems(1) True by (intro map_idI) (auto simp: image_iff)
    then show ?thesis using True by (cases a) simp
  next
    case False
    then show ?thesis using Cons by (cases a) simp
  qed
qed simp

lemma enforce_slots_map:
  assumes "distinct (map fst raw)" "pf_slots_dimension p \<in> set (map fst raw)"
  shows "enforce_slots p slots (map (\<lambda>(d, f). (d, judge_dimension rep m p body d f)) raw) =
    map (\<lambda>(d, f). (d, verdict_of rep m p body slots d f)) raw"
proof -
  let ?vs = "map (\<lambda>(d, f). (d, judge_dimension rep m p body d f)) raw" and ?t = "pf_slots_dimension p"
  have dist: "distinct (map fst ?vs)" using assms(1) by (simp add: split_beta o_def)
  obtain f where f: "(?t, f) \<in> set raw" using assms(2) by auto
  then have get: "dict_get ?vs ?t = Some (judge_dimension rep m p body ?t f)" using dist by (intro map_of_is_SomeI) force+
  have same: "g = f" if "(?t, g) \<in> set raw" for g using f that assms(1) by (metis eq_key_imp_eq_value)
  show ?thesis
  proof (cases "slots \<noteq> [] \<and> dv_severity (judge_dimension rep m p body ?t f) \<noteq> SEV_OFF")
    case True
    then have "enforce_slots p slots ?vs = map (\<lambda>(k', v'). (k', if k' = ?t then degrade_slots slots (judge_dimension rep m p body ?t f) else v')) ?vs"
      using get dict_set_map[OF dist get] by (simp add: enforce_slots_def Let_def)
    then show ?thesis using True same by (auto simp: verdict_of_def Let_def)
  next
    case False
    then have "enforce_slots p slots ?vs = ?vs" using get by (auto simp: enforce_slots_def Let_def)
    then show ?thesis using False same by (auto simp: verdict_of_def Let_def)
  qed
qed

lemma missing_slots_none:
  assumes "missing_required_slots body p = Inr slots"
  shows "slots = [] \<longleftrightarrow> slots_filled p body"
  using assms by (auto simp: missing_required_slots_def slots_filled_def has_slot_def returns_def filter_empty_conv result_simps split: if_splits)

lemma closed_iff: "fst (close_dimension reg disp v) \<longleftrightarrow> status_ok v \<or> (\<exists>x. disp = Some x \<and> accountable reg x)"
  by (auto simp: close_dimension_def accountable_def validate_disposition_def is_registered_resolver_def given_def
      split: option.splits disposition_kind.splits)

lemma judge_severity [simp]: "dv_severity (judge_dimension rep m p body d f) = pf_severity p d"
  by (simp add: judge_dimension_def Let_def split: prod.splits)

lemma degrade_fields [simp]: "dv_severity (degrade_slots slots v) = dv_severity v"
  "dv_status (degrade_slots slots v) = (if dv_status v = SATISFIED then PARTIAL else dv_status v)"
  by (simp_all add: degrade_slots_def Let_def)

lemma verdict_severity: "dv_severity (verdict_of rep m p body slots d f) = pf_severity p d"
  by (auto simp: verdict_of_def Let_def)

lemma judge_status:
  "pf_severity p d \<noteq> SEV_OFF \<Longrightarrow> dv_status (judge_dimension rep m p body d (s, e, r)) =
     (if m = DESIGN \<and> s = MISSING \<and> scan_prose rep body d p \<noteq> None then PARTIAL else s)"
  by (simp add: judge_dimension_def Let_def)

lemma verdict_blocks:
  assumes raw: "raw_status rep body plan network categories = Inr raw" and slots: "missing_required_slots body p = Inr slots"
    and mem: "(d, f) \<in> set raw"
  shows "dim_blocks m reg disps (d, verdict_of rep m p body slots d f) \<longleftrightarrow> pf_severity p d = SEV_ERROR \<and>
    (if m = SEAL
     then \<not> (evidenced rep body plan network categories d \<and> (d = pf_slots_dimension p \<longrightarrow> slots_filled p body)) \<and>
       \<not> (\<exists>x. dict_get disps d = Some x \<and> accountable reg x)
     else \<not> dim_touched rep body plan network categories d \<and> scan_prose rep body d p = None)"
proof -
  obtain s e r where f: "f = (s, e, r)" by (cases f)
  note st = raw_status_statuses(2)[OF raw mem[unfolded f]]
  note filled = missing_slots_none[OF slots]
  show ?thesis
  proof (cases "pf_severity p d = SEV_ERROR")
    case True
    then have v: "dv_severity (verdict_of rep m p body slots d f) = SEV_ERROR"
      by (simp add: verdict_severity)
    have status: "dv_status (verdict_of rep m p body slots d f) =
        (let s1 = (if m = DESIGN \<and> s = MISSING \<and> scan_prose rep body d p \<noteq> None then PARTIAL else s) in
         if slots \<noteq> [] \<and> d = pf_slots_dimension p \<and> s1 = SATISFIED then PARTIAL else s1)"
    proof -
      have "dv_status (judge_dimension rep m p body d f) =
          (if m = DESIGN \<and> s = MISSING \<and> scan_prose rep body d p \<noteq> None then PARTIAL else s)" using True by (simp add: f judge_status)
      moreover have "dv_status (verdict_of rep m p body slots d f) =
          (if slots \<noteq> [] \<and> d = pf_slots_dimension p \<and> dv_status (judge_dimension rep m p body d f) = SATISFIED then PARTIAL
           else dv_status (judge_dimension rep m p body d f))" unfolding verdict_of_def Let_def using True by auto
      ultimately show ?thesis by (simp only: Let_def)
    qed
    show ?thesis
    proof (cases m)
      case DESIGN
      then show ?thesis using True v status st by (auto simp: dim_blocks_def Let_def)
    next
      case SEAL
      then have "status_ok (verdict_of rep m p body slots d f) \<longleftrightarrow> s = SATISFIED \<and> (d = pf_slots_dimension p \<longrightarrow> slots = [])"
        using status st by (auto simp: status_ok_def Let_def)
      then show ?thesis using True v SEAL st filled by (simp add: dim_blocks_def closed_iff)
    qed
  qed (simp add: dim_blocks_def verdict_severity)
qed

lemma exit_code_zero:
  fixes rep reg m p body plan network categories disps
  defines "open_dim d \<equiv> pf_severity p d = SEV_ERROR \<and>
    (if m = SEAL
     then \<not> (evidenced rep body plan network categories d \<and> (d = pf_slots_dimension p \<longrightarrow> slots_filled p body)) \<and>
       \<not> (\<exists>x. dict_get disps d = Some x \<and> accountable reg x)
     else \<not> dim_touched rep body plan network categories d \<and> scan_prose rep body d p = None)"
  assumes "compute_5w1h_completeness rep reg m p body plan network categories disps = Inr out"
  shows "co_exit_code out = 0 \<longleftrightarrow> (\<forall>d. \<not> open_dim d)"
proof -
  obtain raw slots where raw: "raw_status rep body plan network categories = Inr raw" and slots: "missing_required_slots body p = Inr slots"
    and out: "co_exit_code out = (if ta_errors (fold (tally_dimension m reg disps)
      (enforce_slots p slots (map (\<lambda>(d, f). (d, judge_dimension rep m p body d f)) raw)) start_tally) = 0 then 0 else 1)"
    using assms(2) by (auto simp: compute_5w1h_completeness_def result_simps Let_def)
  note keys = raw_status_statuses(1)[OF raw]
  have dims: "distinct (map fst raw)" "d \<in> set (map fst raw)" for d unfolding keys
    by (simp_all add: all_dimensions_def) (cases d; simp)
  have "co_exit_code out = 0 \<longleftrightarrow> (\<forall>x\<in>set raw. \<not> dim_blocks m reg disps (fst x, verdict_of rep m p body slots (fst x) (snd x)))"
    unfolding out enforce_slots_map[OF dims] by (auto simp: tally_errors start_tally_def filter_empty_conv split_beta)
  also have "\<dots> \<longleftrightarrow> (\<forall>x\<in>set raw. \<not> open_dim (fst x))"
    using verdict_blocks[OF raw slots] unfolding open_dim_def by (intro ball_cong) (simp_all only: prod.collapse)
  also have "\<dots> \<longleftrightarrow> (\<forall>d\<in>set (map fst raw). \<not> open_dim d)" by simp
  finally show ?thesis using dims(2) by blast
qed

text \<open>
  C14. Sealing is exact: the judgement in the sealing mode lets an intent pass if and only if every
  dimension that the profile marks as an error has its evidence in the documents, with all required
  slots filled if it is the dimension they count for, or is closed by a disposition that is waived
  with a rationale and a signer or bound to a registered resolver; a claim that it is resolved never
  closes it.  In the exploring mode it passes if and only if every such dimension is touched by the
  documents or by a keyword in the prose.
\<close>

theorem completeness_exact:
  assumes "compute_5w1h_completeness rep reg m p body plan network categories disps = Inr out"
  shows "(m = SEAL \<longrightarrow> (co_exit_code out = 0 \<longleftrightarrow> (\<forall>d. pf_severity p d = SEV_ERROR \<longrightarrow>
      evidenced rep body plan network categories d \<and> (d = pf_slots_dimension p \<longrightarrow> slots_filled p body) \<or>
      (\<exists>x. dict_get disps d = Some x \<and> accountable reg x)))) \<and>
    (m = DESIGN \<longrightarrow> (co_exit_code out = 0 \<longleftrightarrow> (\<forall>d. pf_severity p d = SEV_ERROR \<longrightarrow>
      dim_touched rep body plan network categories d \<or> scan_prose rep body d p \<noteq> None)))"
  using exit_code_zero[OF assms] by auto

definition demo_intent :: "(string, val) dict" where
  "demo_intent = [(''intent_id'', VStr ''i''), (''goal'', VStr ''count''), (''context'', VStr ''c''), (''actors'', VList [VStr ''a'']),
     (''inputs'', VList [VStr ''x'']), (''slot_fills'', VDict [(''p'', VDict [(''domain'', VStr ''d'')])])]"

definition demo_waiver :: disposition where
  "demo_waiver = \<lparr>dp_kind = WAIVED, dp_rationale = Some ''later'', dp_signer = Some ''ann'', dp_registry_ref = None,
     dp_resolver_ref = None, dp_schema = None\<rparr>"

definition demo_outcome :: completeness_outcome where
  "demo_outcome = projr (compute_5w1h_completeness (\<lambda>_. []) initial_resolvers SEAL base_profile demo_intent None None [] [(HOW, demo_waiver)])"

lemma demo_sealed:
  "compute_5w1h_completeness (\<lambda>_. []) initial_resolvers SEAL base_profile demo_intent None None [] [(HOW, demo_waiver)] = Inr demo_outcome"
  "co_exit_code demo_outcome = 0"
  unfolding demo_outcome_def by code_simp+

theorem completeness_exact_witness:
  "co_exit_code demo_outcome = 0 \<and> evidenced (\<lambda>_. []) demo_intent None None [] WHO \<and> accountable initial_resolvers demo_waiver"
proof -
  have sev: "pf_severity base_profile WHO = SEV_ERROR" "pf_severity base_profile HOW = SEV_ERROR" by code_simp+
  have "\<not> evidenced (\<lambda>_. []) demo_intent None None [] HOW"
    by (simp add: evidenced_def demo_intent_def get_or_def nonempty_def)
  then show ?thesis
    using completeness_exact[OF demo_sealed(1)] demo_sealed(2) sev by (auto dest: spec[of _ WHO] spec[of _ HOW])
qed

section \<open>Chains of profiles\<close>

text \<open>
  When every profile has its own name as id, loading returns: a chain that comes back is reported
  as a cycle.
\<close>

lemma load_profile_returns:
  assumes "\<And>nm raw. dict_get docs nm = Some (VDict raw) \<Longrightarrow> profile_name rep nm raw = nm"
    and "distinct seen" "set seen \<subseteq> set (dict_keys docs)" "name \<notin> set seen" "n + length seen = Suc (length docs)"
  shows "\<exists>r. load_profile rep docs seen n name = Some r"
  using assms(2-)
proof (induction n arbitrary: seen name)
  case 0
  have "length seen \<le> card (set (dict_keys docs))" using card_mono[OF _ 0(2)] distinct_card[OF 0(1)] by simp
  also have "\<dots> \<le> length docs" using card_length[of "dict_keys docs"] by simp
  finally have "length seen \<le> length docs" .
  then show ?case using 0 by simp
next
  case (Suc n)
  show ?case
  proof (cases "\<exists>raw. dict_get docs name = Some (VDict raw)")
    case True
    then obtain raw where raw: "dict_get docs name = Some (VDict raw)" by blast
    have pid: "profile_name rep name raw = name" by (rule assms(1)[OF raw])
    have key: "name \<in> set (dict_keys docs)" using raw by (metis domI dom_map_of_conv_image_fst list.set_map)
    let ?ext = "py_str rep (get_val raw ''extends'')"
    show ?thesis
    proof (cases "truthy (get_val raw ''extends'') \<and> \<not> (?ext = name \<or> ?ext \<in> set seen)")
      case ext: True
      then obtain r where "load_profile rep docs (name # seen) n ?ext = Some r"
        using Suc.IH[of "name # seen" ?ext] Suc.prems key by auto
      then show ?thesis using raw pid ext by (simp add: Let_def)
    qed (use raw pid in \<open>auto simp: Let_def\<close>)
  qed (auto split: option.splits val.splits)
qed

text \<open>A profile whose id differs from its name can extend itself: the chain is never cut.\<close>

lemma profile_alias_loops:
  "''a'' \<notin> set seen \<Longrightarrow> load_profile rep [(''a'', VDict [(''profile_id'', VStr ''x''), (''extends'', VStr ''a'')])] seen n ''a'' = None"
  by (induction n arbitrary: seen) (simp_all add: profile_name_def get_or_def get_val_def dict_get_or_def Let_def)

text \<open>Required slots that count for a dimension the profile switches off are never asked for.\<close>

lemma slots_of_off_dimension:
  assumes "compute_5w1h_completeness rep reg SEAL p body plan network categories disps = Inr out" "pf_severity p (pf_slots_dimension p) = SEV_OFF"
    and "\<And>d. pf_severity p d = SEV_ERROR \<Longrightarrow> evidenced rep body plan network categories d"
  shows "co_exit_code out = 0"
  using exit_code_zero[OF assms(1)] assms(2,3) by auto

end
