(* ===== verification/Intent_Session.thy ===== *)
theory Intent_Session
  imports Intent_Completeness
begin

text \<open>
  Design sessions of intents (\<^verbatim>\<open>tm/intent/session.py\<close>, \<^verbatim>\<open>design_loop.py\<close>, \<^verbatim>\<open>consistency_gate.py\<close>, and the hash of
  \<^verbatim>\<open>tm/artifacts/hash.py\<close> and \<^verbatim>\<open>normalize.py\<close>): the steps of the design loop with their gates, the journal as
  a hash chain, clarifications, and the seal.  The parameter \<open>H\<close> is the SHA-256 digest of the JSON text
  of a normalized value.  An ellipsis character in a message is written as three dots.
\<close>

section \<open>Hashes of artifacts\<close>

fun crlf_to_lf :: "string \<Rightarrow> string" where
  "crlf_to_lf (c # d # cs) = (if c = CHR 0x0D \<and> d = CHR 0x0A then d # crlf_to_lf cs else c # crlf_to_lf (d # cs))"
| "crlf_to_lf cs = cs"

definition normalize_string :: "string \<Rightarrow> string" where
  "normalize_string s = str_strip (map (\<lambda>c. if c = CHR 0x0D then CHR 0x0A else c) (crlf_to_lf s))"

fun normalize_value :: "val \<Rightarrow> val" where
  "normalize_value (VStr s) = VStr (normalize_string s)"
| "normalize_value (VDict d) = VDict (sort_key fst (map (\<lambda>(k, v). (k, normalize_value v)) d))"
| "normalize_value (VList xs) = VList (map normalize_value xs)"
| "normalize_value v = v"

definition body_hash :: "(val \<Rightarrow> string) \<Rightarrow> val \<Rightarrow> string" where
  "body_hash H v = H (normalize_value v)"

section \<open>The design loop\<close>

datatype design_step = DRAFT | CHECK_5W1H | PROPOSE | REFINE | VERIFY | ACCEPT | SEALED

definition step_value :: "design_step \<Rightarrow> string" where
  "step_value s = (case s of DRAFT \<Rightarrow> ''draft'' | CHECK_5W1H \<Rightarrow> ''check_5w1h'' | PROPOSE \<Rightarrow> ''propose'' | REFINE \<Rightarrow> ''refine''
     | VERIFY \<Rightarrow> ''verify'' | ACCEPT \<Rightarrow> ''accept'' | SEALED \<Rightarrow> ''sealed'')"

definition design_step_order :: "design_step list" where
  "design_step_order = [DRAFT, CHECK_5W1H, PROPOSE, REFINE, VERIFY, ACCEPT, SEALED]"

datatype turn_action = ACT_PROPOSE | ACT_REFINE | ACT_CHECK | ACT_VERIFY | ACT_ACCEPT | ACT_CLARIFY | ACT_NOTE

definition action_value :: "turn_action \<Rightarrow> string" where
  "action_value a = (case a of ACT_PROPOSE \<Rightarrow> ''propose'' | ACT_REFINE \<Rightarrow> ''refine'' | ACT_CHECK \<Rightarrow> ''check_5w1h''
     | ACT_VERIFY \<Rightarrow> ''verify'' | ACT_ACCEPT \<Rightarrow> ''accept'' | ACT_CLARIFY \<Rightarrow> ''clarify'' | ACT_NOTE \<Rightarrow> ''note'')"

definition working_status :: string where
  "working_status = ''working''"

definition sealed_status :: string where
  "sealed_status = ''sealed''"

record step_gate =
  sg_step :: design_step
  sg_requirement :: string
  sg_rationale :: string

definition entry_gates :: "step_gate list" where
  "entry_gates = [
     \<lparr>sg_step = VERIFY, sg_requirement = ''completeness_no_error'',
       sg_rationale = ''5W1H check (7-0) has no error-severity gaps before formal verification''\<rparr>,
     \<lparr>sg_step = ACCEPT, sg_requirement = ''verify_passed'', sg_rationale = ''formal verification verdict (7-V) holds before human accept''\<rparr>,
     \<lparr>sg_step = SEALED, sg_requirement = ''human_signoff_and_all_dims_closed'',
       sg_rationale = ''human sign_off + every required dim resolved/waived/dynamic (5w1h '' @ [CHR 0xA7] @ ''3b)''\<rparr>]"

definition human_only_steps :: "design_step list" where
  "human_only_steps = [ACCEPT, SEALED]"

definition entry_gate_for :: "design_step \<Rightarrow> step_gate option" where
  "entry_gate_for s = find (\<lambda>g. sg_step g = s) entry_gates"

section \<open>The consistency gate\<close>

record gate_check =
  gk_name :: string
  gk_passed :: bool
  gk_detail :: string

record soft_warning =
  sw_kind :: string
  sw_message :: string
  sw_ref :: "string option"

record gate_report =
  gr_passed :: bool
  gr_hard_checks :: "gate_check list"
  gr_soft_warnings :: "soft_warning list"
  gr_boundary_profile :: "string option"
  gr_blocking_reasons :: "string list"

definition completeness_check :: "(val \<Rightarrow> string) \<Rightarrow> (string, val) dict option \<Rightarrow> string option \<Rightarrow> gate_check result" where
  "completeness_check rep report prof = (case report of
       None \<Rightarrow> Inr \<lparr>gk_name = ''completeness'', gk_passed = False, gk_detail = ''no 5W1H completeness report provided''\<rparr>
     | Some r \<Rightarrow>
         (let rel = (if given prof then prof else if r = [] then None else Some (py_str rep (get_val r ''profile'')));
              rel_txt = (if given rel then '' relative to profile '' @ quoted (the rel) else []) in
          bind_result (case dict_get_or r ''summary'' (VDict []) of VDict sm \<Rightarrow> int_of (dict_get_or sm ''errors'' (VInt 0)) | _ \<Rightarrow> Inr 0) (\<lambda>errors.
            if errors = 0
            then Inr \<lparr>gk_name = ''completeness'', gk_passed = True, gk_detail = ''5W1H complete (0 errors)'' @ rel_txt\<rparr>
            else Inr \<lparr>gk_name = ''completeness'', gk_passed = False,
              gk_detail = ''5W1H incomplete: '' @ str_int errors @ '' error dimension(s)'' @ rel_txt\<rparr>)))"

definition no_contradiction_check :: "bool option \<Rightarrow> bool \<Rightarrow> gate_check" where
  "no_contradiction_check verify_passed require_verify =
     (let mk = (\<lambda>ok text. \<lparr>gk_name = ''no_contradiction'', gk_passed = ok, gk_detail = text\<rparr>) in
      case verify_passed of
        Some True \<Rightarrow> mk True ''CTL verification passed (no contradiction relative to declared properties)''
      | Some False \<Rightarrow> mk False ''CTL verification failed: contradiction relative to declared properties''
      | None \<Rightarrow> if require_verify then mk False ''CTL verification required but not run''
          else mk True ''CTL verification deferred; no contradiction asserted (not yet checked)'')"

definition no_exact_duplicate_check :: "string option \<Rightarrow> string list \<Rightarrow> gate_check" where
  "no_exact_duplicate_check hash existing =
     (let mk = (\<lambda>ok text. \<lparr>gk_name = ''no_exact_duplicate'', gk_passed = ok, gk_detail = text\<rparr>) in
      if \<not> given hash then mk True ''no body_hash provided; exact-duplicate check skipped''
      else if the hash \<in> set existing
      then mk False (''exact duplicate of an existing artifact (body_hash '' @ take 12 (the hash) @ ''...)'')
      else mk True (''no exact duplicate (body_hash '' @ take 12 (the hash) @ ''...)''))"

definition evaluate_consistency ::
  "(val \<Rightarrow> string) \<Rightarrow> (string, val) dict option \<Rightarrow> string option \<Rightarrow> bool option \<Rightarrow> bool \<Rightarrow> string option \<Rightarrow> string list \<Rightarrow> soft_warning list \<Rightarrow> gate_report result" where
  "evaluate_consistency rep report prof verify_passed require_verify hash existing soft =
     bind_result (completeness_check rep report prof) (\<lambda>c.
       let hard = [c, no_contradiction_check verify_passed require_verify, no_exact_duplicate_check hash existing];
           blocking = map gk_name (filter (\<lambda>k. \<not> gk_passed k) hard) in
       Inr \<lparr>gr_passed = (blocking = []), gr_hard_checks = hard, gr_soft_warnings = soft,
         gr_boundary_profile = (if given prof then prof
           else case report of None \<Rightarrow> None | Some r \<Rightarrow> if r = [] then None else Some (py_str rep (get_val r ''profile''))),
         gr_blocking_reasons = blocking\<rparr>)"

definition gate_doc :: "gate_report \<Rightarrow> val" where
  "gate_doc g = VDict [(''passed'', VBool (gr_passed g)),
     (''hard_checks'', VList (map (\<lambda>c. VDict [(''name'', VStr (gk_name c)), (''passed'', VBool (gk_passed c)), (''detail'', VStr (gk_detail c))]) (gr_hard_checks g))),
     (''soft_warnings'', VList (map (\<lambda>w. VDict [(''kind'', VStr (sw_kind w)), (''message'', VStr (sw_message w)), (''ref'', opt_doc (sw_ref w))]) (gr_soft_warnings g))),
     (''boundary'', VDict [(''completeness_relative_to_profile'', opt_doc (gr_boundary_profile g)),
       (''contradiction_relative_to'', VStr ''declared CTL properties''),
       (''note'', VStr ''Completeness is relative to the named profile and contradiction is relative to the declared properties; this is NOT a claim of absolute completeness or absolute consistency.'')]),
     (''blocking_reasons'', VList (map VStr (gr_blocking_reasons g)))]"

section \<open>Sessions\<close>

record session_turn =
  tu_seq :: int
  tu_role :: string
  tu_action :: string
  tu_input_ref :: "string option"
  tu_output_ref :: "string option"
  tu_provider :: "string option"
  tu_hash :: "string option"

record session_sign_off =
  so_signer :: string
  so_scope :: "string list"
  so_snapshot :: "(string, val) dict"
  so_dispositions :: "(string, val) dict"
  so_gate_hash :: "string option"
  so_signed_at :: "string option"
  so_sign_hash :: "string option"

record intent_session =
  is_session_id :: string
  is_root_intent_ref :: string
  is_status :: string
  is_current_step :: string
  is_turns :: "session_turn list"
  is_completeness :: "(string, val) dict option"
  is_produced_refs :: "string list"
  is_sign_off :: "session_sign_off option"
  is_metadata :: "(string, val) dict"

text \<open>Refusals of the state machine carry the requirement that failed; other exceptions pass through.\<close>

datatype session_error =
    SessionTransitionError string "string option"
  | OtherError exn

type_synonym 'a attempt = "session_error + 'a"

record gate_facts =
  gf_completeness_no_error :: bool
  gf_verify_passed :: bool
  gf_signoff_and_dims :: bool

definition satisfies :: "gate_facts \<Rightarrow> step_gate \<Rightarrow> bool" where
  "satisfies f g =
     (if sg_requirement g = ''completeness_no_error'' then gf_completeness_no_error f
      else if sg_requirement g = ''verify_passed'' then gf_verify_passed f
      else if sg_requirement g = ''human_signoff_and_all_dims_closed'' then gf_signoff_and_dims f else False)"

definition step_entry_action :: "design_step \<Rightarrow> turn_action" where
  "step_entry_action s = (case s of CHECK_5W1H \<Rightarrow> ACT_CHECK | PROPOSE \<Rightarrow> ACT_PROPOSE | REFINE \<Rightarrow> ACT_REFINE | VERIFY \<Rightarrow> ACT_VERIFY
     | ACCEPT \<Rightarrow> ACT_ACCEPT | _ \<Rightarrow> ACT_NOTE)"

definition new_session :: "string \<Rightarrow> string \<Rightarrow> intent_session" where
  "new_session sid root_ref = \<lparr>is_session_id = sid, is_root_intent_ref = root_ref, is_status = working_status, is_current_step = step_value DRAFT,
     is_turns = [], is_completeness = None, is_produced_refs = [], is_sign_off = None, is_metadata = []\<rparr>"

definition current_step :: "intent_session \<Rightarrow> design_step attempt" where
  "current_step s = (case find (\<lambda>st. step_value st = is_current_step s) design_step_order of
       Some st \<Rightarrow> Inr st
     | None \<Rightarrow> Inl (OtherError (ValueError (quoted (is_current_step s) @ '' is not a valid DesignStep''))))"

definition step_index :: "design_step \<Rightarrow> nat" where
  "step_index s = the (first_index (\<lambda>x. x = s) design_step_order)"

definition following_step :: "design_step \<Rightarrow> design_step option" where
  "following_step s = (let i = step_index s + 1 in if i \<ge> length design_step_order then None else Some (design_step_order ! i))"

definition next_seq :: "session_turn list \<Rightarrow> int" where
  "next_seq ts = (if ts = [] then 0 else Max (set (map tu_seq ts)) + 1)"

definition turn_payload :: "int \<Rightarrow> string \<Rightarrow> string \<Rightarrow> string option \<Rightarrow> string option \<Rightarrow> string option \<Rightarrow> string \<Rightarrow> val" where
  "turn_payload seq role action input_ref output_ref provider prev =
     VDict [(''seq'', VInt seq), (''role'', VStr role), (''action'', VStr action), (''input_ref'', opt_doc input_ref),
       (''output_ref'', opt_doc output_ref), (''provider'', opt_doc provider), (''prev_hash'', VStr prev)]"

definition turn_content_hash :: "(val \<Rightarrow> string) \<Rightarrow> session_turn \<Rightarrow> string \<Rightarrow> string" where
  "turn_content_hash H t prev =
     body_hash H (turn_payload (tu_seq t) (tu_role t) (tu_action t) (tu_input_ref t) (tu_output_ref t) (tu_provider t) prev)"

definition last_hash :: "session_turn list \<Rightarrow> string" where
  "last_hash ts = (if ts = [] then [] else case tu_hash (last ts) of None \<Rightarrow> [] | Some h \<Rightarrow> h)"

definition append_turn ::
  "(val \<Rightarrow> string) \<Rightarrow> intent_session \<Rightarrow> string \<Rightarrow> turn_action \<Rightarrow> string option \<Rightarrow> string option \<Rightarrow> string option \<Rightarrow> session_turn list" where
  "append_turn H s role action input_ref output_ref provider =
     (let seq = next_seq (is_turns s) in
      is_turns s @ [\<lparr>tu_seq = seq, tu_role = role, tu_action = action_value action, tu_input_ref = input_ref, tu_output_ref = output_ref,
        tu_provider = provider,
        tu_hash = Some (body_hash H (turn_payload seq role (action_value action) input_ref output_ref provider (last_hash (is_turns s))))\<rparr>])"

text \<open>What \<^verbatim>\<open>verify_journal\<close> says of a turn; the expected and the found hash are cut to twelve characters.\<close>

datatype journal_issue =
    Missing_hash nat int
  | Hash_mismatch nat int string string

fun verify_turns :: "(val \<Rightarrow> string) \<Rightarrow> nat \<Rightarrow> string \<Rightarrow> session_turn list \<Rightarrow> journal_issue list" where
  "verify_turns H idx prev [] = []"
| "verify_turns H idx prev (t # ts) =
     (let expected = turn_content_hash H t prev in
      case tu_hash t of
        None \<Rightarrow> Missing_hash idx (tu_seq t) # verify_turns H (Suc idx) expected ts
      | Some h \<Rightarrow> (if h \<noteq> expected then [Hash_mismatch idx (tu_seq t) (take 12 expected) (take 12 h)] else []) @ verify_turns H (Suc idx) h ts)"

definition verify_journal :: "(val \<Rightarrow> string) \<Rightarrow> intent_session \<Rightarrow> journal_issue list" where
  "verify_journal H s = verify_turns H 0 [] (is_turns s)"

section \<open>Transitions\<close>

definition require_role :: "string \<Rightarrow> unit attempt" where
  "require_role role =
     (if role \<in> set [''human'', ''agent''] then Inr ()
      else Inl (SessionTransitionError (''role must be one of ['' @ quoted ''agent'' @ '', '' @ quoted ''human'' @ ''], got '' @ quoted role) None))"

definition require_working :: "intent_session \<Rightarrow> unit attempt" where
  "require_working s =
     (if is_status s = working_status then Inr ()
      else Inl (SessionTransitionError ''session is sealed and read-only; transitions are not allowed'' None))"

definition attempt :: "'a attempt \<Rightarrow> ('a \<Rightarrow> 'b attempt) \<Rightarrow> 'b attempt" where
  "attempt m f = (case m of Inl e \<Rightarrow> Inl e | Inr x \<Rightarrow> f x)"

definition lift_error :: "'a result \<Rightarrow> 'a attempt" where
  "lift_error m = (case m of Inl e \<Rightarrow> Inl (OtherError e) | Inr x \<Rightarrow> Inr x)"

definition check_entry :: "gate_facts \<Rightarrow> string \<Rightarrow> design_step \<Rightarrow> unit attempt" where
  "check_entry facts role target =
     (if target \<in> set human_only_steps \<and> role \<noteq> ''human'' then
        Inl (SessionTransitionError (''step '' @ quoted (step_value target) @
          '' is human-only and must be triggered by a human (invariant 5), got role='' @ quoted role) None)
      else case entry_gate_for target of
        None \<Rightarrow> Inr ()
      | Some g \<Rightarrow> if satisfies facts g then Inr ()
          else Inl (SessionTransitionError (''cannot advance to '' @ quoted (step_value target) @ '': entry gate '' @
            quoted (sg_requirement g) @ '' not satisfied ('' @ sg_rationale g @ '')'') (Some (sg_requirement g))))"

definition enter_step ::
  "(val \<Rightarrow> string) \<Rightarrow> intent_session \<Rightarrow> design_step \<Rightarrow> string \<Rightarrow> session_sign_off option \<Rightarrow> string option \<Rightarrow> intent_session" where
  "enter_step H s target role sign_off remark =
     s\<lparr>is_current_step := step_value target,
       is_status := (if target = SEALED then sealed_status else is_status s),
       is_sign_off := (if target = SEALED \<and> sign_off \<noteq> None then sign_off else is_sign_off s),
       is_turns := append_turn H s role (step_entry_action target) None remark None\<rparr>"

definition advance ::
  "(val \<Rightarrow> string) \<Rightarrow> intent_session \<Rightarrow> gate_facts \<Rightarrow> string \<Rightarrow> session_sign_off option \<Rightarrow> string option \<Rightarrow> intent_session attempt" where
  "advance H s facts role sign_off remark =
     attempt (require_role role) (\<lambda>_. attempt (require_working s) (\<lambda>_. attempt (current_step s) (\<lambda>current.
       case following_step current of
         None \<Rightarrow> Inl (SessionTransitionError (''already at terminal step '' @ quoted (step_value current) @ ''; cannot advance'') None)
       | Some target \<Rightarrow> attempt (check_entry facts role target) (\<lambda>_.
           if target = SEALED \<and> sign_off = None \<and> is_sign_off s = None then
             Inl (SessionTransitionError ''sealing requires a human 'sign_off'; the tool does not seal on its own'' (Some ''human_signoff_and_all_dims_closed''))
           else Inr (enter_step H s target role sign_off remark)))))"

definition revert :: "(val \<Rightarrow> string) \<Rightarrow> intent_session \<Rightarrow> design_step \<Rightarrow> string \<Rightarrow> string \<Rightarrow> intent_session attempt" where
  "revert H s to_step role reason =
     attempt (require_role role) (\<lambda>_. attempt (require_working s) (\<lambda>_.
       if str_strip reason = [] then Inl (SessionTransitionError ''revert requires a non-empty 'reason' (recorded in the journal)'' None)
       else attempt (current_step s) (\<lambda>current.
         if step_index to_step \<ge> step_index current then
           Inl (SessionTransitionError (''revert target '' @ quoted (step_value to_step) @ '' must be strictly earlier than current '' @ quoted (step_value current)) None)
         else Inr (s\<lparr>is_current_step := step_value to_step,
           is_turns := append_turn H s role ACT_NOTE None (Some (''revert: '' @ reason)) None\<rparr>))))"

section \<open>Clarifications\<close>

definition clarify_dispositions :: "string list" where
  "clarify_dispositions = [''confirmed_distinct'', ''merge'', ''supplement'', ''amend_constraint'']"

definition disposition_requires_reason :: "string \<Rightarrow> bool" where
  "disposition_requires_reason d \<longleftrightarrow> d = ''confirmed_distinct''"

definition clarifications :: "intent_session \<Rightarrow> val list" where
  "clarifications s = (case get_val (is_metadata s) ''clarifications'' of VList xs \<Rightarrow> xs | _ \<Rightarrow> [])"

definition or_none :: "string \<Rightarrow> val" where
  "or_none s = (if s = [] then VNone else VStr s)"

definition without_hash :: "(string, val) dict \<Rightarrow> (string, val) dict" where
  "without_hash d = filter (\<lambda>(k, _). k \<noteq> ''record_hash'') d"

definition clarify ::
  "(val \<Rightarrow> string) \<Rightarrow> intent_session \<Rightarrow> string \<Rightarrow> string \<Rightarrow> (string, val) dict option \<Rightarrow> string option \<Rightarrow> string \<Rightarrow> string \<Rightarrow> intent_session attempt" where
  "clarify H s disp role question warning_ref reason resolution =
     attempt (require_role role) (\<lambda>_. attempt (require_working s) (\<lambda>_.
       if disp \<notin> set clarify_dispositions then
         Inl (SessionTransitionError (''unknown clarify disposition '' @ quoted disp @ ''; one of ['' @
           str_join '', '' (map quoted (sort clarify_dispositions)) @ '']'') None)
       else if disposition_requires_reason disp \<and> str_strip reason = [] then
         Inl (SessionTransitionError (''clarify disposition '' @ quoted disp @ '' requires a recorded reason (accountability)'') None)
       else
         (let clars = clarifications s;
              clar_id = ''clar.'' @ str_nat (length clars);
              core = [(''clar_id'', VStr clar_id), (''turn_seq'', VInt (next_seq (is_turns s))), (''warning_ref'', opt_doc warning_ref),
                (''question'', case question of None \<Rightarrow> VNone | Some q \<Rightarrow> VDict q), (''disposition'', VStr disp),
                (''reason'', or_none reason), (''resolution'', or_none resolution)];
              entry = core @ [(''record_hash'', VStr (body_hash H (VDict (without_hash core))))]
          in Inr (s\<lparr>is_metadata := dict_set ''clarifications'' (VList (clars @ [VDict entry])) (is_metadata s),
               is_turns := append_turn H s role ACT_CLARIFY warning_ref (Some clar_id) None\<rparr>))))"

datatype clarification_issue =
    Record_hash_mismatch nat val
  | Not_linked nat val

definition check_clarification :: "(val \<Rightarrow> string) \<Rightarrow> val list \<Rightarrow> nat \<times> val \<Rightarrow> clarification_issue list result" where
  "check_clarification H refs x = (case x of (idx, v) \<Rightarrow>
     bind_result (mapping_of v) (\<lambda>d.
       let cid = get_val d ''clar_id'' in
       Inr ((if get_val d ''record_hash'' \<noteq> VStr (body_hash H (VDict (without_hash d))) then [Record_hash_mismatch idx cid] else []) @
         (if cid \<notin> set refs then [Not_linked idx cid] else []))))"

definition verify_clarifications :: "(val \<Rightarrow> string) \<Rightarrow> intent_session \<Rightarrow> clarification_issue list result" where
  "verify_clarifications H s =
     (let refs = map (\<lambda>t. opt_doc (tu_output_ref t)) (filter (\<lambda>t. tu_action t = action_value ACT_CLARIFY) (is_turns s)) in
      bind_result (map_result (check_clarification H refs) (enumerate 0 (clarifications s))) (\<lambda>iss. Inr (concat iss)))"

section \<open>Completeness and the seal\<close>

definition report_of :: "completeness_outcome \<Rightarrow> (string, val) dict" where
  "report_of out = (case co_report out of VDict d \<Rightarrow> d | _ \<Rightarrow> [])"

record intent_docs =
  in_intent :: "(string, val) dict"
  in_plan :: "(string, val) dict option"
  in_network :: "(string, val) dict option"
  in_categories :: "(string, string) dict"

definition judge_intent ::
  "(val \<Rightarrow> string) \<Rightarrow> (string, resolver) dict \<Rightarrow> judge_mode \<Rightarrow> profile \<Rightarrow> intent_docs \<Rightarrow> (dimension, disposition) dict \<Rightarrow> completeness_outcome result" where
  "judge_intent rep reg m p docs disps =
     compute_5w1h_completeness rep reg m p (in_intent docs) (in_plan docs) (in_network docs) (in_categories docs) disps"

definition embed_completeness ::
  "(val \<Rightarrow> string) \<Rightarrow> (string, resolver) dict \<Rightarrow> intent_session \<Rightarrow> profile \<Rightarrow> intent_docs \<Rightarrow> intent_session attempt" where
  "embed_completeness rep reg s p docs =
     attempt (require_working s) (\<lambda>_. attempt (lift_error (judge_intent rep reg DESIGN p docs [])) (\<lambda>out.
       Inr (s\<lparr>is_completeness := Some (report_of out)\<rparr>)))"

definition completeness_no_error :: "intent_session \<Rightarrow> bool" where
  "completeness_no_error s = (case is_completeness s of
       None \<Rightarrow> False
     | Some r \<Rightarrow> (case get_val r ''summary'' of
          VDict sm \<Rightarrow> (case get_val sm ''errors'' of VInt i \<Rightarrow> i = 0 | VBool b \<Rightarrow> \<not> b | _ \<Rightarrow> False)
        | _ \<Rightarrow> False))"

definition gate_facts_for :: "intent_session \<Rightarrow> bool \<Rightarrow> bool \<Rightarrow> gate_facts" where
  "gate_facts_for s verify_passed closure =
     \<lparr>gf_completeness_no_error = completeness_no_error s, gf_verify_passed = verify_passed, gf_signoff_and_dims = closure\<rparr>"

definition consistency_report_for ::
  "(val \<Rightarrow> string) \<Rightarrow> intent_session \<Rightarrow> bool option \<Rightarrow> bool \<Rightarrow> string option \<Rightarrow> string list \<Rightarrow> soft_warning list \<Rightarrow> gate_report result" where
  "consistency_report_for rep s verify_passed require_verify hash existing soft =
     evaluate_consistency rep (is_completeness s)
       (case is_completeness s of None \<Rightarrow> None | Some r \<Rightarrow> if r = [] then None else Some (py_str rep (get_val r ''profile'')))
       verify_passed require_verify hash existing soft"

record seal_request =
  sq_signer :: string
  sq_profile :: profile
  sq_docs :: intent_docs
  sq_dispositions :: "(dimension, disposition) dict"
  sq_verify_passed :: bool
  sq_scope :: "string list option"
  sq_candidate_hash :: "string option"
  sq_existing_hashes :: "string list"
  sq_signed_at :: "string option"

definition make_sign_off :: "(val \<Rightarrow> string) \<Rightarrow> intent_session \<Rightarrow> seal_request \<Rightarrow> (string, val) dict \<Rightarrow> gate_report \<Rightarrow> session_sign_off" where
  "make_sign_off H s q report gate =
     (let disps = map (\<lambda>(d, x). (dim_value d, disposition_doc x)) (filter (\<lambda>(_, x). dp_kind x = WAIVED \<or> dp_kind x = DYNAMIC) (sq_dispositions q));
          scope = (case sq_scope q of Some sc \<Rightarrow> sc | None \<Rightarrow> is_produced_refs s);
          gate_hash = body_hash H (gate_doc gate);
          core = VDict [(''signer'', VStr (sq_signer q)), (''scope'', VList (map VStr scope)), (''completeness_snapshot'', VDict report),
            (''dispositions'', VDict disps), (''gate_report_hash'', VStr gate_hash), (''signed_at'', opt_doc (sq_signed_at q))]
      in \<lparr>so_signer = sq_signer q, so_scope = scope, so_snapshot = report, so_dispositions = disps, so_gate_hash = Some gate_hash,
          so_signed_at = sq_signed_at q, so_sign_hash = Some (body_hash H core)\<rparr>)"

definition finish_seal :: "(val \<Rightarrow> string) \<Rightarrow> intent_session \<Rightarrow> seal_request \<Rightarrow> (string, val) dict \<Rightarrow> gate_report \<Rightarrow> intent_session attempt" where
  "finish_seal H s q report gate =
     (let dims_closed = (get_val report ''sealed'' = VBool True) in
      if \<not> (dims_closed \<and> gr_passed gate) then
        Inl (SessionTransitionError (''cannot seal: closure invariant not met ('' @ str_join '', ''
          (gr_blocking_reasons gate @ (if \<not> dims_closed \<and> ''completeness'' \<notin> set (gr_blocking_reasons gate) then [''uncertainty_closure''] else [])) @ '')'')
          (Some ''human_signoff_and_all_dims_closed''))
      else advance H s \<lparr>gf_completeness_no_error = completeness_no_error s, gf_verify_passed = sq_verify_passed q, gf_signoff_and_dims = True\<rparr>
        ''human'' (Some (make_sign_off H s q report gate)) None)"

definition seal ::
  "(val \<Rightarrow> string) \<Rightarrow> (val \<Rightarrow> string) \<Rightarrow> (string, resolver) dict \<Rightarrow> intent_session \<Rightarrow> seal_request \<Rightarrow> intent_session attempt" where
  "seal H rep reg s q =
     attempt (require_working s) (\<lambda>_.
     if str_strip (sq_signer q) = [] then
       Inl (SessionTransitionError ''seal requires a human 'signer'; the tool does not seal on its own'' (Some ''human_signoff_and_all_dims_closed''))
     else attempt (current_step s) (\<lambda>current.
     if following_step current \<noteq> Some SEALED then
       Inl (SessionTransitionError (''seal requires current step '' @ quoted (step_value ACCEPT) @ '', got '' @ quoted (step_value current)) None)
     else attempt (lift_error (judge_intent rep reg SEAL (sq_profile q) (sq_docs q) (sq_dispositions q))) (\<lambda>out.
       attempt (lift_error (evaluate_consistency rep (Some (report_of out)) (Some (py_str rep (get_val (report_of out) ''profile'')))
         (Some (sq_verify_passed q)) True (sq_candidate_hash q) (sq_existing_hashes q) [])) (finish_seal H s q (report_of out)))))"

section \<open>The journal as a chain\<close>

fun chained :: "(val \<Rightarrow> string) \<Rightarrow> string \<Rightarrow> session_turn list \<Rightarrow> bool" where
  "chained H prev [] = True"
| "chained H prev (t # ts) = (tu_hash t = Some (turn_content_hash H t prev) \<and> chained H (turn_content_hash H t prev) ts)"

lemma verify_turns_chained: "verify_turns H i prev ts = [] \<longleftrightarrow> chained H prev ts"
proof (induction H i prev ts rule: verify_turns.induct)
  case (2 H idx prev t ts)
  then show ?case by (cases "tu_hash t") (auto simp: Let_def)
qed simp

lemma chained_snoc:
  "chained H [] (ts @ [t]) \<longleftrightarrow> chained H [] ts \<and> tu_hash t = Some (turn_content_hash H t (last_hash ts))"
proof -
  have "chained H p (ts @ [t]) \<longleftrightarrow> chained H p ts \<and> tu_hash t = Some (turn_content_hash H t (if ts = [] then p else last_hash ts))" for p
    by (induction ts arbitrary: p) (auto simp: last_hash_def)
  then show ?thesis by (auto simp: last_hash_def)
qed

definition numbered :: "session_turn list \<Rightarrow> bool" where
  "numbered ts \<longleftrightarrow> map tu_seq ts = map int [0..<length ts]"

lemma numbered_next: "numbered ts \<Longrightarrow> next_seq ts = int (length ts)"
proof -
  assume n: "numbered ts"
  show ?thesis
  proof (cases ts rule: rev_cases)
    case (snoc us u)
    have "set (map tu_seq ts) = int ` {0..<length ts}" using n unfolding numbered_def by (metis atLeastLessThan_upt image_set)
    moreover have "Max (int ` {0..<length ts}) = int (length ts - 1)"
      by (rule Max_eqI) (use snoc in \<open>auto intro!: image_eqI[of _ _ "length ts - 1"]\<close>)
    ultimately show ?thesis using snoc by (simp add: next_seq_def)
  qed (simp add: next_seq_def)
qed

lemma append_turn_shape:
  assumes "numbered (is_turns s)"
  shows "\<exists>t. append_turn H s role a i out pr = is_turns s @ [t] \<and> tu_role t = role \<and> tu_action t = action_value a \<and> tu_output_ref t = out \<and>
    tu_seq t = int (length (is_turns s)) \<and> tu_hash t = Some (turn_content_hash H t (last_hash (is_turns s)))"
  using numbered_next[OF assms] by (simp add: append_turn_def Let_def turn_content_hash_def)

section \<open>What sessions reach\<close>

inductive intent_step :: "(val \<Rightarrow> string) \<Rightarrow> (val \<Rightarrow> string) \<Rightarrow> (string, resolver) dict \<Rightarrow> intent_session \<Rightarrow> intent_session \<Rightarrow> bool" for H rep reg where
  advance_step: "advance H s facts role sign_off remark = Inr s' \<Longrightarrow> intent_step H rep reg s s'"
| revert_step: "revert H s to_step role reason = Inr s' \<Longrightarrow> intent_step H rep reg s s'"
| clarify_step: "clarify H s disp role question warning_ref reason resolution = Inr s' \<Longrightarrow> intent_step H rep reg s s'"
| embed_step: "embed_completeness rep reg s p docs = Inr s' \<Longrightarrow> intent_step H rep reg s s'"
| seal_step: "seal H rep reg s q = Inr s' \<Longrightarrow> intent_step H rep reg s s'"

lemma attempt_Inr_iff [result_simps]: "attempt m f = Inr y \<longleftrightarrow> (\<exists>x. m = Inr x \<and> f x = Inr y)"
  by (cases m) (auto simp: attempt_def)

lemma require_Inr [result_simps]:
  "require_working s = Inr u \<longleftrightarrow> is_status s = working_status" "require_role r = Inr u \<longleftrightarrow> r = ''human'' \<or> r = ''agent''"
  by (auto simp: require_working_def require_role_def)

lemma lift_error_Inr [result_simps]: "lift_error m = Inr x \<longleftrightarrow> m = Inr x"
  by (cases m) (auto simp: lift_error_def)

lemma step_value_inj [simp]: "step_value a = step_value b \<longleftrightarrow> a = b"
  by (cases a; cases b) (simp_all add: step_value_def)

lemma current_step_Inr [result_simps]: "current_step s = Inr st \<longleftrightarrow> is_current_step s = step_value st"
proof -
  have "find (\<lambda>x. step_value x = step_value st) design_step_order = Some st" by (cases st) (simp_all add: design_step_order_def)
  then have "find (\<lambda>x. step_value x = is_current_step s) design_step_order = Some st \<longleftrightarrow> is_current_step s = step_value st"
    by (auto simp: find_Some_iff)
  then show ?thesis by (auto simp: current_step_def split: option.splits)
qed

lemma following_step_eqs [simp]:
  "following_step DRAFT = Some CHECK_5W1H" "following_step CHECK_5W1H = Some PROPOSE" "following_step PROPOSE = Some REFINE"
  "following_step REFINE = Some VERIFY" "following_step VERIFY = Some ACCEPT" "following_step ACCEPT = Some SEALED" "following_step SEALED = None"
  by (simp_all add: following_step_def step_index_def design_step_order_def)

lemma check_entry_Inr [result_simps]:
  "check_entry facts role target = Inr u \<longleftrightarrow> (target = ACCEPT \<or> target = SEALED \<longrightarrow> role = ''human'') \<and>
     (target = VERIFY \<longrightarrow> gf_completeness_no_error facts) \<and> (target = ACCEPT \<longrightarrow> gf_verify_passed facts) \<and>
     (target = SEALED \<longrightarrow> gf_signoff_and_dims facts)"
  by (cases target) (auto simp: check_entry_def human_only_steps_def entry_gate_for_def entry_gates_def satisfies_def)

lemma advance_Inr:
  "advance H s facts role sign_off remark = Inr s' \<longleftrightarrow> (role = ''human'' \<or> role = ''agent'') \<and> is_status s = working_status \<and>
     (\<exists>current target. is_current_step s = step_value current \<and> following_step current = Some target \<and>
        check_entry facts role target = Inr () \<and> (target = SEALED \<longrightarrow> sign_off \<noteq> None \<or> is_sign_off s \<noteq> None) \<and>
        s' = enter_step H s target role sign_off remark)"
proof -
  have seq: "attempt m (\<lambda>_. k) = Inr s' \<longleftrightarrow> m = Inr () \<and> k = Inr s'" for m :: "unit attempt" and k
    by (cases m) (auto simp: attempt_def)
  have opt: "(case x of None \<Rightarrow> Inl e | Some target \<Rightarrow> f target) = Inr s' \<longleftrightarrow> (\<exists>target. x = Some target \<and> f target = Inr s')"
    for x :: "design_step option" and e :: session_error and f by (cases x) auto
  have cond: "(if P then Inl e else Inr y) = Inr s' \<longleftrightarrow> \<not> P \<and> s' = y" for P and e :: session_error and y :: intent_session by auto
  have "advance H s facts role sign_off remark = Inr s' \<longleftrightarrow> require_role role = Inr () \<and> require_working s = Inr () \<and>
     (\<exists>current. current_step s = Inr current \<and> (\<exists>target. following_step current = Some target \<and> check_entry facts role target = Inr () \<and>
        \<not> (target = SEALED \<and> sign_off = None \<and> is_sign_off s = None) \<and> s' = enter_step H s target role sign_off remark))"
    by (simp only: advance_def seq attempt_Inr_iff[of "current_step s"] opt cond)
  then show ?thesis unfolding require_Inr current_step_Inr by simp
qed

text \<open>The invariant of sessions.\<close>

definition clarify_refs :: "session_turn list \<Rightarrow> val list" where
  "clarify_refs ts = map (\<lambda>t. opt_doc (tu_output_ref t)) (filter (\<lambda>t. tu_action t = action_value ACT_CLARIFY) ts)"

definition record_ok :: "(val \<Rightarrow> string) \<Rightarrow> val list \<Rightarrow> val \<Rightarrow> bool" where
  "record_ok H refs v \<longleftrightarrow> (\<exists>d. v = VDict d \<and> get_val d ''record_hash'' = VStr (body_hash H (VDict (without_hash d))) \<and> get_val d ''clar_id'' \<in> set refs)"

lemma verify_clarifications_ok: "verify_clarifications H s = Inr [] \<longleftrightarrow> (\<forall>v\<in>set (clarifications s). record_ok H (clarify_refs (is_turns s)) v)"
proof -
  have one: "check_clarification H refs (i, v) = Inr [] \<longleftrightarrow> record_ok H refs v" for refs i v
  proof (cases "\<exists>d. v = VDict d")
    case True
    then show ?thesis by (auto simp: check_clarification_def record_ok_def Let_def split: if_splits)
  next
    case False
    then have "\<exists>e. mapping_of v = Inl e" by (cases v) (auto simp: mapping_of_def)
    then show ?thesis using False by (auto simp: check_clarification_def record_ok_def)
  qed
  have "(\<exists>iss. map_result (check_clarification H refs) (enumerate n vs) = Inr iss \<and> concat iss = []) \<longleftrightarrow> (\<forall>v\<in>set vs. record_ok H refs v)" for refs n vs
  proof (induction vs arbitrary: n)
    case (Cons v vs)
    have "(\<exists>iss. map_result (check_clarification H refs) (enumerate n (v # vs)) = Inr iss \<and> concat iss = []) \<longleftrightarrow>
        check_clarification H refs (n, v) = Inr [] \<and> (\<exists>js. map_result (check_clarification H refs) (enumerate (Suc n) vs) = Inr js \<and> concat js = [])"
      by (cases "check_clarification H refs (n, v)"; cases "map_result (check_clarification H refs) (enumerate (Suc n) vs)") auto
    then show ?case using Cons.IH[of "Suc n"] one by simp
  qed simp
  then have "(\<exists>iss. map_result (check_clarification H (clarify_refs (is_turns s))) (enumerate 0 (clarifications s)) = Inr iss \<and> concat iss = []) \<longleftrightarrow>
      (\<forall>v\<in>set (clarifications s). record_ok H (clarify_refs (is_turns s)) v)" by blast
  moreover have "verify_clarifications H s = Inr [] \<longleftrightarrow>
      (\<exists>iss. map_result (check_clarification H (clarify_refs (is_turns s))) (enumerate 0 (clarifications s)) = Inr iss \<and> concat iss = [])"
    unfolding verify_clarifications_def Let_def clarify_refs_def[symmetric] bind_result_Inr_iff by (simp only: sum.inject)
  ultimately show ?thesis by simp
qed

definition session_ok :: "(val \<Rightarrow> string) \<Rightarrow> intent_session \<Rightarrow> bool" where
  "session_ok H s \<longleftrightarrow> chained H [] (is_turns s) \<and> numbered (is_turns s) \<and>
     (\<forall>v\<in>set (clarifications s). record_ok H (clarify_refs (is_turns s)) v) \<and>
     (\<exists>st. is_current_step s = step_value st \<and> is_status s = (if st = SEALED then sealed_status else working_status) \<and>
        (is_sign_off s \<noteq> None \<longleftrightarrow> st = SEALED)) \<and>
     (\<forall>t\<in>set (is_turns s). tu_action t = action_value ACT_ACCEPT \<longrightarrow> tu_role t = ''human'')"

lemma status_distinct [simp]: "working_status \<noteq> sealed_status" "sealed_status \<noteq> working_status"
  by (simp_all add: working_status_def sealed_status_def)

lemma action_value_inj [simp]: "action_value a = action_value b \<longleftrightarrow> a = b"
  by (cases a; cases b) (simp_all add: action_value_def)

text \<open>A turn is appended and the records grow by those that its reference links.\<close>

lemma session_ok_append:
  assumes ok: "session_ok H s" and st: "is_current_step s' = step_value st" "is_status s' = (if st = SEALED then sealed_status else working_status)"
      "is_sign_off s' \<noteq> None \<longleftrightarrow> st = SEALED"
    and turns: "is_turns s' = append_turn H s role a i out pr" and human: "a = ACT_ACCEPT \<Longrightarrow> role = ''human''"
    and recs: "\<And>v. v \<in> set (clarifications s') \<Longrightarrow> v \<in> set (clarifications s) \<or> record_ok H (clarify_refs (is_turns s')) v"
  shows "session_ok H s'" "\<exists>t. is_turns s' = is_turns s @ [t]"
proof -
  have n: "numbered (is_turns s)" using ok by (simp add: session_ok_def)
  obtain t where t: "is_turns s' = is_turns s @ [t]" "tu_role t = role" "tu_action t = action_value a" "tu_seq t = int (length (is_turns s))"
    "tu_hash t = Some (turn_content_hash H t (last_hash (is_turns s)))"
    using append_turn_shape[OF n, of H role a i out pr] turns by auto
  have "record_ok H (clarify_refs (is_turns s')) v" if "record_ok H (clarify_refs (is_turns s)) v" for v
    using that t(1) by (auto simp: record_ok_def clarify_refs_def)
  then have "\<forall>v\<in>set (clarifications s'). record_ok H (clarify_refs (is_turns s')) v" using recs ok unfolding session_ok_def by blast
  moreover have "chained H [] (is_turns s')" using ok t(1,5) by (simp add: session_ok_def chained_snoc)
  moreover have "numbered (is_turns s')" using n t(1,4) by (simp add: numbered_def)
  moreover have "\<forall>u\<in>set (is_turns s'). tu_action u = action_value ACT_ACCEPT \<longrightarrow> tu_role u = ''human''"
    using ok t(1,2,3) human by (auto simp: session_ok_def)
  ultimately show "session_ok H s'" using st unfolding session_ok_def by blast
  show "\<exists>t. is_turns s' = is_turns s @ [t]" using t(1) by blast
qed

lemma advance_ok:
  assumes "advance H s facts role sign_off remark = Inr s'" "session_ok H s"
  shows "session_ok H s'" "\<exists>t. is_turns s' = is_turns s @ [t]"
proof -
  obtain current target where c: "is_current_step s = step_value current" "following_step current = Some target" "is_status s = working_status"
    "check_entry facts role target = Inr ()" "target = SEALED \<longrightarrow> sign_off \<noteq> None \<or> is_sign_off s \<noteq> None"
    "s' = enter_step H s target role sign_off remark"
    using assms(1) unfolding advance_Inr by blast
  have work: "current \<noteq> SEALED" "is_sign_off s = None" using assms(2) c(1,2,3) by (auto simp: session_ok_def)
  have human: "step_entry_action target = ACT_ACCEPT \<Longrightarrow> role = ''human''" using c(4) by (cases target) (auto simp: step_entry_action_def check_entry_Inr)
  have st: "is_current_step s' = step_value target" "is_status s' = (if target = SEALED then sealed_status else working_status)"
    "is_sign_off s' \<noteq> None \<longleftrightarrow> target = SEALED"
    using c(3,5) work by (auto simp: c(6) enter_step_def)
  have turns: "is_turns s' = append_turn H s role (step_entry_action target) None remark None" by (simp add: c(6) enter_step_def)
  have "clarifications s' = clarifications s" by (simp add: c(6) enter_step_def clarifications_def)
  then have recs: "\<And>v. v \<in> set (clarifications s') \<Longrightarrow> v \<in> set (clarifications s) \<or> record_ok H (clarify_refs (is_turns s')) v" by simp
  show "session_ok H s'" "\<exists>t. is_turns s' = is_turns s @ [t]" using session_ok_append[OF assms(2) st turns] human recs by blast+
qed

lemma revert_ok:
  assumes "revert H s to_step role reason = Inr s'" "session_ok H s"
  shows "session_ok H s'" "\<exists>t. is_turns s' = is_turns s @ [t]"
proof -
  obtain current where c: "is_current_step s = step_value current" "is_status s = working_status" "step_index to_step < step_index current"
    "s' = s\<lparr>is_current_step := step_value to_step, is_turns := append_turn H s role ACT_NOTE None (Some (''revert: '' @ reason)) None\<rparr>"
    using assms(1) by (auto simp: revert_def result_simps split: if_splits)
  have "to_step \<noteq> SEALED" using c(3) by (cases current) (auto simp: step_index_def design_step_order_def)
  then have st: "is_current_step s' = step_value to_step" "is_status s' = (if to_step = SEALED then sealed_status else working_status)"
    "is_sign_off s' \<noteq> None \<longleftrightarrow> to_step = SEALED"
    using assms(2) c by (auto simp: session_ok_def)
  have turns: "is_turns s' = append_turn H s role ACT_NOTE None (Some (''revert: '' @ reason)) None" by (simp add: c(4))
  have "clarifications s' = clarifications s" by (simp add: c(4) clarifications_def)
  then show "session_ok H s'" "\<exists>t. is_turns s' = is_turns s @ [t]" using session_ok_append[OF assms(2) st turns] by auto
qed

lemma clarify_ok:
  assumes cl: "clarify H s disp role question warning_ref reason resolution = Inr s'" and ok: "session_ok H s"
  shows "session_ok H s'" "\<exists>t. is_turns s' = is_turns s @ [t]"
proof -
  define cid where "cid = ''clar.'' @ str_nat (length (clarifications s))"
  define core where "core = [(''clar_id'', VStr cid), (''turn_seq'', VInt (next_seq (is_turns s))), (''warning_ref'', opt_doc warning_ref),
    (''question'', case question of None \<Rightarrow> VNone | Some q \<Rightarrow> VDict q), (''disposition'', VStr disp),
    (''reason'', or_none reason), (''resolution'', or_none resolution)]"
  define entry where "entry = core @ [(''record_hash'', VStr (body_hash H (VDict (without_hash core))))]"
  have w: "is_status s = working_status" and s': "s' = s\<lparr>is_metadata := dict_set ''clarifications'' (VList (clarifications s @ [VDict entry])) (is_metadata s),
      is_turns := append_turn H s role ACT_CLARIFY warning_ref (Some cid) None\<rparr>"
    using cl by (auto simp: clarify_def result_simps Let_def entry_def core_def cid_def split: if_splits)
  obtain st where st0: "is_current_step s = step_value st" "is_status s = (if st = SEALED then sealed_status else working_status)" "is_sign_off s \<noteq> None \<longleftrightarrow> st = SEALED"
    using ok unfolding session_ok_def by blast
  then have st: "is_current_step s' = step_value st" "is_status s' = (if st = SEALED then sealed_status else working_status)" "is_sign_off s' \<noteq> None \<longleftrightarrow> st = SEALED"
    by (simp_all add: s')
  have turns: "is_turns s' = append_turn H s role ACT_CLARIFY warning_ref (Some cid) None" by (simp add: s')
  have ref: "VStr cid \<in> set (clarify_refs (is_turns s'))" unfolding turns append_turn_def Let_def clarify_refs_def by (simp add: opt_doc_def)
  have hash: "without_hash entry = without_hash core" by (simp add: entry_def without_hash_def)
  have "get_val entry ''record_hash'' = VStr (body_hash H (VDict (without_hash core)))" "get_val entry ''clar_id'' = VStr cid"
    by (simp_all add: entry_def core_def get_val_def dict_get_or_def)
  then have "record_ok H (clarify_refs (is_turns s')) (VDict entry)" using ref hash by (simp add: record_ok_def)
  moreover have "get_val (is_metadata s') ''clarifications'' = VList (clarifications s @ [VDict entry])"
    by (simp add: s' get_val_def dict_get_or_def dict_get_set)
  then have "clarifications s' = clarifications s @ [VDict entry]" by (simp add: clarifications_def)
  ultimately show "session_ok H s'" "\<exists>t. is_turns s' = is_turns s @ [t]" using session_ok_append[OF ok st turns] by auto
qed

lemma seal_advances:
  assumes "seal H rep reg s q = Inr s'"
  obtains facts so where "advance H s facts ''human'' (Some so) None = Inr s'"
  using assms by (auto simp: seal_def finish_seal_def result_simps Let_def split: if_splits)

lemma session_step_ok:
  assumes "intent_step H rep reg s s'" "session_ok H s"
  shows "session_ok H s' \<and> (\<exists>ts. is_turns s' = is_turns s @ ts) \<and> is_status s = working_status"
  using assms
proof (induction rule: intent_step.induct)
  case (advance_step s facts role sign_off remark s')
  then show ?case using advance_ok[OF advance_step.hyps advance_step.prems] by (auto simp: advance_Inr)
next
  case (revert_step s to_step role reason s')
  then show ?case using revert_ok[OF revert_step.hyps revert_step.prems] by (auto simp: revert_def result_simps)
next
  case (clarify_step s disp role question warning_ref reason resolution s')
  then show ?case using clarify_ok[OF clarify_step.hyps clarify_step.prems] by (auto simp: clarify_def result_simps)
next
  case (embed_step s p docs s')
  then obtain r where "s' = s\<lparr>is_completeness := r\<rparr>" "is_status s = working_status" by (auto simp: embed_completeness_def result_simps)
  then show ?case using embed_step.prems by (auto simp: session_ok_def clarifications_def)
next
  case (seal_step s q s')
  then obtain facts so where adv: "advance H s facts ''human'' (Some so) None = Inr s'" by (elim seal_advances)
  show ?case using advance_ok[OF adv seal_step.prems] adv by (auto simp: advance_Inr)
qed

lemma new_session_ok: "session_ok H (new_session sid r)"
  by (auto simp: session_ok_def new_session_def numbered_def clarifications_def get_val_def dict_get_or_def intro!: exI[of _ DRAFT])

lemma sessions_ok:
  assumes "(intent_step H rep reg)\<^sup>*\<^sup>* s s'" "session_ok H s"
  shows "session_ok H s' \<and> (\<exists>ts. is_turns s' = is_turns s @ ts) \<and> (is_status s = sealed_status \<longrightarrow> s' = s)"
  using assms
proof (induction rule: rtranclp_induct)
  case (step y z)
  have y: "session_ok H y" "\<exists>ts. is_turns y = is_turns s @ ts" "is_status s = sealed_status \<longrightarrow> y = s" using step.IH step.prems by blast+
  have z: "session_ok H z" "\<exists>ts. is_turns z = is_turns y @ ts" "is_status y = working_status"
    using session_step_ok[OF step.hyps(2) y(1)] by blast+
  show ?case using y z by auto
qed simp

text \<open>
  C13. Sessions stay accountable.  In every session that advancing, reverting, clarifying, embedding of
  reports and sealing can reach from a new one, the journal passes its hash check and is numbered from
  zero without gaps, every clarification record is intact and linked to its turn, the session is
  sealed exactly if it is at the last step and exactly if it carries a sign-off, and every entry of
  the accept step was made by a human.  The journal is only ever appended to, and a sealed session
  never changes again.
\<close>

theorem sessions_accountable:
  assumes "(intent_step H rep reg)\<^sup>*\<^sup>* (new_session sid r) s"
  shows "verify_journal H s = [] \<and> map tu_seq (is_turns s) = map int [0..<length (is_turns s)] \<and> verify_clarifications H s = Inr [] \<and>
    (is_status s = sealed_status \<longleftrightarrow> is_current_step s = step_value SEALED) \<and> (is_status s = sealed_status \<longleftrightarrow> is_sign_off s \<noteq> None) \<and>
    (\<forall>t\<in>set (is_turns s). tu_action t = action_value ACT_ACCEPT \<longrightarrow> tu_role t = ''human'') \<and>
    (\<forall>s'. (intent_step H rep reg)\<^sup>*\<^sup>* s s' \<longrightarrow> (\<exists>ts. is_turns s' = is_turns s @ ts) \<and> (is_status s = sealed_status \<longrightarrow> s' = s))"
proof -
  have ok: "session_ok H s" using sessions_ok[OF assms new_session_ok] by simp
  then obtain st where "is_current_step s = step_value st" "is_status s = (if st = SEALED then sealed_status else working_status)"
    "is_sign_off s \<noteq> None \<longleftrightarrow> st = SEALED" unfolding session_ok_def by blast
  then have "(is_status s = sealed_status \<longleftrightarrow> is_current_step s = step_value SEALED) \<and> (is_status s = sealed_status \<longleftrightarrow> is_sign_off s \<noteq> None)"
    by (cases "st = SEALED") auto
  moreover have "verify_journal H s = []" "verify_clarifications H s = Inr []" "map tu_seq (is_turns s) = map int [0..<length (is_turns s)]"
    "\<forall>t\<in>set (is_turns s). tu_action t = action_value ACT_ACCEPT \<longrightarrow> tu_role t = ''human''"
    using ok unfolding session_ok_def numbered_def verify_journal_def verify_turns_chained verify_clarifications_ok by blast+
  ultimately show ?thesis using sessions_ok[OF _ ok] by blast
qed

section \<open>What the head of the journal commits to\<close>

text \<open>A turn up to the normalization of its texts.\<close>

definition plain_turn :: "session_turn \<Rightarrow> int \<times> string \<times> string \<times> string option \<times> string option \<times> string option" where
  "plain_turn t = (tu_seq t, normalize_string (tu_role t), normalize_string (tu_action t), map_option normalize_string (tu_input_ref t),
     map_option normalize_string (tu_output_ref t), map_option normalize_string (tu_provider t))"

definition turn_value :: "session_turn \<Rightarrow> string \<Rightarrow> val" where
  "turn_value t prev = normalize_value (turn_payload (tu_seq t) (tu_role t) (tu_action t) (tu_input_ref t) (tu_output_ref t) (tu_provider t) prev)"

fun turn_values :: "string \<Rightarrow> session_turn list \<Rightarrow> val list" where
  "turn_values prev [] = []"
| "turn_values prev (t # ts) = turn_value t prev # turn_values (case tu_hash t of None \<Rightarrow> [] | Some h \<Rightarrow> h) ts"

lemma turn_values_snoc: "turn_values [] (ts @ [t]) = turn_values [] ts @ [turn_value t (last_hash ts)]"
proof -
  have "turn_values p (ts @ [t]) = turn_values p ts @ [turn_value t (if ts = [] then p else last_hash ts)]" for p
    by (induction ts arbitrary: p) (auto simp: last_hash_def)
  then show ?thesis by (simp add: last_hash_def)
qed

lemma same_keys_sorted:
  assumes "sort_key fst A = sort_key fst B" "map fst A = map fst B" "distinct (map fst A)"
  shows "A = B"
proof -
  have "mset A = mset B" using assms(1) by (metis mset_sort)
  then have "set A = set B" by (metis set_mset_mset)
  then have get: "map_of A = map_of B" using assms(2,3) map_of_inject_set[of A B] by auto
  have "A = map (\<lambda>k. (k, the (map_of A k))) (map fst A)" using assms(3) by (auto simp: map_idI intro!: map_idI[symmetric])
  also have "\<dots> = map (\<lambda>k. (k, the (map_of B k))) (map fst B)" using assms(2) get by simp
  also have "\<dots> = B" using assms(2,3) by (auto intro!: map_idI)
  finally show ?thesis .
qed

lemma normalize_opt: "normalize_value (opt_doc v) = opt_doc (map_option normalize_string v)"
  by (cases v) (simp_all add: opt_doc_def)

lemma opt_doc_inj [simp]: "opt_doc u = opt_doc v \<longleftrightarrow> u = v"
  by (cases u; cases v) (simp_all add: opt_doc_def)

lemma turn_value_inj:
  assumes "turn_value t p = turn_value u q"
  shows "plain_turn t = plain_turn u \<and> normalize_string p = normalize_string q"
proof -
  define kv where "kv t p = [(''seq'', VInt (tu_seq t)), (''role'', VStr (normalize_string (tu_role t))), (''action'', VStr (normalize_string (tu_action t))),
      (''input_ref'', opt_doc (map_option normalize_string (tu_input_ref t))), (''output_ref'', opt_doc (map_option normalize_string (tu_output_ref t))),
      (''provider'', opt_doc (map_option normalize_string (tu_provider t))), (''prev_hash'', VStr (normalize_string p))]" for t :: session_turn and p
  have "turn_value t p = VDict (sort_key fst (kv t p))" for t p by (simp add: turn_value_def turn_payload_def kv_def normalize_opt)
  then have "sort_key fst (kv t p) = sort_key fst (kv u q)" using assms by simp
  then have "kv t p = kv u q" by (rule same_keys_sorted) (simp_all add: kv_def)
  then show ?thesis by (simp add: kv_def plain_turn_def)
qed

lemma last_hash_Nil [simp]: "last_hash [] = []"
  by (simp add: last_hash_def)

lemma content_hash_value: "turn_content_hash H t p = H (turn_value t p)"
  by (simp add: turn_content_hash_def body_hash_def turn_value_def)

lemma last_hash_chained: "chained H [] ts \<Longrightarrow> last_hash ts = [] \<or> (\<exists>v. last_hash ts = H v)"
  by (cases ts rule: rev_cases) (auto simp: chained_snoc last_hash_def content_hash_value)

lemma chains_equal:
  assumes digest: "\<And>v. H v \<noteq> [] \<and> normalize_string (H v) = H v"
    and "chained H [] ts" "chained H [] us" "last_hash ts = last_hash us" "inj_on H (set (turn_values [] ts) \<union> set (turn_values [] us))"
  shows "map plain_turn ts = map plain_turn us"
  using assms(2-)
proof (induction ts arbitrary: us rule: rev_induct)
  case Nil
  have ne: "H v \<noteq> []" for v using digest by blast
  show ?case
  proof (cases us rule: rev_cases)
    case (snoc vs u)
    then have "last_hash us = H (turn_value u (last_hash vs))" using Nil.prems(2) by (simp add: chained_snoc content_hash_value last_hash_def)
    then show ?thesis using Nil.prems(3) ne by (metis last_hash_Nil)
  qed simp
next
  case (snoc t ts)
  have t: "chained H [] ts" "tu_hash t = Some (H (turn_value t (last_hash ts)))" using snoc.prems(1) by (simp_all add: chained_snoc content_hash_value)
  then have lt: "last_hash (ts @ [t]) = H (turn_value t (last_hash ts))" by (simp add: last_hash_def)
  show ?case
  proof (cases us rule: rev_cases)
    case Nil
    then show ?thesis using snoc.prems(3) lt digest by (metis last_hash_Nil)
  next
    case (snoc vs u)
    have u: "chained H [] vs" "tu_hash u = Some (H (turn_value u (last_hash vs)))" using snoc.prems(2) snoc by (simp_all add: chained_snoc content_hash_value)
    then have eqH: "H (turn_value t (last_hash ts)) = H (turn_value u (last_hash vs))" using snoc.prems(3) lt snoc by (simp add: last_hash_def)
    have inj: "inj_on H (set (turn_values [] ts @ [turn_value t (last_hash ts)]) \<union> set (turn_values [] vs @ [turn_value u (last_hash vs)]))"
      using snoc.prems(4) snoc by (simp only: turn_values_snoc)
    have "turn_value t (last_hash ts) = turn_value u (last_hash vs)" by (rule inj_onD[OF inj eqH]) simp_all
    then have eq: "plain_turn t = plain_turn u" "normalize_string (last_hash ts) = normalize_string (last_hash vs)" using turn_value_inj by blast+
    have nil: "normalize_string [] = []" by (simp add: normalize_string_def str_strip_def)
    have "last_hash ts = last_hash vs" using eq(2) last_hash_chained[OF t(1)] last_hash_chained[OF u(1)] digest nil by metis
    moreover have "inj_on H (set (turn_values [] ts) \<union> set (turn_values [] vs))" by (rule inj_on_subset[OF inj]) auto
    ultimately have "map plain_turn ts = map plain_turn vs" using snoc.IH t(1) u(1) by blast
    then show ?thesis using eq(1) snoc by simp
  qed
qed

text \<open>
  C16. The head of the journal commits to the whole journal: when the digest is injective on the turns
  of two journals (and is a text without surrounding spaces, as a hexadecimal digest is), two journals
  that pass the hash check and end in the same hash have the same turns, in the same order and with
  the same numbers, up to the normalization of texts.  No turn can be changed, dropped, added or moved
  without changing the head.
\<close>

theorem journal_head_commits:
  assumes "\<forall>v. H v \<noteq> [] \<and> normalize_string (H v) = H v"
    and "inj_on H (set (turn_values [] (is_turns s)) \<union> set (turn_values [] (is_turns s')))"
    and "verify_journal H s = []" "verify_journal H s' = []" and "last_hash (is_turns s) = last_hash (is_turns s')"
  shows "map plain_turn (is_turns s) = map plain_turn (is_turns s')"
  using assms chains_equal[of H "is_turns s" "is_turns s'"] unfolding verify_journal_def verify_turns_chained by blast

definition demo_facts :: gate_facts where
  "demo_facts = \<lparr>gf_completeness_no_error = True, gf_verify_passed = True, gf_signoff_and_dims = True\<rparr>"

definition demo_hash :: "val \<Rightarrow> string" where
  "demo_hash v = (case v of
       VDict d \<Rightarrow> if get_val d ''seq'' = VInt 0 then ''first'' else ''second''
     | _ \<Rightarrow> ''other'')"

definition demo_session :: "string \<Rightarrow> intent_session" where
  "demo_session remark = projr (attempt (advance demo_hash (new_session ''s'' ''i'') demo_facts ''agent'' None (Some remark)) (\<lambda>s.
     advance demo_hash s demo_facts ''human'' None None))"

lemma demo_turns:
  "verify_journal demo_hash (demo_session ''x'') = []" "verify_journal demo_hash (demo_session ''x '') = []"
  "last_hash (is_turns (demo_session ''x'')) = ''second''" "last_hash (is_turns (demo_session ''x '')) = ''second''"
  "turn_values [] (is_turns (demo_session ''x '')) = turn_values [] (is_turns (demo_session ''x''))"
  "map demo_hash (turn_values [] (is_turns (demo_session ''x''))) = [''first'', ''second'']"
  "is_turns (demo_session ''x'') \<noteq> is_turns (demo_session ''x '')"
  by code_simp+

lemma demo_hash_digest: "demo_hash v \<noteq> [] \<and> normalize_string (demo_hash v) = demo_hash v"
proof -
  have "demo_hash v \<in> {''first'', ''second'', ''other''}" by (simp add: demo_hash_def split: val.splits)
  moreover have "normalize_string ''first'' = ''first''" "normalize_string ''second'' = ''second''" "normalize_string ''other'' = ''other''" by code_simp+
  ultimately show ?thesis by auto
qed

theorem journal_head_commits_witness:
  "map plain_turn (is_turns (demo_session ''x'')) = map plain_turn (is_turns (demo_session ''x ''))"
proof (rule journal_head_commits[of demo_hash])
  have "distinct (map demo_hash (turn_values [] (is_turns (demo_session ''x''))))" unfolding demo_turns(6) by simp
  then show "inj_on demo_hash (set (turn_values [] (is_turns (demo_session ''x''))) \<union> set (turn_values [] (is_turns (demo_session ''x ''))))"
    unfolding demo_turns(5) by (simp add: distinct_map)
qed (use demo_turns demo_hash_digest in simp_all)

theorem sessions_accountable_witness:
  "verify_journal demo_hash (demo_session ''x'') = [] \<and> map tu_seq (is_turns (demo_session ''x'')) = [0, 1] \<and>
   is_status (demo_session ''x'') = working_status"
proof -
  obtain s1 where s1: "advance demo_hash (new_session ''s'' ''i'') demo_facts ''agent'' None (Some ''x'') = Inr s1"
    "advance demo_hash s1 demo_facts ''human'' None None = Inr (demo_session ''x'')"
    by (rule that[of "projr (advance demo_hash (new_session ''s'' ''i'') demo_facts ''agent'' None (Some ''x''))"]) code_simp+
  have "(intent_step demo_hash (\<lambda>_. []) [])\<^sup>*\<^sup>* (new_session ''s'' ''i'') (demo_session ''x'')"
    using intent_step.advance_step[OF s1(1)] intent_step.advance_step[OF s1(2)] by (meson converse_rtranclp_into_rtranclp rtranclp.rtrancl_refl)
  from sessions_accountable[OF this] have "verify_journal demo_hash (demo_session ''x'') = []" by blast
  moreover have "map tu_seq (is_turns (demo_session ''x'')) = [0, 1]" "is_status (demo_session ''x'') = working_status" by code_simp+
  ultimately show ?thesis by blast
qed

text \<open>
  A change of the spaces around a text or of its line ends is not noticed, although the journal is
  meant to show every change of a turn.
\<close>

lemma journal_misses_whitespace:
  assumes "plain_turn t' = plain_turn t" "tu_hash t' = tu_hash t" "verify_journal H (s\<lparr>is_turns := ts @ t # us\<rparr>) = []"
  shows "verify_journal H (s\<lparr>is_turns := ts @ t' # us\<rparr>) = []"
proof -
  have "turn_value t' p = turn_value t p" for p using assms(1)
    by (simp add: turn_value_def turn_payload_def plain_turn_def normalize_opt)
  then have "turn_content_hash H t' p = turn_content_hash H t p" for p by (simp add: content_hash_value)
  then have "chained H p (ts @ t' # us) = chained H p (ts @ t # us)" for p using assms(2) by (induction ts arbitrary: p) simp_all
  then show ?thesis using assms(3) by (simp add: verify_journal_def verify_turns_chained)
qed

section \<open>Sealing\<close>

lemma dict_get_sort:
  assumes "distinct (map fst d)"
  shows "dict_get (sort_key fst d) k = dict_get d k"
proof -
  have "distinct (map fst (sort_key fst d))" using assms
    by (metis mset_map mset_sort mset_eq_imp_distinct_iff)
  then show ?thesis using assms map_of_inject_set[of "sort_key fst d" d] by simp
qed

lemma dict_get_map_val: "dict_get (map (\<lambda>(k, v). (k, f v)) d) k = map_option f (dict_get d k)"
  by (induction d) auto

lemma sort_keys_get:
  assumes "distinct (map fst d)" "sort_keys (VDict d) = VDict e"
  shows "dict_get e k = map_option sort_keys (dict_get d k)"
proof -
  have "e = sort_key fst (map (\<lambda>(k, v). (k, sort_keys v)) d)" using assms(2) by simp
  moreover have "distinct (map fst (map (\<lambda>(k, v). (k, sort_keys v)) d))" using assms(1) by (simp add: o_def split_beta)
  ultimately show ?thesis using dict_get_sort dict_get_map_val by metis
qed

text \<open>What a reader finds in the report of the sealing mode.\<close>

lemma seal_report_fields:
  assumes "compute_5w1h_completeness rep reg SEAL p body plan network categories disps = Inr out"
  obtains n sm where "get_val (report_of out) ''sealed'' = VBool (n = 0)" "get_val (report_of out) ''profile'' = VStr (pf_profile_id p)"
    "dict_get (report_of out) ''summary'' = Some (VDict sm)" "dict_get sm ''errors'' = Some (VInt (int n))" "co_exit_code out = 0 \<longleftrightarrow> n = 0"
proof -
  obtain verdicts slots t where out: "co_exit_code out = (if ta_errors t = 0 then 0 else 1)"
    "co_report out = sort_keys (completeness_report rep SEAL p body disps verdicts slots t)"
    using assms by (auto simp: compute_5w1h_completeness_def result_simps Let_def)
  obtain d where d: "completeness_report rep SEAL p body disps verdicts slots t = VDict d" by (simp add: completeness_report_def Let_def)
  then have dd: "distinct (map fst d)" by (auto simp: completeness_report_def Let_def)
  have r: "sort_keys (VDict d) = VDict (report_of out)" using out(2) d by (simp add: report_of_def)
  note get = sort_keys_get[OF dd r]
  obtain sm where sm: "dict_get d ''summary'' = Some (VDict sm)" "distinct (map fst sm)" "dict_get sm ''errors'' = Some (VInt (int (ta_errors t)))"
    using d by (auto simp: completeness_report_def Let_def)
  obtain sm' where sm': "sort_keys (VDict sm) = VDict sm'" by simp
  show thesis
  proof (rule that[of "ta_errors t" sm'])
    show "get_val (report_of out) ''sealed'' = VBool (ta_errors t = 0)" "get_val (report_of out) ''profile'' = VStr (pf_profile_id p)"
      using d by (auto simp: get_val_def dict_get_or_def get completeness_report_def Let_def)
    show "dict_get (report_of out) ''summary'' = Some (VDict sm')" using get[of "''summary''"] sm(1) sm' by simp
    show "dict_get sm' ''errors'' = Some (VInt (int (ta_errors t)))" using sort_keys_get[OF sm(2) sm'] sm(3) by simp
    show "co_exit_code out = 0 \<longleftrightarrow> ta_errors t = 0" using out(1) by simp
  qed
qed

lemma seal_gate:
  assumes "compute_5w1h_completeness rep reg SEAL p body plan network categories disps = Inr out"
  obtains gate where "evaluate_consistency rep (Some (report_of out)) (Some (py_str rep (get_val (report_of out) ''profile''))) (Some ok) True hash existing [] = Inr gate"
    "gr_passed gate \<longleftrightarrow> co_exit_code out = 0 \<and> ok \<and> \<not> (given hash \<and> the hash \<in> set existing)"
    "get_val (report_of out) ''sealed'' = VBool (co_exit_code out = 0)"
proof -
  obtain n sm where f: "get_val (report_of out) ''sealed'' = VBool (n = 0)" "dict_get (report_of out) ''summary'' = Some (VDict sm)"
    "dict_get sm ''errors'' = Some (VInt (int n))" "co_exit_code out = 0 \<longleftrightarrow> n = 0" by (rule seal_report_fields[OF assms])
  let ?prof = "Some (py_str rep (get_val (report_of out) ''profile''))"
  have "\<exists>c. completeness_check rep (Some (report_of out)) ?prof = Inr c \<and> (gk_passed c \<longleftrightarrow> n = 0)"
    using f(2,3) by (cases "n = 0") (simp_all add: completeness_check_def dict_get_or_def Let_def)
  then obtain c where c: "completeness_check rep (Some (report_of out)) ?prof = Inr c" "gk_passed c \<longleftrightarrow> n = 0" by blast
  obtain gate where g: "evaluate_consistency rep (Some (report_of out)) ?prof (Some ok) True hash existing [] = Inr gate"
    "gr_passed gate \<longleftrightarrow> gk_passed c \<and> gk_passed (no_contradiction_check (Some ok) True) \<and> gk_passed (no_exact_duplicate_check hash existing)"
    using c(1) by (auto simp: evaluate_consistency_def Let_def)
  moreover have "gk_passed (no_contradiction_check (Some ok) True) \<longleftrightarrow> ok" by (cases ok) (simp_all add: no_contradiction_check_def)
  moreover have "gk_passed (no_exact_duplicate_check hash existing) \<longleftrightarrow> \<not> (given hash \<and> the hash \<in> set existing)"
    by (simp add: no_exact_duplicate_check_def Let_def)
  ultimately show thesis using that[of gate] c(2) f(1,4) by simp
qed

definition dims_settled :: "(val \<Rightarrow> string) \<Rightarrow> (string, resolver) dict \<Rightarrow> seal_request \<Rightarrow> bool" where
  "dims_settled rep reg q \<longleftrightarrow> (\<forall>d. pf_severity (sq_profile q) d = SEV_ERROR \<longrightarrow>
     evidenced rep (in_intent (sq_docs q)) (in_plan (sq_docs q)) (in_network (sq_docs q)) (in_categories (sq_docs q)) d \<and>
       (d = pf_slots_dimension (sq_profile q) \<longrightarrow> slots_filled (sq_profile q) (in_intent (sq_docs q))) \<or>
     (\<exists>x. dict_get (sq_dispositions q) d = Some x \<and> accountable reg x))"

lemma following_sealed: "following_step st = Some SEALED \<longleftrightarrow> st = ACCEPT"
  by (cases st) simp_all

lemma finish_seal_Inr:
  assumes "is_status s = working_status" "is_current_step s = step_value ACCEPT" "get_val report ''sealed'' = VBool ok"
  shows "finish_seal H s q report gate = Inr s' \<longleftrightarrow> ok \<and> gr_passed gate \<and> s' = enter_step H s SEALED ''human'' (Some (make_sign_off H s q report gate)) None"
proof (cases "ok \<and> gr_passed gate")
  case True
  have "advance H s \<lparr>gf_completeness_no_error = completeness_no_error s, gf_verify_passed = sq_verify_passed q, gf_signoff_and_dims = True\<rparr>
      ''human'' (Some so) None = Inr s' \<longleftrightarrow> s' = enter_step H s SEALED ''human'' (Some so) None" for so
    using assms(1,2) by (auto simp: advance_Inr check_entry_Inr)
  then show ?thesis using True assms(3) by (simp add: finish_seal_def)
qed (use assms(3) in \<open>auto simp: finish_seal_def\<close>)

lemma seal_Inr:
  assumes out: "judge_intent rep reg SEAL (sq_profile q) (sq_docs q) (sq_dispositions q) = Inr out"
  shows "seal H rep reg s q = Inr s' \<longleftrightarrow> is_status s = working_status \<and> str_strip (sq_signer q) \<noteq> [] \<and> is_current_step s = step_value ACCEPT \<and>
    (\<exists>gate. evaluate_consistency rep (Some (report_of out)) (Some (py_str rep (get_val (report_of out) ''profile''))) (Some (sq_verify_passed q)) True
        (sq_candidate_hash q) (sq_existing_hashes q) [] = Inr gate \<and> finish_seal H s q (report_of out) gate = Inr s')"
proof -
  have cond: "(if P then Inl e else k) = Inr s' \<longleftrightarrow> \<not> P \<and> k = Inr s'" for P and e :: session_error and k by simp
  have "seal H rep reg s q = Inr s' \<longleftrightarrow> (\<exists>u. require_working s = Inr u) \<and> str_strip (sq_signer q) \<noteq> [] \<and>
      (\<exists>c. current_step s = Inr c \<and> following_step c = Some SEALED) \<and>
      (\<exists>gate. evaluate_consistency rep (Some (report_of out)) (Some (py_str rep (get_val (report_of out) ''profile''))) (Some (sq_verify_passed q)) True
        (sq_candidate_hash q) (sq_existing_hashes q) [] = Inr gate \<and> finish_seal H s q (report_of out) gate = Inr s')"
    unfolding seal_def attempt_Inr_iff cond lift_error_Inr out by auto
  then show ?thesis unfolding require_Inr current_step_Inr following_sealed by simp
qed

text \<open>
  C15. Sealing is exact.  For documents that can be judged, sealing succeeds if and only if the
  session is working at the accept step, the signer is named, the verification passed, the candidate
  is no exact duplicate, and every dimension the profile asks for is evidenced or closed by an
  accountable disposition.  The sealed session is at the last step and carries a sign-off of that
  signer with the report of this very judgement.
\<close>

theorem seal_exact:
  assumes "judge_intent rep reg SEAL (sq_profile q) (sq_docs q) (sq_dispositions q) = Inr out"
  shows "((\<exists>s'. seal H rep reg s q = Inr s') \<longleftrightarrow> is_status s = working_status \<and> is_current_step s = step_value ACCEPT \<and>
      str_strip (sq_signer q) \<noteq> [] \<and> sq_verify_passed q \<and> dims_settled rep reg q \<and>
      \<not> (given (sq_candidate_hash q) \<and> the (sq_candidate_hash q) \<in> set (sq_existing_hashes q))) \<and>
    (\<forall>s'. seal H rep reg s q = Inr s' \<longrightarrow> is_status s' = sealed_status \<and> is_current_step s' = step_value SEALED \<and>
      (\<exists>so. is_sign_off s' = Some so \<and> so_signer so = sq_signer q \<and> so_snapshot so = report_of out))"
proof -
  obtain gate where g: "evaluate_consistency rep (Some (report_of out)) (Some (py_str rep (get_val (report_of out) ''profile''))) (Some (sq_verify_passed q)) True
      (sq_candidate_hash q) (sq_existing_hashes q) [] = Inr gate"
    "gr_passed gate \<longleftrightarrow> co_exit_code out = 0 \<and> sq_verify_passed q \<and> \<not> (given (sq_candidate_hash q) \<and> the (sq_candidate_hash q) \<in> set (sq_existing_hashes q))"
    "get_val (report_of out) ''sealed'' = VBool (co_exit_code out = 0)"
    by (rule seal_gate[OF assms[unfolded judge_intent_def]])
  have dims: "co_exit_code out = 0 \<longleftrightarrow> dims_settled rep reg q"
    using exit_code_zero[OF assms[unfolded judge_intent_def]] unfolding dims_settled_def by auto
  have iff: "seal H rep reg s q = Inr s' \<longleftrightarrow> is_status s = working_status \<and> str_strip (sq_signer q) \<noteq> [] \<and> is_current_step s = step_value ACCEPT \<and>
      co_exit_code out = 0 \<and> gr_passed gate \<and> s' = enter_step H s SEALED ''human'' (Some (make_sign_off H s q (report_of out) gate)) None" for s'
    unfolding seal_Inr[OF assms] g(1) using finish_seal_Inr[OF _ _ g(3)] by auto
  show ?thesis unfolding iff g(2) dims by (auto simp: enter_step_def make_sign_off_def Let_def)
qed

definition demo_accepted :: intent_session where
  "demo_accepted = (new_session ''s'' ''i'')\<lparr>is_current_step := step_value ACCEPT\<rparr>"

definition demo_seal :: seal_request where
  "demo_seal = \<lparr>sq_signer = ''ann'', sq_profile = base_profile,
     sq_docs = \<lparr>in_intent = demo_intent, in_plan = None, in_network = None, in_categories = []\<rparr>,
     sq_dispositions = [(HOW, demo_waiver)], sq_verify_passed = True, sq_scope = None, sq_candidate_hash = None, sq_existing_hashes = [],
     sq_signed_at = None\<rparr>"

lemma demo_seal_judged:
  "judge_intent (\<lambda>_. []) initial_resolvers SEAL (sq_profile demo_seal) (sq_docs demo_seal) (sq_dispositions demo_seal) = Inr demo_outcome"
  using demo_sealed(1) by (simp add: judge_intent_def demo_seal_def)

theorem seal_exact_witness:
  "\<exists>s'. seal demo_hash (\<lambda>_. []) initial_resolvers demo_accepted demo_seal = Inr s' \<and> is_status s' = sealed_status"
proof -
  have "dims_settled (\<lambda>_. []) initial_resolvers demo_seal"
    using exit_code_zero[OF demo_sealed(1)] demo_sealed(2) unfolding dims_settled_def by (auto simp: demo_seal_def)
  then show ?thesis using seal_exact[OF demo_seal_judged, of demo_hash demo_accepted]
    by (auto simp: demo_accepted_def new_session_def demo_seal_def given_def str_strip_def is_space_def)
qed

text \<open>
  The state machine itself takes the closure as a fact from its caller: a human can advance an accepted
  session into the seal with a sign-off of any content and no judgement at all.
\<close>

lemma advance_seals_unjudged:
  "is_status s = working_status \<Longrightarrow> is_current_step s = step_value ACCEPT \<Longrightarrow>
    advance H s demo_facts ''human'' (Some so) None = Inr (enter_step H s SEALED ''human'' (Some so) None)"
  by (auto simp: advance_Inr check_entry_Inr demo_facts_def)

end
