(* ===== verification/Intent_Artifacts.thy ===== *)
theory Intent_Artifacts
  imports Intent_Session
begin

text \<open>
  Sessions as documents (\<^verbatim>\<open>IntentSessionBody.from_mapping\<close> and its parts in \<^verbatim>\<open>tm/artifacts/models.py\<close>, the
  serialization of \<^verbatim>\<open>tm/intent/session_store.py\<close>): what reading accepts, and that it inverts writing.
\<close>

section \<open>Reading fields\<close>

definition require_field :: "(string, val) dict \<Rightarrow> string \<Rightarrow> val result" where
  "require_field d k = (if get_val d k = VNone then Inl (ValueError (''missing required field: '' @ quoted k)) else Inr (get_val d k))"

definition ensure_dict :: "val \<Rightarrow> string \<Rightarrow> (string, val) dict result" where
  "ensure_dict v name = (case v of VDict d \<Rightarrow> Inr d | _ \<Rightarrow> Inl (TypeError (name @ '' must be a mapping'')))"

definition ensure_str :: "val \<Rightarrow> string \<Rightarrow> string result" where
  "ensure_str v name = (case v of VStr s \<Rightarrow> Inr s | _ \<Rightarrow> Inl (TypeError (name @ '' must be a string'')))"

definition force_list :: "(val \<Rightarrow> string) \<Rightarrow> val \<Rightarrow> string \<Rightarrow> string list result" where
  "force_list rep v name = (case v of
       VNone \<Rightarrow> Inr []
     | VList xs \<Rightarrow> Inr (map (py_str rep) xs)
     | _ \<Rightarrow> Inl (TypeError (name @ '' must be a list of strings'')))"

definition ensure_sequence :: "val \<Rightarrow> string \<Rightarrow> val list result" where
  "ensure_sequence v name = (case v of VList xs \<Rightarrow> Inr xs | _ \<Rightarrow> Inl (TypeError (name @ '' must be a sequence'')))"

definition required_str :: "(string, val) dict \<Rightarrow> string \<Rightarrow> string \<Rightarrow> string result" where
  "required_str d k name = bind_result (require_field d k) (\<lambda>v. ensure_str v name)"

definition optional_text :: "(string, val) dict \<Rightarrow> string \<Rightarrow> string \<Rightarrow> string option result" where
  "optional_text d k name = (if get_val d k = VNone then Inr None else bind_result (ensure_str (get_val d k) name) (\<lambda>s. Inr (Some s)))"

definition one_of :: "string list \<Rightarrow> string \<Rightarrow> string \<Rightarrow> string result" where
  "one_of allowed name s =
     (if s \<in> set allowed then Inr s
      else Inl (ValueError (name @ '' must be one of ['' @ str_join '', '' (map quoted (sort allowed)) @ ''], got '' @ quoted s)))"

definition session_statuses :: "string list" where
  "session_statuses = [''working'', ''sealed'']"

definition design_steps :: "string list" where
  "design_steps = [''draft'', ''check_5w1h'', ''propose'', ''refine'', ''verify'', ''accept'', ''sealed'']"

definition turn_roles :: "string list" where
  "turn_roles = [''human'', ''agent'']"

definition turn_actions :: "string list" where
  "turn_actions = [''propose'', ''refine'', ''check_5w1h'', ''verify'', ''accept'', ''clarify'', ''note'']"

section \<open>Sessions from documents\<close>

definition turn_from_mapping :: "val \<Rightarrow> session_turn result" where
  "turn_from_mapping v =
     bind_result (ensure_dict v ''turn'') (\<lambda>raw.
     bind_result (require_field raw ''seq'') (\<lambda>seq.
     bind_result (case seq of VInt i \<Rightarrow> Inr i | _ \<Rightarrow> Inl (TypeError ''turn.seq must be an integer'')) (\<lambda>i.
     bind_result (required_str raw ''role'' ''turn.role'') (\<lambda>role0.
     bind_result (one_of turn_roles ''turn.role'' role0) (\<lambda>role.
     bind_result (required_str raw ''action'' ''turn.action'') (\<lambda>action0.
     bind_result (one_of turn_actions ''turn.action'' action0) (\<lambda>action.
     bind_result (optional_text raw ''input_ref'' ''turn.input_ref'') (\<lambda>inp.
     bind_result (optional_text raw ''output_ref'' ''turn.output_ref'') (\<lambda>out.
     bind_result (optional_text raw ''provider'' ''turn.provider'') (\<lambda>prov.
     bind_result (optional_text raw ''turn_hash'' ''turn.turn_hash'') (\<lambda>h.
       Inr \<lparr>tu_seq = i, tu_role = role, tu_action = action, tu_input_ref = inp, tu_output_ref = out, tu_provider = prov, tu_hash = h\<rparr>)))))))))))"

definition sign_off_from_mapping :: "(val \<Rightarrow> string) \<Rightarrow> val \<Rightarrow> session_sign_off result" where
  "sign_off_from_mapping rep v =
     bind_result (ensure_dict v ''sign_off'') (\<lambda>raw.
     bind_result (required_str raw ''signer'' ''sign_off.signer'') (\<lambda>signer.
     bind_result (force_list rep (get_val raw ''scope'') ''sign_off.scope'') (\<lambda>scope.
     bind_result (ensure_dict (get_or raw ''completeness_snapshot'' (VDict [])) ''sign_off.completeness_snapshot'') (\<lambda>snap.
     bind_result (ensure_dict (get_or raw ''dispositions'' (VDict [])) ''sign_off.dispositions'') (\<lambda>disps.
     bind_result (optional_text raw ''gate_report_hash'' ''sign_off.gate_report_hash'') (\<lambda>gh.
     bind_result (optional_text raw ''signed_at'' ''sign_off.signed_at'') (\<lambda>at_time.
     bind_result (optional_text raw ''sign_hash'' ''sign_off.sign_hash'') (\<lambda>sh.
       Inr \<lparr>so_signer = signer, so_scope = scope, so_snapshot = snap, so_dispositions = disps, so_gate_hash = gh,
         so_signed_at = at_time, so_sign_hash = sh\<rparr>))))))))"

definition session_from_mapping :: "(val \<Rightarrow> string) \<Rightarrow> (string, val) dict \<Rightarrow> intent_session result" where
  "session_from_mapping rep data =
     bind_result (required_str data ''status'' ''status'') (\<lambda>status0.
     bind_result (one_of session_statuses ''status'' status0) (\<lambda>status.
     bind_result (required_str data ''current_step'' ''current_step'') (\<lambda>step0.
     bind_result (one_of design_steps ''current_step'' step0) (\<lambda>step.
     bind_result (if get_val data ''turns'' = VNone then Inr []
       else bind_result (ensure_sequence (get_val data ''turns'') ''turns'') (map_result turn_from_mapping)) (\<lambda>turns.
     bind_result (required_str data ''session_id'' ''session_id'') (\<lambda>sid.
     bind_result (required_str data ''root_intent_ref'' ''root_intent_ref'') (\<lambda>rref.
     bind_result (if get_val data ''completeness'' = VNone then Inr None
       else bind_result (ensure_dict (get_val data ''completeness'') ''completeness'') (\<lambda>c. Inr (Some c))) (\<lambda>comp.
     bind_result (force_list rep (get_val data ''produced_refs'') ''produced_refs'') (\<lambda>refs.
     bind_result (if get_val data ''sign_off'' = VNone then Inr None
       else bind_result (sign_off_from_mapping rep (get_val data ''sign_off'')) (\<lambda>so. Inr (Some so))) (\<lambda>so.
     bind_result (ensure_dict (get_or data ''metadata'' (VDict [])) ''metadata'') (\<lambda>meta.
       Inr \<lparr>is_session_id = sid, is_root_intent_ref = rref, is_status = status, is_current_step = step, is_turns = turns,
         is_completeness = comp, is_produced_refs = refs, is_sign_off = so, is_metadata = meta\<rparr>)))))))))))"

section \<open>Sessions to documents\<close>

definition turn_to_raw :: "session_turn \<Rightarrow> val" where
  "turn_to_raw t = VDict ([(''seq'', VInt (tu_seq t)), (''role'', VStr (tu_role t)), (''action'', VStr (tu_action t))] @
     opt_entry ''input_ref'' (tu_input_ref t) @ opt_entry ''output_ref'' (tu_output_ref t) @ opt_entry ''provider'' (tu_provider t) @
     opt_entry ''turn_hash'' (tu_hash t))"

definition sign_off_to_raw :: "session_sign_off \<Rightarrow> val" where
  "sign_off_to_raw so = VDict ([(''signer'', VStr (so_signer so))] @
     (if so_scope so = [] then [] else [(''scope'', VList (map VStr (so_scope so)))]) @
     (if so_snapshot so = [] then [] else [(''completeness_snapshot'', VDict (so_snapshot so))]) @
     (if so_dispositions so = [] then [] else [(''dispositions'', VDict (so_dispositions so))]) @
     opt_entry ''gate_report_hash'' (so_gate_hash so) @ opt_entry ''signed_at'' (so_signed_at so) @ opt_entry ''sign_hash'' (so_sign_hash so))"

definition session_body_to_raw :: "intent_session \<Rightarrow> (string, val) dict" where
  "session_body_to_raw s = [(''session_id'', VStr (is_session_id s)), (''root_intent_ref'', VStr (is_root_intent_ref s)),
     (''status'', VStr (is_status s)), (''current_step'', VStr (is_current_step s)), (''turns'', VList (map turn_to_raw (is_turns s))),
     (''produced_refs'', VList (map VStr (is_produced_refs s)))] @
     (case is_completeness s of None \<Rightarrow> [] | Some c \<Rightarrow> [(''completeness'', VDict c)]) @
     (case is_sign_off s of None \<Rightarrow> [] | Some so \<Rightarrow> [(''sign_off'', sign_off_to_raw so)]) @
     (if is_metadata s = [] then [] else [(''metadata'', VDict (is_metadata s))])"

section \<open>Reading inverts writing\<close>

definition typed_turn :: "session_turn \<Rightarrow> bool" where
  "typed_turn t \<longleftrightarrow> tu_role t \<in> set turn_roles \<and> tu_action t \<in> set turn_actions"

definition typed_session :: "intent_session \<Rightarrow> bool" where
  "typed_session s \<longleftrightarrow> is_status s \<in> set session_statuses \<and> is_current_step s \<in> set design_steps \<and> (\<forall>t\<in>set (is_turns s). typed_turn t)"

lemma one_of_Inr [result_simps]: "one_of allowed name s = Inr x \<longleftrightarrow> s \<in> set allowed \<and> x = s"
  by (auto simp: one_of_def)

lemma get_val_simps [simp]:
  "get_val ((k, v) # d) k' = (if k = k' then v else get_val d k')" "get_val [] k = VNone"
  by (simp_all add: get_val_def dict_get_or_def)

lemma get_or_simps [simp]:
  "get_or ((k, v) # d) k' w = (if k = k' then (if truthy v then v else w) else get_or d k' w)" "get_or [] k w = w"
  by (simp_all add: get_or_def)

lemma turn_typed: "turn_from_mapping v = Inr t \<Longrightarrow> typed_turn t"
  by (auto simp: turn_from_mapping_def typed_turn_def result_simps)

lemma turns_typed: "map_result turn_from_mapping vs = Inr ts \<Longrightarrow> t \<in> set ts \<Longrightarrow> typed_turn t"
  by (induction vs arbitrary: ts) (auto simp: result_simps dest: turn_typed)

lemma session_typed: "session_from_mapping rep d = Inr s \<Longrightarrow> typed_session s"
  by (auto simp: session_from_mapping_def typed_session_def result_simps split: if_splits dest: turns_typed)

lemma opt_entry_simps [simp]: "opt_entry k None = []" "opt_entry k (Some s) = [(k, VStr s)]"
  by (simp_all add: opt_entry_def)

lemma turn_roundtrip: "typed_turn t \<Longrightarrow> turn_from_mapping (turn_to_raw t) = Inr t"
  by (cases "tu_input_ref t"; cases "tu_output_ref t"; cases "tu_provider t"; cases "tu_hash t")
    (simp_all add: turn_from_mapping_def turn_to_raw_def typed_turn_def ensure_dict_def require_field_def required_str_def ensure_str_def
      optional_text_def one_of_def)

lemma turns_roundtrip: "(\<forall>t\<in>set ts. typed_turn t) \<Longrightarrow> map_result turn_from_mapping (map turn_to_raw ts) = Inr ts"
  by (induction ts) (simp_all add: turn_roundtrip)

lemma sign_off_roundtrip: "sign_off_from_mapping rep (sign_off_to_raw so) = Inr so"
  by (cases "so_gate_hash so"; cases "so_signed_at so"; cases "so_sign_hash so")
    (simp_all add: sign_off_from_mapping_def sign_off_to_raw_def ensure_dict_def require_field_def required_str_def ensure_str_def
      optional_text_def force_list_def o_def)

lemma sign_off_raw_given [simp]: "sign_off_to_raw so \<noteq> VNone"
  by (simp add: sign_off_to_raw_def)

lemma session_roundtrip: "typed_session s \<Longrightarrow> session_from_mapping rep (session_body_to_raw s) = Inr s"
  by (cases "is_completeness s"; cases "is_sign_off s")
    (simp_all add: session_from_mapping_def session_body_to_raw_def typed_session_def ensure_dict_def require_field_def required_str_def
      ensure_str_def ensure_sequence_def one_of_def force_list_def turns_roundtrip sign_off_roundtrip o_def)

lemma step_value_listed [simp]: "step_value st \<in> set design_steps"
  by (cases st) (simp_all add: step_value_def design_steps_def)

lemma action_value_listed [simp]: "action_value a \<in> set turn_actions"
  by (cases a) (simp_all add: action_value_def turn_actions_def)

lemma vocabulary [simp]: "working_status \<in> set session_statuses" "sealed_status \<in> set session_statuses"
  "''human'' \<in> set turn_roles" "''agent'' \<in> set turn_roles"
  by (simp_all add: working_status_def sealed_status_def session_statuses_def turn_roles_def)

lemma append_typed:
  assumes "typed_session s" "role = ''human'' \<or> role = ''agent''" "t \<in> set (append_turn H s role a i out pr)"
  shows "typed_turn t"
  using assms by (auto simp: append_turn_def Let_def typed_session_def typed_turn_def)

lemma advance_typed:
  assumes "advance H s facts role so remark = Inr s'" "typed_session s"
  shows "typed_session s'"
proof -
  obtain target where "s' = enter_step H s target role so remark" "role = ''human'' \<or> role = ''agent''" using assms(1) by (auto simp: advance_Inr)
  then show ?thesis using assms(2) append_typed[OF assms(2)] by (auto simp: typed_session_def enter_step_def)
qed

lemma session_step_typed: "intent_step H rep reg s s' \<Longrightarrow> typed_session s \<Longrightarrow> typed_session s'"
proof (induction rule: intent_step.induct)
  case (advance_step s facts role sign_off remark s')
  then show ?case by (rule advance_typed)
next
  case (revert_step s to_step role reason s')
  then have "role = ''human'' \<or> role = ''agent''" by (auto simp: revert_def result_simps)
  moreover have "s' = s\<lparr>is_current_step := step_value to_step,
      is_turns := append_turn H s role ACT_NOTE None (Some (''revert: '' @ reason)) None\<rparr>"
    using revert_step.hyps by (auto simp: revert_def result_simps split: if_splits)
  ultimately show ?case using revert_step.prems append_typed[OF revert_step.prems, where role = role] by (simp add: typed_session_def)
next
  case (clarify_step s disp role question warning_ref reason resolution s')
  then have "role = ''human'' \<or> role = ''agent''" by (auto simp: clarify_def result_simps)
  moreover obtain meta cid where "s' = s\<lparr>is_metadata := meta, is_turns := append_turn H s role ACT_CLARIFY warning_ref (Some cid) None\<rparr>"
    using clarify_step.hyps by (auto simp: clarify_def result_simps Let_def split: if_splits)
  ultimately show ?case using clarify_step.prems append_typed[OF clarify_step.prems, where role = role] by (simp add: typed_session_def)
next
  case (embed_step s p docs s')
  then show ?case by (auto simp: embed_completeness_def result_simps typed_session_def)
next
  case (seal_step s q s')
  then obtain facts so where "advance H s facts ''human'' (Some so) None = Inr s'" by (elim seal_advances)
  then show ?case using seal_step.prems by (rule advance_typed)
qed

lemma sessions_typed: "(intent_step H rep reg)\<^sup>*\<^sup>* s s' \<Longrightarrow> typed_session s \<Longrightarrow> typed_session s'"
  by (induction rule: rtranclp_induct) (auto dest: session_step_typed)

text \<open>
  C17. Session documents are well typed and lossless: reading a document only ever gives a session
  whose status, step, roles and actions are in the vocabulary of the design loop; every session that
  the operations reach from a new one is of this kind, and reading back what is written of such a
  session gives the very same session.
\<close>

theorem session_documents_typed:
  "(session_from_mapping rep d = Inr s \<longrightarrow> typed_session s) \<and>
   (typed_session t \<longrightarrow> session_from_mapping rep (session_body_to_raw t) = Inr t) \<and>
   ((intent_step H rep reg)\<^sup>*\<^sup>* (new_session sid r) u \<longrightarrow> typed_session u \<and> session_from_mapping rep (session_body_to_raw u) = Inr u)"
proof -
  have "typed_session (new_session sid r)" by (simp add: typed_session_def new_session_def)
  then show ?thesis using session_typed session_roundtrip sessions_typed by blast
qed

theorem session_documents_typed_witness:
  "typed_session (demo_session ''x'') \<and> session_from_mapping (\<lambda>_. []) (session_body_to_raw (demo_session ''x'')) = Inr (demo_session ''x'')"
proof -
  have "session_from_mapping (\<lambda>_. []) (session_body_to_raw (demo_session ''x'')) = Inr (demo_session ''x'')" by code_simp
  then show ?thesis using session_documents_typed[of "\<lambda>_. []" "session_body_to_raw (demo_session ''x'')" "demo_session ''x''"] by blast
qed

end
