(* ===== verification/Intent_Store.thy ===== *)
theory Intent_Store
  imports Intent_Artifacts
begin

text \<open>
  The store of sessions (\<^verbatim>\<open>tm/intent/session_store.py\<close>): one document per session id, written as JSON with
  sorted keys.  The directory is the dictionary of the documents by id; the JSON schema check is the
  parameter \<open>schema\<close>.
\<close>

section \<open>Session ids\<close>

definition id_char :: "char \<Rightarrow> bool" where
  "id_char c \<longleftrightarrow> (CHR ''a'' \<le> c \<and> c \<le> CHR ''z'') \<or> (CHR ''0'' \<le> c \<and> c \<le> CHR ''9'')"

text \<open>
  Matching \<^verbatim>\<open>^[a-z0-9]+(?:[._-][a-z0-9]+)*$\<close>, where \<^verbatim>\<open>$\<close> also matches before a line end that ends the text;
  the flag tells whether the last character was a letter or digit.
\<close>

fun id_match :: "bool \<Rightarrow> string \<Rightarrow> bool" where
  "id_match seen [] = seen"
| "id_match seen (c # cs) =
     (if id_char c then id_match True cs
      else if seen \<and> c \<in> set ''._-'' then id_match False cs
      else seen \<and> c = CHR 0x0A \<and> cs = [])"

definition validate_id :: "string \<Rightarrow> string result" where
  "validate_id sid = (if id_match False sid then Inr sid
     else Inl (ValueError (''invalid session_id '' @ quoted sid @ ''; must match ^[a-z0-9]+(?:[._-][a-z0-9]+)*$'')))"

section \<open>The store\<close>

type_synonym session_store = "(string, val) dict"

definition store_exists :: "session_store \<Rightarrow> string \<Rightarrow> bool result" where
  "store_exists st sid = bind_result (validate_id sid) (\<lambda>i. Inr (dict_has st i))"

definition list_ids :: "session_store \<Rightarrow> string list" where
  "list_ids st = sort (dict_keys st)"

definition load_document :: "(val \<Rightarrow> string) \<Rightarrow> string \<Rightarrow> val \<Rightarrow> intent_session result" where
  "load_document rep path doc = (case doc of
       VDict data \<Rightarrow> (case get_val data ''body'' of
            VDict raw \<Rightarrow> session_from_mapping rep raw
          | _ \<Rightarrow> Inl (ValueError (''session artifact '' @ path @ '' missing 'body' section'')))
     | _ \<Rightarrow> Inl (ValueError (''session artifact '' @ path @ '' is not a mapping'')))"

definition store_load :: "(val \<Rightarrow> string) \<Rightarrow> session_store \<Rightarrow> string \<Rightarrow> intent_session result" where
  "store_load rep st sid = bind_result (validate_id sid) (\<lambda>i. case dict_get st i of
       None \<Rightarrow> Inl (KeyError sid)
     | Some doc \<Rightarrow> load_document rep (i @ ''.json'') doc)"

definition session_envelope :: "(val \<Rightarrow> string) \<Rightarrow> string \<Rightarrow> string \<Rightarrow> intent_session \<Rightarrow> val" where
  "session_envelope H created_by now s = VDict [(''artifact_id'', VStr (is_session_id s)),
     (''status'', VStr (if is_status s = ''sealed'' then ''accepted'' else ''candidate'')), (''artifact_type'', VStr ''intent_session''),
     (''version'', VStr ''v0.4''), (''created_by'', VStr created_by), (''created_at'', VStr now),
     (''body_hash'', VStr (body_hash H (VDict (session_body_to_raw s)))), (''envelope_hash'', VStr []), (''meta'', VDict [])]"

definition store_save ::
  "(val \<Rightarrow> string) \<Rightarrow> (val \<Rightarrow> unit result) \<Rightarrow> string \<Rightarrow> string \<Rightarrow> session_store \<Rightarrow> intent_session \<Rightarrow> session_store result" where
  "store_save H schema created_by now st s =
     bind_result (schema (VDict (session_body_to_raw s))) (\<lambda>_.
     bind_result (validate_id (is_session_id s)) (\<lambda>i.
       Inr (dict_set i (sort_keys (VDict [(''envelope'', session_envelope H created_by now s), (''body'', VDict (session_body_to_raw s))])) st)))"

section \<open>Sorting the keys\<close>

definition sort_dict :: "(string, val) dict \<Rightarrow> (string, val) dict" where
  "sort_dict d = sort_key fst (map (\<lambda>(k, v). (k, sort_keys v)) d)"

lemma sort_keys_dict: "sort_keys (VDict d) = VDict (sort_dict d)"
  by (simp add: sort_dict_def)

lemma stable_get:
  fixes d :: "(string, 'v) dict"
  shows "dict_get (sort_key fst d) k = dict_get d k"
proof -
  have "dict_get d k = (case filter (\<lambda>x. fst x = k) d of [] \<Rightarrow> None | x # _ \<Rightarrow> Some (snd x))" for d :: "(string, 'v) dict"
    by (induction d) auto
  then show ?thesis by (simp add: sort_key_stable)
qed

lemma sort_get: "dict_get (sort_dict d) k = map_option sort_keys (dict_get d k)"
  unfolding sort_dict_def stable_get by (induction d) auto

lemma sort_get_val: "get_val (sort_dict d) k = sort_keys (get_val d k)"
  by (simp add: get_val_def dict_get_or_def sort_get split: option.splits)

lemma sort_dict_Nil [simp]: "sort_dict d = [] \<longleftrightarrow> d = []" "sort_dict [] = []"
proof -
  have "length (sort_dict d) = length d" by (simp add: sort_dict_def)
  then show "sort_dict d = [] \<longleftrightarrow> d = []" by fastforce
qed (simp add: sort_dict_def)

lemma sort_truthy: "truthy (sort_keys v) = truthy v"
  by (cases v) (simp_all add: sort_keys_dict del: sort_keys.simps(1))

lemma sort_get_or: "get_or (sort_dict d) k (VDict []) = sort_keys (get_or d k (VDict []))"
  by (auto simp: get_or_def sort_get sort_truthy split: option.splits)

lemma sort_keys_VNone [simp]: "sort_keys v = VNone \<longleftrightarrow> v = VNone"
  by (cases v) simp_all

lemma sort_map_stable: "(\<And>x. fst (g x) = fst x) \<Longrightarrow> map g (sort_key fst xs) = sort_key fst (map g xs)"
proof -
  assume g: "\<And>x. fst (g x) = fst x"
  have "map g (insort_key fst x ys) = insort_key fst (g x) (map g ys)" for x ys by (induction ys) (simp_all add: g)
  then show "map g (sort_key fst xs) = sort_key fst (map g xs)" by (induction xs) simp_all
qed

lemma sort_key_again: "sort_key fst (sort_key fst xs) = sort_key fst xs"
  by (simp add: sort_key_id_if_sorted)

lemma normalize_sorted: "normalize_value (sort_keys v) = normalize_value v"
proof (induction v rule: sort_keys.induct)
  case (1 d)
  have "map (\<lambda>(k, v). (k, normalize_value v)) (sort_key fst (map (\<lambda>(k, v). (k, sort_keys v)) d)) =
      sort_key fst (map (\<lambda>(k, v). (k, normalize_value v)) (map (\<lambda>(k, v). (k, sort_keys v)) d))" by (rule sort_map_stable) auto
  also have "map (\<lambda>(k, v). (k, normalize_value v)) (map (\<lambda>(k, v). (k, sort_keys v)) d) = map (\<lambda>(k, v). (k, normalize_value v)) d"
    using 1 by auto
  finally show ?case by (simp add: sort_key_again del: map_map)
qed auto

section \<open>What is read back\<close>

definition stored_sign_off :: "session_sign_off \<Rightarrow> session_sign_off" where
  "stored_sign_off so = so\<lparr>so_snapshot := sort_dict (so_snapshot so), so_dispositions := sort_dict (so_dispositions so)\<rparr>"

definition stored :: "intent_session \<Rightarrow> intent_session" where
  "stored s = s\<lparr>is_completeness := map_option sort_dict (is_completeness s), is_sign_off := map_option stored_sign_off (is_sign_off s),
     is_metadata := sort_dict (is_metadata s)\<rparr>"

lemmas reading_defs = ensure_dict_def require_field_def required_str_def ensure_str_def optional_text_def ensure_sequence_def one_of_def force_list_def

lemma turn_stored: "typed_turn t \<Longrightarrow> turn_from_mapping (sort_keys (turn_to_raw t)) = Inr t"
  by (cases "tu_input_ref t"; cases "tu_output_ref t"; cases "tu_provider t"; cases "tu_hash t")
    (simp_all add: turn_from_mapping_def turn_to_raw_def typed_turn_def sort_keys_dict sort_get_val reading_defs del: sort_keys.simps(1))

lemma turns_stored: "(\<forall>t\<in>set ts. typed_turn t) \<Longrightarrow> map_result turn_from_mapping (map (sort_keys \<circ> turn_to_raw) ts) = Inr ts"
  by (induction ts) (simp_all add: turn_stored)

lemma sign_off_stored: "sign_off_from_mapping rep (sort_keys (sign_off_to_raw so)) = Inr (stored_sign_off so)"
  by (cases "so_gate_hash so"; cases "so_signed_at so"; cases "so_sign_hash so")
    (simp_all add: sign_off_from_mapping_def sign_off_to_raw_def stored_sign_off_def sort_keys_dict sort_get_val sort_get_or reading_defs o_def
      del: sort_keys.simps(1))

lemma session_stored: "typed_session s \<Longrightarrow> session_from_mapping rep (sort_dict (session_body_to_raw s)) = Inr (stored s)"
  by (cases "is_completeness s"; cases "is_sign_off s")
    (simp_all add: session_from_mapping_def session_body_to_raw_def typed_session_def stored_def sort_keys_dict sort_get_val sort_get_or
      reading_defs turns_stored[unfolded o_def] sign_off_stored o_def del: sort_keys.simps(1))

lemma normalize_sort_dict: "normalize_value (VDict (sort_dict d)) = normalize_value (VDict d)"
  using normalize_sorted[of "VDict d"] by (simp only: sort_keys_dict)

lemma normalize_entries:
  assumes "map (\<lambda>(k, v). (k, normalize_value v)) d = map (\<lambda>(k, v). (k, normalize_value v)) e"
  shows "normalize_value (VDict d) = normalize_value (VDict e)"
  by (simp only: normalize_value.simps assms)

lemma sign_off_hash: "normalize_value (sign_off_to_raw (stored_sign_off so)) = normalize_value (sign_off_to_raw so)"
  unfolding sign_off_to_raw_def
  by (rule normalize_entries) (simp add: stored_sign_off_def normalize_sort_dict del: normalize_value.simps)

lemma session_hash: "body_hash H (VDict (session_body_to_raw (stored s))) = body_hash H (VDict (session_body_to_raw s))"
proof -
  have "normalize_value (VDict (session_body_to_raw (stored s))) = normalize_value (VDict (session_body_to_raw s))"
    unfolding session_body_to_raw_def
    by (rule normalize_entries) (simp add: stored_def normalize_sort_dict sign_off_hash del: normalize_value.simps split: option.splits)
  then show ?thesis by (simp only: body_hash_def)
qed

lemma record_stored:
  assumes "\<forall>x\<in>set refs. x = VNone \<or> (\<exists>t. x = VStr t)"
  shows "record_ok H refs (sort_keys v) \<longleftrightarrow> record_ok H refs v"
proof (cases "\<exists>d. v = VDict d")
  case True
  then obtain d where v: "v = VDict d" by blast
  have "without_hash (sort_dict d) = sort_dict (without_hash d)"
    by (simp add: without_hash_def sort_dict_def filter_sort filter_map o_def split_def)
  then have "body_hash H (VDict (without_hash (sort_dict d))) = body_hash H (VDict (without_hash d))"
    by (simp only: body_hash_def normalize_sort_dict)
  moreover have "sort_keys x = VStr t \<longleftrightarrow> x = VStr t" for x t by (cases x) simp_all
  moreover have "sort_keys x \<in> set refs \<longleftrightarrow> x \<in> set refs" for x
    using assms by (cases x) force+
  ultimately show ?thesis by (simp add: record_ok_def v sort_keys_dict sort_get_val del: sort_keys.simps(1))
next
  case False
  then show ?thesis by (cases v) (simp_all add: record_ok_def)
qed

lemma clarifications_stored: "verify_clarifications H (stored s) = Inr [] \<longleftrightarrow> verify_clarifications H s = Inr []"
proof -
  have "clarifications (stored s) = map sort_keys (clarifications s)"
    by (cases "get_val (is_metadata s) ''clarifications''") (simp_all add: clarifications_def stored_def sort_get_val)
  moreover have "\<forall>x\<in>set (clarify_refs (is_turns s)). x = VNone \<or> (\<exists>t. x = VStr t)"
    by (auto simp: clarify_refs_def opt_doc_def split: option.splits)
  moreover have "is_turns (stored s) = is_turns s" by (simp add: stored_def)
  ultimately show ?thesis unfolding verify_clarifications_ok by (simp add: record_stored)
qed

lemma id_match_chars: "id_match seen s \<Longrightarrow> c \<in> set s \<Longrightarrow> id_char c \<or> c \<in> set ''._-'' \<or> c = CHR 0x0A"
  by (induction seen s rule: id_match.induct) (auto split: if_splits)

text \<open>The file name of a session stays in the directory of the store.\<close>

lemma id_no_separator: "validate_id sid = Inr i \<Longrightarrow> CHR ''/'' \<notin> set i"
proof
  assume "validate_id sid = Inr i" "CHR ''/'' \<in> set i"
  then have "id_char (CHR ''/'') \<or> CHR ''/'' \<in> set ''._-'' \<or> CHR ''/'' = CHR 0x0A"
    using id_match_chars[of False i "CHR ''/''"] by (simp add: validate_id_def split: if_splits)
  then show False by (simp add: id_char_def less_eq_char_def)
qed

text \<open>The pattern accepts an id that ends in a line end.\<close>

lemma newline_id_accepted: "validate_id [CHR ''a'', CHR 0x0A] = Inr [CHR ''a'', CHR 0x0A]"
  by (simp add: validate_id_def id_char_def less_eq_char_def)

text \<open>
  C18. The store keeps sessions faithfully: what is read back of a saved session is the session with the
  keys of its mappings sorted, so the journal, status and step are unchanged, its body still has the
  hash written in the envelope, and its clarifications pass the audit exactly if they did before.  No
  other session is affected, and the file lies in the directory of the store.
\<close>

theorem store_faithful:
  assumes "store_save H schema created_by now st s = Inr st'" "typed_session s"
  shows "store_load rep st' (is_session_id s) = Inr (stored s) \<and>
    is_turns (stored s) = is_turns s \<and> is_status (stored s) = is_status s \<and> is_current_step (stored s) = is_current_step s \<and>
    body_hash H (VDict (session_body_to_raw (stored s))) = body_hash H (VDict (session_body_to_raw s)) \<and>
    (verify_clarifications H (stored s) = Inr [] \<longleftrightarrow> verify_clarifications H s = Inr []) \<and>
    (\<forall>sid. sid \<noteq> is_session_id s \<longrightarrow> store_load rep st' sid = store_load rep st sid) \<and>
    CHR ''/'' \<notin> set (is_session_id s)"
proof -
  let ?doc = "[(''envelope'', session_envelope H created_by now s), (''body'', VDict (session_body_to_raw s))]"
  have ok: "validate_id (is_session_id s) = Inr (is_session_id s)" and st': "st' = dict_set (is_session_id s) (VDict (sort_dict ?doc)) st"
    using assms(1) by (auto simp: store_save_def result_simps validate_id_def sort_keys_dict simp del: sort_keys.simps(1) split: if_splits)
  have "get_val (sort_dict ?doc) ''body'' = VDict (sort_dict (session_body_to_raw s))" by (simp add: sort_get_val sort_keys_dict del: sort_keys.simps(1))
  then have "store_load rep st' (is_session_id s) = Inr (stored s)"
    using session_stored[OF assms(2)] by (simp add: store_load_def ok st' load_document_def dict_simps)
  moreover have "store_load rep st' sid = store_load rep st sid" if "sid \<noteq> is_session_id s" for sid
    using that by (cases "validate_id sid") (auto simp: store_load_def st' dict_simps validate_id_def split: if_splits)
  ultimately show ?thesis using session_hash clarifications_stored id_no_separator[OF ok] by (simp add: stored_def)
qed

theorem store_faithful_witness:
  "\<exists>st'. store_save demo_hash (\<lambda>_. Inr ()) ''tm'' ''now'' [] (demo_session ''x'') = Inr st' \<and>
     store_load (\<lambda>_. []) st' ''s'' = Inr (stored (demo_session ''x''))"
proof -
  have sid: "is_session_id (demo_session ''x'') = ''s''" by code_simp
  have ok: "validate_id ''s'' = Inr ''s''" by code_simp
  have "typed_session (demo_session ''x'')" by code_simp
  moreover obtain st' where "store_save demo_hash (\<lambda>_. Inr ()) ''tm'' ''now'' [] (demo_session ''x'') = Inr st'"
    by (simp add: store_save_def sid ok)
  ultimately show ?thesis using store_faithful[of demo_hash "\<lambda>_. Inr ()" "''tm''" "''now''" "[]" "demo_session ''x''" _ "\<lambda>_. []"] sid by force
qed

end
