(* ===== verification/Intent_Tree.thy ===== *)
theory Intent_Tree
  imports Py_Values "HOL-Library.Product_Lexorder"
begin

text \<open>
  Trees of intents (\<^verbatim>\<open>tm/intent/tree_validator.py\<close>): the validator with its search for cycles, and that it
  finds nothing exactly for trees.
\<close>

section \<open>Reading intents\<close>

record tree_issue =
  ti_intent_id :: "string option"
  ti_path :: string
  ti_message :: string

definition mk_issue :: "string option \<Rightarrow> string \<Rightarrow> string \<Rightarrow> tree_issue" where
  "mk_issue i p m = \<lparr>ti_intent_id = i, ti_path = p, ti_message = m\<rparr>"

text \<open>\<^verbatim>\<open>isinstance(v, Sequence)\<close> and not a string, with the items.\<close>

definition as_list :: "val \<Rightarrow> val list option" where
  "as_list v = (case v of VList xs \<Rightarrow> Some xs | _ \<Rightarrow> None)"

definition extract_intents :: "(string, val) dict \<Rightarrow> val list option" where
  "extract_intents payload = (case as_list (get_val payload ''intents'') of
       Some xs \<Rightarrow> Some xs
     | None \<Rightarrow> (case as_dict (get_val payload ''spec'') of
          None \<Rightarrow> None
        | Some spec \<Rightarrow> (case as_list (get_val spec ''intents'') of
             Some xs \<Rightarrow> Some xs
           | None \<Rightarrow> (case as_dict (get_val spec ''spec'') of
                None \<Rightarrow> None
              | Some embedded \<Rightarrow> as_list (get_val embedded ''intents'')))))"

definition intent_path :: "nat \<Rightarrow> string" where
  "intent_path i = ''intents['' @ str_nat i @ '']''"

definition extract_trace_links :: "(string, val) dict \<Rightarrow> nat \<Rightarrow> (string, val) dict \<times> string" where
  "extract_trace_links intent index = (case as_dict (get_val intent ''trace_links'') of
       Some direct \<Rightarrow> (direct, intent_path index @ ''.trace_links'')
     | None \<Rightarrow> (case Option.bind (as_dict (get_val intent ''metadata'')) (\<lambda>m. as_dict (get_val m ''trace_links'')) of
          Some mlinks \<Rightarrow> (mlinks, intent_path index @ ''.metadata.trace_links'')
        | None \<Rightarrow> (case Option.bind (as_dict (get_val intent ''spec'')) (\<lambda>m. as_dict (get_val m ''trace_links'')) of
             Some slinks \<Rightarrow> (slinks, intent_path index @ ''.spec.trace_links'')
           | None \<Rightarrow> ([], intent_path index @ ''.trace_links''))))"

definition has_success_criteria :: "(string, val) dict \<Rightarrow> bool" where
  "has_success_criteria intent \<longleftrightarrow> dict_has intent ''success_criteria'' \<or>
     (case as_dict (get_val intent ''spec'') of None \<Rightarrow> False | Some spec \<Rightarrow> dict_has spec ''success_criteria'')"

type_synonym intent_row = "nat \<times> (string, val) dict"

definition intent_rows :: "val list \<Rightarrow> intent_row list" where
  "intent_rows items = List.map_filter (\<lambda>(i, v). map_option (Pair i) (as_dict v)) (enumerate 0 items)"

definition entry_issues :: "val list \<Rightarrow> tree_issue list" where
  "entry_issues items = concat (map (\<lambda>(i, v). case as_dict v of
     Some _ \<Rightarrow> [] | None \<Rightarrow> [mk_issue None (intent_path i) ''intent entry must be an object'']) (enumerate 0 items))"

definition intent_id :: "(string, val) dict \<Rightarrow> string option" where
  "intent_id intent = (case get_val intent ''id'' of VStr s \<Rightarrow> if s \<noteq> [] then Some s else None | _ \<Rightarrow> None)"

definition add_row :: "intent_row \<Rightarrow> (string, intent_row list) dict \<Rightarrow> (string, intent_row list) dict" where
  "add_row row groups = (case intent_id (snd row) of
       None \<Rightarrow> groups
     | Some k \<Rightarrow> dict_set k (dict_get_or groups k [] @ [row]) groups)"

definition group_rows :: "intent_row list \<Rightarrow> (string, intent_row list) dict" where
  "group_rows rows = fold add_row rows []"

definition id_issues :: "intent_row list \<Rightarrow> tree_issue list" where
  "id_issues rows = concat (map (\<lambda>(i, intent). if intent_id intent = None
     then [mk_issue None (intent_path i @ ''.id'') ''missing or invalid id''] else []) rows)"

definition duplicate_issues :: "(string, intent_row list) dict \<Rightarrow> tree_issue list" where
  "duplicate_issues groups = concat (map (\<lambda>(k, rows). if 1 < length rows
     then map (\<lambda>(i, _). mk_issue (Some k) (intent_path i @ ''.id'') (''duplicate id '' @ quoted k)) rows else []) groups)"

section \<open>Links\<close>

record tree_scan =
  ts_issues :: "tree_issue list"
  ts_parent_of :: "(string, string) dict"
  ts_children_of :: "(string, string list) dict"
  ts_no_parent :: "(string \<times> string) list"

definition add_issue :: "tree_issue \<Rightarrow> tree_scan \<Rightarrow> tree_scan" where
  "add_issue i s = s\<lparr>ts_issues := ts_issues s @ [i]\<rparr>"

definition scan_parent :: "string list \<Rightarrow> string \<Rightarrow> (string, val) dict \<Rightarrow> string \<Rightarrow> tree_scan \<Rightarrow> tree_scan" where
  "scan_parent existing k links path s =
     (let bad = add_issue (mk_issue (Some k) (path @ ''.parent_intent'') ''parent_intent must be a non-empty string or null'') s in
      case get_val links ''parent_intent'' of
        VNone \<Rightarrow> s\<lparr>ts_no_parent := ts_no_parent s @ [(k, path @ ''.parent_intent'')]\<rparr>
      | VStr p \<Rightarrow>
          if p = [] then bad
          else if p \<notin> set existing then
            add_issue (mk_issue (Some k) (path @ ''.parent_intent'') (''parent_intent '' @ quoted p @ '' does not exist'')) s
          else s\<lparr>ts_parent_of := dict_set k p (ts_parent_of s),
            ts_children_of := dict_set p (append_new (dict_get_or (ts_children_of s) p []) k) (ts_children_of s)\<rparr>
      | _ \<Rightarrow> bad)"

definition related_issue :: "string list \<Rightarrow> string \<Rightarrow> string \<Rightarrow> nat \<times> val \<Rightarrow> tree_issue list" where
  "related_issue existing k path ridx =
     (let issue = mk_issue (Some k) (path @ ''.related_intents['' @ str_nat (fst ridx) @ '']'') in
      case snd ridx of
        VStr r \<Rightarrow>
          if r = [] then [issue ''related intent id must be a non-empty string'']
          else if r = k then [issue ''related_intents must not reference self'']
          else if r \<notin> set existing then [issue (''related intent '' @ quoted r @ '' does not exist'')]
          else []
      | _ \<Rightarrow> [issue ''related intent id must be a non-empty string''])"

definition related_issues :: "string list \<Rightarrow> string \<Rightarrow> (string, val) dict \<Rightarrow> string \<Rightarrow> tree_issue list" where
  "related_issues existing k links path = (case as_list (dict_get_or links ''related_intents'' (VList [])) of
       None \<Rightarrow> [mk_issue (Some k) (path @ ''.related_intents'') ''related_intents must be an array'']
     | Some rs \<Rightarrow> concat (map (related_issue existing k path) (enumerate 0 rs)))"

definition scan_group :: "string list \<Rightarrow> string \<times> intent_row list \<Rightarrow> tree_scan \<Rightarrow> tree_scan" where
  "scan_group existing g s = (case g of
       (k, [(index, intent)]) \<Rightarrow>
         (case extract_trace_links intent index of (links, path) \<Rightarrow>
            (let s1 = scan_parent existing k links path s in s1\<lparr>ts_issues := ts_issues s1 @ related_issues existing k links path\<rparr>))
     | _ \<Rightarrow> s)"

definition scan_links :: "(string, intent_row list) dict \<Rightarrow> tree_scan" where
  "scan_links groups = fold (scan_group (dict_keys groups)) groups
     \<lparr>ts_issues = [], ts_parent_of = [], ts_children_of = map (\<lambda>k. (k, [])) (dict_keys groups), ts_no_parent = []\<rparr>"

definition root_issues :: "(string \<times> string) list \<Rightarrow> tree_issue list" where
  "root_issues no_parent = (case sort_key fst no_parent of
       [] \<Rightarrow> [mk_issue None ''intents'' ''missing root intent: exactly one intent without parent_intent is required'']
     | [_] \<Rightarrow> []
     | first # others \<Rightarrow>
         mk_issue None ''intents'' (''multiple roots detected: '' @ str_join '', '' (map fst (first # others))) #
         map (\<lambda>(k, path). mk_issue (Some k) path ''non-root intent must define parent_intent'') others)"

section \<open>Cycles\<close>

definition cycle_issue :: "string list \<Rightarrow> string \<Rightarrow> tree_issue" where
  "cycle_issue stack node = mk_issue (Some node) ''intents[*].trace_links.parent_intent''
     (''parent_intent cycle detected: '' @ str_join '' -> ''
       (drop (case first_index ((=) node) stack of Some i \<Rightarrow> i | None \<Rightarrow> 0) stack @ [node]))"

text \<open>The depth-first search: a node is unvisited (0), on the stack (1) or finished (2).\<close>

function climb :: "(string, string) dict \<Rightarrow> string list \<Rightarrow> (string, nat) dict \<Rightarrow> tree_issue list \<Rightarrow> string \<Rightarrow> (string, nat) dict \<times> tree_issue list" where
  "climb par stack st iss node =
     (if dict_get_or st node 0 = 2 then (st, iss)
      else if dict_get_or st node 0 = 1 then (st, iss @ [cycle_issue stack node])
      else case dict_get par node of
          None \<Rightarrow> (dict_set node 2 (dict_set node 1 st), iss)
        | Some p \<Rightarrow> (case climb par (stack @ [node]) (dict_set node 1 st) iss p of (st2, iss2) \<Rightarrow> (dict_set node 2 st2, iss2)))"
  by pat_completeness auto
termination
proof (relation "measure (\<lambda>(par, stack, st, iss, node). card {k \<in> set (dict_keys par). dict_get_or st k 0 \<notin> {1, 2}})")
  fix par :: "(string, string) dict" and stack :: "string list" and st :: "(string, nat) dict" and iss :: "tree_issue list" and node p :: string
  assume unseen: "dict_get_or st node 0 \<noteq> 2" "dict_get_or st node 0 \<noteq> 1" and p: "dict_get par node = Some p"
  let ?U = "\<lambda>st. {k \<in> set (dict_keys par). dict_get_or st k 0 \<notin> {1, 2::nat}}"
  have "node \<in> set (dict_keys par)" using p by (metis dict_get_None_iff option.distinct(1))
  then have "?U (dict_set node 1 st) \<subset> ?U st" using unseen by (auto simp: dict_get_or_def dict_simps split: if_splits)
  then show "((par, stack @ [node], dict_set node 1 st, iss, p), par, stack, st, iss, node)
      \<in> measure (\<lambda>(par, stack, st, iss, node). card {k \<in> set (dict_keys par). dict_get_or st k 0 \<notin> {1, 2}})"
    by (simp add: psubset_card_mono)
qed simp

declare climb.simps [simp del]

definition cycle_issues :: "(string, string) dict \<Rightarrow> string list \<Rightarrow> tree_issue list" where
  "cycle_issues par existing = snd (fold (\<lambda>node (st, iss). climb par [] st iss node) (sort existing) ([], []))"

section \<open>The validator\<close>

definition leaf_issues :: "(string, string list) dict \<Rightarrow> (string, intent_row list) dict \<Rightarrow> tree_issue list" where
  "leaf_issues children groups = concat (map (\<lambda>(k, rows). case rows of
       [(index, intent)] \<Rightarrow>
         if dict_get_or children k [] \<noteq> [] \<or> has_success_criteria intent then []
         else [mk_issue (Some k) (intent_path index @ ''.success_criteria'') ''leaf intent must define success_criteria'']
     | _ \<Rightarrow> []) groups)"

definition tree_issues :: "val list \<Rightarrow> tree_issue list" where
  "tree_issues items =
     (let rows = intent_rows items; groups = group_rows rows; scan = scan_links groups in
      entry_issues items @ id_issues rows @ duplicate_issues groups @ ts_issues scan @ root_issues (ts_no_parent scan) @
      cycle_issues (ts_parent_of scan) (dict_keys groups) @ leaf_issues (ts_children_of scan) groups)"

definition validate_intent_tree :: "(string, val) dict \<Rightarrow> tree_issue list" where
  "validate_intent_tree payload = (case extract_intents payload of
       None \<Rightarrow> [mk_issue None ''intents'' ''missing intents array'']
     | Some items \<Rightarrow> sort_key (\<lambda>i. (case ti_intent_id i of None \<Rightarrow> [] | Some s \<Rightarrow> s, ti_path i, ti_message i)) (tree_issues items))"

section \<open>The search finds the cycles\<close>

definition parents :: "(string, string) dict \<Rightarrow> (string \<times> string) set" where
  "parents par = {(k, p). dict_get par k = Some p}"

definition tops_out :: "(string, string) dict \<Rightarrow> string \<Rightarrow> bool" where
  "tops_out par k \<longleftrightarrow> (\<exists>r. (k, r) \<in> (parents par)\<^sup>* \<and> dict_get par r = None)"

lemma tops_out_root: "dict_get par k = None \<Longrightarrow> tops_out par k"
  by (auto simp: tops_out_def)

lemma tops_out_step: "dict_get par k = Some p \<Longrightarrow> tops_out par p \<Longrightarrow> tops_out par k"
  by (auto simp: tops_out_def parents_def intro: converse_rtrancl_into_rtrancl)

lemma mark_get: "dict_get_or (dict_set k v st) k' d = (if k' = k then v else dict_get_or st k' d)"
  by (simp add: dict_get_or_def dict_simps)

lemma climb_extends: "\<exists>more. snd (climb par stack st iss node) = iss @ more"
proof (induction par stack st iss node rule: climb.induct)
  case (1 par stack st iss node)
  then show ?case by (subst climb.simps) (auto split: option.splits prod.splits)
qed

lemma climb_silent:
  assumes "climb par stack st iss node = (st', iss)" "\<forall>k. dict_get_or st k 0 = 2 \<longrightarrow> tops_out par k"
  shows "tops_out par node \<and> (\<forall>k. dict_get_or st' k 0 = 2 \<longrightarrow> tops_out par k)"
  using assms
proof (induction par stack st iss node arbitrary: st' rule: climb.induct)
  case (1 par stack st iss node)
  consider "dict_get_or st node 0 = 2" | "dict_get_or st node 0 = 1" | "dict_get_or st node 0 \<noteq> 2" "dict_get_or st node 0 \<noteq> 1" by blast
  then show ?case
  proof cases
    case 3
    show ?thesis
    proof (cases "dict_get par node")
      case None
      then show ?thesis using 1(2,3) 3 by (subst (asm) climb.simps) (auto simp: mark_get tops_out_root split: if_splits)
    next
      case (Some p)
      obtain st2 where rec: "climb par (stack @ [node]) (dict_set node 1 st) iss p = (st2, iss)" and st': "st' = dict_set node 2 st2"
        using 1(2) 3 Some by (subst (asm) climb.simps) (auto split: prod.splits)
      have "\<forall>k. dict_get_or (dict_set node 1 st) k 0 = 2 \<longrightarrow> tops_out par k" using 1(3) by (simp add: mark_get)
      from 1(1)[OF 3 Some rec this] show ?thesis using tops_out_step[OF Some] by (auto simp: st' mark_get)
    qed
  qed (use 1(2,3) in \<open>simp_all add: climb.simps\<close>)
qed

lemma climb_acyclic:
  assumes "\<forall>k. (k, k) \<notin> (parents par)\<^sup>+" "\<forall>k. dict_get_or st k 0 = 1 \<longrightarrow> (k, node) \<in> (parents par)\<^sup>+"
    "climb par stack st iss node = (st', iss')"
  shows "iss' = iss \<and> (\<forall>k. dict_get_or st' k 0 = 1 \<longrightarrow> dict_get_or st k 0 = 1)"
  using assms
proof (induction par stack st iss node arbitrary: st' iss' rule: climb.induct)
  case (1 par stack st iss node)
  consider "dict_get_or st node 0 = 2" | "dict_get_or st node 0 = 1" | "dict_get_or st node 0 \<noteq> 2" "dict_get_or st node 0 \<noteq> 1" by blast
  then show ?case
  proof cases
    case 3
    show ?thesis
    proof (cases "dict_get par node")
      case None
      then show ?thesis using 1(4) 3 by (subst (asm) climb.simps) (auto simp: mark_get split: if_splits)
    next
      case (Some p)
      obtain st2 where rec: "climb par (stack @ [node]) (dict_set node 1 st) iss p = (st2, iss')" and st': "st' = dict_set node 2 st2"
        using 1(4) 3 Some by (subst (asm) climb.simps) (auto split: prod.splits)
      have np: "(node, p) \<in> parents par" using Some by (simp add: parents_def)
      have "\<forall>k. dict_get_or (dict_set node 1 st) k 0 = 1 \<longrightarrow> (k, p) \<in> (parents par)\<^sup>+"
        using 1(3) np by (auto simp: mark_get intro: trancl_into_trancl)
      from 1(1)[OF 3 Some 1(2) this rec] show ?thesis by (auto simp: st' mark_get split: if_splits)
    qed
  qed (use 1(2,3,4) in \<open>auto simp: climb.simps\<close>)
qed

lemma top_no_cycle:
  assumes "tops_out par k"
  shows "(k, k) \<notin> (parents par)\<^sup>+"
proof
  assume cyc: "(k, k) \<in> (parents par)\<^sup>+"
  obtain r where r: "(k, r) \<in> (parents par)\<^sup>*" "dict_get par r = None" using assms by (auto simp: tops_out_def)
  from r(1) have "(r, r) \<in> (parents par)\<^sup>+"
  proof (induction rule: rtrancl_induct)
    case (step y z)
    obtain x where "(y, x) \<in> parents par" "(x, y) \<in> (parents par)\<^sup>*" using tranclD[OF step.IH] by blast
    moreover have "x = z" using calculation(1) step.hyps(2) by (simp add: parents_def)
    ultimately show ?case using step.hyps(2) by (meson rtrancl_into_trancl1)
  qed (rule cyc)
  from tranclD[OF this] show False using r(2) by (auto simp: parents_def)
qed

lemma climbs_extend: "\<exists>more. snd (fold (\<lambda>node (st, iss). climb par [] st iss node) ks (st, iss)) = iss @ more"
proof (induction ks arbitrary: st iss)
  case (Cons k ks)
  obtain st1 iss1 where one: "climb par [] st iss k = (st1, iss1)" by fastforce
  then obtain more where "iss1 = iss @ more" using climb_extends[of par "[]" st iss k] by auto
  then show ?case using Cons.IH[of st1 iss1] one by auto
qed simp

lemma climbs_silent:
  assumes "snd (fold (\<lambda>node (st, iss). climb par [] st iss node) ks (st, [])) = []" "\<forall>k. dict_get_or st k 0 = 2 \<longrightarrow> tops_out par k"
  shows "\<forall>k\<in>set ks. tops_out par k"
  using assms
proof (induction ks arbitrary: st)
  case (Cons k ks)
  obtain st1 iss1 where one: "climb par [] st [] k = (st1, iss1)" by fastforce
  then have "iss1 = []" using Cons.prems(1) climbs_extend[of par ks st1 iss1] by auto
  with one Cons.prems(1) have rest: "snd (fold (\<lambda>node (st, iss). climb par [] st iss node) ks (st1, [])) = []" "climb par [] st [] k = (st1, [])"
    by auto
  then show ?case using climb_silent[OF rest(2) Cons.prems(2)] Cons.IH[OF rest(1)] by auto
qed simp

lemma climbs_acyclic:
  assumes "\<forall>k. (k, k) \<notin> (parents par)\<^sup>+" "\<forall>k. dict_get_or st k 0 \<noteq> 1"
  shows "snd (fold (\<lambda>node (st, iss). climb par [] st iss node) ks (st, iss)) = iss"
  using assms(2)
proof (induction ks arbitrary: st)
  case (Cons k ks)
  obtain st1 iss1 where one: "climb par [] st iss k = (st1, iss1)" by fastforce
  then have "iss1 = iss" "\<forall>k. dict_get_or st1 k 0 \<noteq> 1" using climb_acyclic[OF assms(1) _ one] Cons.prems by auto
  then show ?case using one Cons.IH by simp
qed simp

lemma cycle_issues_Nil:
  assumes "\<And>k p. dict_get par k = Some p \<Longrightarrow> k \<in> set existing"
  shows "cycle_issues par existing = [] \<longleftrightarrow> (\<forall>k\<in>set existing. tops_out par k)"
proof
  assume "cycle_issues par existing = []"
  then show "\<forall>k\<in>set existing. tops_out par k" using climbs_silent[of par "sort existing" "[]"] by (simp add: cycle_issues_def dict_get_or_def)
next
  assume top: "\<forall>k\<in>set existing. tops_out par k"
  have "(k, k) \<notin> (parents par)\<^sup>+" for k
  proof
    assume cyc: "(k, k) \<in> (parents par)\<^sup>+"
    then have "k \<in> set existing" using tranclD[OF cyc] assms by (auto simp: parents_def)
    then show False using top_no_cycle top cyc by blast
  qed
  then show "cycle_issues par existing = []" using climbs_acyclic[of par "[]" "sort existing" "[]"] by (simp add: cycle_issues_def dict_get_or_def)
qed

section \<open>Rows and groups\<close>

lemma rows_of_dicts: "intent_rows (map VDict ns) = enumerate 0 ns"
proof -
  have "List.map_filter (\<lambda>(i, v). map_option (Pair i) (as_dict v)) (enumerate m (map VDict ns)) = enumerate m ns" for m
    by (induction ns arbitrary: m) (auto simp: List.map_filter_simps)
  then show ?thesis by (simp add: intent_rows_def)
qed

lemma entry_issues_Nil: "entry_issues items = [] \<longleftrightarrow> (\<exists>ns. items = map VDict ns)"
proof -
  have "concat (map (\<lambda>(i, v). case as_dict v of Some _ \<Rightarrow> [] | None \<Rightarrow> [mk_issue None (intent_path i) ''intent entry must be an object'']) (enumerate m items)) = []
      \<longleftrightarrow> (\<forall>v\<in>set items. as_dict v \<noteq> None)" for m
    by (induction items arbitrary: m) (auto split: option.splits)
  then have "entry_issues items = [] \<longleftrightarrow> (\<forall>v\<in>set items. as_dict v \<noteq> None)" by (simp add: entry_issues_def)
  also have "as_dict v \<noteq> None \<longleftrightarrow> (\<exists>d. v = VDict d)" for v by (cases v) (simp_all add: as_dict_def)
  then have "(\<forall>v\<in>set items. as_dict v \<noteq> None) \<longleftrightarrow> (\<forall>v\<in>set items. \<exists>d. v = VDict d)" by simp
  also have "\<dots> \<longleftrightarrow> (\<exists>ns. items = map VDict ns)" by (rule ex_map_conv[symmetric])
  finally show ?thesis .
qed

lemma id_issues_Nil: "id_issues (enumerate m ns) = [] \<longleftrightarrow> (\<forall>n\<in>set ns. intent_id n \<noteq> None)"
  by (induction ns arbitrary: m) (auto simp: id_issues_def)

lemma group_get:
  "dict_get (fold add_row rows groups) k =
     (let old = (case dict_get groups k of None \<Rightarrow> [] | Some rs \<Rightarrow> rs); new = filter (\<lambda>r. intent_id (snd r) = Some k) rows in
      if new = [] then dict_get groups k else Some (old @ new))"
proof (induction rows arbitrary: groups)
  case (Cons r rows)
  then show ?case by (auto simp: add_row_def dict_simps dict_get_or_def Let_def split: option.splits)
qed simp

lemma groups_wf: "dict_wf groups \<Longrightarrow> dict_wf (fold add_row rows groups)"
  by (induction rows arbitrary: groups) (auto simp: add_row_def split: option.splits)

lemma set_new: "k \<notin> set (dict_keys d) \<Longrightarrow> dict_set k v d = d @ [(k, v)]"
  by (induction d) auto

lemma group_distinct:
  assumes "\<forall>r\<in>set rows. intent_id (snd r) \<noteq> None" "distinct (map (intent_id \<circ> snd) rows)"
    "\<forall>r\<in>set rows. the (intent_id (snd r)) \<notin> set (dict_keys groups)"
  shows "fold add_row rows groups = groups @ map (\<lambda>r. (the (intent_id (snd r)), [r])) rows"
  using assms
proof (induction rows arbitrary: groups)
  case (Cons r rows)
  obtain k where k: "intent_id (snd r) = Some k" using Cons.prems(1) by auto
  then have fresh: "k \<notin> set (dict_keys groups)" using Cons.prems(3) by simp
  then have one: "add_row r groups = groups @ [(k, [r])]"
    by (simp add: add_row_def k set_new dict_get_or_def dict_get_None_iff[THEN iffD2])
  have "\<forall>x\<in>set rows. the (intent_id (snd x)) \<noteq> k" using Cons.prems(1,2) k by (force simp: image_iff)
  then show ?case using Cons.IH[of "groups @ [(k, [r])]"] Cons.prems k one by auto
qed simp

lemma duplicates_Nil:
  assumes "\<forall>r\<in>set rows. intent_id (snd r) \<noteq> None"
  shows "duplicate_issues (group_rows rows) = [] \<longleftrightarrow> distinct (map (intent_id \<circ> snd) rows)"
proof
  assume "distinct (map (intent_id \<circ> snd) rows)"
  then have "group_rows rows = map (\<lambda>r. (the (intent_id (snd r)), [r])) rows" using group_distinct[OF assms, of "[]"] by (simp add: group_rows_def)
  then show "duplicate_issues (group_rows rows) = []" by (simp add: duplicate_issues_def o_def)
next
  assume none: "duplicate_issues (group_rows rows) = []"
  have wf: "dict_wf (group_rows rows)" by (simp add: group_rows_def groups_wf)
  have few: "length (filter (\<lambda>r. intent_id (snd r) = Some k) rows) \<le> 1" for k
  proof (rule ccontr)
    assume many: "\<not> length (filter (\<lambda>r. intent_id (snd r) = Some k) rows) \<le> 1"
    then have "dict_get (group_rows rows) k = Some (filter (\<lambda>r. intent_id (snd r) = Some k) rows)"
      by (auto simp: group_rows_def group_get Let_def)
    then have "(k, filter (\<lambda>r. intent_id (snd r) = Some k) rows) \<in> set (group_rows rows)" by (rule map_of_SomeD)
    then have "(if 1 < length (filter (\<lambda>r. intent_id (snd r) = Some k) rows) then map (\<lambda>(i, _). mk_issue (Some k) (intent_path i @ ''.id'') (''duplicate id '' @ quoted k)) (filter (\<lambda>r. intent_id (snd r) = Some k) rows) else []) = []"
      using none unfolding duplicate_issues_def concat_eq_Nil_conv by fastforce
    then show False using many by (auto split: if_splits)
  qed
  show "distinct (map (intent_id \<circ> snd) rows)"
  proof (rule ccontr)
    assume "\<not> distinct (map (intent_id \<circ> snd) rows)"
    then obtain xs ys zs v where dec: "map (intent_id \<circ> snd) rows = xs @ [v] @ ys @ [v] @ zs" using not_distinct_decomp by blast
    have "v \<in> set (map (intent_id \<circ> snd) rows)" by (simp add: dec)
    then obtain k where k: "v = Some k" using assms by auto
    have "length (filter (\<lambda>r. intent_id (snd r) = Some k) rows) = length (filter ((=) (Some k)) (map (intent_id \<circ> snd) rows))"
      by (simp add: filter_map o_def eq_commute)
    also have "\<dots> \<ge> 2" unfolding dec k by simp
    finally show False using few[of k] by simp
  qed
qed

section \<open>Links of rows\<close>

definition links_of :: "(string, val) dict \<Rightarrow> (string, val) dict" where
  "links_of intent = fst (extract_trace_links intent 0)"

lemma extract_links: "fst (extract_trace_links intent i) = links_of intent"
  by (simp add: links_of_def extract_trace_links_def split: option.splits)

abbreviation parent_entry :: "(string, val) dict \<Rightarrow> val" where
  "parent_entry n \<equiv> get_val (links_of n) ''parent_intent''"

definition parent_ok :: "string set \<Rightarrow> (string, val) dict \<Rightarrow> bool" where
  "parent_ok ids n \<longleftrightarrow> parent_entry n = VNone \<or> (\<exists>p. parent_entry n = VStr p \<and> p \<noteq> [] \<and> p \<in> ids)"

definition related_ok :: "string set \<Rightarrow> string \<Rightarrow> (string, val) dict \<Rightarrow> bool" where
  "related_ok ids k n \<longleftrightarrow> (\<exists>rs. dict_get_or (links_of n) ''related_intents'' (VList []) = VList rs \<and>
     (\<forall>r\<in>set rs. \<exists>t. r = VStr t \<and> t \<noteq> [] \<and> t \<noteq> k \<and> t \<in> ids))"

definition parent_link :: "string list \<Rightarrow> (string, val) dict \<Rightarrow> string option" where
  "parent_link ex n = (case parent_entry n of VStr p \<Rightarrow> if p \<noteq> [] \<and> p \<in> set ex then Some p else None | _ \<Rightarrow> None)"

lemma related_issues_Nil:
  assumes "links = links_of n"
  shows "related_issues ex k links path = [] \<longleftrightarrow> related_ok (set ex) k n"
proof -
  have one: "related_issue ex k path (i, r) = [] \<longleftrightarrow> (\<exists>t. r = VStr t \<and> t \<noteq> [] \<and> t \<noteq> k \<and> t \<in> set ex)" for i r
    by (cases r) (simp_all add: related_issue_def Let_def)
  have "concat (map (related_issue ex k path) (enumerate m rs)) = [] \<longleftrightarrow> (\<forall>r\<in>set rs. \<exists>t. r = VStr t \<and> t \<noteq> [] \<and> t \<noteq> k \<and> t \<in> set ex)" for m rs
    by (induction rs arbitrary: m) (simp_all add: one)
  then show ?thesis by (cases "dict_get_or (links_of n) ''related_intents'' (VList [])")
      (simp_all add: related_issues_def related_ok_def as_list_def assms del: concat_eq_Nil_conv)
qed

lemma scan_row:
  fixes s ex k i n
  defines "t \<equiv> scan_group ex (k, [(i, n)]) s"
  shows "ts_issues t = [] \<longleftrightarrow> ts_issues s = [] \<and> parent_ok (set ex) n \<and> related_ok (set ex) k n"
    and "ts_parent_of t = (case parent_link ex n of None \<Rightarrow> ts_parent_of s | Some p \<Rightarrow> dict_set k p (ts_parent_of s))"
    and "dict_get_or (ts_children_of t) c [] = [] \<longleftrightarrow> dict_get_or (ts_children_of s) c [] = [] \<and> parent_link ex n \<noteq> Some c"
    and "length (ts_no_parent t) = length (ts_no_parent s) + (if parent_entry n = VNone then 1 else 0)"
proof -
  obtain path where ext: "extract_trace_links n i = (links_of n, path)" using extract_links[of n i] by (metis prod.collapse)
  have t: "t = (let s1 = scan_parent ex k (links_of n) path s in s1\<lparr>ts_issues := ts_issues s1 @ related_issues ex k (links_of n) path\<rparr>)"
    by (simp add: t_def scan_group_def ext)
  show "ts_issues t = [] \<longleftrightarrow> ts_issues s = [] \<and> parent_ok (set ex) n \<and> related_ok (set ex) k n"
    by (cases "parent_entry n") (auto simp: t Let_def related_issues_Nil[OF refl] scan_parent_def add_issue_def parent_ok_def)
  show "ts_parent_of t = (case parent_link ex n of None \<Rightarrow> ts_parent_of s | Some p \<Rightarrow> dict_set k p (ts_parent_of s))"
    by (cases "parent_entry n") (auto simp: t Let_def scan_parent_def add_issue_def parent_link_def)
  have "append_new xs x \<noteq> []" for xs :: "string list" and x by (auto simp: append_new_def)
  then show "dict_get_or (ts_children_of t) c [] = [] \<longleftrightarrow> dict_get_or (ts_children_of s) c [] = [] \<and> parent_link ex n \<noteq> Some c"
    by (cases "parent_entry n") (auto simp: t Let_def scan_parent_def add_issue_def parent_link_def mark_get)
  show "length (ts_no_parent t) = length (ts_no_parent s) + (if parent_entry n = VNone then 1 else 0)"
    by (cases "parent_entry n") (auto simp: t Let_def scan_parent_def add_issue_def)
qed

lemma scan_many:
  fixes s ex rows
  defines "t \<equiv> fold (scan_group ex) (map (\<lambda>r. (the (intent_id (snd r)), [r])) rows) s"
  shows "ts_issues t = [] \<longleftrightarrow> ts_issues s = [] \<and> (\<forall>r\<in>set rows. parent_ok (set ex) (snd r) \<and> related_ok (set ex) (the (intent_id (snd r))) (snd r))"
    and "dict_get_or (ts_children_of t) c [] = [] \<longleftrightarrow> dict_get_or (ts_children_of s) c [] = [] \<and> (\<forall>r\<in>set rows. parent_link ex (snd r) \<noteq> Some c)"
    and "length (ts_no_parent t) = length (ts_no_parent s) + length (filter (\<lambda>r. parent_entry (snd r) = VNone) rows)"
  unfolding t_def
proof (induction rows arbitrary: s)
  case (Cons r rows)
  obtain i n where r: "r = (i, n)" by fastforce
  case 1 show ?case using Cons.IH(1)[of "scan_group ex (the (intent_id n), [(i, n)]) s"] by (simp add: r scan_row(1) conj_ac)
  case 2 show ?case using Cons.IH(2)[of "scan_group ex (the (intent_id n), [(i, n)]) s"] by (simp add: r scan_row(3))
  case 3 show ?case using Cons.IH(3)[of "scan_group ex (the (intent_id n), [(i, n)]) s"] by (simp add: r scan_row(4))
qed simp_all

lemma scan_parents:
  assumes "distinct (map (\<lambda>r. the (intent_id (snd r))) rows)"
  shows "dict_get (ts_parent_of (fold (scan_group ex) (map (\<lambda>r. (the (intent_id (snd r)), [r])) rows) s)) k = Some p \<longleftrightarrow>
    (\<exists>r\<in>set rows. the (intent_id (snd r)) = k \<and> parent_link ex (snd r) = Some p) \<or>
    dict_get (ts_parent_of s) k = Some p \<and> (\<forall>r\<in>set rows. the (intent_id (snd r)) = k \<longrightarrow> parent_link ex (snd r) = None)"
  using assms
proof (induction rows arbitrary: s)
  case (Cons r rows)
  obtain i n where r: "r = (i, n)" by fastforce
  have "\<forall>x\<in>set rows. the (intent_id (snd x)) \<noteq> the (intent_id n)" using Cons.prems r by force
  then show ?case using Cons.IH[of "scan_group ex (the (intent_id n), [(i, n)]) s"] Cons.prems
    by (cases "parent_link ex n"; cases "the (intent_id n) = k") (auto simp: r scan_row(2) dict_simps)
qed simp

lemma root_issues_Nil: "root_issues np = [] \<longleftrightarrow> length np = 1"
proof -
  define xs where "xs = sort_key fst np"
  have "length np = length xs" by (simp add: xs_def)
  then show ?thesis unfolding root_issues_def xs_def[symmetric] by (cases xs; cases "tl xs") (auto split: list.splits)
qed

section \<open>Nothing is reported exactly for trees\<close>

definition intent_ids :: "(string, val) dict list \<Rightarrow> string set" where
  "intent_ids ns = {k. \<exists>n\<in>set ns. intent_id n = Some k}"

definition parent_rel :: "(string, val) dict list \<Rightarrow> (string \<times> string) set" where
  "parent_rel ns = {(k, p). \<exists>n\<in>set ns. intent_id n = Some k \<and> parent_entry n = VStr p}"

definition links_ok :: "(string, val) dict list \<Rightarrow> bool" where
  "links_ok ns \<longleftrightarrow> (\<forall>n\<in>set ns. intent_id n \<noteq> None) \<and> distinct (map intent_id ns) \<and>
     (\<forall>n\<in>set ns. parent_ok (intent_ids ns) n \<and> related_ok (intent_ids ns) (the (intent_id n)) n)"

definition rooted :: "(string, val) dict list \<Rightarrow> bool" where
  "rooted ns \<longleftrightarrow> (\<exists>root\<in>set ns. parent_entry root = VNone \<and> (\<forall>k\<in>intent_ids ns. (k, the (intent_id root)) \<in> (parent_rel ns)\<^sup>*))"

definition leaves_measured :: "(string, val) dict list \<Rightarrow> bool" where
  "leaves_measured ns \<longleftrightarrow> (\<forall>n\<in>set ns. has_success_criteria n \<or> (\<exists>k. (k, the (intent_id n)) \<in> parent_rel ns))"

lemma same_intent: "distinct (map intent_id ns) \<Longrightarrow> m \<in> set ns \<Longrightarrow> n \<in> set ns \<Longrightarrow> intent_id m = intent_id n \<Longrightarrow> m = n"
  by (simp add: distinct_map inj_on_def)

lemma parent_rel_functional: "distinct (map intent_id ns) \<Longrightarrow> n \<in> set ns \<Longrightarrow> intent_id n = Some k \<Longrightarrow> (k, p) \<in> parent_rel ns \<longleftrightarrow> parent_entry n = VStr p"
  by (auto simp: parent_rel_def dest: same_intent)

lemma rooted_iff:
  assumes ok: "links_ok ns" and par: "parents par = parent_rel ns"
  shows "rooted ns \<longleftrightarrow> length (filter (\<lambda>n. parent_entry n = VNone) ns) = 1 \<and> (\<forall>k\<in>intent_ids ns. tops_out par k)"
proof
  have dist: "distinct (map intent_id ns)" and ids: "\<And>n. n \<in> set ns \<Longrightarrow> intent_id n \<noteq> None"
    and pok: "\<And>n. n \<in> set ns \<Longrightarrow> parent_ok (intent_ids ns) n" using ok by (auto simp: links_ok_def)
  have none: "dict_get par k = None \<longleftrightarrow> (\<forall>p. (k, p) \<notin> parent_rel ns)" for k by (cases "dict_get par k") (auto simp: par[symmetric] parents_def)
  have orphan: "parent_entry n = VNone \<longleftrightarrow> (\<forall>p. (the (intent_id n), p) \<notin> parent_rel ns)" if n: "n \<in> set ns" for n
  proof -
    obtain k where k: "intent_id n = Some k" using ids[OF n] by blast
    show ?thesis using pok[OF n] by (auto simp: parent_rel_functional[OF dist n k] k parent_ok_def)
  qed
  {
    assume "rooted ns"
    then obtain root where root: "root \<in> set ns" "parent_entry root = VNone" "\<forall>k\<in>intent_ids ns. (k, the (intent_id root)) \<in> (parent_rel ns)\<^sup>*"
      by (auto simp: rooted_def)
    have only: "m = root" if m: "m \<in> set ns" "parent_entry m = VNone" for m
    proof -
      have "the (intent_id m) \<in> intent_ids ns" using m(1) ids[OF m(1)] by (auto simp: intent_ids_def)
      then have "(the (intent_id m), the (intent_id root)) \<in> (parent_rel ns)\<^sup>*" using root(3) by blast
      then have "the (intent_id m) = the (intent_id root)" using orphan[OF m(1)] m(2) by (blast elim: converse_rtranclE)
      then show ?thesis using same_intent[OF dist m(1) root(1)] ids[OF m(1)] ids[OF root(1)] by auto
    qed
    have "set (filter (\<lambda>n. parent_entry n = VNone) ns) = {root}"
    proof (intro equalityI subsetI)
      fix x assume "x \<in> set (filter (\<lambda>n. parent_entry n = VNone) ns)"
      then show "x \<in> {root}" using only[of x] by simp
    qed (simp add: root(1,2))
    moreover have "distinct (filter (\<lambda>n. parent_entry n = VNone) ns)" using dist by (simp add: distinct_map)
    ultimately have "length (filter (\<lambda>n. parent_entry n = VNone) ns) = 1" using distinct_card[of "filter (\<lambda>n. parent_entry n = VNone) ns"] by (simp del: set_filter)
    moreover have "dict_get par (the (intent_id root)) = None" using orphan[OF root(1)] root(2) none by blast
    ultimately show "length (filter (\<lambda>n. parent_entry n = VNone) ns) = 1 \<and> (\<forall>k\<in>intent_ids ns. tops_out par k)"
      using root(3) par by (auto simp: tops_out_def)
  }
  assume one: "length (filter (\<lambda>n. parent_entry n = VNone) ns) = 1 \<and> (\<forall>k\<in>intent_ids ns. tops_out par k)"
  then obtain root where fil: "filter (\<lambda>n. parent_entry n = VNone) ns = [root]" by (auto simp: length_Suc_conv)
  have "root \<in> set (filter (\<lambda>n. parent_entry n = VNone) ns)" by (simp add: fil)
  then have root: "root \<in> set ns" "parent_entry root = VNone" by auto
  have "(k, the (intent_id root)) \<in> (parent_rel ns)\<^sup>*" if k: "k \<in> intent_ids ns" for k
  proof -
    obtain r where r: "(k, r) \<in> (parent_rel ns)\<^sup>*" "dict_get par r = None" using one k par by (auto simp: tops_out_def)
    from r(1) have "r \<in> intent_ids ns"
      by (induction rule: rtrancl_induct) (use k pok in \<open>fastforce simp: parent_rel_def parent_ok_def\<close>)+
    then obtain m where m: "m \<in> set ns" "intent_id m = Some r" by (auto simp: intent_ids_def)
    then have "parent_entry m = VNone" using orphan[OF m(1)] r(2) none by simp
    then have "m \<in> set (filter (\<lambda>n. parent_entry n = VNone) ns)" using m(1) by simp
    then show ?thesis using r(1) m(2) by (simp add: fil)
  qed
  then show "rooted ns" using root by (auto simp: rooted_def)
qed

lemma leaf_issues_Nil:
  "leaf_issues ch (map (\<lambda>r. (the (intent_id (snd r)), [r])) rows) = [] \<longleftrightarrow>
     (\<forall>r\<in>set rows. dict_get_or ch (the (intent_id (snd r))) [] \<noteq> [] \<or> has_success_criteria (snd r))"
  by (induction rows) (auto simp: leaf_issues_def split: prod.splits)

lemma filter_rows: "length (filter (\<lambda>r. P (snd r)) (enumerate m ns)) = length (filter P ns)"
  by (induction ns arbitrary: m) auto

lemma rows_snd: "(\<forall>r\<in>set (enumerate 0 ns). P (snd r)) \<longleftrightarrow> (\<forall>n\<in>set ns. P n)" "(\<exists>r\<in>set (enumerate 0 ns). P (snd r)) \<longleftrightarrow> (\<exists>n\<in>set ns. P n)"
proof -
  have "set ns = snd ` set (enumerate 0 ns)" by (metis list.set_map map_snd_enumerate)
  then show "(\<forall>r\<in>set (enumerate 0 ns). P (snd r)) \<longleftrightarrow> (\<forall>n\<in>set ns. P n)" "(\<exists>r\<in>set (enumerate 0 ns). P (snd r)) \<longleftrightarrow> (\<exists>n\<in>set ns. P n)" by simp_all
qed

lemma distinct_groups:
  assumes ids: "\<forall>n\<in>set ns. intent_id n \<noteq> None" and dist: "distinct (map intent_id ns)"
  shows "group_rows (enumerate 0 ns) = map (\<lambda>r. (the (intent_id (snd r)), [r])) (enumerate 0 ns)"
    and "fst ` set (group_rows (enumerate 0 ns)) = intent_ids ns"
    and "distinct (map (\<lambda>r. the (intent_id (snd r))) (enumerate 0 ns))"
proof -
  have "map (intent_id \<circ> snd) (enumerate 0 ns) = map intent_id ns" by (metis map_map map_snd_enumerate)
  then show groups: "group_rows (enumerate 0 ns) = map (\<lambda>r. (the (intent_id (snd r)), [r])) (enumerate 0 ns)"
    using group_distinct[of "enumerate 0 ns" "[]"] dist rows_snd(1)[of ns "\<lambda>n. intent_id n \<noteq> None"] ids by (simp add: group_rows_def)
  have keys: "map (\<lambda>r. the (intent_id (snd r))) (enumerate m ms) = map the (map intent_id ms)" for m ms
    by (induction ms arbitrary: m) simp_all
  have "set (dict_keys (group_rows (enumerate 0 ns))) = set (map the (map intent_id ns))" by (simp add: groups o_def keys)
  also have "\<dots> = intent_ids ns" using ids by (force simp: intent_ids_def image_iff)
  finally show "fst ` set (group_rows (enumerate 0 ns)) = intent_ids ns" by simp
  have "x \<noteq> None" if "x \<in> set (map intent_id ns)" for x using that ids by auto
  then have "inj_on the (set (map intent_id ns))" by (metis inj_onI option.expand)
  then show "distinct (map (\<lambda>r. the (intent_id (snd r))) (enumerate 0 ns))" using dist distinct_map[of the "map intent_id ns"] keys by metis
qed

text \<open>What the scan of the links collects.\<close>

lemma scan_distinct:
  assumes ids: "\<forall>n\<in>set ns. intent_id n \<noteq> None" and dist: "distinct (map intent_id ns)"
  defines "groups \<equiv> group_rows (enumerate 0 ns)"
  shows "ts_issues (scan_links groups) = [] \<longleftrightarrow> links_ok ns"
    and "length (ts_no_parent (scan_links groups)) = length (filter (\<lambda>n. parent_entry n = VNone) ns)"
    and "dict_get (ts_parent_of (scan_links groups)) k = Some p \<longleftrightarrow> (\<exists>n\<in>set ns. the (intent_id n) = k \<and> parent_link (dict_keys groups) n = Some p)"
    and "dict_get_or (ts_children_of (scan_links groups)) c [] = [] \<longleftrightarrow> (\<forall>n\<in>set ns. parent_link (dict_keys groups) n \<noteq> Some c)"
proof -
  note groups = distinct_groups(1)[OF ids dist, folded groups_def] and ex = distinct_groups(2)[OF ids dist, folded groups_def]
    and dk = distinct_groups(3)[OF ids dist]
  show "ts_issues (scan_links groups) = [] \<longleftrightarrow> links_ok ns"
    using ids dist unfolding scan_links_def by (subst (2) groups)
      (simp add: scan_many(1) ex links_ok_def rows_snd(1)[of ns "\<lambda>n. parent_ok (intent_ids ns) n \<and> related_ok (intent_ids ns) (the (intent_id n)) n"])
  show "length (ts_no_parent (scan_links groups)) = length (filter (\<lambda>n. parent_entry n = VNone) ns)"
    unfolding scan_links_def by (subst (2) groups) (simp add: scan_many(3) filter_rows[of "\<lambda>n. parent_entry n = VNone"])
  show "dict_get (ts_parent_of (scan_links groups)) k = Some p \<longleftrightarrow> (\<exists>n\<in>set ns. the (intent_id n) = k \<and> parent_link (dict_keys groups) n = Some p)"
    unfolding scan_links_def by (subst (2) groups)
      (simp add: scan_parents[OF dk] rows_snd(2)[of ns "\<lambda>n. the (intent_id n) = k \<and> parent_link (dict_keys groups) n = Some p"])
  have "dict_get_or (map (\<lambda>k. (k, [])) ks) c [] = ([] :: string list)" for ks :: "string list"
    by (induction ks) (auto simp: dict_get_or_def)
  then show "dict_get_or (ts_children_of (scan_links groups)) c [] = [] \<longleftrightarrow> (\<forall>n\<in>set ns. parent_link (dict_keys groups) n \<noteq> Some c)"
    unfolding scan_links_def by (subst (2) groups)
      (simp add: scan_many(2) rows_snd(1)[of ns "\<lambda>n. parent_link (dict_keys groups) n \<noteq> Some c"] del: map_map)
qed

lemma linked_tree:
  assumes ok: "links_ok ns"
  defines "groups \<equiv> group_rows (enumerate 0 ns)"
  shows "root_issues (ts_no_parent (scan_links groups)) = [] \<and> cycle_issues (ts_parent_of (scan_links groups)) (dict_keys groups) = [] \<longleftrightarrow> rooted ns"
    and "leaf_issues (ts_children_of (scan_links groups)) groups = [] \<longleftrightarrow> leaves_measured ns"
proof -
  have ids: "\<forall>n\<in>set ns. intent_id n \<noteq> None" and dist: "distinct (map intent_id ns)" using ok by (auto simp: links_ok_def)
  note ex = distinct_groups(2)[OF ids dist, folded groups_def] and scan = scan_distinct[OF ids dist, folded groups_def]
  have link: "parent_link (dict_keys groups) n = Some p \<longleftrightarrow> parent_entry n = VStr p" if "n \<in> set ns" for n p
    using that ok by (auto simp: links_ok_def parent_ok_def parent_link_def ex)
  have par: "parents (ts_parent_of (scan_links groups)) = parent_rel ns" using link ids by (force simp: parents_def parent_rel_def scan(3))
  have "k \<in> set (dict_keys groups)" if "dict_get (ts_parent_of (scan_links groups)) k = Some p" for k p
  proof -
    have "(k, p) \<in> parent_rel ns" using that by (simp add: par[symmetric] parents_def)
    then show ?thesis by (auto simp: ex parent_rel_def intent_ids_def)
  qed
  then show "root_issues (ts_no_parent (scan_links groups)) = [] \<and> cycle_issues (ts_parent_of (scan_links groups)) (dict_keys groups) = [] \<longleftrightarrow> rooted ns"
    using rooted_iff[OF ok par] cycle_issues_Nil[of "ts_parent_of (scan_links groups)" "dict_keys groups"] by (simp add: root_issues_Nil ex scan(2))
  have "(\<exists>n\<in>set ns. parent_link (dict_keys groups) n = Some c) \<longleftrightarrow> (\<exists>n\<in>set ns. intent_id n \<noteq> None \<and> parent_entry n = VStr c)" for c
    using link ids by blast
  then have "(\<exists>n\<in>set ns. parent_link (dict_keys groups) n = Some c) \<longleftrightarrow> (\<exists>k. (k, c) \<in> parent_rel ns)" for c
    unfolding parent_rel_def by auto
  then have child: "dict_get_or (ts_children_of (scan_links groups)) c [] \<noteq> [] \<longleftrightarrow> (\<exists>k. (k, c) \<in> parent_rel ns)" for c using scan(4) by blast
  show "leaf_issues (ts_children_of (scan_links groups)) groups = [] \<longleftrightarrow> leaves_measured ns"
    by (subst (2) distinct_groups(1)[OF ids dist, folded groups_def]) (simp add: child leaf_issues_Nil leaves_measured_def disj_commute
        rows_snd(1)[of ns "\<lambda>n. has_success_criteria n \<or> (\<exists>k. (k, the (intent_id n)) \<in> parent_rel ns)"])
qed

text \<open>
  C19. The validator reports nothing exactly for trees: when the payload holds a list of intents that
  are objects with distinct ids, whose parents and related intents exist, one of which has no parent
  and is reached from every intent along the parents, and whose intents without children define
  success criteria.
\<close>

theorem intent_tree_exact:
  "validate_intent_tree payload = [] \<longleftrightarrow>
     (\<exists>ns. extract_intents payload = Some (map VDict ns) \<and> links_ok ns \<and> rooted ns \<and> leaves_measured ns)"
proof (cases "extract_intents payload")
  case None
  then show ?thesis by (simp add: validate_intent_tree_def)
next
  case (Some items)
  have nil: "sort_key f xs = [] \<longleftrightarrow> xs = []" for f :: "tree_issue \<Rightarrow> string \<times> string \<times> string" and xs
    by (metis length_0_conv length_sort)
  have mid: "map (intent_id \<circ> snd) (enumerate 0 ns) = map intent_id ns" for ns :: "(string, val) dict list" by (metis map_map map_snd_enumerate)
  have "tree_issues (map VDict ns) = [] \<longleftrightarrow> links_ok ns \<and> rooted ns \<and> leaves_measured ns" for ns
  proof (cases "(\<forall>n\<in>set ns. intent_id n \<noteq> None) \<and> distinct (map intent_id ns)")
    case True
    then have "id_issues (enumerate 0 ns) = []" "duplicate_issues (group_rows (enumerate 0 ns)) = []"
      using duplicates_Nil[of "enumerate 0 ns"] rows_snd(1)[of ns "\<lambda>n. intent_id n \<noteq> None"] by (simp_all add: id_issues_Nil mid)
    moreover have "entry_issues (map VDict ns) = []" by (subst entry_issues_Nil) blast
    ultimately show ?thesis using scan_distinct(1)[of ns] linked_tree[of ns] True by (auto simp: tree_issues_def Let_def rows_of_dicts)
  next
    case False
    then have "id_issues (enumerate 0 ns) @ duplicate_issues (group_rows (enumerate 0 ns)) \<noteq> []"
      using duplicates_Nil[of "enumerate 0 ns"] rows_snd(1)[of ns "\<lambda>n. intent_id n \<noteq> None"] by (auto simp: id_issues_Nil mid)
    moreover have "\<not> links_ok ns" using False by (auto simp: links_ok_def)
    ultimately show ?thesis by (auto simp: tree_issues_def Let_def rows_of_dicts)
  qed
  moreover have "tree_issues items = [] \<Longrightarrow> \<exists>ns. items = map VDict ns" using entry_issues_Nil[of items] by (auto simp: tree_issues_def Let_def)
  ultimately show ?thesis using Some by (auto simp: validate_intent_tree_def nil)
qed

text \<open>A root with one measured leaf passes; two intents that are each other's parent have no root and a cycle.\<close>

definition demo_node :: "string \<Rightarrow> val \<Rightarrow> val" where
  "demo_node k p = VDict [(''id'', VStr k), (''success_criteria'', VList []), (''trace_links'', VDict [(''parent_intent'', p)])]"

lemma demo_trees:
  "validate_intent_tree [(''intents'', VList [demo_node ''a'' VNone, demo_node ''b'' (VStr ''a'')])] = []"
  "map ti_message (validate_intent_tree [(''intents'', VList [demo_node ''a'' (VStr ''b''), demo_node ''b'' (VStr ''a'')])]) =
     [''missing root intent: exactly one intent without parent_intent is required'', ''parent_intent cycle detected: a -> b -> a'']"
  by code_simp+

end
