(* ===== verification/Spec2Isabelle.thy ===== *)
theory Spec2Isabelle
  imports Network Compositional_Sound Task_Manager Guards Pipeline_Analysis File_Recovery File_Locks
    Policy_Conditions Policy_Replay Flow_Guarantees Intent_Store Intent_Tree
begin

text \<open>
  \<^bold>\<open>A verification library for TraceMind.\<close>

  TraceMind runs flows of agents.  This library covers six parts of it, each under
  \<^verbatim>\<open>src/tm/\<close>: the plan and network \<^emph>\<open>verifier\<close> (\<^verbatim>\<open>verify/\<close> with the plan format of \<^verbatim>\<open>pipeline/\<close>), the
  \<^emph>\<open>governance\<close> layer that admits requests (\<^verbatim>\<open>governance/\<close>), the \<^emph>\<open>task queue\<close> of the runtime
  (\<^verbatim>\<open>runtime/\<close>), the \<^emph>\<open>policies\<close> (\<^verbatim>\<open>policy/\<close>), the \<^emph>\<open>flow runtime\<close> (\<^verbatim>\<open>flow/\<close>), which asks the
  governance layer before it runs a flow, and the \<^emph>\<open>intents\<close> (\<^verbatim>\<open>intent/\<close> with their documents in
  \<^verbatim>\<open>artifacts/\<close>).  Definitions follow the Python functions one by one and keep
  their names where HOL allows it; every definition is executable and stands at the top level of its theory.

  \<^bold>\<open>Conventions.\<close>  \<open>Prelude\<close> has exceptions and the result type \<open>exn + 'a\<close>, dictionaries as association
  lists in insertion order, strings, and JSON-like values \<open>val\<close>; \<open>Py_Values\<close> has the conversions
  \<^verbatim>\<open>str\<close>, \<^verbatim>\<open>int\<close>, \<^verbatim>\<open>float\<close> between values.  Floats are reals, so rounding, infinities and NaN are not
  modelled; strings are lists of 8-bit code points.  Clock readings, fresh ids, random draws and
  process ids are arguments.  Objects are records that operations return updated; a file is the list
  or dictionary of the documents in it.  Two parameters stand for code outside the sources: \<open>H\<close>, the
  SHA-256 digest of a state's payload (properties that need it assume it injective on the payloads
  that occur), and \<open>rep\<close>, the text \<^verbatim>\<open>str\<close> gives a float, list or mapping.  Two more stand for library
  code that is not spelled out: \<open>sz\<close>, the length of the JSON text of a queue record, and \<open>rx\<close>, the
  regular expression engine.  In the flow theories \<open>B\<close> and \<open>R\<close> are the digests of a step name and of a
  revision; in the intent theories \<open>H\<close> is the SHA-256 digest of the JSON text of a normalized body.

  \<^bold>\<open>The verifier.\<close>
  \<^item> \<open>Selectors\<close> (\<^verbatim>\<open>pipeline/selectors.py\<close>), \<open>Plans\<close> (\<^verbatim>\<open>pipeline/engine.py\<close>): path selectors, plans, the
    sequential pipeline and the chain of its trace spans.  \<open>Pipeline_Analysis\<close> (\<^verbatim>\<open>pipeline/analysis.py\<close>):
    the dependency graph of a plan with Kahn's order, shown to respect every dependency, and the search
    for cycles, which runs on fuel one above the nodes and edges of the graph and is shown to return.
  \<^item> \<open>Kripke_State\<close>, \<open>Adapter\<close> (\<^verbatim>\<open>verify/state.py\<close>, \<^verbatim>\<open>verify/adapter.py\<close>): states, their hash payloads, and
    the transition system of a plan.
  \<^item> \<open>Explorer\<close>, \<open>Plan_Exploration\<close> (\<^verbatim>\<open>verify/explorer.py\<close>): bounded breadth-first exploration over an
    adapter interface; it terminates by a multiset of remaining depths, and records exactly the states
    reachable within the bound.
  \<^item> \<open>Ctl_Check\<close>, \<open>Ctl_Syntax\<close> (\<^verbatim>\<open>verify/ctl.py\<close>): the labelling algorithm against the path semantics of CTL;
    tokenizer, parser and printer.  The parser runs on fuel \<open>3 * tokens + 3\<close>, which is shown to suffice
    for every input.
  \<^item> \<open>Verify_Report\<close> (\<^verbatim>\<open>verify/invariants.py\<close>, \<^verbatim>\<open>report.py\<close>, \<^verbatim>\<open>spec.py\<close>): invariants, counterexamples, reports.
  \<^item> \<open>Joint\<close>, \<open>Joint_Product\<close>, \<open>Joint_Verify\<close> (\<^verbatim>\<open>verify/joint.py\<close>, \<^verbatim>\<open>por.py\<close>): the interleaving product of
    components as a refinement of the product of their transition relations.
  \<^item> \<open>Bundles\<close>, \<open>Interface\<close>, \<open>Compositional\<close>, \<open>Network\<close> (\<^verbatim>\<open>verify/bundle_adapter.py\<close>, \<^verbatim>\<open>compositional.py\<close>,
    \<^verbatim>\<open>network.py\<close>): plans read from bundles, interface abstraction, classification and discharge of
    formulas, verification of star networks.  \<open>Compositional_Sound\<close> shows that every formula outside
    global safety gets the verdict of the full product; \<open>Network\<close> has the counterexample for global
    safety.

  \<^bold>\<open>Governance.\<close>
  \<^item> \<open>Rolling_Window\<close>, \<open>Breaker\<close>, \<open>Rate_Limits\<close> (\<^verbatim>\<open>governance/utils.py\<close>, \<^verbatim>\<open>breaker.py\<close>, \<^verbatim>\<open>ratelimit.py\<close>,
    \<^verbatim>\<open>budget.py\<close>): windows against the full history of observations, the breaker against an abstract
    state machine, trackers that count reservations.
  \<^item> \<open>Governance\<close> (\<^verbatim>\<open>governance/manager.py\<close>): admission over all scopes and the life cycle of a request as
    a step relation, with the accounting invariant that bounds concurrency.
  \<^item> \<open>Audit_Trail\<close>, \<open>Approvals\<close> (\<^verbatim>\<open>governance/audit.py\<close>, \<^verbatim>\<open>hitl.py\<close>): masking of audit entries; the approval
    queue and the recovery of its state from the journal.
  \<^item> \<open>Governance_Config\<close> (\<^verbatim>\<open>governance/config.py\<close>): reading the configuration document.
  \<^item> \<open>Guards\<close> (\<^verbatim>\<open>guard/filters.py\<close> and the guard checks of \<^verbatim>\<open>governance/manager.py\<close>): rules, paths into
    payloads against an inductive account of what a path reaches, and the decision as the conjunction
    of what the rules demand.

  \<^bold>\<open>Task queue.\<close>
  \<^item> \<open>Task_Envelope\<close> (\<^verbatim>\<open>runtime/task.py\<close>): envelopes and their form in the queue.
  \<^item> \<open>Work_Queue\<close> (\<^verbatim>\<open>runtime/queue/memory.py\<close>, \<^verbatim>\<open>base.py\<close>): leases with deadlines over a heap; the locale
    \<open>work_queue\<close> is the contract the manager relies on.
  \<^item> \<open>File_Queue\<close> (\<^verbatim>\<open>runtime/queue/file.py\<close>): the queue over segment logs, index files and counter files.
    \<open>File_Leases\<close> has its heap and leases, \<open>File_Store\<close> the invariant that ties memory and directory and
    the second interpretation of \<open>work_queue\<close>, \<open>File_Recovery\<close> the opening of a directory and runs with
    restarts, and \<open>File_Locks\<close> the order in which its calls take the two locks.
  \<^item> \<open>Idempotency\<close>, \<open>Retry_Policy\<close>, \<open>Dead_Letters\<close> (\<^verbatim>\<open>runtime/idempotency.py\<close>, \<^verbatim>\<open>retry.py\<close>, \<^verbatim>\<open>dlq.py\<close>): the bounded
    cache of results with its snapshot, retry decisions, dead letters.
  \<^item> \<open>Task_Manager\<close> (\<^verbatim>\<open>runtime/queue/manager.py\<close>, \<^verbatim>\<open>_process_lease\<close> of \<^verbatim>\<open>runtime/workers.py\<close>): the composition
    of these under interleaved calls of producers and workers, once with workers that may be late and
    once with timely ones.

  \<^bold>\<open>Policies.\<close>
  \<^item> \<open>Policy_Conditions\<close> (\<^verbatim>\<open>policy/engine.py\<close>): conditions over a state, evaluated while they are parsed, against
    a grammar with a plain semantics; the parser runs on fuel one above the number of tokens, which is
    shown to suffice.  Checks of states, guards and traces.
  \<^item> \<open>Policy_Rules\<close> (\<^verbatim>\<open>policy/deterministic.py\<close>): comparison of values, conditions as documents, the order of
    rules and which rule sets an actuator.
  \<^item> \<open>Policy_Replay\<close> (\<^verbatim>\<open>policy/test_runner.py\<close>, \<^verbatim>\<open>policy/replay.py\<close>): canonical JSON, test suites and their exit
    code, replays and their comparison.

  \<^bold>\<open>Flows.\<close>
  \<^item> \<open>Flow_Execution\<close> (\<^verbatim>\<open>flow/spec.py\<close>, \<^verbatim>\<open>operations.py\<close>, \<^verbatim>\<open>_execute_immediately\<close> of \<^verbatim>\<open>runtime.py\<close>): specifications and
    revisions, the execution of one flow with its hooks and spans.  It runs on fuel one above the number
    of steps, which is shown to suffice, and follows a path that the specification alone determines.
  \<^item> \<open>Flow_Runtime\<close> (\<^verbatim>\<open>flow/runtime.py\<close>, \<^verbatim>\<open>policies.py\<close>, \<^verbatim>\<open>correlate.py\<close>): admission, the bounded queue, workers,
    single flight and the cache by idempotency key, deferred runs, statistics; the event loop as a step
    relation of callers and workers with its invariant.
  \<^item> \<open>Flow_Guarantees\<close>: the event loop simulates the life cycle of \<open>Governance\<close>, so its limits hold for the
    runtime; bounds and single flight; callers are answered, and the two cases in which they are not.

  \<^bold>\<open>Intents.\<close>
  \<^item> \<open>Intent_Completeness\<close> (\<^verbatim>\<open>intent/completeness.py\<close>, \<^verbatim>\<open>uncertainty.py\<close>): profiles, dispositions, the evidence for
    the six dimensions and the judgement of an intent, against a direct account of what has to be there.
    The chain of \<^verbatim>\<open>extends\<close> runs on fuel; one above the number of profiles suffices when the ids are the
    names of the files, and no fuel does for a profile that extends itself under another id.
  \<^item> \<open>Intent_Session\<close> (\<^verbatim>\<open>intent/session.py\<close>, \<^verbatim>\<open>design_loop.py\<close>, \<^verbatim>\<open>consistency_gate.py\<close>, \<^verbatim>\<open>clarify.py\<close>, \<^verbatim>\<open>artifacts/hash.py\<close>,
    \<^verbatim>\<open>normalize.py\<close>): the design loop as a step relation, its journal as a hash chain, clarifications and
    sealing.
  \<^item> \<open>Intent_Artifacts\<close>, \<open>Intent_Store\<close> (\<^verbatim>\<open>artifacts/models.py\<close>, \<^verbatim>\<open>intent/session_store.py\<close>): sessions as documents,
    and the store of them, with the JSON schema check as the parameter \<open>schema\<close>.
  \<^item> \<open>Intent_Tree\<close> (\<^verbatim>\<open>intent/tree_validator.py\<close>): the validator of intent trees; its search for cycles ends
    because every step marks a node.

  \<^bold>\<open>Interfaces.\<close>  Where one part relies on another the contract is a locale, interpreted on the model:
  the adapters of the explorer, the verifiers of the compositional mode (\<open>exact_verifiers\<close>), the usage
  window of the breaker and budgets (\<open>usage_window\<close>), reservations (\<open>reservations\<close>) and the work queue
  (\<open>work_queue\<close>).

  \<^bold>\<open>Not modelled.\<close>  Loading and writing of files, the rendering of reports as dictionaries, log records
  and metrics; locks and interleavings inside one call (every call is atomic, but for the lock orders
  of \<open>File_Locks\<close>); worker processes and their supervision; the command line, HTTP server, connectors
  and stores, which are I/O around the modelled core; the closing of a flow runtime, cancellation of
  callers and run listeners.  Of the intents the files that hold profiles and patterns, the JSON
  schema check, coverage and the wording of questions are left out; the workflow language is not
  covered.
\<close>

end
